(* ===== verification/Prelude.thy ===== *)
theory Prelude
  imports Main "HOL-Library.Monad_Syntax" "HOL-Library.Signed_Division"
begin

text \<open>
  Shared vocabulary of the development.

  \<^item> Outcomes of a C++ call. A function whose call may end in an assertion failure, in a
    dereference of a null pointer or in no return at all has an \<open>option\<close> result, and
    \<open>None\<close> is that abnormal end. A C++ exception is a value of \<open>exn\<close> and the result of a
    function that may throw is a sum, \<open>Inl\<close> carrying the exception.
  \<^item> Arithmetic on \<open>long long\<close> whose overflow is undefined: integers with a check.
  \<^item> The \<open>Compare\<close> template argument of the ordered maps as a locale: a strict total order
    on the keys. Its lemmas are the facts on key-sorted entry lists all ordered maps share.
  \<^item> The reference operations on entry lists: update, insert-if-absent, delete.
\<close>

named_theorems entry_simps \<open>rewriting of reference operations on sorted entry lists\<close>
named_theorems shape_simps \<open>unfolding of the small accessors of tree nodes\<close>

section \<open>Exceptions and abnormal ends\<close>

datatype exn = NoSuchMappingException string

type_synonym 'a throws = "exn + 'a"

text \<open>\<open>assert(b)\<close>: a false condition ends the program.\<close>

definition assert :: "bool \<Rightarrow> unit option" where
  "assert b = (if b then Some () else None)"

lemma assert_simps [simp]:
  "assert True = Some ()"
  "assert False = None"
  by (simp_all add: assert_def)

lemma assert_eq_Some [simp]: "assert b = Some u \<longleftrightarrow> b"
  by (simp add: assert_def)

text \<open>
  The result of an operation on \<open>long long\<close>: outside 64 bits there is none. The remainder truncates towards zero; it has no result for a
  divisor 0 and where the quotient overflows.
\<close>

definition long_long :: "int \<Rightarrow> int option" where
  "long_long v = (if - (2 ^ 63) \<le> v \<and> v < 2 ^ 63 then Some v else None)"

definition ll_mod :: "int \<Rightarrow> int \<Rightarrow> int option" where
  "ll_mod v p = do {
     assert (p \<noteq> 0);
     assert (\<not> (p = - 1 \<and> v = - (2 ^ 63)));
     Some (v smod p)
   }"

lemma long_long_in [simp]: "\<bar>v\<bar> < 2 ^ 63 \<Longrightarrow> long_long v = Some v"
  by (simp add: long_long_def abs_less_iff)

lemma ll_mod_in [simp]: "0 < p \<Longrightarrow> ll_mod v p = Some (v smod p)"
  by (simp add: ll_mod_def)

text \<open>Evaluates the first step of a sequence before looking at the rest.\<close>

lemma bind_weak_cong: "x = y \<Longrightarrow> Option.bind x f = Option.bind y f"
  by simp

text \<open>Pushing \<open>map_option\<close> through a sequence of calls.\<close>

lemma map_option_bind_right: "map_option g (x \<bind> f) = x \<bind> (\<lambda>y. map_option g (f y))"
  by (cases x) simp_all

lemma bind_map_option_left: "map_option g x \<bind> f = x \<bind> (\<lambda>y. f (g y))"
  by (cases x) simp_all

lemma bind_Some_map_option: "x \<bind> (\<lambda>y. Some (g y)) = map_option g x"
  by (cases x) simp_all

section \<open>Reference operations on entry lists\<close>

type_synonym 'k compare = "'k \<Rightarrow> 'k \<Rightarrow> bool"

definition sorted_keys :: "'k compare \<Rightarrow> ('k \<times> 'v) list \<Rightarrow> bool" where
  "sorted_keys cmp es = sorted_wrt cmp (map fst es)"

definition lt_part :: "'k compare \<Rightarrow> 'k \<Rightarrow> ('k \<times> 'v) list \<Rightarrow> ('k \<times> 'v) list" where
  "lt_part cmp k es = filter (\<lambda>e. cmp (fst e) k) es"

definition gt_part :: "'k compare \<Rightarrow> 'k \<Rightarrow> ('k \<times> 'v) list \<Rightarrow> ('k \<times> 'v) list" where
  "gt_part cmp k es = filter (\<lambda>e. cmp k (fst e)) es"

definition has_key :: "'k \<Rightarrow> ('k \<times> 'v) list \<Rightarrow> bool" where
  "has_key k es = (k \<in> fst ` set es)"

text \<open>Associate \<open>v\<close> with \<open>k\<close>, replacing an old value.\<close>

definition upd_entries ::
  "'k compare \<Rightarrow> 'k \<Rightarrow> 'v \<Rightarrow> ('k \<times> 'v) list \<Rightarrow> ('k \<times> 'v) list" where
  "upd_entries cmp k v es = lt_part cmp k es @ (k, v) # gt_part cmp k es"

text \<open>Associate \<open>v\<close> with \<open>k\<close> unless \<open>k\<close> has a value already.\<close>

definition add_entries ::
  "'k compare \<Rightarrow> 'k \<Rightarrow> 'v \<Rightarrow> ('k \<times> 'v) list \<Rightarrow> ('k \<times> 'v) list" where
  "add_entries cmp k v es = (if has_key k es then es else upd_entries cmp k v es)"

text \<open>The two together, by the \<open>replace\<close> flag of the \<open>insert\<close> helpers.\<close>

definition put_entries ::
  "'k compare \<Rightarrow> bool \<Rightarrow> 'k \<Rightarrow> 'v \<Rightarrow> ('k \<times> 'v) list \<Rightarrow> ('k \<times> 'v) list" where
  "put_entries cmp replace k v es =
     (if replace then upd_entries cmp k v es else add_entries cmp k v es)"

definition del_entries :: "'k \<Rightarrow> ('k \<times> 'v) list \<Rightarrow> ('k \<times> 'v) list" where
  "del_entries k es = filter (\<lambda>e. fst e \<noteq> k) es"

lemma has_key_simps [simp]:
  "\<not> has_key k []"
  "has_key k (e # es) \<longleftrightarrow> k = fst e \<or> has_key k es"
  "has_key k (es @ fs) \<longleftrightarrow> has_key k es \<or> has_key k fs"
  by (auto simp: has_key_def)

lemma has_key_map_of: "has_key k es \<longleftrightarrow> map_of es k \<noteq> None"
  by (induction es) auto

lemma lt_part_simps [simp]:
  "lt_part cmp k [] = []"
  "lt_part cmp k (es @ fs) = lt_part cmp k es @ lt_part cmp k fs"
  by (simp_all add: lt_part_def)

lemma gt_part_simps [simp]:
  "gt_part cmp k [] = []"
  "gt_part cmp k (es @ fs) = gt_part cmp k es @ gt_part cmp k fs"
  by (simp_all add: gt_part_def)

lemma set_parts [simp]:
  "e \<in> set (lt_part cmp k es) \<longleftrightarrow> e \<in> set es \<and> cmp (fst e) k"
  "e \<in> set (gt_part cmp k es) \<longleftrightarrow> e \<in> set es \<and> cmp k (fst e)"
  by (auto simp: lt_part_def gt_part_def)

lemma del_entries_simps [simp]:
  "del_entries k [] = []"
  "del_entries k (e # es) = (if fst e = k then del_entries k es else e # del_entries k es)"
  "del_entries k (es @ fs) = del_entries k es @ del_entries k fs"
  by (simp_all add: del_entries_def)

lemma del_entries_absent: "\<not> has_key k es \<Longrightarrow> del_entries k es = es"
  by (induction es) auto

text \<open>Assigning to the value of an entry that is there.\<close>

definition assign_entries :: "'k \<Rightarrow> 'v \<Rightarrow> ('k \<times> 'v) list \<Rightarrow> ('k \<times> 'v) list" where
  "assign_entries k v es = map (\<lambda>(x, w). (x, if x = k then v else w)) es"

lemma assign_entries_simps [simp]:
  "assign_entries k v [] = []"
  "assign_entries k v ((x, w) # es) = (x, if x = k then v else w) # assign_entries k v es"
  "assign_entries k v (es @ fs) = assign_entries k v es @ assign_entries k v fs"
  by (simp_all add: assign_entries_def)

lemma assign_entries_absent: "\<not> has_key k es \<Longrightarrow> assign_entries k v es = es"
  by (induction es) auto

lemma fst_assign_entries: "map fst (assign_entries k v es) = map fst es"
  by (auto simp: assign_entries_def)

lemma sorted_keys_simps [simp]:
  "sorted_keys cmp []"
  "sorted_keys cmp (e # es) \<longleftrightarrow> (\<forall>f \<in> set es. cmp (fst e) (fst f)) \<and> sorted_keys cmp es"
  "sorted_keys cmp (es @ fs) \<longleftrightarrow> sorted_keys cmp es \<and> sorted_keys cmp fs \<and>
     (\<forall>e \<in> set es. \<forall>f \<in> set fs. cmp (fst e) (fst f))"
  by (auto simp: sorted_keys_def sorted_wrt_append)

lemma sorted_keys_filter: "sorted_keys cmp es \<Longrightarrow> sorted_keys cmp (filter P es)"
  by (induction es) auto

lemma sorted_keys_del_entries: "sorted_keys cmp es \<Longrightarrow> sorted_keys cmp (del_entries k es)"
  unfolding del_entries_def by (rule sorted_keys_filter)

lemma map_of_del_entries: "map_of (del_entries k es) = (map_of es)(k := None)"
  by (induction es) (auto simp: fun_eq_iff)

section \<open>The \<open>Compare\<close> argument of an ordered map\<close>

locale compare_order =
  fixes compare :: "'k compare"
  assumes compare_irrefl: "\<not> compare x x"
    and compare_trans: "compare x y \<Longrightarrow> compare y z \<Longrightarrow> compare x z"
    and compare_total: "x \<noteq> y \<Longrightarrow> \<not> compare x y \<Longrightarrow> compare y x"
begin

lemma compare_asym: "compare x y \<Longrightarrow> \<not> compare y x"
  using compare_irrefl compare_trans by blast

lemma compare_neq: "compare x y \<Longrightarrow> x \<noteq> y"
  using compare_irrefl by blast

lemma compare_cases [case_names less equal greater]:
  obtains "compare x y" | "x = y" | "compare y x"
  using compare_total by blast

lemma parts_below [entry_simps]:
  assumes "compare k x" and "\<forall>e \<in> set es. compare x (fst e)"
  shows "lt_part compare k es = []" and "gt_part compare k es = es"
    and "\<not> has_key k es" and "map_of es k = None"
proof -
  have *: "compare k (fst e)" if "e \<in> set es" for e
    using assms that compare_trans by blast
  show "lt_part compare k es = []"
    unfolding lt_part_def using * compare_asym by (auto simp: filter_empty_conv)
  show "gt_part compare k es = es"
    unfolding gt_part_def using * by (simp add: filter_id_conv)
  show "\<not> has_key k es"
    using * compare_irrefl by (auto simp: has_key_def)
  then show "map_of es k = None"
    by (simp add: has_key_map_of)
qed

lemma parts_above [entry_simps]:
  assumes "compare x k" and "\<forall>e \<in> set es. compare (fst e) x"
  shows "lt_part compare k es = es" and "gt_part compare k es = []"
    and "\<not> has_key k es" and "map_of es k = None"
proof -
  have *: "compare (fst e) k" if "e \<in> set es" for e
    using assms that compare_trans by blast
  show "lt_part compare k es = es"
    unfolding lt_part_def using * by (simp add: filter_id_conv)
  show "gt_part compare k es = []"
    unfolding gt_part_def using * compare_asym by (auto simp: filter_empty_conv)
  show "\<not> has_key k es"
    using * compare_irrefl by (auto simp: has_key_def)
  then show "map_of es k = None"
    by (simp add: has_key_map_of)
qed

lemma parts_at_left [entry_simps]:
  assumes "\<forall>e \<in> set es. compare (fst e) k"
  shows "lt_part compare k es = es" and "gt_part compare k es = []"
    and "\<not> has_key k es" and "map_of es k = None"
proof -
  show "lt_part compare k es = es"
    unfolding lt_part_def using assms by (simp add: filter_id_conv)
  show "gt_part compare k es = []"
    unfolding gt_part_def using assms compare_asym by (auto simp: filter_empty_conv)
  show "\<not> has_key k es"
    using assms compare_irrefl by (auto simp: has_key_def)
  then show "map_of es k = None"
    by (simp add: has_key_map_of)
qed

lemma parts_at_right [entry_simps]:
  assumes "\<forall>e \<in> set es. compare k (fst e)"
  shows "lt_part compare k es = []" and "gt_part compare k es = es"
    and "\<not> has_key k es" and "map_of es k = None"
proof -
  show "lt_part compare k es = []"
    unfolding lt_part_def using assms compare_asym by (auto simp: filter_empty_conv)
  show "gt_part compare k es = es"
    unfolding gt_part_def using assms by (simp add: filter_id_conv)
  show "\<not> has_key k es"
    using assms compare_irrefl by (auto simp: has_key_def)
  then show "map_of es k = None"
    by (simp add: has_key_map_of)
qed

lemma parts_Cons [entry_simps]:
  "lt_part compare k (e # es) =
     (if compare (fst e) k then e # lt_part compare k es else lt_part compare k es)"
  "gt_part compare k (e # es) =
     (if compare k (fst e) then e # gt_part compare k es else gt_part compare k es)"
  by (simp_all add: lt_part_def gt_part_def)

lemma find_none_below:
  assumes "\<forall>e \<in> set es. compare (fst e) x" and "\<not> compare k x"
  shows "List.find (\<lambda>e. \<not> compare (fst e) k) es = None"
    and "List.find (\<lambda>e. compare k (fst e)) es = None"
proof -
  have "compare (fst e) k" if "e \<in> set es" for e
    using assms that compare_trans compare_total by (metis (full_types))
  then show "List.find (\<lambda>e. \<not> compare (fst e) k) es = None"
    and "List.find (\<lambda>e. compare k (fst e)) es = None"
    using compare_asym unfolding find_None_iff by blast+
qed

lemma find_none_above:
  assumes "\<forall>e \<in> set es. compare x (fst e)" and "\<not> compare x k"
  shows "List.find (\<lambda>e. \<not> compare k (fst e)) (rev es) = None"
    and "List.find (\<lambda>e. compare (fst e) k) (rev es) = None"
proof -
  have "compare k (fst e)" if "e \<in> set (rev es)" for e
    using assms that compare_trans compare_total by (metis (full_types) set_rev)
  then show "List.find (\<lambda>e. \<not> compare k (fst e)) (rev es) = None"
    and "List.find (\<lambda>e. compare (fst e) k) (rev es) = None"
    using compare_asym unfolding find_None_iff by blast+
qed

lemma sorted_upd_entries:
  assumes "sorted_keys compare es"
  shows "sorted_keys compare (upd_entries compare k v es)"
proof -
  have "sorted_keys compare (lt_part compare k es)" "sorted_keys compare (gt_part compare k es)"
    using assms by (simp_all add: lt_part_def gt_part_def sorted_keys_filter)
  then show ?thesis
    by (auto simp: upd_entries_def intro: compare_trans)
qed

lemma sorted_add_entries:
  "sorted_keys compare es \<Longrightarrow> sorted_keys compare (add_entries compare k v es)"
  by (simp add: add_entries_def sorted_upd_entries)

lemma sorted_put_entries:
  "sorted_keys compare es \<Longrightarrow> sorted_keys compare (put_entries compare replace k v es)"
  by (simp add: put_entries_def sorted_upd_entries sorted_add_entries)

lemma put_entries_Nil: "put_entries compare replace k v [] = [(k, v)]"
  by (simp add: put_entries_def add_entries_def upd_entries_def)

lemma map_of_upd_entries: "map_of (upd_entries compare k v es) = (map_of es)(k \<mapsto> v)"
proof
  fix x
  have parts: "map_of (lt_part compare k es) y = (if compare y k then map_of es y else None)"
    "map_of (gt_part compare k es) y = (if compare k y then map_of es y else None)" for y
    by (induction es) (auto simp: parts_Cons)
  show "map_of (upd_entries compare k v es) x = ((map_of es)(k \<mapsto> v)) x"
    by (cases x k rule: compare_cases)
      (auto simp: upd_entries_def map_add_def parts compare_irrefl compare_asym
        dest: compare_neq split: option.split)
qed

lemma map_of_add_entries:
  "map_of (add_entries compare k v es) =
     (case map_of es k of None \<Rightarrow> (map_of es)(k \<mapsto> v) | Some _ \<Rightarrow> map_of es)"
  by (auto simp: add_entries_def has_key_map_of map_of_upd_entries split: option.split)

lemma length_upd_entries:
  assumes "sorted_keys compare es"
  shows "length (upd_entries compare k v es) = (if has_key k es then length es else Suc (length es))"
  using assms
proof (induction es)
  case Nil
  then show ?case by (simp add: upd_entries_def)
next
  case (Cons e es)
  then have IH: "length (upd_entries compare k v es) = (if has_key k es then length es else Suc (length es))"
    by simp
  show ?case
  proof (cases k "fst e" rule: compare_cases)
    case less
    then show ?thesis
      using Cons.prems by (auto simp: upd_entries_def entry_simps compare_asym compare_neq)
  next
    case equal
    then show ?thesis
      using Cons.prems by (auto simp: upd_entries_def entry_simps compare_irrefl)
  next
    case greater
    then show ?thesis
      using IH by (auto simp: upd_entries_def parts_Cons compare_asym dest: compare_neq)
  qed
qed

lemma sorted_keys_unique:
  assumes "sorted_keys compare es" and "(k, v) \<in> set es" and "(k, w) \<in> set es"
  shows "v = w"
  using assms by (induction es) (fastforce dest: compare_neq)+

text \<open>Dropping the keys of all entries that match drops exactly these entries.\<close>

lemma filter_matching_keys:
  assumes "sorted_keys compare es"
  shows "filter (\<lambda>e. fst e \<notin> set (map fst (filter (\<lambda>(k, v). p k v) es))) es =
    filter (\<lambda>(k, v). \<not> p k v) es"
  using sorted_keys_unique [OF assms] by (intro filter_cong) (force simp: image_iff)+

lemma sorted_keys_distinct: "sorted_keys compare es \<Longrightarrow> distinct (map fst es)"
  by (induction es) (auto dest: compare_neq)

lemma length_del_entries:
  assumes "sorted_keys compare es"
  shows "length (del_entries k es) = (if has_key k es then length es - 1 else length es)"
  using assms
proof (induction es)
  case Nil
  then show ?case by simp
next
  case (Cons e es)
  show ?case
  proof (cases "fst e = k")
    case True
    then have "\<not> has_key k es"
      using Cons.prems by (auto simp: has_key_def compare_irrefl dest: compare_neq)
    with True show ?thesis
      by (simp add: del_entries_absent)
  next
    case False
    with Cons show ?thesis
      by (cases es) (auto simp: has_key_def)
  qed
qed

end

text \<open>\<open>std::less<Key>\<close>, the default \<open>Compare\<close>.\<close>

abbreviation (input) std_less :: "'k::linorder compare" where
  "std_less \<equiv> (<)"

interpretation less: compare_order "std_less"
  by unfold_locales auto

text \<open>\<open>std::greater<Key>\<close>, the order of a map with descending keys.\<close>

abbreviation (input) std_greater :: "'k::linorder compare" where
  "std_greater \<equiv> (>)"

interpretation greater: compare_order "std_greater"
  by unfold_locales auto

end
