(* ===== verification/EttTreap.thy ===== *)
theory EttTreap
  imports Prelude "HOL-Library.Multiset"
begin

text \<open>
  The sequences of \<^verbatim>\<open>ett/ett_subtree_size.cpp\<close> and \<^verbatim>\<open>ett/ett_connectivity.cpp\<close>: treaps of nodes with parent
  pointers, on an explicit heap. Here are the nodes, the functions of the class \<open>Treap\<close> (\<open>Merge\<close>, \<open>GetPosition\<close>,
  \<open>Split\<close>, \<open>SplitUp2\<close>, \<open>SplitUp3\<close>) and the helpers \<open>GetSize\<close> and \<open>FindRoot\<close>, and their proofs: on a heap
  that holds trees in heap order they concatenate and cut the
  sequences of the trees. \<open>None\<close> is a null dereference or a loop that never ends. The macro \<open>ASSERT\<close> is empty
  in the program as built and has no counterpart.
\<close>

section \<open>Nodes and pointers\<close>

type_synonym pointer = "nat option"

record ett_node =
  en_size :: nat
  en_priority :: int
  en_left :: pointer
  en_right :: pointer
  en_parent :: pointer
  en_from :: nat
  en_to :: nat
  en_num_vertex :: nat
  en_num_edge :: nat

type_synonym ett_heap = "nat \<Rightarrow> ett_node option"

definition node_at :: "ett_heap \<Rightarrow> pointer \<Rightarrow> ett_node option" where
  "node_at h p = (case p of None \<Rightarrow> None | Some a \<Rightarrow> h a)"

definition store :: "pointer \<Rightarrow> (ett_node \<Rightarrow> ett_node) \<Rightarrow> ett_heap \<Rightarrow> ett_heap option" where
  "store p f h =
     (case p of None \<Rightarrow> None
      | Some a \<Rightarrow> (case h a of None \<Rightarrow> None | Some n \<Rightarrow> Some (h(a \<mapsto> f n))))"

text \<open>The constructor \<open>Node(from, to)\<close>; the priority is the next random number.\<close>

definition new_node :: "int \<Rightarrow> nat \<Rightarrow> nat \<Rightarrow> ett_node" where
  "new_node priority from to = \<lparr>en_size = 1, en_priority = priority, en_left = None, en_right = None, en_parent = None,
     en_from = from, en_to = to, en_num_vertex = (if from = to then 1 else 0), en_num_edge = (if from = to then 0 else 1)\<rparr>"

text \<open>\<open>Maintain\<close>; the part for one child.\<close>

definition absorb :: "pointer \<Rightarrow> pointer \<Rightarrow> ett_heap \<Rightarrow> ett_heap option" where
  "absorb child this h =
     (if child = None then Some h
      else do {
        c \<leftarrow> node_at h child;
        h \<leftarrow> store this (\<lambda>n. n\<lparr>en_size := en_size n + en_size c\<rparr>) h;
        h \<leftarrow> store child (\<lambda>n. n\<lparr>en_parent := this\<rparr>) h;
        store this (\<lambda>n. n\<lparr>en_num_vertex := en_num_vertex n + en_num_vertex c,
          en_num_edge := en_num_edge n + en_num_edge c\<rparr>) h
      })"

definition Maintain :: "pointer \<Rightarrow> ett_heap \<Rightarrow> ett_heap option" where
  "Maintain this h = do {
     h \<leftarrow> store this (\<lambda>n. n\<lparr>en_size := 1,
       en_num_vertex := (if en_from n = en_to n then 1 else 0),
       en_num_edge := (if en_from n = en_to n then 0 else 1)\<rparr>) h;
     n \<leftarrow> node_at h this;
     h \<leftarrow> absorb (en_left n) this h;
     absorb (en_right n) this h
   }"

definition GetSize :: "ett_heap \<Rightarrow> pointer \<Rightarrow> nat option" where
  "GetSize h p = (if p = None then Some 0 else map_option en_size (node_at h p))"

partial_function (option) FindRoot :: "ett_heap \<Rightarrow> pointer \<Rightarrow> pointer option" where [code]:
  "FindRoot h p =
     (if p = None then Some None
      else do {
        n \<leftarrow> node_at h p;
        if en_parent n \<noteq> None then FindRoot h (en_parent n) else Some p
      })"

section \<open>The treap\<close>

partial_function (option) Merge :: "pointer \<Rightarrow> pointer \<Rightarrow> ett_heap \<Rightarrow> (pointer \<times> ett_heap) option" where [code]:
  "Merge a b h =
     (if a = None then Some (b, h)
      else if b = None then Some (a, h)
      else do {
        an \<leftarrow> node_at h a;
        bn \<leftarrow> node_at h b;
        if en_priority an < en_priority bn then do {
          (r, h) \<leftarrow> Merge (en_right an) b h;
          h \<leftarrow> store a (\<lambda>n. n\<lparr>en_right := r\<rparr>) h;
          h \<leftarrow> Maintain a h;
          Some (a, h)
        }
        else do {
          (l, h) \<leftarrow> Merge a (en_left bn) h;
          h \<leftarrow> store b (\<lambda>n. n\<lparr>en_left := l\<rparr>) h;
          h \<leftarrow> Maintain b h;
          Some (b, h)
        }
      })"

text \<open>The loop of \<open>GetPosition\<close>.\<close>

partial_function (option) climb_position :: "ett_heap \<Rightarrow> pointer \<Rightarrow> nat \<Rightarrow> nat option" where [code]:
  "climb_position h p position =
     (if p = None then Some position
      else do {
        n \<leftarrow> node_at h p;
        position \<leftarrow>
          (if en_parent n \<noteq> None then do {
             q \<leftarrow> node_at h (en_parent n);
             if p = en_right q then do { s \<leftarrow> GetSize h (en_left q); Some (position + (s + 1)) }
             else Some position
           }
           else Some position);
        climb_position h (en_parent n) position
      })"

definition GetPosition :: "ett_heap \<Rightarrow> pointer \<Rightarrow> nat option" where
  "GetPosition h p = do {
     n \<leftarrow> node_at h p;
     s \<leftarrow> GetSize h (en_left n);
     climb_position h p (s + 1)
   }"

text \<open>\<open>if (p) p->parent_ = nullptr;\<close>\<close>

definition orphan :: "pointer \<Rightarrow> ett_heap \<Rightarrow> ett_heap option" where
  "orphan p h = (if p = None then Some h else store p (\<lambda>n. n\<lparr>en_parent := None\<rparr>) h)"

partial_function (option) Split :: "pointer \<Rightarrow> int \<Rightarrow> ett_heap \<Rightarrow> (pointer \<times> pointer \<times> ett_heap) option" where [code]:
  "Split p k h =
     (if p = None then Some (None, None, h)
      else do {
        n \<leftarrow> node_at h p;
        s \<leftarrow> GetSize h (en_left n);
        (x, y, h) \<leftarrow>
          (if int s < k then do {
             (x, y, h) \<leftarrow> Split (en_right n) (k - int s - 1) h;
             h \<leftarrow> store p (\<lambda>n. n\<lparr>en_right := x\<rparr>) h;
             Some (p, y, h)
           }
           else do {
             (x, y, h) \<leftarrow> Split (en_left n) k h;
             h \<leftarrow> store p (\<lambda>n. n\<lparr>en_left := y\<rparr>) h;
             Some (x, p, h)
           });
        h \<leftarrow> Maintain p h;
        h \<leftarrow> orphan x h;
        h \<leftarrow> orphan y h;
        Some (x, y, h)
      })"

text \<open>
  The first half of the loop body of \<open>SplitUp2\<close> and \<open>SplitUp3\<close>: the node is unlinked from its parent. The flag
  \<open>is_p_left_child_of_parent\<close> keeps its old value when there is no parent.
\<close>

definition unlink_up :: "pointer \<Rightarrow> bool \<Rightarrow> ett_heap \<Rightarrow> (pointer \<times> bool \<times> ett_heap) option" where
  "unlink_up p is_left h = do {
     n \<leftarrow> node_at h p;
     let parent = en_parent n;
     if parent \<noteq> None then do {
       q \<leftarrow> node_at h parent;
       let is_left = (en_left q = p);
       h \<leftarrow> store parent (\<lambda>n. if is_left then n\<lparr>en_left := None\<rparr> else n\<lparr>en_right := None\<rparr>) h;
       h \<leftarrow> store p (\<lambda>n. n\<lparr>en_parent := None\<rparr>) h;
       Some (parent, is_left, h)
     }
     else Some (parent, is_left, h)
   }"

partial_function (option) split_up ::
  "pointer \<Rightarrow> pointer \<Rightarrow> pointer \<Rightarrow> bool \<Rightarrow> bool \<Rightarrow> ett_heap \<Rightarrow> (pointer \<times> pointer \<times> ett_heap) option" where [code]:
  "split_up p a b is_left from_left h =
     (if p = None then Some (a, b, h)
      else do {
        (parent, is_left, h) \<leftarrow> unlink_up p is_left h;
        (a, b, h) \<leftarrow>
          (if \<not> from_left then do { (a, h) \<leftarrow> Merge p a h; Some (a, b, h) }
           else do { (b, h) \<leftarrow> Merge b p h; Some (a, b, h) });
        h \<leftarrow> Maintain p h;
        split_up parent a b is_left is_left h
      })"

definition SplitUp2 :: "pointer \<Rightarrow> ett_heap \<Rightarrow> (pointer \<times> pointer \<times> ett_heap) option" where
  "SplitUp2 p h = do {
     n \<leftarrow> node_at h p;
     let b = en_right n;
     h \<leftarrow> orphan b h;
     h \<leftarrow> store p (\<lambda>n. n\<lparr>en_right := None\<rparr>) h;
     split_up p None b False False h
   }"

definition SplitUp3 :: "pointer \<Rightarrow> ett_heap \<Rightarrow> (pointer \<times> pointer \<times> pointer \<times> ett_heap) option" where
  "SplitUp3 p h = do {
     n \<leftarrow> node_at h p;
     let a = en_left n;
     h \<leftarrow> orphan a h;
     h \<leftarrow> store p (\<lambda>n. n\<lparr>en_left := None\<rparr>) h;
     n \<leftarrow> node_at h p;
     let b = en_right n;
     h \<leftarrow> orphan b h;
     h \<leftarrow> store p (\<lambda>n. n\<lparr>en_right := None\<rparr>) h;
     (parent, is_left, h) \<leftarrow> unlink_up p False h;
     h \<leftarrow> Maintain p h;
     (a, b, h) \<leftarrow> split_up parent a b is_left is_left h;
     Some (a, p, b, h)
   }"

section \<open>Trees on the heap\<close>

text \<open>
  A tree with the addresses of its nodes and their pairs \<open>(from, to)\<close>. The priority of a node is the random number of its
  address, \<open>rng a\<close>: nodes are allocated one after the other and each draws one number.
\<close>

datatype etree = EL | EN etree nat "nat \<times> nat" etree

fun root_ptr :: "etree \<Rightarrow> pointer" where
  "root_ptr EL = None"
| "root_ptr (EN l a x r) = Some a"

fun eaddrs :: "etree \<Rightarrow> nat list" where
  "eaddrs EL = []"
| "eaddrs (EN l a x r) = eaddrs l @ a # eaddrs r"

fun earcs :: "etree \<Rightarrow> (nat \<times> nat) list" where
  "earcs EL = []"
| "earcs (EN l a x r) = earcs l @ x # earcs r"

text \<open>The nodes in order, each with its address and its pair.\<close>

fun enodes :: "etree \<Rightarrow> (nat \<times> nat \<times> nat) list" where
  "enodes EL = []"
| "enodes (EN l a x r) = enodes l @ (a, x) # enodes r"

lemma eaddrs_nodes: "eaddrs t = map fst (enodes t)"
  by (induction t) auto

lemma earcs_nodes: "earcs t = map snd (enodes t)"
  by (induction t) auto

definition vertices_in :: "(nat \<times> nat) list \<Rightarrow> nat" where
  "vertices_in s = length (filter (\<lambda>(u, v). u = v) s)"

definition edges_in :: "(nat \<times> nat) list \<Rightarrow> nat" where
  "edges_in s = length (filter (\<lambda>(u, v). u \<noteq> v) s)"

lemma counts_simps [simp]:
  "vertices_in [] = 0" "vertices_in (x # s) = (if fst x = snd x then Suc (vertices_in s) else vertices_in s)"
  "vertices_in (s @ t) = vertices_in s + vertices_in t"
  "edges_in [] = 0" "edges_in (x # s) = (if fst x = snd x then edges_in s else Suc (edges_in s))"
  "edges_in (s @ t) = edges_in s + edges_in t"
  by (auto simp: vertices_in_def edges_in_def case_prod_beta')

text \<open>The cells of a tree whose root has the parent pointer \<open>par\<close>, all fields up to date.\<close>

fun cells :: "(nat \<Rightarrow> int) \<Rightarrow> ett_heap \<Rightarrow> pointer \<Rightarrow> etree \<Rightarrow> bool" where
  "cells rng h par EL = True"
| "cells rng h par (EN l a x r) =
     (h a = Some \<lparr>en_size = length (earcs (EN l a x r)), en_priority = rng a, en_left = root_ptr l, en_right = root_ptr r,
        en_parent = par, en_from = fst x, en_to = snd x, en_num_vertex = vertices_in (earcs (EN l a x r)),
        en_num_edge = edges_in (earcs (EN l a x r))\<rparr> \<and>
      cells rng h (Some a) l \<and> cells rng h (Some a) r)"

lemma ecells_cong: "(\<And>y. y \<in> set (eaddrs t) \<Longrightarrow> h y = h' y) \<Longrightarrow> cells rng h par t = cells rng h' par t"
  by (induction t arbitrary: par) auto

lemma cells_upd [simp]: "y \<notin> set (eaddrs t) \<Longrightarrow> cells rng (h(y := n)) par t = cells rng h par t"
  by (rule ecells_cong) auto

lemma length_addrs: "length (eaddrs t) = length (earcs t)"
  by (induction t) auto

text \<open>The root of a tree, and a new parent for it.\<close>

lemma cells_root:
  assumes "cells rng h par t" and "t = EN l a x r"
  shows "\<exists>n. h a = Some n \<and> en_size n = length (earcs t) \<and> en_priority n = rng a \<and> en_left n = root_ptr l \<and>
    en_right n = root_ptr r \<and> en_parent n = par \<and> en_from n = fst x \<and> en_to n = snd x \<and>
    en_num_vertex n = vertices_in (earcs t) \<and> en_num_edge n = edges_in (earcs t)"
  using assms by auto

lemma ecells_reparent:
  assumes "cells rng h par (EN l a x r)" and "distinct (eaddrs (EN l a x r))" and "h a = Some n"
  shows "cells rng (h(a \<mapsto> n\<lparr>en_parent := q\<rparr>)) q (EN l a x r)"
  using assms by auto

lemma root_ptr_Some: "root_ptr t = Some a \<longleftrightarrow> (\<exists>l x r. t = EN l a x r)"
  by (cases t) auto

lemma root_ptr_None: "root_ptr t = None \<longleftrightarrow> t = EL"
  by (cases t) auto

text \<open>\<open>Maintain\<close>: the fields of the node, and the parent pointers of its children.\<close>

lemma absorb_cells:
  assumes "cells rng h par t" and "distinct (eaddrs t)" and "a \<notin> set (eaddrs t)" and "h a = Some n"
  shows "\<exists>h'. absorb (root_ptr t) (Some a) h = Some h' \<and> cells rng h' (Some a) t \<and>
    h' a = Some (n\<lparr>en_size := en_size n + length (earcs t), en_num_vertex := en_num_vertex n + vertices_in (earcs t),
      en_num_edge := en_num_edge n + edges_in (earcs t)\<rparr>) \<and>
    (\<forall>y. y \<notin> set (a # eaddrs t) \<longrightarrow> h' y = h y)"
proof (cases t)
  case EL
  then show ?thesis
    using assms by (simp add: absorb_def)
next
  case (EN l b x r)
  then show ?thesis
    using assms by (auto simp: absorb_def node_at_def store_def)
qed

lemma Maintain_cells:
  assumes "h a = Some n" and "en_left n = root_ptr l" and "en_right n = root_ptr r" and "en_priority n = rng a"
    and "en_parent n = par" and "en_from n = fst x" and "en_to n = snd x"
    and "cells rng h pl l" and "cells rng h pr r" and "distinct (eaddrs (EN l a x r))"
  shows "\<exists>h'. Maintain (Some a) h = Some h' \<and> cells rng h' par (EN l a x r) \<and>
    (\<forall>y. y \<notin> set (eaddrs (EN l a x r)) \<longrightarrow> h' y = h y)"
proof -
  let ?n = "n\<lparr>en_size := 1, en_num_vertex := (if en_from n = en_to n then 1 else 0),
    en_num_edge := (if en_from n = en_to n then 0 else 1)\<rparr>"
  let ?h = "h(a \<mapsto> ?n)"
  have d: "a \<notin> set (eaddrs l)" "a \<notin> set (eaddrs r)" "distinct (eaddrs l)" "distinct (eaddrs r)"
      "set (eaddrs l) \<inter> set (eaddrs r) = {}"
    using assms(10) by auto
  obtain h1 where h1: "absorb (root_ptr l) (Some a) ?h = Some h1" "cells rng h1 (Some a) l"
      "h1 a = Some (?n\<lparr>en_size := en_size ?n + length (earcs l), en_num_vertex := en_num_vertex ?n + vertices_in (earcs l),
        en_num_edge := en_num_edge ?n + edges_in (earcs l)\<rparr>)"
      "\<forall>y. y \<notin> set (a # eaddrs l) \<longrightarrow> h1 y = ?h y"
    using absorb_cells [of rng ?h pl l a ?n] assms(8) d by auto
  have "cells rng h1 pr r"
    using assms(9) d h1(4) ecells_cong [of r h1 h rng pr] by fastforce
  then obtain h2 where h2: "absorb (root_ptr r) (Some a) h1 = Some h2" "cells rng h2 (Some a) r"
      "h2 a = Some (?n\<lparr>en_size := 1 + length (earcs l) + length (earcs r),
        en_num_vertex := en_num_vertex ?n + vertices_in (earcs l) + vertices_in (earcs r),
        en_num_edge := en_num_edge ?n + edges_in (earcs l) + edges_in (earcs r)\<rparr>)"
      "\<forall>y. y \<notin> set (a # eaddrs r) \<longrightarrow> h2 y = h1 y"
    using absorb_cells [of rng h1 pr r a] h1(3) d by auto
  have "cells rng h2 (Some a) l"
    using h1(2) d h2(4) ecells_cong [of l h2 h1 rng "Some a"] by fastforce
  moreover have "Maintain (Some a) h = Some h2"
    using assms(1-3) h1(1) h2(1) by (simp add: Maintain_def store_def node_at_def)
  moreover have "\<forall>y. y \<notin> set (eaddrs (EN l a x r)) \<longrightarrow> h2 y = h y"
    using h1(4) h2(4) by auto
  moreover have "cells rng h2 par (EN l a x r)"
    using h2(2,3) calculation(1) assms(2-7) by (cases n) auto
  ultimately show ?thesis
    by blast
qed

section \<open>Merge\<close>

text \<open>
  Heap order: a node has a priority not above those in its left subtree and below those in its right subtree. With equal priorities
  \<open>Merge\<close> puts its second argument on top, so the order is strict on one side.
\<close>

fun eheap :: "(nat \<Rightarrow> int) \<Rightarrow> etree \<Rightarrow> bool" where
  "eheap rng EL = True"
| "eheap rng (EN l a x r) =
     ((\<forall>y \<in> set (eaddrs l). rng a \<le> rng y) \<and> (\<forall>y \<in> set (eaddrs r). rng a < rng y) \<and> eheap rng l \<and> eheap rng r)"

function emerge :: "(nat \<Rightarrow> int) \<Rightarrow> etree \<Rightarrow> etree \<Rightarrow> etree" where
  "emerge rng EL t = t"
| "emerge rng (EN l a x r) EL = EN l a x r"
| "emerge rng (EN l a x r) (EN l' b y r') =
     (if rng a < rng b then EN l a x (emerge rng r (EN l' b y r'))
      else EN (emerge rng (EN l a x r) l') b y r')"
  by pat_completeness auto
termination
  by (relation "measure (\<lambda>(_, s, t). size s + size t)") auto

lemma emerge_lists [simp]:
  "eaddrs (emerge rng s t) = eaddrs s @ eaddrs t"
  "earcs (emerge rng s t) = earcs s @ earcs t"
  "enodes (emerge rng s t) = enodes s @ enodes t"
  by (induction rng s t rule: emerge.induct) auto

lemma emerge_EL [simp]: "emerge rng t EL = t"
  by (cases t) auto

lemma eheap_root: "eheap rng (EN l a x r) \<Longrightarrow> y \<in> set (eaddrs (EN l a x r)) \<Longrightarrow> rng a \<le> rng y"
  by (auto simp: less_imp_le)

lemma emerge_heap:
  assumes "eheap rng s" and "eheap rng t"
  shows "eheap rng (emerge rng s t)"
  using assms
proof (induction rng s t rule: emerge.induct)
  case (3 rng l a x r l' b y r')
  show ?case
  proof (cases "rng a < rng b")
    case True
    have "\<forall>z \<in> set (eaddrs (EN l' b y r')). rng a < rng z"
      using True eheap_root [OF 3(4)] by (metis less_le_trans)
    then show ?thesis
      using True 3 by (auto simp: ball_Un)
  next
    case False
    then have "\<forall>z \<in> set (eaddrs (EN l a x r)). rng b \<le> rng z"
      using eheap_root [OF 3(3)] by (metis leI le_less_trans less_imp_le linorder_not_less)
    then show ?thesis
      using False 3 by (auto simp: ball_Un)
  qed
qed auto

lemma Merge_null: "Merge None q h = Some (q, h)" "Merge p None h = Some (p, h)"
  by (subst Merge.simps, simp)+

lemma Merge_cells:
  assumes "cells rng h ps s" and "cells rng h pt t" and "distinct (eaddrs s @ eaddrs t)"
  shows "\<exists>h' q. Merge (root_ptr s) (root_ptr t) h = Some (root_ptr (emerge rng s t), h') \<and>
    cells rng h' q (emerge rng s t) \<and> (ps = pt \<longrightarrow> q = ps) \<and>
    (\<forall>y. y \<notin> set (eaddrs s @ eaddrs t) \<longrightarrow> h' y = h y)"
  using assms
proof (induction rng s t arbitrary: h ps pt rule: emerge.induct)
  case (1 rng t)
  then show ?case
    by (auto simp: Merge_null)
next
  case (2 rng l a x r)
  then show ?case
    by (simp add: Merge_null)
next
  case (3 rng l a x r l' b y r')
  let ?s = "EN l a x r" and ?t = "EN l' b y r'"
  have roots: "\<exists>n. h a = Some n \<and> en_priority n = rng a \<and> en_left n = root_ptr l \<and> en_right n = root_ptr r \<and>
      en_parent n = ps \<and> en_from n = fst x \<and> en_to n = snd x"
    "\<exists>n. h b = Some n \<and> en_priority n = rng b \<and> en_left n = root_ptr l' \<and> en_right n = root_ptr r' \<and>
      en_parent n = pt \<and> en_from n = fst y \<and> en_to n = snd y"
    using 3(3,4) by auto
  then obtain n m where n: "h a = Some n" "en_priority n = rng a" "en_left n = root_ptr l" "en_right n = root_ptr r"
        "en_parent n = ps" "en_from n = fst x" "en_to n = snd x"
      and m: "h b = Some m" "en_priority m = rng b" "en_left m = root_ptr l'" "en_right m = root_ptr r'"
        "en_parent m = pt" "en_from m = fst y" "en_to m = snd y"
    by blast
  have d: "distinct (eaddrs r @ eaddrs ?t)" "distinct (eaddrs ?s @ eaddrs l')"
    using 3(5) by auto
  show ?case
  proof (cases "rng a < rng b")
    case True
    obtain h1 q where h1: "Merge (root_ptr r) (root_ptr ?t) h = Some (root_ptr (emerge rng r ?t), h1)"
        "cells rng h1 q (emerge rng r ?t)" "\<forall>z. z \<notin> set (eaddrs r @ eaddrs ?t) \<longrightarrow> h1 z = h z"
      using 3(1) [OF True _ 3(4) d(1)] 3(3) by (metis cells.simps(2))
    define h2 where "h2 = h1(a \<mapsto> n\<lparr>en_right := root_ptr (emerge rng r ?t)\<rparr>)"
    have "h1 a = Some n"
      using h1(3) n(1) 3(5) by auto
    then have store: "store (Some a) (\<lambda>n. n\<lparr>en_right := root_ptr (emerge rng r ?t)\<rparr>) h1 = Some h2"
      by (simp add: store_def h2_def)
    have "cells rng h2 q (emerge rng r ?t)"
      using h1(2) 3(5) by (auto simp: h2_def)
    moreover have "cells rng h2 (Some a) l"
    proof -
      have "cells rng h (Some a) l"
        using 3(3) by simp
      then show ?thesis
        using 3(5) h1(3) ecells_cong [of l h2 h rng "Some a"] by (force simp: h2_def)
    qed
    ultimately obtain h3 where h3: "Maintain (Some a) h2 = Some h3" "cells rng h3 ps (EN l a x (emerge rng r ?t))"
        "\<forall>z. z \<notin> set (eaddrs (EN l a x (emerge rng r ?t))) \<longrightarrow> h3 z = h2 z"
      using Maintain_cells [of h2 a "n\<lparr>en_right := root_ptr (emerge rng r ?t)\<rparr>" l "emerge rng r ?t" rng ps x "Some a" q] n 3(5)
      by (auto simp: h2_def)
    have "Merge (root_ptr ?s) (root_ptr ?t) h = Some (Some a, h3)"
      using True n m h1(1) store h3(1) by (subst Merge.simps) (simp add: node_at_def)
    moreover have "\<forall>z. z \<notin> set (eaddrs ?s @ eaddrs ?t) \<longrightarrow> h3 z = h z"
      using h3(3) h1(3) by (auto simp: h2_def)
    ultimately show ?thesis
      using True h3(2) by auto
  next
    case False
    obtain h1 q where h1: "Merge (root_ptr ?s) (root_ptr l') h = Some (root_ptr (emerge rng ?s l'), h1)"
        "cells rng h1 q (emerge rng ?s l')" "\<forall>z. z \<notin> set (eaddrs ?s @ eaddrs l') \<longrightarrow> h1 z = h z"
      using 3(2) [OF False 3(3) _ d(2)] 3(4) by (metis cells.simps(2))
    define h2 where "h2 = h1(b \<mapsto> m\<lparr>en_left := root_ptr (emerge rng ?s l')\<rparr>)"
    have "h1 b = Some m"
      using h1(3) m(1) 3(5) by auto
    then have store: "store (Some b) (\<lambda>n. n\<lparr>en_left := root_ptr (emerge rng ?s l')\<rparr>) h1 = Some h2"
      by (simp add: store_def h2_def)
    have "cells rng h2 q (emerge rng ?s l')"
      using h1(2) 3(5) by (auto simp: h2_def)
    moreover have "cells rng h2 (Some b) r'"
    proof -
      have "cells rng h (Some b) r'"
        using 3(4) by simp
      then show ?thesis
        using 3(5) h1(3) ecells_cong [of r' h2 h rng "Some b"] by (force simp: h2_def)
    qed
    ultimately obtain h3 where h3: "Maintain (Some b) h2 = Some h3" "cells rng h3 pt (EN (emerge rng ?s l') b y r')"
        "\<forall>z. z \<notin> set (eaddrs (EN (emerge rng ?s l') b y r')) \<longrightarrow> h3 z = h2 z"
      using Maintain_cells [of h2 b "m\<lparr>en_left := root_ptr (emerge rng ?s l')\<rparr>" "emerge rng ?s l'" r' rng pt y q "Some b"] m 3(5)
      by (auto simp: h2_def)
    have "Merge (root_ptr ?s) (root_ptr ?t) h = Some (Some b, h3)"
      using False n m h1(1) store h3(1) by (subst Merge.simps) (simp add: node_at_def)
    moreover have "\<forall>z. z \<notin> set (eaddrs ?s @ eaddrs ?t) \<longrightarrow> h3 z = h z"
      using h3(3) h1(3) by (auto simp: h2_def)
    ultimately show ?thesis
      using False h3(2) by auto
  qed
qed

section \<open>Paths to a node\<close>

text \<open>A frame is a node with a hole for its left (\<open>FL\<close>) or right (\<open>FR\<close>) subtree; a path goes from the hole to the root.\<close>

datatype eframe = FL nat "nat \<times> nat" etree | FR nat "nat \<times> nat" etree

fun faddr :: "eframe \<Rightarrow> nat" where
  "faddr (FL a x r) = a"
| "faddr (FR a x l) = a"

fun fother :: "eframe \<Rightarrow> etree" where
  "fother (FL a x r) = r"
| "fother (FR a x l) = l"

fun from_left :: "eframe \<Rightarrow> bool" where
  "from_left (FL a x r) = True"
| "from_left (FR a x l) = False"

fun eplug :: "etree \<Rightarrow> eframe list \<Rightarrow> etree" where
  "eplug t [] = t"
| "eplug t (FL a x r # fs) = eplug (EN t a x r) fs"
| "eplug t (FR a x l # fs) = eplug (EN l a x t) fs"

fun path_ptr :: "eframe list \<Rightarrow> pointer" where
  "path_ptr [] = None"
| "path_ptr (f # fs) = Some (faddr f)"

fun paddrs :: "eframe list \<Rightarrow> nat list" where
  "paddrs [] = []"
| "paddrs (f # fs) = faddr f # eaddrs (fother f) @ paddrs fs"

fun before :: "eframe list \<Rightarrow> (nat \<times> nat \<times> nat) list" where
  "before [] = []"
| "before (FL a x r # fs) = before fs"
| "before (FR a x l # fs) = before fs @ enodes l @ [(a, x)]"

fun after :: "eframe list \<Rightarrow> (nat \<times> nat \<times> nat) list" where
  "after [] = []"
| "after (FL a x r # fs) = (a, x) # enodes r @ after fs"
| "after (FR a x l # fs) = after fs"

lemma enodes_plug: "enodes (eplug t fs) = before fs @ enodes t @ after fs"
  by (induction t fs rule: eplug.induct) auto

lemma mset_eaddrs_plug: "mset (eaddrs (eplug t fs)) = mset (eaddrs t @ paddrs fs)"
  by (induction t fs rule: eplug.induct) auto

lemma distinct_plug: "distinct (eaddrs (eplug t fs)) \<longleftrightarrow> distinct (eaddrs t @ paddrs fs)"
  and set_eaddrs_plug: "set (eaddrs (eplug t fs)) = set (eaddrs t) \<union> set (paddrs fs)"
  using mset_eq_imp_distinct_iff [OF mset_eaddrs_plug] mset_eq_setD [OF mset_eaddrs_plug, of t fs] by auto

text \<open>
  The cells on a path whose hole has the pointer \<open>p\<close>. The sizes and counts of the nodes on the path are left open: a split
  leaves them out of date until it reaches the node.
\<close>

fun path_cells :: "(nat \<Rightarrow> int) \<Rightarrow> ett_heap \<Rightarrow> pointer \<Rightarrow> eframe list \<Rightarrow> bool" where
  "path_cells rng h p [] = True"
| "path_cells rng h p (f # fs) =
     ((\<exists>n. h (faddr f) = Some n \<and> en_left n = (if from_left f then p else root_ptr (fother f)) \<and>
        en_right n = (if from_left f then root_ptr (fother f) else p) \<and> en_parent n = path_ptr fs \<and>
        en_priority n = rng (faddr f) \<and> (case f of FL a x r \<Rightarrow> x | FR a x l \<Rightarrow> x) = (en_from n, en_to n)) \<and>
      cells rng h (Some (faddr f)) (fother f) \<and> path_cells rng h (Some (faddr f)) fs)"

lemma path_cells_cong: "(\<And>y. y \<in> set (paddrs fs) \<Longrightarrow> h y = h' y) \<Longrightarrow> path_cells rng h p fs = path_cells rng h' p fs"
proof (induction fs arbitrary: p)
  case (Cons f fs)
  then show ?case
    using ecells_cong [of "fother f" h h' rng] by simp
qed simp

text \<open>What is unchanged outside a set of cells that the tree or the path does not use.\<close>

lemma cells_frame:
  assumes "cells rng h p u" and "\<forall>y. y \<notin> X \<longrightarrow> h' y = h y" and "set (eaddrs u) \<inter> X = {}"
  shows "cells rng h' p u"
  using assms ecells_cong [of u h' h rng p] by (metis disjoint_iff)

lemma path_frame:
  assumes "path_cells rng h p fs" and "\<forall>y. y \<notin> X \<longrightarrow> h' y = h y" and "set (paddrs fs) \<inter> X = {}"
  shows "path_cells rng h' p fs"
  using assms path_cells_cong [of fs h' h rng p] by (metis disjoint_iff)

lemma cells_plug:
  "cells rng h None (eplug t fs) \<Longrightarrow> cells rng h (path_ptr fs) t \<and> path_cells rng h (root_ptr t) fs"
proof (induction t fs rule: eplug.induct)
  case (1 t)
  then show ?case
    by simp
next
  case (2 t a x r fs)
  then show ?case
    by (cases x) auto
next
  case (3 t a x l fs)
  then show ?case
    by (cases x) auto
qed

text \<open>Every node of a tree is reached by a path.\<close>

lemma node_path:
  assumes "a \<in> set (eaddrs t)"
  shows "\<exists>l x r fs. t = eplug (EN l a x r) fs"
proof -
  have "\<exists>l x r gs. eplug t fs = eplug (EN l a x r) gs" for fs
    using assms
  proof (induction t arbitrary: fs)
    case (EN l b x r)
    consider "a = b" | "a \<in> set (eaddrs l)" | "a \<in> set (eaddrs r)"
      using EN.prems by auto
    then show ?case
    proof cases
      case 1
      then show ?thesis
        by blast
    next
      case 2
      then show ?thesis
        using EN.IH(1) [of "FL b x r # fs"] by simp
    next
      case 3
      then show ?thesis
        using EN.IH(2) [of "FR b x l # fs"] by simp
    qed
  qed simp
  from this [of "[]"] show ?thesis
    by simp
qed

section \<open>Climbing\<close>

lemma FindRoot_path:
  assumes "h a = Some n" and "en_parent n = path_ptr fs" and "path_cells rng h (Some a) fs"
  shows "FindRoot h (Some a) = Some (Some (last (a # map faddr fs)))"
  using assms
proof (induction fs arbitrary: a n)
  case Nil
  then show ?case
    by (subst FindRoot.simps) (simp add: node_at_def)
next
  case (Cons f fs)
  then obtain m where "h (faddr f) = Some m" "en_parent m = path_ptr fs"
    by auto
  then show ?case
    using Cons by (subst FindRoot.simps) (simp add: node_at_def)
qed

lemma root_plug: "root_ptr (eplug (EN l a x r) fs) = Some (last (a # map faddr fs))"
proof (induction fs arbitrary: l a x r)
  case (Cons f fs)
  then show ?case
    by (cases f) auto
qed simp

lemma FindRoot_ok:
  assumes "cells rng h None t" and "a \<in> set (eaddrs t)"
  shows "FindRoot h (Some a) = Some (root_ptr t)"
proof -
  obtain l x r fs where t: "t = eplug (EN l a x r) fs"
    using node_path [OF assms(2)] by blast
  then have "cells rng h (path_ptr fs) (EN l a x r)" "path_cells rng h (Some a) fs"
    using cells_plug [of rng h "EN l a x r" fs] assms(1) by auto
  then show ?thesis
    unfolding t root_plug by (intro FindRoot_path) auto
qed

lemma GetSize_cells: "cells rng h par t \<Longrightarrow> GetSize h (root_ptr t) = Some (length (earcs t))"
  by (cases t) (auto simp: GetSize_def node_at_def)

lemma climb_position_path:
  assumes "h a = Some n" and "en_parent n = path_ptr fs" and "path_cells rng h (Some a) fs" and "a \<notin> set (paddrs fs)"
    and "distinct (paddrs fs)"
  shows "climb_position h (Some a) k = Some (k + length (before fs))"
  using assms
proof (induction fs arbitrary: a n k)
  case Nil
  then show ?case
    by (subst climb_position.simps, simp add: node_at_def) (subst climb_position.simps, simp)
next
  case (Cons f fs)
  obtain m where m: "h (faddr f) = Some m" "en_parent m = path_ptr fs"
      "en_left m = (if from_left f then Some a else root_ptr (fother f))"
      "en_right m = (if from_left f then root_ptr (fother f) else Some a)"
      "cells rng h (Some (faddr f)) (fother f)" "path_cells rng h (Some (faddr f)) fs"
    using Cons.prems(3) by auto
  have other: "root_ptr (fother f) \<noteq> Some a"
    using Cons.prems(4) by (auto simp: root_ptr_Some)
  have rest: "climb_position h (Some (faddr f)) k' = Some (k' + length (before fs))" for k'
    using Cons.IH [OF m(1,2,6)] Cons.prems(5) by simp
  show ?case
  proof (cases f)
    case (FL b x r)
    then show ?thesis
      using Cons.prems(1,2) m other rest by (subst climb_position.simps) (simp add: node_at_def)
  next
    case (FR b x l)
    then show ?thesis
      using Cons.prems(1,2) m rest GetSize_cells [OF m(5)] by (subst climb_position.simps) (simp add: node_at_def earcs_nodes)
  qed
qed

lemma GetPosition_ok:
  assumes "cells rng h None (eplug (EN l a x r) fs)" and "distinct (eaddrs (eplug (EN l a x r) fs))"
  shows "GetPosition h (Some a) = Some (length (before fs @ enodes l) + 1)"
proof -
  have c: "cells rng h (path_ptr fs) (EN l a x r)" "path_cells rng h (Some a) fs"
    using cells_plug [OF assms(1)] by auto
  have d: "a \<notin> set (paddrs fs)" "distinct (paddrs fs)"
    using assms(2) unfolding distinct_plug by auto
  obtain n where n: "h a = Some n" "en_parent n = path_ptr fs" "en_left n = root_ptr l"
    using c(1) by auto
  have "GetSize h (root_ptr l) = Some (length (earcs l))"
    using c(1) GetSize_cells [of rng h "Some a" l] by simp
  then show ?thesis
    using n climb_position_path [OF n(1,2) c(2) d] by (simp add: GetPosition_def node_at_def earcs_nodes)
qed

section \<open>Splitting bottom up\<close>

lemma Maintain_again:
  assumes "cells rng h par (EN l a x r)" and "distinct (eaddrs (EN l a x r))"
  shows "\<exists>h'. Maintain (Some a) h = Some h' \<and> cells rng h' par (EN l a x r) \<and>
    (\<forall>y. y \<notin> set (eaddrs (EN l a x r)) \<longrightarrow> h' y = h y)"
  using assms Maintain_cells [of h a "the (h a)" l r rng par x "Some a" "Some a"] by auto

text \<open>The node that was reached takes over what was collected so far, as its right or as its left subtree.\<close>

definition hung :: "(nat \<Rightarrow> int) \<Rightarrow> pointer \<Rightarrow> etree \<Rightarrow> ett_heap \<Rightarrow> (pointer \<times> ett_heap) option \<Rightarrow> bool" where
  "hung rng par t h res = (\<exists>h1 h'. res = Some (root_ptr t, h1) \<and> Maintain (root_ptr t) h1 = Some h' \<and>
     cells rng h' par t \<and> (\<forall>y. y \<notin> set (eaddrs t) \<longrightarrow> h' y = h y))"

lemma hang_right:
  assumes "h a = Some n" and "en_left n = root_ptr l" and "en_right n = None" and "en_priority n = rng a"
    and "en_parent n = par" and "en_from n = fst x" and "en_to n = snd x" and "cells rng h (Some a) l" and "cells rng h None t"
    and "distinct (eaddrs (EN l a x t))" and "\<forall>y \<in> set (eaddrs t). rng a < rng y"
  shows "hung rng par (EN l a x t) h (Merge (Some a) (root_ptr t) h)"
proof (cases t)
  case EL
  then show ?thesis
    using Maintain_cells [of h a n l t rng par x "Some a" None] assms by (auto simp: hung_def Merge_null)
next
  case (EN tl b y tr)
  obtain m where m: "h b = Some m" "en_priority m = rng b"
    using assms(9) EN by auto
  define h1 where "h1 = h(a \<mapsto> n\<lparr>en_right := Some b\<rparr>)"
  have "cells rng h1 (Some a) l" "cells rng h1 None t"
    using assms(8-10) by (auto simp: h1_def)
  then obtain h2 where h2: "Maintain (Some a) h1 = Some h2" "cells rng h2 par (EN l a x t)"
      "\<forall>y. y \<notin> set (eaddrs (EN l a x t)) \<longrightarrow> h2 y = h1 y"
    using Maintain_cells [of h1 a "n\<lparr>en_right := Some b\<rparr>" l t rng par x "Some a" None] assms(2-7,10) EN by (auto simp: h1_def)
  obtain h3 where h3: "Maintain (Some a) h2 = Some h3" "cells rng h3 par (EN l a x t)"
      "\<forall>y. y \<notin> set (eaddrs (EN l a x t)) \<longrightarrow> h3 y = h2 y"
    using Maintain_again [OF h2(2) assms(10)] by blast
  have "rng a < rng b"
    using assms(11) EN by simp
  then have "Merge (Some a) (root_ptr t) h = Some (Some a, h2)"
    using assms(1,3,4) m h2(1) EN by (subst Merge.simps) (simp add: node_at_def Merge_null store_def h1_def)
  then show ?thesis
    unfolding hung_def using h2(3) h3 by (auto simp: h1_def)
qed

lemma hang_left:
  assumes "h a = Some n" and "en_right n = root_ptr r" and "en_left n = None" and "en_priority n = rng a"
    and "en_parent n = par" and "en_from n = fst x" and "en_to n = snd x" and "cells rng h (Some a) r" and "cells rng h None t"
    and "distinct (eaddrs (EN t a x r))" and "\<forall>y \<in> set (eaddrs t). rng a \<le> rng y"
  shows "hung rng par (EN t a x r) h (Merge (root_ptr t) (Some a) h)"
proof (cases t)
  case EL
  then show ?thesis
    using Maintain_cells [of h a n t r rng par x None "Some a"] assms by (auto simp: hung_def Merge_null)
next
  case (EN tl b y tr)
  obtain m where m: "h b = Some m" "en_priority m = rng b"
    using assms(9) EN by auto
  define h1 where "h1 = h(a \<mapsto> n\<lparr>en_left := Some b\<rparr>)"
  have "cells rng h1 (Some a) r" "cells rng h1 None t"
    using assms(8-10) by (auto simp: h1_def)
  then obtain h2 where h2: "Maintain (Some a) h1 = Some h2" "cells rng h2 par (EN t a x r)"
      "\<forall>y. y \<notin> set (eaddrs (EN t a x r)) \<longrightarrow> h2 y = h1 y"
    using Maintain_cells [of h1 a "n\<lparr>en_left := Some b\<rparr>" t r rng par x None "Some a"] assms(2-7,10) EN by (auto simp: h1_def)
  obtain h3 where h3: "Maintain (Some a) h2 = Some h3" "cells rng h3 par (EN t a x r)"
      "\<forall>y. y \<notin> set (eaddrs (EN t a x r)) \<longrightarrow> h3 y = h2 y"
    using Maintain_again [OF h2(2) assms(10)] by blast
  have "\<not> rng b < rng a"
    using assms(11) EN by auto
  then have "Merge (root_ptr t) (Some a) h = Some (Some a, h2)"
    using assms(1,3,4) m h2(1) EN by (subst Merge.simps) (simp add: node_at_def Merge_null store_def h1_def)
  then show ?thesis
    unfolding hung_def using h2(3) h3 by (auto simp: h1_def)
qed

text \<open>The two trees a split along a path ends with.\<close>

fun unzip_path :: "etree \<Rightarrow> etree \<Rightarrow> eframe list \<Rightarrow> etree \<times> etree" where
  "unzip_path s t [] = (s, t)"
| "unzip_path s t (FL a x r # fs) = unzip_path s (EN t a x r) fs"
| "unzip_path s t (FR a x l # fs) = unzip_path (EN l a x s) t fs"

lemma unzip_nodes:
  "enodes (fst (unzip_path s t fs)) = before fs @ enodes s"
  "enodes (snd (unzip_path s t fs)) = enodes t @ after fs"
  by (induction s t fs rule: unzip_path.induct) auto

lemma unzip_addrs: "mset (eaddrs (fst (unzip_path s t fs)) @ eaddrs (snd (unzip_path s t fs))) = mset (eaddrs s @ eaddrs t @ paddrs fs)"
  by (induction s t fs rule: unzip_path.induct) auto

text \<open>Heap order along a path; \<open>below\<close> are the nodes in the hole.\<close>

fun frame_heap :: "(nat \<Rightarrow> int) \<Rightarrow> nat set \<Rightarrow> eframe \<Rightarrow> bool" where
  "frame_heap rng below (FL a x r) = ((\<forall>y \<in> below. rng a \<le> rng y) \<and> (\<forall>y \<in> set (eaddrs r). rng a < rng y))"
| "frame_heap rng below (FR a x l) = ((\<forall>y \<in> below. rng a < rng y) \<and> (\<forall>y \<in> set (eaddrs l). rng a \<le> rng y))"

lemma frame_heap_mono: "frame_heap rng big f \<Longrightarrow> small \<subseteq> big \<Longrightarrow> frame_heap rng small f"
  by (cases f) auto

fun path_heap :: "(nat \<Rightarrow> int) \<Rightarrow> nat set \<Rightarrow> eframe list \<Rightarrow> bool" where
  "path_heap rng below [] = True"
| "path_heap rng below (f # fs) =
     (frame_heap rng below f \<and> eheap rng (fother f) \<and>
      path_heap rng (insert (faddr f) (below \<union> set (eaddrs (fother f)))) fs)"

lemma plug_heap: "eheap rng (eplug t fs) \<Longrightarrow> eheap rng t \<and> path_heap rng (set (eaddrs t)) fs"
proof (induction t fs rule: eplug.induct)
  case (2 t a x r fs)
  moreover have "set (eaddrs (EN t a x r)) = insert a (set (eaddrs t) \<union> set (eaddrs r))"
    by auto
  ultimately show ?case
    by (auto simp del: eaddrs.simps)
next
  case (3 t a x l fs)
  moreover have "set (eaddrs (EN l a x t)) = insert a (set (eaddrs t) \<union> set (eaddrs l))"
    by auto
  ultimately show ?case
    by (auto simp del: eaddrs.simps)
qed simp

lemma path_heap_mono: "path_heap rng big fs \<Longrightarrow> small \<subseteq> big \<Longrightarrow> path_heap rng small fs"
proof (induction fs arbitrary: big small)
  case (Cons f fs)
  have "path_heap rng (insert (faddr f) (small \<union> set (eaddrs (fother f)))) fs"
    by (rule Cons.IH [of "insert (faddr f) (big \<union> set (eaddrs (fother f)))"]) (use Cons.prems in auto)
  then show ?case
    using Cons.prems frame_heap_mono [of rng big f small] by auto
qed simp

lemma unzip_heap:
  assumes "eheap rng s" and "eheap rng t" and "path_heap rng (set (eaddrs s) \<union> set (eaddrs t)) fs"
  shows "eheap rng (fst (unzip_path s t fs)) \<and> eheap rng (snd (unzip_path s t fs))"
  using assms
proof (induction s t fs rule: unzip_path.induct)
  case (2 s t a x r fs)
  have "set (eaddrs s) \<union> set (eaddrs (EN t a x r)) = insert a (set (eaddrs s) \<union> set (eaddrs t) \<union> set (eaddrs r))"
    by auto
  then show ?case
    using 2 by (auto simp del: eaddrs.simps)
next
  case (3 s t a x l fs)
  have "set (eaddrs (EN l a x s)) \<union> set (eaddrs t) = insert a (set (eaddrs s) \<union> set (eaddrs t) \<union> set (eaddrs l))"
    by auto
  then show ?case
    using 3 by (auto simp del: eaddrs.simps)
qed simp

text \<open>One turn of the loop unlinks the node from the path above it.\<close>

lemma unlink_up_path:
  assumes "h a = Some n" and "en_parent n = path_ptr fs" and "path_cells rng h (Some a) fs" and "distinct (a # paddrs fs)"
  shows "\<exists>h'. unlink_up (Some a) is_left h =
      Some (path_ptr fs, (if fs = [] then is_left else from_left (hd fs)), h') \<and>
    h' a = Some (n\<lparr>en_parent := None\<rparr>) \<and> path_cells rng h' None fs \<and> (\<forall>y. y \<notin> set (a # paddrs fs) \<longrightarrow> h' y = h y)"
proof (cases fs)
  case Nil
  then show ?thesis
    using assms by (cases n) (auto simp: unlink_up_def node_at_def)
next
  case (Cons f gs)
  obtain m where m: "h (faddr f) = Some m" "en_left m = (if from_left f then Some a else root_ptr (fother f))"
      "en_right m = (if from_left f then root_ptr (fother f) else Some a)" "en_parent m = path_ptr gs"
      "en_priority m = rng (faddr f)" "(case f of FL a x r \<Rightarrow> x | FR a x l \<Rightarrow> x) = (en_from m, en_to m)"
      "cells rng h (Some (faddr f)) (fother f)" "path_cells rng h (Some (faddr f)) gs"
    using assms(3) Cons by auto
  have "root_ptr (fother f) \<noteq> Some a"
    using assms(4) Cons by (auto simp: root_ptr_Some)
  then have side: "(en_left m = Some a) = from_left f"
    using m(2) by auto
  define m' where "m' = (if from_left f then m\<lparr>en_left := None\<rparr> else m\<lparr>en_right := None\<rparr>)"
  define h' where "h' = h(faddr f \<mapsto> m', a \<mapsto> n\<lparr>en_parent := None\<rparr>)"
  have "unlink_up (Some a) is_left h = Some (path_ptr fs, from_left f, h')"
    using assms(1,2,4) m(1) side Cons by (auto simp: unlink_up_def node_at_def store_def h'_def m'_def)
  moreover have outside: "\<forall>y. y \<notin> {a, faddr f} \<longrightarrow> h' y = h y"
    by (auto simp: h'_def)
  have "cells rng h' (Some (faddr f)) (fother f)" "path_cells rng h' (Some (faddr f)) gs"
    using cells_frame [OF m(7) outside] path_frame [OF m(8) outside] assms(4) Cons by auto
  then have "path_cells rng h' None fs"
    using m(2-6) assms(4) Cons by (auto simp: h'_def m'_def)
  ultimately show ?thesis
    using Cons by (auto simp: h'_def)
qed

lemma split_up_null: "split_up None s t is_left fl h = Some (s, t, h)"
  by (subst split_up.simps) simp

lemma split_up_path:
  assumes "path_cells rng h None fs" and "cells rng h None s" and "cells rng h None t"
    and "distinct (eaddrs s @ eaddrs t @ paddrs fs)" and "path_heap rng (set (eaddrs s) \<union> set (eaddrs t)) fs"
    and "fs \<noteq> [] \<Longrightarrow> fl = from_left (hd fs)"
  shows "\<exists>h'. split_up (path_ptr fs) (root_ptr s) (root_ptr t) is_left fl h =
      Some (root_ptr (fst (unzip_path s t fs)), root_ptr (snd (unzip_path s t fs)), h') \<and>
    cells rng h' None (fst (unzip_path s t fs)) \<and> cells rng h' None (snd (unzip_path s t fs)) \<and>
    (\<forall>y. y \<notin> set (eaddrs s @ eaddrs t @ paddrs fs) \<longrightarrow> h' y = h y)"
  using assms
proof (induction fs arbitrary: s t h is_left fl)
  case Nil
  then show ?case
    by (simp add: split_up_null)
next
  case (Cons f fs)
  obtain n where n: "h (faddr f) = Some n" "en_left n = (if from_left f then None else root_ptr (fother f))"
      "en_right n = (if from_left f then root_ptr (fother f) else None)" "en_parent n = path_ptr fs"
      "en_priority n = rng (faddr f)" "(case f of FL a x r \<Rightarrow> x | FR a x l \<Rightarrow> x) = (en_from n, en_to n)"
      "cells rng h (Some (faddr f)) (fother f)" "path_cells rng h (Some (faddr f)) fs"
    using Cons.prems(1) by auto
  have d: "distinct (faddr f # paddrs fs)" "faddr f \<notin> set (eaddrs s) \<union> set (eaddrs t) \<union> set (eaddrs (fother f))"
      "set (paddrs fs) \<inter> (set (eaddrs s) \<union> set (eaddrs t) \<union> set (eaddrs (fother f))) = {}"
    using Cons.prems(4) by auto
  obtain h1 where h1: "unlink_up (Some (faddr f)) is_left h =
        Some (path_ptr fs, (if fs = [] then is_left else from_left (hd fs)), h1)"
      "h1 (faddr f) = Some (n\<lparr>en_parent := None\<rparr>)" "path_cells rng h1 None fs"
      "\<forall>y. y \<notin> set (faddr f # paddrs fs) \<longrightarrow> h1 y = h y"
    using unlink_up_path [OF n(1,4,8) d(1), of is_left] by blast
  let ?fl = "if fs = [] then is_left else from_left (hd fs)"
  have keep: "cells rng h1 p u"
    if "cells rng h p u" "set (eaddrs u) \<inter> set (faddr f # paddrs fs) = {}" for p u
    by (rule cells_frame [OF that(1) h1(4) that(2)])
  have s: "cells rng h1 None s" and t: "cells rng h1 None t" and o: "cells rng h1 (Some (faddr f)) (fother f)"
    using keep [OF Cons.prems(2)] keep [OF Cons.prems(3)] keep [OF n(7)] d by auto
  show ?case
  proof (cases f)
    case (FR a x l)
    have less: "\<forall>y \<in> set (eaddrs s). rng a < rng y"
      using Cons.prems(5) FR by auto
    have dn: "distinct (eaddrs (EN l a x s))"
      using Cons.prems(4) FR by auto
    have x: "fst x = en_from n" "snd x = en_to n"
      using n(6) FR by auto
    have "hung rng None (EN l a x s) h1 (Merge (Some a) (root_ptr s) h1)"
      by (rule hang_right [of h1 a "n\<lparr>en_parent := None\<rparr>"]) (use FR h1(2) n(2,3,5) x o s less dn in simp_all)
    then obtain h2 h3 where h2: "Merge (Some a) (root_ptr s) h1 = Some (Some a, h2)" "Maintain (Some a) h2 = Some h3"
        "cells rng h3 None (EN l a x s)" "\<forall>y. y \<notin> set (eaddrs (EN l a x s)) \<longrightarrow> h3 y = h1 y"
      unfolding hung_def root_ptr.simps by blast
    have "path_cells rng h3 None fs" "cells rng h3 None t"
      using path_frame [OF h1(3) h2(4)] cells_frame [OF t h2(4)] d Cons.prems(4) FR by auto
    moreover have "distinct (eaddrs (EN l a x s) @ eaddrs t @ paddrs fs)"
      using Cons.prems(4) FR by auto
    moreover have "path_heap rng (set (eaddrs (EN l a x s)) \<union> set (eaddrs t)) fs"
      using Cons.prems(5) FR by (auto elim!: path_heap_mono)
    ultimately obtain h' where h': "split_up (path_ptr fs) (Some a) (root_ptr t) ?fl ?fl h3 =
          Some (root_ptr (fst (unzip_path (EN l a x s) t fs)), root_ptr (snd (unzip_path (EN l a x s) t fs)), h')"
        "cells rng h' None (fst (unzip_path (EN l a x s) t fs))" "cells rng h' None (snd (unzip_path (EN l a x s) t fs))"
        "\<forall>y. y \<notin> set (eaddrs (EN l a x s) @ eaddrs t @ paddrs fs) \<longrightarrow> h' y = h3 y"
      using Cons.IH [of h3 "EN l a x s" t ?fl ?fl] h2(3) by auto
    have "split_up (Some a) (root_ptr s) (root_ptr t) is_left fl h =
        Some (root_ptr (fst (unzip_path (EN l a x s) t fs)), root_ptr (snd (unzip_path (EN l a x s) t fs)), h')"
      using h1(1) h2(1,2) h'(1) Cons.prems(6) FR by (subst split_up.simps) simp
    moreover have "h' y = h y" if "y \<notin> set (eaddrs s @ eaddrs t @ paddrs (f # fs))" for y
      using h'(4) h2(4) h1(4) that FR by auto
    ultimately show ?thesis
      using h'(2,3) FR by auto
  next
    case (FL a x r)
    have less: "\<forall>y \<in> set (eaddrs t). rng a \<le> rng y"
      using Cons.prems(5) FL by auto
    have dn: "distinct (eaddrs (EN t a x r))"
      using Cons.prems(4) FL by auto
    have x: "fst x = en_from n" "snd x = en_to n"
      using n(6) FL by auto
    have "hung rng None (EN t a x r) h1 (Merge (root_ptr t) (Some a) h1)"
      by (rule hang_left [of h1 a "n\<lparr>en_parent := None\<rparr>"]) (use FL h1(2) n(2,3,5) x o t less dn in simp_all)
    then obtain h2 h3 where h2: "Merge (root_ptr t) (Some a) h1 = Some (Some a, h2)" "Maintain (Some a) h2 = Some h3"
        "cells rng h3 None (EN t a x r)" "\<forall>y. y \<notin> set (eaddrs (EN t a x r)) \<longrightarrow> h3 y = h1 y"
      unfolding hung_def root_ptr.simps by blast
    have "path_cells rng h3 None fs" "cells rng h3 None s"
      using path_frame [OF h1(3) h2(4)] cells_frame [OF s h2(4)] d Cons.prems(4) FL by auto
    moreover have "distinct (eaddrs s @ eaddrs (EN t a x r) @ paddrs fs)"
      using Cons.prems(4) FL by auto
    moreover have "path_heap rng (set (eaddrs s) \<union> set (eaddrs (EN t a x r))) fs"
      using Cons.prems(5) FL by (auto elim!: path_heap_mono)
    ultimately obtain h' where h': "split_up (path_ptr fs) (root_ptr s) (Some a) ?fl ?fl h3 =
          Some (root_ptr (fst (unzip_path s (EN t a x r) fs)), root_ptr (snd (unzip_path s (EN t a x r) fs)), h')"
        "cells rng h' None (fst (unzip_path s (EN t a x r) fs))" "cells rng h' None (snd (unzip_path s (EN t a x r) fs))"
        "\<forall>y. y \<notin> set (eaddrs s @ eaddrs (EN t a x r) @ paddrs fs) \<longrightarrow> h' y = h3 y"
      using Cons.IH [of h3 s "EN t a x r" ?fl ?fl] h2(3) by auto
    have "split_up (Some a) (root_ptr s) (root_ptr t) is_left fl h =
        Some (root_ptr (fst (unzip_path s (EN t a x r) fs)), root_ptr (snd (unzip_path s (EN t a x r) fs)), h')"
      using h1(1) h2(1,2) h'(1) Cons.prems(6) FL by (subst split_up.simps) simp
    moreover have "h' y = h y" if "y \<notin> set (eaddrs s @ eaddrs t @ paddrs (f # fs))" for y
      using h'(4) h2(4) h1(4) that FL by auto
    ultimately show ?thesis
      using h'(2,3) FL by auto
  qed
qed

text \<open>Trees that stand on the heap on their own, in heap order.\<close>

definition standing :: "(nat \<Rightarrow> int) \<Rightarrow> ett_heap \<Rightarrow> etree \<Rightarrow> bool" where
  "standing rng h t = (cells rng h None t \<and> distinct (eaddrs t) \<and> eheap rng t)"

lemma orphan_cells:
  assumes "cells rng h par t" and "distinct (eaddrs t)"
  shows "\<exists>h'. orphan (root_ptr t) h = Some h' \<and> cells rng h' None t \<and> (\<forall>y. y \<notin> set (eaddrs t) \<longrightarrow> h' y = h y)"
proof (cases t)
  case (EN l a x r)
  then obtain n where "h a = Some n"
    using assms(1) by auto
  then show ?thesis
    using ecells_reparent [of rng h par l a x r n None] assms EN by (auto simp: orphan_def store_def)
qed (simp add: orphan_def)

lemma SplitUp2_ok:
  assumes "standing rng h (eplug (EN l a x r) fs)"
  shows "\<exists>h' s t. SplitUp2 (Some a) h = Some (root_ptr s, root_ptr t, h') \<and> cells rng h' None s \<and> cells rng h' None t \<and>
    eheap rng s \<and> eheap rng t \<and> enodes s = before fs @ enodes l @ [(a, x)] \<and> enodes t = enodes r @ after fs \<and>
    (\<forall>y. y \<notin> set (eaddrs (eplug (EN l a x r) fs)) \<longrightarrow> h' y = h y)"
proof -
  have c: "cells rng h (path_ptr fs) (EN l a x r)" "path_cells rng h (Some a) fs"
    and d: "distinct (eaddrs (EN l a x r) @ paddrs fs)"
    and hp: "eheap rng (EN l a x r)" "path_heap rng (set (eaddrs (EN l a x r))) fs"
    using assms cells_plug [of rng h "EN l a x r" fs] plug_heap [of rng "EN l a x r" fs]
    unfolding standing_def distinct_plug by auto
  obtain n where n: "h a = Some n" "en_left n = root_ptr l" "en_right n = root_ptr r" "en_parent n = path_ptr fs"
      "en_priority n = rng a" "en_from n = fst x" "en_to n = snd x"
    using c(1) by auto
  obtain h1 where h1: "orphan (root_ptr r) h = Some h1" "cells rng h1 None r" "\<forall>y. y \<notin> set (eaddrs r) \<longrightarrow> h1 y = h y"
    using orphan_cells [of rng h "Some a" r] c(1) d by auto
  define h2 where "h2 = h1(a \<mapsto> n\<lparr>en_right := None\<rparr>)"
  have "h1 a = Some n"
    using h1(3) n(1) d by auto
  then have pre: "SplitUp2 (Some a) h = split_up (Some a) None (root_ptr r) False False h2"
    using n(1,3) h1(1) by (simp add: SplitUp2_def node_at_def store_def h2_def)
  have outside: "\<forall>y. y \<notin> set (a # eaddrs r) \<longrightarrow> h2 y = h y"
    using h1(3) by (auto simp: h2_def)
  have "cells rng h2 (Some a) l" "path_cells rng h2 (Some a) fs"
    using cells_frame [OF _ outside, of rng "Some a" l] path_frame [OF c(2) outside] c(1) d by auto
  then have path: "path_cells rng h2 None (FR a x l # fs)"
    using n by (cases x) (auto simp: h2_def)
  have r: "cells rng h2 None r"
    using h1(2) d by (auto simp: h2_def)
  have ph: "path_heap rng (set (eaddrs EL) \<union> set (eaddrs r)) (FR a x l # fs)"
    using hp by (auto elim!: path_heap_mono)
  have "distinct (eaddrs EL @ eaddrs r @ paddrs (FR a x l # fs))"
    using d by auto
  then obtain h' where h': "split_up (Some a) None (root_ptr r) False False h2 =
        Some (root_ptr (fst (unzip_path EL r (FR a x l # fs))), root_ptr (snd (unzip_path EL r (FR a x l # fs))), h')"
      "cells rng h' None (fst (unzip_path EL r (FR a x l # fs)))" "cells rng h' None (snd (unzip_path EL r (FR a x l # fs)))"
      "\<forall>y. y \<notin> set (eaddrs EL @ eaddrs r @ paddrs (FR a x l # fs)) \<longrightarrow> h' y = h2 y"
    using split_up_path [OF path _ r _ ph, of False False] by auto
  have "eheap rng (fst (unzip_path EL r (FR a x l # fs))) \<and> eheap rng (snd (unzip_path EL r (FR a x l # fs)))"
    using unzip_heap [OF _ _ ph] hp(1) by simp
  moreover have "\<forall>y. y \<notin> set (eaddrs (eplug (EN l a x r) fs)) \<longrightarrow> h' y = h y"
    using h'(4) outside unfolding set_eaddrs_plug by auto
  ultimately show ?thesis
    using pre h'(1-3) unzip_nodes [of EL r "FR a x l # fs"] by auto
qed

lemma SplitUp3_ok:
  assumes "standing rng h (eplug (EN l a x r) fs)"
  shows "\<exists>h' s t. SplitUp3 (Some a) h = Some (root_ptr s, Some a, root_ptr t, h') \<and> cells rng h' None s \<and> cells rng h' None t \<and>
    cells rng h' None (EN EL a x EL) \<and> eheap rng s \<and> eheap rng t \<and> enodes s = before fs @ enodes l \<and> enodes t = enodes r @ after fs \<and>
    (\<forall>y. y \<notin> set (eaddrs (eplug (EN l a x r) fs)) \<longrightarrow> h' y = h y)"
proof -
  have c: "cells rng h (path_ptr fs) (EN l a x r)" "path_cells rng h (Some a) fs"
    and d: "distinct (eaddrs (EN l a x r) @ paddrs fs)"
    and hp: "eheap rng (EN l a x r)" "path_heap rng (set (eaddrs (EN l a x r))) fs"
    using assms cells_plug [of rng h "EN l a x r" fs] plug_heap [of rng "EN l a x r" fs]
    unfolding standing_def distinct_plug by auto
  obtain n where n: "h a = Some n" "en_left n = root_ptr l" "en_right n = root_ptr r" "en_parent n = path_ptr fs"
      "en_priority n = rng a" "en_from n = fst x" "en_to n = snd x"
    using c(1) by auto
  obtain h1 where h1: "orphan (root_ptr l) h = Some h1" "cells rng h1 None l" "\<forall>y. y \<notin> set (eaddrs l) \<longrightarrow> h1 y = h y"
    using orphan_cells [of rng h "Some a" l] c(1) d by auto
  define h2 where "h2 = h1(a \<mapsto> n\<lparr>en_left := None\<rparr>)"
  have h1a: "h1 a = Some n"
    using h1(3) n(1) d by auto
  have "\<forall>y. y \<notin> set (a # eaddrs l) \<longrightarrow> h2 y = h y"
    using h1(3) by (auto simp: h2_def)
  then have "cells rng h2 (Some a) r"
    using cells_frame [of rng h "Some a" r "set (a # eaddrs l)" h2] c(1) d by auto
  then obtain h3 where h3: "orphan (root_ptr r) h2 = Some h3" "cells rng h3 None r" "\<forall>y. y \<notin> set (eaddrs r) \<longrightarrow> h3 y = h2 y"
    using orphan_cells [of rng h2 "Some a" r] d by auto
  define h4 where "h4 = h3(a \<mapsto> n\<lparr>en_left := None, en_right := None\<rparr>)"
  have h3a: "h3 a = Some (n\<lparr>en_left := None\<rparr>)"
    using h3(3) d by (auto simp: h2_def)
  have outside: "\<forall>y. y \<notin> set (eaddrs (EN l a x r)) \<longrightarrow> h4 y = h y"
    using h1(3) h3(3) by (auto simp: h2_def h4_def)
  have path: "path_cells rng h4 (Some a) fs"
    using path_frame [OF c(2) outside] d by auto
  have "\<forall>y. y \<notin> set (a # eaddrs r) \<longrightarrow> h4 y = h1 y"
    using h3(3) by (auto simp: h2_def h4_def)
  then have l4: "cells rng h4 None l" and r4: "cells rng h4 None r"
    using cells_frame [OF h1(2), of "set (a # eaddrs r)" h4] h3(2) d by (auto simp: h4_def)
  have h4a: "h4 a = Some (n\<lparr>en_left := None, en_right := None\<rparr>)" "distinct (a # paddrs fs)"
    using d by (auto simp: h4_def)
  obtain h5 where h5: "unlink_up (Some a) False h4 = Some (path_ptr fs, (if fs = [] then False else from_left (hd fs)), h5)"
      "h5 a = Some (n\<lparr>en_left := None, en_right := None, en_parent := None\<rparr>)" "path_cells rng h5 None fs"
      "\<forall>y. y \<notin> set (a # paddrs fs) \<longrightarrow> h5 y = h4 y"
    using unlink_up_path [OF h4a(1) _ path h4a(2), of False] n(4) by auto
  let ?fl = "if fs = [] then False else from_left (hd fs)"
  obtain h6 where h6: "Maintain (Some a) h5 = Some h6" "cells rng h6 None (EN EL a x EL)" "\<forall>y. y \<noteq> a \<longrightarrow> h6 y = h5 y"
    using Maintain_cells [of h5 a _ EL EL rng None x None None, OF h5(2)] n(5-7) by auto
  have out6: "\<forall>y. y \<notin> set (a # paddrs fs) \<longrightarrow> h6 y = h4 y"
    using h5(4) h6(3) by auto
  have l6: "cells rng h6 None l" and r6: "cells rng h6 None r"
    using cells_frame [OF l4 out6] cells_frame [OF r4 out6] d by auto
  have "path_cells rng h6 None fs"
    using path_frame [OF h5(3), of "{a}" h6] h6(3) d by auto
  moreover have ph: "path_heap rng (set (eaddrs l) \<union> set (eaddrs r)) fs"
    using hp(2) by (auto elim!: path_heap_mono)
  moreover have "distinct (eaddrs l @ eaddrs r @ paddrs fs)"
    using d by auto
  ultimately obtain h' where h': "split_up (path_ptr fs) (root_ptr l) (root_ptr r) ?fl ?fl h6 =
        Some (root_ptr (fst (unzip_path l r fs)), root_ptr (snd (unzip_path l r fs)), h')"
      "cells rng h' None (fst (unzip_path l r fs))" "cells rng h' None (snd (unzip_path l r fs))"
      "\<forall>y. y \<notin> set (eaddrs l @ eaddrs r @ paddrs fs) \<longrightarrow> h' y = h6 y"
    using split_up_path [OF _ l6 r6, of fs ?fl ?fl] by auto
  have "SplitUp3 (Some a) h = Some (root_ptr (fst (unzip_path l r fs)), Some a, root_ptr (snd (unzip_path l r fs)), h')"
    using n h1(1) h1a h3(1) h3a h5(1) h6(1) h'(1) by (simp add: SplitUp3_def node_at_def store_def h2_def h4_def)
  moreover have "cells rng h' None (EN EL a x EL)"
    using cells_frame [OF h6(2) h'(4)] d by auto
  moreover have "eheap rng (fst (unzip_path l r fs)) \<and> eheap rng (snd (unzip_path l r fs))"
    using unzip_heap [OF _ _ ph] hp(1) by simp
  moreover have "\<forall>y. y \<notin> set (eaddrs (eplug (EN l a x r) fs)) \<longrightarrow> h' y = h y"
    using h'(4) out6 outside unfolding set_eaddrs_plug by auto
  ultimately show ?thesis
    using h'(2,3) unzip_nodes [of l r fs] by blast
qed

section \<open>Collections of trees\<close>

text \<open>The heap holds the trees of a list, apart from each other and in heap order. Each operation acts on one or two of them.\<close>

definition holds :: "(nat \<Rightarrow> int) \<Rightarrow> ett_heap \<Rightarrow> etree list \<Rightarrow> bool" where
  "holds rng h ts = ((\<forall>t \<in> set ts. cells rng h None t \<and> eheap rng t) \<and> distinct (concat (map eaddrs ts)))"

lemma holds_perm:
  assumes "holds rng h ts" and "mset ts = mset ts'"
  shows "holds rng h ts'"
proof -
  have "mset (concat (map eaddrs ts)) = mset (concat (map eaddrs ts'))"
    using assms(2) by (metis mset_concat mset_map sum_mset_sum_list)
  then have "distinct (concat (map eaddrs ts)) = distinct (concat (map eaddrs ts'))"
    by (rule mset_eq_imp_distinct_iff)
  then show ?thesis
    using assms(1) mset_eq_setD [OF assms(2)] by (simp add: holds_def)
qed

lemma holds_standing: "holds rng h ts \<Longrightarrow> t \<in> set ts \<Longrightarrow> standing rng h t"
  by (auto simp: holds_def standing_def distinct_concat_iff)

text \<open>A change of one tree into others with the same addresses leaves the rest alone.\<close>

lemma holds_frame:
  assumes "holds rng h (us @ ts)" and "\<forall>y. y \<notin> X \<longrightarrow> h' y = h y" and "X \<subseteq> set (concat (map eaddrs us))"
    and "\<And>u. u \<in> set us' \<Longrightarrow> cells rng h' None u \<and> eheap rng u"
    and "mset (concat (map eaddrs us')) = mset (concat (map eaddrs us))"
  shows "holds rng h' (us' @ ts)"
proof -
  have "cells rng h' None t" if "t \<in> set ts" for t
    by (rule cells_frame [OF _ assms(2)]) (use assms(1,3) that in \<open>auto simp: holds_def\<close>)
  moreover have "mset (concat (map eaddrs (us' @ ts))) = mset (concat (map eaddrs (us @ ts)))"
    using assms(5) by simp
  then have "distinct (concat (map eaddrs (us' @ ts)))"
    using assms(1) mset_eq_imp_distinct_iff unfolding holds_def by blast
  ultimately show ?thesis
    using assms(1,4) unfolding holds_def by auto
qed

lemma Merge_holds:
  assumes "holds rng h (s # t # ts)"
  shows "\<exists>h'. Merge (root_ptr s) (root_ptr t) h = Some (root_ptr (emerge rng s t), h') \<and> holds rng h' (emerge rng s t # ts)"
proof -
  have c: "cells rng h None s" "cells rng h None t" "distinct (eaddrs s @ eaddrs t)" "eheap rng s" "eheap rng t"
    using assms by (auto simp: holds_def)
  obtain h' where h': "Merge (root_ptr s) (root_ptr t) h = Some (root_ptr (emerge rng s t), h')" "cells rng h' None (emerge rng s t)"
      "\<forall>y. y \<notin> set (eaddrs s @ eaddrs t) \<longrightarrow> h' y = h y"
    using Merge_cells [OF c(1-3)] by blast
  have "holds rng h' ([emerge rng s t] @ ts)"
    by (rule holds_frame [of rng h "[s, t]" ts, OF _ h'(3)])
      (use assms h'(2) emerge_heap [OF c(4,5)] in auto)
  then show ?thesis
    using h'(1) by auto
qed

lemma SplitUp2_holds:
  assumes "holds rng h (eplug (EN l a x r) fs # ts)"
  shows "\<exists>h' s t. SplitUp2 (Some a) h = Some (root_ptr s, root_ptr t, h') \<and> holds rng h' (s # t # ts) \<and>
    enodes s = before fs @ enodes l @ [(a, x)] \<and> enodes t = enodes r @ after fs"
proof -
  let ?t = "eplug (EN l a x r) fs"
  have "standing rng h ?t"
    using holds_standing [OF assms] by simp
  then obtain h' s t where h': "SplitUp2 (Some a) h = Some (root_ptr s, root_ptr t, h')" "cells rng h' None s" "cells rng h' None t"
      "eheap rng s" "eheap rng t" "enodes s = before fs @ enodes l @ [(a, x)]" "enodes t = enodes r @ after fs"
      "\<forall>y. y \<notin> set (eaddrs ?t) \<longrightarrow> h' y = h y"
    using SplitUp2_ok by blast
  have "holds rng h' ([s, t] @ ts)"
    by (rule holds_frame [of rng h "[?t]" ts, OF _ h'(8)])
      (use assms h'(2-7) enodes_plug [of "EN l a x r" fs] in \<open>auto simp: eaddrs_nodes\<close>)
  then show ?thesis
    using h'(1,6,7) by auto
qed

lemma SplitUp3_holds:
  assumes "holds rng h (eplug (EN l a x r) fs # ts)"
  shows "\<exists>h' s t. SplitUp3 (Some a) h = Some (root_ptr s, Some a, root_ptr t, h') \<and> holds rng h' (s # EN EL a x EL # t # ts) \<and>
    enodes s = before fs @ enodes l \<and> enodes t = enodes r @ after fs"
proof -
  let ?t = "eplug (EN l a x r) fs"
  have "standing rng h ?t"
    using holds_standing [OF assms] by simp
  then obtain h' s t where h': "SplitUp3 (Some a) h = Some (root_ptr s, Some a, root_ptr t, h')" "cells rng h' None s" "cells rng h' None t"
      "cells rng h' None (EN EL a x EL)" "eheap rng s" "eheap rng t" "enodes s = before fs @ enodes l" "enodes t = enodes r @ after fs"
      "\<forall>y. y \<notin> set (eaddrs ?t) \<longrightarrow> h' y = h y"
    using SplitUp3_ok by blast
  have "holds rng h' ([s, EN EL a x EL, t] @ ts)"
  proof (rule holds_frame [of rng h "[?t]" ts, OF _ h'(9)])
    show "cells rng h' None u \<and> eheap rng u" if "u \<in> set [s, EN EL a x EL, t]" for u
      using that h'(2-6) by (auto simp del: cells.simps)
    show "mset (concat (map eaddrs [s, EN EL a x EL, t])) = mset (concat (map eaddrs [?t]))"
      using h'(7,8) enodes_plug [of "EN l a x r" fs] by (simp add: eaddrs_nodes)
  qed (use assms in auto)
  then show ?thesis
    using h'(1,7,8) by auto
qed

lemma new_holds:
  assumes "holds rng h ts" and "a \<notin> set (concat (map eaddrs ts))"
  shows "holds rng (h(a \<mapsto> new_node (rng a) u v)) (EN EL a (u, v) EL # ts)"
  using assms by (auto simp: holds_def new_node_def)

lemma free_holds:
  assumes "holds rng h (t # ts)" and "a \<in> set (eaddrs t)"
  shows "holds rng (h(a := None)) ts"
proof -
  have "a \<notin> set (eaddrs u)" if "u \<in> set ts" for u
    using assms that by (auto simp: holds_def)
  then show ?thesis
    using assms(1) by (simp add: holds_def)
qed

text \<open>The tree that contains an address, as a path to it, can be brought to the front.\<close>

lemma holds_find:
  assumes "(a, x) \<in> set (concat (map enodes ts))" and "distinct (concat (map eaddrs ts))"
  shows "\<exists>l r fs us. mset ts = mset (eplug (EN l a x r) fs # us)"
proof -
  obtain t where t: "t \<in> set ts" "(a, x) \<in> set (enodes t)"
    using assms(1) by auto
  then have "a \<in> set (eaddrs t)"
    by (force simp: eaddrs_nodes)
  then obtain l y r fs where p: "t = eplug (EN l a y r) fs"
    using node_path by blast
  have "distinct (map fst (enodes t))"
    using assms(2) t(1) by (auto simp: distinct_concat_iff eaddrs_nodes)
  moreover have "(a, y) \<in> set (enodes t)"
    using p enodes_plug [of "EN l a y r" fs] by simp
  ultimately have "x = y"
    using t(2) by (metis eq_key_imp_eq_value)
  moreover obtain us vs where "ts = us @ t # vs"
    using t(1) split_list by metis
  ultimately show ?thesis
    using p by (metis mset_append mset.simps(2) union_mset_add_mset_right)
qed

end
