(* ===== verification/EulerTour.thy ===== *)
theory EulerTour
  imports Prelude "HOL-Library.Multiset"
begin

text \<open>
  Forests and their Euler tours, the mathematics behind \<^verbatim>\<open>ett/\<close>. A tour of a tree is a cyclic
  sequence of pairs: \<open>(u, u)\<close> for every vertex \<open>u\<close>, and \<open>(u, v)\<close> and \<open>(v, u)\<close> for every edge. Linking two trees and
  cutting an edge are a concatenation and a cut of such sequences; two vertices are connected iff
  they are on the same tour.
\<close>

type_synonym arc = "nat \<times> nat"

section \<open>Forests\<close>

text \<open>Every edge is there in both directions and is a bridge.\<close>

definition forest :: "arc set \<Rightarrow> bool" where
  "forest E = (sym E \<and> irrefl E \<and> (\<forall>(u, v) \<in> E. (u, v) \<notin> (E - {(u, v), (v, u)})\<^sup>*))"

lemma rtrancl_sym: "sym E \<Longrightarrow> (x, y) \<in> E\<^sup>* \<Longrightarrow> (y, x) \<in> E\<^sup>*"
  by (meson symD sym_rtrancl)

lemma rtrancl_link:
  assumes "(x, y) \<in> (F \<union> {(u, v), (v, u)})\<^sup>*"
  shows "(x, y) \<in> F\<^sup>* \<or> (x, u) \<in> F\<^sup>* \<and> (v, y) \<in> F\<^sup>* \<or> (x, v) \<in> F\<^sup>* \<and> (u, y) \<in> F\<^sup>*"
  using assms
proof (induction rule: rtrancl_induct)
  case (step y z)
  consider "(y, z) \<in> F" | "y = u" "z = v" | "y = v" "z = u"
    using step.hyps(2) by auto
  then show ?case
  proof cases
    case 1
    then show ?thesis
      using step.IH by (meson rtrancl.rtrancl_into_rtrancl)
  qed (use step.IH in auto)
qed simp

lemma forest_link:
  assumes "forest E" and "u \<noteq> v" and "(u, v) \<notin> E\<^sup>*"
  shows "forest (E \<union> {(u, v), (v, u)})"
proof -
  have E: "sym E" "irrefl E" and bridge: "\<And>a b. (a, b) \<in> E \<Longrightarrow> (a, b) \<notin> (E - {(a, b), (b, a)})\<^sup>*"
    using assms(1) by (auto simp: forest_def)
  have new: "(u, v) \<notin> E" "(v, u) \<notin> E" "(v, u) \<notin> E\<^sup>*"
    using assms(3) rtrancl_sym [OF E(1)] by (auto dest: r_into_rtrancl)
  have "(a, b) \<notin> (E \<union> {(u, v), (v, u)} - {(a, b), (b, a)})\<^sup>*" if "(a, b) \<in> E \<union> {(u, v), (v, u)}" for a b
  proof (cases "(a, b) \<in> E")
    case True
    define F where "F = E - {(a, b), (b, a)}"
    have F: "F\<^sup>* \<subseteq> E\<^sup>*" "(a, b) \<notin> F\<^sup>*"
      using bridge [OF True] by (auto simp: F_def intro: rtrancl_mono [THEN subsetD])
    have ab: "(a, b) \<in> E\<^sup>*" "(b, a) \<in> E\<^sup>*"
      using True E(1) by (auto dest: symD)
    have "E \<union> {(u, v), (v, u)} - {(a, b), (b, a)} = F \<union> {(u, v), (v, u)}"
      using True new E(1) by (auto simp: F_def dest: symD)
    moreover have "\<not> ((a, u) \<in> F\<^sup>* \<and> (v, b) \<in> F\<^sup>*)" "\<not> ((a, v) \<in> F\<^sup>* \<and> (u, b) \<in> F\<^sup>*)"
      using F(1) ab assms(3) new(3) rtrancl_sym [OF E(1)] by (meson rtrancl_trans subsetD)+
    ultimately show ?thesis
      using rtrancl_link [of a b F u v] F(2) by auto
  next
    case False
    then have "E \<union> {(u, v), (v, u)} - {(a, b), (b, a)} = E"
      using that new by auto
    then show ?thesis
      using that False assms(3) new(3) by auto
  qed
  moreover have "sym (E \<union> {(u, v), (v, u)})" "irrefl (E \<union> {(u, v), (v, u)})"
    using E assms(2) by (auto simp: sym_def irrefl_def)
  ultimately show ?thesis
    unfolding forest_def by blast
qed

lemma forest_cut:
  assumes "forest E"
  shows "forest (E - {(u, v), (v, u)})"
proof -
  have "(a, b) \<notin> (E - {(u, v), (v, u)} - {(a, b), (b, a)})\<^sup>*" if "(a, b) \<in> E" for a b
    using assms that rtrancl_mono [of "E - {(u, v), (v, u)} - {(a, b), (b, a)}" "E - {(a, b), (b, a)}"]
    by (auto simp: forest_def)
  then show ?thesis
    using assms by (auto simp: forest_def sym_def irrefl_def)
qed

section \<open>Closed walks\<close>

abbreviation follows :: "arc \<Rightarrow> arc \<Rightarrow> bool" where
  "follows x y \<equiv> snd x = fst y"

definition closed_walk :: "arc list \<Rightarrow> bool" where
  "closed_walk s = (successively follows s \<and> (s \<noteq> [] \<longrightarrow> follows (last s) (hd s)))"

lemma closed_walk_rotate: "closed_walk (xs @ ys) \<Longrightarrow> closed_walk (ys @ xs)"
  by (cases "xs = []"; cases "ys = []") (auto simp: closed_walk_def successively_append_iff)

lemma closed_walk_join:
  assumes "closed_walk p" and "p \<noteq> []" and "snd (last p) = u" and "closed_walk q" and "q \<noteq> []" and "snd (last q) = v"
  shows "closed_walk (p @ (u, v) # q @ [(v, u)])"
  using assms by (auto simp: closed_walk_def successively_append_iff successively_Cons)

text \<open>Everything on a walk along edges is connected with its start.\<close>

lemma walk_connected:
  assumes "successively follows s" and "\<And>a b. (a, b) \<in> set s \<Longrightarrow> a = b \<or> (a, b) \<in> F" and "(a, b) \<in> set s"
  shows "(fst (hd s), a) \<in> F\<^sup>* \<and> (fst (hd s), b) \<in> F\<^sup>*"
  using assms
proof (induction s)
  case (Cons x s)
  have x: "(fst x, snd x) \<in> F\<^sup>*"
    using Cons.prems(2) by (cases x) auto
  show ?case
  proof (cases "(a, b) = x")
    case True
    then show ?thesis
      using x by auto
  next
    case False
    then have mem: "(a, b) \<in> set s" "s \<noteq> []"
      using Cons.prems(3) by auto
    then have "snd x = fst (hd s)" "(fst (hd s), a) \<in> F\<^sup>* \<and> (fst (hd s), b) \<in> F\<^sup>*"
      using Cons by (auto simp: successively_Cons)
    then show ?thesis
      using x by (auto intro: rtrancl_trans)
  qed
qed simp

section \<open>Tours of a forest\<close>

definition tours :: "nat \<Rightarrow> arc set \<Rightarrow> arc list list \<Rightarrow> bool" where
  "tours n E ss = (forest E \<and> distinct (concat ss) \<and> set (concat ss) = (\<lambda>u. (u, u)) ` {..<n} \<union> E \<and>
     (\<forall>s \<in> set ss. closed_walk s \<and> (\<forall>(a, b) \<in> set s. (a, a) \<in> set s \<and> (b, b) \<in> set s)))"

lemma toursD:
  assumes "tours n E ss"
  shows "forest E" "distinct (concat ss)" "set (concat ss) = (\<lambda>u. (u, u)) ` {..<n} \<union> E"
    "\<And>s. s \<in> set ss \<Longrightarrow> closed_walk s" "\<And>s a b. s \<in> set ss \<Longrightarrow> (a, b) \<in> set s \<Longrightarrow> (a, a) \<in> set s \<and> (b, b) \<in> set s"
    "sym E" "irrefl E"
  using assms by (auto simp: tours_def forest_def)

text \<open>A sequence of pairs that is a tour of its own.\<close>

definition tour :: "arc list \<Rightarrow> bool" where
  "tour s = (closed_walk s \<and> (\<forall>(a, b) \<in> set s. (a, a) \<in> set s \<and> (b, b) \<in> set s))"

lemma tourI: "closed_walk s \<Longrightarrow> (\<And>a b. (a, b) \<in> set s \<Longrightarrow> (a, a) \<in> set s \<and> (b, b) \<in> set s) \<Longrightarrow> tour s"
  by (auto simp: tour_def)

lemma tours_tour: "tours n E ss = (forest E \<and> distinct (concat ss) \<and>
    set (concat ss) = (\<lambda>u. (u, u)) ` {..<n} \<union> E \<and> (\<forall>s \<in> set ss. tour s))"
  by (simp add: tours_def tour_def)

text \<open>An element is on one tour only.\<close>

lemma same_tour: "distinct (concat ss) \<Longrightarrow> s \<in> set ss \<Longrightarrow> t \<in> set ss \<Longrightarrow> x \<in> set s \<Longrightarrow> x \<in> set t \<Longrightarrow> s = t"
proof (induction ss)
  case (Cons r ss)
  have "set r \<inter> set q = {}" if "q \<in> set ss" for q
    using Cons.prems(1) that by auto
  then show ?case
    using Cons by (metis disjoint_iff set_ConsD distinct_append concat.simps(2))
qed simp

lemma tour_edges:
  assumes "tours n E ss" and "s \<in> set ss" and "(a, b) \<in> set s"
  shows "a = b \<or> (a, b) \<in> E"
proof -
  have "(a, b) \<in> set (concat ss)"
    using assms(2,3) by auto
  then show ?thesis
    unfolding toursD(3) [OF assms(1)] by auto
qed

lemma tour_connected:
  assumes "tours n E ss" and "s \<in> set ss" and "(a, a) \<in> set s" and "(b, b) \<in> set s"
  shows "(a, b) \<in> E\<^sup>*"
proof -
  have w: "successively follows s"
    using toursD(4) [OF assms(1,2)] by (simp add: closed_walk_def)
  have "(fst (hd s), a) \<in> E\<^sup>*" "(fst (hd s), b) \<in> E\<^sup>*"
    using walk_connected [OF w tour_edges [OF assms(1,2)]] assms(3,4) by auto
  then show ?thesis
    using rtrancl_sym [OF toursD(6) [OF assms(1)]] by (meson rtrancl_trans)
qed

lemma connected_tour:
  assumes "tours n E ss" and "(a, b) \<in> E\<^sup>*" and "s \<in> set ss" and "(a, a) \<in> set s"
  shows "(b, b) \<in> set s"
  using assms(2,4)
proof (induction rule: rtrancl_induct)
  case (step y z)
  have "(y, z) \<in> set (concat ss)"
    using step.hyps(2) toursD(3) [OF assms(1)] by auto
  then obtain t where t: "t \<in> set ss" "(y, z) \<in> set t"
    by auto
  then have "(y, y) \<in> set t" "(z, z) \<in> set t"
    using toursD(5) [OF assms(1)] by blast+
  then show ?case
    using same_tour [OF toursD(2) [OF assms(1)] assms(3) t(1), of "(y, y)"] step.IH step.prems by simp
qed simp

lemma tours_mset:
  assumes "mset ss = mset ss'" and "tours n E ss"
  shows "tours n E ss'"
proof -
  have "mset (concat ss) = mset (concat ss')"
    using assms(1) by (metis mset_concat mset_map sum_mset_sum_list)
  then have "distinct (concat ss) = distinct (concat ss')" "set (concat ss) = set (concat ss')"
    by (metis mset_eq_imp_distinct_iff, metis mset_eq_setD)
  moreover have "set ss = set ss'"
    using assms(1) by (metis mset_eq_setD)
  ultimately show ?thesis
    using assms(2) unfolding tours_def by simp
qed

section \<open>Linking and cutting\<close>

lemma tours_link:
  assumes "tours n E ((A @ (u, u) # B) # (C @ (v, v) # D) # ss)"
  shows "tours n (E \<union> {(u, v), (v, u)}) ((B @ A @ [(u, u), (u, v)] @ D @ C @ [(v, v), (v, u)]) # ss)"
    and "(u, v) \<notin> E\<^sup>*"
proof -
  let ?s = "A @ (u, u) # B" and ?t = "C @ (v, v) # D"
  let ?new = "B @ A @ [(u, u), (u, v)] @ D @ C @ [(v, v), (v, u)]"
  note t = toursD [OF assms]
  have uv: "u \<noteq> v"
    using t(2) by auto
  show far: "(u, v) \<notin> E\<^sup>*"
    using connected_tour [OF assms, of u v ?s] t(2) by auto
  have "(u, v) \<notin> E" "(v, u) \<notin> E"
    using far rtrancl_sym [OF t(6), of v u] by (auto dest: r_into_rtrancl)
  then have fresh: "(u, v) \<notin> set (concat (?s # ?t # ss))" "(v, u) \<notin> set (concat (?s # ?t # ss))"
    unfolding t(3) using uv by auto
  have "distinct (concat (?new # ss))"
    using t(2) fresh uv by auto
  moreover have "set (concat (?new # ss)) = (\<lambda>u. (u, u)) ` {..<n} \<union> (E \<union> {(u, v), (v, u)})"
  proof -
    have "set (concat (?new # ss)) = set (concat (?s # ?t # ss)) \<union> {(u, v), (v, u)}"
      by auto
    then show ?thesis
      unfolding t(3) by blast
  qed
  moreover have walk: "closed_walk ?new"
  proof -
    have "closed_walk (B @ A @ [(u, u)])" "closed_walk (D @ C @ [(v, v)])"
      using closed_walk_rotate [of "A @ [(u, u)]" B] closed_walk_rotate [of "C @ [(v, v)]" D] t(4) [of ?s] t(4) [of ?t]
      by simp_all
    then show ?thesis
      using closed_walk_join [of "B @ A @ [(u, u)]" u "D @ C @ [(v, v)]" v] by simp
  qed
  have "(a, a) \<in> set ?new \<and> (b, b) \<in> set ?new" if "(a, b) \<in> set ?new" for a b
    using that t(5) [of ?s a b] t(5) [of ?t a b] by auto
  then have "tour ?new"
    by (rule tourI [OF walk])
  ultimately show "tours n (E \<union> {(u, v), (v, u)}) (?new # ss)"
    using forest_link [OF t(1) uv far] assms unfolding tours_tour by simp
qed

text \<open>Cutting the edge \<open>(u, v)\<close>: what is between its two arcs is a tour of the side of \<open>v\<close>, the rest one of the side of \<open>u\<close>.\<close>

lemma tours_cut:
  assumes "tours n E ((L1 @ (u, v) # L2 @ (v, u) # L3) # ss)" and "u \<noteq> v"
  shows "tours n (E - {(u, v), (v, u)}) (L2 # (L1 @ L3) # ss)"
    and "(u, v) \<in> E" and "(u, u) \<in> set (L1 @ L3)" and "(v, v) \<in> set L2"
proof -
  let ?s = "L1 @ (u, v) # L2 @ (v, u) # L3" and ?F = "E - {(u, v), (v, u)}"
  note t = toursD [OF assms(1)]
  show edge: "(u, v) \<in> E"
    using tour_edges [OF assms(1), of ?s u v] assms(2) by simp
  have far: "(u, v) \<notin> ?F\<^sup>*"
    using t(1) edge by (auto simp: forest_def)
  have walk: "closed_walk (L2 @ (v, u) # L3 @ L1 @ [(u, v)])"
    using closed_walk_rotate [of "L1 @ [(u, v)]" "L2 @ (v, u) # L3"] t(4) [of ?s] by simp
  have in_F: "a = b \<or> (a, b) \<in> ?F" if "(a, b) \<in> set L2 \<union> set (L1 @ L3)" for a b
    using that tour_edges [OF assms(1), of ?s a b] t(2) by auto
  have w2: "successively follows L2" "L2 \<noteq> [] \<Longrightarrow> fst (hd L2) = v"
    and w13: "successively follows (L3 @ L1)" "L3 @ L1 \<noteq> [] \<Longrightarrow> fst (hd (L3 @ L1)) = u"
    using walk by (auto simp: closed_walk_def successively_append_iff successively_Cons hd_append split: if_splits)
  have near2: "(v, a) \<in> ?F\<^sup>* \<and> (v, b) \<in> ?F\<^sup>*" if "(a, b) \<in> set L2" for a b
  proof -
    have "(fst (hd L2), a) \<in> ?F\<^sup>* \<and> (fst (hd L2), b) \<in> ?F\<^sup>*"
      by (rule walk_connected [OF w2(1) _ that]) (use in_F in blast)
    then show ?thesis
      using w2(2) that by (cases L2) auto
  qed
  have near13: "(u, a) \<in> ?F\<^sup>* \<and> (u, b) \<in> ?F\<^sup>*" if "(a, b) \<in> set (L1 @ L3)" for a b
  proof -
    have mem: "(a, b) \<in> set (L3 @ L1)"
      using that by auto
    have "(fst (hd (L3 @ L1)), a) \<in> ?F\<^sup>* \<and> (fst (hd (L3 @ L1)), b) \<in> ?F\<^sup>*"
      by (rule walk_connected [OF w13(1) _ mem]) (use in_F in auto)
    then show ?thesis
      using w13(2) mem by (metis in_set_conv_nth length_0_conv less_nat_zero_code)
  qed
  have symF: "sym ?F"
    using t(6) by (auto simp: sym_def)
  have apart: "(c, c) \<notin> set (L1 @ L3)" if "(v, c) \<in> ?F\<^sup>*" for c
    using near13 [of c c] far that rtrancl_sym [OF symF] by (meson rtrancl_trans)
  have apart': "(c, c) \<notin> set L2" if "(u, c) \<in> ?F\<^sup>*" for c
    using near2 [of c c] far that rtrancl_sym [OF symF] by (meson rtrancl_trans)
  have vertex: "(a, a) \<in> set L2 \<or> (a, a) \<in> set (L1 @ L3)" if "(a, b) \<in> set ?s \<or> (b, a) \<in> set ?s" for a b
    using t(5) [of ?s a b] t(5) [of ?s b a] that assms(2) by auto
  show v: "(v, v) \<in> set L2" and u: "(u, u) \<in> set (L1 @ L3)"
    using vertex [of u v] vertex [of v u] apart [of v] apart' [of u] by auto
  have ends2: "(a, a) \<in> set L2 \<and> (b, b) \<in> set L2" if "(a, b) \<in> set L2" for a b
    using near2 [OF that] apart [of a] apart [of b] vertex [of a b] vertex [of b a] that by auto
  have ends13: "(a, a) \<in> set (L1 @ L3) \<and> (b, b) \<in> set (L1 @ L3)" if "(a, b) \<in> set (L1 @ L3)" for a b
    using near13 [OF that] apart' [of a] apart' [of b] vertex [of a b] vertex [of b a] that by auto
  have "tour L2" "tour (L1 @ L3)"
  proof -
    have "closed_walk L2"
      using walk w2 by (auto simp: closed_walk_def successively_append_iff successively_Cons)
    then show "tour L2"
      by (rule tourI) (rule ends2)
    have "closed_walk (L3 @ L1)"
      using walk w13 by (auto simp: closed_walk_def successively_append_iff successively_Cons last_append split: if_splits)
    then show "tour (L1 @ L3)"
      by (rule tourI [OF closed_walk_rotate]) (rule ends13)
  qed
  moreover have "distinct (concat (L2 # (L1 @ L3) # ss))"
    using t(2) by auto
  moreover have "set (concat (L2 # (L1 @ L3) # ss)) = (\<lambda>u. (u, u)) ` {..<n} \<union> ?F"
  proof -
    have "set (concat (L2 # (L1 @ L3) # ss)) = set (concat (?s # ss)) - {(u, v), (v, u)}"
      using t(2) by auto
    then show ?thesis
      unfolding t(3) using assms(2) by auto
  qed
  ultimately show "tours n ?F (L2 # (L1 @ L3) # ss)"
    using forest_cut [OF t(1)] assms(1) unfolding tours_tour by simp
qed

end
