(* ===== verification/DynamicForest.thy ===== *)
theory DynamicForest
  imports EttTreap EulerTour
begin

text \<open>
  The class \<open>DynamicForest\<close> of \<^verbatim>\<open>ett/ett_subtree_size.cpp\<close> and \<^verbatim>\<open>ett/ett_connectivity.cpp\<close>: a forest under
  insertion and deletion of edges, each tree kept as its Euler tour in a treap. Shown: a state keeps
  the tours of the forest of its edges, and the queries answer as that forest says, whatever the
  random priorities are. The printing function \<open>to_string\<close> is not modelled; \<open>ASSERT\<close> is empty in the program as built.
\<close>

section \<open>The class\<close>

record dforest =
  df_heap :: ett_heap
  df_fresh :: nat
  df_n :: nat
  df_vertices :: "nat \<Rightarrow> pointer"
  df_edges :: "nat \<Rightarrow> nat \<Rightarrow> pointer option"

definition AllocateNode :: "(nat \<Rightarrow> int) \<Rightarrow> nat \<Rightarrow> nat \<Rightarrow> dforest \<Rightarrow> pointer \<times> dforest" where
  "AllocateNode rng u v F =
     (Some (df_fresh F),
      F\<lparr>df_heap := (df_heap F)(df_fresh F \<mapsto> new_node (rng (df_fresh F)) u v), df_fresh := df_fresh F + 1\<rparr>)"

definition FreeNode :: "pointer \<Rightarrow> ett_heap \<Rightarrow> ett_heap" where
  "FreeNode p h = (case p of None \<Rightarrow> h | Some a \<Rightarrow> h(a := None))"

text \<open>The constructor: its loop, and the state before it.\<close>

fun allocate_vertices :: "(nat \<Rightarrow> int) \<Rightarrow> nat list \<Rightarrow> dforest \<Rightarrow> dforest" where
  "allocate_vertices rng [] F = F"
| "allocate_vertices rng (i # is) F =
     (let (p, F) = AllocateNode rng i i F in
      allocate_vertices rng is (F\<lparr>df_vertices := (df_vertices F)(i := p)\<rparr>))"

definition new_forest :: "(nat \<Rightarrow> int) \<Rightarrow> nat \<Rightarrow> dforest" where
  "new_forest rng n = allocate_vertices rng [0..<n]
     \<lparr>df_heap = Map.empty, df_fresh = 0, df_n = n, df_vertices = (\<lambda>_. None), df_edges = (\<lambda>_ _. None)\<rparr>"

text \<open>The destructor: the nodes of the edges, in the order of the maps, then those of the vertices.\<close>

definition edge_nodes :: "dforest \<Rightarrow> nat \<Rightarrow> pointer list" where
  "edge_nodes F u = map (\<lambda>v. the (df_edges F u v)) (filter (\<lambda>v. df_edges F u v \<noteq> None) [0..<df_n F])"

definition delete_forest :: "dforest \<Rightarrow> ett_heap" where
  "delete_forest F = fold FreeNode (concat (map (edge_nodes F) [0..<df_n F]) @ map (df_vertices F) [0..<df_n F]) (df_heap F)"

text \<open>\<open>vertices_[u]\<close>; an index outside the vector has no result.\<close>

definition vertex_at :: "dforest \<Rightarrow> nat \<Rightarrow> pointer option" where
  "vertex_at F u = (if u < df_n F then Some (df_vertices F u) else None)"

definition MakeRoot :: "nat \<Rightarrow> dforest \<Rightarrow> dforest option" where
  "MakeRoot u F = do {
     vertex_u \<leftarrow> vertex_at F u;
     position_u \<leftarrow> GetPosition (df_heap F) vertex_u;
     (L1, L2, h) \<leftarrow> SplitUp2 vertex_u (df_heap F);
     (_, h) \<leftarrow> Merge L2 L1 h;
     Some (F\<lparr>df_heap := h\<rparr>)
   }"

definition set_edge :: "nat \<Rightarrow> nat \<Rightarrow> pointer option \<Rightarrow> dforest \<Rightarrow> dforest" where
  "set_edge u v p F = F\<lparr>df_edges := (df_edges F)(u := (df_edges F u)(v := p))\<rparr>"

definition Insert :: "(nat \<Rightarrow> int) \<Rightarrow> nat \<Rightarrow> nat \<Rightarrow> dforest \<Rightarrow> dforest option" where
  "Insert rng u v F = do {
     vertex_u \<leftarrow> vertex_at F u;
     vertex_v \<leftarrow> vertex_at F v;
     let (edge_uv, F) = AllocateNode rng u v F;
     let (edge_vu, F) = AllocateNode rng v u F;
     let F = set_edge u v (Some edge_uv) F;
     let F = set_edge v u (Some edge_vu) F;
     position_u \<leftarrow> GetPosition (df_heap F) vertex_u;
     position_v \<leftarrow> GetPosition (df_heap F) vertex_v;
     (L11, L12, h) \<leftarrow> SplitUp2 vertex_u (df_heap F);
     (L21, L22, h) \<leftarrow> SplitUp2 vertex_v h;
     (result, h) \<leftarrow> Merge None L12 h;
     (result, h) \<leftarrow> Merge result L11 h;
     (result, h) \<leftarrow> Merge result edge_uv h;
     (result, h) \<leftarrow> Merge result L22 h;
     (result, h) \<leftarrow> Merge result L21 h;
     (result, h) \<leftarrow> Merge result edge_vu h;
     Some (F\<lparr>df_heap := h\<rparr>)
   }"

text \<open>\<open>tree_edges_[u][v]\<close>: a null pointer for an absent key (the entry \<open>operator[]\<close> makes is erased at once).\<close>

definition edge_at :: "dforest \<Rightarrow> nat \<Rightarrow> nat \<Rightarrow> pointer option" where
  "edge_at F u v = (if u < df_n F then Some (case df_edges F u v of None \<Rightarrow> None | Some p \<Rightarrow> p) else None)"

definition Delete :: "nat \<Rightarrow> nat \<Rightarrow> dforest \<Rightarrow> dforest option" where
  "Delete u v F = do {
     edge_uv \<leftarrow> edge_at F u v;
     edge_vu \<leftarrow> edge_at F v u;
     let F = set_edge u v None F;
     let F = set_edge v u None F;
     position_uv \<leftarrow> GetPosition (df_heap F) edge_uv;
     position_vu \<leftarrow> GetPosition (df_heap F) edge_vu;
     let (edge_uv, edge_vu) = (if position_uv > position_vu then (edge_vu, edge_uv) else (edge_uv, edge_vu));
     (L1, uv, _, h) \<leftarrow> SplitUp3 edge_uv (df_heap F);
     (L2, vu, L3, h) \<leftarrow> SplitUp3 edge_vu h;
     (L1, h) \<leftarrow> Merge L1 L3 h;
     Some (F\<lparr>df_heap := FreeNode edge_vu (FreeNode edge_uv h)\<rparr>)
   }"

definition IsConnected :: "nat \<Rightarrow> nat \<Rightarrow> dforest \<Rightarrow> bool option" where
  "IsConnected u v F = do {
     vertex_u \<leftarrow> vertex_at F u;
     vertex_v \<leftarrow> vertex_at F v;
     p \<leftarrow> FindRoot (df_heap F) vertex_u;
     q \<leftarrow> FindRoot (df_heap F) vertex_v;
     Some (p = q)
   }"

definition GetComponentSize :: "nat \<Rightarrow> dforest \<Rightarrow> nat option" where
  "GetComponentSize u F = do {
     vertex_u \<leftarrow> vertex_at F u;
     root_of_vertex_u \<leftarrow> FindRoot (df_heap F) vertex_u;
     GetSize (df_heap F) root_of_vertex_u
   }"

definition GetComponentNumberOfVertex :: "nat \<Rightarrow> dforest \<Rightarrow> nat option" where
  "GetComponentNumberOfVertex u F = do {
     vertex_u \<leftarrow> vertex_at F u;
     root_of_vertex_u \<leftarrow> FindRoot (df_heap F) vertex_u;
     if root_of_vertex_u \<noteq> None then map_option en_num_vertex (node_at (df_heap F) root_of_vertex_u) else Some 0
   }"

section \<open>The forest a state stands for\<close>

text \<open>
  The treaps \<open>ts\<close> are the tours of the forest with the edges \<open>E\<close>; the pointers of the class lead to the nodes of
  the vertices and of the arcs.
\<close>

definition df_inv :: "(nat \<Rightarrow> int) \<Rightarrow> dforest \<Rightarrow> etree list \<Rightarrow> arc set \<Rightarrow> bool" where
  "df_inv rng F ts E = (holds rng (df_heap F) ts \<and> tours (df_n F) E (map earcs ts) \<and>
     (\<forall>a \<in> set (concat (map eaddrs ts)). a < df_fresh F) \<and>
     (\<forall>u < df_n F. \<exists>a. df_vertices F u = Some a \<and> (a, u, u) \<in> set (concat (map enodes ts))) \<and>
     (\<forall>(u, v) \<in> E. \<exists>a. df_edges F u v = Some (Some a) \<and> (a, u, v) \<in> set (concat (map enodes ts))))"

lemma df_inv_perm:
  assumes "df_inv rng F ts E" and "mset ts = mset ts'"
  shows "df_inv rng F ts' E"
proof -
  have "tours (df_n F) E (map earcs ts')" if "tours (df_n F) E (map earcs ts)"
    by (rule tours_mset [OF _ that]) (use assms(2) in \<open>simp add: mset_map\<close>)
  then show ?thesis
    using assms(1) holds_perm [OF _ assms(2)] mset_eq_setD [OF assms(2)] by (simp add: df_inv_def)
qed

lemma df_invD:
  assumes "df_inv rng F ts E"
  shows "holds rng (df_heap F) ts" "tours (df_n F) E (map earcs ts)" "\<And>a. a \<in> set (concat (map eaddrs ts)) \<Longrightarrow> a < df_fresh F"
    "\<And>u. u < df_n F \<Longrightarrow> \<exists>a. df_vertices F u = Some a \<and> (a, u, u) \<in> set (concat (map enodes ts))"
    "\<And>u v. (u, v) \<in> E \<Longrightarrow> \<exists>a. df_edges F u v = Some (Some a) \<and> (a, u, v) \<in> set (concat (map enodes ts))"
    "distinct (concat (map eaddrs ts))"
  using assms by (auto simp: df_inv_def holds_def)

lemma df_invI:
  assumes "\<And>a. a \<in> set (concat (map eaddrs ts)) \<Longrightarrow> a < df_fresh F"
    and "\<And>u. u < df_n F \<Longrightarrow> \<exists>a. df_vertices F u = Some a \<and> (a, u, u) \<in> set (concat (map enodes ts))"
    and "\<And>u v. (u, v) \<in> E \<Longrightarrow> \<exists>a. df_edges F u v = Some (Some a) \<and> (a, u, v) \<in> set (concat (map enodes ts))"
    and "holds rng (df_heap F) ts" and "tours (df_n F) E (map earcs ts)"
  shows "df_inv rng F ts E"
  unfolding df_inv_def using assms by blast

text \<open>The treap with the node of a vertex, in front.\<close>

lemma find_vertex:
  assumes "df_inv rng F ts E" and "u < df_n F"
  obtains a l r fs us where "vertex_at F u = Some (Some a)" "df_inv rng F (eplug (EN l a (u, u) r) fs # us) E"
    "mset ts = mset (eplug (EN l a (u, u) r) fs # us)"
proof -
  note d = df_invD [OF assms(1)]
  obtain a where a: "df_vertices F u = Some a" "(a, u, u) \<in> set (concat (map enodes ts))"
    using d(4) [OF assms(2)] by blast
  obtain l r fs us where "mset ts = mset (eplug (EN l a (u, u) r) fs # us)"
    using holds_find [OF a(2) d(6)] by blast
  then show thesis
    using that a(1) assms(2) df_inv_perm [OF assms(1)] by (simp add: vertex_at_def)
qed

lemma vertex_in_plug: "x \<in> set (earcs (eplug (EN l a x r) fs))"
  using enodes_plug [of "EN l a x r" fs] by (simp add: earcs_nodes)

lemma FindRoot_holds:
  assumes "holds rng h (eplug (EN l a x r) fs # us)"
  shows "FindRoot h (Some a) = Some (root_ptr (eplug (EN l a x r) fs))"
  by (rule FindRoot_ok [of rng]) (use assms set_eaddrs_plug [of "EN l a x r" fs] in \<open>auto simp: holds_def\<close>)

lemma GetPosition_holds:
  assumes "holds rng h (eplug (EN l a x r) fs # us)"
  shows "GetPosition h (Some a) = Some (length (before fs @ enodes l) + 1)"
  by (rule GetPosition_ok [of rng]) (use assms in \<open>auto simp: holds_def\<close>)

section \<open>Queries\<close>

lemma IsConnected_ok:
  assumes "df_inv rng F ts E" and "u < df_n F" and "v < df_n F"
  shows "IsConnected u v F = Some ((u, v) \<in> E\<^sup>*)"
proof -
  obtain a l r fs us where u: "vertex_at F u = Some (Some a)" "df_inv rng F (eplug (EN l a (u, u) r) fs # us) E"
    using find_vertex [OF assms(1,2)] by metis
  obtain b l' r' gs vs where v: "vertex_at F v = Some (Some b)" "df_inv rng F (eplug (EN l' b (v, v) r') gs # vs) E"
      "mset (eplug (EN l a (u, u) r) fs # us) = mset (eplug (EN l' b (v, v) r') gs # vs)"
    using find_vertex [OF u(2) assms(3)] by metis
  let ?s = "eplug (EN l a (u, u) r) fs" and ?t = "eplug (EN l' b (v, v) r') gs"
  have mem: "?s \<in> set (?s # us)" "?t \<in> set (?s # us)"
    using mset_eq_setD [OF v(3)] by auto
  have roots: "FindRoot (df_heap F) (Some a) = Some (root_ptr ?s)" "FindRoot (df_heap F) (Some b) = Some (root_ptr ?t)"
    using FindRoot_holds df_invD(1) [OF u(2)] df_invD(1) [OF v(2)] by blast+
  have tours: "tours (df_n F) E (map earcs (?s # us))"
    by (rule df_invD(2) [OF u(2)])
  have same: "root_ptr ?s = root_ptr ?t \<longleftrightarrow> ?s = ?t"
  proof
    assume "root_ptr ?s = root_ptr ?t"
    moreover have "root_ptr ?s \<noteq> None"
      by (simp add: root_plug)
    ultimately obtain c where "c \<in> set (eaddrs ?s)" "c \<in> set (eaddrs ?t)"
      by (cases ?s; cases ?t) auto
    then show "?s = ?t"
      using mem(2) df_invD(6) [OF u(2)] by auto
  qed simp
  have "(u, v) \<in> E\<^sup>* \<longleftrightarrow> ?s = ?t"
  proof
    assume "(u, v) \<in> E\<^sup>*"
    then have "(v, v) \<in> set (earcs ?s)"
      using connected_tour [OF tours _ _ vertex_in_plug] by simp
    then have "?t \<notin> set us"
      using toursD(2) [OF tours] vertex_in_plug [of "(v, v)" l' b r' gs] by auto
    then show "?s = ?t"
      using mem(2) by simp
  next
    assume "?s = ?t"
    then have "(v, v) \<in> set (earcs ?s)"
      using vertex_in_plug [of "(v, v)" l' b r' gs] by simp
    then show "(u, v) \<in> E\<^sup>*"
      using tour_connected [OF tours, of "earcs ?s" u v] vertex_in_plug [of "(u, u)" l a r fs] by simp
  qed
  then show ?thesis
    using u(1) v(1) roots same by (auto simp: IsConnected_def)
qed

section \<open>Insertion of an edge\<close>

text \<open>Two vertices that are not connected are in different treaps.\<close>

lemma find_two_vertices:
  assumes "df_inv rng F ts E" and "u < df_n F" and "v < df_n F" and "(u, v) \<notin> E\<^sup>*"
  obtains a l r fs b l' r' gs us where "vertex_at F u = Some (Some a)" "vertex_at F v = Some (Some b)"
    "df_inv rng F (eplug (EN l a (u, u) r) fs # eplug (EN l' b (v, v) r') gs # us) E"
proof -
  obtain a l r fs us where u: "vertex_at F u = Some (Some a)" "df_inv rng F (eplug (EN l a (u, u) r) fs # us) E"
    using find_vertex [OF assms(1,2)] by metis
  obtain b l' r' gs vs where v: "vertex_at F v = Some (Some b)"
      "mset (eplug (EN l a (u, u) r) fs # us) = mset (eplug (EN l' b (v, v) r') gs # vs)"
    using find_vertex [OF u(2) assms(3)] by metis
  let ?s = "eplug (EN l a (u, u) r) fs" and ?t = "eplug (EN l' b (v, v) r') gs"
  have "?s \<noteq> ?t"
    using tour_connected [OF df_invD(2) [OF u(2)], of "earcs ?s" u v] assms(4) vertex_in_plug [of "(u, u)" l a r fs]
      vertex_in_plug [of "(v, v)" l' b r' gs] by auto
  then have "?t \<in> set us"
    using mset_eq_setD [OF v(2)] by (metis insertE insertI1 list.simps(15))
  then obtain xs ys where "us = xs @ ?t # ys"
    by (meson split_list)
  then have "df_inv rng F (?s # ?t # xs @ ys) E"
    using df_inv_perm [OF u(2), of "?s # ?t # xs @ ys"] by simp
  then show thesis
    using that u(1) v(1) by blast
qed

text \<open>A chain of merges of trees on the heap.\<close>

fun emerges :: "(nat \<Rightarrow> int) \<Rightarrow> etree \<Rightarrow> etree list \<Rightarrow> etree" where
  "emerges rng t [] = t"
| "emerges rng t (u # us) = emerges rng (emerge rng t u) us"

fun Merges :: "pointer \<Rightarrow> pointer list \<Rightarrow> ett_heap \<Rightarrow> (pointer \<times> ett_heap) option" where
  "Merges p [] h = Some (p, h)"
| "Merges p (q # qs) h = Merge p q h \<bind> (\<lambda>(p, h). Merges p qs h)"

lemma Merges_holds:
  assumes "holds rng h (t # us @ ts)"
  shows "\<exists>h'. Merges (root_ptr t) (map root_ptr us) h = Some (root_ptr (emerges rng t us), h') \<and>
    holds rng h' (emerges rng t us # ts)"
  using assms
proof (induction us arbitrary: t h)
  case (Cons u us)
  obtain h1 where "Merge (root_ptr t) (root_ptr u) h = Some (root_ptr (emerge rng t u), h1)" "holds rng h1 (emerge rng t u # us @ ts)"
    using Merge_holds [of rng h t u "us @ ts"] Cons.prems by auto
  then show ?case
    using Cons.IH [of h1 "emerge rng t u"] by auto
qed simp

lemma enodes_emerges: "enodes (emerges rng t us) = enodes t @ concat (map enodes us)"
  by (induction us arbitrary: t) auto

lemma Insert_eq:
  assumes "vertex_at F u = Some pu" and "vertex_at F v = Some pv"
    and "h0 = (df_heap F)(df_fresh F \<mapsto> new_node (rng (df_fresh F)) u v,
      Suc (df_fresh F) \<mapsto> new_node (rng (Suc (df_fresh F))) v u)"
    and "GetPosition h0 pu = Some k1" and "GetPosition h0 pv = Some k2"
    and "SplitUp2 pu h0 = Some (L11, L12, h1)" and "SplitUp2 pv h1 = Some (L21, L22, h2)"
    and "Merges L12 [L11, Some (df_fresh F), L22, L21, Some (Suc (df_fresh F))] h2 = Some (p, h3)"
  shows "Insert rng u v F = Some (set_edge v u (Some (Some (Suc (df_fresh F)))) (set_edge u v (Some (Some (df_fresh F))) F)
    \<lparr>df_heap := h3, df_fresh := Suc (Suc (df_fresh F))\<rparr>)"
  using assms by (auto simp: Insert_def AllocateNode_def set_edge_def Merge_null bind_eq_Some_conv split: prod.splits)

text \<open>The state with the new tour in the place of two old ones.\<close>

lemma df_inv_link:
  assumes "df_inv rng F (s # t # us) E" and "holds rng h (R # us)" and "enodes s = A @ (a, u, u) # B" and "enodes t = C @ (b, v, v) # D"
    and "enodes R = B @ A @ [(a, u, u), (df_fresh F, u, v)] @ D @ C @ [(b, v, v), (Suc (df_fresh F), v, u)]"
  shows "df_inv rng (set_edge v u (Some (Some (Suc (df_fresh F)))) (set_edge u v (Some (Some (df_fresh F))) F)
    \<lparr>df_heap := h, df_fresh := Suc (Suc (df_fresh F))\<rparr>) (R # us) (E \<union> {(u, v), (v, u)})" (is "df_inv rng ?F _ _")
proof -
  note d = df_invD [OF assms(1)]
  have arcs: "earcs s = map snd A @ (u, u) # map snd B" "earcs t = map snd C @ (v, v) # map snd D"
    using assms(3,4) by (simp_all add: earcs_nodes)
  have link: "tours (df_n F) E ((map snd A @ (u, u) # map snd B) # (map snd C @ (v, v) # map snd D) # map earcs us)"
    using d(2) arcs by simp
  have "earcs R = map snd B @ map snd A @ [(u, u), (u, v)] @ map snd D @ map snd C @ [(v, v), (v, u)]"
    using assms(5) by (simp add: earcs_nodes)
  then have tours: "tours (df_n ?F) (E \<union> {(u, v), (v, u)}) (map earcs (R # us))"
    using tours_link(1) [OF link] by (simp add: set_edge_def)
  have old: "set (concat (map enodes (s # t # us))) \<subseteq> set (concat (map enodes (R # us)))"
    using assms(3-5) by auto
  have fresh: "x < df_fresh ?F" if "x \<in> set (concat (map eaddrs (R # us)))" for x
  proof -
    have "x \<in> set (concat (map eaddrs (s # t # us))) \<or> x = df_fresh F \<or> x = Suc (df_fresh F)"
      using that assms(3-5) by (auto simp: eaddrs_nodes)
    then show ?thesis
      by (elim disjE) (drule d(3), simp_all)
  qed
  have vertices: "\<exists>x. df_vertices ?F w = Some x \<and> (x, w, w) \<in> set (concat (map enodes (R # us)))" if "w < df_n ?F" for w
  proof -
    have w: "w < df_n F" "df_vertices ?F w = df_vertices F w"
      using that by (simp_all add: set_edge_def)
    then obtain x where x: "df_vertices F w = Some x" "(x, w, w) \<in> set (concat (map enodes (s # t # us)))"
      using d(4) by blast
    show ?thesis
      by (intro exI conjI, rule trans [OF w(2) x(1)], rule subsetD [OF old x(2)])
  qed
  have edges: "\<exists>x. df_edges ?F w z = Some (Some x) \<and> (x, w, z) \<in> set (concat (map enodes (R # us)))"
    if "(w, z) \<in> E \<union> {(u, v), (v, u)}" for w z
  proof (cases "(w, z) \<in> {(u, v), (v, u)}")
    case True
    have "u \<noteq> v"
      using tours_link(2) [OF link] by auto
    then show ?thesis
      using True assms(5) by (auto simp: set_edge_def)
  next
    case False
    then have other: "(w, z) \<in> E" "df_edges ?F w z = df_edges F w z"
      using that by (auto simp: set_edge_def)
    obtain x where x: "df_edges F w z = Some (Some x)" "(x, w, z) \<in> set (concat (map enodes (s # t # us)))"
      using d(5) [OF other(1)] by blast
    show ?thesis
      by (intro exI conjI, rule trans [OF other(2) x(1)], rule subsetD [OF old x(2)])
  qed
  show ?thesis
    by (rule df_invI [OF fresh vertices edges]) (use assms(2) tours in simp_all)
qed

lemma Insert_ok:
  assumes "df_inv rng F ts E" and "u < df_n F" and "v < df_n F" and "(u, v) \<notin> E\<^sup>*"
  shows "\<exists>F' ts'. Insert rng u v F = Some F' \<and> df_inv rng F' ts' (E \<union> {(u, v), (v, u)}) \<and> df_n F' = df_n F"
proof -
  obtain a l r fs b l' r' gs us where vu: "vertex_at F u = Some (Some a)" and vv: "vertex_at F v = Some (Some b)"
      and inv: "df_inv rng F (eplug (EN l a (u, u) r) fs # eplug (EN l' b (v, v) r') gs # us) E"
    using find_two_vertices [OF assms] by metis
  let ?s = "eplug (EN l a (u, u) r) fs" and ?t = "eplug (EN l' b (v, v) r') gs"
  let ?c = "df_fresh F" and ?d = "Suc (df_fresh F)"
  let ?C = "EN EL ?c (u, v) EL" and ?D = "EN EL ?d (v, u) EL"
  note d = df_invD [OF inv]
  define h0 where "h0 = (df_heap F)(?c \<mapsto> new_node (rng ?c) u v, ?d \<mapsto> new_node (rng ?d) v u)"
  have "holds rng ((df_heap F)(?c \<mapsto> new_node (rng ?c) u v)) (?C # ?s # ?t # us)"
    by (rule new_holds [OF d(1)]) (use d(3) in blast)
  then have "holds rng h0 (?D # ?C # ?s # ?t # us)"
    unfolding h0_def by (rule new_holds) (use d(3) in \<open>force simp del: eaddrs_nodes\<close>)
  then have H0: "holds rng h0 (?s # ?t # ?C # ?D # us)" "holds rng h0 (?t # ?s # ?C # ?D # us)"
    by (auto elim!: holds_perm)
  obtain h1 s1 s2 where h1: "SplitUp2 (Some a) h0 = Some (root_ptr s1, root_ptr s2, h1)" "holds rng h1 (s1 # s2 # ?t # ?C # ?D # us)"
      "enodes s1 = before fs @ enodes l @ [(a, u, u)]" "enodes s2 = enodes r @ after fs"
    using SplitUp2_holds [OF H0(1)] by blast
  have "holds rng h1 (?t # s1 # s2 # ?C # ?D # us)"
    using h1(2) by (auto elim!: holds_perm)
  then obtain h2 s3 s4 where h2: "SplitUp2 (Some b) h1 = Some (root_ptr s3, root_ptr s4, h2)"
      "holds rng h2 (s3 # s4 # s1 # s2 # ?C # ?D # us)"
      "enodes s3 = before gs @ enodes l' @ [(b, v, v)]" "enodes s4 = enodes r' @ after gs"
    using SplitUp2_holds by blast
  define R where "R = emerges rng s2 [s1, ?C, s4, s3, ?D]"
  have "holds rng h2 (s2 # [s1, ?C, s4, s3, ?D] @ us)"
    using h2(2) by (auto elim!: holds_perm)
  then obtain h3 where h3: "Merges (root_ptr s2) [root_ptr s1, Some ?c, root_ptr s4, root_ptr s3, Some ?d] h2 = Some (root_ptr R, h3)"
      "holds rng h3 (R # us)"
    using Merges_holds [of rng h2 s2 "[s1, ?C, s4, s3, ?D]" us] by (auto simp: R_def)
  have R: "enodes R = enodes r @ after fs @ before fs @ enodes l @ [(a, u, u), (?c, u, v)] @
      enodes r' @ after gs @ before gs @ enodes l' @ [(b, v, v), (?d, v, u)]"
    by (simp add: R_def enodes_emerges h1(3,4) h2(3,4) del: emerges.simps)
  have st: "enodes ?s = before fs @ enodes l @ (a, u, u) # enodes r @ after fs"
      "enodes ?t = before gs @ enodes l' @ (b, v, v) # enodes r' @ after gs"
    by (simp_all add: enodes_plug)
  define F' where "F' = set_edge v u (Some (Some ?d)) (set_edge u v (Some (Some ?c)) F)\<lparr>df_heap := h3, df_fresh := Suc ?d\<rparr>"
  have "Insert rng u v F = Some F'"
    unfolding F'_def
    by (rule Insert_eq [OF vu vv h0_def GetPosition_holds [OF H0(1)] GetPosition_holds [OF H0(2)] h1(1) h2(1) h3(1)])
  moreover have "df_inv rng F' (R # us) (E \<union> {(u, v), (v, u)})"
    unfolding F'_def by (rule df_inv_link [OF inv h3(2), where A = "before fs @ enodes l" and B = "enodes r @ after fs"
          and C = "before gs @ enodes l'" and D = "enodes r' @ after gs"]) (simp_all add: st R)
  moreover have "df_n F' = df_n F"
    by (simp add: F'_def set_edge_def)
  ultimately show ?thesis
    by blast
qed

section \<open>Deletion of an edge\<close>

text \<open>A node is found by its place in the sequence.\<close>

lemma path_at:
  assumes "distinct (eaddrs t)" and "enodes t = X @ (a, x) # Z"
  shows "\<exists>l r fs. t = eplug (EN l a x r) fs \<and> before fs @ enodes l = X \<and> enodes r @ after fs = Z"
proof -
  have "a \<in> set (eaddrs t)"
    using assms(2) by (simp add: eaddrs_nodes)
  then obtain l y r fs where t: "t = eplug (EN l a y r) fs"
    using node_path by blast
  have e: "X @ (a, x) # Z = (before fs @ enodes l) @ (a, y) # enodes r @ after fs"
    using t assms(2) enodes_plug [of "EN l a y r" fs] by simp
  have dx: "distinct (map fst (X @ (a, x) # Z))"
    using assms by (simp add: eaddrs_nodes)
  moreover have "(a, y) \<in> set (X @ (a, x) # Z)"
    unfolding e by simp
  ultimately have "x = y"
    by (metis eq_key_imp_eq_value in_set_conv_decomp)
  moreover have "(a, x) \<notin> set X" "(a, x) \<notin> set Z"
    using dx by force+
  ultimately show ?thesis
    using e t append_Cons_eq_iff [of "(a, x)" X Z "before fs @ enodes l" "enodes r @ after fs"] by auto
qed

lemma Delete_eq:
  assumes "edge_at F u v = Some p0" and "edge_at F v u = Some q0"
    and "GetPosition (df_heap F) p0 = Some k1" and "GetPosition (df_heap F) q0 = Some k2"
    and "(p, q) = (if k1 > k2 then (q0, p0) else (p0, q0))"
    and "SplitUp3 p (df_heap F) = Some (L1, uv, L', h1)" and "SplitUp3 q h1 = Some (L2, vu, L3, h2)"
    and "Merge L1 L3 h2 = Some (m, h3)"
  shows "Delete u v F = Some (set_edge v u None (set_edge u v None F)\<lparr>df_heap := FreeNode q (FreeNode p h3)\<rparr>)"
  using assms(1-4,6-8) assms(5) [symmetric] by (simp add: Delete_def set_edge_def)

text \<open>The heap after the two arcs \<open>p\<close> and \<open>q\<close> of an edge are cut out, \<open>p\<close> first.\<close>

lemma cut_holds:
  assumes "holds rng h (t # us)" and "enodes t = X @ (p, x) # Y @ (q, y) # Z"
  shows "\<exists>L1 L' h1 L2 L3 h2 m h3 s1 s2. SplitUp3 (Some p) h = Some (L1, Some p, L', h1) \<and>
    SplitUp3 (Some q) h1 = Some (L2, Some q, L3, h2) \<and> Merge L1 L3 h2 = Some (m, h3) \<and>
    holds rng (FreeNode (Some q) (FreeNode (Some p) h3)) (s2 # s1 # us) \<and> enodes s1 = X @ Z \<and> enodes s2 = Y"
proof -
  let ?P = "EN EL p x EL" and ?Q = "EN EL q y EL"
  have "distinct (eaddrs t)"
    using assms(1) by (simp add: holds_def)
  then obtain l r fs where t: "t = eplug (EN l p x r) fs" "before fs @ enodes l = X" "enodes r @ after fs = Y @ (q, y) # Z"
    using path_at assms(2) by blast
  obtain h1 a s where h1: "SplitUp3 (Some p) h = Some (root_ptr a, Some p, root_ptr s, h1)" "holds rng h1 (a # ?P # s # us)"
      "enodes a = X" "enodes s = Y @ (q, y) # Z"
    using SplitUp3_holds [of rng h l p x r fs us] assms(1) t by auto
  have H1: "holds rng h1 (s # a # ?P # us)"
    using h1(2) by (auto elim!: holds_perm)
  then have "distinct (eaddrs s)"
    by (simp add: holds_def)
  then obtain l' r' gs where s: "s = eplug (EN l' q y r') gs" "before gs @ enodes l' = Y" "enodes r' @ after gs = Z"
    using path_at h1(4) by blast
  obtain h2 b c where h2: "SplitUp3 (Some q) h1 = Some (root_ptr b, Some q, root_ptr c, h2)" "holds rng h2 (b # ?Q # c # a # ?P # us)"
      "enodes b = Y" "enodes c = Z"
    using SplitUp3_holds [of rng h1 l' q y r' gs "a # ?P # us"] H1 s by auto
  have "holds rng h2 (a # c # ?P # ?Q # b # us)"
    using h2(2) by (auto elim!: holds_perm)
  then obtain h3 where h3: "Merge (root_ptr a) (root_ptr c) h2 = Some (root_ptr (emerge rng a c), h3)"
      "holds rng h3 (emerge rng a c # ?P # ?Q # b # us)"
    using Merge_holds by blast
  have "holds rng h3 (?P # ?Q # b # emerge rng a c # us)"
    using h3(2) by (auto elim!: holds_perm)
  then have "holds rng (h3(p := None, q := None)) (b # emerge rng a c # us)"
    by (intro free_holds [of rng _ ?Q] free_holds [of rng _ ?P]) auto
  then show ?thesis
    using h1(1,3) h2(1,3,4) h3(1) unfolding FreeNode_def option.case
    by (intro exI conjI) (auto simp: \<open>enodes a = X\<close>)
qed

lemma df_inv_cut:
  assumes "df_inv rng F (t # us) E" and "holds rng h (s2 # s1 # us)" and "enodes t = X @ (p, x, y) # Y @ (q, y, x) # Z" and "x \<noteq> y"
    and "enodes s1 = X @ Z" and "enodes s2 = Y" and "{(x, y), (y, x)} = {(u, v), (v, u)}"
  shows "df_inv rng (set_edge v u None (set_edge u v None F)\<lparr>df_heap := h\<rparr>) (s2 # s1 # us) (E - {(u, v), (v, u)})"
    (is "df_inv rng ?F _ _")
proof -
  note d = df_invD [OF assms(1)]
  have cut: "tours (df_n F) E ((map snd X @ (x, y) # map snd Y @ (y, x) # map snd Z) # map earcs us)"
    using d(2) assms(3) by (simp add: earcs_nodes)
  have tours: "tours (df_n ?F) (E - {(u, v), (v, u)}) (map earcs (s2 # s1 # us))"
    using tours_cut(1) [OF cut assms(4)] assms(5-7) by (simp add: earcs_nodes set_edge_def)
  have rest: "(c, w, z) \<in> set (concat (map enodes (s2 # s1 # us)))"
    if "(c, w, z) \<in> set (concat (map enodes (t # us)))" "(w, z) \<notin> {(x, y), (y, x)}" for c w z
    using that assms(3,5,6) by auto
  have fresh: "c < df_fresh ?F" if "c \<in> set (concat (map eaddrs (s2 # s1 # us)))" for c
  proof -
    have "c \<in> set (concat (map eaddrs (t # us)))"
      using that assms(3,5,6) by (auto simp: eaddrs_nodes)
    then show ?thesis
      using d(3) [of c] by (simp add: set_edge_def)
  qed
  have vertices: "\<exists>c. df_vertices ?F w = Some c \<and> (c, w, w) \<in> set (concat (map enodes (s2 # s1 # us)))" if "w < df_n ?F" for w
  proof -
    have w: "w < df_n F" "df_vertices ?F w = df_vertices F w" "(w, w) \<notin> {(x, y), (y, x)}"
      using that assms(4) by (auto simp: set_edge_def)
    then obtain c where c: "df_vertices F w = Some c" "(c, w, w) \<in> set (concat (map enodes (t # us)))"
      using d(4) by blast
    show ?thesis
      by (intro exI conjI, rule trans [OF w(2) c(1)], rule rest [OF c(2) w(3)])
  qed
  have edges: "\<exists>c. df_edges ?F w z = Some (Some c) \<and> (c, w, z) \<in> set (concat (map enodes (s2 # s1 # us)))"
    if wz: "(w, z) \<in> E - {(u, v), (v, u)}" for w z
  proof -
    have other: "(w, z) \<notin> {(x, y), (y, x)}" "df_edges ?F w z = df_edges F w z"
      using wz unfolding assms(7) by (auto simp: set_edge_def)
    obtain c where c: "df_edges F w z = Some (Some c)" "(c, w, z) \<in> set (concat (map enodes (t # us)))"
      using d(5) [of w z] wz by blast
    show ?thesis
      by (intro exI conjI, rule trans [OF other(2) c(1)], rule rest [OF c(2) other(1)])
  qed
  show ?thesis
    by (rule df_invI [OF fresh vertices edges]) (use assms(2) tours in simp_all)
qed

lemma two_in_list:
  assumes "x \<in> set xs" and "y \<in> set xs" and "x \<noteq> y"
  shows "\<exists>X Y Z. xs = X @ x # Y @ y # Z \<or> xs = X @ y # Y @ x # Z"
proof -
  obtain X W where xs: "xs = X @ x # W"
    using assms(1) by (meson split_list)
  then consider "y \<in> set X" | "y \<in> set W"
    using assms(2,3) by auto
  then show ?thesis
  proof cases
    case 1
    then obtain A B where "X = A @ y # B"
      by (meson split_list)
    then show ?thesis
      using xs by auto
  next
    case 2
    then obtain A B where "W = A @ y # B"
      by (meson split_list)
    then show ?thesis
      using xs by auto
  qed
qed

text \<open>The two arcs of an edge are in one treap, one after the other.\<close>

lemma find_edge:
  assumes "df_inv rng F ts E" and "(u, v) \<in> E"
  obtains p q t us X Y Z where "edge_at F u v = Some (Some p)" "edge_at F v u = Some (Some q)" "df_inv rng F (t # us) E"
    "enodes t = X @ (p, u, v) # Y @ (q, v, u) # Z \<or> enodes t = X @ (q, v, u) # Y @ (p, u, v) # Z" "u < df_n F" "v < df_n F" "u \<noteq> v"
proof -
  note d = df_invD [OF assms(1)]
  note t = toursD [OF d(2)]
  have vu: "(v, u) \<in> E" and uv: "u \<noteq> v"
    using assms(2) t(6,7) by (auto simp: sym_def irrefl_def)
  obtain p q where p: "df_edges F u v = Some (Some p)" "(p, u, v) \<in> set (concat (map enodes ts))"
      and q: "df_edges F v u = Some (Some q)" "(q, v, u) \<in> set (concat (map enodes ts))"
    using d(5) [OF assms(2)] d(5) [OF vu] by blast
  obtain s s' where s: "s \<in> set ts" "(p, u, v) \<in> set (enodes s)" and s': "s' \<in> set ts" "(q, v, u) \<in> set (enodes s')"
    using p(2) q(2) by auto
  have "(u, u) \<in> set (earcs s)" "(v, v) \<in> set (earcs s)" "(u, u) \<in> set (earcs s')"
    using t(5) [of "earcs s" u v] t(5) [of "earcs s'" v u] s s' by (force simp: earcs_nodes)+
  then have n: "(u, u) \<in> (\<lambda>u. (u, u)) ` {..<df_n F} \<union> E" "(v, v) \<in> (\<lambda>u. (u, u)) ` {..<df_n F} \<union> E"
    using s(1) unfolding t(3) [symmetric] by auto
  obtain us where us: "mset ts = mset (s # us)"
    using s(1) by (metis split_list mset_append mset.simps(2) union_mset_add_mset_right)
  have inv: "df_inv rng F (s # us) E"
    by (rule df_inv_perm [OF assms(1) us])
  have "s' = s"
  proof (rule ccontr)
    assume "s' \<noteq> s"
    then have "s' \<in> set us"
      using s'(1) mset_eq_setD [OF us] by auto
    then show False
      using toursD(2) [OF df_invD(2) [OF inv]] \<open>(u, u) \<in> set (earcs s)\<close> \<open>(u, u) \<in> set (earcs s')\<close> by auto
  qed
  then have "(q, v, u) \<in> set (enodes s)"
    using s'(2) by simp
  then obtain X Y Z where or: "enodes s = X @ (p, u, v) # Y @ (q, v, u) # Z \<or> enodes s = X @ (q, v, u) # Y @ (p, u, v) # Z"
    using two_in_list [OF s(2), of "(q, v, u)"] uv by blast
  have un: "u < df_n F" and vn: "v < df_n F"
    using n t(7) by (auto simp: irrefl_def)
  have "edge_at F u v = Some (Some p)" "edge_at F v u = Some (Some q)"
    using un vn p(1) q(1) by (simp_all add: edge_at_def)
  from that [OF this inv or un vn uv] show thesis .
qed

lemma position_at:
  assumes "holds rng h (t # us)" and "enodes t = X @ (a, x) # Z"
  shows "GetPosition h (Some a) = Some (Suc (length X))"
proof -
  have "distinct (eaddrs t)"
    using assms(1) by (simp add: holds_def)
  then obtain l r fs where "t = eplug (EN l a x r) fs" "before fs @ enodes l = X"
    using path_at assms(2) by blast
  then show ?thesis
    using GetPosition_holds [of rng h l a x r fs us] assms(1) by auto
qed

lemma Delete_ok:
  assumes "df_inv rng F ts E" and "(u, v) \<in> E"
  shows "\<exists>F' ts'. Delete u v F = Some F' \<and> df_inv rng F' ts' (E - {(u, v), (v, u)}) \<and> df_n F' = df_n F"
proof -
  obtain p q t us X Y Z where e: "edge_at F u v = Some (Some p)" "edge_at F v u = Some (Some q)"
      and inv: "df_inv rng F (t # us) E" and "u \<noteq> v"
      and or: "enodes t = X @ (p, u, v) # Y @ (q, v, u) # Z \<or> enodes t = X @ (q, v, u) # Y @ (p, u, v) # Z"
    using find_edge [OF assms] by metis
  note H = df_invD(1) [OF inv]
  have n: "df_n (set_edge v u None (set_edge u v None F)\<lparr>df_heap := h\<rparr>) = df_n F" for h
    by (simp add: set_edge_def)
  from or show ?thesis
  proof
    assume t: "enodes t = X @ (p, u, v) # Y @ (q, v, u) # Z"
    have pos: "GetPosition (df_heap F) (Some p) = Some (Suc (length X))"
        "GetPosition (df_heap F) (Some q) = Some (Suc (length (X @ (p, u, v) # Y)))"
      by (rule position_at [OF H], simp add: t)+
    obtain L1 L' h1 L2 L3 h2 m h3 s1 s2 where c: "SplitUp3 (Some p) (df_heap F) = Some (L1, Some p, L', h1)"
        "SplitUp3 (Some q) h1 = Some (L2, Some q, L3, h2)" "Merge L1 L3 h2 = Some (m, h3)"
        "holds rng (FreeNode (Some q) (FreeNode (Some p) h3)) (s2 # s1 # us)" "enodes s1 = X @ Z" "enodes s2 = Y"
      using cut_holds [OF H t] by blast
    show ?thesis
      using Delete_eq [OF e pos _ c(1-3)] df_inv_cut [OF inv c(4) t \<open>u \<noteq> v\<close> c(5,6)] n by auto
  next
    assume t: "enodes t = X @ (q, v, u) # Y @ (p, u, v) # Z"
    have pos: "GetPosition (df_heap F) (Some p) = Some (Suc (length (X @ (q, v, u) # Y)))"
        "GetPosition (df_heap F) (Some q) = Some (Suc (length X))"
      by (rule position_at [OF H], simp add: t)+
    obtain L1 L' h1 L2 L3 h2 m h3 s1 s2 where c: "SplitUp3 (Some q) (df_heap F) = Some (L1, Some q, L', h1)"
        "SplitUp3 (Some p) h1 = Some (L2, Some p, L3, h2)" "Merge L1 L3 h2 = Some (m, h3)"
        "holds rng (FreeNode (Some p) (FreeNode (Some q) h3)) (s2 # s1 # us)" "enodes s1 = X @ Z" "enodes s2 = Y"
      using cut_holds [OF H t] by blast
    show ?thesis
      using Delete_eq [OF e pos _ c(1-3)] df_inv_cut [OF inv c(4) t _ c(5,6), of u v] \<open>u \<noteq> v\<close> n by auto
  qed
qed

section \<open>Sizes\<close>

lemma vertices_in_card:
  assumes "distinct s"
  shows "vertices_in s = card {w. (w, w) \<in> set s}"
proof -
  have "vertices_in s = card (set (filter (\<lambda>(u, v). u = v) s))"
    unfolding vertices_in_def using assms by (metis distinct_card distinct_filter)
  also have "set (filter (\<lambda>(u, v). u = v) s) = (\<lambda>w. (w, w)) ` {w. (w, w) \<in> set s}"
    by auto
  also have "card \<dots> = card {w. (w, w) \<in> set s}"
    by (rule card_image) (simp add: inj_on_def)
  finally show ?thesis .
qed

text \<open>The vertices on the tour of \<open>u\<close> are those connected with \<open>u\<close>.\<close>

lemma tour_vertices:
  assumes "tours n E (s # ss)" and "(u, u) \<in> set s"
  shows "{w. (w, w) \<in> set s} = {w. (u, w) \<in> E\<^sup>*}"
  using tour_connected [OF assms(1) _ assms(2)] connected_tour [OF assms(1) _ _ assms(2)] by auto

text \<open>The root node of the component of a vertex has the counts of its tour.\<close>

lemma component_root:
  assumes "df_inv rng F ts E" and "u < df_n F"
  obtains a b n s ss where "vertex_at F u = Some (Some a)" "FindRoot (df_heap F) (Some a) = Some (Some b)" "df_heap F b = Some n"
    "en_size n = length s" "en_num_vertex n = vertices_in s" "tours (df_n F) E (s # ss)" "(u, u) \<in> set s"
proof -
  obtain a l r fs us where u: "vertex_at F u = Some (Some a)" "df_inv rng F (eplug (EN l a (u, u) r) fs # us) E"
    using find_vertex [OF assms] by metis
  let ?t = "eplug (EN l a (u, u) r) fs"
  note d = df_invD [OF u(2)]
  obtain l' b x r' where t: "?t = EN l' b x r'"
    by (cases ?t) (auto simp: root_plug simp flip: root_ptr_None)
  have "FindRoot (df_heap F) (Some a) = Some (Some b)"
    using FindRoot_holds [OF d(1)] t by simp
  moreover have "cells rng (df_heap F) None ?t"
    using d(1) by (simp add: holds_def)
  then obtain n where "df_heap F b = Some n" "en_size n = length (earcs ?t)" "en_num_vertex n = vertices_in (earcs ?t)"
    using cells_root [OF _ t, of rng "df_heap F" None] by blast
  moreover have "tours (df_n F) E (earcs ?t # map earcs us)"
    using d(2) by simp
  ultimately show thesis
    using that u(1) vertex_in_plug by blast
qed

lemma GetComponentNumberOfVertex_ok:
  assumes "df_inv rng F ts E" and "u < df_n F"
  shows "GetComponentNumberOfVertex u F = Some (card {w. (u, w) \<in> E\<^sup>*})"
proof -
  obtain a b n s ss where r: "vertex_at F u = Some (Some a)" "FindRoot (df_heap F) (Some a) = Some (Some b)" "df_heap F b = Some n"
      "en_num_vertex n = vertices_in s" "tours (df_n F) E (s # ss)" "(u, u) \<in> set s"
    using component_root [OF assms] by metis
  have "distinct s"
    using toursD(2) [OF r(5)] by simp
  then have "en_num_vertex n = card {w. (u, w) \<in> E\<^sup>*}"
    using r(4) vertices_in_card tour_vertices [OF r(5,6)] by simp
  then show ?thesis
    using r(1-3) by (simp add: GetComponentNumberOfVertex_def node_at_def)
qed

text \<open>The size of a component counts its vertices and its edges, the latter in both directions.\<close>

lemma GetComponentSize_ok:
  assumes "df_inv rng F ts E" and "u < df_n F"
  shows "GetComponentSize u F = Some (card {w. (u, w) \<in> E\<^sup>*} + card {(a, b) \<in> E. (u, a) \<in> E\<^sup>*})"
proof -
  obtain a b n s ss where r: "vertex_at F u = Some (Some a)" "FindRoot (df_heap F) (Some a) = Some (Some b)" "df_heap F b = Some n"
      "en_size n = length s" "tours (df_n F) E (s # ss)" "(u, u) \<in> set s"
    using component_root [OF assms] by metis
  note t = toursD [OF r(5)] and v = tour_vertices [OF r(5,6)]
  let ?V = "{w. (u, w) \<in> E\<^sup>*}" and ?A = "{(a, b) \<in> E. (u, a) \<in> E\<^sup>*}"
  have "(a, b) \<in> set s \<longleftrightarrow> (a, b) \<in> (\<lambda>w. (w, w)) ` ?V \<union> ?A" for a b
  proof
    assume "(a, b) \<in> set s"
    moreover have "(a, a) \<in> set s"
      using calculation t(5) [of s a b] by simp
    ultimately show "(a, b) \<in> (\<lambda>w. (w, w)) ` ?V \<union> ?A"
      using tour_edges [OF r(5), of s a b] v by auto
  next
    assume "(a, b) \<in> (\<lambda>w. (w, w)) ` ?V \<union> ?A"
    then consider "a = b" "(b, b) \<in> set s" | "(a, b) \<in> E" "(a, a) \<in> set s"
      using v by auto
    then show "(a, b) \<in> set s"
    proof cases
      case 2
      then have "(a, b) \<in> set (concat (s # ss))"
        unfolding t(3) by simp
      then obtain q where "q \<in> set (s # ss)" "(a, b) \<in> set q"
        by auto
      then show ?thesis
        using 2(2) same_tour [OF t(2), of q s "(a, a)"] t(5) [of q a b] by auto
    qed simp
  qed
  then have set_s: "set s = (\<lambda>w. (w, w)) ` ?V \<union> ?A"
    by auto
  moreover have "(\<lambda>w. (w, w)) ` ?V \<inter> ?A = {}"
    using t(7) by (auto simp: irrefl_def)
  moreover have "finite ((\<lambda>w. (w, w)) ` ?V)" "finite ?A"
    using finite_set [of s] unfolding set_s by simp_all
  ultimately have "card (set s) = card ((\<lambda>w. (w, w)) ` ?V) + card ?A"
    by (simp add: card_Un_disjoint)
  moreover have "card ((\<lambda>w. (w, w)) ` ?V) = card ?V" "card (set s) = length s"
    using t(2) by (auto intro: card_image distinct_card simp: inj_on_def)
  ultimately show ?thesis
    using r(1-4) by (simp add: GetComponentSize_def GetSize_def node_at_def)
qed

section \<open>Re-rooting\<close>

lemma tours_rotate:
  assumes "tours n E ((A @ B) # ss)"
  shows "tours n E ((B @ A) # ss)"
proof -
  have "closed_walk (B @ A)"
    by (rule closed_walk_rotate, rule toursD(4) [OF assms]) simp
  then have "tour (B @ A)"
    by (rule tourI) (use toursD(5) [OF assms, of "A @ B"] in auto)
  moreover have "distinct (concat ((B @ A) # ss)) = distinct (concat ((A @ B) # ss))" "set (concat ((B @ A) # ss)) = set (concat ((A @ B) # ss))"
    by auto
  ultimately show ?thesis
    using assms unfolding tours_tour by simp
qed

text \<open>\<open>MakeRoot\<close> turns the tour so that it ends with the vertex; the forest stays the same.\<close>

lemma MakeRoot_ok:
  assumes "df_inv rng F ts E" and "u < df_n F"
  shows "\<exists>F' t us. MakeRoot u F = Some F' \<and> df_inv rng F' (t # us) E \<and> df_n F' = df_n F \<and> last (earcs t) = (u, u)"
proof -
  obtain a l r fs us where u: "vertex_at F u = Some (Some a)" "df_inv rng F (eplug (EN l a (u, u) r) fs # us) E"
    using find_vertex [OF assms] by metis
  let ?t = "eplug (EN l a (u, u) r) fs"
  note d = df_invD [OF u(2)]
  obtain h1 s1 s2 where h1: "SplitUp2 (Some a) (df_heap F) = Some (root_ptr s1, root_ptr s2, h1)" "holds rng h1 (s1 # s2 # us)"
      "enodes s1 = before fs @ enodes l @ [(a, u, u)]" "enodes s2 = enodes r @ after fs"
    using SplitUp2_holds [OF d(1)] by blast
  have "holds rng h1 (s2 # s1 # us)"
    using h1(2) by (auto elim!: holds_perm)
  then obtain h2 where h2: "Merge (root_ptr s2) (root_ptr s1) h1 = Some (root_ptr (emerge rng s2 s1), h2)"
      "holds rng h2 (emerge rng s2 s1 # us)"
    using Merge_holds by blast
  let ?m = "emerge rng s2 s1" and ?F = "F\<lparr>df_heap := h2\<rparr>"
  have nodes: "enodes ?t = enodes s1 @ enodes s2" "enodes ?m = enodes s2 @ enodes s1"
    using enodes_plug [of "EN l a (u, u) r" fs] h1(3,4) by simp_all
  have "tours (df_n F) E ((map snd (enodes s1) @ map snd (enodes s2)) # map earcs us)"
    using d(2) nodes(1) by (simp add: earcs_nodes)
  then have tours: "tours (df_n F) E (map earcs (?m # us))"
    using tours_rotate nodes(2) by (simp add: earcs_nodes)
  have same: "set (concat (map enodes (?m # us))) = set (concat (map enodes (?t # us)))"
      "set (concat (map eaddrs (?m # us))) = set (concat (map eaddrs (?t # us)))"
    using nodes by (auto simp: eaddrs_nodes)
  have "df_inv rng ?F (?m # us) E"
    using u(2) h2(2) tours unfolding df_inv_def same by (simp del: concat.simps list.map set_concat)
  moreover have "MakeRoot u F = Some ?F"
    using u(1) GetPosition_holds [OF d(1)] h1(1) h2(1) by (simp add: MakeRoot_def)
  moreover have "last (earcs ?m) = (u, u)"
    using nodes(2) h1(3) by (simp add: earcs_nodes)
  ultimately show ?thesis
    by force
qed

section \<open>The constructor\<close>

text \<open>The vertices allocated so far, each a tree of its own.\<close>

definition alone :: "nat \<Rightarrow> etree" where
  "alone u = EN EL u (u, u) EL"

lemma allocate_vertices_ok:
  assumes "F = \<lparr>df_heap = h, df_fresh = k, df_n = n, df_vertices = V, df_edges = (\<lambda>_ _. None)\<rparr>"
    and "holds rng h (map alone [0..<k])" and "\<forall>u < k. V u = Some u" and "k \<le> n"
  shows "\<exists>h' V'. allocate_vertices rng [k..<n] F =
      \<lparr>df_heap = h', df_fresh = n, df_n = n, df_vertices = V', df_edges = (\<lambda>_ _. None)\<rparr> \<and>
    holds rng h' (map alone [0..<n]) \<and> (\<forall>u < n. V' u = Some u)"
  using assms
proof (induction "n - k" arbitrary: k h V F)
  case (Suc m)
  let ?h = "h(k \<mapsto> new_node (rng k) k k)"
  have "holds rng ?h (alone k # map alone [0..<k])"
    unfolding alone_def [of k] by (rule new_holds [OF Suc.prems(2)]) (simp add: alone_def)
  then have "holds rng ?h (map alone [0..<Suc k])"
    by (rule holds_perm) simp
  moreover have "k < n"
    using Suc.hyps(2) by simp
  ultimately show ?case
    using Suc.hyps(1) [of "Suc k" _ ?h "V(k := Some k)"] Suc.hyps(2) Suc.prems
    by (simp add: AllocateNode_def upt_rec [of k n] less_Suc_eq)
qed simp

lemma new_forest_ok:
  "\<exists>ts. df_inv rng (new_forest rng n) ts {}" "df_n (new_forest rng n) = n" "df_fresh (new_forest rng n) = n"
proof -
  obtain h V where F: "new_forest rng n = \<lparr>df_heap = h, df_fresh = n, df_n = n, df_vertices = V, df_edges = (\<lambda>_ _. None)\<rparr>"
      "holds rng h (map alone [0..<n])" "\<forall>u < n. V u = Some u"
    using allocate_vertices_ok [OF refl, of rng Map.empty 0 "\<lambda>_. None" n] by (auto simp: new_forest_def holds_def)
  have "distinct (concat (map (\<lambda>u. [(u, u)]) [0..<n]))"
    by (induction n) auto
  then have "tours n {} (map earcs (map alone [0..<n]))"
    by (auto simp: tours_def forest_def alone_def closed_walk_def sym_def irrefl_def o_def)
  then show "\<exists>ts. df_inv rng (new_forest rng n) ts {}"
    using F by (intro exI [of _ "map alone [0..<n]"]) (auto simp: df_inv_def alone_def)
  show "df_n (new_forest rng n) = n" "df_fresh (new_forest rng n) = n"
    by (simp_all add: F(1))
qed

section \<open>The destructor\<close>

lemma node_unique:
  assumes "(a, x) \<in> set (concat (map enodes ts))" and "(b, x) \<in> set (concat (map enodes ts))" and "tours n E (map earcs ts)"
  shows "b = a"
proof -
  have "concat (map earcs ts) = map snd (concat (map enodes ts))"
    by (induction ts) (simp_all add: earcs_nodes)
  then have "inj_on snd (set (concat (map enodes ts)))"
    using toursD(2) [OF assms(3)] by (metis distinct_map)
  then show ?thesis
    using inj_onD [OF _ _ assms(2,1)] by force
qed

lemma fold_FreeNode: "fold FreeNode ps h a = (if Some a \<in> set ps then None else h a)"
  by (induction ps arbitrary: h) (auto simp: FreeNode_def split: option.splits)

text \<open>Every node of a tour is freed.\<close>

lemma delete_forest_ok:
  assumes "df_inv rng F ts E" and "a \<in> set (concat (map eaddrs ts))"
  shows "delete_forest F a = None"
proof -
  note d = df_invD [OF assms(1)]
  obtain t where "t \<in> set ts" "a \<in> fst ` set (enodes t)"
    using assms(2) by (auto simp: eaddrs_nodes)
  then obtain x y where node: "(a, x, y) \<in> set (concat (map enodes ts))"
    by fastforce
  then have "(x, y) \<in> set (concat (map earcs ts))"
    by (force simp: earcs_nodes)
  then consider "x = y" "x < df_n F" | "(x, y) \<in> E"
    unfolding toursD(3) [OF d(2)] by auto
  then have "Some a \<in> set (concat (map (edge_nodes F) [0..<df_n F]) @ map (df_vertices F) [0..<df_n F])"
  proof cases
    case 1
    then obtain b where b: "df_vertices F x = Some b" "(b, x, y) \<in> set (concat (map enodes ts))"
      using d(4) [of x] by blast
    then have "b = a"
      using node_unique [OF node b(2)] d(2) by blast
    then show ?thesis
      using 1 b(1) by force
  next
    case 2
    then obtain b where b: "df_edges F x y = Some (Some b)" "(b, x, y) \<in> set (concat (map enodes ts))"
      using d(5) by blast
    then have "b = a"
      using node_unique [OF node b(2)] d(2) by blast
    moreover have "x < df_n F" "y < df_n F"
      using find_edge [OF assms(1) 2] by metis+
    ultimately show ?thesis
      using b(1) by (force simp: edge_nodes_def)
  qed
  then show ?thesis
    by (simp only: delete_forest_def fold_FreeNode if_True)
qed

end
