(* ===== verification/ForestPrograms.thy ===== *)
theory ForestPrograms
  imports DynamicForest
begin

text \<open>
  The programs of \<^verbatim>\<open>ett/ett_connectivity.cpp\<close> and \<^verbatim>\<open>ett/ett_subtree_size.cpp\<close>: a sequence of queries on a
  \<open>DynamicForest\<close> with the vertices \<open>0..n\<close>. Shown: for every sequence of queries that keeps the graph a forest, and
  whatever the random priorities are, they end and print what the graph of the current edges says.
\<close>

section \<open>The programs\<close>

text \<open>One query of \<^verbatim>\<open>ett_connectivity.cpp\<close>, and its output.\<close>

datatype conn_op = QQuery nat nat | QConnect nat nat | QDestroy nat nat

fun conn_step :: "(nat \<Rightarrow> int) \<Rightarrow> dforest \<Rightarrow> conn_op \<Rightarrow> (dforest \<times> string list) option" where
  "conn_step rng F (QQuery u v) = do { c \<leftarrow> IsConnected u v F; Some (F, [if c then ''Yes'' else ''No'']) }"
| "conn_step rng F (QConnect u v) = do { F \<leftarrow> Insert rng u v F; Some (F, []) }"
| "conn_step rng F (QDestroy u v) = do { F \<leftarrow> Delete u v F; Some (F, []) }"

fun conn_loop :: "(nat \<Rightarrow> int) \<Rightarrow> dforest \<Rightarrow> conn_op list \<Rightarrow> (dforest \<times> string list) option" where
  "conn_loop rng F [] = Some (F, [])"
| "conn_loop rng F (op # ops) = do {
     (F, out1) \<leftarrow> conn_step rng F op;
     (F, out2) \<leftarrow> conn_loop rng F ops;
     Some (F, out1 @ out2)
   }"

definition conn_solve :: "(nat \<Rightarrow> int) \<Rightarrow> nat \<Rightarrow> conn_op list \<Rightarrow> (dforest \<times> string list) option" where
  "conn_solve rng n ops = conn_loop rng (new_forest rng (n + 1)) ops"

text \<open>
  One query of \<^verbatim>\<open>ett_subtree_size.cpp\<close>. The product of two \<open>int\<close>s is computed in 64 bits and stored in an \<open>int\<close>, of which
  the low 32 bits are kept.
\<close>

definition to_int :: "int \<Rightarrow> int" where
  "to_int x = (x + 2 ^ 31) mod 2 ^ 32 - 2 ^ 31"

datatype size_op = SAdd nat nat | SQuery nat nat

fun size_step :: "(nat \<Rightarrow> int) \<Rightarrow> dforest \<Rightarrow> size_op \<Rightarrow> (dforest \<times> int list) option" where
  "size_step rng F (SAdd u v) = do { F \<leftarrow> Insert rng u v F; Some (F, []) }"
| "size_step rng F (SQuery u v) = do {
     F \<leftarrow> Delete u v F;
     a \<leftarrow> GetComponentNumberOfVertex u F;
     b \<leftarrow> GetComponentNumberOfVertex v F;
     F \<leftarrow> Insert rng u v F;
     Some (F, [to_int (int a * int b)])
   }"

fun size_loop :: "(nat \<Rightarrow> int) \<Rightarrow> dforest \<Rightarrow> size_op list \<Rightarrow> (dforest \<times> int list) option" where
  "size_loop rng F [] = Some (F, [])"
| "size_loop rng F (op # ops) = do {
     (F, out1) \<leftarrow> size_step rng F op;
     (F, out2) \<leftarrow> size_loop rng F ops;
     Some (F, out1 @ out2)
   }"

definition size_solve :: "(nat \<Rightarrow> int) \<Rightarrow> nat \<Rightarrow> size_op list \<Rightarrow> (dforest \<times> int list) option" where
  "size_solve rng n ops = size_loop rng (new_forest rng (n + 1)) ops"

section \<open>The programs on a list of edges\<close>

text \<open>The edges, each in both directions; two vertices are linked by a path.\<close>

definition linked :: "arc list \<Rightarrow> nat \<Rightarrow> nat \<Rightarrow> bool" where
  "linked es u v = (u = v \<or> (u, v) \<in> (set es)\<^sup>+)"

definition cut_edge :: "nat \<Rightarrow> nat \<Rightarrow> arc list \<Rightarrow> arc list" where
  "cut_edge u v es = filter (\<lambda>x. x \<noteq> (u, v) \<and> x \<noteq> (v, u)) es"

definition component :: "nat \<Rightarrow> arc list \<Rightarrow> nat \<Rightarrow> nat list" where
  "component n es u = filter (linked es u) [0..<n + 1]"

fun conn_ref :: "arc list \<Rightarrow> conn_op list \<Rightarrow> string list" where
  "conn_ref es [] = []"
| "conn_ref es (QQuery u v # ops) = (if linked es u v then ''Yes'' else ''No'') # conn_ref es ops"
| "conn_ref es (QConnect u v # ops) = conn_ref ((u, v) # (v, u) # es) ops"
| "conn_ref es (QDestroy u v # ops) = conn_ref (cut_edge u v es) ops"

text \<open>The queries name vertices of the forest, connect vertices that are not linked and destroy edges that are there.\<close>

fun conn_valid :: "nat \<Rightarrow> arc list \<Rightarrow> conn_op list \<Rightarrow> bool" where
  "conn_valid n es [] = True"
| "conn_valid n es (QQuery u v # ops) = (u \<le> n \<and> v \<le> n \<and> conn_valid n es ops)"
| "conn_valid n es (QConnect u v # ops) = (u \<le> n \<and> v \<le> n \<and> \<not> linked es u v \<and> conn_valid n ((u, v) # (v, u) # es) ops)"
| "conn_valid n es (QDestroy u v # ops) = ((u, v) \<in> set es \<and> conn_valid n (cut_edge u v es) ops)"

fun size_ref :: "nat \<Rightarrow> arc list \<Rightarrow> size_op list \<Rightarrow> nat list" where
  "size_ref n es [] = []"
| "size_ref n es (SAdd u v # ops) = size_ref n ((u, v) # (v, u) # es) ops"
| "size_ref n es (SQuery u v # ops) =
     length (component n (cut_edge u v es) u) * length (component n (cut_edge u v es) v) # size_ref n es ops"

fun size_valid :: "nat \<Rightarrow> arc list \<Rightarrow> size_op list \<Rightarrow> bool" where
  "size_valid n es [] = True"
| "size_valid n es (SAdd u v # ops) = (u \<le> n \<and> v \<le> n \<and> \<not> linked es u v \<and> size_valid n ((u, v) # (v, u) # es) ops)"
| "size_valid n es (SQuery u v # ops) = ((u, v) \<in> set es \<and> size_valid n es ops)"

lemma linked_rtrancl: "linked es u v \<longleftrightarrow> (u, v) \<in> (set es)\<^sup>*"
  by (auto simp: linked_def rtrancl_eq_or_trancl)

lemma set_cut_edge: "set (cut_edge u v es) = set es - {(u, v), (v, u)}"
  by (auto simp: cut_edge_def)

lemma set_link_edge: "set ((u, v) # (v, u) # es) = set es \<union> {(u, v), (v, u)}"
  by auto

lemma conn_loop_ok:
  assumes "df_inv rng F ts (set es)" and "df_n F = n + 1" and "conn_valid n es ops"
  shows "\<exists>F'. conn_loop rng F ops = Some (F', conn_ref es ops)"
  using assms
proof (induction ops arbitrary: F ts es)
  case (Cons op ops)
  show ?case
  proof (cases op)
    case (QQuery u v)
    then show ?thesis
      using Cons IsConnected_ok [OF Cons.prems(1), of u v] by (force simp: linked_rtrancl)
  next
    case (QConnect u v)
    then obtain F' ts' where "Insert rng u v F = Some F'" "df_inv rng F' ts' (set ((u, v) # (v, u) # es))" "df_n F' = n + 1"
      using Insert_ok [OF Cons.prems(1), of u v] Cons.prems(2,3) unfolding set_link_edge by (auto simp: linked_rtrancl)
    then show ?thesis
      using Cons.IH Cons.prems(3) by (force simp: QConnect)
  next
    case (QDestroy u v)
    then obtain F' ts' where "Delete u v F = Some F'" "df_inv rng F' ts' (set (cut_edge u v es))" "df_n F' = n + 1"
      using Delete_ok [OF Cons.prems(1), of u v] Cons.prems(2,3) unfolding set_cut_edge by auto
    then show ?thesis
      using Cons.IH Cons.prems(3) by (force simp: QDestroy)
  qed
qed simp

text \<open>The vertices of a component, counted by the program and by the reference.\<close>

lemma component_card:
  assumes "df_inv rng F ts (set es)" and "df_n F = n + 1" and "u \<le> n"
  shows "card {w. (u, w) \<in> (set es)\<^sup>*} = length (component n es u)"
proof -
  have "w \<le> n" if "(u, w) \<in> (set es)\<^sup>*" for w
    using that
  proof (cases rule: rtranclE)
    case (step y)
    then show ?thesis
      using find_edge [OF assms(1), of y w] assms(2) by (metis Suc_eq_plus1 less_Suc_eq_le)
  qed (use assms(3) in simp)
  then have "{w. (u, w) \<in> (set es)\<^sup>*} = set (component n es u)"
    using le_imp_less_Suc by (fastforce simp: component_def linked_rtrancl simp del: upt_Suc)
  moreover have "distinct (component n es u)"
    unfolding component_def by (intro distinct_filter distinct_upt)
  ultimately show ?thesis
    by (metis distinct_card)
qed

lemma edge_vertices:
  assumes "df_inv rng F ts E" and "(u, v) \<in> E"
  shows "u < df_n F" "v < df_n F"
  using find_edge [OF assms] by metis+

lemma size_query_ok:
  assumes "df_inv rng F ts (set es)" and "df_n F = n + 1" and "(u, v) \<in> set es"
  shows "\<exists>F' ts'. size_step rng F (SQuery u v) = Some (F', [to_int (int (length (component n (cut_edge u v es) u)) *
      int (length (component n (cut_edge u v es) v)))]) \<and> df_inv rng F' ts' (set es) \<and> df_n F' = n + 1"
proof -
  let ?es = "cut_edge u v es"
  have un: "u < df_n F" "v < df_n F"
    using edge_vertices [OF assms(1,3)] .
  obtain F1 ts1 where F1: "Delete u v F = Some F1" "df_inv rng F1 ts1 (set ?es)" "df_n F1 = n + 1"
    using Delete_ok [OF assms(1,3)] assms(2) unfolding set_cut_edge by auto
  have forest: "forest (set es)"
    using toursD(1) [OF df_invD(2) [OF assms(1)]] .
  then have far: "(u, v) \<notin> (set ?es)\<^sup>*" and vu: "(v, u) \<in> set es"
    using assms(3) unfolding set_cut_edge by (auto simp: forest_def sym_def)
  have undo: "set ?es \<union> {(u, v), (v, u)} = set es"
    using assms(3) vu unfolding set_cut_edge by auto
  obtain F2 ts2 where "Insert rng u v F1 = Some F2" "df_inv rng F2 ts2 (set es)" "df_n F2 = n + 1"
    using Insert_ok [OF F1(2) _ _ far] un F1(3) assms(2) unfolding undo by auto
  moreover have "GetComponentNumberOfVertex w F1 = Some (length (component n ?es w))" if "w \<le> n" for w
    using GetComponentNumberOfVertex_ok [OF F1(2), of w] component_card [OF F1(2,3) that] F1(3) that by simp
  ultimately show ?thesis
    using F1(1) un assms(2) by (intro exI [of _ F2] exI [of _ ts2]) simp
qed

lemma size_loop_ok:
  assumes "df_inv rng F ts (set es)" and "df_n F = n + 1" and "size_valid n es ops"
  shows "\<exists>F'. size_loop rng F ops = Some (F', map (\<lambda>p. to_int (int p)) (size_ref n es ops))"
  using assms
proof (induction ops arbitrary: F ts es)
  case (Cons op ops)
  show ?case
  proof (cases op)
    case (SAdd u v)
    then obtain F' ts' where "Insert rng u v F = Some F'" "df_inv rng F' ts' (set ((u, v) # (v, u) # es))" "df_n F' = n + 1"
      using Insert_ok [OF Cons.prems(1), of u v] Cons.prems(2,3) unfolding set_link_edge by (auto simp: linked_rtrancl)
    then show ?thesis
      using Cons.IH Cons.prems(3) by (force simp: SAdd)
  next
    case (SQuery u v)
    then obtain F' ts' where "size_step rng F (SQuery u v) = Some (F', [to_int (int (length (component n (cut_edge u v es) u)) *
        int (length (component n (cut_edge u v es) v)))])" "df_inv rng F' ts' (set es)" "df_n F' = n + 1"
      using size_query_ok [OF Cons.prems(1,2), of u v] Cons.prems(3) by auto
    then show ?thesis
      using Cons.IH Cons.prems(3) by (force simp: SQuery simp del: size_step.simps)
  qed
qed simp

section \<open>The size of the products\<close>

lemma to_int_exact: "0 \<le> x \<Longrightarrow> x < 2 ^ 31 \<Longrightarrow> to_int x = x"
  by (simp add: to_int_def)

lemma length_filter_disjoint:
  assumes "\<And>x. \<not> (P x \<and> Q x)"
  shows "length (filter P xs) + length (filter Q xs) \<le> length xs"
  using assms by (induction xs) auto

lemma four_mult: "4 * (a * b) \<le> (a + b :: nat)\<^sup>2"
proof -
  have "int (4 * (a * b)) \<le> int ((a + b)\<^sup>2)"
    using zero_le_power2 [of "int a - int b"] by (simp add: power2_eq_square algebra_simps)
  then show ?thesis
    by linarith
qed

lemma component_product:
  assumes "forest (set es)" and "(u, v) \<in> set es"
  shows "4 * (length (component n (cut_edge u v es) u) * length (component n (cut_edge u v es) v)) \<le> (n + 1)\<^sup>2"
proof -
  let ?es = "cut_edge u v es"
  have "(u, v) \<notin> (set ?es)\<^sup>*"
    using assms unfolding set_cut_edge by (auto simp: forest_def)
  moreover have "sym (set ?es)"
    using forest_cut [OF assms(1), of u v] unfolding set_cut_edge forest_def by simp
  ultimately have "\<not> (linked ?es u w \<and> linked ?es v w)" for w
    unfolding linked_rtrancl by (meson rtrancl_sym rtrancl_trans)
  then have "length (component n ?es u) + length (component n ?es v) \<le> n + 1"
    using length_filter_disjoint [of "linked ?es u" "linked ?es v" "[0..<n + 1]"] unfolding component_def length_upt by simp
  then show ?thesis
    using four_mult [of "length (component n ?es u)" "length (component n ?es v)"] power_mono
    by (meson le_trans zero_le)
qed

lemma size_ref_bound:
  assumes "forest (set es)" and "size_valid n es ops" and "p \<in> set (size_ref n es ops)"
  shows "4 * p \<le> (n + 1)\<^sup>2"
  using assms
proof (induction ops arbitrary: es)
  case (Cons op ops)
  show ?case
  proof (cases op)
    case (SAdd u v)
    then have "forest (set ((u, v) # (v, u) # es))"
      using Cons.prems(1,2) forest_link [of "set es" u v] unfolding set_link_edge by (auto simp: linked_rtrancl)
    then show ?thesis
      by (rule Cons.IH) (use Cons.prems(2,3) SAdd in simp_all)
  next
    case (SQuery u v)
    then show ?thesis
      using Cons component_product [OF Cons.prems(1), of u v n] by auto
  qed
qed simp

lemma forest_empty: "forest {}"
  by (simp add: forest_def)

section \<open>The programs print the right answers\<close>

lemma size_solve_ok:
  assumes "size_valid n [] ops"
  shows "\<exists>F. size_solve rng n ops = Some (F, map (\<lambda>p. to_int (int p)) (size_ref n [] ops))"
  using new_forest_ok(1) size_loop_ok [OF _ new_forest_ok(2) assms] unfolding size_solve_def by (metis list.set(1))

text \<open>
  C10. For every sequence of queries that names vertices \<open>0..n\<close>, connects vertices that are not connected and
  destroys edges that are there, and whatever the random priorities are, the program \<^verbatim>\<open>ett_connectivity.cpp\<close> ends
  without a null dereference or an access out of bounds and answers each query by whether a path
  of current edges joins the two vertices.
\<close>

theorem ett_connectivity_correct:
  assumes "conn_valid n [] ops"
  shows "\<exists>F. conn_solve rng n ops = Some (F, conn_ref [] ops)"
  using new_forest_ok(1) conn_loop_ok [OF _ new_forest_ok(2) assms] unfolding conn_solve_def by (metis list.set(1))

theorem ett_connectivity_correct_witness:
  "\<exists>F. conn_solve (\<lambda>i. - int i) 4 [QConnect 1 2, QQuery 1 3, QConnect 3 2, QQuery 1 3, QDestroy 2 1, QQuery 3 1, QConnect 1 4, QQuery 4 1] =
    Some (F, [''No'', ''Yes'', ''No'', ''Yes''])"
proof -
  let ?ops = "[QConnect 1 2, QQuery 1 3, QConnect 3 2, QQuery 1 3, QDestroy 2 1, QQuery 3 1, QConnect 1 4, QQuery 4 1]"
  have "conn_valid 4 [] ?ops" "conn_ref [] ?ops = [''No'', ''Yes'', ''No'', ''Yes'']"
    by code_simp+
  then show ?thesis
    using ett_connectivity_correct [of 4 ?ops "\<lambda>i. - int i"] by simp
qed

text \<open>
  C11. For every sequence of queries that adds edges between vertices not yet connected and asks for edges that are there,
  and whatever the random priorities are, the program \<^verbatim>\<open>ett_subtree_size.cpp\<close> ends and prints for each asked edge the product of
  the numbers of vertices on its two sides, with at most 92680 vertices besides vertex 0: then the product fits into
  the variable \<open>int ans\<close>.
\<close>

theorem ett_subtree_size_correct:
  assumes "size_valid n [] ops" and "n \<le> 92680"
  shows "\<exists>F. size_solve rng n ops = Some (F, map int (size_ref n [] ops))"
proof -
  have "to_int (int p) = int p" if "p \<in> set (size_ref n [] ops)" for p
  proof (rule to_int_exact)
    have "4 * p \<le> (n + 1)\<^sup>2"
      using size_ref_bound [OF _ assms(1) that] by (simp add: forest_empty)
    also have "\<dots> \<le> 92681\<^sup>2"
      using assms(2) by (intro power_mono) simp_all
    finally show "int p < 2 ^ 31"
      by simp
  qed simp
  then have "map (\<lambda>p. to_int (int p)) (size_ref n [] ops) = map int (size_ref n [] ops)"
    by simp
  from size_solve_ok [OF assms(1), unfolded this] show ?thesis .
qed

theorem ett_subtree_size_correct_witness:
  "\<exists>F. size_solve (\<lambda>i. - int i) 4 [SAdd 1 2, SAdd 3 2, SQuery 2 1, SAdd 4 3, SQuery 2 3] = Some (F, [2, 4])"
proof -
  let ?ops = "[SAdd 1 2, SAdd 3 2, SQuery 2 1, SAdd 4 3, SQuery 2 3]"
  have "size_valid 4 [] ?ops" "size_ref 4 [] ?ops = [2, 4]"
    by code_simp+
  then show ?thesis
    using ett_subtree_size_correct [of 4 ?ops "\<lambda>i. - int i"] by simp
qed

section \<open>The overflow of \<open>ans\<close>\<close>

text \<open>Edges from one vertex to many new ones.\<close>

fun spokes :: "nat \<Rightarrow> nat list \<Rightarrow> arc list \<Rightarrow> arc list" where
  "spokes c [] es = es"
| "spokes c (i # is) es = spokes c is ((c, i) # (i, c) # es)"

lemma set_spokes: "set (spokes c is es) = set es \<union> Pair c ` set is \<union> (\<lambda>i. (i, c)) ` set is"
  by (induction "is" arbitrary: es) auto

lemma not_linked_new: "c \<noteq> i \<Longrightarrow> i \<notin> snd ` set es \<Longrightarrow> \<not> linked es c i"
  unfolding linked_def by (metis image_eqI snd_conv tranclE)

lemma spokes_valid:
  assumes "distinct is" and "c \<le> n" and "\<forall>i \<in> set is. i \<le> n \<and> i \<noteq> c \<and> i \<notin> snd ` set es"
  shows "size_valid n es (map (SAdd c) is @ ops) = size_valid n (spokes c is es) ops \<and>
    size_ref n es (map (SAdd c) is @ ops) = size_ref n (spokes c is es) ops"
  using assms
proof (induction "is" arbitrary: es)
  case (Cons i "is")
  have "\<forall>j \<in> set is. j \<le> n \<and> j \<noteq> c \<and> j \<notin> snd ` set ((c, i) # (i, c) # es)"
    using Cons.prems by auto
  then show ?case
    using Cons.IH [of "(c, i) # (i, c) # es"] Cons.prems not_linked_new [of c i es] by simp
qed simp

text \<open>Two stars of \<open>k\<close> vertices with the centres \<open>1\<close> and \<open>k + 1\<close>, joined by an edge that is asked for.\<close>

definition two_stars :: "nat \<Rightarrow> arc list" where
  "two_stars k = spokes (k + 1) [k + 2..<2 * k + 1] (spokes 1 [2..<k + 1] [])"

definition star_ops :: "nat \<Rightarrow> size_op list" where
  "star_ops k = map (SAdd 1) [2..<k + 1] @ map (SAdd (k + 1)) [k + 2..<2 * k + 1] @ [SAdd 1 (k + 1), SQuery 1 (k + 1)]"

lemma set_two_stars: "(a, b) \<in> set (two_stars k) \<longleftrightarrow>
    a = 1 \<and> 2 \<le> b \<and> b \<le> k \<or> b = 1 \<and> 2 \<le> a \<and> a \<le> k \<or>
    a = k + 1 \<and> k + 2 \<le> b \<and> b \<le> 2 * k \<or> b = k + 1 \<and> k + 2 \<le> a \<and> a \<le> 2 * k"
  unfolding two_stars_def set_spokes set_upt by (auto simp: image_iff)

lemma star_linked:
  assumes "k > 0"
  shows "linked (two_stars k) 1 w \<longleftrightarrow> 1 \<le> w \<and> w < k + 1" "linked (two_stars k) (k + 1) w \<longleftrightarrow> k + 1 \<le> w \<and> w < 2 * k + 1"
proof -
  have "1 \<le> w \<and> w < k + 1" if "(1, w) \<in> (set (two_stars k))\<^sup>*"
    using that assms by (induction rule: rtrancl_induct) (auto simp: set_two_stars)
  moreover have "k + 1 \<le> w \<and> w < 2 * k + 1" if "(k + 1, w) \<in> (set (two_stars k))\<^sup>*"
    using that assms by (induction rule: rtrancl_induct) (auto simp: set_two_stars)
  moreover have "(1, w) \<in> (set (two_stars k))\<^sup>*" if "1 \<le> w \<and> w < k + 1"
    using that by (cases "w = 1") (auto simp: set_two_stars intro!: r_into_rtrancl)
  moreover have "(k + 1, w) \<in> (set (two_stars k))\<^sup>*" if "k + 1 \<le> w \<and> w < 2 * k + 1"
    using that by (cases "w = k + 1") (auto simp: set_two_stars intro!: r_into_rtrancl)
  ultimately show "linked (two_stars k) 1 w \<longleftrightarrow> 1 \<le> w \<and> w < k + 1" "linked (two_stars k) (k + 1) w \<longleftrightarrow> k + 1 \<le> w \<and> w < 2 * k + 1"
    unfolding linked_rtrancl by blast+
qed

lemma component_interval:
  assumes "\<And>w. linked es u w \<longleftrightarrow> a \<le> w \<and> w < b" and "b \<le> n + 1"
  shows "length (component n es u) = b - a"
proof -
  have "w \<in> set (component n es u) \<longleftrightarrow> w \<in> {a..<b}" for w
    unfolding component_def set_filter set_upt mem_Collect_eq atLeastLessThan_iff assms(1) using assms(2) by linarith
  then have "set (component n es u) = {a..<b}"
    by blast
  moreover have "distinct (component n es u)"
    unfolding component_def by (intro distinct_filter distinct_upt)
  ultimately show ?thesis
    by (metis card_atLeastLessThan distinct_card)
qed

lemma star_ops_ref:
  assumes "k > 0"
  shows "size_valid (2 * k) [] (star_ops k)" "size_ref (2 * k) [] (star_ops k) = [k * k]"
proof -
  have "cut_edge 1 (k + 1) ((1, k + 1) # (k + 1, 1) # two_stars k) = cut_edge 1 (k + 1) (two_stars k)"
    by (simp add: cut_edge_def)
  also have "\<dots> = two_stars k"
    unfolding cut_edge_def by (rule filter_True) (use assms in \<open>auto simp: set_two_stars\<close>)
  finally have cut: "cut_edge 1 (k + 1) ((1, k + 1) # (k + 1, 1) # two_stars k) = two_stars k" .
  have first: "\<forall>i \<in> set [2..<k + 1]. i \<le> 2 * k \<and> i \<noteq> 1 \<and> i \<notin> snd ` set []"
    by auto
  have second: "\<forall>i \<in> set [k + 2..<2 * k + 1]. i \<le> 2 * k \<and> i \<noteq> k + 1 \<and> i \<notin> snd ` set (spokes 1 [2..<k + 1] [])"
    unfolding set_spokes by auto
  have built: "size_valid (2 * k) [] (star_ops k) = size_valid (2 * k) (two_stars k) [SAdd 1 (k + 1), SQuery 1 (k + 1)]"
      "size_ref (2 * k) [] (star_ops k) = size_ref (2 * k) (two_stars k) [SAdd 1 (k + 1), SQuery 1 (k + 1)]"
    unfolding star_ops_def two_stars_def
    using spokes_valid [OF distinct_upt _ first] spokes_valid [OF distinct_upt _ second] assms by (simp_all del: upt_Suc)
  show "size_valid (2 * k) [] (star_ops k)"
    unfolding built using star_linked(1) [OF assms, of "k + 1"] assms by simp
  have "length (component (2 * k) (two_stars k) 1) = k" "length (component (2 * k) (two_stars k) (k + 1)) = k"
    using component_interval [OF star_linked(1) [OF assms], of "2 * k"] component_interval [OF star_linked(2) [OF assms], of "2 * k"]
    by simp_all
  then show "size_ref (2 * k) [] (star_ops k) = [k * k]"
    unfolding built using cut by simp
qed

text \<open>
  C36. The product is computed in 64 bits but kept in \<open>int ans\<close>: for an edge between two stars of 50000 vertices the program
  prints a negative number in place of 2500000000, whatever the priorities are.
\<close>

theorem ett_subtree_size_overflow:
  "\<exists>F. size_solve rng 100000 (star_ops 50000) = Some (F, [- 1794967296])"
proof -
  have "\<exists>F. size_solve rng 100000 (star_ops 50000) = Some (F, map (\<lambda>p. to_int (int p)) [50000 * 50000])"
    using size_solve_ok [of 100000 "star_ops 50000" rng] star_ops_ref [of 50000] by simp
  then show ?thesis
    by (simp add: to_int_def)
qed

end
