(* ===== verification/QueryLoop.thy ===== *)
theory QueryLoop
  imports Prelude
begin

text \<open>
  The main loop most programs of the collection have: read a query, change the state, print. \<open>query_loop\<close> runs a step function
  over the parsed queries; the locale \<open>query_program\<close> has the law of one query against a reference, from which the
  law of the loop is proved once; \<open>counted_program\<close> and \<open>spec_program\<close> are for programs with room for so many operations and for relational specifications. Also here: vectors and arrays with checked indices.
\<close>

section \<open>Vectors\<close>

text \<open>\<open>v[i]\<close> and \<open>v[i] = x\<close>; an index outside the vector has no result.\<close>

definition vec_get :: "'a list \<Rightarrow> nat \<Rightarrow> 'a option" where
  "vec_get xs i = (if i < length xs then Some (xs ! i) else None)"

definition vec_set :: "nat \<Rightarrow> 'a \<Rightarrow> 'a list \<Rightarrow> 'a list option" where
  "vec_set i x xs = (if i < length xs then Some (xs[i := x]) else None)"

lemma vec_get_in [simp]: "i < length xs \<Longrightarrow> vec_get xs i = Some (xs ! i)"
  by (simp add: vec_get_def)

lemma vec_set_in [simp]: "i < length xs \<Longrightarrow> vec_set i x xs = Some (xs[i := x])"
  by (simp add: vec_set_def)

lemma vec_get_out: "length xs \<le> i \<Longrightarrow> vec_get xs i = None"
  by (simp add: vec_get_def)

text \<open>Arrays of fixed size with \<open>int\<close> indices, which may be negative.\<close>

definition arr_get :: "int \<Rightarrow> (int \<Rightarrow> 'a) \<Rightarrow> int \<Rightarrow> 'a option" where
  "arr_get sz f i = (if 0 \<le> i \<and> i < sz then Some (f i) else None)"

definition arr_set :: "int \<Rightarrow> int \<Rightarrow> 'a \<Rightarrow> (int \<Rightarrow> 'a) \<Rightarrow> (int \<Rightarrow> 'a) option" where
  "arr_set sz i x f = (if 0 \<le> i \<and> i < sz then Some (f(i := x)) else None)"

lemma arr_in [simp]:
  "0 \<le> i \<Longrightarrow> i < sz \<Longrightarrow> arr_get sz f i = Some (f i)"
  "0 \<le> i \<Longrightarrow> i < sz \<Longrightarrow> arr_set sz i x f = Some (f(i := x))"
  by (simp_all add: arr_get_def arr_set_def)

section \<open>Counting loops\<close>

text \<open>\<open>for\<close> over a list of values of the counter.\<close>

fun for_each :: "('i \<Rightarrow> 's \<Rightarrow> 's option) \<Rightarrow> 'i list \<Rightarrow> 's \<Rightarrow> 's option" where
  "for_each body [] s = Some s"
| "for_each body (i # is) s = do { s \<leftarrow> body i s; for_each body is s }"

lemma for_each_append: "for_each body (is @ js) s = do { s \<leftarrow> for_each body is s; for_each body js s }"
  by (induction "is" arbitrary: s) (auto split: bind_splits)

text \<open>A loop from 1 to \<open>k\<close>, with the number of rounds done in the invariant.\<close>

lemma for_each_upto:
  assumes "I 0 s" and "\<And>i s. i < k \<Longrightarrow> I i s \<Longrightarrow> \<exists>s'. body (int i + 1) s = Some s' \<and> I (Suc i) s'"
  shows "\<exists>s'. for_each body [1..int k] s = Some s' \<and> I k s'"
  using assms
proof (induction k)
  case (Suc k)
  obtain s1 where s1: "for_each body [1..int k] s = Some s1" "I k s1"
    using Suc.IH Suc.prems by auto
  obtain s2 where "body (int k + 1) s1 = Some s2" "I (Suc k) s2"
    using Suc.prems(2) [of k s1] s1(2) by auto
  moreover have "[1..int (Suc k)] = [1..int k] @ [int k + 1]"
    by (simp add: upto_rec2)
  ultimately show ?case
    using s1(1) by (simp add: for_each_append)
qed simp

lemma for_each_range:
  assumes "I 0 s" and "\<And>i s. i < k \<Longrightarrow> I i s \<Longrightarrow> \<exists>s'. body (a + int i) s = Some s' \<and> I (Suc i) s'"
  shows "\<exists>s'. for_each body [a..a + int k - 1] s = Some s' \<and> I k s'"
  using assms
proof (induction k)
  case (Suc k)
  obtain s1 where s1: "for_each body [a..a + int k - 1] s = Some s1" "I k s1"
    using Suc.IH Suc.prems by auto
  obtain s2 where "body (a + int k) s1 = Some s2" "I (Suc k) s2"
    using Suc.prems(2) [of k s1] s1(2) by auto
  moreover have "[a..a + int (Suc k) - 1] = [a..a + int k - 1] @ [a + int k]"
    by (simp add: upto_rec2)
  ultimately show ?case
    using s1(1) by (simp add: for_each_append)
qed simp

lemma for_each_downto:
  assumes "I 0 s" and "\<And>i s. i < k \<Longrightarrow> I i s \<Longrightarrow> \<exists>s'. body (b - int i) s = Some s' \<and> I (Suc i) s'"
  shows "\<exists>s'. for_each body (rev [b - int k + 1..b]) s = Some s' \<and> I k s'"
  using assms
proof (induction k)
  case (Suc k)
  obtain s1 where s1: "for_each body (rev [b - int k + 1..b]) s = Some s1" "I k s1"
    using Suc.IH Suc.prems by auto
  obtain s2 where "body (b - int k) s1 = Some s2" "I (Suc k) s2"
    using Suc.prems(2) [of k s1] s1(2) by auto
  moreover have "[b - int (Suc k) + 1..b] = (b - int k) # [b - int k + 1..b]"
    by (simp add: upto_rec1)
  ultimately show ?case
    using s1(1) by (simp add: for_each_append)
qed simp

lemma for_each_upt:
  assumes "m \<le> k" and "I m s" and "\<And>i s. m \<le> i \<Longrightarrow> i < k \<Longrightarrow> I i s \<Longrightarrow> \<exists>s'. body i s = Some s' \<and> I (Suc i) s'"
  shows "\<exists>s'. for_each body [m..<k] s = Some s' \<and> I k s'"
  using assms
proof (induction k rule: dec_induct)
  case (step k)
  obtain s1 where s1: "for_each body [m..<k] s = Some s1" "I k s1"
    using step.IH step.prems by auto
  obtain s2 where "body k s1 = Some s2" "I (Suc k) s2"
    using step.prems(2) [of k s1] step.hyps s1(2) by auto
  then show ?case
    using s1(1) step.hyps by (simp add: for_each_append)
qed simp

section \<open>The loop over the queries\<close>

fun query_loop :: "('s \<Rightarrow> 'op \<Rightarrow> ('s \<times> 'out list) option) \<Rightarrow> 's \<Rightarrow> 'op list \<Rightarrow> ('s \<times> 'out list) option" where
  "query_loop step s [] = Some (s, [])"
| "query_loop step s (op # ops) = do {
     (s, out1) \<leftarrow> step s op;
     (s, out2) \<leftarrow> query_loop step s ops;
     Some (s, out1 @ out2)
   }"

text \<open>The reference: a total step on an abstract state, and the queries it is meant for.\<close>

fun ref_loop :: "('a \<Rightarrow> 'op \<Rightarrow> 'a \<times> 'out list) \<Rightarrow> 'a \<Rightarrow> 'op list \<Rightarrow> 'out list" where
  "ref_loop ref a [] = []"
| "ref_loop ref a (op # ops) = snd (ref a op) @ ref_loop ref (fst (ref a op)) ops"

fun all_ok :: "('a \<Rightarrow> 'op \<Rightarrow> bool) \<Rightarrow> ('a \<Rightarrow> 'op \<Rightarrow> 'a \<times> 'out list) \<Rightarrow> 'a \<Rightarrow> 'op list \<Rightarrow> bool" where
  "all_ok ok ref a [] = True"
| "all_ok ok ref a (op # ops) = (ok a op \<and> all_ok ok ref (fst (ref a op)) ops)"

locale query_program =
  fixes step :: "'s \<Rightarrow> 'op \<Rightarrow> ('s \<times> 'out list) option"
    and ref :: "'a \<Rightarrow> 'op \<Rightarrow> 'a \<times> 'out list"
    and ok :: "'a \<Rightarrow> 'op \<Rightarrow> bool"
    and stands :: "'s \<Rightarrow> 'a \<Rightarrow> bool"
  assumes step_ok: "stands s a \<Longrightarrow> ok a op \<Longrightarrow> \<exists>s'. step s op = Some (s', snd (ref a op)) \<and> stands s' (fst (ref a op))"
begin

lemma loop_ok:
  assumes "stands s a" and "all_ok ok ref a ops"
  shows "\<exists>s'. query_loop step s ops = Some (s', ref_loop ref a ops)"
  using assms
proof (induction ops arbitrary: s a)
  case (Cons op ops)
  obtain s1 where "step s op = Some (s1, snd (ref a op))" "stands s1 (fst (ref a op))"
    using step_ok [OF Cons.prems(1), of op] Cons.prems(2) by auto
  then show ?case
    using Cons.IH [of s1 "fst (ref a op)"] Cons.prems(2) by auto
qed simp

end

definition ref_after :: "('a \<Rightarrow> 'op \<Rightarrow> 'a \<times> 'out list) \<Rightarrow> 'a \<Rightarrow> 'op list \<Rightarrow> 'a" where
  "ref_after ref a ops = foldl (\<lambda>a op. fst (ref a op)) a ops"

lemma ref_after_simps [simp]:
  "ref_after ref a [] = a"
  "ref_after ref a (op # ops) = ref_after ref (fst (ref a op)) ops"
  by (simp_all add: ref_after_def)

text \<open>The same for programs that have room for \<open>cap\<close> operations only.\<close>

locale counted_program =
  fixes step :: "'s \<Rightarrow> 'op \<Rightarrow> ('s \<times> 'out list) option"
    and ref :: "'a \<Rightarrow> 'op \<Rightarrow> 'a \<times> 'out list"
    and ok :: "'a \<Rightarrow> 'op \<Rightarrow> bool"
    and stands :: "nat \<Rightarrow> 's \<Rightarrow> 'a \<Rightarrow> bool"
    and cap :: nat
  assumes step_counted: "stands i s a \<Longrightarrow> ok a op \<Longrightarrow> i < cap \<Longrightarrow>
    \<exists>s'. step s op = Some (s', snd (ref a op)) \<and> stands (Suc i) s' (fst (ref a op))"
begin

lemma loop_counted:
  assumes "stands i s a" and "all_ok ok ref a ops" and "i + length ops \<le> cap"
  shows "\<exists>s'. query_loop step s ops = Some (s', ref_loop ref a ops) \<and> stands (i + length ops) s' (ref_after ref a ops)"
  using assms
proof (induction ops arbitrary: i s a)
  case (Cons op ops)
  obtain s1 where "step s op = Some (s1, snd (ref a op))" "stands (Suc i) s1 (fst (ref a op))"
    using step_counted [OF Cons.prems(1), of op] Cons.prems(2,3) by auto
  then show ?case
    using Cons.IH [of "Suc i" s1 "fst (ref a op)"] Cons.prems(2,3) by auto
qed simp

end

text \<open>A specification that leaves a choice is a relation: which states and outputs a query may lead to.\<close>

inductive spec_run :: "('a \<Rightarrow> 'op \<Rightarrow> 'a \<Rightarrow> 'out list \<Rightarrow> bool) \<Rightarrow> 'a \<Rightarrow> 'op list \<Rightarrow> 'a \<Rightarrow> 'out list \<Rightarrow> bool"
  for spec where
  nil: "spec_run spec a [] a []"
| step: "spec a op a1 out1 \<Longrightarrow> spec_run spec a1 ops a2 out2 \<Longrightarrow> spec_run spec a (op # ops) a2 (out1 @ out2)"

inductive_simps spec_run_Nil [simp]: "spec_run spec a [] a' out"
inductive_simps spec_run_Cons: "spec_run spec a (op # ops) a' out"

locale spec_program =
  fixes step :: "'s \<Rightarrow> 'op \<Rightarrow> ('s \<times> 'out list) option"
    and spec :: "'a \<Rightarrow> 'op \<Rightarrow> 'a \<Rightarrow> 'out list \<Rightarrow> bool"
    and ok :: "'op \<Rightarrow> bool"
    and stands :: "'s \<Rightarrow> 'a \<Rightarrow> bool"
  assumes step_meets: "stands s a \<Longrightarrow> ok op \<Longrightarrow> \<exists>s' a' out. step s op = Some (s', out) \<and> spec a op a' out \<and> stands s' a'"
begin

lemma loop_meets:
  assumes "stands s a" and "list_all ok ops"
  shows "\<exists>s' a' out. query_loop step s ops = Some (s', out) \<and> spec_run spec a ops a' out \<and> stands s' a'"
  using assms
proof (induction ops arbitrary: s a)
  case (Cons op ops)
  obtain s1 a1 out1 where 1: "step s op = Some (s1, out1)" "spec a op a1 out1" "stands s1 a1"
    using step_meets [OF Cons.prems(1), of op] Cons.prems(2) by auto
  obtain s2 a2 out2 where 2: "query_loop step s1 ops = Some (s2, out2)" "spec_run spec a1 ops a2 out2" "stands s2 a2"
    using Cons.IH [OF 1(3)] Cons.prems(2) by auto
  show ?case
    using 1(1) 2(1,3) spec_run.step [of spec, OF 1(2) 2(2)] by (intro exI conjI) auto
qed (auto intro: spec_run.nil)

end

end
