(* ===== verification/UnionFind.thy ===== *)
theory UnionFind
  imports QueryLoop
begin

text \<open>
  The function \<open>find\<close> with path compression, as \<^verbatim>\<open>dsu/dsu_1.cpp\<close> and \<^verbatim>\<open>leftist-tree/leftist-tree_1.cpp\<close> have it: on an array of parent
  indices in which a root is its own parent. Shown: on an array without cycles it ends, returns the root and leaves
  every root as it was.
\<close>

partial_function (option) uf_find :: "nat list \<Rightarrow> nat \<Rightarrow> (nat \<times> nat list) option" where [code]:
  "uf_find pa x = do {
     p \<leftarrow> vec_get pa x;
     if p = x then Some (x, pa)
     else do {
       (r, pa) \<leftarrow> uf_find pa p;
       pa \<leftarrow> vec_set x r pa;
       Some (r, pa)
     }
   }"

text \<open>\<open>rt\<close> gives the root of an index, \<open>dep\<close> decreases on the way to it; \<open>P\<close> are the indices in use.\<close>

definition rooted :: "(nat \<Rightarrow> bool) \<Rightarrow> (nat \<Rightarrow> nat) \<Rightarrow> (nat \<Rightarrow> nat) \<Rightarrow> nat list \<Rightarrow> bool" where
  "rooted P rt dep pa = (\<forall>x. P x \<longrightarrow> x < length pa \<and> P (pa ! x) \<and>
     (if pa ! x = x then rt x = x else rt x = rt (pa ! x) \<and> dep (pa ! x) < dep x))"

lemma rootedD:
  assumes "rooted P rt dep pa" and "P x"
  shows "x < length pa" "P (pa ! x)" "pa ! x = x \<Longrightarrow> rt x = x" "pa ! x \<noteq> x \<Longrightarrow> rt x = rt (pa ! x)"
    "pa ! x \<noteq> x \<Longrightarrow> dep (pa ! x) < dep x"
  using assms by (auto simp: rooted_def split: if_splits)

lemma rootedI:
  assumes "\<And>x. P x \<Longrightarrow> x < length pa" and "\<And>x. P x \<Longrightarrow> P (pa ! x)" and "\<And>x. P x \<Longrightarrow> pa ! x = x \<Longrightarrow> rt x = x"
    and "\<And>x. P x \<Longrightarrow> pa ! x \<noteq> x \<Longrightarrow> rt x = rt (pa ! x) \<and> dep (pa ! x) < dep x"
  shows "rooted P rt dep pa"
  unfolding rooted_def using assms by simp

text \<open>The root of an index is a root, and not below it.\<close>

lemma rooted_root:
  assumes "rooted P rt dep pa" and "P x"
  shows "P (rt x) \<and> pa ! rt x = rt x \<and> rt (rt x) = rt x \<and> dep (rt x) \<le> dep x \<and> (pa ! x \<noteq> x \<longrightarrow> dep (rt x) < dep x)"
  using assms(2)
proof (induction "dep x" arbitrary: x rule: less_induct)
  case less
  show ?case
  proof (cases "pa ! x = x")
    case False
    have "dep (rt (pa ! x)) \<le> dep (pa ! x)" "P (rt (pa ! x)) \<and> pa ! rt (pa ! x) = rt (pa ! x) \<and> rt (rt (pa ! x)) = rt (pa ! x)"
      using less.hyps rootedD [OF assms(1) less.prems] False by blast+
    then show ?thesis
      using rootedD [OF assms(1) less.prems] False by auto
  qed (use rootedD [OF assms(1) less.prems] less.prems in auto)
qed

text \<open>An index may be sent straight to its root.\<close>

lemma rooted_compress:
  assumes "rooted P rt dep pa" and "P x"
  shows "rooted P rt dep (pa[x := rt x])"
proof (rule rootedI)
  note r = rooted_root [OF assms] and x = rootedD [OF assms]
  fix y
  assume y: "P y"
  note d = rootedD [OF assms(1) y]
  show "y < length (pa[x := rt x])" "P (pa[x := rt x] ! y)"
    using d r x(1) by (auto simp: nth_list_update)
  show "rt y = y" if "pa[x := rt x] ! y = y"
    using that d x(1) by (cases "y = x") auto
  show "rt y = rt (pa[x := rt x] ! y) \<and> dep (pa[x := rt x] ! y) < dep y" if "pa[x := rt x] ! y \<noteq> y"
  proof (cases "y = x")
    case True
    then show ?thesis
      using that x(1,3) r by auto
  qed (use that d in auto)
qed

lemma uf_find_ok:
  assumes "rooted P rt dep pa" and "P x"
  shows "\<exists>pa'. uf_find pa x = Some (rt x, pa') \<and> rooted P rt dep pa' \<and> length pa' = length pa \<and>
    (\<forall>y. P y \<and> pa ! y = y \<longrightarrow> pa' ! y = y) \<and> (\<forall>y. pa' ! y = pa ! y \<or> pa' ! y = rt y)"
  using assms
proof (induction "dep x" arbitrary: x pa rule: less_induct)
  case less
  note r = rootedD [OF less.prems]
  show ?case
  proof (cases "pa ! x = x")
    case True
    then show ?thesis
      using less.prems r by (subst uf_find.simps) simp
  next
    case False
    obtain pa1 where pa1: "uf_find pa (pa ! x) = Some (rt x, pa1)" "rooted P rt dep pa1" "length pa1 = length pa"
        "\<forall>y. P y \<and> pa ! y = y \<longrightarrow> pa1 ! y = y" "\<forall>y. pa1 ! y = pa ! y \<or> pa1 ! y = rt y"
      using less.hyps [OF r(5) [OF False] less.prems(1) r(2)] r(4) [OF False] by auto
    then show ?thesis
      using rooted_compress [OF pa1(2) less.prems(2)] r(1) False
      by (intro exI [of _ "pa1[x := rt x]"]) (subst uf_find.simps, auto simp: nth_list_update)
  qed
qed

text \<open>A root can be hung below another one.\<close>

lemma rooted_link:
  assumes "rooted P rt dep pa" and "P x" and "P y" and "pa ! x = x" and "pa ! y = y" and "x \<noteq> y"
  shows "rooted P (\<lambda>z. if rt z = y then x else rt z) (\<lambda>z. if rt z = y then Suc (dep z + dep x) else dep z) (pa[y := x])"
proof (rule rootedI)
  have roots: "rt x = x" "rt y = y" "y < length pa"
    using assms rootedD by metis+
  fix z
  assume z: "P z"
  note d = rootedD [OF assms(1) z]
  show "z < length (pa[y := x])" "P (pa[y := x] ! z)"
    using d assms(2) roots(3) by (simp_all add: nth_list_update)
  show "(if rt z = y then x else rt z) = z" if "pa[y := x] ! z = z"
    using that d(3) roots assms(6) by (cases "z = y") auto
  show "(if rt z = y then x else rt z) = (if rt (pa[y := x] ! z) = y then x else rt (pa[y := x] ! z)) \<and>
      (if rt (pa[y := x] ! z) = y then Suc (dep (pa[y := x] ! z) + dep x) else dep (pa[y := x] ! z)) <
      (if rt z = y then Suc (dep z + dep x) else dep z)" if "pa[y := x] ! z \<noteq> z"
    using that d(4,5) roots assms(6) by (cases "z = y") auto
qed

text \<open>An index that is no parent can be hung anywhere.\<close>

lemma rooted_move:
  assumes "rooted P rt dep pa" and "P x" and "P r" and "pa ! r = r" and "x \<noteq> r" and "\<And>z. P z \<Longrightarrow> pa ! z \<noteq> x"
  shows "rooted P (rt(x := r)) (dep(x := Suc (dep r))) (pa[x := r])"
proof (rule rootedI)
  have r: "rt r = r" "x < length pa"
    using assms rootedD by metis+
  fix z
  assume z: "P z"
  note d = rootedD [OF assms(1) z]
  show "z < length (pa[x := r])" "P (pa[x := r] ! z)"
    using d assms(3) r(2) by (simp_all add: nth_list_update)
  show "(rt(x := r)) z = z" if "pa[x := r] ! z = z"
    using that d(3) r assms(5) by (cases "z = x") auto
  show "(rt(x := r)) z = (rt(x := r)) (pa[x := r] ! z) \<and> (dep(x := Suc (dep r))) (pa[x := r] ! z) < (dep(x := Suc (dep r))) z"
    if "pa[x := r] ! z \<noteq> z"
    using that d(4,5) r assms(5) assms(6) [OF z] by (cases "z = x") auto
qed

text \<open>Labels that have the same classes as the roots, when two roots become one and one label replaces another.\<close>

lemma same_class_link:
  assumes "\<And>u v. P u \<Longrightarrow> P v \<Longrightarrow> rt u = rt v \<longleftrightarrow> lab u = lab v" and "P a" and "P b" and "{rt a, rt b} = {x, y}" and "P u" and "P v"
  shows "(if rt u = y then x else rt u) = (if rt v = y then x else rt v) \<longleftrightarrow>
    (if lab u = lab b then lab a else lab u) = (if lab v = lab b then lab a else lab v)"
proof -
  have "(if rt u = y then x else rt u) = (if rt v = y then x else rt v) \<longleftrightarrow>
      rt u = rt v \<or> rt u \<in> {rt a, rt b} \<and> rt v \<in> {rt a, rt b}"
    unfolding assms(4) by auto
  also have "\<dots> \<longleftrightarrow> lab u = lab v \<or> lab u \<in> {lab a, lab b} \<and> lab v \<in> {lab a, lab b}"
    using assms(1-3,5,6) by simp
  finally show ?thesis
    by auto
qed

end
