(* ===== verification/Dsu.thy ===== *)
theory Dsu
  imports UnionFind "HOL-Library.Word"
begin

text \<open>
  The program \<^verbatim>\<open>dsu/dsu_1.cpp\<close>: disjoint sets of the numbers \<open>0..n\<close> under union, moving one number to another set, and the
  size and sum of a set. Number \<open>x\<close> is a leaf whose parent is a virtual node, so that it can leave its set. The counters are
  64-bit words as \<^verbatim>\<open>size_t\<close> is. Shown: the program prints the sizes and sums of the current sets.
\<close>

section \<open>The program\<close>

record dsu =
  dsu_pa :: "nat list"
  dsu_size :: "64 word list"
  dsu_sum :: "64 word list"

definition new_dsu :: "nat \<Rightarrow> dsu" where
  "new_dsu n = \<lparr>dsu_pa = [n..<2 * n] @ [n..<2 * n], dsu_size = replicate (2 * n) 1,
     dsu_sum = replicate n 0 @ map of_nat [0..<n]\<rparr>"

definition dsu_find :: "nat \<Rightarrow> dsu \<Rightarrow> (nat \<times> dsu) option" where
  "dsu_find x d = do { (r, pa) \<leftarrow> uf_find (dsu_pa d) x; Some (r, d\<lparr>dsu_pa := pa\<rparr>) }"

text \<open>\<open>v[i] += x\<close>\<close>

definition vec_add :: "nat \<Rightarrow> 64 word \<Rightarrow> 64 word list \<Rightarrow> 64 word list option" where
  "vec_add i x v = do { y \<leftarrow> vec_get v i; vec_set i (y + x) v }"

definition unite :: "nat \<Rightarrow> nat \<Rightarrow> dsu \<Rightarrow> dsu option" where
  "unite x y d = do {
     (x, d) \<leftarrow> dsu_find x d;
     (y, d) \<leftarrow> dsu_find y d;
     if x = y then Some d
     else do {
       sx \<leftarrow> vec_get (dsu_size d) x;
       sy \<leftarrow> vec_get (dsu_size d) y;
       let (x, y) = (if sx < sy then (y, x) else (x, y));
       pa \<leftarrow> vec_set y x (dsu_pa d);
       sy \<leftarrow> vec_get (dsu_size d) y;
       size \<leftarrow> vec_add x sy (dsu_size d);
       ty \<leftarrow> vec_get (dsu_sum d) y;
       sum \<leftarrow> vec_add x ty (dsu_sum d);
       Some \<lparr>dsu_pa = pa, dsu_size = size, dsu_sum = sum\<rparr>
     }
   }"

definition move :: "nat \<Rightarrow> nat \<Rightarrow> dsu \<Rightarrow> dsu option" where
  "move x y d = do {
     (fx, d) \<leftarrow> dsu_find x d;
     (fy, d) \<leftarrow> dsu_find y d;
     if fx = fy then Some d
     else do {
       pa \<leftarrow> vec_set x fy (dsu_pa d);
       size \<leftarrow> vec_add fx (- 1) (dsu_size d);
       size \<leftarrow> vec_add fy 1 size;
       sum \<leftarrow> vec_add fx (- of_nat x) (dsu_sum d);
       sum \<leftarrow> vec_add fy (of_nat x) sum;
       Some \<lparr>dsu_pa = pa, dsu_size = size, dsu_sum = sum\<rparr>
     }
   }"

text \<open>One command of the input; any other number than 1, 2, 3 is \<open>DOther\<close> and fails the assertion.\<close>

datatype dsu_op = DUnite nat nat | DMove nat nat | DQuery nat | DOther

fun dsu_step :: "dsu \<Rightarrow> dsu_op \<Rightarrow> (dsu \<times> (nat \<times> nat) list) option" where
  "dsu_step d (DUnite x y) = do { d \<leftarrow> unite x y d; Some (d, []) }"
| "dsu_step d (DMove x y) = do { d \<leftarrow> move x y d; Some (d, []) }"
| "dsu_step d (DQuery x) = do {
     (x, d) \<leftarrow> dsu_find x d;
     c \<leftarrow> vec_get (dsu_size d) x;
     s \<leftarrow> vec_get (dsu_sum d) x;
     Some (d, [(unat c, unat s)])
   }"
| "dsu_step d DOther = None"

fun dsu_main :: "(nat \<times> dsu_op list) list \<Rightarrow> (nat \<times> nat) list option" where
  "dsu_main [] = Some []"
| "dsu_main ((n, ops) # cases) = do {
     (d, out1) \<leftarrow> query_loop dsu_step (new_dsu (n + 1)) ops;
     out2 \<leftarrow> dsu_main cases;
     Some (out1 @ out2)
   }"

section \<open>The reference\<close>

text \<open>Every number has a label; a set is the numbers with one label.\<close>

definition members :: "nat list \<Rightarrow> nat \<Rightarrow> nat list" where
  "members lab x = filter (\<lambda>z. lab ! z = lab ! x) [0..<length lab]"

fun dsu_ref :: "nat list \<Rightarrow> dsu_op \<Rightarrow> nat list \<times> (nat \<times> nat) list" where
  "dsu_ref lab (DUnite x y) = (map (\<lambda>l. if l = lab ! y then lab ! x else l) lab, [])"
| "dsu_ref lab (DMove x y) = (lab[x := lab ! y], [])"
| "dsu_ref lab (DQuery x) = (lab, [(length (members lab x), sum_list (members lab x))])"
| "dsu_ref lab DOther = (lab, [])"

fun dsu_ok :: "nat list \<Rightarrow> dsu_op \<Rightarrow> bool" where
  "dsu_ok lab (DUnite x y) = (x < length lab \<and> y < length lab)"
| "dsu_ok lab (DMove x y) = (x < length lab \<and> y < length lab)"
| "dsu_ok lab (DQuery x) = (x < length lab)"
| "dsu_ok lab DOther = False"

section \<open>The invariant\<close>

abbreviation class_of :: "nat \<Rightarrow> (nat \<Rightarrow> nat) \<Rightarrow> nat \<Rightarrow> nat set" where
  "class_of N rt r \<equiv> {x. x < N \<and> rt x = r}"

definition forest_of :: "nat \<Rightarrow> (nat \<Rightarrow> nat) \<Rightarrow> (nat \<Rightarrow> nat) \<Rightarrow> nat list \<Rightarrow> bool" where
  "forest_of N rt dep pa = (rooted (\<lambda>x. x < 2 * N) rt dep pa \<and> length pa = 2 * N \<and> (\<forall>z < 2 * N. N \<le> pa ! z))"

definition counted :: "nat \<Rightarrow> (nat \<Rightarrow> nat) \<Rightarrow> nat list \<Rightarrow> 64 word list \<Rightarrow> 64 word list \<Rightarrow> bool" where
  "counted N rt pa sz sm = (length sz = 2 * N \<and> length sm = 2 * N \<and>
     (\<forall>r < 2 * N. pa ! r = r \<longrightarrow> sz ! r = of_nat (card (class_of N rt r)) \<and> sm ! r = of_nat (\<Sum> (class_of N rt r))))"

definition labelled :: "nat \<Rightarrow> (nat \<Rightarrow> nat) \<Rightarrow> nat list \<Rightarrow> bool" where
  "labelled N rt lab = (length lab = N \<and> (\<forall>x < N. \<forall>y < N. rt x = rt y \<longleftrightarrow> lab ! x = lab ! y))"

definition dsu_inv :: "dsu \<Rightarrow> nat list \<Rightarrow> bool" where
  "dsu_inv d lab = (\<exists>rt dep. forest_of (length lab) rt dep (dsu_pa d) \<and>
     counted (length lab) rt (dsu_pa d) (dsu_size d) (dsu_sum d) \<and> labelled (length lab) rt lab)"

text \<open>\<open>find\<close> changes nothing that can be seen.\<close>

lemma dsu_find_ok:
  assumes "forest_of N rt dep (dsu_pa d)" and "counted N rt (dsu_pa d) (dsu_size d) (dsu_sum d)" and "x < 2 * N"
  shows "\<exists>d'. dsu_find x d = Some (rt x, d') \<and> forest_of N rt dep (dsu_pa d') \<and> counted N rt (dsu_pa d') (dsu_size d') (dsu_sum d') \<and>
    rt x < 2 * N \<and> N \<le> rt x \<and> dsu_pa d' ! rt x = rt x \<and> (\<forall>r < 2 * N. dsu_pa d ! r = r \<longrightarrow> dsu_pa d' ! r = r)"
proof -
  let ?P = "\<lambda>x. x < 2 * N"
  have r: "rooted ?P rt dep (dsu_pa d)" and low: "\<And>z. z < 2 * N \<Longrightarrow> N \<le> dsu_pa d ! z"
    using assms(1) by (auto simp: forest_of_def)
  obtain pa where pa: "uf_find (dsu_pa d) x = Some (rt x, pa)" "rooted ?P rt dep pa" "length pa = 2 * N"
      "\<forall>y. y < 2 * N \<and> dsu_pa d ! y = y \<longrightarrow> pa ! y = y" "\<forall>y. pa ! y = dsu_pa d ! y \<or> pa ! y = rt y"
    using uf_find_ok [OF r assms(3)] assms(1) by (auto simp: forest_of_def)
  have root: "rt z < 2 * N \<and> dsu_pa d ! rt z = rt z \<and> N \<le> rt z" if "z < 2 * N" for z
    using rooted_root [OF r that] low [of "rt z"] by auto
  have "N \<le> pa ! z" if "z < 2 * N" for z
    using pa(5) root [OF that] low [OF that] by metis
  moreover have "dsu_pa d ! y = y" if "pa ! y = y" "y < 2 * N" for y
    using rootedD(3) [OF pa(2)] that root [OF that(2)] by metis
  ultimately show ?thesis
    using pa root [OF assms(3)] assms(2) by (auto simp: dsu_find_def forest_of_def counted_def)
qed


lemma vec_add_in: "i < length v \<Longrightarrow> vec_add i x v = Some (v[i := v ! i + x])"
  by (simp add: vec_add_def)

lemma class_finite: "finite (class_of N rt r)"
  by simp

section \<open>Union\<close>

lemma class_union:
  "class_of N (\<lambda>z. if rt z = y then x else rt z) r =
    (if x = y then class_of N rt r else if r = x then class_of N rt x \<union> class_of N rt y else if r = y then {} else class_of N rt r)"
  by auto

lemma link_counted:
  assumes "counted N rt pa sz sm" and "x < 2 * N" and "y < 2 * N" and "pa ! x = x" and "pa ! y = y" and "x \<noteq> y" and "length pa = 2 * N"
  shows "counted N (\<lambda>z. if rt z = y then x else rt z) (pa[y := x]) (sz[x := sz ! x + sz ! y]) (sm[x := sm ! x + sm ! y])"
proof -
  have len: "length sz = 2 * N" "length sm = 2 * N"
    and vals: "\<And>r. r < 2 * N \<Longrightarrow> pa ! r = r \<Longrightarrow> sz ! r = of_nat (card (class_of N rt r)) \<and> sm ! r = of_nat (\<Sum> (class_of N rt r))"
    using assms(1) by (auto simp: counted_def)
  have disj: "class_of N rt x \<inter> class_of N rt y = {}"
    using assms(6) by auto
  have both: "of_nat (card (class_of N rt x \<union> class_of N rt y)) = sz ! x + sz ! y"
      "of_nat (\<Sum> (class_of N rt x \<union> class_of N rt y)) = sm ! x + sm ! y"
    using vals [OF assms(2,4)] vals [OF assms(3,5)] disj by (simp_all add: card_Un_disjoint sum.union_disjoint)
  have "(sz[x := sz ! x + sz ! y]) ! r = of_nat (card (class_of N (\<lambda>z. if rt z = y then x else rt z) r)) \<and>
      (sm[x := sm ! x + sm ! y]) ! r = of_nat (\<Sum> (class_of N (\<lambda>z. if rt z = y then x else rt z) r))"
    if r: "r < 2 * N" "(pa[y := x]) ! r = r" for r
  proof (cases "r = x")
    case True
    then show ?thesis
      unfolding class_union using both assms(2,6) len by simp
  next
    case False
    then have "r \<noteq> y" "pa ! r = r"
      using r assms(3,6,7) by (auto simp: nth_list_update split: if_splits)
    then show ?thesis
      unfolding class_union using False assms(6) vals [OF r(1)] by simp
  qed
  then show ?thesis
    using len unfolding counted_def by simp
qed

lemma link_labelled:
  assumes "labelled N rt lab" and "a < N" and "b < N" and "{rt a, rt b} = {x, y}"
  shows "labelled N (\<lambda>z. if rt z = y then x else rt z) (map (\<lambda>l. if l = lab ! b then lab ! a else l) lab)"
  using assms same_class_link [of "\<lambda>z. z < N" rt "nth lab" a b x y] by (simp add: labelled_def)

lemma unite_ok:
  assumes "dsu_inv d lab" and "a < length lab" and "b < length lab"
  shows "\<exists>d'. unite a b d = Some d' \<and> dsu_inv d' (map (\<lambda>l. if l = lab ! b then lab ! a else l) lab)"
proof -
  let ?N = "length lab"
  obtain rt dep where inv: "forest_of ?N rt dep (dsu_pa d)" "counted ?N rt (dsu_pa d) (dsu_size d) (dsu_sum d)" "labelled ?N rt lab"
    using assms(1) by (auto simp: dsu_inv_def)
  obtain d1 where d1: "dsu_find a d = Some (rt a, d1)" "forest_of ?N rt dep (dsu_pa d1)" "counted ?N rt (dsu_pa d1) (dsu_size d1) (dsu_sum d1)"
      "rt a < 2 * ?N" "dsu_pa d1 ! rt a = rt a"
    using dsu_find_ok [OF inv(1,2), of a] assms(2) by auto
  obtain d2 where d2: "dsu_find b d1 = Some (rt b, d2)" "forest_of ?N rt dep (dsu_pa d2)" "counted ?N rt (dsu_pa d2) (dsu_size d2) (dsu_sum d2)"
      "rt b < 2 * ?N" "dsu_pa d2 ! rt b = rt b" "dsu_pa d2 ! rt a = rt a"
    using dsu_find_ok [OF d1(2,3), of b] assms(3) d1(4,5) by auto
  show ?thesis
  proof (cases "rt a = rt b")
    case True
    then have "lab ! a = lab ! b"
      using inv(3) assms(2,3) by (auto simp: labelled_def)
    then have "map (\<lambda>l. if l = lab ! b then lab ! a else l) lab = lab"
      by (simp add: map_idI)
    then show ?thesis
      using True d1(1) d2(1-3) inv(3) by (auto simp: unite_def dsu_inv_def)
  next
    case False
    define x y where "x = (if dsu_size d2 ! rt a < dsu_size d2 ! rt b then rt b else rt a)"
      and "y = (if dsu_size d2 ! rt a < dsu_size d2 ! rt b then rt a else rt b)"
    have xy: "{rt a, rt b} = {x, y}" "x < 2 * ?N" "y < 2 * ?N" "dsu_pa d2 ! x = x" "dsu_pa d2 ! y = y" "x \<noteq> y"
      using d1(4) d2(4-6) False by (auto simp: x_def y_def)
    have len: "length (dsu_pa d2) = 2 * ?N" "length (dsu_size d2) = 2 * ?N" "length (dsu_sum d2) = 2 * ?N"
      using d2(2,3) by (auto simp: forest_of_def counted_def)
    let ?d = "\<lparr>dsu_pa = (dsu_pa d2)[y := x], dsu_size = (dsu_size d2)[x := dsu_size d2 ! x + dsu_size d2 ! y],
      dsu_sum = (dsu_sum d2)[x := dsu_sum d2 ! x + dsu_sum d2 ! y]\<rparr>"
    have "(if dsu_size d2 ! rt a < dsu_size d2 ! rt b then (rt b, rt a) else (rt a, rt b)) = (x, y)"
      by (simp add: x_def y_def)
    then have "unite a b d = Some ?d"
      using d1(1) d2(1,4) d1(4) False xy(2,3) len by (simp add: unite_def vec_add_in)
    moreover have "N \<le> x" if "forest_of N rt dep (dsu_pa d2)" "x < 2 * N" for N
      using that xy(4) by (metis forest_of_def)
    then have "forest_of ?N (\<lambda>z. if rt z = y then x else rt z) (\<lambda>z. if rt z = y then Suc (dep z + dep x) else dep z) (dsu_pa ?d)"
      using rooted_link [of "\<lambda>x. x < 2 * ?N" rt dep "dsu_pa d2" x y] d2(2) xy
      by (auto simp: forest_of_def nth_list_update)
    ultimately show ?thesis
      using link_counted [OF d2(3) xy(2-6) len(1)] link_labelled [OF inv(3) assms(2,3) xy(1)] unfolding dsu_inv_def
      by (intro exI [of _ ?d] conjI exI) auto
  qed
qed

section \<open>Moving a number\<close>

lemma class_move:
  assumes "x < N" and "r \<noteq> rt x"
  shows "class_of N (rt(x := r)) c =
    (if c = r then insert x (class_of N rt r) else if c = rt x then class_of N rt (rt x) - {x} else class_of N rt c)"
  using assms by auto

lemma move_counted:
  assumes "counted N rt pa sz sm" and "x < N" and "r < 2 * N" and "pa ! r = r" and "r \<noteq> rt x" and "rt x < 2 * N" and "pa ! rt x = rt x"
    and "length pa = 2 * N"
  shows "counted N (rt(x := r)) (pa[x := r]) ((sz[rt x := sz ! rt x + - 1])[r := sz[rt x := sz ! rt x + - 1] ! r + 1])
    ((sm[rt x := sm ! rt x + - of_nat x])[r := sm[rt x := sm ! rt x + - of_nat x] ! r + of_nat x])"
    (is "counted _ _ _ ?sz ?sm")
proof -
  have len: "length sz = 2 * N" "length sm = 2 * N"
    and vals: "\<And>r. r < 2 * N \<Longrightarrow> pa ! r = r \<Longrightarrow> sz ! r = of_nat (card (class_of N rt r)) \<and> sm ! r = of_nat (\<Sum> (class_of N rt r))"
    using assms(1) by (auto simp: counted_def)
  have x: "x \<in> class_of N rt (rt x)" "x \<notin> class_of N rt r"
    using assms(2,5) by auto
  have add: "of_nat (card (insert x (class_of N rt r))) = sz ! r + 1" "of_nat (\<Sum> (insert x (class_of N rt r))) = sm ! r + of_nat x"
    using vals [OF assms(3,4)] x(2) by (simp_all add: sum.insert)
  have "of_nat (card (class_of N rt (rt x))) = (of_nat (Suc (card (class_of N rt (rt x) - {x}))) :: 64 word)"
    using card.remove [OF class_finite x(1)] by simp
  moreover have "of_nat (\<Sum> (class_of N rt (rt x))) = (of_nat (x + \<Sum> (class_of N rt (rt x) - {x})) :: 64 word)"
    using sum.remove [OF class_finite x(1), of "\<lambda>x. x"] by simp
  ultimately have sub: "of_nat (card (class_of N rt (rt x) - {x})) = sz ! rt x - 1" "of_nat (\<Sum> (class_of N rt (rt x) - {x})) = sm ! rt x - of_nat x"
    using vals [OF assms(6,7)] by simp_all
  have "?sz ! c = of_nat (card (class_of N (rt(x := r)) c)) \<and> ?sm ! c = of_nat (\<Sum> (class_of N (rt(x := r)) c))"
    if c: "c < 2 * N" "(pa[x := r]) ! c = c" for c
  proof -
    consider "c = r" | "c = rt x" | "c \<noteq> r" "c \<noteq> rt x" "pa ! c = c"
      using c assms(2,8) by (cases "c = x") auto
    then show ?thesis
    proof cases
      case 1
      then show ?thesis
        unfolding class_move [of x N r rt, OF assms(2,5)] using add len assms(3,5) by simp
    next
      case 2
      then show ?thesis
        unfolding class_move [of x N r rt, OF assms(2,5)] using sub len assms(5,6) by simp
    next
      case 3
      then show ?thesis
        unfolding class_move [of x N r rt, OF assms(2,5)] using vals [OF c(1) 3(3)] by simp
    qed
  qed
  then show ?thesis
    using len unfolding counted_def by simp
qed

lemma move_labelled:
  assumes "labelled N rt lab" and "a < N" and "b < N"
  shows "labelled N (rt(a := rt b)) (lab[a := lab ! b])"
  using assms by (auto simp: labelled_def nth_list_update)

lemma move_ok:
  assumes "dsu_inv d lab" and "a < length lab" and "b < length lab"
  shows "\<exists>d'. move a b d = Some d' \<and> dsu_inv d' (lab[a := lab ! b])"
proof -
  let ?N = "length lab"
  obtain rt dep where inv: "forest_of ?N rt dep (dsu_pa d)" "counted ?N rt (dsu_pa d) (dsu_size d) (dsu_sum d)" "labelled ?N rt lab"
    using assms(1) by (auto simp: dsu_inv_def)
  obtain d1 where d1: "dsu_find a d = Some (rt a, d1)" "forest_of ?N rt dep (dsu_pa d1)" "counted ?N rt (dsu_pa d1) (dsu_size d1) (dsu_sum d1)"
      "rt a < 2 * ?N" "dsu_pa d1 ! rt a = rt a"
    using dsu_find_ok [OF inv(1,2), of a] assms(2) by auto
  obtain d2 where d2: "dsu_find b d1 = Some (rt b, d2)" "forest_of ?N rt dep (dsu_pa d2)" "counted ?N rt (dsu_pa d2) (dsu_size d2) (dsu_sum d2)"
      "rt b < 2 * ?N" "dsu_pa d2 ! rt b = rt b" "dsu_pa d2 ! rt a = rt a" "?N \<le> rt b"
    using dsu_find_ok [OF d1(2,3), of b] assms(3) d1(4,5) by auto
  show ?thesis
  proof (cases "rt a = rt b")
    case True
    then have "lab[a := lab ! b] = lab"
      using inv(3) assms(2,3) by (metis labelled_def list_update_id)
    then show ?thesis
      using True d1(1) d2(1-3) inv(3) by (auto simp: move_def dsu_inv_def)
  next
    case False
    have len: "length (dsu_pa d2) = 2 * ?N" "length (dsu_size d2) = 2 * ?N" "length (dsu_sum d2) = 2 * ?N"
      using d2(2,3) by (auto simp: forest_of_def counted_def)
    define sz where "sz = (dsu_size d2)[rt a := dsu_size d2 ! rt a + - 1]"
    define sm where "sm = (dsu_sum d2)[rt a := dsu_sum d2 ! rt a + - of_nat a]"
    let ?d = "\<lparr>dsu_pa = (dsu_pa d2)[a := rt b], dsu_size = sz[rt b := sz ! rt b + 1], dsu_sum = sm[rt b := sm ! rt b + of_nat a]\<rparr>"
    have "length sz = 2 * ?N" "length sm = 2 * ?N"
      using len by (simp_all add: sz_def sm_def)
    then have "move a b d = Some ?d"
      using d1(1) d2(1,4) d1(4) False len assms(2) by (simp add: move_def vec_add_in sz_def sm_def)
    moreover have "rooted (\<lambda>x. x < 2 * ?N) (rt(a := rt b)) (dep(a := Suc (dep (rt b)))) (dsu_pa ?d)"
      using rooted_move [of "\<lambda>x. x < 2 * ?N" rt dep "dsu_pa d2" a "rt b"] d2 assms(2) by (force simp: forest_of_def)
    then have "forest_of ?N (rt(a := rt b)) (dep(a := Suc (dep (rt b)))) (dsu_pa ?d)"
      using d2(2,7) assms(2) by (auto simp: forest_of_def nth_list_update)
    moreover have "counted ?N (rt(a := rt b)) (dsu_pa ?d) (dsu_size ?d) (dsu_sum ?d)"
      using move_counted [OF d2(3) assms(2) d2(4,5) _ d1(4) d2(6) len(1)] False by (simp add: sz_def sm_def)
    ultimately show ?thesis
      using move_labelled [OF inv(3) assms(2,3)] unfolding dsu_inv_def by (intro exI [of _ ?d] conjI exI) auto
  qed
qed

section \<open>The whole program\<close>

lemma class_members:
  assumes "labelled (length lab) rt lab" and "x < length lab"
  shows "class_of (length lab) rt (rt x) = set (members lab x)" "distinct (members lab x)"
  using assms by (auto simp: labelled_def members_def)

lemma members_small:
  assumes "length lab \<le> 2 ^ 32" and "x < length lab"
  shows "length (members lab x) < 2 ^ 64" "sum_list (members lab x) < 2 ^ 64"
proof -
  have "length (members lab x) \<le> length lab"
    unfolding members_def by (metis diff_zero length_filter_le length_upt)
  then show "length (members lab x) < 2 ^ 64"
    using assms(1) by (simp add: order_le_less_trans)
  have "\<forall>z \<in> set (members lab x). z \<le> 2 ^ 32 - 1"
    using assms(1) by (auto simp: members_def)
  then have "sum_list (members lab x) \<le> length (members lab x) * (2 ^ 32 - 1)"
    using sum_list_mono [of "members lab x" "\<lambda>z. z" "\<lambda>_. 2 ^ 32 - 1"] by (simp add: sum_list_triv)
  also have "\<dots> \<le> 2 ^ 32 * (2 ^ 32 - 1)"
    using \<open>length (members lab x) \<le> length lab\<close> assms(1) by (intro mult_right_mono) simp_all
  also have "\<dots> < 2 ^ 64"
    by simp
  finally show "sum_list (members lab x) < 2 ^ 64" .
qed

lemma query_ok:
  assumes "dsu_inv d lab" and "length lab \<le> 2 ^ 32" and "x < length lab"
  shows "\<exists>d'. dsu_step d (DQuery x) = Some (d', [(length (members lab x), sum_list (members lab x))]) \<and> dsu_inv d' lab"
proof -
  let ?N = "length lab"
  obtain rt dep where inv: "forest_of ?N rt dep (dsu_pa d)" "counted ?N rt (dsu_pa d) (dsu_size d) (dsu_sum d)" "labelled ?N rt lab"
    using assms(1) by (auto simp: dsu_inv_def)
  obtain d' where d': "dsu_find x d = Some (rt x, d')" "forest_of ?N rt dep (dsu_pa d')" "counted ?N rt (dsu_pa d') (dsu_size d') (dsu_sum d')"
      "rt x < 2 * ?N" "dsu_pa d' ! rt x = rt x"
    using dsu_find_ok [OF inv(1,2), of x] assms(3) by auto
  note m = class_members [OF inv(3) assms(3)]
  have "card (set (members lab x)) = length (members lab x)" "\<Sum> (set (members lab x)) = sum_list (members lab x)"
    using m(2) by (simp_all add: distinct_card distinct_sum_list_conv_Sum)
  moreover have "dsu_size d' ! rt x = of_nat (card (set (members lab x)))" "dsu_sum d' ! rt x = of_nat (\<Sum> (set (members lab x)))"
    using d'(3-5) unfolding counted_def m(1) [symmetric] by blast+
  ultimately have "dsu_size d' ! rt x = of_nat (length (members lab x))" "dsu_sum d' ! rt x = of_nat (sum_list (members lab x))"
    by metis+
  then show ?thesis
    using d' inv(3) members_small [OF assms(2,3)] by (auto simp: dsu_inv_def counted_def unat_of_nat)
qed

interpretation dsu: query_program dsu_step dsu_ref dsu_ok "\<lambda>d lab. dsu_inv d lab \<and> length lab \<le> 2 ^ 32"
proof
  fix d lab op
  assume inv: "dsu_inv d lab \<and> length lab \<le> 2 ^ 32" and ok: "dsu_ok lab op"
  show "\<exists>d'. dsu_step d op = Some (d', snd (dsu_ref lab op)) \<and> dsu_inv d' (fst (dsu_ref lab op)) \<and> length (fst (dsu_ref lab op)) \<le> 2 ^ 32"
  proof (cases op)
    case (DUnite x y)
    then show ?thesis
      using unite_ok [of d lab x y] inv ok by auto
  next
    case (DMove x y)
    then show ?thesis
      using move_ok [of d lab x y] inv ok by auto
  next
    case (DQuery x)
    then show ?thesis
      using query_ok [of d lab x] inv ok by auto
  qed (use ok in simp)
qed

lemma new_dsu_inv: "dsu_inv (new_dsu N) [0..<N]"
proof -
  have pa: "([N..<2 * N] @ [N..<2 * N]) ! x = (if x < N then N + x else x)" if "x < 2 * N" for x
    using that by (simp add: nth_append)
  let ?rt = "\<lambda>x. if x < N then N + x else x" and ?dep = "\<lambda>x. if x < N then 1 else 0 :: nat"
  have "forest_of N ?rt ?dep ([N..<2 * N] @ [N..<2 * N])"
    using pa by (auto simp: forest_of_def rooted_def)
  moreover have "class_of N ?rt r = {r - N}" if "r < 2 * N" "N \<le> r" for r
    using that by auto
  then have "counted N ?rt ([N..<2 * N] @ [N..<2 * N]) (replicate (2 * N) 1) (replicate N 0 @ map of_nat [0..<N])"
    using pa by (auto simp: counted_def nth_append)
  moreover have "labelled N ?rt [0..<N]"
    by (simp add: labelled_def)
  ultimately show ?thesis
    unfolding dsu_inv_def new_dsu_def by auto
qed

text \<open>
  C12. For every list of test cases with \<open>n < 2 ^ 32\<close> and commands on the numbers \<open>0..n\<close>, the program \<^verbatim>\<open>dsu_1.cpp\<close> ends without an access out
  of bounds and prints for each query the size and the sum of the current set of the number: no 64-bit counter
  wraps around, however many numbers were united and moved.
\<close>

theorem dsu_main_correct:
  assumes "\<forall>(n, ops) \<in> set cases. n < 2 ^ 32 \<and> all_ok dsu_ok dsu_ref [0..<n + 1] ops"
  shows "dsu_main cases = Some (concat (map (\<lambda>(n, ops). ref_loop dsu_ref [0..<n + 1] ops) cases))"
  using assms
proof (induction cases)
  case (Cons c cases)
  obtain n ops where c: "c = (n, ops)"
    by (cases c)
  then have "\<exists>d. query_loop dsu_step (new_dsu (n + 1)) ops = Some (d, ref_loop dsu_ref [0..<n + 1] ops)"
    using Cons.prems new_dsu_inv by (intro dsu.loop_ok) (auto simp: less_eq_Suc_le simp del: upt_Suc)
  then show ?case
    using Cons c by (auto simp del: upt_Suc)
qed simp

theorem dsu_main_correct_witness:
  "dsu_main [(5, [DUnite 1 2, DMove 3 4, DUnite 3 5, DQuery 4, DMove 4 1, DQuery 4, DQuery 3])] = Some [(3, 12), (3, 7), (2, 8)]"
proof -
  let ?ops = "[DUnite 1 2, DMove 3 4, DUnite 3 5, DQuery 4, DMove 4 1, DQuery 4, DQuery 3]"
  have "all_ok dsu_ok dsu_ref [0..<5 + 1] ?ops" "ref_loop dsu_ref [0..<5 + 1] ?ops = [(3, 12), (3, 7), (2, 8)]"
    by code_simp+
  then show ?thesis
    using dsu_main_correct [of "[(5, ?ops)]"] by (simp del: all_ok.simps ref_loop.simps upt_Suc)
qed

end
