(* ===== verification/PersistentDsu.thy ===== *)
theory PersistentDsu
  imports UnionFind
begin

text \<open>
  The program \<^verbatim>\<open>persistent-seg/persistent-seg_1.cpp\<close>: disjoint sets with access to every earlier version. The array of parents and
  ranks of a version is a segment tree in the node pool \<open>t\<close>; a change copies the nodes on one path, so that older versions keep
  theirs. Shown: the answers are those of the partition of the right version, older versions never change, and the node
  pool suffices.
\<close>

section \<open>The program\<close>

record pnode =
  pn_lc :: nat
  pn_rc :: nat
  pn_val :: nat
  pn_rnk :: nat

text \<open>The pool \<open>t[MAXN * 2 + MAXM * 40]\<close> with the counter \<open>tot\<close>, and the roots \<open>rt[MAXM]\<close>.\<close>

definition POOL :: nat where
  "POOL = (100000 + 5) * 2 + (200000 + 5) * 40"

record pseg =
  ps_t :: "nat \<Rightarrow> pnode"
  ps_tot :: nat
  ps_rt :: "nat \<Rightarrow> nat"

definition pn_get :: "(nat \<Rightarrow> pnode) \<Rightarrow> nat \<Rightarrow> pnode option" where
  "pn_get t p = (if p < POOL then Some (t p) else None)"

definition pn_upd :: "nat \<Rightarrow> (pnode \<Rightarrow> pnode) \<Rightarrow> pseg \<Rightarrow> pseg option" where
  "pn_upd p g S = (if p < POOL then Some (S\<lparr>ps_t := (ps_t S)(p := g (ps_t S p))\<rparr>) else None)"

partial_function (option) ps_build :: "nat \<Rightarrow> nat \<Rightarrow> pseg \<Rightarrow> (nat \<times> pseg) option" where [code]:
  "ps_build l r S = do {
     let p = ps_tot S + 1;
     let S = S\<lparr>ps_tot := p\<rparr>;
     if l = r then do {
       S \<leftarrow> pn_upd p (\<lambda>x. x\<lparr>pn_val := l, pn_rnk := 1\<rparr>) S;
       Some (p, S)
     }
     else do {
       let mid = (l + r) div 2;
       (c, S) \<leftarrow> ps_build l mid S;
       S \<leftarrow> pn_upd p (\<lambda>x. x\<lparr>pn_lc := c\<rparr>) S;
       (c, S) \<leftarrow> ps_build (mid + 1) r S;
       S \<leftarrow> pn_upd p (\<lambda>x. x\<lparr>pn_rc := c\<rparr>) S;
       Some (p, S)
     }
   }"

text \<open>The descent to the leaf of a position, which \<open>getRnk\<close> and \<open>query\<close> have in common.\<close>

partial_function (option) ps_leaf :: "(nat \<Rightarrow> pnode) \<Rightarrow> nat \<Rightarrow> nat \<Rightarrow> nat \<Rightarrow> nat \<Rightarrow> pnode option" where [code]:
  "ps_leaf t p l r pos = do {
     x \<leftarrow> pn_get t p;
     if l = r then Some x
     else do {
       let mid = (l + r) div 2;
       if pos \<le> mid then ps_leaf t (pn_lc x) l mid pos else ps_leaf t (pn_rc x) (mid + 1) r pos
     }
   }"

definition getRnk :: "pseg \<Rightarrow> nat \<Rightarrow> nat \<Rightarrow> nat \<Rightarrow> nat \<Rightarrow> nat option" where
  "getRnk S p l r pos = map_option pn_rnk (ps_leaf (ps_t S) p l r pos)"

definition ps_query :: "pseg \<Rightarrow> nat \<Rightarrow> nat \<Rightarrow> nat \<Rightarrow> nat \<Rightarrow> nat option" where
  "ps_query S p l r pos = map_option pn_val (ps_leaf (ps_t S) p l r pos)"

text \<open>The copy of a path, which \<open>modify\<close> and \<open>modifyRnk\<close> have in common but for the change \<open>g\<close> of the leaf.\<close>

partial_function (option) ps_copy :: "(pnode \<Rightarrow> pnode) \<Rightarrow> nat \<Rightarrow> nat \<Rightarrow> nat \<Rightarrow> nat \<Rightarrow> pseg \<Rightarrow> (nat \<times> pseg) option" where [code]:
  "ps_copy g now l r pos S = do {
     let p = ps_tot S + 1;
     let S = S\<lparr>ps_tot := p\<rparr>;
     x \<leftarrow> pn_get (ps_t S) now;
     S \<leftarrow> pn_upd p (\<lambda>_. x) S;
     if l = r then do {
       S \<leftarrow> pn_upd p g S;
       Some (p, S)
     }
     else do {
       let mid = (l + r) div 2;
       if pos \<le> mid then do {
         (c, S) \<leftarrow> ps_copy g (pn_lc x) l mid pos S;
         S \<leftarrow> pn_upd p (\<lambda>x. x\<lparr>pn_lc := c\<rparr>) S;
         Some (p, S)
       }
       else do {
         (c, S) \<leftarrow> ps_copy g (pn_rc x) (mid + 1) r pos S;
         S \<leftarrow> pn_upd p (\<lambda>x. x\<lparr>pn_rc := c\<rparr>) S;
         Some (p, S)
       }
     }
   }"

definition modifyRnk :: "nat \<Rightarrow> nat \<Rightarrow> nat \<Rightarrow> nat \<Rightarrow> nat \<Rightarrow> pseg \<Rightarrow> (nat \<times> pseg) option" where
  "modifyRnk now l r pos v S = ps_copy (\<lambda>x. x\<lparr>pn_rnk := max (pn_rnk x) v\<rparr>) now l r pos S"

definition ps_modify :: "nat \<Rightarrow> nat \<Rightarrow> nat \<Rightarrow> nat \<Rightarrow> nat \<Rightarrow> pseg \<Rightarrow> (nat \<times> pseg) option" where
  "ps_modify now l r pos fa S = ps_copy (\<lambda>x. x\<lparr>pn_val := fa\<rparr>) now l r pos S"

partial_function (option) findRoot :: "nat \<Rightarrow> pseg \<Rightarrow> nat \<Rightarrow> nat \<Rightarrow> nat option" where [code]:
  "findRoot n S p pos = do {
     f \<leftarrow> ps_query S p 1 n pos;
     if pos = f then Some pos else findRoot n S p f
   }"

definition rt_get :: "pseg \<Rightarrow> nat \<Rightarrow> nat option" where
  "rt_get S i = (if i < 200000 + 5 then Some (ps_rt S i) else None)"

definition rt_set :: "nat \<Rightarrow> nat \<Rightarrow> pseg \<Rightarrow> pseg option" where
  "rt_set i p S = (if i < 200000 + 5 then Some (S\<lparr>ps_rt := (ps_rt S)(i := p)\<rparr>) else None)"

datatype pd_op = PUnite nat nat | PBack nat | PAsk nat nat

text \<open>One round of the loop of \<open>main\<close>; the counter \<open>i\<close> is part of the state.\<close>

fun pd_step :: "nat \<Rightarrow> nat \<times> pseg \<Rightarrow> pd_op \<Rightarrow> ((nat \<times> pseg) \<times> nat list) option" where
  "pd_step n (i, S) (PUnite a b) = do {
     p \<leftarrow> rt_get S (i - 1);
     fa \<leftarrow> findRoot n S p a;
     fb \<leftarrow> findRoot n S p b;
     if fa \<noteq> fb then do {
       ra \<leftarrow> getRnk S p 1 n fa;
       rb \<leftarrow> getRnk S p 1 n fb;
       let (fa, fb) = (if ra > rb then (fb, fa) else (fa, fb));
       (tmp, S) \<leftarrow> ps_modify p 1 n fa fb S;
       rk \<leftarrow> getRnk S p 1 n fa;
       (q, S) \<leftarrow> modifyRnk tmp 1 n fb (rk + 1) S;
       S \<leftarrow> rt_set i q S;
       Some ((i + 1, S), [])
     }
     else do {
       S \<leftarrow> rt_set i p S;
       Some ((i + 1, S), [])
     }
   }"
| "pd_step n (i, S) (PBack a) = do {
     p \<leftarrow> rt_get S a;
     S \<leftarrow> rt_set i p S;
     Some ((i + 1, S), [])
   }"
| "pd_step n (i, S) (PAsk a b) = do {
     p \<leftarrow> rt_get S (i - 1);
     S \<leftarrow> rt_set i p S;
     p \<leftarrow> rt_get S i;
     fa \<leftarrow> findRoot n S p a;
     fb \<leftarrow> findRoot n S p b;
     Some ((i + 1, S), [if fa = fb then 1 else 0])
   }"

definition pd_main :: "nat \<Rightarrow> pd_op list \<Rightarrow> ((nat \<times> pseg) \<times> nat list) option" where
  "pd_main n ops = do {
     (p, S) \<leftarrow> ps_build 1 n \<lparr>ps_t = (\<lambda>_. \<lparr>pn_lc = 0, pn_rc = 0, pn_val = 0, pn_rnk = 0\<rparr>), ps_tot = 0, ps_rt = (\<lambda>_. 0)\<rparr>;
     S \<leftarrow> rt_set 0 p S;
     query_loop (pd_step n) (1, S) ops
   }"

section \<open>Versions in the pool\<close>

text \<open>The tree at \<open>p\<close> for the positions \<open>l..r\<close> holds the parents \<open>V\<close> and the ranks \<open>R\<close>, in nodes of the set \<open>U\<close>.\<close>

function holds_at :: "(nat \<Rightarrow> pnode) \<Rightarrow> nat set \<Rightarrow> nat \<Rightarrow> nat \<Rightarrow> nat \<Rightarrow> (nat \<Rightarrow> nat) \<Rightarrow> (nat \<Rightarrow> nat) \<Rightarrow> bool" where
  "holds_at t U p l r V R = (p \<in> U \<and>
     (if r \<le> l then pn_val (t p) = V l \<and> pn_rnk (t p) = R l
      else holds_at t U (pn_lc (t p)) l ((l + r) div 2) V R \<and> holds_at t U (pn_rc (t p)) ((l + r) div 2 + 1) r V R))"
  by pat_completeness auto
termination
  by (relation "measure (\<lambda>(t, U, p, l, r, V, R). r - l)") auto

declare holds_at.simps [simp del]

lemma holds_at_leaf: "holds_at t U p l l V R \<longleftrightarrow> p \<in> U \<and> pn_val (t p) = V l \<and> pn_rnk (t p) = R l"
  by (subst holds_at.simps) simp

lemma holds_at_node: "l < r \<Longrightarrow> holds_at t U p l r V R \<longleftrightarrow> p \<in> U \<and>
    holds_at t U (pn_lc (t p)) l ((l + r) div 2) V R \<and> holds_at t U (pn_rc (t p)) ((l + r) div 2 + 1) r V R"
  by (subst holds_at.simps) simp

lemma holds_at_in: "holds_at t U p l r V R \<Longrightarrow> p \<in> U"
  by (subst (asm) holds_at.simps) simp

text \<open>Splitting a range, for inductions on its length.\<close>

lemma range_induct [consumes 1, case_names leaf node]:
  assumes "l \<le> (r :: nat)" and "\<And>l. P l l"
    and "\<And>l r. l < r \<Longrightarrow> P l ((l + r) div 2) \<Longrightarrow> P ((l + r) div 2 + 1) r \<Longrightarrow> P l r"
  shows "P l r"
  using assms(1)
proof (induction "r - l" arbitrary: l r rule: less_induct)
  case less
  show ?case
  proof (cases "l = r")
    case False
    then have "l < r" "l \<le> (l + r) div 2" "(l + r) div 2 + 1 \<le> r" "(l + r) div 2 - l < r - l" "r - ((l + r) div 2 + 1) < r - l"
      using less.prems by auto
    then show ?thesis
      using assms(3) less.hyps by blast
  qed (simp add: assms(2))
qed

lemma half_range:
  fixes l r :: nat
  assumes "l < r" and "r + 1 - l \<le> 2 ^ d"
  shows "\<exists>d'. d = Suc d' \<and> (l + r) div 2 + 1 - l \<le> 2 ^ d' \<and> r + 1 - ((l + r) div 2 + 1) \<le> 2 ^ d'"
  using assms by (cases d) auto

text \<open>A version keeps its arrays as long as its nodes do not change.\<close>

lemma holds_at_frame:
  assumes "l \<le> r" and "holds_at t U p l r V R" and "\<forall>q \<in> U. t' q = t q" and "U \<subseteq> U'"
  shows "holds_at t' U' p l r V R"
  using assms(1,2)
proof (induction l r arbitrary: p rule: range_induct)
  case (leaf l)
  then show ?case
    using assms(3,4) by (auto simp: holds_at_leaf)
next
  case (node l r)
  then show ?case
    using assms(3,4) by (auto simp: holds_at_node)
qed

lemma holds_at_cong:
  assumes "l \<le> r" and "\<And>x. l \<le> x \<Longrightarrow> x \<le> r \<Longrightarrow> V x = V' x \<and> R x = R' x"
  shows "holds_at t U p l r V R = holds_at t U p l r V' R'"
  using assms
proof (induction l r arbitrary: p rule: range_induct)
  case (node l r)
  have "holds_at t U q l ((l + r) div 2) V R = holds_at t U q l ((l + r) div 2) V' R'"
      "holds_at t U q ((l + r) div 2 + 1) r V R = holds_at t U q ((l + r) div 2 + 1) r V' R'" for q
    by (rule node.IH; use node.hyps node.prems in simp)+
  then show ?case
    using node.hyps by (simp add: holds_at_node)
qed (simp add: holds_at_leaf)

text \<open>A node outside of \<open>U\<close> that gets two trees as its children.\<close>

lemma holds_at_link:
  assumes "l < r" and "holds_at t U c l ((l + r) div 2) V R" and "holds_at t U c' ((l + r) div 2 + 1) r V R"
    and "p \<notin> U" and "p \<in> U'" and "U \<subseteq> U'" and "pn_lc x = c" and "pn_rc x = c'"
  shows "holds_at (t(p := x)) U' p l r V R"
proof -
  have "holds_at (t(p := x)) U' c l ((l + r) div 2) V R" "holds_at (t(p := x)) U' c' ((l + r) div 2 + 1) r V R"
    by (rule holds_at_frame [OF _ assms(2)] holds_at_frame [OF _ assms(3)]; use assms(1,4,6) in auto)+
  then show ?thesis
    using assms(1,5,7,8) by (simp add: holds_at_node)
qed

section \<open>Reading, copying, building\<close>

lemma ps_leaf_ok:
  assumes "l \<le> r" and "holds_at t U p l r V R" and "U \<subseteq> {..<POOL}" and "l \<le> pos" and "pos \<le> r"
  shows "\<exists>x. ps_leaf t p l r pos = Some x \<and> pn_val x = V pos \<and> pn_rnk x = R pos"
  using assms(1,2,4,5)
proof (induction l r arbitrary: p rule: range_induct)
  case (leaf l)
  then show ?case
    using assms(3) by (subst ps_leaf.simps) (auto simp: pn_get_def holds_at_leaf)
next
  case (node l r)
  have p: "p < POOL" "holds_at t U (pn_lc (t p)) l ((l + r) div 2) V R" "holds_at t U (pn_rc (t p)) ((l + r) div 2 + 1) r V R"
    using node.prems(1) node.hyps assms(3) by (auto simp: holds_at_node)
  show ?case
  proof (cases "pos \<le> (l + r) div 2")
    case True
    then show ?thesis
      using node.IH(1) [OF p(2) node.prems(2)] p(1) node.hyps by (subst ps_leaf.simps) (simp add: pn_get_def)
  next
    case False
    then show ?thesis
      using node.IH(2) [OF p(3) _ node.prems(3)] p(1) node.hyps by (subst ps_leaf.simps) (simp add: pn_get_def)
  qed
qed

text \<open>An operation that only allocates keeps the nodes there are.\<close>

definition grows :: "pseg \<Rightarrow> pseg \<Rightarrow> bool" where
  "grows S S' = (ps_tot S \<le> ps_tot S' \<and> ps_rt S' = ps_rt S \<and> (\<forall>q \<le> ps_tot S. ps_t S' q = ps_t S q))"

lemma grows_trans: "grows S S' \<Longrightarrow> grows S' S'' \<Longrightarrow> grows S S''"
  by (auto simp: grows_def)

text \<open>The state after \<open>++tot\<close> and the first writes to the new node.\<close>

definition with_node :: "pnode \<Rightarrow> pseg \<Rightarrow> pseg" where
  "with_node x S = S\<lparr>ps_tot := ps_tot S + 1, ps_t := (ps_t S)(ps_tot S + 1 := x)\<rparr>"

definition set_node :: "nat \<Rightarrow> pnode \<Rightarrow> pseg \<Rightarrow> pseg" where
  "set_node p x S = S\<lparr>ps_t := (ps_t S)(p := x)\<rparr>"

lemma grows_with_node: "grows S (with_node x S)"
  by (simp add: grows_def with_node_def)

lemma grows_set_node: "grows (with_node x S) S' \<Longrightarrow> grows S (set_node (ps_tot S + 1) y S')"
  by (auto simp: grows_def with_node_def set_node_def)

lemma ps_copy_ok:
  assumes "l \<le> r" and "holds_at (ps_t S) U now l r V R" and "U \<subseteq> {..ps_tot S}" and "l \<le> pos" and "pos \<le> r" and "r + 1 - l \<le> 2 ^ d"
    and "ps_tot S + d + 1 < POOL" and "\<And>x. pn_val (g x) = gv (pn_val x)" and "\<And>x. pn_rnk (g x) = gr (pn_rnk x)"
  shows "\<exists>p S'. ps_copy g now l r pos S = Some (p, S') \<and> grows S S' \<and> ps_tot S' \<le> ps_tot S + d + 1 \<and>
    holds_at (ps_t S') (U \<union> {ps_tot S<..ps_tot S'}) p l r (V(pos := gv (V pos))) (R(pos := gr (R pos)))"
  using assms(1-7)
proof (induction l r arbitrary: now S d rule: range_induct)
  case (leaf l)
  have "now < POOL" "ps_tot S + 1 < POOL"
    using holds_at_in [OF leaf.prems(1)] leaf.prems(2,6) by auto
  then show ?case
    using leaf.prems assms(8,9)
    by (subst ps_copy.simps) (auto simp: pn_get_def pn_upd_def holds_at_leaf grows_def)
next
  case (node l r)
  let ?p = "ps_tot S + 1" and ?m = "(l + r) div 2" and ?V = "V(pos := gv (V pos))" and ?R = "R(pos := gr (R pos))" and ?x = "ps_t S now"
  let ?S = "with_node ?x S"
  have now: "now < POOL" "?p < POOL" "holds_at (ps_t S) U (pn_lc ?x) l ?m V R" "holds_at (ps_t S) U (pn_rc ?x) (?m + 1) r V R"
    using node.prems(1,2,6) node.hyps by (auto simp: holds_at_node)
  have m: "l \<le> ?m" "?m + 1 \<le> r"
    using node.hyps by auto
  obtain d' where d: "d = Suc d'" "?m + 1 - l \<le> 2 ^ d'" "r + 1 - (?m + 1) \<le> 2 ^ d'"
    using half_range [OF node.hyps node.prems(5)] by blast
  have same: "\<forall>q \<in> U. ps_t ?S q = ps_t S q" and U: "U \<subseteq> {..ps_tot ?S}" and tot: "ps_tot ?S + d' + 1 < POOL"
    using node.prems(2,6) d(1) by (auto simp: with_node_def)
  have later: "\<forall>q \<in> U. ps_t S1 q = ps_t S q" "ps_t S1 ?p = ?x" "ps_tot S1 \<ge> ?p" if "grows ?S S1" for S1
    using that node.prems(2) by (auto simp: grows_def with_node_def)
  show ?case
  proof (cases "pos \<le> ?m")
    case True
    obtain c S1 where c: "ps_copy g (pn_lc ?x) l ?m pos ?S = Some (c, S1)" "grows ?S S1" "ps_tot S1 \<le> ps_tot ?S + d' + 1"
        "holds_at (ps_t S1) (U \<union> {ps_tot ?S<..ps_tot S1}) c l ?m ?V ?R"
      using node.IH(1) [OF holds_at_frame [OF m(1) now(3) same subset_refl] U node.prems(3) True d(2) tot] by blast
    have "holds_at (ps_t S) U (pn_rc ?x) (?m + 1) r ?V ?R"
      using now(4) holds_at_cong [OF m(2), of V ?V R ?R] True by simp
    then have right: "holds_at (ps_t S1) (U \<union> {ps_tot ?S<..ps_tot S1}) (pn_rc ?x) (?m + 1) r ?V ?R"
      by (rule holds_at_frame [OF m(2)]) (use later(1) [OF c(2)] in auto)
    have "holds_at ((ps_t S1)(?p := ?x\<lparr>pn_lc := c\<rparr>)) (U \<union> {ps_tot S<..ps_tot S1}) ?p l r ?V ?R"
      by (rule holds_at_link [OF node.hyps c(4) right]) (use node.prems(2) later(3) [OF c(2)] in \<open>auto simp: with_node_def\<close>)
    moreover have "ps_copy g now l r pos S = Some (?p, set_node ?p (?x\<lparr>pn_lc := c\<rparr>) S1)"
      using now(1,2) c(1) node.hyps True later(2) [OF c(2)]
      by (subst ps_copy.simps) (simp add: pn_get_def pn_upd_def with_node_def set_node_def)
    ultimately show ?thesis
      using grows_set_node [OF c(2)] c(3) d(1) by (auto simp: set_node_def with_node_def simp del: fun_upd_apply)
  next
    case False
    then have pos: "?m + 1 \<le> pos"
      by simp
    obtain c S1 where c: "ps_copy g (pn_rc ?x) (?m + 1) r pos ?S = Some (c, S1)" "grows ?S S1" "ps_tot S1 \<le> ps_tot ?S + d' + 1"
        "holds_at (ps_t S1) (U \<union> {ps_tot ?S<..ps_tot S1}) c (?m + 1) r ?V ?R"
      using node.IH(2) [OF holds_at_frame [OF m(2) now(4) same subset_refl] U pos node.prems(4) d(3) tot] by blast
    have "holds_at (ps_t S) U (pn_lc ?x) l ?m ?V ?R"
      using now(3) holds_at_cong [OF m(1), of V ?V R ?R] False by simp
    then have left: "holds_at (ps_t S1) (U \<union> {ps_tot ?S<..ps_tot S1}) (pn_lc ?x) l ?m ?V ?R"
      by (rule holds_at_frame [OF m(1)]) (use later(1) [OF c(2)] in auto)
    have "holds_at ((ps_t S1)(?p := ?x\<lparr>pn_rc := c\<rparr>)) (U \<union> {ps_tot S<..ps_tot S1}) ?p l r ?V ?R"
      by (rule holds_at_link [OF node.hyps left c(4)]) (use node.prems(2) later(3) [OF c(2)] in \<open>auto simp: with_node_def\<close>)
    moreover have "ps_copy g now l r pos S = Some (?p, set_node ?p (?x\<lparr>pn_rc := c\<rparr>) S1)"
      using now(1,2) c(1) node.hyps False later(2) [OF c(2)]
      by (subst ps_copy.simps) (simp add: pn_get_def pn_upd_def with_node_def set_node_def)
    ultimately show ?thesis
      using grows_set_node [OF c(2)] c(3) d(1) by (auto simp: set_node_def with_node_def simp del: fun_upd_apply)
  qed
qed

lemma ps_build_ok:
  assumes "l \<le> r" and "ps_tot S + 2 * (r - l) + 1 < POOL"
  shows "\<exists>p S'. ps_build l r S = Some (p, S') \<and> grows S S' \<and> ps_tot S' = ps_tot S + 2 * (r - l) + 1 \<and>
    holds_at (ps_t S') {ps_tot S<..ps_tot S'} p l r (\<lambda>x. x) (\<lambda>_. 1)"
  using assms
proof (induction l r arbitrary: S rule: range_induct)
  case (leaf l)
  then show ?case
    by (subst ps_build.simps) (auto simp: pn_upd_def holds_at_leaf grows_def)
next
  case (node l r)
  let ?p = "ps_tot S + 1" and ?m = "(l + r) div 2" and ?x = "ps_t S (ps_tot S + 1)"
  let ?S = "with_node ?x S"
  have S: "S\<lparr>ps_tot := ?p\<rparr> = ?S" "ps_tot ?S = ?p"
    by (simp_all add: with_node_def)
  have m: "l \<le> ?m" "?m + 1 \<le> r" "2 * (?m - l) + 1 + (2 * (r - (?m + 1)) + 1) = 2 * (r - l)"
    using node.hyps by auto
  have "ps_tot ?S + 2 * (?m - l) + 1 < POOL"
    using node.prems m unfolding S(2) by linarith
  then obtain c S1 where c: "ps_build l ?m ?S = Some (c, S1)" "grows ?S S1" "ps_tot S1 = ?p + 2 * (?m - l) + 1"
      "holds_at (ps_t S1) {?p<..ps_tot S1} c l ?m (\<lambda>x. x) (\<lambda>_. 1)"
    using node.IH(1) [of ?S] unfolding S(2) by blast
  let ?S2 = "set_node ?p (ps_t S1 ?p\<lparr>pn_lc := c\<rparr>) S1"
  have tot2: "ps_tot ?S2 = ps_tot S1"
    by (simp add: set_node_def)
  have "ps_tot ?S2 + 2 * (r - (?m + 1)) + 1 < POOL"
    using node.prems m c(3) unfolding tot2 by linarith
  then obtain c' S3 where c': "ps_build (?m + 1) r ?S2 = Some (c', S3)" "grows ?S2 S3" "ps_tot S3 = ps_tot S1 + 2 * (r - (?m + 1)) + 1"
      "holds_at (ps_t S3) {ps_tot S1<..ps_tot S3} c' (?m + 1) r (\<lambda>x. x) (\<lambda>_. 1)"
    using node.IH(2) [of ?S2] unfolding tot2 by blast
  let ?y = "ps_t S3 ?p\<lparr>pn_rc := c'\<rparr>" and ?U = "{?p<..ps_tot S3}"
  have keep: "ps_t S3 q = ps_t S1 q" if "q \<le> ps_tot S1" "q \<noteq> ?p" for q
    using c'(2) that by (auto simp: grows_def set_node_def)
  have y: "pn_lc ?y = c" "pn_rc ?y = c'"
    using c'(2) c(3) by (auto simp: grows_def set_node_def)
  have left: "holds_at (ps_t S3) ?U c l ?m (\<lambda>x. x) (\<lambda>_. 1)"
    by (rule holds_at_frame [OF m(1) c(4)]) (use keep c'(3) in auto)
  have right: "holds_at (ps_t S3) ?U c' (?m + 1) r (\<lambda>x. x) (\<lambda>_. 1)"
    by (rule holds_at_frame [OF m(2) c'(4)]) (use c(3) in auto)
  have "holds_at ((ps_t S3)(?p := ?y)) {ps_tot S<..ps_tot S3} ?p l r (\<lambda>x. x) (\<lambda>_. 1)"
    by (rule holds_at_link [OF node.hyps left right _ _ _ y]) (use c(3) c'(3) in auto)
  moreover have "?p < POOL"
    using node.prems by simp
  then have "ps_build l r S = Some (?p, set_node ?p ?y S3)"
    using c(1) c'(1) node.hyps S(1) by (subst ps_build.simps) (simp add: pn_upd_def set_node_def)
  moreover have "grows S (set_node ?p ?y S3)"
    using c(2) c'(2) by (auto simp: grows_def set_node_def with_node_def)
  moreover have "ps_tot (set_node ?p ?y S3) = ps_tot S + 2 * (r - l) + 1"
    using c(3) c'(3) m by (simp add: set_node_def)
  ultimately show ?case
    by (auto simp: set_node_def simp del: fun_upd_apply)
qed

section \<open>A version and its partition\<close>

text \<open>
  The parents of a version, without cycles, and labels with the same classes. Position \<open>0\<close> of the lists is not used.
\<close>

definition version :: "nat \<Rightarrow> pseg \<Rightarrow> nat \<Rightarrow> nat list \<Rightarrow> bool" where
  "version n S p lab = (\<exists>V R rt dep. holds_at (ps_t S) {..ps_tot S} p 1 n V R \<and>
     rooted (\<lambda>x. 1 \<le> x \<and> x \<le> n) rt dep (map V [0..<n + 1]) \<and> length lab = n + 1 \<and>
     (\<forall>x y. 1 \<le> x \<and> x \<le> n \<and> 1 \<le> y \<and> y \<le> n \<longrightarrow> rt x = rt y \<longleftrightarrow> lab ! x = lab ! y))"

lemma versionI:
  assumes "holds_at (ps_t S) {..ps_tot S} p 1 n V R" and "rooted (\<lambda>x. 1 \<le> x \<and> x \<le> n) rt dep (map V [0..<n + 1])" and "length lab = n + 1"
    and "\<And>x y. 1 \<le> x \<and> x \<le> n \<Longrightarrow> 1 \<le> y \<and> y \<le> n \<Longrightarrow> rt x = rt y \<longleftrightarrow> lab ! x = lab ! y"
  shows "version n S p lab"
  unfolding version_def using assms by blast

lemma version_grows:
  assumes "version n S p lab" and "grows S S'" and "1 \<le> n"
  shows "version n S' p lab"
proof -
  have "holds_at (ps_t S') {..ps_tot S'} p 1 n V R" if "holds_at (ps_t S) {..ps_tot S} p 1 n V R" for V R
    by (rule holds_at_frame [OF assms(3) that]) (use assms(2) in \<open>auto simp: grows_def\<close>)
  then show ?thesis
    using assms(1) unfolding version_def by blast
qed

lemma fields_ok:
  assumes "holds_at (ps_t S) {..ps_tot S} p 1 n V R" and "ps_tot S < POOL" and "1 \<le> x" and "x \<le> n"
  shows "ps_query S p 1 n x = Some (V x)" "getRnk S p 1 n x = Some (R x)"
proof -
  have "{..ps_tot S} \<subseteq> {..<POOL}"
    using assms(2) by auto
  then show "ps_query S p 1 n x = Some (V x)" "getRnk S p 1 n x = Some (R x)"
    using ps_leaf_ok [OF _ assms(1) _ assms(3,4)] assms(3,4) by (auto simp: ps_query_def getRnk_def)
qed

lemma nth_parents: "x \<le> n \<Longrightarrow> map V [0..<n + 1] ! x = V x"
  by (simp add: nth_append del: upt_Suc)

lemma findRoot_ok:
  assumes "holds_at (ps_t S) {..ps_tot S} p 1 n V R" and "ps_tot S < POOL"
    and "rooted (\<lambda>x. 1 \<le> x \<and> x \<le> n) rt dep (map V [0..<n + 1])" and "1 \<le> x" and "x \<le> n"
  shows "findRoot n S p x = Some (rt x)"
  using assms(4,5)
proof (induction "dep x" arbitrary: x rule: less_induct)
  case less
  note Vx = nth_parents [OF less.prems(2)]
  have "ps_query S p 1 n x = Some (V x)"
    by (rule fields_ok [OF assms(1,2) less.prems])
  moreover have r: "1 \<le> V x \<and> V x \<le> n" "V x = x \<Longrightarrow> rt x = x" "V x \<noteq> x \<Longrightarrow> rt x = rt (V x)" "V x \<noteq> x \<Longrightarrow> dep (V x) < dep x"
    using rootedD [OF assms(3), of x] less.prems unfolding Vx by auto
  ultimately show ?case
    using less.hyps [of "V x"] by (subst findRoot.simps) auto
qed

section \<open>The reference\<close>

text \<open>The history of the labels of all versions.\<close>

fun pd_ref :: "nat list list \<Rightarrow> pd_op \<Rightarrow> nat list list \<times> nat list" where
  "pd_ref hist (PUnite a b) =
     (hist @ [map (\<lambda>l. if l = last hist ! b then last hist ! a else l) (last hist)], [])"
| "pd_ref hist (PBack a) = (hist @ [hist ! a], [])"
| "pd_ref hist (PAsk a b) = (hist @ [last hist], [if last hist ! a = last hist ! b then 1 else 0])"

fun pd_ok :: "nat \<Rightarrow> nat list list \<Rightarrow> pd_op \<Rightarrow> bool" where
  "pd_ok n hist (PUnite a b) = (length hist \<le> 200004 \<and> 1 \<le> a \<and> a \<le> n \<and> 1 \<le> b \<and> b \<le> n)"
| "pd_ok n hist (PBack a) = (length hist \<le> 200004 \<and> a < length hist)"
| "pd_ok n hist (PAsk a b) = (length hist \<le> 200004 \<and> 1 \<le> a \<and> a \<le> n \<and> 1 \<le> b \<and> b \<le> n)"

definition pd_inv :: "nat \<Rightarrow> nat \<times> pseg \<Rightarrow> nat list list \<Rightarrow> bool" where
  "pd_inv n = (\<lambda>(i, S) hist. i = length hist \<and> hist \<noteq> [] \<and> 1 \<le> n \<and> n \<le> 2 ^ 17 \<and> i \<le> 200005 \<and> ps_tot S \<le> 2 * n + 36 * (i - 1) \<and>
     (\<forall>k < i. version n S (ps_rt S k) (hist ! k)))"

text \<open>A new version is stored; the older ones are those of before.\<close>

lemma pd_inv_push:
  assumes "pd_inv n (i, S) hist" and "i \<le> 200004" and "grows S S'" and "ps_tot S' \<le> ps_tot S + 36" and "version n S' p lab"
  shows "\<exists>S''. rt_set i p S' = Some S'' \<and> pd_inv n (i + 1, S'') (hist @ [lab]) \<and> ps_t S'' = ps_t S' \<and> ps_tot S'' = ps_tot S' \<and> ps_rt S'' i = p"
proof -
  let ?S = "S'\<lparr>ps_rt := (ps_rt S')(i := p)\<rparr>"
  have i: "i = length hist" "1 \<le> i" and n: "1 \<le> n"
    using assms(1) by (auto simp: pd_inv_def Suc_le_eq)
  have old: "version n S' (ps_rt S k) (hist ! k)" if "k < i" for k
    using version_grows [OF _ assms(3) n] assms(1) that by (auto simp: pd_inv_def)
  have "version n ?S (ps_rt ?S k) ((hist @ [lab]) ! k)" if "k < i + 1" for k
  proof (cases "k = i")
    case True
    then show ?thesis
      using assms(5) i(1) by (simp add: version_def)
  next
    case False
    then have "k < i" "ps_rt S' = ps_rt S"
      using that assms(3) by (auto simp: grows_def)
    then show ?thesis
      using old [of k] i(1) by (simp add: version_def nth_append)
  qed
  moreover have "ps_tot S' \<le> 2 * n + 36 * i"
    using assms(1,4) i(2) by (auto simp: pd_inv_def)
  ultimately have "pd_inv n (i + 1, ?S) (hist @ [lab])"
    using assms(1,2) by (auto simp: pd_inv_def)
  then show ?thesis
    using assms(2) by (auto simp: rt_set_def)
qed

lemma pd_pool:
  assumes "pd_inv n (i, S) hist" and "i \<le> 200004"
  shows "ps_tot S + 36 < POOL"
proof -
  have "ps_tot S \<le> 2 * 2 ^ 17 + 36 * 200004"
    using assms by (auto simp: pd_inv_def)
  then show ?thesis
    by (simp add: POOL_def)
qed

text \<open>Two roots of a version become one.\<close>

lemma pd_link:
  assumes "holds_at (ps_t S) {..ps_tot S} p 1 n V R" and "ps_tot S + 36 < POOL" and "1 \<le> n" and "n \<le> 2 ^ 17"
    and "1 \<le> x" and "x \<le> n" and "1 \<le> y" and "y \<le> n"
  shows "\<exists>tmp S1 q S2. ps_modify p 1 n x y S = Some (tmp, S1) \<and> getRnk S1 p 1 n x = Some (R x) \<and>
    modifyRnk tmp 1 n y (R x + 1) S1 = Some (q, S2) \<and> grows S S2 \<and> ps_tot S2 \<le> ps_tot S + 36 \<and>
    holds_at (ps_t S2) {..ps_tot S2} q 1 n (V(x := y)) (R(y := max (R y) (R x + 1)))"
proof -
  have size: "n + 1 - 1 \<le> 2 ^ 17"
    using assms(4) by simp
  obtain tmp S1 where S1: "ps_modify p 1 n x y S = Some (tmp, S1)" "grows S S1" "ps_tot S1 \<le> ps_tot S + 18"
      "holds_at (ps_t S1) ({..ps_tot S} \<union> {ps_tot S<..ps_tot S1}) tmp 1 n (V(x := y)) (R(x := R x))"
    using ps_copy_ok [OF assms(3,1) _ assms(5,6) size, of "\<lambda>z. z\<lparr>pn_val := y\<rparr>" "\<lambda>_. y" "\<lambda>r. r"] assms(2) by (auto simp: ps_modify_def)
  have all1: "{..ps_tot S} \<union> {ps_tot S<..ps_tot S1} = {..ps_tot S1}"
    using S1(2) by (auto simp: grows_def)
  have v1: "holds_at (ps_t S1) {..ps_tot S1} tmp 1 n (V(x := y)) R"
    using S1(4) unfolding all1 by simp
  have old: "holds_at (ps_t S1) {..ps_tot S1} p 1 n V R"
    by (rule holds_at_frame [OF assms(3,1)]) (use S1(2) in \<open>auto simp: grows_def\<close>)
  have rank: "getRnk S1 p 1 n x = Some (R x)"
    using fields_ok(2) [OF old _ assms(5,6)] S1(3) assms(2) by simp
  obtain q S2 where S2: "modifyRnk tmp 1 n y (R x + 1) S1 = Some (q, S2)" "grows S1 S2" "ps_tot S2 \<le> ps_tot S1 + 18"
      "holds_at (ps_t S2) ({..ps_tot S1} \<union> {ps_tot S1<..ps_tot S2}) q 1 n ((V(x := y))(y := (V(x := y)) y)) (R(y := max (R y) (R x + 1)))"
    using ps_copy_ok [OF assms(3) v1 _ assms(7,8) size, of "\<lambda>z. z\<lparr>pn_rnk := max (pn_rnk z) (R x + 1)\<rparr>" "\<lambda>v. v" "\<lambda>r. max r (R x + 1)"]
      S1(3) assms(2) by (auto simp: modifyRnk_def)
  have all2: "{..ps_tot S1} \<union> {ps_tot S1<..ps_tot S2} = {..ps_tot S2}"
    using S2(2) by (auto simp: grows_def)
  show ?thesis
    using S1(1,3) rank S2(1-3) grows_trans [OF S1(2) S2(2)] S2(4) [unfolded all2 fun_upd_triv]
    by (intro exI conjI) auto
qed

lemma pd_unite_ok:
  assumes "pd_inv n (i, S) hist" and "pd_ok n hist (PUnite a b)"
  shows "\<exists>s'. pd_step n (i, S) (PUnite a b) = Some (s', []) \<and> pd_inv n s' (fst (pd_ref hist (PUnite a b)))"
proof -
  let ?lab = "last hist" and ?P = "\<lambda>x. 1 \<le> x \<and> x \<le> n"
  let ?new = "map (\<lambda>l. if l = ?lab ! b then ?lab ! a else l) ?lab"
  have i: "i = length hist" "hist \<noteq> []" "1 \<le> n" "n \<le> 2 ^ 17" "i \<le> 200004" and ab: "?P a" "?P b"
    using assms by (auto simp: pd_inv_def)
  note pool = pd_pool [OF assms(1) i(5)]
  define p where "p = ps_rt S (i - 1)"
  have last: "?lab = hist ! (i - 1)"
    using i(1,2) by (simp add: last_conv_nth)
  have now: "version n S p ?lab"
    using assms(1) i(1,2) by (auto simp: pd_inv_def last p_def)
  then obtain V R rt dep where v: "holds_at (ps_t S) {..ps_tot S} p 1 n V R" "rooted ?P rt dep (map V [0..<n + 1])" "length ?lab = n + 1"
      and same: "\<And>x y. ?P x \<Longrightarrow> ?P y \<Longrightarrow> rt x = rt y \<longleftrightarrow> ?lab ! x = ?lab ! y"
    unfolding version_def by blast
  have roots: "findRoot n S p a = Some (rt a)" "findRoot n S p b = Some (rt b)"
    using findRoot_ok [OF v(1) _ v(2)] pool ab by simp_all
  have get: "rt_get S (i - 1) = Some p"
    using i(5) by (simp add: rt_get_def p_def)
  show ?thesis
  proof (cases "rt a = rt b")
    case True
    then have "?new = ?lab"
      using same [OF ab] by (simp add: map_idI)
    moreover obtain S' where "rt_set i p S = Some S'" "pd_inv n (i + 1, S') (hist @ [?lab])"
      using pd_inv_push [OF assms(1) i(5) _ _ now] by (auto simp: grows_def)
    ultimately show ?thesis
      using get roots True by simp
  next
    case False
    have ra: "?P (rt a)" "?P (rt b)" "V (rt a) = rt a" "V (rt b) = rt b"
      using rooted_root [OF v(2)] ab nth_parents [of "rt a" n V] nth_parents [of "rt b" n V] by auto
    have ranks: "getRnk S p 1 n (rt a) = Some (R (rt a))" "getRnk S p 1 n (rt b) = Some (R (rt b))"
      using fields_ok(2) [OF v(1)] pool ra(1,2) by simp_all
    define x y where "x = (if R (rt a) > R (rt b) then rt b else rt a)" and "y = (if R (rt a) > R (rt b) then rt a else rt b)"
    have xy: "(if R (rt a) > R (rt b) then (rt b, rt a) else (rt a, rt b)) = (x, y)" "{rt a, rt b} = {y, x}" "?P x" "?P y" "V x = x" "V y = y" "x \<noteq> y"
      using ra False by (auto simp: x_def y_def)
    obtain tmp S1 q S2 where S2: "ps_modify p 1 n x y S = Some (tmp, S1)" "getRnk S1 p 1 n x = Some (R x)"
        "modifyRnk tmp 1 n y (R x + 1) S1 = Some (q, S2)" "grows S S2" "ps_tot S2 \<le> ps_tot S + 36"
        "holds_at (ps_t S2) {..ps_tot S2} q 1 n (V(x := y)) (R(y := max (R y) (R x + 1)))"
      using pd_link [OF v(1) pool i(3,4)] xy(3,4) by blast
    let ?rt = "\<lambda>z. if rt z = x then y else rt z" and ?dep = "\<lambda>z. if rt z = x then Suc (dep z + dep y) else dep z"
    have "(map V [0..<n + 1])[x := y] = map (V(x := y)) [0..<n + 1]"
      using xy(3) by (auto simp: list_eq_iff_nth_eq nth_list_update simp del: upt_Suc)
    then have r: "rooted ?P ?rt ?dep (map (V(x := y)) [0..<n + 1])"
      using rooted_link [OF v(2) xy(4,3)] xy(3-7) nth_parents [of x n V] nth_parents [of y n V] by (simp del: upt_Suc)
    have c: "?rt u = ?rt v \<longleftrightarrow> ?new ! u = ?new ! v" if "?P u" "?P v" for u v
      using same_class_link [of ?P rt "nth ?lab" a b y x u v, OF same ab xy(2) that] that v(3) by simp
    have "version n S2 q ?new"
      by (rule versionI [OF S2(6) r _ c]) (use v(3) in simp_all)
    then obtain S3 where "rt_set i q S2 = Some S3" "pd_inv n (i + 1, S3) (hist @ [?new])"
      using pd_inv_push [OF assms(1) i(5) S2(4,5)] by blast
    then show ?thesis
      using get roots False ranks xy(1) S2(1-3) by simp
  qed
qed

interpretation pd: query_program "pd_step n" pd_ref "pd_ok n" "pd_inv n" for n
proof
  fix s hist op
  assume inv: "pd_inv n s hist" and ok: "pd_ok n hist op"
  obtain i S where s: "s = (i, S)"
    by (cases s)
  have i: "i = length hist" "hist \<noteq> []" "1 \<le> n" "i \<le> 200004"
    using inv ok s by (cases op; auto simp: pd_inv_def)+
  have versions: "version n S (ps_rt S k) (hist ! k)" if "k < i" for k
    using inv s that by (auto simp: pd_inv_def)
  have push: "\<exists>S'. rt_set i (ps_rt S k) S = Some S' \<and> pd_inv n (i + 1, S') (hist @ [hist ! k]) \<and>
      ps_t S' = ps_t S \<and> ps_tot S' = ps_tot S \<and> ps_rt S' i = ps_rt S k" if "k < i" for k
    using pd_inv_push [OF inv [unfolded s] i(4) _ _ versions [OF that]] by (auto simp: grows_def)
  show "\<exists>s'. pd_step n s op = Some (s', snd (pd_ref hist op)) \<and> pd_inv n s' (fst (pd_ref hist op))"
  proof (cases op)
    case (PUnite a b)
    then show ?thesis
      using pd_unite_ok [OF inv [unfolded s]] ok s by simp
  next
    case (PBack a)
    then show ?thesis
      using push [of a] ok s i by (auto simp: rt_get_def)
  next
    case (PAsk a b)
    have last: "last hist = hist ! (i - 1)"
      using i(1,2) by (simp add: last_conv_nth)
    obtain S' where S': "rt_set i (ps_rt S (i - 1)) S = Some S'" "pd_inv n (i + 1, S') (hist @ [last hist])"
        "ps_t S' = ps_t S" "ps_tot S' = ps_tot S" "ps_rt S' i = ps_rt S (i - 1)"
      using push [of "i - 1"] i(1,2) last by auto
    let ?P = "\<lambda>x. 1 \<le> x \<and> x \<le> n" and ?p = "ps_rt S (i - 1)"
    have "i - 1 < i"
      using i(1,2) by simp
    then have "version n S ?p (last hist)"
      using versions last by simp
    then obtain V R rt dep where v: "holds_at (ps_t S) {..ps_tot S} ?p 1 n V R" "rooted ?P rt dep (map V [0..<n + 1])"
        "length (last hist) = n + 1" and same: "\<And>x y. ?P x \<Longrightarrow> ?P y \<Longrightarrow> rt x = rt y \<longleftrightarrow> last hist ! x = last hist ! y"
      unfolding version_def by blast
    have "findRoot n S' ?p x = Some (rt x)" if "?P x" for x
      using findRoot_ok [of S' ?p n V R] v(1,2) pd_pool [OF inv [unfolded s] i(4)] S'(3,4) that by simp
    then show ?thesis
      using PAsk ok s S'(1,2,5) same [of a b] i(4) by (simp add: rt_get_def)
  qed
qed

text \<open>
  C13. For at most 131072 numbers and 200004 operations on them, the program \<^verbatim>\<open>persistent-seg_1.cpp\<close> ends without running out of the
  nodes of its pool or leaving its arrays, and answers every question by the partition of the version that is current then; going back to
  any earlier version finds it as it was.
\<close>

theorem persistent_dsu_correct:
  assumes "1 \<le> n" and "n \<le> 2 ^ 17" and "all_ok (pd_ok n) pd_ref [[0..<n + 1]] ops"
  shows "\<exists>s. pd_main n ops = Some (s, ref_loop pd_ref [[0..<n + 1]] ops)"
proof -
  let ?S = "\<lparr>ps_t = (\<lambda>_. \<lparr>pn_lc = 0, pn_rc = 0, pn_val = 0, pn_rnk = 0\<rparr>), ps_tot = 0, ps_rt = (\<lambda>_. 0)\<rparr>"
  have "ps_tot ?S + 2 * (n - 1) + 1 < POOL"
    using assms(2) by (simp add: POOL_def)
  then obtain p S where b: "ps_build 1 n ?S = Some (p, S)" "ps_tot S = 2 * (n - 1) + 1"
      "holds_at (ps_t S) {0<..ps_tot S} p 1 n (\<lambda>x. x) (\<lambda>_. 1)"
    using ps_build_ok [OF assms(1), of ?S] by auto
  let ?S1 = "S\<lparr>ps_rt := (ps_rt S)(0 := p)\<rparr>"
  have "holds_at (ps_t S) {..ps_tot S} p 1 n (\<lambda>x. x) (\<lambda>_. 1)"
    by (rule holds_at_frame [OF assms(1) b(3)]) auto
  moreover have "rooted (\<lambda>x. 1 \<le> x \<and> x \<le> n) (\<lambda>x. x) (\<lambda>_. 0) (map (\<lambda>x. x) [0..<n + 1])"
    by (rule rootedI) (auto simp del: upt_Suc)
  ultimately have "version n ?S1 p [0..<n + 1]"
    unfolding version_def by (intro exI conjI) (auto simp del: upt_Suc)
  then have "pd_inv n (1, ?S1) [[0..<n + 1]]"
    using assms(1,2) b(2) by (auto simp: pd_inv_def simp del: upt_Suc)
  then have "\<exists>s. query_loop (pd_step n) (1, ?S1) ops = Some (s, ref_loop pd_ref [[0..<n + 1]] ops)"
    by (rule pd.loop_ok) (rule assms(3))
  then show ?thesis
    using b(1) by (simp add: pd_main_def rt_set_def del: upt_Suc)
qed

theorem persistent_dsu_correct_witness:
  "\<exists>s. pd_main 4 [PUnite 1 2, PUnite 3 2, PAsk 1 3, PBack 1, PAsk 1 3, PAsk 1 2, PBack 0, PAsk 2 1] = Some (s, [1, 0, 1, 0])"
proof -
  let ?ops = "[PUnite 1 2, PUnite 3 2, PAsk 1 3, PBack 1, PAsk 1 3, PAsk 1 2, PBack 0, PAsk 2 1]"
  have "all_ok (pd_ok 4) pd_ref [[0..<4 + 1]] ?ops" "ref_loop pd_ref [[0..<4 + 1]] ?ops = [1, 0, 1, 0]"
    by (simp_all add: upt_rec)
  then show ?thesis
    using persistent_dsu_correct [of 4 ?ops] by (simp del: all_ok.simps ref_loop.simps upt_Suc)
qed

end
