(* ===== verification/PersistentTrie.thy ===== *)
theory PersistentTrie
  imports QueryLoop
begin

text \<open>
  The program \<^verbatim>\<open>persistent-trie/persistent-trie_1.cpp\<close>: numbers are appended to a sequence, and for a range of positions and a number the greatest
  exclusive or of a suffix that starts there is asked. Version \<open>i\<close> of a binary trie holds the first \<open>i\<close> prefix results;
  the difference of two versions is what lies between them. Shown: the answers are those of the
  definition, and the pool of nodes suffices.
\<close>

unbundle bit_operations_syntax

section \<open>The program\<close>

definition pt_maxn :: nat where
  "pt_maxn = 600010"

record tnode =
  tn_ch0 :: nat
  tn_ch1 :: nat
  tn_val :: int

record ptrie =
  pt_t :: "nat \<Rightarrow> tnode"
  pt_cnt :: nat
  pt_rt :: "nat \<Rightarrow> nat"

text \<open>The arrays \<open>ch\<close> and \<open>val\<close> have \<open>maxn * 33\<close> elements.\<close>

definition pt_get :: "nat \<Rightarrow> ptrie \<Rightarrow> tnode option" where
  "pt_get p S = (if p < pt_maxn * 33 then Some (pt_t S p) else None)"

definition pt_put :: "nat \<Rightarrow> (tnode \<Rightarrow> tnode) \<Rightarrow> ptrie \<Rightarrow> ptrie option" where
  "pt_put p g S = (if p < pt_maxn * 33 then Some (S\<lparr>pt_t := (pt_t S)(p := g (pt_t S p))\<rparr>) else None)"

text \<open>The loop of \<open>insert\<close> for the bits \<open>i, \<dots>, 0\<close>, and what follows it.\<close>

fun pt_insert :: "nat \<Rightarrow> nat \<Rightarrow> nat \<Rightarrow> nat \<Rightarrow> ptrie \<Rightarrow> ptrie option" where
  "pt_insert 0 p lst v S = do {
     y \<leftarrow> pt_get lst S;
     pt_put p (\<lambda>x. x\<lparr>tn_val := tn_val y + 1\<rparr>) S
   }"
| "pt_insert (Suc i) p lst v S = do {
     y \<leftarrow> pt_get lst S;
     S \<leftarrow> pt_put p (\<lambda>x. x\<lparr>tn_val := tn_val y + 1\<rparr>) S;
     x \<leftarrow> pt_get p S;
     if \<not> bit v i then do {
       S \<leftarrow> (if tn_ch0 x = 0 then pt_put p (\<lambda>x. x\<lparr>tn_ch0 := pt_cnt S + 1\<rparr>) (S\<lparr>pt_cnt := pt_cnt S + 1\<rparr>) else Some S);
       y \<leftarrow> pt_get lst S;
       S \<leftarrow> pt_put p (\<lambda>x. x\<lparr>tn_ch1 := tn_ch1 y\<rparr>) S;
       x \<leftarrow> pt_get p S;
       y \<leftarrow> pt_get lst S;
       pt_insert i (tn_ch0 x) (tn_ch0 y) v S
     }
     else do {
       S \<leftarrow> (if tn_ch1 x = 0 then pt_put p (\<lambda>x. x\<lparr>tn_ch1 := pt_cnt S + 1\<rparr>) (S\<lparr>pt_cnt := pt_cnt S + 1\<rparr>) else Some S);
       y \<leftarrow> pt_get lst S;
       S \<leftarrow> pt_put p (\<lambda>x. x\<lparr>tn_ch0 := tn_ch0 y\<rparr>) S;
       x \<leftarrow> pt_get p S;
       y \<leftarrow> pt_get lst S;
       pt_insert i (tn_ch1 x) (tn_ch1 y) v S
     }
   }"

text \<open>\<open>ch[o][t]\<close> for a bit \<open>t\<close>\<close>

definition tn_ch :: "tnode \<Rightarrow> bool \<Rightarrow> nat" where
  "tn_ch x b = (if b then tn_ch1 x else tn_ch0 x)"

fun pt_query_loop :: "nat \<Rightarrow> nat \<Rightarrow> nat \<Rightarrow> nat \<Rightarrow> nat \<Rightarrow> ptrie \<Rightarrow> nat option" where
  "pt_query_loop 0 o1 o2 v ret S = Some ret"
| "pt_query_loop (Suc i) o1 o2 v ret S = do {
     let t = bit v i;
     x1 \<leftarrow> pt_get o1 S;
     x2 \<leftarrow> pt_get o2 S;
     y1 \<leftarrow> pt_get (tn_ch x1 (\<not> t)) S;
     y2 \<leftarrow> pt_get (tn_ch x2 (\<not> t)) S;
     if tn_val y1 - tn_val y2 \<noteq> 0 then pt_query_loop i (tn_ch x1 (\<not> t)) (tn_ch x2 (\<not> t)) v (ret + 2 ^ i) S
     else pt_query_loop i (tn_ch x1 t) (tn_ch x2 t) v ret S
   }"

definition pt_query :: "nat \<Rightarrow> nat \<Rightarrow> nat \<Rightarrow> ptrie \<Rightarrow> nat option" where
  "pt_query o1 o2 v S = pt_query_loop 29 o1 o2 v 0 S"

text \<open>The state of \<open>main\<close>: \<open>n\<close>, the prefix results \<open>s\<close> and the trie; the array \<open>a\<close> is only a buffer for the input.\<close>

record xorseq =
  xs_n :: nat
  xs_s :: "nat \<Rightarrow> nat"
  xs_st :: ptrie

definition new_version :: "nat \<Rightarrow> nat \<Rightarrow> ptrie \<Rightarrow> ptrie option" where
  "new_version i v st = do {
     _ \<leftarrow> assert (i < pt_maxn);
     let st = st\<lparr>pt_cnt := pt_cnt st + 1\<rparr>;
     let st = st\<lparr>pt_rt := (pt_rt st)(i := pt_cnt st)\<rparr>;
     pt_insert 29 (pt_rt st i) (pt_rt st (i - 1)) v st
   }"

definition append_number :: "nat \<Rightarrow> xorseq \<Rightarrow> xorseq option" where
  "append_number v X = do {
     let n = xs_n X + 1;
     _ \<leftarrow> assert (n < pt_maxn);
     let X = X\<lparr>xs_n := n, xs_s := (xs_s X)(n := xs_s X (n - 1) XOR v)\<rparr>;
     st \<leftarrow> new_version n (xs_s X n) (xs_st X);
     Some (X\<lparr>xs_st := st\<rparr>)
   }"

datatype pt_op = AppendX nat | AskX nat nat nat

fun pt_step :: "xorseq \<Rightarrow> pt_op \<Rightarrow> (xorseq \<times> nat list) option" where
  "pt_step X (AppendX v) = map_option (\<lambda>X. (X, [])) (append_number v X)"
| "pt_step X (AskX l r x) = do {
     let l = l - 1;
     let r = r - 1;
     let st = xs_st X;
     _ \<leftarrow> assert (r < pt_maxn \<and> xs_n X < pt_maxn \<and> l < pt_maxn);
     if l = 0 then do {
       q \<leftarrow> pt_query (pt_rt st r) (pt_rt st 0) (xs_s X (xs_n X) XOR x) st;
       Some (X, [max (xs_s X (xs_n X) XOR x) q])
     }
     else do {
       q \<leftarrow> pt_query (pt_rt st r) (pt_rt st (l - 1)) (xs_s X (xs_n X) XOR x) st;
       Some (X, [q])
     }
   }"

text \<open>The loops that read the first numbers: all prefix results first, then all versions.\<close>

definition pt_read :: "nat list \<Rightarrow> nat \<Rightarrow> xorseq \<Rightarrow> xorseq option" where
  "pt_read a i X = do {
     _ \<leftarrow> assert (i < pt_maxn);
     Some (X\<lparr>xs_s := (xs_s X)(i := xs_s X (i - 1) XOR a ! (i - 1))\<rparr>)
   }"

definition pt_version :: "nat \<Rightarrow> xorseq \<Rightarrow> xorseq option" where
  "pt_version i X = do {
     st \<leftarrow> new_version i (xs_s X i) (xs_st X);
     Some (X\<lparr>xs_st := st\<rparr>)
   }"

definition pt_main :: "nat list \<Rightarrow> pt_op list \<Rightarrow> (xorseq \<times> nat list) option" where
  "pt_main a ops = do {
     let X = \<lparr>xs_n = length a, xs_s = (\<lambda>_. 0), xs_st = \<lparr>pt_t = (\<lambda>_. \<lparr>tn_ch0 = 0, tn_ch1 = 0, tn_val = 0\<rparr>), pt_cnt = 0, pt_rt = (\<lambda>_. 0)\<rparr>\<rparr>;
     X \<leftarrow> for_each (pt_read a) [1..<length a + 1] X;
     X \<leftarrow> for_each pt_version [1..<length a + 1] X;
     query_loop pt_step X ops
   }"

section \<open>Tries in the pool\<close>

text \<open>The node \<open>p\<close> at height \<open>k\<close> holds the list \<open>M\<close>, of whose numbers the lower \<open>k\<close> bits matter; all nodes are below \<open>c\<close>.\<close>

fun trie_rep :: "(nat \<Rightarrow> tnode) \<Rightarrow> nat \<Rightarrow> nat \<Rightarrow> nat \<Rightarrow> nat list \<Rightarrow> bool" where
  "trie_rep t c 0 p M = (p < c \<and> tn_val (t p) = int (length M))"
| "trie_rep t c (Suc i) p M = (p < c \<and> tn_val (t p) = int (length M) \<and>
     trie_rep t c i (tn_ch0 (t p)) (filter (\<lambda>m. \<not> bit m i) M) \<and> trie_rep t c i (tn_ch1 (t p)) (filter (\<lambda>m. bit m i) M))"

lemma trie_repD: "trie_rep t c k p M \<Longrightarrow> p < c \<and> tn_val (t p) = int (length M)"
  by (cases k) auto

lemma trie_rep_frame: "trie_rep t c k p M \<Longrightarrow> (\<And>q. q < c \<Longrightarrow> t' q = t q) \<Longrightarrow> c \<le> c' \<Longrightarrow> trie_rep t' c' k p M"
  by (induction t c k p M rule: trie_rep.induct) auto

lemma trie_rep_null: "t 0 = \<lparr>tn_ch0 = 0, tn_ch1 = 0, tn_val = 0\<rparr> \<Longrightarrow> 0 < c \<Longrightarrow> trie_rep t c k 0 []"
  by (induction k) auto

abbreviation blank :: tnode where
  "blank \<equiv> \<lparr>tn_ch0 = 0, tn_ch1 = 0, tn_val = 0\<rparr>"

lemma pt_insert_ok:
  assumes "trie_rep (pt_t S) p k lst M" and "pt_cnt S = p" and "\<And>q. p \<le> q \<Longrightarrow> pt_t S q = blank" and "p + k < pt_maxn * 33"
  shows "\<exists>S'. pt_insert k p lst v S = Some S' \<and> pt_cnt S' = p + k \<and> pt_rt S' = pt_rt S \<and> (\<forall>q < p. pt_t S' q = pt_t S q) \<and>
    (\<forall>q > p + k. pt_t S' q = blank) \<and> trie_rep (pt_t S') (p + k + 1) k p (M @ [v])"
  using assms
proof (induction k arbitrary: p lst S M)
  case 0
  have "lst < p" "tn_val (pt_t S lst) = int (length M)"
    using trie_repD [OF "0.prems"(1)] by auto
  then show ?case
    using "0.prems" by (auto simp: pt_get_def pt_put_def)
next
  case (Suc i)
  have lst: "lst < p" "tn_val (pt_t S lst) = int (length M)"
      "trie_rep (pt_t S) p i (tn_ch0 (pt_t S lst)) (filter (\<lambda>m. \<not> bit m i) M)" "trie_rep (pt_t S) p i (tn_ch1 (pt_t S lst)) (filter (\<lambda>m. bit m i) M)"
    using Suc.prems(1) by auto
  have blank: "pt_t S p = blank"
    using Suc.prems(3) by simp
  let ?x = "if bit v i then \<lparr>tn_ch0 = tn_ch0 (pt_t S lst), tn_ch1 = p + 1, tn_val = int (length M) + 1\<rparr>
    else \<lparr>tn_ch0 = p + 1, tn_ch1 = tn_ch1 (pt_t S lst), tn_val = int (length M) + 1\<rparr>"
  let ?F = "filter (\<lambda>m. bit m i = bit v i) M" and ?lst = "if bit v i then tn_ch1 (pt_t S lst) else tn_ch0 (pt_t S lst)"
  define S1 where "S1 = S\<lparr>pt_cnt := p + 1, pt_t := (pt_t S)(p := ?x)\<rparr>"
  have S1: "pt_cnt S1 = p + 1" "pt_rt S1 = pt_rt S" "pt_t S1 p = ?x" "\<And>q. q < p \<Longrightarrow> pt_t S1 q = pt_t S q" "\<And>q. p + 1 \<le> q \<Longrightarrow> pt_t S1 q = blank"
    using Suc.prems(3) by (simp_all add: S1_def)
  have eq: "pt_insert (Suc i) p lst v S = pt_insert i (p + 1) ?lst v S1"
    using lst(1,2) Suc.prems(2,4) blank by (auto simp: pt_get_def pt_put_def S1_def)
  have "trie_rep (pt_t S) p i ?lst ?F"
    using lst(3,4) by (simp split: if_splits)
  then have rep: "trie_rep (pt_t S1) (p + 1) i ?lst ?F"
    by (rule trie_rep_frame) (simp_all add: S1(4))
  have "p + 1 + i < pt_maxn * 33"
    using Suc.prems(4) by simp
  then obtain S' where S': "pt_insert i (p + 1) ?lst v S1 = Some S'" "pt_cnt S' = p + 1 + i" "pt_rt S' = pt_rt S1" "\<forall>q < p + 1. pt_t S' q = pt_t S1 q"
      "\<forall>q > p + 1 + i. pt_t S' q = blank" "trie_rep (pt_t S') (p + 1 + i + 1) i (p + 1) (?F @ [v])"
    using Suc.IH [OF rep S1(1,5)] by blast
  have keep: "trie_rep (pt_t S') (p + 1 + i + 1) i (tn_ch0 (pt_t S lst)) (filter (\<lambda>m. \<not> bit m i) M)"
      "trie_rep (pt_t S') (p + 1 + i + 1) i (tn_ch1 (pt_t S lst)) (filter (\<lambda>m. bit m i) M)"
    using trie_rep_frame [OF lst(3), of "pt_t S'" "p + 1 + i + 1"] trie_rep_frame [OF lst(4), of "pt_t S'" "p + 1 + i + 1"] S'(4) S1(4) by auto
  have "pt_t S' p = ?x"
    using S'(4) S1(3) by simp
  then have "trie_rep (pt_t S') (p + Suc i + 1) (Suc i) p (M @ [v])"
    using S'(6) keep by (cases "bit v i") auto
  then show ?case
    using eq S'(1-5) S1(2,4) by auto
qed

section \<open>The best partner of a number\<close>

text \<open>The greatest exclusive or with \<open>v\<close>, of the lower \<open>k\<close> bits; 0 for no number at all.\<close>

definition best_xor :: "nat \<Rightarrow> nat \<Rightarrow> nat list \<Rightarrow> nat" where
  "best_xor k v D = Max (insert 0 ((\<lambda>d. take_bit k (d XOR v)) ` set D))"

lemma take_bit_Suc_top: "take_bit (Suc i) n = (if bit n i then 2 ^ i else 0) + take_bit i n" for n :: nat
  by (simp add: take_bit_Suc_from_most of_bool_def)

lemma take_bit_xor_top: "take_bit (Suc i) (d XOR v) = (if bit d i \<noteq> bit v i then 2 ^ i else 0) + take_bit i (d XOR v)" for d v :: nat
  by (subst take_bit_Suc_top) (simp add: bit_xor_iff del: take_bit_xor)

lemma Max_insert_0: "finite A \<Longrightarrow> A \<noteq> {} \<Longrightarrow> Max (insert 0 A) \<in> A" for A :: "nat set"
  using Max_in [of A] by simp

lemma best_xor_Nil: "best_xor k v [] = 0"
  by (simp add: best_xor_def)

text \<open>One level: numbers whose bit differs from that of \<open>v\<close> are better than all others.\<close>

lemma best_xor_differ:
  assumes "filter (\<lambda>m. bit m i \<noteq> bit v i) D \<noteq> []"
  shows "best_xor (Suc i) v D = 2 ^ i + best_xor i v (filter (\<lambda>m. bit m i \<noteq> bit v i) D)"
proof -
  let ?D = "filter (\<lambda>m. bit m i \<noteq> bit v i) D"
  note val = take_bit_xor_top [of i _ v]
  have fin: "finite (insert 0 ((\<lambda>d. take_bit i (d XOR v)) ` set ?D))" "finite (insert 0 ((\<lambda>d. take_bit (Suc i) (d XOR v)) ` set D))"
    by simp_all
  have "best_xor i v ?D \<in> (\<lambda>d. take_bit i (d XOR v)) ` set ?D"
    unfolding best_xor_def using assms by (intro Max_insert_0) (auto simp: filter_empty_conv)
  then obtain e where e: "e \<in> set D" "bit e i \<noteq> bit v i" "best_xor i v ?D = take_bit i (e XOR v)"
    by auto
  have "take_bit (Suc i) (m XOR v) \<le> 2 ^ i + best_xor i v ?D" if "m \<in> set D" for m
  proof (cases "bit m i \<noteq> bit v i")
    case True
    then have "take_bit i (m XOR v) \<le> best_xor i v ?D"
      using that Max_ge [OF fin(1), of "take_bit i (m XOR v)"] unfolding best_xor_def by auto
    then show ?thesis
      using True by (simp add: val del: take_bit_xor)
  next
    case False
    then show ?thesis
      using take_bit_nat_less_exp [of i "m XOR v"] by (simp add: val trans_le_add1 order_less_imp_le del: take_bit_xor)
  qed
  moreover have "2 ^ i + best_xor i v ?D = take_bit (Suc i) (e XOR v)"
    using e by (simp add: val del: take_bit_xor)
  ultimately show ?thesis
    unfolding best_xor_def [of "Suc i"] using e(1) by (intro Max_eqI) auto
qed

lemma best_xor_same:
  assumes "filter (\<lambda>m. bit m i \<noteq> bit v i) D = []"
  shows "best_xor (Suc i) v D = best_xor i v (filter (\<lambda>m. bit m i = bit v i) D)"
proof -
  have "\<forall>m \<in> set D. bit m i = bit v i"
    using assms by (simp add: filter_empty_conv)
  then have "(\<lambda>d. take_bit (Suc i) (d XOR v)) ` set D = (\<lambda>d. take_bit i (d XOR v)) ` set D" "filter (\<lambda>m. bit m i = bit v i) D = D"
    by (auto simp: take_bit_xor_top filter_id_conv simp del: take_bit_xor intro!: image_cong)
  then show ?thesis
    by (simp add: best_xor_def)
qed

lemma trie_rep_ch: "trie_rep t c (Suc i) p M \<Longrightarrow> trie_rep t c i (tn_ch (t p) b) (filter (\<lambda>m. bit m i = b) M)"
  by (cases b) (auto simp: tn_ch_def)

lemma pt_query_loop_ok:
  assumes "trie_rep (pt_t S) c k o1 (M @ D)" and "trie_rep (pt_t S) c k o2 M" and "c \<le> pt_maxn * 33"
  shows "pt_query_loop k o1 o2 v ret S = Some (ret + best_xor k v D)"
  using assms(1,2)
proof (induction k arbitrary: o1 o2 M D ret)
  case 0
  then show ?case
    by (simp add: best_xor_def image_constant_conv)
next
  case (Suc i)
  let ?t = "bit v i" and ?F = "\<lambda>b. filter (\<lambda>m. bit m i = b)"
  note c1 = trie_rep_ch [OF Suc.prems(1)] and c2 = trie_rep_ch [OF Suc.prems(2)]
  have get: "pt_get o1 S = Some (pt_t S o1)" "pt_get o2 S = Some (pt_t S o2)" "pt_get (tn_ch (pt_t S o1) b) S = Some (pt_t S (tn_ch (pt_t S o1) b))"
      "pt_get (tn_ch (pt_t S o2) b) S = Some (pt_t S (tn_ch (pt_t S o2) b))" for b
    using Suc.prems trie_repD [OF c1, of b] trie_repD [OF c2, of b] assms(3) by (auto simp: pt_get_def)
  have diff: "tn_val (pt_t S (tn_ch (pt_t S o1) (\<not> ?t))) - tn_val (pt_t S (tn_ch (pt_t S o2) (\<not> ?t))) = int (length (?F (\<not> ?t) D))"
    using trie_repD [OF c1, of "\<not> ?t"] trie_repD [OF c2, of "\<not> ?t"] by simp
  have F: "?F (\<not> ?t) D = filter (\<lambda>m. bit m i \<noteq> ?t) D"
    by (rule filter_cong) auto
  have IH: "pt_query_loop i (tn_ch (pt_t S o1) b) (tn_ch (pt_t S o2) b) v r S = Some (r + best_xor i v (?F b D))" for b r
    using Suc.IH [of "tn_ch (pt_t S o1) b" "?F b M" "?F b D" "tn_ch (pt_t S o2) b" r] c1 [of b] c2 [of b] by simp
  show ?case
  proof (cases "filter (\<lambda>m. bit m i \<noteq> ?t) D = []")
    case True
    then show ?thesis
      using get diff IH [of ?t ret] best_xor_same [OF True] unfolding F by (simp add: Let_def)
  next
    case False
    have "tn_val (pt_t S (tn_ch (pt_t S o1) (\<not> ?t))) - tn_val (pt_t S (tn_ch (pt_t S o2) (\<not> ?t))) \<noteq> 0"
      unfolding diff F using False by simp
    then show ?thesis
      using get IH [of "\<not> ?t" "ret + 2 ^ i"] best_xor_differ [OF False] unfolding F by (simp add: Let_def)
  qed
qed

section \<open>The whole program\<close>

text \<open>The reference: the sequence itself.\<close>

definition xor_list :: "nat list \<Rightarrow> nat" where
  "xor_list xs = foldr (\<lambda>x y. x XOR y) xs 0"

fun pt_ref :: "nat list \<Rightarrow> pt_op \<Rightarrow> nat list \<times> nat list" where
  "pt_ref xs (AppendX v) = (xs @ [v], [])"
| "pt_ref xs (AskX l r x) = (xs, [Max ((\<lambda>p. xor_list (drop (p - 1) xs) XOR x) ` {l..r})])"

fun pt_ok :: "nat list \<Rightarrow> pt_op \<Rightarrow> bool" where
  "pt_ok xs (AppendX v) = (v < 2 ^ 29 \<and> length xs + 1 < pt_maxn)"
| "pt_ok xs (AskX l r x) = (1 \<le> l \<and> l \<le> r \<and> r \<le> length xs \<and> x < 2 ^ 29)"

lemma xor_list_Cons [simp]: "xor_list (x # xs) = x XOR xor_list xs"
  by (simp add: xor_list_def)

lemma xor_list_Nil [simp]: "xor_list [] = 0"
  by (simp add: xor_list_def)

lemma xor_list_append: "xor_list (xs @ ys) = xor_list xs XOR xor_list ys"
  by (induction xs) (simp_all add: xor.assoc)

lemma xor_less: "x < 2 ^ k \<Longrightarrow> y < 2 ^ k \<Longrightarrow> x XOR y < 2 ^ k" for x y :: nat
  by (metis take_bit_nat_eq_self take_bit_nat_less_exp take_bit_xor)

lemma xor_list_less: "\<forall>x \<in> set xs. x < 2 ^ k \<Longrightarrow> xor_list xs < 2 ^ k"
  by (induction xs) (auto intro: xor_less)

lemma xor_prefix_suffix: "xor_list (take i xs) XOR xor_list xs = xor_list (drop i xs)"
proof -
  have "xor_list xs = xor_list (take i xs) XOR xor_list (drop i xs)"
    by (metis append_take_drop_id xor_list_append)
  then show ?thesis
    by (simp add: xor.assoc [symmetric])
qed

definition prefixes :: "nat list \<Rightarrow> nat \<Rightarrow> nat list" where
  "prefixes xs i = map (\<lambda>j. xor_list (take j xs)) [1..<i + 1]"

lemma prefixes_step: "prefixes xs (n + 1) = prefixes xs n @ [xor_list (take (n + 1) xs)]"
  by (simp add: prefixes_def)

lemma prefixes_append: "i \<le> length xs \<Longrightarrow> prefixes (xs @ ys) i = prefixes xs i"
  unfolding prefixes_def by (intro map_cong) auto

text \<open>The versions up to \<open>n\<close> of the tries for the prefix results of \<open>xs\<close>.\<close>

definition versions :: "nat list \<Rightarrow> nat \<Rightarrow> ptrie \<Rightarrow> bool" where
  "versions xs n st = (pt_cnt st = 30 * n \<and> (\<forall>q > pt_cnt st. pt_t st q = blank) \<and> pt_t st 0 = blank \<and> pt_rt st 0 = 0 \<and>
     (\<forall>i \<le> n. trie_rep (pt_t st) (pt_cnt st + 1) 29 (pt_rt st i) (prefixes xs i)))"

lemma new_version_ok:
  assumes "versions xs n st" and "n + 1 < pt_maxn"
  shows "\<exists>st'. new_version (n + 1) (xor_list (take (n + 1) xs)) st = Some st' \<and> versions xs (n + 1) st'"
proof -
  note d = assms(1) [unfolded versions_def]
  let ?p = "pt_cnt st + 1" and ?v = "xor_list (take (n + 1) xs)" and ?M = "prefixes xs"
  define S where "S = st\<lparr>pt_cnt := ?p, pt_rt := (pt_rt st)(n + 1 := ?p)\<rparr>"
  have S: "pt_cnt S = ?p" "pt_t S = pt_t st" "pt_rt S n = pt_rt st n" "pt_rt S (n + 1) = ?p"
    by (simp_all add: S_def)
  have "trie_rep (pt_t S) ?p 29 (pt_rt st n) (?M n)"
    unfolding S(2) using d by blast
  moreover have "\<And>q. ?p \<le> q \<Longrightarrow> pt_t S q = blank"
    using d S(2) by simp
  moreover have "?p + 29 < pt_maxn * 33"
    using d assms(2) by (simp add: pt_maxn_def)
  ultimately obtain S' where S': "pt_insert 29 ?p (pt_rt st n) ?v S = Some S'" "pt_cnt S' = ?p + 29" "pt_rt S' = pt_rt S" "\<forall>q < ?p. pt_t S' q = pt_t S q"
      "\<forall>q > ?p + 29. pt_t S' q = blank" "trie_rep (pt_t S') (?p + 29 + 1) 29 ?p (?M n @ [?v])"
    using pt_insert_ok [of S ?p 29 "pt_rt st n" "?M n" ?v] S(1) by blast
  have old: "trie_rep (pt_t S') (pt_cnt S' + 1) 29 (pt_rt S' i) (?M i)" if "i \<le> n" for i
  proof -
    have "trie_rep (pt_t st) ?p 29 (pt_rt st i) (?M i)"
      using d that by blast
    then have "trie_rep (pt_t S') (pt_cnt S' + 1) 29 (pt_rt st i) (?M i)"
      by (rule trie_rep_frame) (use S'(2,4) S(2) in auto)
    then show ?thesis
      using S'(3) that by (simp add: S_def)
  qed
  have "?M (n + 1) = ?M n @ [?v]"
    by (rule prefixes_step)
  then have "trie_rep (pt_t S') (pt_cnt S' + 1) 29 (pt_rt S' (n + 1)) (?M (n + 1))"
    using S'(2,3,6) S(4) by (metis)
  then have "\<forall>i \<le> n + 1. trie_rep (pt_t S') (pt_cnt S' + 1) 29 (pt_rt S' i) (?M i)"
    using old by (metis le_Suc_eq Suc_eq_plus1)
  moreover have "pt_t S' 0 = blank" "pt_rt S' 0 = 0" "pt_cnt S' = 30 * (n + 1)"
    using S'(2-4) S(2) d by (simp_all add: S_def)
  ultimately have "versions xs (n + 1) S'"
    using S'(2,5) unfolding versions_def by simp
  moreover have "new_version (n + 1) ?v st = Some S'"
    using S'(1) assms(2) by (simp add: new_version_def S_def Let_def)
  ultimately show ?thesis
    by blast
qed

lemma versions_append:
  assumes "versions xs n st" and "n \<le> length xs"
  shows "versions (xs @ ys) n st"
  using assms prefixes_append [of _ xs ys] unfolding versions_def by auto

definition xs_stands :: "xorseq \<Rightarrow> nat list \<Rightarrow> bool" where
  "xs_stands X xs = (xs_n X = length xs \<and> length xs < pt_maxn \<and> (\<forall>x \<in> set xs. x < 2 ^ 29) \<and> (\<forall>i \<le> length xs. xs_s X i = xor_list (take i xs)) \<and>
     versions xs (length xs) (xs_st X))"

lemma append_number_ok:
  assumes "xs_stands X xs" and "v < 2 ^ 29" and "length xs + 1 < pt_maxn"
  shows "\<exists>X'. append_number v X = Some X' \<and> xs_stands X' (xs @ [v])"
proof -
  note d = assms(1) [unfolded xs_stands_def]
  let ?n = "length xs + 1" and ?xs = "xs @ [v]"
  have s: "xs_s X (length xs) XOR v = xor_list (take ?n ?xs)"
    using d by (simp add: xor_list_append)
  obtain st where st: "new_version ?n (xor_list (take ?n ?xs)) (xs_st X) = Some st" "versions ?xs ?n st"
    using new_version_ok [OF versions_append [of xs "length xs" "xs_st X" "[v]"]] d assms(3) by auto
  let ?X = "X\<lparr>xs_n := ?n, xs_s := (xs_s X)(?n := xor_list (take ?n ?xs)), xs_st := st\<rparr>"
  have "append_number v X = Some ?X"
    using d st(1) s assms(3) by (simp add: append_number_def Let_def)
  moreover have "xs_stands ?X ?xs"
    unfolding xs_stands_def using d st(2) assms(2,3) by (auto simp: le_Suc_eq)
  ultimately show ?thesis
    by blast
qed

lemma best_xor_full:
  assumes "\<forall>d \<in> set D. d < 2 ^ k" and "v < 2 ^ k"
  shows "best_xor k v D = Max (insert 0 ((\<lambda>d. d XOR v) ` set D))"
proof -
  have "take_bit k (d XOR v) = d XOR v" if "d \<in> set D" for d
    using assms that by (simp add: take_bit_nat_eq_self xor_less)
  then show ?thesis
    unfolding best_xor_def by (simp cong: image_cong)
qed

lemma upt_split: "i \<le> j \<Longrightarrow> j \<le> k \<Longrightarrow> [i..<k] = [i..<j] @ [j..<k]"
  using upt_add_eq_append [of i j "k - j"] by simp

lemma pt_ask_ok:
  assumes "xs_stands X xs" and "pt_ok xs (AskX l r x)"
  shows "pt_step X (AskX l r x) = Some (X, snd (pt_ref xs (AskX l r x)))"
proof -
  note d = assms(1) [unfolded xs_stands_def]
  let ?st = "xs_st X" and ?v = "xor_list xs XOR x" and ?lo = "if l = 1 then 0 else l - 2"
  have lr: "1 \<le> l" "l \<le> r" "r \<le> length xs" "x < 2 ^ 29"
    using assms(2) by auto
  define D where "D = map (\<lambda>j. xor_list (take j xs)) [?lo + 1..<r]"
  have small: "xor_list (take j xs) < 2 ^ 29" for j
    using d by (intro xor_list_less) (auto dest: in_set_takeD)
  have "prefixes xs (r - 1) = prefixes xs ?lo @ D"
  proof -
    have "?lo + 1 \<le> r" "r - 1 + 1 = r"
      using lr(1,2) by auto
    then have "[1..<r - 1 + 1] = [1..<?lo + 1] @ [?lo + 1..<r]"
      using upt_split [of 1 "?lo + 1" r] by (metis le_add2)
    then show ?thesis
      unfolding prefixes_def D_def by simp
  qed
  moreover have v: "versions xs (length xs) ?st" "?lo \<le> length xs" "r - 1 \<le> length xs"
    using d lr by auto
  ultimately have reps: "trie_rep (pt_t ?st) (pt_cnt ?st + 1) 29 (pt_rt ?st (r - 1)) (prefixes xs ?lo @ D)"
      "trie_rep (pt_t ?st) (pt_cnt ?st + 1) 29 (pt_rt ?st ?lo) (prefixes xs ?lo)"
    unfolding versions_def by metis+
  have "pt_cnt ?st + 1 \<le> pt_maxn * 33"
    using v(1) d by (simp add: versions_def pt_maxn_def)
  then have query: "pt_query (pt_rt ?st (r - 1)) (pt_rt ?st ?lo) ?v ?st = Some (best_xor 29 ?v D)"
    using pt_query_loop_ok [OF reps, of ?v 0] by (simp add: pt_query_def)
  have "?v < 2 ^ 29"
    using xor_less [OF small [of "length xs"] lr(4)] by simp
  then have best: "best_xor 29 ?v D = Max (insert 0 ((\<lambda>j. xor_list (drop j xs) XOR x) ` {?lo + 1..<r}))"
    using small best_xor_full [of D 29 ?v] by (auto simp: D_def image_image xor.assoc [symmetric] xor_prefix_suffix simp del: upt_Suc)
  have image: "(\<lambda>p. xor_list (drop (p - 1) xs) XOR x) ` {l..r} = (\<lambda>j. xor_list (drop j xs) XOR x) ` {l - 1..<r}"
  proof -
    have "(\<lambda>p. p - 1) ` {l..r} = {l - 1..<r}"
      using lr(1) by (auto simp: image_iff intro!: bexI [of _ "Suc _"])
    then show ?thesis
      by (metis (no_types, lifting) image_cong image_image)
  qed
  have ref: "snd (pt_ref xs (AskX l r x)) = [Max ((\<lambda>j. xor_list (drop j xs) XOR x) ` {l - 1..<r})]"
    by (simp only: pt_ref.simps snd_conv image)
  have s: "xs_s X (xs_n X) = xor_list xs" "r - 1 < pt_maxn" "xs_n X < pt_maxn" "l - 1 < pt_maxn"
    using d lr by auto
  show ?thesis
  proof (cases "l = 1")
    case True
    have "{l - 1..<r} = insert 0 {?lo + 1..<r}"
      using True lr(2) by auto
    then have "Max ((\<lambda>j. xor_list (drop j xs) XOR x) ` {l - 1..<r}) = max ?v (best_xor 29 ?v D)"
      unfolding best by (cases "{?lo + 1..<r} = {}") (simp_all add: max.left_commute [of 0] max.absorb2)
    then show ?thesis
      unfolding ref using query s True by (simp add: Let_def)
  next
    case False
    have "{?lo + 1..<r} = {l - 1..<r}" "{l - 1..<r} \<noteq> {}"
      using False lr by auto
    then have "best_xor 29 ?v D = Max ((\<lambda>j. xor_list (drop j xs) XOR x) ` {l - 1..<r})"
      unfolding best by (simp add: max.absorb2)
    then show ?thesis
      unfolding ref using query s False lr(1) by (simp add: Let_def numeral_2_eq_2)
  qed
qed

lemma pt_step_ok:
  assumes "xs_stands X xs" and "pt_ok xs op"
  shows "\<exists>X'. pt_step X op = Some (X', snd (pt_ref xs op)) \<and> xs_stands X' (fst (pt_ref xs op))"
proof (cases op)
  case (AppendX v)
  then show ?thesis
    using append_number_ok [OF assms(1), of v] assms(2) by auto
next
  case (AskX l r x)
  then show ?thesis
    using pt_ask_ok [OF assms(1)] assms by auto
qed

interpretation pt: query_program pt_step pt_ref pt_ok xs_stands
  by unfold_locales (rule pt_step_ok)

lemma pt_start:
  assumes "length a < pt_maxn" and "\<forall>v \<in> set a. v < 2 ^ 29"
    and X: "X = \<lparr>xs_n = length a, xs_s = (\<lambda>_. 0), xs_st = \<lparr>pt_t = (\<lambda>_. blank), pt_cnt = 0, pt_rt = (\<lambda>_. 0)\<rparr>\<rparr>"
  shows "\<exists>X1 X2. for_each (pt_read a) [1..<length a + 1] X = Some X1 \<and> for_each pt_version [1..<length a + 1] X1 = Some X2 \<and> xs_stands X2 a"
proof -
  define I where "I k Y = (xs_n Y = length a \<and> xs_st Y = xs_st X \<and> (\<forall>i < k. xs_s Y i = xor_list (take i a)))" for k and Y :: xorseq
  have "\<exists>Y'. pt_read a i Y = Some Y' \<and> I (Suc i) Y'" if "1 \<le> i" "i < length a + 1" "I i Y" for i Y
  proof -
    have "xs_s Y (i - 1) XOR a ! (i - 1) = xor_list (take i a)"
      using that take_Suc_conv_app_nth [of "i - 1" a] by (simp add: I_def xor_list_append)
    then show ?thesis
      using that assms(1) by (auto simp: pt_read_def I_def less_Suc_eq)
  qed
  moreover have "I 1 X"
    by (simp add: I_def X)
  ultimately obtain X1 where X1: "for_each (pt_read a) [1..<length a + 1] X = Some X1" "I (length a + 1) X1"
    using for_each_upt [of 1 "length a + 1" I X "pt_read a"] by auto
  define J where "J k Y = (xs_n Y = length a \<and> xs_s Y = xs_s X1 \<and> versions a (k - 1) (xs_st Y))" for k and Y :: xorseq
  have "\<exists>Y'. pt_version i Y = Some Y' \<and> J (Suc i) Y'" if i: "1 \<le> i" "i < length a + 1" "J i Y" for i Y
  proof -
    have "xs_s Y i = xor_list (take i a)"
      using i X1(2) by (simp add: I_def J_def)
    then show ?thesis
      using new_version_ok [of a "i - 1" "xs_st Y"] i assms(1) by (auto simp: pt_version_def J_def)
  qed
  moreover have "versions a 0 (xs_st X)"
    by (simp add: versions_def X prefixes_def trie_rep_null)
  then have "J 1 X1"
    using X1(2) by (simp add: J_def I_def)
  ultimately obtain X2 where X2: "for_each pt_version [1..<length a + 1] X1 = Some X2" "J (length a + 1) X2"
    using for_each_upt [of 1 "length a + 1" J X1 pt_version] by auto
  have "xs_stands X2 a"
    using X1(2) X2(2) assms(1,2) by (simp add: xs_stands_def I_def J_def)
  then show ?thesis
    using X1(1) X2(1) by blast
qed

text \<open>
  C14. For numbers below \<open>2 ^ 29\<close>, at most 600009 of them, and queries inside the sequence, the program \<^verbatim>\<open>persistent-trie_1.cpp\<close> ends without running out of
  nodes and answers each query with the greatest exclusive or of the given number and a suffix that starts in the range.
\<close>

theorem persistent_trie_correct:
  assumes "length a < pt_maxn" and "\<forall>v \<in> set a. v < 2 ^ 29" and "all_ok pt_ok pt_ref a ops"
  shows "\<exists>X. pt_main a ops = Some (X, ref_loop pt_ref a ops)"
proof -
  obtain X1 X2 where "for_each (pt_read a) [1..<length a + 1] \<lparr>xs_n = length a, xs_s = (\<lambda>_. 0), xs_st = \<lparr>pt_t = (\<lambda>_. blank), pt_cnt = 0, pt_rt = (\<lambda>_. 0)\<rparr>\<rparr> = Some X1"
      "for_each pt_version [1..<length a + 1] X1 = Some X2" "xs_stands X2 a"
    using pt_start [OF assms(1,2) refl] by blast
  then show ?thesis
    using pt.loop_ok [OF _ assms(3)] by (auto simp: pt_main_def Let_def simp del: upt_Suc)
qed

theorem persistent_trie_correct_witness:
  "\<exists>X. pt_main [2, 6, 4] [AskX 2 3 1, AppendX 9, AskX 1 4 0] = Some (X, [5, 13])"
proof -
  have "all_ok pt_ok pt_ref [2, 6, 4] [AskX 2 3 1, AppendX 9, AskX 1 4 0]" "ref_loop pt_ref [2, 6, 4] [AskX 2 3 1, AppendX 9, AskX 1 4 0] = [5, 13]"
  proof -
    have "{2..3::nat} = {2, 3}" "{1..4::nat} = {1, 2, 3, 4}"
      by auto
    then show "ref_loop pt_ref [2, 6, 4] [AskX 2 3 1, AppendX 9, AskX 1 4 0] = [5, 13]"
      by simp
  qed (simp add: pt_maxn_def)
  then show ?thesis
    using persistent_trie_correct [of "[2, 6, 4]" "[AskX 2 3 1, AppendX 9, AskX 1 4 0]"] by (simp add: pt_maxn_def)
qed

end
