(* ===== verification/Leftist.thy ===== *)
theory Leftist
  imports UnionFind
begin

text \<open>
  The program \<^verbatim>\<open>leftist-tree/leftist-tree_1.cpp\<close>: teams of persons as mergeable leftist heaps in arrays, found by union-find.
  Two teams can be merged and the weakest person of a team removed. Shown: every run of the program is a run of
  the specification, a step relation that leaves open which of several weakest persons goes; the heaps stay leftist.
\<close>

unbundle bit_operations_syntax

section \<open>The program\<close>

definition N :: nat where
  "N = 1000010"

record lnode =
  ln_val :: int
  ln_ls :: nat
  ln_rs :: nat
  ln_d :: int

record teams =
  tm_t :: "nat \<Rightarrow> lnode"
  tm_f :: "nat list"
  tm_kill :: "nat \<Rightarrow> bool"

definition ln_get :: "(nat \<Rightarrow> lnode) \<Rightarrow> nat \<Rightarrow> lnode option" where
  "ln_get t x = (if x < N then Some (t x) else None)"

definition ln_upd :: "nat \<Rightarrow> (lnode \<Rightarrow> lnode) \<Rightarrow> (nat \<Rightarrow> lnode) \<Rightarrow> (nat \<Rightarrow> lnode) option" where
  "ln_upd x g t = (if x < N then Some (t(x := g (t x))) else None)"

partial_function (option) lt_merge :: "nat \<Rightarrow> nat \<Rightarrow> (nat \<Rightarrow> lnode) \<Rightarrow> (nat \<times> (nat \<Rightarrow> lnode)) option" where [code]:
  "lt_merge x y t =
     (if x = 0 \<or> y = 0 then Some (x OR y, t)
      else do {
        nx \<leftarrow> ln_get t x;
        ny \<leftarrow> ln_get t y;
        let (x, y) = (if ln_val nx > ln_val ny then (y, x) else (x, y));
        nx \<leftarrow> ln_get t x;
        (r, t) \<leftarrow> lt_merge (ln_rs nx) y t;
        t \<leftarrow> ln_upd x (\<lambda>n. n\<lparr>ln_rs := r\<rparr>) t;
        nx \<leftarrow> ln_get t x;
        nr \<leftarrow> ln_get t (ln_rs nx);
        nl \<leftarrow> ln_get t (ln_ls nx);
        t \<leftarrow> (if ln_d nr > ln_d nl then ln_upd x (\<lambda>n. n\<lparr>ln_ls := ln_rs n, ln_rs := ln_ls n\<rparr>) t else Some t);
        nx \<leftarrow> ln_get t x;
        nr \<leftarrow> ln_get t (ln_rs nx);
        t \<leftarrow> ln_upd x (\<lambda>n. n\<lparr>ln_d := ln_d nr + 1\<rparr>) t;
        Some (x, t)
      })"

definition kill_get :: "teams \<Rightarrow> nat \<Rightarrow> bool option" where
  "kill_get S x = (if x < N then Some (tm_kill S x) else None)"

definition lt_find :: "nat \<Rightarrow> teams \<Rightarrow> (nat \<times> teams) option" where
  "lt_find x S = do { (r, f) \<leftarrow> uf_find (tm_f S) x; Some (r, S\<lparr>tm_f := f\<rparr>) }"

datatype lt_op = LMerge nat nat | LKill nat

fun lt_step :: "teams \<Rightarrow> lt_op \<Rightarrow> (teams \<times> int list) option" where
  "lt_step S (LMerge x y) = do {
     kx \<leftarrow> kill_get S x;
     ky \<leftarrow> (if kx then Some True else kill_get S y);
     if ky then Some (S, [])
     else do {
       (x, S) \<leftarrow> lt_find x S;
       (y, S) \<leftarrow> lt_find y S;
       if x \<noteq> y then do {
         (r, t) \<leftarrow> lt_merge x y (tm_t S);
         f \<leftarrow> vec_set y r (tm_f S);
         f \<leftarrow> vec_set x r f;
         Some (S\<lparr>tm_t := t, tm_f := f\<rparr>, [])
       }
       else Some (S, [])
     }
   }"
| "lt_step S (LKill x) = do {
     k \<leftarrow> kill_get S x;
     if \<not> k then do {
       (x, S) \<leftarrow> lt_find x S;
       _ \<leftarrow> kill_get S x;
       let S = S\<lparr>tm_kill := (tm_kill S)(x := True)\<rparr>;
       n \<leftarrow> ln_get (tm_t S) x;
       (r, t) \<leftarrow> lt_merge (ln_ls n) (ln_rs n) (tm_t S);
       n \<leftarrow> ln_get t x;
       f \<leftarrow> vec_set (ln_rs n) r (tm_f S);
       f \<leftarrow> vec_set (ln_ls n) r f;
       f \<leftarrow> vec_set x r f;
       Some (S\<lparr>tm_t := t, tm_f := f\<rparr>, [ln_val n])
     }
     else Some (S, [0])
   }"

text \<open>The loop that reads the values.\<close>

definition lt_init :: "int \<Rightarrow> int \<Rightarrow> teams \<Rightarrow> teams option" where
  "lt_init v i S = do {
     t \<leftarrow> ln_upd (nat i) (\<lambda>_. \<lparr>ln_val = v, ln_ls = 0, ln_rs = 0, ln_d = 0\<rparr>) (tm_t S);
     f \<leftarrow> vec_set (nat i) (nat i) (tm_f S);
     Some (S\<lparr>tm_t := t, tm_f := f\<rparr>)
   }"

definition lt_main :: "int list \<Rightarrow> lt_op list \<Rightarrow> (teams \<times> int list) option" where
  "lt_main vs ops = do {
     S \<leftarrow> for_each (\<lambda>i. lt_init (vs ! nat (i - 1)) i) [1..int (length vs)]
       \<lparr>tm_t = (\<lambda>_. \<lparr>ln_val = 0, ln_ls = 0, ln_rs = 0, ln_d = - 1\<rparr>), tm_f = replicate N 0, tm_kill = (\<lambda>_. False)\<rparr>;
     query_loop lt_step S ops
   }"

section \<open>Heaps in the array\<close>

datatype ltree = LE | LN ltree nat ltree

fun lroot :: "ltree \<Rightarrow> nat" where
  "lroot LE = 0"
| "lroot (LN l a r) = a"

fun lnodes :: "ltree \<Rightarrow> nat list" where
  "lnodes LE = []"
| "lnodes (LN l a r) = a # lnodes l @ lnodes r"

text \<open>The distance to the nearest missing child on the right spine.\<close>

fun dist :: "ltree \<Rightarrow> int" where
  "dist LE = - 1"
| "dist (LN l a r) = dist r + 1"

fun lstored :: "(nat \<Rightarrow> lnode) \<Rightarrow> ltree \<Rightarrow> bool" where
  "lstored t LE = True"
| "lstored t (LN l a r) = (0 < a \<and> a < N \<and> ln_ls (t a) = lroot l \<and> ln_rs (t a) = lroot r \<and> ln_d (t a) = dist r + 1 \<and>
     (\<forall>b \<in> set (lnodes l @ lnodes r). ln_val (t a) \<le> ln_val (t b)) \<and> dist r \<le> dist l \<and> lstored t l \<and> lstored t r)"

lemma lstored_cong: "(\<And>a. a \<in> set (lnodes T) \<Longrightarrow> t' a = t a) \<Longrightarrow> lstored t' T = lstored t T"
  by (induction T) auto

lemma lstored_frame:
  assumes "lstored t T" and "\<And>a. a \<notin> A \<Longrightarrow> t' a = t a" and "set (lnodes T) \<inter> A = {}"
  shows "lstored t' T"
proof -
  have "t' a = t a" if "a \<in> set (lnodes T)" for a
    using that assms(2) [of a] assms(3) by blast
  then show ?thesis
    using assms(1) lstored_cong [of T t' t] by simp
qed

lemma lroot_in: "T \<noteq> LE \<Longrightarrow> lroot T \<in> set (lnodes T)"
  by (cases T) auto

lemma lroot_other: "0 < a \<Longrightarrow> a \<notin> set (lnodes T) \<Longrightarrow> lroot T \<noteq> a"
  by (cases T) auto

lemma lroot_zero: "lstored t T \<Longrightarrow> lroot T = 0 \<longleftrightarrow> T = LE"
  by (cases T) auto

lemma lstored_bound: "lstored t T \<Longrightarrow> a \<in> set (lnodes T) \<Longrightarrow> 0 < a \<and> a < N"
  by (induction T) auto

text \<open>The root has the least value.\<close>

lemma lroot_least: "lstored t T \<Longrightarrow> a \<in> set (lnodes T) \<Longrightarrow> ln_val (t (lroot T)) \<le> ln_val (t a)"
  by (cases T) auto

lemma lroot_d: "lstored t T \<Longrightarrow> ln_d (t 0) = - 1 \<Longrightarrow> ln_d (t (lroot T)) = dist T"
  by (cases T) auto

lemma lroot_lt: "lstored t T \<Longrightarrow> lroot T < N"
  by (cases T) (auto simp: N_def)

text \<open>What a merge of the trees \<open>X\<close> and \<open>Y\<close> gives.\<close>

definition merged :: "ltree \<Rightarrow> ltree \<Rightarrow> (nat \<Rightarrow> lnode) \<Rightarrow> ltree \<Rightarrow> (nat \<Rightarrow> lnode) \<Rightarrow> bool" where
  "merged X Y t T t' = (lstored t' T \<and> set (lnodes T) = set (lnodes X) \<union> set (lnodes Y) \<and> distinct (lnodes T) \<and>
     lroot T \<in> {lroot X, lroot Y} \<and> (\<forall>a. ln_val (t' a) = ln_val (t a)) \<and> (\<forall>a. a \<notin> set (lnodes X @ lnodes Y) \<longrightarrow> t' a = t a))"

lemma merged_sym: "merged X Y t T t' = merged Y X t T t'"
  by (auto simp: merged_def)

text \<open>The last part of \<open>merge\<close>: the node gets its new right child, and the children are swapped if need be.\<close>

lemma merged_node:
  assumes "lstored t (LN l a r)" and "merged r Y t T t1" and "distinct (lnodes (LN l a r) @ lnodes Y)"
    and "\<forall>b \<in> set (lnodes Y). ln_val (t a) \<le> ln_val (t b)"
    and "(L, R) = (if dist T > dist l then (T, l) else (l, T))"
    and t2: "\<And>b. b \<noteq> a \<Longrightarrow> t2 b = t1 b" "t2 a = \<lparr>ln_val = ln_val (t a), ln_ls = lroot L, ln_rs = lroot R, ln_d = dist R + 1\<rparr>"
  shows "merged (LN l a r) Y t (LN L a R) t2"
proof -
  have m: "lstored t1 T" "set (lnodes T) = set (lnodes r) \<union> set (lnodes Y)" "distinct (lnodes T)" "\<And>b. ln_val (t1 b) = ln_val (t b)"
      "\<And>b. b \<notin> set (lnodes r @ lnodes Y) \<Longrightarrow> t1 b = t b"
    using assms(2) by (simp_all add: merged_def)
  have fresh: "a \<notin> set (lnodes T)" "a \<notin> set (lnodes l)" "set (lnodes l) \<inter> set (lnodes T) = {}" "distinct (lnodes l)"
    using assms(3) m(2) by auto
  have vals: "ln_val (t2 b) = ln_val (t b)" for b
    using m(4) t2 by (cases "b = a") simp_all
  have "lstored t1 l"
    by (rule lstored_frame [of t _ "set (lnodes r @ lnodes Y)"]) (use assms(1) m(2,5) fresh(3) in auto)
  then have l: "lstored t2 l"
    by (rule lstored_frame [of _ _ "{a}"]) (use t2(1) fresh(2) in auto)
  have T: "lstored t2 T"
    by (rule lstored_frame [OF m(1), of "{a}"]) (use t2(1) fresh(1) in auto)
  have LR: "lstored t2 L" "lstored t2 R" "dist R \<le> dist L" "set (lnodes L) \<union> set (lnodes R) = set (lnodes l) \<union> set (lnodes T)"
      "distinct (lnodes L @ lnodes R)" "a \<notin> set (lnodes L @ lnodes R)"
    using assms(5) l T fresh m(3) by (auto split: if_splits)
  have "\<forall>b \<in> set (lnodes L @ lnodes R). ln_val (t a) \<le> ln_val (t b)"
    using assms(1,4) m(2) LR(4) by auto
  then have "lstored t2 (LN L a R)"
    using LR(1-3) assms(1) t2(2) vals by simp
  moreover have "t2 b = t b" if "b \<notin> set (lnodes (LN l a r) @ lnodes Y)" for b
    using that m(5) t2(1) by auto
  ultimately show ?thesis
    using vals m(2) LR unfolding merged_def by auto
qed

text \<open>\<open>merge\<close> of two indices of which \<open>a\<close> is the one that becomes the root.\<close>

lemma lt_merge_node:
  assumes "lstored t (LN l a r)" and "lstored t Y" and "Y \<noteq> LE" and "distinct (lnodes (LN l a r) @ lnodes Y)" and "ln_d (t 0) = - 1"
    and "ln_val (t a) \<le> ln_val (t (lroot Y))" and "lt_merge (lroot r) (lroot Y) t = Some (lroot T, t1)" and "merged r Y t T t1"
    and "(if ln_val (t x) > ln_val (t y) then (y, x) else (x, y)) = (a, lroot Y)"
  shows "\<exists>T' t2. lt_merge x y t = Some (lroot T', t2) \<and> merged (LN l a r) Y t T' t2"
proof -
  obtain L R where LR: "(L, R) = (if dist T > dist l then (T, l) else (l, T))"
    by (cases "if dist T > dist l then (T, l) else (l, T)") auto
  have xy: "x \<in> {a, lroot Y} \<and> y \<in> {a, lroot Y}" "0 < a" "a < N" "0 < lroot Y" "lroot Y < N"
    using assms(1,9) lstored_bound [OF assms(2) lroot_in [OF assms(3)]] by (auto split: if_splits)
  then have "x \<noteq> 0" "y \<noteq> 0" "x < N" "y < N"
    by auto
  note m = assms(8) [unfolded merged_def]
  have "a \<notin> set (lnodes r @ lnodes Y)" "0 \<notin> set (lnodes r @ lnodes Y)"
    using assms(4) lstored_bound [OF assms(2)] lstored_bound [of t r] assms(1) by auto
  then have t1: "t1 a = t a" "t1 0 = t 0"
    using m by blast+
  have "lstored t1 l"
    by (rule lstored_frame [of t _ "set (lnodes r @ lnodes Y)"]) (use assms(1,4) m in auto)
  moreover have "a \<notin> set (lnodes T)" "a \<notin> set (lnodes l)" "lstored t1 T"
    using m assms(4) by auto
  ultimately have d: "ln_d (t1 (lroot T)) = dist T" "ln_d (t1 (lroot l)) = dist l" "lroot T \<noteq> a" "lroot l \<noteq> a" "lroot T < N" "lroot l < N"
    using lroot_d [of t1] lroot_lt [of t1] lroot_other [OF xy(2)] t1(2) assms(5) by simp_all
  let ?n = "\<lparr>ln_val = ln_val (t a), ln_ls = lroot L, ln_rs = lroot R, ln_d = dist R + 1\<rparr>"
  have "\<forall>b \<in> set (lnodes Y). ln_val (t a) \<le> ln_val (t b)"
    using lroot_least [OF assms(2)] assms(6) by fastforce
  then have "merged (LN l a r) Y t (LN L a R) (t1(a := ?n))"
    by (intro merged_node [OF assms(1,8,4) _ LR]) simp_all
  moreover have "lt_merge x y t = Some (a, t1(a := ?n))"
    using \<open>x \<noteq> 0\<close> \<open>y \<noteq> 0\<close> \<open>x < N\<close> \<open>y < N\<close> assms(1,7) xy(2-5) t1(1) d LR
    by (subst lt_merge.simps) (auto simp: ln_get_def ln_upd_def assms(9) split: if_splits)
  ultimately show ?thesis
    by (intro exI [of _ "LN L a R"]) auto
qed

text \<open>\<open>merge\<close> always returns, and gives the heap of both.\<close>

lemma lt_merge_ok:
  assumes "lstored t X" and "lstored t Y" and "distinct (lnodes X @ lnodes Y)" and "ln_d (t 0) = - 1"
  shows "\<exists>T t'. lt_merge (lroot X) (lroot Y) t = Some (lroot T, t') \<and> merged X Y t T t'"
  using assms
proof (induction "size X + size Y" arbitrary: X Y rule: less_induct)
  case less
  show ?case
  proof (cases "X = LE \<or> Y = LE")
    case True
    then show ?thesis
      using less.prems by (subst lt_merge.simps) (auto simp: merged_def)
  next
    case False
    then obtain l a r l' b r' where XY: "X = LN l a r" "Y = LN l' b r'"
      by (cases X; cases Y; auto)
    show ?thesis
    proof (cases "ln_val (t a) > ln_val (t b)")
      case True
      have "distinct (lnodes r' @ lnodes X)" "distinct (lnodes Y @ lnodes X)"
        using less.prems(3) XY by auto
      then obtain T t1 where "lt_merge (lroot r') (lroot X) t = Some (lroot T, t1)" "merged r' X t T t1"
        using less.hyps [of r' X] less.prems(1,2,4) XY by auto
      then have "\<exists>T' t2. lt_merge a b t = Some (lroot T', t2) \<and> merged (LN l' b r') X t T' t2"
        using less.prems(1,2,4) \<open>distinct (lnodes Y @ lnodes X)\<close> XY True by (intro lt_merge_node) auto
      then show ?thesis
        using XY merged_sym by auto
    next
      case False
      obtain T t1 where "lt_merge (lroot r) (lroot Y) t = Some (lroot T, t1)" "merged r Y t T t1"
        using less.hyps [of r Y] less.prems XY by auto
      then have "\<exists>T' t2. lt_merge a b t = Some (lroot T', t2) \<and> merged (LN l a r) Y t T' t2"
        using less.prems XY False by (intro lt_merge_node) auto
      then show ?thesis
        using XY by auto
    qed
  qed
qed

section \<open>The specification\<close>

text \<open>
  The state: the team of every person, as a list of labels, and the set of the dead. A merge unites the teams of two living
  persons; a kill takes any of the weakest living persons in the team of a living person.
\<close>

definition members :: "nat \<Rightarrow> nat list \<Rightarrow> nat set \<Rightarrow> nat \<Rightarrow> nat set" where
  "members n lab dead x = {y. 1 \<le> y \<and> y \<le> n \<and> y \<notin> dead \<and> lab ! y = lab ! x}"

inductive team_step :: "int list \<Rightarrow> nat list \<times> nat set \<Rightarrow> lt_op \<Rightarrow> nat list \<times> nat set \<Rightarrow> int list \<Rightarrow> bool"
  for vs where
  merge_dead: "x \<in> dead \<or> y \<in> dead \<Longrightarrow> team_step vs (lab, dead) (LMerge x y) (lab, dead) []"
| merge: "x \<notin> dead \<Longrightarrow> y \<notin> dead \<Longrightarrow>
    team_step vs (lab, dead) (LMerge x y) (map (\<lambda>l. if l = lab ! y then lab ! x else l) lab, dead) []"
| kill_dead: "x \<in> dead \<Longrightarrow> team_step vs (lab, dead) (LKill x) (lab, dead) [0]"
| kill: "x \<notin> dead \<Longrightarrow> w \<in> members (length vs) lab dead x \<Longrightarrow>
    (\<And>z. z \<in> members (length vs) lab dead x \<Longrightarrow> vs ! (w - 1) \<le> vs ! (z - 1)) \<Longrightarrow>
    team_step vs (lab, dead) (LKill x) (lab, insert w dead) [vs ! (w - 1)]"

inductive_simps team_merge_iff: "team_step vs (lab, dead) (LMerge x y) a' out"
inductive_simps team_kill_iff: "team_step vs (lab, dead) (LKill x) a' out"

fun team_ok :: "nat \<Rightarrow> lt_op \<Rightarrow> bool" where
  "team_ok n (LMerge x y) = (1 \<le> x \<and> x \<le> n \<and> 1 \<le> y \<and> y \<le> n)"
| "team_ok n (LKill x) = (1 \<le> x \<and> x \<le> n)"

section \<open>The state of the program\<close>

text \<open>The persons whose team still has somebody; only for them does \<open>f\<close> mean something.\<close>

definition in_team :: "nat \<Rightarrow> nat list \<Rightarrow> nat set \<Rightarrow> nat \<Rightarrow> bool" where
  "in_team n lab dead x = (1 \<le> x \<and> x \<le> n \<and> members n lab dead x \<noteq> {})"

definition heap_at :: "nat \<Rightarrow> nat list \<Rightarrow> nat set \<Rightarrow> (nat \<Rightarrow> lnode) \<Rightarrow> nat \<Rightarrow> ltree \<Rightarrow> bool" where
  "heap_at n lab dead t x T = (lstored t T \<and> distinct (lnodes T) \<and> lroot T = x \<and> set (lnodes T) = members n lab dead x)"

definition teams_rep :: "int list \<Rightarrow> teams \<Rightarrow> nat list \<Rightarrow> nat set \<Rightarrow> (nat \<Rightarrow> nat) \<Rightarrow> (nat \<Rightarrow> nat) \<Rightarrow> bool" where
  "teams_rep vs S lab dead rt dep = (length vs < N \<and> length (tm_f S) = N \<and> length lab = length vs + 1 \<and>
     (\<forall>x. 1 \<le> x \<and> x \<le> length vs \<longrightarrow> tm_kill S x = (x \<in> dead) \<and> ln_val (tm_t S x) = vs ! (x - 1)) \<and> ln_d (tm_t S 0) = - 1 \<and>
     rooted (in_team (length vs) lab dead) rt dep (tm_f S) \<and>
     (\<forall>u v. in_team (length vs) lab dead u \<longrightarrow> in_team (length vs) lab dead v \<longrightarrow> (rt u = rt v \<longleftrightarrow> lab ! u = lab ! v)) \<and>
     (\<forall>x. in_team (length vs) lab dead x \<and> rt x = x \<longrightarrow> (\<exists>T. heap_at (length vs) lab dead (tm_t S) x T)))"

definition teams_inv :: "int list \<Rightarrow> teams \<Rightarrow> nat list \<times> nat set \<Rightarrow> bool" where
  "teams_inv vs S a = (\<exists>rt dep. teams_rep vs S (fst a) (snd a) rt dep)"

lemma teams_invI: "teams_rep vs S lab dead rt dep \<Longrightarrow> teams_inv vs S (lab, dead)"
  by (auto simp: teams_inv_def)

lemma in_team_alive: "1 \<le> x \<Longrightarrow> x \<le> n \<Longrightarrow> x \<notin> dead \<Longrightarrow> in_team n lab dead x"
  by (auto simp: in_team_def members_def)

lemma members_class: "lab ! x = lab ! y \<Longrightarrow> members n lab dead x = members n lab dead y"
  by (simp add: members_def)

lemma members_in_team: "y \<in> members n lab dead x \<Longrightarrow> in_team n lab dead y"
  by (auto simp: in_team_def members_def)

lemma members_kill: "members n lab (insert r dead) x = members n lab dead x - {r}"
  by (auto simp: members_def)

text \<open>The facts about a person and the root of the team.\<close>

lemma teams_root:
  assumes "teams_rep vs S lab dead rt dep" and "in_team (length vs) lab dead x"
  shows "in_team (length vs) lab dead (rt x)" "rt (rt x) = rt x" "tm_f S ! rt x = rt x" "lab ! rt x = lab ! x" "rt x < N" "1 \<le> rt x" "rt x \<le> length vs"
    and "\<exists>T. heap_at (length vs) lab dead (tm_t S) (rt x) T"
proof -
  have r: "rooted (in_team (length vs) lab dead) rt dep (tm_f S)" "length vs < N"
    using assms(1) by (simp_all add: teams_rep_def)
  show 1: "in_team (length vs) lab dead (rt x)" "rt (rt x) = rt x" "tm_f S ! rt x = rt x"
    using rooted_root [OF r(1) assms(2)] by simp_all
  show "lab ! rt x = lab ! x" "\<exists>T. heap_at (length vs) lab dead (tm_t S) (rt x) T"
    using assms 1(1,2) unfolding teams_rep_def by blast+
  show "rt x < N" "1 \<le> rt x" "rt x \<le> length vs"
    using 1(1) r(2) by (simp_all add: in_team_def)
qed

lemma lt_find_ok:
  assumes "teams_rep vs S lab dead rt dep" and "in_team (length vs) lab dead x"
  shows "\<exists>S'. lt_find x S = Some (rt x, S') \<and> teams_rep vs S' lab dead rt dep \<and> tm_t S' = tm_t S \<and> tm_kill S' = tm_kill S"
proof -
  have r: "rooted (in_team (length vs) lab dead) rt dep (tm_f S)"
    using assms(1) by (simp add: teams_rep_def)
  obtain f where "uf_find (tm_f S) x = Some (rt x, f)" "rooted (in_team (length vs) lab dead) rt dep f" "length f = length (tm_f S)"
    using uf_find_ok [OF r assms(2)] by blast
  then show ?thesis
    using assms(1) unfolding teams_rep_def by (simp add: lt_find_def)
qed

section \<open>Merging two teams\<close>

lemma members_link:
  assumes "length lab = n + 1" and "a \<le> n" and "b \<le> n" and "z \<le> n"
  shows "members n (map (\<lambda>l. if l = lab ! b then lab ! a else l) lab) dead z =
    (if lab ! z \<in> {lab ! a, lab ! b} then members n lab dead a \<union> members n lab dead b else members n lab dead z)"
  using assms by (auto simp: members_def split: if_splits)

lemma in_team_link:
  assumes "length lab = n + 1" and "in_team n lab dead a" and "in_team n lab dead b"
  shows "in_team n (map (\<lambda>l. if l = lab ! b then lab ! a else l) lab) dead = in_team n lab dead"
proof
  fix z
  have "members n lab dead z \<noteq> {}" if "lab ! z \<in> {lab ! a, lab ! b}"
    using that assms(2,3) members_class [of lab z a] members_class [of lab z b] by (auto simp: in_team_def)
  moreover have "a \<le> n" "b \<le> n" "members n lab dead a \<noteq> {}"
    using assms(2,3) by (simp_all add: in_team_def)
  ultimately show "in_team n (map (\<lambda>l. if l = lab ! b then lab ! a else l) lab) dead z = in_team n lab dead z"
    using members_link [OF assms(1) \<open>a \<le> n\<close> \<open>b \<le> n\<close>, of z dead] unfolding in_team_def by (auto split: if_splits)
qed

text \<open>A heap of another team is not touched.\<close>

lemma heap_at_frame:
  assumes "heap_at n lab dead t z Z" and "\<forall>a. a \<notin> A \<longrightarrow> t' a = t a" and "members n lab dead z \<inter> A = {}"
    and "members n lab' dead' z = members n lab dead z"
  shows "heap_at n lab' dead' t' z Z"
  using assms lstored_frame [of t Z A t'] by (auto simp: heap_at_def)

lemma members_disjoint: "lab ! x \<noteq> lab ! y \<Longrightarrow> members n lab dead x \<inter> members n lab dead y = {}"
  by (auto simp: members_def)

lemma teams_merge:
  assumes rep: "teams_rep vs S lab dead rt dep" and ab: "in_team (length vs) lab dead a" "in_team (length vs) lab dead b"
    and X: "heap_at (length vs) lab dead (tm_t S) (rt a) X" and Y: "heap_at (length vs) lab dead (tm_t S) (rt b) Y" 
    and m: "merged X Y (tm_t S) T t'" and r: "{r, q} = {rt a, rt b}" "r \<noteq> q" "r = lroot T"
  shows "teams_inv vs (S\<lparr>tm_t := t', tm_f := (tm_f S)[q := r]\<rparr>) (map (\<lambda>l. if l = lab ! b then lab ! a else l) lab, dead)"
proof -
  let ?n = "length vs" and ?lab = "map (\<lambda>l. if l = lab ! b then lab ! a else l) lab"
  let ?P = "in_team ?n lab dead" and ?rt = "\<lambda>z. if rt z = q then r else rt z" and ?dep = "\<lambda>z. if rt z = q then Suc (dep z + dep r) else dep z"
  note d = rep [unfolded teams_rep_def]
  note ra = teams_root [OF rep ab(1)] and rb = teams_root [OF rep ab(2)]
  have P: "in_team ?n ?lab dead = ?P"
    using in_team_link [of lab ?n dead a b] ab d by simp
  have rq: "?P r" "?P q" "tm_f S ! r = r" "tm_f S ! q = q" "rt r = r" "rt q = q"
    using r(1) ra rb by (auto simp: doubleton_eq_iff)
  have rooted: "rooted ?P ?rt ?dep ((tm_f S)[q := r])"
    by (rule rooted_link) (use d rq r(2) in auto)
  have lab: "?lab ! z = (if lab ! z = lab ! b then lab ! a else lab ! z)" if "?P z" for z
    using that d by (simp add: in_team_def)
  have same: "?rt u = ?rt v \<longleftrightarrow> ?lab ! u = ?lab ! v" if "?P u" "?P v" for u v
    using same_class_link [of ?P rt "\<lambda>x. lab ! x" a b r q u v] d ab r(1) that lab by auto
  have mem: "members ?n ?lab dead z = (if lab ! z \<in> {lab ! a, lab ! b} then members ?n lab dead a \<union> members ?n lab dead b else members ?n lab dead z)"
      if "?P z" for z
    using that ab d by (intro members_link) (auto simp: in_team_def)
  have nodes: "set (lnodes X) = members ?n lab dead a" "set (lnodes Y) = members ?n lab dead b"
    using X Y members_class [OF ra(4)] members_class [OF rb(4)] by (auto simp: heap_at_def)
  have frame: "\<forall>c. c \<notin> set (lnodes X @ lnodes Y) \<longrightarrow> t' c = tm_t S c"
    using m unfolding merged_def by blast
  have heaps: "\<exists>Z. heap_at ?n ?lab dead t' z Z" if z: "?P z" "?rt z = z" for z
  proof (cases "z = r")
    case True
    have "lab ! r \<in> {lab ! a, lab ! b}"
      using r(1) ra(4) rb(4) by (auto simp: doubleton_eq_iff)
    then have "heap_at ?n ?lab dead t' r T"
      using m nodes mem [OF rq(1)] r(3) by (simp add: heap_at_def merged_def)
    then show ?thesis
      using True by blast
  next
    case False
    then have "rt z = z" "z \<noteq> q"
      using z(2) by (auto split: if_splits)
    then have "rt z \<noteq> rt a" "rt z \<noteq> rt b"
      using False r(1) by auto
    then have out: "lab ! z \<noteq> lab ! a" "lab ! z \<noteq> lab ! b"
      using d ab z(1) by blast+
    obtain Z where Z: "heap_at ?n lab dead (tm_t S) z Z"
      using d z(1) \<open>rt z = z\<close> by blast
    have "members ?n lab dead z \<inter> set (lnodes X @ lnodes Y) = {}"
      using nodes members_disjoint [OF out(1), of ?n dead] members_disjoint [OF out(2), of ?n dead] by auto
    moreover have "members ?n ?lab dead z = members ?n lab dead z"
      using mem [OF z(1)] out by simp
    ultimately have "heap_at ?n ?lab dead t' z Z"
      by (rule heap_at_frame [OF Z frame])
    then show ?thesis
      by blast
  qed
  have "0 \<notin> set (lnodes X @ lnodes Y)"
    using nodes by (auto simp: members_def)
  then have "t' 0 = tm_t S 0" "\<And>x. ln_val (t' x) = ln_val (tm_t S x)"
    using m unfolding merged_def by blast+
  then have "teams_rep vs (S\<lparr>tm_t := t', tm_f := (tm_f S)[q := r]\<rparr>) ?lab dead ?rt ?dep"
    using d rooted same heaps P unfolding teams_rep_def by simp
  then show ?thesis
    by (rule teams_invI)
qed

lemma lt_merge_step:
  assumes rep: "teams_rep vs S lab dead rt dep" and ok: "team_ok (length vs) (LMerge x y)"
  shows "\<exists>S' a' out. lt_step S (LMerge x y) = Some (S', out) \<and> team_step vs (lab, dead) (LMerge x y) a' out \<and> teams_inv vs S' a'"
proof -
  have kill: "kill_get S x = Some (x \<in> dead)" "kill_get S y = Some (y \<in> dead)"
    using rep ok by (auto simp: teams_rep_def kill_get_def)
  show ?thesis
  proof (cases "x \<in> dead \<or> y \<in> dead")
    case True
    then show ?thesis
      using kill rep team_step.merge_dead [OF True, of vs lab] by (intro exI conjI) (auto intro: teams_invI)
  next
    case False
    then have xy: "in_team (length vs) lab dead x" "in_team (length vs) lab dead y"
      using ok by (auto intro: in_team_alive)
    obtain S1 where S1: "lt_find x S = Some (rt x, S1)" "teams_rep vs S1 lab dead rt dep" "tm_t S1 = tm_t S" "tm_kill S1 = tm_kill S"
      using lt_find_ok [OF rep xy(1)] by blast
    obtain S2 where S2: "lt_find y S1 = Some (rt y, S2)" "teams_rep vs S2 lab dead rt dep" "tm_t S2 = tm_t S1" "tm_kill S2 = tm_kill S1"
      using lt_find_ok [OF S1(2) xy(2)] by blast
    note spec = team_step.merge [of x dead y vs lab]
    show ?thesis
    proof (cases "rt x = rt y")
      case True
      then have "lab ! x = lab ! y"
        using rep xy by (auto simp: teams_rep_def)
      then have "map (\<lambda>l. if l = lab ! y then lab ! x else l) lab = lab"
        by (simp add: map_idI)
      then show ?thesis
        using spec False kill S1(1) S2(1,2) True by (intro exI conjI) (auto intro: teams_invI)
    next
      case diff: False
      obtain X Y where XY: "heap_at (length vs) lab dead (tm_t S2) (rt x) X" "heap_at (length vs) lab dead (tm_t S2) (rt y) Y"
        using teams_root(8) [OF S2(2)] xy by blast
      have "lab ! rt x \<noteq> lab ! rt y"
        using diff S2(2) xy teams_root(4) [OF S2(2)] by (auto simp: teams_rep_def)
      then have "distinct (lnodes X @ lnodes Y)"
        using XY members_disjoint [of lab "rt x" "rt y" "length vs" dead] by (simp add: heap_at_def)
      then obtain T t' where T: "lt_merge (rt x) (rt y) (tm_t S2) = Some (lroot T, t')" "merged X Y (tm_t S2) T t'"
        using lt_merge_ok [of "tm_t S2" X Y] XY S2(2) by (auto simp: heap_at_def teams_rep_def)
      then have r: "lroot T \<in> {rt x, rt y}"
        using XY by (auto simp: merged_def heap_at_def)
      define q where "q = (if lroot T = rt x then rt y else rt x)"
      have q: "{lroot T, q} = {rt x, rt y}" "lroot T \<noteq> q"
        using r diff by (auto simp: q_def)
      have f: "tm_f S2 ! rt x = rt x" "tm_f S2 ! rt y = rt y" "rt x < length (tm_f S2)" "rt y < length (tm_f S2)"
        using teams_root [OF S2(2)] xy S2(2) by (auto simp: teams_rep_def)
      have "(tm_f S2)[rt y := lroot T, rt x := lroot T] = (tm_f S2)[q := lroot T]"
        using r diff f by (auto simp: q_def nth_list_update intro!: nth_equalityI)
      then have "lt_step S (LMerge x y) = Some (S2\<lparr>tm_t := t', tm_f := (tm_f S2)[q := lroot T]\<rparr>, [])"
        using kill False S1(1) S2(1) diff T(1) f by simp
      then show ?thesis
        using teams_merge [OF S2(2) xy XY T(2) q refl] spec False by (intro exI conjI) auto
    qed
  qed
qed

section \<open>Killing the weakest\<close>

text \<open>The root \<open>r\<close> leaves; its children become the heap \<open>T'\<close> with the root \<open>r'\<close>, 0 if nobody is left.\<close>

lemma kill_root:
  assumes "heap_at n lab dead t r (LN l r R)" and "merged l R t T' t'"
  shows "set (lnodes T') = members n lab (insert r dead) r" "lroot T' \<noteq> r" "r \<notin> set (lnodes l @ lnodes R)"
    "{lroot l, lroot R} \<subseteq> insert 0 (members n lab dead r)" "T' \<noteq> LE \<Longrightarrow> lroot T' \<in> members n lab (insert r dead) r"
proof -
  have 1: "r \<notin> set (lnodes l @ lnodes R)" "insert r (set (lnodes l @ lnodes R)) = members n lab dead r" "0 < r"
    using assms(1) by (auto simp: heap_at_def)
  have 2: "set (lnodes T') = set (lnodes l @ lnodes R)"
    using assms(2) by (simp add: merged_def)
  show 3: "set (lnodes T') = members n lab (insert r dead) r" "r \<notin> set (lnodes l @ lnodes R)"
    using 1(1) 2 unfolding members_kill 1(2) [symmetric] by auto
  show "lroot T' \<noteq> r"
    using lroot_other [OF 1(3), of T'] 1(1) 2 by auto
  show "{lroot l, lroot R} \<subseteq> insert 0 (members n lab dead r)"
    using lroot_in [of l] lroot_in [of R] unfolding 1(2) [symmetric] by (cases l; cases R; simp)
  show "T' \<noteq> LE \<Longrightarrow> lroot T' \<in> members n lab (insert r dead) r"
    using lroot_in [of T'] 3(1) by simp
qed

lemma kill_rooted:
  assumes r: "rooted (in_team n lab dead) rt dep f" and same: "\<And>u v. in_team n lab dead u \<Longrightarrow> in_team n lab dead v \<Longrightarrow> rt u = rt v \<longleftrightarrow> lab ! u = lab ! v"
    and root: "in_team n lab dead r" "rt r = r"
    and r': "members n lab (insert r dead) r \<noteq> {} \<Longrightarrow> r' \<in> C \<inter> members n lab (insert r dead) r"
      "members n lab (insert r dead) r = {} \<Longrightarrow> r' = 0"
    and C: "r \<in> C" "C \<subseteq> insert 0 (members n lab dead r)"
    and f': "length f' = length f" "\<And>z. z \<noteq> 0 \<Longrightarrow> z < length f \<Longrightarrow> f' ! z = (if z \<in> C then r' else f ! z)"
  shows "rooted (in_team n lab (insert r dead)) (\<lambda>z. if rt z = r then r' else rt z) (\<lambda>z. if z = r' then 0 else Suc (dep z)) f'"
proof (rule rootedI)
  let ?P = "in_team n lab dead" and ?Q = "in_team n lab (insert r dead)"
  have PQ: "?P z" if "?Q z" for z
    using that by (auto simp: in_team_def members_kill)
  have cls: "?P z \<and> lab ! z = lab ! r" if "z \<noteq> 0" "z \<in> C" for z
    using that C members_in_team [of z n lab dead r] by (auto simp: members_def)
  have new: "?Q r'" "?P r'" "rt r' = r" "lab ! r' = lab ! r" "r' \<in> C" if "?Q z" "lab ! z = lab ! r" for z
  proof -
    have "r' \<in> members n lab (insert r dead) r" "r' \<in> C"
      using that r' members_class [OF that(2), of n "insert r dead"] by (simp_all add: in_team_def)
    then show "?Q r'" "?P r'" "lab ! r' = lab ! r" "r' \<in> C"
      using members_in_team [of r' n lab "insert r dead" r] PQ by (simp_all add: members_def)
    then show "rt r' = r"
      using same [of r' r] root by simp
  qed
  fix z
  assume z: "?Q z"
  note d = rootedD [OF r PQ [OF z]]
  have z0: "z \<noteq> 0"
    using z by (simp add: in_team_def)
  note fz = f'(2) [OF z0 d(1)]
  have rz: "rt z = r \<longleftrightarrow> lab ! z = lab ! r"
    using same [of z r] PQ [OF z] root by simp
  show "z < length f'"
    using d(1) f'(1) by simp
  have "lab ! (f ! z) = lab ! z"
    using d(2,4) same [of "f ! z" z] PQ [OF z] by (cases "f ! z = z") simp_all
  then have par: "?Q (f ! z)"
    using d(2) z members_class [of lab "f ! z" z n "insert r dead"] by (simp add: in_team_def)
  show "?Q (f' ! z)"
    using fz par new(1) [OF z] cls [OF z0] by auto
  show "(if rt z = r then r' else rt z) = z" if "f' ! z = z"
    using that fz d(3) new(3) [OF z] cls [OF z0] rz C(1) by (auto split: if_splits)
  show "(if rt z = r then r' else rt z) = (if rt (f' ! z) = r then r' else rt (f' ! z)) \<and>
      (if f' ! z = r' then 0 else Suc (dep (f' ! z))) < (if z = r' then 0 else Suc (dep z))" if "f' ! z \<noteq> z"
  proof (cases "z \<in> C")
    case True
    then show ?thesis
      using that fz new(3) [OF z] cls [OF z0 True] rz by simp
  next
    case False
    then have "f ! z \<noteq> z" "f' ! z = f ! z"
      using that fz by auto
    moreover have "z \<noteq> r'"
      using False r' z0 by (cases "members n lab (insert r dead) r = {}") auto
    ultimately show ?thesis
      using d(4,5) by simp
  qed
qed

lemma teams_kill:
  assumes rep: "teams_rep vs S lab dead rt dep" and root: "in_team (length vs) lab dead r" "rt r = r"
    and h: "heap_at (length vs) lab dead (tm_t S) r (LN l r R)" and m: "merged l R (tm_t S) T' t'" and r': "r' = lroot T'"
  shows "teams_inv vs (S\<lparr>tm_kill := (tm_kill S)(r := True), tm_t := t', tm_f := (tm_f S)[lroot R := r', lroot l := r', r := r']\<rparr>)
    (lab, insert r dead)"
proof -
  let ?n = "length vs" and ?dead = "insert r dead" and ?f = "(tm_f S)[lroot R := r', lroot l := r', r := r']"
  let ?P = "in_team ?n lab dead" and ?Q = "in_team ?n lab ?dead" and ?rt = "\<lambda>z. if rt z = r then r' else rt z"
  note d = rep [unfolded teams_rep_def] and k = kill_root [OF h m]
  have PQ: "?P z" if "?Q z" for z
    using that by (auto simp: in_team_def members_kill)
  have lr: "r < N" "lroot l < N" "lroot R < N" "lroot T' \<in> {lroot l, lroot R}" "r \<in> members ?n lab dead r"
    using h m lroot_lt [of "tm_t S"] by (auto simp: heap_at_def merged_def)
  have r'0: "members ?n lab ?dead r \<noteq> {} \<Longrightarrow> r' \<in> members ?n lab ?dead r" "members ?n lab ?dead r = {} \<Longrightarrow> r' = 0"
    using k(1,5) r' by (cases T'; simp)+
  have rooted: "rooted ?Q ?rt (\<lambda>z. if z = r' then 0 else Suc (dep z)) ?f"
  proof (rule kill_rooted [where C = "{r, lroot l, lroot R}"])
    show "{r, lroot l, lroot R} \<subseteq> insert 0 (members ?n lab dead r)"
      using k(4) lr(5) by auto
    show "?f ! z = (if z \<in> {r, lroot l, lroot R} then r' else tm_f S ! z)" if "z < length (tm_f S)" for z
      using that lr(1-3) d by (auto simp: nth_list_update)
  qed (use d root r'0 r' lr(4) in auto)
  have class_of: "rt z = r \<longleftrightarrow> lab ! z = lab ! r" if "?P z" for z
    using d that root by (metis (no_types))
  have r'_in: "?Q r'" "rt r' = r" "r' \<noteq> r" "lab ! r' = lab ! r" if "?Q z" "rt z = r" for z
  proof -
    have "lab ! z = lab ! r"
      using that class_of PQ by blast
    then have "r' \<in> members ?n lab ?dead r"
      using r'0(1) that(1) members_class [of lab z r ?n ?dead] by (simp add: in_team_def)
    then show "?Q r'" "r' \<noteq> r" "lab ! r' = lab ! r"
      using members_in_team [of r' ?n lab ?dead r] by (simp_all add: members_def)
    then show "rt r' = r"
      using class_of PQ by blast
  qed
  have idem: "rt (rt z) = rt z" if "?Q z" for z
    using teams_root(2) [OF rep PQ [OF that]] .
  have same: "?rt u = ?rt v \<longleftrightarrow> lab ! u = lab ! v" if uv: "?Q u" "?Q v" for u v
  proof -
    have "rt u = rt v \<longleftrightarrow> lab ! u = lab ! v"
      using d PQ uv by blast
    moreover have "rt u \<noteq> r' \<or> rt v \<noteq> r" "rt v \<noteq> r' \<or> rt u \<noteq> r"
      using r'_in uv idem by metis+
    ultimately show ?thesis
      by auto
  qed
  have frame: "\<forall>c. c \<notin> set (lnodes l @ lnodes R) \<longrightarrow> t' c = tm_t S c"
    using m unfolding merged_def by blast
  have nodes: "set (lnodes l @ lnodes R) \<subseteq> members ?n lab dead r"
    using h by (auto simp: heap_at_def)
  have heaps: "\<exists>Z. heap_at ?n lab ?dead t' z Z" if z: "?Q z" "?rt z = z" for z
  proof (cases "rt z = r")
    case True
    then have "z = r'" "lab ! z = lab ! r"
      using z r'_in(4) by auto
    then have "heap_at ?n lab ?dead t' z T'"
      using k(1) m r' members_class [of lab z r ?n ?dead] by (simp add: heap_at_def merged_def)
    then show ?thesis
      by blast
  next
    case False
    then have "?P z" "rt z = z"
      using z PQ by auto
    then obtain Z where Z: "heap_at ?n lab dead (tm_t S) z Z"
      using d by blast
    have "members ?n lab dead z \<inter> members ?n lab dead r = {}"
      using members_disjoint False class_of PQ z(1) by blast
    then have "members ?n lab dead z \<inter> set (lnodes l @ lnodes R) = {}" "members ?n lab ?dead z = members ?n lab dead z"
      using nodes lr(5) by (auto simp: members_kill)
    then have "heap_at ?n lab ?dead t' z Z"
      by (rule heap_at_frame [OF Z frame])
    then show ?thesis
      by blast
  qed
  have "0 \<notin> set (lnodes l @ lnodes R)"
    using nodes by (auto simp: members_def)
  then have "t' 0 = tm_t S 0" "\<And>x. ln_val (t' x) = ln_val (tm_t S x)"
    using m unfolding merged_def by blast+
  then have "teams_rep vs (S\<lparr>tm_kill := (tm_kill S)(r := True), tm_t := t', tm_f := ?f\<rparr>) lab ?dead ?rt (\<lambda>z. if z = r' then 0 else Suc (dep z))"
    using d rooted same heaps unfolding teams_rep_def by simp
  then show ?thesis
    by (rule teams_invI)
qed

lemma lt_kill_step:
  assumes rep: "teams_rep vs S lab dead rt dep" and ok: "team_ok (length vs) (LKill x)"
  shows "\<exists>S' a' out. lt_step S (LKill x) = Some (S', out) \<and> team_step vs (lab, dead) (LKill x) a' out \<and> teams_inv vs S' a'"
proof -
  have kill: "kill_get S x = Some (x \<in> dead)"
    using rep ok by (auto simp: teams_rep_def kill_get_def)
  show ?thesis
  proof (cases "x \<in> dead")
    case True
    then show ?thesis
      using kill rep team_step.kill_dead [OF True, of vs lab] by (intro exI conjI) (auto intro: teams_invI)
  next
    case False
    then have x: "in_team (length vs) lab dead x"
      using ok by (auto intro: in_team_alive)
    obtain S1 where S1: "lt_find x S = Some (rt x, S1)" "teams_rep vs S1 lab dead rt dep"
      using lt_find_ok [OF rep x] by blast
    note r = teams_root [OF S1(2) x]
    obtain T where T: "heap_at (length vs) lab dead (tm_t S1) (rt x) T"
      using r(8) by blast
    moreover have "T \<noteq> LE"
      using T r(1) by (auto simp: heap_at_def in_team_def)
    ultimately obtain l R where h: "heap_at (length vs) lab dead (tm_t S1) (rt x) (LN l (rt x) R)"
      by (cases T) (auto simp: heap_at_def)
    then obtain T' t' where m: "lt_merge (lroot l) (lroot R) (tm_t S1) = Some (lroot T', t')" "merged l R (tm_t S1) T' t'"
      using lt_merge_ok [of "tm_t S1" l R] S1(2) by (auto simp: heap_at_def teams_rep_def)
    have "t' (rt x) = tm_t S1 (rt x)"
      using m(2) kill_root(3) [OF h m(2)] unfolding merged_def by blast
    moreover have "ln_val (tm_t S1 (rt x)) = vs ! (rt x - 1)" "length (tm_f S1) = N"
      using S1(2) r(6,7) by (auto simp: teams_rep_def)
    moreover have "ln_ls (tm_t S1 (rt x)) = lroot l" "ln_rs (tm_t S1 (rt x)) = lroot R" "lroot l < N" "lroot R < N"
      using h lroot_lt by (auto simp: heap_at_def)
    ultimately have "lt_step S (LKill x) = Some (S1\<lparr>tm_kill := (tm_kill S1)(rt x := True), tm_t := t',
        tm_f := (tm_f S1)[lroot R := lroot T', lroot l := lroot T', rt x := lroot T']\<rparr>, [vs ! (rt x - 1)])"
      using kill False S1(1) m(1) r(5) by (simp add: kill_get_def ln_get_def)
    moreover have "team_step vs (lab, dead) (LKill x) (lab, insert (rt x) dead) [vs ! (rt x - 1)]"
    proof (rule team_step.kill [OF False])
      have mem: "set (lnodes (LN l (rt x) R)) = members (length vs) lab dead x"
        using h members_class [OF r(4)] by (simp add: heap_at_def)
      then show "rt x \<in> members (length vs) lab dead x"
        by auto
      fix z
      assume z: "z \<in> members (length vs) lab dead x"
      then have "ln_val (tm_t S1 (rt x)) \<le> ln_val (tm_t S1 z)"
        using lroot_least [of "tm_t S1" "LN l (rt x) R" z] h unfolding mem heap_at_def by simp
      then show "vs ! (rt x - 1) \<le> vs ! (z - 1)"
        using S1(2) z r(6,7) by (simp add: teams_rep_def members_def)
    qed
    ultimately show ?thesis
      using teams_kill [OF S1(2) r(1,2) h m(2) refl] by blast
  qed
qed

section \<open>The whole program\<close>

lemma lt_step_meets:
  assumes "teams_inv vs S a" and "team_ok (length vs) op"
  shows "\<exists>S' a' out. lt_step S op = Some (S', out) \<and> team_step vs a op a' out \<and> teams_inv vs S' a'"
proof -
  obtain lab dead rt dep where "a = (lab, dead)" "teams_rep vs S lab dead rt dep"
    using assms(1) by (cases a) (auto simp: teams_inv_def)
  then show ?thesis
    using assms(2) lt_merge_step lt_kill_step by (cases op) blast+
qed

interpretation lt: spec_program lt_step "team_step vs" "team_ok (length vs)" "teams_inv vs"
  by unfold_locales (rule lt_step_meets)

lemma lt_init_ok:
  assumes "length vs < N"
  shows "\<exists>S. for_each (\<lambda>i. lt_init (vs ! nat (i - 1)) i) [1..int (length vs)]
       \<lparr>tm_t = (\<lambda>_. \<lparr>ln_val = 0, ln_ls = 0, ln_rs = 0, ln_d = - 1\<rparr>), tm_f = replicate N 0, tm_kill = (\<lambda>_. False)\<rparr> = Some S \<and>
     teams_inv vs S ([0..<length vs + 1], {})"
proof -
  define I where "I k S = (length (tm_f S) = N \<and> tm_kill S = (\<lambda>_. False) \<and> ln_d (tm_t S 0) = - 1 \<and>
      (\<forall>x. 1 \<le> x \<and> x \<le> k \<longrightarrow> tm_t S x = \<lparr>ln_val = vs ! (x - 1), ln_ls = 0, ln_rs = 0, ln_d = 0\<rparr> \<and> tm_f S ! x = x))" for k and S :: teams
  let ?S = "\<lparr>tm_t = (\<lambda>_. \<lparr>ln_val = 0, ln_ls = 0, ln_rs = 0, ln_d = - 1\<rparr>), tm_f = replicate N 0, tm_kill = (\<lambda>_. False)\<rparr>"
  have "\<exists>S'. lt_init (vs ! nat (int i + 1 - 1)) (int i + 1) S = Some S' \<and> I (Suc i) S'" if "i < length vs" "I i S" for i S
    using that assms by (auto simp: lt_init_def I_def ln_upd_def nat_add_distrib nth_list_update le_Suc_eq)
  moreover have "I 0 ?S"
    by (simp add: I_def)
  ultimately obtain S where S: "for_each (\<lambda>i. lt_init (vs ! nat (i - 1)) i) [1..int (length vs)] ?S = Some S" "I (length vs) S"
    using for_each_upto [of I ?S "length vs" "\<lambda>i. lt_init (vs ! nat (i - 1)) i"] by blast
  let ?lab = "[0..<length vs + 1]"
  have mem: "members (length vs) ?lab {} x = {x}" if "1 \<le> x" "x \<le> length vs" for x
    using that by (auto simp: members_def simp del: upt_Suc)
  have "heap_at (length vs) ?lab {} (tm_t S) x (LN LE x LE)" if "1 \<le> x" "x \<le> length vs" for x
    using that S(2) mem [OF that] assms by (simp add: heap_at_def I_def del: upt_Suc)
  moreover have "rooted (in_team (length vs) ?lab {}) (\<lambda>x. x) (\<lambda>_. 0) (tm_f S)"
    using S(2) assms by (intro rootedI) (auto simp: in_team_def I_def simp del: upt_Suc)
  ultimately have "teams_rep vs S ?lab {} (\<lambda>x. x) (\<lambda>_. 0)"
    using S(2) assms unfolding teams_rep_def by (auto simp: I_def in_team_def simp del: upt_Suc)
  then show ?thesis
    using S(1) teams_invI by blast
qed

text \<open>
  C17. For at most 1000009 persons and any operations on them, the program \<^verbatim>\<open>leftist-tree_1.cpp\<close> ends without leaving its arrays, and what it prints
  is a run of the specification: a merge unites the teams of two living persons and is ignored when one of them is dead, a kill takes one of the weakest
  living persons of the team and prints the value, or prints 0 when the person asked for is dead.
\<close>

theorem leftist_main_correct:
  assumes "length vs < N" and "list_all (team_ok (length vs)) ops"
  shows "\<exists>S out a. lt_main vs ops = Some (S, out) \<and> spec_run (team_step vs) ([0..<length vs + 1], {}) ops a out"
proof -
  obtain S where S: "for_each (\<lambda>i. lt_init (vs ! nat (i - 1)) i) [1..int (length vs)]
       \<lparr>tm_t = (\<lambda>_. \<lparr>ln_val = 0, ln_ls = 0, ln_rs = 0, ln_d = - 1\<rparr>), tm_f = replicate N 0, tm_kill = (\<lambda>_. False)\<rparr> = Some S"
      "teams_inv vs S ([0..<length vs + 1], {})"
    using lt_init_ok [OF assms(1)] by blast
  then show ?thesis
    using lt.loop_meets [OF S(2) assms(2)] unfolding lt_main_def by auto
qed

lemma members_three: "members (Suc (Suc (Suc 0))) lab dead x = set (filter (\<lambda>y. y \<notin> dead \<and> lab ! y = lab ! x) [1, 2, 3])"
proof -
  have "1 \<le> y \<and> y \<le> (3::nat) \<longleftrightarrow> y \<in> set [1, 2, 3]" for y
    by simp presburger
  then show ?thesis
    unfolding members_def set_filter by (simp add: numeral_3_eq_3 [symmetric]) blast
qed

theorem leftist_main_correct_witness:
  "\<exists>S. lt_main [100, 90, 66] [LKill 1, LKill 1, LMerge 2 3, LKill 2] = Some (S, [100, 0, 66])"
proof -
  let ?vs = "[100, 90, 66]" and ?ops = "[LKill 1, LKill 1, LMerge 2 3, LKill 2]"
  have "[0..<length ?vs + 1] = [0, 1, 2, 3]" "list_all (team_ok (length ?vs)) ?ops" "length ?vs < N"
    by (simp_all add: upt_rec numeral_2_eq_2 numeral_3_eq_3 N_def)
  then obtain S out a where "lt_main ?vs ?ops = Some (S, out)" "spec_run (team_step ?vs) ([0, 1, 2, 3], {}) ?ops a out"
    using leftist_main_correct [of ?vs ?ops] by metis
  then show ?thesis
    by (auto simp: spec_run_Cons team_kill_iff team_merge_iff members_three split: if_splits)
qed

end
