(* ===== verification/ReadInt.thy ===== *)
theory ReadInt
  imports QueryLoop "HOL-Library.Word"
begin

text \<open>
  The hand-written functions \<open>read\<close> and \<open>rd\<close> that several programs use for input, \<^verbatim>\<open>sparse-table/sparse-table_1.cpp\<close> and
  \<^verbatim>\<open>seg-beats/seg-beats_1.cpp\<close> in 32 bits, \<^verbatim>\<open>seg/seg_2.cpp\<close> and \<^verbatim>\<open>seg-beats/seg-beats_3.cpp\<close> in 64 bits, on the characters of standard
  input (\<open>nc\<close>, which reads blocks, hands out the same characters as \<open>getchar\<close>). At the end of the input \<open>getchar\<close> returns no
  digit, so that a search for a number never ends (\<open>None\<close>). Shown: they read back every number that \<^verbatim>\<open>printf("%d")\<close>
  prints, the smallest one included, whose digits overflow on the way.
\<close>

section \<open>Characters and numbers\<close>

definition is_digit :: "char \<Rightarrow> bool" where
  "is_digit c = (48 \<le> (of_char c :: nat) \<and> (of_char c :: nat) \<le> 57)"

abbreviation minus_sign :: char where
  "minus_sign \<equiv> CHR ''-''"

text \<open>The second loop of \<open>read\<close>: \<open>x = x * 10 + c - '0'\<close>; the character after the digits is consumed.\<close>

fun read_digits :: "'w::len word \<Rightarrow> string \<Rightarrow> 'w word \<times> string" where
  "read_digits x [] = (x, [])"
| "read_digits x (c # cs) = (if is_digit c then read_digits (x * 10 + of_nat (of_char c) - 48) cs else (x, cs))"

text \<open>\<^verbatim>\<open>sparse-table_1.cpp\<close> and \<^verbatim>\<open>seg-beats_3.cpp\<close>: the first loop notes every minus sign it skips.\<close>

fun skip_to_digit :: "'w::len word \<Rightarrow> string \<Rightarrow> ('w word \<times> string) option" where
  "skip_to_digit f [] = None"
| "skip_to_digit f (c # cs) = (if is_digit c then Some (f, c # cs) else skip_to_digit (if c = minus_sign then - 1 else f) cs)"

definition st_read :: "string \<Rightarrow> (int \<times> string) option" where
  "st_read inp = do {
     (f, inp) \<leftarrow> skip_to_digit 1 inp;
     let (x, inp) = read_digits (0 :: 32 word) inp;
     Some (sint (x * f), inp)
   }"

definition sb3_rd :: "string \<Rightarrow> (int \<times> string) option" where
  "sb3_rd inp = do {
     (w, inp) \<leftarrow> skip_to_digit 1 inp;
     let (s, inp) = read_digits (0 :: 64 word) inp;
     Some (sint (s * w), inp)
   }"

text \<open>\<^verbatim>\<open>seg-beats_1.cpp\<close>: there are no signs.\<close>

fun skip_others :: "string \<Rightarrow> string option" where
  "skip_others [] = None"
| "skip_others (c # cs) = (if is_digit c then Some (c # cs) else skip_others cs)"

definition sb1_rd :: "string \<Rightarrow> (int \<times> string) option" where
  "sb1_rd inp = do {
     inp \<leftarrow> skip_others inp;
     let (res, inp) = read_digits (0 :: 32 word) inp;
     Some (sint res, inp)
   }"

text \<open>\<^verbatim>\<open>seg_2.cpp\<close>: the first loop stops at a minus sign.\<close>

fun skip_to_number :: "string \<Rightarrow> string option" where
  "skip_to_number [] = None"
| "skip_to_number (c # cs) = (if c \<noteq> minus_sign \<and> \<not> is_digit c then skip_to_number cs else Some (c # cs))"

definition seg2_read :: "string \<Rightarrow> (int \<times> string) option" where
  "seg2_read inp = do {
     inp \<leftarrow> skip_to_number inp;
     let (w, inp) = (if hd inp = minus_sign then (- 1, tl inp) else (1, inp));
     let (q, inp) = read_digits (0 :: 64 word) inp;
     Some (sint (w * q), inp)
   }"

section \<open>Decimal output\<close>

definition digit :: "nat \<Rightarrow> char" where
  "digit d = char_of (48 + d)"

fun digits :: "nat \<Rightarrow> string" where
  "digits n = (if n < 10 then [digit n] else digits (n div 10) @ [digit (n mod 10)])"

declare digits.simps [simp del]

definition print_int :: "int \<Rightarrow> string" where
  "print_int k = (if k < 0 then minus_sign # digits (nat (- k)) else digits (nat k))"

lemma of_char_digit: "d < 10 \<Longrightarrow> of_char (digit d) = 48 + d"
  by (simp add: digit_def)

lemma digit_chars:
  "digit 0 = CHR ''0''" "digit 1 = CHR ''1''" "digit (Suc 0) = CHR ''1''" "digit 2 = CHR ''2''" "digit 3 = CHR ''3''" "digit 4 = CHR ''4''"
  "digit 5 = CHR ''5''" "digit 6 = CHR ''6''" "digit 7 = CHR ''7''" "digit 8 = CHR ''8''" "digit 9 = CHR ''9''"
  by code_simp+

lemma is_digit_digit: "d < 10 \<Longrightarrow> is_digit (digit d)"
  by (simp add: is_digit_def of_char_digit)

lemma digits_ok: "c \<in> set (digits n) \<Longrightarrow> is_digit c"
  by (induction n rule: digits.induct) (subst (asm) digits.simps, auto simp: is_digit_digit split: if_splits)

lemma minus_no_digit: "\<not> is_digit minus_sign"
  by (simp add: is_digit_def)

lemma digits_nonempty: "digits n \<noteq> []"
  by (subst digits.simps) simp

lemma read_digits_append:
  "read_digits x (digits n @ cs) = read_digits (x * 10 ^ length (digits n) + of_nat n) cs"
proof (induction n arbitrary: x cs rule: digits.induct)
  case (1 n)
  show ?case
  proof (cases "n < 10")
    case True
    then show ?thesis
      by (simp add: digits.simps [of n] is_digit_digit of_char_digit)
  next
    case False
    have "of_nat n = (of_nat (n div 10 * 10 + n mod 10) :: 'a word)"
      by simp
    then have split: "of_nat n = (of_nat (n div 10) * 10 + of_nat (n mod 10) :: 'a word)"
      by (simp only: of_nat_add of_nat_mult of_nat_numeral)
    have "read_digits x (digits n @ cs) = read_digits (x * 10 ^ length (digits (n div 10)) + of_nat (n div 10)) (digit (n mod 10) # cs)"
      using 1 [OF False, of x "digit (n mod 10) # cs"] False by (simp add: digits.simps [of n])
    also have "\<dots> = read_digits (x * 10 ^ length (digits n) + of_nat n) cs"
      unfolding split using False by (simp add: digits.simps [of n] is_digit_digit of_char_digit algebra_simps)
    finally show ?thesis .
  qed
qed

section \<open>Reading back\<close>

lemma read_digits_number:
  assumes "\<not> is_digit c"
  shows "read_digits 0 (digits n @ c # cs) = (of_nat n, cs)" "read_digits 0 (digits n) = (of_nat n, [])"
  using read_digits_append [of 0 n "c # cs"] read_digits_append [of 0 n "[]"] assms by simp_all

lemma skip_to_digit_append:
  "\<forall>c \<in> set pre. \<not> is_digit c \<and> c \<noteq> minus_sign \<Longrightarrow> skip_to_digit f (pre @ cs) = skip_to_digit f cs"
  by (induction pre) auto

lemma skip_to_digit_digits: "skip_to_digit f (digits n @ cs) = Some (f, digits n @ cs)"
  using digits_nonempty [of n] digits_ok [of "hd (digits n)" n] by (cases "digits n") auto

lemma skip_others_append: "\<forall>c \<in> set pre. \<not> is_digit c \<Longrightarrow> skip_others (pre @ cs) = skip_others cs"
  by (induction pre) auto

lemma skip_others_digits: "skip_others (digits n @ cs) = Some (digits n @ cs)"
  using digits_nonempty [of n] digits_ok [of "hd (digits n)" n] by (cases "digits n") auto

lemma skip_to_number_append:
  "\<forall>c \<in> set pre. \<not> is_digit c \<and> c \<noteq> minus_sign \<Longrightarrow> skip_to_number (pre @ cs) = skip_to_number cs"
  by (induction pre) auto

lemma skip_to_number_digits: "skip_to_number (digits n @ cs) = Some (digits n @ cs)" "hd (digits n @ cs) \<noteq> minus_sign"
  using digits_nonempty [of n] digits_ok [of "hd (digits n)" n] minus_no_digit by (cases "digits n"; auto)+

text \<open>The value of a number as the loop computes it, sign included.\<close>

lemma signed_value:
  fixes k :: int
  assumes "- (2 ^ (LENGTH('w) - 1)) \<le> k" and "k < 2 ^ (LENGTH('w) - 1)"
  shows "k < 0 \<Longrightarrow> sint (- of_nat (nat (- k)) :: 'w::len word) = k" "0 \<le> k \<Longrightarrow> sint (of_nat (nat k) :: 'w::len word) = k"
proof -
  have "sint (of_int k :: 'w word) = k"
    using assms by (simp add: signed_of_int signed_take_bit_int_eq_self)
  then show "k < 0 \<Longrightarrow> sint (- of_nat (nat (- k)) :: 'w word) = k" "0 \<le> k \<Longrightarrow> sint (of_nat (nat k) :: 'w word) = k"
    by (simp_all add: of_nat_nat)
qed

lemma st_read_print:
  assumes "\<forall>c \<in> set pre. \<not> is_digit c \<and> c \<noteq> minus_sign" and "- (2 ^ 31) \<le> k" and "k < 2 ^ 31" and "\<not> is_digit sep"
  shows "st_read (pre @ print_int k @ sep # rest) = Some (k, rest)" "st_read (pre @ print_int k) = Some (k, [])"
proof -
  have v: "k < 0 \<Longrightarrow> sint (- of_nat (nat (- k)) :: 32 word) = k" "0 \<le> k \<Longrightarrow> sint (of_nat (nat k) :: 32 word) = k"
    using signed_value [where 'w = 32, of k] assms(2,3) by simp_all
  show "st_read (pre @ print_int k @ sep # rest) = Some (k, rest)" "st_read (pre @ print_int k) = Some (k, [])"
    using v
    by (simp_all add: st_read_def print_int_def read_digits_number [OF assms(4)] skip_to_digit_append [OF assms(1)] skip_to_digit_digits skip_to_digit_digits [where cs = "[]", simplified] minus_no_digit)
qed

lemma sb3_rd_print:
  assumes "\<forall>c \<in> set pre. \<not> is_digit c \<and> c \<noteq> minus_sign" and "- (2 ^ 63) \<le> k" and "k < 2 ^ 63" and "\<not> is_digit sep"
  shows "sb3_rd (pre @ print_int k @ sep # rest) = Some (k, rest)" "sb3_rd (pre @ print_int k) = Some (k, [])"
proof -
  have v: "k < 0 \<Longrightarrow> sint (- of_nat (nat (- k)) :: 64 word) = k" "0 \<le> k \<Longrightarrow> sint (of_nat (nat k) :: 64 word) = k"
    using signed_value [where 'w = 64, of k] assms(2,3) by simp_all
  show "sb3_rd (pre @ print_int k @ sep # rest) = Some (k, rest)" "sb3_rd (pre @ print_int k) = Some (k, [])"
    using v
    by (simp_all add: sb3_rd_def print_int_def read_digits_number [OF assms(4)] skip_to_digit_append [OF assms(1)] skip_to_digit_digits skip_to_digit_digits [where cs = "[]", simplified] minus_no_digit)
qed

lemma sb1_rd_print:
  assumes "\<forall>c \<in> set pre. \<not> is_digit c" and "0 \<le> k" and "k < 2 ^ 31" and "\<not> is_digit sep"
  shows "sb1_rd (pre @ print_int k @ sep # rest) = Some (k, rest)" "sb1_rd (pre @ print_int k) = Some (k, [])"
proof -
  have v: "sint (of_nat (nat k) :: 32 word) = k"
    using signed_value(2) [where 'w = 32, of k] assms(2,3) by simp
  show "sb1_rd (pre @ print_int k @ sep # rest) = Some (k, rest)" "sb1_rd (pre @ print_int k) = Some (k, [])"
    using v skip_others_digits [of _ "[]"] assms(2)
    by (simp_all add: sb1_rd_def print_int_def read_digits_number [OF assms(4)] skip_others_append [OF assms(1)] skip_others_digits)
qed

lemma seg2_read_print:
  assumes "\<forall>c \<in> set pre. \<not> is_digit c \<and> c \<noteq> minus_sign" and "- (2 ^ 63) \<le> k" and "k < 2 ^ 63" and "\<not> is_digit sep"
  shows "seg2_read (pre @ print_int k @ sep # rest) = Some (k, rest)" "seg2_read (pre @ print_int k) = Some (k, [])"
proof -
  have v: "k < 0 \<Longrightarrow> sint (- of_nat (nat (- k)) :: 64 word) = k" "0 \<le> k \<Longrightarrow> sint (of_nat (nat k) :: 64 word) = k"
    using signed_value [where 'w = 64, of k] assms(2,3) by simp_all
  show "seg2_read (pre @ print_int k @ sep # rest) = Some (k, rest)" "seg2_read (pre @ print_int k) = Some (k, [])"
    using v skip_to_number_digits [of _ "[]"]
    by (simp_all add: seg2_read_def print_int_def read_digits_number [OF assms(4)] skip_to_number_append [OF assms(1)] skip_to_number_digits)
qed

text \<open>
  C26. The functions \<open>read\<close> and \<open>rd\<close> invert \<^verbatim>\<open>printf("%d")\<close>: after any characters that are neither digits nor minus signs, the decimal form
  of every 32-bit (64-bit) number is read as that number, the character that ends it is consumed, and the rest of the
  input is left; a number at the very end of the input is read as well. The \<open>rd\<close> of \<^verbatim>\<open>seg-beats_1.cpp\<close> does so for numbers that are not negative.
\<close>

theorem read_print_roundtrip:
  assumes "\<forall>c \<in> set pre. \<not> is_digit c \<and> c \<noteq> minus_sign" and "\<not> is_digit sep"
  shows "(- (2 ^ 31) \<le> k \<and> k < 2 ^ 31 \<longrightarrow>
      st_read (pre @ print_int k @ sep # rest) = Some (k, rest) \<and> st_read (pre @ print_int k) = Some (k, [])) \<and>
    (- (2 ^ 63) \<le> k \<and> k < 2 ^ 63 \<longrightarrow>
      seg2_read (pre @ print_int k @ sep # rest) = Some (k, rest) \<and> seg2_read (pre @ print_int k) = Some (k, [])) \<and>
    (- (2 ^ 63) \<le> k \<and> k < 2 ^ 63 \<longrightarrow>
      sb3_rd (pre @ print_int k @ sep # rest) = Some (k, rest) \<and> sb3_rd (pre @ print_int k) = Some (k, [])) \<and>
    (0 \<le> k \<and> k < 2 ^ 31 \<longrightarrow>
      sb1_rd (pre @ print_int k @ sep # rest) = Some (k, rest) \<and> sb1_rd (pre @ print_int k) = Some (k, []))"
  using st_read_print [OF assms(1) _ _ assms(2)] seg2_read_print [OF assms(1) _ _ assms(2)] sb3_rd_print [OF assms(1) _ _ assms(2)]
    sb1_rd_print [OF _ _ _ assms(2)] assms(1) by simp

theorem read_print_roundtrip_witness:
  "st_read ''  -2147483648 17'' = Some (- 2147483648, ''17'') \<and> seg2_read ''  -2147483648'' = Some (- 2147483648, [])"
proof -
  have blank: "\<forall>c \<in> set [CHR '' '', CHR '' '']. \<not> is_digit c \<and> c \<noteq> minus_sign" "\<not> is_digit (CHR '' '')"
    by code_simp+
  have "print_int (- 2147483648) = ''-2147483648''"
    by (simp add: print_int_def digits.simps digit_chars)
  then show ?thesis
    using read_print_roundtrip [OF blank, where k = "- 2147483648" and rest = "''17''"] by simp
qed

end
