(* ===== verification/SparseTable.thy ===== *)
theory SparseTable
  imports ReadInt
begin

text \<open>
  The program \<^verbatim>\<open>sparse-table/sparse-table_1.cpp\<close> from the characters it reads to those it prints: range maxima from a
  table of the maxima of all ranges whose length is a power of two. Shown: for every input text with at most 2000000 numbers
  and queries inside the array it prints the maxima of the ranges, and no access leaves the arrays.
\<close>

section \<open>The program\<close>

definition maxn :: nat where
  "maxn = 2000001"

type_synonym sparse = "nat \<Rightarrow> nat \<Rightarrow> int"

text \<open>\<open>f[i][j]\<close> of the array \<open>int f[maxn][logn + 1]\<close> with \<open>logn = 21\<close>, and \<open>Logn[i]\<close> of \<open>int Logn[maxn + 1]\<close>.\<close>

definition f_get :: "sparse \<Rightarrow> int \<Rightarrow> nat \<Rightarrow> int option" where
  "f_get f i j = (if 0 \<le> i \<and> i < int maxn \<and> j \<le> 21 then Some (f (nat i) j) else None)"

definition f_set :: "int \<Rightarrow> nat \<Rightarrow> int \<Rightarrow> sparse \<Rightarrow> sparse option" where
  "f_set i j v f = (if 0 \<le> i \<and> i < int maxn \<and> j \<le> 21 then Some (f(nat i := (f (nat i))(j := v))) else None)"

definition Logn_get :: "(nat \<Rightarrow> nat) \<Rightarrow> int \<Rightarrow> nat option" where
  "Logn_get Logn i = (if 0 \<le> i \<and> i \<le> int maxn then Some (Logn (nat i)) else None)"

text \<open>The loop of \<open>pre\<close> stays within the array.\<close>

definition st_pre_loop :: "nat \<Rightarrow> nat \<Rightarrow> nat" where
  "st_pre_loop M = fold (\<lambda>i Logn. Logn(i := Logn (i div 2) + 1)) [3..<M] ((\<lambda>_. 0)(1 := 0, 2 := 1))"

definition st_pre :: "nat \<Rightarrow> nat" where
  "st_pre = st_pre_loop maxn"

definition st_input :: "int \<Rightarrow> sparse \<times> string \<Rightarrow> (sparse \<times> string) option" where
  "st_input i = (\<lambda>(f, inp). do {
     (v, inp) \<leftarrow> st_read inp;
     f \<leftarrow> f_set i 0 v f;
     Some (f, inp)
   })"

text \<open>The body of the two nested loops, and the loops; the inner one runs while \<open>i + (1 << j) - 1 <= n\<close>.\<close>

definition st_cell :: "nat \<Rightarrow> int \<Rightarrow> sparse \<Rightarrow> sparse option" where
  "st_cell j i f = do {
     a \<leftarrow> f_get f i (j - 1);
     b \<leftarrow> f_get f (i + 2 ^ (j - 1)) (j - 1);
     f_set i j (max a b) f
   }"

definition st_build :: "int \<Rightarrow> sparse \<Rightarrow> sparse option" where
  "st_build n = for_each (\<lambda>j. for_each (st_cell j) [1..n - 2 ^ j + 1]) [1..<22]"

definition st_query :: "sparse \<Rightarrow> (nat \<Rightarrow> nat) \<Rightarrow> string \<times> string \<Rightarrow> (string \<times> string) option" where
  "st_query f Logn = (\<lambda>(inp, out). do {
     (x, inp) \<leftarrow> st_read inp;
     (y, inp) \<leftarrow> st_read inp;
     s \<leftarrow> Logn_get Logn (y - x + 1);
     a \<leftarrow> f_get f x s;
     b \<leftarrow> f_get f (y - 2 ^ s + 1) s;
     Some (inp, out @ print_int (max a b) @ [CHR 0x0A])
   })"

definition st_main :: "string \<Rightarrow> string option" where
  "st_main inp = do {
     (n, inp) \<leftarrow> st_read inp;
     (m, inp) \<leftarrow> st_read inp;
     (f, inp) \<leftarrow> for_each st_input [1..n] ((\<lambda>_ _. 0), inp);
     f \<leftarrow> st_build n f;
     (inp, out) \<leftarrow> for_each (\<lambda>_. st_query f st_pre) [1..m] (inp, []);
     Some out
   }"

section \<open>The input text and the reference\<close>

definition text_of :: "int list \<Rightarrow> string" where
  "text_of ks = concat (map (\<lambda>k. print_int k @ '' '') ks)"

text \<open>The maximum of the \<open>l\<close> numbers from the \<open>i\<close>-th on, counted from 1.\<close>

definition range_max :: "int list \<Rightarrow> nat \<Rightarrow> nat \<Rightarrow> int" where
  "range_max a i l = Max (set (map (\<lambda>t. a ! (t - 1)) [i..<i + l]))"

definition st_text :: "int list \<Rightarrow> (nat \<times> nat) list \<Rightarrow> string" where
  "st_text a qs = text_of (int (length a) # int (length qs) # a @ concat (map (\<lambda>(x, y). [int x, int y]) qs))"

definition st_answers :: "int list \<Rightarrow> (nat \<times> nat) list \<Rightarrow> string" where
  "st_answers a qs = concat (map (\<lambda>(x, y). print_int (range_max a x (y + 1 - x)) @ [CHR 0x0A]) qs)"

section \<open>Reading\<close>

lemma text_of_Cons: "text_of (k # ks) = print_int k @ CHR '' '' # text_of ks"
  by (simp add: text_of_def)

lemma read_text:
  assumes "- (2 ^ 31) \<le> k" and "k < 2 ^ 31"
  shows "st_read (text_of (k # ks)) = Some (k, text_of ks)"
  unfolding text_of_Cons
  by (rule st_read_print(1) [where pre = "[]", simplified]) (use assms in \<open>auto simp: is_digit_def\<close>)

section \<open>Logarithms\<close>

lemma st_pre_loop_Suc:
  "st_pre_loop (Suc M) = (if 3 \<le> M then (st_pre_loop M)(M := st_pre_loop M (M div 2) + 1) else (\<lambda>_. 0)(1 := 0, 2 := 1))"
  by (simp add: st_pre_loop_def del: fun_upd_apply)

lemma st_pre_loop_ok:
  assumes "1 \<le> i" and "i < M"
  shows "2 ^ st_pre_loop M i \<le> i \<and> i < 2 ^ Suc (st_pre_loop M i)"
  using assms
proof (induction M arbitrary: i)
  case (Suc M)
  consider "M < 3" "i = 1 \<or> i = 2" | "3 \<le> M" "i = M" | "3 \<le> M" "i < M"
    using Suc.prems by linarith
  then show ?case
  proof cases
    case 2
    then have "2 ^ st_pre_loop M (i div 2) \<le> i div 2 \<and> i div 2 < 2 ^ Suc (st_pre_loop M (i div 2))"
      by (intro Suc.IH) auto
    then show ?thesis
      using 2 by (auto simp: st_pre_loop_Suc)
  next
    case 3
    then show ?thesis
      using Suc.IH [of i] Suc.prems(1) by (simp add: st_pre_loop_Suc)
  qed (auto simp: st_pre_loop_Suc)
qed simp

lemma st_pre_ok: "1 \<le> i \<Longrightarrow> i < maxn \<Longrightarrow> 2 ^ st_pre i \<le> i \<and> i < 2 ^ Suc (st_pre i)"
  unfolding st_pre_def by (rule st_pre_loop_ok)

section \<open>Ranges\<close>

lemma range_max_union:
  assumes "{i..<i + l} = {i..<i + l1} \<union> {k..<k + l2}" and "0 < l1" and "0 < l2"
  shows "range_max a i l = max (range_max a i l1) (range_max a k l2)"
proof -
  have "set (map (\<lambda>t. a ! (t - 1)) [i..<i + l]) = set (map (\<lambda>t. a ! (t - 1)) [i..<i + l1]) \<union> set (map (\<lambda>t. a ! (t - 1)) [k..<k + l2])"
    by (simp only: set_map set_upt assms(1) image_Un)
  then show ?thesis
    using assms(2,3) by (simp add: range_max_def Max_Un)
qed

section \<open>The table\<close>

definition level_ok :: "int list \<Rightarrow> nat \<Rightarrow> sparse \<Rightarrow> bool" where
  "level_ok a j f = (\<forall>i. 1 \<le> i \<and> i + 2 ^ j \<le> length a + 1 \<longrightarrow> f i j = range_max a i (2 ^ j))"

lemma f_access:
  assumes "i < maxn" and "j \<le> 21"
  shows "f_get f (int i) j = Some (f i j)" "f_set (int i) j v f = Some (f(i := (f i)(j := v)))"
  using assms by (simp_all add: f_get_def f_set_def)

lemma st_cell_ok:
  assumes "level_ok a j f" and "j < 21" and "length a < maxn" and "1 \<le> i" and "i + 2 ^ Suc j \<le> length a + 1"
  shows "st_cell (Suc j) (int i) f = Some (f(i := (f i)(Suc j := range_max a i (2 ^ Suc j))))"
proof -
  have "f i j = range_max a i (2 ^ j)" "f (i + 2 ^ j) j = range_max a (i + 2 ^ j) (2 ^ j)"
    using assms(1,4,5) by (simp_all add: level_ok_def)
  moreover have "range_max a i (2 ^ Suc j) = max (range_max a i (2 ^ j)) (range_max a (i + 2 ^ j) (2 ^ j))"
    by (rule range_max_union) auto
  moreover have "1 \<le> (2 :: nat) ^ j"
    by simp
  then have "i < maxn" "i + 2 ^ j < maxn"
    using assms(3,5) unfolding power_Suc by linarith+
  ultimately show ?thesis
    using f_access [of i "Suc j"] f_access(1) [of i j f] f_access(1) [of "i + 2 ^ j" j f] assms(2) by (simp add: st_cell_def)
qed

lemma st_level_ok:
  assumes "\<forall>j' \<le> j. level_ok a j' f" and "j < 21" and "length a < maxn"
  shows "\<exists>f'. for_each (st_cell (Suc j)) [1..int (length a) - 2 ^ Suc j + 1] f = Some f' \<and> (\<forall>j' \<le> Suc j. level_ok a j' f')"
proof (cases "2 ^ Suc j \<le> length a")
  case False
  then have "int (length a) < 2 ^ Suc j"
    by (metis not_le_imp_less of_nat_less_iff of_nat_numeral of_nat_power)
  then have "[1..int (length a) - 2 ^ Suc j + 1] = []"
    by simp
  then show ?thesis
    using assms(1) False by (auto simp: level_ok_def le_Suc_eq)
next
  case True
  let ?k = "length a + 1 - 2 ^ Suc j"
  define I where "I i g = ((\<forall>j' \<le> j. level_ok a j' g) \<and> (\<forall>t. 1 \<le> t \<and> t \<le> i \<longrightarrow> g t (Suc j) = range_max a t (2 ^ Suc j)))" for i and g :: sparse
  have "\<exists>g'. st_cell (Suc j) (int i + 1) g = Some g' \<and> I (Suc i) g'" if "i < ?k" "I i g" for i g
  proof -
    have "st_cell (Suc j) (int (Suc i)) g = Some (g(Suc i := (g (Suc i))(Suc j := range_max a (Suc i) (2 ^ Suc j))))"
      by (rule st_cell_ok) (use that assms in \<open>auto simp: I_def\<close>)
    moreover have "I (Suc i) (g(Suc i := (g (Suc i))(Suc j := range_max a (Suc i) (2 ^ Suc j))))"
      using that(2) by (auto simp: I_def level_ok_def le_Suc_eq)
    ultimately show ?thesis
      by (simp add: add.commute)
  qed
  moreover have "I 0 f"
    using assms(1) by (simp add: I_def)
  ultimately obtain f' where f': "for_each (st_cell (Suc j)) [1..int ?k] f = Some f'" "I ?k f'"
    using for_each_upto [of I f ?k "st_cell (Suc j)"] by blast
  have "int (length a) - 2 ^ Suc j + 1 = int ?k"
    using True by (simp add: of_nat_diff)
  moreover have "level_ok a (Suc j) f'"
    using f'(2) by (auto simp: I_def level_ok_def)
  ultimately show ?thesis
    using f' by (auto simp: I_def le_Suc_eq)
qed

lemma st_build_ok:
  assumes "level_ok a 0 f" and "length a < maxn"
  shows "\<exists>f'. st_build (int (length a)) f = Some f' \<and> (\<forall>j \<le> 21. level_ok a j f')"
proof -
  define I where "I j g = (\<forall>j' < j. level_ok a j' g)" for j and g :: sparse
  have "\<exists>g'. for_each (st_cell j) [1..int (length a) - 2 ^ j + 1] g = Some g' \<and> I (Suc j) g'" if "1 \<le> j" "j < 22" "I j g" for j g
  proof -
    have "j = Suc (j - 1)"
      using that(1) by simp
    then obtain i where "j = Suc i" ..
    then show ?thesis
      using st_level_ok [of i a g] that assms(2) by (auto simp: I_def less_Suc_eq_le)
  qed
  moreover have "I 1 f"
    using assms(1) by (simp add: I_def)
  ultimately have "\<exists>f'. for_each (\<lambda>j. for_each (st_cell j) [1..int (length a) - 2 ^ j + 1]) [1..<22] f = Some f' \<and> I 22 f'"
    by (intro for_each_upt) auto
  then show ?thesis
    unfolding st_build_def by (auto simp: I_def)
qed

section \<open>Queries\<close>

lemma st_query_ok:
  assumes "\<forall>j \<le> 21. level_ok a j f" and "length a < maxn" and "1 \<le> x" and "x \<le> y" and "y \<le> length a"
  shows "st_query f st_pre (text_of (int x # int y # ks), out) =
    Some (text_of ks, out @ print_int (range_max a x (y + 1 - x)) @ [CHR 0x0A])"
proof -
  define l s where "l = y + 1 - x" and "s = st_pre l"
  have l: "1 \<le> l" "l < maxn" "int y - int x + 1 = int l" "x + l = y + 1"
    using assms by (auto simp: l_def)
  have s: "2 ^ s \<le> l" "l < 2 ^ Suc s"
    using st_pre_ok [OF l(1,2)] by (auto simp: s_def)
  have "(2 :: nat) ^ s < 2 ^ 21"
    using s(1) l(2) by (simp add: maxn_def)
  then have s21: "s \<le> 21"
    by (metis less_imp_le_nat one_less_numeral_iff power_less_imp_less_exp semiring_norm(76))
  let ?k = "x + (l - 2 ^ s)"
  have "(1 :: nat) \<le> 2 ^ s"
    by simp
  then have km: "?k < maxn"
    using s(1) l(4) assms(2,5) by linarith
  have k: "int y - 2 ^ s + 1 = int ?k" "?k < maxn" "x < maxn" "1 \<le> ?k" "?k + 2 ^ s = x + l"
    using km s(1) l assms by (auto simp: of_nat_diff)
  have "f x s = range_max a x (2 ^ s)" "f ?k s = range_max a ?k (2 ^ s)"
    using assms(1,3,5) s21 s(1) l(4) k(4,5) unfolding level_ok_def by auto
  moreover have "range_max a x l = max (range_max a x (2 ^ s)) (range_max a ?k (2 ^ s))"
    by (rule range_max_union) (use s k(5) in auto)
  moreover have "Logn_get st_pre (int l) = Some s"
    using l(2) by (simp add: Logn_get_def s_def)
  moreover have "x < 2 ^ 31" "y < 2 ^ 31"
    using assms(2,4,5) by (simp_all add: maxn_def)
  ultimately show ?thesis
    using f_access(1) [OF k(3) s21] f_access(1) [OF k(2) s21] l(3) k(1)
    unfolding l_def [symmetric] by (simp add: st_query_def read_text)
qed

section \<open>The whole program\<close>

lemma st_input_ok:
  assumes "\<forall>v \<in> set a. - (2 ^ 31) \<le> v \<and> v < 2 ^ 31" and "length a < maxn"
  shows "\<exists>f. for_each st_input [1..int (length a)] ((\<lambda>_ _. 0), text_of (a @ ks)) = Some (f, text_of ks) \<and> level_ok a 0 f"
proof -
  define I where "I i S = (snd S = text_of (drop i a @ ks) \<and> (\<forall>t. 1 \<le> t \<and> t \<le> i \<longrightarrow> fst S t 0 = a ! (t - 1)))"
    for i and S :: "sparse \<times> string"
  have "\<exists>S'. st_input (int i + 1) S = Some S' \<and> I (Suc i) S'" if "i < length a" "I i S" for i S
  proof -
    have "drop i a = a ! i # drop (Suc i) a" "- (2 ^ 31) \<le> a ! i" "a ! i < 2 ^ 31"
      using that(1) assms(1) by (simp_all add: Cons_nth_drop_Suc)
    moreover have "Suc i < maxn"
      using that(1) assms(2) by simp
    ultimately show ?thesis
      using that(2) f_access(2) [of "Suc i" 0 "a ! i" "fst S"]
      by (auto simp: st_input_def I_def read_text add.commute le_Suc_eq split: prod.splits)
  qed
  moreover have "I 0 ((\<lambda>_ _. 0), text_of (a @ ks))"
    by (simp add: I_def)
  ultimately obtain S where "for_each st_input [1..int (length a)] ((\<lambda>_ _. 0), text_of (a @ ks)) = Some S" "I (length a) S"
    using for_each_upto [of I _ "length a" st_input] by blast
  then show ?thesis
    by (cases S) (auto simp: I_def level_ok_def range_max_def)
qed

lemma st_queries_ok:
  assumes "\<forall>j \<le> 21. level_ok a j f" and "length a < maxn" and "\<forall>(x, y) \<in> set qs. 1 \<le> x \<and> x \<le> y \<and> y \<le> length a"
  shows "for_each (\<lambda>_. st_query f st_pre) [1..int (length qs)] (text_of (concat (map (\<lambda>(x, y). [int x, int y]) qs)), []) =
    Some ([], st_answers a qs)"
proof -
  define I where "I i S = (S = (text_of (concat (map (\<lambda>(x, y). [int x, int y]) (drop i qs))), st_answers a (take i qs)))"
    for i and S :: "string \<times> string"
  have "\<exists>S'. st_query f st_pre S = Some S' \<and> I (Suc i) S'" if "i < length qs" "I i S" for i S
  proof -
    obtain x y where q: "qs ! i = (x, y)"
      by (cases "qs ! i")
    then have "drop i qs = (x, y) # drop (Suc i) qs" "take (Suc i) qs = take i qs @ [(x, y)]" "1 \<le> x \<and> x \<le> y \<and> y \<le> length a"
      using that(1) assms(3) nth_mem [OF that(1)] by (auto simp: take_Suc_conv_app_nth simp flip: Cons_nth_drop_Suc)
    then show ?thesis
      using that(2) st_query_ok [OF assms(1,2)] by (auto simp: I_def st_answers_def)
  qed
  moreover have "I 0 (text_of (concat (map (\<lambda>(x, y). [int x, int y]) qs)), [])"
    by (simp add: I_def st_answers_def)
  ultimately show ?thesis
    using for_each_upto [of I _ "length qs" "\<lambda>_. st_query f st_pre"] by (auto simp: I_def text_of_def)
qed

text \<open>
  C20. For an input text with the length of an array of at most 2000000 numbers of 32 bits, the number of queries, the numbers and the
  queries, each inside the array, the program \<^verbatim>\<open>sparse-table_1.cpp\<close> ends without an access outside its arrays and prints the
  maximum of every range on a line of its own.
\<close>

theorem sparse_table_correct:
  assumes "length a \<le> 2000000" and "length qs < 2 ^ 31" and "\<forall>v \<in> set a. - (2 ^ 31) \<le> v \<and> v < 2 ^ 31"
    and "\<forall>(x, y) \<in> set qs. 1 \<le> x \<and> x \<le> y \<and> y \<le> length a"
  shows "st_main (st_text a qs) = Some (st_answers a qs)"
proof -
  let ?qs = "concat (map (\<lambda>(x, y). [int x, int y]) qs)"
  have len: "length a < maxn"
    using assms(1) by (simp add: maxn_def)
  have "st_read (st_text a qs) = Some (int (length a), text_of (int (length qs) # a @ ?qs))"
      "st_read (text_of (int (length qs) # a @ ?qs)) = Some (int (length qs), text_of (a @ ?qs))"
    unfolding st_text_def using assms(1,2) by (simp_all add: read_text)
  moreover obtain f where f: "for_each st_input [1..int (length a)] ((\<lambda>_ _. 0), text_of (a @ ?qs)) = Some (f, text_of ?qs)" "level_ok a 0 f"
    using st_input_ok [OF assms(3) len] by blast
  moreover obtain g where "st_build (int (length a)) f = Some g" "\<forall>j \<le> 21. level_ok a j g"
    using st_build_ok [OF f(2) len] by blast
  moreover have "for_each (\<lambda>_. st_query g st_pre) [1..int (length qs)] (text_of ?qs, []) = Some ([], st_answers a qs)"
    by (rule st_queries_ok [OF \<open>\<forall>j \<le> 21. level_ok a j g\<close> len assms(4)])
  ultimately show ?thesis
    by (simp add: st_main_def)
qed

theorem sparse_table_correct_witness:
  "st_main ''5 2 9 -3 7 1 8 2 4 4 5 '' = Some (''7'' @ [CHR 0x0A] @ ''8'' @ [CHR 0x0A])"
proof -
  have "st_text [9, - 3, 7, 1, 8] [(2, 4), (4, 5)] = ''5 2 9 -3 7 1 8 2 4 4 5 ''"
    by (simp add: st_text_def text_of_def print_int_def digits.simps digit_chars)
  moreover have "range_max [9, - 3, 7, 1, 8] 2 3 = 7" "range_max [9, - 3, 7, 1, 8] 4 2 = 8"
    by code_simp+
  then have "st_answers [9, - 3, 7, 1, 8] [(2, 4), (4, 5)] = ''7'' @ [CHR 0x0A] @ ''8'' @ [CHR 0x0A]"
    by (simp add: st_answers_def print_int_def digits.simps digit_chars)
  ultimately show ?thesis
    using sparse_table_correct [of "[9, - 3, 7, 1, 8]" "[(2, 4), (4, 5)]"] by simp
qed

end
