(* ===== verification/SparseTableClass.thy ===== *)
theory SparseTableClass
  imports QueryLoop
begin

text \<open>
  The class template \<^verbatim>\<open>SparseTable\<close> of \<^verbatim>\<open>sparse-table/sparse-table_2.hpp\<close>. Its operation is a parameter; the locale \<open>idempotent_op\<close> has what the overlapping
  ranges of a query need of it: associativity and idempotence (commutativity is not needed). Shown: the
  constructor and all queries inside the vector stay inside the table, and a query gives the operation over the range.
\<close>

section \<open>The class\<close>

text \<open>\<open>floor(log2(n))\<close> and \<open>ceil(log2(n))\<close> for positive \<open>n\<close>.\<close>

fun floor_log2 :: "nat \<Rightarrow> nat" where
  "floor_log2 n = (if n \<le> 1 then 0 else Suc (floor_log2 (n div 2)))"

declare floor_log2.simps [simp del]

definition ceil_log2 :: "nat \<Rightarrow> nat" where
  "ceil_log2 n = (if n \<le> 1 then 0 else Suc (floor_log2 (n - 1)))"

text \<open>One cell of the table, as the inner loop fills it.\<close>

definition st2_cell :: "('a \<Rightarrow> 'a \<Rightarrow> 'a) \<Rightarrow> nat \<Rightarrow> nat \<Rightarrow> 'a list list \<Rightarrow> 'a list list option" where
  "st2_cell op j i ST = do {
     row \<leftarrow> vec_get ST i;
     x \<leftarrow> vec_get row (j - 1);
     row' \<leftarrow> vec_get ST (i + 2 ^ (j - 1));
     y \<leftarrow> vec_get row' (j - 1);
     row \<leftarrow> vec_set j (op x y) row;
     vec_set i row ST
   }"

definition st2_first :: "'a list \<Rightarrow> nat \<Rightarrow> 'a list list \<Rightarrow> 'a list list option" where
  "st2_first v i ST = do {
     row \<leftarrow> vec_get ST i;
     x \<leftarrow> vec_get v i;
     row \<leftarrow> vec_set 0 x row;
     vec_set i row ST
   }"

text \<open>The constructor; \<open>z\<close> is the 0 of the element type. The logarithm of an empty vector's length is not a number.\<close>

definition new_SparseTable :: "('a \<Rightarrow> 'a \<Rightarrow> 'a) \<Rightarrow> 'a \<Rightarrow> 'a list \<Rightarrow> 'a list list option" where
  "new_SparseTable op z v =
     (if v = [] then None
      else do {
        let len = length v;
        let l1 = ceil_log2 len + 1;
        let ST = replicate len (replicate l1 z);
        ST \<leftarrow> for_each (st2_first v) [0..<len] ST;
        for_each (\<lambda>j. for_each (st2_cell op j) [0..<len - 2 ^ (j - 1)]) [1..<l1] ST
      })"

definition st2_query :: "('a \<Rightarrow> 'a \<Rightarrow> 'a) \<Rightarrow> 'a list list \<Rightarrow> nat \<Rightarrow> nat \<Rightarrow> 'a option" where
  "st2_query op ST l r =
     (if r < l then None
      else do {
        let q = floor_log2 (r - l + 1);
        row \<leftarrow> vec_get ST l;
        x \<leftarrow> vec_get row q;
        row \<leftarrow> vec_get ST (r + 1 - 2 ^ q);
        y \<leftarrow> vec_get row q;
        Some (op x y)
      })"

section \<open>Logarithms\<close>

lemma floor_log2_bounds: "1 \<le> n \<Longrightarrow> 2 ^ floor_log2 n \<le> n \<and> n < 2 ^ Suc (floor_log2 n)"
proof (induction n rule: floor_log2.induct)
  case (1 n)
  show ?case
  proof (cases "n \<le> 1")
    case False
    then have "2 ^ floor_log2 (n div 2) \<le> n div 2 \<and> n div 2 < 2 ^ Suc (floor_log2 (n div 2))"
      using 1 by auto
    then show ?thesis
      using False by (subst (1 2) floor_log2.simps) auto
  qed (use 1 in \<open>simp add: floor_log2.simps\<close>)
qed

lemma floor_le_ceil:
  assumes "1 \<le> k" and "k \<le> n"
  shows "floor_log2 k \<le> ceil_log2 n"
proof (cases "n \<le> 1")
  case False
  have "2 ^ floor_log2 k \<le> k" "n - 1 < 2 ^ Suc (floor_log2 (n - 1))"
    using floor_log2_bounds [of k] floor_log2_bounds [of "n - 1"] assms False by auto
  then have "(2::nat) ^ floor_log2 k \<le> 2 ^ Suc (floor_log2 (n - 1))"
    using assms by linarith
  then have "floor_log2 k \<le> Suc (floor_log2 (n - 1))"
    by (rule power_le_imp_le_exp [rotated]) simp
  then show ?thesis
    using False by (simp add: ceil_log2_def)
qed (use assms in \<open>simp add: floor_log2.simps\<close>)

section \<open>Operations over ranges\<close>

fun fold1 :: "('a \<Rightarrow> 'a \<Rightarrow> 'a) \<Rightarrow> 'a list \<Rightarrow> 'a" where
  "fold1 op [] = undefined"
| "fold1 op [x] = x"
| "fold1 op (x # y # xs) = op x (fold1 op (y # xs))"

locale idempotent_op =
  fixes op :: "'a \<Rightarrow> 'a \<Rightarrow> 'a"
  assumes op_assoc: "op (op x y) z = op x (op y z)"
    and op_idem: "op x x = x"
begin

lemma fold1_append: "xs \<noteq> [] \<Longrightarrow> ys \<noteq> [] \<Longrightarrow> fold1 op (xs @ ys) = op (fold1 op xs) (fold1 op ys)"
proof (induction xs)
  case (Cons x xs)
  then show ?case
    by (cases xs; cases ys) (simp_all add: op_assoc)
qed simp

text \<open>Two ranges that overlap and cover a third one.\<close>

lemma fold1_overlap:
  assumes "ys \<noteq> []"
  shows "op (fold1 op (xs @ ys)) (fold1 op (ys @ zs)) = fold1 op (xs @ ys @ zs)"
proof -
  have absorb: "op (fold1 op (xs @ ys)) (fold1 op ys) = fold1 op (xs @ ys)"
    using assms fold1_append [of xs ys] by (cases "xs = []") (simp_all add: op_assoc op_idem)
  show ?thesis
  proof (cases "zs = []")
    case False
    have "op (fold1 op (xs @ ys)) (fold1 op (ys @ zs)) = op (op (fold1 op (xs @ ys)) (fold1 op ys)) (fold1 op zs)"
      using assms False by (simp add: fold1_append op_assoc)
    then show ?thesis
      using assms False fold1_append [of "xs @ ys" zs] unfolding absorb by simp
  qed (use absorb in simp)
qed

text \<open>The columns of the table: full windows of \<open>2 ^ j\<close> elements.\<close>

definition column_ok :: "'a list \<Rightarrow> nat \<Rightarrow> 'a list list \<Rightarrow> bool" where
  "column_ok v j ST = (\<forall>i. i + 2 ^ j \<le> length v \<longrightarrow> ST ! i ! j = fold1 op (take (2 ^ j) (drop i v)))"

lemma column_step:
  assumes "column_ok v j ST" and "\<And>i. i < length v - 2 ^ j \<Longrightarrow> ST' ! i ! Suc j = op (ST ! i ! j) (ST ! (i + 2 ^ j) ! j)"
  shows "column_ok v (Suc j) ST'"
  unfolding column_ok_def
proof (intro allI impI)
  fix i
  assume i: "i + 2 ^ Suc j \<le> length v"
  have "(0::nat) < 2 ^ j"
    by simp
  then have "i < length v - 2 ^ j"
    using i unfolding power_Suc by linarith
  then have "ST' ! i ! Suc j = op (fold1 op (take (2 ^ j) (drop i v))) (fold1 op (take (2 ^ j) (drop (i + 2 ^ j) v)))"
    using assms i unfolding column_ok_def by simp
  also have "\<dots> = fold1 op (take (2 ^ j) (drop i v) @ take (2 ^ j) (drop (i + 2 ^ j) v))"
    using i \<open>i < length v - 2 ^ j\<close> by (intro fold1_append [symmetric]) auto
  also have "take (2 ^ j) (drop i v) @ take (2 ^ j) (drop (i + 2 ^ j) v) = take (2 ^ Suc j) (drop i v)"
    by (simp add: take_add add.commute mult_2)
  finally show "ST' ! i ! Suc j = fold1 op (take (2 ^ Suc j) (drop i v))" .
qed

definition shape :: "nat \<Rightarrow> nat \<Rightarrow> 'a list list \<Rightarrow> bool" where
  "shape len l1 ST = (length ST = len \<and> (\<forall>i < len. length (ST ! i) = l1))"

lemma st2_cell_ok:
  assumes "shape len l1 ST" and "Suc j < l1" and "i < len - 2 ^ j"
  shows "\<exists>ST'. st2_cell op (Suc j) i ST = Some ST' \<and> shape len l1 ST' \<and> ST' ! i ! Suc j = op (ST ! i ! j) (ST ! (i + 2 ^ j) ! j) \<and>
    (\<forall>i' j'. (i', j') \<noteq> (i, Suc j) \<longrightarrow> ST' ! i' ! j' = ST ! i' ! j')"
proof -
  have "i < length ST" "i + 2 ^ j < length ST" "length (ST ! i) = l1" "length (ST ! (i + 2 ^ j)) = l1"
    using assms(1,3) by (auto simp: shape_def)
  then show ?thesis
    using assms by (auto simp: st2_cell_def shape_def nth_list_update)
qed

lemma st2_level_ok:
  assumes "shape len l1 ST" and "Suc j < l1"
  shows "\<exists>ST'. for_each (st2_cell op (Suc j)) [0..<len - 2 ^ j] ST = Some ST' \<and> shape len l1 ST' \<and>
    (\<forall>i < len - 2 ^ j. ST' ! i ! Suc j = op (ST ! i ! j) (ST ! (i + 2 ^ j) ! j)) \<and> (\<forall>i j'. j' \<le> j \<longrightarrow> ST' ! i ! j' = ST ! i ! j')"
proof -
  define I where "I k T = (shape len l1 T \<and> (\<forall>i < k. T ! i ! Suc j = op (ST ! i ! j) (ST ! (i + 2 ^ j) ! j)) \<and>
      (\<forall>i j'. j' \<le> j \<longrightarrow> T ! i ! j' = ST ! i ! j'))" for k T
  have "\<exists>T'. st2_cell op (Suc j) k T = Some T' \<and> I (Suc k) T'" if k: "k < len - 2 ^ j" "I k T" for k T
  proof -
    obtain T' where "st2_cell op (Suc j) k T = Some T'" "shape len l1 T'" "T' ! k ! Suc j = op (T ! k ! j) (T ! (k + 2 ^ j) ! j)"
        "\<forall>i' j'. (i', j') \<noteq> (k, Suc j) \<longrightarrow> T' ! i' ! j' = T ! i' ! j'"
      using st2_cell_ok [of len l1 T j k] k assms(2) by (auto simp: I_def)
    then show ?thesis
      using k(2) by (auto simp: I_def less_Suc_eq)
  qed
  then show ?thesis
    using for_each_upt [of 0 "len - 2 ^ j" I ST "st2_cell op (Suc j)"] assms(1) by (auto simp: I_def)
qed

lemma new_SparseTable_ok:
  assumes "v \<noteq> []"
  shows "\<exists>ST. new_SparseTable op z v = Some ST \<and> shape (length v) (ceil_log2 (length v) + 1) ST \<and> (\<forall>j \<le> ceil_log2 (length v). column_ok v j ST)"
proof -
  let ?len = "length v" and ?l1 = "ceil_log2 (length v) + 1"
  define F where "F k ST = (shape ?len ?l1 ST \<and> (\<forall>i < k. ST ! i ! 0 = v ! i))" for k ST
  have "\<exists>ST'. st2_first v k ST = Some ST' \<and> F (Suc k) ST'" if "k < ?len" "F k ST" for k ST
  proof -
    have "k < length ST" "0 < length (ST ! k)"
      using that by (simp_all add: F_def shape_def)
    then show ?thesis
      using that by (auto simp: st2_first_def F_def shape_def nth_list_update less_Suc_eq vec_set_def)
  qed
  moreover have "F 0 (replicate ?len (replicate ?l1 z))"
    by (simp add: F_def shape_def)
  ultimately obtain ST0 where ST0: "for_each (st2_first v) [0..<?len] (replicate ?len (replicate ?l1 z)) = Some ST0" "F ?len ST0"
    using for_each_upt [of 0 ?len F _ "st2_first v"] by blast
  define I where "I k ST = (shape ?len ?l1 ST \<and> (\<forall>j < k. column_ok v j ST))" for k ST
  have "\<exists>ST'. for_each (st2_cell op j) [0..<?len - 2 ^ (j - 1)] ST = Some ST' \<and> I (Suc j) ST'" if j: "1 \<le> j" "j < ?l1" "I j ST" for j ST
  proof -
    obtain m where m: "j = Suc m"
      using j(1) by (cases j) auto
    obtain ST' where ST': "for_each (st2_cell op j) [0..<?len - 2 ^ m] ST = Some ST'" "shape ?len ?l1 ST'"
        "\<forall>i < ?len - 2 ^ m. ST' ! i ! Suc m = op (ST ! i ! m) (ST ! (i + 2 ^ m) ! m)" "\<forall>i j'. j' \<le> m \<longrightarrow> ST' ! i ! j' = ST ! i ! j'"
      using st2_level_ok [of ?len ?l1 ST m] j(2,3) m by (auto simp: I_def)
    have "column_ok v j ST'"
      using column_step [of v m ST ST'] ST'(3) j(3) m by (auto simp: I_def)
    moreover have "column_ok v j' ST'" if "j' < j" for j'
      using that ST'(4) j(3) m by (auto simp: I_def column_ok_def)
    ultimately show ?thesis
      using ST'(1,2) m by (auto simp: I_def less_Suc_eq)
  qed
  moreover have "column_ok v 0 ST0"
    using ST0(2) by (auto simp: column_ok_def F_def take_Suc hd_drop_conv_nth)
  then have "I 1 ST0"
    using ST0(2) by (simp add: I_def F_def)
  ultimately obtain ST where "for_each (\<lambda>j. for_each (st2_cell op j) [0..<?len - 2 ^ (j - 1)]) [1..<?l1] ST0 = Some ST" "I ?l1 ST"
    using for_each_upt [of 1 ?l1 I ST0 "\<lambda>j. for_each (st2_cell op j) [0..<?len - 2 ^ (j - 1)]"] by auto
  then show ?thesis
    using assms ST0(1) by (auto simp: new_SparseTable_def I_def Let_def)
qed

lemma st2_query_ok:
  assumes "shape (length v) (ceil_log2 (length v) + 1) ST" and "\<And>j. j \<le> ceil_log2 (length v) \<Longrightarrow> column_ok v j ST" and "l \<le> r" and "r < length v"
  shows "st2_query op ST l r = Some (fold1 op (take (r - l + 1) (drop l v)))"
proof -
  define q where "q = floor_log2 (r - l + 1)"
  have q: "2 ^ q \<le> r - l + 1" "r - l + 1 < 2 * 2 ^ q" "q \<le> ceil_log2 (length v)" "l < length v" "r + 1 - 2 ^ q < length v"
    using floor_log2_bounds [of "r - l + 1"] floor_le_ceil [of "r - l + 1" "length v"] assms(3,4) by (auto simp: q_def)
  have "ST ! l ! q = fold1 op (take (2 ^ q) (drop l v))" "ST ! (r + 1 - 2 ^ q) ! q = fold1 op (take (2 ^ q) (drop (r + 1 - 2 ^ q) v))"
    using assms(2) [OF q(3)] q(1) assms(3,4) unfolding column_ok_def by auto
  then have query: "st2_query op ST l r = Some (op (fold1 op (take (2 ^ q) (drop l v))) (fold1 op (take (2 ^ q) (drop (r + 1 - 2 ^ q) v))))"
    using assms(1,3) q(3-5) by (simp add: st2_query_def shape_def q_def Let_def)
  define w where "w = take (r - l + 1) (drop l v)"
  define d where "d = r + 1 - l - 2 ^ q"
  have "take (2 ^ q) (drop l v) = take d w @ drop d (take (2 ^ q) w)" "take (2 ^ q) (drop (r + 1 - 2 ^ q) v) = drop d (take (2 ^ q) w) @ drop (2 ^ q) w"
      "w = take d w @ drop d (take (2 ^ q) w) @ drop (2 ^ q) w" "drop d (take (2 ^ q) w) \<noteq> []"
  proof -
    have len: "length w = r - l + 1" "d < 2 ^ q" "d + 2 ^ q = r - l + 1" "l + d = r + 1 - 2 ^ q"
      using assms(3,4) q(1,2) by (auto simp: w_def d_def)
    have "take (2 ^ q) (drop l v) = take (2 ^ q) w"
      using q(1) by (simp add: w_def min_absorb1)
    then show "take (2 ^ q) (drop l v) = take d w @ drop d (take (2 ^ q) w)"
      using len(2) append_take_drop_id [of d "take (2 ^ q) w"] by (simp add: min_absorb1)
    have "drop d w = take (2 ^ q) (drop (l + d) v)"
      using len(3) by (simp add: w_def drop_take add.commute) (metis add_diff_cancel_left')
    then have "take (2 ^ q) (drop (r + 1 - 2 ^ q) v) = drop d w"
      using len(4) by simp
    then show "take (2 ^ q) (drop (r + 1 - 2 ^ q) v) = drop d (take (2 ^ q) w) @ drop (2 ^ q) w"
      using len by (metis append_take_drop_id drop_append length_take min.absorb2 diff_is_0_eq' drop0 order_less_imp_le le_add2)
    show "drop d (take (2 ^ q) w) \<noteq> []"
      using len by simp
    have "take d w @ drop d (take (2 ^ q) w) = take (2 ^ q) w"
      using len(2) append_take_drop_id [of d "take (2 ^ q) w"] by (simp add: min_absorb1)
    then show "w = take d w @ drop d (take (2 ^ q) w) @ drop (2 ^ q) w"
      using append_take_drop_id [of "2 ^ q" w] by (metis append.assoc)
  qed
  then show ?thesis
    using query fold1_overlap [of "drop d (take (2 ^ q) w)" "take d w" "drop (2 ^ q) w"] by (simp add: w_def)
qed

end

section \<open>The class as a whole\<close>

interpretation default_func: idempotent_op "max :: 'a::linorder \<Rightarrow> 'a \<Rightarrow> 'a"
  by unfold_locales (simp_all add: max.assoc)

text \<open>
  C21. For every associative and idempotent operation (the default \<open>max\<close>, but also \<open>min\<close>, \<open>gcd\<close>, bitwise \<open>and\<close> and \<open>or\<close>), the constructor of
  \<^verbatim>\<open>SparseTable\<close> in \<^verbatim>\<open>sparse-table_2.hpp\<close> and every query inside a non-empty vector stay inside the table, and the query
  returns the operation applied over the range.
\<close>

theorem SparseTable_query_correct:
  assumes "idempotent_op op" and "l \<le> r" and "r < length v"
  shows "\<exists>ST. new_SparseTable op z v = Some ST \<and> st2_query op ST l r = Some (fold1 op (take (r - l + 1) (drop l v)))"
proof -
  have "v \<noteq> []"
    using assms(3) by auto
  then show ?thesis
    using idempotent_op.new_SparseTable_ok [OF assms(1), of v z] idempotent_op.st2_query_ok [OF assms(1) _ _ assms(2,3)] by blast
qed

theorem SparseTable_query_correct_witness:
  "\<exists>ST. new_SparseTable max 0 [5, 2, 4, 7, 6, 3, 1, 2 :: int] = Some ST \<and> st2_query max ST 0 4 = Some 7"
  using SparseTable_query_correct [OF default_func.idempotent_op_axioms, of 0 4 "[5, 2, 4, 7, 6, 3, 1, 2 :: int]" 0]
  by (simp add: numeral_eq_Suc)

end
