(* ===== verification/MonotonousQueue.thy ===== *)
theory MonotonousQueue
  imports QueryLoop
begin

text \<open>
  The program \<^verbatim>\<open>monotonous-queue/monotonous-queue_1.cpp\<close>: the least and the greatest number of every window of \<open>k\<close> numbers, with a queue of
  indices in the array \<open>q\<close>. Its two functions differ in one comparison, which is a parameter here; the locale
  \<open>better_order\<close> has what the algorithm needs of it. Shown: the program ends, stays inside its arrays and prints the
  minima and maxima of the windows.
\<close>

section \<open>The program\<close>

definition mq_maxn :: int where
  "mq_maxn = 1000100"

record mqueue =
  mq_q :: "int \<Rightarrow> int"
  mq_head :: int
  mq_tail :: int

text \<open>\<open>while (head <= tail && a[q[tail]] >= a[i]) tail--\<close>\<close>

partial_function (option) drop_tail :: "(int \<Rightarrow> int \<Rightarrow> bool) \<Rightarrow> (int \<Rightarrow> int) \<Rightarrow> int \<Rightarrow> mqueue \<Rightarrow> mqueue option" where [code]:
  "drop_tail worse a i Q =
     (if mq_head Q \<le> mq_tail Q then do {
        t \<leftarrow> arr_get mq_maxn (mq_q Q) (mq_tail Q);
        x \<leftarrow> arr_get mq_maxn a t;
        y \<leftarrow> arr_get mq_maxn a i;
        if worse x y then drop_tail worse a i (Q\<lparr>mq_tail := mq_tail Q - 1\<rparr>) else Some Q
      }
      else Some Q)"

text \<open>\<open>while (q[head] <= i - k) head++\<close>\<close>

partial_function (option) drop_head :: "int \<Rightarrow> mqueue \<Rightarrow> mqueue option" where [code]:
  "drop_head b Q = do {
     h \<leftarrow> arr_get mq_maxn (mq_q Q) (mq_head Q);
     if h \<le> b then drop_head b (Q\<lparr>mq_head := mq_head Q + 1\<rparr>) else Some Q
   }"

definition mq_push :: "(int \<Rightarrow> int \<Rightarrow> bool) \<Rightarrow> (int \<Rightarrow> int) \<Rightarrow> int \<Rightarrow> mqueue \<Rightarrow> mqueue option" where
  "mq_push worse a i Q = do {
     Q \<leftarrow> drop_tail worse a i Q;
     let tail = mq_tail Q + 1;
     q \<leftarrow> arr_set mq_maxn tail i (mq_q Q);
     Some (Q\<lparr>mq_q := q, mq_tail := tail\<rparr>)
   }"

text \<open>The body of the second loop; the numbers printed so far are part of the state.\<close>

definition mq_slide :: "(int \<Rightarrow> int \<Rightarrow> bool) \<Rightarrow> (int \<Rightarrow> int) \<Rightarrow> int \<Rightarrow> int \<Rightarrow> mqueue \<times> int list \<Rightarrow> (mqueue \<times> int list) option" where
  "mq_slide worse a k i s = do {
     let (Q, out) = s;
     Q \<leftarrow> mq_push worse a i Q;
     Q \<leftarrow> drop_head (i - k) Q;
     h \<leftarrow> arr_get mq_maxn (mq_q Q) (mq_head Q);
     x \<leftarrow> arr_get mq_maxn a h;
     Some (Q, out @ [x])
   }"

definition mq_windows :: "(int \<Rightarrow> int \<Rightarrow> bool) \<Rightarrow> (int \<Rightarrow> int) \<Rightarrow> int \<Rightarrow> int \<Rightarrow> (int \<Rightarrow> int) \<Rightarrow> ((int \<Rightarrow> int) \<times> int list) option" where
  "mq_windows worse a n k q = do {
     Q \<leftarrow> for_each (mq_push worse a) [1..k - 1] \<lparr>mq_q = q, mq_head = 0, mq_tail = - 1\<rparr>;
     (Q, out) \<leftarrow> for_each (mq_slide worse a k) [k..n] (Q, []);
     Some (mq_q Q, out)
   }"

definition getmin :: "(int \<Rightarrow> int) \<Rightarrow> int \<Rightarrow> int \<Rightarrow> (int \<Rightarrow> int) \<Rightarrow> ((int \<Rightarrow> int) \<times> int list) option" where
  "getmin = mq_windows (\<lambda>x y. x \<ge> y)"

definition getmax :: "(int \<Rightarrow> int) \<Rightarrow> int \<Rightarrow> int \<Rightarrow> (int \<Rightarrow> int) \<Rightarrow> ((int \<Rightarrow> int) \<times> int list) option" where
  "getmax = mq_windows (\<lambda>x y. x \<le> y)"

text \<open>\<open>main\<close> for the numbers \<open>xs\<close>, stored from index 1 on in the array of zeros; the two lines printed.\<close>

definition mq_main :: "int list \<Rightarrow> int \<Rightarrow> (int list \<times> int list) option" where
  "mq_main xs k = do {
     a \<leftarrow> for_each (\<lambda>i. arr_set mq_maxn i (xs ! nat (i - 1))) [1..int (length xs)] (\<lambda>_. 0);
     (q, mins) \<leftarrow> getmin a (int (length xs)) k (\<lambda>_. 0);
     (q, maxs) \<leftarrow> getmax a (int (length xs)) k q;
     Some (mins, maxs)
   }"

section \<open>The queue as a list\<close>

definition queue_list :: "mqueue \<Rightarrow> int list" where
  "queue_list Q = map (mq_q Q) [mq_head Q..mq_tail Q]"

definition mq_ok :: "mqueue \<Rightarrow> bool" where
  "mq_ok Q = (0 \<le> mq_head Q \<and> mq_head Q \<le> mq_tail Q + 1 \<and> mq_tail Q < mq_maxn)"

lemma queue_list_last:
  "mq_head Q \<le> mq_tail Q \<Longrightarrow> queue_list Q = queue_list (Q\<lparr>mq_tail := mq_tail Q - 1\<rparr>) @ [mq_q Q (mq_tail Q)]"
  by (simp add: queue_list_def upto_rec2)

lemma queue_list_first:
  "mq_head Q \<le> mq_tail Q \<Longrightarrow> queue_list Q = mq_q Q (mq_head Q) # queue_list (Q\<lparr>mq_head := mq_head Q + 1\<rparr>)"
  by (simp add: queue_list_def upto_rec1)

lemma queue_list_empty: "queue_list Q = [] \<longleftrightarrow> mq_tail Q < mq_head Q"
  by (simp add: queue_list_def)

text \<open>Dropping at the tail keeps a prefix; what goes is worse than the new number.\<close>

lemma drop_tail_ok:
  assumes "mq_ok Q" and "\<forall>t \<in> set (queue_list Q). 0 \<le> t \<and> t < mq_maxn" and "0 \<le> i" and "i < mq_maxn"
  shows "\<exists>tail. drop_tail worse a i Q = Some (Q\<lparr>mq_tail := tail\<rparr>) \<and> mq_ok (Q\<lparr>mq_tail := tail\<rparr>) \<and> tail \<le> mq_tail Q \<and>
    (\<exists>ys. queue_list Q = queue_list (Q\<lparr>mq_tail := tail\<rparr>) @ ys \<and> (\<forall>t \<in> set ys. worse (a t) (a i))) \<and>
    (queue_list (Q\<lparr>mq_tail := tail\<rparr>) \<noteq> [] \<longrightarrow> \<not> worse (a (last (queue_list (Q\<lparr>mq_tail := tail\<rparr>)))) (a i))"
  using assms(1,2)
proof (induction "nat (mq_tail Q - mq_head Q + 1)" arbitrary: Q rule: less_induct)
  case less
  show ?case
  proof (cases "mq_head Q \<le> mq_tail Q")
    case False
    then show ?thesis
      using less.prems by (subst drop_tail.simps) (intro exI [of _ "mq_tail Q"], auto simp: queue_list_def)
  next
    case True
    let ?t = "mq_q Q (mq_tail Q)" and ?Q = "Q\<lparr>mq_tail := mq_tail Q - 1\<rparr>"
    note last = queue_list_last [OF True]
    have t: "0 \<le> ?t" "?t < mq_maxn" "0 \<le> mq_tail Q" "mq_tail Q < mq_maxn"
      using less.prems True last by (auto simp: mq_ok_def)
    show ?thesis
    proof (cases "worse (a ?t) (a i)")
      case False
      then show ?thesis
        using True t less.prems last assms(3,4) by (subst drop_tail.simps) (intro exI [of _ "mq_tail Q"], auto)
    next
      case worse: True
      have "mq_ok ?Q" "\<forall>t \<in> set (queue_list ?Q). 0 \<le> t \<and> t < mq_maxn"
        using less.prems True last by (auto simp: mq_ok_def)
      then obtain tail ys where "drop_tail worse a i ?Q = Some (?Q\<lparr>mq_tail := tail\<rparr>)" "mq_ok (?Q\<lparr>mq_tail := tail\<rparr>)" "tail \<le> mq_tail ?Q"
          "queue_list ?Q = queue_list (?Q\<lparr>mq_tail := tail\<rparr>) @ ys" "\<forall>t \<in> set ys. worse (a t) (a i)"
          "queue_list (?Q\<lparr>mq_tail := tail\<rparr>) \<noteq> [] \<longrightarrow> \<not> worse (a (last (queue_list (?Q\<lparr>mq_tail := tail\<rparr>)))) (a i)"
        using less.hyps [of ?Q] True by auto
      moreover have "drop_tail worse a i Q = drop_tail worse a i ?Q"
        using True t assms(3,4) worse by (subst drop_tail.simps) simp
      ultimately show ?thesis
        using last worse by (intro exI [of _ tail]) (auto intro!: exI [of _ "ys @ [?t]"])
    qed
  qed
qed

text \<open>Dropping at the head takes away the indices up to \<open>b\<close>.\<close>

lemma drop_head_ok:
  assumes "mq_ok Q" and "sorted (queue_list Q)" and "\<exists>t \<in> set (queue_list Q). b < t"
  shows "\<exists>head. drop_head b Q = Some (Q\<lparr>mq_head := head\<rparr>) \<and> mq_ok (Q\<lparr>mq_head := head\<rparr>) \<and> mq_head Q \<le> head \<and>
    queue_list (Q\<lparr>mq_head := head\<rparr>) = filter (\<lambda>t. b < t) (queue_list Q) \<and> head \<le> mq_tail Q"
  using assms
proof (induction "nat (mq_tail Q - mq_head Q + 1)" arbitrary: Q rule: less_induct)
  case less
  let ?Q = "Q\<lparr>mq_head := mq_head Q + 1\<rparr>"
  have ne: "mq_head Q \<le> mq_tail Q"
    using less.prems(3) queue_list_empty [of Q] by force
  note first = queue_list_first [OF ne]
  have h: "0 \<le> mq_head Q" "mq_head Q < mq_maxn"
    using less.prems(1) ne by (auto simp: mq_ok_def)
  show ?case
  proof (cases "mq_q Q (mq_head Q) \<le> b")
    case True
    have "mq_ok ?Q" "sorted (queue_list ?Q)" "\<exists>t \<in> set (queue_list ?Q). b < t"
      using less.prems first ne True by (auto simp: mq_ok_def)
    then obtain head where "drop_head b ?Q = Some (?Q\<lparr>mq_head := head\<rparr>)" "mq_ok (?Q\<lparr>mq_head := head\<rparr>)" "mq_head ?Q \<le> head"
        "queue_list (?Q\<lparr>mq_head := head\<rparr>) = filter (\<lambda>t. b < t) (queue_list ?Q)" "head \<le> mq_tail ?Q"
      using less.hyps [of ?Q] ne by auto
    moreover have "drop_head b Q = drop_head b ?Q"
      using h True by (subst drop_head.simps) simp
    ultimately show ?thesis
      using first True by (intro exI [of _ head]) auto
  next
    case False
    then have "\<forall>t \<in> set (queue_list Q). b < t"
      using less.prems(2) first by force
    then have "filter (\<lambda>t. b < t) (queue_list Q) = queue_list Q"
      by simp
    then show ?thesis
      using False h less.prems ne by (subst drop_head.simps) (intro exI [of _ "mq_head Q"], auto)
  qed
qed

section \<open>Windows\<close>

text \<open>\<open>worse x y\<close>: the number \<open>x\<close> in the queue is of no use once \<open>y\<close> is there.\<close>

locale better_order =
  fixes worse :: "int \<Rightarrow> int \<Rightarrow> bool"
  assumes worse_total: "worse x y \<or> worse y x"
    and worse_trans: "worse x y \<Longrightarrow> worse y z \<Longrightarrow> worse x z"
begin

definition win_inv :: "(int \<Rightarrow> int) \<Rightarrow> int \<Rightarrow> int \<Rightarrow> mqueue \<Rightarrow> bool" where
  "win_inv a lo i Q = (mq_ok Q \<and> mq_tail Q < i \<and> (\<forall>t \<in> set (queue_list Q). lo \<le> t \<and> t \<le> i) \<and>
     sorted_wrt (\<lambda>s t. s < t \<and> \<not> worse (a s) (a t)) (queue_list Q) \<and>
     (\<forall>j. lo \<le> j \<and> j \<le> i \<longrightarrow> (\<exists>t \<in> set (queue_list Q). j \<le> t \<and> worse (a j) (a t))))"

definition is_best :: "(int \<Rightarrow> int) \<Rightarrow> int \<Rightarrow> int \<Rightarrow> int \<Rightarrow> bool" where
  "is_best a k i x = (x \<in> a ` {i - k + 1..i} \<and> (\<forall>j \<in> {i - k + 1..i}. worse (a j) x))"

lemma sorted_append_better:
  assumes "sorted_wrt (\<lambda>s t. s < t \<and> \<not> worse (a s) (a t)) (L @ ys)" and "L \<noteq> [] \<Longrightarrow> \<not> worse (a (last L)) (a i)" and "\<forall>t \<in> set L. t < i"
  shows "sorted_wrt (\<lambda>s t. s < t \<and> \<not> worse (a s) (a t)) (L @ [i])"
proof -
  have "\<not> worse (a s) (a i)" if "s \<in> set L" for s
  proof -
    have "L \<noteq> []" "s = last L \<or> \<not> worse (a s) (a (last L))"
      using that assms(1) by (cases L rule: rev_cases; auto simp: sorted_wrt_append)+
    then show ?thesis
      using assms(2) worse_total [of "a (last L)" "a i"] worse_trans [of "a s" "a i" "a (last L)"] by auto
  qed
  then show ?thesis
    using assms(1,3) by (simp add: sorted_wrt_append)
qed

lemma mq_push_ok:
  assumes "win_inv a lo (i - 1) Q" and "1 \<le> lo" and "lo \<le> i" and "i < mq_maxn"
  shows "\<exists>Q'. mq_push worse a i Q = Some Q' \<and> win_inv a lo i Q'"
proof -
  note d = assms(1) [unfolded win_inv_def]
  have rng: "\<And>t. t \<in> set (queue_list Q) \<Longrightarrow> lo \<le> t \<and> t \<le> i - 1"
    using d by blast
  have "\<forall>t \<in> set (queue_list Q). 0 \<le> t \<and> t < mq_maxn" "0 \<le> i"
    using d assms(2-4) by force+
  then obtain tail ys where Q1: "drop_tail worse a i Q = Some (Q\<lparr>mq_tail := tail\<rparr>)" "mq_ok (Q\<lparr>mq_tail := tail\<rparr>)" "tail \<le> mq_tail Q"
      "queue_list Q = queue_list (Q\<lparr>mq_tail := tail\<rparr>) @ ys" "\<forall>t \<in> set ys. worse (a t) (a i)"
      "queue_list (Q\<lparr>mq_tail := tail\<rparr>) \<noteq> [] \<longrightarrow> \<not> worse (a (last (queue_list (Q\<lparr>mq_tail := tail\<rparr>)))) (a i)"
    using drop_tail_ok [of Q i worse a] d assms(4) by blast
  let ?L = "queue_list (Q\<lparr>mq_tail := tail\<rparr>)"
  let ?Q = "Q\<lparr>mq_q := (mq_q Q)(tail + 1 := i), mq_tail := tail + 1\<rparr>"
  have ok: "0 \<le> tail + 1" "tail + 1 < i" "mq_ok ?Q"
    using Q1(2,3) d assms(4) by (auto simp: mq_ok_def)
  have list: "queue_list ?Q = ?L @ [i]"
    using queue_list_last [of ?Q] Q1(2) by (simp add: queue_list_def mq_ok_def)
  have "\<forall>t \<in> set ?L. t < i"
    using d Q1(4) by force
  then have sorted: "sorted_wrt (\<lambda>s t. s < t \<and> \<not> worse (a s) (a t)) (?L @ [i])"
    using sorted_append_better [of a ?L ys i] d Q1(4,6) by auto
  have cover: "\<exists>t \<in> set (?L @ [i]). j \<le> t \<and> worse (a j) (a t)" if j: "lo \<le> j" "j \<le> i" for j
  proof (cases "j = i")
    case False
    then obtain t where "t \<in> set (queue_list Q)" "j \<le> t" "worse (a j) (a t)"
      using d j by force
    then show ?thesis
      using Q1(4,5) worse_trans j by auto
  qed (use worse_total in auto)
  have "\<forall>t \<in> set (?L @ [i]). lo \<le> t \<and> t \<le> i"
    using rng assms(3) unfolding Q1(4) by force
  then have "win_inv a lo i ?Q"
    unfolding win_inv_def list using ok sorted cover by simp
  moreover have "mq_push worse a i Q = Some ?Q"
    using Q1(1) ok assms(4) by (simp add: mq_push_def Let_def)
  ultimately show ?thesis
    by blast
qed

lemma mq_slide_ok:
  assumes "win_inv a (max 1 (i - k)) (i - 1) Q" and "1 \<le> k" and "k \<le> i" and "i < mq_maxn"
  shows "\<exists>Q' x. mq_slide worse a k i (Q, out) = Some (Q', out @ [x]) \<and> win_inv a (max 1 (i - k + 1)) i Q' \<and> is_best a k i x"
proof -
  obtain Q1 where Q1: "mq_push worse a i Q = Some Q1" "win_inv a (max 1 (i - k)) i Q1"
    using mq_push_ok [OF assms(1)] assms(2-4) by auto
  note d = Q1(2) [unfolded win_inv_def]
  have cover1: "\<And>j. max 1 (i - k) \<le> j \<Longrightarrow> j \<le> i \<Longrightarrow> \<exists>t \<in> set (queue_list Q1). j \<le> t \<and> worse (a j) (a t)"
    using d by blast
  have "sorted (queue_list Q1)"
    by (rule sorted_wrt_mono_rel [of _ "\<lambda>s t. s < t \<and> \<not> worse (a s) (a t)"]) (use d in auto)
  moreover have "max 1 (i - k) \<le> i"
    using assms(2,3) by simp
  then have "\<exists>t \<in> set (queue_list Q1). i \<le> t"
    using d by blast
  then have "\<exists>t \<in> set (queue_list Q1). i - k < t"
    using assms(2) by force
  ultimately obtain head where h: "drop_head (i - k) Q1 = Some (Q1\<lparr>mq_head := head\<rparr>)" "mq_ok (Q1\<lparr>mq_head := head\<rparr>)" "mq_head Q1 \<le> head"
      "queue_list (Q1\<lparr>mq_head := head\<rparr>) = filter (\<lambda>t. i - k < t) (queue_list Q1)" "head \<le> mq_tail Q1"
    using drop_head_ok [of Q1 "i - k"] d by blast
  let ?Q = "Q1\<lparr>mq_head := head\<rparr>"
  have inv: "win_inv a (max 1 (i - k + 1)) i ?Q"
  proof -
    have "\<exists>t \<in> set (filter (\<lambda>t. i - k < t) (queue_list Q1)). j \<le> t \<and> worse (a j) (a t)" if j: "max 1 (i - k + 1) \<le> j" "j \<le> i" for j
    proof -
      obtain t where "t \<in> set (queue_list Q1)" "j \<le> t" "worse (a j) (a t)"
        using cover1 [of j] j by auto
      then show ?thesis
        using j by auto
    qed
    moreover have "\<forall>t \<in> set (filter (\<lambda>t. i - k < t) (queue_list Q1)). max 1 (i - k + 1) \<le> t \<and> t \<le> i"
      using d by auto
    ultimately show ?thesis
      unfolding win_inv_def h(4) using d h(2) by (simp add: sorted_wrt_filter)
  qed
  obtain L where L: "queue_list ?Q = mq_q Q1 head # L"
    using queue_list_first [of ?Q] h(5) by auto
  note e = inv [unfolded win_inv_def L]
  have "worse (a j) (a (mq_q Q1 head))" if j: "i - k + 1 \<le> j" "j \<le> i" for j
  proof -
    have "max 1 (i - k + 1) \<le> j"
      using j assms(3) by simp
    then obtain t where "t \<in> set (mq_q Q1 head # L)" "worse (a j) (a t)"
      using e j(2) by blast
    then show ?thesis
      using e worse_total [of "a t" "a (mq_q Q1 head)"] worse_trans by auto
  qed
  moreover have "mq_q Q1 head \<in> {i - k + 1..i}" "0 \<le> mq_q Q1 head" "mq_q Q1 head < mq_maxn" "0 \<le> head" "head < mq_maxn"
    using e assms(3,4) h(2,3,5) by (auto simp: mq_ok_def)
  ultimately have "is_best a k i (a (mq_q Q1 head))" "mq_slide worse a k i (Q, out) = Some (?Q, out @ [a (mq_q Q1 head)])"
    using Q1(1) h(1) by (auto simp: is_best_def mq_slide_def)
  then show ?thesis
    using inv by blast
qed

lemma mq_windows_ok:
  assumes "1 \<le> k" and "k \<le> n" and "n < mq_maxn"
  shows "\<exists>q' out. mq_windows worse a n k q = Some (q', out) \<and> list_all2 (is_best a k) [k..n] out"
proof -
  let ?Q = "\<lparr>mq_q = q, mq_head = 0, mq_tail = - 1\<rparr>"
  have start: "win_inv a 1 0 ?Q"
    by (auto simp: win_inv_def mq_ok_def queue_list_def mq_maxn_def)
  have "\<exists>Q'. mq_push worse a (int i + 1) Q = Some Q' \<and> win_inv a 1 (int (Suc i)) Q'" if "i < nat (k - 1)" "win_inv a 1 (int i) Q" for i Q
    using mq_push_ok [of a 1 "int i + 1" Q] that assms by (auto simp: add.commute)
  then obtain Q where Q: "for_each (mq_push worse a) [1..k - 1] ?Q = Some Q" "win_inv a 1 (k - 1) Q"
    using for_each_upto [of "\<lambda>i. win_inv a 1 (int i)" ?Q "nat (k - 1)" "mq_push worse a"] start assms by auto
  have "\<exists>Q' out. for_each (mq_slide worse a k) [k..i] (Q, []) = Some (Q', out) \<and> win_inv a (max 1 (i - k + 1)) i Q' \<and>
      list_all2 (is_best a k) [k..i] out" if "k - 1 \<le> i" "i \<le> n" for i
    using that
  proof (induction i rule: int_ge_induct)
    case base
    then show ?case
      using Q(2) by simp
  next
    case (step i)
    then obtain Q1 out where 1: "for_each (mq_slide worse a k) [k..i] (Q, []) = Some (Q1, out)" "win_inv a (max 1 (i - k + 1)) i Q1"
        "list_all2 (is_best a k) [k..i] out"
      by auto
    obtain Q2 x where "mq_slide worse a k (i + 1) (Q1, out) = Some (Q2, out @ [x])" "win_inv a (max 1 (i + 1 - k + 1)) (i + 1) Q2"
        "is_best a k (i + 1) x"
      using mq_slide_ok [of a "i + 1" k Q1 out] 1(2) step assms by (auto simp: algebra_simps)
    then show ?case
      using 1 step.hyps by (simp add: upto_rec2 for_each_append list_all2_appendI)
  qed
  from this [of n] show ?thesis
    using Q(1) assms by (auto simp: mq_windows_def)
qed

end

interpretation mins: better_order "\<lambda>x y. x \<ge> y"
  by unfold_locales auto

interpretation maxs: better_order "\<lambda>x y. x \<le> y"
  by unfold_locales auto

section \<open>The whole program\<close>

text \<open>The reference: the windows of the list, one after the other.\<close>

definition windows :: "nat \<Rightarrow> int list \<Rightarrow> int list list" where
  "windows k xs = map (\<lambda>i. take k (drop i xs)) [0..<length xs + 1 - k]"

lemma window_image:
  assumes "\<And>i. 1 \<le> i \<Longrightarrow> i \<le> int (length xs) \<Longrightarrow> a i = xs ! nat (i - 1)" and "m + k \<le> length xs"
  shows "a ` {int m + 1..int m + int k} = set (take k (drop m xs))"
proof -
  have "set (take k (drop m xs)) = (\<lambda>j. xs ! (m + j)) ` {..<k}"
    using assms(2) by (auto simp: set_conv_nth image_iff) (metis nth_take nth_drop add_leD1)
  also have "\<dots> = (\<lambda>j. a (int m + int j + 1)) ` {..<k}"
    using assms by (intro image_cong) (auto simp: nat_add_distrib)
  also have "\<dots> = a ` ((\<lambda>j. int m + int j + 1) ` {..<k})"
    by (simp add: image_image)
  also have "(\<lambda>j. int m + int j + 1) ` {..<k} = {int m + 1..int m + int k}"
  proof -
    have "x \<in> (\<lambda>j. int m + int j + 1) ` {..<k}" if "int m + 1 \<le> x" "x \<le> int m + int k" for x
      using that by (intro image_eqI [of _ _ "nat (x - int m - 1)"]) auto
    then show ?thesis
      by auto
  qed
  finally show ?thesis
    by simp
qed

lemma windows_best:
  assumes "\<And>i. 1 \<le> i \<Longrightarrow> i \<le> int (length xs) \<Longrightarrow> a i = xs ! nat (i - 1)" and "1 \<le> k" and "k \<le> length xs"
    and "list_all2 P [int k..int (length xs)] out" and "\<And>i x. P i x \<Longrightarrow> x = f (a ` {i - int k + 1..i})"
  shows "out = map (\<lambda>w. f (set w)) (windows k xs)"
proof (rule nth_equalityI)
  have len: "length out = length xs + 1 - k"
    using list_all2_lengthD [OF assms(4)] assms(3) by (simp add: nat_diff_distrib)
  then show "length out = length (map (\<lambda>w. f (set w)) (windows k xs))"
    by (simp add: windows_def)
  fix m
  assume m: "m < length out"
  then have "P (int k + int m) (out ! m)"
    using assms(4) by (auto simp: list_all2_conv_all_nth)
  then have "out ! m = f (a ` {int m + 1..int m + int k})"
    using assms(5) [of "int k + int m" "out ! m"] m len by (simp add: add.commute)
  then show "out ! m = map (\<lambda>w. f (set w)) (windows k xs) ! m"
    using window_image [OF assms(1), of m k] m len by (simp add: windows_def)
qed

text \<open>
  C22. For at most 1000099 numbers and a window of 1 up to all of them, the program \<^verbatim>\<open>monotonous-queue_1.cpp\<close> ends without leaving its arrays
  and prints the least number of every window and then the greatest number of every window.
\<close>

theorem monotonous_queue_correct:
  assumes "1 \<le> k" and "k \<le> length xs" and "int (length xs) < mq_maxn"
  shows "mq_main xs (int k) = Some (map (\<lambda>w. Min (set w)) (windows k xs), map (\<lambda>w. Max (set w)) (windows k xs))"
proof -
  define I where "I m a = (\<forall>i. 1 \<le> i \<and> i \<le> int m \<longrightarrow> a i = xs ! nat (i - 1))" for m and a :: "int \<Rightarrow> int"
  have "\<exists>a'. arr_set mq_maxn (int m + 1) (xs ! nat (int m + 1 - 1)) a = Some a' \<and> I (Suc m) a'" if "m < length xs" "I m a" for m a
    using that assms(3) by (auto simp: I_def)
  then obtain a where a: "for_each (\<lambda>i. arr_set mq_maxn i (xs ! nat (i - 1))) [1..int (length xs)] (\<lambda>_. 0) = Some a" "I (length xs) a"
    using for_each_upto [of I "\<lambda>_. 0" "length xs" "\<lambda>i. arr_set mq_maxn i (xs ! nat (i - 1))"] by (auto simp: I_def)
  then have entries: "\<And>i. 1 \<le> i \<Longrightarrow> i \<le> int (length xs) \<Longrightarrow> a i = xs ! nat (i - 1)"
    by (simp add: I_def)
  obtain q out where 1: "getmin a (int (length xs)) (int k) (\<lambda>_. 0) = Some (q, out)" "list_all2 (mins.is_best a (int k)) [int k..int (length xs)] out"
    using mins.mq_windows_ok [of "int k" "int (length xs)" a "\<lambda>_. 0"] assms by (auto simp: getmin_def)
  obtain q' out' where 2: "getmax a (int (length xs)) (int k) q = Some (q', out')" "list_all2 (maxs.is_best a (int k)) [int k..int (length xs)] out'"
    using maxs.mq_windows_ok [of "int k" "int (length xs)" a q] assms by (auto simp: getmax_def)
  have "out = map (\<lambda>w. Min (set w)) (windows k xs)"
    by (rule windows_best [OF entries assms(1,2) 1(2)]) (auto simp: mins.is_best_def intro!: Min_eqI [symmetric])
  moreover have "out' = map (\<lambda>w. Max (set w)) (windows k xs)"
    by (rule windows_best [OF entries assms(1,2) 2(2)]) (auto simp: maxs.is_best_def intro!: Max_eqI [symmetric])
  ultimately show ?thesis
    using a(1) 1(1) 2(1) by (simp add: mq_main_def)
qed

theorem monotonous_queue_correct_witness:
  "mq_main [1, 3, - 1, - 3, 5, 3, 6, 7] 3 = Some ([- 1, - 3, - 3, - 3, 3, 3], [3, 3, 5, 5, 6, 7])"
  using monotonous_queue_correct [of 3 "[1, 3, - 1, - 3, 5, 3, 6, 7]"]
  by (simp add: windows_def mq_maxn_def upt_rec numeral_eq_Suc)

end
