(* ===== verification/RunningMedian.thy ===== *)
theory RunningMedian
  imports QueryLoop "HOL-Library.Multiset"
begin

text \<open>
  The program \<^verbatim>\<open>binary-heap/binary-heap_1.cpp\<close>: a bag of numbers from which the smaller median can be taken, in a max-heap with the lower and a
  min-heap with the upper half. A \<^verbatim>\<open>std::priority_queue\<close> is the list of its elements in the order in which \<open>top\<close> and \<open>pop\<close> give them.
  Shown: the printed numbers are the medians of the bag, and the program fails exactly when it is asked for the median of nothing.
\<close>

section \<open>The program\<close>

text \<open>\<open>less\<close> puts the greatest element on top, \<open>greater\<close> the least one.\<close>

definition push_less :: "int \<Rightarrow> int list \<Rightarrow> int list" where
  "push_less x a = rev (insort x (rev a))"

definition push_greater :: "int \<Rightarrow> int list \<Rightarrow> int list" where
  "push_greater x b = insort x b"

definition pq_top :: "int list \<Rightarrow> int option" where
  "pq_top a = (case a of [] \<Rightarrow> None | x # _ \<Rightarrow> Some x)"

definition pq_pop :: "int list \<Rightarrow> int list option" where
  "pq_pop a = (case a of [] \<Rightarrow> None | _ # a \<Rightarrow> Some a)"

text \<open>The last part of the loop body: the halves are adjusted.\<close>

definition bh_adjust :: "int list \<times> int list \<Rightarrow> (int list \<times> int list) option" where
  "bh_adjust s = do {
     let (a, b) = s;
     if length a > (length a + length b + 1) div 2 then do {
       x \<leftarrow> pq_top a;
       a' \<leftarrow> pq_pop a;
       Some (a', push_greater x b)
     }
     else if length a < (length a + length b + 1) div 2 then do {
       x \<leftarrow> pq_top b;
       b' \<leftarrow> pq_pop b;
       Some (push_less x a, b')
     }
     else Some (a, b)
   }"

definition bh_step :: "int list \<times> int list \<Rightarrow> int \<Rightarrow> ((int list \<times> int list) \<times> int list) option" where
  "bh_step s x = do {
     let (a, b) = s;
     (s, out) \<leftarrow>
       (if x = - 1 then do {
          m \<leftarrow> pq_top a;
          a \<leftarrow> pq_pop a;
          Some ((a, b), [m])
        }
        else if a = [] \<or> x \<le> hd a then Some ((push_less x a, b), [])
        else Some ((a, push_greater x b), []));
     s \<leftarrow> bh_adjust s;
     Some (s, out)
   }"

text \<open>\<open>main\<close> for a list of test cases, each the numbers before its terminating 0.\<close>

fun bh_main :: "int list list \<Rightarrow> int list option" where
  "bh_main [] = Some []"
| "bh_main (xs # tests) = do {
     (s, out) \<leftarrow> query_loop bh_step ([], []) xs;
     rest \<leftarrow> bh_main tests;
     Some (out @ rest)
   }"

section \<open>The specification\<close>

text \<open>The bag as a sorted list; of the two middle elements of a bag of even size the smaller one is the median.\<close>

definition median :: "int list \<Rightarrow> int" where
  "median xs = xs ! ((length xs - 1) div 2)"

definition bag_ref :: "int list \<Rightarrow> int \<Rightarrow> int list \<times> int list" where
  "bag_ref xs x = (if x = - 1 then (remove1 (median xs) xs, [median xs]) else (insort x xs, []))"

definition bag_ok :: "int list \<Rightarrow> int \<Rightarrow> bool" where
  "bag_ok xs x = (x = - 1 \<longrightarrow> xs \<noteq> [])"

definition halves :: "int list \<times> int list \<Rightarrow> int list \<Rightarrow> bool" where
  "halves s xs = (sorted xs \<and> rev (fst s) @ snd s = xs \<and> length (fst s) = (length xs + 1) div 2)"

lemma sorted_same_bag: "sorted xs \<Longrightarrow> sorted ys \<Longrightarrow> mset xs = mset ys \<Longrightarrow> xs = ys" for xs :: "int list"
  by (metis properties_for_sort)

lemma insort_last: "sorted xs \<Longrightarrow> \<forall>y \<in> set xs. y \<le> x \<Longrightarrow> insort x xs = xs @ [x]" for x :: int
  by (rule sorted_same_bag) (auto simp: sorted_insort sorted_append)

lemma half_zero: "Suc (length xs) div 2 = 0 \<Longrightarrow> xs = []"
  by (cases xs) auto

text \<open>Adjusting halves that are off by one.\<close>

lemma bh_adjust_ok:
  assumes "sorted (rev a @ b)" and "length a \<le> (length a + length b + 1) div 2 + 1" and "(length a + length b + 1) div 2 \<le> length a + 1"
  shows "\<exists>s. bh_adjust (a, b) = Some s \<and> halves s (rev a @ b)"
proof (cases "length a" "(length a + length b + 1) div 2" rule: linorder_cases)
  case less
  then obtain y ys where b: "b = y # ys"
    by (cases b) auto
  have "insort y (rev a) = rev a @ [y]"
    using assms(1) b by (intro insort_last) (auto simp: sorted_append)
  then show ?thesis
    using less assms b by (auto simp: bh_adjust_def pq_top_def pq_pop_def push_less_def halves_def)
next
  case greater
  then obtain y ys where a: "a = y # ys"
    by (cases a) auto
  have "insort y b = y # b"
    using assms(1) a by (intro insort_is_Cons) (auto simp: sorted_append)
  then show ?thesis
    using greater assms a by (auto simp: bh_adjust_def pq_top_def pq_pop_def push_greater_def halves_def)
qed (use assms in \<open>auto simp: bh_adjust_def halves_def\<close>)

lemma insort_append_left: "sorted xs \<Longrightarrow> sorted ys \<Longrightarrow> \<forall>y \<in> set ys. x \<le> y \<Longrightarrow> insort x (xs @ ys) = insort x xs @ ys" for x :: int
  by (induction xs) (auto intro: insort_is_Cons)

lemma insort_append_right: "\<forall>y \<in> set xs. y < x \<Longrightarrow> insort x (xs @ ys) = xs @ insort x ys" for x :: int
  by (induction xs) auto

lemma bh_step_insert:
  assumes "halves (a, b) xs" and "x \<noteq> - 1"
  shows "\<exists>s. bh_step (a, b) x = Some (s, []) \<and> halves s (insort x xs)"
proof -
  have d: "sorted xs" "xs = rev a @ b" "length a = (length xs + 1) div 2" "a = [] \<Longrightarrow> b = []"
    using assms(1) half_zero by (auto simp: halves_def)
  have len: "length a = (length a + length b + 1) div 2"
    using d(2,3) by simp
  show ?thesis
  proof (cases "a = [] \<or> x \<le> hd a")
    case True
    have "\<forall>y \<in> set b. x \<le> y"
    proof (cases a)
      case Nil
      then show ?thesis
        using d by auto
    next
      case (Cons m a')
      then show ?thesis
        using d True by (force simp: sorted_append)
    qed
    then have "insort x xs = rev (push_less x a) @ b"
      using d by (simp add: push_less_def insort_append_left sorted_append)
    moreover have "length (push_less x a) \<le> (length (push_less x a) + length b + 1) div 2 + 1"
        "(length (push_less x a) + length b + 1) div 2 \<le> length (push_less x a) + 1"
      using len by (simp_all add: push_less_def)
    moreover have "sorted (insort x xs)"
      using d(1) by (simp add: sorted_insort)
    ultimately obtain s where "bh_adjust (push_less x a, b) = Some s" "halves s (insort x xs)"
      using bh_adjust_ok [of "push_less x a" b] by metis
    then show ?thesis
      using True assms(2) by (simp add: bh_step_def)
  next
    case False
    have "\<forall>y \<in> set (rev a). y < x"
      using False d by (cases a) (auto simp: sorted_append)
    then have "insort x xs = rev a @ push_greater x b"
      using d by (simp add: push_greater_def insort_append_right)
    moreover have "length a \<le> (length a + length (push_greater x b) + 1) div 2 + 1"
        "(length a + length (push_greater x b) + 1) div 2 \<le> length a + 1"
      using len by (simp_all add: push_greater_def)
    moreover have "sorted (insort x xs)"
      using d(1) by (simp add: sorted_insort)
    ultimately obtain s where "bh_adjust (a, push_greater x b) = Some s" "halves s (insort x xs)"
      using bh_adjust_ok [of a "push_greater x b"] by metis
    then show ?thesis
      using False assms(2) by (simp add: bh_step_def)
  qed
qed

lemma remove1_middle: "sorted (xs @ m # ys) \<Longrightarrow> remove1 m (xs @ m # ys) = xs @ ys" for m :: int
  by (rule sorted_same_bag) (auto simp: sorted_remove1 sorted_append)

lemma bh_step_median:
  assumes "halves (a, b) xs" and "xs \<noteq> []"
  shows "\<exists>s. bh_step (a, b) (- 1) = Some (s, [median xs]) \<and> halves s (remove1 (median xs) xs)"
proof -
  have d: "sorted xs" "xs = rev a @ b" "length a = (length xs + 1) div 2" "a = [] \<Longrightarrow> b = []"
    using assms(1) half_zero by (auto simp: halves_def)
  then obtain m a' where a: "a = m # a'"
    using assms(2) by (cases a) auto
  have "length a' = (length xs - 1) div 2"
    using d(3) a assms(2) by (cases xs) auto
  then have m: "median xs = m"
    using d(2) a unfolding median_def by (simp add: nth_append)
  have xs: "xs = rev a' @ m # b"
    using d(2) a by simp
  then have rest: "remove1 m xs = rev a' @ b"
    using d(1) remove1_middle by metis
  moreover have "sorted (rev a' @ b)"
    using d(1) unfolding xs by (auto simp: sorted_append)
  moreover have "length a' \<le> (length a' + length b + 1) div 2 + 1" "(length a' + length b + 1) div 2 \<le> length a' + 1"
    using d(2,3) a by auto
  ultimately obtain s where "bh_adjust (a', b) = Some s" "halves s (remove1 m xs)"
    using bh_adjust_ok [of a' b] by auto
  then show ?thesis
    using a m by (simp add: bh_step_def pq_top_def pq_pop_def)
qed

lemma bh_step_ok:
  assumes "halves s xs" and "bag_ok xs x"
  shows "\<exists>s'. bh_step s x = Some (s', snd (bag_ref xs x)) \<and> halves s' (fst (bag_ref xs x))"
  using assms bh_step_insert [of "fst s" "snd s" xs x] bh_step_median [of "fst s" "snd s" xs]
  by (auto simp: bag_ref_def bag_ok_def)

text \<open>A median of nothing: \<open>top\<close> of an empty heap.\<close>

lemma bh_step_fails: "halves s xs \<Longrightarrow> \<not> bag_ok xs x \<Longrightarrow> bh_step s x = None"
  by (cases s) (auto simp: halves_def bag_ok_def bh_step_def pq_top_def)

lemma bh_loop:
  assumes "halves s xs"
  shows "map_option snd (query_loop bh_step s ops) = (if all_ok bag_ok bag_ref xs ops then Some (ref_loop bag_ref xs ops) else None)"
  using assms
proof (induction ops arbitrary: s xs)
  case (Cons x ops)
  show ?case
  proof (cases "bag_ok xs x")
    case True
    then obtain s' where "bh_step s x = Some (s', snd (bag_ref xs x))" "halves s' (fst (bag_ref xs x))"
      using bh_step_ok [OF Cons.prems] by blast
    then show ?thesis
      using True Cons.IH [of s' "fst (bag_ref xs x)"] by (cases "query_loop bh_step s' ops") (auto split: if_splits)
  next
    case False
    then show ?thesis
      using bh_step_fails [OF Cons.prems False] by simp
  qed
qed simp

text \<open>
  C25. The program \<^verbatim>\<open>binary-heap_1.cpp\<close> prints the smaller median of the bag each time it is asked for and takes that element out of the bag;
  it fails (by reading the top of an empty heap) exactly for inputs that ask for the median of an empty bag.
\<close>

theorem running_median_correct:
  "bh_main tests = (if list_all (all_ok bag_ok bag_ref []) tests then Some (concat (map (ref_loop bag_ref []) tests)) else None)"
proof (induction tests)
  case (Cons xs tests)
  have "halves ([], []) []"
    by (simp add: halves_def)
  then have "map_option snd (query_loop bh_step ([], []) xs) = (if all_ok bag_ok bag_ref [] xs then Some (ref_loop bag_ref [] xs) else None)"
    by (rule bh_loop)
  then show ?case
    using Cons.IH by (cases "query_loop bh_step ([], []) xs") (auto split: if_splits)
qed simp

lemma running_median_example: "bh_main [[1, 2, 3, 4, - 1, 5, - 1], [8, - 1]] = Some [2, 3, 8]"
  by (simp add: bh_step_def bh_adjust_def pq_top_def pq_pop_def push_less_def push_greater_def)

end
