(* ===== verification/Blocks.thy ===== *)
theory Blocks
  imports QueryLoop
begin

text \<open>
  The program \<^verbatim>\<open>decompose/decompose_1.cpp\<close>: range additions and range sums modulo a number on an array cut into blocks of
  \<open>sqrt(n)\<close> elements. An addition to a whole block is noted in \<open>b\<close>, \<open>s\<close> has the sums of the blocks. The numbers are 64 bits wide; a sum that leaves
  them has no result. Shown: the printed numbers are those of the plain array, and no sum overflows.
\<close>

section \<open>The program\<close>

definition dc_size :: int where
  "dc_size = 50005"

record blocks =
  dc_id :: "int \<Rightarrow> int"
  dc_len :: int
  dc_a :: "int \<Rightarrow> int"
  dc_b :: "int \<Rightarrow> int"
  dc_s :: "int \<Rightarrow> int"

text \<open>\<open>f[i] += x\<close>\<close>

definition plus_at :: "int \<Rightarrow> int \<Rightarrow> (int \<Rightarrow> int) \<Rightarrow> (int \<Rightarrow> int) option" where
  "plus_at i x f = do {
     v \<leftarrow> arr_get dc_size f i;
     v \<leftarrow> long_long (v + x);
     arr_set dc_size i v f
   }"

text \<open>\<open>a[i] += x, s[j] += x\<close>\<close>

definition dc_bump :: "int \<Rightarrow> int \<Rightarrow> int \<Rightarrow> blocks \<Rightarrow> blocks option" where
  "dc_bump x j i S = do {
     a \<leftarrow> plus_at i x (dc_a S);
     s \<leftarrow> plus_at j x (dc_s S);
     Some (S\<lparr>dc_a := a, dc_s := s\<rparr>)
   }"

text \<open>The loops over the part of block \<open>j\<close> from \<open>i\<close> on, upwards (\<open>d = 1\<close>) and downwards (\<open>d = - 1\<close>).\<close>

partial_function (option) dc_add_part :: "int \<Rightarrow> int \<Rightarrow> int \<Rightarrow> int \<Rightarrow> blocks \<Rightarrow> blocks option" where [code]:
  "dc_add_part d x j i S = do {
     k \<leftarrow> arr_get dc_size (dc_id S) i;
     if k = j then do {
       S \<leftarrow> dc_bump x j i S;
       dc_add_part d x j (i + d) S
     }
     else Some S
   }"

text \<open>\<open>b[i] += x, s[i] += len * x\<close>\<close>

definition dc_add_block :: "int \<Rightarrow> int \<Rightarrow> blocks \<Rightarrow> blocks option" where
  "dc_add_block x i S = do {
     b \<leftarrow> plus_at i x (dc_b S);
     y \<leftarrow> long_long (dc_len S * x);
     s \<leftarrow> plus_at i y (dc_s S);
     Some (S\<lparr>dc_b := b, dc_s := s\<rparr>)
   }"

definition dc_add :: "int \<Rightarrow> int \<Rightarrow> int \<Rightarrow> blocks \<Rightarrow> blocks option" where
  "dc_add l r x S = do {
     sid \<leftarrow> arr_get dc_size (dc_id S) l;
     eid \<leftarrow> arr_get dc_size (dc_id S) r;
     if sid = eid then for_each (dc_bump x sid) [l..r] S
     else do {
       S \<leftarrow> dc_add_part 1 x sid l S;
       S \<leftarrow> for_each (dc_add_block x) [sid + 1..eid - 1] S;
       dc_add_part (- 1) x eid r S
     }
   }"

text \<open>\<open>(x + y) % p\<close>\<close>

definition plus_mod :: "int \<Rightarrow> int \<Rightarrow> int \<Rightarrow> int option" where
  "plus_mod p x y = do {
     v \<leftarrow> long_long (x + y);
     ll_mod v p
   }"

text \<open>\<open>ans = (ans + a[i] + b[j]) % p\<close>\<close>

definition dc_cell :: "blocks \<Rightarrow> int \<Rightarrow> int \<Rightarrow> int \<Rightarrow> int \<Rightarrow> int option" where
  "dc_cell S p j i ans = do {
     x \<leftarrow> arr_get dc_size (dc_a S) i;
     v \<leftarrow> long_long (ans + x);
     y \<leftarrow> arr_get dc_size (dc_b S) j;
     plus_mod p v y
   }"

partial_function (option) dc_sum_part :: "blocks \<Rightarrow> int \<Rightarrow> int \<Rightarrow> int \<Rightarrow> int \<Rightarrow> int \<Rightarrow> int option" where [code]:
  "dc_sum_part S d p j i ans = do {
     k \<leftarrow> arr_get dc_size (dc_id S) i;
     if k = j then do {
       ans \<leftarrow> dc_cell S p j i ans;
       dc_sum_part S d p j (i + d) ans
     }
     else Some ans
   }"

definition dc_sum_block :: "blocks \<Rightarrow> int \<Rightarrow> int \<Rightarrow> int \<Rightarrow> int option" where
  "dc_sum_block S p i ans = do {
     y \<leftarrow> arr_get dc_size (dc_s S) i;
     plus_mod p ans y
   }"

definition dc_query :: "int \<Rightarrow> int \<Rightarrow> int \<Rightarrow> blocks \<Rightarrow> int option" where
  "dc_query l r p S = do {
     sid \<leftarrow> arr_get dc_size (dc_id S) l;
     eid \<leftarrow> arr_get dc_size (dc_id S) r;
     if sid = eid then for_each (dc_cell S p sid) [l..r] 0
     else do {
       ans \<leftarrow> dc_sum_part S 1 p sid l 0;
       ans \<leftarrow> for_each (dc_sum_block S p) [sid + 1..eid - 1] ans;
       dc_sum_part S (- 1) p eid r ans
     }
   }"

text \<open>\<open>sqrt\<close> converted to an integer.\<close>

definition isqrt :: "int \<Rightarrow> int" where
  "isqrt n = int (length (takeWhile (\<lambda>k. k * k \<le> n) [1..n]))"

definition dc_read :: "int list \<Rightarrow> int \<Rightarrow> blocks \<Rightarrow> blocks option" where
  "dc_read vs i S = do {
     a \<leftarrow> arr_set dc_size i (vs ! nat (i - 1)) (dc_a S);
     assert (dc_len S \<noteq> 0);
     let j = (i - 1) sdiv dc_len S + 1;
     id \<leftarrow> arr_set dc_size i j (dc_id S);
     s \<leftarrow> plus_at j (vs ! nat (i - 1)) (dc_s S);
     Some (S\<lparr>dc_a := a, dc_id := id, dc_s := s\<rparr>)
   }"

datatype dc_op = DAdd int int int | DSum int int int

fun dc_step :: "blocks \<Rightarrow> dc_op \<Rightarrow> (blocks \<times> int list) option" where
  "dc_step S (DAdd l r c) = map_option (\<lambda>S. (S, [])) (dc_add l r c S)"
| "dc_step S (DSum l r c) = do {
     assert (c < 2 ^ 31 - 1);
     v \<leftarrow> dc_query l r (c + 1) S;
     Some (S, [v])
   }"

text \<open>\<open>main\<close> for the numbers and operations read.\<close>

definition dc_main :: "int list \<Rightarrow> dc_op list \<Rightarrow> int list option" where
  "dc_main vs ops = do {
     let n = int (length vs);
     S \<leftarrow> for_each (dc_read vs) [1..n] \<lparr>dc_id = (\<lambda>_. 0), dc_len = isqrt n, dc_a = (\<lambda>_. 0), dc_b = (\<lambda>_. 0), dc_s = (\<lambda>_. 0)\<rparr>;
     (S, out) \<leftarrow> query_loop dc_step S ops;
     Some out
   }"

section \<open>Loops over parts of blocks\<close>

text \<open>What an addition to some cells of block \<open>j\<close>, and to some whole blocks, does to the arrays.\<close>

definition put_cells :: "int set \<Rightarrow> int \<Rightarrow> int \<Rightarrow> blocks \<Rightarrow> blocks" where
  "put_cells A j x S = S\<lparr>dc_a := (\<lambda>i. if i \<in> A then dc_a S i + x else dc_a S i), dc_s := (dc_s S)(j := dc_s S j + x * int (card A))\<rparr>"

definition put_blocks :: "int set \<Rightarrow> int \<Rightarrow> blocks \<Rightarrow> blocks" where
  "put_blocks J x S = S\<lparr>dc_b := (\<lambda>j. if j \<in> J then dc_b S j + x else dc_b S j), dc_s := (\<lambda>j. if j \<in> J then dc_s S j + dc_len S * x else dc_s S j)\<rparr>"

lemma put_fields [simp]:
  "dc_id (put_cells A j x S) = dc_id S" "dc_len (put_cells A j x S) = dc_len S" "dc_b (put_cells A j x S) = dc_b S"
  "dc_id (put_blocks J x S) = dc_id S" "dc_len (put_blocks J x S) = dc_len S" "dc_a (put_blocks J x S) = dc_a S"
  by (simp_all add: put_cells_def put_blocks_def)

lemma put_cells_insert:
  "finite A \<Longrightarrow> i \<notin> A \<Longrightarrow> put_cells A j x (put_cells {i} j x S) = put_cells (insert i A) j x S"
  by (auto simp: put_cells_def fun_eq_iff algebra_simps)

lemma put_blocks_insert: "i \<notin> J \<Longrightarrow> put_blocks J x (put_blocks {i} x S) = put_blocks (insert i J) x S"
  by (auto simp: put_blocks_def fun_eq_iff)

lemma put_nothing [simp]: "put_cells {} j x S = S" "put_blocks {} x S = S"
  by (simp_all add: put_cells_def put_blocks_def)

lemma plus_at_in: "0 \<le> i \<Longrightarrow> i < dc_size \<Longrightarrow> \<bar>f i\<bar> + \<bar>x\<bar> < 2 ^ 63 \<Longrightarrow> plus_at i x f = Some (f(i := f i + x))"
  by (simp add: plus_at_def)

lemma bump_list:
  assumes "distinct is" and "\<And>i. i \<in> set is \<Longrightarrow> 0 \<le> i \<and> i < dc_size \<and> \<bar>dc_a S i\<bar> + \<bar>x\<bar> < 2 ^ 63" and "0 \<le> j" and "j < dc_size"
    and "\<bar>dc_s S j\<bar> + \<bar>x\<bar> * int (length is) < 2 ^ 63"
  shows "for_each (dc_bump x j) is S = Some (put_cells (set is) j x S)"
  using assms(1,2,5)
proof (induction "is" arbitrary: S)
  case (Cons i "is")
  have pos: "0 \<le> \<bar>x\<bar> * int (length is)"
    by simp
  have "\<bar>dc_s S j\<bar> + \<bar>x\<bar> < 2 ^ 63"
    using Cons.prems(3) pos unfolding list.size(4) of_nat_add of_nat_Suc distrib_left by linarith
  then have bump: "dc_bump x j i S = Some (put_cells {i} j x S)"
    using Cons.prems(2) [of i] assms(3,4) by (auto simp: dc_bump_def plus_at_in put_cells_def fun_eq_iff)
  have "\<bar>dc_s (put_cells {i} j x S) j\<bar> + \<bar>x\<bar> * int (length is) < 2 ^ 63"
    using Cons.prems(3) by (simp add: put_cells_def algebra_simps)
  moreover have "dc_a (put_cells {i} j x S) k = dc_a S k" if "k \<in> set is" for k
    using Cons.prems(1) that by (auto simp: put_cells_def)
  ultimately have "for_each (dc_bump x j) is (put_cells {i} j x S) = Some (put_cells (set is) j x (put_cells {i} j x S))"
    using Cons.IH [of "put_cells {i} j x S"] Cons.prems(1,2) by simp
  then show ?case
    using bump Cons.prems(1) by (simp add: put_cells_insert)
qed simp

lemma block_list:
  assumes "distinct js" and "\<And>j. j \<in> set js \<Longrightarrow> 0 \<le> j \<and> j < dc_size \<and> \<bar>dc_b S j\<bar> + \<bar>x\<bar> < 2 ^ 63 \<and> \<bar>dc_s S j\<bar> + \<bar>dc_len S * x\<bar> < 2 ^ 63"
  shows "for_each (dc_add_block x) js S = Some (put_blocks (set js) x S)"
  using assms
proof (induction js arbitrary: S)
  case (Cons j js)
  have "dc_add_block x j S = Some (put_blocks {j} x S)"
    using Cons.prems(2) [of j] by (auto simp: dc_add_block_def plus_at_in put_blocks_def fun_eq_iff)
  moreover have "dc_b (put_blocks {j} x S) k = dc_b S k" "dc_s (put_blocks {j} x S) k = dc_s S k" if "k \<in> set js" for k
    using Cons.prems(1) that by (auto simp: put_blocks_def)
  then have "for_each (dc_add_block x) js (put_blocks {j} x S) = Some (put_blocks (set js) x (put_blocks {j} x S))"
    using Cons.IH [of "put_blocks {j} x S"] Cons.prems by simp
  ultimately show ?case
    using Cons.prems(1) by (simp add: put_blocks_insert)
qed simp

text \<open>The loops that run as long as they are in a block visit \<open>i\<close>, \<open>i + d\<close> and so on.\<close>

definition strides :: "int \<Rightarrow> int \<Rightarrow> nat \<Rightarrow> int list" where
  "strides d i m = map (\<lambda>k. i + d * int k) [0..<m]"

lemma strides_Suc: "strides d i (Suc m) = i # strides d (i + d) m"
  by (simp add: strides_def upt_rec [of 0] map_Suc_upt [symmetric] algebra_simps del: upt_Suc)

lemma strides_0: "strides d i 0 = []"
  by (simp add: strides_def)

lemma distinct_strides: "d \<noteq> 0 \<Longrightarrow> distinct (strides d i m)"
  by (simp add: strides_def distinct_map inj_on_def)

lemma length_strides [simp]: "length (strides d i m) = m"
  by (simp add: strides_def)

lemma set_strides: "set (strides 1 i m) = {i..<i + int m}" "set (strides (- 1) i m) = {i - int m<..i}"
proof -
  have "k \<in> set (strides 1 i m)" if "i \<le> k" "k < i + int m" for k
    using that by (auto simp: strides_def image_iff intro!: bexI [of _ "nat (k - i)"])
  then show "set (strides 1 i m) = {i..<i + int m}"
    by (auto simp: strides_def)
  have "k \<in> set (strides (- 1) i m)" if "i - int m < k" "k \<le> i" for k
    using that by (auto simp: strides_def image_iff intro!: bexI [of _ "nat (i - k)"])
  then show "set (strides (- 1) i m) = {i - int m<..i}"
    by (auto simp: strides_def)
qed

lemma dc_bump_id: "dc_bump x j i S = Some S' \<Longrightarrow> dc_id S' = dc_id S"
  by (auto simp: dc_bump_def bind_eq_Some_conv)

lemma dc_add_part_list:
  assumes "\<And>k. k < m \<Longrightarrow> 0 \<le> i + d * int k \<and> i + d * int k < dc_size \<and> dc_id S (i + d * int k) = j"
    and "0 \<le> i + d * int m" and "i + d * int m < dc_size" and "dc_id S (i + d * int m) \<noteq> j"
  shows "dc_add_part d x j i S = for_each (dc_bump x j) (strides d i m) S"
  using assms
proof (induction m arbitrary: i S)
  case 0
  then show ?case
    by (subst dc_add_part.simps) (simp add: strides_0)
next
  case (Suc m)
  have "dc_add_part d x j (i + d) S1 = for_each (dc_bump x j) (strides d (i + d) m) S1" if "dc_bump x j i S = Some S1" for S1
    using Suc.prems(1) [of "Suc _"] Suc.prems(2-4) dc_bump_id [OF that] by (intro Suc.IH) (auto simp: algebra_simps)
  then show ?case
    using Suc.prems(1) [of 0] by (subst dc_add_part.simps) (auto simp: strides_Suc split: bind_splits)
qed

lemma dc_sum_part_list:
  assumes "\<And>k. k < m \<Longrightarrow> 0 \<le> i + d * int k \<and> i + d * int k < dc_size \<and> dc_id S (i + d * int k) = j"
    and "0 \<le> i + d * int m" and "i + d * int m < dc_size" and "dc_id S (i + d * int m) \<noteq> j"
  shows "dc_sum_part S d p j i ans = for_each (dc_cell S p j) (strides d i m) ans"
  using assms
proof (induction m arbitrary: i ans)
  case 0
  then show ?case
    by (subst dc_sum_part.simps) (simp add: strides_0)
next
  case (Suc m)
  have "dc_sum_part S d p j (i + d) a = for_each (dc_cell S p j) (strides d (i + d) m) a" for a
    using Suc.prems(1) [of "Suc _"] Suc.prems(2-4) by (intro Suc.IH) (auto simp: algebra_simps)
  then show ?case
    using Suc.prems(1) [of 0] by (subst dc_sum_part.simps) (auto simp: strides_Suc split: bind_splits)
qed

section \<open>What the arrays stand for\<close>

text \<open>Block \<open>j\<close> of an array of \<open>n\<close> cells in blocks of length \<open>k\<close>.\<close>

definition block_of :: "int \<Rightarrow> int \<Rightarrow> int \<Rightarrow> int set" where
  "block_of n k j = {(j - 1) * k + 1..min n (j * k)}"

lemma finite_block [simp]: "finite (block_of n k j)"
  by (simp add: block_of_def)

lemma block_number:
  assumes "0 < k"
  shows "(i - 1) div k + 1 = j \<longleftrightarrow> (j - 1) * k + 1 \<le> i \<and> i \<le> j * (k::int)"
proof
  assume "(i - 1) div k + 1 = j"
  then have j: "(i - 1) div k = j - 1"
    by simp
  have "i - 1 = (i - 1) div k * k + (i - 1) mod k" "0 \<le> (i - 1) mod k" "(i - 1) mod k < k"
    using assms by simp_all
  then show "(j - 1) * k + 1 \<le> i \<and> i \<le> j * k"
    unfolding j by (simp add: algebra_simps)
next
  assume "(j - 1) * k + 1 \<le> i \<and> i \<le> j * k"
  then have "i - 1 = k * (j - 1) + (i - 1 - k * (j - 1))" "0 \<le> i - 1 - k * (j - 1)" "i - 1 - k * (j - 1) < k"
    by (simp_all add: algebra_simps)
  from int_div_pos_eq [OF this] show "(i - 1) div k + 1 = j"
    by simp
qed

definition dc_inv :: "int \<Rightarrow> blocks \<Rightarrow> (int \<Rightarrow> int) \<Rightarrow> bool" where
  "dc_inv n S f = (1 \<le> dc_len S \<and> dc_len S \<le> n \<and> n < dc_size \<and>
     (\<forall>i. dc_id S i = (if 1 \<le> i \<and> i \<le> n then (i - 1) div dc_len S + 1 else 0)) \<and>
     (\<forall>i \<in> {1..n}. f i = dc_a S i + dc_b S (dc_id S i)) \<and>
     (\<forall>j \<ge> 1. dc_s S j = sum f (block_of n (dc_len S) j)))"

definition dc_bounded :: "int \<Rightarrow> int \<Rightarrow> blocks \<Rightarrow> bool" where
  "dc_bounded n B S = (0 \<le> B \<and> (\<forall>i. \<bar>dc_a S i\<bar> \<le> B) \<and> (\<forall>j. \<bar>dc_b S j\<bar> \<le> B) \<and> (\<forall>j. \<bar>dc_s S j\<bar> \<le> B * n))"

lemma dc_invD:
  assumes "dc_inv n S f"
  shows "1 \<le> dc_len S" "dc_len S \<le> n" "n < dc_size" "1 \<le> i \<Longrightarrow> i \<le> n \<Longrightarrow> dc_id S i = (i - 1) div dc_len S + 1"
    "\<not> (1 \<le> i \<and> i \<le> n) \<Longrightarrow> dc_id S i = 0" "1 \<le> i \<Longrightarrow> i \<le> n \<Longrightarrow> f i = dc_a S i + dc_b S (dc_id S i)"
    "1 \<le> j \<Longrightarrow> dc_s S j = sum f (block_of n (dc_len S) j)"
  using assms by (auto simp: dc_inv_def)

lemma block_subset: "1 \<le> k \<Longrightarrow> 1 \<le> j \<Longrightarrow> block_of n k j \<subseteq> {1..n}"
proof
  fix i
  assume "1 \<le> k" "1 \<le> j" "i \<in> block_of n k j"
  moreover have "0 \<le> (j - 1) * k"
    using \<open>1 \<le> k\<close> \<open>1 \<le> j\<close> by simp
  ultimately show "i \<in> {1..n}"
    unfolding block_of_def atLeastAtMost_iff by linarith
qed

lemma id_block:
  assumes "dc_inv n S f" and "1 \<le> j"
  shows "dc_id S i = j \<longleftrightarrow> i \<in> block_of n (dc_len S) j"
proof (cases "1 \<le> i \<and> i \<le> n")
  case True
  then show ?thesis
    using dc_invD(4) [OF assms(1), of i] block_number [of "dc_len S" i j] dc_invD(1) [OF assms(1)] by (auto simp: block_of_def)
next
  case False
  then show ?thesis
    using dc_invD(5) [OF assms(1) False] block_subset [OF dc_invD(1) [OF assms(1)] assms(2), of n] assms(2) by auto
qed

lemma block_disjoint: "dc_inv n S f \<Longrightarrow> 1 \<le> j \<Longrightarrow> 1 \<le> j' \<Longrightarrow> j \<noteq> j' \<Longrightarrow> block_of n (dc_len S) j \<inter> block_of n (dc_len S) j' = {}"
  by (metis disjoint_iff id_block)

lemma dc_inv_cong: "dc_inv n S f \<Longrightarrow> (\<And>i. 1 \<le> i \<Longrightarrow> i \<le> n \<Longrightarrow> f i = g i) \<Longrightarrow> dc_inv n S g"
proof -
  assume 1: "dc_inv n S f" and 2: "\<And>i. 1 \<le> i \<Longrightarrow> i \<le> n \<Longrightarrow> f i = g i"
  have "sum f (block_of n (dc_len S) j) = sum g (block_of n (dc_len S) j)" if "1 \<le> j" for j
    using block_subset [OF dc_invD(1) [OF 1] that, of n] 2 by (intro sum.cong) auto
  then show "dc_inv n S g"
    using 1 2 by (simp add: dc_inv_def)
qed

lemma sum_if_plus:
  fixes x :: int
  assumes "finite B"
  shows "(\<Sum>i\<in>B. if i \<in> A then f i + x else f i) = sum f B + x * int (card (A \<inter> B))"
proof -
  have "(\<Sum>i\<in>B. if i \<in> A then f i + x else f i) = (\<Sum>i\<in>B. f i + (if i \<in> A then x else 0))"
    by (rule sum.cong) auto
  also have "\<dots> = sum f B + (\<Sum>i\<in>B \<inter> A. x)"
    using assms by (simp only: sum.distrib sum.inter_restrict)
  finally show ?thesis
    by (simp add: Int_commute)
qed

lemma dc_inv_cells:
  assumes "dc_inv n S f" and "A \<subseteq> block_of n (dc_len S) j" and "1 \<le> j"
  shows "dc_inv n (put_cells A j x S) (\<lambda>i. if i \<in> A then f i + x else f i)"
proof -
  have "A \<inter> block_of n (dc_len S) j' = (if j' = j then A else {})" if "1 \<le> j'" for j'
    using block_disjoint [OF assms(1,3) that] assms(2) by auto
  then have "dc_s (put_cells A j x S) j' = (\<Sum>i\<in>block_of n (dc_len S) j'. if i \<in> A then f i + x else f i)" if "1 \<le> j'" for j'
    using dc_invD(7) [OF assms(1) that] that by (subst sum_if_plus) (auto simp: put_cells_def block_of_def)
  moreover have "\<forall>i \<in> {1..n}. (if i \<in> A then f i + x else f i) = dc_a (put_cells A j x S) i + dc_b S (dc_id S i)"
    using dc_invD(6) [OF assms(1)] by (simp add: put_cells_def)
  ultimately show ?thesis
    using assms(1) by (simp add: dc_inv_def)
qed

lemma dc_inv_blocks:
  assumes "dc_inv n S f" and "\<And>j. j \<in> J \<Longrightarrow> 1 \<le> j \<and> j * dc_len S \<le> n"
  shows "dc_inv n (put_blocks J x S) (\<lambda>i. if dc_id S i \<in> J then f i + x else f i)"
proof -
  let ?B = "block_of n (dc_len S)"
  have "dc_s (put_blocks J x S) j = (\<Sum>i\<in>?B j. if dc_id S i \<in> J then f i + x else f i)" if "1 \<le> j" for j
  proof -
    have "(\<Sum>i\<in>?B j. if dc_id S i \<in> J then f i + x else f i) = (\<Sum>i\<in>?B j. if i \<in> (if j \<in> J then ?B j else {}) then f i + x else f i)"
    proof (rule sum.cong)
      show "(if dc_id S i \<in> J then f i + x else f i) = (if i \<in> (if j \<in> J then ?B j else {}) then f i + x else f i)" if "i \<in> ?B j" for i
        using id_block [OF assms(1) \<open>1 \<le> j\<close>, of i] that by simp
    qed simp
    also have "\<dots> = sum f (?B j) + x * int (card (if j \<in> J then ?B j else {}))"
      by (subst sum_if_plus) (auto simp: block_of_def)
    also have "\<dots> = dc_s (put_blocks J x S) j"
      using assms(2) [of j] dc_invD(1) [OF assms(1)] dc_invD(7) [OF assms(1) that] by (auto simp: put_blocks_def block_of_def algebra_simps)
    finally show ?thesis
      by simp
  qed
  moreover have "\<forall>i \<in> {1..n}. (if dc_id S i \<in> J then f i + x else f i) = dc_a S i + dc_b (put_blocks J x S) (dc_id S i)"
    using dc_invD(6) [OF assms(1)] by (simp add: put_blocks_def)
  ultimately show ?thesis
    using assms(1) by (simp add: dc_inv_def)
qed

text \<open>The stretches the loops of \<open>add\<close> and \<open>query\<close> run over.\<close>

lemma id_bounds:
  assumes "dc_inv n S f" and "1 \<le> i" and "i \<le> n"
  shows "1 \<le> dc_id S i" "dc_id S i \<le> i" "i \<in> block_of n (dc_len S) (dc_id S i)"
proof -
  have "0 \<le> (i - 1) div dc_len S" "(i - 1) div dc_len S \<le> i - 1"
    using dc_invD(1) [OF assms(1)] assms(2) zdiv_mono2 [of "i - 1" 1 "dc_len S"] by (simp_all add: pos_imp_zdiv_nonneg_iff)
  then show "1 \<le> dc_id S i" "dc_id S i \<le> i"
    using dc_invD(4) [OF assms(1), of i] assms(2,3) by simp_all
  then show "i \<in> block_of n (dc_len S) (dc_id S i)"
    using id_block [OF assms(1), of "dc_id S i" i] by simp
qed

lemma part_up:
  assumes "dc_inv n S f" and "1 \<le> j" and "l \<in> block_of n (dc_len S) j" and "j * dc_len S < n" and "m = nat (j * dc_len S + 1 - l)"
  shows "\<And>k. k < m \<Longrightarrow> 0 \<le> l + 1 * int k \<and> l + 1 * int k < dc_size \<and> dc_id S (l + 1 * int k) = j"
    and "0 \<le> l + 1 * int m" and "l + 1 * int m < dc_size" and "dc_id S (l + 1 * int m) \<noteq> j" and "set (strides 1 l m) = {l..j * dc_len S}"
proof -
  have l: "(j - 1) * dc_len S + 1 \<le> l" "l \<le> j * dc_len S" "1 \<le> l"
    using assms(3) block_subset [OF dc_invD(1) [OF assms(1)] assms(2), of n] by (auto simp: block_of_def)
  note n = dc_invD(3) [OF assms(1)]
  show "0 \<le> l + 1 * int k \<and> l + 1 * int k < dc_size \<and> dc_id S (l + 1 * int k) = j" if "k < m" for k
    using that l n assms(4,5) id_block [OF assms(1,2), of "l + int k"] by (auto simp: block_of_def)
  show "0 \<le> l + 1 * int m" "l + 1 * int m < dc_size"
    using l n assms(4,5) by simp_all
  show "dc_id S (l + 1 * int m) \<noteq> j"
    using id_block [OF assms(1,2), of "l + int m"] assms(5) l(2) by (auto simp: block_of_def)
  show "set (strides 1 l m) = {l..j * dc_len S}"
    using assms(5) l(2) by (auto simp: set_strides)
qed

lemma part_down:
  assumes "dc_inv n S f" and "1 \<le> j" and "r \<in> block_of n (dc_len S) j" and "m = nat (r - (j - 1) * dc_len S)"
  shows "\<And>k. k < m \<Longrightarrow> 0 \<le> r + (- 1) * int k \<and> r + (- 1) * int k < dc_size \<and> dc_id S (r + (- 1) * int k) = j"
    and "0 \<le> r + (- 1) * int m" and "r + (- 1) * int m < dc_size" and "dc_id S (r + (- 1) * int m) \<noteq> j" and "set (strides (- 1) r m) = {(j - 1) * dc_len S + 1..r}"
proof -
  have p: "0 \<le> (j - 1) * dc_len S"
    using assms(2) dc_invD(1) [OF assms(1)] by simp
  have r: "(j - 1) * dc_len S + 1 \<le> r" "r \<le> j * dc_len S" "r \<le> n"
    using assms(3) by (auto simp: block_of_def)
  note n = dc_invD(3) [OF assms(1)]
  show "0 \<le> r + (- 1) * int k \<and> r + (- 1) * int k < dc_size \<and> dc_id S (r + (- 1) * int k) = j" if "k < m" for k
    using that p r n assms(4) id_block [OF assms(1,2), of "r - int k"] by (auto simp: block_of_def)
  show "0 \<le> r + (- 1) * int m" "r + (- 1) * int m < dc_size"
    using p r n assms(4) by simp_all
  show "dc_id S (r + (- 1) * int m) \<noteq> j"
    using id_block [OF assms(1,2), of "r - int m"] assms(4) r(1) by (auto simp: block_of_def)
  show "set (strides (- 1) r m) = {(j - 1) * dc_len S + 1..r}"
    using assms(4) r(1) by (auto simp: set_strides)
qed

text \<open>The cells between two positions of different blocks.\<close>

lemma between:
  assumes "dc_inv n S f" and "1 \<le> l" and "l \<le> r" and "r \<le> n" and "dc_id S l \<noteq> dc_id S r"
  shows "dc_id S l < dc_id S r" and "dc_id S l * dc_len S < n"
    and "1 \<le> i \<Longrightarrow> i \<le> n \<Longrightarrow> l \<le> i \<and> i \<le> r \<longleftrightarrow> i \<in> {l..dc_id S l * dc_len S} \<or> dc_id S i \<in> {dc_id S l + 1..dc_id S r - 1} \<or> i \<in> {(dc_id S r - 1) * dc_len S + 1..r}"
proof -
  let ?k = "dc_len S"
  have mono: "dc_id S i \<le> dc_id S j" if "1 \<le> i" "i \<le> j" "j \<le> n" for i j
    using dc_invD(4) [OF assms(1)] dc_invD(1) [OF assms(1)] that by (simp add: zdiv_mono1)
  show lt: "dc_id S l < dc_id S r"
    using mono [of l r] assms(2-5) by linarith
  have l: "(dc_id S l - 1) * ?k + 1 \<le> l" "l \<le> dc_id S l * ?k" and r: "(dc_id S r - 1) * ?k + 1 \<le> r" "r \<le> dc_id S r * ?k"
    using id_bounds(3) [OF assms(1), of l] id_bounds(3) [OF assms(1), of r] assms(2-4) by (auto simp: block_of_def)
  have "dc_id S l * ?k \<le> (dc_id S r - 1) * ?k"
    using lt dc_invD(1) [OF assms(1)] by (intro mult_right_mono) auto
  then show "dc_id S l * ?k < n"
    using r assms(4) by simp
  show "l \<le> i \<and> i \<le> r \<longleftrightarrow> i \<in> {l..dc_id S l * ?k} \<or> dc_id S i \<in> {dc_id S l + 1..dc_id S r - 1} \<or> i \<in> {(dc_id S r - 1) * ?k + 1..r}"
    if i: "1 \<le> i" "i \<le> n"
  proof
    have bi: "(dc_id S i - 1) * ?k + 1 \<le> i" "i \<le> dc_id S i * ?k"
      using id_bounds(3) [OF assms(1) i] by (auto simp: block_of_def)
    assume a: "l \<le> i \<and> i \<le> r"
    then have "dc_id S l \<le> dc_id S i" "dc_id S i \<le> dc_id S r"
      using mono [of l i] mono [of i r] assms(2,4) i by auto
    then consider "dc_id S i = dc_id S l" | "dc_id S i = dc_id S r" | "dc_id S i \<in> {dc_id S l + 1..dc_id S r - 1}"
      by force
    then show "i \<in> {l..dc_id S l * ?k} \<or> dc_id S i \<in> {dc_id S l + 1..dc_id S r - 1} \<or> i \<in> {(dc_id S r - 1) * ?k + 1..r}"
      by cases (use a bi in auto)
  next
    assume a: "i \<in> {l..dc_id S l * ?k} \<or> dc_id S i \<in> {dc_id S l + 1..dc_id S r - 1} \<or> i \<in> {(dc_id S r - 1) * ?k + 1..r}"
    have "l \<le> i" "i \<le> r" if "dc_id S i \<in> {dc_id S l + 1..dc_id S r - 1}"
      using mono [of i l] mono [of r i] that assms(2-4) i by (auto intro: ccontr)
    then show "l \<le> i \<and> i \<le> r"
      using a \<open>dc_id S l * ?k \<le> (dc_id S r - 1) * ?k\<close> l r by auto
  qed
qed

section \<open>Additions and queries\<close>

lemma bounded_put:
  assumes "dc_bounded n B S" and "\<bar>x\<bar> \<le> X" and "A1 \<inter> A2 = {}" and "j1 \<noteq> j2" and "j1 \<notin> J" and "j2 \<notin> J" and "int (card A1) \<le> n" and "int (card A2) \<le> n"
    and "0 \<le> dc_len S" and "dc_len S \<le> n"
  shows "dc_bounded n (B + X) (put_cells A2 j2 x (put_blocks J x (put_cells A1 j1 x S)))" (is "dc_bounded n _ ?S")
proof -
  have "0 \<le> n" "0 \<le> X" "0 \<le> B"
    using assms by (auto simp: dc_bounded_def)
  have b: "\<bar>dc_a S i\<bar> \<le> B" "\<bar>dc_b S i\<bar> \<le> B" "\<bar>dc_s S i\<bar> \<le> B * n" for i
    using assms(1) by (simp_all add: dc_bounded_def)
  have s: "\<bar>dc_s S i + x * k\<bar> \<le> (B + X) * n" if "0 \<le> k" "k \<le> n" for i k
  proof -
    have "\<bar>x * k\<bar> \<le> X * n"
      using assms(2) that by (simp add: abs_mult mult_mono)
    then show ?thesis
      using b(3) [of i] unfolding distrib_right by linarith
  qed
  have "\<bar>dc_s ?S i\<bar> \<le> (B + X) * n" for i
    using assms(4-10) s [of 0 i] s [of _ i] \<open>0 \<le> n\<close> by (auto simp: put_cells_def put_blocks_def mult.commute [of _ x])
  moreover have "\<bar>dc_a ?S i\<bar> \<le> B + X" "\<bar>dc_b ?S i\<bar> \<le> B + X" for i
    using b [of i] assms(2,3) \<open>0 \<le> X\<close> by (auto simp: put_cells_def put_blocks_def)
  ultimately show ?thesis
    using \<open>0 \<le> B\<close> \<open>0 \<le> X\<close> by (simp add: dc_bounded_def)
qed

lemma room:
  assumes "dc_bounded n B S" and "\<bar>x\<bar> \<le> X" and "1 \<le> n" and "(B + X) * n < 2 ^ 63"
  shows "\<bar>dc_a S i\<bar> + \<bar>x\<bar> < 2 ^ 63" "\<bar>dc_b S i\<bar> + \<bar>x\<bar> < 2 ^ 63" "0 \<le> k \<Longrightarrow> k \<le> n \<Longrightarrow> \<bar>dc_s S i\<bar> + \<bar>x\<bar> * k < 2 ^ 63"
proof -
  have b: "\<bar>dc_a S i\<bar> \<le> B" "\<bar>dc_b S i\<bar> \<le> B" "\<bar>dc_s S i\<bar> \<le> B * n" "0 \<le> B"
    using assms(1) by (simp_all add: dc_bounded_def)
  have "(B + X) * 1 \<le> (B + X) * n"
    using assms(2,3) b(4) by (intro mult_left_mono) auto
  then show "\<bar>dc_a S i\<bar> + \<bar>x\<bar> < 2 ^ 63" "\<bar>dc_b S i\<bar> + \<bar>x\<bar> < 2 ^ 63"
    using b(1,2) assms(2,4) by simp_all
  show "\<bar>dc_s S i\<bar> + \<bar>x\<bar> * k < 2 ^ 63" if "0 \<le> k" "k \<le> n"
  proof -
    have "\<bar>x\<bar> * k \<le> X * n"
      using assms(2) that by (simp add: mult_mono)
    then show ?thesis
      using b(3) assms(4) unfolding distrib_right by linarith
  qed
qed

lemma once:
  fixes y x :: int
  assumes "c \<Longrightarrow> \<not> a" and "c \<Longrightarrow> \<not> b" and "b \<Longrightarrow> \<not> a"
  shows "(if b then (if c then (if a then y + x else y) + x else (if a then y + x else y)) + x
    else (if c then (if a then y + x else y) + x else (if a then y + x else y))) = (if a \<or> c \<or> b then y + x else y)"
  using assms by auto

lemma dc_add_ok:
  assumes "dc_inv n S f" and "dc_bounded n B S" and "1 \<le> l" and "l \<le> r" and "r \<le> n" and "\<bar>x\<bar> \<le> X" and "(B + X) * n < 2 ^ 63"
  shows "\<exists>S'. dc_add l r x S = Some S' \<and> dc_inv n S' (\<lambda>i. if l \<le> i \<and> i \<le> r then f i + x else f i) \<and> dc_bounded n (B + X) S'"
proof -
  let ?j = "dc_id S l" and ?j' = "dc_id S r" and ?k = "dc_len S"
  have n: "1 \<le> n" "n < dc_size" "1 \<le> ?k" "?k \<le> n"
    using assms(3-5) dc_invD(1-3) [OF assms(1)] by auto
  note room = room [OF assms(2,6) n(1) assms(7)]
  have get: "arr_get dc_size (dc_id S) l = Some ?j" "arr_get dc_size (dc_id S) r = Some ?j'"
    using assms(3-5) n by simp_all
  have j: "1 \<le> ?j" "?j < dc_size" "l \<in> block_of n ?k ?j" "1 \<le> ?j'" "?j' < dc_size" "r \<in> block_of n ?k ?j'"
    using id_bounds [OF assms(1), of l] id_bounds [OF assms(1), of r] assms(3-5) n by auto
  show ?thesis
  proof (cases "?j = ?j'")
    case True
    have "for_each (dc_bump x ?j) [l..r] S = Some (put_cells (set [l..r]) ?j x S)"
      using room assms(3-5) n j by (intro bump_list) auto
    moreover have "{l..r} \<subseteq> block_of n ?k ?j"
      using j(3,6) True by (auto simp: block_of_def)
    moreover have "dc_bounded n (B + X) (put_cells {l..r} ?j x S)"
      using bounded_put [OF assms(2,6), of "{}" "{l..r}" "?j + 1" ?j "{}"] n assms(3-5) by (simp add: put_cells_def)
    ultimately show ?thesis
      using dc_inv_cells [OF assms(1) _ j(1), of "{l..r}" x] get True by (auto simp: dc_add_def)
  next
    case False
    note between = between [OF assms(1,3-5) False]
    define m where "m = nat (?j * ?k + 1 - l)"
    define m' where "m' = nat (r - (?j' - 1) * ?k)"
    let ?A = "{l..?j * ?k}" and ?J = "{?j + 1..?j' - 1}" and ?A' = "{(?j' - 1) * ?k + 1..r}"
    let ?S1 = "put_cells ?A ?j x S"
    let ?S2 = "put_blocks ?J x ?S1"
    let ?S3 = "put_cells ?A' ?j' x ?S2"
    note up = part_up [OF assms(1) j(1,3) between(2) m_def] and down = part_down [OF assms(1) j(4,6) m'_def]
    have order: "?j * ?k \<le> (?j' - 1) * ?k"
      using between(1) n(3) by (intro mult_right_mono) auto
    have "0 \<le> (?j' - 1) * ?k"
      using j(4) n(3) by simp
    then have p: "int m' \<le> n" "\<And>i. i \<in> ?A' \<Longrightarrow> 0 \<le> i \<and> i < dc_size" "int (card ?A') \<le> n"
      unfolding m'_def atLeastAtMost_iff using assms(5) n(1,2) by force+
    have "for_each (dc_bump x ?j) (strides 1 l m) S = Some ?S1"
      unfolding up(5) [symmetric] using room up n j assms(3) between(2) by (intro bump_list) (auto simp: distinct_strides up(5) m_def)
    then have 1: "dc_add_part 1 x ?j l S = Some ?S1"
      using dc_add_part_list [OF up(1-4)] by simp
    have "\<bar>dc_s S i\<bar> + \<bar>?k * x\<bar> < 2 ^ 63" for i
      using room(3) [of ?k i] n(3,4) by (simp add: abs_mult mult.commute)
    then have 2: "for_each (dc_add_block x) [?j + 1..?j' - 1] ?S1 = Some ?S2"
      using room j block_list [of "[?j + 1..?j' - 1]" ?S1 x] by (auto simp: put_cells_def)
    have disj: "?A \<inter> ?A' = {}"
      using order by auto
    then have same: "dc_a ?S2 i = dc_a S i" if "i \<in> ?A'" for i
      using that by (auto simp: put_cells_def)
    have "dc_s ?S2 ?j' = dc_s S ?j'"
      using False by (simp add: put_cells_def put_blocks_def)
    then have "for_each (dc_bump x ?j') (strides (- 1) r m') ?S2 = Some ?S3"
      unfolding down(5) [symmetric] using room(1) room(3) [of "int m'" ?j'] same p j(4,5) by (intro bump_list) (auto simp: distinct_strides down(5) simp del: put_fields)
    then have 3: "dc_add_part (- 1) x ?j' r ?S2 = Some ?S3"
      using dc_add_part_list [of m' r "- 1" ?S2 ?j' x] down(1-4) by simp
    have "dc_add l r x S = Some ?S3"
      using get False 1 2 3 by (simp add: dc_add_def)
    moreover have "dc_bounded n (B + X) ?S3"
      using disj False n assms(3,5) between(2) p by (intro bounded_put [OF assms(2,6)]) auto
    moreover have "dc_inv n ?S3 (\<lambda>i. if l \<le> i \<and> i \<le> r then f i + x else f i)"
    proof -
      have sub: "?A \<subseteq> block_of n ?k ?j" "?A' \<subseteq> block_of n ?k ?j'"
        using j(3,6) between(2) by (auto simp: block_of_def)
      have "1 \<le> i \<and> i * ?k \<le> n" if "i \<in> ?J" for i
      proof -
        have "i * ?k \<le> (?j' - 1) * ?k"
          using that n(3) by (intro mult_right_mono) auto
        then show ?thesis
          using that j(1,6) by (auto simp: block_of_def)
      qed
      then have "dc_inv n ?S2 (\<lambda>i. if dc_id ?S1 i \<in> ?J then (if i \<in> ?A then f i + x else f i) + x else (if i \<in> ?A then f i + x else f i))"
        by (intro dc_inv_blocks [OF dc_inv_cells [OF assms(1) sub(1) j(1)]]) (simp only: put_fields)
      from dc_inv_cells [OF this _ j(4), of ?A' x, unfolded put_fields, OF sub(2)] have inv: "dc_inv n ?S3 (\<lambda>i. if i \<in> ?A' then
          (if dc_id S i \<in> ?J then (if i \<in> ?A then f i + x else f i) + x else (if i \<in> ?A then f i + x else f i)) + x
          else (if dc_id S i \<in> ?J then (if i \<in> ?A then f i + x else f i) + x else (if i \<in> ?A then f i + x else f i)))" .
      have A: "dc_id S i = ?j" if "i \<in> ?A" for i
        using id_block [OF assms(1) j(1)] sub(1) that by blast
      have A': "dc_id S i = ?j'" if "i \<in> ?A'" for i
        using id_block [OF assms(1) j(4)] sub(2) that by blast
      have "i \<notin> ?A" "i \<notin> ?A'" if "dc_id S i \<in> ?J" for i
        using A [of i] A' [of i] that by (metis atLeastAtMost_iff zle_diff1_eq add1_zle_eq less_irrefl)+
      moreover have "i \<notin> ?A" if "i \<in> ?A'" for i
        using that disj by blast
      ultimately have "(if i \<in> ?A' then
          (if dc_id S i \<in> ?J then (if i \<in> ?A then f i + x else f i) + x else (if i \<in> ?A then f i + x else f i)) + x
          else (if dc_id S i \<in> ?J then (if i \<in> ?A then f i + x else f i) + x else (if i \<in> ?A then f i + x else f i))) =
          (if l \<le> i \<and> i \<le> r then f i + x else f i)" if "1 \<le> i" "i \<le> n" for i
        unfolding between(3) [OF that] by (intro once) blast+
      then show ?thesis
        by (intro dc_inv_cong [OF inv])
    qed
    ultimately show ?thesis
      by blast
  qed
qed

lemma smod_nonneg: "0 \<le> v \<Longrightarrow> 0 < p \<Longrightarrow> v smod p = v mod (p::int)"
  by (simp add: signed_modulo_int_def signed_divide_int_def sgn_if minus_div_mult_eq_mod)

lemma plus_mod_in: "0 \<le> x + y \<Longrightarrow> x + y < 2 ^ 63 \<Longrightarrow> 0 < p \<Longrightarrow> plus_mod p x y = Some ((x + y) mod p)"
  by (simp add: plus_mod_def smod_nonneg)

lemma cell_list:
  assumes "\<And>i. i \<in> set is \<Longrightarrow> 0 \<le> i \<and> i < dc_size \<and> f i = dc_a S i + dc_b S j \<and> 0 \<le> f i" and "0 \<le> j" and "j < dc_size"
    and "\<And>i. \<bar>dc_a S i\<bar> \<le> 2 ^ 60" and "\<And>i. \<bar>dc_b S i\<bar> \<le> 2 ^ 60" and "0 < p" and "p \<le> 2 ^ 31" and "0 \<le> ans" and "ans < p"
  shows "for_each (dc_cell S p j) is ans = Some ((ans + sum_list (map f is)) mod p)"
  using assms(1,8,9)
proof (induction "is" arbitrary: ans)
  case (Cons i "is")
  have "\<bar>dc_a S i\<bar> \<le> 2 ^ 60" "\<bar>dc_b S j\<bar> \<le> 2 ^ 60" "0 \<le> f i" "f i = dc_a S i + dc_b S j"
    using Cons.prems(1) [of i] assms(4,5) by auto
  then have "dc_cell S p j i ans = Some ((ans + f i) mod p)"
    using Cons.prems assms(2,3,6,7) by (simp add: dc_cell_def plus_mod_in add.assoc)
  moreover have "for_each (dc_cell S p j) is ((ans + f i) mod p) = Some (((ans + f i) mod p + sum_list (map f is)) mod p)"
    using assms(6) by (intro Cons.IH) (rule Cons.prems(1) [OF list.set_intros(2)], assumption, simp_all)
  ultimately show ?case
    by (simp add: mod_add_left_eq add.assoc)
qed simp

lemma block_sums:
  assumes "\<And>j. j \<in> set js \<Longrightarrow> 0 \<le> j \<and> j < dc_size \<and> 0 \<le> dc_s S j" and "\<And>j. \<bar>dc_s S j\<bar> < 2 ^ 63 - 2 ^ 31"
    and "0 < p" and "p \<le> 2 ^ 31" and "0 \<le> ans" and "ans < p"
  shows "for_each (dc_sum_block S p) js ans = Some ((ans + sum_list (map (dc_s S) js)) mod p)"
  using assms(1,5,6)
proof (induction js arbitrary: ans)
  case (Cons j js)
  have "\<bar>dc_s S j\<bar> < 2 ^ 63 - 2 ^ 31" "0 \<le> dc_s S j"
    using Cons.prems(1) [of j] assms(2) [of j] by simp_all
  then have "dc_sum_block S p j ans = Some ((ans + dc_s S j) mod p)"
    using Cons.prems assms(3,4) by (simp add: dc_sum_block_def plus_mod_in)
  then show ?case
    using Cons.IH [of "(ans + dc_s S j) mod p"] Cons.prems assms(3) by (simp add: mod_add_left_eq add.assoc)
qed simp

lemma sum_list_distinct: "distinct is \<Longrightarrow> sum_list (map f is) = sum f (set is)" for f :: "int \<Rightarrow> int"
  by (simp add: sum_list_distinct_conv_sum_set)

lemma dc_query_ok:
  assumes "dc_inv n S f" and "dc_bounded n B S" and "1 \<le> l" and "l \<le> r" and "r \<le> n" and "\<And>i. 1 \<le> i \<Longrightarrow> i \<le> n \<Longrightarrow> 0 \<le> f i"
    and "0 < p" and "p \<le> 2 ^ 31" and "B \<le> 2 ^ 60" and "B * n < 2 ^ 63 - 2 ^ 31"
  shows "dc_query l r p S = Some (sum f {l..r} mod p)"
proof -
  let ?j = "dc_id S l" and ?j' = "dc_id S r" and ?k = "dc_len S"
  have n: "1 \<le> n" "n < dc_size" "1 \<le> ?k" "?k \<le> n"
    using assms(3-5) dc_invD(1-3) [OF assms(1)] by auto
  have b: "\<bar>dc_a S i\<bar> \<le> 2 ^ 60" "\<bar>dc_b S i\<bar> \<le> 2 ^ 60" "\<bar>dc_s S i\<bar> < 2 ^ 63 - 2 ^ 31" for i
    using assms(2,9,10) unfolding dc_bounded_def by (meson order_trans order_le_less_trans)+
  have get: "arr_get dc_size (dc_id S) l = Some ?j" "arr_get dc_size (dc_id S) r = Some ?j'"
    using assms(3-5) n by simp_all
  have j: "1 \<le> ?j" "?j < dc_size" "l \<in> block_of n ?k ?j" "1 \<le> ?j'" "?j' < dc_size" "r \<in> block_of n ?k ?j'"
    using id_bounds [OF assms(1), of l] id_bounds [OF assms(1), of r] assms(3-5) n by auto
  have cell: "0 \<le> i \<and> i < dc_size \<and> f i = dc_a S i + dc_b S j \<and> 0 \<le> f i" if "i \<in> block_of n ?k j" "1 \<le> j" for i j
  proof -
    have "1 \<le> i" "i \<le> n" "dc_id S i = j"
      using that block_subset [OF n(3) that(2), of n] id_block [OF assms(1) that(2), of i] by auto
    then show ?thesis
      using dc_invD(6) [OF assms(1), of i] assms(6) [of i] n(2) by auto
  qed
  have cells: "for_each (dc_cell S p j) is (u mod p) = Some ((u mod p + sum f (set is)) mod p)"
    if "distinct is" "set is \<subseteq> block_of n ?k j" "1 \<le> j" "j < dc_size" for "is" j u
    unfolding sum_list_distinct [OF that(1), symmetric]
    using that(2-4) b assms(7,8) by (intro cell_list) (rule cell [OF _ that(3)], auto)
  show ?thesis
  proof (cases "?j = ?j'")
    case True
    then have "set [l..r] \<subseteq> block_of n ?k ?j"
      using j(3,6) by (auto simp: block_of_def)
    then show ?thesis
      using get True cells [of "[l..r]" ?j 0] j(1,2) by (simp add: dc_query_def)
  next
    case False
    note between = between [OF assms(1,3-5) False]
    define m where "m = nat (?j * ?k + 1 - l)"
    define m' where "m' = nat (r - (?j' - 1) * ?k)"
    let ?A = "{l..?j * ?k}" and ?J = "{?j + 1..?j' - 1}" and ?A' = "{(?j' - 1) * ?k + 1..r}"
    note up = part_up [OF assms(1) j(1,3) between(2) m_def] and down = part_down [OF assms(1) j(4,6) m'_def]
    have sub: "?A \<subseteq> block_of n ?k ?j" "?A' \<subseteq> block_of n ?k ?j'"
      using j(3,6) between(2) by (auto simp: block_of_def)
    let ?M = "\<Union>j \<in> ?J. block_of n ?k j"
    have "0 \<le> sum f (block_of n ?k j)" if "1 \<le> j" for j
      using cell [OF _ that] by (intro sum_nonneg) blast
    then have "0 \<le> dc_s S j \<and> j < dc_size" if "j \<in> ?J" for j
      using dc_invD(7) [OF assms(1), of j] that j(1,5) by auto
    then have 2: "for_each (dc_sum_block S p) [?j + 1..?j' - 1] (u mod p) = Some ((u mod p + sum_list (map (dc_s S) [?j + 1..?j' - 1])) mod p)" for u
      using b(3) j(1) assms(7,8) by (intro block_sums) auto
    have "sum_list (map (dc_s S) [?j + 1..?j' - 1]) = (\<Sum>j\<in>?J. sum f (block_of n ?k j))"
      using dc_invD(7) [OF assms(1)] j(1) by (auto simp: sum_list_distinct intro: sum.cong)
    also have "\<dots> = sum f ?M"
      using block_disjoint [OF assms(1)] j(1) by (intro sum.UNION_disjoint [symmetric]) auto
    finally have M: "sum_list (map (dc_s S) [?j + 1..?j' - 1]) = sum f ?M" .
    have 1: "dc_sum_part S 1 p ?j l 0 = Some (sum f ?A mod p)"
      using dc_sum_part_list [OF up(1-4), of p 0] cells [OF distinct_strides, of 1 l m ?j 0] sub(1) j(1,2) by (simp add: up(5))
    have 3: "dc_sum_part S (- 1) p ?j' r (u mod p) = Some ((u mod p + sum f ?A') mod p)" for u
      using dc_sum_part_list [OF down(1-4), of p "u mod p"] cells [OF distinct_strides, of "- 1" r m' ?j' u] sub(2) j(4,5) by (simp add: down(5))
    have "i \<in> ?A \<union> (?M \<union> ?A') \<longleftrightarrow> i \<in> {l..r}" for i
    proof (cases "1 \<le> i \<and> i \<le> n")
      case True
      have "i \<in> block_of n ?k x \<longleftrightarrow> dc_id S i = x" if "x \<in> ?J" for x
        using id_block [OF assms(1), of x i] j(1) that by simp
      then have "i \<in> ?M \<longleftrightarrow> dc_id S i \<in> ?J"
        by blast
      then show ?thesis
        using between(3) [of i] True by auto
    next
      case False
      then have "i \<notin> block_of n ?k j" if "1 \<le> j" for j
        using block_subset [OF n(3) that, of n] by auto
      then show ?thesis
        using sub False j(1,4) assms(3,5) by auto
    qed
    then have all: "?A \<union> (?M \<union> ?A') = {l..r}"
      by blast
    have "block_of n ?k x \<inter> block_of n ?k ?j = {}" "block_of n ?k x \<inter> block_of n ?k ?j' = {}" if "x \<in> ?J" for x
      using block_disjoint [OF assms(1), of x] that j(1,4) by auto
    then have "?M \<inter> ?A = {}" "?M \<inter> ?A' = {}"
      using sub by blast+
    moreover have "?A \<inter> ?A' = {}"
      using block_disjoint [OF assms(1) j(1,4) False] sub by blast
    ultimately have "?A \<inter> (?M \<union> ?A') = {}" "?M \<inter> ?A' = {}" "finite ?M"
      by (blast, blast, simp)
    then have "sum f {l..r} = sum f ?A + (sum f ?M + sum f ?A')"
      unfolding all [symmetric] by (simp add: sum.union_disjoint)
    then show ?thesis
      using get False 1 2 3 M by (simp add: dc_query_def mod_add_left_eq add.assoc)
  qed
qed

section \<open>The whole program\<close>

lemma isqrt_spec:
  assumes "1 \<le> n"
  shows "isqrt n * isqrt n \<le> n" "n < (isqrt n + 1) * (isqrt n + 1)" "1 \<le> isqrt n" "isqrt n \<le> n"
proof -
  let ?P = "\<lambda>k::int. k * k \<le> n" and ?m = "length (takeWhile (\<lambda>k. k * k \<le> n) [1..n])"
  have m: "isqrt n = int ?m"
    by (simp add: isqrt_def)
  have "(n + 1) * 1 \<le> (n + 1) * (n + 1)"
    using assms by (intro mult_left_mono) auto
  then have square: "n < (n + 1) * (n + 1)"
    by (rule order_less_le_trans [rotated]) simp
  have le: "?m \<le> length [1..n]"
    by (rule length_takeWhile_le)
  then show "isqrt n \<le> n"
    using assms by (simp add: m)
  have "takeWhile ?P [1..n] = 1 # takeWhile ?P [2..n]"
    using assms by (simp add: upto_rec1)
  then have pos: "1 \<le> ?m"
    by simp
  then show "1 \<le> isqrt n"
    by (simp add: m)
  have "takeWhile ?P [1..n] ! (?m - 1) \<in> set (takeWhile ?P [1..n])"
    using pos by (intro nth_mem) simp
  moreover have "takeWhile ?P [1..n] ! (?m - 1) = int ?m"
    using pos le by (subst takeWhile_nth) auto
  ultimately have "int ?m \<in> set (takeWhile ?P [1..n])"
    by (simp only:)
  then show "isqrt n * isqrt n \<le> n"
    unfolding m by (rule set_takeWhileD [THEN conjunct2])
  show "n < (isqrt n + 1) * (isqrt n + 1)"
  proof (cases "?m < length [1..n]")
    case True
    then have "\<not> ?P ([1..n] ! ?m)" "[1..n] ! ?m = int ?m + 1"
      using nth_length_takeWhile [of ?P "[1..n]"] by auto
    then show ?thesis
      by (simp add: m)
  next
    case False
    then have "isqrt n = n"
      using le assms by (simp add: m)
    then show ?thesis
      using square by simp
  qed
qed

text \<open>The reference: a plain list; positions are counted from 1.\<close>

fun dc_ref :: "int list \<Rightarrow> dc_op \<Rightarrow> int list \<times> int list" where
  "dc_ref vs (DAdd l r c) = (map (\<lambda>i. if l \<le> i \<and> i \<le> r then vs ! nat (i - 1) + c else vs ! nat (i - 1)) [1..int (length vs)], [])"
| "dc_ref vs (DSum l r c) = (vs, [sum_list (map (\<lambda>i. vs ! nat (i - 1)) [l..r]) mod (c + 1)])"

fun dc_ok :: "int list \<Rightarrow> dc_op \<Rightarrow> bool" where
  "dc_ok vs (DAdd l r c) = (1 \<le> l \<and> l \<le> r \<and> r \<le> int (length vs) \<and> \<bar>c\<bar> \<le> 2 ^ 31 \<and> list_all (\<lambda>i. 0 \<le> vs ! nat (i - 1) + c) [l..r])"
| "dc_ok vs (DSum l r c) = (1 \<le> l \<and> l \<le> r \<and> r \<le> int (length vs) \<and> 0 \<le> c \<and> c < 2 ^ 31 - 1)"

definition dc_stands :: "nat \<Rightarrow> blocks \<Rightarrow> int list \<Rightarrow> bool" where
  "dc_stands k S vs = (dc_inv (int (length vs)) S (\<lambda>i. vs ! nat (i - 1)) \<and> dc_bounded (int (length vs)) ((int k + 1) * 2 ^ 31) S \<and>
     list_all (\<lambda>v. 0 \<le> v) vs)"

lemma dc_step_ok:
  assumes "dc_stands k S vs" and "dc_ok vs op" and "k < 50004"
  shows "\<exists>S'. dc_step S op = Some (S', snd (dc_ref vs op)) \<and> dc_stands (Suc k) S' (fst (dc_ref vs op))"
proof -
  let ?n = "int (length vs)" and ?f = "\<lambda>i. vs ! nat (i - 1)" and ?B = "(int k + 1) * 2 ^ 31"
  have d: "dc_inv ?n S ?f" "dc_bounded ?n ?B S" "list_all (\<lambda>v. 0 \<le> v) vs"
    using assms(1) by (simp_all add: dc_stands_def)
  have n: "?n \<le> 50004" "0 \<le> ?n"
    using dc_invD(3) [OF d(1)] by (simp_all add: dc_size_def)
  have B: "?B \<le> 50004 * 2 ^ 31" "0 \<le> ?B"
    using assms(3) by simp_all
  have room: "(?B + 2 ^ 31) * ?n < 2 ^ 63"
  proof -
    have "(?B + 2 ^ 31) * ?n \<le> (50004 * 2 ^ 31 + 2 ^ 31) * 50004"
      using n B by (intro mult_mono) auto
    then show ?thesis
      by simp
  qed
  have nonneg: "0 \<le> ?f i" if "1 \<le> i" "i \<le> ?n" for i
    using d(3) that by (auto simp: list_all_length)
  show ?thesis
  proof (cases op)
    case (DAdd l r c)
    have ok: "1 \<le> l" "l \<le> r" "r \<le> ?n" "\<bar>c\<bar> \<le> 2 ^ 31" "\<And>i. l \<le> i \<Longrightarrow> i \<le> r \<Longrightarrow> 0 \<le> ?f i + c"
      using assms(2) DAdd by (auto simp: list_all_iff)
    let ?g = "\<lambda>i. if l \<le> i \<and> i \<le> r then ?f i + c else ?f i"
    let ?vs = "map ?g [1..?n]"
    obtain S' where S': "dc_add l r c S = Some S'" "dc_inv ?n S' ?g" "dc_bounded ?n (?B + 2 ^ 31) S'"
      using dc_add_ok [OF d(1,2) ok(1-4) room] by blast
    have "dc_inv ?n S' (\<lambda>i. ?vs ! nat (i - 1))"
      using S'(2) by (rule dc_inv_cong) auto
    moreover have "list_all (\<lambda>v. 0 \<le> v) ?vs"
      using ok(5) nonneg by (auto simp: list_all_iff)
    moreover have "?B + 2 ^ 31 = (int (Suc k) + 1) * 2 ^ 31"
      by simp
    ultimately show ?thesis
      using S'(1,3) DAdd by (simp add: dc_stands_def)
  next
    case (DSum l r c)
    have ok: "1 \<le> l" "l \<le> r" "r \<le> ?n" "0 < c + 1" "c + 1 \<le> 2 ^ 31" "c < 2 ^ 31 - 1"
      using assms(2) DSum by auto
    have "?B * ?n < 2 ^ 63 - 2 ^ 31"
    proof -
      have "?B * ?n \<le> (50004 * 2 ^ 31) * 50004"
        using n B by (intro mult_mono) auto
      then show ?thesis
        by simp
    qed
    moreover have "?B \<le> 2 ^ 60"
      using B by simp
    ultimately have "dc_query l r (c + 1) S = Some (sum ?f {l..r} mod (c + 1))"
      using dc_query_ok [OF d(1,2) ok(1-3) nonneg ok(4,5)] by blast
    moreover have "dc_bounded ?n ((int (Suc k) + 1) * 2 ^ 31) S"
    proof -
      have "?B * ?n \<le> (int (Suc k) + 1) * 2 ^ 31 * ?n"
        by (intro mult_right_mono) auto
      then show ?thesis
        using d(2) unfolding dc_bounded_def by (auto intro: order_trans)
    qed
    ultimately show ?thesis
      using DSum ok(6) d(1,3) by (simp add: dc_stands_def sum_list_distinct)
  qed
qed

interpretation dcp: counted_program dc_step dc_ref dc_ok dc_stands 50004
  by unfold_locales (rule dc_step_ok)

text \<open>Reading the numbers.\<close>

definition read_cells :: "int \<Rightarrow> nat \<Rightarrow> int \<Rightarrow> int set" where
  "read_cells k i j = {m \<in> {1..int i}. (m - 1) div k + 1 = j}"

lemma read_cells_facts:
  "finite (read_cells k i j)" "int i + 1 \<notin> read_cells k i j" "read_cells k 0 j = {}"
  "read_cells k (Suc i) j = (if j = int i div k + 1 then insert (int i + 1) (read_cells k i j) else read_cells k i j)"
proof -
  show "finite (read_cells k i j)"
    unfolding read_cells_def by (rule finite_subset [of _ "{1..int i}"]) auto
qed (auto simp: read_cells_def order_le_less)

definition read_so_far :: "int list \<Rightarrow> int \<Rightarrow> nat \<Rightarrow> blocks \<Rightarrow> bool" where
  "read_so_far vs k i S = (dc_len S = k \<and> dc_b S = (\<lambda>_. 0) \<and>
     dc_id S = (\<lambda>m. if 1 \<le> m \<and> m \<le> int i then (m - 1) div k + 1 else 0) \<and>
     dc_a S = (\<lambda>m. if 1 \<le> m \<and> m \<le> int i then vs ! nat (m - 1) else 0) \<and>
     (\<forall>j. dc_s S j = (\<Sum>m \<in> read_cells k i j. vs ! nat (m - 1))) \<and> (\<forall>j. \<bar>dc_s S j\<bar> \<le> 2 ^ 31 * int i))"

lemma dc_read_ok:
  assumes "read_so_far vs k i S" and "i < length vs" and "int (length vs) < dc_size" and "1 \<le> k" and "\<And>v. v \<in> set vs \<Longrightarrow> 0 \<le> v \<and> v \<le> 2 ^ 31"
  shows "\<exists>S'. dc_read vs (int i + 1) S = Some S' \<and> read_so_far vs k (Suc i) S'"
proof -
  let ?v = "vs ! i" and ?j = "int i div k + 1"
  note d = assms(1) [unfolded read_so_far_def]
  have len: "dc_len S = k"
    using d by blast
  have v: "0 \<le> ?v" "?v \<le> 2 ^ 31"
    using assms(5) [of ?v] assms(2) by auto
  have "int i div k \<le> int i" "0 \<le> int i div k"
    using assms(4) zdiv_mono2 [of "int i" 1 k] by (simp_all add: pos_imp_zdiv_nonneg_iff)
  then have j: "0 \<le> ?j" "?j < dc_size"
    using assms(2,3) by auto
  have s: "\<bar>dc_s S j\<bar> \<le> 2 ^ 31 * int i" for j
    using d by blast
  have "2 ^ 31 * int i \<le> 2 ^ 31 * 50005"
    using assms(2,3) by (simp add: dc_size_def)
  then have "plus_at ?j ?v (dc_s S) = Some ((dc_s S)(?j := dc_s S ?j + ?v))"
    using j v s [of ?j] by (intro plus_at_in) auto
  moreover have "(int i + 1 - 1) sdiv k = int i div k"
    using assms(4) by (simp add: signed_divide_int_def sgn_if)
  ultimately have read: "dc_read vs (int i + 1) S = Some (S\<lparr>dc_a := (dc_a S)(int i + 1 := ?v), dc_id := (dc_id S)(int i + 1 := ?j), dc_s := (dc_s S)(?j := dc_s S ?j + ?v)\<rparr>)"
    using assms(2-4) len by (simp add: dc_read_def Let_def)
  have "((dc_s S)(?j := dc_s S ?j + ?v)) j = (\<Sum>m \<in> read_cells k (Suc i) j. vs ! nat (m - 1))" for j
    using d by (simp add: read_cells_facts)
  moreover have "\<bar>((dc_s S)(?j := dc_s S ?j + ?v)) j\<bar> \<le> 2 ^ 31 * int (Suc i)" for j
    using s [of j] v by (auto simp: algebra_simps)
  moreover have "(dc_id S)(int i + 1 := ?j) = (\<lambda>m. if 1 \<le> m \<and> m \<le> int (Suc i) then (m - 1) div k + 1 else 0)"
    "(dc_a S)(int i + 1 := ?v) = (\<lambda>m. if 1 \<le> m \<and> m \<le> int (Suc i) then vs ! nat (m - 1) else 0)"
    using d by (auto simp: fun_eq_iff)
  ultimately show ?thesis
    using read d by (simp add: read_so_far_def)
qed

lemma read_inv:
  assumes "read_so_far vs k (length vs) S" and "1 \<le> k" and "k \<le> int (length vs)" and "int (length vs) < dc_size" and "\<And>v. v \<in> set vs \<Longrightarrow> 0 \<le> v \<and> v \<le> 2 ^ 31"
  shows "dc_stands 0 S vs"
proof -
  note d = assms(1) [unfolded read_so_far_def]
  have "read_cells k (length vs) j = block_of (int (length vs)) k j" if "1 \<le> j" for j
  proof -
    define q where "q = (j - 1) * k"
    have "0 \<le> q"
      using assms(2) that by (simp add: q_def)
    have eq: "(m - 1) div k + 1 = j \<longleftrightarrow> q + 1 \<le> m \<and> m \<le> j * k" for m
      unfolding q_def using assms(2) by (intro block_number) simp
    show ?thesis
      unfolding block_of_def read_cells_def q_def [symmetric] eq using \<open>0 \<le> q\<close> by auto
  qed
  then have "dc_inv (int (length vs)) S (\<lambda>i. vs ! nat (i - 1))"
    using d assms(2-4) by (auto simp: dc_inv_def)
  moreover have "\<bar>vs ! nat (m - 1)\<bar> \<le> 2 ^ 31" if "1 \<le> m" "m \<le> int (length vs)" for m
    using assms(5) [of "vs ! nat (m - 1)"] that by auto
  ultimately show ?thesis
    using d assms(5) by (auto simp: dc_stands_def dc_bounded_def list_all_iff)
qed

text \<open>
  C35. For at most 50004 numbers between 0 and \<open>2 ^ 31\<close>, and as many operations that keep every cell from falling below 0, the program \<^verbatim>\<open>decompose_1.cpp\<close> ends,
  stays inside its arrays, has no sum that leaves 64 bits, and prints the sums of the ranges asked for, modulo \<open>c + 1\<close>.
\<close>

theorem block_decomposition_correct:
  assumes "vs \<noteq> []" and "length vs \<le> 50004" and "list_all (\<lambda>v. 0 \<le> v \<and> v \<le> 2 ^ 31) vs" and "length ops = length vs" and "all_ok dc_ok dc_ref vs ops"
  shows "dc_main vs ops = Some (ref_loop dc_ref vs ops)"
proof -
  let ?n = "int (length vs)" and ?S = "\<lparr>dc_id = (\<lambda>_. 0), dc_len = isqrt (int (length vs)), dc_a = (\<lambda>_. 0), dc_b = (\<lambda>_. 0), dc_s = (\<lambda>_. 0)\<rparr>"
  have n: "1 \<le> ?n" "?n < dc_size"
    using assms(1,2) by (auto simp: dc_size_def Suc_le_eq)
  note k = isqrt_spec(3,4) [OF n(1)]
  have vs: "\<And>v. v \<in> set vs \<Longrightarrow> 0 \<le> v \<and> v \<le> 2 ^ 31"
    using assms(3) by (simp add: list_all_iff)
  have "read_so_far vs (isqrt ?n) 0 ?S"
    by (auto simp: read_so_far_def fun_eq_iff read_cells_facts)
  then obtain S where S: "for_each (dc_read vs) [1..?n] ?S = Some S" "read_so_far vs (isqrt ?n) (length vs) S"
    using for_each_upto [of "read_so_far vs (isqrt ?n)" ?S "length vs" "dc_read vs"] dc_read_ok [OF _ _ n(2) k(1) vs] by blast
  have "dc_stands 0 S vs"
    using read_inv [OF S(2) k n(2) vs] .
  then obtain S' where "query_loop dc_step S ops = Some (S', ref_loop dc_ref vs ops)"
    using dcp.loop_counted [OF _ assms(5), of 0 S] assms(2,4) by auto
  then show ?thesis
    using S(1) by (simp add: dc_main_def Let_def)
qed

theorem block_decomposition_correct_witness:
  "dc_main [1, 5, 3, 7, 2] [DSum 1 5 99, DAdd 2 5 4, DSum 1 5 99, DSum 4 4 9, DSum 2 3 6] = Some [18, 34, 1, 2]"
  using block_decomposition_correct [of "[1, 5, 3, 7, 2]" "[DSum 1 5 99, DAdd 2 5 4, DSum 1 5 99, DSum 4 4 9, DSum 2 3 6]"]
  by (simp add: upto_rec1)

end
