(* ===== verification/BlockList.thy ===== *)
theory BlockList
  imports QueryLoop
begin

text \<open>
  The program \<^verbatim>\<open>block-list/block-list_1.cpp\<close>: a text in a linked list of blocks, with insertion of a character and access by position.
  The nodes are on an explicit heap, address 0 is \<open>NULL\<close>. Shown: the program prints the characters of the plain
  text, and no block ever grows past its array.
\<close>

section \<open>The program\<close>

definition sqn :: int where
  "sqn = 1000"

record blnode =
  bn_nxt :: nat
  bn_size :: int
  bn_d :: "int \<Rightarrow> char"

type_synonym bheap = "nat \<Rightarrow> blnode"

record blist =
  bl_heap :: bheap
  bl_fresh :: nat
  bl_head :: nat
  bl_llen :: int

text \<open>\<open>*p\<close>; the null pointer has no node.\<close>

definition bl_get :: "nat \<Rightarrow> bheap \<Rightarrow> blnode option" where
  "bl_get p h = (if p = 0 then None else Some (h p))"

definition bl_put :: "nat \<Rightarrow> (blnode \<Rightarrow> blnode) \<Rightarrow> blist \<Rightarrow> blist option" where
  "bl_put p g S = (if p = 0 then None else Some (S\<lparr>bl_heap := (bl_heap S)(p := g (bl_heap S p))\<rparr>))"

text \<open>\<open>new node\<close>: the characters of a fresh block are whatever its memory contains, \<open>junk\<close>.\<close>

definition bl_new :: "(int \<Rightarrow> char) \<Rightarrow> blist \<Rightarrow> nat \<times> blist" where
  "bl_new junk S = (bl_fresh S,
     S\<lparr>bl_heap := (bl_heap S)(bl_fresh S := \<lparr>bn_nxt = 0, bn_size = 0, bn_d = junk\<rparr>), bl_fresh := bl_fresh S + 1\<rparr>)"

text \<open>\<open>d\<close> has \<open>(sqn << 1) + 5\<close> characters.\<close>

definition bl_read :: "nat \<Rightarrow> int \<Rightarrow> blist \<Rightarrow> char option" where
  "bl_read p i S = do { n \<leftarrow> bl_get p (bl_heap S); arr_get (2 * sqn + 5) (bn_d n) i }"

definition bl_write :: "nat \<Rightarrow> int \<Rightarrow> char \<Rightarrow> blist \<Rightarrow> blist option" where
  "bl_write p i c S = do {
     n \<leftarrow> bl_get p (bl_heap S);
     d \<leftarrow> arr_set (2 * sqn + 5) i c (bn_d n);
     bl_put p (\<lambda>n. n\<lparr>bn_d := d\<rparr>) S
   }"

definition bl_pb :: "nat \<Rightarrow> char \<Rightarrow> blist \<Rightarrow> blist option" where
  "bl_pb p c S = do {
     n \<leftarrow> bl_get p (bl_heap S);
     S \<leftarrow> bl_put p (\<lambda>n. n\<lparr>bn_size := bn_size n + 1\<rparr>) S;
     bl_write p (bn_size n) c S
   }"

text \<open>\<open>for (int i = sqn; i < p->size; i++) q->pb(p->d[i]);\<close>\<close>

definition bl_move :: "nat \<Rightarrow> nat \<Rightarrow> int \<Rightarrow> blist \<Rightarrow> blist option" where
  "bl_move p q sz S = for_each (\<lambda>i S. do { c \<leftarrow> bl_read p i S; bl_pb q c S }) [sqn..sz - 1] S"

definition bl_check :: "(int \<Rightarrow> char) \<Rightarrow> nat \<Rightarrow> blist \<Rightarrow> blist option" where
  "bl_check junk p S = do {
     n \<leftarrow> bl_get p (bl_heap S);
     if bn_size n \<ge> 2 * sqn then do {
       let (q, S) = bl_new junk S;
       S \<leftarrow> bl_move p q (bn_size n) S;
       S \<leftarrow> bl_put p (\<lambda>n. n\<lparr>bn_size := sqn\<rparr>) S;
       n \<leftarrow> bl_get p (bl_heap S);
       S \<leftarrow> bl_put q (\<lambda>m. m\<lparr>bn_nxt := bn_nxt n\<rparr>) S;
       bl_put p (\<lambda>n. n\<lparr>bn_nxt := q\<rparr>) S
     }
     else Some S
   }"

text \<open>\<open>while (p->nxt != NULL) p = p->nxt;\<close>\<close>

partial_function (option) bl_last :: "nat \<Rightarrow> bheap \<Rightarrow> nat option" where [code]:
  "bl_last p h = do {
     n \<leftarrow> bl_get p h;
     if bn_nxt n \<noteq> 0 then bl_last (bn_nxt n) h else Some p
   }"

text \<open>\<open>for (...; p != NULL && tot < pos; p = p->nxt, tot += p->size);\<close>\<close>

partial_function (option) bl_seek :: "nat \<Rightarrow> int \<Rightarrow> int \<Rightarrow> bheap \<Rightarrow> (nat \<times> int) option" where [code]:
  "bl_seek p tot pos h =
     (if p \<noteq> 0 \<and> tot < pos then do {
        n \<leftarrow> bl_get p h;
        m \<leftarrow> bl_get (bn_nxt n) h;
        bl_seek (bn_nxt n) (tot + bn_size m) pos h
      }
      else Some (p, tot))"

definition bl_insert :: "(int \<Rightarrow> char) \<Rightarrow> char \<Rightarrow> int \<Rightarrow> blist \<Rightarrow> blist option" where
  "bl_insert junk c pos S = do {
     let llen = bl_llen S;
     assert (llen < 2147483647);
     let S = S\<lparr>bl_llen := llen + 1\<rparr>;
     if pos > llen then do {
       p \<leftarrow> bl_last (bl_head S) (bl_heap S);
       S \<leftarrow> bl_pb p c S;
       bl_check junk p S
     }
     else do {
       n \<leftarrow> bl_get (bl_head S) (bl_heap S);
       (p, tot) \<leftarrow> bl_seek (bl_head S) (bn_size n) pos (bl_heap S);
       n \<leftarrow> bl_get p (bl_heap S);
       let cnt = pos - (tot - bn_size n) - 1;
       S \<leftarrow> for_each (\<lambda>i S. do { x \<leftarrow> bl_read p i S; bl_write p (i + 1) x S }) (rev [cnt..bn_size n - 1]) S;
       S \<leftarrow> bl_write p cnt c S;
       S \<leftarrow> bl_put p (\<lambda>n. n\<lparr>bn_size := bn_size n + 1\<rparr>) S;
       bl_check junk p S
     }
   }"

definition bl_query :: "int \<Rightarrow> blist \<Rightarrow> char option" where
  "bl_query pos S = do {
     n \<leftarrow> bl_get (bl_head S) (bl_heap S);
     (p, tot) \<leftarrow> bl_seek (bl_head S) (bn_size n) pos (bl_heap S);
     n \<leftarrow> bl_get p (bl_heap S);
     bl_read p (pos - (tot - bn_size n) - 1) S
   }"

datatype bl_op = BlQuery int | BlInsert char int

fun bl_step :: "(int \<Rightarrow> char) \<Rightarrow> blist \<Rightarrow> bl_op \<Rightarrow> (blist \<times> char list) option" where
  "bl_step junk S (BlQuery k) = do { c \<leftarrow> bl_query k S; Some (S, [c]) }"
| "bl_step junk S (BlInsert c k) = do { S \<leftarrow> bl_insert junk c k S; Some (S, []) }"

text \<open>The loop that spreads the initial text over blocks of \<open>sqn\<close> characters; \<open>p\<close> is the last block.\<close>

definition bl_fill :: "(int \<Rightarrow> char) \<Rightarrow> string \<Rightarrow> nat \<Rightarrow> nat \<times> blist \<Rightarrow> (nat \<times> blist) option" where
  "bl_fill junk inits i = (\<lambda>(p, S). do {
     (p, S) \<leftarrow> (if int i mod sqn = 0 \<and> i \<noteq> 0 then do {
         let (q, S) = bl_new junk S;
         S \<leftarrow> bl_put p (\<lambda>n. n\<lparr>bn_nxt := q\<rparr>) S;
         n \<leftarrow> bl_get p (bl_heap S);
         Some (bn_nxt n, S)
       }
       else Some (p, S));
     S \<leftarrow> bl_pb p (inits ! i) S;
     Some (p, S)
   })"

text \<open>\<open>scanf\<close> fills \<open>inits[(int)1e6 + 5]\<close> with the text and a terminating zero.\<close>

definition bl_main :: "(int \<Rightarrow> char) \<Rightarrow> string \<Rightarrow> bl_op list \<Rightarrow> (blist \<times> char list) option" where
  "bl_main junk inits ops = do {
     assert (length inits + 1 \<le> 1000005);
     let S = \<lparr>bl_heap = (\<lambda>_. \<lparr>bn_nxt = 0, bn_size = 0, bn_d = junk\<rparr>), bl_fresh = 1, bl_head = 0, bl_llen = int (length inits)\<rparr>;
     let (p, S) = bl_new junk S;
     let S = S\<lparr>bl_head := p\<rparr>;
     (p, S) \<leftarrow> for_each (bl_fill junk inits) [0..<length inits] (p, S);
     query_loop (bl_step junk) S ops
   }"


section \<open>Blocks and chains of blocks\<close>

definition bn_holds :: "blnode \<Rightarrow> string \<Rightarrow> bool" where
  "bn_holds n xs \<longleftrightarrow> bn_size n = int (length xs) \<and> (\<forall>i < length xs. bn_d n (int i) = xs ! i)"

lemma holds_size: "bn_holds n xs \<Longrightarrow> bn_size n = int (length xs)"
  by (simp add: bn_holds_def)

lemma holds_nth: "bn_holds n xs \<Longrightarrow> i < length xs \<Longrightarrow> bn_d n (int i) = xs ! i"
  by (simp add: bn_holds_def)

text \<open>The nodes from \<open>p\<close> on, up to the pointer \<open>q\<close>.\<close>

fun bl_seg :: "bheap \<Rightarrow> nat \<Rightarrow> (nat \<times> string) list \<Rightarrow> nat \<Rightarrow> bool" where
  "bl_seg h p [] q = (p = q)"
| "bl_seg h p ((a, xs) # bs) q = (p = a \<and> a \<noteq> 0 \<and> bn_holds (h a) xs \<and> bl_seg h (bn_nxt (h a)) bs q)"

lemma bl_seg_append: "bl_seg h p (us @ vs) q \<longleftrightarrow> (\<exists>r. bl_seg h p us r \<and> bl_seg h r vs q)"
  by (induction us arbitrary: p) auto

lemma bl_seg_upd [simp]: "a \<notin> fst ` set bs \<Longrightarrow> bl_seg (h(a := n)) p bs q = bl_seg h p bs q"
  by (induction bs arbitrary: p) auto

definition bl_rep :: "blist \<Rightarrow> (nat \<times> string) list \<Rightarrow> bool" where
  "bl_rep S bs \<longleftrightarrow> bl_seg (bl_heap S) (bl_head S) bs 0 \<and> distinct (map fst bs) \<and> (\<forall>a \<in> fst ` set bs. a < bl_fresh S)"

abbreviation bl_text :: "(nat \<times> string) list \<Rightarrow> string" where
  "bl_text bs \<equiv> concat (map snd bs)"

lemma bl_get_Some [simp]: "p \<noteq> 0 \<Longrightarrow> bl_get p h = Some (h p)"
  by (simp add: bl_get_def)

lemma bl_put_Some [simp]: "p \<noteq> 0 \<Longrightarrow> bl_put p g S = Some (S\<lparr>bl_heap := (bl_heap S)(p := g (bl_heap S p))\<rparr>)"
  by (simp add: bl_put_def)

lemma bl_rep_node: "bl_rep S (us @ (a, xs) # vs) \<Longrightarrow> a \<noteq> 0 \<and> a < bl_fresh S \<and> bn_holds (bl_heap S a) xs"
  by (auto simp: bl_rep_def bl_seg_append)

text \<open>One node changes its contents but not its successor.\<close>

lemma bl_rep_change:
  assumes "bl_rep S (us @ (a, xs) # vs)" and "bn_holds n ys" and "bn_nxt n = bn_nxt (bl_heap S a)"
  shows "bl_rep (S\<lparr>bl_heap := (bl_heap S)(a := n)\<rparr>) (us @ (a, ys) # vs)"
proof -
  obtain r where "bl_seg (bl_heap S) (bl_head S) us r" "bl_seg (bl_heap S) r ((a, xs) # vs) 0"
    using assms(1) by (auto simp: bl_rep_def bl_seg_append)
  moreover have "a \<notin> fst ` set us" "a \<notin> fst ` set vs"
    using assms(1) by (auto simp: bl_rep_def)
  ultimately have "bl_seg ((bl_heap S)(a := n)) (bl_head S) us a" "bl_seg ((bl_heap S)(a := n)) (bn_nxt n) vs 0" "a \<noteq> 0"
    using assms(3) by auto
  then show ?thesis
    using assms(1,2) unfolding bl_rep_def by (auto simp: bl_seg_append)
qed

lemma bl_pb_eq:
  assumes "bn_holds (bl_heap S p) xs" and "p \<noteq> 0" and "length xs < 2005"
  shows "bl_pb p c S = Some (S\<lparr>bl_heap := (bl_heap S)(p := (bl_heap S p)\<lparr>bn_size := int (length xs) + 1, bn_d := (bn_d (bl_heap S p))(int (length xs) := c)\<rparr>)\<rparr>)"
  using assms(2,3) holds_size [OF assms(1)] by (simp add: bl_pb_def bl_write_def arr_set_def sqn_def)

lemma holds_pb: "bn_holds n xs \<Longrightarrow> bn_holds (n\<lparr>bn_size := int (length xs) + 1, bn_d := (bn_d n)(int (length xs) := c)\<rparr>) (xs @ [c])"
  by (auto simp: bn_holds_def nth_append less_Suc_eq)

lemma bl_pb_node:
  assumes "bn_holds (bl_heap S p) xs" and "p \<noteq> 0" and "length xs < 2005"
  shows "\<exists>n. bl_pb p c S = Some (S\<lparr>bl_heap := (bl_heap S)(p := n)\<rparr>) \<and> bn_holds n (xs @ [c]) \<and> bn_nxt n = bn_nxt (bl_heap S p)"
  by (rule exI, rule conjI, rule bl_pb_eq [OF assms]) (simp add: holds_pb [OF assms(1)])

lemma bl_pb_rep:
  assumes "bl_rep S (us @ (a, xs) # vs)" and "length xs < 2005"
  shows "\<exists>S'. bl_pb a c S = Some S' \<and> bl_rep S' (us @ (a, xs @ [c]) # vs) \<and> bl_llen S' = bl_llen S \<and> bl_fresh S' = bl_fresh S"
proof -
  have "a \<noteq> 0" "bn_holds (bl_heap S a) xs"
    using bl_rep_node [OF assms(1)] by auto
  then show ?thesis
    using bl_pb_eq [of S a xs c] bl_rep_change [OF assms(1) holds_pb [of "bl_heap S a" xs c]] assms(2) by simp
qed

section \<open>Splitting a full block\<close>

lemma bl_copy_loop:
  assumes "bn_holds (bl_heap S p) xs" and "p \<noteq> 0" and "q \<noteq> 0" and "p \<noteq> q" and "bn_holds (bl_heap S q) []" and "length xs = 1000 + k" and "k \<le> 1000"
  shows "\<exists>n. bl_move p q (int (length xs)) S = Some (S\<lparr>bl_heap := (bl_heap S)(q := n)\<rparr>) \<and> bn_holds n (drop 1000 xs) \<and> bn_nxt n = bn_nxt (bl_heap S q)"
proof -
  let ?I = "\<lambda>i S'. \<exists>n. S' = S\<lparr>bl_heap := (bl_heap S)(q := n)\<rparr> \<and> bn_holds n (take i (drop 1000 xs)) \<and> bn_nxt n = bn_nxt (bl_heap S q)"
  have "?I 0 S"
    using assms(5) by (intro exI [of _ "bl_heap S q"]) simp
  moreover have "\<exists>S2. (do { c \<leftarrow> bl_read p (1000 + int i) S1; bl_pb q c S1 }) = Some S2 \<and> ?I (Suc i) S2" if i: "i < k" and I: "?I i S1" for i S1
  proof -
    obtain n where n: "S1 = S\<lparr>bl_heap := (bl_heap S)(q := n)\<rparr>" "bn_holds n (take i (drop 1000 xs))" "bn_nxt n = bn_nxt (bl_heap S q)"
      using I by blast
    have "bl_read p (1000 + int i) S1 = Some (xs ! (1000 + i))"
      using holds_nth [OF assms(1), of "1000 + i"] assms(2,4,6,7) i n(1) by (simp add: bl_read_def arr_get_def sqn_def)
    moreover have "take (Suc i) (drop 1000 xs) = take i (drop 1000 xs) @ [xs ! (1000 + i)]"
      using assms(6) i by (simp add: take_Suc_conv_app_nth)
    moreover obtain n' where "bl_pb q (xs ! (1000 + i)) S1 = Some (S1\<lparr>bl_heap := (bl_heap S1)(q := n')\<rparr>)"
      "bn_holds n' (take i (drop 1000 xs) @ [xs ! (1000 + i)])" "bn_nxt n' = bn_nxt n"
      using bl_pb_node [of S1 q "take i (drop 1000 xs)" "xs ! (1000 + i)"] n assms(3,7) i by fastforce
    ultimately show ?thesis
      using n by (auto simp del: take_drop)
  qed
  ultimately show ?thesis
    using for_each_range [of ?I S k "\<lambda>i S. do { c \<leftarrow> bl_read p i S; bl_pb q c S }" sqn] assms(6)
    by (auto simp: bl_move_def sqn_def)
qed

lemma bl_check_rep:
  assumes "bl_rep S (us @ (a, xs) # vs)" and "length xs \<le> 2000" and "0 < bl_fresh S"
  shows "\<exists>S' ws. bl_check junk a S = Some S' \<and> bl_rep S' (us @ ws @ vs) \<and> bl_head S' = bl_head S \<and> bl_llen S' = bl_llen S \<and>
    ws \<noteq> [] \<and> 0 < bl_fresh S' \<and> bl_text ws = xs \<and> (\<forall>w \<in> set ws. length (snd w) < 2000)"
proof (cases "length xs = 2000")
  case False
  show ?thesis
  proof -
    have "bl_check junk a S = Some S"
      using bl_rep_node [OF assms(1)] holds_size [of "bl_heap S a" xs] assms(2) False by (simp add: bl_check_def sqn_def)
    then show ?thesis
      using assms False by (intro exI [of _ S] exI [of _ "[(a, xs)]"]) simp
  qed
next
  case True
  let ?q = "bl_fresh S"
  define S1 where "S1 = snd (bl_new junk S)"
  have node: "a \<noteq> 0" "a < ?q" "bn_holds (bl_heap S a) xs"
    using bl_rep_node [OF assms(1)] by auto
  obtain n where n: "bl_move a ?q (int (length xs)) S1 = Some (S1\<lparr>bl_heap := (bl_heap S1)(?q := n)\<rparr>)" "bn_holds n (drop 1000 xs)" "bn_nxt n = 0"
  proof -
    have "bn_holds (bl_heap S1 a) xs" "bn_holds (bl_heap S1 ?q) []" "bn_nxt (bl_heap S1 ?q) = 0"
      using node by (auto simp: S1_def bl_new_def bn_holds_def)
    then show ?thesis
      using bl_copy_loop [of S1 a xs ?q 1000] node(1,2) assms(3) True that by auto
  qed
  define h where "h = (bl_heap S)(?q := n\<lparr>bn_nxt := bn_nxt (bl_heap S a)\<rparr>, a := (bl_heap S a)\<lparr>bn_size := 1000, bn_nxt := ?q\<rparr>)"
  have run: "bl_check junk a S = Some (S\<lparr>bl_heap := h, bl_fresh := ?q + 1\<rparr>)"
    using n(1) node(1,2) holds_size [OF node(3)] assms(3) True by (simp add: bl_check_def sqn_def S1_def bl_new_def h_def fun_upd_twist)
  obtain r where r: "bl_seg (bl_heap S) (bl_head S) us r" "bl_seg (bl_heap S) r ((a, xs) # vs) 0"
    using assms(1) by (auto simp: bl_rep_def bl_seg_append)
  have "\<forall>b \<in> fst ` set us \<union> fst ` set vs. b < ?q"
    using assms(1) by (auto simp: bl_rep_def)
  then have out: "?q \<notin> fst ` set us" "?q \<notin> fst ` set vs"
    by blast+
  have out_a: "a \<notin> fst ` set us" "a \<notin> fst ` set vs"
    using assms(1) by (auto simp: bl_rep_def)
  have "bl_seg h (bl_head S) us r" "bl_seg h (bn_nxt (bl_heap S a)) vs 0"
    using r out out_a by (auto simp: h_def)
  moreover have "bn_holds (h a) (take 1000 xs)" "bn_holds (h ?q) (drop 1000 xs)"
    using node n(2) True by (auto simp: h_def bn_holds_def)
  ultimately have "bl_rep (S\<lparr>bl_heap := h, bl_fresh := ?q + 1\<rparr>) (us @ [(a, take 1000 xs), (?q, drop 1000 xs)] @ vs)"
    using assms(1) node r out out_a assms(3) unfolding bl_rep_def by (auto simp: bl_seg_append h_def less_SucI)
  then show ?thesis
    using run True by (intro exI [of _ "S\<lparr>bl_heap := h, bl_fresh := ?q + 1\<rparr>"] exI [of _ "[(a, take 1000 xs), (?q, drop 1000 xs)]"]) simp
qed


section \<open>Finding a position\<close>

lemma bl_last_ok: "bl_seg h p (us @ [(a, xs)]) 0 \<Longrightarrow> bl_last p h = Some a"
proof (induction us arbitrary: p)
  case Nil
  then show ?case
    by (simp add: bl_last.simps [of a])
next
  case (Cons u us)
  obtain b ys where u: "u = (b, ys)"
    by fastforce
  have "bn_nxt (h b) \<noteq> 0"
    using Cons.prems u by (cases us) (auto simp: fun_eq_iff)
  then show ?case
    using Cons u by (simp add: bl_last.simps [of b])
qed

lemma bl_seek_ok:
  assumes "bl_seg h p ((a, xs) # bs) 0" and "T < pos" and "pos \<le> T + int (length (xs @ bl_text bs))"
  shows "\<exists>us b ys vs. (a, xs) # bs = us @ (b, ys) # vs \<and> bl_seek p (T + int (length xs)) pos h = Some (b, T + int (length (bl_text us)) + int (length ys)) \<and>
    T + int (length (bl_text us)) < pos \<and> pos \<le> T + int (length (bl_text us)) + int (length ys)"
  using assms
proof (induction bs arbitrary: p a xs T)
  case Nil
  then show ?case
    by (intro exI [of _ "[]"] exI [of _ a] exI [of _ xs]) (auto simp: bl_seek.simps [of a])
next
  case (Cons u bs)
  obtain b ys where u: "u = (b, ys)"
    by fastforce
  show ?case
  proof (cases "T + int (length xs) < pos")
    case True
    have seg: "bl_seg h b ((b, ys) # bs) 0" and b: "bn_nxt (h a) = b" "b \<noteq> 0" "bn_holds (h b) ys" "p = a" "a \<noteq> 0"
      using Cons.prems(1) u by auto
    obtain us c zs vs where "(b, ys) # bs = us @ (c, zs) # vs"
      "bl_seek b (T + int (length xs) + int (length ys)) pos h = Some (c, T + int (length xs) + int (length (bl_text us)) + int (length zs))"
      "T + int (length xs) + int (length (bl_text us)) < pos" "pos \<le> T + int (length xs) + int (length (bl_text us)) + int (length zs)"
      using Cons.IH [OF seg, of "T + int (length xs)"] True Cons.prems(3) u by auto
    moreover from this have "bl_seek p (T + int (length xs)) pos h = Some (c, T + int (length (bl_text ((a, xs) # us))) + int (length zs))"
      using True b holds_size [OF b(3)] by (simp add: bl_seek.simps [of a "T + int (length xs)"] add.assoc)
    ultimately show ?thesis
      using u by (intro exI [of _ "(a, xs) # us"] exI [of _ c] exI [of _ zs] exI [of _ vs] conjI) auto
  next
    case False
    then show ?thesis
      using Cons.prems(1,2) by (intro exI [of _ "[]"] exI [of _ a] exI [of _ xs] exI [of _ "u # bs"]) (auto simp: bl_seek.simps [of a])
  qed
qed

text \<open>The block with position \<open>pos\<close>, as \<open>insert\<close> and \<open>query\<close> look it up.\<close>

lemma bl_locate:
  assumes "bl_rep S bs" and "bs \<noteq> []" and "1 \<le> pos" and "pos \<le> int (length (bl_text bs))"
  shows "\<exists>us a xs vs n. bs = us @ (a, xs) # vs \<and> bl_head S \<noteq> 0 \<and>
    bl_seek (bl_head S) (bn_size (bl_heap S (bl_head S))) pos (bl_heap S) = Some (a, int (length (bl_text us)) + int (length xs)) \<and>
    pos = int (length (bl_text us)) + int n + 1 \<and> n < length xs"
proof -
  obtain a0 xs0 bs0 where bs: "bs = (a0, xs0) # bs0"
    using assms(2) by (cases bs) auto
  have seg: "bl_seg (bl_heap S) (bl_head S) ((a0, xs0) # bs0) 0"
    using assms(1) bs by (simp add: bl_rep_def)
  obtain us a xs vs where 1: "bs = us @ (a, xs) # vs" 
    "bl_seek (bl_head S) (int (length xs0)) pos (bl_heap S) = Some (a, int (length (bl_text us)) + int (length xs))"
    "int (length (bl_text us)) < pos" "pos \<le> int (length (bl_text us)) + int (length xs)"
    using bl_seek_ok [OF seg, of 0 pos] assms(3,4) bs by auto
  have "bl_head S \<noteq> 0" "bn_size (bl_heap S (bl_head S)) = int (length xs0)"
    using seg holds_size by auto
  then show ?thesis
    using 1 by (intro exI [of _ us] exI [of _ a] exI [of _ xs] exI [of _ vs] exI [of _ "nat (pos - int (length (bl_text us)) - 1)"]) auto
qed


section \<open>Insertion\<close>

text \<open>What \<open>shift\<close> steps of the loop make of the characters.\<close>

definition shifted :: "int \<Rightarrow> int \<Rightarrow> (int \<Rightarrow> char) \<Rightarrow> int \<Rightarrow> char" where
  "shifted lo hi d = (\<lambda>j. if lo < j \<and> j \<le> hi then d (j - 1) else d j)"

lemma bl_shift_loop:
  assumes "bn_holds (bl_heap S p) xs" and "p \<noteq> 0" and "n < length xs" and "length xs < 2000"
  shows "for_each (\<lambda>i S. do { x \<leftarrow> bl_read p i S; bl_write p (i + 1) x S }) (rev [int n..int (length xs) - 1]) S =
    Some (S\<lparr>bl_heap := (bl_heap S)(p := (bl_heap S p)\<lparr>bn_d := shifted (int n) (int (length xs)) (bn_d (bl_heap S p))\<rparr>)\<rparr>)"
proof -
  let ?L = "int (length xs)"
  let ?d = "bn_d (bl_heap S p)"
  let ?body = "\<lambda>i S. do { x \<leftarrow> bl_read p i S; bl_write p (i + 1) x S }"
  let ?I = "\<lambda>i S'. S' = S\<lparr>bl_heap := (bl_heap S)(p := (bl_heap S p)\<lparr>bn_d := shifted (?L - int i) ?L ?d\<rparr>)\<rparr>"
  have "shifted ?L ?L ?d = ?d"
    by (auto simp: shifted_def fun_eq_iff)
  then have "?I 0 S"
    by simp
  moreover have "\<exists>S2. ?body (?L - 1 - int i) S1 = Some S2 \<and> ?I (Suc i) S2" if i: "i < length xs - n" and I: "?I i S1" for i S1
  proof -
    have "(shifted (?L - int i) ?L ?d)(?L - int i := ?d (?L - 1 - int i)) = shifted (?L - int (Suc i)) ?L ?d"
      by (auto simp: shifted_def fun_eq_iff intro!: arg_cong [of _ _ ?d])
    moreover have "shifted (?L - int i) ?L ?d (?L - 1 - int i) = ?d (?L - 1 - int i)"
      by (simp add: shifted_def)
    ultimately show ?thesis
      using i I assms(2,3,4) by (simp add: bl_read_def bl_write_def arr_get_def arr_set_def sqn_def)
  qed
  ultimately show ?thesis
    using for_each_downto [of ?I S "length xs - n" ?body "?L - 1"] assms(3) by (simp add: of_nat_diff)
qed

definition insert_text :: "char \<Rightarrow> int \<Rightarrow> string \<Rightarrow> string" where
  "insert_text c pos s = (if pos > int (length s) then s @ [c] else take (nat pos - 1) s @ c # drop (nat pos - 1) s)"

definition bl_stands :: "blist \<Rightarrow> string \<Rightarrow> bool" where
  "bl_stands S s \<longleftrightarrow> (\<exists>bs. bs \<noteq> [] \<and> bl_rep S bs \<and> 0 < bl_fresh S \<and> bl_text bs = s \<and> bl_llen S = int (length s) \<and>
     (\<forall>b \<in> set bs. length (snd b) < 2000))"

lemma holds_inserted:
  assumes "bn_holds m xs" and "n < length xs"
  shows "bn_holds (m\<lparr>bn_d := (shifted (int n) (int (length xs)) (bn_d m))(int n := c), bn_size := int (length xs) + 1\<rparr>) (take n xs @ c # drop n xs)"
proof -
  have "((shifted (int n) (int (length xs)) (bn_d m))(int n := c)) (int i) = (take n xs @ c # drop n xs) ! i" if "i < Suc (length xs)" for i
  proof (cases i n rule: linorder_cases)
    case less
    then show ?thesis
      using holds_nth [OF assms(1), of i] assms(2) by (simp add: shifted_def nth_append)
  next
    case equal
    then show ?thesis
      using assms(2) by (simp add: nth_append)
  next
    case greater
    then show ?thesis
      using holds_nth [OF assms(1), of "i - 1"] that assms(2)
      by (auto simp: shifted_def nth_append nth_Cons' of_nat_diff min_def)
  qed
  then show ?thesis
    using assms(2) by (simp add: bn_holds_def)
qed

text \<open>A checked block that has grown by the new character.\<close>

lemma bl_stands_checked:
  assumes "bl_rep S (us @ (a, xs) # vs)" and "length xs \<le> 2000" and "0 < bl_fresh S" and "bl_llen S = int (length (bl_text us @ xs @ bl_text vs))"
    and "\<forall>b \<in> set us \<union> set vs. length (snd b) < 2000"
  shows "\<exists>S'. bl_check junk a S = Some S' \<and> bl_stands S' (bl_text us @ xs @ bl_text vs)"
proof -
  obtain S' ws where "bl_check junk a S = Some S'" "bl_rep S' (us @ ws @ vs)" "bl_llen S' = bl_llen S" "ws \<noteq> []" "0 < bl_fresh S'"
    "bl_text ws = xs" "\<forall>w \<in> set ws. length (snd w) < 2000"
    using bl_check_rep [OF assms(1-3)] by blast
  then show ?thesis
    using assms(4,5) unfolding bl_stands_def by (intro exI [of _ S'] conjI exI [of _ "us @ ws @ vs"]) auto
qed

lemma bl_insert_ok:
  assumes "bl_stands S s" and "1 \<le> pos" and "length s < 2147483647"
  shows "\<exists>S'. bl_insert junk c pos S = Some S' \<and> bl_stands S' (insert_text c pos s)"
proof -
  obtain bs where bs: "bs \<noteq> []" "bl_rep S bs" "0 < bl_fresh S" "bl_text bs = s" "bl_llen S = int (length s)" "\<forall>b \<in> set bs. length (snd b) < 2000"
    using assms(1) unfolding bl_stands_def by blast
  define S0 where "S0 = S\<lparr>bl_llen := int (length s) + 1\<rparr>"
  have rep: "bl_rep S0 bs" and S0: "0 < bl_fresh S0" "bl_llen S0 = int (length s) + 1"
    using bs(2,3) by (simp_all add: bl_rep_def S0_def)
  show ?thesis
  proof (cases "pos > int (length s)")
    case True
    obtain us a xs where last: "bs = us @ [(a, xs)]"
      using bs(1) by (cases bs rule: rev_cases) auto
    have "bl_last (bl_head S0) (bl_heap S0) = Some a"
      using rep last by (intro bl_last_ok [of _ _ us a xs]) (simp add: bl_rep_def)
    moreover obtain S1 where S1: "bl_pb a c S0 = Some S1" "bl_rep S1 (us @ [(a, xs @ [c])])" "bl_llen S1 = bl_llen S0" "bl_fresh S1 = bl_fresh S0"
      using bl_pb_rep [of S0 us a xs "[]" c] rep last bs(6) by auto
    moreover obtain S2 where "bl_check junk a S1 = Some S2" "bl_stands S2 (bl_text us @ (xs @ [c]) @ bl_text [])"
      using bl_stands_checked [OF S1(2)] S1(3,4) S0 last bs(4,6) by fastforce
    ultimately show ?thesis
      using True bs(4,5) last assms(3) by (auto simp: bl_insert_def insert_text_def S0_def)
  next
    case False
    obtain us a xs vs n where loc: "bs = us @ (a, xs) # vs" "bl_head S0 \<noteq> 0"
      "bl_seek (bl_head S0) (bn_size (bl_heap S0 (bl_head S0))) pos (bl_heap S0) = Some (a, int (length (bl_text us)) + int (length xs))"
      "pos = int (length (bl_text us)) + int n + 1" "n < length xs"
      using bl_locate [OF rep bs(1) assms(2)] False bs(4) by auto
    have node: "a \<noteq> 0" "bn_holds (bl_heap S0 a) xs" "length xs < 2000"
      using bl_rep_node [of S0 us a xs vs] rep loc(1) bs(6) by auto
    define m where "m = (bl_heap S0 a)\<lparr>bn_d := (shifted (int n) (int (length xs)) (bn_d (bl_heap S0 a)))(int n := c), bn_size := int (length xs) + 1\<rparr>"
    define S1 where "S1 = S0\<lparr>bl_heap := (bl_heap S0)(a := m)\<rparr>"
    have "bl_rep S1 (us @ (a, take n xs @ c # drop n xs) # vs)"
      using rep holds_inserted [OF node(2) loc(5), of c] unfolding S1_def loc(1) by (intro bl_rep_change) (simp_all add: m_def)
    then obtain S2 where S2: "bl_check junk a S1 = Some S2" "bl_stands S2 (bl_text us @ (take n xs @ c # drop n xs) @ bl_text vs)"
      using bl_stands_checked [of S1 us a "take n xs @ c # drop n xs" vs junk] S0 loc(1,5) node(3) bs(4,6) by (auto simp: S1_def)
    have "bl_insert junk c pos S = bl_check junk a S1"
      using False bs(5) assms(3) loc node(1,3) holds_size [OF node(2)] bl_shift_loop [OF node(2,1) loc(5) node(3)]
      by (simp add: bl_insert_def S0_def S1_def m_def bl_write_def arr_set_def sqn_def Let_def)
    moreover have "insert_text c pos s = bl_text us @ (take n xs @ c # drop n xs) @ bl_text vs"
    proof -
      have "nat pos - 1 = length (bl_text us) + n"
        using loc(4) by linarith
      then show ?thesis
        using False loc(1,5) bs(4) by (simp add: insert_text_def flip: bs(4))
    qed
    ultimately show ?thesis
      using S2 by simp
  qed
qed


section \<open>Queries and the program\<close>

lemma bl_query_ok:
  assumes "bl_stands S s" and "1 \<le> pos" and "pos \<le> int (length s)"
  shows "bl_query pos S = Some (s ! (nat pos - 1))"
proof -
  obtain bs where bs: "bs \<noteq> []" "bl_rep S bs" "bl_text bs = s" "\<forall>b \<in> set bs. length (snd b) < 2000"
    using assms(1) unfolding bl_stands_def by blast
  obtain us a xs vs n where loc: "bs = us @ (a, xs) # vs" "bl_head S \<noteq> 0"
    "bl_seek (bl_head S) (bn_size (bl_heap S (bl_head S))) pos (bl_heap S) = Some (a, int (length (bl_text us)) + int (length xs))"
    "pos = int (length (bl_text us)) + int n + 1" "n < length xs"
    using bl_locate [OF bs(2,1) assms(2)] assms(3) bs(3) by auto
  have node: "a \<noteq> 0" "bn_holds (bl_heap S a) xs" "length xs < 2000"
    using bl_rep_node [of S us a xs vs] bs(2,4) loc(1) by auto
  have "nat pos - 1 = length (bl_text us) + n"
    using loc(4) by linarith
  then have "s ! (nat pos - 1) = xs ! n"
    using loc(1,5) bs(3) by (simp add: nth_append flip: bs(3))
  then show ?thesis
    using loc node holds_size [OF node(2)] holds_nth [OF node(2) loc(5)] by (simp add: bl_query_def bl_read_def arr_get_def sqn_def)
qed

text \<open>The plain text under the operations, and the operations that have a meaning.\<close>

fun text_ref :: "string \<Rightarrow> bl_op \<Rightarrow> string \<times> char list" where
  "text_ref s (BlQuery k) = (s, [s ! (nat k - 1)])"
| "text_ref s (BlInsert c k) = (insert_text c k s, [])"

fun text_ok :: "string \<Rightarrow> bl_op \<Rightarrow> bool" where
  "text_ok s (BlQuery k) = (1 \<le> k \<and> k \<le> int (length s))"
| "text_ok s (BlInsert c k) = (1 \<le> k \<and> length s < 2147483647)"

interpretation bl: query_program "bl_step junk" text_ref text_ok bl_stands for junk
proof
  show "\<exists>s'. bl_step junk S op = Some (s', snd (text_ref s op)) \<and> bl_stands s' (fst (text_ref s op))"
    if st: "bl_stands S s" and ok: "text_ok s op" for S s op
  proof (cases op)
    case (BlQuery k)
    then show ?thesis
      using st ok bl_query_ok [of S s k] by simp
  next
    case (BlInsert c k)
    then obtain S' where "bl_insert junk c k S = Some S'" "bl_stands S' (insert_text c k s)"
      using st ok bl_insert_ok [of S s k junk c] by auto
    then show ?thesis
      using BlInsert by simp
  qed
qed

definition bl_filled :: "string \<Rightarrow> nat \<Rightarrow> nat \<times> blist \<Rightarrow> bool" where
  "bl_filled inits i = (\<lambda>(p, S). \<exists>us xs. bl_rep S (us @ [(p, xs)]) \<and> 0 < bl_fresh S \<and> bl_llen S = int (length inits) \<and>
     bl_text us @ xs = take i inits \<and> length xs = (if i = 0 then 0 else (i - 1) mod 1000 + 1) \<and> (\<forall>b \<in> set us. length (snd b) < 2000))"

lemma int_mod_sqn: "int i mod sqn = int (i mod 1000)"
  by (simp add: sqn_def zmod_int)

lemma bl_fill_ok:
  assumes "bl_filled inits i (p, S)" and "i < length inits"
  shows "\<exists>pS. bl_fill junk inits i (p, S) = Some pS \<and> bl_filled inits (Suc i) pS"
proof -
  obtain us xs where r: "bl_rep S (us @ [(p, xs)])" "0 < bl_fresh S" "bl_llen S = int (length inits)" "bl_text us @ xs = take i inits"
    "length xs = (if i = 0 then 0 else (i - 1) mod 1000 + 1)" "\<forall>b \<in> set us. length (snd b) < 2000"
    using assms(1) unfolding bl_filled_def by blast
  show ?thesis
  proof (cases "i mod 1000 = 0 \<and> i \<noteq> 0")
    case True
    let ?q = "bl_fresh S"
    have node: "p \<noteq> 0" "p < ?q" "bn_holds (bl_heap S p) xs"
      using bl_rep_node [of S us p xs "[]"] r(1) by auto
    define S1 where "S1 = S\<lparr>bl_fresh := ?q + 1, bl_heap := (bl_heap S)(?q := \<lparr>bn_nxt = 0, bn_size = 0, bn_d = junk\<rparr>, p := (bl_heap S p)\<lparr>bn_nxt := ?q\<rparr>)\<rparr>"
    have "?q \<notin> fst ` set us" "p \<notin> fst ` set us"
      using r(1) by (auto simp: bl_rep_def)
    then have "bl_rep S1 ((us @ [(p, xs)]) @ (?q, []) # [])"
      using r(1,2) node by (auto simp: bl_rep_def bl_seg_append S1_def bn_holds_def less_SucI)
    then obtain S2 where S2: "bl_pb ?q (inits ! i) S1 = Some S2" "bl_rep S2 ((us @ [(p, xs)]) @ [(?q, [inits ! i])])" "bl_llen S2 = bl_llen S1" "bl_fresh S2 = bl_fresh S1"
      using bl_pb_rep [of S1 "us @ [(p, xs)]" ?q "[]" "[]" "inits ! i"] by auto
    have "bl_fill junk inits i (p, S) = Some (?q, S2)"
      using True S2(1) node by (simp add: bl_fill_def bl_new_def int_mod_sqn S1_def fun_upd_twist)
    moreover have "bl_filled inits (Suc i) (?q, S2)"
      using S2 r True assms(2) unfolding bl_filled_def prod.case
      by (intro exI [of _ "us @ [(p, xs)]"] exI [of _ "[inits ! i]"]) (auto simp: S1_def take_Suc_conv_app_nth)
    ultimately show ?thesis
      by blast
  next
    case False
    have len: "Suc (length xs) = i mod 1000 + 1"
      using False r(5) by (cases i) (auto simp: mod_Suc)
    then have "length xs < 2005"
      using mod_less_divisor [of 1000 i] by linarith
    then obtain S2 where S2: "bl_pb p (inits ! i) S = Some S2" "bl_rep S2 (us @ [(p, xs @ [inits ! i])])" "bl_llen S2 = bl_llen S" "bl_fresh S2 = bl_fresh S"
      using bl_pb_rep [of S us p xs "[]" "inits ! i"] r(1) by auto
    have "bl_fill junk inits i (p, S) = Some (p, S2)"
      using False S2(1) by (auto simp: bl_fill_def int_mod_sqn)
    moreover have "bl_filled inits (Suc i) (p, S2)"
      using S2 r len assms(2) unfolding bl_filled_def prod.case
      by (intro exI [of _ us] exI [of _ "xs @ [inits ! i]"]) (auto simp: take_Suc_conv_app_nth)
    ultimately show ?thesis
      by blast
  qed
qed

lemma bl_build_ok:
  assumes "bl_filled inits 0 (p, S)"
  shows "\<exists>p' S'. for_each (bl_fill junk inits) [0..<length inits] (p, S) = Some (p', S') \<and> bl_stands S' inits"
proof -
  obtain p' S' where 1: "for_each (bl_fill junk inits) [0..<length inits] (p, S) = Some (p', S')" "bl_filled inits (length inits) (p', S')"
    using for_each_upt [of 0 "length inits" "bl_filled inits" "(p, S)" "bl_fill junk inits"] bl_fill_ok assms by fastforce
  then obtain us xs where r: "bl_rep S' (us @ [(p', xs)])" "0 < bl_fresh S'" "bl_llen S' = int (length inits)" "bl_text us @ xs = inits"
    "length xs = (if inits = [] then 0 else (length inits - 1) mod 1000 + 1)" "\<forall>b \<in> set us. length (snd b) < 2000"
    unfolding bl_filled_def by auto
  have "length xs < 2000"
    using r(5) by (auto split: if_splits)
  then show ?thesis
    using 1(1) r unfolding bl_stands_def by (intro exI [of _ p'] exI [of _ S'] conjI exI [of _ "us @ [(p', xs)]"]) auto
qed

text \<open>C23. Whatever fresh memory contains, \<open>block-list_1.cpp\<close> prints for every initial text that fits into its buffer (at most 1000004 characters) and every
  sequence of insertions at positions from 1 on (beyond the end they append; the text stays within \<open>int\<close>) and queries inside the text the characters of the
  plain text; no block is written or read outside its array.\<close>

theorem block_list_correct:
  assumes "length inits \<le> 1000004" and "all_ok text_ok text_ref inits ops"
  shows "map_option snd (bl_main junk inits ops) = Some (ref_loop text_ref inits ops)"
proof -
  define S where "S = \<lparr>bl_heap = (\<lambda>_. \<lparr>bn_nxt = 0, bn_size = 0, bn_d = junk\<rparr>), bl_fresh = 2, bl_head = 1, bl_llen = int (length inits)\<rparr>"
  have "bl_filled inits 0 (1, S)"
    by (auto simp: bl_filled_def bl_rep_def bn_holds_def S_def intro!: exI [of _ "[]"])
  then obtain p' S' where S': "for_each (bl_fill junk inits) [0..<length inits] (1, S) = Some (p', S')" "bl_stands S' inits"
    using bl_build_ok by blast
  have "bl_main junk inits ops = query_loop (bl_step junk) S' ops"
    using S'(1) assms(1) by (simp add: bl_main_def bl_new_def S_def fun_upd_idem numeral_2_eq_2)
  then show ?thesis
    using bl.loop_ok [OF S'(2) assms(2)] by auto
qed

theorem block_list_correct_witness:
  "map_option snd (bl_main (\<lambda>_. CHR ''z'') ''abc'' [BlQuery 3, BlInsert (CHR ''x'') 1, BlInsert (CHR ''y'') 99, BlQuery 1, BlQuery 5]) = Some ''cxy''"
  using block_list_correct [of "''abc''" "[BlQuery 3, BlInsert (CHR ''x'') 1, BlInsert (CHR ''y'') 99, BlQuery 1, BlQuery 5]" "\<lambda>_. CHR ''z''"]
  by (simp add: insert_text_def)

end
