(* ===== verification/CartesianTree.thy ===== *)
theory CartesianTree
  imports QueryLoop "HOL-Library.Tree"
begin

text \<open>
  The program \<^verbatim>\<open>cartesian-tree/cartesian-tree_1.cpp\<close>: the largest rectangle under a histogram. \<open>cartesian_build\<close> makes the
  tree whose in-order sequence is the histogram and whose values grow downwards, by climbing parent pointers from
  the last bar; \<open>dfs\<close> takes the best of subtree size times height. Shown: for heights that are not negative the program prints the
  largest area over all ranges of bars; with a negative height it never ends.
\<close>

section \<open>The program\<close>

definition ct_N :: nat where
  "ct_N = 100010"

record ct_node =
  ct_idx :: nat
  ct_val :: int
  ct_par :: nat
  ct_ch0 :: nat
  ct_ch1 :: nat

type_synonym ct_tree = "nat \<Rightarrow> ct_node"

text \<open>\<open>tree[k]\<close> and an assignment to fields of it; the array has \<open>N\<close> nodes.\<close>

definition ct_get :: "ct_tree \<Rightarrow> nat \<Rightarrow> ct_node option" where
  "ct_get T k = (if k < ct_N then Some (T k) else None)"

definition ct_put :: "nat \<Rightarrow> (ct_node \<Rightarrow> ct_node) \<Rightarrow> ct_tree \<Rightarrow> ct_tree option" where
  "ct_put k g T = (if k < ct_N then Some (T(k := g (T k))) else None)"

definition ct_init :: "nat \<Rightarrow> int \<Rightarrow> nat \<Rightarrow> ct_node \<Rightarrow> ct_node" where
  "ct_init i v p nd = nd\<lparr>ct_idx := i, ct_val := v, ct_par := p, ct_ch0 := 0, ct_ch1 := 0\<rparr>"

text \<open>\<open>while (tree[k].val > tree[i].val) k = tree[k].par;\<close>\<close>

partial_function (option) ct_climb :: "ct_tree \<Rightarrow> nat \<Rightarrow> nat \<Rightarrow> nat option" where [code]:
  "ct_climb T i k = do {
     a \<leftarrow> ct_get T k;
     b \<leftarrow> ct_get T i;
     if ct_val a > ct_val b then ct_climb T i (ct_par a) else Some k
   }"

definition ct_insert :: "nat \<Rightarrow> ct_tree \<Rightarrow> ct_tree option" where
  "ct_insert i T = do {
     k \<leftarrow> ct_climb T i (i - 1);
     a \<leftarrow> ct_get T k;
     T \<leftarrow> ct_put i (\<lambda>n. n\<lparr>ct_ch0 := ct_ch1 a\<rparr>) T;
     T \<leftarrow> ct_put k (\<lambda>n. n\<lparr>ct_ch1 := i\<rparr>) T;
     T \<leftarrow> ct_put i (\<lambda>n. n\<lparr>ct_par := k\<rparr>) T;
     b \<leftarrow> ct_get T i;
     ct_put (ct_ch0 b) (\<lambda>n. n\<lparr>ct_par := i\<rparr>) T
   }"

definition cartesian_build :: "nat \<Rightarrow> ct_tree \<Rightarrow> (nat \<times> ct_tree) option" where
  "cartesian_build n T = do {
     T \<leftarrow> for_each ct_insert [1..<n + 1] T;
     a \<leftarrow> ct_get T 0;
     Some (ct_ch1 a, T)
   }"

text \<open>\<open>dfs\<close> with the global \<open>ans\<close>.\<close>

partial_function (option) ct_dfs :: "ct_tree \<Rightarrow> nat \<Rightarrow> int \<Rightarrow> (int \<times> int) option" where [code]:
  "ct_dfs T x ans =
     (if x = 0 then Some (0, ans)
      else do {
        a \<leftarrow> ct_get T x;
        (sz, ans) \<leftarrow> ct_dfs T (ct_ch0 a) ans;
        (sz1, ans) \<leftarrow> ct_dfs T (ct_ch1 a) ans;
        let sz = sz + sz1;
        let ans = max ans ((sz + 1) * ct_val a);
        Some (sz + 1, ans)
      })"

text \<open>One round of the loop of \<open>main\<close>: the nodes are set, the tree is built, the answer is printed. The array keeps
  what earlier rounds left beyond the last bar.\<close>

definition ct_round :: "ct_tree \<Rightarrow> int list \<Rightarrow> (ct_tree \<times> int list) option" where
  "ct_round T hs = do {
     T \<leftarrow> ct_put 0 (ct_init 0 0 0) T;
     T \<leftarrow> for_each (\<lambda>i. ct_put i (ct_init i (hs ! (i - 1)) 0)) [1..<length hs + 1] T;
     (root, T) \<leftarrow> cartesian_build (length hs) T;
     (sz, ans) \<leftarrow> ct_dfs T root 0;
     Some (T, [ans])
   }"

text \<open>The input: test cases with at least one bar each, up to the first case without bars, where the loop ends.\<close>

definition ct_main :: "int list list \<Rightarrow> (ct_tree \<times> int list) option" where
  "ct_main cases = query_loop ct_round (\<lambda>_. \<lparr>ct_idx = 0, ct_val = 0, ct_par = 0, ct_ch0 = 0, ct_ch1 = 0\<rparr>)
     (takeWhile (\<lambda>hs. hs \<noteq> []) cases)"


section \<open>The tree in the array\<close>

lemma ct_access [simp]:
  "k < ct_N \<Longrightarrow> ct_get T k = Some (T k)"
  "k < ct_N \<Longrightarrow> ct_put k g T = Some (T(k := g (T k)))"
  by (simp_all add: ct_get_def ct_put_def)

lemma ct_N_pos [simp]: "0 < ct_N"
  by (simp add: ct_N_def)

text \<open>Node \<open>p\<close> of the array is the root of a tree of node numbers; 0 is no node.\<close>

fun ct_at :: "ct_tree \<Rightarrow> nat \<Rightarrow> nat tree \<Rightarrow> bool" where
  "ct_at T p Leaf = (p = 0)"
| "ct_at T p (Node l x r) = (p = x \<and> 0 < x \<and> x < ct_N \<and> ct_at T (ct_ch0 (T x)) l \<and> ct_at T (ct_ch1 (T x)) r)"

text \<open>The right spine from the last node up to node 0 as a stack of nodes with their left subtrees; \<open>c\<close> is the right child
  of the topmost one. Only here do the parent pointers matter.\<close>

type_synonym spine = "(nat \<times> nat tree) list"

fun spine_top :: "spine \<Rightarrow> nat" where
  "spine_top [] = 0"
| "spine_top ((x, l) # st) = x"

fun spine_at :: "ct_tree \<Rightarrow> nat \<Rightarrow> spine \<Rightarrow> bool" where
  "spine_at T c [] = (ct_ch1 (T 0) = c \<and> ct_val (T 0) = 0)"
| "spine_at T c ((x, l) # st) = (0 < x \<and> x < ct_N \<and> ct_ch1 (T x) = c \<and> ct_at T (ct_ch0 (T x)) l \<and>
     ct_par (T x) = spine_top st \<and> spine_at T x st)"

fun unwind :: "nat tree \<Rightarrow> spine \<Rightarrow> nat tree" where
  "unwind r [] = r"
| "unwind r ((x, l) # st) = unwind (Node l x r) st"

fun flat :: "spine \<Rightarrow> nat list" where
  "flat [] = []"
| "flat ((x, l) # st) = flat st @ inorder l @ [x]"

lemma inorder_unwind: "inorder (unwind r st) = flat st @ inorder r"
  by (induction r st rule: unwind.induct) auto

lemma ct_at_unwind: "spine_at T c st \<Longrightarrow> ct_at T c r \<Longrightarrow> ct_at T (ct_ch1 (T 0)) (unwind r st)"
  by (induction st arbitrary: c r rule: flat.induct) auto

lemma ct_at_frame:
  "ct_at T p t \<Longrightarrow> (\<And>x. x \<in> set (inorder t) \<Longrightarrow> ct_ch0 (T' x) = ct_ch0 (T x) \<and> ct_ch1 (T' x) = ct_ch1 (T x)) \<Longrightarrow> ct_at T' p t"
  by (induction t arbitrary: p) auto

lemma ct_at_root: "ct_at T p t \<Longrightarrow> p = 0 \<or> p \<in> set (inorder t)"
  by (cases t) auto

lemma spine_at_frame:
  assumes "spine_at T c st" and "ct_val (T' 0) = ct_val (T 0)" and "ct_ch1 (T' 0) = ct_ch1 (T 0)"
    and "\<And>x. x \<in> set (flat st) \<Longrightarrow> ct_ch0 (T' x) = ct_ch0 (T x) \<and> ct_ch1 (T' x) = ct_ch1 (T x) \<and> ct_par (T' x) = ct_par (T x)"
  shows "spine_at T' c st"
  using assms
proof (induction st arbitrary: c rule: flat.induct)
  case (2 x l st)
  have "ct_at T' (ct_ch0 (T' x)) l"
    using 2(2,5) by (auto intro: ct_at_frame [of T])
  then show ?case
    using 2 by auto
qed simp

text \<open>A new right child of the topmost node.\<close>

lemma spine_at_retop:
  assumes "spine_at T c st" and "ct_val (T' 0) = ct_val (T 0)" and "distinct (flat st)" and "0 \<notin> set (flat st)"
    and "ct_ch1 (T' (spine_top st)) = c'"
    and "\<And>x. x \<in> insert 0 (set (flat st)) \<Longrightarrow> x \<noteq> spine_top st \<Longrightarrow> ct_ch1 (T' x) = ct_ch1 (T x)"
    and "\<And>x. x \<in> set (flat st) \<Longrightarrow> ct_ch0 (T' x) = ct_ch0 (T x) \<and> ct_par (T' x) = ct_par (T x)"
  shows "spine_at T' c' st"
proof (cases st)
  case (Cons a st')
  obtain x l where [simp]: "a = (x, l)"
    by fastforce
  have "ct_ch1 (T' y) = ct_ch1 (T y)" if "y \<in> set_tree l" for y
    using assms(3) assms(6) [of y] Cons that by auto
  then have "ct_at T' (ct_ch0 (T' x)) l"
    using assms Cons by (auto intro!: ct_at_frame [of T])
  moreover have "spine_at T' x st'"
    using assms Cons by (auto intro!: spine_at_frame [of T])
  ultimately show ?thesis
    using assms Cons by auto
qed (use assms in auto)

section \<open>Values grow downwards\<close>

fun ct_grows :: "(nat \<Rightarrow> int) \<Rightarrow> nat tree \<Rightarrow> bool" where
  "ct_grows h Leaf = True"
| "ct_grows h (Node l x r) = ((\<forall>y \<in> set_tree l \<union> set_tree r. h x \<le> h y) \<and> ct_grows h l \<and> ct_grows h r)"

lemma grows_unwind: "ct_grows h (unwind r st) \<Longrightarrow> ct_grows h r"
  by (induction r st rule: unwind.induct) auto

lemma grows_top: "ct_grows h (unwind r ((x, l) # st)) \<Longrightarrow> y \<in> set_tree r \<Longrightarrow> h x \<le> h y"
  using grows_unwind [of h "Node l x r" st] by auto

lemma grows_replace:
  assumes "ct_grows h (unwind r st)" and "ct_grows h r2"
    and "\<And>y. y \<in> set_tree r2 \<Longrightarrow> y \<in> set_tree r \<or> st = [] \<or> h (spine_top st) \<le> h y"
  shows "ct_grows h (unwind r2 st)"
  using assms
proof (induction st arbitrary: r r2 rule: flat.induct)
  case (2 x l st)
  have "ct_grows h (Node l x r)"
    using grows_unwind [of h "Node l x r" st] 2(2) by simp
  then have g: "ct_grows h (Node l x r2)"
    using 2(3,4) by auto
  have "y \<in> set_tree (Node l x r) \<or> st = [] \<or> h (spine_top st) \<le> h y" if y: "y \<in> set_tree (Node l x r2)" for y
  proof (cases st)
    case (Cons a st')
    obtain x' l' where [simp]: "a = (x', l')"
      by fastforce
    have "h x' \<le> h x"
      using grows_top [of h "Node l x r" x' l' st' x] 2(2) Cons by simp
    then show ?thesis
      using 2(4) [of y] y Cons by auto
  qed simp
  then show ?case
    using "2.IH" [of "Node l x r" "Node l x r2"] 2(2) g by simp
qed simp

section \<open>Building the tree\<close>

lemma ct_climb_spine:
  assumes "spine_at T c st" and "ct_at T c r" and "i < ct_N" and "0 \<le> ct_val (T i)"
    and "ct_grows (\<lambda>x. ct_val (T x)) (unwind r st)" and "\<forall>y \<in> set_tree r. ct_val (T i) < ct_val (T y)"
  shows "\<exists>st' c' r'. ct_climb T i (spine_top st) = Some (spine_top st') \<and> spine_at T c' st' \<and> ct_at T c' r' \<and>
    unwind r' st' = unwind r st \<and> (\<forall>y \<in> set_tree r'. ct_val (T i) < ct_val (T y)) \<and> ct_val (T (spine_top st')) \<le> ct_val (T i)"
  using assms
proof (induction st arbitrary: c r rule: flat.induct)
  case 1
  then show ?case
    by (intro exI [of _ "[]"] exI [of _ c] exI [of _ r]) (simp add: ct_climb.simps [of T i 0])
next
  case (2 x l st)
  show ?case
  proof (cases "ct_val (T x) > ct_val (T i)")
    case True
    have "ct_climb T i x = ct_climb T i (spine_top st)"
      using 2(2) True assms(3) by (simp add: ct_climb.simps [of T i x])
    moreover have "\<forall>y \<in> set_tree (Node l x r). ct_val (T i) < ct_val (T y)"
    proof -
      have "ct_grows (\<lambda>x. ct_val (T x)) (Node l x r)"
        using 2(6) by (simp only: unwind.simps) (rule grows_unwind)
      then show ?thesis
        using 2(7) True by (auto intro: less_le_trans)
    qed
    ultimately show ?thesis
      using "2.IH" [of x "Node l x r"] 2(2-6) by auto
  next
    case False
    then show ?thesis
      using 2(2-7) by (intro exI [of _ "(x, l) # st"] exI [of _ c] exI [of _ r]) (simp add: ct_climb.simps [of T i x])
  qed
qed

text \<open>After \<open>i\<close> insertions.\<close>

definition ct_built :: "nat \<Rightarrow> (nat \<Rightarrow> int) \<Rightarrow> nat \<Rightarrow> ct_tree \<Rightarrow> bool" where
  "ct_built n h i T \<longleftrightarrow> (\<forall>j \<le> n. ct_val (T j) = h j \<and> ct_par (T j) \<le> i) \<and> (\<forall>j. i < j \<and> j \<le> n \<longrightarrow> ct_ch1 (T j) = 0) \<and>
     (\<exists>st. spine_at T 0 st \<and> flat st = [1..<i + 1] \<and> ct_grows h (unwind Leaf st))"

lemma spine_top_flat: "flat st = [1..<i + 1] \<Longrightarrow> spine_top st = i"
  by (cases "(st, i)" rule: prod.exhaust; cases st rule: flat.cases; cases i) auto

lemma grows_cong: "(\<And>x. x \<in> set_tree t \<Longrightarrow> h x = h' x) \<Longrightarrow> ct_grows h t = ct_grows h' t"
  by (induction t) auto


lemma ct_insert_built:
  assumes "ct_built n h i T" and "i < n" and "n < ct_N" and "0 \<le> h (i + 1)" and "h 0 = 0"
  shows "\<exists>T'. ct_insert (i + 1) T = Some T' \<and> ct_built n h (i + 1) T'"
proof -
  obtain st where st: "spine_at T 0 st" "flat st = [1..<i + 1]" "ct_grows h (unwind Leaf st)"
    using assms(1) unfolding ct_built_def by blast
  have val: "\<And>j. j \<le> n \<Longrightarrow> ct_val (T j) = h j"
    using assms(1) unfolding ct_built_def by blast
  have in_st: "set_tree (unwind Leaf st) = {1..<i + 1}"
    using inorder_unwind [of Leaf st] st(2) by (metis append_Nil2 inorder.simps(1) set_inorder set_upt)
  have "ct_grows (\<lambda>x. ct_val (T x)) (unwind Leaf st)"
    using st(3) by (subst grows_cong [of _ _ h]) (use in_st assms(2) val in auto)
  then obtain st' c r where st': "ct_climb T (i + 1) i = Some (spine_top st')" "spine_at T c st'" "ct_at T c r"
    "unwind r st' = unwind Leaf st" "\<forall>y \<in> set_tree r. ct_val (T (i + 1)) < ct_val (T y)"
    "ct_val (T (spine_top st')) \<le> ct_val (T (i + 1))"
    using ct_climb_spine [OF st(1), of Leaf "i + 1"] assms val [of "i + 1"] spine_top_flat [OF st(2)] by auto
  have fl: "flat st' @ inorder r = [1..<i + 1]"
    using st'(4) inorder_unwind [of r st'] inorder_unwind [of Leaf st] st(2) by simp
  then have mem: "set (flat st') \<union> set_tree r = {1..<i + 1}" and dist: "distinct (flat st')" "set (flat st') \<inter> set_tree r = {}"
    by (metis set_append set_inorder set_upt, metis distinct_append distinct_upt, metis distinct_append distinct_upt set_inorder)
  have k: "spine_top st' = 0 \<or> spine_top st' \<in> set (flat st')" and c: "c = 0 \<or> c \<in> set_tree r"
    using ct_at_root [OF st'(3)] by (cases st' rule: spine_top.cases; simp)+
  have kc: "spine_top st' < i + 1" "c < i + 1" "ct_ch1 (T (spine_top st')) = c"
    using k c mem st'(2) by fastforce+ (cases st' rule: spine_top.cases; use st'(2) in auto)
  define k where "k = spine_top st'"
  define T' where "T' = (\<lambda>x. (T x)\<lparr>ct_ch0 := (if x = i + 1 then c else ct_ch0 (T x)), ct_ch1 := (if x = k then i + 1 else ct_ch1 (T x)),
    ct_par := (if x = c then i + 1 else if x = i + 1 then k else ct_par (T x))\<rparr>)"
  have run: "ct_insert (i + 1) T = Some T'"
    using st'(1) kc assms(2,3) by (auto simp: ct_insert_def k_def [symmetric] T'_def fun_eq_iff)
  have frame: "ct_val (T' x) = ct_val (T x)" "x \<noteq> i + 1 \<Longrightarrow> ct_ch0 (T' x) = ct_ch0 (T x)"
    "x \<noteq> k \<Longrightarrow> ct_ch1 (T' x) = ct_ch1 (T x)" "x \<noteq> c \<Longrightarrow> x \<noteq> i + 1 \<Longrightarrow> ct_par (T' x) = ct_par (T x)" for x
    by (simp_all add: T'_def)
  have sep: "x \<noteq> i + 1 \<and> x \<noteq> k" if "x \<in> set_tree r" for x
    using k mem dist that unfolding k_def by auto
  have c_out: "c \<notin> set (flat st')" "c \<noteq> i + 1" "i + 1 \<notin> set (flat st')" "0 \<notin> set (flat st')"
    using c mem dist by (auto simp: set_eq_iff)
  have "ct_at T' c r"
    using st'(3) by (rule ct_at_frame) (use sep frame in simp)
  moreover have "spine_at T' (i + 1) st'"
    using st'(2) by (rule spine_at_retop) (use dist(1) c_out in \<open>auto simp: k_def T'_def\<close>)
  ultimately have "spine_at T' 0 ((i + 1, r) # st')"
    using assms kc c_out(2) by (auto simp: T'_def ct_built_def k_def)
  moreover have "ct_grows h (unwind Leaf ((i + 1, r) # st'))"
  proof -
    have le: "\<forall>y \<in> set_tree r. h (i + 1) < h y" "h (spine_top st') \<le> h (i + 1)"
    proof -
      have "y \<le> n" if "y \<in> set_tree r" for y
        using mem that assms(2) by (metis UnCI atLeastLessThan_iff less_Suc_eq_le less_imp_le Suc_eq_plus1 le_trans)
      then show "\<forall>y \<in> set_tree r. h (i + 1) < h y" "h (spine_top st') \<le> h (i + 1)"
        using st'(5,6) val kc(1) assms(2) by auto
    qed
    then have "ct_grows h (Node r (i + 1) Leaf)"
      using grows_unwind [of h r st'] st(3) st'(4) by fastforce
    then show ?thesis
      using grows_replace [of h r st' "Node r (i + 1) Leaf"] st(3) st'(4) le by fastforce
  qed
  ultimately have "ct_built n h (i + 1) T'"
    using fl frame val kc(1) assms(1) unfolding ct_built_def k_def
    by (intro conjI exI [of _ "(i + 1, r) # st'"]) (auto simp: T'_def k_def le_SucI)
  then show ?thesis
    using run by blast
qed

lemma ct_insert_loop:
  assumes "m \<le> n" and "n < ct_N" and "\<forall>j \<le> n. ct_val (T j) = h j \<and> ct_par (T j) = 0 \<and> ct_ch1 (T j) = 0" and "\<forall>j \<le> m. 0 \<le> h j" and "h 0 = 0"
  shows "\<exists>T'. for_each ct_insert [1..<m + 1] T = Some T' \<and> ct_built n h m T'"
proof -
  have "ct_built n h 0 T"
    using assms unfolding ct_built_def by (auto intro!: exI [of _ "[]"])
  moreover have "\<exists>T'. ct_insert i S = Some T' \<and> ct_built n h (Suc i - 1) T'" if "1 \<le> i" "i < m + 1" "ct_built n h (i - 1) S" for i S
    using ct_insert_built [OF that(3)] that assms by simp
  ultimately show ?thesis
    using for_each_upt [of 1 "m + 1" "\<lambda>i. ct_built n h (i - 1)" T ct_insert] by auto
qed

lemma cartesian_build_ok:
  assumes "n < ct_N" and "\<forall>j \<le> n. ct_val (T j) = h j \<and> ct_par (T j) = 0 \<and> ct_ch1 (T j) = 0" and "\<forall>j \<le> n. 0 \<le> h j" and "h 0 = 0"
  shows "\<exists>root T' t. cartesian_build n T = Some (root, T') \<and> ct_at T' root t \<and> inorder t = [1..<n + 1] \<and> ct_grows h t \<and>
    (\<forall>j \<le> n. ct_val (T' j) = h j)"
proof -
  obtain T' where T': "for_each ct_insert [1..<n + 1] T = Some T'" "ct_built n h n T'"
    using ct_insert_loop [OF le_refl assms] by blast
  then obtain st where st: "spine_at T' 0 st" "flat st = [1..<n + 1]" "ct_grows h (unwind Leaf st)" "\<forall>j \<le> n. ct_val (T' j) = h j"
    unfolding ct_built_def by blast
  then show ?thesis
    using T'(1) ct_at_unwind [OF st(1), of Leaf] inorder_unwind [of Leaf st]
    by (auto simp: cartesian_build_def intro!: exI [of _ "unwind Leaf st"])
qed

text \<open>At a negative height the climb finds no place to stop.\<close>

lemma ct_climb_endless:
  assumes "\<forall>j \<le> m. ct_val (T i) < ct_val (T j) \<and> ct_par (T j) \<le> m" and "k \<le> m"
  shows "ct_climb T i k = None"
proof -
  have "(\<forall>j \<le> m. ct_val (T i) < ct_val (T j) \<and> ct_par (T j) \<le> m) \<longrightarrow> \<not> k \<le> m" if "ct_climb T i k = Some y" for y
    using that
  proof (induction T i k y rule: ct_climb.raw_induct [rotated, consumes 1])
    case (1 climb T i k y)
    then show ?case
      by (auto simp: ct_get_def split: if_splits bind_splits) blast
  qed
  then show ?thesis
    using assms by (cases "ct_climb T i k") auto
qed

lemma cartesian_build_endless:
  assumes "n < ct_N" and "\<forall>j \<le> n. ct_val (T j) = h j \<and> ct_par (T j) = 0 \<and> ct_ch1 (T j) = 0" and "j \<le> n" and "h j < 0" and "h 0 = 0"
  shows "cartesian_build n T = None"
proof -
  define i where "i = (LEAST j. h j < 0)"
  have i: "h i < 0" "i \<le> n" "\<And>j. j < i \<Longrightarrow> 0 \<le> h j"
    using LeastI [of "\<lambda>j. h j < 0", OF assms(4)] Least_le [of "\<lambda>j. h j < 0", OF assms(4)] assms(3)
    by (auto simp: i_def not_le dest: not_less_Least intro: leI)
  then obtain m where m: "i = m + 1"
    using assms(5) by (cases i) auto
  obtain T' where T': "for_each ct_insert [1..<m + 1] T = Some T'" "ct_built n h m T'"
    using ct_insert_loop [of m n T h] assms i m by auto
  have "ct_climb T' i m = None"
    using T'(2) i m by (intro ct_climb_endless [of m]) (auto simp: ct_built_def intro: less_le_trans)
  moreover have "[1..<n + 1] = [1..<m + 1] @ i # [i + 1..<n + 1]"
    using i(2) m upt_add_eq_append [of 1 i "n + 1 - i"] by (simp add: upt_conv_Cons)
  ultimately show ?thesis
    using T'(1) m by (simp add: cartesian_build_def for_each_append ct_insert_def)
qed

section \<open>The best area of a tree\<close>

fun areas :: "(nat \<Rightarrow> int) \<Rightarrow> nat tree \<Rightarrow> int set" where
  "areas h Leaf = {}"
| "areas h (Node l x r) = insert (int (size (Node l x r)) * h x) (areas h l \<union> areas h r)"

lemma finite_areas [simp]: "finite (areas h t)"
  by (induction t) auto

lemma Max_nest: "finite A \<Longrightarrow> finite B \<Longrightarrow> Max (insert (Max (insert a A)) B) = Max (insert a (A \<union> B))"
  by (cases "B = {}") (simp_all add: Max.union [symmetric] flip: Un_insert_left)

lemma ct_dfs_ok:
  assumes "ct_at T p t" and "\<forall>x \<in> set_tree t. ct_val (T x) = h x"
  shows "ct_dfs T p ans = Some (int (size t), Max (insert ans (areas h t)))"
  using assms
proof (induction t arbitrary: p ans)
  case Leaf
  then show ?case
    by (simp add: ct_dfs.simps)
next
  case (Node l x r)
  have "ct_dfs T p ans = Some (int (size (Node l x r)),
      max (Max (insert (Max (insert ans (areas h l))) (areas h r))) (int (size (Node l x r)) * h x))"
    using Node by (subst ct_dfs.simps) (simp add: algebra_simps)
  also have "max (Max (insert (Max (insert ans (areas h l))) (areas h r))) (int (size (Node l x r)) * h x) =
      Max (insert (int (size (Node l x r)) * h x) (insert ans (areas h l \<union> areas h r)))"
    by (subst Max_insert) (simp_all add: Max_nest max.commute)
  also have "\<dots> = Max (insert ans (areas h (Node l x r)))"
    by (simp only: areas.simps insert_commute)
  finally show ?case .
qed


text \<open>The area over the bars \<open>l, \<dots>, r - 1\<close>.\<close>

definition rect :: "(nat \<Rightarrow> int) \<Rightarrow> nat \<Rightarrow> nat \<Rightarrow> int" where
  "rect h l r = int (r - l) * Min (h ` {l..<r})"

lemma inorder_split:
  assumes "inorder (Node l x r) = [a..<b]"
  shows "inorder l = [a..<x]" "inorder r = [Suc x..<b]" "a \<le> x" "x < b" "size (Node l x r) = b - a"
proof -
  have "[a..<b] ! length (inorder l) = x"
    using assms by (metis inorder.simps(2) nth_append_length append.assoc append_Cons append_Nil)
  moreover have len: "length (inorder l) < b - a"
    using assms by (metis inorder.simps(2) length_upt length_append length_Cons less_add_Suc1 append_Cons append_Nil add_Suc_right)
  ultimately have x: "x = a + length (inorder l)"
    by simp
  show "a \<le> x" "x < b"
    using x len by auto
  have "inorder l = take (length (inorder l)) [a..<b]"
    using assms by (metis append_eq_conv_conj inorder.simps(2))
  then show "inorder l = [a..<x]"
    using x len by (simp add: take_upt)
  have "inorder r = drop (Suc (length (inorder l))) [a..<b]"
    by (simp flip: assms)
  then show "inorder r = [Suc x..<b]"
    using x by simp
  show "size (Node l x r) = b - a"
    by (metis assms length_inorder length_upt)
qed

lemma area_is_rect: "inorder t = [a..<b] \<Longrightarrow> ct_grows h t \<Longrightarrow> v \<in> areas h t \<Longrightarrow> \<exists>l r. a \<le> l \<and> l < r \<and> r \<le> b \<and> v = rect h l r"
proof (induction t arbitrary: a b)
  case (Node l x r)
  note s = inorder_split [OF Node.prems(1)]
  have "Min (h ` {a..<b}) = h x"
  proof (rule Min_eqI)
    fix v assume "v \<in> h ` {a..<b}"
    then obtain y where "y \<in> set (inorder (Node l x r))" "v = h y"
      by (auto simp only: Node.prems(1) set_upt)
    then show "h x \<le> v"
      using Node.prems(2) by auto
  qed (use s in auto)
  then have "int (size (Node l x r)) * h x = rect h a b"
    using s(5) by (simp add: rect_def)
  then consider "v = rect h a b" | "v \<in> areas h l" | "v \<in> areas h r"
    using Node.prems(3) by auto
  then show ?case
  proof cases
    case 1
    then show ?thesis
      using s(3,4) by (intro exI [of _ a] exI [of _ b]) auto
  next
    case 2
    then show ?thesis
      using Node.IH(1) [OF s(1)] Node.prems(2) s(4) by (metis ct_grows.simps(2) le_trans less_imp_le)
  next
    case 3
    then show ?thesis
      using Node.IH(2) [OF s(2)] Node.prems(2) s(3) by (metis ct_grows.simps(2) Suc_leD le_trans)
  qed
qed simp

lemma rect_below_area:
  assumes "inorder t = [a..<b]" and "ct_grows h t" and "\<forall>x. 0 \<le> h x" and "a \<le> l" and "l < r" and "r \<le> b"
  shows "\<exists>v \<in> areas h t. rect h l r \<le> v"
  using assms
proof (induction t arbitrary: a b)
  case (Node t1 x t2)
  note s = inorder_split [OF Node.prems(1)]
  consider "r \<le> x" | "Suc x \<le> l" | "l \<le> x" "x < r"
    by linarith
  then show ?case
  proof cases
    case 1
    then show ?thesis
      using Node.IH(1) [OF s(1)] Node.prems by auto
  next
    case 2
    then show ?thesis
      using Node.IH(2) [OF s(2)] Node.prems by auto
  next
    case 3
    have "Min (h ` {l..<r}) \<le> h x"
      using 3 by (intro Min_le) auto
    then have "rect h l r \<le> int (r - l) * h x"
      unfolding rect_def by (intro mult_left_mono) auto
    also have "\<dots> \<le> int (size (Node t1 x t2)) * h x"
      using s(5) Node.prems by (intro mult_right_mono) auto
    finally show ?thesis
      by (intro bexI [of _ "int (size (Node t1 x t2)) * h x"]) auto
  qed
qed (simp add: upt_eq_Nil_conv eq_commute [of "[]"])


section \<open>The program prints the largest areas\<close>

definition largest_rectangle :: "int list \<Rightarrow> int" where
  "largest_rectangle hs = Max {int (r - l) * Min (set (take (r - l) (drop l hs))) | l r. l < r \<and> r \<le> length hs}"

lemma ranges_eq: "{f l r | l r. l < r \<and> r \<le> (n :: nat)} = (\<Union>l \<in> {0..<n}. f l ` {l + 1..<n + 1})"
proof (intro set_eqI iffI)
  fix v assume "v \<in> {f l r | l r. l < r \<and> r \<le> n}"
  then obtain l r where "v = f l r" "l < r" "r \<le> n"
    by blast
  then show "v \<in> (\<Union>l \<in> {0..<n}. f l ` {l + 1..<n + 1})"
    by (intro UN_I [of l]) auto
qed (auto, metis Suc_le_eq less_Suc_eq_le)

lemma largest_rectangle_code [code]:
  "largest_rectangle hs = Max (set (concat (map (\<lambda>l. map (\<lambda>r. int (r - l) * Min (set (take (r - l) (drop l hs)))) [l + 1..<length hs + 1])
     [0..<length hs])))"
  unfolding largest_rectangle_def ranges_eq by (simp only: set_concat set_map set_upt image_image)

definition bar :: "int list \<Rightarrow> nat \<Rightarrow> int" where
  "bar hs j = (if j = 0 \<or> length hs < j then 0 else hs ! (j - 1))"

lemma bar_0: "bar hs 0 = 0"
  by (simp add: bar_def)

lemma bars_of_range:
  assumes "1 \<le> l" and "r \<le> length hs + 1"
  shows "bar hs ` {l..<r} = set (take (r - l) (drop (l - 1) hs))"
proof (cases "l < r")
  case True
  have "set (take (r - l) (drop (l - 1) hs)) = (\<lambda>k. hs ! (l - 1 + k)) ` {0..<r - l}"
    using assms nth_image [of "r - l" "drop (l - 1) hs"] by (auto simp: image_iff)
  also have "\<dots> = (\<lambda>k. bar hs (l + k)) ` {0..<r - l}"
    using assms True by (intro image_cong) (auto simp: bar_def)
  also have "\<dots> = bar hs ` {l..<r}"
    using True image_add_atLeastLessThan [of l 0 "r - l"] by (simp flip: image_image)
  finally show ?thesis
    by simp
qed simp

lemma largest_rectangle_rect: "largest_rectangle hs = Max {rect (bar hs) l r | l r. 1 \<le> l \<and> l < r \<and> r \<le> length hs + 1}"
proof -
  have "{int (r - l) * Min (set (take (r - l) (drop l hs))) | l r. l < r \<and> r \<le> length hs} =
      {rect (bar hs) l r | l r. 1 \<le> l \<and> l < r \<and> r \<le> length hs + 1}" (is "?A = ?B")
  proof
    show "?A \<subseteq> ?B"
    proof
      fix v assume "v \<in> ?A"
      then obtain l r where "l < r" "r \<le> length hs" "v = int (r - l) * Min (set (take (r - l) (drop l hs)))"
        by blast
      then show "v \<in> ?B"
        using bars_of_range [of "l + 1" "r + 1" hs] by (intro CollectI exI [of _ "l + 1"] exI [of _ "r + 1"]) (simp add: rect_def)
    qed
    show "?B \<subseteq> ?A"
    proof
      fix v assume "v \<in> ?B"
      then obtain l r where "1 \<le> l" "l < r" "r \<le> length hs + 1" "v = rect (bar hs) l r"
        by blast
      then show "v \<in> ?A"
        using bars_of_range [of l r hs] by (intro CollectI exI [of _ "l - 1"] exI [of _ "r - 1"]) (auto simp: rect_def)
    qed
  qed
  then show ?thesis
    by (simp add: largest_rectangle_def)
qed

lemma best_area_of_tree:
  assumes "inorder t = [1..<length hs + 1]" and "ct_grows (bar hs) t" and "\<forall>v \<in> set hs. 0 \<le> v" and "hs \<noteq> []"
  shows "Max (insert 0 (areas (bar hs) t)) = largest_rectangle hs"
proof -
  let ?R = "{rect (bar hs) l r | l r. 1 \<le> l \<and> l < r \<and> r \<le> length hs + 1}"
  have nonneg: "\<forall>x. 0 \<le> bar hs x"
    using assms(3) by (auto simp: bar_def)
  have "?R \<subseteq> (\<lambda>(l, r). rect (bar hs) l r) ` ({..length hs + 1} \<times> {..length hs + 1})"
    by auto
  then have fin: "finite ?R"
    by (rule finite_subset) simp
  have above: "\<exists>v \<in> areas (bar hs) t. w \<le> v" if "w \<in> ?R" for w
    using that rect_below_area [OF assms(1,2) nonneg] by blast
  have inside: "areas (bar hs) t \<subseteq> ?R"
    using area_is_rect [OF assms(1,2)] by blast
  have pos: "0 \<le> w" if "w \<in> areas (bar hs) t" for w
    using that inside nonneg by (fastforce simp: rect_def)
  have "rect (bar hs) 1 2 \<in> ?R"
    using assms(4) by (intro CollectI exI [of _ 1] exI [of _ 2]) (simp add: Suc_le_eq)
  then have "Max (areas (bar hs) t) \<in> areas (bar hs) t" "areas (bar hs) t \<noteq> {}"
    using above by (auto intro!: Max_in)
  then have "Max ?R = Max (areas (bar hs) t)"
  proof (intro Max_eqI [OF fin])
    fix w assume "w \<in> ?R"
    then obtain v where "v \<in> areas (bar hs) t" "w \<le> v"
      using above by blast
    then show "w \<le> Max (areas (bar hs) t)"
      using Max_ge [OF finite_areas] by (metis order_trans)
  qed (use inside in blast)
  then show ?thesis
    using pos \<open>areas (bar hs) t \<noteq> {}\<close> \<open>Max (areas (bar hs) t) \<in> areas (bar hs) t\<close> by (simp add: largest_rectangle_rect max_absorb2)
qed

text \<open>The nodes as \<open>main\<close> sets them.\<close>

lemma ct_init_loop:
  assumes "length hs < ct_N"
  shows "\<exists>T'. for_each (\<lambda>i. ct_put i (ct_init i (hs ! (i - 1)) 0)) [1..<length hs + 1] (T(0 := ct_init 0 0 0 (T 0))) = Some T' \<and>
    (\<forall>j \<le> length hs. ct_val (T' j) = bar hs j \<and> ct_par (T' j) = 0 \<and> ct_ch1 (T' j) = 0)"
proof -
  let ?body = "\<lambda>i. ct_put i (ct_init i (hs ! (i - 1)) 0)"
  let ?I = "\<lambda>i T'. \<forall>j < i. ct_val (T' j) = bar hs j \<and> ct_par (T' j) = 0 \<and> ct_ch1 (T' j) = 0"
  have "\<exists>T'. ?body i S = Some T' \<and> ?I (Suc i) T'" if "1 \<le> i" "i < length hs + 1" "?I i S" for i S
    using that assms by (auto simp: ct_init_def bar_def less_Suc_eq)
  then show ?thesis
    using for_each_upt [of 1 "length hs + 1" ?I "T(0 := ct_init 0 0 0 (T 0))" ?body] by (auto simp: ct_init_def bar_def less_Suc_eq_le)
qed

lemma ct_round_ok:
  assumes "hs \<noteq> []" and "length hs < ct_N"
  shows "map_option snd (ct_round T hs) = (if \<forall>v \<in> set hs. 0 \<le> v then Some [largest_rectangle hs] else None)"
proof -
  obtain T1 where T1: "for_each (\<lambda>i. ct_put i (ct_init i (hs ! (i - 1)) 0)) [1..<length hs + 1] (T(0 := ct_init 0 0 0 (T 0))) = Some T1"
    "\<forall>j \<le> length hs. ct_val (T1 j) = bar hs j \<and> ct_par (T1 j) = 0 \<and> ct_ch1 (T1 j) = 0"
    using ct_init_loop [OF assms(2)] by blast
  show ?thesis
  proof (cases "\<forall>v \<in> set hs. 0 \<le> v")
    case True
    have "\<forall>j \<le> length hs. 0 \<le> bar hs j"
      using True by (auto simp: bar_def)
    then obtain root T2 t where T2: "cartesian_build (length hs) T1 = Some (root, T2)" "ct_at T2 root t" "inorder t = [1..<length hs + 1]"
      "ct_grows (bar hs) t" "\<forall>j \<le> length hs. ct_val (T2 j) = bar hs j"
      using cartesian_build_ok [OF assms(2) T1(2)] bar_0 by blast
    have "ct_dfs T2 root 0 = Some (int (size t), Max (insert 0 (areas (bar hs) t)))"
      using T2(5) by (intro ct_dfs_ok T2) (auto simp: T2(3) simp flip: set_inorder)
    then show ?thesis
      using True T1(1) T2(1) best_area_of_tree [OF T2(3,4) True assms(1)] by (simp add: ct_round_def)
  next
    case False
    then obtain j where j: "j < length hs" "hs ! j < 0"
      by (auto simp: in_set_conv_nth not_le)
    then have "cartesian_build (length hs) T1 = None"
      by (intro cartesian_build_endless [OF assms(2) T1(2), of "j + 1"]) (auto simp: bar_def)
    then show ?thesis
      using False T1(1) by (simp add: ct_round_def)
  qed
qed

text \<open>C24. For test cases with fewer than 100010 bars \<open>cartesian-tree_1.cpp\<close> prints, case by case, the largest area \<open>(r - l) * min\<close> of a
  range of bars; it does so if and only if no height is negative; otherwise it has no result, since a climb never ends.\<close>

theorem cartesian_tree_largest_rectangle:
  assumes "\<forall>hs \<in> set (takeWhile (\<lambda>hs. hs \<noteq> []) cases). length hs < 100010"
  shows "map_option snd (ct_main cases) =
    (if \<forall>hs \<in> set (takeWhile (\<lambda>hs. hs \<noteq> []) cases). \<forall>v \<in> set hs. 0 \<le> v
     then Some (map largest_rectangle (takeWhile (\<lambda>hs. hs \<noteq> []) cases)) else None)"
proof -
  have "map_option snd (query_loop ct_round T cs) =
      (if \<forall>hs \<in> set cs. \<forall>v \<in> set hs. 0 \<le> v then Some (map largest_rectangle cs) else None)"
    if "\<forall>hs \<in> set cs. hs \<noteq> [] \<and> length hs < ct_N" for T cs
    using that
  proof (induction cs arbitrary: T)
    case (Cons hs cs)
    have r: "map_option snd (ct_round T hs) = (if \<forall>v \<in> set hs. 0 \<le> v then Some [largest_rectangle hs] else None)"
      using Cons.prems by (intro ct_round_ok) auto
    show ?case
    proof (cases "ct_round T hs")
      case (Some Tout)
      then show ?thesis
        using r Cons.IH [of "fst Tout"] Cons.prems by (cases "query_loop ct_round (fst Tout) cs") (auto split: if_splits prod.splits)
    qed (use r in \<open>auto split: if_splits\<close>)
  qed simp
  moreover have "\<forall>hs \<in> set (takeWhile (\<lambda>hs. hs \<noteq> []) cases). hs \<noteq> [] \<and> length hs < ct_N"
    using assms by (auto simp: ct_N_def dest: set_takeWhileD)
  ultimately show ?thesis
    unfolding ct_main_def by blast
qed

theorem cartesian_tree_largest_rectangle_witness:
  "map_option snd (ct_main [[2, 1, 4, 5, 1, 3, 3], [3, 1, 2], []]) = Some [8, 3] \<and>
   map_option snd (ct_main [[2, 1], [5, - 1]]) = None"
proof -
  have "largest_rectangle [2, 1, 4, 5, 1, 3, 3] = 8" "largest_rectangle [3, 1, 2] = 3"
    by code_simp+
  then show ?thesis
    using cartesian_tree_largest_rectangle [of "[[2, 1, 4, 5, 1, 3, 3], [3, 1, 2], []]"] cartesian_tree_largest_rectangle [of "[[2, 1], [5, - 1]]"]
    by simp
qed

end
