(* ===== verification/SegTree.thy ===== *)
theory SegTree
  imports Prelude
begin

text \<open>
  What the lazy segment trees of \<^verbatim>\<open>seg/\<close> share. Their nodes live in arrays, the children of node \<open>p\<close>
  at \<open>2 * p\<close> and \<open>2 * p + 1\<close>. Here are checked array accesses, the index sets of subtrees, the
  bound on the indices a tree over an interval needs, and the locale of the laws a node
  promises (apply a change, push the pending change down, pull the sum up). Proved once from the
  laws: a range update changes exactly the cells of its range and a range query returns their
  sum, whatever the pending changes are. The locale is interpreted on the model of each file.
\<close>

section \<open>Arrays\<close>

text \<open>An array of \<open>n\<close> cells; an access out of range has no result.\<close>

definition peek :: "nat \<Rightarrow> (nat \<Rightarrow> 'a) \<Rightarrow> nat \<Rightarrow> 'a option" where
  "peek n a i = (if i < n then Some (a i) else None)"

definition poke :: "nat \<Rightarrow> nat \<Rightarrow> 'a \<Rightarrow> (nat \<Rightarrow> 'a) \<Rightarrow> (nat \<Rightarrow> 'a) option" where
  "poke n i v a = (if i < n then Some (a(i := v)) else None)"

lemma peek_in [simp]: "i < n \<Longrightarrow> peek n a i = Some (a i)"
  by (simp add: peek_def)

lemma poke_in [simp]: "i < n \<Longrightarrow> poke n i v a = Some (a(i := v))"
  by (simp add: poke_def)

abbreviation middle :: "nat \<Rightarrow> nat \<Rightarrow> nat" where
  "middle s t \<equiv> s + (t - s) div 2"

lemma mid_middle: "s \<le> t \<Longrightarrow> (s + t) div 2 = middle s t"
  by (simp add: le_iff_add) presburger

lemma middle_bounds: "s < t \<Longrightarrow> s \<le> middle s t" "s < t \<Longrightarrow> middle s t < t"
  by auto

lemma sum_middle:
  assumes "s < t"
  shows "sum f {s..t} = sum f {s..middle s t} + sum f {middle s t + 1..t}"
proof -
  have "{s..t} = {s..middle s t} \<union> {middle s t + 1..t}"
    using assms by auto
  then show ?thesis
    by (simp add: sum.union_disjoint)
qed

section \<open>The indices of a subtree\<close>

definition sub :: "nat \<Rightarrow> nat set" where
  "sub p = {q. \<exists>k. q div 2 ^ k = p}"

lemma sub_self [simp]: "p \<in> sub p"
  unfolding sub_def by (auto intro: exI [of _ 0])

lemma sub_up:
  assumes "q \<in> sub p'" and "p' div 2 = p"
  shows "q \<in> sub p"
proof -
  obtain k where "q div 2 ^ k = p'"
    using assms(1) unfolding sub_def by blast
  then have "q div 2 ^ Suc k = p"
    using assms(2) by (metis div_mult2_eq power_Suc2)
  then show ?thesis
    unfolding sub_def by blast
qed

lemma sub_subset: "sub (2 * p) \<subseteq> sub p" "sub (2 * p + 1) \<subseteq> sub p" "{p} \<subseteq> sub p"
proof -
  show "sub (2 * p) \<subseteq> sub p" "sub (2 * p + 1) \<subseteq> sub p"
    by (rule subsetI, erule sub_up, simp)+
qed simp

lemma sub_le: "q \<in> sub p \<Longrightarrow> p \<le> q"
  unfolding sub_def using div_le_dividend by blast

lemma sub_parent:
  assumes "q \<in> sub p" and "q \<in> sub p'" and "p < p'"
  shows "p' \<in> sub p"
proof -
  obtain k k' where k: "q div 2 ^ k = p" "q div 2 ^ k' = p'"
    using assms(1,2) unfolding sub_def by blast
  have "\<not> k \<le> k'"
    using k assms(3) div_le_mono2 [of "2 ^ k" "2 ^ k'" q] by (auto simp: power_increasing)
  then have "p' div 2 ^ (k - k') = p"
    unfolding k [symmetric] by (simp add: div_mult2_eq [symmetric] power_add [symmetric])
  then show ?thesis
    unfolding sub_def by blast
qed

lemma sub_disjoint:
  assumes "0 < p"
  shows "sub (2 * p) \<inter> sub (2 * p + 1) = {}" "p \<notin> sub (2 * p)" "p \<notin> sub (2 * p + 1)"
proof -
  have "2 * p + 1 \<notin> sub (2 * p)"
  proof
    assume "2 * p + 1 \<in> sub (2 * p)"
    then obtain k where k: "(2 * p + 1) div 2 ^ k = 2 * p"
      unfolding sub_def by blast
    then show False
    proof (cases k)
      case (Suc j)
      then have "(2 * p + 1) div 2 ^ k = p div 2 ^ j"
        by (simp add: div_mult2_eq)
      also have "\<dots> \<le> p"
        by (rule div_le_dividend)
      finally show False
        using k assms by simp
    qed simp
  qed
  then show "sub (2 * p) \<inter> sub (2 * p + 1) = {}"
    using sub_parent [of _ "2 * p" "2 * p + 1"] by auto
  show "p \<notin> sub (2 * p)" "p \<notin> sub (2 * p + 1)"
    using sub_le [of p "2 * p"] sub_le [of p "2 * p + 1"] assms by auto
qed

lemma sub_siblings: "0 < p \<Longrightarrow> 2 * p \<notin> sub (2 * p + 1)" "0 < p \<Longrightarrow> 2 * p + 1 \<notin> sub (2 * p)"
  using sub_disjoint(1) [of p] sub_self [of "2 * p"] sub_self [of "2 * p + 1"] by blast+

lemma sub_children: "2 * p \<in> sub p" "2 * p + 1 \<in> sub p"
  using sub_subset [of p] sub_self [of "2 * p"] sub_self [of "2 * p + 1"] by blast+

section \<open>How many cells a tree needs\<close>

text \<open>Every node of the tree over \<open>{s..t}\<close> rooted at \<open>p\<close> has an index below \<open>n\<close>.\<close>

function fits :: "nat \<Rightarrow> nat \<Rightarrow> nat \<Rightarrow> nat \<Rightarrow> bool" where
  "fits n s t p =
     (p < n \<and> (s < t \<longrightarrow> fits n s (middle s t) (2 * p) \<and> fits n (middle s t + 1) t (2 * p + 1)))"
  by auto
termination
  by (relation "measure (\<lambda>(n, s, t, p). t - s)") auto

declare fits.simps [simp del]

lemma fits_power:
  "t - s < 2 ^ k \<Longrightarrow> (p + 1) * 2 ^ k \<le> n \<Longrightarrow> fits n s t p"
proof (induction k arbitrary: s t p)
  case 0
  then show ?case
    by (subst fits.simps) auto
next
  case (Suc k)
  have "fits n s (middle s t) (2 * p)" "fits n (middle s t + 1) t (2 * p + 1)" if "s < t"
    using Suc.prems that by (auto intro!: Suc.IH simp: algebra_simps)
  moreover have "(p + 1) * 1 \<le> (p + 1) * 2 ^ Suc k"
    by (rule mult_le_mono2) simp
  ultimately show ?case
    using Suc.prems(2) by (subst fits.simps) auto
qed

lemma power_above:
  fixes n :: nat
  assumes "0 < n"
  shows "\<exists>k. n \<le> 2 ^ k \<and> 2 ^ k < 2 * n"
proof -
  define k where "k = (LEAST k. n \<le> 2 ^ k)"
  have "n \<le> 2 ^ n"
    by (rule less_imp_le [OF less_exp])
  then have k: "n \<le> 2 ^ k"
    unfolding k_def by (rule LeastI)
  have "2 ^ k < 2 * n"
  proof (cases k)
    case (Suc j)
    then have "\<not> n \<le> 2 ^ j"
      using not_less_Least [of j "\<lambda>k. n \<le> 2 ^ k"] unfolding k_def [symmetric] by simp
    then show ?thesis
      using Suc by simp
  qed (use assms in simp)
  with k show ?thesis by blast
qed

text \<open>Four cells for each element are enough.\<close>

lemma fits_four: "0 < n \<Longrightarrow> fits (4 * n) 0 (n - 1) 1"
proof -
  assume n: "0 < n"
  from power_above [OF n] obtain k where "n \<le> 2 ^ k" "2 ^ k < 2 * n"
    by blast
  then show ?thesis
    using n by (intro fits_power [of _ _ k]) auto
qed

section \<open>Ranges of cells\<close>

text \<open>The cells after a change of those in a range, and the sum of those in two ranges.\<close>

definition changed :: "('a \<Rightarrow> 'a) \<Rightarrow> nat \<Rightarrow> nat \<Rightarrow> (nat \<Rightarrow> 'a) \<Rightarrow> nat \<Rightarrow> 'a" where
  "changed act l r f i = (if l \<le> i \<and> i \<le> r then act (f i) else f i)"

definition range_sum :: "nat \<Rightarrow> nat \<Rightarrow> nat \<Rightarrow> nat \<Rightarrow> (nat \<Rightarrow> 'a::comm_monoid_add) \<Rightarrow> 'a" where
  "range_sum l r s t f = sum f {max l s..min r t}"

lemma range_sum_split:
  assumes "s < t"
  shows "range_sum l r s t f = range_sum l r s (middle s t) f + range_sum l r (middle s t + 1) t f"
proof -
  have "{max l s..min r t} = {max l s..min r (middle s t)} \<union> {max l (middle s t + 1)..min r t}"
    using assms by auto
  moreover have "{max l s..min r (middle s t)} \<inter> {max l (middle s t + 1)..min r t} = {}"
    by auto
  ultimately show ?thesis
    unfolding range_sum_def by (metis finite_atLeastAtMost sum.union_disjoint)
qed

text \<open>The same for a list whose positions are counted from 1.\<close>

definition slice :: "nat \<Rightarrow> nat \<Rightarrow> 'a list \<Rightarrow> 'a list" where
  "slice x y vs = take (y + 1 - x) (drop (x - 1) vs)"

lemma slice_cells: "1 \<le> x \<Longrightarrow> x \<le> y \<Longrightarrow> y \<le> length vs \<Longrightarrow> slice x y vs = map (\<lambda>i. vs ! (i - 1)) [x..<y + 1]"
  by (rule nth_equalityI) (auto simp: slice_def simp del: upt_Suc)

lemma slice_subset: "set (slice x y vs) \<subseteq> set vs"
  unfolding slice_def by (meson in_set_dropD in_set_takeD subsetI)

lemma changed_cells:
  assumes "1 \<le> x" and "x \<le> y" and "y \<le> length vs" and "1 \<le> i" and "i \<le> length vs"
  shows "(take (x - 1) vs @ map act (slice x y vs) @ drop y vs) ! (i - 1) = changed act x y (\<lambda>i. vs ! (i - 1)) i"
  using assms by (auto simp: changed_def slice_cells nth_append min_def simp del: upt_Suc)

section \<open>The laws of the nodes\<close>

text \<open>
  \<open>rep S s t p f\<close>: node \<open>p\<close> and the nodes below it stand for the cells \<open>f s, \<dots>, f t\<close>. \<open>clean S p\<close>: no change
  is pending at \<open>p\<close>. \<open>same_outside A S S'\<close>: the two states differ in nodes of \<open>A\<close> only. \<open>apply\<close>, \<open>push\<close>,
  \<open>pull\<close> and \<open>look\<close> are what \<open>update\<close> and \<open>getsum\<close> do at a single node; \<open>act\<close> is the effect of an
  update on a cell, \<open>legal\<close> the condition on the cells it is meant for, \<open>norm\<close> what a query does to an intermediate sum and \<open>red\<close> what its result
  is exact up to.
\<close>

locale segment_nodes =
  fixes rep :: "'m \<Rightarrow> nat \<Rightarrow> nat \<Rightarrow> nat \<Rightarrow> (nat \<Rightarrow> 'a) \<Rightarrow> bool"
    and clean :: "'m \<Rightarrow> nat \<Rightarrow> bool"
    and same_outside :: "nat set \<Rightarrow> 'm \<Rightarrow> 'm \<Rightarrow> bool"
    and push :: "nat \<Rightarrow> nat \<Rightarrow> nat \<Rightarrow> 'm \<Rightarrow> 'm option"
    and pull :: "nat \<Rightarrow> 'm \<Rightarrow> 'm option"
  assumes rep_cong: "rep S s t p f \<Longrightarrow> (\<And>i. s \<le> i \<Longrightarrow> i \<le> t \<Longrightarrow> f i = g i) \<Longrightarrow> rep S s t p g"
    and rep_outside: "rep S s t p f \<Longrightarrow> same_outside A S S' \<Longrightarrow> A \<inter> sub p = {} \<Longrightarrow> rep S' s t p f"
    and clean_outside: "clean S p \<Longrightarrow> same_outside A S S' \<Longrightarrow> p \<notin> A \<Longrightarrow> clean S' p"
    and outside_refl: "same_outside A S S"
    and outside_trans: "same_outside A S S' \<Longrightarrow> same_outside B S' S'' \<Longrightarrow> A \<subseteq> C \<Longrightarrow> B \<subseteq> C \<Longrightarrow>
      same_outside C S S''"
    and push_law: "0 < p \<Longrightarrow> s < t \<Longrightarrow> rep S s t p f \<Longrightarrow> \<exists>S'. push s t p S = Some S' \<and>
      rep S' s (middle s t) (2 * p) f \<and> rep S' (middle s t + 1) t (2 * p + 1) f \<and> clean S' p \<and>
      same_outside (sub p) S S'"
    and pull_law: "0 < p \<Longrightarrow> s < t \<Longrightarrow> clean S p \<Longrightarrow> rep S s (middle s t) (2 * p) f \<Longrightarrow>
      rep S (middle s t + 1) t (2 * p + 1) f \<Longrightarrow>
      \<exists>S'. pull p S = Some S' \<and> rep S' s t p f \<and> same_outside {p} S S'"
begin

text \<open>An operation on one child leaves the other child and the parent as they are.\<close>

lemma left_only:
  assumes "0 < p" and "same_outside (sub (2 * p)) S S'"
  shows "rep S s t (2 * p + 1) f \<Longrightarrow> rep S' s t (2 * p + 1) f" and "clean S p \<Longrightarrow> clean S' p"
  using assms sub_disjoint [OF assms(1)] rep_outside clean_outside by blast+

lemma right_only:
  assumes "0 < p" and "same_outside (sub (2 * p + 1)) S S'"
  shows "rep S s t (2 * p) f \<Longrightarrow> rep S' s t (2 * p) f" and "clean S p \<Longrightarrow> clean S' p"
  using assms sub_disjoint [OF assms(1)] rep_outside clean_outside by blast+

lemma outside_left: "same_outside (sub p) S S' \<Longrightarrow> same_outside (sub (2 * p)) S' S'' \<Longrightarrow> same_outside (sub p) S S''"
  by (erule outside_trans, assumption) (simp_all add: sub_subset)

lemma outside_right:
  "same_outside (sub p) S S' \<Longrightarrow> same_outside (sub (2 * p + 1)) S' S'' \<Longrightarrow> same_outside (sub p) S S''"
  using sub_subset by (blast intro: outside_trans)

lemma outside_self: "same_outside (sub p) S S' \<Longrightarrow> same_outside {p} S' S'' \<Longrightarrow> same_outside (sub p) S S''"
  using sub_subset by (blast intro: outside_trans)

end

text \<open>A range update.\<close>

locale range_update = segment_nodes rep clean same_outside push pull
  for rep :: "'m \<Rightarrow> nat \<Rightarrow> nat \<Rightarrow> nat \<Rightarrow> (nat \<Rightarrow> 'a) \<Rightarrow> bool"
    and clean same_outside push pull +
  fixes apply_node :: "nat \<Rightarrow> nat \<Rightarrow> nat \<Rightarrow> 'm \<Rightarrow> 'm option"
    and update :: "nat \<Rightarrow> nat \<Rightarrow> nat \<Rightarrow> nat \<Rightarrow> nat \<Rightarrow> 'm \<Rightarrow> 'm option"
    and act :: "'a \<Rightarrow> 'a" and legal :: "'a \<Rightarrow> bool"
  assumes update_eq: "s \<le> t \<Longrightarrow> l \<le> t \<Longrightarrow> s \<le> r \<Longrightarrow> update l r s t p S =
      (if l \<le> s \<and> t \<le> r then apply_node s t p S
       else do {
         S1 \<leftarrow> push s t p S;
         S2 \<leftarrow> (if l \<le> middle s t then update l r s (middle s t) (2 * p) S1 else Some S1);
         S3 \<leftarrow> (if middle s t < r then update l r (middle s t + 1) t (2 * p + 1) S2 else Some S2);
         pull p S3
       })"
    and apply_law: "(\<And>i. s \<le> i \<Longrightarrow> i \<le> t \<Longrightarrow> legal (f i)) \<Longrightarrow> 0 < p \<Longrightarrow> s \<le> t \<Longrightarrow> rep S s t p f \<Longrightarrow> \<exists>S'. apply_node s t p S = Some S' \<and>
      rep S' s t p (\<lambda>i. act (f i)) \<and> same_outside (sub p) S S'"
begin

theorem update_at_node:
  assumes "\<And>i. l \<le> i \<Longrightarrow> i \<le> r \<Longrightarrow> legal (f i)" and "0 < p" and "s \<le> t" and "l \<le> t" and "s \<le> r" and "rep S s t p f"
  shows "\<exists>S'. update l r s t p S = Some S' \<and> rep S' s t p (changed act l r f) \<and> same_outside (sub p) S S'"
  using assms(2-)
proof (induction "t - s" arbitrary: s t p S rule: less_induct)
  case less
  show ?case
  proof (cases "l \<le> s \<and> t \<le> r")
    case True
    then obtain S' where "apply_node s t p S = Some S'" "rep S' s t p (\<lambda>i. act (f i))" "same_outside (sub p) S S'"
      using apply_law [OF assms(1) less.prems(1,2,5)] by auto
    then show ?thesis
      using True rep_cong [of S' s t p "\<lambda>i. act (f i)" "changed act l r f"] by (auto simp: update_eq [OF less.prems(2-4)] changed_def)
  next
    case False
    let ?m = "middle s t"
    have st: "s < t"
      using False less.prems by auto
    then have sizes: "?m - s < t - s" "t - (?m + 1) < t - s" "?m + 1 \<le> t"
      by auto
    note p = less.prems(1)
    obtain S1 where S1: "push s t p S = Some S1" "rep S1 s ?m (2 * p) f" "rep S1 (?m + 1) t (2 * p + 1) f"
        "clean S1 p" "same_outside (sub p) S S1"
      using push_law [OF p st less.prems(5)] by blast
    obtain S2 where S2: "(if l \<le> ?m then update l r s ?m (2 * p) S1 else Some S1) = Some S2"
        "rep S2 s ?m (2 * p) (changed act l r f)" "same_outside (sub (2 * p)) S1 S2"
    proof (cases "l \<le> ?m")
      case True
      then show thesis
        using less.hyps [OF sizes(1), of "2 * p" S1] S1(2) st less.prems that by auto
    next
      case False
      then show thesis
        using that [of S1] S1(2) rep_cong [of S1 s ?m "2 * p" f "changed act l r f"] outside_refl by (simp add: changed_def)
    qed
    have r2: "rep S2 (?m + 1) t (2 * p + 1) f" "clean S2 p"
      using left_only [OF p S2(3)] S1(3,4) by blast+
    obtain S3 where S3: "(if ?m < r then update l r (?m + 1) t (2 * p + 1) S2 else Some S2) = Some S3"
        "rep S3 (?m + 1) t (2 * p + 1) (changed act l r f)" "same_outside (sub (2 * p + 1)) S2 S3"
    proof (cases "?m < r")
      case True
      then show thesis
        using less.hyps [OF sizes(2) _ sizes(3), of "2 * p + 1" S2] r2(1) st less.prems that by auto
    next
      case False
      then show thesis
        using that [of S2] r2(1) rep_cong [of S2 "?m + 1" t "2 * p + 1" f "changed act l r f"] outside_refl
        by (simp add: changed_def)
    qed
    have r3: "rep S3 s ?m (2 * p) (changed act l r f)" "clean S3 p"
      using right_only [OF p S3(3)] S2(2) r2(2) by blast+
    obtain S4 where S4: "pull p S3 = Some S4" "rep S4 s t p (changed act l r f)" "same_outside {p} S3 S4"
      using pull_law [OF p st r3(2,1) S3(2)] by blast
    have "same_outside (sub p) S S4"
      using S1(5) S2(3) S3(3) S4(3) by (blast intro: outside_left outside_right outside_self)
    moreover have "update l r s t p S = Some S4"
      using S1(1) S2(1) S3(1) S4(1) by (simp only: update_eq [OF less.prems(2-4)] False if_False bind.bind_lunit)
    ultimately show ?thesis
      using S4(2) by blast
  qed
qed

end

text \<open>
  A range query, which moves pending changes down and keeps what the tree stands for. \<open>answers v f A\<close>: \<open>v\<close> is an answer for the cells in \<open>A\<close>;
  \<open>comb\<close> puts the answers of two children together and may fail, \<open>none\<close> stands for a child that is not asked.
\<close>

locale range_collect = segment_nodes rep clean same_outside push pull
  for rep :: "'m \<Rightarrow> nat \<Rightarrow> nat \<Rightarrow> nat \<Rightarrow> (nat \<Rightarrow> 'a) \<Rightarrow> bool"
    and clean same_outside push pull +
  fixes look :: "nat \<Rightarrow> 'm \<Rightarrow> 'b option"
    and query :: "nat \<Rightarrow> nat \<Rightarrow> nat \<Rightarrow> nat \<Rightarrow> nat \<Rightarrow> 'm \<Rightarrow> ('m \<times> 'b) option"
    and none :: 'b and comb :: "'b \<Rightarrow> 'b \<Rightarrow> 'b option"
    and answers :: "'b \<Rightarrow> (nat \<Rightarrow> 'a) \<Rightarrow> nat set \<Rightarrow> bool"
  assumes query_eq: "s \<le> t \<Longrightarrow> l \<le> t \<Longrightarrow> s \<le> r \<Longrightarrow> query l r s t p S =
      (if l \<le> s \<and> t \<le> r then map_option (\<lambda>v. (S, v)) (look p S)
       else do {
         S1 \<leftarrow> push s t p S;
         (S2, x) \<leftarrow> (if l \<le> middle s t then query l r s (middle s t) (2 * p) S1 else Some (S1, none));
         (S3, y) \<leftarrow> (if middle s t < r then query l r (middle s t + 1) t (2 * p + 1) S2 else Some (S2, none));
         map_option (\<lambda>v. (S3, v)) (comb x y)
       })"
    and look_law: "0 < p \<Longrightarrow> s \<le> t \<Longrightarrow> rep S s t p f \<Longrightarrow> \<exists>v. look p S = Some v \<and> answers v f {s..t}"
    and pull_again: "0 < p \<Longrightarrow> s < t \<Longrightarrow> clean S p \<Longrightarrow> rep S s t p f \<Longrightarrow> rep S' s (middle s t) (2 * p) f \<Longrightarrow>
      rep S' (middle s t + 1) t (2 * p + 1) f \<Longrightarrow> same_outside (sub (2 * p) \<union> sub (2 * p + 1)) S S' \<Longrightarrow> rep S' s t p f"
    and push_keeps: "0 < p \<Longrightarrow> s < t \<Longrightarrow> rep S s t p f \<Longrightarrow> push s t p S = Some S' \<Longrightarrow> rep S' s t p f"
    and answers_none: "answers none f {}"
    and comb_law: "rep S s t p f \<Longrightarrow> A \<union> B \<subseteq> {s..t} \<Longrightarrow> A \<inter> B = {} \<Longrightarrow> answers x f A \<Longrightarrow> answers y f B \<Longrightarrow>
      \<exists>z. comb x y = Some z \<and> answers z f (A \<union> B)"
begin

theorem collect_at_node:
  assumes "0 < p" and "s \<le> t" and "l \<le> t" and "s \<le> r" and "rep S s t p f"
  shows "\<exists>S' v. query l r s t p S = Some (S', v) \<and> answers v f {max l s..min r t} \<and>
    rep S' s t p f \<and> same_outside (sub p) S S'"
  using assms
proof (induction "t - s" arbitrary: s t p S rule: less_induct)
  case less
  show ?case
  proof (cases "l \<le> s \<and> t \<le> r")
    case True
    then show ?thesis
      using look_law [OF less.prems(1,2,5)] less.prems(5) outside_refl
      by (auto simp: query_eq [OF less.prems(2-4)] max_def min_def)
  next
    case False
    let ?m = "middle s t" and ?A = "{max l s..min r (middle s t)}" and ?B = "{max l (middle s t + 1)..min r t}"
    have st: "s < t"
      using False less.prems by auto
    then have sizes: "?m - s < t - s" "t - (?m + 1) < t - s" "?m + 1 \<le> t"
      by auto
    note p = less.prems(1)
    obtain S1 where S1: "push s t p S = Some S1" "rep S1 s ?m (2 * p) f" "rep S1 (?m + 1) t (2 * p + 1) f"
        "clean S1 p" "same_outside (sub p) S S1"
      using push_law [OF p st less.prems(5)] by blast
    have "\<exists>S2 x. (if l \<le> ?m then query l r s ?m (2 * p) S1 else Some (S1, none)) = Some (S2, x) \<and>
        answers x f ?A \<and> rep S2 s ?m (2 * p) f \<and> same_outside (sub (2 * p)) S1 S2"
    proof (cases "l \<le> ?m")
      case True
      then show ?thesis
        using less.hyps [OF sizes(1), of "2 * p" S1] S1(2) st less.prems by auto
    next
      case False
      then show ?thesis
        using S1(2) outside_refl answers_none by simp
    qed
    then obtain S2 x where S2: "(if l \<le> ?m then query l r s ?m (2 * p) S1 else Some (S1, none)) = Some (S2, x)"
        "answers x f ?A" "rep S2 s ?m (2 * p) f" "same_outside (sub (2 * p)) S1 S2"
      by blast
    have r2: "rep S2 (?m + 1) t (2 * p + 1) f"
      using left_only(1) [OF p S2(4)] S1(3) by blast
    have "\<exists>S3 y. (if ?m < r then query l r (?m + 1) t (2 * p + 1) S2 else Some (S2, none)) = Some (S3, y) \<and>
        answers y f ?B \<and> rep S3 (?m + 1) t (2 * p + 1) f \<and> same_outside (sub (2 * p + 1)) S2 S3"
    proof (cases "?m < r")
      case True
      then show ?thesis
        using less.hyps [OF sizes(2) _ sizes(3), of "2 * p + 1" S2] r2 st less.prems by auto
    next
      case False
      then show ?thesis
        using r2 outside_refl answers_none by simp
    qed
    then obtain S3 y where S3: "(if ?m < r then query l r (?m + 1) t (2 * p + 1) S2 else Some (S2, none)) = Some (S3, y)"
        "answers y f ?B" "rep S3 (?m + 1) t (2 * p + 1) f" "same_outside (sub (2 * p + 1)) S2 S3"
      by blast
    have "rep S3 s ?m (2 * p) f"
      using right_only(1) [OF p S3(4)] S2(3) by blast
    moreover have "same_outside (sub (2 * p) \<union> sub (2 * p + 1)) S1 S3"
      using S2(4) S3(4) by (blast intro: outside_trans)
    ultimately have "rep S3 s t p f"
      using pull_again [OF p st S1(4) push_keeps [OF p st less.prems(5) S1(1)]] S3(3) by blast
    moreover have "same_outside (sub p) S S3"
      using S1(5) S2(4) S3(4) by (blast intro: outside_left outside_right)
    moreover have "?A \<union> ?B = {max l s..min r t}" "?A \<inter> ?B = {}" "?A \<union> ?B \<subseteq> {s..t}"
      using st by auto
    then obtain z where "comb x y = Some z" "answers z f {max l s..min r t}"
      using comb_law [OF less.prems(5) _ _ S2(2) S3(2)] by metis
    moreover have "query l r s t p S = map_option (\<lambda>v. (S3, v)) (comb x y)"
      using S1(1) S2(1) S3(1) by (simp only: query_eq [OF less.prems(2-4)] False if_False bind.bind_lunit prod.case)
    ultimately show ?thesis
      by auto
  qed
qed

end

text \<open>
  The same where the answers are put together without failing. \<open>val f A\<close> is what is asked of the cells in \<open>A\<close>, a
  sum or a maximum.
\<close>

locale range_fold = segment_nodes rep clean same_outside push pull
  for rep :: "'m \<Rightarrow> nat \<Rightarrow> nat \<Rightarrow> nat \<Rightarrow> (nat \<Rightarrow> 'a) \<Rightarrow> bool"
    and clean same_outside push pull +
  fixes look :: "nat \<Rightarrow> 'm \<Rightarrow> 'b option"
    and query :: "nat \<Rightarrow> nat \<Rightarrow> nat \<Rightarrow> nat \<Rightarrow> nat \<Rightarrow> 'm \<Rightarrow> ('m \<times> 'b) option"
    and none :: 'b and comb :: "'b \<Rightarrow> 'b \<Rightarrow> 'b"
    and val :: "(nat \<Rightarrow> 'a) \<Rightarrow> nat set \<Rightarrow> 'b"
    and red :: "'b \<Rightarrow> 'b"
  assumes query_eq: "s \<le> t \<Longrightarrow> l \<le> t \<Longrightarrow> s \<le> r \<Longrightarrow> query l r s t p S =
      (if l \<le> s \<and> t \<le> r then map_option (\<lambda>v. (S, v)) (look p S)
       else do {
         S1 \<leftarrow> push s t p S;
         (S2, x) \<leftarrow> (if l \<le> middle s t then query l r s (middle s t) (2 * p) S1 else Some (S1, none));
         (S3, y) \<leftarrow> (if middle s t < r then query l r (middle s t + 1) t (2 * p + 1) S2 else Some (S2, none));
         Some (S3, comb x y)
       })"
    and look_law: "0 < p \<Longrightarrow> s \<le> t \<Longrightarrow> rep S s t p f \<Longrightarrow> \<exists>v. look p S = Some v \<and> red v = red (val f {s..t})"
    and pull_again: "0 < p \<Longrightarrow> s < t \<Longrightarrow> clean S p \<Longrightarrow> rep S s t p f \<Longrightarrow> rep S' s (middle s t) (2 * p) f \<Longrightarrow>
      rep S' (middle s t + 1) t (2 * p + 1) f \<Longrightarrow> same_outside (sub (2 * p) \<union> sub (2 * p + 1)) S S' \<Longrightarrow> rep S' s t p f"
    and push_keeps: "0 < p \<Longrightarrow> s < t \<Longrightarrow> rep S s t p f \<Longrightarrow> push s t p S = Some S' \<Longrightarrow> rep S' s t p f"
    and val_none: "red none = red (val f {})"
    and comb_law: "rep S s t p f \<Longrightarrow> A \<union> B \<subseteq> {s..t} \<Longrightarrow> A \<inter> B = {} \<Longrightarrow> red x = red (val f A) \<Longrightarrow> red y = red (val f B) \<Longrightarrow>
      red (comb x y) = red (val f (A \<union> B))"

sublocale range_fold \<subseteq> collected: range_collect rep clean same_outside push pull look query none "\<lambda>x y. Some (comb x y)"
  "\<lambda>v f A. red v = red (val f A)"
proof unfold_locales
  show "\<exists>z. Some (comb x y) = Some z \<and> red z = red (val f (A \<union> B))"
    if "rep S s t p f" "A \<union> B \<subseteq> {s..t}" "A \<inter> B = {}" "red x = red (val f A)" "red y = red (val f B)" for S s t p f A B x y
    using comb_law [OF that] by simp
qed (fact look_law pull_again push_keeps val_none | simp only: query_eq option.map)+

context range_fold
begin

theorem fold_at_node:
  assumes "0 < p" and "s \<le> t" and "l \<le> t" and "s \<le> r" and "rep S s t p f"
  shows "\<exists>S' v. query l r s t p S = Some (S', v) \<and> red v = red (val f {max l s..min r t}) \<and>
    rep S' s t p f \<and> same_outside (sub p) S S'"
  by (rule collected.collect_at_node [OF assms])

end

text \<open>The query for a sum, which may be normalised on the way.\<close>

locale range_query = segment_nodes rep clean same_outside push pull
  for rep :: "'m \<Rightarrow> nat \<Rightarrow> nat \<Rightarrow> nat \<Rightarrow> (nat \<Rightarrow> 'a::comm_monoid_add) \<Rightarrow> bool"
    and clean same_outside push pull +
  fixes look :: "nat \<Rightarrow> 'm \<Rightarrow> 'a option"
    and query :: "nat \<Rightarrow> nat \<Rightarrow> nat \<Rightarrow> nat \<Rightarrow> nat \<Rightarrow> 'm \<Rightarrow> ('m \<times> 'a) option"
    and norm red :: "'a \<Rightarrow> 'a"
  assumes query_eq: "s \<le> t \<Longrightarrow> l \<le> t \<Longrightarrow> s \<le> r \<Longrightarrow> query l r s t p S =
      (if l \<le> s \<and> t \<le> r then map_option (\<lambda>v. (S, v)) (look p S)
       else do {
         S1 \<leftarrow> push s t p S;
         (S2, x) \<leftarrow> (if l \<le> middle s t then query l r s (middle s t) (2 * p) S1 else Some (S1, 0));
         (S3, y) \<leftarrow> (if middle s t < r then query l r (middle s t + 1) t (2 * p + 1) S2 else Some (S2, 0));
         Some (S3, norm (norm x + y))
       })"
    and look_law: "0 < p \<Longrightarrow> s \<le> t \<Longrightarrow> rep S s t p f \<Longrightarrow> \<exists>v. look p S = Some v \<and> red v = red (sum f {s..t})"
    and pull_again: "0 < p \<Longrightarrow> s < t \<Longrightarrow> clean S p \<Longrightarrow> rep S s t p f \<Longrightarrow> rep S' s (middle s t) (2 * p) f \<Longrightarrow>
      rep S' (middle s t + 1) t (2 * p + 1) f \<Longrightarrow> same_outside (sub (2 * p) \<union> sub (2 * p + 1)) S S' \<Longrightarrow> rep S' s t p f"
    and push_keeps: "0 < p \<Longrightarrow> s < t \<Longrightarrow> rep S s t p f \<Longrightarrow> push s t p S = Some S' \<Longrightarrow> rep S' s t p f"
    and norm_red: "red x = red x' \<Longrightarrow> red y = red y' \<Longrightarrow> red (norm (norm x + y)) = red (x' + y')"

sublocale range_query \<subseteq> folded: range_fold rep clean same_outside push pull look query 0 "\<lambda>x y. norm (norm x + y)" sum red
proof unfold_locales
  show "red (norm (norm x + y)) = red (sum f (A \<union> B))"
    if "A \<union> B \<subseteq> {s..t}" "A \<inter> B = {}" "red x = red (sum f A)" "red y = red (sum f B)" for s t :: nat and A B x y f
  proof -
    have "finite A" "finite B"
      using that(1) finite_subset [of "A \<union> B" "{s..t}"] by auto
    then show ?thesis
      using norm_red [OF that(3,4)] that(2) by (simp add: sum.union_disjoint)
  qed
qed (fact query_eq look_law pull_again push_keeps | simp)+

context range_query
begin

theorem query_at_node:
  assumes "0 < p" and "s \<le> t" and "l \<le> t" and "s \<le> r" and "rep S s t p f"
  shows "\<exists>S' v. query l r s t p S = Some (S', v) \<and> red v = red (range_sum l r s t f) \<and>
    rep S' s t p f \<and> same_outside (sub p) S S'"
  using folded.fold_at_node [OF assms] by (simp add: range_sum_def)

text \<open>
  A query that does not cover the node reads the two children only: whatever the node itself stores, it
  returns the sum of the cells the children stand for.
\<close>

lemma query_below_node:
  assumes "0 < p" and "s < t" and "l \<le> r" and "s \<le> l" and "r \<le> t" and "(l, r) \<noteq> (s, t)" and "push s t p S = Some S1"
    and "rep S1 s (middle s t) (2 * p) f" and "rep S1 (middle s t + 1) t (2 * p + 1) f"
  shows "\<exists>S' v. query l r s t p S = Some (S', v) \<and> red v = red (sum f {l..r})"
proof -
  let ?m = "middle s t"
  have part: "\<not> (l \<le> s \<and> t \<le> r)"
    using assms(4-6) by auto
  obtain S2 x where S2: "(if l \<le> ?m then query l r s ?m (2 * p) S1 else Some (S1, 0)) = Some (S2, x)"
      "red x = red (range_sum l r s ?m f)" "same_outside (sub (2 * p)) S1 S2"
  proof (cases "l \<le> ?m")
    case True
    then show thesis
      using query_at_node [of "2 * p" s ?m l r S1 f] assms(1,3,4,8) that by auto
  next
    case False
    then show thesis
      using that [of S1 0] outside_refl by (simp add: range_sum_def)
  qed
  have "rep S2 (?m + 1) t (2 * p + 1) f"
    by (rule left_only(1) [OF assms(1) S2(3) assms(9)])
  then obtain S3 y where S3: "(if ?m < r then query l r (?m + 1) t (2 * p + 1) S2 else Some (S2, 0)) = Some (S3, y)"
      "red y = red (range_sum l r (?m + 1) t f)"
  proof (cases "?m < r")
    case True
    then show thesis
      using query_at_node [of "2 * p + 1" "?m + 1" t l r S2 f] \<open>rep S2 _ _ _ _\<close> assms(3,5) that by auto
  next
    case False
    then show thesis
      using that [of S2 0] by (simp add: range_sum_def)
  qed
  have "query l r s t p S = Some (S3, norm (norm x + y))"
    using S2(1) S3(1) assms(2-5,7) by (subst query_eq) (simp_all only: part if_False bind.bind_lunit prod.case)
  moreover have "red (norm (norm x + y)) = red (sum f {l..r})"
    using norm_red [OF S2(2) S3(2)] range_sum_split [OF assms(2), of l r f] assms(4,5)
    by (simp add: range_sum_def max_absorb1 min_absorb1)
  ultimately show ?thesis
    by blast
qed

end

section \<open>A tree in two arrays\<close>

text \<open>
  The state of \<^verbatim>\<open>seg_1.cpp\<close>, \<^verbatim>\<open>seg_3.cpp\<close>, \<^verbatim>\<open>seg_4.hpp\<close> and \<^verbatim>\<open>seg_5.hpp\<close>: the sums (\<open>d\<close> or
  \<open>tree\<close>) and the pending changes (\<open>b\<close> or \<open>lazy\<close>) in arrays of the same length. The elements are those of
  a commutative ring: the integers, or machine words with their wrap-around.
\<close>

record 'a seg =
  seg_n :: nat
  seg_d :: "nat \<Rightarrow> 'a"
  seg_b :: "nat \<Rightarrow> 'a"

definition get_d :: "nat \<Rightarrow> 'a seg \<Rightarrow> 'a option" where
  "get_d p S = peek (seg_n S) (seg_d S) p"

definition get_b :: "nat \<Rightarrow> 'a seg \<Rightarrow> 'a option" where
  "get_b p S = peek (seg_n S) (seg_b S) p"

definition put_d :: "nat \<Rightarrow> 'a \<Rightarrow> 'a seg \<Rightarrow> 'a seg option" where
  "put_d p v S = map_option (\<lambda>a. S\<lparr>seg_d := a\<rparr>) (poke (seg_n S) p v (seg_d S))"

definition put_b :: "nat \<Rightarrow> 'a \<Rightarrow> 'a seg \<Rightarrow> 'a seg option" where
  "put_b p v S = map_option (\<lambda>a. S\<lparr>seg_b := a\<rparr>) (poke (seg_n S) p v (seg_b S))"

lemma access_in [simp]:
  assumes "p < seg_n S"
  shows "get_d p S = Some (seg_d S p)" and "get_b p S = Some (seg_b S p)"
    and "put_d p v S = Some (S\<lparr>seg_d := (seg_d S)(p := v)\<rparr>)" and "put_b p v S = Some (S\<lparr>seg_b := (seg_b S)(p := v)\<rparr>)"
  using assms by (simp_all add: get_d_def get_b_def put_d_def put_b_def)

text \<open>\<open>d[p] = d[p << 1] + d[(p << 1) | 1]\<close>\<close>

definition seg_pull :: "nat \<Rightarrow> 'a::plus seg \<Rightarrow> 'a seg option" where
  "seg_pull p S = do {
     x \<leftarrow> get_d (2 * p) S;
     y \<leftarrow> get_d (2 * p + 1) S;
     put_d p (x + y) S
   }"

text \<open>\<open>build\<close>, the same in the four files, from an array \<open>a\<close> of \<open>len\<close> elements.\<close>

partial_function (option) seg_build ::
  "nat \<Rightarrow> (nat \<Rightarrow> 'a::plus) \<Rightarrow> nat \<Rightarrow> nat \<Rightarrow> nat \<Rightarrow> 'a seg \<Rightarrow> 'a seg option" where [code]:
  "seg_build len a l r p S =
     (if l = r then do { v \<leftarrow> peek len a l; put_d p v S }
      else do {
        S1 \<leftarrow> seg_build len a l (middle l r) (2 * p) S;
        S2 \<leftarrow> seg_build len a (middle l r + 1) r (2 * p + 1) S1;
        seg_pull p S2
      })"

definition seg_same_outside :: "nat set \<Rightarrow> 'a seg \<Rightarrow> 'a seg \<Rightarrow> bool" where
  "seg_same_outside A S S' =
     (seg_n S' = seg_n S \<and> (\<forall>q. q \<notin> A \<longrightarrow> seg_d S' q = seg_d S q \<and> seg_b S' q = seg_b S q))"

definition seg_clean :: "'a::zero seg \<Rightarrow> nat \<Rightarrow> bool" where
  "seg_clean S p = (p < seg_n S \<and> seg_b S p = 0)"

lemma fits_root: "fits n s t p \<Longrightarrow> p < n"
  by (subst (asm) fits.simps) simp

lemma fits_children:
  assumes "fits n s t p" and "s < t"
  shows "fits n s (middle s t) (2 * p)" "fits n (middle s t + 1) t (2 * p + 1)" "2 * p < n" "2 * p + 1 < n"
proof -
  show kids: "fits n s (middle s t) (2 * p)" "fits n (middle s t + 1) t (2 * p + 1)"
    using assms by (subst (asm) fits.simps, simp)+
  show "2 * p < n" "2 * p + 1 < n"
    using kids by (blast dest: fits_root)+
qed

lemma fits_node:
  assumes "p < n" and "s < t" and "fits n s (middle s t) (2 * p)" and "fits n (middle s t + 1) t (2 * p + 1)"
  shows "fits n s t p"
  using assms by (subst fits.simps) simp

lemma seg_outside_facts:
  "seg_same_outside A S S"
  "seg_same_outside A S S' \<Longrightarrow> seg_same_outside B S' S'' \<Longrightarrow> A \<subseteq> C \<Longrightarrow> B \<subseteq> C \<Longrightarrow> seg_same_outside C S S''"
  "seg_clean S p \<Longrightarrow> seg_same_outside A S S' \<Longrightarrow> p \<notin> A \<Longrightarrow> seg_clean S' p"
  unfolding seg_same_outside_def seg_clean_def by (simp, metis subsetD, simp)

lemma seg_pull_in:
  "2 * p + 1 < seg_n S \<Longrightarrow> p < seg_n S \<Longrightarrow>
    seg_pull p S = Some (S\<lparr>seg_d := (seg_d S)(p := seg_d S (2 * p) + seg_d S (2 * p + 1))\<rparr>)"
  by (simp add: seg_pull_def)

text \<open>\<open>build\<close> fills the sums of the tree and nothing else.\<close>

function sums_of :: "(nat \<Rightarrow> 'a::comm_monoid_add) \<Rightarrow> nat \<Rightarrow> nat \<Rightarrow> nat \<Rightarrow> (nat \<Rightarrow> 'a) \<Rightarrow> bool" where
  "sums_of d s t p f =
     (d p = sum f {s..t} \<and>
      (s < t \<longrightarrow> sums_of d s (middle s t) (2 * p) f \<and> sums_of d (middle s t + 1) t (2 * p + 1) f))"
  by auto
termination
  by (relation "measure (\<lambda>(d, s, t, p, f). t - s)") auto

declare sums_of.simps [simp del]

lemma sums_ofD:
  assumes "sums_of d s t p f"
  shows "d p = sum f {s..t}"
    and "s < t \<Longrightarrow> sums_of d s (middle s t) (2 * p) f"
    and "s < t \<Longrightarrow> sums_of d (middle s t + 1) t (2 * p + 1) f"
  using assms by (subst (asm) sums_of.simps, simp)+

lemma sums_ofI:
  assumes "d p = sum f {s..t}"
    and "s < t \<Longrightarrow> sums_of d s (middle s t) (2 * p) f"
    and "s < t \<Longrightarrow> sums_of d (middle s t + 1) t (2 * p + 1) f"
  shows "sums_of d s t p f"
  using assms by (subst sums_of.simps) simp

lemma sums_of_cong:
  assumes "sums_of d s t p f" and "\<And>q. q \<in> sub p \<Longrightarrow> d' q = d q"
  shows "sums_of d' s t p f"
  using assms
proof (induction "t - s" arbitrary: s t p rule: less_induct)
  case less
  have kids: "sums_of d' s (middle s t) (2 * p) f" "sums_of d' (middle s t + 1) t (2 * p + 1) f" if st: "s < t"
  proof -
    note k = sums_ofD(2,3) [OF less.prems(1) st]
    show "sums_of d' s (middle s t) (2 * p) f"
      by (rule less.hyps [OF _ k(1)]) (use st less.prems(2) sub_subset(1) [of p] in auto)
    show "sums_of d' (middle s t + 1) t (2 * p + 1) f"
      by (rule less.hyps [OF _ k(2)]) (use st less.prems(2) sub_subset(2) [of p] in auto)
  qed
  then show ?case
    using sums_ofI [of d' p f s t] sums_ofD(1) [OF less.prems(1)] less.prems(2) [of p] by simp
qed

lemma seg_build_sums:
  assumes "0 < p" and "s \<le> t" and "t < len" and "fits (seg_n S) s t p"
  shows "\<exists>d. seg_build len a s t p S = Some (S\<lparr>seg_d := d\<rparr>) \<and> sums_of d s t p a \<and> (\<forall>q. q \<notin> sub p \<longrightarrow> d q = seg_d S q)"
  using assms
proof (induction "t - s" arbitrary: s t p S rule: less_induct)
  case less
  show ?case
  proof (cases "s = t")
    case True
    have "sums_of ((seg_d S)(p := a s)) s s p a"
      by (rule sums_ofI) simp_all
    then show ?thesis
      using True less.prems fits_root [OF less.prems(4)]
      by (intro exI [of _ "(seg_d S)(p := a s)"]) (auto simp: seg_build.simps [of len a t t p S])
  next
    case False
    let ?m = "middle s t"
    have st: "s < t"
      using False less.prems(2) by simp
    then have mid: "?m < len" "?m - s < t - s" "t - (?m + 1) < t - s"
      using less.prems(3) by auto
    note p = less.prems(1) and f = fits_children [OF less.prems(4) st]
    obtain d1 where d1: "seg_build len a s ?m (2 * p) S = Some (S\<lparr>seg_d := d1\<rparr>)" "sums_of d1 s ?m (2 * p) a"
        "\<forall>q. q \<notin> sub (2 * p) \<longrightarrow> d1 q = seg_d S q"
      using less.hyps [OF mid(2), of "2 * p" S] st p f(1) mid(1) by auto
    obtain d2 where d2: "seg_build len a (?m + 1) t (2 * p + 1) (S\<lparr>seg_d := d1\<rparr>) = Some (S\<lparr>seg_d := d2\<rparr>)"
        "sums_of d2 (?m + 1) t (2 * p + 1) a" "\<forall>q. q \<notin> sub (2 * p + 1) \<longrightarrow> d2 q = d1 q"
      using less.hyps [OF mid(3), of "2 * p + 1" "S\<lparr>seg_d := d1\<rparr>"] middle_bounds(2) [OF st] f(2) less.prems(3) by auto
    define d where "d = d2(p := d2 (2 * p) + d2 (2 * p + 1))"
    note disj = sub_disjoint [OF p]
    have l: "sums_of d s ?m (2 * p) a"
      by (rule sums_of_cong [OF d1(2)]) (use disj d2(3) in \<open>auto simp: d_def\<close>)
    have r: "sums_of d (?m + 1) t (2 * p + 1) a"
      by (rule sums_of_cong [OF d2(2)]) (use disj in \<open>auto simp: d_def\<close>)
    have "d p = sum a {s..t}"
      using sums_ofD(1) [OF l] sums_ofD(1) [OF r] sum_middle [OF st, of a] p by (simp add: d_def)
    then have "sums_of d s t p a"
      using l r by (rule sums_ofI)
    moreover have "seg_build len a s t p S = Some (S\<lparr>seg_d := d\<rparr>)"
      using d1(1) d2(1) False f(4) fits_root [OF less.prems(4)] seg_pull_in [of p "S\<lparr>seg_d := d2\<rparr>"]
      by (simp add: seg_build.simps [of len a s t p S] d_def)
    moreover have "d q = seg_d S q" if "q \<notin> sub p" for q
    proof -
      have "q \<noteq> p" "q \<notin> sub (2 * p)" "q \<notin> sub (2 * p + 1)"
        using that sub_subset [of p] by auto
      then show ?thesis
        using d1(3) d2(3) by (simp add: d_def)
    qed
    ultimately show ?thesis
      by blast
  qed
qed

section \<open>Programs of range operations\<close>

text \<open>
  The reference for the programs: an array of cells, each operation done on all cells of its range. An
  update of the cells from \<open>l\<close> to \<open>r\<close> with \<open>c\<close>, or the sum of the cells from \<open>l\<close> to \<open>r\<close>.
\<close>

datatype 'c range_op = Update nat nat 'c | Query nat nat

fun ref_ranges :: "('c \<Rightarrow> 'a \<Rightarrow> 'a) \<Rightarrow> (nat \<Rightarrow> 'a::comm_monoid_add) \<Rightarrow> 'c range_op list \<Rightarrow> 'a list" where
  "ref_ranges act f [] = []"
| "ref_ranges act f (Update l r c # ops) = ref_ranges act (changed (act c) l r f) ops"
| "ref_ranges act f (Query l r # ops) = sum f {l..r} # ref_ranges act f ops"

text \<open>Evaluates the sum over a range of numerals.\<close>

lemma sum_range_eval: "sum f {l..r} = (if l \<le> r then f l + sum f {Suc l..r} else 0)" for l r :: nat
  by (simp add: sum.atLeast_Suc_atMost)

text \<open>The operations a program may be given: a range within \<open>{lo..hi}\<close> and an argument that is allowed.\<close>

fun op_in :: "nat \<Rightarrow> nat \<Rightarrow> ('c \<Rightarrow> bool) \<Rightarrow> 'c range_op \<Rightarrow> bool" where
  "op_in lo hi ok (Update l r c) = (lo \<le> l \<and> l \<le> r \<and> r \<le> hi \<and> ok c)"
| "op_in lo hi ok (Query l r) = (lo \<le> l \<and> l \<le> r \<and> r \<le> hi)"

text \<open>The same operations on a structure with an update and a query.\<close>

fun run_ranges ::
  "(nat \<Rightarrow> nat \<Rightarrow> 'c \<Rightarrow> 'm \<Rightarrow> 'm option) \<Rightarrow> (nat \<Rightarrow> nat \<Rightarrow> 'm \<Rightarrow> ('m \<times> 'a) option) \<Rightarrow>
     'c range_op list \<Rightarrow> 'm \<Rightarrow> 'a list option" where
  "run_ranges upd qry [] S = Some []"
| "run_ranges upd qry (Update l r c # ops) S = do { S' \<leftarrow> upd l r c S; run_ranges upd qry ops S' }"
| "run_ranges upd qry (Query l r # ops) S = do {
     (S', x) \<leftarrow> qry l r S;
     out \<leftarrow> run_ranges upd qry ops S';
     Some (x # out)
   }"

locale range_program =
  fixes upd :: "nat \<Rightarrow> nat \<Rightarrow> 'c \<Rightarrow> 'm \<Rightarrow> 'm option"
    and qry :: "nat \<Rightarrow> nat \<Rightarrow> 'm \<Rightarrow> ('m \<times> 'a::comm_monoid_add) option"
    and stands_for :: "'m \<Rightarrow> (nat \<Rightarrow> 'a) \<Rightarrow> bool" and lo hi :: nat
    and ok :: "'c \<Rightarrow> bool" and act :: "'c \<Rightarrow> 'a \<Rightarrow> 'a" and red :: "'a \<Rightarrow> 'a"
  assumes upd_law: "stands_for S f \<Longrightarrow> lo \<le> l \<Longrightarrow> l \<le> r \<Longrightarrow> r \<le> hi \<Longrightarrow> ok c \<Longrightarrow>
      \<exists>S'. upd l r c S = Some S' \<and> stands_for S' (changed (act c) l r f)"
    and qry_law: "stands_for S f \<Longrightarrow> lo \<le> l \<Longrightarrow> l \<le> r \<Longrightarrow> r \<le> hi \<Longrightarrow>
      \<exists>S' v. qry l r S = Some (S', v) \<and> red v = red (sum f {l..r}) \<and> stands_for S' f"
begin

lemma run_refines:
  assumes "stands_for S f" and "list_all (op_in lo hi ok) ops"
  shows "\<exists>out. run_ranges upd qry ops S = Some out \<and> map red out = map red (ref_ranges act f ops)"
  using assms
proof (induction ops arbitrary: S f)
  case (Cons op ops)
  show ?case
  proof (cases op)
    case (Update l r c)
    then obtain S' where "upd l r c S = Some S'" "stands_for S' (changed (act c) l r f)"
      using upd_law [of S f l r c] Cons.prems by auto
    then show ?thesis
      using Update Cons.IH Cons.prems(2) by simp
  next
    case (Query l r)
    then obtain S' v where "qry l r S = Some (S', v)" "red v = red (sum f {l..r})" "stands_for S' f"
      using qry_law [of S f l r] Cons.prems by auto
    then show ?thesis
      using Query Cons.IH [of S' f] Cons.prems(2) by auto
  qed
qed simp

end

end
