(* ===== verification/SegBeats.thy ===== *)
theory SegBeats
  imports SegTree QueryLoop
begin

text \<open>
  The program \<^verbatim>\<open>seg-beats/seg-beats_1.cpp\<close>: a segment tree for \<open>a[i] = min(a[i], v)\<close> on ranges, with maxima and sums. A node keeps its
  greatest value, the greatest value below that one and how often the greatest occurs; a change is applied to a node only if it hits
  nothing but the greatest value, else it descends. Shown: the recursion ends, stays inside the arrays, and the
  answers are those of the plain array.
\<close>

section \<open>The program\<close>

text \<open>The arrays \<open>mx\<close>, \<open>se\<close>, \<open>cn\<close>, \<open>tag\<close> and \<open>sum\<close> have \<open>N << 2\<close> elements each; here they are one array of nodes.\<close>

record bnode =
  bn_mx :: int
  bn_se :: int
  bn_cn :: int
  bn_tag :: int
  bn_sum :: int

type_synonym beats = "nat \<Rightarrow> bnode"

definition BT :: nat where
  "BT = 4 * (1000000 + 6)"

definition bt_get :: "nat \<Rightarrow> beats \<Rightarrow> bnode option" where
  "bt_get u S = peek BT S u"

definition bt_put :: "nat \<Rightarrow> (bnode \<Rightarrow> bnode) \<Rightarrow> beats \<Rightarrow> beats option" where
  "bt_put u g S = poke BT u (g (S u)) S"

definition bt_pushup :: "nat \<Rightarrow> beats \<Rightarrow> beats option" where
  "bt_pushup u S = do {
     x \<leftarrow> bt_get (2 * u) S;
     y \<leftarrow> bt_get (2 * u + 1) S;
     S \<leftarrow> bt_put u (\<lambda>n. n\<lparr>bn_sum := bn_sum x + bn_sum y\<rparr>) S;
     if bn_mx x = bn_mx y then
       bt_put u (\<lambda>n. n\<lparr>bn_mx := bn_mx y, bn_se := max (bn_se x) (bn_se y), bn_cn := bn_cn x + bn_cn y\<rparr>) S
     else if bn_mx x > bn_mx y then
       bt_put u (\<lambda>n. n\<lparr>bn_mx := bn_mx x, bn_se := max (bn_se x) (bn_mx y), bn_cn := bn_cn x\<rparr>) S
     else
       bt_put u (\<lambda>n. n\<lparr>bn_mx := bn_mx y, bn_se := max (bn_mx x) (bn_se y), bn_cn := bn_cn y\<rparr>) S
   }"

definition bt_pushtag :: "nat \<Rightarrow> int \<Rightarrow> beats \<Rightarrow> beats option" where
  "bt_pushtag u tg S = do {
     x \<leftarrow> bt_get u S;
     if bn_mx x \<le> tg then Some S
     else bt_put u (\<lambda>n. n\<lparr>bn_sum := bn_sum x + (tg - bn_mx x) * bn_cn x, bn_mx := tg, bn_tag := tg\<rparr>) S
   }"

definition bt_pushdown :: "nat \<Rightarrow> beats \<Rightarrow> beats option" where
  "bt_pushdown u S = do {
     x \<leftarrow> bt_get u S;
     if bn_tag x = - 1 then Some S
     else do {
       S \<leftarrow> bt_pushtag (2 * u) (bn_tag x) S;
       S \<leftarrow> bt_pushtag (2 * u + 1) (bn_tag x) S;
       bt_put u (\<lambda>n. n\<lparr>bn_tag := - 1\<rparr>) S
     }
   }"

partial_function (option) bt_build :: "int list \<Rightarrow> nat \<Rightarrow> nat \<Rightarrow> nat \<Rightarrow> beats \<Rightarrow> beats option" where [code]:
  "bt_build a u l r S = do {
     S \<leftarrow> bt_put u (\<lambda>n. n\<lparr>bn_tag := - 1\<rparr>) S;
     if l = r then do {
       v \<leftarrow> vec_get a l;
       bt_put u (\<lambda>n. n\<lparr>bn_sum := v, bn_mx := v, bn_se := - 1, bn_cn := 1\<rparr>) S
     }
     else do {
       let mid = (l + r) div 2;
       S \<leftarrow> bt_build a (2 * u) l mid S;
       S \<leftarrow> bt_build a (2 * u + 1) (mid + 1) r S;
       bt_pushup u S
     }
   }"

partial_function (option) modify_min :: "nat \<Rightarrow> nat \<Rightarrow> int \<Rightarrow> nat \<Rightarrow> nat \<Rightarrow> nat \<Rightarrow> beats \<Rightarrow> beats option" where [code]:
  "modify_min L R v u l r S = do {
     x \<leftarrow> bt_get u S;
     if bn_mx x \<le> v then Some S
     else if L \<le> l \<and> r \<le> R \<and> bn_se x < v then bt_pushtag u v S
     else do {
       let mid = (l + r) div 2;
       S \<leftarrow> bt_pushdown u S;
       S \<leftarrow> (if L \<le> mid then modify_min L R v (2 * u) l mid S else Some S);
       S \<leftarrow> (if mid < R then modify_min L R v (2 * u + 1) (mid + 1) r S else Some S);
       bt_pushup u S
     }
   }"

partial_function (option) bt_query_max :: "nat \<Rightarrow> nat \<Rightarrow> nat \<Rightarrow> nat \<Rightarrow> nat \<Rightarrow> beats \<Rightarrow> (beats \<times> int) option" where [code]:
  "bt_query_max L R u l r S =
     (if L \<le> l \<and> r \<le> R then do { x \<leftarrow> bt_get u S; Some (S, bn_mx x) }
      else do {
        let mid = (l + r) div 2;
        S \<leftarrow> bt_pushdown u S;
        (S, r1) \<leftarrow> (if L \<le> mid then bt_query_max L R (2 * u) l mid S else Some (S, - 1));
        (S, r2) \<leftarrow> (if mid < R then bt_query_max L R (2 * u + 1) (mid + 1) r S else Some (S, - 1));
        Some (S, max r1 r2)
      })"

partial_function (option) bt_query_sum :: "nat \<Rightarrow> nat \<Rightarrow> nat \<Rightarrow> nat \<Rightarrow> nat \<Rightarrow> beats \<Rightarrow> (beats \<times> int) option" where [code]:
  "bt_query_sum L R u l r S =
     (if L \<le> l \<and> r \<le> R then do { x \<leftarrow> bt_get u S; Some (S, bn_sum x) }
      else do {
        let mid = (l + r) div 2;
        S \<leftarrow> bt_pushdown u S;
        (S, x) \<leftarrow> (if L \<le> mid then bt_query_sum L R (2 * u) l mid S else Some (S, 0));
        (S, y) \<leftarrow> (if mid < R then bt_query_sum L R (2 * u + 1) (mid + 1) r S else Some (S, 0));
        Some (S, x + y)
      })"

datatype bt_op = ChMin nat nat int | AskMax nat nat | AskSum nat nat

fun bt_step :: "nat \<Rightarrow> beats \<Rightarrow> bt_op \<Rightarrow> (beats \<times> int list) option" where
  "bt_step n S (ChMin x y z) = map_option (\<lambda>S. (S, [])) (modify_min x y z 1 1 n S)"
| "bt_step n S (AskMax x y) = map_option (\<lambda>(S, v). (S, [v])) (bt_query_max x y 1 1 n S)"
| "bt_step n S (AskSum x y) = map_option (\<lambda>(S, v). (S, [v])) (bt_query_sum x y 1 1 n S)"

text \<open>\<open>go\<close> for the numbers and operations of one test case; the arrays keep what the test cases before left in them.\<close>

definition bt_go :: "int list \<Rightarrow> bt_op list \<Rightarrow> beats \<Rightarrow> (beats \<times> int list) option" where
  "bt_go vs ops S = do {
     S \<leftarrow> bt_build (0 # vs) 1 1 (length vs) S;
     query_loop (bt_step (length vs)) S ops
   }"

fun bt_tests :: "(int list \<times> bt_op list) list \<Rightarrow> beats \<Rightarrow> int list option" where
  "bt_tests [] S = Some []"
| "bt_tests ((vs, ops) # tests) S = do {
     (S, out) \<leftarrow> bt_go vs ops S;
     rest \<leftarrow> bt_tests tests S;
     Some (out @ rest)
   }"

definition bt_main :: "(int list \<times> bt_op list) list \<Rightarrow> int list option" where
  "bt_main tests = bt_tests tests (\<lambda>_. \<lparr>bn_mx = 0, bn_se = 0, bn_cn = 0, bn_tag = 0, bn_sum = 0\<rparr>)"

section \<open>What a node knows of its cells\<close>

text \<open>The greatest value of \<open>f\<close> on \<open>A\<close>, the greatest one below it (or -1), how often the greatest occurs, and the sum; no value is negative.\<close>

definition stats :: "(nat \<Rightarrow> int) \<Rightarrow> nat set \<Rightarrow> bnode \<Rightarrow> bool" where
  "stats f A x = ((\<forall>i \<in> A. 0 \<le> f i \<and> f i \<le> bn_mx x \<and> (f i = bn_mx x \<or> f i \<le> bn_se x)) \<and> bn_mx x \<in> f ` A \<and>
     (bn_se x = - 1 \<or> bn_se x \<in> f ` A) \<and> bn_se x < bn_mx x \<and> bn_cn x = int (card {i \<in> A. f i = bn_mx x}) \<and> bn_sum x = sum f A)"

lemma statsD:
  assumes "stats f A x"
  shows "i \<in> A \<Longrightarrow> 0 \<le> f i" "i \<in> A \<Longrightarrow> f i \<le> bn_mx x" "i \<in> A \<Longrightarrow> f i = bn_mx x \<or> f i \<le> bn_se x" "bn_mx x \<in> f ` A"
    "bn_se x = - 1 \<or> bn_se x \<in> f ` A" "bn_se x < bn_mx x" "bn_cn x = int (card {i \<in> A. f i = bn_mx x})" "bn_sum x = sum f A"
  using assms by (auto simp: stats_def)

lemma stats_cong: "stats f A x \<Longrightarrow> (\<And>i. i \<in> A \<Longrightarrow> f i = g i) \<Longrightarrow> stats g A x"
proof -
  assume 1: "stats f A x" and 2: "\<And>i. i \<in> A \<Longrightarrow> f i = g i"
  have "f ` A = g ` A" "sum f A = sum g A" "{i \<in> A. f i = bn_mx x} = {i \<in> A. g i = bn_mx x}"
    using 2 by (auto intro: image_cong sum.cong)
  then show "stats g A x"
    using 1 2 by (simp add: stats_def)
qed

lemma stats_tag_irrelevant: "stats f A (x\<lparr>bn_tag := v\<rparr>) = stats f A x"
  by (simp add: stats_def)

text \<open>Capping at a value between the two greatest ones.\<close>

lemma sum_cap:
  assumes "finite A" and "\<forall>i \<in> A. f i = m \<or> f i \<le> (v::int)" and "v < m"
  shows "(\<Sum>i\<in>A. min (f i) v) = sum f A + (v - m) * int (card {i \<in> A. f i = m})"
proof -
  have "(\<Sum>i\<in>A. min (f i) v) = (\<Sum>i\<in>A. f i + (if f i = m then v - m else 0))"
    using assms(2,3) by (intro sum.cong) auto
  also have "\<dots> = sum f A + (\<Sum>i\<in>{i \<in> A. f i = m}. v - m)"
    using assms(1) by (simp add: sum.distrib sum.If_cases Int_def)
  finally show ?thesis
    by simp
qed

lemma stats_cap:
  assumes "stats f A x" and "finite A" and "bn_se x < v" and "v < bn_mx x" and "0 \<le> v"
  shows "stats (\<lambda>i. min (f i) v) A (x\<lparr>bn_sum := bn_sum x + (v - bn_mx x) * bn_cn x, bn_mx := v, bn_tag := w\<rparr>)"
proof -
  note d = assms(1) [unfolded stats_def]
  have sum: "(\<Sum>i\<in>A. min (f i) v) = sum f A + (v - bn_mx x) * int (card {i \<in> A. f i = bn_mx x})"
    using d assms(3) by (intro sum_cap [OF assms(2) _ assms(4)]) force
  have "min (f i) v = v \<longleftrightarrow> f i = bn_mx x" if "i \<in> A" for i
    using d that assms(3,4) by fastforce
  then have top: "{i \<in> A. min (f i) v = v} = {i \<in> A. f i = bn_mx x}"
    by auto
  have "bn_se x = - 1 \<or> bn_se x \<in> (\<lambda>i. min (f i) v) ` A"
    using statsD(5) [OF assms(1)] assms(3) by force
  moreover have "v \<in> (\<lambda>i. min (f i) v) ` A"
    using d assms(4) by force
  moreover have "\<forall>i \<in> A. 0 \<le> min (f i) v \<and> min (f i) v \<le> v \<and> (min (f i) v = v \<or> min (f i) v \<le> bn_se x)"
    using d assms(3-5) by fastforce
  ultimately show ?thesis
    using d assms(3) sum top unfolding stats_def by simp
qed

text \<open>The union of two disjoint sets of cells, as \<open>pushup\<close> computes it.\<close>

lemma stats_union:
  assumes "stats f A x" and "stats f B y" and "finite A" and "finite B" and "A \<inter> B = {}" and "bn_sum z = bn_sum x + bn_sum y"
    and "bn_mx z = max (bn_mx x) (bn_mx y)"
    and "bn_se z = (if bn_mx x = bn_mx y then max (bn_se x) (bn_se y) else if bn_mx x > bn_mx y then max (bn_se x) (bn_mx y) else max (bn_mx x) (bn_se y))"
    and "bn_cn z = (if bn_mx x = bn_mx y then bn_cn x + bn_cn y else if bn_mx x > bn_mx y then bn_cn x else bn_cn y)"
  shows "stats f (A \<union> B) z"
proof -
  note x = statsD [OF assms(1)] and y = statsD [OF assms(2)]
  have "{i \<in> A \<union> B. f i = bn_mx z} = {i \<in> A. f i = bn_mx z} \<union> {i \<in> B. f i = bn_mx z}"
    by auto
  moreover have "{i \<in> A. f i = bn_mx z} \<inter> {i \<in> B. f i = bn_mx z} = {}"
    using assms(5) by auto
  ultimately have "card {i \<in> A \<union> B. f i = bn_mx z} = card {i \<in> A. f i = bn_mx z} + card {i \<in> B. f i = bn_mx z}"
    using assms(3,4) by (simp add: card_Un_disjoint)
  moreover have "bn_mx x < bn_mx y \<Longrightarrow> {i \<in> A. f i = bn_mx y} = {}" "bn_mx y < bn_mx x \<Longrightarrow> {i \<in> B. f i = bn_mx x} = {}"
    using x(2) y(2) by force+
  ultimately have "bn_cn z = int (card {i \<in> A \<union> B. f i = bn_mx z})"
    using x(7) y(7) assms(7,9) by (cases "bn_mx x" "bn_mx y" rule: linorder_cases) simp_all
  moreover have "bn_sum z = sum f (A \<union> B)"
    using x(8) y(8) assms(3-6) by (simp add: sum.union_disjoint)
  moreover have "0 \<le> f i \<and> f i \<le> bn_mx z \<and> (f i = bn_mx z \<or> f i \<le> bn_se z)" if "i \<in> A" for i
    using x(1-3) [OF that] x(6) y(6) assms(7,8) by (cases "bn_mx x" "bn_mx y" rule: linorder_cases) auto
  moreover have "0 \<le> f i \<and> f i \<le> bn_mx z \<and> (f i = bn_mx z \<or> f i \<le> bn_se z)" if "i \<in> B" for i
    using y(1-3) [OF that] x(6) y(6) assms(7,8) by (cases "bn_mx x" "bn_mx y" rule: linorder_cases) auto
  moreover have "bn_mx z \<in> f ` (A \<union> B)" "bn_se z = - 1 \<or> bn_se z \<in> f ` (A \<union> B)" "bn_se z < bn_mx z"
    using x(4-6) y(4-6) assms(7,8) by (cases "bn_mx x" "bn_mx y" rule: linorder_cases; auto simp: max_def)+
  ultimately show ?thesis
    unfolding stats_def by blast
qed

section \<open>What a tree stands for\<close>

text \<open>A cap \<open>v\<close> may be noted at a node that it does not reach, or of which it reaches the greatest value only.\<close>

definition cap_fits :: "int \<Rightarrow> bnode \<Rightarrow> bool" where
  "cap_fits v x = (bn_mx x \<le> v \<or> bn_se x < v)"

text \<open>The cap \<open>tag\<close> of a node is still to be applied to its children, whose cells are \<open>g\<close>.\<close>

definition capped :: "nat \<Rightarrow> nat \<Rightarrow> bnode \<Rightarrow> bnode \<Rightarrow> bnode \<Rightarrow> (nat \<Rightarrow> int) \<Rightarrow> (nat \<Rightarrow> int) \<Rightarrow> bool" where
  "capped s t x xl xr g f =
     (if bn_tag x = - 1 then \<forall>i \<in> {s..t}. f i = g i
      else 0 \<le> bn_tag x \<and> bn_tag x = bn_mx x \<and> (\<forall>i \<in> {s..t}. f i = min (g i) (bn_tag x)) \<and> cap_fits (bn_tag x) xl \<and> cap_fits (bn_tag x) xr)"

function bt_rep :: "beats \<Rightarrow> nat \<Rightarrow> nat \<Rightarrow> nat \<Rightarrow> (nat \<Rightarrow> int) \<Rightarrow> bool" where
  "bt_rep S s t p f = (s \<le> t \<and> fits BT s t p \<and> stats f {s..t} (S p) \<and>
     (s < t \<longrightarrow> (\<exists>g. bt_rep S s (middle s t) (2 * p) g \<and> bt_rep S (middle s t + 1) t (2 * p + 1) g \<and>
        capped s t (S p) (S (2 * p)) (S (2 * p + 1)) g f)))"
  by auto
termination
  by (relation "measure (\<lambda>(S, s, t, p, f). t - s)") auto

declare bt_rep.simps [simp del]

definition bt_clean :: "beats \<Rightarrow> nat \<Rightarrow> bool" where
  "bt_clean S p = (p < BT \<and> bn_tag (S p) = - 1)"

definition bt_same_outside :: "nat set \<Rightarrow> beats \<Rightarrow> beats \<Rightarrow> bool" where
  "bt_same_outside A S S' = (\<forall>q. q \<notin> A \<longrightarrow> S' q = S q)"

lemma bt_repD:
  assumes "bt_rep S s t p f"
  shows "s \<le> t" "fits BT s t p" "stats f {s..t} (S p)" "p < BT"
  using assms fits_root [of BT s t p] by (subst (asm) bt_rep.simps, simp)+

lemma bt_rep_kids:
  assumes "bt_rep S s t p f" and "s < t"
  obtains g where "bt_rep S s (middle s t) (2 * p) g" "bt_rep S (middle s t + 1) t (2 * p + 1) g"
    "capped s t (S p) (S (2 * p)) (S (2 * p + 1)) g f"
  using assms by (subst (asm) bt_rep.simps) blast

lemma bt_rep_leaf: "fits BT s s p \<Longrightarrow> stats f {s..s} (S p) \<Longrightarrow> bt_rep S s s p f"
  by (subst bt_rep.simps) simp

lemma bt_rep_node:
  assumes "s < t" and "stats f {s..t} (S p)" and "p < BT" and "bt_rep S s (middle s t) (2 * p) g" and "bt_rep S (middle s t + 1) t (2 * p + 1) g"
    and "capped s t (S p) (S (2 * p)) (S (2 * p + 1)) g f"
  shows "bt_rep S s t p f"
  using assms fits_node [OF assms(3,1)] bt_repD(2) by (subst bt_rep.simps) auto

lemma bt_rep_cong:
  assumes "bt_rep S s t p f" and "\<And>i. s \<le> i \<Longrightarrow> i \<le> t \<Longrightarrow> f i = g i"
  shows "bt_rep S s t p g"
proof (cases "s < t")
  case True
  obtain h where h: "bt_rep S s (middle s t) (2 * p) h" "bt_rep S (middle s t + 1) t (2 * p + 1) h" "capped s t (S p) (S (2 * p)) (S (2 * p + 1)) h f"
    using bt_rep_kids [OF assms(1) True] .
  then have "capped s t (S p) (S (2 * p)) (S (2 * p + 1)) h g"
    using assms(2) by (auto simp: capped_def split: if_splits)
  moreover have "stats g {s..t} (S p)"
    using stats_cong [OF bt_repD(3) [OF assms(1)]] assms(2) by simp
  ultimately show ?thesis
    using bt_rep_node [OF True _ bt_repD(4) [OF assms(1)] h(1,2)] by blast
next
  case False
  then show ?thesis
    using bt_repD [OF assms(1)] stats_cong [of f "{s..t}" "S p" g] assms(2) by (auto intro!: bt_rep_leaf)
qed

lemma bt_rep_outside: "bt_rep S s t p f \<Longrightarrow> bt_same_outside A S S' \<Longrightarrow> A \<inter> sub p = {} \<Longrightarrow> bt_rep S' s t p f"
proof (induction "t - s" arbitrary: s t p f rule: less_induct)
  case less
  have p: "S' q = S q" if "q \<in> sub p" for q
    using less.prems(2,3) that by (auto simp: bt_same_outside_def)
  show ?case
  proof (cases "s < t")
    case True
    obtain g where g: "bt_rep S s (middle s t) (2 * p) g" "bt_rep S (middle s t + 1) t (2 * p + 1) g" "capped s t (S p) (S (2 * p)) (S (2 * p + 1)) g f"
      using bt_rep_kids [OF less.prems(1) True] .
    have "A \<inter> sub (2 * p) = {}" "A \<inter> sub (2 * p + 1) = {}" "middle s t - s < t - s" "t - (middle s t + 1) < t - s"
      using less.prems(3) sub_subset [of p] True by auto
    then have "bt_rep S' s (middle s t) (2 * p) g" "bt_rep S' (middle s t + 1) t (2 * p + 1) g"
      using less.hyps [OF _ g(1) less.prems(2)] less.hyps [OF _ g(2) less.prems(2)] by blast+
    then show ?thesis
      using bt_rep_node [OF True _ bt_repD(4) [OF less.prems(1)]] g(3) bt_repD(3) [OF less.prems(1)] p [OF sub_self] p [OF sub_children(1)] p [OF sub_children(2)]
      by metis
  next
    case False
    then show ?thesis
      using bt_repD [OF less.prems(1)] p [OF sub_self] by (auto intro!: bt_rep_leaf)
  qed
qed

lemma bt_outside_facts:
  "bt_same_outside A S S"
  "bt_same_outside A S S' \<Longrightarrow> bt_same_outside B S' S'' \<Longrightarrow> A \<subseteq> C \<Longrightarrow> B \<subseteq> C \<Longrightarrow> bt_same_outside C S S''"
  "bt_clean S p \<Longrightarrow> bt_same_outside A S S' \<Longrightarrow> p \<notin> A \<Longrightarrow> bt_clean S' p"
  "bt_same_outside {p} S (S(p := x))"
proof -
  show "bt_same_outside A S S' \<Longrightarrow> bt_same_outside B S' S'' \<Longrightarrow> A \<subseteq> C \<Longrightarrow> B \<subseteq> C \<Longrightarrow> bt_same_outside C S S''"
    unfolding bt_same_outside_def by (metis subsetD)
qed (simp_all add: bt_same_outside_def bt_clean_def)

section \<open>Noting a cap, handing it down, pulling up\<close>

text \<open>A cap that fits a node fits its children too.\<close>

lemma cap_fits_child:
  assumes "stats f {s..t} x" and "stats g C xc" and "C \<subseteq> {s..t}" and "cap_fits (bn_tag x) xc \<or> bn_tag x = - 1"
    and "\<And>i. i \<in> C \<Longrightarrow> f i = (if bn_tag x = - 1 then g i else min (g i) (bn_tag x))" and "bn_tag x = - 1 \<or> bn_tag x = bn_mx x"
    and "bn_se x < v" and "0 \<le> v"
  shows "cap_fits v xc"
proof (rule ccontr)
  assume no: "\<not> cap_fits v xc"
  then have "bn_se xc \<noteq> - 1"
    using assms(8) by (auto simp: cap_fits_def)
  then obtain i where i: "i \<in> C" "g i = bn_se xc"
    using statsD(5) [OF assms(2)] by auto
  obtain j where j: "j \<in> C" "g j = bn_mx xc"
    using statsD(4) [OF assms(2)] by auto
  have "i \<in> {s..t}" "j \<in> {s..t}"
    using i j assms(3) by auto
  then have "f i = bn_mx x \<or> f i \<le> bn_se x" "f j \<le> bn_mx x"
    using statsD(2,3) [OF assms(1)] by auto
  then show False
    using assms(4-7) i j no statsD(6) [OF assms(2)] by (auto simp: cap_fits_def min_def split: if_splits)
qed

lemma bt_pushtag_law:
  assumes "bt_rep S s t p f" and "0 < p" and "cap_fits v (S p)" and "0 \<le> v"
  shows "\<exists>S'. bt_pushtag p v S = Some S' \<and> bt_rep S' s t p (\<lambda>i. min (f i) v) \<and> bt_same_outside {p} S S'"
proof (cases "bn_mx (S p) \<le> v")
  case True
  have "f i \<le> v" if "s \<le> i" "i \<le> t" for i
    using statsD(2) [OF bt_repD(3) [OF assms(1)], of i] True that by auto
  then have "bt_rep S s t p (\<lambda>i. min (f i) v)"
    using assms(1) by (elim bt_rep_cong) auto
  then show ?thesis
    using True bt_repD(4) [OF assms(1)] bt_outside_facts(1) by (auto simp: bt_pushtag_def bt_get_def)
next
  case False
  let ?x = "(S p)\<lparr>bn_sum := bn_sum (S p) + (v - bn_mx (S p)) * bn_cn (S p), bn_mx := v, bn_tag := v\<rparr>"
  let ?S = "S(p := ?x)" and ?f = "\<lambda>i. min (f i) v"
  note d = bt_repD [OF assms(1)]
  have v: "bn_se (S p) < v" "v < bn_mx (S p)"
    using False assms(3) by (auto simp: cap_fits_def)
  have st: "stats ?f {s..t} ?x"
    using stats_cap [OF d(3) _ v assms(4)] by simp
  have "bt_rep ?S s t p ?f"
  proof (cases "s < t")
    case True
    obtain g where g: "bt_rep S s (middle s t) (2 * p) g" "bt_rep S (middle s t + 1) t (2 * p + 1) g" "capped s t (S p) (S (2 * p)) (S (2 * p + 1)) g f"
      using bt_rep_kids [OF assms(1) True] .
    have kids: "bt_rep ?S s (middle s t) (2 * p) g" "bt_rep ?S (middle s t + 1) t (2 * p + 1) g"
      using bt_rep_outside [OF g(1) bt_outside_facts(4)] bt_rep_outside [OF g(2) bt_outside_facts(4)] sub_disjoint [OF assms(2)] by auto
    have "cap_fits v (S (2 * p))" "cap_fits v (S (2 * p + 1))"
      using cap_fits_child [OF d(3) bt_repD(3) [OF g(1)], of v] cap_fits_child [OF d(3) bt_repD(3) [OF g(2)], of v] g(3) v(1) assms(4) True
      by (auto simp: capped_def split: if_splits)
    moreover have "?f i = min (g i) v" if "i \<in> {s..t}" for i
      using g(3) that v(2) by (auto simp: capped_def split: if_splits)
    ultimately have "capped s t (?S p) (?S (2 * p)) (?S (2 * p + 1)) g ?f"
      using assms(2,4) by (simp add: capped_def)
    then show ?thesis
      using bt_rep_node [OF True _ d(4) kids, of ?f] st by simp
  next
    case False
    then show ?thesis
      using d st by (auto intro!: bt_rep_leaf)
  qed
  then show ?thesis
    using False d(4) bt_outside_facts(4) by (auto simp: bt_pushtag_def bt_get_def bt_put_def)
qed

lemma bt_push_law:
  assumes "0 < p" and "s < t" and "bt_rep S s t p f"
  shows "\<exists>S'. bt_pushdown p S = Some S' \<and> bt_rep S' s (middle s t) (2 * p) f \<and> bt_rep S' (middle s t + 1) t (2 * p + 1) f \<and>
    bt_clean S' p \<and> bt_same_outside (sub p) S S' \<and> stats f {s..t} (S' p)"
proof -
  obtain g where g: "bt_rep S s (middle s t) (2 * p) g" "bt_rep S (middle s t + 1) t (2 * p + 1) g" "capped s t (S p) (S (2 * p)) (S (2 * p + 1)) g f"
    using bt_rep_kids [OF assms(3,2)] .
  note d = bt_repD [OF assms(3)]
  show ?thesis
  proof (cases "bn_tag (S p) = - 1")
    case True
    then have "bt_rep S s (middle s t) (2 * p) f" "bt_rep S (middle s t + 1) t (2 * p + 1) f"
      using g assms(2) by (auto simp: capped_def intro: bt_rep_cong)
    then show ?thesis
      using True d bt_outside_facts(1) by (auto simp: bt_pushdown_def bt_get_def bt_clean_def)
  next
    case False
    let ?v = "bn_tag (S p)"
    have c: "0 \<le> ?v" "cap_fits ?v (S (2 * p))" "cap_fits ?v (S (2 * p + 1))" "\<forall>i \<in> {s..t}. f i = min (g i) ?v"
      using g(3) False by (auto simp: capped_def)
    obtain S1 where S1: "bt_pushtag (2 * p) ?v S = Some S1" "bt_rep S1 s (middle s t) (2 * p) (\<lambda>i. min (g i) ?v)" "bt_same_outside {2 * p} S S1"
      using bt_pushtag_law [OF g(1) _ c(2,1)] assms(1) by auto
    have r: "bt_rep S1 (middle s t + 1) t (2 * p + 1) g" "S1 (2 * p + 1) = S (2 * p + 1)" "S1 p = S p"
      using bt_rep_outside [OF g(2) S1(3)] sub_siblings [OF assms(1)] S1(3) assms(1) by (auto simp: bt_same_outside_def)
    obtain S2 where S2: "bt_pushtag (2 * p + 1) ?v S1 = Some S2" "bt_rep S2 (middle s t + 1) t (2 * p + 1) (\<lambda>i. min (g i) ?v)"
        "bt_same_outside {2 * p + 1} S1 S2"
      using bt_pushtag_law [OF r(1) _ _ c(1)] c(3) r(2) by auto
    have l: "bt_rep S2 s (middle s t) (2 * p) (\<lambda>i. min (g i) ?v)" "S2 p = S p"
      using bt_rep_outside [OF S1(2) S2(3)] sub_siblings [OF assms(1)] S2(3) r(3) assms(1) by (auto simp: bt_same_outside_def)
    let ?S = "S2(p := (S2 p)\<lparr>bn_tag := - 1\<rparr>)"
    have "bt_rep ?S s (middle s t) (2 * p) f"
      using bt_rep_cong [OF bt_rep_outside [OF l(1) bt_outside_facts(4) [of p S2]]] c(4) sub_disjoint [OF assms(1)] assms(2) by auto
    moreover have "bt_rep ?S (middle s t + 1) t (2 * p + 1) f"
      using bt_rep_cong [OF bt_rep_outside [OF S2(2) bt_outside_facts(4) [of p S2]]] c(4) sub_disjoint [OF assms(1)] assms(2) by auto
    moreover have "stats f {s..t} (?S p)"
      using d(3) l(2) by (simp add: stats_tag_irrelevant)
    moreover have "bt_same_outside (sub p) S ?S"
      using S1(3) S2(3) sub_children [of p] by (auto simp: bt_same_outside_def) metis
    ultimately show ?thesis
      using False d(4) S1(1) S2(1) by (auto simp: bt_pushdown_def bt_get_def bt_put_def bt_clean_def)
  qed
qed

lemma bt_pull_law:
  assumes "0 < p" and "s < t" and "bt_clean S p" and "bt_rep S s (middle s t) (2 * p) f" and "bt_rep S (middle s t + 1) t (2 * p + 1) f"
  shows "\<exists>S'. bt_pushup p S = Some S' \<and> bt_rep S' s t p f \<and> bt_same_outside {p} S S'"
proof -
  let ?l = "S (2 * p)" and ?r = "S (2 * p + 1)"
  define z where "z = (S p)\<lparr>bn_sum := bn_sum ?l + bn_sum ?r, bn_mx := max (bn_mx ?l) (bn_mx ?r),
    bn_se := (if bn_mx ?l = bn_mx ?r then max (bn_se ?l) (bn_se ?r) else if bn_mx ?l > bn_mx ?r then max (bn_se ?l) (bn_mx ?r) else max (bn_mx ?l) (bn_se ?r)),
    bn_cn := (if bn_mx ?l = bn_mx ?r then bn_cn ?l + bn_cn ?r else if bn_mx ?l > bn_mx ?r then bn_cn ?l else bn_cn ?r)\<rparr>"
  have "{s..t} = {s..middle s t} \<union> {middle s t + 1..t}" "{s..middle s t} \<inter> {middle s t + 1..t} = {}"
    using assms(2) by auto
  then have "stats f {s..t} z"
    using stats_union [OF bt_repD(3) [OF assms(4)] bt_repD(3) [OF assms(5)], of z] by (simp add: z_def)
  moreover have "bt_rep (S(p := z)) s (middle s t) (2 * p) f" "bt_rep (S(p := z)) (middle s t + 1) t (2 * p + 1) f"
    using bt_rep_outside [OF assms(4) bt_outside_facts(4)] bt_rep_outside [OF assms(5) bt_outside_facts(4)] sub_disjoint [OF assms(1)] by auto
  moreover have "p < BT" "bn_tag z = - 1"
    using assms(3) by (simp_all add: bt_clean_def z_def)
  ultimately have "bt_rep (S(p := z)) s t p f"
    using bt_rep_node [OF assms(2), of f "S(p := z)" p f] by (simp add: capped_def)
  moreover have "bt_pushup p S = Some (S(p := z))"
    using bt_repD(4) [OF assms(4)] bt_repD(4) [OF assms(5)] \<open>p < BT\<close>
    by (cases "bn_mx ?l" "bn_mx ?r" rule: linorder_cases) (simp_all add: bt_pushup_def bt_get_def bt_put_def z_def)
  ultimately show ?thesis
    using bt_outside_facts(4) by blast
qed

lemma bt_pull_again:
  assumes "s < t" and "bt_clean S p" and "stats f {s..t} (S p)" and "bt_rep S' s (middle s t) (2 * p) f" and "bt_rep S' (middle s t + 1) t (2 * p + 1) f"
    and "S' p = S p"
  shows "bt_rep S' s t p f"
  using bt_rep_node [OF assms(1), of f S' p f] assms by (simp add: bt_clean_def capped_def)

interpretation bt: segment_nodes bt_rep bt_clean bt_same_outside "\<lambda>s t. bt_pushdown" bt_pushup
proof unfold_locales
  show "bt_rep S s t p f \<Longrightarrow> (\<And>i. s \<le> i \<Longrightarrow> i \<le> t \<Longrightarrow> f i = g i) \<Longrightarrow> bt_rep S s t p g" for S s t p f g
    by (rule bt_rep_cong)
  show "bt_rep S s t p f \<Longrightarrow> bt_same_outside A S S' \<Longrightarrow> A \<inter> sub p = {} \<Longrightarrow> bt_rep S' s t p f" for S s t p f A S'
    by (rule bt_rep_outside)
  show "0 < p \<Longrightarrow> s < t \<Longrightarrow> bt_rep S s t p f \<Longrightarrow> \<exists>S'. bt_pushdown p S = Some S' \<and> bt_rep S' s (middle s t) (2 * p) f \<and>
      bt_rep S' (middle s t + 1) t (2 * p + 1) f \<and> bt_clean S' p \<and> bt_same_outside (sub p) S S'" for p s t S f
    using bt_push_law by blast
  show "0 < p \<Longrightarrow> s < t \<Longrightarrow> bt_clean S p \<Longrightarrow> bt_rep S s (middle s t) (2 * p) f \<Longrightarrow> bt_rep S (middle s t + 1) t (2 * p + 1) f \<Longrightarrow>
      \<exists>S'. bt_pushup p S = Some S' \<and> bt_rep S' s t p f \<and> bt_same_outside {p} S S'" for p s t S f
    by (rule bt_pull_law)
qed (fact bt_outside_facts)+

section \<open>The recursive functions\<close>

lemma bt_push_keeps:
  assumes "0 < p" and "s < t" and "bt_rep S s t p f" and "bt_pushdown p S = Some S'"
  shows "bt_rep S' s t p f"
  using bt_push_law [OF assms(1-3)] assms(2,4) bt_pull_again [of s t S' p f S'] by auto

lemma bt_pull_again_law:
  assumes "0 < p" and "s < t" and "bt_clean S p" and "bt_rep S s t p f" and "bt_rep S' s (middle s t) (2 * p) f"
    and "bt_rep S' (middle s t + 1) t (2 * p + 1) f" and "bt_same_outside (sub (2 * p) \<union> sub (2 * p + 1)) S S'"
  shows "bt_rep S' s t p f"
  using bt_pull_again [OF assms(2,3) bt_repD(3) [OF assms(4)] assms(5,6)] assms(7) sub_disjoint [OF assms(1)] by (auto simp: bt_same_outside_def)

interpretation bt_sum: range_query bt_rep bt_clean bt_same_outside "\<lambda>s t. bt_pushdown" bt_pushup "\<lambda>p S. map_option bn_sum (bt_get p S)"
  "\<lambda>l r s t p S. bt_query_sum l r p s t S" "\<lambda>x. x" "\<lambda>x. x"
proof unfold_locales
  show "bt_query_sum l r p s t S =
      (if l \<le> s \<and> t \<le> r then map_option (\<lambda>v. (S, v)) (map_option bn_sum (bt_get p S))
       else do {
         S1 \<leftarrow> bt_pushdown p S;
         (S2, x) \<leftarrow> (if l \<le> middle s t then bt_query_sum l r (2 * p) s (middle s t) S1 else Some (S1, 0));
         (S3, y) \<leftarrow> (if middle s t < r then bt_query_sum l r (2 * p + 1) (middle s t + 1) t S2 else Some (S2, 0));
         Some (S3, x + y)
       })" if "s \<le> t" for s t l r p S
    by (subst bt_query_sum.simps) (simp add: mid_middle [OF that] Let_def bind_Some_map_option option.map_comp comp_def)
  show "\<exists>v. map_option bn_sum (bt_get p S) = Some v \<and> v = sum f {s..t}" if "bt_rep S s t p f" for p S s t f
    using bt_repD(3,4) [OF that] statsD(8) by (simp add: bt_get_def)
qed (fact bt_pull_again_law bt_push_keeps | simp)+

text \<open>The greatest of some cells, or -1 for none.\<close>

definition top_of :: "(nat \<Rightarrow> int) \<Rightarrow> nat set \<Rightarrow> int" where
  "top_of f A = Max (insert (- 1) (f ` A))"

interpretation bt_max: range_fold bt_rep bt_clean bt_same_outside "\<lambda>s t. bt_pushdown" bt_pushup "\<lambda>p S. map_option bn_mx (bt_get p S)"
  "\<lambda>l r s t p S. bt_query_max l r p s t S" "- 1" max top_of "\<lambda>x. x"
proof unfold_locales
  show "bt_query_max l r p s t S =
      (if l \<le> s \<and> t \<le> r then map_option (\<lambda>v. (S, v)) (map_option bn_mx (bt_get p S))
       else do {
         S1 \<leftarrow> bt_pushdown p S;
         (S2, x) \<leftarrow> (if l \<le> middle s t then bt_query_max l r (2 * p) s (middle s t) S1 else Some (S1, - 1));
         (S3, y) \<leftarrow> (if middle s t < r then bt_query_max l r (2 * p + 1) (middle s t + 1) t S2 else Some (S2, - 1));
         Some (S3, max x y)
       })" if "s \<le> t" for s t l r p S
    by (subst bt_query_max.simps) (simp add: mid_middle [OF that] Let_def bind_Some_map_option option.map_comp comp_def)
  show "\<exists>v. map_option bn_mx (bt_get p S) = Some v \<and> v = top_of f {s..t}" if "bt_rep S s t p f" for p S s t f
  proof -
    note d = statsD [OF bt_repD(3) [OF that]]
    have "0 \<le> bn_mx (S p)"
      using d(1,4) by auto
    then have "top_of f {s..t} = bn_mx (S p)"
      unfolding top_of_def using d(2,4) by (intro Max_eqI) auto
    then show ?thesis
      using bt_repD(4) [OF that] by (simp add: bt_get_def)
  qed
  show "max x y = top_of f (A \<union> B)" if "A \<union> B \<subseteq> {s..t}" "x = top_of f A" "y = top_of f B" for s t :: nat and A B x y f
  proof -
    have fin: "finite (f ` A)" "finite (f ` B)"
      using that(1) finite_subset [of "A \<union> B" "{s..t}"] by auto
    have "insert (- 1) (f ` (A \<union> B)) = insert (- 1) (f ` A) \<union> insert (- 1) (f ` B)"
      by auto
    then show ?thesis
      unfolding that(2,3) top_of_def using fin by (metis Max_Un finite_insert insert_not_empty)
  qed
qed (fact bt_pull_again_law bt_push_keeps | simp add: top_of_def)+

lemma modify_min_ok:
  assumes "0 \<le> v" and "0 < p" and "s \<le> t" and "l \<le> t" and "s \<le> r" and "bt_rep S s t p f"
  shows "\<exists>S'. modify_min l r v p s t S = Some S' \<and> bt_rep S' s t p (changed (\<lambda>x. min x v) l r f) \<and> bt_same_outside (sub p) S S'"
  using assms(2-)
proof (induction "t - s" arbitrary: s t p S rule: less_induct)
  case less
  let ?f = "changed (\<lambda>x. min x v) l r f" and ?m = "middle s t"
  note d = bt_repD [OF less.prems(5)]
  have get: "bt_get p S = Some (S p)"
    using d(4) by (simp add: bt_get_def)
  consider "bn_mx (S p) \<le> v" | "\<not> bn_mx (S p) \<le> v" "l \<le> s \<and> t \<le> r \<and> bn_se (S p) < v" | "\<not> bn_mx (S p) \<le> v" "\<not> (l \<le> s \<and> t \<le> r \<and> bn_se (S p) < v)"
    by blast
  then show ?case
  proof cases
    case 1
    have "?f i = f i" if "s \<le> i" "i \<le> t" for i
      using statsD(2) [OF d(3), of i] 1 that by (auto simp: changed_def)
    then have "bt_rep S s t p ?f"
      using less.prems(5) by (elim bt_rep_cong) simp
    then show ?thesis
      using 1 get bt_outside_facts(1) by (subst modify_min.simps) auto
  next
    case 2
    then obtain S' where S': "bt_pushtag p v S = Some S'" "bt_rep S' s t p (\<lambda>i. min (f i) v)" "bt_same_outside {p} S S'"
      using bt_pushtag_law [OF less.prems(5,1) _ assms(1)] by (auto simp: cap_fits_def)
    have "bt_rep S' s t p ?f"
      using S'(2) by (rule bt_rep_cong) (use 2 in \<open>auto simp: changed_def\<close>)
    moreover have "bt_same_outside (sub p) S S'"
      using S'(3) bt_outside_facts(1,2) sub_subset(3) by blast
    ultimately show ?thesis
      using 2 get S'(1) by (subst modify_min.simps) auto
  next
    case 3
    have st: "s < t"
    proof (rule ccontr)
      assume "\<not> s < t"
      then have "s = t" "l \<le> s \<and> t \<le> r"
        using less.prems by auto
      moreover have "bn_se (S p) = - 1"
        using statsD(3-6) [OF d(3)] \<open>s = t\<close> by auto
      ultimately show False
        using 3(2) assms(1) by auto
    qed
    then have sizes: "?m - s < t - s" "t - (?m + 1) < t - s" "?m + 1 \<le> t"
      by auto
    note p = less.prems(1)
    obtain S1 where S1: "bt_pushdown p S = Some S1" "bt_rep S1 s ?m (2 * p) f" "bt_rep S1 (?m + 1) t (2 * p + 1) f" "bt_clean S1 p" "bt_same_outside (sub p) S S1"
      using bt_push_law [OF p st less.prems(5)] by blast
    have "\<exists>S2. (if l \<le> ?m then modify_min l r v (2 * p) s ?m S1 else Some S1) = Some S2 \<and> bt_rep S2 s ?m (2 * p) ?f \<and> bt_same_outside (sub (2 * p)) S1 S2"
    proof (cases "l \<le> ?m")
      case True
      then show ?thesis
        using less.hyps [OF sizes(1), of "2 * p" S1] S1(2) st less.prems by auto
    next
      case False
      then show ?thesis
        using bt_rep_cong [OF S1(2), of ?f] bt_outside_facts(1) by (simp add: changed_def)
    qed
    then obtain S2 where S2: "(if l \<le> ?m then modify_min l r v (2 * p) s ?m S1 else Some S1) = Some S2" "bt_rep S2 s ?m (2 * p) ?f" "bt_same_outside (sub (2 * p)) S1 S2"
      by blast
    have r2: "bt_rep S2 (?m + 1) t (2 * p + 1) f" "bt_clean S2 p"
      using bt.left_only [OF p S2(3)] S1(3,4) by blast+
    have "\<exists>S3. (if ?m < r then modify_min l r v (2 * p + 1) (?m + 1) t S2 else Some S2) = Some S3 \<and> bt_rep S3 (?m + 1) t (2 * p + 1) ?f \<and>
        bt_same_outside (sub (2 * p + 1)) S2 S3"
    proof (cases "?m < r")
      case True
      then show ?thesis
        using less.hyps [OF sizes(2) _ sizes(3), of "2 * p + 1" S2] r2(1) st less.prems by auto
    next
      case False
      then show ?thesis
        using bt_rep_cong [OF r2(1), of ?f] bt_outside_facts(1) by (simp add: changed_def)
    qed
    then obtain S3 where S3: "(if ?m < r then modify_min l r v (2 * p + 1) (?m + 1) t S2 else Some S2) = Some S3" "bt_rep S3 (?m + 1) t (2 * p + 1) ?f"
        "bt_same_outside (sub (2 * p + 1)) S2 S3"
      by blast
    have r3: "bt_rep S3 s ?m (2 * p) ?f" "bt_clean S3 p"
      using bt.right_only [OF p S3(3)] S2(2) r2(2) by blast+
    obtain S4 where S4: "bt_pushup p S3 = Some S4" "bt_rep S4 s t p ?f" "bt_same_outside {p} S3 S4"
      using bt_pull_law [OF p st r3(2,1) S3(2)] by blast
    have "bt_same_outside (sub p) S S4"
      using S1(5) S2(3) S3(3) S4(3) by (blast intro: bt.outside_left bt.outside_right bt.outside_self)
    moreover have "modify_min l r v p s t S = Some S4"
      using get 3 S1(1) S2(1) S3(1) S4(1) by (subst modify_min.simps) (simp add: mid_middle [OF less.prems(2)] Let_def, blast)
    ultimately show ?thesis
      using S4(2) by blast
  qed
qed

lemma bt_build_ok:
  assumes "l \<le> r" and "0 < p" and "fits BT l r p" and "r < length a" and "\<forall>x \<in> set a. 0 \<le> x"
  shows "\<exists>S'. bt_build a p l r S = Some S' \<and> bt_rep S' l r p (\<lambda>i. a ! i) \<and> bt_same_outside (sub p) S S'"
  using assms(1-4)
proof (induction "r - l" arbitrary: l r p S rule: less_induct)
  case less
  let ?S = "S(p := (S p)\<lparr>bn_tag := - 1\<rparr>)" and ?m = "middle l r"
  have put: "bt_put p (\<lambda>n. n\<lparr>bn_tag := - 1\<rparr>) S = Some ?S" "p < BT"
    using fits_root [OF less.prems(3)] by (simp_all add: bt_put_def)
  show ?case
  proof (cases "l = r")
    case True
    let ?x = "(?S p)\<lparr>bn_sum := a ! l, bn_mx := a ! l, bn_se := - 1, bn_cn := 1\<rparr>"
    have "0 \<le> a ! l"
      using assms(5) less.prems(4) True by simp
    moreover have "{i. i = r} = {r}"
      by auto
    ultimately have "bt_rep (?S(p := ?x)) l r p (\<lambda>i. a ! i)"
      using less.prems(3) True by (auto intro!: bt_rep_leaf simp: stats_def Collect_conv_if)
    moreover have "bt_build a p l r S = Some (?S(p := ?x))"
      using True less.prems(4) put by (subst bt_build.simps) (simp add: bt_put_def)
    moreover have "bt_same_outside (sub p) S (?S(p := ?x))"
      by (auto simp: bt_same_outside_def)
    ultimately show ?thesis
      by blast
  next
    case False
    then have st: "l < r"
      using less.prems(1) by simp
    then have sizes: "?m - l < r - l" "r - (?m + 1) < r - l" "?m + 1 \<le> r" "l \<le> ?m" "?m < length a"
      using less.prems(4) by auto
    note p = less.prems(2) and f = fits_children [OF less.prems(3) st]
    obtain S1 where S1: "bt_build a (2 * p) l ?m ?S = Some S1" "bt_rep S1 l ?m (2 * p) (\<lambda>i. a ! i)" "bt_same_outside (sub (2 * p)) ?S S1"
      using less.hyps [OF sizes(1,4) _ f(1) sizes(5), of ?S] p by auto
    obtain S2 where S2: "bt_build a (2 * p + 1) (?m + 1) r S1 = Some S2" "bt_rep S2 (?m + 1) r (2 * p + 1) (\<lambda>i. a ! i)" "bt_same_outside (sub (2 * p + 1)) S1 S2"
      using less.hyps [OF sizes(2,3) _ f(2) less.prems(4), of S1] by auto
    have "bt_clean ?S p"
      using put(2) by (simp add: bt_clean_def)
    then have "bt_clean S2 p" "bt_rep S2 l ?m (2 * p) (\<lambda>i. a ! i)"
      using bt.left_only(2) [OF p S1(3)] bt.right_only [OF p S2(3)] S1(2) by blast+
    then obtain S3 where S3: "bt_pushup p S2 = Some S3" "bt_rep S3 l r p (\<lambda>i. a ! i)" "bt_same_outside {p} S2 S3"
      using bt_pull_law [OF p st _ _ S2(2)] by blast
    have "bt_same_outside (sub p) S ?S"
      by (auto simp: bt_same_outside_def)
    then have "bt_same_outside (sub p) S S3"
      using bt.outside_self [OF bt.outside_right [OF bt.outside_left [OF _ S1(3)] S2(3)] S3(3)] by simp
    moreover have "bt_build a p l r S = Some S3"
      using put(1) False S1(1) S2(1) S3(1) by (subst bt_build.simps) (simp add: mid_middle [OF less.prems(1)] Let_def)
    ultimately show ?thesis
      using S3(2) by blast
  qed
qed

section \<open>The whole program\<close>

text \<open>The reference: a plain list; positions are counted from 1.\<close>

fun bt_ref :: "int list \<Rightarrow> bt_op \<Rightarrow> int list \<times> int list" where
  "bt_ref vs (ChMin x y z) = (take (x - 1) vs @ map (\<lambda>v. min v z) (slice x y vs) @ drop y vs, [])"
| "bt_ref vs (AskMax x y) = (vs, [Max (set (slice x y vs))])"
| "bt_ref vs (AskSum x y) = (vs, [sum_list (slice x y vs)])"

fun bt_ok :: "int list \<Rightarrow> bt_op \<Rightarrow> bool" where
  "bt_ok vs (ChMin x y z) = (1 \<le> x \<and> x \<le> y \<and> y \<le> length vs \<and> 0 \<le> z)"
| "bt_ok vs (AskMax x y) = (1 \<le> x \<and> x \<le> y \<and> y \<le> length vs)"
| "bt_ok vs (AskSum x y) = (1 \<le> x \<and> x \<le> y \<and> y \<le> length vs)"

definition bt_stands :: "nat \<Rightarrow> beats \<Rightarrow> int list \<Rightarrow> bool" where
  "bt_stands n S vs = (length vs = n \<and> (\<forall>v \<in> set vs. 0 \<le> v) \<and> bt_rep S 1 n 1 (\<lambda>i. vs ! (i - 1)))"

lemma sum_slice: "1 \<le> x \<Longrightarrow> x \<le> y \<Longrightarrow> y \<le> length vs \<Longrightarrow> sum_list (slice x y vs) = (\<Sum>i = x..y. vs ! (i - 1))" for vs :: "int list"
  by (simp add: slice_cells interv_sum_list_conv_sum_set_nat atLeastLessThanSuc_atLeastAtMost del: upt_Suc)

lemma top_slice:
  assumes "1 \<le> x" and "x \<le> y" and "y \<le> length vs" and "\<forall>v \<in> set vs. 0 \<le> v"
  shows "top_of (\<lambda>i. vs ! (i - 1)) {x..y} = Max (set (slice x y vs))"
proof -
  have "set (slice x y vs) = (\<lambda>i. vs ! (i - 1)) ` {x..y}"
    using slice_cells [OF assms(1-3)] by (simp add: atLeastLessThanSuc_atLeastAtMost del: upt_Suc)
  moreover have "set (slice x y vs) \<noteq> {}" "\<forall>v \<in> set (slice x y vs). 0 \<le> v"
    using assms unfolding calculation by auto
  then have "0 \<le> Max (set (slice x y vs))"
    using Max_in [of "set (slice x y vs)"] by simp
  then have "Max (insert (- 1) (set (slice x y vs))) = Max (set (slice x y vs))"
    using \<open>set (slice x y vs) \<noteq> {}\<close> Max_insert [of "set (slice x y vs)" "- 1"] by simp
  ultimately show ?thesis
    by (simp add: top_of_def)
qed

lemma bt_step_ok:
  assumes "bt_stands n S vs" and "bt_ok vs op"
  shows "\<exists>S'. bt_step n S op = Some (S', snd (bt_ref vs op)) \<and> bt_stands n S' (fst (bt_ref vs op))"
proof -
  have d: "length vs = n" "\<forall>v \<in> set vs. 0 \<le> v" "bt_rep S 1 n 1 (\<lambda>i. vs ! (i - 1))"
    using assms(1) by (simp_all add: bt_stands_def)
  show ?thesis
  proof (cases op)
    case (ChMin x y z)
    let ?vs = "take (x - 1) vs @ map (\<lambda>v. min v z) (slice x y vs) @ drop y vs"
    have ok: "1 \<le> x" "x \<le> y" "y \<le> n" "0 \<le> z"
      using assms(2) ChMin d(1) by auto
    obtain S' where S': "modify_min x y z 1 1 n S = Some S'" "bt_rep S' 1 n 1 (changed (\<lambda>v. min v z) x y (\<lambda>i. vs ! (i - 1)))"
      using modify_min_ok [OF ok(4) _ _ _ _ d(3), of x y] ok by auto
    have "bt_rep S' 1 n 1 (\<lambda>i. ?vs ! (i - 1))"
      using S'(2) by (rule bt_rep_cong) (use changed_cells [of x y vs] ok d(1) in auto)
    moreover have "\<forall>v \<in> set ?vs. 0 \<le> v" "length ?vs = n"
      using d(1,2) ok slice_subset [of x y vs] by (auto simp: slice_def dest: in_set_takeD in_set_dropD)
    ultimately show ?thesis
      using S'(1) ChMin by (auto simp: bt_stands_def)
  next
    case (AskMax x y)
    have ok: "1 \<le> x" "x \<le> y" "y \<le> n"
      using assms(2) AskMax d(1) by auto
    then have "{max x 1..min y n} = {x..y}"
      by (simp add: max_def min_def)
    then show ?thesis
      using bt_max.fold_at_node [OF _ _ _ _ d(3), of x y] top_slice [OF ok(1,2) _ d(2)] ok AskMax d by (auto simp: bt_stands_def)
  next
    case (AskSum x y)
    have ok: "1 \<le> x" "x \<le> y" "y \<le> n"
      using assms(2) AskSum d(1) by auto
    then have "{max x 1..min y n} = {x..y}"
      by (simp add: max_def min_def)
    then show ?thesis
      using bt_sum.query_at_node [OF _ _ _ _ d(3), of x y] sum_slice [OF ok(1,2)] ok AskSum d by (auto simp: bt_stands_def range_sum_def)
  qed
qed

interpretation btp: query_program "bt_step n" bt_ref bt_ok "bt_stands n"
  by unfold_locales (rule bt_step_ok)

lemma fits_BT:
  assumes "1 \<le> n" and "n \<le> 1000006"
  shows "fits BT 1 n 1"
proof -
  obtain k where "n \<le> 2 ^ k" "2 ^ k < 2 * n"
    using power_above [of n] assms(1) by auto
  then show ?thesis
    using assms by (intro fits_power [of _ _ k]) (auto simp: BT_def)
qed

fun bt_test_ok :: "int list \<times> bt_op list \<Rightarrow> bool" where
  "bt_test_ok (vs, ops) = (vs \<noteq> [] \<and> length vs < 1000006 \<and> list_all (\<lambda>v. 0 \<le> v) vs \<and> all_ok bt_ok bt_ref vs ops)"

lemma bt_go_ok:
  assumes "bt_test_ok (vs, ops)"
  shows "\<exists>S'. bt_go vs ops S = Some (S', ref_loop bt_ref vs ops)"
proof -
  have vs: "1 \<le> length vs" "length vs \<le> 1000006" "\<forall>v \<in> set vs. 0 \<le> v" "all_ok bt_ok bt_ref vs ops"
    using assms by (auto simp: list_all_iff Suc_le_eq)
  obtain S1 where S1: "bt_build (0 # vs) 1 1 (length vs) S = Some S1" "bt_rep S1 1 (length vs) 1 (\<lambda>i. (0 # vs) ! i)"
    using bt_build_ok [OF vs(1) _ fits_BT [OF vs(1,2)], of "0 # vs" S] vs(3) by auto
  have "bt_rep S1 1 (length vs) 1 (\<lambda>i. vs ! (i - 1))"
    using S1(2) by (rule bt_rep_cong) (simp add: nth_Cons')
  then have "bt_stands (length vs) S1 vs"
    using vs(3) by (simp add: bt_stands_def)
  then show ?thesis
    using btp.loop_ok [OF _ vs(4)] S1(1) by (auto simp: bt_go_def)
qed

text \<open>
  C18. For test cases of 1 to 1000005 non-negative numbers with operations on positions inside, the program \<^verbatim>\<open>seg-beats_1.cpp\<close> ends,
  stays inside its arrays, and prints the maxima and sums of the plain list on which every cell of a range is replaced by the
  smaller of itself and the given number.
\<close>

theorem seg_beats_correct:
  assumes "list_all bt_test_ok tests"
  shows "bt_main tests = Some (concat (map (\<lambda>(vs, ops). ref_loop bt_ref vs ops) tests))"
proof -
  have "bt_tests tests S = Some (concat (map (\<lambda>(vs, ops). ref_loop bt_ref vs ops) tests))" for S
    using assms
  proof (induction tests arbitrary: S)
    case (Cons test tests)
    obtain vs ops where test: "test = (vs, ops)"
      by (cases test)
    obtain S' where "bt_go vs ops S = Some (S', ref_loop bt_ref vs ops)"
      using bt_go_ok [of vs ops S] Cons.prems test by auto
    then show ?case
      using Cons.IH [of S'] Cons.prems test by simp
  qed simp
  then show ?thesis
    by (simp add: bt_main_def)
qed

theorem seg_beats_correct_witness:
  "bt_main [([1, 2, 3, 4, 5], [AskMax 1 5, ChMin 3 5 3, AskSum 1 5, AskMax 4 5]), ([7], [AskSum 1 1])] = Some [5, 12, 3, 7]"
  using seg_beats_correct [of "[([1, 2, 3, 4, 5], [AskMax 1 5, ChMin 3 5 3, AskSum 1 5, AskMax 4 5]), ([7], [AskSum 1 1])]"]
  by (simp add: slice_def)

end
