(* ===== verification/HistoricMax.thy ===== *)
theory HistoricMax
  imports SegTree QueryLoop
begin

text \<open>
  The program \<^verbatim>\<open>seg-beats/seg-beats_3.cpp\<close>: a segment tree for additions to and assignments of ranges that answers the greatest value
  of a range now and the greatest one it has ever had. A change is noted at a node twice: what it comes to, and the most it
  came to on the way; additions are noted before an assignment, after it they are added to the assigned value. The numbers are
  32 bits wide and a sum that leaves them has no result. Shown: the answers are those of plain
  cells that remember their greatest value, and no sum overflows as long as the cells stay below \<open>2 ^ 30\<close> in size.
\<close>

section \<open>The program\<close>

definition INT_MIN :: int where
  "INT_MIN = - 2147483648"

text \<open>The \<open>+\<close> of \<open>int\<close>: an overflow is undefined.\<close>

definition int_plus :: "int \<Rightarrow> int \<Rightarrow> int option" where
  "int_plus x y = (if INT_MIN \<le> x + y \<and> x + y < 2147483648 then Some (x + y) else None)"

text \<open>\<open>struct Tree\<close>; the fields that start with an underscore end in \<open>h\<close> here.\<close>

record htree =
  ht_mx :: int
  ht_mxh :: int
  ht_ad :: int
  ht_adh :: int
  ht_st :: int
  ht_sth :: int

type_synonym hmem = "nat \<Rightarrow> htree"

definition HN :: nat where
  "HN = 4 * (100000 + 7)"

definition ht_get :: "nat \<Rightarrow> hmem \<Rightarrow> htree option" where
  "ht_get u S = peek HN S u"

definition ht_put :: "nat \<Rightarrow> (htree \<Rightarrow> htree) \<Rightarrow> hmem \<Rightarrow> hmem option" where
  "ht_put u g S = poke HN u (g (S u)) S"

definition ht_pushup :: "nat \<Rightarrow> hmem \<Rightarrow> hmem option" where
  "ht_pushup u S = do {
     x \<leftarrow> ht_get (2 * u) S;
     y \<leftarrow> ht_get (2 * u + 1) S;
     ht_put u (\<lambda>n. n\<lparr>ht_mx := max (ht_mx x) (ht_mx y), ht_mxh := max (ht_mxh x) (ht_mxh y)\<rparr>) S
   }"

definition ht_pushadd :: "nat \<Rightarrow> int \<Rightarrow> int \<Rightarrow> hmem \<Rightarrow> hmem option" where
  "ht_pushadd u v w S = do {
     x \<leftarrow> ht_get u S;
     h \<leftarrow> int_plus (ht_mx x) w;
     m \<leftarrow> int_plus (ht_mx x) v;
     S \<leftarrow> ht_put u (\<lambda>n. n\<lparr>ht_mxh := max (ht_mxh n) h, ht_mx := m\<rparr>) S;
     if ht_st x = INT_MIN then do {
       h \<leftarrow> int_plus (ht_ad x) w;
       a \<leftarrow> int_plus (ht_ad x) v;
       ht_put u (\<lambda>n. n\<lparr>ht_adh := max (ht_adh n) h, ht_ad := a\<rparr>) S
     }
     else do {
       h \<leftarrow> int_plus (ht_st x) w;
       a \<leftarrow> int_plus (ht_st x) v;
       ht_put u (\<lambda>n. n\<lparr>ht_sth := max (ht_sth n) h, ht_st := a\<rparr>) S
     }
   }"

definition ht_pushset :: "nat \<Rightarrow> int \<Rightarrow> int \<Rightarrow> hmem \<Rightarrow> hmem option" where
  "ht_pushset u v w S =
     ht_put u (\<lambda>n. n\<lparr>ht_mxh := max (ht_mxh n) w, ht_mx := v, ht_sth := max (ht_sth n) w, ht_st := v\<rparr>) S"

definition ht_pushdown :: "nat \<Rightarrow> hmem \<Rightarrow> hmem option" where
  "ht_pushdown u S = do {
     x \<leftarrow> ht_get u S;
     S \<leftarrow> (if ht_ad x \<noteq> 0 \<or> ht_adh x \<noteq> 0 then do {
         S \<leftarrow> ht_pushadd (2 * u) (ht_ad x) (ht_adh x) S;
         S \<leftarrow> ht_pushadd (2 * u + 1) (ht_ad x) (ht_adh x) S;
         ht_put u (\<lambda>n. n\<lparr>ht_adh := 0, ht_ad := 0\<rparr>) S
       } else Some S);
     x \<leftarrow> ht_get u S;
     if ht_st x \<noteq> INT_MIN \<or> ht_sth x \<noteq> INT_MIN then do {
       S \<leftarrow> ht_pushset (2 * u) (ht_st x) (ht_sth x) S;
       S \<leftarrow> ht_pushset (2 * u + 1) (ht_st x) (ht_sth x) S;
       ht_put u (\<lambda>n. n\<lparr>ht_sth := INT_MIN, ht_st := INT_MIN\<rparr>) S
     }
     else Some S
   }"

partial_function (option) ht_build :: "int list \<Rightarrow> nat \<Rightarrow> nat \<Rightarrow> nat \<Rightarrow> hmem \<Rightarrow> hmem option" where [code]:
  "ht_build a u l r S = do {
     S \<leftarrow> ht_put u (\<lambda>n. n\<lparr>ht_st := INT_MIN, ht_sth := INT_MIN\<rparr>) S;
     if l = r then do {
       v \<leftarrow> vec_get a l;
       ht_put u (\<lambda>n. n\<lparr>ht_mx := v, ht_mxh := v\<rparr>) S
     }
     else do {
       S \<leftarrow> ht_build a (2 * u) l ((l + r) div 2) S;
       S \<leftarrow> ht_build a (2 * u + 1) ((l + r) div 2 + 1) r S;
       ht_pushup u S
     }
   }"

text \<open>The globals \<open>L\<close> and \<open>R\<close> are arguments of the functions that read them.\<close>

partial_function (option) ht_add :: "nat \<Rightarrow> nat \<Rightarrow> int \<Rightarrow> nat \<Rightarrow> nat \<Rightarrow> nat \<Rightarrow> hmem \<Rightarrow> hmem option" where [code]:
  "ht_add L R v u l r S =
     (if R < l \<or> r < L then Some S
      else if L \<le> l \<and> r \<le> R then ht_pushadd u v (max v 0) S
      else do {
        S \<leftarrow> ht_pushdown u S;
        S \<leftarrow> ht_add L R v (2 * u) l ((l + r) div 2) S;
        S \<leftarrow> ht_add L R v (2 * u + 1) ((l + r) div 2 + 1) r S;
        ht_pushup u S
      })"

partial_function (option) ht_tset :: "nat \<Rightarrow> nat \<Rightarrow> int \<Rightarrow> nat \<Rightarrow> nat \<Rightarrow> nat \<Rightarrow> hmem \<Rightarrow> hmem option" where [code]:
  "ht_tset L R v u l r S =
     (if R < l \<or> r < L then Some S
      else if L \<le> l \<and> r \<le> R then ht_pushset u v v S
      else do {
        S \<leftarrow> ht_pushdown u S;
        S \<leftarrow> ht_tset L R v (2 * u) l ((l + r) div 2) S;
        S \<leftarrow> ht_tset L R v (2 * u + 1) ((l + r) div 2 + 1) r S;
        ht_pushup u S
      })"

partial_function (option) ht_qmax :: "nat \<Rightarrow> nat \<Rightarrow> nat \<Rightarrow> nat \<Rightarrow> nat \<Rightarrow> hmem \<Rightarrow> (hmem \<times> int) option" where [code]:
  "ht_qmax L R u l r S =
     (if R < l \<or> r < L then Some (S, INT_MIN)
      else if L \<le> l \<and> r \<le> R then do { x \<leftarrow> ht_get u S; Some (S, ht_mx x) }
      else do {
        S \<leftarrow> ht_pushdown u S;
        (S, x) \<leftarrow> ht_qmax L R (2 * u) l ((l + r) div 2) S;
        (S, y) \<leftarrow> ht_qmax L R (2 * u + 1) ((l + r) div 2 + 1) r S;
        Some (S, max x y)
      })"

partial_function (option) ht_qmaxh :: "nat \<Rightarrow> nat \<Rightarrow> nat \<Rightarrow> nat \<Rightarrow> nat \<Rightarrow> hmem \<Rightarrow> (hmem \<times> int) option" where [code]:
  "ht_qmaxh L R u l r S =
     (if R < l \<or> r < L then Some (S, INT_MIN)
      else if L \<le> l \<and> r \<le> R then do { x \<leftarrow> ht_get u S; Some (S, ht_mxh x) }
      else do {
        S \<leftarrow> ht_pushdown u S;
        (S, x) \<leftarrow> ht_qmaxh L R (2 * u) l ((l + r) div 2) S;
        (S, y) \<leftarrow> ht_qmaxh L R (2 * u + 1) ((l + r) div 2 + 1) r S;
        Some (S, max x y)
      })"

datatype ht_op = OpQ nat nat | OpA nat nat | OpP nat nat int | OpC nat nat int

fun ht_step :: "nat \<Rightarrow> hmem \<Rightarrow> ht_op \<Rightarrow> (hmem \<times> int list) option" where
  "ht_step n S (OpQ L R) = map_option (\<lambda>(S, v). (S, [v])) (ht_qmax L R 1 1 n S)"
| "ht_step n S (OpA L R) = map_option (\<lambda>(S, v). (S, [v])) (ht_qmaxh L R 1 1 n S)"
| "ht_step n S (OpP L R v) = map_option (\<lambda>S. (S, [])) (ht_add L R v 1 1 n S)"
| "ht_step n S (OpC L R v) = map_option (\<lambda>S. (S, [])) (ht_tset L R v 1 1 n S)"

definition ht_zero :: htree where
  "ht_zero = \<lparr>ht_mx = 0, ht_mxh = 0, ht_ad = 0, ht_adh = 0, ht_st = 0, ht_sth = 0\<rparr>"

text \<open>\<open>main\<close> for the numbers and operations read; \<open>a[0]\<close> is not used.\<close>

definition ht_main :: "int list \<Rightarrow> ht_op list \<Rightarrow> int list option" where
  "ht_main vs ops = do {
     S \<leftarrow> ht_build (0 # vs) 1 1 (length vs) (\<lambda>_. ht_zero);
     (S, out) \<leftarrow> query_loop (ht_step (length vs)) S ops;
     Some out
   }"

section \<open>Cells that remember\<close>

text \<open>A cell is its value and the greatest value it has had. \<open>v\<close> is what a series of changes comes to, \<open>w\<close> the most on the way.\<close>

type_synonym cell = "int \<times> int"

definition fair :: "cell \<Rightarrow> bool" where
  "fair c = (- (2 ^ 30) < fst c \<and> fst c \<le> snd c \<and> snd c < 2 ^ 30)"

definition raised :: "int \<Rightarrow> int \<Rightarrow> cell \<Rightarrow> cell" where
  "raised v w c = (fst c + v, max (snd c) (fst c + w))"

definition become :: "int \<Rightarrow> int \<Rightarrow> cell \<Rightarrow> cell" where
  "become v w c = (v, max (snd c) w)"

definition raised_ok :: "int \<Rightarrow> int \<Rightarrow> cell \<Rightarrow> bool" where
  "raised_ok v w c = (- (2 ^ 30) < fst c + v \<and> v \<le> w \<and> 0 \<le> w \<and> fst c + w < 2 ^ 30)"

definition become_ok :: "int \<Rightarrow> int \<Rightarrow> bool" where
  "become_ok v w = (- (2 ^ 30) < v \<and> v \<le> w \<and> w < 2 ^ 30)"

lemmas cell_defs = fair_def raised_def become_def raised_ok_def become_ok_def

lemma raised_fair: "fair c \<Longrightarrow> raised_ok v w c \<Longrightarrow> fair (raised v w c)"
  by (auto simp: cell_defs)

lemma become_fair: "fair c \<Longrightarrow> become_ok v w \<Longrightarrow> fair (become v w c)"
  by (auto simp: cell_defs)

lemma raised_none: "fair c \<Longrightarrow> raised 0 0 c = c"
  by (auto simp: cell_defs prod_eq_iff)

text \<open>What the marks of a node do to a cell below it.\<close>

definition marked :: "htree \<Rightarrow> cell \<Rightarrow> cell" where
  "marked x c = (let c = raised (ht_ad x) (ht_adh x) c in if ht_st x = INT_MIN then c else become (ht_st x) (ht_sth x) c)"

definition marks_ok :: "htree \<Rightarrow> cell \<Rightarrow> bool" where
  "marks_ok x c = (fair c \<and> raised_ok (ht_ad x) (ht_adh x) c \<and>
     (if ht_st x = INT_MIN then ht_sth x = INT_MIN else become_ok (ht_st x) (ht_sth x)))"

lemma marked_fair: "marks_ok x c \<Longrightarrow> fair (marked x c)"
  by (auto simp: marks_ok_def marked_def Let_def intro: raised_fair become_fair)

definition no_marks :: "htree \<Rightarrow> bool" where
  "no_marks x = (ht_ad x = 0 \<and> ht_adh x = 0 \<and> ht_st x = INT_MIN \<and> ht_sth x = INT_MIN)"

lemma no_marks: "no_marks x \<Longrightarrow> fair c \<Longrightarrow> marks_ok x c \<and> marked x c = c"
  by (auto simp: no_marks_def marks_ok_def marked_def raised_none) (simp add: cell_defs)

text \<open>The greatest values a node keeps.\<close>

definition tops :: "(nat \<Rightarrow> cell) \<Rightarrow> nat set \<Rightarrow> htree \<Rightarrow> bool" where
  "tops f A x = ((\<forall>i \<in> A. fst (f i) \<le> ht_mx x \<and> snd (f i) \<le> ht_mxh x) \<and> ht_mx x \<in> fst ` f ` A \<and> ht_mxh x \<in> snd ` f ` A)"

lemma tops_raised:
  assumes "tops f A x" and "ht_mx y = ht_mx x + v" and "ht_mxh y = max (ht_mxh x) (ht_mx x + w)"
  shows "tops (\<lambda>i. raised v w (f i)) A y"
proof -
  obtain i j where ij: "i \<in> A" "ht_mx x = fst (f i)" "j \<in> A" "ht_mxh x = snd (f j)"
    using assms(1) by (auto simp: tops_def)
  moreover have "snd (f i) \<le> snd (f j)" "fst (f j) \<le> fst (f i)"
    using assms(1) ij by (auto simp: tops_def)
  ultimately have "ht_mxh y = snd (raised v w (f i)) \<or> ht_mxh y = snd (raised v w (f j))"
    using assms(3) by (auto simp: raised_def max_def)
  then have "ht_mxh y \<in> snd ` (\<lambda>i. raised v w (f i)) ` A"
    using ij(1,3) by auto
  moreover have "ht_mx y = fst (raised v w (f i))"
    using assms(2) ij(2) by (simp add: raised_def)
  then have "ht_mx y \<in> fst ` (\<lambda>i. raised v w (f i)) ` A"
    using ij(1) by auto
  ultimately show ?thesis
    using assms unfolding tops_def by (auto simp: raised_def max_def split: if_splits)
qed

lemma tops_become:
  assumes "tops f A x" and "ht_mx y = v" and "ht_mxh y = max (ht_mxh x) w"
  shows "tops (\<lambda>i. become v w (f i)) A y"
proof -
  obtain j where j: "j \<in> A" "ht_mxh x = snd (f j)"
    using assms(1) by (auto simp: tops_def)
  then have "ht_mxh y = snd (become v w (f j))" "ht_mx y = fst (become v w (f j))"
    using assms(2,3) by (auto simp: become_def)
  then show ?thesis
    using assms j unfolding tops_def by (auto simp: become_def image_iff)
qed

lemma tops_union:
  assumes "tops f A x" and "tops f B y" and "ht_mx z = max (ht_mx x) (ht_mx y)" and "ht_mxh z = max (ht_mxh x) (ht_mxh y)"
  shows "tops f (A \<union> B) z"
proof -
  have "ht_mx z = ht_mx x \<or> ht_mx z = ht_mx y" "ht_mxh z = ht_mxh x \<or> ht_mxh z = ht_mxh y"
    using assms(3,4) by auto
  then have "ht_mx z \<in> fst ` f ` (A \<union> B)" "ht_mxh z \<in> snd ` f ` (A \<union> B)"
    using assms(1,2) unfolding tops_def image_Un by auto
  moreover have "\<forall>i \<in> A \<union> B. fst (f i) \<le> ht_mx z \<and> snd (f i) \<le> ht_mxh z"
    using assms unfolding tops_def by fastforce
  ultimately show ?thesis
    unfolding tops_def by blast
qed

lemma tops_cong: "tops f A x \<Longrightarrow> (\<And>i. i \<in> A \<Longrightarrow> f i = g i) \<Longrightarrow> ht_mx y = ht_mx x \<Longrightarrow> ht_mxh y = ht_mxh x \<Longrightarrow> tops g A y"
  unfolding tops_def by (metis (no_types, lifting) image_cong)

section \<open>What a tree stands for\<close>

text \<open>The cells \<open>f\<close> of a node are the cells \<open>g\<close> below it with its marks applied; a leaf keeps marks as well.\<close>

definition below :: "nat \<Rightarrow> nat \<Rightarrow> htree \<Rightarrow> (nat \<Rightarrow> cell) \<Rightarrow> (nat \<Rightarrow> cell) \<Rightarrow> bool" where
  "below s t x g f = (\<forall>i \<in> {s..t}. marks_ok x (g i) \<and> f i = marked x (g i))"

lemma belowD: "below s t x g f \<Longrightarrow> s \<le> i \<Longrightarrow> i \<le> t \<Longrightarrow> marks_ok x (g i) \<and> f i = marked x (g i)"
  by (simp add: below_def)

function ht_rep :: "hmem \<Rightarrow> nat \<Rightarrow> nat \<Rightarrow> nat \<Rightarrow> (nat \<Rightarrow> cell) \<Rightarrow> bool" where
  "ht_rep S s t p f = (s \<le> t \<and> fits HN s t p \<and> tops f {s..t} (S p) \<and>
     (\<exists>g. below s t (S p) g f \<and>
       (s < t \<longrightarrow> ht_rep S s (middle s t) (2 * p) g \<and> ht_rep S (middle s t + 1) t (2 * p + 1) g)))"
  by auto
termination
  by (relation "measure (\<lambda>(S, s, t, p, f). t - s)") auto

declare ht_rep.simps [simp del]

definition ht_clean :: "hmem \<Rightarrow> nat \<Rightarrow> bool" where
  "ht_clean S p = (p < HN \<and> no_marks (S p))"

definition ht_same_outside :: "nat set \<Rightarrow> hmem \<Rightarrow> hmem \<Rightarrow> bool" where
  "ht_same_outside A S S' = (\<forall>q. q \<notin> A \<longrightarrow> S' q = S q)"

lemma ht_outside_facts:
  "ht_same_outside A S S"
  "ht_same_outside A S S' \<Longrightarrow> ht_same_outside B S' S'' \<Longrightarrow> A \<subseteq> C \<Longrightarrow> B \<subseteq> C \<Longrightarrow> ht_same_outside C S S''"
  "ht_clean S p \<Longrightarrow> ht_same_outside A S S' \<Longrightarrow> p \<notin> A \<Longrightarrow> ht_clean S' p"
  "ht_same_outside {p} S (S(p := x))"
proof -
  show "ht_same_outside A S S' \<Longrightarrow> ht_same_outside B S' S'' \<Longrightarrow> A \<subseteq> C \<Longrightarrow> B \<subseteq> C \<Longrightarrow> ht_same_outside C S S''"
    unfolding ht_same_outside_def by (metis subsetD)
qed (simp_all add: ht_same_outside_def ht_clean_def)

lemma ht_repD:
  assumes "ht_rep S s t p f"
  shows "s \<le> t" "fits HN s t p" "tops f {s..t} (S p)" "p < HN"
  using assms fits_root [of HN s t p] by (subst (asm) ht_rep.simps, simp)+

lemma ht_rep_kids:
  assumes "ht_rep S s t p f"
  obtains g where "below s t (S p) g f" "s < t \<Longrightarrow> ht_rep S s (middle s t) (2 * p) g" "s < t \<Longrightarrow> ht_rep S (middle s t + 1) t (2 * p + 1) g"
  using assms by (subst (asm) ht_rep.simps) blast

lemma ht_rep_node:
  assumes "s \<le> t" and "fits HN s t p" and "tops f {s..t} (S p)" and "below s t (S p) g f"
    and "s < t \<Longrightarrow> ht_rep S s (middle s t) (2 * p) g" and "s < t \<Longrightarrow> ht_rep S (middle s t + 1) t (2 * p + 1) g"
  shows "ht_rep S s t p f"
  using assms by (subst ht_rep.simps) blast

lemma ht_rep_fair: "ht_rep S s t p f \<Longrightarrow> s \<le> i \<Longrightarrow> i \<le> t \<Longrightarrow> fair (f i)"
  by (erule ht_rep_kids, drule (2) belowD) (simp add: marked_fair)

lemma ht_rep_cong:
  assumes "ht_rep S s t p f" and "\<And>i. s \<le> i \<Longrightarrow> i \<le> t \<Longrightarrow> f i = g i"
  shows "ht_rep S s t p g"
proof -
  obtain h where h: "below s t (S p) h f" "s < t \<Longrightarrow> ht_rep S s (middle s t) (2 * p) h" "s < t \<Longrightarrow> ht_rep S (middle s t + 1) t (2 * p + 1) h"
    using ht_rep_kids [OF assms(1)] by blast
  have "tops g {s..t} (S p)" "below s t (S p) h g"
    using tops_cong [OF ht_repD(3) [OF assms(1)], of g] h(1) assms(2) by (auto simp: below_def)
  then show ?thesis
    using ht_rep_node [OF ht_repD(1,2) [OF assms(1)] _ _ h(2,3)] by blast
qed

lemma ht_rep_outside: "ht_rep S s t p f \<Longrightarrow> ht_same_outside A S S' \<Longrightarrow> A \<inter> sub p = {} \<Longrightarrow> ht_rep S' s t p f"
proof (induction "t - s" arbitrary: s t p f rule: less_induct)
  case less
  have p: "S' p = S p"
    using less.prems(2,3) sub_self [of p] by (auto simp: ht_same_outside_def)
  obtain g where g: "below s t (S p) g f" "s < t \<Longrightarrow> ht_rep S s (middle s t) (2 * p) g" "s < t \<Longrightarrow> ht_rep S (middle s t + 1) t (2 * p + 1) g"
    using ht_rep_kids [OF less.prems(1)] by blast
  have "A \<inter> sub (2 * p) = {}" "A \<inter> sub (2 * p + 1) = {}" "s < t \<Longrightarrow> middle s t - s < t - s" "s < t \<Longrightarrow> t - (middle s t + 1) < t - s"
    using less.prems(3) sub_subset [of p] by auto
  then have "s < t \<Longrightarrow> ht_rep S' s (middle s t) (2 * p) g" "s < t \<Longrightarrow> ht_rep S' (middle s t + 1) t (2 * p + 1) g"
    using less.hyps [OF _ g(2) less.prems(2)] less.hyps [OF _ g(3) less.prems(2)] by blast+
  then show ?case
    using ht_rep_node [of s t p f S' g] g(1) ht_repD [OF less.prems(1)] p by simp
qed

text \<open>Only node \<open>p\<close> itself changes.\<close>

lemma ht_rep_upd:
  assumes "ht_rep S s t p f" and "0 < p" and "tops f' {s..t} x" and "\<And>g. below s t (S p) g f \<Longrightarrow> below s t x g f'"
  shows "ht_rep (S(p := x)) s t p f'"
proof -
  obtain g where g: "below s t (S p) g f" "s < t \<Longrightarrow> ht_rep S s (middle s t) (2 * p) g" "s < t \<Longrightarrow> ht_rep S (middle s t + 1) t (2 * p + 1) g"
    using ht_rep_kids [OF assms(1)] by blast
  have "s < t \<Longrightarrow> ht_rep (S(p := x)) s (middle s t) (2 * p) g" "s < t \<Longrightarrow> ht_rep (S(p := x)) (middle s t + 1) t (2 * p + 1) g"
    using ht_rep_outside [OF g(2) ht_outside_facts(4)] ht_rep_outside [OF g(3) ht_outside_facts(4)] sub_disjoint [OF assms(2)] by auto
  then show ?thesis
    using ht_rep_node [of s t p f' "S(p := x)" g] ht_repD [OF assms(1)] assms(3,4) g(1) by simp
qed

section \<open>Noting a change, handing it down, pulling up\<close>

lemma below_raised:
  assumes "marks_ok x c" and "raised_ok v w (marked x c)"
    and "y = (if ht_st x = INT_MIN then x\<lparr>ht_mxh := h, ht_mx := m, ht_adh := max (ht_adh x) (ht_ad x + w), ht_ad := ht_ad x + v\<rparr>
      else x\<lparr>ht_mxh := h, ht_mx := m, ht_sth := max (ht_sth x) (ht_st x + w), ht_st := ht_st x + v\<rparr>)"
  shows "marks_ok y c \<and> raised v w (marked x c) = marked y c"
  using assms by (cases c) (auto simp: marks_ok_def marked_def cell_defs INT_MIN_def Let_def max_def split: if_splits)

lemma below_become:
  assumes "marks_ok x c" and "become_ok v w"
  shows "marks_ok (x\<lparr>ht_mxh := h, ht_mx := m, ht_sth := max (ht_sth x) w, ht_st := v\<rparr>) c \<and>
    become v w (marked x c) = marked (x\<lparr>ht_mxh := h, ht_mx := m, ht_sth := max (ht_sth x) w, ht_st := v\<rparr>) c"
  using assms by (cases c) (auto simp: marks_ok_def marked_def cell_defs INT_MIN_def Let_def max_def split: if_splits)

text \<open>The sums \<open>pushadd\<close> computes are differences and sizes of cells.\<close>

lemma int_plus_fair:
  assumes "marks_ok x c" and "raised_ok v w (marked x c)"
  shows "ht_st x = INT_MIN \<Longrightarrow> int_plus (ht_ad x) v = Some (ht_ad x + v)" "ht_st x = INT_MIN \<Longrightarrow> int_plus (ht_ad x) w = Some (ht_ad x + w)"
    "ht_st x \<noteq> INT_MIN \<Longrightarrow> int_plus (ht_st x) v = Some (ht_st x + v)" "ht_st x \<noteq> INT_MIN \<Longrightarrow> int_plus (ht_st x) w = Some (ht_st x + w)"
  using assms by (auto simp: marks_ok_def marked_def cell_defs INT_MIN_def Let_def int_plus_def)

lemma int_plus_top:
  assumes "tops f A x" and "\<And>i. i \<in> A \<Longrightarrow> raised_ok v w (f i)"
  shows "int_plus (ht_mx x) v = Some (ht_mx x + v)" "int_plus (ht_mx x) w = Some (ht_mx x + w)"
proof -
  obtain i where "i \<in> A" "ht_mx x = fst (f i)"
    using assms(1) by (auto simp: tops_def)
  then show "int_plus (ht_mx x) v = Some (ht_mx x + v)" "int_plus (ht_mx x) w = Some (ht_mx x + w)"
    using assms(2) [of i] by (auto simp: raised_ok_def int_plus_def INT_MIN_def)
qed

lemma ht_pushadd_law:
  assumes "ht_rep S s t p f" and "0 < p" and "\<And>i. s \<le> i \<Longrightarrow> i \<le> t \<Longrightarrow> raised_ok v w (f i)"
  shows "\<exists>S'. ht_pushadd p v w S = Some S' \<and> ht_rep S' s t p (\<lambda>i. raised v w (f i)) \<and> ht_same_outside {p} S S'"
proof -
  let ?m = "ht_mx (S p) + v" and ?h = "max (ht_mxh (S p)) (ht_mx (S p) + w)"
  define y where "y = (if ht_st (S p) = INT_MIN
    then (S p)\<lparr>ht_mxh := ?h, ht_mx := ?m, ht_adh := max (ht_adh (S p)) (ht_ad (S p) + w), ht_ad := ht_ad (S p) + v\<rparr>
    else (S p)\<lparr>ht_mxh := ?h, ht_mx := ?m, ht_sth := max (ht_sth (S p)) (ht_st (S p) + w), ht_st := ht_st (S p) + v\<rparr>)"
  note d = ht_repD [OF assms(1)]
  obtain g where g: "below s t (S p) g f"
    using ht_rep_kids [OF assms(1)] by blast
  have fits: "marks_ok (S p) (g s)" "raised_ok v w (marked (S p) (g s))"
    using belowD [OF g, of s] assms(3) [of s] d(1) by auto
  have "ht_pushadd p v w S = Some (S(p := y))"
    using d(4) int_plus_fair [OF fits] int_plus_top [OF d(3), of v w] assms(3)
    by (simp add: ht_pushadd_def ht_get_def ht_put_def y_def)
  moreover have "tops (\<lambda>i. raised v w (f i)) {s..t} y"
    by (rule tops_raised [OF d(3)]) (simp_all add: y_def)
  moreover have "below s t y g (\<lambda>i. raised v w (f i))" if "below s t (S p) g f" for g
    using below_raised [OF _ _ y_def] belowD [OF that] assms(3) unfolding below_def by (metis atLeastAtMost_iff)
  ultimately show ?thesis
    using ht_rep_upd [OF assms(1,2)] ht_outside_facts(4) by blast
qed

lemma ht_pushset_law:
  assumes "ht_rep S s t p f" and "0 < p" and "become_ok v w"
  shows "\<exists>S'. ht_pushset p v w S = Some S' \<and> ht_rep S' s t p (\<lambda>i. become v w (f i)) \<and> ht_same_outside {p} S S'"
proof -
  define y where "y = (S p)\<lparr>ht_mxh := max (ht_mxh (S p)) w, ht_mx := v, ht_sth := max (ht_sth (S p)) w, ht_st := v\<rparr>"
  note d = ht_repD [OF assms(1)]
  have "ht_pushset p v w S = Some (S(p := y))"
    using d(4) by (simp add: ht_pushset_def ht_put_def y_def)
  moreover have "tops (\<lambda>i. become v w (f i)) {s..t} y"
    by (rule tops_become [OF d(3)]) (simp_all add: y_def)
  moreover have "below s t y g (\<lambda>i. become v w (f i))" if "below s t (S p) g f" for g
    using below_become [OF _ assms(3)] belowD [OF that] unfolding below_def y_def by auto
  ultimately show ?thesis
    using ht_rep_upd [OF assms(1,2)] ht_outside_facts(4) by blast
qed

text \<open>A change of both children, after which the parent is written.\<close>

lemma both_kids:
  assumes "0 < p" and "s < t" and "ht_rep S s (middle s t) (2 * p) g" and "ht_rep S (middle s t + 1) t (2 * p + 1) g"
    and op: "\<And>S a b q. s \<le> a \<Longrightarrow> b \<le> t \<Longrightarrow> 0 < q \<Longrightarrow> ht_rep S a b q g \<Longrightarrow>
      \<exists>S'. op q S = Some S' \<and> ht_rep S' a b q g' \<and> ht_same_outside {q} S S'"
  shows "\<exists>S1 S2. op (2 * p) S = Some S1 \<and> op (2 * p + 1) S1 = Some S2 \<and> S2 p = S p \<and> (\<forall>x.
    ht_rep (S2(p := x)) s (middle s t) (2 * p) g' \<and> ht_rep (S2(p := x)) (middle s t + 1) t (2 * p + 1) g' \<and> ht_same_outside (sub p) S (S2(p := x)))"
proof -
  obtain S1 where S1: "op (2 * p) S = Some S1" "ht_rep S1 s (middle s t) (2 * p) g'" "ht_same_outside {2 * p} S S1"
    using op [OF _ _ _ assms(3)] assms(1,2) middle_bounds(2) [OF assms(2)] by auto
  have "ht_rep S1 (middle s t + 1) t (2 * p + 1) g"
    using ht_rep_outside [OF assms(4) S1(3)] sub_siblings [OF assms(1)] by auto
  then obtain S2 where S2: "op (2 * p + 1) S1 = Some S2" "ht_rep S2 (middle s t + 1) t (2 * p + 1) g'" "ht_same_outside {2 * p + 1} S1 S2"
    using op [of "middle s t + 1" t "2 * p + 1" S1] assms(1,2) by auto
  have left: "ht_rep S2 s (middle s t) (2 * p) g'"
    using ht_rep_outside [OF S1(2) S2(3)] sub_siblings [OF assms(1)] by auto
  have p: "S2 p = S p"
    using S1(3) S2(3) assms(1) by (simp add: ht_same_outside_def)
  have "ht_rep (S2(p := x)) s (middle s t) (2 * p) g'" "ht_rep (S2(p := x)) (middle s t + 1) t (2 * p + 1) g'" for x
    using ht_rep_outside [OF left ht_outside_facts(4)] ht_rep_outside [OF S2(2) ht_outside_facts(4)] sub_disjoint [OF assms(1)] by auto
  moreover have "ht_same_outside (sub p) S (S2(p := x))" for x
    using S1(3) S2(3) sub_children [of p] by (auto simp: ht_same_outside_def) metis
  ultimately show ?thesis
    using S1(1) S2(1) p by blast
qed

text \<open>The two halves of \<open>pushdown\<close>.\<close>

lemma hand_additions:
  assumes "0 < p" and "s < t" and "p < HN" and "ht_rep S s (middle s t) (2 * p) g" and "ht_rep S (middle s t + 1) t (2 * p + 1) g"
    and "x = S p" and ok: "\<And>i. s \<le> i \<Longrightarrow> i \<le> t \<Longrightarrow> fair (g i) \<and> raised_ok (ht_ad x) (ht_adh x) (g i)" and g': "g' = (\<lambda>i. raised (ht_ad x) (ht_adh x) (g i))"
  shows "\<exists>S1. (if ht_ad x \<noteq> 0 \<or> ht_adh x \<noteq> 0 then do {
         S \<leftarrow> ht_pushadd (2 * p) (ht_ad x) (ht_adh x) S;
         S \<leftarrow> ht_pushadd (2 * p + 1) (ht_ad x) (ht_adh x) S;
         ht_put p (\<lambda>n. n\<lparr>ht_adh := 0, ht_ad := 0\<rparr>) S
       } else Some S) = Some S1 \<and> S1 p = x\<lparr>ht_adh := 0, ht_ad := 0\<rparr> \<and> ht_rep S1 s (middle s t) (2 * p) g' \<and>
       ht_rep S1 (middle s t + 1) t (2 * p + 1) g' \<and> ht_same_outside (sub p) S S1"
proof (cases "ht_ad x \<noteq> 0 \<or> ht_adh x \<noteq> 0")
  case True
  have op: "\<exists>S'. ht_pushadd q (ht_ad x) (ht_adh x) S = Some S' \<and> ht_rep S' a b q g' \<and> ht_same_outside {q} S S'"
    if "s \<le> a" "b \<le> t" "0 < q" "ht_rep S a b q g" for S a b q
    unfolding g' using that ok by (intro ht_pushadd_law) auto
  obtain S1 S2 where S2: "ht_pushadd (2 * p) (ht_ad x) (ht_adh x) S = Some S1" "ht_pushadd (2 * p + 1) (ht_ad x) (ht_adh x) S1 = Some S2"
      "S2 p = x" "\<And>y. ht_rep (S2(p := y)) s (middle s t) (2 * p) g' \<and> ht_rep (S2(p := y)) (middle s t + 1) t (2 * p + 1) g' \<and>
      ht_same_outside (sub p) S (S2(p := y))"
    using both_kids [OF assms(1,2,4,5) op] assms(6) by blast
  show ?thesis
    using True S2(1-3) assms(3) by (intro exI [of _ "S2(p := x\<lparr>ht_adh := 0, ht_ad := 0\<rparr>)"]) (simp add: S2(4) [simplified] ht_put_def)
next
  case False
  then have "g i = g' i" if "s \<le> i" "i \<le> t" for i
    using raised_none [of "g i"] ok [OF that] by (simp add: g')
  then have "ht_rep S s (middle s t) (2 * p) g'" "ht_rep S (middle s t + 1) t (2 * p + 1) g'"
    using ht_rep_cong [OF assms(4), of g'] ht_rep_cong [OF assms(5), of g'] assms(2) by auto
  then show ?thesis
    using False assms(6) ht_outside_facts(1) by auto
qed

lemma hand_assignment:
  assumes "0 < p" and "s < t" and "p < HN" and "ht_rep S s (middle s t) (2 * p) g" and "ht_rep S (middle s t + 1) t (2 * p + 1) g"
    and "x = S p" and ok: "if ht_st x = INT_MIN then ht_sth x = INT_MIN else become_ok (ht_st x) (ht_sth x)"
    and g': "g' = (\<lambda>i. if ht_st x = INT_MIN then g i else become (ht_st x) (ht_sth x) (g i))"
  shows "\<exists>S1. (if ht_st x \<noteq> INT_MIN \<or> ht_sth x \<noteq> INT_MIN then do {
         S \<leftarrow> ht_pushset (2 * p) (ht_st x) (ht_sth x) S;
         S \<leftarrow> ht_pushset (2 * p + 1) (ht_st x) (ht_sth x) S;
         ht_put p (\<lambda>n. n\<lparr>ht_sth := INT_MIN, ht_st := INT_MIN\<rparr>) S
       } else Some S) = Some S1 \<and> S1 p = x\<lparr>ht_sth := INT_MIN, ht_st := INT_MIN\<rparr> \<and> ht_rep S1 s (middle s t) (2 * p) g' \<and>
       ht_rep S1 (middle s t + 1) t (2 * p + 1) g' \<and> ht_same_outside (sub p) S S1"
proof (cases "ht_st x = INT_MIN")
  case False
  have op: "\<exists>S'. ht_pushset q (ht_st x) (ht_sth x) S = Some S' \<and> ht_rep S' a b q g' \<and> ht_same_outside {q} S S'"
    if "s \<le> a" "b \<le> t" "0 < q" "ht_rep S a b q g" for S a b q
    using ht_pushset_law [OF that(4,3), of "ht_st x" "ht_sth x"] ok False by (simp add: g')
  obtain S1 S2 where S2: "ht_pushset (2 * p) (ht_st x) (ht_sth x) S = Some S1" "ht_pushset (2 * p + 1) (ht_st x) (ht_sth x) S1 = Some S2"
      "S2 p = x" "\<And>y. ht_rep (S2(p := y)) s (middle s t) (2 * p) g' \<and> ht_rep (S2(p := y)) (middle s t + 1) t (2 * p + 1) g' \<and>
      ht_same_outside (sub p) S (S2(p := y))"
    using both_kids [OF assms(1,2,4,5) op] assms(6) by blast
  show ?thesis
    using False S2(1-3) assms(3) by (intro exI [of _ "S2(p := x\<lparr>ht_sth := INT_MIN, ht_st := INT_MIN\<rparr>)"]) (simp add: S2(4) [simplified] ht_put_def)
next
  case True
  then have "g' = g" "ht_sth x = INT_MIN"
    using ok by (simp_all add: g')
  then show ?thesis
    using True assms(4-6) ht_outside_facts(1) by auto
qed

lemma ht_push_law:
  assumes "0 < p" and "s < t" and "ht_rep S s t p f"
  shows "\<exists>S'. ht_pushdown p S = Some S' \<and> ht_rep S' s (middle s t) (2 * p) f \<and> ht_rep S' (middle s t + 1) t (2 * p + 1) f \<and>
    ht_clean S' p \<and> ht_same_outside (sub p) S S' \<and> tops f {s..t} (S' p)"
proof -
  obtain g where g: "below s t (S p) g f" "ht_rep S s (middle s t) (2 * p) g" "ht_rep S (middle s t + 1) t (2 * p + 1) g"
    using ht_rep_kids [OF assms(3)] assms(2) by blast
  note d = ht_repD [OF assms(3)] and b = belowD [OF g(1)]
  let ?x = "S p" and ?g = "\<lambda>i. raised (ht_ad (S p)) (ht_adh (S p)) (g i)"
  have "\<And>i. s \<le> i \<Longrightarrow> i \<le> t \<Longrightarrow> fair (g i) \<and> raised_ok (ht_ad ?x) (ht_adh ?x) (g i)"
    using b by (simp add: marks_ok_def)
  from hand_additions [OF assms(1,2) d(4) g(2,3) refl this refl]
  obtain S1 where S1: "(if ht_ad ?x \<noteq> 0 \<or> ht_adh ?x \<noteq> 0 then do {
         S \<leftarrow> ht_pushadd (2 * p) (ht_ad ?x) (ht_adh ?x) S;
         S \<leftarrow> ht_pushadd (2 * p + 1) (ht_ad ?x) (ht_adh ?x) S;
         ht_put p (\<lambda>n. n\<lparr>ht_adh := 0, ht_ad := 0\<rparr>) S
       } else Some S) = Some S1" "S1 p = ?x\<lparr>ht_adh := 0, ht_ad := 0\<rparr>" "ht_rep S1 s (middle s t) (2 * p) ?g"
       "ht_rep S1 (middle s t + 1) t (2 * p + 1) ?g" "ht_same_outside (sub p) S S1"
    by auto
  let ?h = "\<lambda>i. if ht_st (S1 p) = INT_MIN then ?g i else become (ht_st (S1 p)) (ht_sth (S1 p)) (?g i)"
  have "if ht_st (S1 p) = INT_MIN then ht_sth (S1 p) = INT_MIN else become_ok (ht_st (S1 p)) (ht_sth (S1 p))"
    using b [of s] assms(2) S1(2) by (auto simp: marks_ok_def split: if_splits)
  from hand_assignment [OF assms(1,2) d(4) S1(3,4) refl this refl]
  obtain S2 where S2: "(if ht_st (S1 p) \<noteq> INT_MIN \<or> ht_sth (S1 p) \<noteq> INT_MIN then do {
         S \<leftarrow> ht_pushset (2 * p) (ht_st (S1 p)) (ht_sth (S1 p)) S1;
         S \<leftarrow> ht_pushset (2 * p + 1) (ht_st (S1 p)) (ht_sth (S1 p)) S;
         ht_put p (\<lambda>n. n\<lparr>ht_sth := INT_MIN, ht_st := INT_MIN\<rparr>) S
       } else Some S1) = Some S2" "S2 p = (S1 p)\<lparr>ht_sth := INT_MIN, ht_st := INT_MIN\<rparr>" "ht_rep S2 s (middle s t) (2 * p) ?h"
       "ht_rep S2 (middle s t + 1) t (2 * p + 1) ?h" "ht_same_outside (sub p) S1 S2"
    by auto
  have "ht_pushdown p S = Some S2"
    using S1(1) S2(1) d(4) by (simp add: ht_pushdown_def ht_get_def cong: bind_weak_cong)
  moreover have "?h i = f i" if "s \<le> i" "i \<le> t" for i
    using b [OF that] S1(2) by (simp add: marked_def Let_def)
  then have "ht_rep S2 s (middle s t) (2 * p) f" "ht_rep S2 (middle s t + 1) t (2 * p + 1) f"
    using ht_rep_cong [OF S2(3), of f] ht_rep_cong [OF S2(4), of f] assms(2) by auto
  moreover have "ht_clean S2 p" "tops f {s..t} (S2 p)"
    using S1(2) S2(2) d(3,4) by (simp_all add: ht_clean_def no_marks_def tops_def)
  ultimately show ?thesis
    using ht_outside_facts(2) [OF S1(5) S2(5)] by blast
qed

lemma ht_rep_clean:
  assumes "s < t" and "ht_clean S p" and "tops f {s..t} (S p)" and "ht_rep S s (middle s t) (2 * p) f" and "ht_rep S (middle s t + 1) t (2 * p + 1) f"
  shows "ht_rep S s t p f"
proof -
  have "fair (f i)" if "s \<le> i" "i \<le> t" for i
    using ht_rep_fair [OF assms(4), of i] ht_rep_fair [OF assms(5), of i] that by (cases "i \<le> middle s t") auto
  then have "below s t (S p) f f"
    using assms(2) no_marks by (auto simp: ht_clean_def below_def)
  moreover have "fits HN s t p"
    using fits_node [of p HN s t] assms ht_repD(2) by (auto simp: ht_clean_def)
  ultimately show ?thesis
    using ht_rep_node [of s t p f S f] assms by simp
qed

lemma middle_union: "s < t \<Longrightarrow> {s..middle s t} \<union> {middle s t + 1..t} = {s..t}"
  by auto

lemma ht_pull_law:
  assumes "0 < p" and "s < t" and "ht_clean S p" and "ht_rep S s (middle s t) (2 * p) f" and "ht_rep S (middle s t + 1) t (2 * p + 1) f"
  shows "\<exists>S'. ht_pushup p S = Some S' \<and> ht_rep S' s t p f \<and> ht_same_outside {p} S S'"
proof -
  let ?x = "S (2 * p)" and ?y = "S (2 * p + 1)"
  let ?z = "(S p)\<lparr>ht_mx := max (ht_mx ?x) (ht_mx ?y), ht_mxh := max (ht_mxh ?x) (ht_mxh ?y)\<rparr>"
  note l = ht_repD [OF assms(4)] and r = ht_repD [OF assms(5)]
  have "tops f {s..t} ?z"
    using tops_union [OF l(3) r(3), of ?z] middle_union [OF assms(2)] by simp
  moreover have "ht_clean (S(p := ?z)) p"
    using assms(3) by (simp add: ht_clean_def no_marks_def)
  moreover have "ht_rep (S(p := ?z)) s (middle s t) (2 * p) f" "ht_rep (S(p := ?z)) (middle s t + 1) t (2 * p + 1) f"
    using ht_rep_outside [OF assms(4) ht_outside_facts(4)] ht_rep_outside [OF assms(5) ht_outside_facts(4)] sub_disjoint [OF assms(1)] by auto
  ultimately have "ht_rep (S(p := ?z)) s t p f"
    using ht_rep_clean [OF assms(2), of "S(p := ?z)" p f] by simp
  moreover have "ht_pushup p S = Some (S(p := ?z))"
    using l(4) r(4) assms(3) by (simp add: ht_pushup_def ht_get_def ht_put_def ht_clean_def)
  ultimately show ?thesis
    using ht_outside_facts(4) by blast
qed

interpretation ht: segment_nodes ht_rep ht_clean ht_same_outside "\<lambda>s t. ht_pushdown" ht_pushup
proof unfold_locales
  show "ht_rep S s t p f \<Longrightarrow> (\<And>i. s \<le> i \<Longrightarrow> i \<le> t \<Longrightarrow> f i = g i) \<Longrightarrow> ht_rep S s t p g" for S s t p f g
    by (rule ht_rep_cong)
  show "ht_rep S s t p f \<Longrightarrow> ht_same_outside A S S' \<Longrightarrow> A \<inter> sub p = {} \<Longrightarrow> ht_rep S' s t p f" for S s t p f A S'
    by (rule ht_rep_outside)
  show "0 < p \<Longrightarrow> s < t \<Longrightarrow> ht_rep S s t p f \<Longrightarrow> \<exists>S'. ht_pushdown p S = Some S' \<and> ht_rep S' s (middle s t) (2 * p) f \<and>
      ht_rep S' (middle s t + 1) t (2 * p + 1) f \<and> ht_clean S' p \<and> ht_same_outside (sub p) S S'" for p s t S f
    using ht_push_law by blast
  show "0 < p \<Longrightarrow> s < t \<Longrightarrow> ht_clean S p \<Longrightarrow> ht_rep S s (middle s t) (2 * p) f \<Longrightarrow> ht_rep S (middle s t + 1) t (2 * p + 1) f \<Longrightarrow>
      \<exists>S'. ht_pushup p S = Some S' \<and> ht_rep S' s t p f \<and> ht_same_outside {p} S S'" for p s t S f
    by (rule ht_pull_law)
qed (fact ht_outside_facts)+

section \<open>The recursive functions\<close>

lemma ht_push_keeps:
  assumes "0 < p" and "s < t" and "ht_rep S s t p f" and "ht_pushdown p S = Some S'"
  shows "ht_rep S' s t p f"
  using ht_push_law [OF assms(1-3)] assms(4) ht_rep_clean [OF assms(2), of S' p f] by auto

lemma ht_pull_again:
  assumes "0 < p" and "s < t" and "ht_clean S p" and "ht_rep S s t p f" and "ht_rep S' s (middle s t) (2 * p) f"
    and "ht_rep S' (middle s t + 1) t (2 * p + 1) f" and "ht_same_outside (sub (2 * p) \<union> sub (2 * p + 1)) S S'"
  shows "ht_rep S' s t p f"
proof -
  have "S' p = S p"
    using assms(7) sub_disjoint [OF assms(1)] by (simp add: ht_same_outside_def)
  then show ?thesis
    using ht_rep_clean [OF assms(2) _ _ assms(5,6)] assms(3) ht_repD(3) [OF assms(4)] by (simp add: ht_clean_def)
qed

text \<open>A child that is not reached returns at once.\<close>

lemma not_reached:
  "R < l \<or> r < L \<Longrightarrow> ht_add L R v u l r S = Some S"
  "R < l \<or> r < L \<Longrightarrow> ht_tset L R v u l r S = Some S"
  "R < l \<or> r < L \<Longrightarrow> ht_qmax L R u l r S = Some (S, INT_MIN)"
  "R < l \<or> r < L \<Longrightarrow> ht_qmaxh L R u l r S = Some (S, INT_MIN)"
  by (simp_all add: ht_add.simps ht_tset.simps ht_qmax.simps ht_qmaxh.simps)

interpretation ht_addition: range_update ht_rep ht_clean ht_same_outside "\<lambda>s t. ht_pushdown" ht_pushup
  "\<lambda>s t p. ht_pushadd p v (max v 0)" "\<lambda>l r s t p. ht_add l r v p s t" "raised v (max v 0)" "raised_ok v (max v 0)" for v
proof unfold_locales
  show "ht_add l r v p s t S =
      (if l \<le> s \<and> t \<le> r then ht_pushadd p v (max v 0) S
       else do {
         S1 \<leftarrow> ht_pushdown p S;
         S2 \<leftarrow> (if l \<le> middle s t then ht_add l r v (2 * p) s (middle s t) S1 else Some S1);
         S3 \<leftarrow> (if middle s t < r then ht_add l r v (2 * p + 1) (middle s t + 1) t S2 else Some S2);
         ht_pushup p S3
       })" if "s \<le> t" "l \<le> t" "s \<le> r" for s t l r p S
    using that by (subst ht_add.simps) (cases "l \<le> middle s t"; cases "middle s t < r"; simp add: mid_middle not_reached)
  show "\<exists>S'. ht_pushadd p v (max v 0) S = Some S' \<and> ht_rep S' s t p (\<lambda>i. raised v (max v 0) (f i)) \<and> ht_same_outside (sub p) S S'"
    if "\<And>i. s \<le> i \<Longrightarrow> i \<le> t \<Longrightarrow> raised_ok v (max v 0) (f i)" "0 < p" "ht_rep S s t p f" for s t p S f
    using ht_pushadd_law [OF that(3,2,1)] ht.outside_self [OF ht_outside_facts(1)] by blast
qed

interpretation ht_assignment: range_update ht_rep ht_clean ht_same_outside "\<lambda>s t. ht_pushdown" ht_pushup
  "\<lambda>s t p. ht_pushset p v v" "\<lambda>l r s t p. ht_tset l r v p s t" "become v v" "\<lambda>c. become_ok v v" for v
proof unfold_locales
  show "ht_tset l r v p s t S =
      (if l \<le> s \<and> t \<le> r then ht_pushset p v v S
       else do {
         S1 \<leftarrow> ht_pushdown p S;
         S2 \<leftarrow> (if l \<le> middle s t then ht_tset l r v (2 * p) s (middle s t) S1 else Some S1);
         S3 \<leftarrow> (if middle s t < r then ht_tset l r v (2 * p + 1) (middle s t + 1) t S2 else Some S2);
         ht_pushup p S3
       })" if "s \<le> t" "l \<le> t" "s \<le> r" for s t l r p S
    using that by (subst ht_tset.simps) (cases "l \<le> middle s t"; cases "middle s t < r"; simp add: mid_middle not_reached)
  show "\<exists>S'. ht_pushset p v v S = Some S' \<and> ht_rep S' s t p (\<lambda>i. become v v (f i)) \<and> ht_same_outside (sub p) S S'"
    if "\<And>i. s \<le> i \<Longrightarrow> i \<le> t \<Longrightarrow> become_ok v v" "0 < p" "ht_rep S s t p f" "s \<le> t" for s t p S and f :: "nat \<Rightarrow> cell"
    using ht_pushset_law [OF that(3,2), of v v] that(1,4) ht.outside_self [OF ht_outside_facts(1)] by blast
qed

text \<open>The greatest of some values, or \<open>INT_MIN\<close> for none.\<close>

definition greatest :: "('a \<Rightarrow> int) \<Rightarrow> 'a set \<Rightarrow> int" where
  "greatest f A = Max (insert INT_MIN (f ` A))"

lemma greatest_Un:
  assumes "finite A" and "finite B"
  shows "greatest f (A \<union> B) = max (greatest f A) (greatest f B)"
proof -
  have "insert INT_MIN (f ` (A \<union> B)) = insert INT_MIN (f ` A) \<union> insert INT_MIN (f ` B)"
    by auto
  then show ?thesis
    using assms by (simp only: greatest_def) (rule Max_Un; simp)
qed

lemma tops_greatest:
  assumes "tops f A x" and "finite A" and "\<And>i. i \<in> A \<Longrightarrow> fair (f i)"
  shows "ht_mx x = greatest (\<lambda>i. fst (f i)) A" "ht_mxh x = greatest (\<lambda>i. snd (f i)) A"
proof -
  have "INT_MIN \<le> ht_mx x" "INT_MIN \<le> ht_mxh x"
    using assms(1,3) by (fastforce simp: tops_def fair_def INT_MIN_def)+
  then show "ht_mx x = greatest (\<lambda>i. fst (f i)) A" "ht_mxh x = greatest (\<lambda>i. snd (f i)) A"
    using assms(1,2) unfolding greatest_def tops_def by (intro Max_eqI [symmetric]; auto)+
qed

interpretation ht_now: range_fold ht_rep ht_clean ht_same_outside "\<lambda>s t. ht_pushdown" ht_pushup "\<lambda>p S. map_option ht_mx (ht_get p S)"
  "\<lambda>l r s t p S. ht_qmax l r p s t S" INT_MIN max "\<lambda>f. greatest (\<lambda>i. fst (f i))" "\<lambda>x. x"
proof unfold_locales
  show "ht_qmax l r p s t S =
      (if l \<le> s \<and> t \<le> r then map_option (\<lambda>v. (S, v)) (map_option ht_mx (ht_get p S))
       else do {
         S1 \<leftarrow> ht_pushdown p S;
         (S2, x) \<leftarrow> (if l \<le> middle s t then ht_qmax l r (2 * p) s (middle s t) S1 else Some (S1, INT_MIN));
         (S3, y) \<leftarrow> (if middle s t < r then ht_qmax l r (2 * p + 1) (middle s t + 1) t S2 else Some (S2, INT_MIN));
         Some (S3, max x y)
       })" if "s \<le> t" "l \<le> t" "s \<le> r" for s t l r p S
    using that by (subst ht_qmax.simps) (cases "l \<le> middle s t"; cases "middle s t < r"; simp add: mid_middle not_reached bind_Some_map_option option.map_comp comp_def)
  show "\<exists>v. map_option ht_mx (ht_get p S) = Some v \<and> v = greatest (\<lambda>i. fst (f i)) {s..t}" if "ht_rep S s t p f" for p S s t f
    using ht_repD(4) [OF that] tops_greatest(1) [OF ht_repD(3) [OF that]] ht_rep_fair [OF that] by (simp add: ht_get_def)
  show "max x y = greatest (\<lambda>i. fst (f i)) (A \<union> B)"
    if "A \<union> B \<subseteq> {s..t}" "x = greatest (\<lambda>i. fst (f i)) A" "y = greatest (\<lambda>i. fst (f i)) B" for s t :: nat and A B x y f
    using that finite_subset [OF that(1)] by (simp add: greatest_Un)
  show "INT_MIN = greatest (\<lambda>i. fst (f i)) {}" for f :: "nat \<Rightarrow> cell"
    by (simp add: greatest_def)
qed (fact ht_pull_again ht_push_keeps)+

interpretation ht_ever: range_fold ht_rep ht_clean ht_same_outside "\<lambda>s t. ht_pushdown" ht_pushup "\<lambda>p S. map_option ht_mxh (ht_get p S)"
  "\<lambda>l r s t p S. ht_qmaxh l r p s t S" INT_MIN max "\<lambda>f. greatest (\<lambda>i. snd (f i))" "\<lambda>x. x"
proof unfold_locales
  show "ht_qmaxh l r p s t S =
      (if l \<le> s \<and> t \<le> r then map_option (\<lambda>v. (S, v)) (map_option ht_mxh (ht_get p S))
       else do {
         S1 \<leftarrow> ht_pushdown p S;
         (S2, x) \<leftarrow> (if l \<le> middle s t then ht_qmaxh l r (2 * p) s (middle s t) S1 else Some (S1, INT_MIN));
         (S3, y) \<leftarrow> (if middle s t < r then ht_qmaxh l r (2 * p + 1) (middle s t + 1) t S2 else Some (S2, INT_MIN));
         Some (S3, max x y)
       })" if "s \<le> t" "l \<le> t" "s \<le> r" for s t l r p S
    using that by (subst ht_qmaxh.simps) (cases "l \<le> middle s t"; cases "middle s t < r"; simp add: mid_middle not_reached bind_Some_map_option option.map_comp comp_def)
  show "\<exists>v. map_option ht_mxh (ht_get p S) = Some v \<and> v = greatest (\<lambda>i. snd (f i)) {s..t}" if "ht_rep S s t p f" for p S s t f
    using ht_repD(4) [OF that] tops_greatest(2) [OF ht_repD(3) [OF that]] ht_rep_fair [OF that] by (simp add: ht_get_def)
  show "max x y = greatest (\<lambda>i. snd (f i)) (A \<union> B)"
    if "A \<union> B \<subseteq> {s..t}" "x = greatest (\<lambda>i. snd (f i)) A" "y = greatest (\<lambda>i. snd (f i)) B" for s t :: nat and A B x y f
    using that finite_subset [OF that(1)] by (simp add: greatest_Un)
  show "INT_MIN = greatest (\<lambda>i. snd (f i)) {}" for f :: "nat \<Rightarrow> cell"
    by (simp add: greatest_def)
qed (fact ht_pull_again ht_push_keeps)+

text \<open>\<open>build\<close> does not write the marks for additions, which are still zero.\<close>

definition ht_fresh :: "hmem \<Rightarrow> bool" where
  "ht_fresh S = (\<forall>q. ht_ad (S q) = 0 \<and> ht_adh (S q) = 0)"

lemma ht_build_ok:
  assumes "l \<le> r" and "0 < p" and "fits HN l r p" and "r < length a" and "\<forall>x \<in> set a. fair (x, x)" and "ht_fresh S"
  shows "\<exists>S'. ht_build a p l r S = Some S' \<and> ht_rep S' l r p (\<lambda>i. (a ! i, a ! i)) \<and> ht_same_outside (sub p) S S' \<and> ht_fresh S'"
  using assms(1-4,6)
proof (induction "r - l" arbitrary: l r p S rule: less_induct)
  case less
  let ?S = "S(p := (S p)\<lparr>ht_st := INT_MIN, ht_sth := INT_MIN\<rparr>)" and ?m = "middle l r" and ?f = "\<lambda>i. (a ! i, a ! i)"
  have put: "ht_put p (\<lambda>n. n\<lparr>ht_st := INT_MIN, ht_sth := INT_MIN\<rparr>) S = Some ?S" "p < HN" "ht_fresh ?S" "ht_clean ?S p"
    using fits_root [OF less.prems(3)] less.prems(5) by (simp_all add: ht_put_def ht_fresh_def ht_clean_def no_marks_def)
  show ?case
  proof (cases "l = r")
    case True
    let ?x = "(?S p)\<lparr>ht_mx := a ! l, ht_mxh := a ! l\<rparr>"
    have "fair (?f l)"
      using assms(5) less.prems(4) True by simp
    then have "below l l ?x ?f ?f"
      using no_marks [of ?x "?f l"] put(4) by (simp add: below_def ht_clean_def no_marks_def)
    then have "ht_rep (?S(p := ?x)) l r p ?f"
      using ht_rep_node [of l r p ?f "?S(p := ?x)" ?f] less.prems(1,3) True by (simp add: tops_def)
    moreover have "ht_build a p l r S = Some (?S(p := ?x))"
      using True less.prems(4) put by (subst ht_build.simps) (simp add: ht_put_def)
    moreover have "ht_same_outside (sub p) S (?S(p := ?x))" "ht_fresh (?S(p := ?x))"
      using less.prems(5) by (auto simp: ht_same_outside_def ht_fresh_def)
    ultimately show ?thesis
      by blast
  next
    case False
    then have st: "l < r"
      using less.prems(1) by simp
    then have sizes: "?m - l < r - l" "r - (?m + 1) < r - l" "?m + 1 \<le> r" "l \<le> ?m" "?m < length a"
      using less.prems(4) by auto
    note p = less.prems(2) and f = fits_children [OF less.prems(3) st]
    obtain S1 where S1: "ht_build a (2 * p) l ?m ?S = Some S1" "ht_rep S1 l ?m (2 * p) ?f" "ht_same_outside (sub (2 * p)) ?S S1" "ht_fresh S1"
      using less.hyps [OF sizes(1,4) _ f(1) sizes(5) put(3)] p by auto
    obtain S2 where S2: "ht_build a (2 * p + 1) (?m + 1) r S1 = Some S2" "ht_rep S2 (?m + 1) r (2 * p + 1) ?f" "ht_same_outside (sub (2 * p + 1)) S1 S2" "ht_fresh S2"
      using less.hyps [OF sizes(2,3) _ f(2) less.prems(4) S1(4)] by auto
    have "ht_clean S2 p" "ht_rep S2 l ?m (2 * p) ?f"
      using ht.left_only(2) [OF p S1(3)] ht.right_only [OF p S2(3)] S1(2) put(4) by blast+
    then obtain S3 where S3: "ht_pushup p S2 = Some S3" "ht_rep S3 l r p ?f" "ht_same_outside {p} S2 S3"
      using ht_pull_law [OF p st _ _ S2(2)] by blast
    have "ht_same_outside (sub p) S ?S"
      by (auto simp: ht_same_outside_def)
    then have "ht_same_outside (sub p) S S3"
      using ht.outside_self [OF ht.outside_right [OF ht.outside_left [OF _ S1(3)] S2(3)] S3(3)] by simp
    moreover have "ht_fresh S3"
      using S3(1) S2(4) by (auto simp: ht_pushup_def ht_get_def ht_put_def peek_def poke_def ht_fresh_def split: if_splits)
    moreover have "ht_build a p l r S = Some S3"
      using put(1) False S1(1) S2(1) S3(1) by (subst ht_build.simps) (simp add: mid_middle [OF less.prems(1)])
    ultimately show ?thesis
      using S3(2) by blast
  qed
qed

section \<open>The whole program\<close>

text \<open>The reference: a list of cells; positions are counted from 1.\<close>

fun ht_ref :: "cell list \<Rightarrow> ht_op \<Rightarrow> cell list \<times> int list" where
  "ht_ref cs (OpQ x y) = (cs, [Max (set (map fst (slice x y cs)))])"
| "ht_ref cs (OpA x y) = (cs, [Max (set (map snd (slice x y cs)))])"
| "ht_ref cs (OpP x y v) = (take (x - 1) cs @ map (\<lambda>(c, h). (c + v, max h (c + v))) (slice x y cs) @ drop y cs, [])"
| "ht_ref cs (OpC x y v) = (take (x - 1) cs @ map (\<lambda>(c, h). (v, max h v)) (slice x y cs) @ drop y cs, [])"

fun ht_ok :: "cell list \<Rightarrow> ht_op \<Rightarrow> bool" where
  "ht_ok cs (OpQ x y) = (1 \<le> x \<and> x \<le> y \<and> y \<le> length cs)"
| "ht_ok cs (OpA x y) = (1 \<le> x \<and> x \<le> y \<and> y \<le> length cs)"
| "ht_ok cs (OpP x y v) = (1 \<le> x \<and> x \<le> y \<and> y \<le> length cs \<and> list_all (\<lambda>(c, h). \<bar>c + v\<bar> < 2 ^ 30) (slice x y cs))"
| "ht_ok cs (OpC x y v) = (1 \<le> x \<and> x \<le> y \<and> y \<le> length cs \<and> \<bar>v\<bar> < 2 ^ 30)"

definition ht_stands :: "nat \<Rightarrow> hmem \<Rightarrow> cell list \<Rightarrow> bool" where
  "ht_stands n S cs = (length cs = n \<and> ht_rep S 1 n 1 (\<lambda>i. cs ! (i - 1)))"

lemma ht_standsI:
  assumes "ht_rep S 1 n 1 f" and "length cs = n" and "\<And>i. 1 \<le> i \<Longrightarrow> i \<le> n \<Longrightarrow> cs ! (i - 1) = f i"
  shows "ht_stands n S cs"
  unfolding ht_stands_def using assms(2) ht_rep_cong [OF assms(1), of "\<lambda>i. cs ! (i - 1)"] assms(3) by auto

lemma greatest_slice:
  assumes "1 \<le> x" and "x \<le> y" and "y \<le> length cs" and "\<And>i. x \<le> i \<Longrightarrow> i \<le> y \<Longrightarrow> INT_MIN \<le> g (cs ! (i - 1))"
  shows "greatest (\<lambda>i. g (cs ! (i - 1))) {x..y} = Max (set (map g (slice x y cs)))"
proof -
  have eq: "set (map g (slice x y cs)) = (\<lambda>i. g (cs ! (i - 1))) ` {x..y}"
    using slice_cells [OF assms(1-3)] by (simp add: atLeastLessThanSuc_atLeastAtMost image_image del: upt_Suc)
  have "INT_MIN \<le> g (cs ! (x - 1))" "x \<in> {x..y}"
    using assms(2,4) by auto
  then have "INT_MIN \<le> Max ((\<lambda>i. g (cs ! (i - 1))) ` {x..y})"
    by (intro order_trans [OF _ Max_ge]) auto
  then show ?thesis
    unfolding greatest_def eq using assms(2) by (subst Max_insert) auto
qed

lemma ht_step_ok:
  assumes "ht_stands n S cs" and "ht_ok cs op"
  shows "\<exists>S'. ht_step n S op = Some (S', snd (ht_ref cs op)) \<and> ht_stands n S' (fst (ht_ref cs op))"
proof -
  let ?f = "\<lambda>i. cs ! (i - 1)"
  have d: "length cs = n" "ht_rep S 1 n 1 ?f"
    using assms(1) by (simp_all add: ht_stands_def)
  note fair = ht_rep_fair [OF d(2)]
  then have least: "INT_MIN \<le> fst (?f i)" "INT_MIN \<le> snd (?f i)" if "1 \<le> i" "i \<le> n" for i
    using that by (force simp: fair_def INT_MIN_def)+
  show ?thesis
  proof (cases op)
    case (OpQ x y)
    have ok: "1 \<le> x" "x \<le> y" "y \<le> n" "{max x 1..min y n} = {x..y}"
      using assms(2) OpQ d(1) by (auto simp: max_def min_def)
    have "greatest (\<lambda>i. fst (?f i)) {x..y} = Max (set (map fst (slice x y cs)))"
      using least ok d(1) by (intro greatest_slice) auto
    then show ?thesis
      using ht_now.fold_at_node [OF _ _ _ _ d(2), of x y] ok OpQ d(1) by (auto simp: ht_stands_def)
  next
    case (OpA x y)
    have ok: "1 \<le> x" "x \<le> y" "y \<le> n" "{max x 1..min y n} = {x..y}"
      using assms(2) OpA d(1) by (auto simp: max_def min_def)
    have "greatest (\<lambda>i. snd (?f i)) {x..y} = Max (set (map snd (slice x y cs)))"
      using least ok d(1) by (intro greatest_slice) auto
    then show ?thesis
      using ht_ever.fold_at_node [OF _ _ _ _ d(2), of x y] ok OpA d(1) by (auto simp: ht_stands_def)
  next
    case (OpP x y v)
    let ?act = "\<lambda>(c, h). (c + v, max h (c + v))"
    let ?cs = "take (x - 1) cs @ map ?act (slice x y cs) @ drop y cs"
    have ok: "1 \<le> x" "x \<le> y" "y \<le> n" "list_all (\<lambda>(c, h). \<bar>c + v\<bar> < 2 ^ 30) (slice x y cs)"
      using assms(2) OpP d(1) by auto
    have small: "\<bar>fst (?f i) + v\<bar> < 2 ^ 30" if "x \<le> i" "i \<le> y" for i
      using ok(4) that slice_cells [OF ok(1,2) ok(3) [folded d(1)]] by (simp add: list_all_iff case_prod_unfold del: upt_Suc)
    have "raised_ok v (max v 0) (?f i)" if "x \<le> i" "i \<le> y" for i
      using small [OF that] fair [of i] that ok(1,3) by (auto simp: raised_ok_def fair_def)
    then obtain S' where S': "ht_add x y v 1 1 n S = Some S'" "ht_rep S' 1 n 1 (changed (raised v (max v 0)) x y ?f)"
      using ht_addition.update_at_node [of x y v ?f 1 1 n S] d(2) ok by auto
    have "?act (?f i) = raised v (max v 0) (?f i)" if "1 \<le> i" "i \<le> n" for i
      using fair [OF that] by (auto simp: raised_def fair_def split: prod.split)
    then have "ht_stands n S' ?cs"
      using changed_cells [of x y cs _ ?act] ok d(1) by (intro ht_standsI [OF S'(2)]) (auto simp: changed_def slice_def)
    then show ?thesis
      using S'(1) OpP by auto
  next
    case (OpC x y v)
    let ?act = "\<lambda>(c, h). (v, max h v)"
    let ?cs = "take (x - 1) cs @ map ?act (slice x y cs) @ drop y cs"
    have ok: "1 \<le> x" "x \<le> y" "y \<le> n" "become_ok v v"
      using assms(2) OpC d(1) by (auto simp: become_ok_def)
    then obtain S' where S': "ht_tset x y v 1 1 n S = Some S'" "ht_rep S' 1 n 1 (changed (become v v) x y ?f)"
      using ht_assignment.update_at_node [of x y v 1 1 n S ?f] d(2) by auto
    have "?act c = become v v c" for c
      by (cases c) (simp add: become_def)
    then have "ht_stands n S' ?cs"
      using changed_cells [of x y cs _ ?act] ok d(1) by (intro ht_standsI [OF S'(2)]) (auto simp: changed_def slice_def)
    then show ?thesis
      using S'(1) OpC by auto
  qed
qed

interpretation htp: query_program "ht_step n" ht_ref ht_ok "ht_stands n"
  by unfold_locales (rule ht_step_ok)

lemma fits_HN:
  assumes "1 \<le> n" and "n \<le> 100006"
  shows "fits HN 1 n 1"
proof -
  obtain k where "n \<le> 2 ^ k" "2 ^ k < 2 * n"
    using power_above [of n] assms(1) by auto
  then show ?thesis
    using assms by (intro fits_power [of _ _ k]) (auto simp: HN_def)
qed

text \<open>
  C19. For 1 to 100006 numbers, and operations on positions inside, with all values below \<open>2 ^ 30\<close> in size, the program
  \<^verbatim>\<open>seg-beats_3.cpp\<close> ends, stays inside its arrays, never overflows, and prints the greatest present and the greatest past values of the
  ranges asked for, as if every cell remembered its greatest value.
\<close>

theorem historic_maxima_correct:
  assumes "1 \<le> length vs" and "length vs \<le> 100006" and "list_all (\<lambda>v. \<bar>v\<bar> < 2 ^ 30) vs" and "all_ok ht_ok ht_ref (map (\<lambda>v. (v, v)) vs) ops"
  shows "ht_main vs ops = Some (ref_loop ht_ref (map (\<lambda>v. (v, v)) vs) ops)"
proof -
  let ?n = "length vs"
  have "\<forall>x \<in> set (0 # vs). fair (x, x)"
    using assms(3) by (auto simp: list_all_iff fair_def)
  then obtain S where S: "ht_build (0 # vs) 1 1 ?n (\<lambda>_. ht_zero) = Some S" "ht_rep S 1 ?n 1 (\<lambda>i. ((0 # vs) ! i, (0 # vs) ! i))"
    using ht_build_ok [OF assms(1) _ fits_HN [OF assms(1,2)], of "0 # vs" "\<lambda>_. ht_zero"] by (auto simp: ht_fresh_def ht_zero_def)
  have "ht_stands ?n S (map (\<lambda>v. (v, v)) vs)"
    by (rule ht_standsI [OF S(2)]) (auto simp: nth_Cons')
  then obtain S' where "query_loop (ht_step ?n) S ops = Some (S', ref_loop ht_ref (map (\<lambda>v. (v, v)) vs) ops)"
    using htp.loop_ok [OF _ assms(4)] by blast
  then show ?thesis
    using S(1) by (simp add: ht_main_def)
qed

theorem historic_maxima_correct_witness:
  "ht_main [1, 5, 3] [OpQ 1 3, OpP 1 2 4, OpC 2 3 (- 7), OpQ 2 3, OpA 2 3] = Some [5, - 7, 9]"
  using historic_maxima_correct [of "[1, 5, 3]" "[OpQ 1 3, OpP 1 2 4, OpC 2 3 (- 7), OpQ 2 3, OpA 2 3]"]
  by (simp add: slice_def)

end
