(* ===== verification/MapInterface.thy ===== *)
theory MapInterface
  imports Prelude
begin

text \<open>
  The public interface the ordered maps of the library share, as a record of operations, a
  reference implementation of it on sorted entry lists, and the locale of the laws a map class
  promises. Proved once from the laws: every sequence of calls on a fresh map gives the results of
  the reference implementation, and has none exactly where the reference has none, which is
  \<open>contains\<close> on an empty map. The locale is interpreted in the theories of the map classes on the
  models of their operations.
\<close>

section \<open>Entries around a key\<close>

text \<open>
  The entry a neighbour search is after: the first entry of the sorted list that satisfies \<open>P\<close>
  (ceiling and higher), or the last one (floor and lower); \<open>Inl\<close> when there is none.
\<close>

definition first_such :: "string \<Rightarrow> ('k \<times> 'v \<Rightarrow> bool) \<Rightarrow> ('k \<times> 'v) list \<Rightarrow> ('k \<times> 'v) throws" where
  "first_such msg P es =
     (case List.find P es of None \<Rightarrow> Inl (NoSuchMappingException msg) | Some e \<Rightarrow> Inr e)"

definition last_such :: "string \<Rightarrow> ('k \<times> 'v \<Rightarrow> bool) \<Rightarrow> ('k \<times> 'v) list \<Rightarrow> ('k \<times> 'v) throws" where
  "last_such msg P es = first_such msg P (rev es)"

text \<open>
  On a list sorted by \<open>Q\<close>, the first entry with \<open>P\<close> is the \<open>Q\<close>-least one, and the last entry with
  \<open>P\<close> the \<open>Q\<close>-greatest.
\<close>

definition least_such :: "'k compare \<Rightarrow> ('k \<times> 'v \<Rightarrow> bool) \<Rightarrow> ('k \<times> 'v) list \<Rightarrow> 'k \<times> 'v \<Rightarrow> bool" where
  "least_such Q P es e = (e \<in> set es \<and> P e \<and> (\<forall>f \<in> set es. P f \<longrightarrow> \<not> Q (fst f) (fst e)))"

lemma first_such_least:
  assumes "sorted_keys Q es" and asym: "\<And>x y. Q x y \<Longrightarrow> \<not> Q y x"
  shows "first_such msg P es = Inr e \<longleftrightarrow> least_such Q P es e"
  using assms(1)
proof (induction es)
  case Nil
  then show ?case by (simp add: first_such_def least_such_def)
next
  case (Cons a es)
  then show ?case
    using asym by (cases "P a") (auto simp: first_such_def least_such_def)
qed

lemma last_such_greatest:
  assumes "sorted_keys Q es" and asym: "\<And>x y. Q x y \<Longrightarrow> \<not> Q y x"
  shows "last_such msg P es = Inr e \<longleftrightarrow> least_such (\<lambda>x y. Q y x) P es e"
proof -
  have "sorted_keys (\<lambda>x y. Q y x) (rev es)"
    using assms(1) by (simp add: sorted_keys_def sorted_wrt_rev flip: rev_map)
  then show ?thesis
    unfolding last_such_def using asym
    by (subst first_such_least [of "\<lambda>x y. Q y x"]) (auto simp: least_such_def)
qed

lemma find_SomeD: "List.find P xs = Some x \<Longrightarrow> x \<in> set xs \<and> P x"
  by (auto simp: find_Some_iff)

lemma first_such_throws:
  "first_such msg P es = Inl x \<longleftrightarrow> (\<forall>e \<in> set es. \<not> P e) \<and> x = NoSuchMappingException msg"
  "last_such msg P es = Inl x \<longleftrightarrow> (\<forall>e \<in> set es. \<not> P e) \<and> x = NoSuchMappingException msg"
  by (auto simp: last_such_def first_such_def find_None_iff dest: find_SomeD split: option.splits)

section \<open>Calls and their results\<close>

text \<open>
  A callback that \<open>forEach\<close> or \<open>forEachMut\<close> calls works on a state of its own; as a call of the
  interface it starts from an empty list of entries and may add what it likes.
\<close>

type_synonym ('k, 'v) trace = "('k \<times> 'v) list"

record ('m, 'k, 'v) map_class =
  m_new :: 'm
  m_size :: "'m \<Rightarrow> nat"
  m_empty :: "'m \<Rightarrow> bool"
  m_clear :: "'m \<Rightarrow> 'm option"
  m_contains :: "'m \<Rightarrow> 'k \<Rightarrow> bool option"
  m_get :: "'m \<Rightarrow> 'k \<Rightarrow> 'v throws option"
  m_insert :: "'m \<Rightarrow> 'k \<Rightarrow> 'v \<Rightarrow> 'm option"
  m_insertIfAbsent :: "'m \<Rightarrow> 'k \<Rightarrow> 'v \<Rightarrow> ('m \<times> bool) option"
  m_getOrInsert :: "'m \<Rightarrow> 'k \<Rightarrow> 'v \<Rightarrow> ('m \<times> 'v) option"
  m_getOrDefault :: "'v \<Rightarrow> 'm \<Rightarrow> 'k \<Rightarrow> ('m \<times> 'v) option"
  m_index_assign :: "'v \<Rightarrow> 'm \<Rightarrow> 'k \<Rightarrow> 'v \<Rightarrow> 'm option"
  m_remove :: "'m \<Rightarrow> 'k \<Rightarrow> ('m \<times> bool) option"
  m_getAndRemove :: "'m \<Rightarrow> 'k \<Rightarrow> ('m \<times> 'v) throws option"
  m_removeAll :: "('k \<Rightarrow> 'v \<Rightarrow> bool) \<Rightarrow> 'm \<Rightarrow> 'm option"
  m_ceiling :: "'m \<Rightarrow> 'k \<Rightarrow> ('k \<times> 'v) throws option"
  m_floor :: "'m \<Rightarrow> 'k \<Rightarrow> ('k \<times> 'v) throws option"
  m_higher :: "'m \<Rightarrow> 'k \<Rightarrow> ('k \<times> 'v) throws option"
  m_lower :: "'m \<Rightarrow> 'k \<Rightarrow> ('k \<times> 'v) throws option"
  m_toEntryList :: "'m \<Rightarrow> ('k \<times> 'v) list option"
  m_forEach :: "('k \<Rightarrow> 'v \<Rightarrow> ('k, 'v) trace \<Rightarrow> ('k, 'v) trace) \<Rightarrow> 'm \<Rightarrow> ('k, 'v) trace \<Rightarrow> ('k, 'v) trace option"
  m_forEachMut :: "('k \<Rightarrow> 'v \<Rightarrow> ('k, 'v) trace \<Rightarrow> 'v \<times> ('k, 'v) trace) \<Rightarrow> 'm \<Rightarrow> ('k, 'v) trace \<Rightarrow>
    ('m \<times> ('k, 'v) trace) option"

text \<open>
  The public calls the three classes share. \<open>GetOrDefault\<close> and \<open>IndexAssign\<close> (\<open>m[k] = v\<close>) carry the
  value-initialised \<open>Value\<close> first; reading through the non-const \<open>operator[]\<close> is \<open>GetOrDefault\<close>, through
  the const one \<open>Get\<close>.
\<close>

datatype ('k, 'v) map_call =
    Size | Empty | Clear | Contains 'k | Get 'k | Insert 'k 'v | InsertIfAbsent 'k 'v | GetOrInsert 'k 'v
  | GetOrDefault 'v 'k | IndexAssign 'v 'k 'v | Remove 'k | GetAndRemove 'k
  | RemoveAll "'k \<Rightarrow> 'v \<Rightarrow> bool" | GetCeiling 'k | GetFloor 'k | GetHigher 'k | GetLower 'k | ToEntryList
  | ForEach "'k \<Rightarrow> 'v \<Rightarrow> ('k, 'v) trace \<Rightarrow> ('k, 'v) trace"
  | ForEachMut "'k \<Rightarrow> 'v \<Rightarrow> ('k, 'v) trace \<Rightarrow> 'v \<times> ('k, 'v) trace"

datatype ('k, 'v) map_result =
    Done | Flag bool | Count nat | Val 'v | Ent "'k \<times> 'v" | Entries "('k \<times> 'v) list" | Threw exn

fun thrown :: "('a \<Rightarrow> ('k, 'v) map_result) \<Rightarrow> 'a throws \<Rightarrow> ('k, 'v) map_result" where
  "thrown f (Inl e) = Threw e"
| "thrown f (Inr x) = f x"

text \<open>One call: the map afterwards and the result; a call that throws leaves the map as it is.\<close>

fun call ::
  "('m, 'k, 'v) map_class \<Rightarrow> 'm \<Rightarrow> ('k, 'v) map_call \<Rightarrow> ('m \<times> ('k, 'v) map_result) option" where
  "call c m Size = Some (m, Count (m_size c m))"
| "call c m Empty = Some (m, Flag (m_empty c m))"
| "call c m Clear = map_option (\<lambda>m'. (m', Done)) (m_clear c m)"
| "call c m (Contains k) = map_option (\<lambda>b. (m, Flag b)) (m_contains c m k)"
| "call c m (Get k) = map_option (\<lambda>r. (m, thrown Val r)) (m_get c m k)"
| "call c m (Insert k v) = map_option (\<lambda>m'. (m', Done)) (m_insert c m k v)"
| "call c m (InsertIfAbsent k v) = map_option (\<lambda>(m', b). (m', Flag b)) (m_insertIfAbsent c m k v)"
| "call c m (GetOrInsert k v) = map_option (\<lambda>(m', w). (m', Val w)) (m_getOrInsert c m k v)"
| "call c m (GetOrDefault d k) = map_option (\<lambda>(m', w). (m', Val w)) (m_getOrDefault c d m k)"
| "call c m (IndexAssign d k v) = map_option (\<lambda>m'. (m', Done)) (m_index_assign c d m k v)"
| "call c m (Remove k) = map_option (\<lambda>(m', b). (m', Flag b)) (m_remove c m k)"
| "call c m (GetAndRemove k) =
     map_option (\<lambda>r. case r of Inl e \<Rightarrow> (m, Threw e) | Inr (m', v) \<Rightarrow> (m', Val v)) (m_getAndRemove c m k)"
| "call c m (RemoveAll p) = map_option (\<lambda>m'. (m', Done)) (m_removeAll c p m)"
| "call c m (GetCeiling k) = map_option (\<lambda>r. (m, thrown Ent r)) (m_ceiling c m k)"
| "call c m (GetFloor k) = map_option (\<lambda>r. (m, thrown Ent r)) (m_floor c m k)"
| "call c m (GetHigher k) = map_option (\<lambda>r. (m, thrown Ent r)) (m_higher c m k)"
| "call c m (GetLower k) = map_option (\<lambda>r. (m, thrown Ent r)) (m_lower c m k)"
| "call c m ToEntryList = map_option (\<lambda>es. (m, Entries es)) (m_toEntryList c m)"
| "call c m (ForEach f) = map_option (\<lambda>tr. (m, Entries tr)) (m_forEach c f m [])"
| "call c m (ForEachMut f) = map_option (\<lambda>(m', tr). (m', Entries tr)) (m_forEachMut c f m [])"

fun calls ::
  "('m, 'k, 'v) map_class \<Rightarrow> 'm \<Rightarrow> ('k, 'v) map_call list \<Rightarrow>
     ('m \<times> ('k, 'v) map_result list) option" where
  "calls c m [] = Some (m, [])"
| "calls c m (op # ops) = do {
     (m1, res) \<leftarrow> call c m op;
     (m2, ress) \<leftarrow> calls c m1 ops;
     Some (m2, res # ress)
   }"

text \<open>The calls that may take single entries out of the map.\<close>

fun removing :: "('k, 'v) map_call \<Rightarrow> bool" where
  "removing (Remove k) = True"
| "removing (GetAndRemove k) = True"
| "removing (RemoveAll p) = True"
| "removing _ = False"

section \<open>The reference implementation\<close>

abbreviation invalid_key :: exn where
  "invalid_key \<equiv> NoSuchMappingException ''Invalid key''"

definition lookup_result :: "'v option \<Rightarrow> ('k, 'v) map_result" where
  "lookup_result r = (case r of None \<Rightarrow> Threw invalid_key | Some v \<Rightarrow> Val v)"

text \<open>
  The classes differ in one message: what \<open>getCeilingEntry\<close> throws when a map with entries has
  none to return. The reference implementation takes the message as a function of the entries.
\<close>

type_synonym ('k, 'v) message = "('k \<times> 'v) list \<Rightarrow> string"

definition plain_message :: "('k, 'v) message" where
  "plain_message es = ''No ceiling entry in this map''"

text \<open>What \<open>forEachMut\<close> should do to the entries: visit them in order and keep what the action leaves.\<close>

fun thread_values ::
  "('k \<Rightarrow> 'v \<Rightarrow> 's \<Rightarrow> 'v \<times> 's) \<Rightarrow> ('k \<times> 'v) list \<Rightarrow> 's \<Rightarrow> ('k \<times> 'v) list \<times> 's" where
  "thread_values action [] s = ([], s)"
| "thread_values action ((k, v) # es) s =
     (let (v', s1) = action k v s; (es', s2) = thread_values action es s1 in ((k, v') # es', s2))"

lemma keys_thread_values: "map fst (fst (thread_values action es s)) = map fst es"
  by (induction es arbitrary: s) (auto simp: split_def Let_def)

text \<open>The one call without a result is \<open>contains\<close> on an empty map: the classes assert that there is a root.\<close>

fun ref_call ::
  "('k, 'v) message \<Rightarrow> 'k compare \<Rightarrow> ('k \<times> 'v) list \<Rightarrow> ('k, 'v) map_call \<Rightarrow>
     (('k \<times> 'v) list \<times> ('k, 'v) map_result) option" where
  "ref_call cm cmp es Size = Some (es, Count (length es))"
| "ref_call cm cmp es Empty = Some (es, Flag (es = []))"
| "ref_call cm cmp es Clear = Some ([], Done)"
| "ref_call cm cmp es (Contains k) = (if es = [] then None else Some (es, Flag (has_key k es)))"
| "ref_call cm cmp es (Get k) = Some (es, lookup_result (map_of es k))"
| "ref_call cm cmp es (Insert k v) = Some (upd_entries cmp k v es, Done)"
| "ref_call cm cmp es (InsertIfAbsent k v) = Some (add_entries cmp k v es, Flag (\<not> has_key k es))"
| "ref_call cm cmp es (GetOrInsert k v) =
     Some (add_entries cmp k v es, Val (case map_of es k of None \<Rightarrow> v | Some w \<Rightarrow> w))"
| "ref_call cm cmp es (GetOrDefault d k) =
     Some (add_entries cmp k d es, Val (case map_of es k of None \<Rightarrow> d | Some w \<Rightarrow> w))"
| "ref_call cm cmp es (IndexAssign d k v) = Some (upd_entries cmp k v es, Done)"
| "ref_call cm cmp es (Remove k) = Some (del_entries k es, Flag (has_key k es))"
| "ref_call cm cmp es (GetAndRemove k) = Some (del_entries k es, lookup_result (map_of es k))"
| "ref_call cm cmp es (RemoveAll p) = Some (filter (\<lambda>(k, v). \<not> p k v) es, Done)"
| "ref_call cm cmp es (GetCeiling k) =
     Some (es, thrown Ent (first_such (cm es) (\<lambda>e. \<not> cmp (fst e) k) es))"
| "ref_call cm cmp es (GetFloor k) =
     Some (es, thrown Ent (last_such ''No floor entry exists in this map'' (\<lambda>e. \<not> cmp k (fst e)) es))"
| "ref_call cm cmp es (GetHigher k) =
     Some (es, thrown Ent (first_such ''No higher entry exists in this map'' (\<lambda>e. cmp k (fst e)) es))"
| "ref_call cm cmp es (GetLower k) =
     Some (es, thrown Ent (last_such ''No lower entry exists in this map'' (\<lambda>e. cmp (fst e) k) es))"
| "ref_call cm cmp es ToEntryList = Some (es, Entries es)"
| "ref_call cm cmp es (ForEach f) = Some (es, Entries (fold (\<lambda>(k, v). f k v) es []))"
| "ref_call cm cmp es (ForEachMut f) =
     (let (es', tr) = thread_values f es [] in Some (es', Entries tr))"

fun ref_calls ::
  "('k, 'v) message \<Rightarrow> 'k compare \<Rightarrow> ('k \<times> 'v) list \<Rightarrow> ('k, 'v) map_call list \<Rightarrow>
     (('k \<times> 'v) list \<times> ('k, 'v) map_result list) option" where
  "ref_calls cm cmp es [] = Some (es, [])"
| "ref_calls cm cmp es (op # ops) = do {
     (es1, res) \<leftarrow> ref_call cm cmp es op;
     (es2, ress) \<leftarrow> ref_calls cm cmp es1 ops;
     Some (es2, res # ress)
   }"

text \<open>A sequence has no result exactly when it asks an empty map whether it contains a key.\<close>

lemma ref_call_None: "ref_call cm cmp es op = None \<longleftrightarrow> es = [] \<and> (\<exists>k. op = Contains k)"
  by (cases op) (auto split: prod.split)

lemma ref_calls_None:
  "ref_calls cm cmp es ops = None \<longleftrightarrow>
    (\<exists>before k after ress. ops = before @ Contains k # after \<and> ref_calls cm cmp es before = Some ([], ress))"
proof (induction ops arbitrary: es)
  case (Cons op ops)
  show ?case
  proof (cases "ref_call cm cmp es op")
    case None
    then obtain k where "op = Contains k" "es = []"
      by (auto simp: ref_call_None)
    then have "op # ops = [] @ Contains k # ops \<and> ref_calls cm cmp es [] = Some ([], [])"
      by simp
    with None show ?thesis
      by (metis bind.bind_lzero ref_calls.simps(2))
  next
    case (Some r)
    obtain es1 res where r: "r = (es1, res)" by force
    have "(\<exists>before k after ress. op # ops = before @ Contains k # after \<and> ref_calls cm cmp es before = Some ([], ress)) \<longleftrightarrow>
        (\<exists>before k after ress. ops = before @ Contains k # after \<and> ref_calls cm cmp es1 before = Some ([], ress))"
      (is "?L \<longleftrightarrow> ?R")
    proof
      assume ?L
      then obtain before k after ress where b: "op # ops = before @ Contains k # after"
          "ref_calls cm cmp es before = Some ([], ress)"
        by blast
      with Some show ?R
        by (cases before) (auto simp: r ref_call_None [symmetric] split: bind_splits)
    next
      assume ?R
      then obtain before k after ress where b: "ops = before @ Contains k # after"
          "ref_calls cm cmp es1 before = Some ([], ress)"
        by blast
      then have "op # ops = (op # before) @ Contains k # after"
          "ref_calls cm cmp es (op # before) = Some ([], res # ress)"
        using Some by (simp_all add: r)
      then show ?L by blast
    qed
    moreover have "ref_calls cm cmp es (op # ops) = None \<longleftrightarrow> ref_calls cm cmp es1 ops = None"
      using Some r by (auto split: bind_splits)
    ultimately show ?thesis
      using Cons.IH [of es1] by (simp only:)
  qed
qed simp

text \<open>The outcome \<open>r\<close> of a class is that of the reference.\<close>

definition agrees ::
  "('m \<Rightarrow> bool) \<Rightarrow> ('m \<Rightarrow> ('k \<times> 'v) list) \<Rightarrow> ('m \<times> 'r) option \<Rightarrow> (('k \<times> 'v) list \<times> 'r) option \<Rightarrow> bool" where
  "agrees ok_map entries r ref = (case ref of None \<Rightarrow> r = None
     | Some (es, res) \<Rightarrow> \<exists>m. r = Some (m, res) \<and> ok_map m \<and> entries m = es)"

lemma agrees_simps [simp]:
  "agrees ok_map entries r None \<longleftrightarrow> r = None"
  "agrees ok_map entries r (Some (es, res)) \<longleftrightarrow> (\<exists>m. r = Some (m, res) \<and> ok_map m \<and> entries m = es)"
  by (simp_all add: agrees_def)

lemma agrees_results: "agrees ok_map entries r ref \<Longrightarrow> map_option snd r = map_option snd ref"
  by (auto simp: agrees_def split: option.splits)

lemma agrees_outcome:
  "agrees ok_map entries r ref \<Longrightarrow>
    case ref of None \<Rightarrow> r = None | Some (es, res) \<Rightarrow> \<exists>m. r = Some (m, res) \<and> entries m = es"
  by (auto simp: agrees_def split: option.splits)

text \<open>Calls that agree one by one agree as a sequence; \<open>ok\<close> is what is known of the calls on the way.\<close>

lemma calls_agree:
  assumes "ok_map m" and "ok (entries m) ops"
    and step: "\<And>m op ops. ok_map m \<Longrightarrow> ok (entries m) (op # ops) \<Longrightarrow>
      agrees ok_map entries (call c m op) (ref_call cm cmp (entries m) op)"
    and next_ok: "\<And>es op ops es1 res. ok es (op # ops) \<Longrightarrow> ref_call cm cmp es op = Some (es1, res) \<Longrightarrow> ok es1 ops"
  shows "agrees ok_map entries (calls c m ops) (ref_calls cm cmp (entries m) ops)"
  using assms(1,2)
proof (induction ops arbitrary: m)
  case (Cons op ops)
  show ?case
  proof (cases "ref_call cm cmp (entries m) op")
    case None
    then show ?thesis
      using step [OF Cons.prems] by simp
  next
    case (Some r)
    obtain es1 res where r: "r = (es1, res)" by force
    obtain m1 where m1: "call c m op = Some (m1, res)" "ok_map m1" "entries m1 = es1"
      using step [OF Cons.prems] Some r by auto
    have "ok (entries m1) ops"
      using next_ok [OF Cons.prems(2)] Some r m1(3) by blast
    from Cons.IH [OF m1(2) this] show ?thesis
      using Some r m1 by (cases "ref_calls cm cmp es1 ops") auto
  qed
qed simp

section \<open>The laws of a map class\<close>

text \<open>
  \<open>growing_map\<close> has the laws of every operation that takes nothing out of the map; \<open>ordered_map\<close>
  adds those of the removing ones. \<open>entries\<close> is the sorted entry list a map stands for.
\<close>

locale growing_map = compare_order compare
  for compare :: "'k compare" +
  fixes cls :: "('m, 'k, 'v) map_class" and wf :: "'m \<Rightarrow> bool" and entries :: "'m \<Rightarrow> ('k \<times> 'v) list"
    and cm :: "('k, 'v) message"
  assumes wf_new: "wf (m_new cls)"
    and new_entries: "entries (m_new cls) = []"
    and wf_sorted: "wf m \<Longrightarrow> sorted_keys compare (entries m)"
    and toEntryList_law: "wf m \<Longrightarrow> m_toEntryList cls m = Some (entries m)"
    and size_law: "wf m \<Longrightarrow> m_size cls m = length (entries m)"
    and empty_law: "wf m \<Longrightarrow> m_empty cls m = (entries m = [])"
    and clear_law: "wf m \<Longrightarrow> \<exists>m'. m_clear cls m = Some m' \<and> wf m' \<and> entries m' = []"
    and contains_law: "wf m \<Longrightarrow>
      m_contains cls m k = (if entries m = [] then None else Some (has_key k (entries m)))"
    and get_law: "wf m \<Longrightarrow> m_get cls m k =
      Some (case map_of (entries m) k of None \<Rightarrow> Inl invalid_key | Some v \<Rightarrow> Inr v)"
    and insert_law: "wf m \<Longrightarrow> \<exists>m'. m_insert cls m k v = Some m' \<and> wf m' \<and>
      entries m' = upd_entries compare k v (entries m)"
    and insertIfAbsent_law: "wf m \<Longrightarrow> \<exists>m'.
      m_insertIfAbsent cls m k v = Some (m', \<not> has_key k (entries m)) \<and> wf m' \<and>
      entries m' = add_entries compare k v (entries m)"
    and getOrInsert_law: "wf m \<Longrightarrow> m_getOrInsert cls m k v =
      map_option (\<lambda>(m', _). (m', case map_of (entries m) k of None \<Rightarrow> v | Some w \<Rightarrow> w))
        (m_insertIfAbsent cls m k v)"
    and getOrDefault_law: "wf m \<Longrightarrow> m_getOrDefault cls d m k = m_getOrInsert cls m k d"
    and index_assign_law: "wf m \<Longrightarrow> \<exists>m'. m_index_assign cls d m k v = Some m' \<and> wf m' \<and>
      entries m' = upd_entries compare k v (entries m)"
    and forEach_law: "wf m \<Longrightarrow> m_forEach cls f m tr = Some (fold (\<lambda>(k, v). f k v) (entries m) tr)"
    and forEachMut_law: "wf m \<Longrightarrow> \<exists>m'.
      m_forEachMut cls g m tr = Some (m', snd (thread_values g (entries m) tr)) \<and> wf m' \<and>
      entries m' = fst (thread_values g (entries m) tr)"
    and ceiling_law: "wf m \<Longrightarrow> m_ceiling cls m k =
      Some (first_such (cm (entries m)) (\<lambda>e. \<not> compare (fst e) k) (entries m))"
    and floor_law: "wf m \<Longrightarrow> m_floor cls m k =
      Some (last_such ''No floor entry exists in this map'' (\<lambda>e. \<not> compare k (fst e)) (entries m))"
    and higher_law: "wf m \<Longrightarrow> m_higher cls m k =
      Some (first_such ''No higher entry exists in this map'' (\<lambda>e. compare k (fst e)) (entries m))"
    and lower_law: "wf m \<Longrightarrow> m_lower cls m k =
      Some (last_such ''No lower entry exists in this map'' (\<lambda>e. compare (fst e) k) (entries m))"
begin

lemmas query_laws =
  toEntryList_law size_law empty_law contains_law get_law getOrInsert_law getOrDefault_law forEach_law
  ceiling_law floor_law higher_law lower_law

lemma growing_call_refines:
  assumes "wf m" and "\<not> removing op"
  shows "agrees wf entries (call cls m op) (ref_call cm compare (entries m) op)"
proof (cases op)
  case Clear
  then show ?thesis
    using clear_law [OF assms(1)] by auto
next
  case (Insert k v)
  then show ?thesis
    using insert_law [OF assms(1), of k v] by auto
next
  case (InsertIfAbsent k v)
  then show ?thesis
    using insertIfAbsent_law [OF assms(1), of k v] by auto
next
  case (GetOrInsert k v)
  then show ?thesis
    using insertIfAbsent_law [OF assms(1), of k v] getOrInsert_law [OF assms(1), of k v] by auto
next
  case (GetOrDefault d k)
  then show ?thesis
    using insertIfAbsent_law [OF assms(1), of k d] getOrInsert_law [OF assms(1), of k d]
      getOrDefault_law [OF assms(1), of d k] by auto
next
  case (IndexAssign d k v)
  then show ?thesis
    using index_assign_law [OF assms(1), of d k v] by auto
next
  case (ForEachMut g)
  then show ?thesis
    using forEachMut_law [OF assms(1), of g "[]"] by (auto simp: split_def Let_def)
qed (use assms in \<open>auto simp: query_laws lookup_result_def split: option.split\<close>)

lemma growing_calls_refine:
  assumes "wf m" and "list_all (\<lambda>op. \<not> removing op) ops"
  shows "agrees wf entries (calls cls m ops) (ref_calls cm compare (entries m) ops)"
  by (rule calls_agree [where ok = "\<lambda>_. list_all (\<lambda>op. \<not> removing op)"])
    (use assms in \<open>auto intro: growing_call_refines\<close>)

text \<open>An invariant that every call but the removing ones keeps holds after any sequence of them.\<close>

lemma calls_without_removal_keep:
  assumes "I (m_new cls)" and "list_all (\<lambda>op. \<not> removing op) ops"
    and step: "\<And>m op m' res. wf m \<Longrightarrow> I m \<Longrightarrow> \<not> removing op \<Longrightarrow>
      call cls m op = Some (m', res) \<Longrightarrow> I m'"
  shows "agrees (\<lambda>m. wf m \<and> I m) entries (calls cls (m_new cls) ops) (ref_calls cm compare [] ops)"
proof -
  have "agrees (\<lambda>m. wf m \<and> I m) entries (call cls m op) (ref_call cm compare (entries m) op)"
    if "wf m \<and> I m" and "\<not> removing op" for m op
    using growing_call_refines [of m op] step [of m op] that by (auto simp: agrees_def split: option.splits)
  then have "agrees (\<lambda>m. wf m \<and> I m) entries (calls cls (m_new cls) ops)
      (ref_calls cm compare (entries (m_new cls)) ops)"
    by (intro calls_agree [where ok = "\<lambda>_. list_all (\<lambda>op. \<not> removing op)"])
      (use assms(1,2) wf_new in auto)
  then show ?thesis
    by (simp add: new_entries)
qed

text \<open>What a lookup returns after an update.\<close>

lemma get_insert:
  assumes "wf m"
  shows "m_insert cls m k v \<bind> (\<lambda>m'. m_get cls m' k') =
    (if k' = k then Some (Inr v) else m_get cls m k')"
  using insert_law [OF assms, of k v] assms by (auto simp: get_law map_of_upd_entries)

end

locale ordered_map = growing_map compare cls wf entries cm
  for compare :: "'k compare" and cls :: "('m, 'k, 'v) map_class" and wf entries cm +
  assumes remove_law: "wf m \<Longrightarrow> \<exists>m'.
      m_remove cls m k = Some (m', has_key k (entries m)) \<and> wf m' \<and>
      entries m' = del_entries k (entries m)"
    and getAndRemove_law: "wf m \<Longrightarrow> m_getAndRemove cls m k =
      map_option (\<lambda>(m', _). case map_of (entries m) k of
          None \<Rightarrow> Inl invalid_key | Some v \<Rightarrow> Inr (m', v)) (m_remove cls m k)"
    and removeAll_law: "wf m \<Longrightarrow> \<exists>m'. m_removeAll cls p m = Some m' \<and> wf m' \<and>
      entries m' = filter (\<lambda>(k, v). \<not> p k v) (entries m)"
begin

lemma del_entries_no_mapping: "map_of es k = None \<Longrightarrow> del_entries k es = es"
  by (simp add: del_entries_absent has_key_map_of)

lemma call_refines:
  assumes "wf m"
  shows "agrees wf entries (call cls m op) (ref_call cm compare (entries m) op)"
proof (cases "removing op")
  case False
  then show ?thesis by (rule growing_call_refines [OF assms])
next
  case True
  then consider k where "op = Remove k" | k where "op = GetAndRemove k" | p where "op = RemoveAll p"
    by (cases op) auto
  then show ?thesis
  proof cases
    case (1 k)
    then show ?thesis
      using remove_law [OF assms, of k] by auto
  next
    case (2 k)
    then show ?thesis
      using remove_law [OF assms, of k] getAndRemove_law [OF assms, of k] assms
      by (auto simp: lookup_result_def del_entries_no_mapping split: option.split)
  next
    case (3 p)
    then show ?thesis
      using removeAll_law [OF assms, of p] by auto
  qed
qed

lemma calls_refine: "wf m \<Longrightarrow> agrees wf entries (calls cls m ops) (ref_calls cm compare (entries m) ops)"
  by (rule calls_agree [where ok = "\<lambda>_ _. True"]) (simp_all add: call_refines)

lemma fresh_map_refines: "agrees wf entries (calls cls (m_new cls) ops) (ref_calls cm compare [] ops)"
  using calls_refine [OF wf_new] by (simp add: new_entries)

lemma fresh_map_fails:
  "calls cls (m_new cls) ops = None \<longleftrightarrow>
    (\<exists>before k after m ress. ops = before @ Contains k # after \<and>
      calls cls (m_new cls) before = Some (m, ress) \<and> entries m = [])"
proof -
  have "ref_calls cm compare [] before = Some ([], ress) \<longleftrightarrow>
      (\<exists>m. calls cls (m_new cls) before = Some (m, ress) \<and> entries m = [])" for before ress
    using fresh_map_refines [of before] by (auto simp: agrees_def split: option.splits)
  moreover have "calls cls (m_new cls) ops = None \<longleftrightarrow> ref_calls cm compare [] ops = None"
    using fresh_map_refines [of ops] by (auto simp: agrees_def split: option.splits)
  ultimately show ?thesis
    by (simp add: ref_calls_None) blast
qed

lemma get_remove:
  assumes "wf m"
  shows "m_remove cls m k \<bind> (\<lambda>(m', _). m_get cls m' k') =
    (if k' = k then Some (Inl invalid_key) else m_get cls m k')"
  using remove_law [OF assms, of k] assms by (auto simp: get_law map_of_del_entries)

end

text \<open>Two classes with the same laws cannot be told apart by their results.\<close>

lemma same_results:
  assumes "ordered_map cmp c1 wf1 es1 cm" and "ordered_map cmp c2 wf2 es2 cm"
  shows "map_option snd (calls c1 (m_new c1) ops) = map_option snd (calls c2 (m_new c2) ops)"
  using agrees_results [OF ordered_map.fresh_map_refines [OF assms(1), of ops]]
    agrees_results [OF ordered_map.fresh_map_refines [OF assms(2), of ops]] by simp

end
