(* ===== verification/SearchTree.thy ===== *)
theory SearchTree
  imports MapInterface
begin

text \<open>
  The binary search tree under \<^verbatim>\<open>AvlTreeMap.hpp\<close> and \<^verbatim>\<open>SizeBalancedTreeMap.hpp\<close>.
  Both classes have the same \<open>Node\<close> struct but for one counter field (\<open>height\<close> in the one,
  \<open>size\<close> in the other, the field \<open>aug\<close> here) and, word for word, the same read-only code:
  \<open>getNode\<close>, \<open>get\<close>, \<open>contains\<close>, the four neighbour searches with their stack of ancestors,
  and the stack-based \<open>inorderTraversal\<close>. That code is modelled here once, over the root
  pointer. A \<open>NodePtr\<close> (\<open>shared_ptr<Node>\<close>) is a value of \<open>node_ptr\<close>: every node of these
  trees has exactly one owner, so a pointer is the subtree it points to. Two sibling subtrees
  of a search tree have different keys, so the pointer comparisons \<open>node == parent->right\<close>
  of the neighbour searches are equality of subtrees.
\<close>

section \<open>Nodes\<close>

datatype ('k, 'v) node_ptr =
    nullptr
  | Node (left: "('k, 'v) node_ptr") (key: 'k) (val: 'v) (aug: nat) (right: "('k, 'v) node_ptr")
where
  "left nullptr = nullptr"
| "right nullptr = nullptr"
| "aug nullptr = 0"

text \<open>\<open>Node::from(k, v)\<close>: a fresh node, both children null, counter 1.\<close>

definition from_node :: "'k \<Rightarrow> 'v \<Rightarrow> ('k, 'v) node_ptr" where
  "from_node k v = Node nullptr k v 1 nullptr"

definition isLeaf :: "('k, 'v) node_ptr \<Rightarrow> bool" where
  "isLeaf t = (left t = nullptr \<and> right t = nullptr)"

definition entry :: "('k, 'v) node_ptr \<Rightarrow> 'k \<times> 'v" where
  "entry t = (key t, val t)"

text \<open>The entries of a tree from left to right: the abstraction every specification is about.\<close>

fun inorder :: "('k, 'v) node_ptr \<Rightarrow> ('k \<times> 'v) list" where
  "inorder nullptr = []"
| "inorder (Node l k v a r) = inorder l @ (k, v) # inorder r"

definition bst :: "'k compare \<Rightarrow> ('k, 'v) node_ptr \<Rightarrow> bool" where
  "bst cmp t = sorted_keys cmp (inorder t)"

section \<open>Lookup\<close>

fun getNode :: "'k compare \<Rightarrow> ('k, 'v) node_ptr \<Rightarrow> 'k \<Rightarrow> ('k, 'v) node_ptr option" where
  "getNode cmp nullptr k = None"
| "getNode cmp (Node l x v a r) k =
     (if k = x then Some (Node l x v a r)
      else if cmp k x then (if l = nullptr then Some nullptr else getNode cmp l k)
      else (if r = nullptr then Some nullptr else getNode cmp r k))"

definition get_value :: "'k compare \<Rightarrow> ('k, 'v) node_ptr \<Rightarrow> 'k \<Rightarrow> 'v throws option" where
  "get_value cmp root k =
     (if root = nullptr then Some (Inl (NoSuchMappingException ''Invalid key''))
      else do {
        node \<leftarrow> getNode cmp root k;
        Some (if node \<noteq> nullptr then Inr (val node)
              else Inl (NoSuchMappingException ''Invalid key''))
      })"

definition contains_key :: "'k compare \<Rightarrow> ('k, 'v) node_ptr \<Rightarrow> 'k \<Rightarrow> bool option" where
  "contains_key cmp root k = do { node \<leftarrow> getNode cmp root k; Some (node \<noteq> nullptr) }"

text \<open>
  Writing through the \<open>Value &\<close> that \<open>getOrDefault\<close>, \<open>getOrInsert\<close> and \<open>operator[]\<close> return:
  the value field of the node that holds the key is assigned.
\<close>

fun set_value :: "'k compare \<Rightarrow> ('k, 'v) node_ptr \<Rightarrow> 'k \<Rightarrow> 'v \<Rightarrow> ('k, 'v) node_ptr" where
  "set_value cmp nullptr k v = nullptr"
| "set_value cmp (Node l x w a r) k v =
     (if k = x then Node l x v a r
      else if cmp k x then Node (set_value cmp l k v) x w a r
      else Node l x w a (set_value cmp r k v))"

section \<open>Neighbour searches\<close>

text \<open>
  \<open>climb_right\<close> is the loop \<open>while (node == parent->right)\<close> over the stack of ancestors, with
  the throw on an empty stack; \<open>climb_left\<close> is its mirror image.
\<close>

fun climb_right ::
  "string \<Rightarrow> ('k, 'v) node_ptr \<Rightarrow> ('k, 'v) node_ptr list \<Rightarrow> ('k \<times> 'v) throws" where
  "climb_right msg node [] = Inl (NoSuchMappingException msg)"
| "climb_right msg node (parent # ancestors) =
     (if node = right parent then climb_right msg parent ancestors else Inr (entry parent))"

fun climb_left ::
  "string \<Rightarrow> ('k, 'v) node_ptr \<Rightarrow> ('k, 'v) node_ptr list \<Rightarrow> ('k \<times> 'v) throws" where
  "climb_left msg node [] = Inl (NoSuchMappingException msg)"
| "climb_left msg node (parent # ancestors) =
     (if node = left parent then climb_left msg parent ancestors else Inr (entry parent))"

fun ceiling_loop ::
  "'k compare \<Rightarrow> 'k \<Rightarrow> ('k, 'v) node_ptr \<Rightarrow> ('k, 'v) node_ptr list \<Rightarrow> ('k \<times> 'v) throws" where
  "ceiling_loop cmp k nullptr anc = Inl (NoSuchMappingException ''No ceiling entry in this map'')"
| "ceiling_loop cmp k (Node l x v a r) anc =
     (if k = x then Inr (x, v)
      else if cmp k x then
        (if l \<noteq> nullptr then ceiling_loop cmp k l (Node l x v a r # anc) else Inr (x, v))
      else
        (if r \<noteq> nullptr then ceiling_loop cmp k r (Node l x v a r # anc)
         else climb_right ''No ceiling entry in this map'' (Node l x v a r) anc))"

definition getCeilingEntry :: "'k compare \<Rightarrow> ('k, 'v) node_ptr \<Rightarrow> 'k \<Rightarrow> ('k \<times> 'v) throws" where
  "getCeilingEntry cmp root k =
     (if root = nullptr then Inl (NoSuchMappingException ''No ceiling entry in this map'')
      else ceiling_loop cmp k root [])"

fun floor_loop ::
  "'k compare \<Rightarrow> 'k \<Rightarrow> ('k, 'v) node_ptr \<Rightarrow> ('k, 'v) node_ptr list \<Rightarrow> ('k \<times> 'v) throws" where
  "floor_loop cmp k nullptr anc = Inl (NoSuchMappingException ''No floor entry exists in this map'')"
| "floor_loop cmp k (Node l x v a r) anc =
     (if k = x then Inr (x, v)
      else if cmp k x then
        (if l \<noteq> nullptr then floor_loop cmp k l (Node l x v a r # anc)
         else climb_left ''No floor entry exists in this map'' (Node l x v a r) anc)
      else
        (if r \<noteq> nullptr then floor_loop cmp k r (Node l x v a r # anc) else Inr (x, v)))"

definition getFloorEntry :: "'k compare \<Rightarrow> ('k, 'v) node_ptr \<Rightarrow> 'k \<Rightarrow> ('k \<times> 'v) throws" where
  "getFloorEntry cmp root k =
     (if root = nullptr then Inl (NoSuchMappingException ''No floor entry exists in this map'')
      else floor_loop cmp k root [])"

fun higher_loop ::
  "'k compare \<Rightarrow> 'k \<Rightarrow> ('k, 'v) node_ptr \<Rightarrow> ('k, 'v) node_ptr list \<Rightarrow> ('k \<times> 'v) throws" where
  "higher_loop cmp k nullptr anc = Inl (NoSuchMappingException ''No higher entry exists in this map'')"
| "higher_loop cmp k (Node l x v a r) anc =
     (if cmp k x then
        (if l \<noteq> nullptr then higher_loop cmp k l (Node l x v a r # anc) else Inr (x, v))
      else
        (if r \<noteq> nullptr then higher_loop cmp k r (Node l x v a r # anc)
         else climb_right ''No higher entry exists in this map'' (Node l x v a r) anc))"

definition getHigherEntry :: "'k compare \<Rightarrow> ('k, 'v) node_ptr \<Rightarrow> 'k \<Rightarrow> ('k \<times> 'v) throws" where
  "getHigherEntry cmp root k =
     (if root = nullptr then Inl (NoSuchMappingException ''No higher entry exists in this map'')
      else higher_loop cmp k root [])"

fun lower_loop ::
  "'k compare \<Rightarrow> 'k \<Rightarrow> ('k, 'v) node_ptr \<Rightarrow> ('k, 'v) node_ptr list \<Rightarrow> ('k \<times> 'v) throws" where
  "lower_loop cmp k nullptr anc = Inl (NoSuchMappingException ''No lower entry exists in this map'')"
| "lower_loop cmp k (Node l x v a r) anc =
     (if cmp k x \<or> k = x then
        (if l \<noteq> nullptr then lower_loop cmp k l (Node l x v a r # anc)
         else climb_left ''No lower entry exists in this map'' (Node l x v a r) anc)
      else
        (if r \<noteq> nullptr then lower_loop cmp k r (Node l x v a r # anc) else Inr (x, v)))"

definition getLowerEntry :: "'k compare \<Rightarrow> ('k, 'v) node_ptr \<Rightarrow> 'k \<Rightarrow> ('k \<times> 'v) throws" where
  "getLowerEntry cmp root k =
     (if root = nullptr then Inl (NoSuchMappingException ''No lower entry exists in this map'')
      else lower_loop cmp k root [])"

section \<open>Traversal\<close>

text \<open>
  \<open>inorderTraversal(action)\<close>: the callback is a state transformer. \<open>push_left\<close> is the inner loop
  \<open>while (node != nullptr)\<close>, \<open>traverse_loop\<close> the outer one. Each round pops one node, so the
  number of nodes still to visit decreases.
\<close>

fun push_left :: "('k, 'v) node_ptr \<Rightarrow> ('k, 'v) node_ptr list \<Rightarrow> ('k, 'v) node_ptr list" where
  "push_left nullptr stack = stack"
| "push_left (Node l k v a r) stack = push_left l (Node l k v a r # stack)"

definition pending :: "('k, 'v) node_ptr list \<Rightarrow> nat" where
  "pending stack = sum_list (map (\<lambda>n. Suc (length (inorder (right n)))) stack)"

lemma pending_simps [simp]:
  "pending [] = 0"
  "pending (n # stack) = Suc (length (inorder (right n))) + pending stack"
  by (simp_all add: pending_def)

lemma pending_push_left: "pending (push_left t stack) = length (inorder t) + pending stack"
  by (induction t stack rule: push_left.induct) simp_all

function traverse_loop ::
  "(('k, 'v) node_ptr \<Rightarrow> 's \<Rightarrow> 's) \<Rightarrow> ('k, 'v) node_ptr \<Rightarrow> ('k, 'v) node_ptr list \<Rightarrow> 's \<Rightarrow> 's" where
  "traverse_loop action node stack s =
     (case push_left node stack of
        [] \<Rightarrow> s
      | n # rest \<Rightarrow> traverse_loop action (right n) rest (action n s))"
  by pat_completeness auto
termination
  by (relation "measure (\<lambda>(action, node, stack, s). length (inorder node) + pending stack)")
    (auto dest!: arg_cong [where f = pending] simp: pending_push_left)

declare traverse_loop.simps [simp del]

definition inorderTraversal ::
  "(('k, 'v) node_ptr \<Rightarrow> 's \<Rightarrow> 's) \<Rightarrow> ('k, 'v) node_ptr \<Rightarrow> 's \<Rightarrow> 's" where
  "inorderTraversal action root s = (if root = nullptr then s else traverse_loop action root [] s)"

definition forEach :: "('k \<Rightarrow> 'v \<Rightarrow> 's \<Rightarrow> 's) \<Rightarrow> ('k, 'v) node_ptr \<Rightarrow> 's \<Rightarrow> 's" where
  "forEach action root s = inorderTraversal (\<lambda>node. action (key node) (val node)) root s"

text \<open>
  \<open>forEachMut\<close>: the callback gets a mutable reference to the value, so it returns the value it
  leaves behind, which is stored in the visited node.
\<close>

definition forEachMut ::
  "'k compare \<Rightarrow> ('k \<Rightarrow> 'v \<Rightarrow> 's \<Rightarrow> 'v \<times> 's) \<Rightarrow> ('k, 'v) node_ptr \<Rightarrow> 's \<Rightarrow> ('k, 'v) node_ptr \<times> 's" where
  "forEachMut cmp action root s =
     inorderTraversal
       (\<lambda>node (t, s). let (v, s') = action (key node) (val node) s
                      in (set_value cmp t (key node) v, s'))
       root (root, s)"

definition toEntryList :: "('k, 'v) node_ptr \<Rightarrow> ('k \<times> 'v) list" where
  "toEntryList root = inorderTraversal (\<lambda>node entryList. entryList @ [entry node]) root []"

text \<open>The keys \<open>removeAll\<close> collects before it removes them one by one.\<close>

definition matching_keys :: "('k \<Rightarrow> 'v \<Rightarrow> bool) \<Rightarrow> ('k, 'v) node_ptr \<Rightarrow> 'k list" where
  "matching_keys filt root =
     inorderTraversal (\<lambda>node keys. if filt (key node) (val node) then keys @ [key node] else keys) root []"

section \<open>The traversal visits the nodes from left to right\<close>

fun nodes :: "('k, 'v) node_ptr \<Rightarrow> ('k, 'v) node_ptr list" where
  "nodes nullptr = []"
| "nodes (Node l k v a r) = nodes l @ Node l k v a r # nodes r"

lemma map_entry_nodes: "map entry (nodes t) = inorder t"
  by (induction t) (simp_all add: entry_def)

lemma traverse_loop_push_left:
  "traverse_loop action t stack s = traverse_loop action nullptr (push_left t stack) s"
  by (simp add: traverse_loop.simps [of action t stack] traverse_loop.simps [of action nullptr])

lemma traverse_loop_pop:
  "traverse_loop action nullptr (n # stack) s = traverse_loop action (right n) stack (action n s)"
  by (simp add: traverse_loop.simps [of action nullptr])

lemma traverse_loop_node:
  "traverse_loop action t stack s = traverse_loop action nullptr stack (fold action (nodes t) s)"
proof (induction t arbitrary: stack s)
  case nullptr
  then show ?case by simp
next
  case (Node l k v a r)
  let ?t = "Node l k v a r"
  have "traverse_loop action ?t stack s = traverse_loop action l (?t # stack) s"
    by (simp add: traverse_loop_push_left [of action ?t] traverse_loop_push_left [of action l])
  also have "\<dots> = traverse_loop action nullptr (?t # stack) (fold action (nodes l) s)"
    by (rule Node.IH(1))
  also have "\<dots> = traverse_loop action r stack (action ?t (fold action (nodes l) s))"
    by (simp add: traverse_loop_pop)
  finally show ?case
    by (simp add: Node.IH(2))
qed

lemma inorderTraversal_fold: "inorderTraversal action t s = fold action (nodes t) s"
proof (cases "t = nullptr")
  case False
  then show ?thesis
    by (simp add: inorderTraversal_def traverse_loop_node [of action t]
        traverse_loop.simps [of action nullptr])
qed (simp add: inorderTraversal_def)

lemma fold_snoc: "fold (\<lambda>x ys. ys @ [f x]) xs acc = acc @ map f xs"
  by (induction xs arbitrary: acc) simp_all

lemma fold_snoc_if:
  "fold (\<lambda>x ys. if P x then ys @ [f x] else ys) xs acc = acc @ map f (filter P xs)"
  by (induction xs arbitrary: acc) simp_all

lemma toEntryList_inorder: "toEntryList t = inorder t"
  by (simp add: toEntryList_def inorderTraversal_fold fold_snoc map_entry_nodes)

lemma forEach_fold: "forEach action t s = fold (\<lambda>(k, v). action k v) (inorder t) s"
  by (simp add: forEach_def inorderTraversal_fold flip: map_entry_nodes)
    (simp add: fold_map entry_def comp_def)

lemma matching_keys_filter:
  "matching_keys filt t = map fst (filter (\<lambda>(k, v). filt k v) (inorder t))"
  by (simp add: matching_keys_def inorderTraversal_fold fold_snoc_if flip: map_entry_nodes)
    (simp add: filter_map entry_def comp_def)

text \<open>\<open>forEachMut\<close> only assigns values, so it keeps what an assignment of a value keeps.\<close>

lemma forEachMut_keeps:
  assumes "\<And>t k v. P (set_value cmp t k v) \<longleftrightarrow> P t"
  shows "P (fst (forEachMut cmp action t s)) \<longleftrightarrow> P t"
proof -
  have "P (fst (fold (\<lambda>node (t, s). let (v, s') = action (key node) (val node) s
      in (set_value cmp t (key node) v, s')) ns (u, s))) \<longleftrightarrow> P u" for ns u s
    by (induction ns arbitrary: u s) (simp_all add: assms split_def Let_def)
  then show ?thesis
    by (simp add: forEachMut_def inorderTraversal_fold)
qed

lemma length_inorder_set_value [simp]: "length (inorder (set_value cmp t k v)) = length (inorder t)"
  by (induction t) auto

section \<open>Lookup and neighbour searches on search trees\<close>

lemma inorder_from_node [simp]: "inorder (from_node k v) = [(k, v)]"
  by (simp add: from_node_def)

lemma from_node_sel [simp]: "key (from_node k v) = k" "val (from_node k v) = v" "aug (from_node k v) = 1"
  by (simp_all add: from_node_def)

lemma from_node_neq [simp]: "from_node k v \<noteq> nullptr" "nullptr \<noteq> from_node k v"
  by (simp_all add: from_node_def)

lemma bst_simps [simp]:
  "bst cmp nullptr"
  "bst cmp (Node l k v a r) \<longleftrightarrow> bst cmp l \<and> bst cmp r \<and>
     (\<forall>e \<in> set (inorder l). cmp (fst e) k) \<and> (\<forall>e \<in> set (inorder r). cmp k (fst e)) \<and>
     (\<forall>e \<in> set (inorder l). \<forall>f \<in> set (inorder r). cmp (fst e) (fst f))"
  by (auto simp: bst_def)

lemma bst_from_node [simp]: "bst cmp (from_node k v)"
  by (simp add: bst_def)

lemma set_value_eq_nullptr [simp]: "set_value cmp t k v = nullptr \<longleftrightarrow> t = nullptr"
  by (cases t) simp_all

lemma inorder_eq_Nil [simp]: "inorder t = [] \<longleftrightarrow> t = nullptr"
  by (cases t) auto

lemma find_append: "List.find P (xs @ ys) = (case List.find P xs of None \<Rightarrow> List.find P ys | Some x \<Rightarrow> Some x)"
  by (induction xs) auto

context compare_order
begin

lemma siblings_differ:
  assumes "bst compare (Node l x v a r)" and "l \<noteq> nullptr"
  shows "l \<noteq> r"
proof
  assume "l = r"
  obtain e where e: "e \<in> set (inorder l)"
    using assms(2) by (cases l) auto
  with \<open>l = r\<close> assms(1) have "compare (fst e) (fst e)"
    by fastforce
  then show False
    using compare_irrefl by blast
qed

lemma map_of_inorder_Node:
  assumes "bst compare (Node l x v a r)"
  shows "map_of (inorder (Node l x v a r)) k =
    (if k = x then Some v else if compare k x then map_of (inorder l) k else map_of (inorder r) k)"
proof (cases k x rule: compare_cases)
  case less
  then have "map_of (inorder r) k = None"
    using assms parts_below(4) [of k x "inorder r"] by auto
  with less show ?thesis
    using compare_neq by (fastforce simp: map_add_def split: option.split)
next
  case equal
  then have "map_of (inorder l) k = None"
    using assms parts_at_left(4) [of "inorder l" k] by auto
  with equal show ?thesis
    by (simp add: map_add_def)
next
  case greater
  then have "map_of (inorder l) k = None"
    using assms parts_above(4) [of x k "inorder l"] by auto
  with greater show ?thesis
    using compare_neq compare_asym by (fastforce simp: map_add_def)
qed

lemma getNode_map_of:
  assumes "bst compare t" and "t \<noteq> nullptr"
  shows "\<exists>n. getNode compare t k = Some n \<and>
    (if n = nullptr then map_of (inorder t) k = None
     else key n = k \<and> map_of (inorder t) k = Some (val n))"
  using assms
proof (induction t)
  case (Node l x v a r)
  have "bst compare l" "bst compare r"
    using Node.prems(1) by simp_all
  with Node.IH show ?case
    unfolding map_of_inorder_Node [OF Node.prems(1)] by (simp del: inorder.simps) (metis inorder.simps(1) map_of.simps(1))
qed simp

lemma get_value_map_of:
  assumes "bst compare t"
  shows "get_value compare t k =
    Some (case map_of (inorder t) k of
            None \<Rightarrow> Inl (NoSuchMappingException ''Invalid key'') | Some v \<Rightarrow> Inr v)"
proof (cases "t = nullptr")
  case False
  then show ?thesis
    using getNode_map_of [OF assms, of k] by (auto simp: get_value_def split: if_splits)
qed (simp add: get_value_def)

lemma contains_key_has_key:
  assumes "bst compare t"
  shows "contains_key compare t k = (if inorder t = [] then None else Some (has_key k (inorder t)))"
  using getNode_map_of [OF assms, of k]
  by (auto simp: contains_key_def has_key_map_of split: if_splits)

text \<open>The reference operations on the entries of a node, by the side the key falls on.\<close>

lemma entries_left:
  assumes "bst compare (Node l x w a r)" and "compare k x"
  shows "put_entries compare replace k v (inorder l @ (x, w) # inorder r) =
      put_entries compare replace k v (inorder l) @ (x, w) # inorder r"
    and "has_key k (inorder l @ (x, w) # inorder r) = has_key k (inorder l)"
    and "del_entries k (inorder l @ (x, w) # inorder r) =
      del_entries k (inorder l) @ (x, w) # inorder r"
    and "map_of (inorder l @ (x, w) # inorder r) k = map_of (inorder l) k"
proof -
  have r: "\<forall>e \<in> set (inorder r). compare x (fst e)"
    using assms by simp
  note r_parts = parts_below [OF assms(2) r]
  show "put_entries compare replace k v (inorder l @ (x, w) # inorder r) =
      put_entries compare replace k v (inorder l) @ (x, w) # inorder r"
    using assms(2) r_parts compare_asym compare_neq
    by (fastforce simp: put_entries_def add_entries_def upd_entries_def parts_Cons)
  show "has_key k (inorder l @ (x, w) # inorder r) = has_key k (inorder l)"
    using assms(2) r_parts(3) compare_neq by fastforce
  show "del_entries k (inorder l @ (x, w) # inorder r) =
      del_entries k (inorder l) @ (x, w) # inorder r"
    using assms(2) r_parts(3) compare_neq by (fastforce simp: del_entries_absent)
  show "map_of (inorder l @ (x, w) # inorder r) k = map_of (inorder l) k"
    using map_of_inorder_Node [OF assms(1), of k] assms(2) compare_neq by fastforce
qed

lemma entries_right:
  assumes "bst compare (Node l x w a r)" and "compare x k"
  shows "put_entries compare replace k v (inorder l @ (x, w) # inorder r) =
      inorder l @ (x, w) # put_entries compare replace k v (inorder r)"
    and "has_key k (inorder l @ (x, w) # inorder r) = has_key k (inorder r)"
    and "del_entries k (inorder l @ (x, w) # inorder r) =
      inorder l @ (x, w) # del_entries k (inorder r)"
    and "map_of (inorder l @ (x, w) # inorder r) k = map_of (inorder r) k"
proof -
  have l: "\<forall>e \<in> set (inorder l). compare (fst e) x"
    using assms by simp
  note l_parts = parts_above [OF assms(2) l]
  show "put_entries compare replace k v (inorder l @ (x, w) # inorder r) =
      inorder l @ (x, w) # put_entries compare replace k v (inorder r)"
    using assms(2) l_parts compare_asym compare_neq
    by (fastforce simp: put_entries_def add_entries_def upd_entries_def parts_Cons)
  show "has_key k (inorder l @ (x, w) # inorder r) = has_key k (inorder r)"
    using assms(2) l_parts(3) compare_neq by fastforce
  show "del_entries k (inorder l @ (x, w) # inorder r) =
      inorder l @ (x, w) # del_entries k (inorder r)"
    using assms(2) l_parts(3) compare_neq by (fastforce simp: del_entries_absent)
  show "map_of (inorder l @ (x, w) # inorder r) k = map_of (inorder r) k"
    using map_of_inorder_Node [OF assms(1), of k] assms(2) compare_neq compare_asym by fastforce
qed

lemma entries_here:
  assumes "bst compare (Node l k w a r)"
  shows "put_entries compare replace k v (inorder l @ (k, w) # inorder r) =
      inorder l @ (k, if replace then v else w) # inorder r"
    and "del_entries k (inorder l @ (k, w) # inorder r) = inorder l @ inorder r"
    and "map_of (inorder l @ (k, w) # inorder r) k = Some w"
proof -
  have l: "\<forall>e \<in> set (inorder l). compare (fst e) k" and r: "\<forall>e \<in> set (inorder r). compare k (fst e)"
    using assms by simp_all
  note parts = parts_at_left [OF l] parts_at_right [OF r]
  show "put_entries compare replace k v (inorder l @ (k, w) # inorder r) =
      inorder l @ (k, if replace then v else w) # inorder r"
    using parts by (simp add: put_entries_def add_entries_def upd_entries_def parts_Cons compare_irrefl)
  show "del_entries k (inorder l @ (k, w) # inorder r) = inorder l @ inorder r"
    using parts by (simp add: del_entries_absent)
  show "map_of (inorder l @ (k, w) # inorder r) k = Some w"
    using map_of_inorder_Node [OF assms, of k] by simp
qed

lemma ceiling_loop_find:
  assumes "bst compare t" and "t \<noteq> nullptr"
  shows "ceiling_loop compare k t anc =
    (case List.find (\<lambda>e. \<not> compare (fst e) k) (inorder t) of
       None \<Rightarrow> climb_right ''No ceiling entry in this map'' t anc | Some e \<Rightarrow> Inr e)"
  using assms
proof (induction t arbitrary: anc)
  case (Node l x v a r)
  have ne: "l \<noteq> nullptr \<Longrightarrow> l \<noteq> r"
    using siblings_differ [OF Node.prems(1)] .
  show ?case
  proof (cases k x rule: compare_cases)
    case less
    then show ?thesis
      using Node ne by (auto simp: find_append entry_def compare_asym dest: compare_neq split: option.split)
  next
    case equal
    then have "List.find (\<lambda>e. \<not> compare (fst e) k) (inorder l) = None"
      using Node.prems(1) find_none_below [of "inorder l" x k] by (simp add: compare_irrefl compare_asym)
    with equal show ?thesis
      by (simp add: find_append compare_irrefl)
  next
    case greater
    then have "List.find (\<lambda>e. \<not> compare (fst e) k) (inorder l) = None"
      using Node.prems(1) find_none_below [of "inorder l" x k] by (simp add: compare_irrefl compare_asym)
    with greater show ?thesis
      using Node by (auto simp: find_append compare_asym dest: compare_neq split: option.split)
  qed
qed simp

lemma higher_loop_find:
  assumes "bst compare t" and "t \<noteq> nullptr"
  shows "higher_loop compare k t anc =
    (case List.find (\<lambda>e. compare k (fst e)) (inorder t) of
       None \<Rightarrow> climb_right ''No higher entry exists in this map'' t anc | Some e \<Rightarrow> Inr e)"
  using assms
proof (induction t arbitrary: anc)
  case (Node l x v a r)
  have ne: "l \<noteq> nullptr \<Longrightarrow> l \<noteq> r"
    using siblings_differ [OF Node.prems(1)] .
  show ?case
  proof (cases "compare k x")
    case True
    then show ?thesis
      using Node ne by (auto simp: find_append entry_def split: option.split)
  next
    case False
    then have "List.find (\<lambda>e. compare k (fst e)) (inorder l) = None"
      using Node.prems(1) find_none_below [of "inorder l" x k] by (simp add: compare_irrefl compare_asym)
    with False show ?thesis
      using Node by (auto simp: find_append split: option.split)
  qed
qed simp

lemma floor_loop_find:
  assumes "bst compare t" and "t \<noteq> nullptr"
  shows "floor_loop compare k t anc =
    (case List.find (\<lambda>e. \<not> compare k (fst e)) (rev (inorder t)) of
       None \<Rightarrow> climb_left ''No floor entry exists in this map'' t anc | Some e \<Rightarrow> Inr e)"
  using assms
proof (induction t arbitrary: anc)
  case (Node l x v a r)
  have ne: "r \<noteq> nullptr \<Longrightarrow> r \<noteq> l"
    using siblings_differ [OF Node.prems(1)] by auto
  show ?case
  proof (cases k x rule: compare_cases)
    case less
    then have "List.find (\<lambda>e. \<not> compare k (fst e)) (rev (inorder r)) = None"
      using Node.prems(1) find_none_above [of "inorder r" x k] by (simp add: compare_irrefl compare_asym)
    with less show ?thesis
      using Node by (auto simp: find_append compare_asym dest: compare_neq split: option.split)
  next
    case equal
    then have "List.find (\<lambda>e. \<not> compare k (fst e)) (rev (inorder r)) = None"
      using Node.prems(1) find_none_above [of "inorder r" x k] by (simp add: compare_irrefl compare_asym)
    with equal show ?thesis
      by (simp add: find_append compare_irrefl)
  next
    case greater
    then show ?thesis
      using Node ne by (auto simp: find_append entry_def compare_asym dest: compare_neq split: option.split)
  qed
qed simp

lemma lower_loop_find:
  assumes "bst compare t" and "t \<noteq> nullptr"
  shows "lower_loop compare k t anc =
    (case List.find (\<lambda>e. compare (fst e) k) (rev (inorder t)) of
       None \<Rightarrow> climb_left ''No lower entry exists in this map'' t anc | Some e \<Rightarrow> Inr e)"
  using assms
proof (induction t arbitrary: anc)
  case (Node l x v a r)
  have ne: "r \<noteq> nullptr \<Longrightarrow> r \<noteq> l"
    using siblings_differ [OF Node.prems(1)] by auto
  show ?case
  proof (cases "compare x k")
    case True
    then show ?thesis
      using Node ne by (auto simp: find_append entry_def compare_asym dest: compare_neq split: option.split)
  next
    case False
    then have eq: "compare k x \<or> k = x"
      using compare_total by blast
    with False have "List.find (\<lambda>e. compare (fst e) k) (rev (inorder r)) = None"
      using Node.prems(1) find_none_above [of "inorder r" x k] by (simp add: compare_irrefl compare_asym)
    with eq False show ?thesis
      using Node by (auto simp: find_append split: option.split)
  qed
qed simp

lemma neighbour_entries:
  assumes "bst compare t"
  shows "getCeilingEntry compare t k =
      first_such ''No ceiling entry in this map'' (\<lambda>e. \<not> compare (fst e) k) (inorder t)"
    and "getHigherEntry compare t k =
      first_such ''No higher entry exists in this map'' (\<lambda>e. compare k (fst e)) (inorder t)"
    and "getFloorEntry compare t k =
      last_such ''No floor entry exists in this map'' (\<lambda>e. \<not> compare k (fst e)) (inorder t)"
    and "getLowerEntry compare t k =
      last_such ''No lower entry exists in this map'' (\<lambda>e. compare (fst e) k) (inorder t)"
  using assms
  by (auto simp: getCeilingEntry_def getHigherEntry_def getFloorEntry_def getLowerEntry_def
      first_such_def last_such_def ceiling_loop_find higher_loop_find floor_loop_find
      lower_loop_find split: option.split)

text \<open>Assigning a value in place.\<close>

lemma inorder_set_value:
  assumes "bst compare t"
  shows "inorder (set_value compare t k v) = assign_entries k v (inorder t)"
  using assms
proof (induction t)
  case (Node l x w a r)
  show ?case
  proof (cases k x rule: compare_cases)
    case less
    then have "\<not> has_key k (inorder r)"
      using Node.prems parts_below(3) [of k x "inorder r"] by auto
    then show ?thesis
      using less Node by (auto simp: assign_entries_absent dest: compare_neq)
  next
    case equal
    then have "\<not> has_key k (inorder l)" "\<not> has_key k (inorder r)"
      using Node.prems parts_at_left(3) [of "inorder l" k] parts_at_right(3) [of "inorder r" k] by auto
    then show ?thesis
      using equal by (auto simp: assign_entries_absent)
  next
    case greater
    then have "\<not> has_key k (inorder l)"
      using Node.prems parts_above(3) [of x k "inorder l"] by auto
    then show ?thesis
      using greater Node compare_asym by (auto simp: assign_entries_absent dest: compare_neq)
  qed
qed simp

lemma bst_set_value: "bst compare t \<Longrightarrow> bst compare (set_value compare t k v)"
  using inorder_set_value [of t k v] by (simp add: bst_def sorted_keys_def fst_assign_entries)

lemma upd_entries_present:
  assumes "sorted_keys compare es" and "has_key k es"
  shows "upd_entries compare k v es = assign_entries k v es"
  using assms
proof (induction es)
  case (Cons e es)
  show ?case
  proof (cases k "fst e" rule: compare_cases)
    case less
    then show ?thesis
      using Cons.prems parts_below(3) [of k "fst e" es] by (auto dest: compare_neq)
  next
    case equal
    then show ?thesis
      using Cons.prems parts_at_right [of es k]
      by (cases e) (auto simp: upd_entries_def parts_Cons compare_irrefl assign_entries_absent)
  next
    case greater
    then show ?thesis
      using Cons by (cases e) (auto simp: upd_entries_def parts_Cons compare_asym dest: compare_neq)
  qed
qed simp

text \<open>Adding a default and then assigning is an update.\<close>

lemma assign_after_add:
  assumes "sorted_keys compare es"
  shows "assign_entries k v (add_entries compare k d es) = upd_entries compare k v es"
proof (cases "has_key k es")
  case True
  then show ?thesis
    using upd_entries_present [OF assms] by (simp add: add_entries_def)
next
  case False
  then have "\<not> has_key k (lt_part compare k es)" "\<not> has_key k (gt_part compare k es)"
    by (auto simp: has_key_def)
  with False show ?thesis
    by (simp add: add_entries_def upd_entries_def assign_entries_absent)
qed

text \<open>\<open>forEachMut\<close> replaces every value by what the action leaves behind, in key order.\<close>

lemma forEachMut_fold:
  assumes "bst compare t" and "inorder t = pre @ rest"
  shows "\<exists>t'. fold (\<lambda>(k, w) (t, s). let (v, s') = action k w s in (set_value compare t k v, s')) rest (t, s) =
      (t', snd (thread_values action rest s)) \<and>
    bst compare t' \<and> inorder t' = pre @ fst (thread_values action rest s)"
  using assms
proof (induction rest arbitrary: t pre s)
  case (Cons e rest)
  obtain k w where e: "e = (k, w)" by force
  obtain v s' where v: "action k w s = (v, s')" by force
  have "sorted_keys compare (pre @ (k, w) # rest)"
    using Cons.prems e by (simp add: bst_def)
  then have "\<not> has_key k pre" "\<not> has_key k rest"
    using compare_irrefl by (auto simp: has_key_def)
  then have "inorder (set_value compare t k v) = (pre @ [(k, v)]) @ rest"
    using inorder_set_value [OF Cons.prems(1), of k v] Cons.prems(2) e
    by (simp add: assign_entries_absent)
  from Cons.IH [OF bst_set_value [OF Cons.prems(1)] this] show ?case
    by (simp add: e v split_def Let_def)
qed simp

lemma forEachMut_thread:
  assumes "bst compare t"
  shows "\<exists>t'. forEachMut compare action t s = (t', snd (thread_values action (inorder t) s)) \<and>
    bst compare t' \<and> inorder t' = fst (thread_values action (inorder t) s)"
proof -
  have "forEachMut compare action t s =
      fold (\<lambda>(k, w) (t, s). let (v, s') = action k w s in (set_value compare t k v, s')) (inorder t) (t, s)"
    unfolding forEachMut_def inorderTraversal_fold map_entry_nodes [symmetric] fold_map
    by (simp add: comp_def entry_def)
  then show ?thesis
    using forEachMut_fold [OF assms, of "[]" "inorder t" action s] by simp
qed

end

end
