(* ===== verification/AvlTreeMap.thy ===== *)
theory AvlTreeMap
  imports SearchTree "HOL-Library.Word"
begin

text \<open>
  \<^verbatim>\<open>AvlTreeMap.hpp\<close>: the map kept in an AVL tree. The counter field \<open>aug\<close> of a node is its
  \<open>height\<close>. \<open>None\<close> is an assertion failure or the dereference of a null pointer. Heights and
  the entry count are naturals: a \<open>size_t\<close> holds them as long as the tree fits in memory, and
  \<open>factor64_exact\<close> below shows that the unsigned subtraction of \<open>factor()\<close> then gives the
  difference of the heights.
\<close>

section \<open>Node operations\<close>

fun updateHeight :: "('k, 'v) node_ptr \<Rightarrow> ('k, 'v) node_ptr" where
  "updateHeight nullptr = nullptr"
| "updateHeight (Node l k v h r) =
     Node l k v
       (if l = nullptr \<and> r = nullptr then 1
        else if l = nullptr then aug r + 1
        else if r = nullptr then aug l + 1
        else max (aug l) (aug r) + 1) r"

fun factor :: "('k, 'v) node_ptr \<Rightarrow> int" where
  "factor nullptr = 0"
| "factor (Node l k v h r) =
     (if l = nullptr \<and> r = nullptr then 0
      else if l = nullptr then int (aug r)
      else if r = nullptr then - int (aug l)
      else int (aug r) - int (aug l))"

text \<open>
  The arithmetic of \<open>factor()\<close> as it is written: the subtraction and the negation are those of a
  64-bit \<open>size_t\<close>, and the cast reads the result as a signed number.
\<close>

fun factor64 :: "('k, 'v) node_ptr \<Rightarrow> int" where
  "factor64 nullptr = 0"
| "factor64 (Node l k v h r) =
     (if l = nullptr \<and> r = nullptr then 0
      else if l = nullptr then sint (of_nat (aug r) :: 64 word)
      else if r = nullptr then sint (- (of_nat (aug l) :: 64 word))
      else sint ((of_nat (aug r) :: 64 word) - of_nat (aug l)))"

fun rotateLeft :: "('k, 'v) node_ptr \<Rightarrow> ('k, 'v) node_ptr option" where
  "rotateLeft (Node l k v h (Node sl sk sv sh sr)) =
     Some (updateHeight (Node (updateHeight (Node l k v h sl)) sk sv sh sr))"
| "rotateLeft _ = None"

fun rotateRight :: "('k, 'v) node_ptr \<Rightarrow> ('k, 'v) node_ptr option" where
  "rotateRight (Node (Node sl sk sv sh sr) k v h r) =
     Some (updateHeight (Node sl sk sv sh (updateHeight (Node sr k v h r))))"
| "rotateRight _ = None"

fun fixBalance :: "('k, 'v) node_ptr \<Rightarrow> ('k, 'v) node_ptr option" where
  "fixBalance nullptr = None"
| "fixBalance (Node l k v h r) =
     (if factor (Node l k v h r) < -1 then
        (if factor l < 0 then rotateRight (Node l k v h r)
         else do { l' \<leftarrow> rotateLeft l; rotateRight (Node l' k v h r) })
      else if factor (Node l k v h r) > 1 then
        (if factor r > 0 then rotateLeft (Node l k v h r)
         else do { r' \<leftarrow> rotateRight r; rotateLeft (Node l k v h r') })
      else Some (Node l k v h r))"

text \<open>
  The recursive functions take and return \<open>this->count\<close> with the node. \<open>getNodeOrProvide\<close> returns
  the value of the node it found or made; \<open>fresh\<close> is what the \<open>provide\<close> callback returns.
\<close>

fun getNodeOrProvide ::
  "'k compare \<Rightarrow> ('k, 'v) node_ptr \<Rightarrow> 'k \<Rightarrow> ('k, 'v) node_ptr \<Rightarrow> nat \<Rightarrow>
     (('k, 'v) node_ptr \<times> nat \<times> 'v) option" where
  "getNodeOrProvide cmp nullptr k fresh n = None"
| "getNodeOrProvide cmp (Node l x v h r) k fresh n =
     (if k = x then Some (Node l x v h r, n, v)
      else if cmp k x then
        (if l = nullptr then Some (updateHeight (Node fresh x v h r), n + 1, val fresh)
         else do {
           (l', n', res) \<leftarrow> getNodeOrProvide cmp l k fresh n;
           t' \<leftarrow> fixBalance (updateHeight (Node l' x v h r));
           Some (t', n', res)
         })
      else
        (if r = nullptr then Some (updateHeight (Node l x v h fresh), n + 1, val fresh)
         else do {
           (r', n', res) \<leftarrow> getNodeOrProvide cmp r k fresh n;
           t' \<leftarrow> fixBalance (updateHeight (Node l x v h r'));
           Some (t', n', res)
         }))"

fun insert_node ::
  "'k compare \<Rightarrow> ('k, 'v) node_ptr \<Rightarrow> 'k \<Rightarrow> 'v \<Rightarrow> bool \<Rightarrow> nat \<Rightarrow>
     (('k, 'v) node_ptr \<times> nat) option" where
  "insert_node cmp nullptr k v replace n = None"
| "insert_node cmp (Node l x w h r) k v replace n =
     (if k = x then Some (Node l x (if replace then v else w) h r, n)
      else if cmp k x then
        (if l = nullptr then Some (updateHeight (Node (from_node k v) x w h r), n + 1)
         else do {
           (l', n') \<leftarrow> insert_node cmp l k v replace n;
           t' \<leftarrow> fixBalance (updateHeight (Node l' x w h r));
           Some (t', n')
         })
      else
        (if r = nullptr then Some (updateHeight (Node l x w h (from_node k v)), n + 1)
         else do {
           (r', n') \<leftarrow> insert_node cmp r k v replace n;
           t' \<leftarrow> fixBalance (updateHeight (Node l x w h r'));
           Some (t', n')
         }))"

text \<open>
  Case 5 of \<open>remove\<close>, steps 1 to 4, on the right child of the removed node: the loop runs down
  to the leftmost node \<open>S\<close> and its parent \<open>P\<close>, the key and value of \<open>S\<close> are moved out, the right
  child of \<open>S\<close> takes its place under \<open>P\<close>, and the height of \<open>P\<close>, of no other node, is updated.
\<close>

fun unlink_successor :: "('k, 'v) node_ptr \<Rightarrow> ('k \<times> 'v \<times> ('k, 'v) node_ptr) option" where
  "unlink_successor nullptr = None"
| "unlink_successor (Node nullptr k v h r) = None"
| "unlink_successor (Node (Node ll lk lv lh lr) k v h r) =
     (if ll = nullptr then Some (lk, lv, updateHeight (Node lr k v h r))
      else do {
        (sk, sv, l') \<leftarrow> unlink_successor (Node ll lk lv lh lr);
        Some (sk, sv, Node l' k v h r)
      })"

definition remove_found :: "('k, 'v) node_ptr \<Rightarrow> ('k, 'v) node_ptr option" where
  "remove_found node =
     (if isLeaf node then Some nullptr
      else if right node = nullptr then Some (updateHeight (left node))
      else if left node = nullptr then Some (updateHeight (right node))
      else if left (right node) = nullptr then
        fixBalance (updateHeight
          (Node (left node) (key (right node)) (val (right node)) (aug node) (right (right node))))
      else do {
        (sk, sv, r') \<leftarrow> unlink_successor (right node);
        Some (Node (left node) sk sv (aug node) r')
      })"

text \<open>
  The last component is what the \<open>action\<close> callback saw: \<open>Some v\<close> for a removed node with
  value \<open>v\<close> (the call returns true), \<open>None\<close> when no node was removed (it returns false).
\<close>

fun remove_node ::
  "'k compare \<Rightarrow> ('k, 'v) node_ptr \<Rightarrow> 'k \<Rightarrow> nat \<Rightarrow> (('k, 'v) node_ptr \<times> nat \<times> 'v option) option" where
  "remove_node cmp nullptr k n = None"
| "remove_node cmp (Node l x v h r) k n =
     (if k \<noteq> x then
        (if cmp k x then
           (if l = nullptr then Some (Node l x v h r, n, None)
            else do {
              (l', n', res) \<leftarrow> remove_node cmp l k n;
              if res \<noteq> None then do {
                t' \<leftarrow> fixBalance (updateHeight (Node l' x v h r));
                Some (t', n', res)
              }
              else Some (Node l' x v h r, n', None)
            })
         else
           (if r = nullptr then Some (Node l x v h r, n, None)
            else do {
              (r', n', res) \<leftarrow> remove_node cmp r k n;
              if res \<noteq> None then do {
                t' \<leftarrow> fixBalance (updateHeight (Node l x v h r'));
                Some (t', n', res)
              }
              else Some (Node l x v h r', n', None)
            }))
      else do {
        t' \<leftarrow> remove_found (Node l x v h r);
        Some (t', n - 1, Some v)
      })"

section \<open>The map class\<close>

record ('k, 'v) avl_map =
  avl_root :: "('k, 'v) node_ptr"
  avl_count :: nat

definition avl_new :: "('k, 'v) avl_map" where
  "avl_new = \<lparr>avl_root = nullptr, avl_count = 0\<rparr>"

definition avl_size :: "('k, 'v) avl_map \<Rightarrow> nat" where
  "avl_size m = avl_count m"

definition avl_empty :: "('k, 'v) avl_map \<Rightarrow> bool" where
  "avl_empty m = (avl_count m = 0)"

definition avl_clear :: "('k, 'v) avl_map \<Rightarrow> ('k, 'v) avl_map" where
  "avl_clear m = m\<lparr>avl_root := nullptr, avl_count := 0\<rparr>"

definition avl_get :: "'k compare \<Rightarrow> ('k, 'v) avl_map \<Rightarrow> 'k \<Rightarrow> 'v throws option" where
  "avl_get cmp m k = get_value cmp (avl_root m) k"

definition avl_contains :: "'k compare \<Rightarrow> ('k, 'v) avl_map \<Rightarrow> 'k \<Rightarrow> bool option" where
  "avl_contains cmp m k = contains_key cmp (avl_root m) k"

definition avl_getOrInsert ::
  "'k compare \<Rightarrow> ('k, 'v) avl_map \<Rightarrow> 'k \<Rightarrow> 'v \<Rightarrow> (('k, 'v) avl_map \<times> 'v) option" where
  "avl_getOrInsert cmp m k v =
     (if avl_root m = nullptr then
        Some (m\<lparr>avl_root := from_node k v, avl_count := avl_count m + 1\<rparr>, v)
      else do {
        (t, n, res) \<leftarrow> getNodeOrProvide cmp (avl_root m) k (from_node k v) (avl_count m);
        Some (m\<lparr>avl_root := t, avl_count := n\<rparr>, res)
      })"

text \<open>\<open>getOrDefault\<close> makes the node with the value-initialised \<open>Value\<close>, here the argument \<open>dflt\<close>.\<close>

definition avl_getOrDefault ::
  "'k compare \<Rightarrow> 'v \<Rightarrow> ('k, 'v) avl_map \<Rightarrow> 'k \<Rightarrow> (('k, 'v) avl_map \<times> 'v) option" where
  "avl_getOrDefault cmp dflt m k =
     (if avl_root m = nullptr then
        Some (m\<lparr>avl_root := from_node k dflt, avl_count := avl_count m + 1\<rparr>, dflt)
      else do {
        (t, n, res) \<leftarrow> getNodeOrProvide cmp (avl_root m) k (from_node k dflt) (avl_count m);
        Some (m\<lparr>avl_root := t, avl_count := n\<rparr>, res)
      })"

definition avl_insert ::
  "'k compare \<Rightarrow> ('k, 'v) avl_map \<Rightarrow> 'k \<Rightarrow> 'v \<Rightarrow> ('k, 'v) avl_map option" where
  "avl_insert cmp m k v =
     (if avl_root m = nullptr then
        Some (m\<lparr>avl_root := from_node k v, avl_count := avl_count m + 1\<rparr>)
      else do {
        (t, n) \<leftarrow> insert_node cmp (avl_root m) k v True (avl_count m);
        Some (m\<lparr>avl_root := t, avl_count := n\<rparr>)
      })"

definition avl_insertIfAbsent ::
  "'k compare \<Rightarrow> ('k, 'v) avl_map \<Rightarrow> 'k \<Rightarrow> 'v \<Rightarrow> (('k, 'v) avl_map \<times> bool) option" where
  "avl_insertIfAbsent cmp m k v = do {
     m' \<leftarrow> (if avl_root m = nullptr then
               Some (m\<lparr>avl_root := from_node k v, avl_count := avl_count m + 1\<rparr>)
             else do {
               (t, n) \<leftarrow> insert_node cmp (avl_root m) k v False (avl_count m);
               Some (m\<lparr>avl_root := t, avl_count := n\<rparr>)
             });
     Some (m', avl_size m' > avl_size m)
   }"

text \<open>\<open>m[k] = v\<close>: the non-const \<open>operator[]\<close> followed by an assignment through its reference.\<close>

definition avl_index_assign ::
  "'k compare \<Rightarrow> 'v \<Rightarrow> ('k, 'v) avl_map \<Rightarrow> 'k \<Rightarrow> 'v \<Rightarrow> ('k, 'v) avl_map option" where
  "avl_index_assign cmp dflt m k v = do {
     (m', _) \<leftarrow> avl_getOrDefault cmp dflt m k;
     Some (m'\<lparr>avl_root := set_value cmp (avl_root m') k v\<rparr>)
   }"

definition avl_remove ::
  "'k compare \<Rightarrow> ('k, 'v) avl_map \<Rightarrow> 'k \<Rightarrow> (('k, 'v) avl_map \<times> bool) option" where
  "avl_remove cmp m k =
     (if avl_root m = nullptr then Some (m, False)
      else do {
        (t, n, res) \<leftarrow> remove_node cmp (avl_root m) k (avl_count m);
        Some (m\<lparr>avl_root := t, avl_count := n\<rparr>, res \<noteq> None)
      })"

definition avl_getAndRemove ::
  "'k compare \<Rightarrow> ('k, 'v) avl_map \<Rightarrow> 'k \<Rightarrow> (('k, 'v) avl_map \<times> 'v) throws option" where
  "avl_getAndRemove cmp m k =
     (if avl_root m = nullptr then Some (Inl (NoSuchMappingException ''Invalid key''))
      else do {
        (t, n, res) \<leftarrow> remove_node cmp (avl_root m) k (avl_count m);
        Some (case res of
                Some v \<Rightarrow> Inr (m\<lparr>avl_root := t, avl_count := n\<rparr>, v)
              | None \<Rightarrow> Inl (NoSuchMappingException ''Invalid key''))
      })"

definition avl_getCeilingEntry :: "'k compare \<Rightarrow> ('k, 'v) avl_map \<Rightarrow> 'k \<Rightarrow> ('k \<times> 'v) throws" where
  "avl_getCeilingEntry cmp m k = getCeilingEntry cmp (avl_root m) k"

definition avl_getFloorEntry :: "'k compare \<Rightarrow> ('k, 'v) avl_map \<Rightarrow> 'k \<Rightarrow> ('k \<times> 'v) throws" where
  "avl_getFloorEntry cmp m k = getFloorEntry cmp (avl_root m) k"

definition avl_getHigherEntry :: "'k compare \<Rightarrow> ('k, 'v) avl_map \<Rightarrow> 'k \<Rightarrow> ('k \<times> 'v) throws" where
  "avl_getHigherEntry cmp m k = getHigherEntry cmp (avl_root m) k"

definition avl_getLowerEntry :: "'k compare \<Rightarrow> ('k, 'v) avl_map \<Rightarrow> 'k \<Rightarrow> ('k \<times> 'v) throws" where
  "avl_getLowerEntry cmp m k = getLowerEntry cmp (avl_root m) k"

definition avl_toEntryList :: "('k, 'v) avl_map \<Rightarrow> ('k \<times> 'v) list" where
  "avl_toEntryList m = toEntryList (avl_root m)"

definition avl_forEach :: "('k \<Rightarrow> 'v \<Rightarrow> 's \<Rightarrow> 's) \<Rightarrow> ('k, 'v) avl_map \<Rightarrow> 's \<Rightarrow> 's" where
  "avl_forEach action m s = forEach action (avl_root m) s"

definition avl_forEachMut ::
  "'k compare \<Rightarrow> ('k \<Rightarrow> 'v \<Rightarrow> 's \<Rightarrow> 'v \<times> 's) \<Rightarrow> ('k, 'v) avl_map \<Rightarrow> 's \<Rightarrow> ('k, 'v) avl_map \<times> 's" where
  "avl_forEachMut cmp action m s =
     (let (t, s') = forEachMut cmp action (avl_root m) s in (m\<lparr>avl_root := t\<rparr>, s'))"

text \<open>The second loop of \<open>removeAll\<close>.\<close>

fun avl_remove_keys :: "'k compare \<Rightarrow> ('k, 'v) avl_map \<Rightarrow> 'k list \<Rightarrow> ('k, 'v) avl_map option" where
  "avl_remove_keys cmp m [] = Some m"
| "avl_remove_keys cmp m (k # ks) = do { (m', _) \<leftarrow> avl_remove cmp m k; avl_remove_keys cmp m' ks }"

definition avl_removeAll ::
  "'k compare \<Rightarrow> ('k \<Rightarrow> 'v \<Rightarrow> bool) \<Rightarrow> ('k, 'v) avl_map \<Rightarrow> ('k, 'v) avl_map option" where
  "avl_removeAll cmp filt m = avl_remove_keys cmp m (matching_keys filt (avl_root m))"

section \<open>Safety and contents\<close>

text \<open>
  What the null-pointer safety of the rotations rests on: stored heights are positive, and 1 in
  a leaf. Unlike exact heights, this survives case 5 of \<open>remove\<close>.
\<close>

fun heights_positive :: "('k, 'v) node_ptr \<Rightarrow> bool" where
  "heights_positive nullptr = True"
| "heights_positive (Node l k v h r) =
     (0 < h \<and> (l = nullptr \<and> r = nullptr \<longrightarrow> h = 1) \<and> heights_positive l \<and> heights_positive r)"

definition avl_wf :: "'k compare \<Rightarrow> ('k, 'v) avl_map \<Rightarrow> bool" where
  "avl_wf cmp m = (bst cmp (avl_root m) \<and> heights_positive (avl_root m) \<and>
     avl_count m = length (inorder (avl_root m)))"

lemma inorder_updateHeight [simp]: "inorder (updateHeight t) = inorder t"
  by (cases t) simp_all

lemma updateHeight_eq_nullptr [simp]: "updateHeight t = nullptr \<longleftrightarrow> t = nullptr"
  by (cases t) simp_all

lemma heights_positive_aug: "heights_positive t \<Longrightarrow> t \<noteq> nullptr \<Longrightarrow> 0 < aug t"
  by (cases t) simp_all

lemma heights_positive_updateHeight [simp]:
  "heights_positive l \<Longrightarrow> heights_positive r \<Longrightarrow> heights_positive (updateHeight (Node l k v h r))"
  by simp

lemma heights_positive_from_node [simp]: "heights_positive (from_node k v)"
  by (simp add: from_node_def)

lemma rotateRight_safe:
  assumes "l \<noteq> nullptr" and "heights_positive l" and "heights_positive r"
  shows "\<exists>t'. rotateRight (Node l k v h r) = Some t' \<and> inorder t' = inorder l @ (k, v) # inorder r \<and>
    heights_positive t' \<and> t' \<noteq> nullptr"
  using assms by (cases l) (auto simp del: updateHeight.simps)

lemma rotateLeft_safe:
  assumes "r \<noteq> nullptr" and "heights_positive l" and "heights_positive r"
  shows "\<exists>t'. rotateLeft (Node l k v h r) = Some t' \<and> inorder t' = inorder l @ (k, v) # inorder r \<and>
    heights_positive t' \<and> t' \<noteq> nullptr"
  using assms by (cases r) (auto simp del: updateHeight.simps)

text \<open>A node that leans left has a left child, and that child is not a leaf; so for the right.\<close>

lemma factor_left_heavy:
  assumes "factor (Node l k v h r) < -1" and "heights_positive l" and "heights_positive r"
  shows "l \<noteq> nullptr" and "0 \<le> factor l \<Longrightarrow> right l \<noteq> nullptr"
proof -
  show l: "l \<noteq> nullptr"
    using assms(1) by (auto split: if_splits)
  assume "0 \<le> factor l"
  then show "right l \<noteq> nullptr"
    using assms l heights_positive_aug [of "left l"] by (cases l) (auto split: if_splits)
qed

lemma factor_right_heavy:
  assumes "factor (Node l k v h r) > 1" and "heights_positive l" and "heights_positive r"
  shows "r \<noteq> nullptr" and "factor r \<le> 0 \<Longrightarrow> left r \<noteq> nullptr"
proof -
  show r: "r \<noteq> nullptr"
    using assms(1) by (auto split: if_splits)
  assume "factor r \<le> 0"
  then show "left r \<noteq> nullptr"
    using assms r heights_positive_aug [of "right r"] by (cases r) (auto split: if_splits)
qed

lemma fixBalance_safe:
  assumes hp: "heights_positive l" "heights_positive r" "0 < h" and "l = nullptr \<and> r = nullptr \<longrightarrow> h = 1"
  shows "\<exists>t'. fixBalance (Node l k v h r) = Some t' \<and> inorder t' = inorder l @ (k, v) # inorder r \<and>
    heights_positive t' \<and> t' \<noteq> nullptr"
proof -
  let ?t = "Node l k v h r"
  consider "factor ?t < -1" "factor l < 0" | "factor ?t < -1" "0 \<le> factor l"
    | "factor ?t > 1" "factor r > 0" | "factor ?t > 1" "factor r \<le> 0"
    | "-1 \<le> factor ?t" "factor ?t \<le> 1"
    by linarith
  then show ?thesis
  proof cases
    case 1
    then show ?thesis
      using rotateRight_safe [OF factor_left_heavy(1) hp(1,2)] hp by (simp del: factor.simps)
  next
    case 2
    then have l: "l \<noteq> nullptr" "right l \<noteq> nullptr"
      using factor_left_heavy [OF 2(1) hp(1,2)] by auto
    then obtain l' where "rotateLeft l = Some l'" "inorder l' = inorder l" "heights_positive l'" "l' \<noteq> nullptr"
      using rotateLeft_safe [of "right l" "left l" "key l" "val l" "aug l"] hp by (cases l) auto
    then show ?thesis
      using 2 rotateRight_safe [of l' r k v h] hp by (simp del: factor.simps)
  next
    case 3
    then show ?thesis
      using rotateLeft_safe [OF factor_right_heavy(1) hp(1,2)] hp by (simp del: factor.simps)
  next
    case 4
    then have r: "r \<noteq> nullptr" "left r \<noteq> nullptr"
      using factor_right_heavy [OF 4(1) hp(1,2)] by auto
    then obtain r' where "rotateRight r = Some r'" "inorder r' = inorder r" "heights_positive r'" "r' \<noteq> nullptr"
      using rotateRight_safe [of "left r" "right r" "key r" "val r" "aug r"] hp by (cases r) auto
    then show ?thesis
      using 4 rotateLeft_safe [of r' l k v h] hp by (simp del: factor.simps)
  next
    case 5
    then show ?thesis
      using assms by (simp del: factor.simps)
  qed
qed

lemma updateHeight_Node:
  obtains h' where "updateHeight (Node l k v h r) = Node l k v h' r" and "0 < h'"
    and "l = nullptr \<and> r = nullptr \<longrightarrow> h' = 1"
  by simp

lemma fixBalance_updateHeight_safe:
  assumes "heights_positive l" and "heights_positive r"
  obtains t' where "fixBalance (updateHeight (Node l k v h r)) = Some t'"
    and "inorder t' = inorder l @ (k, v) # inorder r" and "heights_positive t'" and "t' \<noteq> nullptr"
  using fixBalance_safe [OF assms] by (metis updateHeight_Node)

text \<open>The successor step removes the first entry of the subtree it works on.\<close>

lemma unlink_successor_safe:
  assumes "t \<noteq> nullptr" and "left t \<noteq> nullptr" and "heights_positive t"
  shows "\<exists>sk sv t'. unlink_successor t = Some (sk, sv, t') \<and> inorder t = (sk, sv) # inorder t' \<and>
    heights_positive t' \<and> t' \<noteq> nullptr"
  using assms
proof (induction t rule: unlink_successor.induct)
  case (3 ll lk lv lh lr k v h r)
  show ?case
  proof (cases "ll = nullptr")
    case True
    with 3 show ?thesis by (auto simp del: updateHeight.simps)
  next
    case False
    with 3 show ?thesis by auto
  qed
qed auto

lemma remove_found_safe:
  assumes "heights_positive (Node l k v h r)"
  shows "\<exists>t'. remove_found (Node l k v h r) = Some t' \<and> inorder t' = inorder l @ inorder r \<and>
    heights_positive t'"
proof -
  have hp: "heights_positive l" "heights_positive r" "0 < h"
    using assms by auto
  consider "l = nullptr \<or> r = nullptr" | "l \<noteq> nullptr" "r \<noteq> nullptr" "left r = nullptr"
    | "l \<noteq> nullptr" "r \<noteq> nullptr" "left r \<noteq> nullptr"
    by blast
  then show ?thesis
  proof cases
    case 1
    have "heights_positive (updateHeight t)" if "heights_positive t" for t :: "('a, 'b) node_ptr"
      using that by (cases t) auto
    with 1 show ?thesis
      using hp by (auto simp: remove_found_def isLeaf_def)
  next
    case 2
    have "heights_positive (right r)" "inorder r = (key r, val r) # inorder (right r)"
      using 2 hp by (cases r; simp)+
    with hp obtain t' where
      "fixBalance (updateHeight (Node l (key r) (val r) h (right r))) = Some t'"
      "inorder t' = inorder l @ inorder r" "heights_positive t'"
      by (metis fixBalance_updateHeight_safe)
    with 2 show ?thesis
      by (simp add: remove_found_def isLeaf_def)
  next
    case 3
    with unlink_successor_safe [of r] hp show ?thesis
      by (auto simp: remove_found_def isLeaf_def)
  qed
qed

context compare_order
begin

lemma insert_node_safe:
  assumes "bst compare t" and "heights_positive t" and "t \<noteq> nullptr"
  shows "\<exists>t'. insert_node compare t k v replace n =
      Some (t', if has_key k (inorder t) then n else n + 1) \<and>
    inorder t' = put_entries compare replace k v (inorder t) \<and> heights_positive t' \<and> t' \<noteq> nullptr"
  using assms
proof (induction t)
  case (Node l x w h r)
  have hp: "heights_positive l" "heights_positive r" and b: "bst compare l" "bst compare r"
    using Node.prems by auto
  show ?case
  proof (cases k x rule: compare_cases)
    case less
    note e = entries_left [OF Node.prems(1) less]
    show ?thesis
    proof (cases "l = nullptr")
      case True
      with less e hp show ?thesis
        by (auto simp: put_entries_Nil dest: compare_neq)
    next
      case False
      with Node.IH(1) b(1) hp(1) obtain l' where
        l': "insert_node compare l k v replace n = Some (l', if has_key k (inorder l) then n else n + 1)"
          "inorder l' = put_entries compare replace k v (inorder l)" "heights_positive l'"
        by blast
      obtain t' where "fixBalance (updateHeight (Node l' x w h r)) = Some t'"
        "inorder t' = inorder l' @ (x, w) # inorder r" "heights_positive t'" "t' \<noteq> nullptr"
        using fixBalance_updateHeight_safe [OF l'(3) hp(2)] .
      with less False l' e show ?thesis
        by (auto simp del: updateHeight.simps dest: compare_neq)
    qed
  next
    case equal
    with entries_here [of l x w h r] Node.prems show ?thesis
      by auto
  next
    case greater
    note e = entries_right [OF Node.prems(1) greater]
    show ?thesis
    proof (cases "r = nullptr")
      case True
      with greater e hp show ?thesis
        by (auto simp: put_entries_Nil compare_asym dest: compare_neq)
    next
      case False
      with Node.IH(2) b(2) hp(2) obtain r' where
        r': "insert_node compare r k v replace n = Some (r', if has_key k (inorder r) then n else n + 1)"
          "inorder r' = put_entries compare replace k v (inorder r)" "heights_positive r'"
        by blast
      obtain t' where "fixBalance (updateHeight (Node l x w h r')) = Some t'"
        "inorder t' = inorder l @ (x, w) # inorder r'" "heights_positive t'" "t' \<noteq> nullptr"
        using fixBalance_updateHeight_safe [OF hp(1) r'(3)] .
      with greater False r' e show ?thesis
        by (auto simp: compare_asym simp del: updateHeight.simps dest: compare_neq)
    qed
  qed
qed simp

lemma remove_node_safe:
  assumes "bst compare t" and "heights_positive t" and "t \<noteq> nullptr"
  shows "\<exists>t'. remove_node compare t k n =
      Some (t', if has_key k (inorder t) then n - 1 else n, map_of (inorder t) k) \<and>
    inorder t' = del_entries k (inorder t) \<and> heights_positive t'"
  using assms
proof (induction t)
  case (Node l x w h r)
  have hp: "heights_positive l" "heights_positive r" and b: "bst compare l" "bst compare r"
    using Node.prems by auto
  show ?case
  proof (cases k x rule: compare_cases)
    case less
    note e = entries_left [OF Node.prems(1) less]
    show ?thesis
    proof (cases "l = nullptr")
      case True
      with less e Node.prems show ?thesis
        by (auto simp del: map_of_append dest: compare_neq)
    next
      case False
      with Node.IH(1) b(1) hp(1) obtain l' where
        l': "remove_node compare l k n =
            Some (l', if has_key k (inorder l) then n - 1 else n, map_of (inorder l) k)"
          "inorder l' = del_entries k (inorder l)" "heights_positive l'"
        by blast
      obtain t' where "fixBalance (updateHeight (Node l' x w h r)) = Some t'"
        "inorder t' = inorder l' @ (x, w) # inorder r" "heights_positive t'"
        using fixBalance_updateHeight_safe [OF l'(3) hp(2)] .
      moreover have "l' = nullptr \<longrightarrow> has_key k (inorder l)"
        using l'(2) False del_entries_absent [of k "inorder l"] by (metis inorder_eq_Nil)
      ultimately show ?thesis
        using less False l' e Node.prems(2)
        by (auto simp: has_key_map_of simp del: updateHeight.simps map_of_append dest: compare_neq)
    qed
  next
    case equal
    with entries_here [of l x w h r] remove_found_safe [OF Node.prems(2)] Node.prems show ?thesis
      by (auto simp del: map_of_append)
  next
    case greater
    note e = entries_right [OF Node.prems(1) greater]
    show ?thesis
    proof (cases "r = nullptr")
      case True
      with greater e Node.prems show ?thesis
        by (auto simp: compare_asym simp del: map_of_append dest: compare_neq)
    next
      case False
      with Node.IH(2) b(2) hp(2) obtain r' where
        r': "remove_node compare r k n =
            Some (r', if has_key k (inorder r) then n - 1 else n, map_of (inorder r) k)"
          "inorder r' = del_entries k (inorder r)" "heights_positive r'"
        by blast
      obtain t' where "fixBalance (updateHeight (Node l x w h r')) = Some t'"
        "inorder t' = inorder l @ (x, w) # inorder r'" "heights_positive t'"
        using fixBalance_updateHeight_safe [OF hp(1) r'(3)] .
      moreover have "r' = nullptr \<longrightarrow> has_key k (inorder r)"
        using r'(2) False del_entries_absent [of k "inorder r"] by (metis inorder_eq_Nil)
      ultimately show ?thesis
        using greater False r' e Node.prems(2)
        by (auto simp: has_key_map_of compare_asym simp del: updateHeight.simps map_of_append dest: compare_neq)
    qed
  qed
qed simp

text \<open>
  \<open>getNodeOrProvide\<close> changes the tree exactly as \<open>insert\<close> without \<open>replace\<close> does, and returns
  the value the key has afterwards.
\<close>

lemma getNodeOrProvide_insert_node:
  assumes "bst compare t"
  shows "getNodeOrProvide compare t k (from_node k v) n =
    map_option (\<lambda>(t', n'). (t', n', case map_of (inorder t) k of None \<Rightarrow> v | Some w \<Rightarrow> w))
      (insert_node compare t k v False n)"
  using assms
proof (induction t)
  case (Node l x w h r)
  note m = map_of_inorder_Node [OF Node.prems, of k]
  have IH: "getNodeOrProvide compare l k (from_node k v) n =
      map_option (\<lambda>(t', n'). (t', n', case map_of (inorder l) k of None \<Rightarrow> v | Some w \<Rightarrow> w))
        (insert_node compare l k v False n)"
    "getNodeOrProvide compare r k (from_node k v) n =
      map_option (\<lambda>(t', n'). (t', n', case map_of (inorder r) k of None \<Rightarrow> v | Some w \<Rightarrow> w))
        (insert_node compare r k v False n)"
    using Node by simp_all
  show ?case
    unfolding m by (simp add: IH map_option_bind_right bind_map_option_left split_def
        del: inorder.simps(2) updateHeight.simps fixBalance.simps)
qed simp

section \<open>The operations of the class on well-formed maps\<close>

lemma avl_wf_new: "avl_wf compare avl_new"
  by (simp add: avl_wf_def avl_new_def)

text \<open>\<open>insert\<close> and \<open>insertIfAbsent\<close> share their body; this lemma is about that body.\<close>

lemma avl_put:
  assumes "avl_wf compare m"
  shows "\<exists>m'. (if avl_root m = nullptr then
        Some (m\<lparr>avl_root := from_node k v, avl_count := avl_count m + 1\<rparr>)
      else do {
        (t, n) \<leftarrow> insert_node compare (avl_root m) k v replace (avl_count m);
        Some (m\<lparr>avl_root := t, avl_count := n\<rparr>)
      }) = Some m' \<and> avl_wf compare m' \<and>
    inorder (avl_root m') = put_entries compare replace k v (inorder (avl_root m)) \<and>
    avl_count m' = (if has_key k (inorder (avl_root m)) then avl_count m else avl_count m + 1)"
proof (cases "avl_root m = nullptr")
  case True
  with assms show ?thesis
    by (simp add: avl_wf_def put_entries_Nil bst_def)
next
  case False
  let ?es = "inorder (avl_root m)"
  have s: "sorted_keys compare ?es" and c: "avl_count m = length ?es"
    using assms by (simp_all add: avl_wf_def bst_def)
  have "sorted_keys compare (put_entries compare replace k v ?es)"
    by (rule sorted_put_entries [OF s])
  moreover have "length (put_entries compare replace k v ?es) =
      (if has_key k ?es then length ?es else Suc (length ?es))"
    using length_upd_entries [OF s] by (simp add: put_entries_def add_entries_def)
  ultimately show ?thesis
    using insert_node_safe [of "avl_root m" k v replace "avl_count m"] assms False c
    by (auto simp: avl_wf_def bst_def)
qed

lemma avl_insert_wf:
  assumes "avl_wf compare m"
  shows "\<exists>m'. avl_insert compare m k v = Some m' \<and> avl_wf compare m' \<and>
    inorder (avl_root m') = upd_entries compare k v (inorder (avl_root m))"
  using avl_put [OF assms, of k v True] by (auto simp: avl_insert_def put_entries_def)

lemma avl_insertIfAbsent_wf:
  assumes "avl_wf compare m"
  shows "\<exists>m'. avl_insertIfAbsent compare m k v =
      Some (m', \<not> has_key k (inorder (avl_root m))) \<and> avl_wf compare m' \<and>
    inorder (avl_root m') = add_entries compare k v (inorder (avl_root m))"
  using avl_put [OF assms, of k v False]
  by (auto simp: avl_insertIfAbsent_def avl_size_def put_entries_def simp del: Option.bind_assoc)

lemma avl_getOrInsert_eq:
  assumes "avl_wf compare m"
  shows "avl_getOrInsert compare m k v =
    map_option (\<lambda>(m', _). (m', case map_of (inorder (avl_root m)) k of None \<Rightarrow> v | Some w \<Rightarrow> w))
      (avl_insertIfAbsent compare m k v)"
proof -
  have "bst compare (avl_root m)"
    using assms by (simp add: avl_wf_def)
  from getNodeOrProvide_insert_node [OF this] show ?thesis
    by (simp add: avl_getOrInsert_def avl_insertIfAbsent_def map_option_bind_right
        bind_map_option_left split_def bind_assoc)
qed

lemma avl_getOrDefault_eq: "avl_getOrDefault compare dflt m k = avl_getOrInsert compare m k dflt"
  by (simp add: avl_getOrDefault_def avl_getOrInsert_def)

lemma heights_positive_set_value: "heights_positive (set_value cmp t k v) = heights_positive t"
  by (induction t) auto

lemma avl_clear_wf: "avl_wf compare (avl_clear m)" "avl_root (avl_clear m) = nullptr"
  by (simp_all add: avl_wf_def avl_clear_def)

lemma avl_forEachMut_wf:
  assumes "avl_wf compare m"
  shows "\<exists>m'. avl_forEachMut compare action m s = (m', snd (thread_values action (inorder (avl_root m)) s)) \<and>
    avl_wf compare m' \<and> inorder (avl_root m') = fst (thread_values action (inorder (avl_root m)) s)"
proof -
  have b: "bst compare (avl_root m)"
    using assms by (simp add: avl_wf_def)
  obtain t' where t': "forEachMut compare action (avl_root m) s =
        (t', snd (thread_values action (inorder (avl_root m)) s))" "bst compare t'"
      "inorder t' = fst (thread_values action (inorder (avl_root m)) s)"
    using forEachMut_thread [OF b, of action s] by blast
  have "heights_positive t'"
    using forEachMut_keeps [of heights_positive, OF heights_positive_set_value, of compare action "avl_root m" s]
      t'(1) assms by (simp add: avl_wf_def)
  moreover have "length (inorder t') = length (inorder (avl_root m))"
    using map_eq_imp_length_eq [OF keys_thread_values [of action "inorder (avl_root m)" s]] t'(3) by simp
  ultimately show ?thesis
    using t' assms by (simp add: avl_forEachMut_def avl_wf_def)
qed

lemma avl_index_assign_wf:
  assumes "avl_wf compare m"
  shows "\<exists>m'. avl_index_assign compare dflt m k v = Some m' \<and> avl_wf compare m' \<and>
    inorder (avl_root m') = upd_entries compare k v (inorder (avl_root m))"
proof -
  obtain m1 b where m1: "avl_insertIfAbsent compare m k dflt = Some (m1, b)" "avl_wf compare m1"
      "inorder (avl_root m1) = add_entries compare k dflt (inorder (avl_root m))"
    using avl_insertIfAbsent_wf [OF assms] by blast
  have "bst compare (avl_root m1)" and s: "sorted_keys compare (inorder (avl_root m))"
    using m1(2) assms by (simp_all add: avl_wf_def bst_def)
  then have "inorder (set_value compare (avl_root m1) k v) = upd_entries compare k v (inorder (avl_root m))"
    "bst compare (set_value compare (avl_root m1) k v)"
    using assign_after_add [OF s] m1(3) by (simp_all add: inorder_set_value bst_set_value)
  moreover have "length (inorder (set_value compare (avl_root m1) k v)) = length (inorder (avl_root m1))"
    using inorder_set_value [OF \<open>bst compare (avl_root m1)\<close>, of k v] by (simp add: assign_entries_def)
  ultimately show ?thesis
    using m1(1,2) avl_getOrInsert_eq [OF assms, of k dflt]
    by (simp add: avl_index_assign_def avl_getOrDefault_eq avl_wf_def heights_positive_set_value)
qed

lemma avl_remove_wf:
  assumes "avl_wf compare m"
  shows "\<exists>m'. avl_remove compare m k = Some (m', has_key k (inorder (avl_root m))) \<and> avl_wf compare m' \<and>
    inorder (avl_root m') = del_entries k (inorder (avl_root m))"
proof (cases "avl_root m = nullptr")
  case True
  with assms show ?thesis
    by (simp add: avl_remove_def)
next
  case False
  let ?es = "inorder (avl_root m)"
  have s: "sorted_keys compare ?es" and c: "avl_count m = length ?es"
    using assms by (simp_all add: avl_wf_def bst_def)
  show ?thesis
    using remove_node_safe [of "avl_root m" k "avl_count m"] assms False c
      sorted_keys_del_entries [OF s, of k] length_del_entries [OF s, of k]
    by (auto simp: avl_wf_def bst_def avl_remove_def has_key_map_of)
qed

lemma avl_getAndRemove_eq:
  assumes "avl_wf compare m"
  shows "avl_getAndRemove compare m k =
    map_option (\<lambda>(m', _). case map_of (inorder (avl_root m)) k of
        None \<Rightarrow> Inl (NoSuchMappingException ''Invalid key'') | Some v \<Rightarrow> Inr (m', v))
      (avl_remove compare m k)"
proof (cases "avl_root m = nullptr")
  case True
  then show ?thesis
    by (simp add: avl_getAndRemove_def avl_remove_def)
next
  case False
  with remove_node_safe [of "avl_root m" k "avl_count m"] assms show ?thesis
    by (auto simp: avl_getAndRemove_def avl_remove_def avl_wf_def split: option.split)
qed

lemma avl_remove_keys_wf:
  assumes "avl_wf compare m"
  shows "\<exists>m'. avl_remove_keys compare m ks = Some m' \<and> avl_wf compare m' \<and>
    inorder (avl_root m') = filter (\<lambda>e. fst e \<notin> set ks) (inorder (avl_root m))"
  using assms
proof (induction ks arbitrary: m)
  case (Cons k ks)
  obtain m1 b where m1: "avl_remove compare m k = Some (m1, b)" "avl_wf compare m1"
      "inorder (avl_root m1) = del_entries k (inorder (avl_root m))"
    using avl_remove_wf [OF Cons.prems] by blast
  with Cons.IH [OF m1(2)] show ?case
    by (auto simp: del_entries_def filter_filter intro: filter_cong)
qed simp

end

section \<open>Balance\<close>

fun height :: "('k, 'v) node_ptr \<Rightarrow> nat" where
  "height nullptr = 0"
| "height (Node l k v h r) = max (height l) (height r) + 1"

text \<open>The AVL invariant: stored heights are exact and siblings differ in height by at most one.\<close>

fun avl :: "('k, 'v) node_ptr \<Rightarrow> bool" where
  "avl nullptr = True"
| "avl (Node l k v h r) =
     (h = max (height l) (height r) + 1 \<and> height l \<le> height r + 1 \<and> height r \<le> height l + 1 \<and>
      avl l \<and> avl r)"

lemma aug_height: "avl t \<Longrightarrow> aug t = height t"
  by (cases t) simp_all

lemma height_eq_0 [simp]: "height t = 0 \<longleftrightarrow> t = nullptr"
  by (cases t) simp_all

lemma updateHeight_avl:
  "avl l \<Longrightarrow> avl r \<Longrightarrow> updateHeight (Node l k v h r) = Node l k v (max (height l) (height r) + 1) r"
  by (auto simp: aug_height)

lemma factor_avl:
  "avl l \<Longrightarrow> avl r \<Longrightarrow> factor (Node l k v h r) = int (height r) - int (height l)"
  by (auto simp: aug_height)

lemma avl_heights_positive: "avl t \<Longrightarrow> heights_positive t"
  by (induction t) auto

lemmas avl_node_simps = updateHeight_avl factor_avl
declare updateHeight.simps [simp del] factor.simps [simp del]

lemma fixBalance_avl_left:
  assumes "avl l" "avl r" and bounds: "height l \<le> height r + 2" "height r \<le> height l + 1"
    and lean: "height l = height r + 2 \<Longrightarrow> factor l \<noteq> 0"
    and fb: "fixBalance (updateHeight (Node l k v h r)) = Some t"
  shows "avl t \<and> (if height l = height r + 2 then height t = height r + 2
    else t = Node l k v (max (height l) (height r) + 1) r)"
proof (cases "height l = height r + 2")
  case True
  then obtain ll lk lv lh lr where l: "l = Node ll lk lv lh lr"
    by (cases l) auto
  have ll: "avl ll" "avl lr" "height ll \<le> height lr + 1" "height lr \<le> height ll + 1"
    using assms(1) l by auto
  have fl: "factor l = int (height lr) - int (height ll)"
    using l ll by (simp add: factor_avl)
  consider "height ll = height r + 1" "height lr = height r" | "height lr = height r + 1" "height ll = height r"
    using True l lean fl ll by fastforce
  then show ?thesis
  proof cases
    case 1
    then show ?thesis
      using fb l ll assms(1,2) fl by (auto simp: avl_node_simps)
  next
    case 2
    then obtain a b c d e where lr: "lr = Node a b c d e"
      by (cases lr) auto
    then show ?thesis
      using fb l ll assms(1,2) fl 2 by (auto simp: avl_node_simps) arith+
  qed
next
  case False
  then show ?thesis
    using fb bounds assms(1,2) by (auto simp: avl_node_simps)
qed

lemma fixBalance_avl_right:
  assumes "avl l" "avl r" and bounds: "height r \<le> height l + 2" "height l \<le> height r + 1"
    and lean: "height r = height l + 2 \<Longrightarrow> factor r \<noteq> 0"
    and fb: "fixBalance (updateHeight (Node l k v h r)) = Some t"
  shows "avl t \<and> (if height r = height l + 2 then height t = height l + 2
    else t = Node l k v (max (height l) (height r) + 1) r)"
proof (cases "height r = height l + 2")
  case True
  then obtain rl rk rv rh rr where r: "r = Node rl rk rv rh rr"
    by (cases r) auto
  have rr: "avl rl" "avl rr" "height rl \<le> height rr + 1" "height rr \<le> height rl + 1"
    using assms(2) r by auto
  have fr: "factor r = int (height rr) - int (height rl)"
    using r rr by (simp add: factor_avl)
  consider "height rr = height l + 1" "height rl = height l" | "height rl = height l + 1" "height rr = height l"
    using True r lean fr rr by fastforce
  then show ?thesis
  proof cases
    case 1
    then show ?thesis
      using fb r rr assms(1,2) fr by (auto simp: avl_node_simps)
  next
    case 2
    then obtain a b c d e where rl: "rl = Node a b c d e"
      by (cases rl) auto
    then show ?thesis
      using fb r rr assms(1,2) fr 2 by (auto simp: avl_node_simps) arith+
  qed
next
  case False
  then show ?thesis
    using fb bounds assms(1,2) by (auto simp: avl_node_simps)
qed

text \<open>
  An insertion keeps the AVL invariant. Where the height of the tree grows, the new root leans to
  one side; this is why the double rotation that \<open>fixBalance\<close> applies to a child with factor 0
  never happens during an insertion.
\<close>

lemma insert_node_avl:
  assumes "avl t" and "insert_node cmp t k v replace n = Some (t', n')"
  shows "avl t' \<and> (height t' = height t \<or> height t' = height t + 1 \<and> factor t' \<noteq> 0)"
  using assms
proof (induction cmp t k v replace n arbitrary: t' n' rule: insert_node.induct)
  case (2 cmp l x w h r k v replace n)
  have a: "avl l" "avl r" "height l \<le> height r + 1" "height r \<le> height l + 1"
    using "2.prems"(1) by auto
  consider "k = x" | "k \<noteq> x" "cmp k x" "l = nullptr" | "k \<noteq> x" "\<not> cmp k x" "r = nullptr"
    | (left) "k \<noteq> x" "cmp k x" "l \<noteq> nullptr" | (right) "k \<noteq> x" "\<not> cmp k x" "r \<noteq> nullptr"
    by blast
  then show ?case
  proof cases
    case left
    then obtain l' where l': "insert_node cmp l k v replace n = Some (l', n')"
      and fb: "fixBalance (updateHeight (Node l' x w h r)) = Some t'"
      using "2.prems"(2) by (auto split: bind_splits)
    have IH: "avl l' \<and> (height l' = height l \<or> height l' = height l + 1 \<and> factor l' \<noteq> 0)"
      using "2.IH"(1) left a(1) l' by blast
    then have "avl t' \<and> (if height l' = height r + 2 then height t' = height r + 2
        else t' = Node l' x w (max (height l') (height r) + 1) r)"
      using fixBalance_avl_left [OF _ a(2) _ _ _ fb] a by fastforce
    then show ?thesis
      using IH a by (auto simp: factor_avl split: if_splits)
  next
    case right
    then obtain r' where r': "insert_node cmp r k v replace n = Some (r', n')"
      and fb: "fixBalance (updateHeight (Node l x w h r')) = Some t'"
      using "2.prems"(2) by (auto split: bind_splits)
    have IH: "avl r' \<and> (height r' = height r \<or> height r' = height r + 1 \<and> factor r' \<noteq> 0)"
      using "2.IH"(2) right a(2) r' by blast
    then have "avl t' \<and> (if height r' = height l + 2 then height t' = height l + 2
        else t' = Node l x w (max (height l) (height r') + 1) r')"
      using fixBalance_avl_right [OF a(1) _ _ _ _ fb] a by fastforce
    then show ?thesis
      using IH a by (auto simp: factor_avl split: if_splits)
  next
    case 2
    then have "height r = 0 \<or> height r = 1"
      using a by (simp del: height_eq_0) linarith
    then show ?thesis
      using 2 "2.prems" a by (auto simp: avl_node_simps from_node_def)
  next
    case 3
    then have "height l = 0 \<or> height l = 1"
      using a by (simp del: height_eq_0) linarith
    then show ?thesis
      using 3 "2.prems" a by (auto simp: avl_node_simps from_node_def)
  qed (use "2.prems" a in \<open>auto simp: avl_node_simps\<close>)
qed simp

section \<open>The AVL map as an ordered map\<close>

definition avl_class :: "'k compare \<Rightarrow> (('k, 'v) avl_map, 'k, 'v) map_class" where
  "avl_class cmp = \<lparr>m_new = avl_new, m_size = avl_size, m_empty = avl_empty,
     m_clear = \<lambda>m. Some (avl_clear m), m_contains = avl_contains cmp,
     m_get = avl_get cmp, m_insert = avl_insert cmp,
     m_insertIfAbsent = avl_insertIfAbsent cmp, m_getOrInsert = avl_getOrInsert cmp,
     m_getOrDefault = avl_getOrDefault cmp, m_index_assign = avl_index_assign cmp,
     m_remove = avl_remove cmp, m_getAndRemove = avl_getAndRemove cmp,
     m_removeAll = avl_removeAll cmp,
     m_ceiling = \<lambda>m k. Some (avl_getCeilingEntry cmp m k),
     m_floor = \<lambda>m k. Some (avl_getFloorEntry cmp m k),
     m_higher = \<lambda>m k. Some (avl_getHigherEntry cmp m k),
     m_lower = \<lambda>m k. Some (avl_getLowerEntry cmp m k),
     m_toEntryList = \<lambda>m. Some (avl_toEntryList m),
     m_forEach = \<lambda>action m s. Some (avl_forEach action m s),
     m_forEachMut = \<lambda>action m s. Some (avl_forEachMut cmp action m s)\<rparr>"

lemma avl_class_new [simp]: "m_new (avl_class cmp) = avl_new"
  by (simp add: avl_class_def)

lemmas avl_op_defs =
  avl_size_def avl_empty_def avl_contains_def avl_get_def avl_forEach_def forEach_fold avl_getCeilingEntry_def avl_getFloorEntry_def avl_getHigherEntry_def
  avl_getLowerEntry_def avl_toEntryList_def toEntryList_inorder

lemma avl_wf_facts:
  assumes "avl_wf cmp m"
  shows "bst cmp (avl_root m)" and "sorted_keys cmp (inorder (avl_root m))"
    and "avl_count m = length (inorder (avl_root m))"
  using assms by (simp_all add: avl_wf_def bst_def)

lemma avl_removeAll_filter:
  assumes "compare_order cmp" and "avl_wf cmp m"
  shows "\<exists>m'. avl_removeAll cmp p m = Some m' \<and> avl_wf cmp m' \<and>
    inorder (avl_root m') = filter (\<lambda>(k, v). \<not> p k v) (inorder (avl_root m))"
  using compare_order.avl_remove_keys_wf [OF assms, of "matching_keys p (avl_root m)"]
  unfolding avl_removeAll_def matching_keys_filter
    compare_order.filter_matching_keys [OF assms(1) avl_wf_facts(2) [OF assms(2)]] .

lemma avl_ordered_map:
  assumes "compare_order cmp"
  shows "ordered_map cmp (avl_class cmp) (avl_wf cmp) avl_toEntryList plain_message"
proof -
  note laws = compare_order.avl_insert_wf [OF assms] compare_order.avl_insertIfAbsent_wf [OF assms]
    compare_order.avl_remove_wf [OF assms] avl_removeAll_filter [OF assms]
    compare_order.neighbour_entries [OF assms avl_wf_facts(1)]
    compare_order.get_value_map_of [OF assms avl_wf_facts(1)]
    compare_order.avl_getOrInsert_eq [OF assms] compare_order.avl_getAndRemove_eq [OF assms]
    compare_order.contains_key_has_key [OF assms avl_wf_facts(1)] compare_order.avl_clear_wf [OF assms]
    compare_order.avl_getOrDefault_eq [OF assms] compare_order.avl_index_assign_wf [OF assms]
    compare_order.avl_forEachMut_wf [OF assms]
  have "growing_map_axioms cmp (avl_class cmp) (avl_wf cmp) avl_toEntryList plain_message"
    by unfold_locales
      (simp_all add: avl_class_def avl_op_defs laws avl_wf_facts plain_message_def
        compare_order.avl_wf_new [OF assms, unfolded avl_new_def] avl_new_def)
  moreover have "ordered_map_axioms (avl_class cmp) (avl_wf cmp) avl_toEntryList"
    by unfold_locales (simp_all add: avl_class_def avl_op_defs laws avl_wf_facts)
  ultimately show ?thesis
    using assms by (simp add: ordered_map_def growing_map_def)
qed

lemma avl_growing_map:
  "compare_order cmp \<Longrightarrow> growing_map cmp (avl_class cmp) (avl_wf cmp) avl_toEntryList plain_message"
  by (rule ordered_map.axioms(1) [OF avl_ordered_map])

interpretation avl: ordered_map std_less "avl_class std_less" "avl_wf std_less" avl_toEntryList plain_message
  by (rule avl_ordered_map) unfold_locales

section \<open>Height bound\<close>

lemma avl_size_lower_bound:
  "avl t \<Longrightarrow> (2::nat) ^ (height t div 2) \<le> length (inorder t) + 1"
proof (induction t)
  case (Node l k v h r)
  define m where "m = max (height l) (height r)"
  have IH: "(2::nat) ^ (height l div 2) \<le> length (inorder l) + 1"
    "(2::nat) ^ (height r div 2) \<le> length (inorder r) + 1"
    using Node by simp_all
  show ?case
  proof (cases "m = 0")
    case True
    then show ?thesis by (simp add: m_def)
  next
    case False
    have "m - 1 \<le> height l" "m - 1 \<le> height r"
      using Node.prems by (auto simp: m_def)
    then have "(m - 1) div 2 \<le> height l div 2" "(m - 1) div 2 \<le> height r div 2"
      by (simp_all add: div_le_mono)
    then have "(2::nat) ^ ((m - 1) div 2) \<le> 2 ^ (height l div 2)"
      "(2::nat) ^ ((m - 1) div 2) \<le> 2 ^ (height r div 2)"
      by (simp_all add: power_increasing)
    with IH have "2 * (2::nat) ^ ((m - 1) div 2) \<le> length (inorder l) + length (inorder r) + 2"
      by linarith
    moreover have "(m + 1) div 2 = Suc ((m - 1) div 2)"
      using False by (cases m) auto
    ultimately show ?thesis
      by (simp add: m_def [symmetric])
  qed
qed simp

lemma avl_new_root: "avl (avl_root avl_new)"
  by (simp add: avl_new_def)

lemma avl_from_node [simp]: "avl (from_node k v)"
  by (simp add: from_node_def)

lemma avl_insert_balanced:
  assumes "avl (avl_root m)" and "avl_insert cmp m k v = Some m'"
  shows "avl (avl_root m')"
  using assms by (auto simp: avl_insert_def split: if_splits bind_splits dest: insert_node_avl)

lemma avl_insertIfAbsent_balanced:
  assumes "avl (avl_root m)" and "avl_insertIfAbsent cmp m k v = Some (m', b)"
  shows "avl (avl_root m')"
  using assms by (auto simp: avl_insertIfAbsent_def split: if_splits bind_splits dest: insert_node_avl)

lemma avl_set_value:
  "height (set_value cmp t k v) = height t \<and> (avl (set_value cmp t k v) \<longleftrightarrow> avl t)"
  by (induction t) auto

lemma avl_forEachMut_balanced:
  "avl (avl_root m) \<Longrightarrow> avl (avl_root (fst (avl_forEachMut cmp action m s)))"
  using forEachMut_keeps [of avl cmp action "avl_root m" s]
  by (simp add: avl_forEachMut_def avl_set_value split_def Let_def)

lemma avl_index_assign_balanced:
  assumes "compare_order cmp" and "avl_wf cmp m" and "avl (avl_root m)"
    and "avl_index_assign cmp d m k v = Some m'"
  shows "avl (avl_root m')"
  using assms(3,4) compare_order.avl_getOrInsert_eq [OF assms(1,2), of k d]
  by (auto simp: avl_index_assign_def compare_order.avl_getOrDefault_eq [OF assms(1)] avl_set_value
      split: bind_splits intro: avl_insertIfAbsent_balanced)

lemma avl_call_balanced:
  assumes "compare_order cmp" and "avl_wf cmp m" and "avl (avl_root m)" and "\<not> removing op"
    and "call (avl_class cmp) m op = Some (m', res)"
  shows "avl (avl_root m')"
proof (cases op)
  case (IndexAssign d k v)
  then show ?thesis
    using avl_index_assign_balanced [OF assms(1-3)] assms(5) by (auto simp: avl_class_def)
next
  case (ForEachMut f)
  then show ?thesis
    using avl_forEachMut_balanced [OF assms(3), of cmp f "[]"] assms(5)
    by (auto simp: avl_class_def split: prod.splits)
qed (use assms(3-5) compare_order.avl_getOrInsert_eq [OF assms(1,2)] in
  \<open>auto simp: avl_class_def avl_clear_def compare_order.avl_getOrDefault_eq [OF assms(1)]
     intro: avl_insert_balanced avl_insertIfAbsent_balanced\<close>)

section \<open>Heights in 64 bits\<close>

lemma sint_of_int_64: "- (2 ^ 63) \<le> x \<Longrightarrow> x < 2 ^ 63 \<Longrightarrow> sint (of_int x :: 64 word) = x"
  by (simp add: signed_of_int signed_take_bit_int_eq_self)

lemma sint_diff_64:
  "a < 2 ^ 63 \<Longrightarrow> b < 2 ^ 63 \<Longrightarrow> sint ((of_nat a :: 64 word) - of_nat b) = int a - int b"
  using sint_of_int_64 [of "int a - int b"] by simp

lemma sint_minus_64: "b < 2 ^ 63 \<Longrightarrow> sint (- (of_nat b :: 64 word)) = - int b"
  using sint_of_int_64 [of "- int b"] by simp

lemma sint_nat_64: "a < 2 ^ 63 \<Longrightarrow> sint (of_nat a :: 64 word) = int a"
  using sint_of_int_64 [of "int a"] by simp

section \<open>Correctness of the class\<close>

text \<open>
  C1. \<open>AvlTreeMap\<close> implements the ordered map. For every comparison that is a strict total order
  and every sequence of the public calls (size, empty, clear, contains, get, insert, insertIfAbsent,
  getOrInsert, getOrDefault, assignment through \<open>operator[]\<close>, remove, getAndRemove, removeAll, the four
  neighbour searches, toEntryList, forEach, forEachMut) on a fresh map, the results and exceptions are those
  of the reference implementation on sorted entry lists, and \<open>toEntryList\<close> gives its entries. The sequence fails
  in one case only, the assertion of \<open>getNode\<close>: it calls \<open>contains\<close> while the map is empty.
\<close>

theorem avl_refines_reference:
  assumes "compare_order cmp"
  shows "(case ref_calls plain_message cmp [] ops of
      None \<Rightarrow> calls (avl_class cmp) avl_new ops = None
    | Some (es, ress) \<Rightarrow> \<exists>m. calls (avl_class cmp) avl_new ops = Some (m, ress) \<and> avl_toEntryList m = es) \<and>
    (calls (avl_class cmp) avl_new ops = None \<longleftrightarrow>
      (\<exists>before k after m ress. ops = before @ Contains k # after \<and>
        calls (avl_class cmp) avl_new before = Some (m, ress) \<and> avl_toEntryList m = []))"
  using agrees_outcome [OF ordered_map.fresh_map_refines [OF avl_ordered_map [OF assms], of ops]]
    ordered_map.fresh_map_fails [OF avl_ordered_map [OF assms], of ops]
  unfolding avl_class_new by (rule conjI)

theorem avl_refines_reference_witness:
  "\<exists>m. calls (avl_class std_greater) avl_new
      [Insert (1::int) ''a'', Insert 2 ''b'', Remove 1, GetLower 1, Get 1, Contains 2] =
    Some (m, [Done, Done, Flag True, Ent (2, ''b''), Threw (NoSuchMappingException ''Invalid key''), Flag True])"
  using avl_refines_reference [OF greater.compare_order_axioms,
      of "[Insert (1::int) ''a'', Insert 2 ''b'', Remove 1, GetLower 1, Get 1, Contains 2]"]
  by (auto simp: plain_message_def upd_entries_def lt_part_def gt_part_def last_such_def first_such_def lookup_result_def)

text \<open>
  C2. While no single entry is removed, the tree is an AVL tree of logarithmic height: after any sequence
  of calls without a removing one that gets to its end, stored heights are exact, siblings differ in height by at most
  one, and the height \<open>h\<close> and the number of entries \<open>n\<close> satisfy \<open>2 ^ (h div 2) \<le> n + 1\<close>. The sequence
  gets to its end, with the results of the reference, unless it calls \<open>contains\<close> on the empty map.
\<close>

theorem avl_insertions_balanced:
  assumes "compare_order cmp" and "list_all (\<lambda>op. \<not> removing op) ops"
  shows "case ref_calls plain_message cmp [] ops of
      None \<Rightarrow> calls (avl_class cmp) avl_new ops = None
    | Some (es, ress) \<Rightarrow> \<exists>m. calls (avl_class cmp) avl_new ops = Some (m, ress) \<and> avl_toEntryList m = es \<and>
        avl (avl_root m) \<and> 2 ^ (height (avl_root m) div 2) \<le> avl_size m + 1"
proof -
  have "agrees (\<lambda>m. avl_wf cmp m \<and> avl (avl_root m)) avl_toEntryList (calls (avl_class cmp) (m_new (avl_class cmp)) ops)
      (ref_calls plain_message cmp [] ops)"
    by (rule growing_map.calls_without_removal_keep [OF avl_growing_map [OF assms(1)] _ assms(2)])
      (simp_all add: avl_new_root avl_call_balanced [OF assms(1)])
  then show ?thesis
    using avl_size_lower_bound avl_wf_facts(3)
    by (fastforce simp: agrees_def avl_size_def split: option.splits)
qed

theorem avl_insertions_balanced_witness:
  "\<exists>m ress. calls (avl_class std_less) avl_new (map (\<lambda>k. Insert (k::nat) k) [0..<10]) = Some (m, ress) \<and>
    avl (avl_root m) \<and> 2 ^ (height (avl_root m) div 2) \<le> avl_size m + 1"
  using avl_insertions_balanced [OF less.compare_order_axioms, of "map (\<lambda>k. Insert (k::nat) k) [0..<10]"]
  by (auto simp: list_all_iff upt_conv_Cons upd_entries_def lt_part_def gt_part_def)

text \<open>
  C3. In every well-formed map the neighbour searches, stack of ancestors included, find the nearest entries: ceiling the
  least entry that is not below the key, higher the least above it, floor the greatest not above
  it, lower the greatest below it; each throws exactly when there is no such entry.
\<close>

theorem avl_neighbours:
  assumes "compare_order cmp" and "avl_wf cmp m"
  shows "(avl_getCeilingEntry cmp m k = Inr e \<longleftrightarrow>
      least_such cmp (\<lambda>f. \<not> cmp (fst f) k) (avl_toEntryList m) e) \<and>
    (avl_getHigherEntry cmp m k = Inr e \<longleftrightarrow>
      least_such cmp (\<lambda>f. cmp k (fst f)) (avl_toEntryList m) e) \<and>
    (avl_getFloorEntry cmp m k = Inr e \<longleftrightarrow>
      least_such (\<lambda>x y. cmp y x) (\<lambda>f. \<not> cmp k (fst f)) (avl_toEntryList m) e) \<and>
    (avl_getLowerEntry cmp m k = Inr e \<longleftrightarrow>
      least_such (\<lambda>x y. cmp y x) (\<lambda>f. cmp (fst f) k) (avl_toEntryList m) e) \<and>
    (isl (avl_getCeilingEntry cmp m k) \<longleftrightarrow> (\<forall>f \<in> set (avl_toEntryList m). cmp (fst f) k)) \<and>
    (isl (avl_getHigherEntry cmp m k) \<longleftrightarrow> (\<forall>f \<in> set (avl_toEntryList m). \<not> cmp k (fst f))) \<and>
    (isl (avl_getFloorEntry cmp m k) \<longleftrightarrow> (\<forall>f \<in> set (avl_toEntryList m). cmp k (fst f))) \<and>
    (isl (avl_getLowerEntry cmp m k) \<longleftrightarrow> (\<forall>f \<in> set (avl_toEntryList m). \<not> cmp (fst f) k))"
  using assms
  by (simp add: avl_op_defs compare_order.neighbour_entries avl_wf_facts isl_def
      first_such_least [of cmp] last_such_greatest [of cmp] first_such_throws compare_order.compare_asym)

theorem avl_neighbours_witness:
  "avl_getFloorEntry std_less \<lparr>avl_root = Node (from_node 1 ''a'') 3 ''b'' 2 (from_node 7 ''c''), avl_count = 3\<rparr>
     (5::nat) = Inr (3, ''b'')"
proof -
  let ?m = "\<lparr>avl_root = Node (from_node 1 ''a'') (3::nat) ''b'' 2 (from_node 7 ''c''), avl_count = 3\<rparr>"
  have "avl_wf std_less ?m"
    by (simp add: avl_wf_def)
  from avl_neighbours [OF less.compare_order_axioms this, of 5 "(3, ''b'')"] show ?thesis
    by (simp add: least_such_def avl_op_defs)
qed

text \<open>
  \<open>contains\<close> is right on every map that has entries, but on an empty map it does not answer:
  \<open>getNode\<close> asserts that the root is not null.
\<close>

theorem avl_contains_spec:
  assumes "compare_order cmp" and "avl_wf cmp m"
  shows "avl_contains cmp m k =
    (if avl_empty m then None else Some (k \<in> fst ` set (avl_toEntryList m)))"
  using assms compare_order.contains_key_has_key [OF assms(1) avl_wf_facts(1) [OF assms(2)], of k]
  by (auto simp: avl_op_defs avl_wf_facts has_key_def)

theorem avl_contains_spec_witness:
  "avl_contains std_less (avl_new :: (nat, unit) avl_map) 1 = None \<and>
   avl_contains std_less \<lparr>avl_root = from_node 1 (), avl_count = 1\<rparr> (1::nat) = Some True"
proof -
  have "avl_wf std_less (avl_new :: (nat, unit) avl_map)"
    by (rule less.avl_wf_new)
  moreover have "avl_wf std_less \<lparr>avl_root = from_node (1::nat) (), avl_count = 1\<rparr>"
    by (simp add: avl_wf_def bst_def)
  ultimately show ?thesis
    using avl_contains_spec [OF less.compare_order_axioms, of avl_new "1::nat"]
      avl_contains_spec [OF less.compare_order_axioms, of "\<lparr>avl_root = from_node (1::nat) (), avl_count = 1\<rparr>" 1]
    by (simp add: avl_op_defs avl_empty_def avl_new_def)
qed

text \<open>
  \<open>m[k] = v\<close> is an insertion: the default entry that \<open>operator[]\<close> may create is overwritten
  through the returned reference, and the map ends with the entries \<open>insert\<close> gives.
\<close>

theorem avl_index_assign_insert:
  assumes "compare_order cmp" and "avl_wf cmp m"
  shows "\<exists>m1 m2. avl_index_assign cmp dflt m k v = Some m1 \<and> avl_insert cmp m k v = Some m2 \<and>
    avl_toEntryList m1 = avl_toEntryList m2 \<and> avl_size m1 = avl_size m2 \<and>
    avl_get cmp m1 k = Some (Inr v)"
  using compare_order.avl_index_assign_wf [OF assms, of dflt k v] compare_order.avl_insert_wf [OF assms, of k v]
  by (auto simp: avl_op_defs avl_wf_facts compare_order.get_value_map_of [OF assms(1)]
      compare_order.map_of_upd_entries [OF assms(1)])

theorem avl_index_assign_insert_witness:
  "\<exists>m1 m2. avl_index_assign std_less 0 avl_new (4::nat) (9::nat) = Some m1 \<and>
    avl_insert std_less avl_new 4 9 = Some m2 \<and>
    avl_toEntryList m1 = avl_toEntryList m2 \<and> avl_size m1 = avl_size m2 \<and>
    avl_get std_less m1 4 = Some (Inr 9)"
  by (rule avl_index_assign_insert [OF less.compare_order_axioms less.avl_wf_new])

text \<open>
  \<open>forEachMut\<close> visits the entries in key order, threads the state of the callback through the
  visits and replaces each value by the one the callback leaves; keys, order and size stay.
\<close>

theorem avl_forEachMut_spec:
  assumes "compare_order cmp" and "avl_wf cmp m"
  shows "\<exists>m'. avl_forEachMut cmp action m s = (m', snd (thread_values action (avl_toEntryList m) s)) \<and>
    avl_toEntryList m' = fst (thread_values action (avl_toEntryList m) s) \<and> avl_size m' = avl_size m"
  using compare_order.avl_forEachMut_wf [OF assms, of action s]
  by (auto simp: avl_forEachMut_def avl_op_defs split_def Let_def)

theorem avl_forEachMut_spec_witness:
  "\<exists>m'. avl_forEachMut std_less (\<lambda>k v n. (v + n, n + 1))
      \<lparr>avl_root = Node (from_node 1 10) (3::nat) 30 2 (from_node 7 (70::nat)), avl_count = 3\<rparr> 0 = (m', 3) \<and>
    avl_toEntryList m' = [(1, 10), (3, 31), (7, 72)]"
proof -
  let ?m = "\<lparr>avl_root = Node (from_node 1 10) (3::nat) 30 2 (from_node 7 (70::nat)), avl_count = 3\<rparr>"
  have "avl_wf std_less ?m"
    by (simp add: avl_wf_def)
  from avl_forEachMut_spec [OF less.compare_order_axioms this, of "\<lambda>k v n. (v + n, n + 1)" 0]
  show ?thesis
    by (auto simp: avl_op_defs numeral_eq_Suc)
qed

text \<open>
  The 64-bit arithmetic of \<open>factor()\<close>: with stored heights below \<open>2 ^ 63\<close>, the wrapped
  unsigned difference read as a signed number is the difference of the heights.
\<close>

lemma factor64_exact:
  assumes "aug (left t) < 2 ^ 63" and "aug (right t) < 2 ^ 63"
  shows "factor64 t = factor t"
  using assms by (cases t) (auto simp: factor.simps sint_diff_64 sint_minus_64 sint_nat_64)

lemma factor64_exact_witness:
  "factor64 (Node (Node nullptr (1::nat) () 5 nullptr) 2 () 6 (from_node 3 ())) = -4"
  using factor64_exact [of "Node (Node nullptr (1::nat) () 5 nullptr) 2 () 6 (from_node 3 ())"]
  by (simp add: factor.simps)

text \<open>
  Removal does not keep the balance the class documents. After inserting 1, 2, 3, 5, 6, 4, 7
  and removing 3, the successor 4 has been unlinked below node 5, no node on that path is
  rebalanced, and the subtrees of node 5 differ in height by two.
\<close>

lemma avl_remove_unbalances:
  "\<exists>m ress. calls (avl_class std_less) avl_new
      (map (\<lambda>k. Insert k ()) [1, 2, 3, 5, 6, 4, 7] @ [Remove (3::nat)]) = Some (m, ress) \<and>
    \<not> avl (avl_root m)"
  by (simp add: avl_class_def avl_new_def avl_insert_def avl_remove_def from_node_def
      updateHeight.simps factor.simps remove_found_def isLeaf_def)

end
