(* ===== verification/SizeBalancedTreeMap.thy ===== *)
theory SizeBalancedTreeMap
  imports SearchTree
begin

text \<open>
  \<^verbatim>\<open>SizeBalancedTreeMap.hpp\<close>: the map kept in a size balanced tree. The counter field \<open>aug\<close>
  of a node is its \<open>size\<close>, so \<open>aug\<close> of a possibly null pointer is the class's \<open>size(node)\<close>.
  \<open>fixBalance\<close> calls itself on subtrees it has just rotated; it is a partial function whose result
  is \<open>None\<close> if the calls never end, and the lemmas show that on trees with exact sizes they do
  end: every rotation lowers the sum of the depths of the nodes.
\<close>

section \<open>Node operations\<close>

fun sbt_updateSize :: "('k, 'v) node_ptr \<Rightarrow> ('k, 'v) node_ptr" where
  "sbt_updateSize nullptr = nullptr"
| "sbt_updateSize (Node l k v s r) = Node l k v (aug l + aug r + 1) r"

fun sbt_rotateLeft :: "('k, 'v) node_ptr \<Rightarrow> ('k, 'v) node_ptr option" where
  "sbt_rotateLeft (Node l k v s (Node sl sk sv ss sr)) =
     Some (sbt_updateSize (Node (sbt_updateSize (Node l k v s sl)) sk sv ss sr))"
| "sbt_rotateLeft _ = None"

fun sbt_rotateRight :: "('k, 'v) node_ptr \<Rightarrow> ('k, 'v) node_ptr option" where
  "sbt_rotateRight (Node (Node sl sk sv ss sr) k v s r) =
     Some (sbt_updateSize (Node sl sk sv ss (sbt_updateSize (Node sr k v s r))))"
| "sbt_rotateRight _ = None"

text \<open>A call with \<open>node->left\<close> (or \<open>node->right\<close>) by reference stores its result in that field.\<close>

fun with_left :: "('k, 'v) node_ptr \<Rightarrow> ('k, 'v) node_ptr \<Rightarrow> ('k, 'v) node_ptr" where
  "with_left nullptr l' = nullptr"
| "with_left (Node l k v s r) l' = Node l' k v s r"

fun with_right :: "('k, 'v) node_ptr \<Rightarrow> ('k, 'v) node_ptr \<Rightarrow> ('k, 'v) node_ptr" where
  "with_right nullptr r' = nullptr"
| "with_right (Node l k v s r) r' = Node l k v s r'"

partial_function (option) sbt_fixBalance :: "('k, 'v) node_ptr \<Rightarrow> ('k, 'v) node_ptr option" where [code]:
  "sbt_fixBalance node =
     (if node = nullptr then Some nullptr
      else if left node \<noteq> nullptr \<and> aug (left (left node)) > aug (right node) then do {
        n1 \<leftarrow> sbt_rotateRight node;
        r1 \<leftarrow> sbt_fixBalance (right n1);
        sbt_fixBalance (with_right n1 r1)
      }
      else if left node \<noteq> nullptr \<and> aug (right (left node)) > aug (right node) then do {
        l0 \<leftarrow> sbt_rotateLeft (left node);
        n1 \<leftarrow> sbt_rotateRight (with_left node l0);
        l1 \<leftarrow> sbt_fixBalance (left n1);
        r1 \<leftarrow> sbt_fixBalance (right n1);
        sbt_fixBalance (with_right (with_left n1 l1) r1)
      }
      else if right node \<noteq> nullptr \<and> aug (right (right node)) > aug (left node) then do {
        n1 \<leftarrow> sbt_rotateLeft node;
        l1 \<leftarrow> sbt_fixBalance (left n1);
        sbt_fixBalance (with_left n1 l1)
      }
      else if right node \<noteq> nullptr \<and> aug (left (right node)) > aug (left node) then do {
        r0 \<leftarrow> sbt_rotateRight (right node);
        n1 \<leftarrow> sbt_rotateLeft (with_right node r0);
        l1 \<leftarrow> sbt_fixBalance (left n1);
        r1 \<leftarrow> sbt_fixBalance (right n1);
        sbt_fixBalance (with_right (with_left n1 l1) r1)
      }
      else Some node)"

fun sbt_getNodeOrProvide ::
  "'k compare \<Rightarrow> ('k, 'v) node_ptr \<Rightarrow> 'k \<Rightarrow> ('k, 'v) node_ptr \<Rightarrow>
     (('k, 'v) node_ptr \<times> 'v) option" where
  "sbt_getNodeOrProvide cmp nullptr k fresh = None"
| "sbt_getNodeOrProvide cmp (Node l x v s r) k fresh =
     (if k = x then Some (Node l x v s r, v)
      else if cmp k x then
        (if l = nullptr then Some (sbt_updateSize (Node fresh x v s r), val fresh)
         else do {
           (l', res) \<leftarrow> sbt_getNodeOrProvide cmp l k fresh;
           t' \<leftarrow> sbt_fixBalance (sbt_updateSize (Node l' x v s r));
           Some (t', res)
         })
      else
        (if r = nullptr then Some (sbt_updateSize (Node l x v s fresh), val fresh)
         else do {
           (r', res) \<leftarrow> sbt_getNodeOrProvide cmp r k fresh;
           t' \<leftarrow> sbt_fixBalance (sbt_updateSize (Node l x v s r'));
           Some (t', res)
         }))"

fun sbt_insert_node ::
  "'k compare \<Rightarrow> ('k, 'v) node_ptr \<Rightarrow> 'k \<Rightarrow> 'v \<Rightarrow> bool \<Rightarrow> ('k, 'v) node_ptr option" where
  "sbt_insert_node cmp nullptr k v replace = None"
| "sbt_insert_node cmp (Node l x w s r) k v replace =
     (if k = x then Some (Node l x (if replace then v else w) s r)
      else if cmp k x then
        (if l = nullptr then Some (sbt_updateSize (Node (from_node k v) x w s r))
         else do {
           l' \<leftarrow> sbt_insert_node cmp l k v replace;
           sbt_fixBalance (sbt_updateSize (Node l' x w s r))
         })
      else
        (if r = nullptr then Some (sbt_updateSize (Node l x w s (from_node k v)))
         else do {
           r' \<leftarrow> sbt_insert_node cmp r k v replace;
           sbt_fixBalance (sbt_updateSize (Node l x w s r'))
         }))"

text \<open>
  Case 5 of \<open>remove\<close> on the right child of the removed node: the leftmost node \<open>S\<close> is unlinked
  and the sizes of all nodes on the path from its parent upwards are updated.
\<close>

fun sbt_unlink_successor :: "('k, 'v) node_ptr \<Rightarrow> ('k \<times> 'v \<times> ('k, 'v) node_ptr) option" where
  "sbt_unlink_successor nullptr = None"
| "sbt_unlink_successor (Node nullptr k v s r) = None"
| "sbt_unlink_successor (Node (Node ll lk lv ls lr) k v s r) =
     (if ll = nullptr then Some (lk, lv, sbt_updateSize (Node lr k v s r))
      else do {
        (sk, sv, l') \<leftarrow> sbt_unlink_successor (Node ll lk lv ls lr);
        Some (sk, sv, sbt_updateSize (Node l' k v s r))
      })"

definition sbt_remove_found :: "('k, 'v) node_ptr \<Rightarrow> ('k, 'v) node_ptr option" where
  "sbt_remove_found node =
     (if isLeaf node then Some nullptr
      else if right node = nullptr then Some (left node)
      else if left node = nullptr then Some (right node)
      else if left (right node) = nullptr then
        sbt_fixBalance (sbt_updateSize
          (Node (left node) (key (right node)) (val (right node)) (aug node) (right (right node))))
      else do {
        (sk, sv, r') \<leftarrow> sbt_unlink_successor (right node);
        Some (sbt_updateSize (Node (left node) sk sv (aug node) r'))
      })"

fun sbt_remove_node ::
  "'k compare \<Rightarrow> ('k, 'v) node_ptr \<Rightarrow> 'k \<Rightarrow> (('k, 'v) node_ptr \<times> 'v option) option" where
  "sbt_remove_node cmp nullptr k = None"
| "sbt_remove_node cmp (Node l x v s r) k =
     (if k \<noteq> x then
        (if cmp k x then
           (if l = nullptr then Some (Node l x v s r, None)
            else do {
              (l', res) \<leftarrow> sbt_remove_node cmp l k;
              if res \<noteq> None then do {
                t' \<leftarrow> sbt_fixBalance (sbt_updateSize (Node l' x v s r));
                Some (t', res)
              }
              else Some (Node l' x v s r, None)
            })
         else
           (if r = nullptr then Some (Node l x v s r, None)
            else do {
              (r', res) \<leftarrow> sbt_remove_node cmp r k;
              if res \<noteq> None then do {
                t' \<leftarrow> sbt_fixBalance (sbt_updateSize (Node l x v s r'));
                Some (t', res)
              }
              else Some (Node l x v s r', None)
            }))
      else do {
        t' \<leftarrow> sbt_remove_found (Node l x v s r);
        Some (t', Some v)
      })"

text \<open>
  \<open>countLess\<close> and \<open>countGreater\<close> compare keys with \<open><\<close> and \<open>>\<close>, not with \<open>compare\<close>.
\<close>

fun sbt_countLess :: "('k::linorder, 'v) node_ptr \<Rightarrow> 'k \<Rightarrow> bool \<Rightarrow> nat" where
  "sbt_countLess nullptr k countEqual = 0"
| "sbt_countLess (Node l x v s r) k countEqual =
     (if k < x then sbt_countLess l k countEqual
      else if k > x then aug l + 1 + sbt_countLess r k countEqual
      else aug l + (if countEqual then 1 else 0))"

fun sbt_countGreater :: "('k::linorder, 'v) node_ptr \<Rightarrow> 'k \<Rightarrow> bool \<Rightarrow> nat" where
  "sbt_countGreater nullptr k countEqual = 0"
| "sbt_countGreater (Node l x v s r) k countEqual =
     (if k < x then aug r + 1 + sbt_countGreater l k countEqual
      else if k > x then sbt_countGreater r k countEqual
      else aug r + (if countEqual then 1 else 0))"

section \<open>The map class\<close>

record ('k, 'v) sbt_map =
  sbt_root :: "('k, 'v) node_ptr"

definition sbt_new :: "('k, 'v) sbt_map" where
  "sbt_new = \<lparr>sbt_root = nullptr\<rparr>"

definition sbt_size :: "('k, 'v) sbt_map \<Rightarrow> nat" where
  "sbt_size m = (if sbt_root m \<noteq> nullptr then aug (sbt_root m) else 0)"

definition sbt_empty :: "('k, 'v) sbt_map \<Rightarrow> bool" where
  "sbt_empty m = (sbt_root m = nullptr)"

definition sbt_clear :: "('k, 'v) sbt_map \<Rightarrow> ('k, 'v) sbt_map" where
  "sbt_clear m = m\<lparr>sbt_root := nullptr\<rparr>"

definition sbt_get :: "'k compare \<Rightarrow> ('k, 'v) sbt_map \<Rightarrow> 'k \<Rightarrow> 'v throws option" where
  "sbt_get cmp m k = get_value cmp (sbt_root m) k"

definition sbt_contains :: "'k compare \<Rightarrow> ('k, 'v) sbt_map \<Rightarrow> 'k \<Rightarrow> bool option" where
  "sbt_contains cmp m k = contains_key cmp (sbt_root m) k"

definition sbt_getOrInsert ::
  "'k compare \<Rightarrow> ('k, 'v) sbt_map \<Rightarrow> 'k \<Rightarrow> 'v \<Rightarrow> (('k, 'v) sbt_map \<times> 'v) option" where
  "sbt_getOrInsert cmp m k v =
     (if sbt_root m = nullptr then Some (m\<lparr>sbt_root := from_node k v\<rparr>, v)
      else do {
        (t, res) \<leftarrow> sbt_getNodeOrProvide cmp (sbt_root m) k (from_node k v);
        Some (m\<lparr>sbt_root := t\<rparr>, res)
      })"

definition sbt_getOrDefault ::
  "'k compare \<Rightarrow> 'v \<Rightarrow> ('k, 'v) sbt_map \<Rightarrow> 'k \<Rightarrow> (('k, 'v) sbt_map \<times> 'v) option" where
  "sbt_getOrDefault cmp dflt m k =
     (if sbt_root m = nullptr then Some (m\<lparr>sbt_root := from_node k dflt\<rparr>, dflt)
      else do {
        (t, res) \<leftarrow> sbt_getNodeOrProvide cmp (sbt_root m) k (from_node k dflt);
        Some (m\<lparr>sbt_root := t\<rparr>, res)
      })"

definition sbt_insert ::
  "'k compare \<Rightarrow> ('k, 'v) sbt_map \<Rightarrow> 'k \<Rightarrow> 'v \<Rightarrow> ('k, 'v) sbt_map option" where
  "sbt_insert cmp m k v =
     (if sbt_root m = nullptr then Some (m\<lparr>sbt_root := from_node k v\<rparr>)
      else do {
        t \<leftarrow> sbt_insert_node cmp (sbt_root m) k v True;
        Some (m\<lparr>sbt_root := t\<rparr>)
      })"

definition sbt_insertIfAbsent ::
  "'k compare \<Rightarrow> ('k, 'v) sbt_map \<Rightarrow> 'k \<Rightarrow> 'v \<Rightarrow> (('k, 'v) sbt_map \<times> bool) option" where
  "sbt_insertIfAbsent cmp m k v = do {
     m' \<leftarrow> (if sbt_root m = nullptr then Some (m\<lparr>sbt_root := from_node k v\<rparr>)
             else do {
               t \<leftarrow> sbt_insert_node cmp (sbt_root m) k v False;
               Some (m\<lparr>sbt_root := t\<rparr>)
             });
     Some (m', sbt_size m' > sbt_size m)
   }"

definition sbt_index_assign ::
  "'k compare \<Rightarrow> 'v \<Rightarrow> ('k, 'v) sbt_map \<Rightarrow> 'k \<Rightarrow> 'v \<Rightarrow> ('k, 'v) sbt_map option" where
  "sbt_index_assign cmp dflt m k v = do {
     (m', _) \<leftarrow> sbt_getOrDefault cmp dflt m k;
     Some (m'\<lparr>sbt_root := set_value cmp (sbt_root m') k v\<rparr>)
   }"

definition sbt_remove ::
  "'k compare \<Rightarrow> ('k, 'v) sbt_map \<Rightarrow> 'k \<Rightarrow> (('k, 'v) sbt_map \<times> bool) option" where
  "sbt_remove cmp m k =
     (if sbt_root m = nullptr then Some (m, False)
      else do {
        (t, res) \<leftarrow> sbt_remove_node cmp (sbt_root m) k;
        Some (m\<lparr>sbt_root := t\<rparr>, res \<noteq> None)
      })"

definition sbt_getAndRemove ::
  "'k compare \<Rightarrow> ('k, 'v) sbt_map \<Rightarrow> 'k \<Rightarrow> (('k, 'v) sbt_map \<times> 'v) throws option" where
  "sbt_getAndRemove cmp m k =
     (if sbt_root m = nullptr then Some (Inl (NoSuchMappingException ''Invalid key''))
      else do {
        (t, res) \<leftarrow> sbt_remove_node cmp (sbt_root m) k;
        Some (case res of
                Some v \<Rightarrow> Inr (m\<lparr>sbt_root := t\<rparr>, v)
              | None \<Rightarrow> Inl (NoSuchMappingException ''Invalid key''))
      })"

definition sbt_getCeilingEntry :: "'k compare \<Rightarrow> ('k, 'v) sbt_map \<Rightarrow> 'k \<Rightarrow> ('k \<times> 'v) throws" where
  "sbt_getCeilingEntry cmp m k = getCeilingEntry cmp (sbt_root m) k"

definition sbt_getFloorEntry :: "'k compare \<Rightarrow> ('k, 'v) sbt_map \<Rightarrow> 'k \<Rightarrow> ('k \<times> 'v) throws" where
  "sbt_getFloorEntry cmp m k = getFloorEntry cmp (sbt_root m) k"

definition sbt_getHigherEntry :: "'k compare \<Rightarrow> ('k, 'v) sbt_map \<Rightarrow> 'k \<Rightarrow> ('k \<times> 'v) throws" where
  "sbt_getHigherEntry cmp m k = getHigherEntry cmp (sbt_root m) k"

definition sbt_getLowerEntry :: "'k compare \<Rightarrow> ('k, 'v) sbt_map \<Rightarrow> 'k \<Rightarrow> ('k \<times> 'v) throws" where
  "sbt_getLowerEntry cmp m k = getLowerEntry cmp (sbt_root m) k"

definition sbt_countLessThan :: "('k::linorder, 'v) sbt_map \<Rightarrow> 'k \<Rightarrow> nat" where
  "sbt_countLessThan m k = sbt_countLess (sbt_root m) k False"

definition sbt_countLessOrEqualTo :: "('k::linorder, 'v) sbt_map \<Rightarrow> 'k \<Rightarrow> nat" where
  "sbt_countLessOrEqualTo m k = sbt_countLess (sbt_root m) k True"

definition sbt_countGreaterThan :: "('k::linorder, 'v) sbt_map \<Rightarrow> 'k \<Rightarrow> nat" where
  "sbt_countGreaterThan m k = sbt_countGreater (sbt_root m) k False"

definition sbt_countGreaterOrEqualTo :: "('k::linorder, 'v) sbt_map \<Rightarrow> 'k \<Rightarrow> nat" where
  "sbt_countGreaterOrEqualTo m k = sbt_countGreater (sbt_root m) k True"

definition sbt_toEntryList :: "('k, 'v) sbt_map \<Rightarrow> ('k \<times> 'v) list" where
  "sbt_toEntryList m = toEntryList (sbt_root m)"

definition sbt_forEach :: "('k \<Rightarrow> 'v \<Rightarrow> 's \<Rightarrow> 's) \<Rightarrow> ('k, 'v) sbt_map \<Rightarrow> 's \<Rightarrow> 's" where
  "sbt_forEach action m s = forEach action (sbt_root m) s"

definition sbt_forEachMut ::
  "'k compare \<Rightarrow> ('k \<Rightarrow> 'v \<Rightarrow> 's \<Rightarrow> 'v \<times> 's) \<Rightarrow> ('k, 'v) sbt_map \<Rightarrow> 's \<Rightarrow> ('k, 'v) sbt_map \<times> 's" where
  "sbt_forEachMut cmp action m s =
     (let (t, s') = forEachMut cmp action (sbt_root m) s in (m\<lparr>sbt_root := t\<rparr>, s'))"

fun sbt_remove_keys :: "'k compare \<Rightarrow> ('k, 'v) sbt_map \<Rightarrow> 'k list \<Rightarrow> ('k, 'v) sbt_map option" where
  "sbt_remove_keys cmp m [] = Some m"
| "sbt_remove_keys cmp m (k # ks) = do { (m', _) \<leftarrow> sbt_remove cmp m k; sbt_remove_keys cmp m' ks }"

definition sbt_removeAll ::
  "'k compare \<Rightarrow> ('k \<Rightarrow> 'v \<Rightarrow> bool) \<Rightarrow> ('k, 'v) sbt_map \<Rightarrow> ('k, 'v) sbt_map option" where
  "sbt_removeAll cmp filt m = sbt_remove_keys cmp m (matching_keys filt (sbt_root m))"

section \<open>Sizes, balance and the termination of \<open>fixBalance\<close>\<close>

abbreviation nodes_of :: "('k, 'v) node_ptr \<Rightarrow> nat" where
  "nodes_of t \<equiv> length (inorder t)"

text \<open>Stored sizes are the numbers of nodes.\<close>

fun sizes_exact :: "('k, 'v) node_ptr \<Rightarrow> bool" where
  "sizes_exact nullptr = True"
| "sizes_exact (Node l k v s r) = (s = nodes_of l + nodes_of r + 1 \<and> sizes_exact l \<and> sizes_exact r)"

text \<open>The size balance: no subtree is smaller than a child of its sibling.\<close>

fun size_balanced :: "('k, 'v) node_ptr \<Rightarrow> bool" where
  "size_balanced nullptr = True"
| "size_balanced (Node l k v s r) =
     (nodes_of (left l) \<le> nodes_of r \<and> nodes_of (right l) \<le> nodes_of r \<and>
      nodes_of (left r) \<le> nodes_of l \<and> nodes_of (right r) \<le> nodes_of l \<and>
      size_balanced l \<and> size_balanced r)"

text \<open>The sum of the depths of all nodes.\<close>

fun path_length :: "('k, 'v) node_ptr \<Rightarrow> nat" where
  "path_length nullptr = 0"
| "path_length (Node l k v s r) = path_length l + path_length r + nodes_of l + nodes_of r"

definition children_balanced :: "('k, 'v) node_ptr \<Rightarrow> bool" where
  "children_balanced t = (size_balanced (left t) \<and> size_balanced (right t))"

lemma sizes_exact_set_value:
  "aug (set_value cmp t k v) = aug t \<and> (sizes_exact (set_value cmp t k v) \<longleftrightarrow> sizes_exact t)"
  by (induction t) auto

lemma set_value_children:
  "length (inorder (left (set_value cmp t k v))) = length (inorder (left t))"
  "length (inorder (right (set_value cmp t k v))) = length (inorder (right t))"
  by (cases t; simp)+

lemma size_balanced_set_value: "size_balanced (set_value cmp t k v) \<longleftrightarrow> size_balanced t"
  by (induction t) (auto simp: set_value_children)

lemma aug_nodes_of [simp]: "sizes_exact t \<Longrightarrow> aug t = nodes_of t"
  by (cases t) simp_all

lemma inorder_sbt_updateSize [simp]: "inorder (sbt_updateSize t) = inorder t"
  by (cases t) simp_all

lemma sizes_exact_sbt_updateSize:
  "sizes_exact l \<Longrightarrow> sizes_exact r \<Longrightarrow> sizes_exact (sbt_updateSize (Node l k v s r))"
  by simp

text \<open>
  What a call of \<open>fixBalance\<close> guarantees. The bound on the path length is what the induction over
  nested calls needs.
\<close>

definition fix_ok :: "('k, 'v) node_ptr \<Rightarrow> ('k, 'v) node_ptr \<Rightarrow> bool" where
  "fix_ok t t' = (inorder t' = inorder t \<and> sizes_exact t' \<and> path_length t' \<le> path_length t \<and>
     (children_balanced t \<longrightarrow> size_balanced t'))"

lemma aug_children [simp]:
  "sizes_exact t \<Longrightarrow> aug (left t) = nodes_of (left t)"
  "sizes_exact t \<Longrightarrow> aug (right t) = nodes_of (right t)"
  by (cases t; simp)+

lemma sbt_fixBalance_no_rotation:
  assumes "sizes_exact (Node l k v s r)"
    and "\<not> nodes_of (left l) > nodes_of r" "\<not> nodes_of (right l) > nodes_of r"
    and "\<not> nodes_of (right r) > nodes_of l" "\<not> nodes_of (left r) > nodes_of l"
  shows "\<exists>t'. sbt_fixBalance (Node l k v s r) = Some t' \<and> fix_ok (Node l k v s r) t'"
proof -
  have "sbt_fixBalance (Node l k v s r) = Some (Node l k v s r)"
    using assms by (subst sbt_fixBalance.simps) simp
  then show ?thesis
    using assms by (auto simp: fix_ok_def children_balanced_def)
qed

lemma sbt_fixBalance_left_left:
  fixes t :: "('k, 'v) node_ptr"
  assumes t: "t = Node (Node ll lk lv ls lr) k v s r" and se: "sizes_exact t"
    and rot: "nodes_of ll > nodes_of r"
    and IH: "\<And>u :: ('k, 'v) node_ptr. path_length u < path_length t \<Longrightarrow> sizes_exact u \<Longrightarrow>
      \<exists>u'. sbt_fixBalance u = Some u' \<and> fix_ok u u'"
  shows "\<exists>t'. sbt_fixBalance t = Some t' \<and> fix_ok t t'"
proof -
  define r0 where "r0 = Node lr k v (nodes_of lr + nodes_of r + 1) r"
  have "path_length r0 < path_length t" "sizes_exact r0"
    using t se rot by (auto simp: r0_def)
  then obtain r1 where r1: "sbt_fixBalance r0 = Some r1" "fix_ok r0 r1"
    using IH by blast
  have r1_nodes: "nodes_of r1 = nodes_of r0"
    using r1(2) by (simp add: fix_ok_def)
  define n1 where "n1 = Node ll lk lv (nodes_of ll + nodes_of r0 + 1) r1"
  have n1: "path_length n1 < path_length t" "sizes_exact n1"
    using t se rot r1(2) r1_nodes by (auto simp: n1_def r0_def fix_ok_def)
  then obtain t' where t': "sbt_fixBalance n1 = Some t'" "fix_ok n1 t'"
    using IH by blast
  have "sbt_fixBalance t = Some t'"
    using t se rot r1(1) t'(1)
    by (subst sbt_fixBalance.simps) (simp add: n1_def r0_def)
  moreover have "fix_ok t t'"
    using t r1(2) t'(2) n1(1)
    by (auto simp: fix_ok_def children_balanced_def n1_def r0_def)
  ultimately show ?thesis by blast
qed

lemma sbt_fixBalance_right_right:
  fixes t :: "('k, 'v) node_ptr"
  assumes t: "t = Node l k v s (Node rl rk rv rs rr)" and se: "sizes_exact t"
    and no_left: "nodes_of (left l) \<le> nodes_of (right t)" "nodes_of (right l) \<le> nodes_of (right t)"
    and rot: "nodes_of rr > nodes_of l"
    and IH: "\<And>u :: ('k, 'v) node_ptr. path_length u < path_length t \<Longrightarrow> sizes_exact u \<Longrightarrow>
      \<exists>u'. sbt_fixBalance u = Some u' \<and> fix_ok u u'"
  shows "\<exists>t'. sbt_fixBalance t = Some t' \<and> fix_ok t t'"
proof -
  define l0 where "l0 = Node l k v (nodes_of l + nodes_of rl + 1) rl"
  have "path_length l0 < path_length t" "sizes_exact l0"
    using t se rot by (auto simp: l0_def)
  then obtain l1 where l1: "sbt_fixBalance l0 = Some l1" "fix_ok l0 l1"
    using IH by blast
  have l1_nodes: "nodes_of l1 = nodes_of l0"
    using l1(2) by (simp add: fix_ok_def)
  define n1 where "n1 = Node l1 rk rv (nodes_of l0 + nodes_of rr + 1) rr"
  have n1: "path_length n1 < path_length t" "sizes_exact n1"
    using t se rot l1(2) l1_nodes by (auto simp: n1_def l0_def fix_ok_def)
  then obtain t' where t': "sbt_fixBalance n1 = Some t'" "fix_ok n1 t'"
    using IH by blast
  have "sbt_fixBalance t = Some t'"
    using t se rot no_left l1(1) t'(1)
    by (subst sbt_fixBalance.simps) (simp add: n1_def l0_def)
  moreover have "fix_ok t t'"
    using t l1(2) t'(2) n1(1)
    by (auto simp: fix_ok_def children_balanced_def n1_def l0_def)
  ultimately show ?thesis by blast
qed

text \<open>
  The double rotations. In both, the grandchild \<open>g\<close> becomes the root over two new children,
  which are fixed before the new root is.
\<close>

lemma fix_ok_double:
  fixes t :: "('k, 'v) node_ptr"
  assumes "path_length l0 + path_length r0 + nodes_of l0 + nodes_of r0 < path_length t"
    and "sizes_exact l0" "sizes_exact r0"
    and in_t: "inorder t = inorder l0 @ (gk, gv) # inorder r0"
    and bal: "children_balanced t \<Longrightarrow> children_balanced l0 \<and> children_balanced r0"
    and IH: "\<And>u :: ('k, 'v) node_ptr. path_length u < path_length t \<Longrightarrow> sizes_exact u \<Longrightarrow>
      \<exists>u'. sbt_fixBalance u = Some u' \<and> fix_ok u u'"
  shows "\<exists>l1 r1 t'. sbt_fixBalance l0 = Some l1 \<and> sbt_fixBalance r0 = Some r1 \<and>
    sbt_fixBalance (Node l1 gk gv (nodes_of l0 + nodes_of r0 + 1) r1) = Some t' \<and> fix_ok t t'"
proof -
  obtain l1 where l1: "sbt_fixBalance l0 = Some l1" "fix_ok l0 l1"
    using IH [of l0] assms(1,2) by auto
  obtain r1 where r1: "sbt_fixBalance r0 = Some r1" "fix_ok r0 r1"
    using IH [of r0] assms(1,3) by auto
  define n1 where "n1 = Node l1 gk gv (nodes_of l0 + nodes_of r0 + 1) r1"
  have n1: "path_length n1 < path_length t" "sizes_exact n1"
    using assms(1-3) l1(2) r1(2) by (auto simp: n1_def fix_ok_def)
  then obtain t' where t': "sbt_fixBalance n1 = Some t'" "fix_ok n1 t'"
    using IH by blast
  moreover have "fix_ok t t'"
    using t'(2) l1(2) r1(2) n1(1) in_t bal
    by (auto simp: fix_ok_def children_balanced_def n1_def)
  ultimately show ?thesis
    using l1(1) r1(1) unfolding n1_def by blast
qed

lemma sbt_fixBalance_left_right:
  fixes t :: "('k, 'v) node_ptr"
  assumes t: "t = Node (Node ll lk lv ls (Node gl gk gv gs gr)) k v s r" and se: "sizes_exact t"
    and rot: "nodes_of ll \<le> nodes_of r" "nodes_of gl + nodes_of gr + 1 > nodes_of r"
    and IH: "\<And>u :: ('k, 'v) node_ptr. path_length u < path_length t \<Longrightarrow> sizes_exact u \<Longrightarrow>
      \<exists>u'. sbt_fixBalance u = Some u' \<and> fix_ok u u'"
  shows "\<exists>t'. sbt_fixBalance t = Some t' \<and> fix_ok t t'"
proof -
  define l0 where "l0 = Node ll lk lv (nodes_of ll + nodes_of gl + 1) gl"
  define r0 where "r0 = Node gr k v (nodes_of gr + nodes_of r + 1) r"
  have "\<exists>l1 r1 t'. sbt_fixBalance l0 = Some l1 \<and> sbt_fixBalance r0 = Some r1 \<and>
    sbt_fixBalance (Node l1 gk gv (nodes_of l0 + nodes_of r0 + 1) r1) = Some t' \<and> fix_ok t t'"
    using t se rot
    by (intro fix_ok_double IH) (auto simp: l0_def r0_def children_balanced_def)
  then obtain l1 r1 t' where *: "sbt_fixBalance l0 = Some l1" "sbt_fixBalance r0 = Some r1"
    "sbt_fixBalance (Node l1 gk gv (nodes_of l0 + nodes_of r0 + 1) r1) = Some t'" "fix_ok t t'"
    by blast
  then have "sbt_fixBalance t = Some t'"
    using t se rot by (subst sbt_fixBalance.simps) (simp add: l0_def r0_def)
  with *(4) show ?thesis by blast
qed

lemma sbt_fixBalance_right_left:
  fixes t :: "('k, 'v) node_ptr"
  assumes t: "t = Node l k v s (Node (Node gl gk gv gs gr) rk rv rs rr)" and se: "sizes_exact t"
    and no_left: "nodes_of (left l) \<le> nodes_of (right t)" "nodes_of (right l) \<le> nodes_of (right t)"
    and rot: "nodes_of rr \<le> nodes_of l" "nodes_of gl + nodes_of gr + 1 > nodes_of l"
    and IH: "\<And>u :: ('k, 'v) node_ptr. path_length u < path_length t \<Longrightarrow> sizes_exact u \<Longrightarrow>
      \<exists>u'. sbt_fixBalance u = Some u' \<and> fix_ok u u'"
  shows "\<exists>t'. sbt_fixBalance t = Some t' \<and> fix_ok t t'"
proof -
  define l0 where "l0 = Node l k v (nodes_of l + nodes_of gl + 1) gl"
  define r0 where "r0 = Node gr rk rv (nodes_of gr + nodes_of rr + 1) rr"
  have "\<exists>l1 r1 t'. sbt_fixBalance l0 = Some l1 \<and> sbt_fixBalance r0 = Some r1 \<and>
    sbt_fixBalance (Node l1 gk gv (nodes_of l0 + nodes_of r0 + 1) r1) = Some t' \<and> fix_ok t t'"
    using t se rot
    by (intro fix_ok_double IH) (auto simp: l0_def r0_def children_balanced_def)
  then obtain l1 r1 t' where *: "sbt_fixBalance l0 = Some l1" "sbt_fixBalance r0 = Some r1"
    "sbt_fixBalance (Node l1 gk gv (nodes_of l0 + nodes_of r0 + 1) r1) = Some t'" "fix_ok t t'"
    by blast
  then have "sbt_fixBalance t = Some t'"
    using t se rot no_left by (subst sbt_fixBalance.simps) (simp add: l0_def r0_def)
  with *(4) show ?thesis by blast
qed

lemma sbt_fixBalance_total:
  fixes t :: "('k, 'v) node_ptr"
  assumes "sizes_exact t"
  shows "\<exists>t'. sbt_fixBalance t = Some t' \<and> fix_ok t t'"
  using assms
proof (induction "path_length t" arbitrary: t rule: less_induct)
  case less
  have IH: "\<And>u :: ('k, 'v) node_ptr. path_length u < path_length t \<Longrightarrow> sizes_exact u \<Longrightarrow>
      \<exists>u'. sbt_fixBalance u = Some u' \<and> fix_ok u u'"
    using less.hyps by blast
  show ?case
  proof (cases t)
    case nullptr
    then show ?thesis
      by (simp add: sbt_fixBalance.simps fix_ok_def)
  next
    case (Node l k v s r)
    consider "nodes_of (left l) > nodes_of r"
      | "nodes_of (left l) \<le> nodes_of r" "nodes_of (right l) > nodes_of r"
      | "nodes_of (left l) \<le> nodes_of r" "nodes_of (right l) \<le> nodes_of r"
        "nodes_of (right r) > nodes_of l"
      | "nodes_of (left l) \<le> nodes_of r" "nodes_of (right l) \<le> nodes_of r"
        "nodes_of (right r) \<le> nodes_of l" "nodes_of (left r) > nodes_of l"
      | "nodes_of (left l) \<le> nodes_of r" "nodes_of (right l) \<le> nodes_of r"
        "nodes_of (right r) \<le> nodes_of l" "nodes_of (left r) \<le> nodes_of l"
      by linarith
    then show ?thesis
    proof cases
      case 1
      then show ?thesis
        using sbt_fixBalance_left_left [OF _ less.prems _ IH] Node by (cases l) auto
    next
      case 2
      then show ?thesis
        using sbt_fixBalance_left_right [OF _ less.prems _ _ IH] Node
        by (cases l; cases "right l") auto
    next
      case 3
      then show ?thesis
        using sbt_fixBalance_right_right [OF _ less.prems _ _ _ IH] Node by (cases r) auto
    next
      case 4
      then show ?thesis
        using sbt_fixBalance_right_left [OF _ less.prems _ _ _ _ IH] Node
        by (cases r; cases "left r") auto
    next
      case 5
      then show ?thesis
        using sbt_fixBalance_no_rotation less.prems Node by (metis not_less)
    qed
  qed
qed

section \<open>Safety and contents\<close>

definition sbt_wf :: "'k compare \<Rightarrow> ('k, 'v) sbt_map \<Rightarrow> bool" where
  "sbt_wf cmp m = (bst cmp (sbt_root m) \<and> sizes_exact (sbt_root m))"

lemma sbt_size_nodes: "sizes_exact (sbt_root m) \<Longrightarrow> sbt_size m = length (inorder (sbt_root m))"
  by (simp add: sbt_size_def)

lemma sbt_fixBalance_updateSize:
  assumes "sizes_exact l" and "sizes_exact r"
  obtains t' where "sbt_fixBalance (sbt_updateSize (Node l k v s r)) = Some t'"
    and "inorder t' = inorder l @ (k, v) # inorder r" and "sizes_exact t'" and "t' \<noteq> nullptr"
    and "size_balanced l \<Longrightarrow> size_balanced r \<Longrightarrow> size_balanced t'"
proof -
  have "sizes_exact (sbt_updateSize (Node l k v s r))"
    using assms by simp
  from sbt_fixBalance_total [OF this] obtain t' where
    t': "sbt_fixBalance (sbt_updateSize (Node l k v s r)) = Some t'"
      "fix_ok (sbt_updateSize (Node l k v s r)) t'"
    by blast
  have "inorder t' = inorder l @ (k, v) # inorder r" "sizes_exact t'"
    "size_balanced l \<Longrightarrow> size_balanced r \<Longrightarrow> size_balanced t'"
    using t'(2) by (simp_all add: fix_ok_def children_balanced_def)
  with t'(1) show thesis
    using that by (metis append_is_Nil_conv inorder.simps(1) list.distinct(1))
qed

lemma sizes_exact_from_node [simp]: "sizes_exact (from_node k v)" "size_balanced (from_node k v)"
  by (simp_all add: from_node_def)

lemma sbt_unlink_successor_safe:
  assumes "t \<noteq> nullptr" and "left t \<noteq> nullptr" and "sizes_exact t"
  shows "\<exists>sk sv t'. sbt_unlink_successor t = Some (sk, sv, t') \<and> inorder t = (sk, sv) # inorder t' \<and>
    sizes_exact t'"
  using assms
proof (induction t rule: sbt_unlink_successor.induct)
  case (3 ll lk lv ls lr k v s r)
  show ?case
  proof (cases "ll = nullptr")
    case True
    with 3 show ?thesis by auto
  next
    case False
    with 3 obtain sk sv l' where "sbt_unlink_successor (Node ll lk lv ls lr) = Some (sk, sv, l')"
        "inorder (Node ll lk lv ls lr) = (sk, sv) # inorder l'" "sizes_exact l'"
      by auto
    with False 3(4) show ?thesis by auto
  qed
qed auto

lemma sbt_remove_found_safe:
  assumes "sizes_exact (Node l k v s r)"
  shows "\<exists>t'. sbt_remove_found (Node l k v s r) = Some t' \<and> inorder t' = inorder l @ inorder r \<and>
    sizes_exact t'"
proof -
  have se: "sizes_exact l" "sizes_exact r"
    using assms by auto
  consider "l = nullptr \<or> r = nullptr" | "l \<noteq> nullptr" "r \<noteq> nullptr" "left r = nullptr"
    | "l \<noteq> nullptr" "r \<noteq> nullptr" "left r \<noteq> nullptr"
    by blast
  then show ?thesis
  proof cases
    case 1
    with se show ?thesis
      by (auto simp: sbt_remove_found_def isLeaf_def)
  next
    case 2
    have "sizes_exact (right r)" "inorder r = (key r, val r) # inorder (right r)"
      using 2 se by (cases r; simp)+
    with se obtain t' where
      "sbt_fixBalance (sbt_updateSize (Node l (key r) (val r) s (right r))) = Some t'"
      "inorder t' = inorder l @ inorder r" "sizes_exact t'"
      by (metis sbt_fixBalance_updateSize)
    with 2 show ?thesis
      by (simp add: sbt_remove_found_def isLeaf_def)
  next
    case 3
    with sbt_unlink_successor_safe [of r] se show ?thesis
      by (auto simp: sbt_remove_found_def isLeaf_def)
  qed
qed

text \<open>The balance after a removal in cases 1 to 4, where no path below the removed node is left unfixed.\<close>

lemma sbt_remove_found_balanced:
  assumes "sizes_exact (Node l k v s r)" and "size_balanced (Node l k v s r)"
    and "l = nullptr \<or> left r = nullptr" and "sbt_remove_found (Node l k v s r) = Some t'"
  shows "size_balanced t'"
proof (cases "l = nullptr \<or> r = nullptr")
  case True
  with assms show ?thesis
    by (auto simp: sbt_remove_found_def isLeaf_def split: if_splits)
next
  case False
  have "sizes_exact l" "sizes_exact (right r)" "size_balanced l" "size_balanced (right r)"
    using assms(1,2) by (cases r; simp)+
  then obtain u where "sbt_fixBalance (sbt_updateSize (Node l (key r) (val r) s (right r))) = Some u"
    "size_balanced u"
    by (metis sbt_fixBalance_updateSize)
  with False assms(3,4) show ?thesis
    by (auto simp: sbt_remove_found_def isLeaf_def)
qed

context compare_order
begin

lemma sbt_insert_node_safe:
  assumes "bst compare t" and "sizes_exact t" and "t \<noteq> nullptr"
  shows "\<exists>t'. sbt_insert_node compare t k v replace = Some t' \<and>
    inorder t' = put_entries compare replace k v (inorder t) \<and> sizes_exact t' \<and> t' \<noteq> nullptr \<and>
    (size_balanced t \<longrightarrow> size_balanced t')"
  using assms
proof (induction t)
  case (Node l x w s r)
  have se: "sizes_exact l" "sizes_exact r" and b: "bst compare l" "bst compare r"
    using Node.prems by auto
  show ?case
  proof (cases k x rule: compare_cases)
    case less
    note e = entries_left [OF Node.prems(1) less]
    show ?thesis
    proof (cases "l = nullptr")
      case True
      with less e se show ?thesis
        by (auto simp: put_entries_Nil from_node_def dest: compare_neq)
    next
      case False
      with Node.IH(1) b(1) se(1) obtain l' where
        l': "sbt_insert_node compare l k v replace = Some l'"
          "inorder l' = put_entries compare replace k v (inorder l)" "sizes_exact l'"
          "size_balanced l \<longrightarrow> size_balanced l'"
        by blast
      obtain t' where "sbt_fixBalance (sbt_updateSize (Node l' x w s r)) = Some t'"
        "inorder t' = inorder l' @ (x, w) # inorder r" "sizes_exact t'" "t' \<noteq> nullptr"
        "size_balanced l' \<Longrightarrow> size_balanced r \<Longrightarrow> size_balanced t'"
        using sbt_fixBalance_updateSize [OF l'(3) se(2)] by metis
      with less False l' e show ?thesis
        by (auto simp del: sbt_updateSize.simps dest: compare_neq)
    qed
  next
    case equal
    with entries_here [of l x w s r] Node.prems show ?thesis
      by auto
  next
    case greater
    note e = entries_right [OF Node.prems(1) greater]
    show ?thesis
    proof (cases "r = nullptr")
      case True
      with greater e se show ?thesis
        by (auto simp: put_entries_Nil from_node_def compare_asym dest: compare_neq)
    next
      case False
      with Node.IH(2) b(2) se(2) obtain r' where
        r': "sbt_insert_node compare r k v replace = Some r'"
          "inorder r' = put_entries compare replace k v (inorder r)" "sizes_exact r'"
          "size_balanced r \<longrightarrow> size_balanced r'"
        by blast
      obtain t' where "sbt_fixBalance (sbt_updateSize (Node l x w s r')) = Some t'"
        "inorder t' = inorder l @ (x, w) # inorder r'" "sizes_exact t'" "t' \<noteq> nullptr"
        "size_balanced l \<Longrightarrow> size_balanced r' \<Longrightarrow> size_balanced t'"
        using sbt_fixBalance_updateSize [OF se(1) r'(3)] by metis
      with greater False r' e show ?thesis
        by (auto simp: compare_asym simp del: sbt_updateSize.simps dest: compare_neq)
    qed
  qed
qed simp

lemma sbt_remove_node_safe:
  assumes "bst compare t" and "sizes_exact t" and "t \<noteq> nullptr"
  shows "\<exists>t'. sbt_remove_node compare t k = Some (t', map_of (inorder t) k) \<and>
    inorder t' = del_entries k (inorder t) \<and> sizes_exact t'"
  using assms
proof (induction t)
  case (Node l x w s r)
  have se: "sizes_exact l" "sizes_exact r" and b: "bst compare l" "bst compare r"
    using Node.prems by auto
  show ?case
  proof (cases k x rule: compare_cases)
    case less
    note e = entries_left [OF Node.prems(1) less]
    show ?thesis
    proof (cases "l = nullptr")
      case True
      with less e Node.prems show ?thesis
        by (auto simp del: map_of_append dest: compare_neq)
    next
      case False
      with Node.IH(1) b(1) se(1) obtain l' where
        l': "sbt_remove_node compare l k = Some (l', map_of (inorder l) k)"
          "inorder l' = del_entries k (inorder l)" "sizes_exact l'"
        by blast
      obtain t' where "sbt_fixBalance (sbt_updateSize (Node l' x w s r)) = Some t'"
        "inorder t' = inorder l' @ (x, w) # inorder r" "sizes_exact t'"
        using sbt_fixBalance_updateSize [OF l'(3) se(2)] by metis
      moreover have "map_of (inorder l) k = None \<longrightarrow> inorder l' = inorder l"
        using l'(2) del_entries_absent [of k "inorder l"] by (simp add: has_key_map_of)
      ultimately show ?thesis
        using less False l' e Node.prems(2)
        by (auto simp del: sbt_updateSize.simps map_of_append dest: compare_neq)
    qed
  next
    case equal
    with entries_here [of l x w s r] sbt_remove_found_safe [OF Node.prems(2)] Node.prems show ?thesis
      by (auto simp del: map_of_append)
  next
    case greater
    note e = entries_right [OF Node.prems(1) greater]
    show ?thesis
    proof (cases "r = nullptr")
      case True
      with greater e Node.prems show ?thesis
        by (auto simp: compare_asym simp del: map_of_append dest: compare_neq)
    next
      case False
      with Node.IH(2) b(2) se(2) obtain r' where
        r': "sbt_remove_node compare r k = Some (r', map_of (inorder r) k)"
          "inorder r' = del_entries k (inorder r)" "sizes_exact r'"
        by blast
      obtain t' where "sbt_fixBalance (sbt_updateSize (Node l x w s r')) = Some t'"
        "inorder t' = inorder l @ (x, w) # inorder r'" "sizes_exact t'"
        using sbt_fixBalance_updateSize [OF se(1) r'(3)] by metis
      moreover have "map_of (inorder r) k = None \<longrightarrow> inorder r' = inorder r"
        using r'(2) del_entries_absent [of k "inorder r"] by (simp add: has_key_map_of)
      ultimately show ?thesis
        using greater False r' e Node.prems(2)
        by (auto simp: compare_asym simp del: sbt_updateSize.simps map_of_append dest: compare_neq)
    qed
  qed
qed simp

lemma sbt_getNodeOrProvide_insert_node:
  assumes "bst compare t"
  shows "sbt_getNodeOrProvide compare t k (from_node k v) =
    map_option (\<lambda>t'. (t', case map_of (inorder t) k of None \<Rightarrow> v | Some w \<Rightarrow> w))
      (sbt_insert_node compare t k v False)"
  using assms
proof (induction t)
  case (Node l x w s r)
  note m = map_of_inorder_Node [OF Node.prems, of k]
  have IH: "sbt_getNodeOrProvide compare l k (from_node k v) =
      map_option (\<lambda>t'. (t', case map_of (inorder l) k of None \<Rightarrow> v | Some w \<Rightarrow> w))
        (sbt_insert_node compare l k v False)"
    "sbt_getNodeOrProvide compare r k (from_node k v) =
      map_option (\<lambda>t'. (t', case map_of (inorder r) k of None \<Rightarrow> v | Some w \<Rightarrow> w))
        (sbt_insert_node compare r k v False)"
    using Node by simp_all
  show ?case
    unfolding m by (simp add: IH map_option_bind_right bind_map_option_left split_def
        bind_Some_map_option del: inorder.simps(2) sbt_updateSize.simps)
qed simp

section \<open>The operations of the class on well-formed maps\<close>

lemma sbt_put:
  assumes "sbt_wf compare m"
  shows "\<exists>m'. (if sbt_root m = nullptr then Some (m\<lparr>sbt_root := from_node k v\<rparr>)
      else do {
        t \<leftarrow> sbt_insert_node compare (sbt_root m) k v replace;
        Some (m\<lparr>sbt_root := t\<rparr>)
      }) = Some m' \<and> sbt_wf compare m' \<and>
    inorder (sbt_root m') = put_entries compare replace k v (inorder (sbt_root m)) \<and>
    (size_balanced (sbt_root m) \<longrightarrow> size_balanced (sbt_root m'))"
proof (cases "sbt_root m = nullptr")
  case True
  with assms show ?thesis
    by (simp add: sbt_wf_def put_entries_Nil bst_def)
next
  case False
  have "sorted_keys compare (put_entries compare replace k v (inorder (sbt_root m)))"
    using assms by (intro sorted_put_entries) (simp add: sbt_wf_def bst_def)
  then show ?thesis
    using sbt_insert_node_safe [of "sbt_root m" k v replace] assms False
    by (auto simp: sbt_wf_def bst_def)
qed

lemma sbt_insert_wf:
  assumes "sbt_wf compare m"
  shows "\<exists>m'. sbt_insert compare m k v = Some m' \<and> sbt_wf compare m' \<and>
    inorder (sbt_root m') = upd_entries compare k v (inorder (sbt_root m)) \<and>
    (size_balanced (sbt_root m) \<longrightarrow> size_balanced (sbt_root m'))"
  using sbt_put [OF assms, of k v True] by (auto simp: sbt_insert_def put_entries_def)

lemma sbt_insertIfAbsent_wf:
  assumes "sbt_wf compare m"
  shows "\<exists>m'. sbt_insertIfAbsent compare m k v =
      Some (m', \<not> has_key k (inorder (sbt_root m))) \<and> sbt_wf compare m' \<and>
    inorder (sbt_root m') = add_entries compare k v (inorder (sbt_root m)) \<and>
    (size_balanced (sbt_root m) \<longrightarrow> size_balanced (sbt_root m'))"
proof -
  obtain m' where m': "(if sbt_root m = nullptr then Some (m\<lparr>sbt_root := from_node k v\<rparr>)
      else do {
        t \<leftarrow> sbt_insert_node compare (sbt_root m) k v False;
        Some (m\<lparr>sbt_root := t\<rparr>)
      }) = Some m'" "sbt_wf compare m'"
    "inorder (sbt_root m') = put_entries compare False k v (inorder (sbt_root m))"
    "size_balanced (sbt_root m) \<longrightarrow> size_balanced (sbt_root m')"
    using sbt_put [OF assms, of k v False] by blast
  have "sorted_keys compare (inorder (sbt_root m))"
    using assms by (simp add: sbt_wf_def bst_def)
  then have "sbt_size m' > sbt_size m \<longleftrightarrow> \<not> has_key k (inorder (sbt_root m))"
    using assms m'(2,3)
    by (simp add: sbt_wf_def sbt_size_nodes put_entries_def add_entries_def length_upd_entries)
  then show ?thesis
    using m' unfolding put_entries_def sbt_insertIfAbsent_def by (simp del: Option.bind_assoc)
qed

lemma sbt_getOrInsert_eq:
  assumes "sbt_wf compare m"
  shows "sbt_getOrInsert compare m k v =
    map_option (\<lambda>(m', _). (m', case map_of (inorder (sbt_root m)) k of None \<Rightarrow> v | Some w \<Rightarrow> w))
      (sbt_insertIfAbsent compare m k v)"
proof -
  have "bst compare (sbt_root m)"
    using assms by (simp add: sbt_wf_def)
  from sbt_getNodeOrProvide_insert_node [OF this] show ?thesis
    by (simp add: sbt_getOrInsert_def sbt_insertIfAbsent_def map_option_bind_right
        bind_map_option_left split_def bind_assoc bind_Some_map_option option.map_comp comp_def)
qed

lemma sbt_getOrDefault_eq: "sbt_getOrDefault compare dflt m k = sbt_getOrInsert compare m k dflt"
  by (simp add: sbt_getOrDefault_def sbt_getOrInsert_def)

lemma sbt_clear_wf: "sbt_wf compare (sbt_clear m)" "sbt_root (sbt_clear m) = nullptr"
  by (simp_all add: sbt_wf_def sbt_clear_def)

lemma sbt_forEachMut_wf:
  assumes "sbt_wf compare m"
  shows "\<exists>m'. sbt_forEachMut compare action m s = (m', snd (thread_values action (inorder (sbt_root m)) s)) \<and>
    sbt_wf compare m' \<and> inorder (sbt_root m') = fst (thread_values action (inorder (sbt_root m)) s)"
proof -
  have b: "bst compare (sbt_root m)"
    using assms by (simp add: sbt_wf_def)
  obtain t' where t': "forEachMut compare action (sbt_root m) s =
        (t', snd (thread_values action (inorder (sbt_root m)) s))" "bst compare t'"
      "inorder t' = fst (thread_values action (inorder (sbt_root m)) s)"
    using forEachMut_thread [OF b, of action s] by blast
  have "sizes_exact t'"
    using forEachMut_keeps [of sizes_exact compare action "sbt_root m" s] t'(1) assms
    by (simp add: sbt_wf_def sizes_exact_set_value)
  then show ?thesis
    using t' by (simp add: sbt_forEachMut_def sbt_wf_def)
qed

lemma sbt_index_assign_wf:
  assumes "sbt_wf compare m"
  shows "\<exists>m'. sbt_index_assign compare dflt m k v = Some m' \<and> sbt_wf compare m' \<and>
    inorder (sbt_root m') = upd_entries compare k v (inorder (sbt_root m)) \<and>
    (size_balanced (sbt_root m) \<longrightarrow> size_balanced (sbt_root m'))"
proof -
  obtain m1 b where m1: "sbt_insertIfAbsent compare m k dflt = Some (m1, b)" "sbt_wf compare m1"
      "inorder (sbt_root m1) = add_entries compare k dflt (inorder (sbt_root m))"
      "size_balanced (sbt_root m) \<longrightarrow> size_balanced (sbt_root m1)"
    using sbt_insertIfAbsent_wf [OF assms] by blast
  have "bst compare (sbt_root m1)" and s: "sorted_keys compare (inorder (sbt_root m))"
    using m1(2) assms by (simp_all add: sbt_wf_def bst_def)
  then have "inorder (set_value compare (sbt_root m1) k v) = upd_entries compare k v (inorder (sbt_root m))"
    "bst compare (set_value compare (sbt_root m1) k v)"
    using assign_after_add [OF s] m1(3) by (simp_all add: inorder_set_value bst_set_value)
  then show ?thesis
    using m1(1,2,4) sbt_getOrInsert_eq [OF assms, of k dflt]
    by (simp add: sbt_index_assign_def sbt_getOrDefault_eq sbt_wf_def sizes_exact_set_value size_balanced_set_value)
qed

lemma sbt_remove_wf:
  assumes "sbt_wf compare m"
  shows "\<exists>m'. sbt_remove compare m k = Some (m', has_key k (inorder (sbt_root m))) \<and> sbt_wf compare m' \<and>
    inorder (sbt_root m') = del_entries k (inorder (sbt_root m))"
proof (cases "sbt_root m = nullptr")
  case True
  with assms show ?thesis
    by (simp add: sbt_remove_def)
next
  case False
  have "sorted_keys compare (del_entries k (inorder (sbt_root m)))"
    using assms by (intro sorted_keys_del_entries) (simp add: sbt_wf_def bst_def)
  then show ?thesis
    using sbt_remove_node_safe [of "sbt_root m" k] assms False
    by (auto simp: sbt_wf_def bst_def sbt_remove_def has_key_map_of)
qed

lemma sbt_getAndRemove_eq:
  assumes "sbt_wf compare m"
  shows "sbt_getAndRemove compare m k =
    map_option (\<lambda>(m', _). case map_of (inorder (sbt_root m)) k of
        None \<Rightarrow> Inl (NoSuchMappingException ''Invalid key'') | Some v \<Rightarrow> Inr (m', v))
      (sbt_remove compare m k)"
proof (cases "sbt_root m = nullptr")
  case True
  then show ?thesis
    by (simp add: sbt_getAndRemove_def sbt_remove_def)
next
  case False
  with sbt_remove_node_safe [of "sbt_root m" k] assms show ?thesis
    by (auto simp: sbt_getAndRemove_def sbt_remove_def sbt_wf_def split: option.split)
qed

lemma sbt_remove_keys_wf:
  assumes "sbt_wf compare m"
  shows "\<exists>m'. sbt_remove_keys compare m ks = Some m' \<and> sbt_wf compare m' \<and>
    inorder (sbt_root m') = filter (\<lambda>e. fst e \<notin> set ks) (inorder (sbt_root m))"
  using assms
proof (induction ks arbitrary: m)
  case (Cons k ks)
  obtain m1 b where m1: "sbt_remove compare m k = Some (m1, b)" "sbt_wf compare m1"
      "inorder (sbt_root m1) = del_entries k (inorder (sbt_root m))"
    using sbt_remove_wf [OF Cons.prems] by blast
  with Cons.IH [OF m1(2)] show ?case
    by (auto simp: del_entries_def filter_filter intro: filter_cong)
qed simp

end

section \<open>Counting\<close>

lemma sbt_countLess_filter:
  assumes "bst std_less t" and "sizes_exact t"
  shows "sbt_countLess t k e =
    length (filter (\<lambda>(x, _). if e then x \<le> k else x < k) (inorder t))"
  using assms
proof (induction t)
  case (Node l x v s r)
  have l: "y < x" if "(y, w) \<in> set (inorder l)" for y w
    using Node.prems(1) that by fastforce
  have r: "x < y" if "(y, w) \<in> set (inorder r)" for y w
    using Node.prems(1) that by fastforce
  have below: "filter (\<lambda>(y, _). if e then y \<le> k else y < k) (inorder l) = inorder l" if "x \<le> k"
    using l that by (fastforce simp: filter_id_conv)
  have above: "filter (\<lambda>(y, _). if e then y \<le> k else y < k) (inorder r) = []" if "k \<le> x"
    using r that by (fastforce simp: filter_empty_conv split: if_splits)
  show ?case
    using Node below above by (cases k x rule: linorder_cases) auto
qed simp

lemma sbt_countGreater_filter:
  assumes "bst std_less t" and "sizes_exact t"
  shows "sbt_countGreater t k e =
    length (filter (\<lambda>(x, _). if e then k \<le> x else k < x) (inorder t))"
  using assms
proof (induction t)
  case (Node l x v s r)
  have l: "y < x" if "(y, w) \<in> set (inorder l)" for y w
    using Node.prems(1) that by fastforce
  have r: "x < y" if "(y, w) \<in> set (inorder r)" for y w
    using Node.prems(1) that by fastforce
  have below: "filter (\<lambda>(y, _). if e then k \<le> y else k < y) (inorder l) = []" if "x \<le> k"
    using l that by (fastforce simp: filter_empty_conv split: if_splits)
  have above: "filter (\<lambda>(y, _). if e then k \<le> y else k < y) (inorder r) = inorder r" if "k \<le> x"
    using r that by (fastforce simp: filter_id_conv)
  show ?case
    using Node below above by (cases k x rule: linorder_cases) auto
qed simp

section \<open>The size balanced map as an ordered map\<close>

definition sbt_class :: "'k compare \<Rightarrow> (('k, 'v) sbt_map, 'k, 'v) map_class" where
  "sbt_class cmp = \<lparr>m_new = sbt_new, m_size = sbt_size, m_empty = sbt_empty,
     m_clear = \<lambda>m. Some (sbt_clear m), m_contains = sbt_contains cmp,
     m_get = sbt_get cmp, m_insert = sbt_insert cmp,
     m_insertIfAbsent = sbt_insertIfAbsent cmp, m_getOrInsert = sbt_getOrInsert cmp,
     m_getOrDefault = sbt_getOrDefault cmp, m_index_assign = sbt_index_assign cmp,
     m_remove = sbt_remove cmp, m_getAndRemove = sbt_getAndRemove cmp,
     m_removeAll = sbt_removeAll cmp,
     m_ceiling = \<lambda>m k. Some (sbt_getCeilingEntry cmp m k),
     m_floor = \<lambda>m k. Some (sbt_getFloorEntry cmp m k),
     m_higher = \<lambda>m k. Some (sbt_getHigherEntry cmp m k),
     m_lower = \<lambda>m k. Some (sbt_getLowerEntry cmp m k),
     m_toEntryList = \<lambda>m. Some (sbt_toEntryList m),
     m_forEach = \<lambda>action m s. Some (sbt_forEach action m s),
     m_forEachMut = \<lambda>action m s. Some (sbt_forEachMut cmp action m s)\<rparr>"

lemma sbt_class_new [simp]: "m_new (sbt_class cmp) = sbt_new"
  by (simp add: sbt_class_def)

lemmas sbt_op_defs =
  sbt_empty_def sbt_contains_def sbt_get_def sbt_forEach_def forEach_fold sbt_getCeilingEntry_def sbt_getFloorEntry_def sbt_getHigherEntry_def
  sbt_getLowerEntry_def sbt_toEntryList_def toEntryList_inorder

lemma sbt_wf_facts:
  assumes "sbt_wf cmp m"
  shows "bst cmp (sbt_root m)" and "sorted_keys cmp (inorder (sbt_root m))"
    and "sizes_exact (sbt_root m)" and "sbt_size m = length (inorder (sbt_root m))"
  using assms by (simp_all add: sbt_wf_def bst_def sbt_size_nodes)

lemma sbt_removeAll_filter:
  assumes "compare_order cmp" and "sbt_wf cmp m"
  shows "\<exists>m'. sbt_removeAll cmp p m = Some m' \<and> sbt_wf cmp m' \<and>
    inorder (sbt_root m') = filter (\<lambda>(k, v). \<not> p k v) (inorder (sbt_root m))"
  using compare_order.sbt_remove_keys_wf [OF assms, of "matching_keys p (sbt_root m)"]
  unfolding sbt_removeAll_def matching_keys_filter
    compare_order.filter_matching_keys [OF assms(1) sbt_wf_facts(2) [OF assms(2)]] .

lemma sbt_wf_new: "sbt_wf cmp sbt_new"
  by (simp add: sbt_wf_def sbt_new_def)

lemma sbt_insert_laws:
  assumes "compare_order cmp" and "sbt_wf cmp m"
  shows "\<exists>m'. sbt_insert cmp m k v = Some m' \<and> sbt_wf cmp m' \<and>
      inorder (sbt_root m') = upd_entries cmp k v (inorder (sbt_root m))"
    and "\<exists>m'. sbt_insertIfAbsent cmp m k v = Some (m', \<not> has_key k (inorder (sbt_root m))) \<and>
      sbt_wf cmp m' \<and> inorder (sbt_root m') = add_entries cmp k v (inorder (sbt_root m))"
    and "\<exists>m'. sbt_index_assign cmp d m k v = Some m' \<and> sbt_wf cmp m' \<and>
      inorder (sbt_root m') = upd_entries cmp k v (inorder (sbt_root m))"
  using compare_order.sbt_insert_wf [OF assms, of k v] compare_order.sbt_index_assign_wf [OF assms, of d k v]
    compare_order.sbt_insertIfAbsent_wf [OF assms, of k v] by blast+

lemma sbt_ordered_map:
  assumes "compare_order cmp"
  shows "ordered_map cmp (sbt_class cmp) (sbt_wf cmp) sbt_toEntryList plain_message"
proof -
  note laws = sbt_insert_laws [OF assms] compare_order.sbt_remove_wf [OF assms] sbt_removeAll_filter [OF assms]
    compare_order.neighbour_entries [OF assms sbt_wf_facts(1)]
    compare_order.get_value_map_of [OF assms sbt_wf_facts(1)]
    compare_order.sbt_getOrInsert_eq [OF assms] compare_order.sbt_getAndRemove_eq [OF assms]
    compare_order.contains_key_has_key [OF assms sbt_wf_facts(1)] compare_order.sbt_clear_wf [OF assms]
    compare_order.sbt_getOrDefault_eq [OF assms] compare_order.sbt_forEachMut_wf [OF assms]
  have "growing_map_axioms cmp (sbt_class cmp) (sbt_wf cmp) sbt_toEntryList plain_message"
    by unfold_locales
      (simp_all add: sbt_class_def sbt_op_defs laws sbt_wf_facts plain_message_def
        sbt_wf_new [unfolded sbt_new_def] sbt_new_def)
  moreover have "ordered_map_axioms (sbt_class cmp) (sbt_wf cmp) sbt_toEntryList"
    by unfold_locales (simp_all add: sbt_class_def sbt_op_defs laws sbt_wf_facts)
  ultimately show ?thesis
    using assms by (simp add: ordered_map_def growing_map_def)
qed

lemma sbt_growing_map:
  "compare_order cmp \<Longrightarrow> growing_map cmp (sbt_class cmp) (sbt_wf cmp) sbt_toEntryList plain_message"
  by (rule ordered_map.axioms(1) [OF sbt_ordered_map])

interpretation sbt: ordered_map std_less "sbt_class std_less" "sbt_wf std_less" sbt_toEntryList plain_message
  by (rule sbt_ordered_map) unfold_locales

lemma sbt_insert_balanced:
  assumes "compare_order cmp" and "sbt_wf cmp m" and "size_balanced (sbt_root m)"
  shows "sbt_insert cmp m k v = Some m' \<Longrightarrow> size_balanced (sbt_root m')"
    and "sbt_insertIfAbsent cmp m k v = Some (m', b) \<Longrightarrow> size_balanced (sbt_root m')"
    and "sbt_index_assign cmp d m k v = Some m' \<Longrightarrow> size_balanced (sbt_root m')"
  using compare_order.sbt_index_assign_wf [OF assms(1,2), of d k v] compare_order.sbt_insert_wf [OF assms(1,2), of k v]
    compare_order.sbt_insertIfAbsent_wf [OF assms(1,2), of k v] assms(3) by auto

lemma sbt_forEachMut_balanced:
  "size_balanced (sbt_root m) \<Longrightarrow> size_balanced (sbt_root (fst (sbt_forEachMut cmp action m s)))"
  using forEachMut_keeps [of size_balanced cmp action "sbt_root m" s]
  by (simp add: sbt_forEachMut_def size_balanced_set_value split_def Let_def)

lemma sbt_call_balanced:
  assumes "compare_order cmp" and "sbt_wf cmp m" and "size_balanced (sbt_root m)" and "\<not> removing op"
    and "call (sbt_class cmp) m op = Some (m', res)"
  shows "size_balanced (sbt_root m')"
proof (cases op)
  case (ForEachMut f)
  then show ?thesis
    using sbt_forEachMut_balanced [OF assms(3), of cmp f "[]"] assms(5)
    by (auto simp: sbt_class_def split: prod.splits)
qed (use assms(3-5) compare_order.sbt_getOrInsert_eq [OF assms(1,2)] in
  \<open>auto simp: sbt_class_def sbt_clear_def compare_order.sbt_getOrDefault_eq [OF assms(1)]
     intro: sbt_insert_balanced [OF assms(1-3)]\<close>)

text \<open>A size balanced tree has logarithmic depth: a grandchild has at most half of the nodes.\<close>

fun tree_height :: "('k, 'v) node_ptr \<Rightarrow> nat" where
  "tree_height nullptr = 0"
| "tree_height (Node l k v s r) = max (tree_height l) (tree_height r) + 1"

lemma size_balanced_grandchild:
  assumes "size_balanced (Node l k v s r)" and "c \<in> {left l, right l, left r, right r}"
  shows "2 * nodes_of c \<le> nodes_of (Node l k v s r) - 1"
proof -
  have "nodes_of (left u) \<le> nodes_of u" "nodes_of (right u) \<le> nodes_of u" for u :: "('a, 'b) node_ptr"
    by (cases u; simp)+
  from this [of l] this [of r] show ?thesis
    using assms by auto
qed

lemma size_balanced_height:
  "size_balanced t \<Longrightarrow> (2::nat) ^ (tree_height t div 2) \<le> length (inorder t) + 1"
proof (induction "nodes_of t" arbitrary: t rule: less_induct)
  case less
  show ?case
  proof (cases "tree_height t \<le> 1")
    case True
    then have "tree_height t div 2 = 0" by simp
    then show ?thesis by simp
  next
    case False
    then obtain l k v s r where t: "t = Node l k v s r"
      by (cases t) auto
    obtain d where d: "d \<in> {l, r}" "tree_height t = tree_height d + 1"
      using t by (cases "tree_height l \<le> tree_height r") auto
    obtain c where "c \<in> {left d, right d}" "tree_height d = tree_height c + 1"
      using False d by (cases d; cases "tree_height (left d) \<le> tree_height (right d)") auto
    with d have c: "c \<in> {left l, right l, left r, right r}" "tree_height t = tree_height c + 2"
      by auto
    have bal: "size_balanced c"
      using c(1) less.prems t by (cases l; cases r) auto
    have "2 * nodes_of c \<le> nodes_of t - 1"
      using size_balanced_grandchild [OF less.prems [unfolded t] c(1)] t by simp
    moreover from this have "nodes_of c < nodes_of t"
      using t by simp
    ultimately have "2 * (2::nat) ^ (tree_height c div 2) \<le> nodes_of t + 1"
      using less.hyps [OF _ bal] t by fastforce
    then show ?thesis
      by (simp add: c(2))
  qed
qed

section \<open>Correctness of the class\<close>

text \<open>
  C4. \<open>SizeBalancedTreeMap\<close> implements the ordered map: for every comparison that is a strict
  total order and every sequence of the public calls it shares with the other maps (size, empty, clear,
  contains, get, insert, insertIfAbsent, getOrInsert, getOrDefault, assignment through \<open>operator[]\<close>, remove,
  getAndRemove, removeAll, the four neighbour searches, toEntryList, forEach, forEachMut) on a fresh map, the
  results and exceptions are those of the reference implementation on sorted entry lists. The sequence fails
  in one case only, the assertion of \<open>getNode\<close>: it calls \<open>contains\<close> while the map is empty.
\<close>

theorem sbt_refines_reference:
  assumes "compare_order cmp"
  shows "(case ref_calls plain_message cmp [] ops of
      None \<Rightarrow> calls (sbt_class cmp) sbt_new ops = None
    | Some (es, ress) \<Rightarrow> \<exists>m. calls (sbt_class cmp) sbt_new ops = Some (m, ress) \<and> sbt_toEntryList m = es) \<and>
    (calls (sbt_class cmp) sbt_new ops = None \<longleftrightarrow>
      (\<exists>before k after m ress. ops = before @ Contains k # after \<and>
        calls (sbt_class cmp) sbt_new before = Some (m, ress) \<and> sbt_toEntryList m = []))"
  using agrees_outcome [OF ordered_map.fresh_map_refines [OF sbt_ordered_map [OF assms], of ops]]
    ordered_map.fresh_map_fails [OF sbt_ordered_map [OF assms], of ops]
  unfolding sbt_class_new by (rule conjI)

theorem sbt_refines_reference_witness:
  "\<exists>m. calls (sbt_class std_less) sbt_new
      [Insert (1::int) ''a'', InsertIfAbsent 1 ''b'', GetAndRemove 1, Size, GetHigher 0] =
    Some (m, [Done, Flag False, Val ''a'', Count 0,
      Threw (NoSuchMappingException ''No higher entry exists in this map'')])"
  using sbt_refines_reference [OF less.compare_order_axioms,
      of "[Insert (1::int) ''a'', InsertIfAbsent 1 ''b'', GetAndRemove 1, Size, GetHigher 0]"]
  by (auto simp: plain_message_def upd_entries_def add_entries_def first_such_def lookup_result_def)

text \<open>
  C5. \<open>fixBalance\<close> always returns: on a tree with exact sizes the nested recursive calls end,
  the entries are unchanged and the sizes stay exact; and if both subtrees were size balanced,
  however different their sizes, the whole tree is size balanced afterwards.
\<close>

theorem sbt_fixBalance_terminates:
  assumes "sizes_exact t"
  shows "\<exists>t'. sbt_fixBalance t = Some t' \<and> inorder t' = inorder t \<and> sizes_exact t' \<and>
    (size_balanced (left t) \<and> size_balanced (right t) \<longrightarrow> size_balanced t')"
  using sbt_fixBalance_total [OF assms] by (auto simp: fix_ok_def children_balanced_def)

theorem sbt_fixBalance_terminates_witness:
  "\<exists>t'. sbt_fixBalance (Node nullptr 1 () 3 (Node nullptr 2 () 2 (from_node (3::nat) ()))) = Some t' \<and>
    inorder t' = [(1, ()), (2, ()), (3, ())] \<and> size_balanced t'"
  using sbt_fixBalance_terminates [of "Node nullptr 1 () 3 (Node nullptr 2 () 2 (from_node (3::nat) ()))"]
  by (auto simp: from_node_def)

text \<open>
  C6. While no single entry is removed, the tree stays size balanced and its height \<open>h\<close> and number of
  entries \<open>n\<close> satisfy \<open>2 ^ (h div 2) \<le> n + 1\<close>, after any sequence of calls without a removing one that gets to
  its end; it does, with the results of the reference, unless it calls \<open>contains\<close> on the empty map.
\<close>

theorem sbt_insertions_balanced:
  assumes "compare_order cmp" and "list_all (\<lambda>op. \<not> removing op) ops"
  shows "case ref_calls plain_message cmp [] ops of
      None \<Rightarrow> calls (sbt_class cmp) sbt_new ops = None
    | Some (es, ress) \<Rightarrow> \<exists>m. calls (sbt_class cmp) sbt_new ops = Some (m, ress) \<and> sbt_toEntryList m = es \<and>
        size_balanced (sbt_root m) \<and> 2 ^ (tree_height (sbt_root m) div 2) \<le> sbt_size m + 1"
proof -
  have "agrees (\<lambda>m. sbt_wf cmp m \<and> size_balanced (sbt_root m)) sbt_toEntryList
      (calls (sbt_class cmp) (m_new (sbt_class cmp)) ops) (ref_calls plain_message cmp [] ops)"
    by (rule growing_map.calls_without_removal_keep [OF sbt_growing_map [OF assms(1)] _ assms(2)])
      (auto simp: sbt_new_def intro: sbt_call_balanced [OF assms(1)])
  then show ?thesis
    using size_balanced_height sbt_wf_facts(4)
    by (fastforce simp: agrees_def split: option.splits)
qed

theorem sbt_insertions_balanced_witness:
  "\<exists>m ress. calls (sbt_class std_less) sbt_new (map (\<lambda>k. Insert (k::nat) k) [0..<10]) = Some (m, ress) \<and>
    size_balanced (sbt_root m) \<and> 2 ^ (tree_height (sbt_root m) div 2) \<le> sbt_size m + 1"
  using sbt_insertions_balanced [OF less.compare_order_axioms, of "map (\<lambda>k. Insert (k::nat) k) [0..<10]"]
  by (auto simp: list_all_iff upt_conv_Cons upd_entries_def lt_part_def gt_part_def)

text \<open>
  C28. With the natural order of the keys, in every well-formed map, the four counting operations return the number of
  entries below, up to, above and from the key on.
\<close>

theorem sbt_counts:
  assumes "sbt_wf std_less m"
  shows "sbt_countLessThan m k = length (filter (\<lambda>(x, _). x < k) (sbt_toEntryList m)) \<and>
    sbt_countLessOrEqualTo m k = length (filter (\<lambda>(x, _). x \<le> k) (sbt_toEntryList m)) \<and>
    sbt_countGreaterThan m k = length (filter (\<lambda>(x, _). k < x) (sbt_toEntryList m)) \<and>
    sbt_countGreaterOrEqualTo m k = length (filter (\<lambda>(x, _). k \<le> x) (sbt_toEntryList m))"
  using sbt_wf_facts(1,3) [OF assms]
  by (simp add: sbt_op_defs sbt_countLessThan_def sbt_countLessOrEqualTo_def sbt_countGreaterThan_def
      sbt_countGreaterOrEqualTo_def sbt_countLess_filter sbt_countGreater_filter)

theorem sbt_counts_witness:
  "sbt_countLessThan \<lparr>sbt_root = Node (from_node 1 ()) 3 () 3 (from_node (7::nat) ())\<rparr> 5 = 2"
proof -
  let ?m = "\<lparr>sbt_root = Node (from_node 1 ()) 3 () 3 (from_node (7::nat) ())\<rparr>"
  have "sbt_wf std_less ?m"
    by (simp add: sbt_wf_def)
  from sbt_counts [OF this, of 5] show ?thesis
    by (simp add: sbt_op_defs)
qed

text \<open>
  The counting operations ignore the \<open>Compare\<close> argument. In a map ordered by \<open>std::greater\<close>
  with the entries 3, 2, 1, \<open>countLessThan(3)\<close> is 3: neither the number of smaller keys, which is
  2, nor the number of entries that precede 3 in the order of the map, which is 0.
\<close>

theorem sbt_counts_ignore_compare:
  "\<exists>m ress. calls (sbt_class std_greater) sbt_new (map (\<lambda>k. Insert k ()) [2, 1, 3::nat]) = Some (m, ress) \<and>
    sbt_toEntryList m = [(3, ()), (2, ()), (1, ())] \<and> sbt_countLessThan m 3 = 3"
  by (simp add: sbt_class_def sbt_new_def sbt_insert_def from_node_def sbt_op_defs
      sbt_countLessThan_def)

text \<open>
  Removal does not keep the size balance. After inserting 1, 2, 3, 7, 5, 6, 4 and removing 5,
  the root has a left subtree whose right child has 2 nodes, more than the 1 node of the right
  subtree: case 5 of \<open>remove\<close> updates the sizes on the path but never calls \<open>fixBalance\<close>.
\<close>

lemma sbt_remove_unbalances:
  "\<exists>m ress. calls (sbt_class std_less) sbt_new
      (map (\<lambda>k. Insert k ()) [1, 2, 3, 7, 5, 6, 4] @ [Remove (5::nat)]) = Some (m, ress) \<and>
    \<not> size_balanced (sbt_root m)"
  by (simp add: sbt_class_def sbt_new_def sbt_insert_def sbt_remove_def from_node_def
      sbt_fixBalance.simps sbt_remove_found_def isLeaf_def)

end
