(* ===== verification/RBTreeMap.thy ===== *)
theory RBTreeMap
  imports MapInterface
begin

text \<open>
  \<^verbatim>\<open>RBTreeMap.hpp\<close>: the map kept in a red-black tree whose nodes point to their parents. Parent
  pointers make the structure cyclic and the code relies on them (directions, siblings, the
  neighbour searches, the repair after an insertion or a removal), so the model is an explicit
  heap: a partial map from addresses to nodes. A \<open>NodePtr\<close> is an address or null. \<open>None\<close> as the
  result of an operation is a failed assertion, the dereference of a null pointer or a loop that
  never ends; loops and recursions through the heap are partial functions.

  Nodes are never taken off the heap: a \<open>shared_ptr\<close> keeps a node alive as long as it is pointed
  to, and an unreachable node is never read again.
\<close>

section \<open>Nodes, pointers and the heap\<close>

type_synonym addr = nat
type_synonym ptr = "addr option"

datatype color = RED | BLACK
datatype direction = LEFT | ROOT | RIGHT

record ('k, 'v) rb_node =
  n_color :: color
  n_key :: 'k
  n_value :: 'v
  n_parent :: ptr
  n_left :: ptr
  n_right :: ptr

type_synonym ('k, 'v) heap = "addr \<Rightarrow> ('k, 'v) rb_node option"

record ('k, 'v) rb_map =
  rb_heap :: "('k, 'v) heap"
  rb_root :: ptr
  rb_count :: nat
  rb_fresh :: addr

definition deref :: "('k, 'v) heap \<Rightarrow> ptr \<Rightarrow> ('k, 'v) rb_node option" where
  "deref h p = (case p of None \<Rightarrow> None | Some a \<Rightarrow> h a)"

text \<open>\<open>p->field = x\<close>, with the update of the field as the argument.\<close>

definition assign ::
  "ptr \<Rightarrow> (('k, 'v) rb_node \<Rightarrow> ('k, 'v) rb_node) \<Rightarrow> ('k, 'v) heap \<Rightarrow> ('k, 'v) heap option" where
  "assign p f h =
     (case p of None \<Rightarrow> None
      | Some a \<Rightarrow> (case h a of None \<Rightarrow> None | Some n \<Rightarrow> Some (h(a \<mapsto> f n))))"

definition set_color :: "color \<Rightarrow> ('k, 'v) rb_node \<Rightarrow> ('k, 'v) rb_node" where
  "set_color c n = n\<lparr>n_color := c\<rparr>"

definition set_parent :: "ptr \<Rightarrow> ('k, 'v) rb_node \<Rightarrow> ('k, 'v) rb_node" where
  "set_parent p n = n\<lparr>n_parent := p\<rparr>"

definition set_left :: "ptr \<Rightarrow> ('k, 'v) rb_node \<Rightarrow> ('k, 'v) rb_node" where
  "set_left p n = n\<lparr>n_left := p\<rparr>"

definition set_right :: "ptr \<Rightarrow> ('k, 'v) rb_node \<Rightarrow> ('k, 'v) rb_node" where
  "set_right p n = n\<lparr>n_right := p\<rparr>"

definition set_val :: "'v \<Rightarrow> ('k, 'v) rb_node \<Rightarrow> ('k, 'v) rb_node" where
  "set_val v n = n\<lparr>n_value := v\<rparr>"

text \<open>\<open>Node::from(k, v)\<close>: the address of a new red node without links, and the map that owns it.\<close>

definition rb_from :: "('k, 'v) rb_map \<Rightarrow> 'k \<Rightarrow> 'v \<Rightarrow> addr \<times> ('k, 'v) rb_map" where
  "rb_from m k v =
     (rb_fresh m,
      m\<lparr>rb_heap := (rb_heap m)(rb_fresh m \<mapsto>
          \<lparr>n_color = RED, n_key = k, n_value = v, n_parent = None, n_left = None, n_right = None\<rparr>),
        rb_fresh := rb_fresh m + 1\<rparr>)"

section \<open>Node queries\<close>

definition rb_isLeaf :: "('k, 'v) rb_node \<Rightarrow> bool" where
  "rb_isLeaf n = (n_left n = None \<and> n_right n = None)"

definition rb_isRoot :: "('k, 'v) rb_node \<Rightarrow> bool" where
  "rb_isRoot n = (n_parent n = None)"

definition rb_isRed :: "('k, 'v) rb_node \<Rightarrow> bool" where
  "rb_isRed n = (n_color n = RED)"

definition rb_isBlack :: "('k, 'v) rb_node \<Rightarrow> bool" where
  "rb_isBlack n = (n_color n = BLACK)"

definition rb_direction :: "('k, 'v) heap \<Rightarrow> ptr \<Rightarrow> direction option" where
  "rb_direction h p = do {
     n \<leftarrow> deref h p;
     if n_parent n \<noteq> None then do {
       pn \<leftarrow> deref h (n_parent n);
       Some (if p = n_left pn then LEFT else RIGHT)
     }
     else Some ROOT
   }"

definition rb_sibling :: "('k, 'v) heap \<Rightarrow> ptr \<Rightarrow> ptr option" where
  "rb_sibling h p = do {
     n \<leftarrow> deref h p;
     assert (\<not> rb_isRoot n);
     d \<leftarrow> rb_direction h p;
     pn \<leftarrow> deref h (n_parent n);
     Some (if d = LEFT then n_right pn else n_left pn)
   }"

definition rb_hasSibling :: "('k, 'v) heap \<Rightarrow> ptr \<Rightarrow> bool option" where
  "rb_hasSibling h p = do {
     n \<leftarrow> deref h p;
     if rb_isRoot n then Some False
     else do { s \<leftarrow> rb_sibling h p; Some (s \<noteq> None) }
   }"

definition rb_uncle :: "('k, 'v) heap \<Rightarrow> ptr \<Rightarrow> ptr option" where
  "rb_uncle h p = do {
     n \<leftarrow> deref h p;
     assert (n_parent n \<noteq> None);
     rb_sibling h (n_parent n)
   }"

definition rb_hasUncle :: "('k, 'v) heap \<Rightarrow> ptr \<Rightarrow> bool option" where
  "rb_hasUncle h p = do {
     n \<leftarrow> deref h p;
     if rb_isRoot n then Some False else rb_hasSibling h (n_parent n)
   }"

definition rb_grandParent :: "('k, 'v) heap \<Rightarrow> ptr \<Rightarrow> ptr option" where
  "rb_grandParent h p = do {
     n \<leftarrow> deref h p;
     assert (n_parent n \<noteq> None);
     pn \<leftarrow> deref h (n_parent n);
     Some (n_parent pn)
   }"

partial_function (option) rb_release :: "ptr \<Rightarrow> ('k, 'v) heap \<Rightarrow> ('k, 'v) heap option" where [code]:
  "rb_release p h = do {
     h1 \<leftarrow> assign p (set_parent None) h;
     n1 \<leftarrow> deref h1 p;
     h2 \<leftarrow> (if n_left n1 \<noteq> None then rb_release (n_left n1) h1 else Some h1);
     n2 \<leftarrow> deref h2 p;
     if n_right n2 \<noteq> None then rb_release (n_right n2) h2 else Some h2
   }"

section \<open>Rotations\<close>

definition rb_maintainRelationship :: "ptr \<Rightarrow> ('k, 'v) heap \<Rightarrow> ('k, 'v) heap option" where
  "rb_maintainRelationship p h = do {
     n \<leftarrow> deref h p;
     h1 \<leftarrow> (if n_left n \<noteq> None then assign (n_left n) (set_parent p) h else Some h);
     n1 \<leftarrow> deref h1 p;
     if n_right n1 \<noteq> None then assign (n_right n1) (set_parent p) h1 else Some h1
   }"

text \<open>The \<open>switch (direction)\<close> that stores \<open>s\<close> in the link which pointed to the rotated node.\<close>

definition rb_relink ::
  "direction \<Rightarrow> ptr \<Rightarrow> ptr \<Rightarrow> ('k, 'v) rb_map \<Rightarrow> ('k, 'v) rb_map option" where
  "rb_relink d parent s m =
     (case d of
        ROOT \<Rightarrow> Some (m\<lparr>rb_root := s\<rparr>)
      | LEFT \<Rightarrow> do { h \<leftarrow> assign parent (set_left s) (rb_heap m); Some (m\<lparr>rb_heap := h\<rparr>) }
      | RIGHT \<Rightarrow> do { h \<leftarrow> assign parent (set_right s) (rb_heap m); Some (m\<lparr>rb_heap := h\<rparr>) })"

definition rb_rotateLeft :: "ptr \<Rightarrow> ('k, 'v) rb_map \<Rightarrow> ('k, 'v) rb_map option" where
  "rb_rotateLeft node m = do {
     n \<leftarrow> deref (rb_heap m) node;
     assert (n_right n \<noteq> None);
     let parent = n_parent n;
     dir \<leftarrow> rb_direction (rb_heap m) node;
     let successor = n_right n;
     sn \<leftarrow> deref (rb_heap m) successor;
     h1 \<leftarrow> assign node (set_right (n_left sn)) (rb_heap m);
     h2 \<leftarrow> assign successor (set_left node) h1;
     h3 \<leftarrow> rb_maintainRelationship node h2;
     h4 \<leftarrow> rb_maintainRelationship successor h3;
     m5 \<leftarrow> rb_relink dir parent successor (m\<lparr>rb_heap := h4\<rparr>);
     h6 \<leftarrow> assign successor (set_parent parent) (rb_heap m5);
     Some (m5\<lparr>rb_heap := h6\<rparr>)
   }"

definition rb_rotateRight :: "ptr \<Rightarrow> ('k, 'v) rb_map \<Rightarrow> ('k, 'v) rb_map option" where
  "rb_rotateRight node m = do {
     n \<leftarrow> deref (rb_heap m) node;
     assert (n_left n \<noteq> None);
     let parent = n_parent n;
     dir \<leftarrow> rb_direction (rb_heap m) node;
     let successor = n_left n;
     sn \<leftarrow> deref (rb_heap m) successor;
     h1 \<leftarrow> assign node (set_left (n_right sn)) (rb_heap m);
     h2 \<leftarrow> assign successor (set_right node) h1;
     h3 \<leftarrow> rb_maintainRelationship node h2;
     h4 \<leftarrow> rb_maintainRelationship successor h3;
     m5 \<leftarrow> rb_relink dir parent successor (m\<lparr>rb_heap := h4\<rparr>);
     h6 \<leftarrow> assign successor (set_parent parent) (rb_heap m5);
     Some (m5\<lparr>rb_heap := h6\<rparr>)
   }"

definition rb_rotateSameDirection ::
  "ptr \<Rightarrow> direction \<Rightarrow> ('k, 'v) rb_map \<Rightarrow> ('k, 'v) rb_map option" where
  "rb_rotateSameDirection node d m = do {
     assert (d \<noteq> ROOT);
     if d = LEFT then rb_rotateLeft node m else rb_rotateRight node m
   }"

definition rb_rotateOppositeDirection ::
  "ptr \<Rightarrow> direction \<Rightarrow> ('k, 'v) rb_map \<Rightarrow> ('k, 'v) rb_map option" where
  "rb_rotateOppositeDirection node d m = do {
     assert (d \<noteq> ROOT);
     if d = LEFT then rb_rotateRight node m else rb_rotateLeft node m
   }"

section \<open>Insertion\<close>

text \<open>Painting a node: \<open>p->color = c\<close>.\<close>

definition rb_paint :: "ptr \<Rightarrow> color \<Rightarrow> ('k, 'v) rb_map \<Rightarrow> ('k, 'v) rb_map option" where
  "rb_paint p c m = do { h \<leftarrow> assign p (set_color c) (rb_heap m); Some (m\<lparr>rb_heap := h\<rparr>) }"

text \<open>Cases 5 and 6 of \<open>maintainAfterInsert\<close>: the parent is red, the uncle black or null.\<close>

definition rb_insert_rotate :: "('k, 'v) rb_map \<Rightarrow> ptr \<Rightarrow> ('k, 'v) rb_map option" where
  "rb_insert_rotate m node0 = do {
     n0 \<leftarrow> deref (rb_heap m) node0;
     assert (\<not> rb_isRoot n0);
     d \<leftarrow> rb_direction (rb_heap m) node0;
     dp \<leftarrow> rb_direction (rb_heap m) (n_parent n0);
     (m1, node) \<leftarrow>
       (if d \<noteq> dp then do {
          let parent = n_parent n0;
          m1 \<leftarrow> (if d = LEFT then rb_rotateRight parent m else rb_rotateLeft parent m);
          Some (m1, parent)
        }
        else Some (m, node0));
     g \<leftarrow> rb_grandParent (rb_heap m1) node;
     assert (g \<noteq> None);
     n1 \<leftarrow> deref (rb_heap m1) node;
     dp1 \<leftarrow> rb_direction (rb_heap m1) (n_parent n1);
     m2 \<leftarrow> (if dp1 = LEFT then rb_rotateRight g m1 else rb_rotateLeft g m1);
     n2 \<leftarrow> deref (rb_heap m2) node;
     m3 \<leftarrow> rb_paint (n_parent n2) BLACK m2;
     s \<leftarrow> rb_sibling (rb_heap m3) node;
     rb_paint s RED m3
   }"

partial_function (option) rb_maintainAfterInsert ::
  "('k, 'v) rb_map \<Rightarrow> ptr \<Rightarrow> ('k, 'v) rb_map option" where [code]:
  "rb_maintainAfterInsert m node = do {
     n \<leftarrow> deref (rb_heap m) node;
     if rb_isRoot n then do { assert (rb_isRed n); Some m }
     else do {
       pn \<leftarrow> deref (rb_heap m) (n_parent n);
       if rb_isBlack pn then Some m
       else if rb_isRoot pn then do { assert (rb_isRed pn); rb_paint (n_parent n) BLACK m }
       else do {
         hasU \<leftarrow> rb_hasUncle (rb_heap m) node;
         u \<leftarrow> (if hasU then rb_uncle (rb_heap m) node else Some None);
         redU \<leftarrow> (if hasU then do { un \<leftarrow> deref (rb_heap m) u; Some (rb_isRed un) } else Some False);
         if redU then do {
           assert (rb_isRed pn);
           m1 \<leftarrow> rb_paint (n_parent n) BLACK m;
           u1 \<leftarrow> rb_uncle (rb_heap m1) node;
           m2 \<leftarrow> rb_paint u1 BLACK m1;
           g \<leftarrow> rb_grandParent (rb_heap m2) node;
           m3 \<leftarrow> rb_paint g RED m2;
           rb_maintainAfterInsert m3 g
         }
         else rb_insert_rotate m node
       }
     }
   }"

text \<open>A new node linked as the left or right child of \<open>node\<close>, the tree repaired, the entry counted.\<close>

definition rb_attach ::
  "direction \<Rightarrow> ('k, 'v) rb_map \<Rightarrow> ptr \<Rightarrow> 'k \<Rightarrow> 'v \<Rightarrow> (('k, 'v) rb_map \<times> ptr) option" where
  "rb_attach d m node k v = do {
     let (a, m1) = rb_from m k v;
     h2 \<leftarrow> assign node (if d = LEFT then set_left (Some a) else set_right (Some a)) (rb_heap m1);
     h3 \<leftarrow> assign (Some a) (set_parent node) h2;
     m4 \<leftarrow> rb_maintainAfterInsert (m1\<lparr>rb_heap := h3\<rparr>) (Some a);
     Some (m4\<lparr>rb_count := rb_count m4 + 1\<rparr>, Some a)
   }"

partial_function (option) rb_getNodeOrProvide ::
  "'k compare \<Rightarrow> ('k, 'v) rb_map \<Rightarrow> ptr \<Rightarrow> 'k \<Rightarrow> 'v \<Rightarrow> (('k, 'v) rb_map \<times> ptr) option" where [code]:
  "rb_getNodeOrProvide cmp m node k v = do {
     n \<leftarrow> deref (rb_heap m) node;
     if k = n_key n then Some (m, node)
     else if cmp k (n_key n) then
       (if n_left n = None then rb_attach LEFT m node k v
        else rb_getNodeOrProvide cmp m (n_left n) k v)
     else
       (if n_right n = None then rb_attach RIGHT m node k v
        else rb_getNodeOrProvide cmp m (n_right n) k v)
   }"

partial_function (option) rb_insert_node ::
  "'k compare \<Rightarrow> ('k, 'v) rb_map \<Rightarrow> ptr \<Rightarrow> 'k \<Rightarrow> 'v \<Rightarrow> bool \<Rightarrow> ('k, 'v) rb_map option" where [code]:
  "rb_insert_node cmp m node k v replace = do {
     n \<leftarrow> deref (rb_heap m) node;
     if k = n_key n then
       (if replace then do { h \<leftarrow> assign node (set_val v) (rb_heap m); Some (m\<lparr>rb_heap := h\<rparr>) }
        else Some m)
     else if cmp k (n_key n) then
       (if n_left n = None then map_option fst (rb_attach LEFT m node k v)
        else rb_insert_node cmp m (n_left n) k v replace)
     else
       (if n_right n = None then map_option fst (rb_attach RIGHT m node k v)
        else rb_insert_node cmp m (n_right n) k v replace)
   }"

section \<open>Lookup and neighbour searches\<close>

partial_function (option) rb_getNode ::
  "'k compare \<Rightarrow> ('k, 'v) heap \<Rightarrow> ptr \<Rightarrow> 'k \<Rightarrow> ptr option" where [code]:
  "rb_getNode cmp h node k = do {
     n \<leftarrow> deref h node;
     if k = n_key n then Some node
     else if cmp k (n_key n) then
       (if n_left n = None then Some None else rb_getNode cmp h (n_left n) k)
     else
       (if n_right n = None then Some None else rb_getNode cmp h (n_right n) k)
   }"

text \<open>
  The inner loop \<open>while (node->direction() == d)\<close> of the neighbour searches, which climbs by the
  parent pointers, and the entry of the parent it stops under.
\<close>

partial_function (option) rb_climb :: "('k, 'v) heap \<Rightarrow> direction \<Rightarrow> ptr \<Rightarrow> ptr option" where [code]:
  "rb_climb h d node = do {
     d' \<leftarrow> rb_direction h node;
     if d' = d then do { n \<leftarrow> deref h node; rb_climb h d (n_parent n) } else Some node
   }"

definition rb_entry :: "('k, 'v) rb_node \<Rightarrow> 'k \<times> 'v" where
  "rb_entry n = (n_key n, n_value n)"

definition rb_climbed_entry ::
  "string \<Rightarrow> ('k, 'v) heap \<Rightarrow> direction \<Rightarrow> ptr \<Rightarrow> ('k \<times> 'v) throws option" where
  "rb_climbed_entry msg h d node = do {
     top_node \<leftarrow> rb_climb h d node;
     n \<leftarrow> deref h top_node;
     if n_parent n = None then Some (Inl (NoSuchMappingException msg))
     else do { pn \<leftarrow> deref h (n_parent n); Some (Inr (rb_entry pn)) }
   }"

partial_function (option) rb_ceiling_loop ::
  "'k compare \<Rightarrow> ('k, 'v) heap \<Rightarrow> 'k \<Rightarrow> ptr \<Rightarrow> ('k \<times> 'v) throws option" where [code]:
  "rb_ceiling_loop cmp h k node =
     (if node = None then Some (Inl (NoSuchMappingException ''No ceiling entry in this map''))
      else do {
        n \<leftarrow> deref h node;
        if k = n_key n then Some (Inr (rb_entry n))
        else if cmp k (n_key n) then
          (if n_left n \<noteq> None then rb_ceiling_loop cmp h k (n_left n) else Some (Inr (rb_entry n)))
        else
          (if n_right n \<noteq> None then rb_ceiling_loop cmp h k (n_right n)
           else rb_climbed_entry ''No ceiling entry exists in this map'' h RIGHT node)
      })"

partial_function (option) rb_floor_loop ::
  "'k compare \<Rightarrow> ('k, 'v) heap \<Rightarrow> 'k \<Rightarrow> ptr \<Rightarrow> ('k \<times> 'v) throws option" where [code]:
  "rb_floor_loop cmp h k node =
     (if node = None then Some (Inl (NoSuchMappingException ''No floor entry exists in this map''))
      else do {
        n \<leftarrow> deref h node;
        if k = n_key n then Some (Inr (rb_entry n))
        else if cmp k (n_key n) then
          (if n_left n \<noteq> None then rb_floor_loop cmp h k (n_left n)
           else rb_climbed_entry ''No floor entry exists in this map'' h LEFT node)
        else
          (if n_right n \<noteq> None then rb_floor_loop cmp h k (n_right n) else Some (Inr (rb_entry n)))
      })"

partial_function (option) rb_higher_loop ::
  "'k compare \<Rightarrow> ('k, 'v) heap \<Rightarrow> 'k \<Rightarrow> ptr \<Rightarrow> ('k \<times> 'v) throws option" where [code]:
  "rb_higher_loop cmp h k node =
     (if node = None then Some (Inl (NoSuchMappingException ''No higher entry exists in this map''))
      else do {
        n \<leftarrow> deref h node;
        if cmp k (n_key n) then
          (if n_left n \<noteq> None then rb_higher_loop cmp h k (n_left n) else Some (Inr (rb_entry n)))
        else
          (if n_right n \<noteq> None then rb_higher_loop cmp h k (n_right n)
           else rb_climbed_entry ''No higher entry exists in this map'' h RIGHT node)
      })"

partial_function (option) rb_lower_loop ::
  "'k compare \<Rightarrow> ('k, 'v) heap \<Rightarrow> 'k \<Rightarrow> ptr \<Rightarrow> ('k \<times> 'v) throws option" where [code]:
  "rb_lower_loop cmp h k node =
     (if node = None then Some (Inl (NoSuchMappingException ''No lower entry exists in this map''))
      else do {
        n \<leftarrow> deref h node;
        if cmp k (n_key n) \<or> k = n_key n then
          (if n_left n \<noteq> None then rb_lower_loop cmp h k (n_left n)
           else rb_climbed_entry ''No lower entry exists in this map'' h LEFT node)
        else
          (if n_right n \<noteq> None then rb_lower_loop cmp h k (n_right n) else Some (Inr (rb_entry n)))
      })"

section \<open>Traversal\<close>

text \<open>
  The callback of \<open>inorderTraversal\<close> gets the node; it may write to the heap (\<open>forEachMut\<close>) and
  has a state of its own.
\<close>

type_synonym ('k, 'v, 's) visitor = "ptr \<Rightarrow> ('k, 'v) heap \<Rightarrow> 's \<Rightarrow> (('k, 'v) heap \<times> 's) option"

partial_function (option) rb_push_left :: "('k, 'v) heap \<Rightarrow> ptr \<Rightarrow> ptr list \<Rightarrow> ptr list option" where [code]:
  "rb_push_left h node stack =
     (if node = None then Some stack
      else do { n \<leftarrow> deref h node; rb_push_left h (n_left n) (node # stack) })"

partial_function (option) rb_traverse_loop ::
  "('k, 'v, 's) visitor \<Rightarrow> ('k, 'v) heap \<Rightarrow> ptr \<Rightarrow> ptr list \<Rightarrow> 's \<Rightarrow> (('k, 'v) heap \<times> 's) option" where [code]:
  "rb_traverse_loop action h node stack s = do {
     stack' \<leftarrow> rb_push_left h node stack;
     case stack' of
       [] \<Rightarrow> Some (h, s)
     | p # rest \<Rightarrow> do {
         (h1, s1) \<leftarrow> action p h s;
         n \<leftarrow> deref h1 p;
         rb_traverse_loop action h1 (n_right n) rest s1
       }
   }"

definition rb_inorderTraversal ::
  "('k, 'v, 's) visitor \<Rightarrow> ('k, 'v) rb_map \<Rightarrow> 's \<Rightarrow> (('k, 'v) rb_map \<times> 's) option" where
  "rb_inorderTraversal action m s =
     (if rb_root m = None then Some (m, s)
      else do {
        (h, s') \<leftarrow> rb_traverse_loop action (rb_heap m) (rb_root m) [] s;
        Some (m\<lparr>rb_heap := h\<rparr>, s')
      })"

text \<open>A callback that only reads the entry of the node.\<close>

definition reading :: "('k \<Rightarrow> 'v \<Rightarrow> 's \<Rightarrow> 's) \<Rightarrow> ('k, 'v, 's) visitor" where
  "reading f p h s = do { n \<leftarrow> deref h p; Some (h, f (n_key n) (n_value n) s) }"

section \<open>Removal\<close>

text \<open>The tests \<open>p == nullptr || p->isBlack()\<close> and \<open>p != nullptr && p->isRed()\<close>.\<close>

definition rb_null_or_black :: "('k, 'v) heap \<Rightarrow> ptr \<Rightarrow> bool option" where
  "rb_null_or_black h p = (if p = None then Some True else do { n \<leftarrow> deref h p; Some (rb_isBlack n) })"

definition rb_set_and_red :: "('k, 'v) heap \<Rightarrow> ptr \<Rightarrow> bool option" where
  "rb_set_and_red h p = (if p = None then Some False else do { n \<leftarrow> deref h p; Some (rb_isRed n) })"

text \<open>Case 5 of \<open>maintainAfterRemove\<close>: sibling and close nephew are black, the distant nephew is red.\<close>

definition rb_remove_case5 ::
  "('k, 'v) rb_map \<Rightarrow> ptr \<Rightarrow> direction \<Rightarrow> ptr \<Rightarrow> ptr \<Rightarrow> ptr \<Rightarrow> ('k, 'v) rb_map option" where
  "rb_remove_case5 m1 node dir sib close dist = do {
     blackC \<leftarrow> rb_null_or_black (rb_heap m1) close;
     assert blackC;
     dn \<leftarrow> deref (rb_heap m1) dist;
     assert (rb_isRed dn);
     n1 \<leftarrow> deref (rb_heap m1) node;
     m2 \<leftarrow> rb_rotateSameDirection (n_parent n1) dir m1;
     n2 \<leftarrow> deref (rb_heap m2) node;
     pn \<leftarrow> deref (rb_heap m2) (n_parent n2);
     m3 \<leftarrow> rb_paint sib (n_color pn) m2;
     m4 \<leftarrow> rb_paint (n_parent n2) BLACK m3;
     rb_paint dist BLACK m4
   }"

text \<open>Case 4, the red close nephew, leads to case 5 with a new sibling and new nephews.\<close>

definition rb_remove_rotate ::
  "('k, 'v) rb_map \<Rightarrow> ptr \<Rightarrow> direction \<Rightarrow> ptr \<Rightarrow> ptr \<Rightarrow> ptr \<Rightarrow> ('k, 'v) rb_map option" where
  "rb_remove_rotate m node dir sib0 close0 dist0 = do {
     redC \<leftarrow> rb_set_and_red (rb_heap m) close0;
     if redC then do {
       m1 \<leftarrow> rb_rotateOppositeDirection sib0 dir m;
       m2 \<leftarrow> rb_paint close0 BLACK m1;
       m3 \<leftarrow> rb_paint sib0 RED m2;
       sib \<leftarrow> rb_sibling (rb_heap m3) node;
       sn \<leftarrow> deref (rb_heap m3) sib;
       rb_remove_case5 m3 node dir sib (if dir = LEFT then n_left sn else n_right sn)
         (if dir = LEFT then n_right sn else n_left sn)
     }
     else rb_remove_case5 m node dir sib0 close0 dist0
   }"

text \<open>Case 1 of \<open>maintainAfterRemove\<close>, the red sibling: the map and the sibling after the step.\<close>

definition rb_remove_red_sibling ::
  "('k, 'v) rb_map \<Rightarrow> ptr \<Rightarrow> direction \<Rightarrow> ptr \<Rightarrow> (('k, 'v) rb_map \<times> ptr) option" where
  "rb_remove_red_sibling m node dir sib = do {
     sn \<leftarrow> deref (rb_heap m) sib;
     if rb_isRed sn then do {
       n \<leftarrow> deref (rb_heap m) node;
       let parent = n_parent n;
       pn \<leftarrow> deref (rb_heap m) parent;
       assert (rb_isBlack pn);
       ln \<leftarrow> deref (rb_heap m) (n_left sn);
       assert (rb_isBlack ln);
       rn \<leftarrow> deref (rb_heap m) (n_right sn);
       assert (rb_isBlack rn);
       m1 \<leftarrow> rb_rotateSameDirection parent dir m;
       m2 \<leftarrow> rb_paint sib BLACK m1;
       m3 \<leftarrow> rb_paint parent RED m2;
       sib' \<leftarrow> rb_sibling (rb_heap m3) node;
       Some (m3, sib')
     }
     else Some (m, sib)
   }"

partial_function (option) rb_maintainAfterRemove ::
  "('k, 'v) rb_map \<Rightarrow> ptr \<Rightarrow> ('k, 'v) rb_map option" where [code]:
  "rb_maintainAfterRemove m node = do {
     n \<leftarrow> deref (rb_heap m) node;
     if rb_isRoot n then Some m
     else do {
       hasS \<leftarrow> rb_hasSibling (rb_heap m) node;
       assert (rb_isBlack n \<and> hasS);
       dir \<leftarrow> rb_direction (rb_heap m) node;
       sib0 \<leftarrow> rb_sibling (rb_heap m) node;
       (m1, sib) \<leftarrow> rb_remove_red_sibling m node dir sib0;
       sn \<leftarrow> deref (rb_heap m1) sib;
       let close = (if dir = LEFT then n_left sn else n_right sn);
       let dist = (if dir = LEFT then n_right sn else n_left sn);
       closeB \<leftarrow> rb_null_or_black (rb_heap m1) close;
       distB \<leftarrow> rb_null_or_black (rb_heap m1) dist;
       assert (rb_isBlack sn);
       if closeB \<and> distB then do {
         n1 \<leftarrow> deref (rb_heap m1) node;
         pn \<leftarrow> deref (rb_heap m1) (n_parent n1);
         m2 \<leftarrow> rb_paint sib RED m1;
         if rb_isRed pn then rb_paint (n_parent n1) BLACK m2
         else rb_maintainAfterRemove m2 (n_parent n1)
       }
       else rb_remove_rotate m1 node dir sib close dist
     }
   }"

text \<open>\<open>clear()\<close>, which \<open>remove\<close> calls for the only node of a map.\<close>

definition rb_clear :: "('k, 'v) rb_map \<Rightarrow> ('k, 'v) rb_map option" where
  "rb_clear m = do {
     m1 \<leftarrow> (if rb_root m \<noteq> None then do {
              h \<leftarrow> rb_release (rb_root m) (rb_heap m);
              Some (m\<lparr>rb_heap := h, rb_root := None\<rparr>)
            }
            else Some m);
     Some (m1\<lparr>rb_count := 0\<rparr>)
   }"

text \<open>Case 1 of \<open>remove\<close>: the loop to the successor and its parent.\<close>

partial_function (option) rb_find_successor ::
  "('k, 'v) heap \<Rightarrow> ptr \<Rightarrow> ptr \<Rightarrow> (ptr \<times> ptr) option" where [code]:
  "rb_find_successor h parent successor = do {
     sn \<leftarrow> deref h successor;
     if n_left sn \<noteq> None then rb_find_successor h successor (n_left sn)
     else Some (parent, successor)
   }"

text \<open>\<open>swapNode\<close> exchanges key and value of two nodes (and the two local pointers).\<close>

definition rb_swap_data :: "ptr \<Rightarrow> ptr \<Rightarrow> ('k, 'v) heap \<Rightarrow> ('k, 'v) heap option" where
  "rb_swap_data p q h = do {
     n \<leftarrow> deref h p;
     s \<leftarrow> deref h q;
     h1 \<leftarrow> assign p (\<lambda>x. x\<lparr>n_key := n_key s, n_value := n_value s\<rparr>) h;
     assign q (\<lambda>x. x\<lparr>n_key := n_key n, n_value := n_value n\<rparr>) h1
   }"

text \<open>Case 2 of \<open>remove\<close>: a leaf that is not the root.\<close>

definition rb_unlink_leaf :: "('k, 'v) rb_map \<Rightarrow> ptr \<Rightarrow> ('k, 'v) rb_map option" where
  "rb_unlink_leaf m node = do {
     n \<leftarrow> deref (rb_heap m) node;
     assert (n_parent n \<noteq> None);
     m1 \<leftarrow> (if rb_isBlack n then rb_maintainAfterRemove m node else Some m);
     d \<leftarrow> rb_direction (rb_heap m1) node;
     n1 \<leftarrow> deref (rb_heap m1) node;
     h \<leftarrow> assign (n_parent n1) (if d = LEFT then set_left None else set_right None) (rb_heap m1);
     Some (m1\<lparr>rb_heap := h\<rparr>)
   }"

text \<open>Case 3 of \<open>remove\<close>: a node with a single child.\<close>

definition rb_replace_by_child :: "('k, 'v) rb_map \<Rightarrow> ptr \<Rightarrow> ('k, 'v) rb_map option" where
  "rb_replace_by_child m node = do {
     n \<leftarrow> deref (rb_heap m) node;
     assert (n_left n = None \<or> n_right n = None);
     let parent = n_parent n;
     let replacement = (if n_left n \<noteq> None then n_left n else n_right n);
     d \<leftarrow> rb_direction (rb_heap m) node;
     m1 \<leftarrow> rb_relink d parent replacement m;
     m2 \<leftarrow> (if \<not> rb_isRoot n then do {
              h \<leftarrow> assign replacement (set_parent parent) (rb_heap m1);
              Some (m1\<lparr>rb_heap := h\<rparr>)
            }
            else Some m1);
     if rb_isBlack n then do {
       rn \<leftarrow> deref (rb_heap m2) replacement;
       if rb_isRed rn then rb_paint replacement BLACK m2
       else rb_maintainAfterRemove m2 replacement
     }
     else Some m2
   }"

text \<open>The part of \<open>remove\<close> after the key is found.\<close>

definition rb_remove_found :: "('k, 'v) rb_map \<Rightarrow> ptr \<Rightarrow> ('k, 'v) rb_map option" where
  "rb_remove_found m node0 = do {
     if rb_count m = 1 then rb_clear m
     else do {
       n0 \<leftarrow> deref (rb_heap m) node0;
       (m1, node) \<leftarrow>
         (if n_left n0 \<noteq> None \<and> n_right n0 \<noteq> None then do {
            (parent, successor) \<leftarrow> rb_find_successor (rb_heap m) node0 (n_right n0);
            h1 \<leftarrow> rb_swap_data node0 successor (rb_heap m);
            h2 \<leftarrow> rb_maintainRelationship parent h1;
            Some (m\<lparr>rb_heap := h2\<rparr>, successor)
          }
          else Some (m, node0));
       n \<leftarrow> deref (rb_heap m1) node;
       m2 \<leftarrow> (if rb_isLeaf n then rb_unlink_leaf m1 node else rb_replace_by_child m1 node);
       Some (m2\<lparr>rb_count := rb_count m2 - 1\<rparr>)
     }
   }"

text \<open>\<open>remove\<close>: the last component is the value the \<open>action\<close> callback saw, if it was called.\<close>

partial_function (option) rb_remove_node ::
  "'k compare \<Rightarrow> ('k, 'v) rb_map \<Rightarrow> ptr \<Rightarrow> 'k \<Rightarrow> (('k, 'v) rb_map \<times> 'v option) option" where [code]:
  "rb_remove_node cmp m node k = do {
     n \<leftarrow> deref (rb_heap m) node;
     if k \<noteq> n_key n then do {
       let child = (if cmp k (n_key n) then n_left n else n_right n);
       if child \<noteq> None then do {
         (m1, res) \<leftarrow> rb_remove_node cmp m child k;
         if res \<noteq> None then do {
           h \<leftarrow> rb_maintainRelationship node (rb_heap m1);
           Some (m1\<lparr>rb_heap := h\<rparr>, res)
         }
         else Some (m1, None)
       }
       else Some (m, None)
     }
     else do {
       m1 \<leftarrow> rb_remove_found m node;
       Some (m1, Some (n_value n))
     }
   }"

section \<open>The map class\<close>

definition rb_new :: "('k, 'v) rb_map" where
  "rb_new = \<lparr>rb_heap = \<lambda>_. None, rb_root = None, rb_count = 0, rb_fresh = 0\<rparr>"

definition rb_size :: "('k, 'v) rb_map \<Rightarrow> nat" where
  "rb_size m = rb_count m"

definition rb_empty :: "('k, 'v) rb_map \<Rightarrow> bool" where
  "rb_empty m = (rb_count m = 0)"

definition rb_get :: "'k compare \<Rightarrow> ('k, 'v) rb_map \<Rightarrow> 'k \<Rightarrow> 'v throws option" where
  "rb_get cmp m k =
     (if rb_root m = None then Some (Inl invalid_key)
      else do {
        p \<leftarrow> rb_getNode cmp (rb_heap m) (rb_root m) k;
        if p \<noteq> None then do { n \<leftarrow> deref (rb_heap m) p; Some (Inr (n_value n)) }
        else Some (Inl invalid_key)
      })"

definition rb_contains :: "'k compare \<Rightarrow> ('k, 'v) rb_map \<Rightarrow> 'k \<Rightarrow> bool option" where
  "rb_contains cmp m k = do {
     p \<leftarrow> rb_getNode cmp (rb_heap m) (rb_root m) k;
     Some (p \<noteq> None)
   }"

text \<open>The first entry of an empty map: a new node, painted black, becomes the root.\<close>

definition rb_first :: "('k, 'v) rb_map \<Rightarrow> 'k \<Rightarrow> 'v \<Rightarrow> ('k, 'v) rb_map option" where
  "rb_first m k v = do {
     let (a, m1) = rb_from m k v;
     m2 \<leftarrow> rb_paint (Some a) BLACK (m1\<lparr>rb_root := Some a\<rparr>);
     Some (m2\<lparr>rb_count := rb_count m2 + 1\<rparr>)
   }"

definition rb_insert :: "'k compare \<Rightarrow> ('k, 'v) rb_map \<Rightarrow> 'k \<Rightarrow> 'v \<Rightarrow> ('k, 'v) rb_map option" where
  "rb_insert cmp m k v =
     (if rb_root m = None then rb_first m k v else rb_insert_node cmp m (rb_root m) k v True)"

definition rb_insertIfAbsent ::
  "'k compare \<Rightarrow> ('k, 'v) rb_map \<Rightarrow> 'k \<Rightarrow> 'v \<Rightarrow> (('k, 'v) rb_map \<times> bool) option" where
  "rb_insertIfAbsent cmp m k v = do {
     m' \<leftarrow> (if rb_root m = None then rb_first m k v else rb_insert_node cmp m (rb_root m) k v False);
     Some (m', rb_size m' > rb_size m)
   }"

definition rb_getOrInsert ::
  "'k compare \<Rightarrow> ('k, 'v) rb_map \<Rightarrow> 'k \<Rightarrow> 'v \<Rightarrow> (('k, 'v) rb_map \<times> 'v) option" where
  "rb_getOrInsert cmp m k v =
     (if rb_root m = None then do { m' \<leftarrow> rb_first m k v; Some (m', v) }
      else do {
        (m', p) \<leftarrow> rb_getNodeOrProvide cmp m (rb_root m) k v;
        n \<leftarrow> deref (rb_heap m') p;
        Some (m', n_value n)
      })"

definition rb_getOrDefault ::
  "'k compare \<Rightarrow> 'v \<Rightarrow> ('k, 'v) rb_map \<Rightarrow> 'k \<Rightarrow> (('k, 'v) rb_map \<times> 'v) option" where
  "rb_getOrDefault cmp dflt m k =
     (if rb_root m = None then do { m' \<leftarrow> rb_first m k dflt; Some (m', dflt) }
      else do {
        (m', p) \<leftarrow> rb_getNodeOrProvide cmp m (rb_root m) k dflt;
        n \<leftarrow> deref (rb_heap m') p;
        Some (m', n_value n)
      })"

text \<open>\<open>m[k] = v\<close>: the value of the node \<open>getOrDefault\<close> found or made is assigned.\<close>

definition rb_index_assign ::
  "'k compare \<Rightarrow> 'v \<Rightarrow> ('k, 'v) rb_map \<Rightarrow> 'k \<Rightarrow> 'v \<Rightarrow> ('k, 'v) rb_map option" where
  "rb_index_assign cmp dflt m k v = do {
     (m', p) \<leftarrow> (if rb_root m = None then do { m' \<leftarrow> rb_first m k dflt; Some (m', rb_root m') }
                 else rb_getNodeOrProvide cmp m (rb_root m) k dflt);
     h \<leftarrow> assign p (set_val v) (rb_heap m');
     Some (m'\<lparr>rb_heap := h\<rparr>)
   }"

definition rb_remove :: "'k compare \<Rightarrow> ('k, 'v) rb_map \<Rightarrow> 'k \<Rightarrow> (('k, 'v) rb_map \<times> bool) option" where
  "rb_remove cmp m k =
     (if rb_root m = None then Some (m, False)
      else do {
        (m', res) \<leftarrow> rb_remove_node cmp m (rb_root m) k;
        Some (m', res \<noteq> None)
      })"

definition rb_getAndRemove ::
  "'k compare \<Rightarrow> ('k, 'v) rb_map \<Rightarrow> 'k \<Rightarrow> (('k, 'v) rb_map \<times> 'v) throws option" where
  "rb_getAndRemove cmp m k =
     (if rb_root m = None then Some (Inl invalid_key)
      else do {
        (m', res) \<leftarrow> rb_remove_node cmp m (rb_root m) k;
        Some (case res of Some v \<Rightarrow> Inr (m', v) | None \<Rightarrow> Inl invalid_key)
      })"

definition rb_getCeilingEntry ::
  "'k compare \<Rightarrow> ('k, 'v) rb_map \<Rightarrow> 'k \<Rightarrow> ('k \<times> 'v) throws option" where
  "rb_getCeilingEntry cmp m k =
     (if rb_root m = None then Some (Inl (NoSuchMappingException ''No ceiling entry in this map''))
      else rb_ceiling_loop cmp (rb_heap m) k (rb_root m))"

definition rb_getFloorEntry ::
  "'k compare \<Rightarrow> ('k, 'v) rb_map \<Rightarrow> 'k \<Rightarrow> ('k \<times> 'v) throws option" where
  "rb_getFloorEntry cmp m k =
     (if rb_root m = None then Some (Inl (NoSuchMappingException ''No floor entry exists in this map''))
      else rb_floor_loop cmp (rb_heap m) k (rb_root m))"

definition rb_getHigherEntry ::
  "'k compare \<Rightarrow> ('k, 'v) rb_map \<Rightarrow> 'k \<Rightarrow> ('k \<times> 'v) throws option" where
  "rb_getHigherEntry cmp m k =
     (if rb_root m = None then Some (Inl (NoSuchMappingException ''No higher entry exists in this map''))
      else rb_higher_loop cmp (rb_heap m) k (rb_root m))"

definition rb_getLowerEntry ::
  "'k compare \<Rightarrow> ('k, 'v) rb_map \<Rightarrow> 'k \<Rightarrow> ('k \<times> 'v) throws option" where
  "rb_getLowerEntry cmp m k =
     (if rb_root m = None then Some (Inl (NoSuchMappingException ''No lower entry exists in this map''))
      else rb_lower_loop cmp (rb_heap m) k (rb_root m))"

definition rb_forEach ::
  "('k \<Rightarrow> 'v \<Rightarrow> 's \<Rightarrow> 's) \<Rightarrow> ('k, 'v) rb_map \<Rightarrow> 's \<Rightarrow> 's option" where
  "rb_forEach action m s = map_option snd (rb_inorderTraversal (reading action) m s)"

definition rb_forEachMut ::
  "('k \<Rightarrow> 'v \<Rightarrow> 's \<Rightarrow> 'v \<times> 's) \<Rightarrow> ('k, 'v) rb_map \<Rightarrow> 's \<Rightarrow> (('k, 'v) rb_map \<times> 's) option" where
  "rb_forEachMut action m s =
     rb_inorderTraversal
       (\<lambda>p h s. do {
          n \<leftarrow> deref h p;
          let (v, s') = action (n_key n) (n_value n) s;
          h' \<leftarrow> assign p (set_val v) h;
          Some (h', s')
        }) m s"

definition rb_toEntryList :: "('k, 'v) rb_map \<Rightarrow> ('k \<times> 'v) list option" where
  "rb_toEntryList m = rb_forEach (\<lambda>k v es. es @ [(k, v)]) m []"

fun rb_remove_keys :: "'k compare \<Rightarrow> ('k, 'v) rb_map \<Rightarrow> 'k list \<Rightarrow> ('k, 'v) rb_map option" where
  "rb_remove_keys cmp m [] = Some m"
| "rb_remove_keys cmp m (k # ks) = do { (m', _) \<leftarrow> rb_remove cmp m k; rb_remove_keys cmp m' ks }"

definition rb_removeAll ::
  "'k compare \<Rightarrow> ('k \<Rightarrow> 'v \<Rightarrow> bool) \<Rightarrow> ('k, 'v) rb_map \<Rightarrow> ('k, 'v) rb_map option" where
  "rb_removeAll cmp filt m = do {
     keys \<leftarrow> rb_forEach (\<lambda>k v ks. if filt k v then ks @ [k] else ks) m [];
     rb_remove_keys cmp m keys
   }"

end
