(* ===== verification/RBTreeHeap.thy ===== *)
theory RBTreeHeap
  imports RBTreeMap
begin

text \<open>
  Reasoning about the heap of \<^verbatim>\<open>RBTreeMap.hpp\<close>. A tree with the addresses of its nodes describes a
  set of heap cells, parent pointers included; a path of frames describes the cells around a
  subtree. Moving the focus along the path costs nothing, and each pointer operation (direction,
  sibling, painting, rotation) has one lemma that says what it does to the subtree in focus.
\<close>

section \<open>Trees with addresses, and paths\<close>

datatype ('k, 'v) rbt =
    Lf
  | Br addr color "('k, 'v) rbt" 'k 'v "('k, 'v) rbt"

text \<open>A frame is a node with a hole for its left (\<open>FL\<close>) or right (\<open>FR\<close>) subtree.\<close>

datatype ('k, 'v) frame =
    FL addr color 'k 'v "('k, 'v) rbt"
  | FR addr color 'k 'v "('k, 'v) rbt"

type_synonym ('k, 'v) path = "('k, 'v) frame list"

fun ptr_of :: "('k, 'v) rbt \<Rightarrow> ptr" where
  "ptr_of Lf = None"
| "ptr_of (Br a c l k v r) = Some a"

fun addrs :: "('k, 'v) rbt \<Rightarrow> addr list" where
  "addrs Lf = []"
| "addrs (Br a c l k v r) = a # addrs l @ addrs r"

fun rb_inorder :: "('k, 'v) rbt \<Rightarrow> ('k \<times> 'v) list" where
  "rb_inorder Lf = []"
| "rb_inorder (Br a c l k v r) = rb_inorder l @ (k, v) # rb_inorder r"

text \<open>The entries with the addresses of their nodes.\<close>

fun rb_data :: "('k, 'v) rbt \<Rightarrow> (addr \<times> 'k \<times> 'v) list" where
  "rb_data Lf = []"
| "rb_data (Br a c l k v r) = rb_data l @ (a, k, v) # rb_data r"

lemma inorder_data: "rb_inorder t = map snd (rb_data t)"
  by (induction t) auto

fun frame_addr :: "('k, 'v) frame \<Rightarrow> addr" where
  "frame_addr (FL a c k v r) = a"
| "frame_addr (FR a c k v l) = a"

fun frame_color :: "('k, 'v) frame \<Rightarrow> color" where
  "frame_color (FL a c k v r) = c"
| "frame_color (FR a c k v l) = c"

fun frame_other :: "('k, 'v) frame \<Rightarrow> ('k, 'v) rbt" where
  "frame_other (FL a c k v r) = r"
| "frame_other (FR a c k v l) = l"

fun plug1 :: "('k, 'v) rbt \<Rightarrow> ('k, 'v) frame \<Rightarrow> ('k, 'v) rbt" where
  "plug1 t (FL a c k v r) = Br a c t k v r"
| "plug1 t (FR a c k v l) = Br a c l k v t"

fun plug :: "('k, 'v) rbt \<Rightarrow> ('k, 'v) path \<Rightarrow> ('k, 'v) rbt" where
  "plug t [] = t"
| "plug t (f # fs) = plug (plug1 t f) fs"

fun path_ptr :: "('k, 'v) path \<Rightarrow> ptr" where
  "path_ptr [] = None"
| "path_ptr (f # fs) = Some (frame_addr f)"

fun frame_addrs :: "('k, 'v) frame \<Rightarrow> addr list" where
  "frame_addrs f = frame_addr f # addrs (frame_other f)"

definition path_addrs :: "('k, 'v) path \<Rightarrow> addr list" where
  "path_addrs fs = concat (map frame_addrs fs)"

lemma path_addrs_simps [simp]:
  "path_addrs [] = []"
  "path_addrs (f # fs) = frame_addr f # addrs (frame_other f) @ path_addrs fs"
  by (simp_all add: path_addrs_def)

text \<open>The entries to the left and to the right of the hole.\<close>

fun path_before :: "('k, 'v) path \<Rightarrow> ('k \<times> 'v) list" where
  "path_before [] = []"
| "path_before (FL a c k v r # fs) = path_before fs"
| "path_before (FR a c k v l # fs) = path_before fs @ rb_inorder l @ [(k, v)]"

fun path_after :: "('k, 'v) path \<Rightarrow> ('k \<times> 'v) list" where
  "path_after [] = []"
| "path_after (FL a c k v r # fs) = (k, v) # rb_inorder r @ path_after fs"
| "path_after (FR a c k v l # fs) = path_after fs"

lemma inorder_plug: "rb_inorder (plug t fs) = path_before fs @ rb_inorder t @ path_after fs"
  by (induction fs arbitrary: t rule: path_before.induct) auto

section \<open>The cells of a tree\<close>

fun cells :: "('k, 'v) heap \<Rightarrow> ptr \<Rightarrow> ('k, 'v) rbt \<Rightarrow> bool" where
  "cells h par Lf = True"
| "cells h par (Br a c l k v r) =
     (h a = Some \<lparr>n_color = c, n_key = k, n_value = v, n_parent = par, n_left = ptr_of l, n_right = ptr_of r\<rparr> \<and>
      cells h (Some a) l \<and> cells h (Some a) r)"

text \<open>The cells of the nodes on a path whose hole is filled by the subtree at \<open>p\<close>.\<close>

fun path_cells :: "('k, 'v) heap \<Rightarrow> ptr \<Rightarrow> ptr \<Rightarrow> ('k, 'v) path \<Rightarrow> bool" where
  "path_cells h root p [] = (root = p)"
| "path_cells h root p (FL a c k v r # fs) =
     (h a = Some \<lparr>n_color = c, n_key = k, n_value = v, n_parent = path_ptr fs, n_left = p, n_right = ptr_of r\<rparr> \<and>
      cells h (Some a) r \<and> path_cells h root (Some a) fs)"
| "path_cells h root p (FR a c k v l # fs) =
     (h a = Some \<lparr>n_color = c, n_key = k, n_value = v, n_parent = path_ptr fs, n_left = ptr_of l, n_right = p\<rparr> \<and>
      cells h (Some a) l \<and> path_cells h root (Some a) fs)"

text \<open>The map \<open>m\<close> with the subtree \<open>t\<close> in focus under the path \<open>fs\<close>.\<close>

definition focus :: "('k, 'v) rb_map \<Rightarrow> ('k, 'v) rbt \<Rightarrow> ('k, 'v) path \<Rightarrow> bool" where
  "focus m t fs =
     (cells (rb_heap m) (path_ptr fs) t \<and> path_cells (rb_heap m) (rb_root m) (ptr_of t) fs \<and>
      distinct (addrs t @ path_addrs fs) \<and> (\<forall>a \<in> set (addrs t @ path_addrs fs). a < rb_fresh m))"

lemma focus_up: "focus m t (f # fs) = focus m (plug1 t f) fs"
  by (cases f) (auto simp: focus_def)

lemma focus_plug: "focus m t fs = focus m (plug t fs) []"
  by (induction fs arbitrary: t) (simp_all add: focus_up)

lemma ptr_of_in_addrs: "ptr_of t = Some a \<Longrightarrow> a \<in> set (addrs t)"
  by (cases t) auto

lemma ptr_of_eq_None [simp]: "ptr_of t = None \<longleftrightarrow> t = Lf"
  by (cases t) auto

lemma ptr_of_ex_Some [simp]: "(\<exists>a. ptr_of t = Some a) \<longleftrightarrow> t \<noteq> Lf"
  by (cases t) auto

lemma ptr_of_neq: "a \<notin> set (addrs t) \<Longrightarrow> ptr_of t \<noteq> Some a"
  using ptr_of_in_addrs by blast

text \<open>Writing to other cells does not matter.\<close>

lemma cells_update [simp]: "a \<notin> set (addrs t) \<Longrightarrow> cells (h(a := x)) par t = cells h par t"
  by (induction t arbitrary: par) auto

lemma path_cells_update [simp]:
  "a \<notin> set (path_addrs fs) \<Longrightarrow> path_cells (h(a := x)) root p fs = path_cells h root p fs"
  by (induction fs arbitrary: p rule: path_before.induct) auto

lemma cells_cong: "\<forall>a \<in> set (addrs t). h' a = h a \<Longrightarrow> cells h' par t = cells h par t"
  by (induction t arbitrary: par) auto

section \<open>Reading at the focus\<close>

lemma cells_data:
  assumes "cells h par t" and "(a, k, v) \<in> set (rb_data t)"
  shows "\<exists>n. h a = Some n \<and> n_key n = k \<and> n_value n = v"
  using assms by (induction t arbitrary: par) auto

lemma deref_simps [simp]: "deref h None = None" "deref h (Some a) = h a"
  by (simp_all add: deref_def)

lemma assign_simps [simp]:
  "assign None f h = None"
  "assign (Some a) f h = (case h a of None \<Rightarrow> None | Some n \<Rightarrow> Some (h(a \<mapsto> f n)))"
  by (simp_all add: assign_def)

lemmas node_defs = set_color_def set_parent_def set_left_def set_right_def set_val_def
  rb_isLeaf_def rb_isRoot_def rb_isRed_def rb_isBlack_def

lemma focus_cell:
  "focus m (Br a c l k v r) fs \<Longrightarrow> rb_heap m a = Some \<lparr>n_color = c, n_key = k, n_value = v,
     n_parent = path_ptr fs, n_left = ptr_of l, n_right = ptr_of r\<rparr>"
  by (simp add: focus_def)

lemma focus_frame_cell:
  "focus m t (f # fs) \<Longrightarrow> rb_heap m (frame_addr f) = (case f of
      FL a c k v r \<Rightarrow> Some \<lparr>n_color = c, n_key = k, n_value = v, n_parent = path_ptr fs,
        n_left = ptr_of t, n_right = ptr_of r\<rparr>
    | FR a c k v l \<Rightarrow> Some \<lparr>n_color = c, n_key = k, n_value = v, n_parent = path_ptr fs,
        n_left = ptr_of l, n_right = ptr_of t\<rparr>)"
  by (cases f) (auto simp: focus_def)

fun path_direction :: "('k, 'v) path \<Rightarrow> direction" where
  "path_direction [] = ROOT"
| "path_direction (FL a c k v r # fs) = LEFT"
| "path_direction (FR a c k v l # fs) = RIGHT"

lemma direction_at_focus:
  assumes "focus m (Br a c l k v r) fs"
  shows "rb_direction (rb_heap m) (Some a) = Some (path_direction fs)"
proof (cases fs)
  case Nil
  then show ?thesis
    using focus_cell [OF assms] by (simp add: rb_direction_def)
next
  case (Cons f gs)
  then show ?thesis
    using focus_cell [OF assms] focus_frame_cell [OF assms [unfolded Cons]] assms
    by (cases f) (auto simp: rb_direction_def focus_def dest: ptr_of_neq ptr_of_in_addrs)
qed

lemma sibling_at_focus:
  assumes "focus m (Br a c l k v r) (f # fs)"
  shows "rb_sibling (rb_heap m) (Some a) = Some (ptr_of (frame_other f))"
  using focus_cell [OF assms] focus_frame_cell [OF assms] direction_at_focus [OF assms]
  by (cases f) (auto simp: rb_sibling_def node_defs)

lemma hasSibling_at_focus:
  assumes "focus m (Br a c l k v r) (f # fs)"
  shows "rb_hasSibling (rb_heap m) (Some a) = Some (frame_other f \<noteq> Lf)"
  using focus_cell [OF assms] sibling_at_focus [OF assms]
  by (simp add: rb_hasSibling_def node_defs)

lemma uncle_at_focus:
  assumes "focus m (Br a c l k v r) (f # g # fs)"
  shows "rb_hasUncle (rb_heap m) (Some a) = Some (frame_other g \<noteq> Lf)"
    and "rb_uncle (rb_heap m) (Some a) = Some (ptr_of (frame_other g))"
    and "rb_grandParent (rb_heap m) (Some a) = Some (Some (frame_addr g))"
proof -
  obtain c' l' k' v' r' where p: "plug1 (Br a c l k v r) f = Br (frame_addr f) c' l' k' v' r'"
    by (cases f) auto
  have up: "focus m (Br (frame_addr f) c' l' k' v' r') (g # fs)"
    using assms p focus_up by metis
  show "rb_hasUncle (rb_heap m) (Some a) = Some (frame_other g \<noteq> Lf)"
    using focus_cell [OF assms] hasSibling_at_focus [OF up] by (simp add: rb_hasUncle_def node_defs)
  show "rb_uncle (rb_heap m) (Some a) = Some (ptr_of (frame_other g))"
    using focus_cell [OF assms] sibling_at_focus [OF up] by (simp add: rb_uncle_def)
  show "rb_grandParent (rb_heap m) (Some a) = Some (Some (frame_addr g))"
    using focus_cell [OF assms] focus_cell [OF up] by (simp add: rb_grandParent_def)
qed

section \<open>Writing at the focus\<close>

text \<open>What every operation on the heap leaves alone.\<close>

definition same_counters :: "('k, 'v) rb_map \<Rightarrow> ('k, 'v) rb_map \<Rightarrow> bool" where
  "same_counters m m' = (rb_count m' = rb_count m \<and> rb_fresh m' = rb_fresh m)"

lemma same_counters_refl [simp]: "same_counters m m"
  by (simp add: same_counters_def)

lemma same_counters_trans: "same_counters m1 m2 \<Longrightarrow> same_counters m2 m3 \<Longrightarrow> same_counters m1 m3"
  by (simp add: same_counters_def)

lemma paint_at_focus:
  assumes "focus m (Br a c l k v r) fs"
  shows "\<exists>m'. rb_paint (Some a) c' m = Some m' \<and> focus m' (Br a c' l k v r) fs \<and> same_counters m m'"
  using assms by (auto simp: rb_paint_def focus_def node_defs same_counters_def)

text \<open>The root of a subtree gets a new parent.\<close>

definition reparent :: "ptr \<Rightarrow> ('k, 'v) rbt \<Rightarrow> ('k, 'v) heap \<Rightarrow> ('k, 'v) heap" where
  "reparent p t h =
     (case ptr_of t of None \<Rightarrow> h
      | Some a \<Rightarrow> (case h a of None \<Rightarrow> h | Some n \<Rightarrow> h(a \<mapsto> n\<lparr>n_parent := p\<rparr>)))"

lemma reparent_other [simp]: "a \<notin> set (addrs t) \<Longrightarrow> reparent p t h a = h a"
  by (cases t) (auto simp: reparent_def split: option.split)

lemma cells_reparent_other [simp]:
  "set (addrs t) \<inter> set (addrs u) = {} \<Longrightarrow> cells (reparent p t h) par u = cells h par u"
  by (cases t) (auto simp: reparent_def split: option.split)

lemma path_cells_reparent_other [simp]:
  "set (addrs t) \<inter> set (path_addrs fs) = {} \<Longrightarrow> path_cells (reparent p t h) root q fs = path_cells h root q fs"
  by (cases t) (auto simp: reparent_def split: option.split)

lemma cells_reparent: "cells h q t \<Longrightarrow> distinct (addrs t) \<Longrightarrow> cells (reparent p t h) p t"
  by (cases t) (auto simp: reparent_def)

lemma reparent_same: "cells h p t \<Longrightarrow> reparent p t h = h"
  by (cases t) (auto simp: reparent_def)

lemma maintainRelationship_children:
  assumes "h a = Some n" and "n_left n = ptr_of l" and "n_right n = ptr_of r"
    and "cells h q l" and "cells h q' r" and "distinct (a # addrs l @ addrs r)"
  shows "rb_maintainRelationship (Some a) h = Some (reparent (Some a) r (reparent (Some a) l h))"
  using assms
  by (cases l; cases r) (auto simp: rb_maintainRelationship_def reparent_def node_defs)

text \<open>The link from the parent (or the root pointer) is redirected.\<close>

fun path_relink :: "('k, 'v) path \<Rightarrow> ptr \<Rightarrow> ('k, 'v) rb_map \<Rightarrow> ('k, 'v) rb_map" where
  "path_relink [] s m = m\<lparr>rb_root := s\<rparr>"
| "path_relink (FL a c k v r # fs) s m = m\<lparr>rb_heap := (rb_heap m)(a \<mapsto> \<lparr>n_color = c, n_key = k,
     n_value = v, n_parent = path_ptr fs, n_left = s, n_right = ptr_of r\<rparr>)\<rparr>"
| "path_relink (FR a c k v l # fs) s m = m\<lparr>rb_heap := (rb_heap m)(a \<mapsto> \<lparr>n_color = c, n_key = k,
     n_value = v, n_parent = path_ptr fs, n_left = ptr_of l, n_right = s\<rparr>)\<rparr>"

lemma relink_path:
  assumes "path_cells (rb_heap m) (rb_root m) q fs"
  shows "rb_relink (path_direction fs) (path_ptr fs) s m = Some (path_relink fs s m)"
  using assms by (cases fs rule: path_direction.cases) (auto simp: rb_relink_def node_defs)

lemma path_relink_heap [simp]:
  "a \<notin> set (path_addrs fs) \<Longrightarrow> rb_heap (path_relink fs s m) a = rb_heap m a"
  by (cases fs rule: path_direction.cases) auto

lemma path_relink_cells [simp]:
  "set (addrs t) \<inter> set (path_addrs fs) = {} \<Longrightarrow>
     cells (rb_heap (path_relink fs s m)) par t = cells (rb_heap m) par t"
  by (cases fs rule: path_direction.cases) auto

lemma path_relink_path_cells:
  assumes "path_cells (rb_heap m) (rb_root m) q fs" and "distinct (path_addrs fs)"
  shows "path_cells (rb_heap (path_relink fs s m)) (rb_root (path_relink fs s m)) s fs"
  using assms by (cases fs rule: path_direction.cases) auto

lemma path_relink_counters [simp]:
  "rb_count (path_relink fs s m) = rb_count m" "rb_fresh (path_relink fs s m) = rb_fresh m"
  by (cases fs rule: path_direction.cases; simp)+

text \<open>
  The common end of both rotations. The heap \<open>h4\<close> holds the rotated subtree, but for the parent
  of its root; the link from above still points to the old root \<open>a\<close>.
\<close>

lemma rotation_end:
  assumes "cells h4 (Some b) l" and "cells h4 (Some b) r" and "h4 b = Some n"
    and "n_color n = d" "n_key n = x" "n_value n = w" "n_left n = ptr_of l" "n_right n = ptr_of r"
    and "path_cells h4 (rb_root m) (Some a) fs" and "distinct (b # addrs l @ addrs r @ path_addrs fs)"
    and "\<forall>a \<in> set (addrs (Br b d l x w r) @ path_addrs fs). a < rb_fresh m"
  shows "\<exists>m'. (rb_relink (path_direction fs) (path_ptr fs) (Some b) (m\<lparr>rb_heap := h4\<rparr>) \<bind>
      (\<lambda>m5. assign (Some b) (set_parent (path_ptr fs)) (rb_heap m5) \<bind>
      (\<lambda>h6. Some (m5\<lparr>rb_heap := h6\<rparr>)))) = Some m' \<and>
    focus m' (Br b d l x w r) fs \<and> same_counters m m'"
proof -
  define m5 where "m5 = path_relink fs (Some b) (m\<lparr>rb_heap := h4\<rparr>)"
  have disj: "set (addrs l) \<inter> set (path_addrs fs) = {}" "set (addrs r) \<inter> set (path_addrs fs) = {}"
      "b \<notin> set (path_addrs fs)" "b \<notin> set (addrs l)" "b \<notin> set (addrs r)"
    using assms(10) by auto
  have m5: "rb_relink (path_direction fs) (path_ptr fs) (Some b) (m\<lparr>rb_heap := h4\<rparr>) = Some m5"
    unfolding m5_def using assms(9) by (intro relink_path) simp
  have b: "rb_heap m5 b = Some n"
    using assms(3) disj by (simp add: m5_def)
  have sub: "cells (rb_heap m5) (Some b) l" "cells (rb_heap m5) (Some b) r"
    using assms(1,2) disj by (simp_all add: m5_def)
  have path: "path_cells (rb_heap m5) (rb_root m5) (Some b) fs"
    unfolding m5_def using assms(9,10) by (intro path_relink_path_cells) auto
  have cnt: "rb_count m5 = rb_count m" "rb_fresh m5 = rb_fresh m"
    by (simp_all add: m5_def)
  have n: "n\<lparr>n_parent := path_ptr fs\<rparr> = \<lparr>n_color = d, n_key = x, n_value = w, n_parent = path_ptr fs,
      n_left = ptr_of l, n_right = ptr_of r\<rparr>"
    using assms(4-8) by simp
  show ?thesis
    using m5 b sub path cnt disj assms(10,11) n
    by (auto simp: focus_def same_counters_def set_parent_def)
qed

lemma rotateLeft_at_focus:
  assumes "focus m (Br a c l k v (Br b d ml x w r)) fs"
  shows "\<exists>m'. rb_rotateLeft (Some a) m = Some m' \<and>
    focus m' (Br b d (Br a c l k v ml) x w r) fs \<and> same_counters m m'"
proof -
  define h where "h = rb_heap m"
  let ?t = "Br a c l k v ml"
  let ?a = "\<lparr>n_color = c, n_key = k, n_value = v, n_parent = path_ptr fs, n_left = ptr_of l, n_right = ptr_of ml\<rparr>"
  let ?b = "\<lparr>n_color = d, n_key = x, n_value = w, n_parent = Some a, n_left = Some a, n_right = ptr_of r\<rparr>"
  define h2 where "h2 = h(a \<mapsto> ?a, b \<mapsto> ?b)"
  define h3 where "h3 = reparent (Some a) ml h2"
  define h4 where "h4 = reparent (Some b) ?t h3"
  have f: "cells h (path_ptr fs) (Br a c l k v (Br b d ml x w r))" "path_cells h (rb_root m) (Some a) fs"
    using assms by (auto simp: focus_def h_def)
  have d: "a \<noteq> b" "a \<notin> set (addrs l)" "a \<notin> set (addrs ml)" "a \<notin> set (addrs r)" "a \<notin> set (path_addrs fs)"
      "b \<notin> set (addrs l)" "b \<notin> set (addrs ml)" "b \<notin> set (addrs r)" "b \<notin> set (path_addrs fs)"
      "set (addrs l) \<inter> set (addrs ml) = {}" "set (addrs ml) \<inter> set (addrs l) = {}"
      "set (addrs l) \<inter> set (addrs r) = {}" "set (addrs ml) \<inter> set (addrs r) = {}"
      "set (addrs l) \<inter> set (path_addrs fs) = {}" "set (addrs ml) \<inter> set (path_addrs fs) = {}"
      "set (addrs r) \<inter> set (path_addrs fs) = {}" "distinct (addrs l)" "distinct (addrs ml)"
      "distinct (addrs r)" "distinct (path_addrs fs)"
    using assms by (auto simp: focus_def)
  have h2: "cells h2 (Some a) l" "cells h2 (Some b) ml" "cells h2 (Some b) r"
      "path_cells h2 (rb_root m) (Some a) fs" "h2 a = Some ?a" "h2 b = Some ?b"
    using f d by (simp_all add: h2_def)
  have m3: "rb_maintainRelationship (Some a) h2 = Some h3"
    unfolding h3_def using maintainRelationship_children [of h2 a ?a l ml] h2 d
    by (simp add: reparent_same)
  have h3: "cells h3 (path_ptr fs) ?t" "cells h3 (Some b) r" "path_cells h3 (rb_root m) (Some a) fs"
      "h3 b = Some ?b"
    using h2 d by (simp_all add: h3_def cells_reparent [OF h2(2)])
  have t: "distinct (addrs ?t)" "set (addrs ?t) \<inter> set (addrs r) = {}"
      "set (addrs ?t) \<inter> set (path_addrs fs) = {}" "b \<notin> set (addrs ?t)"
    using d by auto
  have h4: "cells h4 (Some b) ?t" "cells h4 (Some b) r" "path_cells h4 (rb_root m) (Some a) fs"
      "h4 b = Some ?b"
    unfolding h4_def by (rule cells_reparent [OF h3(1) t(1)]) (use h3 t in simp_all)
  have "distinct (b # addrs ?t @ addrs r)"
    using d by auto
  then have m4: "rb_maintainRelationship (Some b) h3 = Some h4"
    using maintainRelationship_children [OF h3(4) _ _ h3(1,2)] reparent_same [OF h4(2)]
    by (simp add: h4_def)
  have "\<exists>m'. (rb_relink (path_direction fs) (path_ptr fs) (Some b) (m\<lparr>rb_heap := h4\<rparr>) \<bind>
      (\<lambda>m5. assign (Some b) (set_parent (path_ptr fs)) (rb_heap m5) \<bind>
      (\<lambda>h6. Some (m5\<lparr>rb_heap := h6\<rparr>)))) = Some m' \<and>
    focus m' (Br b d ?t x w r) fs \<and> same_counters m m'"
    by (rule rotation_end [OF h4(1,2,4) _ _ _ _ _ h4(3)])
      (use assms d in \<open>auto simp: focus_def\<close>)
  moreover have "rb_rotateLeft (Some a) m =
      rb_relink (path_direction fs) (path_ptr fs) (Some b) (m\<lparr>rb_heap := h4\<rparr>) \<bind>
      (\<lambda>m5. assign (Some b) (set_parent (path_ptr fs)) (rb_heap m5) \<bind>
      (\<lambda>h6. Some (m5\<lparr>rb_heap := h6\<rparr>)))"
    unfolding rb_rotateLeft_def
    using f d m3 m4 direction_at_focus [OF assms]
    by (simp add: h_def h2_def node_defs Let_def)
  ultimately show ?thesis by simp
qed

lemma rotateRight_at_focus:
  assumes "focus m (Br a c (Br b d l x w ml) k v r) fs"
  shows "\<exists>m'. rb_rotateRight (Some a) m = Some m' \<and>
    focus m' (Br b d l x w (Br a c ml k v r)) fs \<and> same_counters m m'"
proof -
  define h where "h = rb_heap m"
  let ?t = "Br a c ml k v r"
  let ?a = "\<lparr>n_color = c, n_key = k, n_value = v, n_parent = path_ptr fs, n_left = ptr_of ml, n_right = ptr_of r\<rparr>"
  let ?b = "\<lparr>n_color = d, n_key = x, n_value = w, n_parent = Some a, n_left = ptr_of l, n_right = Some a\<rparr>"
  define h2 where "h2 = h(a \<mapsto> ?a, b \<mapsto> ?b)"
  define h3 where "h3 = reparent (Some a) ml h2"
  define h4 where "h4 = reparent (Some b) ?t h3"
  have f: "cells h (path_ptr fs) (Br a c (Br b d l x w ml) k v r)" "path_cells h (rb_root m) (Some a) fs"
    using assms by (auto simp: focus_def h_def)
  have d: "a \<noteq> b" "a \<notin> set (addrs l)" "a \<notin> set (addrs ml)" "a \<notin> set (addrs r)" "a \<notin> set (path_addrs fs)"
      "b \<notin> set (addrs l)" "b \<notin> set (addrs ml)" "b \<notin> set (addrs r)" "b \<notin> set (path_addrs fs)"
      "set (addrs ml) \<inter> set (addrs r) = {}" "set (addrs r) \<inter> set (addrs ml) = {}"
      "set (addrs r) \<inter> set (addrs l) = {}" "set (addrs ml) \<inter> set (addrs l) = {}"
      "set (addrs l) \<inter> set (path_addrs fs) = {}" "set (addrs ml) \<inter> set (path_addrs fs) = {}"
      "set (addrs r) \<inter> set (path_addrs fs) = {}" "distinct (addrs l)" "distinct (addrs ml)"
      "distinct (addrs r)" "distinct (path_addrs fs)"
    using assms by (auto simp: focus_def)
  have h2: "cells h2 (Some a) r" "cells h2 (Some b) ml" "cells h2 (Some b) l"
      "path_cells h2 (rb_root m) (Some a) fs" "h2 a = Some ?a" "h2 b = Some ?b"
    using f d by (simp_all add: h2_def)
  have cells_r: "cells (reparent (Some a) ml h2) (Some a) r"
    using h2(1) d by simp
  have m3: "rb_maintainRelationship (Some a) h2 = Some h3"
    unfolding h3_def using maintainRelationship_children [of h2 a ?a ml r] h2 d
    by (simp add: reparent_same [OF cells_r])
  have h3: "cells h3 (path_ptr fs) ?t" "cells h3 (Some b) l" "path_cells h3 (rb_root m) (Some a) fs"
      "h3 b = Some ?b"
    using h2 d by (simp_all add: h3_def cells_reparent [OF h2(2)])
  have t: "distinct (addrs ?t)" "set (addrs ?t) \<inter> set (addrs l) = {}"
      "set (addrs ?t) \<inter> set (path_addrs fs) = {}" "b \<notin> set (addrs ?t)"
    using d by auto
  have h4: "cells h4 (Some b) ?t" "cells h4 (Some b) l" "path_cells h4 (rb_root m) (Some a) fs"
      "h4 b = Some ?b"
    unfolding h4_def by (rule cells_reparent [OF h3(1) t(1)]) (use h3 t in simp_all)
  have "distinct (b # addrs l @ addrs ?t)"
    using d by auto
  then have m4: "rb_maintainRelationship (Some b) h3 = Some h4"
    using maintainRelationship_children [OF h3(4) _ _ h3(2,1)] reparent_same [OF h3(2)]
    by (simp add: h4_def)
  have "\<exists>m'. (rb_relink (path_direction fs) (path_ptr fs) (Some b) (m\<lparr>rb_heap := h4\<rparr>) \<bind>
      (\<lambda>m5. assign (Some b) (set_parent (path_ptr fs)) (rb_heap m5) \<bind>
      (\<lambda>h6. Some (m5\<lparr>rb_heap := h6\<rparr>)))) = Some m' \<and>
    focus m' (Br b d l x w ?t) fs \<and> same_counters m m'"
    by (rule rotation_end [OF h4(2,1,4) _ _ _ _ _ h4(3)])
      (use assms d in \<open>auto simp: focus_def\<close>)
  moreover have "rb_rotateRight (Some a) m =
      rb_relink (path_direction fs) (path_ptr fs) (Some b) (m\<lparr>rb_heap := h4\<rparr>) \<bind>
      (\<lambda>m5. assign (Some b) (set_parent (path_ptr fs)) (rb_heap m5) \<bind>
      (\<lambda>h6. Some (m5\<lparr>rb_heap := h6\<rparr>)))"
    unfolding rb_rotateRight_def
    using f d m3 m4 direction_at_focus [OF assms]
    by (simp add: h_def h2_def node_defs Let_def)
  ultimately show ?thesis by simp
qed

end
