(* ===== verification/RBTreeInsert.thy ===== *)
theory RBTreeInsert
  imports RBTreeHeap
begin

text \<open>
  Insertion into the red-black tree: \<open>maintainAfterInsert\<close> on the heap does what \<open>ins_fix\<close> does on
  trees and paths, \<open>ins_fix\<close> keeps the entries and restores the red-black invariant, and so the
  whole \<open>insert\<close> keeps both.
\<close>

section \<open>The repair after an insertion, on trees\<close>

fun isRed :: "('k, 'v) rbt \<Rightarrow> bool" where
  "isRed Lf = False"
| "isRed (Br a c l k v r) = (c = RED)"

fun paint :: "color \<Rightarrow> ('k, 'v) rbt \<Rightarrow> ('k, 'v) rbt" where
  "paint c Lf = Lf"
| "paint c (Br a c' l k v r) = Br a c l k v r"

fun paint_frame :: "color \<Rightarrow> ('k, 'v) frame \<Rightarrow> ('k, 'v) frame" where
  "paint_frame c (FL a c' k v r) = FL a c k v r"
| "paint_frame c (FR a c' k v l) = FR a c k v l"

fun paint_other :: "color \<Rightarrow> ('k, 'v) frame \<Rightarrow> ('k, 'v) frame" where
  "paint_other c (FL a c' k v r) = FL a c' k v (paint c r)"
| "paint_other c (FR a c' k v l) = FR a c' k v (paint c l)"

text \<open>Cases 5 and 6: the subtree of the grandparent after the rotations and the painting.\<close>

fun ins_rotate :: "('k, 'v) rbt \<Rightarrow> ('k, 'v) frame \<Rightarrow> ('k, 'v) frame \<Rightarrow> ('k, 'v) rbt" where
  "ins_rotate n (FL p pc pk pv pr) (FL g gc gk gv u) = Br p BLACK n pk pv (Br g RED pr gk gv u)"
| "ins_rotate n (FR p pc pk pv pl) (FR g gc gk gv u) = Br p BLACK (Br g RED u gk gv pl) pk pv n"
| "ins_rotate (Br a c l k v r) (FR p pc pk pv pl) (FL g gc gk gv u) =
     Br a BLACK (Br p pc pl pk pv l) k v (Br g RED r gk gv u)"
| "ins_rotate (Br a c l k v r) (FL p pc pk pv pr) (FR g gc gk gv u) =
     Br a BLACK (Br g RED u gk gv l) k v (Br p pc r pk pv pr)"
| "ins_rotate Lf f g = plug1 (plug1 Lf f) g"

fun ins_fix :: "('k, 'v) rbt \<Rightarrow> ('k, 'v) path \<Rightarrow> ('k, 'v) rbt" where
  "ins_fix n [] = n"
| "ins_fix n [f] = plug1 n (paint_frame BLACK f)"
| "ins_fix n (f # g # fs) =
     (if frame_color f = BLACK then plug n (f # g # fs)
      else if isRed (frame_other g) then
        ins_fix (plug1 (plug1 n (paint_frame BLACK f)) (paint_frame RED (paint_other BLACK g))) fs
      else plug (ins_rotate n f g) fs)"

lemma data_paint [simp]: "rb_data (paint c t) = rb_data t"
  by (cases t) auto

lemma data_plug1_cong: "rb_data t = rb_data u \<Longrightarrow> rb_data (plug1 t f) = rb_data (plug1 u f)"
  by (cases f) auto

lemma data_plug_cong: "rb_data t = rb_data u \<Longrightarrow> rb_data (plug t fs) = rb_data (plug u fs)"
proof (induction fs arbitrary: t u)
  case (Cons f fs)
  from Cons.IH [OF data_plug1_cong [OF Cons.prems]] show ?case by simp
qed simp

lemma data_plug1_paint [simp]:
  "rb_data (plug1 t (paint_frame c f)) = rb_data (plug1 t f)"
  "rb_data (plug1 t (paint_other c f)) = rb_data (plug1 t f)"
  by (cases f; simp)+

lemma data_ins_rotate: "rb_data (ins_rotate n f g) = rb_data (plug1 (plug1 n f) g)"
  by (induction n f g rule: ins_rotate.induct) auto

lemma data_ins_fix: "rb_data (ins_fix n fs) = rb_data (plug n fs)"
proof (induction n fs rule: ins_fix.induct)
  case (3 n f g fs)
  have "rb_data (plug1 (plug1 n (paint_frame BLACK f)) (paint_frame RED (paint_other BLACK g))) =
      rb_data (plug1 (plug1 n f) g)"
    using data_plug1_cong [of "plug1 n (paint_frame BLACK f)" "plug1 n f" g] by simp
  with 3 show ?case
    by (auto simp: data_ins_rotate intro: data_plug_cong)
qed auto

lemma inorder_ins_fix: "rb_inorder (ins_fix n fs) = rb_inorder (plug n fs)"
  by (simp add: inorder_data data_ins_fix)

section \<open>The heap does what the tree does\<close>

lemma plug1_node: "\<exists>c l k v r. plug1 t f = Br (frame_addr f) c l k v r"
  by (cases f) auto

lemma plug1_painted:
  assumes "plug1 t f = Br a c l k v r"
  shows "plug1 t (paint_frame c' f) = Br a c' l k v r"
  using assms by (cases f) auto

lemma paint_parent:
  assumes "focus m t (f # fs)"
  shows "\<exists>m'. rb_paint (Some (frame_addr f)) c m = Some m' \<and> focus m' t (paint_frame c f # fs) \<and>
    same_counters m m'"
proof -
  obtain c' l k v r where p: "plug1 t f = Br (frame_addr f) c' l k v r"
    using plug1_node [of t f] by blast
  show ?thesis
    using paint_at_focus [of m "frame_addr f" c' l k v r fs c] assms plug1_painted [OF p]
    by (simp add: focus_up p)
qed

text \<open>Turning the focus to the other subtree of a frame and back.\<close>

fun flip_frame :: "('k, 'v) rbt \<Rightarrow> ('k, 'v) frame \<Rightarrow> ('k, 'v) frame" where
  "flip_frame t (FL a c k v r) = FR a c k v t"
| "flip_frame t (FR a c k v l) = FL a c k v t"

lemma focus_flip: "focus m t (f # fs) = focus m (frame_other f) (flip_frame t f # fs)"
  by (cases f) (simp_all add: focus_up)

lemma paint_sibling:
  assumes "focus m t (f # fs)" and "frame_other f \<noteq> Lf"
  shows "\<exists>m'. rb_paint (ptr_of (frame_other f)) c m = Some m' \<and> focus m' t (paint_other c f # fs) \<and>
    same_counters m m'"
proof -
  obtain a c' l k v r where o: "frame_other f = Br a c' l k v r"
    using assms(2) by (cases "frame_other f") auto
  have "focus m (Br a c' l k v r) (flip_frame t f # fs)"
    using assms(1) o by (simp add: focus_flip [of m t])
  from paint_at_focus [OF this, of c] obtain m' where
    "rb_paint (Some a) c m = Some m'" "focus m' (Br a c l k v r) (flip_frame t f # fs)" "same_counters m m'"
    by blast
  then show ?thesis
    using o by (cases f) (auto simp: focus_up)
qed

lemma paint_frame_simps [simp]:
  "frame_addr (paint_frame c f) = frame_addr f"
  "frame_other (paint_frame c f) = frame_other f"
  "frame_color (paint_frame c f) = c"
  "frame_addr (paint_other c f) = frame_addr f"
  "frame_color (paint_other c f) = frame_color f"
  "path_direction (paint_frame c f # fs) = path_direction (f # fs)"
  by (cases f; simp)+

lemma paint_end:
  assumes "focus m (Br a c l k v r) (f # fs)" and "frame_other f \<noteq> Lf"
  shows "\<exists>m'. (rb_paint (Some (frame_addr f)) BLACK m \<bind>
      (\<lambda>m3. rb_sibling (rb_heap m3) (Some a) \<bind> (\<lambda>s. rb_paint s RED m3))) = Some m' \<and>
    focus m' (Br a c l k v r) (paint_other RED (paint_frame BLACK f) # fs) \<and> same_counters m m'"
proof -
  obtain m3 where m3: "rb_paint (Some (frame_addr f)) BLACK m = Some m3"
      "focus m3 (Br a c l k v r) (paint_frame BLACK f # fs)" "same_counters m m3"
    using paint_parent [OF assms(1)] by blast
  obtain m4 where m4: "rb_paint (ptr_of (frame_other f)) RED m3 = Some m4"
      "focus m4 (Br a c l k v r) (paint_other RED (paint_frame BLACK f) # fs)" "same_counters m3 m4"
    using paint_sibling [OF m3(2), of RED] assms(2) by auto
  show ?thesis
    using m3 m4 sibling_at_focus [OF m3(2)] by (auto intro: same_counters_trans)
qed

lemma insert_rotate_same:
  assumes f: "focus m (Br a c l k v r) (f # g # fs)" and d: "path_direction (f # fs) = path_direction (g # fs)"
  shows "\<exists>m'. rb_insert_rotate m (Some a) = Some m' \<and>
    focus m' (ins_rotate (Br a c l k v r) f g) fs \<and> same_counters m m'"
proof -
  let ?n = "Br a c l k v r"
  have dirs: "rb_direction (rb_heap m) (Some a) = Some (path_direction (f # fs))"
    using direction_at_focus [OF f] by (cases f) auto
  obtain c' l' k' v' r' where p: "plug1 ?n f = Br (frame_addr f) c' l' k' v' r'"
    using plug1_node [of ?n f] by blast
  have dirp: "rb_direction (rb_heap m) (Some (frame_addr f)) = Some (path_direction (g # fs))"
    using direction_at_focus [of m "frame_addr f" c' l' k' v' r' "g # fs"] f p
    by (cases g) (auto simp: focus_up [of _ _ f])
  have cell: "\<exists>x. rb_heap m a = Some x \<and> n_parent x = Some (frame_addr f)"
    using focus_cell [OF f] by simp
  have step: "rb_insert_rotate m (Some a) =
      (if path_direction (f # fs) = LEFT then rb_rotateRight (Some (frame_addr g)) m
       else rb_rotateLeft (Some (frame_addr g)) m) \<bind>
      (\<lambda>m2. deref (rb_heap m2) (Some a) \<bind> (\<lambda>n2. rb_paint (n_parent n2) BLACK m2 \<bind>
      (\<lambda>m3. rb_sibling (rb_heap m3) (Some a) \<bind> (\<lambda>s. rb_paint s RED m3))))"
    unfolding rb_insert_rotate_def using cell dirs dirp d uncle_at_focus(3) [OF f]
    by (auto simp: rb_isRoot_def)
  show ?thesis
  proof (cases f)
    case FLf: (FL pa pc pk pv pr)
    then obtain ga gc gk gv u where g: "g = FL ga gc gk gv u"
      using d by (cases g) auto
    have "focus m (Br ga gc (Br pa pc ?n pk pv pr) gk gv u) fs"
      using f by (simp add: FLf g focus_up)
    from rotateRight_at_focus [OF this] obtain m2 where
      m2: "rb_rotateRight (Some ga) m = Some m2" "same_counters m m2"
        "focus m2 ?n (FL pa pc pk pv (Br ga gc pr gk gv u) # fs)"
      by (auto simp: focus_up)
    from paint_end [OF m2(3)] show ?thesis
      using m2 step FLf g focus_cell [OF m2(3)] by (auto simp: focus_up intro: same_counters_trans)
  next
    case FRf: (FR pa pc pk pv pl)
    then obtain ga gc gk gv u where g: "g = FR ga gc gk gv u"
      using d by (cases g) auto
    have "focus m (Br ga gc u gk gv (Br pa pc pl pk pv ?n)) fs"
      using f by (simp add: FRf g focus_up)
    from rotateLeft_at_focus [OF this] obtain m2 where
      m2: "rb_rotateLeft (Some ga) m = Some m2" "same_counters m m2"
        "focus m2 ?n (FR pa pc pk pv (Br ga gc u gk gv pl) # fs)"
      by (auto simp: focus_up)
    from paint_end [OF m2(3)] show ?thesis
      using m2 step FRf g focus_cell [OF m2(3)] by (auto simp: focus_up intro: same_counters_trans)
  qed
qed

text \<open>Case 5: one rotation at the parent leads to case 6 with the parent as the current node.\<close>

lemma insert_rotate_skips:
  assumes f: "focus m (Br a c l k v r) (f # g # fs)" and d: "path_direction (f # fs) = path_direction (g # fs)"
  shows "rb_insert_rotate m (Some a) =
      rb_grandParent (rb_heap m) (Some a) \<bind> (\<lambda>g. assert (g \<noteq> None) \<bind> (\<lambda>_.
      deref (rb_heap m) (Some a) \<bind> (\<lambda>n1. rb_direction (rb_heap m) (n_parent n1) \<bind> (\<lambda>dp1.
      (if dp1 = LEFT then rb_rotateRight g m else rb_rotateLeft g m) \<bind> (\<lambda>m2.
      deref (rb_heap m2) (Some a) \<bind> (\<lambda>n2. rb_paint (n_parent n2) BLACK m2 \<bind>
      (\<lambda>m3. rb_sibling (rb_heap m3) (Some a) \<bind> (\<lambda>s. rb_paint s RED m3))))))))"
proof -
  have dirs: "rb_direction (rb_heap m) (Some a) = Some (path_direction (f # fs))"
    using direction_at_focus [OF f] by (cases f) auto
  obtain c' l' k' v' r' where p: "plug1 (Br a c l k v r) f = Br (frame_addr f) c' l' k' v' r'"
    using plug1_node [of "Br a c l k v r" f] by blast
  have dirp: "rb_direction (rb_heap m) (Some (frame_addr f)) = Some (path_direction (g # fs))"
    using direction_at_focus [of m "frame_addr f" c' l' k' v' r' "g # fs"] f p
    by (cases g) (auto simp: focus_up [of _ _ f])
  show ?thesis
    unfolding rb_insert_rotate_def using focus_cell [OF f] dirs dirp d
    by (simp add: rb_isRoot_def)
qed

lemma insert_rotate_at_focus:
  assumes f: "focus m (Br a c l k v r) (f # g # fs)"
  shows "\<exists>m'. rb_insert_rotate m (Some a) = Some m' \<and>
    focus m' (ins_rotate (Br a c l k v r) f g) fs \<and> same_counters m m'"
proof (cases "path_direction (f # fs) = path_direction (g # fs)")
  case True
  then show ?thesis
    by (rule insert_rotate_same [OF f])
next
  case False
  let ?n = "Br a c l k v r"
  have dirs: "rb_direction (rb_heap m) (Some a) = Some (path_direction (f # fs))"
    using direction_at_focus [OF f] by (cases f) auto
  obtain c' l' k' v' r' where p: "plug1 ?n f = Br (frame_addr f) c' l' k' v' r'"
    using plug1_node [of ?n f] by blast
  have dirp: "rb_direction (rb_heap m) (Some (frame_addr f)) = Some (path_direction (g # fs))"
    using direction_at_focus [of m "frame_addr f" c' l' k' v' r' "g # fs"] f p
    by (cases g) (auto simp: focus_up [of _ _ f])
  have rotated: ?thesis
    if "(if path_direction (f # fs) = LEFT then rb_rotateRight (Some (frame_addr f)) m
         else rb_rotateLeft (Some (frame_addr f)) m) = Some m1"
      and foc: "focus m1 (Br (frame_addr f) c1 l1 k1 v1 r1) (f1 # g # fs)"
      and dir1: "path_direction (f1 # fs) = path_direction (g # fs)"
      and "same_counters m m1"
      and "ins_rotate (Br (frame_addr f) c1 l1 k1 v1 r1) f1 g = ins_rotate ?n f g"
    for m1 c1 l1 k1 v1 r1 f1
  proof -
    have "rb_insert_rotate m (Some a) = rb_insert_rotate m1 (Some (frame_addr f))"
      unfolding insert_rotate_skips [OF foc dir1] rb_insert_rotate_def [of m]
      using focus_cell [OF f] dirs dirp False that(1)
      by (auto simp: rb_isRoot_def Let_def split: if_splits)
    then show ?thesis
      using insert_rotate_same [OF foc dir1] that(4,5) by (auto intro: same_counters_trans)
  qed
  show ?thesis
  proof (cases f)
    case FLf: (FL pa pc pk pv pr)
    then obtain ga gc gk gv u where g: "g = FR ga gc gk gv u"
      using False by (cases g) auto
    have "focus m (Br pa pc ?n pk pv pr) (g # fs)"
      using f by (simp add: FLf focus_up)
    from rotateRight_at_focus [OF this] obtain m1 where
      "rb_rotateRight (Some pa) m = Some m1" "same_counters m m1"
      "focus m1 (Br pa pc r pk pv pr) (FR a c k v l # g # fs)"
      by (auto simp: focus_up)
    then show ?thesis
      by (intro rotated) (auto simp: FLf g)
  next
    case FRf: (FR pa pc pk pv pl)
    then obtain ga gc gk gv u where g: "g = FL ga gc gk gv u"
      using False by (cases g) auto
    have "focus m (Br pa pc pl pk pv ?n) (g # fs)"
      using f by (simp add: FRf focus_up)
    from rotateLeft_at_focus [OF this] obtain m1 where
      "rb_rotateLeft (Some pa) m = Some m1" "same_counters m m1"
      "focus m1 (Br pa pc pl pk pv l) (FL a c k v r # g # fs)"
      by (auto simp: focus_up)
    then show ?thesis
      by (intro rotated) (auto simp: FRf g)
  qed
qed

text \<open>Case 4: parent and uncle become black, the grandparent red and the new current node.\<close>

lemma insert_recolor_at_focus:
  assumes f: "focus m (Br a c l k v r) (f # g # fs)" and u: "frame_other g \<noteq> Lf"
  shows "\<exists>m'. (rb_paint (Some (frame_addr f)) BLACK m \<bind>
      (\<lambda>m1. rb_uncle (rb_heap m1) (Some a) \<bind> (\<lambda>u1. rb_paint u1 BLACK m1 \<bind>
      (\<lambda>m2. rb_grandParent (rb_heap m2) (Some a) \<bind> (\<lambda>g. rb_paint g RED m2 \<bind>
      (\<lambda>m3. rb_maintainAfterInsert m3 g)))))) = rb_maintainAfterInsert m' (Some (frame_addr g)) \<and>
    focus m' (plug1 (plug1 (Br a c l k v r) (paint_frame BLACK f)) (paint_frame RED (paint_other BLACK g))) fs \<and>
    same_counters m m'"
proof -
  let ?n = "Br a c l k v r" and ?f = "paint_frame BLACK f"
  obtain m1 where m1: "rb_paint (Some (frame_addr f)) BLACK m = Some m1" "same_counters m m1"
      "focus m1 ?n (?f # g # fs)"
    using paint_parent [OF f] by blast
  have "focus m1 (plug1 ?n ?f) (g # fs)"
    using m1(3) by (simp add: focus_up)
  from paint_sibling [OF this u, of BLACK] obtain m2 where
    m2: "rb_paint (ptr_of (frame_other g)) BLACK m1 = Some m2" "same_counters m1 m2"
      "focus m2 (plug1 ?n ?f) (paint_other BLACK g # fs)"
    by blast
  have n2: "focus m2 ?n (?f # paint_other BLACK g # fs)"
    using m2(3) by (simp add: focus_up)
  obtain m3 where m3: "rb_paint (Some (frame_addr g)) RED m2 = Some m3" "same_counters m2 m3"
      "focus m3 (plug1 ?n ?f) (paint_frame RED (paint_other BLACK g) # fs)"
    using paint_parent [OF m2(3), of RED] by auto
  show ?thesis
    using m1 m2 m3 uncle_at_focus(2) [OF m1(3)] uncle_at_focus(3) [OF n2]
    by (auto simp: focus_up intro: same_counters_trans)
qed

lemma maintainAfterInsert_ins_fix:
  assumes "focus m (Br a RED l k v r) fs"
  shows "\<exists>m'. rb_maintainAfterInsert m (Some a) = Some m' \<and>
    focus m' (ins_fix (Br a RED l k v r) fs) [] \<and> same_counters m m'"
  using assms
proof (induction "Br a RED l k v r" fs arbitrary: m a l k v r rule: ins_fix.induct)
  case 1
  then show ?case
    using focus_cell [OF 1] by (subst rb_maintainAfterInsert.simps) (simp add: node_defs)
next
  case (2 f)
  show ?case
  proof (cases "frame_color f")
    case RED
    then show ?thesis
      using paint_parent [OF 2, of BLACK] focus_cell [OF 2] focus_frame_cell [OF 2]
      by (subst rb_maintainAfterInsert.simps, cases f) (auto simp: node_defs focus_up)
  next
    case BLACK
    then show ?thesis
      using 2 focus_cell [OF 2] focus_frame_cell [OF 2]
      by (subst rb_maintainAfterInsert.simps, cases f) (auto simp: node_defs focus_up)
  qed
next
  case (3 f g fs)
  let ?n = "Br a RED l k v r"
  note cells = focus_cell [OF 3(2)] focus_frame_cell [OF 3(2)]
  consider (black) "frame_color f = BLACK" | (recolor) "frame_color f = RED" "isRed (frame_other g)"
    | (rotate) "frame_color f = RED" "\<not> isRed (frame_other g)"
    by (cases "frame_color f") auto
  then show ?case
  proof cases
    case black
    then show ?thesis
      using cells 3(2) focus_plug [of m ?n "f # g # fs"]
      by (subst rb_maintainAfterInsert.simps, cases f) (auto simp: node_defs)
  next
    case recolor
    obtain ua ul uk uv ur where u: "frame_other g = Br ua RED ul uk uv ur"
      using recolor(2) by (cases "frame_other g") auto
    have "focus m (frame_other g) (flip_frame (plug1 ?n f) g # fs)"
      using 3(2) focus_flip [of m "plug1 ?n f" g fs] by (simp add: focus_up [of _ _ f])
    then have ucell: "\<exists>x. rb_heap m ua = Some x \<and> n_color x = RED"
      using u focus_cell by fastforce
    obtain m' where m': "(rb_paint (Some (frame_addr f)) BLACK m \<bind>
      (\<lambda>m1. rb_uncle (rb_heap m1) (Some a) \<bind> (\<lambda>u1. rb_paint u1 BLACK m1 \<bind>
      (\<lambda>m2. rb_grandParent (rb_heap m2) (Some a) \<bind> (\<lambda>g. rb_paint g RED m2 \<bind>
      (\<lambda>m3. rb_maintainAfterInsert m3 g)))))) = rb_maintainAfterInsert m' (Some (frame_addr g))"
      "focus m' (plug1 (plug1 ?n (paint_frame BLACK f)) (paint_frame RED (paint_other BLACK g))) fs"
      "same_counters m m'"
      using insert_recolor_at_focus [OF 3(2)] u by auto
    have "rb_maintainAfterInsert m (Some a) = rb_maintainAfterInsert m' (Some (frame_addr g))"
      unfolding m'(1) [symmetric]
      using cells recolor(1) u ucell uncle_at_focus [OF 3(2)]
      by (subst rb_maintainAfterInsert.simps, cases f) (auto simp: node_defs)
    moreover obtain l' k' v' r' where
      "plug1 (plug1 ?n (paint_frame BLACK f)) (paint_frame RED (paint_other BLACK g)) = Br (frame_addr g) RED l' k' v' r'"
      by (cases g) auto
    ultimately show ?thesis
      using 3(1) [of "frame_addr g" l' k' v' r' m'] recolor m'(2,3)
      by (auto intro: same_counters_trans)
  next
    case rotate
    have foc: "focus m (frame_other g) (flip_frame (plug1 ?n f) g # fs)"
      using 3(2) focus_flip [of m "plug1 ?n f" g fs] by (simp add: focus_up [of _ _ f])
    have "rb_maintainAfterInsert m (Some a) = rb_insert_rotate m (Some a)"
    proof (cases "frame_other g")
      case Lf
      then show ?thesis
        using cells rotate(1) uncle_at_focus [OF 3(2)]
        by (subst rb_maintainAfterInsert.simps, cases f) (auto simp: node_defs)
    next
      case (Br ua uc ul uk uv ur)
      then have "uc = BLACK"
        using rotate(2) by (cases uc) auto
      then have "\<exists>x. rb_heap m ua = Some x \<and> n_color x = BLACK"
        using Br foc focus_cell by fastforce
      then show ?thesis
        using cells rotate(1) Br uncle_at_focus [OF 3(2)]
        by (subst rb_maintainAfterInsert.simps, cases f) (auto simp: node_defs)
    qed
    then show ?thesis
      using insert_rotate_at_focus [OF 3(2)] rotate focus_plug by fastforce
  qed
qed

section \<open>The red-black invariant\<close>

text \<open>
  \<open>rbi t h\<close>: no red node has a red child and every path down from the root has \<open>h\<close> black nodes.
  The root may be red: \<open>maintainAfterInsert\<close> leaves a red root as it is.
\<close>

fun rbi :: "('k, 'v) rbt \<Rightarrow> nat \<Rightarrow> bool" where
  "rbi Lf h = (h = 0)"
| "rbi (Br a RED l k v r) h = (\<not> isRed l \<and> \<not> isRed r \<and> rbi l h \<and> rbi r h)"
| "rbi (Br a BLACK l k v r) h = (0 < h \<and> rbi l (h - 1) \<and> rbi r (h - 1))"

text \<open>What a path needs so that a tree of black height \<open>h\<close> fits into its hole.\<close>

fun path_rbi :: "('k, 'v) path \<Rightarrow> nat \<Rightarrow> bool" where
  "path_rbi [] h = True"
| "path_rbi (f # fs) h =
     (rbi (frame_other f) h \<and>
      (case frame_color f of
         RED \<Rightarrow> \<not> isRed (frame_other f) \<and> (fs = [] \<or> frame_color (hd fs) = BLACK) \<and> path_rbi fs h
       | BLACK \<Rightarrow> path_rbi fs (h + 1)))"

definition fits :: "('k, 'v) rbt \<Rightarrow> ('k, 'v) path \<Rightarrow> bool" where
  "fits t fs = (isRed t \<longrightarrow> fs = [] \<or> frame_color (hd fs) = BLACK)"

lemma rbi_plug1:
  "rbi (plug1 t f) h \<longleftrightarrow> (case frame_color f of
      RED \<Rightarrow> \<not> isRed t \<and> \<not> isRed (frame_other f) \<and> rbi t h \<and> rbi (frame_other f) h
    | BLACK \<Rightarrow> 0 < h \<and> rbi t (h - 1) \<and> rbi (frame_other f) (h - 1))"
  by (cases f) (auto split: color.split)

lemma isRed_plug1 [simp]: "isRed (plug1 t f) \<longleftrightarrow> frame_color f = RED"
  by (cases f) auto

lemma rbi_plug:
  "(\<exists>H. rbi (plug t fs) H) \<longleftrightarrow> (\<exists>h. rbi t h \<and> path_rbi fs h \<and> fits t fs)"
proof (induction fs arbitrary: t)
  case Nil
  then show ?case by (simp add: fits_def)
next
  case (Cons f fs)
  show ?case
  proof (cases "frame_color f")
    case RED
    then show ?thesis
      using Cons [of "plug1 t f"] by (auto simp: rbi_plug1 fits_def)
  next
    case BLACK
    then have "(\<exists>h. rbi (plug1 t f) h \<and> path_rbi fs h \<and> fits (plug1 t f) fs) \<longleftrightarrow>
        (\<exists>h. rbi t h \<and> path_rbi (f # fs) h \<and> fits t (f # fs))"
      by (auto simp: rbi_plug1 fits_def gr0_conv_Suc)
    then show ?thesis
      using Cons [of "plug1 t f"] by simp
  qed
qed

lemma rbi_paint_black: "isRed t \<Longrightarrow> rbi t h \<Longrightarrow> rbi (paint BLACK t) (Suc h)"
  by (cases t) auto

lemma ins_rotate_rbi:
  assumes "isRed n" "rbi n h" "path_rbi (f # g # fs) h" "frame_color f = RED" "\<not> isRed (frame_other g)"
  shows "rbi (ins_rotate n f g) (Suc h)" and "\<not> isRed (ins_rotate n f g)"
  using assms by (cases n; cases f; cases g; auto split: color.splits)+

lemma ins_fix_rbi:
  assumes "isRed n" and "rbi n h" and "path_rbi fs h"
  shows "\<exists>H. rbi (ins_fix n fs) H"
  using assms
proof (induction n fs arbitrary: h rule: ins_fix.induct)
  case (2 n f)
  then have "rbi (plug1 n (paint_frame BLACK f)) (Suc h)"
    by (simp add: rbi_plug1)
  then show ?case by auto
next
  case (3 n f g fs)
  consider (black) "frame_color f = BLACK" | (recolor) "frame_color f = RED" "isRed (frame_other g)"
    | (rotate) "frame_color f = RED" "\<not> isRed (frame_other g)"
    by (cases "frame_color f") auto
  then show ?case
  proof cases
    case black
    then show ?thesis
      using "3.prems" rbi_plug [of n "f # g # fs"] by (auto simp: fits_def)
  next
    case recolor
    then have g: "frame_color g = BLACK" "path_rbi fs (Suc h)" "rbi (frame_other g) h"
      using "3.prems"(3) by auto
    have "frame_other (paint_frame RED (paint_other BLACK g)) = paint BLACK (frame_other g)"
      by (cases g) auto
    moreover have "\<not> isRed (paint BLACK (frame_other g))"
      using recolor(2) by (cases "frame_other g") auto
    ultimately have "rbi (plug1 (plug1 n (paint_frame BLACK f)) (paint_frame RED (paint_other BLACK g))) (Suc h)"
      using "3.prems" g rbi_paint_black [OF recolor(2) g(3)] by (simp add: rbi_plug1)
    then show ?thesis
      using "3.IH" [OF _ recolor(2), of "Suc h"] recolor g(2) by simp
  next
    case rotate
    then have g: "path_rbi fs (Suc h)"
      using "3.prems"(3) by auto
    have "\<exists>H. rbi (plug (ins_rotate n f g) fs) H"
      unfolding rbi_plug using ins_rotate_rbi [OF "3.prems" rotate] g by (auto simp: fits_def)
    then show ?thesis
      using rotate by simp
  qed
qed auto

section \<open>Attaching a node and inserting an entry\<close>

text \<open>A new red leaf in the empty place at the focus.\<close>

lemma attach_at_focus:
  assumes "focus m (plug1 Lf f) fs"
  shows "\<exists>m'. rb_attach (path_direction (f # fs)) m (Some (frame_addr f)) k v = Some (m', Some (rb_fresh m)) \<and>
    focus m' (ins_fix (Br (rb_fresh m) RED Lf k v Lf) (f # fs)) [] \<and> rb_count m' = rb_count m + 1"
proof -
  let ?a = "rb_fresh m"
  let ?new = "\<lparr>n_color = RED, n_key = k, n_value = v, n_parent = Some (frame_addr f), n_left = None, n_right = None\<rparr>"
  have cell: "\<exists>n. rb_heap m (frame_addr f) = Some n"
    using focus_frame_cell [of m Lf f fs] assms by (cases f) (auto simp: focus_up)
  have fresh: "?a \<notin> set (addrs (plug1 Lf f) @ path_addrs fs)" "?a \<noteq> frame_addr f"
    using assms by (cases f; auto simp: focus_def)+
  define h where "h = (rb_heap m)(?a \<mapsto> ?new, frame_addr f \<mapsto>
      (if path_direction (f # fs) = LEFT then set_left (Some ?a) else set_right (Some ?a))
        (the (rb_heap m (frame_addr f))))"
  define m1 where "m1 = m\<lparr>rb_fresh := ?a + 1, rb_heap := h\<rparr>"
  have "focus m1 (plug1 (Br ?a RED Lf k v Lf) f) fs"
    using assms fresh by (cases f) (auto simp: focus_def m1_def h_def node_defs less_Suc_eq)
  then obtain m' where m': "rb_maintainAfterInsert m1 (Some ?a) = Some m'"
      "focus m' (ins_fix (Br ?a RED Lf k v Lf) (f # fs)) []" "same_counters m1 m'"
    using maintainAfterInsert_ins_fix [of m1 ?a Lf k v Lf "f # fs"] by (auto simp: focus_up)
  have "rb_attach (path_direction (f # fs)) m (Some (frame_addr f)) k v =
      Some (m'\<lparr>rb_count := rb_count m' + 1\<rparr>, Some ?a)"
    using cell fresh m'(1) unfolding rb_attach_def rb_from_def m1_def h_def
    by (auto simp: node_defs fun_upd_twist)
  moreover have "focus (m'\<lparr>rb_count := rb_count m' + 1\<rparr>) (ins_fix (Br ?a RED Lf k v Lf) (f # fs)) []"
    using m'(2) by (simp add: focus_def)
  ultimately show ?thesis
    using m'(3) by (auto simp: same_counters_def m1_def)
qed

lemma attach_rbi:
  assumes "\<exists>H. rbi (plug (plug1 Lf f) fs) H"
  shows "\<exists>H. rbi (ins_fix (Br a RED Lf k v Lf) (f # fs)) H"
proof -
  have "\<exists>h. path_rbi (f # fs) 0"
    using assms rbi_plug [of "Lf" "f # fs"] by auto
  then show ?thesis
    using ins_fix_rbi [of "Br a RED Lf k v Lf" 0 "f # fs"] by simp
qed

end
