(* ===== verification/RBTreeLaws.thy ===== *)
theory RBTreeLaws
  imports RBTreeInsert SearchTree
begin

text \<open>
  The operations of \<^verbatim>\<open>RBTreeMap.hpp\<close> that take nothing out of the map, on heaps that hold a
  red-black search tree: insertion, lookup, the neighbour searches along parent pointers and the
  traversal. Together they are the laws of \<open>growing_map\<close>.
\<close>

section \<open>Insertion\<close>

text \<open>The search tree of a red-black tree, to use the lemmas on search trees.\<close>

fun erase :: "('k, 'v) rbt \<Rightarrow> ('k, 'v) node_ptr" where
  "erase Lf = nullptr"
| "erase (Br a c l k v r) = Node (erase l) k v 0 (erase r)"

lemma inorder_erase [simp]: "inorder (erase t) = rb_inorder t"
  by (induction t) auto

lemma bst_erase: "bst cmp (erase t) \<longleftrightarrow> sorted_keys cmp (rb_inorder t)"
  by (simp add: bst_def)

lemma value_at_focus:
  assumes "focus m (Br a c l k v r) fs"
  shows "\<exists>m'. (assign (Some a) (set_val v') (rb_heap m) \<bind> (\<lambda>h. Some (m\<lparr>rb_heap := h\<rparr>))) = Some m' \<and>
    focus m' (Br a c l k v' r) fs \<and> same_counters m m'"
  using assms by (auto simp: focus_def node_defs same_counters_def)

lemma rbi_value: "rbi (Br a c l k v' r) h = rbi (Br a c l k v r) h"
  by (cases c) auto

lemma rbi_plug_value: "(\<exists>H. rbi (plug (Br a c l k v' r) fs) H) = (\<exists>H. rbi (plug (Br a c l k v r) fs) H)"
  unfolding rbi_plug using rbi_value by (fastforce simp: fits_def)

lemma data_plug_member: "e \<in> set (rb_data t) \<Longrightarrow> e \<in> set (rb_data (plug t fs))"
proof (induction fs arbitrary: t)
  case (Cons f fs)
  then have "e \<in> set (rb_data (plug1 t f))"
    by (cases f) auto
  from Cons.IH [OF this] show ?case by simp
qed simp

context compare_order
begin

lemma insert_node_at_focus:
  assumes "focus m t fs" and "t \<noteq> Lf" and "sorted_keys compare (rb_inorder t)"
    and "\<exists>H. rbi (plug t fs) H"
  shows "\<exists>m' t'. rb_insert_node compare m (ptr_of t) k v replace = Some m' \<and> focus m' t' [] \<and>
    (\<exists>H. rbi t' H) \<and>
    rb_inorder t' = path_before fs @ put_entries compare replace k v (rb_inorder t) @ path_after fs \<and>
    rb_count m' = (if has_key k (rb_inorder t) then rb_count m else rb_count m + 1)"
  using assms
proof (induction t arbitrary: fs)
  case (Br a c l x w r)
  have b: "bst compare (Node (erase l) x w 0 (erase r))"
    using Br.prems(3) bst_erase [of compare "Br a c l x w r"] by simp
  note cell = focus_cell [OF Br.prems(1)]
  show ?case
  proof (cases k x rule: compare_cases)
    case less
    note e = entries_left [OF b less, simplified]
    show ?thesis
    proof (cases "l = Lf")
      case True
      let ?f = "FL a c x w r"
      obtain m' where m': "rb_attach LEFT m (Some a) k v = Some (m', Some (rb_fresh m))"
          "focus m' (ins_fix (Br (rb_fresh m) RED Lf k v Lf) (?f # fs)) []" "rb_count m' = rb_count m + 1"
        using attach_at_focus [of m ?f fs k v] Br.prems(1) True by auto
      have "rb_insert_node compare m (Some a) k v replace = Some m'"
        using cell less True m'(1) by (subst rb_insert_node.simps) (auto dest: compare_neq)
      moreover have "\<exists>H. rbi (ins_fix (Br (rb_fresh m) RED Lf k v Lf) (?f # fs)) H"
        using Br.prems(4) True by (intro attach_rbi) simp
      ultimately show ?thesis
        using m'(2,3) e True
        by (auto simp: inorder_ins_fix inorder_plug put_entries_Nil)
    next
      case False
      have "focus m l (FL a c x w r # fs)" "sorted_keys compare (rb_inorder l)"
          "\<exists>H. rbi (plug l (FL a c x w r # fs)) H"
        using Br.prems by (auto simp: focus_up)
      from Br.IH(1) [OF this(1) False this(2,3)] show ?thesis
        using cell less False e by (subst rb_insert_node.simps) (auto dest: compare_neq)
    qed
  next
    case equal
    note e = entries_here [OF b [folded equal], simplified]
    show ?thesis
    proof (cases replace)
      case True
      obtain m' where m': "(assign (Some a) (set_val v) (rb_heap m) \<bind> (\<lambda>h. Some (m\<lparr>rb_heap := h\<rparr>))) = Some m'"
          "focus m' (Br a c l x v r) fs" "same_counters m m'"
        using value_at_focus [OF Br.prems(1), of v] by blast
      have "rb_insert_node compare m (Some a) k v replace = Some m'"
        using cell equal True m'(1) by (subst rb_insert_node.simps) simp
      moreover have "\<exists>H. rbi (plug (Br a c l x v r) fs) H"
        by (subst rbi_plug_value [where v = w]) (rule Br.prems(4))
      ultimately show ?thesis
        using m'(2,3) e equal True focus_plug [of m' "Br a c l x v r" fs]
        by (auto simp: inorder_plug same_counters_def)
    next
      case False
      have "rb_insert_node compare m (Some a) k v replace = Some m"
        using cell equal False by (subst rb_insert_node.simps) simp
      then show ?thesis
        using Br.prems(1,4) e equal False focus_plug [of m "Br a c l x w r" fs]
        by (auto simp: inorder_plug)
    qed
  next
    case greater
    note e = entries_right [OF b greater, simplified]
    show ?thesis
    proof (cases "r = Lf")
      case True
      let ?f = "FR a c x w l"
      obtain m' where m': "rb_attach RIGHT m (Some a) k v = Some (m', Some (rb_fresh m))"
          "focus m' (ins_fix (Br (rb_fresh m) RED Lf k v Lf) (?f # fs)) []" "rb_count m' = rb_count m + 1"
        using attach_at_focus [of m ?f fs k v] Br.prems(1) True by auto
      have "rb_insert_node compare m (Some a) k v replace = Some m'"
        using cell greater True m'(1) by (subst rb_insert_node.simps) (auto simp: compare_asym dest: compare_neq)
      moreover have "\<exists>H. rbi (ins_fix (Br (rb_fresh m) RED Lf k v Lf) (?f # fs)) H"
        using Br.prems(4) True by (intro attach_rbi) simp
      ultimately show ?thesis
        using m'(2,3) e True
        by (auto simp: inorder_ins_fix inorder_plug put_entries_Nil)
    next
      case False
      have "focus m r (FR a c x w l # fs)" "sorted_keys compare (rb_inorder r)"
          "\<exists>H. rbi (plug r (FR a c x w l # fs)) H"
        using Br.prems by (auto simp: focus_up)
      from Br.IH(2) [OF this(1) False this(2,3)] show ?thesis
        using cell greater False e
        by (subst rb_insert_node.simps) (auto simp: compare_asym dest: compare_neq)
    qed
  qed
qed simp

lemma getNodeOrProvide_insert:
  assumes "focus m t fs" and "t \<noteq> Lf" and "sorted_keys compare (rb_inorder t)"
  shows "\<exists>m' a n t'. rb_getNodeOrProvide compare m (ptr_of t) k v = Some (m', Some a) \<and>
    rb_insert_node compare m (ptr_of t) k v False = Some m' \<and> rb_heap m' a = Some n \<and>
    n_value n = (case map_of (rb_inorder t) k of None \<Rightarrow> v | Some w \<Rightarrow> w) \<and>
    focus m' t' [] \<and> (\<exists>w. (a, k, w) \<in> set (rb_data t'))"
  using assms
proof (induction t arbitrary: fs)
  case (Br a c l x w r)
  have b: "bst compare (Node (erase l) x w 0 (erase r))"
    using Br.prems(3) bst_erase [of compare "Br a c l x w r"] by simp
  have mo: "map_of (rb_inorder (Br a c l x w r)) k =
      (if k = x then Some w else if compare k x then map_of (rb_inorder l) k else map_of (rb_inorder r) k)"
    using map_of_inorder_Node [OF b, of k] by simp
  note cell = focus_cell [OF Br.prems(1)]
  have attached: ?case
    if f: "focus m (plug1 Lf f) fs" "frame_addr f = a" "map_of (rb_inorder (Br a c l x w r)) k = None"
      and walk: "rb_getNodeOrProvide compare m (Some a) k v = rb_attach (path_direction (f # fs)) m (Some a) k v"
        "rb_insert_node compare m (Some a) k v False =
          map_option fst (rb_attach (path_direction (f # fs)) m (Some a) k v)"
    for f
  proof -
    let ?t = "ins_fix (Br (rb_fresh m) RED Lf k v Lf) (f # fs)"
    obtain m' where m': "rb_attach (path_direction (f # fs)) m (Some a) k v = Some (m', Some (rb_fresh m))"
        "focus m' ?t []"
      using attach_at_focus [OF f(1), of k v] f(2) by auto
    have d: "(rb_fresh m, k, v) \<in> set (rb_data ?t)"
      unfolding data_ins_fix by (rule data_plug_member) simp
    then have "\<exists>n. rb_heap m' (rb_fresh m) = Some n \<and> n_value n = v"
      using m'(2) cells_data [of "rb_heap m'" None ?t "rb_fresh m" k v] by (auto simp: focus_def)
    then show ?thesis
      using m' d f(3) walk by (auto simp del: rb_inorder.simps map_of_append)
  qed
  show ?case
  proof (cases k x rule: compare_cases)
    case less
    show ?thesis
    proof (cases "l = Lf")
      case True
      then show ?thesis
        using cell less Br.prems(1) mo
        by (intro attached [of "FL a c x w r"];
            (subst rb_getNodeOrProvide.simps rb_insert_node.simps)?)
          (auto simp del: rb_inorder.simps(2) map_of_append dest: compare_neq)
    next
      case False
      have "focus m l (FL a c x w r # fs)" "sorted_keys compare (rb_inorder l)"
        using Br.prems by (auto simp: focus_up)
      from Br.IH(1) [OF this(1) False this(2)] show ?thesis
        using cell less False mo
        by (subst rb_getNodeOrProvide.simps, subst rb_insert_node.simps)
          (auto simp del: rb_inorder.simps(2) map_of_append dest: compare_neq)
    qed
  next
    case equal
    have "focus m (plug (Br a c l x w r) fs) []" "(a, k, w) \<in> set (rb_data (plug (Br a c l x w r) fs))"
      using Br.prems(1) focus_plug equal by (auto intro: data_plug_member)
    then show ?thesis
      using cell equal mo
      by (subst rb_getNodeOrProvide.simps, subst rb_insert_node.simps)
        (auto simp del: rb_inorder.simps(2) map_of_append)
  next
    case greater
    show ?thesis
    proof (cases "r = Lf")
      case True
      then show ?thesis
        using cell greater Br.prems(1) mo
        by (intro attached [of "FR a c x w l"];
            (subst rb_getNodeOrProvide.simps rb_insert_node.simps)?)
          (auto simp: compare_asym simp del: rb_inorder.simps(2) map_of_append dest: compare_neq)
    next
      case False
      have "focus m r (FR a c x w l # fs)" "sorted_keys compare (rb_inorder r)"
        using Br.prems by (auto simp: focus_up)
      from Br.IH(2) [OF this(1) False this(2)] show ?thesis
        using cell greater False mo
        by (subst rb_getNodeOrProvide.simps, subst rb_insert_node.simps)
          (auto simp: compare_asym simp del: rb_inorder.simps(2) map_of_append dest: compare_neq)
    qed
  qed
qed simp

section \<open>Lookup\<close>

lemma getNode_at_focus:
  assumes "cells h par t" and "t \<noteq> Lf" and "sorted_keys compare (rb_inorder t)"
  shows "\<exists>p. rb_getNode compare h (ptr_of t) k = Some p \<and>
    (case map_of (rb_inorder t) k of None \<Rightarrow> p = None
     | Some v \<Rightarrow> p \<noteq> None \<and> (\<exists>n. deref h p = Some n \<and> n_value n = v))"
  using assms
proof (induction t arbitrary: par)
  case (Br a c l x w r)
  have b: "bst compare (Node (erase l) x w 0 (erase r))"
    using Br.prems(3) bst_erase [of compare "Br a c l x w r"] by simp
  have m: "map_of (rb_inorder (Br a c l x w r)) k =
      (if k = x then Some w else if compare k x then map_of (rb_inorder l) k else map_of (rb_inorder r) k)"
    using map_of_inorder_Node [OF b, of k] by simp
  have sub: "cells h (Some a) l" "cells h (Some a) r" "sorted_keys compare (rb_inorder l)"
      "sorted_keys compare (rb_inorder r)"
    using Br.prems by auto
  show ?case
    unfolding m
    using Br.prems(1) Br.IH(1) [OF sub(1) _ sub(3)] Br.IH(2) [OF sub(2) _ sub(4)]
    by (subst rb_getNode.simps, cases "l = Lf"; cases "r = Lf") (auto simp del: rb_inorder.simps(2))
qed simp

section \<open>Neighbour searches\<close>

text \<open>Climbing by the parent pointers finds the entry next to the focus.\<close>

lemma climb_right_at_focus:
  assumes "focus m t fs" and "t \<noteq> Lf"
  shows "rb_climbed_entry msg (rb_heap m) RIGHT (ptr_of t) =
    Some (case path_after fs of [] \<Rightarrow> Inl (NoSuchMappingException msg) | e # _ \<Rightarrow> Inr e)"
  using assms
proof (induction fs arbitrary: t)
  case Nil
  then obtain a c l k v r where t: "t = Br a c l k v r"
    by (cases t) auto
  then show ?case
    using direction_at_focus [OF Nil(1) [unfolded t]] focus_cell [OF Nil(1) [unfolded t]]
    by (simp add: rb_climbed_entry_def rb_climb.simps [of _ _ "Some a"])
next
  case (Cons f fs)
  then obtain a c l k v r where t: "t = Br a c l k v r"
    by (cases t) auto
  note facts = direction_at_focus [OF Cons.prems(1) [unfolded t]] focus_cell [OF Cons.prems(1) [unfolded t]]
    focus_frame_cell [OF Cons.prems(1)]
  show ?case
  proof (cases f)
    case (FL b d x w u)
    then show ?thesis
      using facts t by (simp add: rb_climbed_entry_def rb_climb.simps [of _ _ "Some a"] rb_entry_def)
  next
    case (FR b d x w u)
    have "rb_climbed_entry msg (rb_heap m) RIGHT (Some b) =
        Some (case path_after fs of [] \<Rightarrow> Inl (NoSuchMappingException msg) | e # _ \<Rightarrow> Inr e)"
      using Cons.IH [of "plug1 t f"] Cons.prems(1) FR by (simp add: focus_up)
    then show ?thesis
      using facts t FR by (simp add: rb_climbed_entry_def rb_climb.simps [of _ _ "Some a"])
  qed
qed

lemma climb_left_at_focus:
  assumes "focus m t fs" and "t \<noteq> Lf"
  shows "rb_climbed_entry msg (rb_heap m) LEFT (ptr_of t) =
    Some (case rev (path_before fs) of [] \<Rightarrow> Inl (NoSuchMappingException msg) | e # _ \<Rightarrow> Inr e)"
  using assms
proof (induction fs arbitrary: t)
  case Nil
  then obtain a c l k v r where t: "t = Br a c l k v r"
    by (cases t) auto
  then show ?case
    using direction_at_focus [OF Nil(1) [unfolded t]] focus_cell [OF Nil(1) [unfolded t]]
    by (simp add: rb_climbed_entry_def rb_climb.simps [of _ _ "Some a"])
next
  case (Cons f fs)
  then obtain a c l k v r where t: "t = Br a c l k v r"
    by (cases t) auto
  note facts = direction_at_focus [OF Cons.prems(1) [unfolded t]] focus_cell [OF Cons.prems(1) [unfolded t]]
    focus_frame_cell [OF Cons.prems(1)]
  show ?case
  proof (cases f)
    case (FR b d x w u)
    then show ?thesis
      using facts t by (simp add: rb_climbed_entry_def rb_climb.simps [of _ _ "Some a"] rb_entry_def)
  next
    case (FL b d x w u)
    have "rb_climbed_entry msg (rb_heap m) LEFT (Some b) =
        Some (case rev (path_before fs) of [] \<Rightarrow> Inl (NoSuchMappingException msg) | e # _ \<Rightarrow> Inr e)"
      using Cons.IH [of "plug1 t f"] Cons.prems(1) FL by (simp add: focus_up)
    then show ?thesis
      using facts t FL by (simp add: rb_climbed_entry_def rb_climb.simps [of _ _ "Some a"])
  qed
qed

text \<open>
  The four loops, from the subtree in focus: the entry is found in the subtree, or it is the one
  next to it.
\<close>

lemma ceiling_at_focus:
  assumes "focus m t fs" and "t \<noteq> Lf" and "sorted_keys compare (rb_inorder t)"
  shows "rb_ceiling_loop compare (rb_heap m) k (ptr_of t) =
    Some (case List.find (\<lambda>e. \<not> compare (fst e) k) (rb_inorder t) of Some e \<Rightarrow> Inr e
      | None \<Rightarrow> (case path_after fs of [] \<Rightarrow> Inl (NoSuchMappingException ''No ceiling entry exists in this map'')
                  | e # _ \<Rightarrow> Inr e))"
  using assms
proof (induction t arbitrary: fs)
  case (Br a c l x w r)
  note cell = focus_cell [OF Br.prems(1)]
  have sub: "focus m l (FL a c x w r # fs)" "focus m r (FR a c x w l # fs)"
      "sorted_keys compare (rb_inorder l)" "sorted_keys compare (rb_inorder r)"
    using Br.prems by (auto simp: focus_up)
  show ?case
  proof (cases k x rule: compare_cases)
    case less
    then show ?thesis
      using cell Br.IH(1) [OF sub(1) _ sub(3)]
      by (subst rb_ceiling_loop.simps, cases "l = Lf")
        (auto simp: find_append rb_entry_def compare_asym dest: compare_neq split: option.split)
  next
    case equal
    then have "List.find (\<lambda>e. \<not> compare (fst e) k) (rb_inorder l) = None"
      using Br.prems(3) find_none_below [of "rb_inorder l" x k] by (simp add: compare_irrefl)
    with equal show ?thesis
      using cell by (subst rb_ceiling_loop.simps) (simp add: find_append rb_entry_def compare_irrefl)
  next
    case greater
    then have "List.find (\<lambda>e. \<not> compare (fst e) k) (rb_inorder l) = None"
      using Br.prems(3) find_none_below [of "rb_inorder l" x k] by (simp add: compare_asym)
    with greater show ?thesis
      using cell Br.IH(2) [OF sub(2) _ sub(4)] climb_right_at_focus [OF Br.prems(1)]
      by (subst rb_ceiling_loop.simps, cases "r = Lf")
        (auto simp: find_append compare_asym dest: compare_neq split: option.split)
  qed
qed simp

lemma higher_at_focus:
  assumes "focus m t fs" and "t \<noteq> Lf" and "sorted_keys compare (rb_inorder t)"
  shows "rb_higher_loop compare (rb_heap m) k (ptr_of t) =
    Some (case List.find (\<lambda>e. compare k (fst e)) (rb_inorder t) of Some e \<Rightarrow> Inr e
      | None \<Rightarrow> (case path_after fs of [] \<Rightarrow> Inl (NoSuchMappingException ''No higher entry exists in this map'')
                  | e # _ \<Rightarrow> Inr e))"
  using assms
proof (induction t arbitrary: fs)
  case (Br a c l x w r)
  note cell = focus_cell [OF Br.prems(1)]
  have sub: "focus m l (FL a c x w r # fs)" "focus m r (FR a c x w l # fs)"
      "sorted_keys compare (rb_inorder l)" "sorted_keys compare (rb_inorder r)"
    using Br.prems by (auto simp: focus_up)
  show ?case
  proof (cases "compare k x")
    case True
    then show ?thesis
      using cell Br.IH(1) [OF sub(1) _ sub(3)]
      by (subst rb_higher_loop.simps, cases "l = Lf")
        (auto simp: find_append rb_entry_def split: option.split)
  next
    case False
    then have "List.find (\<lambda>e. compare k (fst e)) (rb_inorder l) = None"
      using Br.prems(3) find_none_below [of "rb_inorder l" x k] by simp
    with False show ?thesis
      using cell Br.IH(2) [OF sub(2) _ sub(4)] climb_right_at_focus [OF Br.prems(1)]
      by (subst rb_higher_loop.simps, cases "r = Lf") (auto simp: find_append split: option.split)
  qed
qed simp

lemma floor_at_focus:
  assumes "focus m t fs" and "t \<noteq> Lf" and "sorted_keys compare (rb_inorder t)"
  shows "rb_floor_loop compare (rb_heap m) k (ptr_of t) =
    Some (case List.find (\<lambda>e. \<not> compare k (fst e)) (rev (rb_inorder t)) of Some e \<Rightarrow> Inr e
      | None \<Rightarrow> (case rev (path_before fs) of [] \<Rightarrow> Inl (NoSuchMappingException ''No floor entry exists in this map'')
                  | e # _ \<Rightarrow> Inr e))"
  using assms
proof (induction t arbitrary: fs)
  case (Br a c l x w r)
  note cell = focus_cell [OF Br.prems(1)]
  have sub: "focus m l (FL a c x w r # fs)" "focus m r (FR a c x w l # fs)"
      "sorted_keys compare (rb_inorder l)" "sorted_keys compare (rb_inorder r)"
    using Br.prems by (auto simp: focus_up)
  show ?case
  proof (cases k x rule: compare_cases)
    case less
    then have "List.find (\<lambda>e. \<not> compare k (fst e)) (rev (rb_inorder r)) = None"
      using Br.prems(3) find_none_above [of "rb_inorder r" x k] by (simp add: compare_asym)
    with less show ?thesis
      using cell Br.IH(1) [OF sub(1) _ sub(3)] climb_left_at_focus [OF Br.prems(1)]
      by (subst rb_floor_loop.simps, cases "l = Lf")
        (auto simp: find_append compare_asym dest: compare_neq split: option.split)
  next
    case equal
    then have "List.find (\<lambda>e. \<not> compare k (fst e)) (rev (rb_inorder r)) = None"
      using Br.prems(3) find_none_above [of "rb_inorder r" x k] by (simp add: compare_irrefl)
    with equal show ?thesis
      using cell by (subst rb_floor_loop.simps) (simp add: find_append rb_entry_def compare_irrefl)
  next
    case greater
    then show ?thesis
      using cell Br.IH(2) [OF sub(2) _ sub(4)]
      by (subst rb_floor_loop.simps, cases "r = Lf")
        (auto simp: find_append rb_entry_def compare_asym dest: compare_neq split: option.split)
  qed
qed simp

lemma lower_at_focus:
  assumes "focus m t fs" and "t \<noteq> Lf" and "sorted_keys compare (rb_inorder t)"
  shows "rb_lower_loop compare (rb_heap m) k (ptr_of t) =
    Some (case List.find (\<lambda>e. compare (fst e) k) (rev (rb_inorder t)) of Some e \<Rightarrow> Inr e
      | None \<Rightarrow> (case rev (path_before fs) of [] \<Rightarrow> Inl (NoSuchMappingException ''No lower entry exists in this map'')
                  | e # _ \<Rightarrow> Inr e))"
  using assms
proof (induction t arbitrary: fs)
  case (Br a c l x w r)
  note cell = focus_cell [OF Br.prems(1)]
  have sub: "focus m l (FL a c x w r # fs)" "focus m r (FR a c x w l # fs)"
      "sorted_keys compare (rb_inorder l)" "sorted_keys compare (rb_inorder r)"
    using Br.prems by (auto simp: focus_up)
  show ?case
  proof (cases "compare x k")
    case True
    then have "\<not> (compare k x \<or> k = x)"
      using compare_asym compare_neq by blast
    with True show ?thesis
      using cell Br.IH(2) [OF sub(2) _ sub(4)]
      by (subst rb_lower_loop.simps, cases "r = Lf")
        (auto simp: find_append rb_entry_def split: option.split)
  next
    case False
    then have eq: "compare k x \<or> k = x"
      using compare_total by blast
    have "List.find (\<lambda>e. compare (fst e) k) (rev (rb_inorder r)) = None"
      using Br.prems(3) find_none_above [of "rb_inorder r" x k] False by simp
    with eq False show ?thesis
      using cell Br.IH(1) [OF sub(1) _ sub(3)] climb_left_at_focus [OF Br.prems(1)]
      by (subst rb_lower_loop.simps, cases "l = Lf") (auto simp: find_append split: option.split)
  qed
qed simp

end

section \<open>Traversal\<close>

lemma traverse_push:
  assumes "h a = Some n"
  shows "rb_traverse_loop action h (Some a) stack s = rb_traverse_loop action h (n_left n) (Some a # stack) s"
proof -
  have "rb_push_left h (Some a) stack = rb_push_left h (n_left n) (Some a # stack)"
    using assms by (subst rb_push_left.simps) simp
  then show ?thesis
    by (simp add: rb_traverse_loop.simps [of action h "Some a"] rb_traverse_loop.simps [of action h "n_left n"])
qed

lemma traverse_pop:
  "rb_traverse_loop action h None (p # stack) s =
    action p h s \<bind> (\<lambda>(h1, s1). deref h1 p \<bind> (\<lambda>n. rb_traverse_loop action h1 (n_right n) stack s1))"
  by (subst rb_traverse_loop.simps, subst rb_push_left.simps) simp

lemma traverse_end: "rb_traverse_loop action h None [] s = Some (h, s)"
  by (subst rb_traverse_loop.simps, subst rb_push_left.simps) simp

lemma traverse_pop_reading:
  "h a = Some n \<Longrightarrow> rb_traverse_loop (reading f) h None (Some a # stack) s =
    rb_traverse_loop (reading f) h (n_right n) stack (f (n_key n) (n_value n) s)"
  by (simp add: traverse_pop reading_def [of f "Some a" h])

lemma traverse_reading:
  assumes "cells h par t"
  shows "rb_traverse_loop (reading f) h (ptr_of t) stack s =
    rb_traverse_loop (reading f) h None stack (fold (\<lambda>(k, v). f k v) (rb_inorder t) s)"
  using assms
proof (induction t arbitrary: par stack s)
  case (Br a c l k v r)
  have sub: "cells h (Some a) l" "cells h (Some a) r"
    using Br.prems by auto
  show ?case
    using Br.prems by (simp add: traverse_push Br.IH(1) [OF sub(1)] traverse_pop_reading Br.IH(2) [OF sub(2)])
qed simp

lemma forEach_at_focus:
  assumes "focus m t []"
  shows "rb_forEach f m s = Some (fold (\<lambda>(k, v). f k v) (rb_inorder t) s)"
proof -
  have "cells (rb_heap m) None t" "rb_root m = ptr_of t"
    using assms by (auto simp: focus_def)
  then show ?thesis
    by (auto simp: rb_forEach_def rb_inorderTraversal_def traverse_reading traverse_end)
qed

lemma toEntryList_at_focus: "focus m t [] \<Longrightarrow> rb_toEntryList m = Some (rb_inorder t)"
  using fold_snoc [of "\<lambda>x. x" "rb_inorder t" "[]"]
  by (simp add: rb_toEntryList_def forEach_at_focus split_def)

text \<open>\<open>forEachMut\<close> on a tree.\<close>

fun thread_tree ::
  "('k \<Rightarrow> 'v \<Rightarrow> 's \<Rightarrow> 'v \<times> 's) \<Rightarrow> ('k, 'v) rbt \<Rightarrow> 's \<Rightarrow> ('k, 'v) rbt \<times> 's" where
  "thread_tree action Lf s = (Lf, s)"
| "thread_tree action (Br a c l k v r) s =
     (let (l', s1) = thread_tree action l s; (v', s2) = action k v s1; (r', s3) = thread_tree action r s2
      in (Br a c l' k v' r', s3))"

lemma thread_values_append:
  "thread_values action (es @ fs) s =
    (let (es', s1) = thread_values action es s; (fs', s2) = thread_values action fs s1 in (es' @ fs', s2))"
  by (induction es arbitrary: s) (auto split: prod.splits)

lemma thread_tree_inorder:
  "thread_values action (rb_inorder t) s =
    (rb_inorder (fst (thread_tree action t s)), snd (thread_tree action t s))"
  by (induction t arbitrary: s) (auto simp: thread_values_append split_def Let_def)

lemma thread_tree_shape [simp]:
  "addrs (fst (thread_tree action t s)) = addrs t"
  "ptr_of (fst (thread_tree action t s)) = ptr_of t"
  by (induction t arbitrary: s) (auto simp: split_def Let_def)

definition mutating :: "('k \<Rightarrow> 'v \<Rightarrow> 's \<Rightarrow> 'v \<times> 's) \<Rightarrow> ('k, 'v, 's) visitor" where
  "mutating action = (\<lambda>p h s. do {
      n \<leftarrow> deref h p;
      let (v, s') = action (n_key n) (n_value n) s;
      h' \<leftarrow> assign p (set_val v) h;
      Some (h', s')
    })"

lemma traverse_mutating:
  assumes "cells h par t" and "distinct (addrs t)"
  shows "\<exists>h'. rb_traverse_loop (mutating action) h (ptr_of t) stack s =
      rb_traverse_loop (mutating action) h' None stack (snd (thread_tree action t s)) \<and>
    cells h' par (fst (thread_tree action t s)) \<and> (\<forall>a. a \<notin> set (addrs t) \<longrightarrow> h' a = h a)"
  using assms
proof (induction t arbitrary: h par stack s)
  case (Br a c l k v r)
  obtain l' s1 where l': "thread_tree action l s = (l', s1)" by force
  obtain v' s2 where v': "action k v s1 = (v', s2)" by force
  obtain r' s3 where r': "thread_tree action r s2 = (r', s3)" by force
  have shapes: "ptr_of l' = ptr_of l" "ptr_of r' = ptr_of r" "addrs l' = addrs l" "addrs r' = addrs r"
    using thread_tree_shape [of action l s] thread_tree_shape [of action r s2] l' r' by simp_all
  obtain h1 where h1: "rb_traverse_loop (mutating action) h (ptr_of l) (Some a # stack) s =
        rb_traverse_loop (mutating action) h1 None (Some a # stack) s1"
      "cells h1 (Some a) l'" "\<forall>b. b \<notin> set (addrs l) \<longrightarrow> h1 b = h b"
    using Br.IH(1) [of h "Some a" "Some a # stack" s] Br.prems l' by auto
  let ?n = "\<lparr>n_color = c, n_key = k, n_value = v, n_parent = par, n_left = ptr_of l, n_right = ptr_of r\<rparr>"
  define h2 where "h2 = h1(a \<mapsto> ?n\<lparr>n_value := v'\<rparr>)"
  have a: "h1 a = Some ?n" "a \<notin> set (addrs l)" "a \<notin> set (addrs r)"
    using h1(3) Br.prems by auto
  have r2: "cells h2 (Some a) r"
  proof -
    have "cells h1 (Some a) r"
      using Br.prems h1(3) cells_cong [of r h1 h] by auto
    then show ?thesis
      using a by (simp add: h2_def)
  qed
  obtain h3 where h3: "rb_traverse_loop (mutating action) h2 (ptr_of r) stack s2 =
        rb_traverse_loop (mutating action) h3 None stack s3"
      "cells h3 (Some a) r'" "\<forall>b. b \<notin> set (addrs r) \<longrightarrow> h3 b = h2 b"
    using Br.IH(2) [OF r2, of stack s2] Br.prems r' by auto
  have "h3 b = h1 b" if "b \<in> set (addrs l')" for b
  proof -
    have "b \<notin> set (addrs r)" "b \<noteq> a"
      using that shapes Br.prems(2) by auto
    then show ?thesis
      using h3(3) by (simp add: h2_def)
  qed
  then have "cells h3 (Some a) l'"
    using h1(2) cells_cong [of l' h3 h1] by blast
  moreover have "h3 a = Some (?n\<lparr>n_value := v'\<rparr>)"
    using h3(3) a by (simp add: h2_def)
  moreover have "rb_traverse_loop (mutating action) h (Some a) stack s =
      rb_traverse_loop (mutating action) h3 None stack s3"
    using Br.prems h1(1) h3(1) a v'
    by (simp add: traverse_push traverse_pop mutating_def node_defs h2_def)
  ultimately show ?case
    using h1(3) h3(2,3) l' v' r' shapes by (auto simp: h2_def)
qed auto

lemma forEachMut_at_focus:
  assumes "focus m t []"
  shows "\<exists>m'. rb_forEachMut action m s = Some (m', snd (thread_values action (rb_inorder t) s)) \<and>
    focus m' (fst (thread_tree action t s)) [] \<and> same_counters m m'"
proof (cases "t = Lf")
  case True
  with assms show ?thesis
    by (auto simp: rb_forEachMut_def rb_inorderTraversal_def focus_def)
next
  case False
  have f: "cells (rb_heap m) None t" "distinct (addrs t)" "rb_root m = ptr_of t"
      "\<forall>a \<in> set (addrs t). a < rb_fresh m"
    using assms by (auto simp: focus_def)
  obtain h where h: "rb_traverse_loop (mutating action) (rb_heap m) (ptr_of t) [] s =
      Some (h, snd (thread_tree action t s))" "cells h None (fst (thread_tree action t s))"
    using traverse_mutating [OF f(1,2), of action "[]" s] by (auto simp: traverse_end)
  have "rb_forEachMut action m s = rb_inorderTraversal (mutating action) m s"
    by (simp add: rb_forEachMut_def mutating_def)
  then have "rb_forEachMut action m s = Some (m\<lparr>rb_heap := h\<rparr>, snd (thread_tree action t s))"
    using h(1) f(3) False by (simp add: rb_inorderTraversal_def)
  then show ?thesis
    using h(2) f by (simp add: focus_def same_counters_def thread_tree_inorder)
qed

lemma rbi_thread_tree: "rbi (fst (thread_tree action t s)) h = rbi t h"
proof (induction t arbitrary: s h)
  case (Br a c l k v r)
  have "isRed (fst (thread_tree action t s)) = isRed t" for t s
    by (cases t) (auto simp: split_def Let_def)
  with Br show ?case
    by (cases c) (auto simp: split_def Let_def)
qed simp

section \<open>Releasing all nodes\<close>

lemma release_cells:
  assumes "cells h par t" and "distinct (addrs t)" and "t \<noteq> Lf"
  shows "\<exists>h'. rb_release (ptr_of t) h = Some h' \<and> (\<forall>a. a \<notin> set (addrs t) \<longrightarrow> h' a = h a)"
  using assms
proof (induction t arbitrary: h par)
  case (Br a c l k v r)
  let ?n = "\<lparr>n_color = c, n_key = k, n_value = v, n_parent = None, n_left = ptr_of l, n_right = ptr_of r\<rparr>"
  define h1 where "h1 = h(a \<mapsto> ?n)"
  have a: "assign (Some a) (set_parent None) h = Some h1" "a \<notin> set (addrs l)" "a \<notin> set (addrs r)"
    using Br.prems by (auto simp: node_defs h1_def)
  have sub: "cells h1 (Some a) l" "cells h1 (Some a) r"
    using Br.prems a by (auto simp: h1_def)
  have "\<exists>h2. (if ptr_of l \<noteq> None then rb_release (ptr_of l) h1 else Some h1) = Some h2 \<and>
      (\<forall>b. b \<notin> set (addrs l) \<longrightarrow> h2 b = h1 b)"
    using Br.IH(1) [OF sub(1)] Br.prems(2) by (cases "l = Lf") auto
  then obtain h2 where h2: "(if ptr_of l \<noteq> None then rb_release (ptr_of l) h1 else Some h1) = Some h2"
      "\<forall>b. b \<notin> set (addrs l) \<longrightarrow> h2 b = h1 b"
    by blast
  have "cells h2 (Some a) r"
    using cells_cong [of r h2 h1] sub(2) h2(2) Br.prems(2) by auto
  then have "\<exists>h3. (if ptr_of r \<noteq> None then rb_release (ptr_of r) h2 else Some h2) = Some h3 \<and>
      (\<forall>b. b \<notin> set (addrs r) \<longrightarrow> h3 b = h2 b)"
    using Br.IH(2) Br.prems(2) by (cases "r = Lf") auto
  moreover have "h1 a = Some ?n" "h2 a = Some ?n"
    using h2(2) a by (auto simp: h1_def)
  ultimately show ?case
    using a(1) h2 by (subst rb_release.simps) (auto simp: h1_def)
qed simp

lemma clear_at_focus:
  assumes "focus m t []"
  shows "\<exists>m'. rb_clear m = Some m' \<and> focus m' Lf [] \<and> rb_count m' = 0"
  using release_cells [of "rb_heap m" None t] assms
  by (cases "t = Lf") (auto simp: rb_clear_def focus_def)

section \<open>Assigning through a pointer\<close>

lemma cells_unique:
  "cells h par t \<Longrightarrow> cells h par u \<Longrightarrow> ptr_of t = ptr_of u \<Longrightarrow> t = u"
proof (induction t arbitrary: par u)
  case Lf
  then show ?case by (metis ptr_of_eq_None)
next
  case (Br a c l k v r)
  then show ?case by (cases u) auto
qed

lemma focus_unique: "focus m t [] \<Longrightarrow> focus m u [] \<Longrightarrow> t = u"
  by (rule cells_unique [of "rb_heap m" None]) (auto simp: focus_def)

fun set_at :: "addr \<Rightarrow> 'v \<Rightarrow> ('k, 'v) rbt \<Rightarrow> ('k, 'v) rbt" where
  "set_at a v Lf = Lf"
| "set_at a v (Br b c l k w r) = Br b c (set_at a v l) k (if a = b then v else w) (set_at a v r)"

lemma set_at_shape [simp]:
  "addrs (set_at a v t) = addrs t" "ptr_of (set_at a v t) = ptr_of t"
  by (induction t) auto

lemma rbi_set_at [simp]: "rbi (set_at a v t) h = rbi t h"
proof (induction t arbitrary: h)
  case (Br b c l k w r)
  have "isRed (set_at a v u) = isRed u" for u
    by (cases u) auto
  with Br show ?case
    by (cases c) auto
qed simp

lemma cells_set_at:
  "cells h par t \<Longrightarrow> h a = Some n \<Longrightarrow> cells (h(a \<mapsto> n\<lparr>n_value := v\<rparr>)) par (set_at a v t)"
  by (induction t arbitrary: par) auto

lemma inorder_set_at: "rb_inorder (set_at a v t) = map (\<lambda>(b, k, w). (k, if a = b then v else w)) (rb_data t)"
  by (induction t) auto

lemma distinct_images_eq:
  "distinct (map f xs) \<Longrightarrow> x \<in> set xs \<Longrightarrow> y \<in> set xs \<Longrightarrow> f x = f y \<Longrightarrow> x = y"
  by (metis distinct_map inj_onD)

lemma set_addrs: "set (addrs t) = fst ` set (rb_data t)"
  by (induction t) auto

lemma distinct_addrs_data: "distinct (addrs t) \<longleftrightarrow> distinct (map fst (rb_data t))"
  by (induction t) (auto simp: set_addrs)

lemma set_at_assigns:
  assumes "(a, k, w) \<in> set (rb_data t)" and "distinct (addrs t)" and "distinct (map fst (rb_inorder t))"
  shows "rb_inorder (set_at a v t) = assign_entries k v (rb_inorder t)"
proof -
  have "b = a \<longleftrightarrow> x = k" if "(b, x, y) \<in> set (rb_data t)" for b x y
    using distinct_images_eq [of fst "rb_data t" "(a, k, w)" "(b, x, y)"]
      distinct_images_eq [of "fst \<circ> snd" "rb_data t" "(a, k, w)" "(b, x, y)"] assms that
    by (auto simp: distinct_addrs_data inorder_data)
  then have "\<forall>(b, x, y) \<in> set (rb_data t). b = a \<longleftrightarrow> x = k"
    by blast
  then show ?thesis
    by (auto simp: inorder_set_at [of a v t] assign_entries_def inorder_data [of t])
qed

lemma assign_at_focus:
  assumes "focus m t []" and "(a, k, w) \<in> set (rb_data t)" and "distinct (map fst (rb_inorder t))"
  shows "\<exists>m'. (assign (Some a) (set_val v) (rb_heap m) \<bind> (\<lambda>h. Some (m\<lparr>rb_heap := h\<rparr>))) = Some m' \<and>
    focus m' (set_at a v t) [] \<and> rb_inorder (set_at a v t) = assign_entries k v (rb_inorder t) \<and>
    rb_count m' = rb_count m"
proof -
  have f: "cells (rb_heap m) None t" "distinct (addrs t)" "rb_root m = ptr_of t" "\<forall>b \<in> set (addrs t). b < rb_fresh m"
    using assms(1) by (auto simp: focus_def)
  obtain n where n: "rb_heap m a = Some n"
    using cells_data [OF f(1) assms(2)] by auto
  have "focus (m\<lparr>rb_heap := (rb_heap m)(a \<mapsto> n\<lparr>n_value := v\<rparr>)\<rparr>) (set_at a v t) []"
    using f cells_set_at [OF f(1) n, of v] by (simp add: focus_def)
  then show ?thesis
    using n set_at_assigns [OF assms(2) f(2) assms(3)] by (simp add: node_defs)
qed

section \<open>The laws of the class\<close>

definition rb_wf :: "'k compare \<Rightarrow> ('k, 'v) rb_map \<Rightarrow> bool" where
  "rb_wf cmp m = (\<exists>t h. focus m t [] \<and> sorted_keys cmp (rb_inorder t) \<and>
     rb_count m = length (rb_inorder t) \<and> rbi t h)"

definition rb_entries :: "('k, 'v) rb_map \<Rightarrow> ('k \<times> 'v) list" where
  "rb_entries m = the (rb_toEntryList m)"

lemma rb_entries_tree: "focus m t [] \<Longrightarrow> rb_entries m = rb_inorder t"
  by (simp add: rb_entries_def toEntryList_at_focus)

lemma rb_wfI:
  assumes "focus m t []" and "sorted_keys cmp (rb_inorder t)" and "rb_count m = length (rb_inorder t)"
    and "\<exists>H. rbi t H"
  shows "rb_wf cmp m"
  using assms by (auto simp: rb_wf_def)

lemma rb_wfE:
  assumes "rb_wf cmp m"
  obtains t where "focus m t []" and "sorted_keys cmp (rb_inorder t)"
    and "rb_count m = length (rb_inorder t)" and "\<exists>H. rbi t H" and "rb_entries m = rb_inorder t"
    and "rb_root m = ptr_of t" and "cells (rb_heap m) None t"
  using assms by (auto simp: rb_wf_def rb_entries_tree focus_def)

lemma rb_first_wf:
  assumes "rb_root m = None"
  shows "\<exists>m'. rb_first m k v = Some m' \<and> focus m' (Br (rb_fresh m) BLACK Lf k v Lf) [] \<and>
    rb_count m' = rb_count m + 1"
  using assms by (auto simp: rb_first_def rb_from_def rb_paint_def focus_def node_defs)

definition rb_message :: "('k, 'v) message" where
  "rb_message es = (if es = [] then ''No ceiling entry in this map'' else ''No ceiling entry exists in this map'')"

context compare_order
begin

text \<open>\<open>insert\<close> and \<open>insertIfAbsent\<close> share their body.\<close>

lemma rb_put:
  assumes "rb_wf compare m"
  shows "\<exists>m'. (if rb_root m = None then rb_first m k v
      else rb_insert_node compare m (rb_root m) k v replace) = Some m' \<and> rb_wf compare m' \<and>
    rb_entries m' = put_entries compare replace k v (rb_entries m) \<and>
    rb_count m' = (if has_key k (rb_entries m) then rb_count m else rb_count m + 1)"
proof -
  obtain t where t: "focus m t []" "sorted_keys compare (rb_inorder t)" "rb_count m = length (rb_inorder t)"
      "\<exists>H. rbi t H" "rb_entries m = rb_inorder t" "rb_root m = ptr_of t"
    using assms by (rule rb_wfE)
  show ?thesis
  proof (cases "t = Lf")
    case True
    obtain m' where m': "rb_first m k v = Some m'" "focus m' (Br (rb_fresh m) BLACK Lf k v Lf) []"
        "rb_count m' = rb_count m + 1"
      using rb_first_wf [of m k v] t(6) True by auto
    have "\<exists>H. rbi (Br (rb_fresh m) BLACK Lf k v Lf) H"
      by (rule exI [of _ 1]) simp
    then have "rb_wf compare m'" "rb_entries m' = [(k, v)]"
      using rb_wfI [OF m'(2)] rb_entries_tree [OF m'(2)] m'(3) t(3) True by auto
    then show ?thesis
      using m' t True by (simp add: put_entries_Nil)
  next
    case False
    obtain m' t' where m': "rb_insert_node compare m (ptr_of t) k v replace = Some m'" "focus m' t' []"
        "\<exists>H. rbi t' H" "rb_inorder t' = put_entries compare replace k v (rb_inorder t)"
        "rb_count m' = (if has_key k (rb_inorder t) then rb_count m else rb_count m + 1)"
      using insert_node_at_focus [OF t(1) False t(2), of k v replace] t(4) by auto
    have "length (put_entries compare replace k v (rb_inorder t)) = rb_count m'"
      using m'(5) t(3) length_upd_entries [OF t(2), of k v] by (simp add: put_entries_def add_entries_def)
    then have "rb_wf compare m'" "rb_entries m' = rb_inorder t'"
      using rb_wfI [OF m'(2) _ _ m'(3), of compare] rb_entries_tree [OF m'(2)]
        sorted_put_entries [OF t(2), of replace k v] m'(4) by simp_all
    then show ?thesis
      using m' t False by simp
  qed
qed

lemma rb_insert_wf:
  assumes "rb_wf compare m"
  shows "\<exists>m'. rb_insert compare m k v = Some m' \<and> rb_wf compare m' \<and>
    rb_entries m' = upd_entries compare k v (rb_entries m)"
  using rb_put [OF assms, of k v True] by (auto simp: rb_insert_def put_entries_def)

lemma rb_insertIfAbsent_wf:
  assumes "rb_wf compare m"
  shows "\<exists>m'. rb_insertIfAbsent compare m k v = Some (m', \<not> has_key k (rb_entries m)) \<and>
    rb_wf compare m' \<and> rb_entries m' = add_entries compare k v (rb_entries m)"
proof -
  obtain m' where m': "(if rb_root m = None then rb_first m k v
      else rb_insert_node compare m (rb_root m) k v False) = Some m'" "rb_wf compare m'"
    "rb_entries m' = put_entries compare False k v (rb_entries m)"
    "rb_count m' = (if has_key k (rb_entries m) then rb_count m else rb_count m + 1)"
    using rb_put [OF assms, of k v False] by blast
  then show ?thesis
    unfolding rb_insertIfAbsent_def m'(1) by (simp add: rb_size_def put_entries_def)
qed

lemma rb_getOrInsert_eq:
  assumes "rb_wf compare m"
  shows "rb_getOrInsert compare m k v =
    map_option (\<lambda>(m', _). (m', case map_of (rb_entries m) k of None \<Rightarrow> v | Some w \<Rightarrow> w))
      (rb_insertIfAbsent compare m k v)"
proof -
  obtain t where t: "focus m t []" "sorted_keys compare (rb_inorder t)" "rb_entries m = rb_inorder t"
      "rb_root m = ptr_of t"
    using assms by (rule rb_wfE)
  show ?thesis
  proof (cases "t = Lf")
    case True
    then show ?thesis
      using t rb_first_wf [of m k v] by (auto simp: rb_getOrInsert_def rb_insertIfAbsent_def)
  next
    case False
    then show ?thesis
      using t getNodeOrProvide_insert [OF t(1) False t(2), of k v]
      by (auto simp: rb_getOrInsert_def rb_insertIfAbsent_def)
  qed
qed

lemma rb_getOrDefault_eq: "rb_getOrDefault compare dflt m k = rb_getOrInsert compare m k dflt"
  by (simp add: rb_getOrDefault_def rb_getOrInsert_def)

text \<open>The node \<open>operator[]\<close> returns a reference into holds the key.\<close>

lemma rb_index_node:
  assumes "rb_wf compare m"
  shows "\<exists>m' a t w. (if rb_root m = None then do { m' \<leftarrow> rb_first m k dflt; Some (m', rb_root m') }
      else rb_getNodeOrProvide compare m (rb_root m) k dflt) = Some (m', Some a) \<and>
    (\<exists>b. rb_insertIfAbsent compare m k dflt = Some (m', b)) \<and> focus m' t [] \<and> (a, k, w) \<in> set (rb_data t)"
proof -
  obtain t where t: "focus m t []" "sorted_keys compare (rb_inorder t)" "rb_root m = ptr_of t"
    using assms by (rule rb_wfE)
  show ?thesis
  proof (cases "t = Lf")
    case True
    obtain m' where m': "rb_first m k dflt = Some m'" "focus m' (Br (rb_fresh m) BLACK Lf k dflt Lf) []"
      using rb_first_wf [of m k dflt] t(3) True by auto
    then have "rb_root m' = Some (rb_fresh m)"
      by (simp add: focus_def)
    then show ?thesis
      using m' t(3) True by (fastforce simp: rb_insertIfAbsent_def)
  next
    case False
    then show ?thesis
      using t getNodeOrProvide_insert [OF t(1) False t(2), of k dflt]
      by (fastforce simp: rb_insertIfAbsent_def)
  qed
qed

lemma rb_index_assign_wf:
  assumes "rb_wf compare m"
  shows "\<exists>m'. rb_index_assign compare dflt m k v = Some m' \<and> rb_wf compare m' \<and>
    rb_entries m' = upd_entries compare k v (rb_entries m)"
proof -
  obtain m1 a t w b where m1: "(if rb_root m = None then do { m' \<leftarrow> rb_first m k dflt; Some (m', rb_root m') }
        else rb_getNodeOrProvide compare m (rb_root m) k dflt) = Some (m1, Some a)"
      "rb_insertIfAbsent compare m k dflt = Some (m1, b)" "focus m1 t []" "(a, k, w) \<in> set (rb_data t)"
    using rb_index_node [OF assms] by blast
  have wf1: "rb_wf compare m1" "rb_entries m1 = add_entries compare k dflt (rb_entries m)"
    using rb_insertIfAbsent_wf [OF assms, of k dflt] m1(2) by auto
  obtain u where u: "focus m1 u []" "sorted_keys compare (rb_inorder u)" "rb_count m1 = length (rb_inorder u)"
      "\<exists>H. rbi u H" "rb_entries m1 = rb_inorder u"
    using wf1(1) by (rule rb_wfE)
  have t: "u = t"
    by (rule focus_unique [OF u(1) m1(3)])
  have "distinct (map fst (rb_inorder t))"
    using u(2) t sorted_keys_distinct by blast
  from assign_at_focus [OF m1(3,4) this, of v] obtain m' where
    m': "(assign (Some a) (set_val v) (rb_heap m1) \<bind> (\<lambda>h. Some (m1\<lparr>rb_heap := h\<rparr>))) = Some m'"
      "focus m' (set_at a v t) []" "rb_inorder (set_at a v t) = assign_entries k v (rb_inorder t)"
      "rb_count m' = rb_count m1"
    by blast
  have "sorted_keys compare (rb_entries m)"
    using assms by (rule rb_wfE) simp
  from assign_after_add [OF this] have e: "rb_inorder (set_at a v t) = upd_entries compare k v (rb_entries m)"
    using m'(3) u(5) wf1(2) t by metis
  have "rb_wf compare m'"
  proof (rule rb_wfI [OF m'(2)])
    show "sorted_keys compare (rb_inorder (set_at a v t))"
      using u(2) m'(3) t by (simp add: sorted_keys_def fst_assign_entries)
    show "rb_count m' = length (rb_inorder (set_at a v t))"
      using u(3) m'(3,4) t by (simp add: assign_entries_def)
    show "\<exists>H. rbi (set_at a v t) H"
      using u(4) t by simp
  qed
  then show ?thesis
    using m'(1) e rb_entries_tree [OF m'(2)] unfolding rb_index_assign_def m1(1) by simp
qed

lemma rb_clear_wf:
  assumes "rb_wf compare m"
  shows "\<exists>m'. rb_clear m = Some m' \<and> rb_wf compare m' \<and> rb_entries m' = []"
proof -
  obtain t where "focus m t []"
    using assms by (rule rb_wfE)
  then obtain m' where m': "rb_clear m = Some m'" "focus m' Lf []" "rb_count m' = 0"
    using clear_at_focus by blast
  then show ?thesis
    using rb_wfI [OF m'(2)] rb_entries_tree [OF m'(2)] by auto
qed

lemma rb_forEach_fold:
  assumes "rb_wf compare m"
  shows "rb_forEach f m s = Some (fold (\<lambda>(k, v). f k v) (rb_entries m) s)"
proof -
  obtain t where "focus m t []" "rb_entries m = rb_inorder t"
    using assms by (rule rb_wfE)
  then show ?thesis
    by (simp add: forEach_at_focus)
qed

lemma rb_forEachMut_wf:
  assumes "rb_wf compare m"
  shows "\<exists>m'. rb_forEachMut action m s = Some (m', snd (thread_values action (rb_entries m) s)) \<and>
    rb_wf compare m' \<and> rb_entries m' = fst (thread_values action (rb_entries m) s)"
proof -
  obtain t where t: "focus m t []" "sorted_keys compare (rb_inorder t)" "rb_count m = length (rb_inorder t)"
      "\<exists>H. rbi t H" "rb_entries m = rb_inorder t"
    using assms by (rule rb_wfE)
  let ?t = "fst (thread_tree action t s)"
  obtain m' where m': "rb_forEachMut action m s = Some (m', snd (thread_values action (rb_inorder t) s))"
      "focus m' ?t []" "same_counters m m'"
    using forEachMut_at_focus [OF t(1), of action s] by blast
  have keys: "map fst (rb_inorder ?t) = map fst (rb_inorder t)"
    using keys_thread_values [of action "rb_inorder t" s] by (simp add: thread_tree_inorder)
  have "rb_wf compare m'"
  proof (rule rb_wfI [OF m'(2)])
    show "sorted_keys compare (rb_inorder ?t)"
      using t(2) keys by (simp add: sorted_keys_def)
    show "rb_count m' = length (rb_inorder ?t)"
      using t(3) m'(3) map_eq_imp_length_eq [OF keys] by (simp add: same_counters_def)
    show "\<exists>H. rbi ?t H"
      using t(4) by (simp add: rbi_thread_tree)
  qed
  then show ?thesis
    using m' t(5) rb_entries_tree [OF m'(2)] thread_tree_inorder [of action t s] by auto
qed

lemma rb_get_map_of:
  assumes "rb_wf compare m"
  shows "rb_get compare m k =
    Some (case map_of (rb_entries m) k of None \<Rightarrow> Inl invalid_key | Some v \<Rightarrow> Inr v)"
proof -
  obtain t where t: "sorted_keys compare (rb_inorder t)" "rb_entries m = rb_inorder t"
      "rb_root m = ptr_of t" "cells (rb_heap m) None t"
    using assms by (rule rb_wfE)
  show ?thesis
    using t getNode_at_focus [OF t(4) _ t(1), of k]
    by (cases "t = Lf") (auto simp: rb_get_def split: option.splits)
qed

lemma rb_neighbours:
  assumes "rb_wf compare m"
  shows "rb_getCeilingEntry compare m k =
      Some (first_such (rb_message (rb_entries m)) (\<lambda>e. \<not> compare (fst e) k) (rb_entries m))"
    and "rb_getHigherEntry compare m k =
      Some (first_such ''No higher entry exists in this map'' (\<lambda>e. compare k (fst e)) (rb_entries m))"
    and "rb_getFloorEntry compare m k =
      Some (last_such ''No floor entry exists in this map'' (\<lambda>e. \<not> compare k (fst e)) (rb_entries m))"
    and "rb_getLowerEntry compare m k =
      Some (last_such ''No lower entry exists in this map'' (\<lambda>e. compare (fst e) k) (rb_entries m))"
proof -
  obtain t where t: "focus m t []" "sorted_keys compare (rb_inorder t)" "rb_entries m = rb_inorder t"
      "rb_root m = ptr_of t"
    using assms by (rule rb_wfE)
  have ne: "rb_inorder t \<noteq> []" if "t \<noteq> Lf"
    using that by (cases t) auto
  note loops = ceiling_at_focus [OF t(1) _ t(2), of k] higher_at_focus [OF t(1) _ t(2), of k]
    floor_at_focus [OF t(1) _ t(2), of k] lower_at_focus [OF t(1) _ t(2), of k]
  show "rb_getCeilingEntry compare m k =
      Some (first_such (rb_message (rb_entries m)) (\<lambda>e. \<not> compare (fst e) k) (rb_entries m))"
    using t loops(1) ne by (cases "t = Lf")
      (auto simp: rb_getCeilingEntry_def first_such_def rb_message_def split: option.split)
  show "rb_getHigherEntry compare m k =
      Some (first_such ''No higher entry exists in this map'' (\<lambda>e. compare k (fst e)) (rb_entries m))"
    using t loops(2) by (cases "t = Lf")
      (auto simp: rb_getHigherEntry_def first_such_def split: option.split)
  show "rb_getFloorEntry compare m k =
      Some (last_such ''No floor entry exists in this map'' (\<lambda>e. \<not> compare k (fst e)) (rb_entries m))"
    using t loops(3) by (cases "t = Lf")
      (auto simp: rb_getFloorEntry_def first_such_def last_such_def split: option.split)
  show "rb_getLowerEntry compare m k =
      Some (last_such ''No lower entry exists in this map'' (\<lambda>e. compare (fst e) k) (rb_entries m))"
    using t loops(4) by (cases "t = Lf")
      (auto simp: rb_getLowerEntry_def first_such_def last_such_def split: option.split)
qed

lemma rb_contains_has_key:
  assumes "rb_wf compare m"
  shows "rb_contains compare m k =
    (if rb_entries m = [] then None else Some (has_key k (rb_entries m)))"
proof -
  obtain t where t: "sorted_keys compare (rb_inorder t)" "rb_entries m = rb_inorder t"
      "rb_root m = ptr_of t" "cells (rb_heap m) None t"
    using assms by (rule rb_wfE)
  show ?thesis
  proof (cases "t = Lf")
    case True
    then show ?thesis
      using t by (simp add: rb_contains_def rb_getNode.simps)
  next
    case False
    then have "rb_inorder t \<noteq> []"
      by (cases t) auto
    then show ?thesis
      using t getNode_at_focus [OF t(4) False t(1), of k]
      by (auto simp: rb_contains_def has_key_map_of split: option.splits)
  qed
qed

end

section \<open>The red-black map as a growing map\<close>

definition rb_class :: "'k compare \<Rightarrow> (('k, 'v) rb_map, 'k, 'v) map_class" where
  "rb_class cmp = \<lparr>m_new = rb_new, m_size = rb_size, m_empty = rb_empty, m_clear = rb_clear,
     m_contains = rb_contains cmp, m_get = rb_get cmp, m_insert = rb_insert cmp,
     m_insertIfAbsent = rb_insertIfAbsent cmp, m_getOrInsert = rb_getOrInsert cmp,
     m_getOrDefault = rb_getOrDefault cmp, m_index_assign = rb_index_assign cmp,
     m_remove = rb_remove cmp, m_getAndRemove = rb_getAndRemove cmp, m_removeAll = rb_removeAll cmp,
     m_ceiling = rb_getCeilingEntry cmp, m_floor = rb_getFloorEntry cmp,
     m_higher = rb_getHigherEntry cmp, m_lower = rb_getLowerEntry cmp, m_toEntryList = rb_toEntryList,
     m_forEach = rb_forEach, m_forEachMut = rb_forEachMut\<rparr>"

lemma rb_class_new [simp]: "m_new (rb_class cmp) = rb_new"
  by (simp add: rb_class_def)

lemma rb_wf_facts:
  assumes "rb_wf cmp m"
  shows "sorted_keys cmp (rb_entries m)" and "rb_size m = length (rb_entries m)"
    and "rb_toEntryList m = Some (rb_entries m)" and "rb_empty m \<longleftrightarrow> rb_entries m = []"
  using assms by (auto simp: rb_wf_def rb_entries_tree rb_size_def rb_empty_def toEntryList_at_focus)

lemma rb_wf_new: "rb_wf cmp rb_new" "rb_entries rb_new = []"
proof -
  have f: "focus rb_new Lf []"
    by (simp add: focus_def rb_new_def)
  show "rb_wf cmp rb_new"
    by (rule rb_wfI [OF f]) (simp_all add: rb_new_def)
  show "rb_entries rb_new = []"
    using rb_entries_tree [OF f] by simp
qed

lemma rb_growing_map:
  assumes "compare_order cmp"
  shows "growing_map cmp (rb_class cmp) (rb_wf cmp) rb_entries rb_message"
proof -
  note laws = compare_order.rb_insert_wf [OF assms] compare_order.rb_insertIfAbsent_wf [OF assms]
    compare_order.rb_neighbours [OF assms] compare_order.rb_get_map_of [OF assms]
    compare_order.rb_getOrInsert_eq [OF assms] compare_order.rb_getOrDefault_eq [OF assms]
    compare_order.rb_contains_has_key [OF assms] compare_order.rb_clear_wf [OF assms]
    compare_order.rb_index_assign_wf [OF assms] compare_order.rb_forEach_fold [OF assms]
    compare_order.rb_forEachMut_wf [OF assms]
  have "growing_map_axioms cmp (rb_class cmp) (rb_wf cmp) rb_entries rb_message"
    by unfold_locales (simp_all add: rb_class_def laws rb_wf_facts rb_wf_new)
  with assms show ?thesis
    by (simp add: growing_map_def)
qed

interpretation rb: growing_map std_less "rb_class std_less" "rb_wf std_less" rb_entries rb_message
  by (rule rb_growing_map) unfold_locales

end
