(* ===== verification/RBTreeRemove.thy ===== *)
theory RBTreeRemove
  imports RBTreeLaws
begin

text \<open>
  Removal from the red-black tree. \<open>maintainAfterRemove\<close> changes only the path to the node that
  is about to go: \<open>del_fix\<close> is that change, it takes one black node off the black height the path
  expects of its hole, and the heap operation does what \<open>del_fix\<close> does. The removal of a key is
  correct on every red-black search tree, with one exception: a root with exactly one child.
\<close>

section \<open>The repair of the path\<close>

text \<open>Case 1: the red sibling goes up, the parent becomes red.\<close>

fun red_rotate :: "('k, 'v) frame \<Rightarrow> ('k, 'v) frame \<times> ('k, 'v) frame" where
  "red_rotate (FL p pc pk pv (Br s sc sl sk sv sr)) = (FL p RED pk pv sl, FL s BLACK sk sv sr)"
| "red_rotate (FR p pc pk pv (Br s sc sl sk sv sr)) = (FR p RED pk pv sr, FR s BLACK sk sv sl)"
| "red_rotate f = (f, f)"

text \<open>Cases 4 and 5: a red nephew.\<close>

fun red_nephew :: "('k, 'v) frame \<Rightarrow> bool" where
  "red_nephew (FL p pc pk pv (Br s sc sl sk sv sr)) = (isRed sl \<or> isRed sr)"
| "red_nephew (FR p pc pk pv (Br s sc sl sk sv sr)) = (isRed sl \<or> isRed sr)"
| "red_nephew f = False"

fun case5_rotate :: "('k, 'v) frame \<Rightarrow> ('k, 'v) path" where
  "case5_rotate (FL p pc pk pv (Br s sc sl sk sv sr)) = [FL p BLACK pk pv sl, FL s pc sk sv (paint BLACK sr)]"
| "case5_rotate (FR p pc pk pv (Br s sc sl sk sv sr)) = [FR p BLACK pk pv sr, FR s pc sk sv (paint BLACK sl)]"
| "case5_rotate f = [f]"

fun case4_rotate :: "('k, 'v) frame \<Rightarrow> ('k, 'v) frame" where
  "case4_rotate (FL p pc pk pv (Br s sc (Br c RED cl ck cv cr) sk sv sr)) =
     FL p pc pk pv (Br c BLACK cl ck cv (Br s RED cr sk sv sr))"
| "case4_rotate (FR p pc pk pv (Br s sc sl sk sv (Br c RED cl ck cv cr))) =
     FR p pc pk pv (Br c BLACK (Br s RED sl sk sv cl) ck cv cr)"
| "case4_rotate f = f"

definition del_rotate :: "('k, 'v) frame \<Rightarrow> ('k, 'v) path" where
  "del_rotate f = case5_rotate (case4_rotate f)"

definition del_local :: "('k, 'v) frame \<Rightarrow> ('k, 'v) path" where
  "del_local f = (if red_nephew f then del_rotate f else [paint_frame BLACK (paint_other RED f)])"

fun del_fix :: "('k, 'v) path \<Rightarrow> ('k, 'v) path" where
  "del_fix [] = []"
| "del_fix (f # fs) =
     (if isRed (frame_other f) then del_local (fst (red_rotate f)) @ snd (red_rotate f) # fs
      else if red_nephew f \<or> frame_color f = RED then del_local f @ fs
      else paint_other RED f # del_fix fs)"

lemma del_rotate_ne: "case5_rotate f \<noteq> []"
  by (induction f rule: case5_rotate.induct) auto

lemma del_fix_ne: "fs \<noteq> [] \<Longrightarrow> del_fix fs \<noteq> []"
  by (cases fs) (auto simp: del_local_def del_rotate_def del_rotate_ne)

lemma data_plug1_red_rotate:
  "rb_data (plug1 (plug1 t (fst (red_rotate f))) (snd (red_rotate f))) = rb_data (plug1 t f)"
  if "isRed (frame_other f)"
  using that by (induction f rule: red_rotate.induct) auto

lemma data_case4: "rb_data (plug1 t (case4_rotate f)) = rb_data (plug1 t f)"
  by (induction f rule: case4_rotate.induct) auto

lemma data_case5: "rb_data (plug t (case5_rotate f)) = rb_data (plug1 t f)"
  by (induction f rule: case5_rotate.induct) auto

lemma plug_append: "plug t (fs @ gs) = plug (plug t fs) gs"
  by (induction fs arbitrary: t) auto

lemma data_del_local: "rb_data (plug t (del_local f)) = rb_data (plug1 t f)"
  by (simp add: del_local_def del_rotate_def data_case5 data_case4)

lemma data_del_fix: "rb_data (plug t (del_fix fs)) = rb_data (plug t fs)"
proof (induction fs arbitrary: t)
  case (Cons f fs)
  consider (red) "isRed (frame_other f)"
    | (local) "\<not> isRed (frame_other f)" "red_nephew f \<or> frame_color f = RED"
    | (up) "\<not> isRed (frame_other f)" "\<not> (red_nephew f \<or> frame_color f = RED)"
    by blast
  then show ?case
  proof cases
    case red
    have "rb_data (plug1 (plug t (del_local (fst (red_rotate f)))) (snd (red_rotate f))) =
        rb_data (plug1 (plug1 t (fst (red_rotate f))) (snd (red_rotate f)))"
      by (rule data_plug1_cong [OF data_del_local])
    also have "\<dots> = rb_data (plug1 t f)"
      by (rule data_plug1_red_rotate [OF red])
    finally have "rb_data (plug (plug1 (plug t (del_local (fst (red_rotate f)))) (snd (red_rotate f))) fs) =
        rb_data (plug (plug1 t f) fs)"
      by (rule data_plug_cong)
    then show ?thesis
      using red by (simp add: plug_append)
  next
    case local
    have "rb_data (plug (plug t (del_local f)) fs) = rb_data (plug (plug1 t f) fs)"
      by (rule data_plug_cong [OF data_del_local])
    then show ?thesis
      using local by (simp add: plug_append)
  next
    case up
    have "rb_data (plug (plug1 t (paint_other RED f)) (del_fix fs)) = rb_data (plug (plug1 t (paint_other RED f)) fs)"
      by (rule Cons.IH)
    also have "\<dots> = rb_data (plug (plug1 t f) fs)"
      by (rule data_plug_cong) simp
    finally show ?thesis
      using up by simp
  qed
qed simp

section \<open>The repair lowers the black height of the hole\<close>

lemma rbi_Suc_node:
  assumes "rbi t (Suc h)"
  obtains a c l k v r where "t = Br a c l k v r"
  using assms by (cases t) auto

lemma case5_rbi:
  assumes "path_rbi (f # fs) (Suc h)" and "frame_other f = Br s BLACK sl sk sv sr"
    and "case f of FL _ _ _ _ _ \<Rightarrow> isRed sr \<and> \<not> isRed sl | FR _ _ _ _ _ \<Rightarrow> isRed sl \<and> \<not> isRed sr"
  shows "path_rbi (case5_rotate f @ fs) h"
proof -
  have "\<not> isRed (paint BLACK t)" for t :: "('a, 'b) rbt"
    by (cases t) auto
  then show ?thesis
    using assms rbi_paint_black [of sr h] rbi_paint_black [of sl h]
    by (cases f) (auto split: color.splits)
qed

lemma case4_rbi:
  assumes "path_rbi (f # fs) (Suc h)" and "frame_other f = Br s BLACK sl sk sv sr"
    and "case f of FL _ _ _ _ _ \<Rightarrow> isRed sl | FR _ _ _ _ _ \<Rightarrow> isRed sr"
  shows "path_rbi (case5_rotate (case4_rotate f) @ fs) h"
  using assms by (cases f; cases sl; cases sr) (auto split: color.splits)

lemma del_local_rbi:
  assumes p: "path_rbi (f # fs) (Suc h)" and b: "\<not> isRed (frame_other f)"
    and n: "red_nephew f \<or> frame_color f = RED"
  shows "path_rbi (del_local f @ fs) h"
proof -
  have r: "rbi (frame_other f) (Suc h)"
    using p by simp
  then obtain s sc sl sk sv sr where o: "frame_other f = Br s sc sl sk sv sr"
    by (rule rbi_Suc_node)
  with b have o: "frame_other f = Br s BLACK sl sk sv sr"
    by (cases sc) auto
  show ?thesis
  proof (cases "red_nephew f")
    case False
    then have "\<not> isRed sl \<and> \<not> isRed sr"
      using o by (cases f) auto
    then show ?thesis
      using p o n False by (cases f) (auto simp: del_local_def split: color.splits)
  next
    case True
    let ?close = "case f of FL _ _ _ _ _ \<Rightarrow> isRed sl | FR _ _ _ _ _ \<Rightarrow> isRed sr"
    show ?thesis
    proof (cases ?close)
      case close: True
      then show ?thesis
        using case4_rbi [OF p o] True by (simp add: del_local_def del_rotate_def)
    next
      case close: False
      have "case4_rotate f = f"
        using close o by (cases f rule: case4_rotate.cases) auto
      then show ?thesis
        using case5_rbi [OF p o] True close o
        by (cases f) (auto simp: del_local_def del_rotate_def)
    qed
  qed
qed

lemma red_rotate_rbi:
  assumes p: "path_rbi (f # fs) (Suc h)" and r: "isRed (frame_other f)"
  shows "path_rbi (fst (red_rotate f) # snd (red_rotate f) # fs) (Suc h)"
    and "\<not> isRed (frame_other (fst (red_rotate f)))" and "frame_color (fst (red_rotate f)) = RED"
    and "frame_color f = BLACK"
proof -
  obtain s sl sk sv sr where o: "frame_other f = Br s RED sl sk sv sr"
    using r by (cases "frame_other f") auto
  show "frame_color f = BLACK"
    using p r by (auto split: color.splits)
  then show "path_rbi (fst (red_rotate f) # snd (red_rotate f) # fs) (Suc h)"
    "\<not> isRed (frame_other (fst (red_rotate f)))" "frame_color (fst (red_rotate f)) = RED"
    using p o by (cases f; auto split: color.splits)+
qed

lemma del_fix_rbi: "path_rbi fs (Suc h) \<Longrightarrow> path_rbi (del_fix fs) h"
proof (induction fs arbitrary: h)
  case (Cons f fs)
  consider (red) "isRed (frame_other f)"
    | (local) "\<not> isRed (frame_other f)" "red_nephew f \<or> frame_color f = RED"
    | (up) "\<not> isRed (frame_other f)" "\<not> red_nephew f" "frame_color f = BLACK"
    by (cases "frame_color f") auto
  then show ?case
  proof cases
    case red
    note rr = red_rotate_rbi [OF Cons.prems red]
    show ?thesis
      using del_local_rbi [OF rr(1,2)] rr(3) red by simp
  next
    case local
    then show ?thesis
      using del_local_rbi [OF Cons.prems] by simp
  next
    case up
    obtain s sc sl sk sv sr where o: "frame_other f = Br s sc sl sk sv sr"
      using Cons.prems by (auto elim: rbi_Suc_node)
    have "path_rbi (del_fix fs) (Suc h)"
      using Cons.IH [of "Suc h"] Cons.prems up(3) by simp
    moreover have "rbi (paint RED (frame_other f)) h"
      using up o Cons.prems by (cases f; cases sc) auto
    moreover have "frame_other (paint_other RED f) = paint RED (frame_other f)"
      by (cases f) auto
    ultimately show ?thesis
      using up by simp
  qed
qed simp

section \<open>The heap does what the path does\<close>

text \<open>Reading the colour of a possibly null child.\<close>

lemma child_black:
  assumes "cells h par t"
  shows "rb_null_or_black h (ptr_of t) = Some (\<not> isRed t)"
    and "rb_set_and_red h (ptr_of t) = Some (isRed t)"
  using assms
  by (cases t; cases "case t of Br _ c _ _ _ _ \<Rightarrow> c"; auto simp: rb_null_or_black_def rb_set_and_red_def node_defs)+

lemma focus_other_cells:
  assumes "focus m n (f # fs)"
  shows "cells (rb_heap m) (Some (frame_addr f)) (frame_other f)"
  using assms by (cases f) (auto simp: focus_def)

lemma case5_left:
  assumes f: "focus m (Br a c l k v r) (FL p pc pk pv (Br s BLACK sl sk sv (Br d RED dl dk dv dr)) # fs)"
    and "\<not> isRed sl"
  shows "\<exists>m'. rb_remove_case5 m (Some a) LEFT (Some s) (ptr_of sl) (Some d) = Some m' \<and>
    focus m' (Br a c l k v r) (FL p BLACK pk pv sl # FL s pc sk sv (Br d BLACK dl dk dv dr) # fs) \<and>
    same_counters m m'"
proof -
  let ?n = "Br a c l k v r" and ?d = "Br d RED dl dk dv dr"
  have cl: "cells (rb_heap m) (Some s) sl" and cd: "\<exists>n. rb_heap m d = Some n \<and> n_color n = RED"
    using focus_other_cells [OF f] by auto
  have "focus m (Br p pc ?n pk pv (Br s BLACK sl sk sv ?d)) fs"
    using f by (simp add: focus_up)
  from rotateLeft_at_focus [OF this] obtain m2 where m2: "rb_rotateLeft (Some p) m = Some m2"
      "focus m2 (Br s BLACK (Br p pc ?n pk pv sl) sk sv ?d) fs" "same_counters m m2"
    by blast
  have n2: "focus m2 ?n (FL p pc pk pv sl # FL s BLACK sk sv ?d # fs)"
    using m2(2) by (simp add: focus_up)
  obtain m3 where m3: "rb_paint (Some s) pc m2 = Some m3"
      "focus m3 (Br s pc (Br p pc ?n pk pv sl) sk sv ?d) fs" "same_counters m2 m3"
    using paint_at_focus [OF m2(2), of pc] by blast
  have "focus m3 (Br p pc ?n pk pv sl) (FL s pc sk sv ?d # fs)"
    using m3(2) by (simp add: focus_up)
  from paint_at_focus [OF this, of BLACK] obtain m4 where m4: "rb_paint (Some p) BLACK m3 = Some m4"
      "focus m4 (Br p BLACK ?n pk pv sl) (FL s pc sk sv ?d # fs)" "same_counters m3 m4"
    by blast
  obtain m5 where m5: "rb_paint (Some d) BLACK m4 = Some m5"
      "focus m5 (Br p BLACK ?n pk pv sl) (FL s pc sk sv (Br d BLACK dl dk dv dr) # fs)" "same_counters m4 m5"
    using paint_sibling [OF m4(2), of BLACK] by auto
  have "rb_remove_case5 m (Some a) LEFT (Some s) (ptr_of sl) (Some d) = Some m5"
    unfolding rb_remove_case5_def child_black [OF cl]
    using assms(2) cd focus_cell [OF f] focus_cell [OF n2] focus_frame_cell [OF n2] m2(1) m3(1) m4(1) m5(1)
    by (auto simp: rb_rotateSameDirection_def rb_isRed_def)
  moreover have "focus m5 ?n (FL p BLACK pk pv sl # FL s pc sk sv (Br d BLACK dl dk dv dr) # fs)"
    using m5(2) by (simp add: focus_up)
  ultimately show ?thesis
    using m2(3) m3(3) m4(3) m5(3) by (auto intro: same_counters_trans)
qed

lemma case5_right:
  assumes f: "focus m (Br a c l k v r) (FR p pc pk pv (Br s BLACK (Br d RED dl dk dv dr) sk sv sr) # fs)"
    and "\<not> isRed sr"
  shows "\<exists>m'. rb_remove_case5 m (Some a) RIGHT (Some s) (ptr_of sr) (Some d) = Some m' \<and>
    focus m' (Br a c l k v r) (FR p BLACK pk pv sr # FR s pc sk sv (Br d BLACK dl dk dv dr) # fs) \<and>
    same_counters m m'"
proof -
  let ?n = "Br a c l k v r" and ?d = "Br d RED dl dk dv dr"
  have cl: "cells (rb_heap m) (Some s) sr" and cd: "\<exists>n. rb_heap m d = Some n \<and> n_color n = RED"
    using focus_other_cells [OF f] by auto
  have "focus m (Br p pc (Br s BLACK ?d sk sv sr) pk pv ?n) fs"
    using f by (simp add: focus_up)
  from rotateRight_at_focus [OF this] obtain m2 where m2: "rb_rotateRight (Some p) m = Some m2"
      "focus m2 (Br s BLACK ?d sk sv (Br p pc sr pk pv ?n)) fs" "same_counters m m2"
    by blast
  have n2: "focus m2 ?n (FR p pc pk pv sr # FR s BLACK sk sv ?d # fs)"
    using m2(2) by (simp add: focus_up)
  obtain m3 where m3: "rb_paint (Some s) pc m2 = Some m3"
      "focus m3 (Br s pc ?d sk sv (Br p pc sr pk pv ?n)) fs" "same_counters m2 m3"
    using paint_at_focus [OF m2(2), of pc] by blast
  have "focus m3 (Br p pc sr pk pv ?n) (FR s pc sk sv ?d # fs)"
    using m3(2) by (simp add: focus_up)
  from paint_at_focus [OF this, of BLACK] obtain m4 where m4: "rb_paint (Some p) BLACK m3 = Some m4"
      "focus m4 (Br p BLACK sr pk pv ?n) (FR s pc sk sv ?d # fs)" "same_counters m3 m4"
    by blast
  obtain m5 where m5: "rb_paint (Some d) BLACK m4 = Some m5"
      "focus m5 (Br p BLACK sr pk pv ?n) (FR s pc sk sv (Br d BLACK dl dk dv dr) # fs)" "same_counters m4 m5"
    using paint_sibling [OF m4(2), of BLACK] by auto
  have "rb_remove_case5 m (Some a) RIGHT (Some s) (ptr_of sr) (Some d) = Some m5"
    unfolding rb_remove_case5_def child_black [OF cl]
    using assms(2) cd focus_cell [OF f] focus_cell [OF n2] focus_frame_cell [OF n2] m2(1) m3(1) m4(1) m5(1)
    by (auto simp: rb_rotateSameDirection_def rb_isRed_def)
  moreover have "focus m5 ?n (FR p BLACK pk pv sr # FR s pc sk sv (Br d BLACK dl dk dv dr) # fs)"
    using m5(2) by (simp add: focus_up)
  ultimately show ?thesis
    using m2(3) m3(3) m4(3) m5(3) by (auto intro: same_counters_trans)
qed

text \<open>Case 4 first, if the close nephew is red.\<close>

lemma remove_rotate_left:
  assumes f: "focus m (Br a c l k v r) (FL p pc pk pv (Br s BLACK sl sk sv sr) # fs)"
    and o: "rbi (Br s BLACK sl sk sv sr) (Suc h)" and red: "isRed sl \<or> isRed sr"
  shows "\<exists>m'. rb_remove_rotate m (Some a) LEFT (Some s) (ptr_of sl) (ptr_of sr) = Some m' \<and>
    focus m' (Br a c l k v r) (del_rotate (FL p pc pk pv (Br s BLACK sl sk sv sr)) @ fs) \<and> same_counters m m'"
proof (cases "isRed sl")
  case False
  then obtain d dl dk dv dr where d: "sr = Br d RED dl dk dv dr"
    using red by (cases sr) auto
  have cl: "cells (rb_heap m) (Some s) sl"
    using focus_other_cells [OF f] by auto
  have "case4_rotate (FL p pc pk pv (Br s BLACK sl sk sv sr)) = FL p pc pk pv (Br s BLACK sl sk sv sr)"
    using False by (cases "FL p pc pk pv (Br s BLACK sl sk sv sr)" rule: case4_rotate.cases) auto
  then show ?thesis
    using case5_left [OF f [unfolded d] False] False d child_black(2) [OF cl]
    by (simp add: rb_remove_rotate_def del_rotate_def)
next
  case True
  then obtain x xl xk xv xr where x: "sl = Br x RED xl xk xv xr"
    by (cases sl) auto
  let ?n = "Br a c l k v r" and ?g = "FR p pc pk pv (Br a c l k v r)"
  have cl: "cells (rb_heap m) (Some s) sl"
    using focus_other_cells [OF f] by auto
  have "focus m (Br s BLACK (Br x RED xl xk xv xr) sk sv sr) (?g # fs)"
    using f x by (simp add: focus_up)
  from rotateRight_at_focus [OF this] obtain m1 where m1: "rb_rotateRight (Some s) m = Some m1"
      "focus m1 (Br x RED xl xk xv (Br s BLACK xr sk sv sr)) (?g # fs)" "same_counters m m1"
    by blast
  obtain m2 where m2: "rb_paint (Some x) BLACK m1 = Some m2"
      "focus m2 (Br x BLACK xl xk xv (Br s BLACK xr sk sv sr)) (?g # fs)" "same_counters m1 m2"
    using paint_at_focus [OF m1(2), of BLACK] by blast
  have "focus m2 (Br s BLACK xr sk sv sr) (FR x BLACK xk xv xl # ?g # fs)"
    using m2(2) by (simp add: focus_up)
  from paint_at_focus [OF this, of RED] obtain m3 where m3: "rb_paint (Some s) RED m2 = Some m3"
      "focus m3 (Br s RED xr sk sv sr) (FR x BLACK xk xv xl # ?g # fs)" "same_counters m2 m3"
    by blast
  have n3: "focus m3 ?n (FL p pc pk pv (Br x BLACK xl xk xv (Br s RED xr sk sv sr)) # fs)"
    using m3(2) by (simp add: focus_up)
  have "\<not> isRed xl"
    using o x by simp
  from case5_left [OF n3 this] obtain m4 where
    m4: "rb_remove_case5 m3 (Some a) LEFT (Some x) (ptr_of xl) (Some s) = Some m4" "same_counters m3 m4"
      "focus m4 ?n (FL p BLACK pk pv xl # FL x pc xk xv (Br s BLACK xr sk sv sr) # fs)"
    by blast
  have "\<exists>n. rb_heap m3 x = Some n \<and> n_left n = ptr_of xl \<and> n_right n = Some s"
    using focus_other_cells [OF n3] by simp
  then have "rb_remove_rotate m (Some a) LEFT (Some s) (ptr_of sl) (ptr_of sr) = Some m4"
    unfolding rb_remove_rotate_def child_black(2) [OF cl]
    using x m1(1) m2(1) m3(1) m4(1) sibling_at_focus [OF n3]
    by (auto simp: rb_rotateOppositeDirection_def)
  then show ?thesis
    using m4(2,3) m1(3) m2(3) m3(3) x by (auto simp: del_rotate_def intro: same_counters_trans)
qed

lemma remove_rotate_right:
  assumes f: "focus m (Br a c l k v r) (FR p pc pk pv (Br s BLACK sl sk sv sr) # fs)"
    and o: "rbi (Br s BLACK sl sk sv sr) (Suc h)" and red: "isRed sl \<or> isRed sr"
  shows "\<exists>m'. rb_remove_rotate m (Some a) RIGHT (Some s) (ptr_of sr) (ptr_of sl) = Some m' \<and>
    focus m' (Br a c l k v r) (del_rotate (FR p pc pk pv (Br s BLACK sl sk sv sr)) @ fs) \<and> same_counters m m'"
proof (cases "isRed sr")
  case False
  then obtain d dl dk dv dr where d: "sl = Br d RED dl dk dv dr"
    using red by (cases sl) auto
  have cl: "cells (rb_heap m) (Some s) sr"
    using focus_other_cells [OF f] by auto
  have "case4_rotate (FR p pc pk pv (Br s BLACK sl sk sv sr)) = FR p pc pk pv (Br s BLACK sl sk sv sr)"
    using False by (cases "FR p pc pk pv (Br s BLACK sl sk sv sr)" rule: case4_rotate.cases) auto
  then show ?thesis
    using case5_right [OF f [unfolded d] False] False d child_black(2) [OF cl]
    by (simp add: rb_remove_rotate_def del_rotate_def)
next
  case True
  then obtain x xl xk xv xr where x: "sr = Br x RED xl xk xv xr"
    by (cases sr) auto
  let ?n = "Br a c l k v r" and ?g = "FL p pc pk pv (Br a c l k v r)"
  have cl: "cells (rb_heap m) (Some s) sr"
    using focus_other_cells [OF f] by auto
  have "focus m (Br s BLACK sl sk sv (Br x RED xl xk xv xr)) (?g # fs)"
    using f x by (simp add: focus_up)
  from rotateLeft_at_focus [OF this] obtain m1 where m1: "rb_rotateLeft (Some s) m = Some m1"
      "focus m1 (Br x RED (Br s BLACK sl sk sv xl) xk xv xr) (?g # fs)" "same_counters m m1"
    by blast
  obtain m2 where m2: "rb_paint (Some x) BLACK m1 = Some m2"
      "focus m2 (Br x BLACK (Br s BLACK sl sk sv xl) xk xv xr) (?g # fs)" "same_counters m1 m2"
    using paint_at_focus [OF m1(2), of BLACK] by blast
  have "focus m2 (Br s BLACK sl sk sv xl) (FL x BLACK xk xv xr # ?g # fs)"
    using m2(2) by (simp add: focus_up)
  from paint_at_focus [OF this, of RED] obtain m3 where m3: "rb_paint (Some s) RED m2 = Some m3"
      "focus m3 (Br s RED sl sk sv xl) (FL x BLACK xk xv xr # ?g # fs)" "same_counters m2 m3"
    by blast
  have n3: "focus m3 ?n (FR p pc pk pv (Br x BLACK (Br s RED sl sk sv xl) xk xv xr) # fs)"
    using m3(2) by (simp add: focus_up)
  have "\<not> isRed xr"
    using o x by simp
  from case5_right [OF n3 this] obtain m4 where
    m4: "rb_remove_case5 m3 (Some a) RIGHT (Some x) (ptr_of xr) (Some s) = Some m4" "same_counters m3 m4"
      "focus m4 ?n (FR p BLACK pk pv xr # FR x pc xk xv (Br s BLACK sl sk sv xl) # fs)"
    by blast
  have "\<exists>n. rb_heap m3 x = Some n \<and> n_left n = Some s \<and> n_right n = ptr_of xr"
    using focus_other_cells [OF n3] by simp
  then have "rb_remove_rotate m (Some a) RIGHT (Some s) (ptr_of sr) (ptr_of sl) = Some m4"
    unfolding rb_remove_rotate_def child_black(2) [OF cl]
    using x m1(1) m2(1) m3(1) m4(1) sibling_at_focus [OF n3]
    by (auto simp: rb_rotateOppositeDirection_def)
  then show ?thesis
    using m4(2,3) m1(3) m2(3) m3(3) x by (auto simp: del_rotate_def intro: same_counters_trans)
qed

text \<open>Case 1.\<close>

lemma red_sibling_at_focus:
  assumes f: "focus m (Br a c l k v r) (f # fs)" and p: "path_rbi (f # fs) (Suc h)"
    and red: "isRed (frame_other f)"
  shows "\<exists>m'. rb_remove_red_sibling m (Some a) (path_direction (f # fs)) (ptr_of (frame_other f)) =
      Some (m', ptr_of (frame_other (fst (red_rotate f)))) \<and>
    focus m' (Br a c l k v r) (fst (red_rotate f) # snd (red_rotate f) # fs) \<and> same_counters m m'"
proof -
  let ?n = "Br a c l k v r" and ?g = "fst (red_rotate f)"
  note rr = red_rotate_rbi [OF p red]
  obtain s sl sk sv sr where o: "frame_other f = Br s RED sl sk sv sr"
    using red by (cases "frame_other f") auto
  have "rbi sl (Suc h)" "rbi sr (Suc h)" "\<not> isRed sl" "\<not> isRed sr"
    using p o by auto
  then have nephews: "\<exists>n. deref (rb_heap m) (ptr_of sl) = Some n \<and> rb_isBlack n"
      "\<exists>n. deref (rb_heap m) (ptr_of sr) = Some n \<and> rb_isBlack n"
    using focus_other_cells [OF f] o
    by (auto simp: rb_isBlack_def elim!: rbi_Suc_node) (metis (full_types) color.exhaust)+
  have parent: "\<exists>n. rb_heap m (frame_addr f) = Some n \<and> rb_isBlack n"
    using focus_frame_cell [OF f] rr(4) by (cases f) (auto simp: rb_isBlack_def)
  have rotated: "\<exists>m1. rb_rotateSameDirection (Some (frame_addr f)) (path_direction (f # fs)) m = Some m1 \<and>
      focus m1 ?n (paint_frame BLACK ?g # paint_frame RED (snd (red_rotate f)) # fs) \<and> same_counters m m1"
    using f o rr(4) rotateLeft_at_focus [of m _ _ ?n _ _ s RED sl sk sv sr fs]
      rotateRight_at_focus [of m _ _ s RED sl sk sv sr _ _ ?n fs]
    by (cases f) (auto simp: rb_rotateSameDirection_def focus_up)
  then obtain m1 where m1: "rb_rotateSameDirection (Some (frame_addr f)) (path_direction (f # fs)) m = Some m1"
      "focus m1 ?n (paint_frame BLACK ?g # paint_frame RED (snd (red_rotate f)) # fs)" "same_counters m m1"
    by blast
  have addr: "frame_addr (snd (red_rotate f)) = s" "frame_addr ?g = frame_addr f"
      "paint_frame BLACK (snd (red_rotate f)) = snd (red_rotate f)" "paint_frame RED ?g = ?g"
    using o by (cases f; simp)+
  have paint_paint: "paint_frame d (paint_frame e g) = paint_frame d g" for d e and g :: "('a, 'b) frame"
    by (cases g) auto
  have "focus m1 (plug1 ?n (paint_frame BLACK ?g)) (paint_frame RED (snd (red_rotate f)) # fs)"
    using m1(2) by (simp add: focus_up)
  from paint_parent [OF this, of BLACK] obtain m2 where m2: "rb_paint (Some s) BLACK m1 = Some m2"
      "focus m2 ?n (paint_frame BLACK ?g # snd (red_rotate f) # fs)" "same_counters m1 m2"
    using addr by (auto simp: paint_paint focus_up)
  from paint_parent [OF m2(2), of RED] obtain m3 where m3: "rb_paint (Some (frame_addr f)) RED m2 = Some m3"
      "focus m3 ?n (?g # snd (red_rotate f) # fs)" "same_counters m2 m3"
    using addr by (auto simp: paint_paint)
  have "rb_remove_red_sibling m (Some a) (path_direction (f # fs)) (ptr_of (frame_other f)) =
      Some (m3, ptr_of (frame_other ?g))"
    unfolding rb_remove_red_sibling_def
    using focus_other_cells [OF f] o focus_cell [OF f] parent nephews m1(1) m2(1) m3(1) sibling_at_focus [OF m3(2)]
    by (auto simp: rb_isRed_def)
  then show ?thesis
    using m3 m1(3) m2(3) by (auto intro: same_counters_trans)
qed

text \<open>
  One round of \<open>maintainAfterRemove\<close>, once the sibling is black: \<open>m1\<close> is the map after case 1.
\<close>

lemma maintainAfterRemove_round:
  assumes f: "focus m (Br a BLACK l k v r) (f # fs)" and s: "frame_other f \<noteq> Lf"
    and red: "rb_remove_red_sibling m (Some a) (path_direction (f # fs)) (ptr_of (frame_other f)) = Some (m1, Some b)"
    and g: "focus m1 (Br a BLACK l k v r) (g # gs)" "frame_other g = Br b BLACK bl bk bv br"
    and d: "path_direction (g # gs) = path_direction (f # fs)"
  shows "rb_maintainAfterRemove m (Some a) =
    (if red_nephew g then
       rb_remove_rotate m1 (Some a) (path_direction (f # fs)) (Some b)
         (if path_direction (f # fs) = LEFT then ptr_of bl else ptr_of br)
         (if path_direction (f # fs) = LEFT then ptr_of br else ptr_of bl)
     else rb_paint (Some b) RED m1 \<bind> (\<lambda>m2.
       if frame_color g = RED then rb_paint (Some (frame_addr g)) BLACK m2
       else rb_maintainAfterRemove m2 (Some (frame_addr g))))"
proof -
  have cells: "cells (rb_heap m1) (Some b) bl" "cells (rb_heap m1) (Some b) br"
      "\<exists>n. rb_heap m1 b = Some n \<and> rb_isBlack n \<and> n_left n = ptr_of bl \<and> n_right n = ptr_of br"
    using focus_other_cells [OF g(1)] g(2) by (auto simp: rb_isBlack_def)
  have parent: "\<exists>n. rb_heap m1 (frame_addr g) = Some n \<and> rb_isRed n = (frame_color g = RED)"
    using focus_frame_cell [OF g(1)] by (cases g) (auto simp: rb_isRed_def)
  have dir: "rb_direction (rb_heap m) (Some a) = Some (path_direction (f # fs))"
    using direction_at_focus [OF f] .
  have nephews: "red_nephew g \<longleftrightarrow> isRed bl \<or> isRed br"
    using g(2) by (cases g) auto
  note reads = focus_cell [OF f] focus_cell [OF g(1)] hasSibling_at_focus [OF f] sibling_at_focus [OF f]
  show ?thesis
    using reads dir cells(3) parent red s nephews child_black(1) [OF cells(1)] child_black(1) [OF cells(2)]
    by (subst rb_maintainAfterRemove.simps) (auto simp: node_defs Let_def)
qed

lemma direction_red_rotate: "path_direction (fst (red_rotate f) # gs) = path_direction (f # fs)"
  by (induction f rule: red_rotate.induct) auto

text \<open>The rounds that end: a red nephew, or a red parent.\<close>

lemma local_round:
  assumes g: "focus m1 (Br a c l k v r) (g # gs)" "path_rbi (g # gs) (Suc h)"
      "frame_other g = Br b BLACK bl bk bv br" "red_nephew g \<or> frame_color g = RED"
  shows "\<exists>m'. (if red_nephew g then
       rb_remove_rotate m1 (Some a) (path_direction (g # gs)) (Some b)
         (if path_direction (g # gs) = LEFT then ptr_of bl else ptr_of br)
         (if path_direction (g # gs) = LEFT then ptr_of br else ptr_of bl)
     else rb_paint (Some b) RED m1 \<bind> (\<lambda>m2. rb_paint (Some (frame_addr g)) BLACK m2)) = Some m' \<and>
    focus m' (Br a c l k v r) (del_local g @ gs) \<and> same_counters m1 m'"
proof (cases "red_nephew g")
  case True
  have o: "rbi (Br b BLACK bl bk bv br) (Suc h)"
    using g(2,3) by simp
  show ?thesis
  proof (cases g)
    case (FL p pc pk pv u)
    then show ?thesis
      using remove_rotate_left [of m1 a c l k v r p pc pk pv b bl bk bv br gs h] g o True
      by (simp add: del_local_def)
  next
    case (FR p pc pk pv u)
    then show ?thesis
      using remove_rotate_right [of m1 a c l k v r p pc pk pv b bl bk bv br gs h] g o True
      by (auto simp: del_local_def)
  qed
next
  case False
  obtain m2 where m2: "rb_paint (Some b) RED m1 = Some m2" "same_counters m1 m2"
      "focus m2 (Br a c l k v r) (paint_other RED g # gs)"
    using paint_sibling [OF g(1), of RED] g(3) by auto
  obtain m3 where m3: "rb_paint (Some (frame_addr g)) BLACK m2 = Some m3" "same_counters m2 m3"
      "focus m3 (Br a c l k v r) (paint_frame BLACK (paint_other RED g) # gs)"
    using paint_parent [OF m2(3), of BLACK] by auto
  show ?thesis
    using False m2(1,2) m3 by (auto simp: del_local_def intro: same_counters_trans)
qed

lemma black_sibling_at_focus:
  assumes "focus m (Br a c l k v r) (f # fs)" and "frame_other f = Br b BLACK bl bk bv br"
  shows "rb_remove_red_sibling m (Some a) d (Some b) = Some (m, Some b)"
  using focus_other_cells [OF assms(1)] assms(2)
  by (simp add: rb_remove_red_sibling_def rb_isRed_def)

lemma maintainAfterRemove_del_fix:
  assumes "focus m (Br a BLACK l k v r) fs" and "path_rbi fs (Suc h)"
  shows "\<exists>m'. rb_maintainAfterRemove m (Some a) = Some m' \<and>
    focus m' (Br a BLACK l k v r) (del_fix fs) \<and> same_counters m m'"
  using assms
proof (induction fs arbitrary: m a l k v r h)
  case Nil
  then show ?case
    using focus_cell [OF Nil(1)] by (subst rb_maintainAfterRemove.simps) (simp add: rb_isRoot_def)
next
  case (Cons f fs)
  let ?n = "Br a BLACK l k v r"
  obtain b bc bl bk bv br where o: "frame_other f = Br b bc bl bk bv br"
    using Cons.prems(2) by (auto elim: rbi_Suc_node)
  show ?case
  proof (cases bc)
    case RED
    then have red: "isRed (frame_other f)"
      using o by simp
    let ?g = "fst (red_rotate f)" and ?gs = "snd (red_rotate f) # fs"
    note rr = red_rotate_rbi [OF Cons.prems(2) red]
    obtain m1 where m1: "rb_remove_red_sibling m (Some a) (path_direction (f # fs)) (ptr_of (frame_other f)) =
        Some (m1, ptr_of (frame_other ?g))" "focus m1 ?n (?g # ?gs)" "same_counters m m1"
      using red_sibling_at_focus [OF Cons.prems red] by blast
    obtain s sc sl sk sv sr where og: "frame_other ?g = Br s sc sl sk sv sr"
      using rr(1) by (auto elim: rbi_Suc_node)
    then have og: "frame_other ?g = Br s BLACK sl sk sv sr"
      using rr(2) by (cases sc) auto
    have d: "path_direction (?g # ?gs) = path_direction (f # fs)"
      by (rule direction_red_rotate)
    have round: "rb_maintainAfterRemove m (Some a) = (if red_nephew ?g then
       rb_remove_rotate m1 (Some a) (path_direction (?g # ?gs)) (Some s)
         (if path_direction (?g # ?gs) = LEFT then ptr_of sl else ptr_of sr)
         (if path_direction (?g # ?gs) = LEFT then ptr_of sr else ptr_of sl)
     else rb_paint (Some s) RED m1 \<bind> (\<lambda>m2. rb_paint (Some (frame_addr ?g)) BLACK m2))"
      using maintainAfterRemove_round [OF Cons.prems(1) _ _ m1(2) og d] m1(1) og o rr(3) d by simp
    show ?thesis
      using local_round [OF m1(2) rr(1) og] rr(3) m1(3) red
      unfolding round by (auto intro: same_counters_trans)
  next
    case BLACK
    then have o: "frame_other f = Br b BLACK bl bk bv br"
      using o by simp
    have round: "rb_maintainAfterRemove m (Some a) = (if red_nephew f then
       rb_remove_rotate m (Some a) (path_direction (f # fs)) (Some b)
         (if path_direction (f # fs) = LEFT then ptr_of bl else ptr_of br)
         (if path_direction (f # fs) = LEFT then ptr_of br else ptr_of bl)
     else rb_paint (Some b) RED m \<bind> (\<lambda>m2.
       if frame_color f = RED then rb_paint (Some (frame_addr f)) BLACK m2
       else rb_maintainAfterRemove m2 (Some (frame_addr f))))"
      using maintainAfterRemove_round [OF Cons.prems(1) _ _ Cons.prems(1) o refl]
        black_sibling_at_focus [OF Cons.prems(1) o] o by simp
    show ?thesis
    proof (cases "red_nephew f \<or> frame_color f = RED")
      case True
      then show ?thesis
        using local_round [OF Cons.prems o True] o unfolding round by (cases "red_nephew f") auto
    next
      case False
      then have black: "frame_color f = BLACK"
        by (cases "frame_color f") auto
      obtain m2 where m2: "rb_paint (Some b) RED m = Some m2" "same_counters m m2"
          "focus m2 ?n (paint_other RED f # fs)"
        using paint_sibling [OF Cons.prems(1), of RED] o by auto
      obtain l' k' v' r' where p: "plug1 ?n (paint_other RED f) = Br (frame_addr f) BLACK l' k' v' r'"
        using black by (cases f) auto
      have "focus m2 (Br (frame_addr f) BLACK l' k' v' r') fs"
        using m2(3) p by (simp add: focus_up)
      moreover have "path_rbi fs (Suc (Suc h))"
        using Cons.prems(2) black by simp
      ultimately obtain m3 where m3: "rb_maintainAfterRemove m2 (Some (frame_addr f)) = Some m3"
          "focus m3 (Br (frame_addr f) BLACK l' k' v' r') (del_fix fs)" "same_counters m2 m3"
        using Cons.IH by blast
      have "focus m3 ?n (paint_other RED f # del_fix fs)"
        using m3(2) p by (simp add: focus_up)
      then show ?thesis
        using m2 m3 False o unfolding round by (auto intro: same_counters_trans)
    qed
  qed
qed

section \<open>Unlinking a node\<close>

lemma focus_append: "focus m (plug t ps) fs = focus m t (ps @ fs)"
  by (induction ps arbitrary: t) (simp_all add: focus_up)

lemma unlink_child:
  assumes "focus m (Br a c Lf k v Lf) (f # fs)"
  shows "\<exists>m'. (assign (Some (frame_addr f)) (if path_direction (f # fs) = LEFT then set_left None else set_right None)
      (rb_heap m) \<bind> (\<lambda>h. Some (m\<lparr>rb_heap := h\<rparr>))) = Some m' \<and> focus m' Lf (f # fs) \<and> same_counters m m'"
  using assms by (cases f) (auto simp: focus_def node_defs same_counters_def)

lemma unlink_leaf_at_focus:
  assumes f: "focus m (Br a c Lf k v Lf) fs" and ne: "fs \<noteq> []"
    and r: "rbi (Br a c Lf k v Lf) h" "path_rbi fs h"
  shows "\<exists>m' fs'. rb_unlink_leaf m (Some a) = Some m' \<and> focus m' Lf fs' \<and> path_rbi fs' 0 \<and>
    rb_data (plug Lf fs') = rb_data (plug Lf fs) \<and> same_counters m m'"
proof -
  have "\<exists>m1 fs'. (if c = BLACK then rb_maintainAfterRemove m (Some a) else Some m) = Some m1 \<and>
      focus m1 (Br a c Lf k v Lf) fs' \<and> path_rbi fs' 0 \<and> fs' \<noteq> [] \<and>
      rb_data (plug Lf fs') = rb_data (plug Lf fs) \<and> same_counters m m1"
  proof (cases c)
    case RED
    then show ?thesis
      using f ne r by auto
  next
    case BLACK
    then have p: "path_rbi fs (Suc 0)"
      using r by (cases h) auto
    obtain m1 where "rb_maintainAfterRemove m (Some a) = Some m1"
        "focus m1 (Br a BLACK Lf k v Lf) (del_fix fs)" "same_counters m m1"
      using maintainAfterRemove_del_fix [OF f [unfolded BLACK] p] by blast
    then show ?thesis
      using BLACK del_fix_rbi [OF p] del_fix_ne [OF ne] data_del_fix [of Lf fs]
      by (intro exI [of _ m1] exI [of _ "del_fix fs"]) simp
  qed
  then obtain m1 fs' where m1: "(if c = BLACK then rb_maintainAfterRemove m (Some a) else Some m) = Some m1"
      "focus m1 (Br a c Lf k v Lf) fs'" "path_rbi fs' 0" "fs' \<noteq> []"
      "rb_data (plug Lf fs') = rb_data (plug Lf fs)" "same_counters m m1"
    by blast
  then obtain g gs where gs: "fs' = g # gs"
    by (cases fs') auto
  obtain m2 where m2: "(assign (Some (frame_addr g)) (if path_direction (g # gs) = LEFT then set_left None else set_right None)
      (rb_heap m1) \<bind> (\<lambda>h. Some (m1\<lparr>rb_heap := h\<rparr>))) = Some m2" "focus m2 Lf fs'" "same_counters m1 m2"
    using unlink_child [OF m1(2) [unfolded gs]] gs by auto
  have par: "path_ptr fs \<noteq> None"
    using ne by (cases fs) auto
  have "rb_unlink_leaf m (Some a) = Some m2"
    unfolding rb_unlink_leaf_def
    using focus_cell [OF f] par m1(1) m2(1) direction_at_focus [OF m1(2)] focus_cell [OF m1(2)] gs
    by (simp add: rb_isBlack_def)
  then show ?thesis
    using m1 m2 by (auto intro: same_counters_trans)
qed

text \<open>A node with one child in a red-black tree: it is black and its child is a red leaf.\<close>

lemma single_child:
  assumes "rbi (Br a c l k v r) h" and "(l = Lf) \<noteq> (r = Lf)"
  obtains x xk xv where "c = BLACK" and "h = 1"
    and "l = Br x RED Lf xk xv Lf \<and> r = Lf \<or> l = Lf \<and> r = Br x RED Lf xk xv Lf"
proof -
  have leaf: "\<exists>x xk xv. t = Br x RED Lf xk xv Lf" if t: "rbi t 0" "t \<noteq> Lf" for t :: "('a, 'b) rbt"
  proof -
    obtain x xc xl xk xv xr where br: "t = Br x xc xl xk xv xr"
      using t(2) by (cases t) auto
    have red_or_leaf: "isRed u \<or> u = Lf" if "rbi u 0" for u :: "('a, 'b) rbt"
      using that by (cases u; cases "case u of Br _ c _ _ _ _ \<Rightarrow> c") auto
    show ?thesis
      using t br red_or_leaf [of xl] red_or_leaf [of xr] by (cases xc) auto
  qed
  have c: "c = BLACK"
  proof (rule ccontr)
    assume "c \<noteq> BLACK"
    then have "c = RED" by (cases c) auto
    then show False
      using assms leaf [of l] leaf [of r] by (cases "l = Lf") auto
  qed
  then have h: "h = 1"
    using assms by (cases "l = Lf") auto
  show thesis
    using that assms c h leaf [of l] leaf [of r] by (cases "l = Lf") auto
qed

lemma replace_at_focus:
  assumes f: "focus m (Br a BLACK l k v r) fs" and ne: "fs \<noteq> []"
    and x: "l = Br x RED Lf xk xv Lf \<and> r = Lf \<or> l = Lf \<and> r = Br x RED Lf xk xv Lf"
  shows "\<exists>m'. rb_replace_by_child m (Some a) = Some m' \<and> focus m' (Br x BLACK Lf xk xv Lf) fs \<and>
    same_counters m m'"
proof -
  let ?x = "\<lparr>n_color = RED, n_key = xk, n_value = xv, n_parent = Some a, n_left = None, n_right = None\<rparr>"
  define m1 where "m1 = path_relink fs (Some x) m"
  define m2 where "m2 = m1\<lparr>rb_heap := (rb_heap m1)(x \<mapsto> ?x\<lparr>n_parent := path_ptr fs\<rparr>)\<rparr>"
  have path: "path_cells (rb_heap m) (rb_root m) (Some a) fs" "distinct (path_addrs fs)"
      "x \<notin> set (path_addrs fs)" "\<forall>b \<in> set (x # path_addrs fs). b < rb_fresh m"
    using f x by (auto simp: focus_def)
  have hx: "rb_heap m x = Some ?x"
    using f x by (auto simp: focus_def)
  have m1: "rb_relink (path_direction fs) (path_ptr fs) (Some x) m = Some m1"
    unfolding m1_def by (rule relink_path [OF path(1)])
  have "path_cells (rb_heap m1) (rb_root m1) (Some x) fs" "rb_heap m1 x = Some ?x"
    using path hx path_relink_path_cells [OF path(1,2)] by (simp_all add: m1_def)
  then have "focus m2 (Br x RED Lf xk xv Lf) fs"
    using path by (simp add: focus_def m2_def m1_def)
  from paint_at_focus [OF this, of BLACK] obtain m3 where m3: "rb_paint (Some x) BLACK m2 = Some m3"
      "focus m3 (Br x BLACK Lf xk xv Lf) fs" "same_counters m2 m3"
    by blast
  have par: "path_ptr fs \<noteq> None"
    using ne by (cases fs) auto
  have "rb_replace_by_child m (Some a) = Some m3"
    unfolding rb_replace_by_child_def
    using focus_cell [OF f] direction_at_focus [OF f] x m1 \<open>rb_heap m1 x = Some ?x\<close> par m3(1)
    by (auto simp: node_defs Let_def m2_def)
  moreover have "same_counters m m2"
    by (simp add: same_counters_def m2_def m1_def)
  ultimately show ?thesis
    using m3 by (auto intro: same_counters_trans)
qed

section \<open>The successor\<close>

fun goes_left :: "('k, 'v) frame \<Rightarrow> bool" where
  "goes_left (FL a c k v r) = True"
| "goes_left (FR a c k v l) = False"

lemma find_successor_at_focus:
  assumes "cells h par t" and "t \<noteq> Lf"
  shows "\<exists>s sc sk sv sr ps. t = plug (Br s sc Lf sk sv sr) ps \<and> list_all goes_left ps \<and>
    (\<forall>q. rb_find_successor h q (ptr_of t) = Some (if ps = [] then q else path_ptr ps, Some s))"
  using assms
proof (induction t arbitrary: par)
  case (Br a c l k v r)
  show ?case
  proof (cases "l = Lf")
    case True
    then have "rb_find_successor h q (Some a) = Some (q, Some a)" for q
      using Br.prems(1) by (subst rb_find_successor.simps) simp
    then show ?thesis
      using True by (intro exI [of _ a] exI [of _ c] exI [of _ k] exI [of _ v] exI [of _ r] exI [of _ "[]"]) simp
  next
    case False
    obtain s sc sk sv sr ps where IH: "l = plug (Br s sc Lf sk sv sr) ps" "list_all goes_left ps"
        "\<And>q. rb_find_successor h q (ptr_of l) = Some (if ps = [] then q else path_ptr ps, Some s)"
      using Br.IH(1) [of "Some a"] Br.prems(1) False by auto
    let ?ps = "ps @ [FL a c k v r]"
    have "rb_find_successor h q (Some a) = Some (path_ptr ?ps, Some s)" for q
      using Br.prems(1) False IH(3) [of "Some a"]
      by (subst rb_find_successor.simps, cases ps) auto
    then have "\<forall>q. rb_find_successor h q (ptr_of (Br a c l k v r)) =
        Some (if ?ps = [] then q else path_ptr ?ps, Some s)"
      by simp
    moreover have "Br a c l k v r = plug (Br s sc Lf sk sv sr) ?ps" "list_all goes_left ?ps"
      using IH(1,2) by (simp_all add: plug_append)
    ultimately show ?thesis by blast
  qed
qed simp

lemma data_at_focus:
  assumes "focus m (Br a c l k v r) fs"
  shows "\<exists>m'. assign (Some a) (\<lambda>x. x\<lparr>n_key := k', n_value := v'\<rparr>) (rb_heap m) = Some (rb_heap m') \<and>
    m' = m\<lparr>rb_heap := rb_heap m'\<rparr> \<and> focus m' (Br a c l k' v' r) fs"
  using assms
  by (intro exI [of _ "m\<lparr>rb_heap := (rb_heap m)(a \<mapsto> \<lparr>n_color = c, n_key = k', n_value = v',
      n_parent = path_ptr fs, n_left = ptr_of l, n_right = ptr_of r\<rparr>)\<rparr>"]) (auto simp: focus_def)

lemma maintainRelationship_noop:
  assumes "focus m (Br a c l k v r) fs"
  shows "rb_maintainRelationship (Some a) (rb_heap m) = Some (rb_heap m)"
  using assms maintainRelationship_children [of "rb_heap m" a _ l r "Some a" "Some a"]
  by (auto simp: focus_def reparent_same)

text \<open>Case 1 of \<open>remove\<close>: the data of the node and of its successor change places.\<close>

lemma swap_at_focus:
  assumes f: "focus m (Br a c l k v (plug (Br s sc Lf sk sv sr) ps)) fs"
  shows "\<exists>h1 m'. rb_swap_data (Some a) (Some s) (rb_heap m) = Some h1 \<and> m' = m\<lparr>rb_heap := h1\<rparr> \<and>
    focus m' (Br s sc Lf k v sr) (ps @ FR a c sk sv l # fs) \<and>
    rb_maintainRelationship (if ps = [] then Some a else path_ptr ps) h1 = Some h1"
proof -
  have fs: "focus m (Br s sc Lf sk sv sr) (ps @ FR a c k v l # fs)"
    using f by (simp add: focus_append [symmetric] focus_up)
  have s: "rb_heap m s = Some \<lparr>n_color = sc, n_key = sk, n_value = sv,
      n_parent = path_ptr (ps @ FR a c k v l # fs), n_left = None, n_right = ptr_of sr\<rparr>"
    using focus_cell [OF fs] by simp
  obtain m1 where m1: "assign (Some a) (\<lambda>x. x\<lparr>n_key := sk, n_value := sv\<rparr>) (rb_heap m) = Some (rb_heap m1)"
      "m1 = m\<lparr>rb_heap := rb_heap m1\<rparr>" "focus m1 (Br a c l sk sv (plug (Br s sc Lf sk sv sr) ps)) fs"
    using data_at_focus [OF f] by blast
  have "focus m1 (Br s sc Lf sk sv sr) (ps @ FR a c sk sv l # fs)"
    using m1(3) by (simp add: focus_append [symmetric] focus_up)
  from data_at_focus [OF this] obtain m2 where
    m2: "assign (Some s) (\<lambda>x. x\<lparr>n_key := k, n_value := v\<rparr>) (rb_heap m1) = Some (rb_heap m2)"
      "m2 = m1\<lparr>rb_heap := rb_heap m2\<rparr>" "focus m2 (Br s sc Lf k v sr) (ps @ FR a c sk sv l # fs)"
    by blast
  have "rb_swap_data (Some a) (Some s) (rb_heap m) = Some (rb_heap m2)"
    using focus_cell [OF f] s m1(1) m2(1) by (simp add: rb_swap_data_def del: assign_simps)
  moreover have "m2 = m\<lparr>rb_heap := rb_heap m2\<rparr>"
    using m1(2) m2(2) by (metis rb_map.update_convs(1) rb_map.cases rb_map.select_convs(1))
  moreover have "rb_maintainRelationship (if ps = [] then Some a else path_ptr ps) (rb_heap m2) = Some (rb_heap m2)"
  proof -
    define g where "g = hd (ps @ FR a c sk sv l # fs)"
    define gs where "gs = tl (ps @ FR a c sk sv l # fs)"
    have g: "ps @ FR a c sk sv l # fs = g # gs" "(if ps = [] then Some a else path_ptr ps) = Some (frame_addr g)"
      by (cases ps; simp add: g_def gs_def)+
    obtain c' l' k' v' r' where p: "plug1 (Br s sc Lf k v sr) g = Br (frame_addr g) c' l' k' v' r'"
      using plug1_node [of "Br s sc Lf k v sr" g] by blast
    have "focus m2 (Br (frame_addr g) c' l' k' v' r') gs"
      using m2(3) g(1) p by (simp add: focus_up)
    from maintainRelationship_noop [OF this] show ?thesis
      using g(2) by simp
  qed
  ultimately show ?thesis
    using m2(3) by blast
qed

section \<open>Removing the node in focus\<close>

lemma frame_in_plug: "f \<in> set fs \<Longrightarrow> frame_addr f \<in> set (addrs (plug t fs))"
proof (induction fs arbitrary: t)
  case (Cons g fs)
  show ?case
  proof (cases "f = g")
    case True
    obtain k v where "(frame_addr g, k, v) \<in> set (rb_data (plug1 t g))"
      by (cases g) auto
    from data_plug_member [OF this, of fs] True show ?thesis
      by (force simp: set_addrs)
  next
    case False
    with Cons show ?thesis by simp
  qed
qed simp

lemma inorder_cong: "rb_data t = rb_data u \<Longrightarrow> rb_inorder t = rb_inorder u"
  by (simp add: inorder_data)

lemma path_left:
  assumes "list_all goes_left ps"
  shows "path_before (ps @ fs) = path_before fs"
    and "path_after (ps @ fs) = path_after ps @ path_after fs"
    and "path_before ps = []"
  using assms by (induction ps rule: path_before.induct) auto

text \<open>
  The node in focus has no child, or one child and a parent. It goes, and the entries around it
  and below it stay.
\<close>

lemma take_out_at_focus:
  assumes f: "focus m (Br a c l k v r) fs" and ne: "fs \<noteq> []" and one: "l = Lf \<or> r = Lf"
    and r: "\<exists>H. rbi (plug (Br a c l k v r) fs) H"
  shows "\<exists>m' t'. (if l = Lf \<and> r = Lf then rb_unlink_leaf m (Some a) else rb_replace_by_child m (Some a)) = Some m' \<and>
    focus m' t' [] \<and> (\<exists>H. rbi t' H) \<and>
    rb_inorder t' = path_before fs @ rb_inorder l @ rb_inorder r @ path_after fs \<and>
    (\<forall>f \<in> set fs. frame_addr f \<in> set (addrs t')) \<and> same_counters m m'"
proof -
  obtain h where h: "rbi (Br a c l k v r) h" "path_rbi fs h" "fits (Br a c l k v r) fs"
    using r unfolding rbi_plug by blast
  show ?thesis
  proof (cases "l = Lf \<and> r = Lf")
    case True
    then obtain m' fs' where m': "rb_unlink_leaf m (Some a) = Some m'" "focus m' Lf fs'" "path_rbi fs' 0"
        "rb_data (plug Lf fs') = rb_data (plug Lf fs)" "same_counters m m'"
      using unlink_leaf_at_focus [of m a c k v fs h] f ne h by auto
    have "\<exists>H. rbi (plug Lf fs') H"
      unfolding rbi_plug using m'(3) by (intro exI [of _ 0]) (simp add: fits_def)
    moreover have "rb_inorder (plug Lf fs') = path_before fs @ path_after fs"
      using inorder_cong [OF m'(4)] by (simp add: inorder_plug)
    moreover have "\<forall>f \<in> set fs. frame_addr f \<in> set (addrs (plug Lf fs'))"
      using frame_in_plug [of _ fs Lf] m'(4) by (simp add: set_addrs)
    ultimately show ?thesis
      using True m' focus_plug [of m' Lf fs'] by auto
  next
    case False
    then have "(l = Lf) \<noteq> (r = Lf)"
      using one by auto
    then obtain x xk xv where x: "c = BLACK" "h = 1"
        "l = Br x RED Lf xk xv Lf \<and> r = Lf \<or> l = Lf \<and> r = Br x RED Lf xk xv Lf"
      using single_child [OF h(1)] by blast
    let ?t = "Br x BLACK Lf xk xv Lf"
    obtain m' where m': "rb_replace_by_child m (Some a) = Some m'" "focus m' ?t fs" "same_counters m m'"
      using replace_at_focus [of m a l k v r fs x xk xv] f ne x by auto
    have "\<exists>H. rbi (plug ?t fs) H"
      unfolding rbi_plug using h(2) x(2) by (intro exI [of _ 1]) (simp add: fits_def)
    moreover have "rb_inorder (plug ?t fs) = path_before fs @ rb_inorder l @ rb_inorder r @ path_after fs"
      using x(3) by (auto simp: inorder_plug)
    ultimately show ?thesis
      using False m' focus_plug [of m' ?t fs] frame_in_plug [of _ fs ?t] by auto
  qed
qed

lemma rbi_key_value: "rbi (Br a c l k' v' r) h = rbi (Br a c l k v r) h"
  by (cases c) auto

lemma path_rbi_key_value: "path_rbi (ps @ FR a c k' v' l # fs) h = path_rbi (ps @ FR a c k v l # fs) h"
proof (induction ps arbitrary: h)
  case (Cons p ps)
  have "frame_color (hd (ps @ FR a c k' v' l # fs)) = frame_color (hd (ps @ FR a c k v l # fs))"
    by (cases ps) auto
  with Cons show ?case by (auto split: color.split)
qed (simp split: color.split)

lemma rbi_swapped:
  assumes "\<exists>H. rbi (plug (Br a c l k v (plug (Br s sc Lf sk sv sr) ps)) fs) H"
  shows "\<exists>H. rbi (plug (Br s sc Lf k v sr) (ps @ FR a c sk sv l # fs)) H"
proof -
  have "\<exists>H. rbi (plug (Br s sc Lf sk sv sr) (ps @ FR a c k v l # fs)) H"
    using assms by (simp add: plug_append)
  moreover have "frame_color (hd (ps @ FR a c k v l # fs)) = frame_color (hd (ps @ FR a c sk sv l # fs))"
    by (cases ps) auto
  ultimately show ?thesis
    unfolding rbi_plug fits_def
    using rbi_key_value [of s sc Lf k v sr _ sk sv] path_rbi_key_value [of ps a c sk sv l fs _ k v] by auto
qed

lemma path_entries_ne: "fs \<noteq> [] \<Longrightarrow> path_before fs @ path_after fs \<noteq> []"
  by (cases fs rule: path_before.cases) auto

lemma rb_inorder_eq_Nil [simp]: "rb_inorder t = [] \<longleftrightarrow> t = Lf"
  by (cases t) auto

lemma remove_found_at_focus:
  assumes f: "focus m (Br a c l k v r) fs" and r: "\<exists>H. rbi (plug (Br a c l k v r) fs) H"
    and cnt: "rb_count m = length (rb_inorder (plug (Br a c l k v r) fs))"
    and safe: "fs = [] \<Longrightarrow> (l = Lf) = (r = Lf)"
  shows "\<exists>m' t'. rb_remove_found m (Some a) = Some m' \<and> focus m' t' [] \<and> (\<exists>H. rbi t' H) \<and>
    rb_inorder t' = path_before fs @ rb_inorder l @ rb_inorder r @ path_after fs \<and>
    (\<forall>f \<in> set fs. frame_addr f \<in> set (addrs t')) \<and> rb_count m' = rb_count m - 1"
proof -
  have one_iff: "rb_count m = 1 \<longleftrightarrow> fs = [] \<and> l = Lf \<and> r = Lf"
    using cnt path_entries_ne [of fs] by (auto simp: inorder_plug)
  consider (only) "fs = []" "l = Lf" "r = Lf" | (inner) "l \<noteq> Lf" "r \<noteq> Lf"
    | (outer) "fs \<noteq> []" "l = Lf \<or> r = Lf"
    using safe by blast
  then show ?thesis
  proof cases
    case only
    obtain m' where "rb_clear m = Some m'" "focus m' Lf []" "rb_count m' = 0"
      using clear_at_focus f only by blast
    then show ?thesis
      using only one_iff by (intro exI [of _ m'] exI [of _ Lf]) (simp add: rb_remove_found_def)
  next
    case inner
    have cr: "cells (rb_heap m) (Some a) r"
      using f by (simp add: focus_def)
    obtain s sc sk sv sr ps where s: "r = plug (Br s sc Lf sk sv sr) ps" "list_all goes_left ps"
        "\<And>q. rb_find_successor (rb_heap m) q (ptr_of r) = Some (if ps = [] then q else path_ptr ps, Some s)"
      using find_successor_at_focus [OF cr inner(2)] by blast
    let ?fs = "ps @ FR a c sk sv l # fs"
    obtain h1 where h1: "rb_swap_data (Some a) (Some s) (rb_heap m) = Some h1"
        "focus (m\<lparr>rb_heap := h1\<rparr>) (Br s sc Lf k v sr) ?fs"
        "rb_maintainRelationship (if ps = [] then Some a else path_ptr ps) h1 = Some h1"
      using swap_at_focus [OF f [unfolded s(1)]] by blast
    have "\<exists>H. rbi (plug (Br s sc Lf k v sr) ?fs) H"
      using rbi_swapped [OF r [unfolded s(1)]] .
    then obtain m' t' where m': "(if sr = Lf then rb_unlink_leaf (m\<lparr>rb_heap := h1\<rparr>) (Some s)
          else rb_replace_by_child (m\<lparr>rb_heap := h1\<rparr>) (Some s)) = Some m'"
        "focus m' t' []" "\<exists>H. rbi t' H" "rb_inorder t' = path_before ?fs @ rb_inorder sr @ path_after ?fs"
        "\<forall>f \<in> set ?fs. frame_addr f \<in> set (addrs t')" "same_counters (m\<lparr>rb_heap := h1\<rparr>) m'"
      using take_out_at_focus [OF h1(2)] by auto
    have "rb_inorder r = (sk, sv) # rb_inorder sr @ path_after ps"
      using s(1) path_left(3) [OF s(2)] by (simp add: inorder_plug)
    then have ino: "rb_inorder t' = path_before fs @ rb_inorder l @ rb_inorder r @ path_after fs"
      using m'(4) path_left(1,2) [OF s(2), of "FR a c sk sv l # fs"] by simp
    have "rb_remove_found m (Some a) = Some (m'\<lparr>rb_count := rb_count m' - 1\<rparr>)"
      unfolding rb_remove_found_def
      using one_iff inner focus_cell [OF f] s(3) [of "Some a"] h1(1,3) focus_cell [OF h1(2)] m'(1)
      by (simp add: rb_isLeaf_def split: if_splits)
    moreover have "focus (m'\<lparr>rb_count := rb_count m' - 1\<rparr>) t' []"
      using m'(2) by (simp add: focus_def)
    ultimately show ?thesis
      using m'(3,5,6) ino by (auto simp: same_counters_def)
  next
    case outer
    obtain m' t' where m': "(if l = Lf \<and> r = Lf then rb_unlink_leaf m (Some a) else rb_replace_by_child m (Some a)) = Some m'"
        "focus m' t' []" "\<exists>H. rbi t' H"
        "rb_inorder t' = path_before fs @ rb_inorder l @ rb_inorder r @ path_after fs"
        "\<forall>f \<in> set fs. frame_addr f \<in> set (addrs t')" "same_counters m m'"
      using take_out_at_focus [OF f outer r] by blast
    have "rb_remove_found m (Some a) = Some (m'\<lparr>rb_count := rb_count m' - 1\<rparr>)"
      unfolding rb_remove_found_def
      using one_iff outer focus_cell [OF f] m'(1) by (auto simp: rb_isLeaf_def split: if_splits)
    moreover have "focus (m'\<lparr>rb_count := rb_count m' - 1\<rparr>) t' []"
      using m'(2) by (simp add: focus_def)
    ultimately show ?thesis
      using m'(3-6) by (auto simp: same_counters_def)
  qed
qed

section \<open>Removing a key\<close>

lemma addr_in_focus:
  assumes "focus m t fs" and "a \<in> set (addrs t)"
  shows "rb_maintainRelationship (Some a) (rb_heap m) = Some (rb_heap m)"
  using assms
proof (induction t arbitrary: fs)
  case (Br b c l k v r)
  have "focus m l (FL b c k v r # fs)" "focus m r (FR b c k v l # fs)"
    using Br.prems(1) by (simp_all add: focus_up)
  with Br.IH Br.prems maintainRelationship_noop [OF Br.prems(1)] show ?case
    by auto
qed simp

text \<open>The root is not to go while it has exactly one child.\<close>

fun safe_at_root :: "'k \<Rightarrow> ('k, 'v) rbt \<Rightarrow> bool" where
  "safe_at_root k Lf = True"
| "safe_at_root k (Br a c l x w r) = (x = k \<longrightarrow> (l = Lf) = (r = Lf))"

context compare_order
begin

lemma remove_node_step:
  assumes "deref (rb_heap m) p = Some n" and "k \<noteq> n_key n"
    and "child = (if compare k (n_key n) then n_left n else n_right n)"
  shows "rb_remove_node compare m p k =
    (if child = None then Some (m, None)
     else do {
       (m1, res) \<leftarrow> rb_remove_node compare m child k;
       if res \<noteq> None then do {
         h \<leftarrow> rb_maintainRelationship p (rb_heap m1);
         Some (m1\<lparr>rb_heap := h\<rparr>, res)
       }
       else Some (m1, None)
     })"
  using assms by (subst rb_remove_node.simps) (simp add: Let_def)

text \<open>What \<open>remove\<close> does to the entries, to the size and to the nodes above the subtree it is called on.\<close>

definition removes_key :: "('k, 'v) rb_map \<Rightarrow> ('k, 'v) rbt \<Rightarrow> ('k, 'v) path \<Rightarrow> 'k \<Rightarrow> bool" where
  "removes_key m t fs k = (\<exists>m' t'. rb_remove_node compare m (ptr_of t) k = Some (m', map_of (rb_inorder t) k) \<and>
    focus m' t' [] \<and> (\<exists>H. rbi t' H) \<and>
    rb_inorder t' = path_before fs @ del_entries k (rb_inorder t) @ path_after fs \<and>
    rb_count m' = (if has_key k (rb_inorder t) then rb_count m - 1 else rb_count m) \<and>
    (\<forall>f \<in> set fs. frame_addr f \<in> set (addrs t')))"

lemma removes_key_absent:
  assumes "focus m t fs" and "\<exists>H. rbi (plug t fs) H" and "\<not> has_key k (rb_inorder t)"
    and "rb_remove_node compare m (ptr_of t) k = Some (m, None)"
  shows "removes_key m t fs k"
  unfolding removes_key_def
  using assms focus_plug [of m t fs] frame_in_plug [of _ fs t]
  by (intro exI [of _ m] exI [of _ "plug t fs"]) (auto simp: has_key_map_of del_entries_absent inorder_plug)

text \<open>From a child to its parent \<open>f\<close>: the ancestors' \<open>maintainRelationship\<close> finds nothing to do.\<close>

lemma removes_key_up:
  assumes child: "removes_key m t (f # fs) k" and t: "t \<noteq> Lf"
    and p: "plug1 t f = Br (frame_addr f) c l x w r"
    and n: "deref (rb_heap m) (Some (frame_addr f)) = Some n" "n_key n = x" "k \<noteq> x"
      "ptr_of t = (if compare k x then n_left n else n_right n)"
    and e: "map_of (rb_inorder (plug1 t f)) k = map_of (rb_inorder t) k"
      "path_before fs @ del_entries k (rb_inorder (plug1 t f)) @ path_after fs =
       path_before (f # fs) @ del_entries k (rb_inorder t) @ path_after (f # fs)"
  shows "removes_key m (plug1 t f) fs k"
proof -
  obtain m' t' where m': "rb_remove_node compare m (ptr_of t) k = Some (m', map_of (rb_inorder t) k)"
      "focus m' t' []" "\<exists>H. rbi t' H"
      "rb_inorder t' = path_before (f # fs) @ del_entries k (rb_inorder t) @ path_after (f # fs)"
      "rb_count m' = (if has_key k (rb_inorder t) then rb_count m - 1 else rb_count m)"
      "\<forall>f \<in> set (f # fs). frame_addr f \<in> set (addrs t')"
    using child unfolding removes_key_def by blast
  have "rb_maintainRelationship (Some (frame_addr f)) (rb_heap m') = Some (rb_heap m')"
    using addr_in_focus [OF m'(2)] m'(6) by simp
  moreover have "ptr_of t \<noteq> None"
    using t by simp
  ultimately have "rb_remove_node compare m (Some (frame_addr f)) k = Some (m', map_of (rb_inorder t) k)"
    using n(2,3) m'(1) remove_node_step [OF n(1) _ n(4) [folded n(2)]] by (cases "map_of (rb_inorder t) k") simp_all
  moreover have "has_key k (rb_inorder (plug1 t f)) = has_key k (rb_inorder t)"
    using e(1) by (simp add: has_key_map_of)
  ultimately show ?thesis
    unfolding removes_key_def using m' e p by (intro exI [of _ m'] exI [of _ t']) auto
qed

lemma remove_node_at_focus:
  assumes "focus m t fs" and "t \<noteq> Lf" and "sorted_keys compare (rb_inorder t)"
    and "\<exists>H. rbi (plug t fs) H" and "rb_count m = length (rb_inorder (plug t fs))"
    and "fs = [] \<Longrightarrow> safe_at_root k t"
  shows "removes_key m t fs k"
  using assms
proof (induction t arbitrary: fs)
  case (Br a c l x w r)
  have b: "bst compare (Node (erase l) x w 0 (erase r))"
    using Br.prems(3) bst_erase [of compare "Br a c l x w r"] by simp
  note cell = focus_cell [OF Br.prems(1)]
  then obtain n where n: "deref (rb_heap m) (Some a) = Some n" "n_key n = x" "n_left n = ptr_of l" "n_right n = ptr_of r"
    by simp
  show ?case
  proof (cases k x rule: compare_cases)
    case less
    note e = entries_left [OF b less, simplified]
    show ?thesis
    proof (cases "l = Lf")
      case True
      have "rb_remove_node compare m (Some a) k = Some (m, None)"
        using cell less True compare_neq [OF less] remove_node_step [of m "Some a" _ k None] by auto
      moreover have "\<not> has_key k (rb_inorder (Br a c l x w r))"
        using e True by (simp add: has_key_map_of)
      ultimately show ?thesis
        using removes_key_absent [OF Br.prems(1,4)] by simp
    next
      case False
      have "removes_key m l (FL a c x w r # fs) k"
        using Br.prems by (intro Br.IH(1)) (auto simp: focus_up False)
      from removes_key_up [OF this False _ _ n(2)] n show ?thesis
        using less e compare_neq [OF less] by simp
    qed
  next
    case equal
    obtain m' t' where m': "rb_remove_found m (Some a) = Some m'" "focus m' t' []" "\<exists>H. rbi t' H"
        "rb_inorder t' = path_before fs @ rb_inorder l @ rb_inorder r @ path_after fs"
        "\<forall>f \<in> set fs. frame_addr f \<in> set (addrs t')" "rb_count m' = rb_count m - 1"
      using remove_found_at_focus [OF Br.prems(1,4,5)] Br.prems(6) equal by auto
    have "rb_remove_node compare m (Some a) k = Some (m', Some w)"
      using cell equal m'(1) by (subst rb_remove_node.simps) simp
    then show ?thesis
      unfolding removes_key_def using m' entries_here [OF b [folded equal], simplified] equal
      by (intro exI [of _ m'] exI [of _ t']) auto
  next
    case greater
    note e = entries_right [OF b greater, simplified]
    show ?thesis
    proof (cases "r = Lf")
      case True
      have "rb_remove_node compare m (Some a) k = Some (m, None)"
        using cell greater True compare_neq [OF greater] compare_asym [OF greater]
          remove_node_step [of m "Some a" _ k None] by auto
      moreover have "\<not> has_key k (rb_inorder (Br a c l x w r))"
        using e True by (simp add: has_key_map_of)
      ultimately show ?thesis
        using removes_key_absent [OF Br.prems(1,4)] by simp
    next
      case False
      have "removes_key m r (FR a c x w l # fs) k"
        using Br.prems by (intro Br.IH(2)) (auto simp: focus_up False)
      from removes_key_up [OF this False _ _ n(2)] n show ?thesis
        using greater e compare_neq [OF greater] compare_asym [OF greater] by simp
    qed
  qed
qed simp

end

section \<open>The removing operations of the class\<close>

text \<open>
  The removal the class gets wrong: the map has two entries and the key is that of the root. The
  child of the root takes its place but keeps its pointer to the removed node as its parent.
\<close>

definition stale_removal :: "('k, 'v) rb_map \<Rightarrow> 'k \<Rightarrow> bool" where
  "stale_removal m k = (rb_count m = 2 \<and>
     (case deref (rb_heap m) (rb_root m) of None \<Rightarrow> False | Some n \<Rightarrow> n_key n = k))"

lemma safe_at_root_iff:
  assumes "focus m t []" and "\<exists>H. rbi t H" and "rb_count m = length (rb_inorder t)" and "t \<noteq> Lf"
  shows "safe_at_root k t \<longleftrightarrow> \<not> stale_removal m k"
proof -
  obtain a c l x w r where t: "t = Br a c l x w r"
    using assms(4) by (cases t) auto
  have "rb_heap m a = Some \<lparr>n_color = c, n_key = x, n_value = w, n_parent = None, n_left = ptr_of l, n_right = ptr_of r\<rparr>"
      "rb_root m = Some a"
    using assms(1) t by (auto simp: focus_def)
  moreover have "length (rb_inorder t) = 2 \<longleftrightarrow> (l = Lf) \<noteq> (r = Lf)"
  proof
    assume "(l = Lf) \<noteq> (r = Lf)"
    then show "length (rb_inorder t) = 2"
      using single_child assms(2) t by fastforce
  next
    assume "length (rb_inorder t) = 2"
    then show "(l = Lf) \<noteq> (r = Lf)"
      using t by (cases l; cases r) auto
  qed
  ultimately show ?thesis
    using t assms(3) by (auto simp: stale_removal_def)
qed

context compare_order
begin

lemma rb_remove_node_wf:
  assumes "rb_wf compare m" and "\<not> stale_removal m k" and "rb_root m \<noteq> None"
  shows "\<exists>m'. rb_remove_node compare m (rb_root m) k = Some (m', map_of (rb_entries m) k) \<and>
    rb_wf compare m' \<and> rb_entries m' = del_entries k (rb_entries m)"
proof -
  obtain t where t: "focus m t []" "sorted_keys compare (rb_inorder t)" "rb_count m = length (rb_inorder t)"
      "\<exists>H. rbi t H" "rb_entries m = rb_inorder t" "rb_root m = ptr_of t"
    using assms(1) by (rule rb_wfE)
  then have ne: "t \<noteq> Lf"
    using assms(3) by simp
  have "removes_key m t [] k"
    using remove_node_at_focus [OF t(1) ne t(2), of k] t(3,4) safe_at_root_iff [OF t(1,4,3) ne] assms(2) by simp
  then obtain m' t' where m': "rb_remove_node compare m (ptr_of t) k = Some (m', map_of (rb_inorder t) k)"
      "focus m' t' []" "\<exists>H. rbi t' H" "rb_inorder t' = del_entries k (rb_inorder t)"
      "rb_count m' = (if has_key k (rb_inorder t) then rb_count m - 1 else rb_count m)"
    unfolding removes_key_def by auto
  have "rb_wf compare m'"
    using rb_wfI [OF m'(2) _ _ m'(3)] m'(4,5) t(3) sorted_keys_del_entries [OF t(2), of k]
      length_del_entries [OF t(2), of k] by simp
  then show ?thesis
    using m'(1,4) t(5,6) rb_entries_tree [OF m'(2)] by auto
qed

lemma rb_wf_no_root: "rb_wf compare m \<Longrightarrow> rb_root m = None \<longleftrightarrow> rb_entries m = []"
  by (erule rb_wfE) simp

lemma rb_remove_wf:
  assumes "rb_wf compare m" and "\<not> stale_removal m k"
  shows "\<exists>m'. rb_remove compare m k = Some (m', has_key k (rb_entries m)) \<and> rb_wf compare m' \<and>
    rb_entries m' = del_entries k (rb_entries m)"
  using rb_remove_node_wf [OF assms] rb_wf_no_root [OF assms(1)] assms(1)
  by (cases "rb_root m") (auto simp: rb_remove_def has_key_map_of)

lemma rb_getAndRemove_eq:
  assumes "rb_wf compare m" and "\<not> stale_removal m k"
  shows "rb_getAndRemove compare m k =
    map_option (\<lambda>(m', _). case map_of (rb_entries m) k of
        None \<Rightarrow> Inl invalid_key | Some v \<Rightarrow> Inr (m', v)) (rb_remove compare m k)"
  using rb_remove_node_wf [OF assms] rb_wf_no_root [OF assms(1)]
  by (cases "rb_root m") (auto simp: rb_remove_def rb_getAndRemove_def split: option.split)

text \<open>The stale parent pointer is no longer that of a tree.\<close>

lemma rb_remove_stale:
  assumes "rb_wf compare m" and "stale_removal m k"
  shows "\<exists>m'. rb_remove compare m k = Some (m', True) \<and> \<not> rb_wf compare m'"
proof -
  obtain t where t: "focus m t []" "rb_count m = length (rb_inorder t)" "\<exists>H. rbi t H" "rb_root m = ptr_of t"
    using assms(1) by (rule rb_wfE)
  have ne: "t \<noteq> Lf"
    using assms(2) t(4) by (auto simp: stale_removal_def)
  then obtain a c l w r where b: "t = Br a c l k w r" "(l = Lf) \<noteq> (r = Lf)"
    using safe_at_root_iff [OF t(1,3,2) ne, of k] assms(2) by (cases t) auto
  obtain H where H: "rbi (Br a c l k w r) H"
    using t(3) b(1) by blast
  obtain x xk xv where "c = BLACK" "H = 1"
      and x: "l = Br x RED Lf xk xv Lf \<and> r = Lf \<or> l = Lf \<and> r = Br x RED Lf xk xv Lf"
    by (rule single_child [OF H b(2)])
  note x = \<open>c = BLACK\<close> x
  have cells: "rb_heap m a = Some \<lparr>n_color = BLACK, n_key = k, n_value = w, n_parent = None,
        n_left = ptr_of l, n_right = ptr_of r\<rparr>"
      "rb_heap m x = Some \<lparr>n_color = RED, n_key = xk, n_value = xv, n_parent = Some a, n_left = None, n_right = None\<rparr>"
      "rb_root m = Some a" "rb_count m = 2" "a \<noteq> x"
  proof -
    have f: "cells (rb_heap m) None (Br a BLACK l k w r)" "distinct (addrs (Br a BLACK l k w r))"
      using t(1) unfolding b(1) x(1) focus_def by simp_all
    show "rb_root m = Some a" "rb_count m = 2"
      using t(4) assms(2) unfolding b(1) stale_removal_def by simp_all
    show "rb_heap m a = Some \<lparr>n_color = BLACK, n_key = k, n_value = w, n_parent = None,
        n_left = ptr_of l, n_right = ptr_of r\<rparr>"
      using f(1) by simp
    show "rb_heap m x = Some \<lparr>n_color = RED, n_key = xk, n_value = xv, n_parent = Some a, n_left = None, n_right = None\<rparr>"
        "a \<noteq> x"
      using f x(2) by (elim disjE; simp)+
  qed
  let ?m = "m\<lparr>rb_root := Some x, rb_count := 1, rb_heap := (rb_heap m)(x \<mapsto> \<lparr>n_color = BLACK, n_key = xk,
    n_value = xv, n_parent = Some a, n_left = None, n_right = None\<rparr>)\<rparr>"
  have ptrs: "ptr_of l = Some x \<and> ptr_of r = None \<or> ptr_of l = None \<and> ptr_of r = Some x"
    using x(2) by auto
  have "rb_replace_by_child m (Some a) = Some (?m\<lparr>rb_count := 2\<rparr>)"
    using cells ptrs
    by (auto simp: rb_replace_by_child_def rb_direction_def rb_relink_def rb_isRoot_def rb_isBlack_def
        rb_isRed_def rb_paint_def node_defs)
  then have "rb_remove_node compare m (Some a) k = Some (?m, Some w)"
    using cells ptrs by (subst rb_remove_node.simps) (auto simp: rb_remove_found_def rb_isLeaf_def)
  moreover have "\<not> focus ?m u []" for u
    by (cases u) (auto simp: focus_def)
  ultimately show ?thesis
    using cells(3) by (auto simp: rb_remove_def rb_wf_def)
qed

lemma not_stale:
  assumes "rb_wf compare m" and "has_key k (rb_entries m) \<Longrightarrow> length (rb_entries m) \<noteq> 2"
  shows "\<not> stale_removal m k"
proof -
  obtain t where "rb_count m = length (rb_inorder t)" "rb_entries m = rb_inorder t" "rb_root m = ptr_of t"
      "cells (rb_heap m) None t"
    using assms(1) by (rule rb_wfE)
  then show ?thesis
    using assms(2) by (cases t) (auto simp: stale_removal_def)
qed

lemma rb_remove_keys_wf:
  assumes "rb_wf compare m" and "length (rb_entries m) \<le> 1 \<or>
      2 \<le> length (filter (\<lambda>e. fst e \<notin> set ks) (rb_entries m))"
  shows "\<exists>m'. rb_remove_keys compare m ks = Some m' \<and> rb_wf compare m' \<and>
    rb_entries m' = filter (\<lambda>e. fst e \<notin> set ks) (rb_entries m)"
  using assms
proof (induction ks arbitrary: m)
  case (Cons k ks)
  let ?es = "rb_entries m"
  have f: "filter (\<lambda>e. fst e \<notin> set (k # ks)) ?es = filter (\<lambda>e. fst e \<notin> set ks) (del_entries k ?es)"
    by (auto simp: del_entries_def filter_filter intro: filter_cong)
  have len: "length (filter P (del_entries k ?es)) \<le> length (del_entries k ?es)" for P
    by (rule length_filter_le)
  have del: "length (del_entries k ?es) = (if has_key k ?es then length ?es - 1 else length ?es)"
    using length_del_entries rb_wf_facts(1) [OF Cons.prems(1)] by blast
  have "has_key k ?es \<Longrightarrow> length ?es \<noteq> 2"
    using Cons.prems(2) len [of "\<lambda>e. fst e \<notin> set ks"] del unfolding f by auto
  then obtain m1 b where m1: "rb_remove compare m k = Some (m1, b)" "rb_wf compare m1"
      "rb_entries m1 = del_entries k ?es"
    using rb_remove_wf [OF Cons.prems(1) not_stale [OF Cons.prems(1)]] by blast
  have "length (rb_entries m1) \<le> 1 \<or> 2 \<le> length (filter (\<lambda>e. fst e \<notin> set ks) (rb_entries m1))"
    using Cons.prems(2) f del m1(3) by (auto split: if_splits)
  from Cons.IH [OF m1(2) this] m1 f show ?case
    by auto
qed simp

lemma rb_removeAll_wf:
  assumes "rb_wf compare m" and "length (rb_entries m) \<le> 1 \<or>
      2 \<le> length (filter (\<lambda>(k, v). \<not> p k v) (rb_entries m))"
  shows "\<exists>m'. rb_removeAll compare p m = Some m' \<and> rb_wf compare m' \<and>
    rb_entries m' = filter (\<lambda>(k, v). \<not> p k v) (rb_entries m)"
proof -
  obtain t where t: "focus m t []" "rb_entries m = rb_inorder t"
    using assms(1) by (rule rb_wfE)
  let ?ks = "map fst (filter (\<lambda>(k, v). p k v) (rb_entries m))"
  have "fold (\<lambda>(k, v) ks. if p k v then ks @ [k] else ks) es ks =
      ks @ map fst (filter (\<lambda>(k, v). p k v) es)" for es ks
    by (induction es arbitrary: ks) auto
  then have "rb_removeAll compare p m = rb_remove_keys compare m ?ks"
    using forEach_at_focus [OF t(1), of "\<lambda>k v ks. if p k v then ks @ [k] else ks" "[]"] t(2)
    by (simp add: rb_removeAll_def)
  then show ?thesis
    using rb_remove_keys_wf [OF assms(1), of ?ks] assms(2)
    unfolding filter_matching_keys [OF rb_wf_facts(1) [OF assms(1)]] by simp
qed

end

section \<open>Sequences of calls\<close>

text \<open>
  The calls that cannot hit a stale removal, judged by the entries the map has at that point: a
  removal from a map of two entries removes nothing, and \<open>removeAll\<close> leaves at least two entries
  unless there is at most one.
\<close>

fun safe_call :: "('k \<times> 'v) list \<Rightarrow> ('k, 'v) map_call \<Rightarrow> bool" where
  "safe_call es (Remove k) = (has_key k es \<longrightarrow> length es \<noteq> 2)"
| "safe_call es (GetAndRemove k) = (has_key k es \<longrightarrow> length es \<noteq> 2)"
| "safe_call es (RemoveAll p) = (length es \<le> 1 \<or> 2 \<le> length (filter (\<lambda>(k, v). \<not> p k v) es))"
| "safe_call es _ = True"

fun safe_calls :: "'k compare \<Rightarrow> ('k \<times> 'v) list \<Rightarrow> ('k, 'v) map_call list \<Rightarrow> bool" where
  "safe_calls cmp es [] = True"
| "safe_calls cmp es (op # ops) =
     (safe_call es op \<and>
      (case ref_call rb_message cmp es op of None \<Rightarrow> True | Some (es1, res) \<Rightarrow> safe_calls cmp es1 ops))"

lemma rb_call_refines:
  assumes ord: "compare_order cmp" and wf: "rb_wf cmp m" and safe: "safe_call (rb_entries m) op"
  shows "agrees (rb_wf cmp) rb_entries (call (rb_class cmp) m op) (ref_call rb_message cmp (rb_entries m) op)"
proof (cases "removing op")
  case False
  then show ?thesis
    by (rule growing_map.growing_call_refines [OF rb_growing_map [OF ord] wf])
next
  case True
  then consider k where "op = Remove k" | k where "op = GetAndRemove k" | p where "op = RemoveAll p"
    by (cases op) auto
  then show ?thesis
  proof cases
    case (1 k)
    then show ?thesis
      using compare_order.rb_remove_wf [OF ord wf compare_order.not_stale [OF ord wf]] safe
      by (auto simp: rb_class_def)
  next
    case (2 k)
    then have ns: "\<not> stale_removal m k"
      using compare_order.not_stale [OF ord wf] safe by auto
    show ?thesis
      using 2 compare_order.rb_remove_wf [OF ord wf ns] compare_order.rb_getAndRemove_eq [OF ord wf ns] wf
      by (auto simp: rb_class_def lookup_result_def has_key_map_of del_entries_absent split: option.split)
  next
    case (3 p)
    then show ?thesis
      using compare_order.rb_removeAll_wf [OF ord wf, of p] safe by (auto simp: rb_class_def)
  qed
qed

lemma rb_calls_refine:
  assumes "compare_order cmp" and "safe_calls cmp [] ops"
  shows "agrees (rb_wf cmp) rb_entries (calls (rb_class cmp) rb_new ops) (ref_calls rb_message cmp [] ops)"
proof -
  have "agrees (rb_wf cmp) rb_entries (calls (rb_class cmp) rb_new ops)
      (ref_calls rb_message cmp (rb_entries rb_new) ops)"
    by (rule calls_agree [where ok = "safe_calls cmp"])
      (use assms rb_call_refines [OF assms(1)] in \<open>auto simp: rb_wf_new\<close>)
  then show ?thesis
    by (simp add: rb_wf_new)
qed

lemma safe_calls_prefix: "safe_calls cmp es (ops @ ops') \<Longrightarrow> safe_calls cmp es ops"
  by (induction ops arbitrary: es) (auto split: option.splits)

section \<open>Height\<close>

fun rb_depth :: "('k, 'v) rbt \<Rightarrow> nat" where
  "rb_depth Lf = 0"
| "rb_depth (Br a c l k v r) = max (rb_depth l) (rb_depth r) + 1"

lemma rbi_depth: "rbi t h \<Longrightarrow> rb_depth t \<le> 2 * h + (if isRed t then 1 else 0)"
  by (induction t h rule: rbi.induct) (force split: if_splits)+

lemma rbi_entries: "rbi t h \<Longrightarrow> 2 ^ h \<le> length (rb_inorder t) + 1"
proof (induction t h rule: rbi.induct)
  case (3 a l k v r h)
  then obtain g where "h = Suc g" "2 ^ g \<le> length (rb_inorder l) + 1" "2 ^ g \<le> length (rb_inorder r) + 1"
    by (cases h) auto
  then show ?case by simp
qed auto

lemma rbi_log_depth:
  assumes "rbi t h"
  shows "2 ^ (rb_depth t div 2) \<le> length (rb_inorder t) + 1"
proof -
  have "rb_depth t div 2 \<le> h"
    using rbi_depth [OF assms] by (auto split: if_splits)
  then have "(2::nat) ^ (rb_depth t div 2) \<le> 2 ^ h"
    by simp
  with rbi_entries [OF assms] show ?thesis
    by linarith
qed

section \<open>Properties of \<open>RBTreeMap\<close>\<close>

lemmas rb_eval = rb_class_def rb_new_def rb_insert_def rb_first_def rb_from_def rb_paint_def
  rb_attach_def rb_insert_node.simps rb_maintainAfterInsert.simps rb_insert_rotate_def
  rb_direction_def rb_sibling_def rb_hasSibling_def rb_uncle_def rb_hasUncle_def rb_grandParent_def
  rb_rotateLeft_def rb_rotateRight_def rb_maintainRelationship_def rb_relink_def rb_remove_def
  rb_remove_node.simps rb_remove_found_def rb_clear_def rb_find_successor.simps rb_swap_data_def
  rb_unlink_leaf_def rb_replace_by_child_def rb_maintainAfterRemove.simps rb_getCeilingEntry_def
  rb_ceiling_loop.simps rb_climbed_entry_def rb_climb.simps rb_entry_def rb_toEntryList_def
  rb_forEach_def rb_inorderTraversal_def traverse_end rb_push_left.simps rb_traverse_loop.simps
  reading_def rb_size_def node_defs Let_def

text \<open>
  C7. \<open>RBTreeMap\<close> implements the ordered map on its heap of nodes with parent pointers: for every sequence of the public
  calls (size, empty, clear, contains, get, insert, insertIfAbsent, getOrInsert, getOrDefault, assignment through
  \<open>operator[]\<close>, remove, getAndRemove, removeAll, the four neighbour searches, toEntryList, forEach, forEachMut) on a fresh
  map in which no removal takes an entry out of a map of exactly two, the results and exceptions are those of the
  reference implementation: no null or dangling pointer is followed, every loop ends, and the one assertion that
  can fail is that of \<open>contains\<close> on an empty map.
\<close>

theorem rb_refines_reference:
  assumes "compare_order cmp" and "safe_calls cmp [] ops"
  shows "case ref_calls rb_message cmp [] ops of
      None \<Rightarrow> calls (rb_class cmp) rb_new ops = None \<and>
        (\<exists>before k after m ress. ops = before @ Contains k # after \<and>
          calls (rb_class cmp) rb_new before = Some (m, ress) \<and> rb_toEntryList m = Some [])
    | Some (es, ress) \<Rightarrow> \<exists>m. calls (rb_class cmp) rb_new ops = Some (m, ress) \<and> rb_toEntryList m = Some es"
proof (cases "ref_calls rb_message cmp [] ops")
  case None
  then obtain before k after ress where b: "ops = before @ Contains k # after"
      "ref_calls rb_message cmp [] before = Some ([], ress)"
    by (auto simp: ref_calls_None)
  then have "safe_calls cmp [] before"
    using safe_calls_prefix assms(2) by blast
  then obtain m where "calls (rb_class cmp) rb_new before = Some (m, ress)" "rb_toEntryList m = Some []"
    using rb_calls_refine [OF assms(1), of before] b(2) by (auto simp: rb_wf_facts)
  then show ?thesis
    using None b(1) rb_calls_refine [OF assms] by (auto simp del: append_eq_append_conv)
next
  case (Some r)
  then show ?thesis
    using rb_calls_refine [OF assms] by (cases r) (auto simp: rb_wf_facts)
qed

theorem rb_refines_reference_witness:
  "\<exists>m. calls (rb_class std_less) rb_new
      [Insert (2::nat) ''b'', Insert 1 ''a'', Insert 3 ''c'', Remove 2, GetHigher 1, GetCeiling 4] =
    Some (m, [Done, Done, Done, Flag True, Ent (3, ''c''),
      Threw (NoSuchMappingException ''No ceiling entry exists in this map'')])"
  using rb_refines_reference [OF less.compare_order_axioms,
      of "[Insert (2::nat) ''b'', Insert 1 ''a'', Insert 3 ''c'', Remove 2, GetHigher 1, GetCeiling 4]"]
  by (auto simp: upd_entries_def lt_part_def gt_part_def first_such_def rb_message_def)

text \<open>
  C8. The tree stays a red-black tree of logarithmic height through the same sequences of calls: the
  nodes of the heap form a tree without a red child of a red node and with equally many black
  nodes on every path, and the depth \<open>d\<close> and the number of entries \<open>n\<close> satisfy
  \<open>2 ^ (d div 2) \<le> n + 1\<close>. The sequence gets to its end, with the results of the reference, unless it calls
  \<open>contains\<close> on an empty map.
\<close>

theorem rb_calls_balanced:
  assumes "compare_order cmp" and "safe_calls cmp [] ops"
  shows "case ref_calls rb_message cmp [] ops of
      None \<Rightarrow> calls (rb_class cmp) rb_new ops = None
    | Some (es, ress) \<Rightarrow> \<exists>m t h. calls (rb_class cmp) rb_new ops = Some (m, ress) \<and> focus m t [] \<and>
        rb_inorder t = es \<and> rbi t h \<and> 2 ^ (rb_depth t div 2) \<le> rb_size m + 1"
proof -
  have "\<exists>t h. focus m t [] \<and> rb_inorder t = rb_entries m \<and> rbi t h \<and> 2 ^ (rb_depth t div 2) \<le> rb_size m + 1"
    if wf: "rb_wf cmp m" for m
  proof -
    obtain t h where "focus m t []" "rb_count m = length (rb_inorder t)" "rbi t h"
      using wf unfolding rb_wf_def by blast
    with rbi_log_depth [of t h] rb_entries_tree [of m t] show ?thesis
      by (auto simp: rb_size_def)
  qed
  with rb_calls_refine [OF assms] show ?thesis
    by (fastforce simp: agrees_def split: option.splits)
qed

theorem rb_calls_balanced_witness:
  "\<exists>m ress t h. calls (rb_class std_less) rb_new (map (\<lambda>k. Insert (k::nat) ()) [0..<20] @ [Remove 7]) =
      Some (m, ress) \<and> focus m t [] \<and> rbi t h \<and> 2 ^ (rb_depth t div 2) \<le> rb_size m + 1"
  using rb_calls_balanced [OF less.compare_order_axioms, of "map (\<lambda>k. Insert (k::nat) ()) [0..<20] @ [Remove 7]"]
  by (auto simp: upt_conv_Cons upd_entries_def lt_part_def gt_part_def)

text \<open>
  C9. Exactly when \<open>remove\<close> goes wrong. On a well-formed map it returns whether the key was there,
  and it leaves a well-formed map unless the map has two entries and the key is that of the root;
  in that case the map it leaves is never well-formed.
\<close>

theorem rb_remove_wf_iff:
  assumes "compare_order cmp" and "rb_wf cmp m"
  shows "\<exists>m'. rb_remove cmp m k = Some (m', has_key k (rb_entries m)) \<and>
    (rb_wf cmp m' \<longleftrightarrow> \<not> stale_removal m k) \<and>
    (\<not> stale_removal m k \<longrightarrow> rb_entries m' = del_entries k (rb_entries m))"
proof (cases "stale_removal m k")
  case True
  then have "has_key k (rb_entries m)"
    using compare_order.not_stale [OF assms] by blast
  with True compare_order.rb_remove_stale [OF assms True] show ?thesis by auto
next
  case False
  with compare_order.rb_remove_wf [OF assms False] show ?thesis by auto
qed

theorem rb_remove_wf_iff_witness:
  "\<exists>m m'. rb_insert std_less rb_new (2::nat) () \<bind> (\<lambda>m. rb_insert std_less m 1 ()) = Some m \<and>
    stale_removal m 2 \<and> rb_remove std_less m 2 = Some (m', True) \<and> \<not> rb_wf std_less m'"
proof -
  obtain m1 where m1: "rb_insert std_less rb_new (2::nat) () = Some m1" "rb_wf std_less m1"
      "rb_entries m1 = [(2, ())]"
    using less.rb_insert_wf [OF rb_wf_new(1), of 2 "()"] by (auto simp: rb_wf_new upd_entries_def)
  obtain m where m: "rb_insert std_less m1 1 () = Some m" "rb_wf std_less m" "rb_entries m = [(1, ()), (2, ())]"
    using less.rb_insert_wf [OF m1(2), of 1 "()"] m1(3) by (auto simp: upd_entries_def lt_part_def gt_part_def)
  have "rb_insert std_less rb_new (2::nat) () \<bind> (\<lambda>m. rb_insert std_less m 1 ()) = Some m"
    using m1(1) m(1) by simp
  moreover from this have "stale_removal m 2"
    by (simp add: rb_eval stale_removal_def split: if_splits) (auto simp: rb_eval)
  ultimately show ?thesis
    using rb_remove_wf_iff [OF less.compare_order_axioms m(2), of 2] m(3) by auto
qed

text \<open>
  What follows from the stale pointer. After 2 and 1 are inserted and 2 is removed, the ceiling of
  3 is the removed entry 2, read through the pointer the new root kept; and entries inserted
  later get lost: 3 and 4 count for the size, yet the map lists only 1.
\<close>

theorem rb_remove_stale_pointer:
  "(\<exists>m. calls (rb_class std_less) rb_new [Insert (2::nat) (), Insert 1 (), Remove 2, GetCeiling 3] =
      Some (m, [Done, Done, Flag True, Ent (2, ())])) \<and>
   (\<exists>m. calls (rb_class std_less) rb_new
        [Insert (2::nat) (), Insert 1 (), Remove 2, Insert 3 (), Insert 4 (), ToEntryList, Size] =
      Some (m, [Done, Done, Flag True, Done, Done, Entries [(1, ())], Count 3]))"
  by (intro conjI; simp add: rb_eval cong: bind_weak_cong)

text \<open>
  \<open>contains\<close> of the red-black map walks from the root to the key and answers on every map that
  has entries; on an empty map \<open>getNode\<close> asserts that the root is not null.
\<close>

theorem rb_contains_spec:
  assumes "compare_order cmp" and "rb_wf cmp m"
  shows "rb_contains cmp m k = (if rb_empty m then None else Some (has_key k (rb_entries m)))"
  using compare_order.rb_contains_has_key [OF assms] rb_wf_facts(4) [OF assms(2)] by simp

theorem rb_contains_spec_witness:
  "rb_contains std_less (rb_new :: (nat, unit) rb_map) 1 = None"
  using rb_contains_spec [OF less.compare_order_axioms rb_wf_new(1), of "1::nat"]
  by (simp add: rb_empty_def rb_new_def)

text \<open>
  \<open>forEachMut\<close> of the red-black map, with its explicit stack, visits the entries in key order,
  threads the state of the callback through the visits and writes each value the callback leaves
  into its node; keys, order and size stay, and the map stays well-formed.
\<close>

theorem rb_forEachMut_spec:
  assumes "compare_order cmp" and "rb_wf cmp m"
  shows "\<exists>m'. rb_forEachMut action m s = Some (m', snd (thread_values action (rb_entries m) s)) \<and>
    rb_entries m' = fst (thread_values action (rb_entries m) s) \<and> rb_size m' = rb_size m \<and> rb_wf cmp m'"
proof -
  obtain m' where m': "rb_forEachMut action m s = Some (m', snd (thread_values action (rb_entries m) s))"
      "rb_wf cmp m'" "rb_entries m' = fst (thread_values action (rb_entries m) s)"
    using compare_order.rb_forEachMut_wf [OF assms, of action s] by blast
  then show ?thesis
    using rb_wf_facts(2) [OF m'(2)] rb_wf_facts(2) [OF assms(2)]
      map_eq_imp_length_eq [OF keys_thread_values [of action "rb_entries m" s]] by simp
qed

theorem rb_forEachMut_spec_witness:
  "\<exists>m m'. rb_insert std_less rb_new (2::nat) (5::nat) = Some m \<and>
    rb_forEachMut (\<lambda>k v n. (v + n, n + 1)) m 10 = Some (m', 11) \<and> rb_entries m' = [(2, 15)]"
proof -
  obtain m where m: "rb_insert std_less rb_new (2::nat) (5::nat) = Some m" "rb_wf std_less m" "rb_entries m = [(2, 5)]"
    using less.rb_insert_wf [OF rb_wf_new(1), of 2 "5::nat"] by (auto simp: rb_wf_new upd_entries_def)
  with rb_forEachMut_spec [OF less.compare_order_axioms m(2), of "\<lambda>k v n. (v + n, n + 1)" 10] show ?thesis
    by auto
qed

end
