(* ===== verification/RangeAdd.thy ===== *)
theory RangeAdd
  imports SegTree "HOL-Library.Word"
begin

text \<open>
  Segment trees with range addition: the program \<^verbatim>\<open>seg/seg_1.cpp\<close> and the class
  \<open>SegTreeLazyRangeAdd\<close> of \<^verbatim>\<open>seg/seg_4.hpp\<close>. Node \<open>p\<close> stores the sum of its cells, with the changes
  pending at \<open>p\<close> counted in and those pending above it left out.
\<close>

section \<open>The program \<open>seg_1.cpp\<close>\<close>

definition seg1_build :: "(nat \<Rightarrow> 'a::plus) \<Rightarrow> nat \<Rightarrow> nat \<Rightarrow> nat \<Rightarrow> 'a seg \<Rightarrow> 'a seg option" where
  "seg1_build = seg_build 100005"

definition seg1_apply :: "'a::comm_ring_1 \<Rightarrow> nat \<Rightarrow> nat \<Rightarrow> nat \<Rightarrow> 'a seg \<Rightarrow> 'a seg option" where
  "seg1_apply c s t p S = do {
     x \<leftarrow> get_d p S;
     S1 \<leftarrow> put_d p (x + of_nat (t - s + 1) * c) S;
     y \<leftarrow> get_b p S1;
     put_b p (y + c) S1
   }"

definition seg1_push :: "nat \<Rightarrow> nat \<Rightarrow> nat \<Rightarrow> 'a::comm_ring_1 seg \<Rightarrow> 'a seg option" where
  "seg1_push s t p S = do {
     let m = middle s t;
     bp \<leftarrow> get_b p S;
     S1 \<leftarrow> (if bp \<noteq> 0 then do {
              x \<leftarrow> get_d (2 * p) S;
              S1 \<leftarrow> put_d (2 * p) (x + bp * of_nat (m - s + 1)) S;
              y \<leftarrow> get_d (2 * p + 1) S1;
              S2 \<leftarrow> put_d (2 * p + 1) (y + bp * of_nat (t - m)) S1;
              u \<leftarrow> get_b (2 * p) S2;
              S3 \<leftarrow> put_b (2 * p) (u + bp) S2;
              v \<leftarrow> get_b (2 * p + 1) S3;
              put_b (2 * p + 1) (v + bp) S3
            }
            else Some S);
     put_b p 0 S1
   }"

partial_function (option) seg1_update ::
  "nat \<Rightarrow> nat \<Rightarrow> 'a::comm_ring_1 \<Rightarrow> nat \<Rightarrow> nat \<Rightarrow> nat \<Rightarrow> 'a seg \<Rightarrow> 'a seg option" where [code]:
  "seg1_update l r c s t p S =
     (if l \<le> s \<and> t \<le> r then seg1_apply c s t p S
      else do {
        let m = middle s t;
        S1 \<leftarrow> seg1_push s t p S;
        S2 \<leftarrow> (if l \<le> m then seg1_update l r c s m (2 * p) S1 else Some S1);
        S3 \<leftarrow> (if r > m then seg1_update l r c (m + 1) t (2 * p + 1) S2 else Some S2);
        seg_pull p S3
      })"

partial_function (option) seg1_getsum ::
  "nat \<Rightarrow> nat \<Rightarrow> nat \<Rightarrow> nat \<Rightarrow> nat \<Rightarrow> 'a::comm_ring_1 seg \<Rightarrow> ('a seg \<times> 'a) option" where [code]:
  "seg1_getsum l r s t p S =
     (if l \<le> s \<and> t \<le> r then do { x \<leftarrow> get_d p S; Some (S, x) }
      else do {
        let m = middle s t;
        S1 \<leftarrow> seg1_push s t p S;
        let sm = 0;
        (S2, sm) \<leftarrow> (if l \<le> m then seg1_getsum l r s m (2 * p) S1 else Some (S1, sm));
        (S3, sm) \<leftarrow> (if r > m then do {
                      (S3, y) \<leftarrow> seg1_getsum l r (m + 1) t (2 * p + 1) S2;
                      Some (S3, sm + y)
                    }
                    else Some (S2, sm));
        Some (S3, sm)
      })"

text \<open>The loop over the operations: \<open>i1 i2 i3\<close> and, for an update, \<open>i4\<close>; the numbers printed.\<close>

fun seg1_loop ::
  "nat \<Rightarrow> (nat \<times> nat \<times> nat \<times> 'a::comm_ring_1) list \<Rightarrow> 'a seg \<Rightarrow> 'a list option" where
  "seg1_loop n [] S = Some []"
| "seg1_loop n ((i1, i2, i3, i4) # qs) S =
     (if i1 = 2 then do {
        (S', x) \<leftarrow> seg1_getsum i2 i3 1 n 1 S;
        out \<leftarrow> seg1_loop n qs S';
        Some (x # out)
      }
      else do {
        S' \<leftarrow> seg1_update i2 i3 i4 1 n 1 S;
        seg1_loop n qs S'
      })"

definition seg1_main ::
  "nat \<Rightarrow> (nat \<Rightarrow> 'a::comm_ring_1) \<Rightarrow> (nat \<times> nat \<times> nat \<times> 'a) list \<Rightarrow> 'a list option" where
  "seg1_main n a qs = do {
     S \<leftarrow> seg1_build a 1 n 1 \<lparr>seg_n = 270000, seg_d = \<lambda>_. 0, seg_b = \<lambda>_. 0\<rparr>;
     seg1_loop n qs S
   }"

section \<open>The class \<open>SegTreeLazyRangeAdd\<close> of \<open>seg_4.hpp\<close>\<close>

text \<open>
  The members \<open>tree\<close> and \<open>lazy\<close>, both of \<open>n4\<close> elements, and \<open>end\<close>; \<open>root\<close> is always 1 and \<open>arr\<close> is set
  only while \<open>build\<close> runs. The element type is the template argument.
\<close>

record 'a seg_tree =
  st_end :: nat
  st_seg :: "'a seg"

definition seg4_maintain :: "nat \<Rightarrow> nat \<Rightarrow> nat \<Rightarrow> 'a::comm_ring_1 seg \<Rightarrow> 'a seg option" where
  "seg4_maintain cl cr p S = do {
     let cm = middle cl cr;
     lp \<leftarrow> (if cl \<noteq> cr then get_b p S else Some 0);
     if cl \<noteq> cr \<and> lp \<noteq> 0 then do {
       u \<leftarrow> get_b (2 * p) S;
       S1 \<leftarrow> put_b (2 * p) (u + lp) S;
       v \<leftarrow> get_b (2 * p + 1) S1;
       S2 \<leftarrow> put_b (2 * p + 1) (v + lp) S1;
       x \<leftarrow> get_d (2 * p) S2;
       S3 \<leftarrow> put_d (2 * p) (x + lp * of_nat (cm - cl + 1)) S2;
       y \<leftarrow> get_d (2 * p + 1) S3;
       S4 \<leftarrow> put_d (2 * p + 1) (y + lp * of_nat (cr - cm)) S3;
       put_b p 0 S4
     }
     else Some S
   }"

partial_function (option) seg4_range_sum ::
  "nat \<Rightarrow> nat \<Rightarrow> nat \<Rightarrow> nat \<Rightarrow> nat \<Rightarrow> 'a::comm_ring_1 seg \<Rightarrow> ('a seg \<times> 'a) option" where [code]:
  "seg4_range_sum l r cl cr p S =
     (if l \<le> cl \<and> cr \<le> r then do { x \<leftarrow> get_d p S; Some (S, x) }
      else do {
        let m = middle cl cr;
        let sm = 0;
        S1 \<leftarrow> seg4_maintain cl cr p S;
        (S2, sm) \<leftarrow> (if l \<le> m then do {
                      (S2, x) \<leftarrow> seg4_range_sum l r cl m (2 * p) S1;
                      Some (S2, sm + x)
                    }
                    else Some (S1, sm));
        (S3, sm) \<leftarrow> (if r > m then do {
                      (S3, y) \<leftarrow> seg4_range_sum l r (m + 1) cr (2 * p + 1) S2;
                      Some (S3, sm + y)
                    }
                    else Some (S2, sm));
        Some (S3, sm)
      })"

definition seg4_apply :: "'a::comm_ring_1 \<Rightarrow> nat \<Rightarrow> nat \<Rightarrow> nat \<Rightarrow> 'a seg \<Rightarrow> 'a seg option" where
  "seg4_apply v cl cr p S = do {
     x \<leftarrow> get_b p S;
     S1 \<leftarrow> put_b p (x + v) S;
     y \<leftarrow> get_d p S1;
     put_d p (y + of_nat (cr - cl + 1) * v) S1
   }"

partial_function (option) seg4_range_add ::
  "nat \<Rightarrow> nat \<Rightarrow> 'a::comm_ring_1 \<Rightarrow> nat \<Rightarrow> nat \<Rightarrow> nat \<Rightarrow> 'a seg \<Rightarrow> 'a seg option" where [code]:
  "seg4_range_add l r v cl cr p S =
     (if l \<le> cl \<and> cr \<le> r then seg4_apply v cl cr p S
      else do {
        let m = middle cl cr;
        S1 \<leftarrow> seg4_maintain cl cr p S;
        S2 \<leftarrow> (if l \<le> m then seg4_range_add l r v cl m (2 * p) S1 else Some S1);
        S3 \<leftarrow> (if r > m then seg4_range_add l r v (m + 1) cr (2 * p + 1) S2 else Some S2);
        seg_pull p S3
      })"

definition seg4_build :: "'a::comm_ring_1 list \<Rightarrow> nat \<Rightarrow> nat \<Rightarrow> nat \<Rightarrow> 'a seg \<Rightarrow> 'a seg option" where
  "seg4_build v = seg_build (length v) (\<lambda>i. v ! i)"

text \<open>
  The constructor. For an empty vector \<open>end\<close> is \<open>-1\<close> in C++ and 0 here; either way \<open>build\<close> has no
  element to read.
\<close>

definition seg4_new :: "'a::comm_ring_1 list \<Rightarrow> 'a seg_tree option" where
  "seg4_new v = do {
     let n = length v;
     S \<leftarrow> seg4_build v 0 (n - 1) 1 \<lparr>seg_n = n * 4, seg_d = \<lambda>_. 0, seg_b = \<lambda>_. 0\<rparr>;
     Some \<lparr>st_end = n - 1, st_seg = S\<rparr>
   }"

definition seg4_sum :: "nat \<Rightarrow> nat \<Rightarrow> 'a::comm_ring_1 seg_tree \<Rightarrow> ('a seg_tree \<times> 'a) option" where
  "seg4_sum l r T = do {
     (S, x) \<leftarrow> seg4_range_sum l r 0 (st_end T) 1 (st_seg T);
     Some (T\<lparr>st_seg := S\<rparr>, x)
   }"

text \<open>The public \<open>range_add\<close> takes \<open>int val\<close>, which is converted to \<open>T\<close> for the private one.\<close>

definition from_int :: "32 word \<Rightarrow> 'a::comm_ring_1" where
  "from_int v = of_int (sint v)"

definition seg4_add :: "nat \<Rightarrow> nat \<Rightarrow> 32 word \<Rightarrow> 'a::comm_ring_1 seg_tree \<Rightarrow> 'a seg_tree option" where
  "seg4_add l r v T = do {
     S \<leftarrow> seg4_range_add l r (from_int v) 0 (st_end T) 1 (st_seg T);
     Some (T\<lparr>st_seg := S\<rparr>)
   }"

text \<open>\<open>show\<close>: the lines it prints, each with its indentation.\<close>

partial_function (option) seg4_show ::
  "nat \<Rightarrow> nat \<Rightarrow> 'a::comm_ring_1 seg \<Rightarrow> (nat \<times> 'a \<times> 'a) list option" where [code]:
  "seg4_show p depth S =
     (if p > seg_n S then Some []
      else do {
        x \<leftarrow> get_d p S;
        if x = 0 then Some []
        else do {
          ls \<leftarrow> seg4_show (2 * p) (depth + 1) S;
          y \<leftarrow> get_b p S;
          rs \<leftarrow> seg4_show (2 * p + 1) (depth + 1) S;
          Some (ls @ (depth, x, y) # rs)
        }
      })"

section \<open>What a node stands for\<close>

function add_rep ::
  "(nat \<Rightarrow> 'a::comm_ring_1) \<Rightarrow> (nat \<Rightarrow> 'a) \<Rightarrow> nat \<Rightarrow> nat \<Rightarrow> nat \<Rightarrow> (nat \<Rightarrow> 'a) \<Rightarrow> bool" where
  "add_rep d b s t p f =
     (d p = sum f {s..t} \<and>
      (s < t \<longrightarrow> add_rep d b s (middle s t) (2 * p) (\<lambda>i. f i - b p) \<and>
        add_rep d b (middle s t + 1) t (2 * p + 1) (\<lambda>i. f i - b p)))"
  by auto
termination
  by (relation "measure (\<lambda>(d, b, s, t, p, f). t - s)") auto

declare add_rep.simps [simp del]

lemma add_repD:
  assumes "add_rep d b s t p f"
  shows "d p = sum f {s..t}"
    and "s < t \<Longrightarrow> add_rep d b s (middle s t) (2 * p) (\<lambda>i. f i - b p)"
    and "s < t \<Longrightarrow> add_rep d b (middle s t + 1) t (2 * p + 1) (\<lambda>i. f i - b p)"
  using assms by (subst (asm) add_rep.simps, simp)+

lemma add_repI:
  assumes "d p = sum f {s..t}"
    and "s < t \<Longrightarrow> add_rep d b s (middle s t) (2 * p) (\<lambda>i. f i - b p)"
    and "s < t \<Longrightarrow> add_rep d b (middle s t + 1) t (2 * p + 1) (\<lambda>i. f i - b p)"
  shows "add_rep d b s t p f"
  using assms by (subst add_rep.simps) simp

lemma add_rep_cong:
  assumes "add_rep d b s t p f" and "\<And>i. s \<le> i \<Longrightarrow> i \<le> t \<Longrightarrow> f i = g i"
    and "\<And>q. q \<in> sub p \<Longrightarrow> d' q = d q \<and> b' q = b q"
  shows "add_rep d' b' s t p g"
  using assms
proof (induction "t - s" arbitrary: s t p f g rule: less_induct)
  case less
  have sums: "sum f {s..t} = sum g {s..t}"
    by (rule sum.cong) (use less.prems(2) in auto)
  have kids: "add_rep d' b' s (middle s t) (2 * p) (\<lambda>i. g i - b' p)"
      "add_rep d' b' (middle s t + 1) t (2 * p + 1) (\<lambda>i. g i - b' p)" if st: "s < t"
  proof -
    note k = add_repD(2,3) [OF less.prems(1) st]
    show "add_rep d' b' s (middle s t) (2 * p) (\<lambda>i. g i - b' p)"
      by (rule less.hyps [OF _ k(1)]) (use st less.prems(2,3) sub_subset(1) [of p] in auto)
    show "add_rep d' b' (middle s t + 1) t (2 * p + 1) (\<lambda>i. g i - b' p)"
      by (rule less.hyps [OF _ k(2)]) (use st less.prems(2,3) sub_subset(2) [of p] in auto)
  qed
  have "d' p = d p" "d p = sum f {s..t}"
    using less.prems(3) add_repD(1) [OF less.prems(1)] by simp_all
  then show ?case
    using sums kids add_repI [of d' p g s t b'] by simp
qed

lemma add_rep_shift:
  assumes "add_rep d b s t p f" and "s \<le> t" and "0 < p"
  shows "add_rep (d(p := d p + c * of_nat (t - s + 1))) (b(p := b p + c)) s t p (\<lambda>i. f i + c)"
proof -
  let ?d = "d(p := d p + c * of_nat (t - s + 1))" and ?b = "b(p := b p + c)"
  have kids: "add_rep ?d ?b s (middle s t) (2 * p) (\<lambda>i. f i + c - ?b p)"
      "add_rep ?d ?b (middle s t + 1) t (2 * p + 1) (\<lambda>i. f i + c - ?b p)" if st: "s < t"
  proof -
    note k = add_repD(2,3) [OF assms(1) st]
    show "add_rep ?d ?b s (middle s t) (2 * p) (\<lambda>i. f i + c - ?b p)"
      by (rule add_rep_cong [OF k(1)]) (use sub_disjoint [OF assms(3)] in auto)
    show "add_rep ?d ?b (middle s t + 1) t (2 * p + 1) (\<lambda>i. f i + c - ?b p)"
      by (rule add_rep_cong [OF k(2)]) (use sub_disjoint [OF assms(3)] in auto)
  qed
  have "d p = sum f {s..t}"
    by (rule add_repD(1) [OF assms(1)])
  moreover have "sum (\<lambda>i. f i + c) {s..t} = sum f {s..t} + c * of_nat (t - s + 1)"
    using assms(2) by (simp add: sum.distrib Suc_diff_le algebra_simps)
  ultimately show ?thesis
    using kids add_repI [of ?d p "\<lambda>i. f i + c" s t ?b] by simp
qed

definition seg_add_rep :: "'a::comm_ring_1 seg \<Rightarrow> nat \<Rightarrow> nat \<Rightarrow> nat \<Rightarrow> (nat \<Rightarrow> 'a) \<Rightarrow> bool" where
  "seg_add_rep S s t p f = (fits (seg_n S) s t p \<and> add_rep (seg_d S) (seg_b S) s t p f)"

section \<open>The laws of the nodes\<close>

lemma seg_add_rep_cong:
  "seg_add_rep S s t p f \<Longrightarrow> (\<And>i. s \<le> i \<Longrightarrow> i \<le> t \<Longrightarrow> f i = g i) \<Longrightarrow> seg_add_rep S s t p g"
  unfolding seg_add_rep_def using add_rep_cong by blast

lemma seg_add_rep_outside:
  assumes "seg_add_rep S s t p f" and "seg_same_outside A S S'" and "A \<inter> sub p = {}"
  shows "seg_add_rep S' s t p f"
proof -
  have "add_rep (seg_d S') (seg_b S') s t p f"
    by (rule add_rep_cong [of "seg_d S" "seg_b S" s t p f]) (use assms in \<open>auto simp: seg_add_rep_def seg_same_outside_def\<close>)
  then show ?thesis
    using assms(1,2) by (simp add: seg_add_rep_def seg_same_outside_def)
qed

text \<open>\<open>push\<close> in one step; it also covers the case that nothing is pending.\<close>

definition pushed :: "nat \<Rightarrow> nat \<Rightarrow> nat \<Rightarrow> 'a::comm_ring_1 seg \<Rightarrow> 'a seg" where
  "pushed s t p S = S
    \<lparr>seg_d := (seg_d S)
       (2 * p := seg_d S (2 * p) + seg_b S p * of_nat (middle s t - s + 1),
        2 * p + 1 := seg_d S (2 * p + 1) + seg_b S p * of_nat (t - middle s t)),
     seg_b := (seg_b S)(2 * p := seg_b S (2 * p) + seg_b S p, 2 * p + 1 := seg_b S (2 * p + 1) + seg_b S p, p := 0)\<rparr>"

lemma seg1_push_pushed:
  assumes "0 < p" and "2 * p + 1 < seg_n S"
  shows "seg1_push s t p S = Some (pushed s t p S)"
  using assms by (auto simp: seg1_push_def pushed_def Let_def)

lemma pushed_laws:
  assumes "0 < p" and "s < t" and "seg_add_rep S s t p f"
  shows "seg_add_rep (pushed s t p S) s (middle s t) (2 * p) f"
    and "seg_add_rep (pushed s t p S) (middle s t + 1) t (2 * p + 1) f"
    and "seg_clean (pushed s t p S) p" and "seg_same_outside (sub p) S (pushed s t p S)"
    and "seg_add_rep (pushed s t p S) s t p f"
proof -
  let ?m = "middle s t" and ?S = "pushed s t p S"
  have fit: "fits (seg_n S) s t p" and a: "add_rep (seg_d S) (seg_b S) s t p f"
    using assms(3) by (simp_all add: seg_add_rep_def)
  note kids = add_repD(2,3) [OF a assms(2)] and fits = fits_children [OF fit assms(2)] 
    and disj = sub_disjoint [OF assms(1)] sub_siblings [OF assms(1)]
  have len: "t - (?m + 1) + 1 = t - ?m"
    using middle_bounds(2) [OF assms(2)] by simp
  have l: "add_rep (seg_d ?S) (seg_b ?S) s ?m (2 * p) f"
    by (rule add_rep_cong [OF add_rep_shift [OF kids(1), of "seg_b S p"]])
      (use assms disj in \<open>auto simp: pushed_def\<close>)
  have r: "add_rep (seg_d ?S) (seg_b ?S) (?m + 1) t (2 * p + 1) f"
    by (rule add_rep_cong [OF add_rep_shift [OF kids(2), of "seg_b S p", unfolded len]])
      (use assms middle_bounds(2) [OF assms(2)] disj in \<open>auto simp: pushed_def\<close>)
  show "seg_add_rep ?S s ?m (2 * p) f" "seg_add_rep ?S (?m + 1) t (2 * p + 1) f"
    using l r fits by (simp_all add: seg_add_rep_def pushed_def)
  show "seg_clean ?S p"
    using fits_root [OF fit] by (simp add: seg_clean_def pushed_def)
  show "seg_same_outside (sub p) S ?S"
    using sub_children [of p] by (auto simp: seg_same_outside_def pushed_def)
  have "seg_d ?S p = sum f {s..t}" "seg_b ?S p = 0"
    using add_repD(1) [OF a] assms(1) by (simp_all add: pushed_def)
  then have "add_rep (seg_d ?S) (seg_b ?S) s t p f"
    using add_repI [of "seg_d ?S" p f s t "seg_b ?S"] l r by simp
  then show "seg_add_rep ?S s t p f"
    using fit by (simp add: seg_add_rep_def pushed_def)
qed

lemma seg_add_pull:
  assumes "0 < p" and "s < t" and "seg_clean S p" and "seg_add_rep S s (middle s t) (2 * p) f"
    and "seg_add_rep S (middle s t + 1) t (2 * p + 1) f"
  shows "\<exists>S'. seg_pull p S = Some S' \<and> seg_add_rep S' s t p f \<and> seg_same_outside {p} S S'"
proof -
  let ?d = "(seg_d S)(p := seg_d S (2 * p) + seg_d S (2 * p + 1))"
  have f: "fits (seg_n S) s (middle s t) (2 * p)" "fits (seg_n S) (middle s t + 1) t (2 * p + 1)"
    and a: "add_rep (seg_d S) (seg_b S) s (middle s t) (2 * p) f"
      "add_rep (seg_d S) (seg_b S) (middle s t + 1) t (2 * p + 1) f"
    and c: "p < seg_n S" "seg_b S p = 0"
    using assms(3-5) by (simp_all add: seg_add_rep_def seg_clean_def)
  note disj = sub_disjoint [OF assms(1)]
  have k: "add_rep ?d (seg_b S) s (middle s t) (2 * p) (\<lambda>i. f i - seg_b S p)"
    by (rule add_rep_cong [OF a(1)]) (use disj c in auto)
  moreover have "add_rep ?d (seg_b S) (middle s t + 1) t (2 * p + 1) (\<lambda>i. f i - seg_b S p)"
    by (rule add_rep_cong [OF a(2)]) (use disj c in auto)
  moreover have "?d p = sum f {s..t}"
    using add_repD(1) [OF a(1)] add_repD(1) [OF a(2)] sum_middle [OF assms(2), of f] by simp
  ultimately have "add_rep ?d (seg_b S) s t p f"
    using add_repI by blast
  then show ?thesis
    using seg_pull_in [OF fits_root [OF f(2)] c(1)] fits_node [OF c(1) assms(2) f]
    by (simp add: seg_add_rep_def seg_same_outside_def)
qed

lemma seg_add_pull_again:
  assumes "0 < p" and "s < t" and "seg_clean S p" and "seg_add_rep S s t p f"
    and "seg_add_rep S' s (middle s t) (2 * p) f" and "seg_add_rep S' (middle s t + 1) t (2 * p + 1) f"
    and "seg_same_outside (sub (2 * p) \<union> sub (2 * p + 1)) S S'"
  shows "seg_add_rep S' s t p f"
proof -
  have same: "seg_n S' = seg_n S" "seg_d S' p = seg_d S p" "seg_b S' p = 0"
    using assms(3,7) sub_disjoint [OF assms(1)] by (simp_all add: seg_same_outside_def seg_clean_def)
  have "add_rep (seg_d S') (seg_b S') s t p f"
    using add_repI [of "seg_d S'" p f s t "seg_b S'"] add_repD(1) [of "seg_d S" "seg_b S" s t p f] assms(4-6) same
    by (simp add: seg_add_rep_def)
  then show ?thesis
    using assms(4) same(1) by (simp add: seg_add_rep_def)
qed

lemma seg_add_apply:
  assumes "0 < p" and "s \<le> t" and "seg_add_rep S s t p f"
  shows "\<exists>S'. seg1_apply c s t p S = Some S' \<and> seg_add_rep S' s t p (\<lambda>i. f i + c) \<and> seg_same_outside (sub p) S S'"
proof -
  have a: "add_rep (seg_d S) (seg_b S) s t p f" and p: "p < seg_n S"
    using assms(3) fits_root by (auto simp: seg_add_rep_def)
  show ?thesis
    using add_rep_shift [OF a assms(2,1), of c] p assms(3)
    by (auto simp: seg1_apply_def seg_add_rep_def seg_same_outside_def mult.commute [of c])
qed

lemma seg_add_look:
  "seg_add_rep S s t p f \<Longrightarrow> get_d p S = Some (sum f {s..t})"
  using fits_root [of "seg_n S" s t p] add_repD(1) [of "seg_d S" "seg_b S" s t p f] by (simp add: seg_add_rep_def)

lemma seg_add_build:
  assumes "0 < p" and "s \<le> t" and "t < len" and "fits (seg_n S) s t p" and "seg_b S = (\<lambda>_. 0)"
  shows "\<exists>S'. seg_build len a s t p S = Some S' \<and> seg_add_rep S' s t p a"
proof -
  have "add_rep d (\<lambda>_. 0) s t p f" if "sums_of d s t p f" for d s t p and f :: "nat \<Rightarrow> 'a"
    using that
  proof (induction "t - s" arbitrary: s t p rule: less_induct)
    case less
    show ?case
      using add_repI [of d p f s t "\<lambda>_. 0"] sums_ofD [OF less.prems] less.hyps by simp
  qed
  then show ?thesis
    using seg_build_sums [OF assms(1-4), of a] assms(4,5) by (auto simp: seg_add_rep_def)
qed

section \<open>The laws hold\<close>

lemma seg1_nodes: "segment_nodes seg_add_rep seg_clean seg_same_outside seg1_push seg_pull"
proof
  fix p s t :: nat and S :: "'a seg" and f :: "nat \<Rightarrow> 'a"
  assume a: "0 < p" "s < t" "seg_add_rep S s t p f"
  then have "2 * p + 1 < seg_n S"
    using fits_children(4) by (auto simp: seg_add_rep_def)
  then show "\<exists>S'. seg1_push s t p S = Some S' \<and> seg_add_rep S' s (middle s t) (2 * p) f \<and>
      seg_add_rep S' (middle s t + 1) t (2 * p + 1) f \<and> seg_clean S' p \<and> seg_same_outside (sub p) S S'"
    using seg1_push_pushed [OF a(1)] pushed_laws [OF a] by auto
qed (fact seg_add_rep_cong seg_add_rep_outside seg_outside_facts seg_add_pull)+

interpretation seg1: segment_nodes seg_add_rep seg_clean seg_same_outside seg1_push seg_pull
  by (rule seg1_nodes)

interpretation seg1_upd: range_update seg_add_rep seg_clean seg_same_outside seg1_push seg_pull
  "seg1_apply c" "\<lambda>l r. seg1_update l r c" "\<lambda>x. x + c" "\<lambda>_. True" for c
  by unfold_locales (subst seg1_update.simps, simp add: Let_def, rule seg_add_apply)

interpretation seg1_qry: range_query seg_add_rep seg_clean seg_same_outside seg1_push seg_pull
  get_d seg1_getsum "\<lambda>x. x" "\<lambda>x. x"
proof
  show "seg1_getsum l r s t p S =
      (if l \<le> s \<and> t \<le> r then map_option (\<lambda>v. (S, v)) (get_d p S)
       else do {
         S1 \<leftarrow> seg1_push s t p S;
         (S2, x) \<leftarrow> (if l \<le> middle s t then seg1_getsum l r s (middle s t) (2 * p) S1 else Some (S1, 0));
         (S3, y) \<leftarrow> (if middle s t < r then seg1_getsum l r (middle s t + 1) t (2 * p + 1) S2 else Some (S2, 0));
         Some (S3, x + y)
       })" for l r s t p and S :: "'a::comm_ring_1 seg"
    by (subst seg1_getsum.simps)
      (auto simp: Let_def map_option_case split: option.splits Option.bind_splits)
  fix p s t :: nat and S S' :: "'a::comm_ring_1 seg" and f
  show "0 < p \<Longrightarrow> s < t \<Longrightarrow> seg_add_rep S s t p f \<Longrightarrow> seg1_push s t p S = Some S' \<Longrightarrow> seg_add_rep S' s t p f"
    using seg1_push_pushed [of p S s t] pushed_laws(5) [of p s t S f] fits_children(4) [of "seg_n S" s t p]
    by (auto simp: seg_add_rep_def)
qed (auto simp: seg_add_look intro: seg_add_pull_again)

text \<open>The class does at a node what the program does.\<close>

lemma seg4_maintain_pushed:
  assumes "0 < p" and "s < t" and "2 * p + 1 < seg_n S"
  shows "seg4_maintain s t p S = Some (pushed s t p S)"
proof (cases "seg_b S p = 0")
  case True
  then have "(seg_b S)(p := 0) = seg_b S"
    by auto
  then show ?thesis
    using True assms by (simp add: seg4_maintain_def pushed_def Let_def)
next
  case False
  then show ?thesis
    using assms by (simp add: seg4_maintain_def pushed_def Let_def)
qed

lemma seg4_apply_seg1: "p < seg_n S \<Longrightarrow> seg4_apply c s t p S = seg1_apply c s t p S"
  by (simp add: seg4_apply_def seg1_apply_def)

lemma seg4_nodes: "segment_nodes seg_add_rep seg_clean seg_same_outside seg4_maintain seg_pull"
proof
  fix p s t :: nat and S :: "'a seg" and f :: "nat \<Rightarrow> 'a"
  assume a: "0 < p" "s < t" "seg_add_rep S s t p f"
  then have "2 * p + 1 < seg_n S"
    using fits_children(4) by (auto simp: seg_add_rep_def)
  then show "\<exists>S'. seg4_maintain s t p S = Some S' \<and> seg_add_rep S' s (middle s t) (2 * p) f \<and>
      seg_add_rep S' (middle s t + 1) t (2 * p + 1) f \<and> seg_clean S' p \<and> seg_same_outside (sub p) S S'"
    using seg4_maintain_pushed [OF a(1,2)] pushed_laws [OF a] by auto
qed (fact seg_add_rep_cong seg_add_rep_outside seg_outside_facts seg_add_pull)+

interpretation seg4: segment_nodes seg_add_rep seg_clean seg_same_outside seg4_maintain seg_pull
  by (rule seg4_nodes)

interpretation seg4_upd: range_update seg_add_rep seg_clean seg_same_outside seg4_maintain seg_pull
  "seg4_apply c" "\<lambda>l r. seg4_range_add l r c" "\<lambda>x. x + c" "\<lambda>_. True" for c
proof
  show "0 < p \<Longrightarrow> s \<le> t \<Longrightarrow> seg_add_rep S s t p f \<Longrightarrow> \<exists>S'. seg4_apply c s t p S = Some S' \<and>
      seg_add_rep S' s t p (\<lambda>i. f i + c) \<and> seg_same_outside (sub p) S S'" for p s t S f
    using seg_add_apply [of p s t S f c] seg4_apply_seg1 [of p S c s t] fits_root [of "seg_n S" s t p]
    by (simp add: seg_add_rep_def)
qed (subst seg4_range_add.simps, simp add: Let_def)

interpretation seg4_qry: range_query seg_add_rep seg_clean seg_same_outside seg4_maintain seg_pull
  get_d seg4_range_sum "\<lambda>x. x" "\<lambda>x. x"
proof
  show "seg4_range_sum l r s t p S =
      (if l \<le> s \<and> t \<le> r then map_option (\<lambda>v. (S, v)) (get_d p S)
       else do {
         S1 \<leftarrow> seg4_maintain s t p S;
         (S2, x) \<leftarrow> (if l \<le> middle s t then seg4_range_sum l r s (middle s t) (2 * p) S1 else Some (S1, 0));
         (S3, y) \<leftarrow> (if middle s t < r then seg4_range_sum l r (middle s t + 1) t (2 * p + 1) S2 else Some (S2, 0));
         Some (S3, x + y)
       })" for l r s t p and S :: "'a::comm_ring_1 seg"
    by (subst seg4_range_sum.simps)
      (auto simp: Let_def map_option_case split: option.splits Option.bind_splits)
  fix p s t :: nat and S S' :: "'a::comm_ring_1 seg" and f
  show "0 < p \<Longrightarrow> s < t \<Longrightarrow> seg_add_rep S s t p f \<Longrightarrow> seg4_maintain s t p S = Some S' \<Longrightarrow> seg_add_rep S' s t p f"
    using seg4_maintain_pushed [of p s t S] pushed_laws(5) [of p s t S f] fits_children(4) [of "seg_n S" s t p]
    by (auto simp: seg_add_rep_def)
qed (auto simp: seg_add_look intro: seg_add_pull_again)

section \<open>Sequences of operations\<close>

lemma range_sum_inside: "s \<le> l \<Longrightarrow> r \<le> t \<Longrightarrow> range_sum l r s t f = sum f {l..r}"
  by (simp add: range_sum_def max_absorb1 min_absorb1)

interpretation seg1_program: range_program "\<lambda>l r c. seg1_update l r c 1 n 1" "\<lambda>l r. seg1_getsum l r 1 n 1"
  "\<lambda>S f. seg_add_rep S 1 n 1 f" 1 n "\<lambda>_. True" "\<lambda>c x. x + c" "\<lambda>x. x" for n
proof
  fix S :: "'a::comm_ring_1 seg" and f l r c
  assume a: "seg_add_rep S 1 n 1 f" "1 \<le> l" "l \<le> r" "r \<le> n"
  then show "\<exists>S'. seg1_update l r c 1 n 1 S = Some S' \<and> seg_add_rep S' 1 n 1 (changed (\<lambda>x. x + c) l r f)"
    using seg1_upd.update_at_node [of l r 1 1 n S f c] by auto
  show "\<exists>S' v. seg1_getsum l r 1 n 1 S = Some (S', v) \<and> v = sum f {l..r} \<and> seg_add_rep S' 1 n 1 f"
    using seg1_qry.query_at_node [of 1 1 n l r S f] range_sum_inside [of 1 l r n f] a by auto
qed

interpretation seg4_program: range_program "\<lambda>l r c. seg4_add l r c" "\<lambda>l r. seg4_sum l r"
  "\<lambda>T f. st_end T = e \<and> seg_add_rep (st_seg T) 0 e 1 f" 0 e "\<lambda>_. True" "\<lambda>c x. x + from_int c" "\<lambda>x. x" for e
proof
  fix T :: "'a::comm_ring_1 seg_tree" and f l r and c :: "32 word"
  assume a: "st_end T = e \<and> seg_add_rep (st_seg T) 0 e 1 f" "l \<le> r" "r \<le> e"
  then obtain S where "seg4_range_add l r (from_int c) 0 e 1 (st_seg T) = Some S" "seg_add_rep S 0 e 1 (changed (\<lambda>x. x + from_int c) l r f)"
    using seg4_upd.update_at_node [of l r 1 0 e "st_seg T" f "from_int c"] by auto
  then show "\<exists>T'. seg4_add l r c T = Some T' \<and> st_end T' = e \<and> seg_add_rep (st_seg T') 0 e 1 (changed (\<lambda>x. x + from_int c) l r f)"
    using a by (simp add: seg4_add_def)
  obtain S' v where "seg4_range_sum l r 0 e 1 (st_seg T) = Some (S', v)" "v = sum f {l..r}" "seg_add_rep S' 0 e 1 f"
    using seg4_qry.query_at_node [of 1 0 e l r "st_seg T" f] range_sum_inside [of 0 l r e f] a by auto
  then show "\<exists>T' v. seg4_sum l r T = Some (T', v) \<and> v = sum f {l..r} \<and>
      st_end T' = e \<and> seg_add_rep (st_seg T') 0 e 1 f"
    using a by (simp add: seg4_sum_def)
qed

fun seg1_op :: "nat \<times> nat \<times> nat \<times> 'c \<Rightarrow> 'c range_op" where
  "seg1_op (i1, i2, i3, i4) = (if i1 = 2 then Query i2 i3 else Update i2 i3 i4)"

lemma seg1_loop_run:
  "seg1_loop n qs S = run_ranges (\<lambda>l r c. seg1_update l r c 1 n 1) (\<lambda>l r. seg1_getsum l r 1 n 1) (map seg1_op qs) S"
proof (induction qs arbitrary: S)
  case (Cons q qs)
  then have "seg1_loop n qs = run_ranges (\<lambda>l r c. seg1_update l r c 1 n 1) (\<lambda>l r. seg1_getsum l r 1 n 1) (map seg1_op qs)"
    by (rule ext)
  then show ?case
    by (cases q) simp
qed simp

section \<open>Properties\<close>

text \<open>
  C29. \<^verbatim>\<open>seg_1.cpp\<close> prints the right sums: for every array of up to 100004 numbers and every sequence of
  range additions and range sums, no array access of \<open>build\<close>, \<open>update\<close> or \<open>getsum\<close> is out of bounds,
  every recursion ends, and the output is that of the program which adds to each cell of the
  range and sums the cells one by one. It holds over every commutative ring, so over machine
  words with their wrap-around as well as over the integers.
\<close>

theorem seg1_correct:
  fixes a :: "nat \<Rightarrow> 'a::comm_ring_1"
  assumes "1 \<le> n" and "n < 100005" and "list_all (op_in 1 n (\<lambda>_. True)) (map seg1_op qs)"
  shows "seg1_main n a qs = Some (ref_ranges (\<lambda>c x. x + c) a (map seg1_op qs))"
proof -
  have "fits 270000 1 n 1"
    using assms(2) by (intro fits_power [of _ _ 17]) auto
  then obtain S where "seg1_build a 1 n 1 \<lparr>seg_n = 270000, seg_d = \<lambda>_. 0, seg_b = \<lambda>_. 0\<rparr> = Some S"
      "seg_add_rep S 1 n 1 a"
    using seg_add_build [of 1 1 n 100005 "\<lparr>seg_n = 270000, seg_d = \<lambda>_. 0, seg_b = \<lambda>_. 0\<rparr>" a] assms(1,2)
    by (auto simp: seg1_build_def)
  then show ?thesis
    using seg1_program.run_refines [of S n a "map seg1_op qs"] assms(3)
    by (auto simp: seg1_main_def seg1_loop_run)
qed

theorem seg1_correct_witness:
  "seg1_main 3 (\<lambda>i. if i = 2 then 255 else (1 :: 8 word)) [(2, 1, 3, 0), (1, 2, 3, 5), (2, 2, 3, 0)] = Some [1, 10]"
proof -
  let ?a = "\<lambda>i. if i = 2 then 255 else (1 :: 8 word)"
  let ?qs = "[(2, 1, 3, 0), (1, 2, 3, 5), (2, 2, 3, 0)] :: (nat \<times> nat \<times> nat \<times> 8 word) list"
  have "seg1_main 3 ?a ?qs = Some (ref_ranges (\<lambda>c x. x + c) ?a (map seg1_op ?qs))"
    by (rule seg1_correct) simp_all
  then show ?thesis
    by (simp add: sum_range_eval changed_def)
qed

text \<open>
  C30. \<open>SegTreeLazyRangeAdd\<close> built from a vector with at least one and fewer than \<open>2 ^ 29\<close> elements answers every sequence of
  \<open>range_add\<close> and \<open>range_sum\<close> calls with ranges inside the vector as the plain array does, where the 32-bit argument of \<open>range_add\<close> is
  converted to the element type; its vectors of \<open>4 * n\<close> elements are long enough for every access.
\<close>

theorem seg4_correct:
  fixes v :: "'a::comm_ring_1 list"
  assumes "v \<noteq> []" and "length v < 2 ^ 29" and "list_all (op_in 0 (length v - 1) (\<lambda>_. True)) ops"
  shows "seg4_new v \<bind> run_ranges (\<lambda>l r c. seg4_add l r c) (\<lambda>l r. seg4_sum l r) ops =
    Some (ref_ranges (\<lambda>c x. x + of_int (sint c)) (\<lambda>i. v ! i) ops)"
proof -
  let ?S = "\<lparr>seg_n = length v * 4, seg_d = \<lambda>_. 0, seg_b = \<lambda>_. 0 :: 'a\<rparr>"
  have "fits (seg_n ?S) 0 (length v - 1) 1"
    using fits_four [of "length v"] assms(1) by (simp add: mult.commute)
  then obtain S where "seg4_build v 0 (length v - 1) 1 ?S = Some S"
      "seg_add_rep S 0 (length v - 1) 1 (\<lambda>i. v ! i)"
    using seg_add_build [of 1 0 "length v - 1" "length v" ?S "\<lambda>i. v ! i"] assms(1)
    by (auto simp: seg4_build_def)
  then show ?thesis
    using seg4_program.run_refines [of "\<lparr>st_end = length v - 1, st_seg = S\<rparr>" "length v - 1" "\<lambda>i. v ! i" ops] assms(3)
    by (auto simp: seg4_new_def Let_def from_int_def)
qed

theorem seg4_correct_witness:
  "seg4_new [4, 7, -2 :: int] \<bind>
    run_ranges (\<lambda>l r c. seg4_add l r c) (\<lambda>l r. seg4_sum l r) [Update 0 1 10, Query 1 2, Update 0 0 (- 1), Query 0 0] = Some [15, 13]"
proof -
  have "seg4_new [4, 7, -2 :: int] \<bind>
      run_ranges (\<lambda>l r c. seg4_add l r c) (\<lambda>l r. seg4_sum l r) [Update 0 1 10, Query 1 2, Update 0 0 (- 1), Query 0 0] =
    Some (ref_ranges (\<lambda>(c :: 32 word) x. x + of_int (sint c)) (\<lambda>i. [4, 7, -2 :: int] ! i) [Update 0 1 10, Query 1 2, Update 0 0 (- 1), Query 0 0])"
    by (rule seg4_correct) simp_all
  then show ?thesis
    by (simp add: sum_range_eval changed_def)
qed

text \<open>
  \<open>show\<close> reads past the end of its vectors. Its guard lets the index \<open>n4\<close> through, which is one past
  the last element; with six elements node 12 is a leaf, and the call on its left child reads
  \<open>tree[24]\<close> of a vector of 24 elements.
\<close>

lemma seg4_show_out_of_bounds:
  "\<exists>T. seg4_new [1, 1, 1, 1, 1, 1 :: int] = Some T \<and> seg4_show 1 0 (st_seg T) = None"
  by (simp add: seg4_new_def seg4_build_def seg_build.simps seg_pull_def seg4_show.simps get_d_def get_b_def put_d_def
      put_b_def peek_def poke_def Let_def cong: bind_weak_cong)

end
