(* ===== verification/RangeSet.thy ===== *)
theory RangeSet
  imports RangeAdd
begin

text \<open>
  Segment trees with range assignment: the program \<^verbatim>\<open>seg/seg_3.cpp\<close> and the class
  \<open>SegTreeLazyRangeSet\<close> of \<^verbatim>\<open>seg/seg_5.hpp\<close>. A pending change at node \<open>p\<close> is the value all cells of \<open>p\<close> have,
  and 0 stands for no pending change; so an assignment of 0 is lost. The value \<open>range_set\<close> is given is
  an \<open>int\<close>, which is converted to the element type.
\<close>

section \<open>The program \<open>seg_3.cpp\<close>\<close>

definition seg3_build :: "(nat \<Rightarrow> 'a::plus) \<Rightarrow> nat \<Rightarrow> nat \<Rightarrow> nat \<Rightarrow> 'a seg \<Rightarrow> 'a seg option" where
  "seg3_build = seg_build 100005"

definition seg3_apply :: "'a::comm_ring_1 \<Rightarrow> nat \<Rightarrow> nat \<Rightarrow> nat \<Rightarrow> 'a seg \<Rightarrow> 'a seg option" where
  "seg3_apply c s t p S = do {
     S1 \<leftarrow> put_d p (of_nat (t - s + 1) * c) S;
     put_b p c S1
   }"

definition seg3_push :: "nat \<Rightarrow> nat \<Rightarrow> nat \<Rightarrow> 'a::comm_ring_1 seg \<Rightarrow> 'a seg option" where
  "seg3_push s t p S = do {
     let m = middle s t;
     bp \<leftarrow> get_b p S;
     if bp \<noteq> 0 then do {
       S1 \<leftarrow> put_d (2 * p) (bp * of_nat (m - s + 1)) S;
       S2 \<leftarrow> put_d (2 * p + 1) (bp * of_nat (t - m)) S1;
       S3 \<leftarrow> put_b (2 * p + 1) bp S2;
       S4 \<leftarrow> put_b (2 * p) bp S3;
       put_b p 0 S4
     }
     else Some S
   }"

partial_function (option) seg3_update ::
  "nat \<Rightarrow> nat \<Rightarrow> 'a::comm_ring_1 \<Rightarrow> nat \<Rightarrow> nat \<Rightarrow> nat \<Rightarrow> 'a seg \<Rightarrow> 'a seg option" where [code]:
  "seg3_update l r c s t p S =
     (if l \<le> s \<and> t \<le> r then seg3_apply c s t p S
      else do {
        let m = middle s t;
        S1 \<leftarrow> seg3_push s t p S;
        S2 \<leftarrow> (if l \<le> m then seg3_update l r c s m (2 * p) S1 else Some S1);
        S3 \<leftarrow> (if r > m then seg3_update l r c (m + 1) t (2 * p + 1) S2 else Some S2);
        seg_pull p S3
      })"

partial_function (option) seg3_getsum ::
  "nat \<Rightarrow> nat \<Rightarrow> nat \<Rightarrow> nat \<Rightarrow> nat \<Rightarrow> 'a::comm_ring_1 seg \<Rightarrow> ('a seg \<times> 'a) option" where [code]:
  "seg3_getsum l r s t p S =
     (if l \<le> s \<and> t \<le> r then do { x \<leftarrow> get_d p S; Some (S, x) }
      else do {
        let m = middle s t;
        S1 \<leftarrow> seg3_push s t p S;
        let sm = 0;
        (S2, sm) \<leftarrow> (if l \<le> m then seg3_getsum l r s m (2 * p) S1 else Some (S1, sm));
        (S3, sm) \<leftarrow> (if r > m then do {
                      (S3, y) \<leftarrow> seg3_getsum l r (m + 1) t (2 * p + 1) S2;
                      Some (S3, sm + y)
                    }
                    else Some (S2, sm));
        Some (S3, sm)
      })"

fun seg3_loop ::
  "nat \<Rightarrow> (nat \<times> nat \<times> nat \<times> 'a::comm_ring_1) list \<Rightarrow> 'a seg \<Rightarrow> 'a list option" where
  "seg3_loop n [] S = Some []"
| "seg3_loop n ((i1, i2, i3, i4) # qs) S =
     (if i1 = 0 then do {
        (S', x) \<leftarrow> seg3_getsum i2 i3 1 n 1 S;
        out \<leftarrow> seg3_loop n qs S';
        Some (x # out)
      }
      else do {
        S' \<leftarrow> seg3_update i2 i3 i4 1 n 1 S;
        seg3_loop n qs S'
      })"

definition seg3_main ::
  "nat \<Rightarrow> (nat \<Rightarrow> 'a::comm_ring_1) \<Rightarrow> (nat \<times> nat \<times> nat \<times> 'a) list \<Rightarrow> 'a list option" where
  "seg3_main n a qs = do {
     S \<leftarrow> seg3_build a 1 n 1 \<lparr>seg_n = 270000, seg_d = \<lambda>_. 0, seg_b = \<lambda>_. 0\<rparr>;
     seg3_loop n qs S
   }"

section \<open>The class \<open>SegTreeLazyRangeSet\<close> of \<open>seg_5.hpp\<close>\<close>

definition seg5_maintain :: "nat \<Rightarrow> nat \<Rightarrow> nat \<Rightarrow> 'a::comm_ring_1 seg \<Rightarrow> 'a seg option" where
  "seg5_maintain cl cr p S = do {
     let cm = middle cl cr;
     lp \<leftarrow> (if cl \<noteq> cr then get_b p S else Some 0);
     if cl \<noteq> cr \<and> lp \<noteq> 0 then do {
       S1 \<leftarrow> put_b (2 * p) lp S;
       S2 \<leftarrow> put_b (2 * p + 1) lp S1;
       S3 \<leftarrow> put_d (2 * p) (lp * of_nat (cm - cl + 1)) S2;
       S4 \<leftarrow> put_d (2 * p + 1) (lp * of_nat (cr - cm)) S3;
       put_b p 0 S4
     }
     else Some S
   }"

partial_function (option) seg5_range_sum ::
  "nat \<Rightarrow> nat \<Rightarrow> nat \<Rightarrow> nat \<Rightarrow> nat \<Rightarrow> 'a::comm_ring_1 seg \<Rightarrow> ('a seg \<times> 'a) option" where [code]:
  "seg5_range_sum l r cl cr p S =
     (if l \<le> cl \<and> cr \<le> r then do { x \<leftarrow> get_d p S; Some (S, x) }
      else do {
        let m = middle cl cr;
        let sm = 0;
        S1 \<leftarrow> seg5_maintain cl cr p S;
        (S2, sm) \<leftarrow> (if l \<le> m then do {
                      (S2, x) \<leftarrow> seg5_range_sum l r cl m (2 * p) S1;
                      Some (S2, sm + x)
                    }
                    else Some (S1, sm));
        (S3, sm) \<leftarrow> (if r > m then do {
                      (S3, y) \<leftarrow> seg5_range_sum l r (m + 1) cr (2 * p + 1) S2;
                      Some (S3, sm + y)
                    }
                    else Some (S2, sm));
        Some (S3, sm)
      })"

definition seg5_apply :: "'a::comm_ring_1 \<Rightarrow> nat \<Rightarrow> nat \<Rightarrow> nat \<Rightarrow> 'a seg \<Rightarrow> 'a seg option" where
  "seg5_apply v cl cr p S = do {
     S1 \<leftarrow> put_b p v S;
     put_d p (of_nat (cr - cl + 1) * v) S1
   }"

partial_function (option) seg5_range_set ::
  "nat \<Rightarrow> nat \<Rightarrow> 'a::comm_ring_1 \<Rightarrow> nat \<Rightarrow> nat \<Rightarrow> nat \<Rightarrow> 'a seg \<Rightarrow> 'a seg option" where [code]:
  "seg5_range_set l r v cl cr p S =
     (if l \<le> cl \<and> cr \<le> r then seg5_apply v cl cr p S
      else do {
        let m = middle cl cr;
        S1 \<leftarrow> seg5_maintain cl cr p S;
        S2 \<leftarrow> (if l \<le> m then seg5_range_set l r v cl m (2 * p) S1 else Some S1);
        S3 \<leftarrow> (if r > m then seg5_range_set l r v (m + 1) cr (2 * p + 1) S2 else Some S2);
        seg_pull p S3
      })"

definition seg5_build :: "'a::comm_ring_1 list \<Rightarrow> nat \<Rightarrow> nat \<Rightarrow> nat \<Rightarrow> 'a seg \<Rightarrow> 'a seg option" where
  "seg5_build v = seg_build (length v) (\<lambda>i. v ! i)"

definition seg5_new :: "'a::comm_ring_1 list \<Rightarrow> 'a seg_tree option" where
  "seg5_new v = do {
     let n = length v;
     S \<leftarrow> seg5_build v 0 (n - 1) 1 \<lparr>seg_n = n * 4, seg_d = \<lambda>_. 0, seg_b = \<lambda>_. 0\<rparr>;
     Some \<lparr>st_end = n - 1, st_seg = S\<rparr>
   }"

definition seg5_sum :: "nat \<Rightarrow> nat \<Rightarrow> 'a::comm_ring_1 seg_tree \<Rightarrow> ('a seg_tree \<times> 'a) option" where
  "seg5_sum l r T = do {
     (S, x) \<leftarrow> seg5_range_sum l r 0 (st_end T) 1 (st_seg T);
     Some (T\<lparr>st_seg := S\<rparr>, x)
   }"

text \<open>The public \<open>range_set\<close> takes \<open>int val\<close>, which is converted to \<open>T\<close> for the private one.\<close>

definition seg5_set :: "nat \<Rightarrow> nat \<Rightarrow> 32 word \<Rightarrow> 'a::comm_ring_1 seg_tree \<Rightarrow> 'a seg_tree option" where
  "seg5_set l r v T = do {
     S \<leftarrow> seg5_range_set l r (from_int v) 0 (st_end T) 1 (st_seg T);
     Some (T\<lparr>st_seg := S\<rparr>)
   }"

partial_function (option) seg5_show ::
  "nat \<Rightarrow> nat \<Rightarrow> 'a::comm_ring_1 seg \<Rightarrow> (nat \<times> 'a \<times> 'a) list option" where [code]:
  "seg5_show p depth S =
     (if p > seg_n S then Some []
      else do {
        x \<leftarrow> get_d p S;
        if x = 0 then Some []
        else do {
          ls \<leftarrow> seg5_show (2 * p) (depth + 1) S;
          y \<leftarrow> get_b p S;
          rs \<leftarrow> seg5_show (2 * p + 1) (depth + 1) S;
          Some (ls @ (depth, x, y) # rs)
        }
      })"

section \<open>What a node stands for\<close>

function set_rep ::
  "(nat \<Rightarrow> 'a::comm_ring_1) \<Rightarrow> (nat \<Rightarrow> 'a) \<Rightarrow> nat \<Rightarrow> nat \<Rightarrow> nat \<Rightarrow> (nat \<Rightarrow> 'a) \<Rightarrow> bool" where
  "set_rep d b s t p f =
     (d p = sum f {s..t} \<and>
      (s < t \<longrightarrow>
        (if b p = 0 then set_rep d b s (middle s t) (2 * p) f \<and> set_rep d b (middle s t + 1) t (2 * p + 1) f
         else \<forall>i \<in> {s..t}. f i = b p)))"
  by auto
termination
  by (relation "measure (\<lambda>(d, b, s, t, p, f). t - s)") auto

declare set_rep.simps [simp del]

lemma set_repD:
  assumes "set_rep d b s t p f"
  shows "d p = sum f {s..t}"
    and "s < t \<Longrightarrow> b p = 0 \<Longrightarrow> set_rep d b s (middle s t) (2 * p) f"
    and "s < t \<Longrightarrow> b p = 0 \<Longrightarrow> set_rep d b (middle s t + 1) t (2 * p + 1) f"
    and "s < t \<Longrightarrow> b p \<noteq> 0 \<Longrightarrow> s \<le> i \<Longrightarrow> i \<le> t \<Longrightarrow> f i = b p"
  using assms by (subst (asm) set_rep.simps, simp)+

lemma set_repI:
  assumes "d p = sum f {s..t}"
    and "s < t \<Longrightarrow> b p = 0 \<Longrightarrow> set_rep d b s (middle s t) (2 * p) f"
    and "s < t \<Longrightarrow> b p = 0 \<Longrightarrow> set_rep d b (middle s t + 1) t (2 * p + 1) f"
    and "\<And>i. s < t \<Longrightarrow> b p \<noteq> 0 \<Longrightarrow> s \<le> i \<Longrightarrow> i \<le> t \<Longrightarrow> f i = b p"
  shows "set_rep d b s t p f"
  using assms by (subst set_rep.simps) auto

lemma set_rep_cong:
  assumes "set_rep d b s t p f" and "\<And>i. s \<le> i \<Longrightarrow> i \<le> t \<Longrightarrow> f i = g i"
    and "\<And>q. q \<in> sub p \<Longrightarrow> d' q = d q \<and> b' q = b q"
  shows "set_rep d' b' s t p g"
  using assms
proof (induction "t - s" arbitrary: s t p f g rule: less_induct)
  case less
  have p: "d' p = d p" "b' p = b p"
    using less.prems(3) [of p] by simp_all
  show ?case
  proof (rule set_repI)
    have "sum f {s..t} = sum g {s..t}"
      by (rule sum.cong) (use less.prems(2) in auto)
    then show "d' p = sum g {s..t}"
      using set_repD(1) [OF less.prems(1)] p by simp
  next
    assume st: "s < t" and b: "b' p = 0"
    note k = set_repD(2,3) [OF less.prems(1) st b [unfolded p]]
    show "set_rep d' b' s (middle s t) (2 * p) g"
      by (rule less.hyps [OF _ k(1)]) (use st less.prems(2,3) sub_subset(1) [of p] in auto)
    show "set_rep d' b' (middle s t + 1) t (2 * p + 1) g"
      by (rule less.hyps [OF _ k(2)]) (use st less.prems(2,3) sub_subset(2) [of p] in auto)
  next
    fix i assume "s < t" "b' p \<noteq> 0" "s \<le> i" "i \<le> t"
    then show "g i = b' p"
      using set_repD(4) [OF less.prems(1), of i] less.prems(2) [of i] p by simp
  qed
qed

text \<open>A node all of whose cells are \<open>c\<close>, which is not 0.\<close>

lemma set_rep_const:
  assumes "c \<noteq> 0" and "s \<le> t" and "d p = c * of_nat (t - s + 1)" and "b p = c"
    and "\<And>i. s \<le> i \<Longrightarrow> i \<le> t \<Longrightarrow> f i = c"
  shows "set_rep d b s t p f"
proof -
  have "sum f {s..t} = (\<Sum>i\<in>{s..t}. c)"
    by (rule sum.cong) (use assms(5) in auto)
  also have "\<dots> = c * of_nat (t - s + 1)"
    using assms(2) by (simp add: Suc_diff_le mult.commute)
  finally show ?thesis
    using assms set_repI [of d p f s t b] by simp
qed

definition seg_set_rep :: "'a::comm_ring_1 seg \<Rightarrow> nat \<Rightarrow> nat \<Rightarrow> nat \<Rightarrow> (nat \<Rightarrow> 'a) \<Rightarrow> bool" where
  "seg_set_rep S s t p f = (fits (seg_n S) s t p \<and> set_rep (seg_d S) (seg_b S) s t p f)"

section \<open>The laws of the nodes\<close>

lemma seg_set_rep_cong:
  "seg_set_rep S s t p f \<Longrightarrow> (\<And>i. s \<le> i \<Longrightarrow> i \<le> t \<Longrightarrow> f i = g i) \<Longrightarrow> seg_set_rep S s t p g"
  unfolding seg_set_rep_def using set_rep_cong by blast

lemma seg_set_rep_outside:
  assumes "seg_set_rep S s t p f" and "seg_same_outside A S S'" and "A \<inter> sub p = {}"
  shows "seg_set_rep S' s t p f"
proof -
  have "set_rep (seg_d S') (seg_b S') s t p f"
    by (rule set_rep_cong [of "seg_d S" "seg_b S" s t p f]) (use assms in \<open>auto simp: seg_set_rep_def seg_same_outside_def\<close>)
  then show ?thesis
    using assms(1,2) by (simp add: seg_set_rep_def seg_same_outside_def)
qed

definition spread :: "nat \<Rightarrow> nat \<Rightarrow> nat \<Rightarrow> 'a::comm_ring_1 seg \<Rightarrow> 'a seg" where
  "spread s t p S =
    (if seg_b S p = 0 then S
     else S
      \<lparr>seg_d := (seg_d S)
         (2 * p := seg_b S p * of_nat (middle s t - s + 1), 2 * p + 1 := seg_b S p * of_nat (t - middle s t)),
       seg_b := (seg_b S)(2 * p := seg_b S p, 2 * p + 1 := seg_b S p, p := 0)\<rparr>)"

lemma seg3_push_spread:
  "0 < p \<Longrightarrow> 2 * p + 1 < seg_n S \<Longrightarrow> seg3_push s t p S = Some (spread s t p S)"
  by (auto simp: seg3_push_def spread_def Let_def fun_upd_twist)

lemma seg5_maintain_spread:
  "0 < p \<Longrightarrow> s < t \<Longrightarrow> 2 * p + 1 < seg_n S \<Longrightarrow> seg5_maintain s t p S = Some (spread s t p S)"
  by (auto simp: seg5_maintain_def spread_def Let_def)

lemma spread_laws:
  assumes "0 < p" and "s < t" and "seg_set_rep S s t p f"
  shows "seg_set_rep (spread s t p S) s (middle s t) (2 * p) f"
    and "seg_set_rep (spread s t p S) (middle s t + 1) t (2 * p + 1) f"
    and "seg_clean (spread s t p S) p" and "seg_same_outside (sub p) S (spread s t p S)"
    and "seg_set_rep (spread s t p S) s t p f"
proof -
  let ?m = "middle s t" and ?S = "spread s t p S"
  have fit: "fits (seg_n S) s t p" and a: "set_rep (seg_d S) (seg_b S) s t p f"
    using assms(3) by (simp_all add: seg_set_rep_def)
  note fits = fits_children [OF fit assms(2)] and mid = middle_bounds [OF assms(2)]
  have len: "t - (?m + 1) + 1 = t - ?m"
    using mid(2) by simp
  have kids: "set_rep (seg_d ?S) (seg_b ?S) s ?m (2 * p) f" "set_rep (seg_d ?S) (seg_b ?S) (?m + 1) t (2 * p + 1) f"
  proof -
    show "set_rep (seg_d ?S) (seg_b ?S) s ?m (2 * p) f"
    proof (cases "seg_b S p = 0")
      case True
      then show ?thesis
        using set_repD(2) [OF a assms(2)] by (simp add: spread_def)
    next
      case False
      show ?thesis
        by (rule set_rep_const [OF False]) (use False mid set_repD(4) [OF a assms(2) False] assms(1) in \<open>auto simp: spread_def\<close>)
    qed
    show "set_rep (seg_d ?S) (seg_b ?S) (?m + 1) t (2 * p + 1) f"
    proof (cases "seg_b S p = 0")
      case True
      then show ?thesis
        using set_repD(3) [OF a assms(2)] by (simp add: spread_def)
    next
      case False
      show ?thesis
        by (rule set_rep_const [OF False], unfold len)
          (use False mid set_repD(4) [OF a assms(2) False] assms(1) in \<open>auto simp: spread_def\<close>)
    qed
  qed
  show "seg_set_rep ?S s ?m (2 * p) f" "seg_set_rep ?S (?m + 1) t (2 * p + 1) f"
    using kids fits by (simp_all add: seg_set_rep_def spread_def)
  show "seg_clean ?S p"
    using fits_root [OF fit] by (simp add: seg_clean_def spread_def)
  show "seg_same_outside (sub p) S ?S"
    using sub_children [of p] by (auto simp: seg_same_outside_def spread_def)
  have "seg_d ?S p = sum f {s..t}" "seg_b ?S p = 0"
    using set_repD(1) [OF a] assms(1) by (simp_all add: spread_def)
  then have "set_rep (seg_d ?S) (seg_b ?S) s t p f"
    using set_repI [of "seg_d ?S" p f s t "seg_b ?S"] kids by simp
  then show "seg_set_rep ?S s t p f"
    using fit by (simp add: seg_set_rep_def spread_def)
qed

lemma seg_set_pull:
  assumes "0 < p" and "s < t" and "seg_clean S p" and "seg_set_rep S s (middle s t) (2 * p) f"
    and "seg_set_rep S (middle s t + 1) t (2 * p + 1) f"
  shows "\<exists>S'. seg_pull p S = Some S' \<and> seg_set_rep S' s t p f \<and> seg_same_outside {p} S S'"
proof -
  let ?d = "(seg_d S)(p := seg_d S (2 * p) + seg_d S (2 * p + 1))"
  have f: "fits (seg_n S) s (middle s t) (2 * p)" "fits (seg_n S) (middle s t + 1) t (2 * p + 1)"
    and a: "set_rep (seg_d S) (seg_b S) s (middle s t) (2 * p) f"
      "set_rep (seg_d S) (seg_b S) (middle s t + 1) t (2 * p + 1) f"
    and c: "p < seg_n S" "seg_b S p = 0"
    using assms(3-5) by (simp_all add: seg_set_rep_def seg_clean_def)
  note disj = sub_disjoint [OF assms(1)]
  have "set_rep ?d (seg_b S) s (middle s t) (2 * p) f"
    by (rule set_rep_cong [OF a(1)]) (use disj in auto)
  moreover have "set_rep ?d (seg_b S) (middle s t + 1) t (2 * p + 1) f"
    by (rule set_rep_cong [OF a(2)]) (use disj in auto)
  moreover have "?d p = sum f {s..t}"
    using set_repD(1) [OF a(1)] set_repD(1) [OF a(2)] sum_middle [OF assms(2), of f] by simp
  ultimately have "set_rep ?d (seg_b S) s t p f"
    using set_repI [of ?d p f s t "seg_b S"] c(2) by simp
  then show ?thesis
    using seg_pull_in [OF fits_root [OF f(2)] c(1)] fits_node [OF c(1) assms(2) f]
    by (simp add: seg_set_rep_def seg_same_outside_def)
qed

lemma seg_set_pull_again:
  assumes "0 < p" and "s < t" and "seg_clean S p" and "seg_set_rep S s t p f"
    and "seg_set_rep S' s (middle s t) (2 * p) f" and "seg_set_rep S' (middle s t + 1) t (2 * p + 1) f"
    and "seg_same_outside (sub (2 * p) \<union> sub (2 * p + 1)) S S'"
  shows "seg_set_rep S' s t p f"
proof -
  have same: "seg_n S' = seg_n S" "seg_d S' p = seg_d S p" "seg_b S' p = 0"
    using assms(3,7) sub_disjoint [OF assms(1)] by (simp_all add: seg_same_outside_def seg_clean_def)
  have "set_rep (seg_d S') (seg_b S') s t p f"
    using set_repI [of "seg_d S'" p f s t "seg_b S'"] set_repD(1) [of "seg_d S" "seg_b S" s t p f] assms(4-6) same
    by (simp add: seg_set_rep_def)
  then show ?thesis
    using assms(4) same(1) by (simp add: seg_set_rep_def)
qed

lemma seg_set_apply:
  assumes "c \<noteq> 0" and "0 < p" and "s \<le> t" and "seg_set_rep S s t p f"
  shows "\<exists>S'. seg3_apply c s t p S = Some S' \<and> seg_set_rep S' s t p (\<lambda>i. c) \<and> seg_same_outside (sub p) S S'"
proof -
  have p: "p < seg_n S"
    using assms(4) fits_root by (auto simp: seg_set_rep_def)
  have "set_rep ((seg_d S)(p := of_nat (t - s + 1) * c)) ((seg_b S)(p := c)) s t p (\<lambda>i. c)"
    by (rule set_rep_const [OF assms(1,3)]) (simp_all add: mult.commute)
  then show ?thesis
    using p assms(4) by (auto simp: seg3_apply_def seg_set_rep_def seg_same_outside_def)
qed

lemma seg5_apply_seg3: "p < seg_n S \<Longrightarrow> seg5_apply c s t p S = seg3_apply c s t p S"
  by (simp add: seg5_apply_def seg3_apply_def)

lemma seg_set_look:
  "seg_set_rep S s t p f \<Longrightarrow> get_d p S = Some (sum f {s..t})"
  using fits_root [of "seg_n S" s t p] set_repD(1) [of "seg_d S" "seg_b S" s t p f] by (simp add: seg_set_rep_def)

lemma seg_set_build:
  assumes "0 < p" and "s \<le> t" and "t < len" and "fits (seg_n S) s t p" and "seg_b S = (\<lambda>_. 0)"
  shows "\<exists>S'. seg_build len a s t p S = Some S' \<and> seg_set_rep S' s t p a"
proof -
  have "set_rep d (\<lambda>_. 0) s t p f" if "sums_of d s t p f" for d s t p and f :: "nat \<Rightarrow> 'a"
    using that
  proof (induction "t - s" arbitrary: s t p rule: less_induct)
    case less
    show ?case
      using set_repI [of d p f s t "\<lambda>_. 0"] sums_ofD [OF less.prems] less.hyps by simp
  qed
  then show ?thesis
    using seg_build_sums [OF assms(1-4), of a] assms(4,5) by (auto simp: seg_set_rep_def)
qed

section \<open>The laws hold\<close>

lemma seg_set_nodes:
  assumes "\<And>p s t S. 0 < p \<Longrightarrow> s < t \<Longrightarrow> 2 * p + 1 < seg_n S \<Longrightarrow> push s t p S = Some (spread s t p S)"
  shows "segment_nodes seg_set_rep seg_clean seg_same_outside push seg_pull"
proof
  fix p s t :: nat and S :: "'a seg" and f :: "nat \<Rightarrow> 'a"
  assume a: "0 < p" "s < t" "seg_set_rep S s t p f"
  then have "2 * p + 1 < seg_n S"
    using fits_children(4) by (auto simp: seg_set_rep_def)
  then show "\<exists>S'. push s t p S = Some S' \<and> seg_set_rep S' s (middle s t) (2 * p) f \<and>
      seg_set_rep S' (middle s t + 1) t (2 * p + 1) f \<and> seg_clean S' p \<and> seg_same_outside (sub p) S S'"
    using assms [OF a(1,2)] spread_laws [OF a] by auto
qed (fact seg_set_rep_cong seg_set_rep_outside seg_outside_facts seg_set_pull)+

lemma spread_keeps:
  assumes "0 < p" and "s < t" and "seg_set_rep S s t p f" and "push s t p S = Some S'"
    and "2 * p + 1 < seg_n S \<Longrightarrow> push s t p S = Some (spread s t p S)"
  shows "seg_set_rep S' s t p f"
  using assms spread_laws(5) [OF assms(1-3)] fits_children(4) [of "seg_n S" s t p] by (auto simp: seg_set_rep_def)

interpretation seg3: segment_nodes seg_set_rep seg_clean seg_same_outside seg3_push seg_pull
  by (rule seg_set_nodes) (rule seg3_push_spread)

interpretation seg5: segment_nodes seg_set_rep seg_clean seg_same_outside seg5_maintain seg_pull
  by (rule seg_set_nodes) (rule seg5_maintain_spread)

interpretation seg3_upd: range_update seg_set_rep seg_clean seg_same_outside seg3_push seg_pull
  "seg3_apply c" "\<lambda>l r. seg3_update l r c" "\<lambda>_. c" "\<lambda>_. c \<noteq> 0" for c
  by unfold_locales (subst seg3_update.simps, simp add: Let_def, rule seg_set_apply, blast)

interpretation seg5_upd: range_update seg_set_rep seg_clean seg_same_outside seg5_maintain seg_pull
  "seg5_apply c" "\<lambda>l r. seg5_range_set l r c" "\<lambda>_. c" "\<lambda>_. c \<noteq> 0" for c
proof
  show "(\<And>i. s \<le> i \<Longrightarrow> i \<le> t \<Longrightarrow> c \<noteq> 0) \<Longrightarrow> 0 < p \<Longrightarrow> s \<le> t \<Longrightarrow> seg_set_rep S s t p f \<Longrightarrow> \<exists>S'. seg5_apply c s t p S = Some S' \<and>
      seg_set_rep S' s t p (\<lambda>i. c) \<and> seg_same_outside (sub p) S S'" for p s t S f
    using seg_set_apply [of c p s t S f] seg5_apply_seg3 [of p S c s t] fits_root [of "seg_n S" s t p]
    by (auto simp: seg_set_rep_def)
qed (subst seg5_range_set.simps, simp add: Let_def)

interpretation seg3_qry: range_query seg_set_rep seg_clean seg_same_outside seg3_push seg_pull
  get_d seg3_getsum "\<lambda>x. x" "\<lambda>x. x"
proof
  show "seg3_getsum l r s t p S =
      (if l \<le> s \<and> t \<le> r then map_option (\<lambda>v. (S, v)) (get_d p S)
       else do {
         S1 \<leftarrow> seg3_push s t p S;
         (S2, x) \<leftarrow> (if l \<le> middle s t then seg3_getsum l r s (middle s t) (2 * p) S1 else Some (S1, 0));
         (S3, y) \<leftarrow> (if middle s t < r then seg3_getsum l r (middle s t + 1) t (2 * p + 1) S2 else Some (S2, 0));
         Some (S3, x + y)
       })" for l r s t p and S :: "'a::comm_ring_1 seg"
    by (subst seg3_getsum.simps)
      (auto simp: Let_def map_option_case split: option.splits Option.bind_splits)
qed (auto simp: seg_set_look intro: seg_set_pull_again spread_keeps seg3_push_spread)

interpretation seg5_qry: range_query seg_set_rep seg_clean seg_same_outside seg5_maintain seg_pull
  get_d seg5_range_sum "\<lambda>x. x" "\<lambda>x. x"
proof
  show "seg5_range_sum l r s t p S =
      (if l \<le> s \<and> t \<le> r then map_option (\<lambda>v. (S, v)) (get_d p S)
       else do {
         S1 \<leftarrow> seg5_maintain s t p S;
         (S2, x) \<leftarrow> (if l \<le> middle s t then seg5_range_sum l r s (middle s t) (2 * p) S1 else Some (S1, 0));
         (S3, y) \<leftarrow> (if middle s t < r then seg5_range_sum l r (middle s t + 1) t (2 * p + 1) S2 else Some (S2, 0));
         Some (S3, x + y)
       })" for l r s t p and S :: "'a::comm_ring_1 seg"
    by (subst seg5_range_sum.simps)
      (auto simp: Let_def map_option_case split: option.splits Option.bind_splits)
qed (auto simp: seg_set_look intro: seg_set_pull_again spread_keeps seg5_maintain_spread)

section \<open>Sequences of operations\<close>

interpretation seg3_program: range_program "\<lambda>l r c. seg3_update l r c 1 n 1" "\<lambda>l r. seg3_getsum l r 1 n 1"
  "\<lambda>S f. seg_set_rep S 1 n 1 f" 1 n "\<lambda>c. c \<noteq> 0" "\<lambda>c x. c" "\<lambda>x. x" for n
proof
  fix S :: "'a::comm_ring_1 seg" and f l r c
  assume a: "seg_set_rep S 1 n 1 f" "1 \<le> l" "l \<le> r" "r \<le> n"
  show "c \<noteq> 0 \<Longrightarrow> \<exists>S'. seg3_update l r c 1 n 1 S = Some S' \<and> seg_set_rep S' 1 n 1 (changed (\<lambda>x. c) l r f)"
    using seg3_upd.update_at_node [of l r c 1 1 n S f] a by auto
  show "\<exists>S' v. seg3_getsum l r 1 n 1 S = Some (S', v) \<and> v = sum f {l..r} \<and> seg_set_rep S' 1 n 1 f"
    using seg3_qry.query_at_node [of 1 1 n l r S f] range_sum_inside [of 1 l r n f] a by auto
qed

interpretation seg5_program: range_program "\<lambda>l r c. seg5_set l r c" "\<lambda>l r. seg5_sum l r"
  "\<lambda>T f. st_end T = e \<and> seg_set_rep (st_seg T) 0 e 1 f" 0 e "\<lambda>c. (from_int c :: 'a::comm_ring_1) \<noteq> 0"
  "\<lambda>c (x :: 'a). from_int c" "\<lambda>x. x" for e
proof
  fix T :: "'a seg_tree" and f l r and c :: "32 word"
  assume a: "st_end T = e \<and> seg_set_rep (st_seg T) 0 e 1 f" "l \<le> r" "r \<le> e"
  show "\<exists>T'. seg5_set l r c T = Some T' \<and> st_end T' = e \<and> seg_set_rep (st_seg T') 0 e 1 (changed (\<lambda>x. from_int c) l r f)"
    if "(from_int c :: 'a) \<noteq> 0"
    using seg5_upd.update_at_node [of l r "from_int c" 1 0 e "st_seg T" f] a that by (auto simp: seg5_set_def)
  obtain S' v where "seg5_range_sum l r 0 e 1 (st_seg T) = Some (S', v)" "v = sum f {l..r}" "seg_set_rep S' 0 e 1 f"
    using seg5_qry.query_at_node [of 1 0 e l r "st_seg T" f] range_sum_inside [of 0 l r e f] a by auto
  then show "\<exists>T' v. seg5_sum l r T = Some (T', v) \<and> v = sum f {l..r} \<and>
      st_end T' = e \<and> seg_set_rep (st_seg T') 0 e 1 f"
    using a by (simp add: seg5_sum_def)
qed

fun seg3_op :: "nat \<times> nat \<times> nat \<times> 'c \<Rightarrow> 'c range_op" where
  "seg3_op (i1, i2, i3, i4) = (if i1 = 0 then Query i2 i3 else Update i2 i3 i4)"

lemma seg3_loop_run:
  "seg3_loop n qs S = run_ranges (\<lambda>l r c. seg3_update l r c 1 n 1) (\<lambda>l r. seg3_getsum l r 1 n 1) (map seg3_op qs) S"
proof (induction qs arbitrary: S)
  case (Cons q qs)
  then have "seg3_loop n qs = run_ranges (\<lambda>l r c. seg3_update l r c 1 n 1) (\<lambda>l r. seg3_getsum l r 1 n 1) (map seg3_op qs)"
    by (rule ext)
  then show ?case
    by (cases q) simp
qed simp

section \<open>Properties\<close>

text \<open>
  C31. \<^verbatim>\<open>seg_3.cpp\<close> prints the right sums after any sequence of range assignments of values other than
  0: no access out of bounds, every recursion ends, and the output is that of the program that
  assigns to the cells of the range one by one.
\<close>

theorem seg3_correct:
  fixes a :: "nat \<Rightarrow> 'a::comm_ring_1"
  assumes "1 \<le> n" and "n < 100005" and "list_all (op_in 1 n (\<lambda>c. c \<noteq> 0)) (map seg3_op qs)"
  shows "seg3_main n a qs = Some (ref_ranges (\<lambda>c x. c) a (map seg3_op qs))"
proof -
  have "fits 270000 1 n 1"
    using assms(2) by (intro fits_power [of _ _ 17]) auto
  then obtain S where "seg3_build a 1 n 1 \<lparr>seg_n = 270000, seg_d = \<lambda>_. 0, seg_b = \<lambda>_. 0\<rparr> = Some S"
      "seg_set_rep S 1 n 1 a"
    using seg_set_build [of 1 1 n 100005 "\<lparr>seg_n = 270000, seg_d = \<lambda>_. 0, seg_b = \<lambda>_. 0\<rparr>" a] assms(1,2)
    by (auto simp: seg3_build_def)
  then show ?thesis
    using seg3_program.run_refines [of S n a "map seg3_op qs"] assms(3)
    by (auto simp: seg3_main_def seg3_loop_run)
qed

theorem seg3_correct_witness:
  "seg3_main 3 (\<lambda>i. int i) [(1, 2, 3, 9), (0, 1, 2, 0), (1, 1, 1, 4), (0, 1, 3, 0)] = Some [10, 22]"
proof -
  let ?qs = "[(1, 2, 3, 9), (0, 1, 2, 0), (1, 1, 1, 4), (0, 1, 3, 0)] :: (nat \<times> nat \<times> nat \<times> int) list"
  have "seg3_main 3 (\<lambda>i. int i) ?qs = Some (ref_ranges (\<lambda>c x. c) (\<lambda>i. int i) (map seg3_op ?qs))"
    by (rule seg3_correct) simp_all
  then show ?thesis
    by (simp add: sum_range_eval changed_def)
qed

text \<open>
  C32. \<open>SegTreeLazyRangeSet\<close> built from a vector with at least one and fewer than \<open>2 ^ 29\<close> elements answers every
  sequence of \<open>range_set\<close> and \<open>range_sum\<close> calls with ranges inside the vector as the plain array does, where the
  32-bit argument of \<open>range_set\<close> is converted to the element type; the converted value is not 0.
\<close>

theorem seg5_correct:
  fixes v :: "'a::comm_ring_1 list"
  assumes "v \<noteq> []" and "length v < 2 ^ 29"
    and "list_all (op_in 0 (length v - 1) (\<lambda>c. (of_int (sint c) :: 'a) \<noteq> 0)) ops"
  shows "seg5_new v \<bind> run_ranges (\<lambda>l r c. seg5_set l r c) (\<lambda>l r. seg5_sum l r) ops =
    Some (ref_ranges (\<lambda>c x. of_int (sint c)) (\<lambda>i. v ! i) ops)"
proof -
  let ?S = "\<lparr>seg_n = length v * 4, seg_d = \<lambda>_. 0, seg_b = \<lambda>_. 0 :: 'a\<rparr>"
  have "fits (seg_n ?S) 0 (length v - 1) 1"
    using fits_four [of "length v"] assms(1) by (simp add: mult.commute)
  then obtain S where "seg5_build v 0 (length v - 1) 1 ?S = Some S"
      "seg_set_rep S 0 (length v - 1) 1 (\<lambda>i. v ! i)"
    using seg_set_build [of 1 0 "length v - 1" "length v" ?S "\<lambda>i. v ! i"] assms(1)
    by (auto simp: seg5_build_def)
  then show ?thesis
    using seg5_program.run_refines [of "\<lparr>st_end = length v - 1, st_seg = S\<rparr>" "length v - 1" "\<lambda>i. v ! i" ops] assms(3)
    by (auto simp: seg5_new_def Let_def from_int_def)
qed

theorem seg5_correct_witness:
  "seg5_new [4, 7, -2 :: int] \<bind>
    run_ranges (\<lambda>l r c. seg5_set l r c) (\<lambda>l r. seg5_sum l r) [Update 0 1 (- 10), Query 1 2, Query 0 0] = Some [- 12, - 10]"
proof -
  have "seg5_new [4, 7, -2 :: int] \<bind>
      run_ranges (\<lambda>l r c. seg5_set l r c) (\<lambda>l r. seg5_sum l r) [Update 0 1 (- 10), Query 1 2, Query 0 0] =
    Some (ref_ranges (\<lambda>(c :: 32 word) x. of_int (sint c)) (\<lambda>i. [4, 7, -2 :: int] ! i) [Update 0 1 (- 10), Query 1 2, Query 0 0])"
    by (rule seg5_correct) simp_all
  then show ?thesis
    by (simp add: sum_range_eval changed_def)
qed

section \<open>Assignments of 0\<close>

text \<open>
  The program and the class on a tree they have just built: an assignment of 0 to the whole range changes the sum stored at the
  root and nothing else, so the next push has nothing to hand down.
\<close>

definition zero_root :: "'a::comm_ring_1 seg \<Rightarrow> 'a seg" where
  "zero_root S = S\<lparr>seg_d := (seg_d S)(1 := 0), seg_b := (seg_b S)(1 := 0)\<rparr>"

lemma zero_root_apply:
  assumes "1 < seg_n S"
  shows "seg3_apply 0 s t 1 S = Some (zero_root S)" and "seg5_apply 0 s t 1 S = Some (zero_root S)"
  using assms by (simp_all add: seg3_apply_def seg5_apply_def zero_root_def)

lemma zero_root_kids:
  assumes "seg_set_rep S s t 1 f" and "s < t" and "seg_b S 1 = 0"
  shows "spread s t 1 (zero_root S) = zero_root S" and "seg_set_rep (zero_root S) s (middle s t) (2 * 1) f"
    and "seg_set_rep (zero_root S) (middle s t + 1) t (2 * 1 + 1) f"
proof -
  have "spread s t 1 S = S"
    using assms(3) by (simp add: spread_def)
  then have kids: "seg_set_rep S s (middle s t) (2 * 1) f" "seg_set_rep S (middle s t + 1) t (2 * 1 + 1) f"
    using spread_laws(1,2) [OF _ assms(2,1)] by simp_all
  have same: "seg_same_outside {1} S (zero_root S)"
    by (simp add: seg_same_outside_def zero_root_def)
  show "seg_set_rep (zero_root S) s (middle s t) (2 * 1) f" "seg_set_rep (zero_root S) (middle s t + 1) t (2 * 1 + 1) f"
    using seg_set_rep_outside [OF kids(1) same] seg_set_rep_outside [OF kids(2) same] sub_disjoint(2,3) [of 1] by auto
qed (simp add: spread_def zero_root_def)

lemma seg3_zero_root:
  assumes "seg_set_rep S s t 1 f" and "s < t" and "seg_b S 1 = 0" and "s \<le> l" and "l \<le> r" and "r \<le> t" and "(l, r) \<noteq> (s, t)"
  shows "\<exists>S'. seg3_getsum l r s t 1 (zero_root S) = Some (S', sum f {l..r})"
proof -
  have "2 * 1 + 1 < seg_n (zero_root S)"
    using assms(1,2) fits_children(4) [of "seg_n S" s t 1] by (simp add: seg_set_rep_def zero_root_def)
  then show ?thesis
    using seg3_qry.query_below_node [of 1 s t l r "zero_root S" "zero_root S" f] zero_root_kids [OF assms(1-3)]
      seg3_push_spread [of 1 "zero_root S" s t] assms by auto
qed

lemma seg5_zero_root:
  assumes "seg_set_rep S s t 1 f" and "s < t" and "seg_b S 1 = 0" and "s \<le> l" and "l \<le> r" and "r \<le> t" and "(l, r) \<noteq> (s, t)"
  shows "\<exists>S'. seg5_range_sum l r s t 1 (zero_root S) = Some (S', sum f {l..r})"
proof -
  have "2 * 1 + 1 < seg_n (zero_root S)"
    using assms(1,2) fits_children(4) [of "seg_n S" s t 1] by (simp add: seg_set_rep_def zero_root_def)
  then show ?thesis
    using seg5_qry.query_below_node [of 1 s t l r "zero_root S" "zero_root S" f] zero_root_kids [OF assms(1-3)]
      seg5_maintain_spread [of 1 s t "zero_root S"] assms by auto
qed

text \<open>The tree \<open>build\<close> leaves has no pending change.\<close>

lemma seg_set_build_clean:
  assumes "s \<le> t" and "t < len" and "fits n s t 1"
  shows "\<exists>S. seg_build len a s t 1 \<lparr>seg_n = n, seg_d = \<lambda>_. 0, seg_b = \<lambda>_. 0\<rparr> = Some S \<and> seg_set_rep S s t 1 a \<and>
    seg_b S 1 = 0 \<and> seg_n S = n"
proof -
  let ?S = "\<lparr>seg_n = n, seg_d = \<lambda>_. 0, seg_b = \<lambda>_. 0\<rparr> :: 'a seg"
  show ?thesis
    using seg_build_sums [of 1 s t len ?S a] seg_set_build [of 1 s t len ?S a] assms by auto
qed

text \<open>
  C34. An assignment of 0 to the whole range is lost: for every array of at least two numbers, after it the sum
  of the whole range is 0 and the sum of every smaller range is still what it was before. It is so in \<^verbatim>\<open>seg_3.cpp\<close>
  (up to 100004 numbers) and in \<open>SegTreeLazyRangeSet\<close> (fewer than \<open>2 ^ 29\<close> elements).
\<close>

theorem range_set_zero_lost:
  fixes a :: "nat \<Rightarrow> 'a::comm_ring_1" and v :: "'b::comm_ring_1 list"
  shows "(1 \<le> l \<and> l \<le> r \<and> r \<le> n \<and> (l, r) \<noteq> (1, n) \<and> n < 100005 \<longrightarrow>
      seg3_main n a [(1, 1, n, 0), (0, 1, n, x), (0, l, r, y)] = Some [0, sum a {l..r}]) \<and>
    (l' \<le> r' \<and> r' < length v \<and> (l', r') \<noteq> (0, length v - 1) \<and> length v < 2 ^ 29 \<longrightarrow>
      seg5_new v \<bind> run_ranges (\<lambda>l r c. seg5_set l r c) (\<lambda>l r. seg5_sum l r)
        [Update 0 (length v - 1) 0, Query 0 (length v - 1), Query l' r'] = Some [0, sum (\<lambda>i. v ! i) {l'..r'}])"
proof (intro conjI impI)
  assume a: "1 \<le> l \<and> l \<le> r \<and> r \<le> n \<and> (l, r) \<noteq> (1, n) \<and> n < 100005"
  then have fit: "fits 270000 1 n 1"
    by (intro fits_power [of _ _ 17]) auto
  obtain S where S: "seg3_build a 1 n 1 \<lparr>seg_n = 270000, seg_d = \<lambda>_. 0, seg_b = \<lambda>_. 0\<rparr> = Some S"
      "seg_set_rep S 1 n 1 a" "seg_b S 1 = 0" "seg_n S = 270000"
    using seg_set_build_clean [OF _ _ fit, of 100005 a] a by (auto simp: seg3_build_def)
  have "seg3_update 1 n 0 1 n 1 S = Some (zero_root S)"
    using zero_root_apply(1) [of S 1 n] S(4) by (subst seg3_update.simps) simp
  moreover have "seg3_getsum 1 n 1 n 1 (zero_root S) = Some (zero_root S, 0)"
    using S(4) by (subst seg3_getsum.simps) (simp add: zero_root_def)
  moreover obtain S' where "seg3_getsum l r 1 n 1 (zero_root S) = Some (S', sum a {l..r})"
    using seg3_zero_root [OF S(2) _ S(3), of l r] a by auto
  ultimately show "seg3_main n a [(1, 1, n, 0), (0, 1, n, x), (0, l, r, y)] = Some [0, sum a {l..r}]"
    using S(1) by (simp add: seg3_main_def)
next
  let ?n = "length v" and ?init = "\<lparr>seg_n = length v * 4, seg_d = \<lambda>_. 0, seg_b = \<lambda>_. 0\<rparr>"
  assume a: "l' \<le> r' \<and> r' < ?n \<and> (l', r') \<noteq> (0, ?n - 1) \<and> ?n < 2 ^ 29"
  then have n: "0 < ?n - 1" "?n - 1 < ?n" "r' \<le> ?n - 1"
    by auto
  then have fit: "fits (?n * 4) 0 (?n - 1) 1"
    using fits_four [of ?n] by (cases v) (simp_all add: mult.commute)
  obtain S where S: "seg5_build v 0 (?n - 1) 1 ?init = Some S" "seg_set_rep S 0 (?n - 1) 1 (\<lambda>i. v ! i)"
      "seg_b S 1 = 0" "seg_n S = ?n * 4"
    using seg_set_build_clean [OF _ n(2) fit, of "\<lambda>i. v ! i"] by (auto simp: seg5_build_def)
  let ?T = "\<lambda>S. \<lparr>st_end = ?n - 1, st_seg = S\<rparr>"
  have "seg5_set 0 (?n - 1) 0 (?T S) = Some (?T (zero_root S))"
    using zero_root_apply(2) [of S 0 "?n - 1"] S(4) n(1)
    by (simp add: seg5_set_def from_int_def) (subst seg5_range_set.simps, simp)
  moreover have "seg5_sum 0 (?n - 1) (?T (zero_root S)) = Some (?T (zero_root S), 0)"
    using S(4) n(1) by (simp add: seg5_sum_def) (subst seg5_range_sum.simps, simp add: zero_root_def)
  moreover obtain S' where "seg5_range_sum l' r' 0 (?n - 1) 1 (zero_root S) = Some (S', sum (\<lambda>i. v ! i) {l'..r'})"
    using seg5_zero_root [OF S(2) n(1) S(3) _ _ n(3)] a by auto
  ultimately show "seg5_new v \<bind> run_ranges (\<lambda>l r c. seg5_set l r c) (\<lambda>l r. seg5_sum l r)
        [Update 0 (?n - 1) 0, Query 0 (?n - 1), Query l' r'] = Some [0, sum (\<lambda>i. v ! i) {l'..r'}]"
    using S(1) by (simp add: seg5_new_def Let_def seg5_sum_def)
qed

theorem range_set_zero_lost_witness:
  "seg3_main 3 (\<lambda>i. int i) [(1, 1, 3, 0), (0, 1, 3, 0), (0, 2, 3, 0)] = Some [0, 5] \<and>
   seg5_new [5, 7 :: int] \<bind> run_ranges (\<lambda>l r c. seg5_set l r c) (\<lambda>l r. seg5_sum l r) [Update 0 1 0, Query 0 1, Query 1 1] = Some [0, 7]"
  using range_set_zero_lost [of 2 3 3 "\<lambda>i. int i" 0 0 1 1 "[5, 7 :: int]"] by (simp add: sum_range_eval)

end
