(* ===== verification/RangeAffine.thy ===== *)
theory RangeAffine
  imports SegTree
begin

text \<open>
  The segment tree of \<^verbatim>\<open>seg/seg_2.cpp\<close>: range multiplication and range addition modulo \<open>mod\<close>, with two
  pending changes at each node. A pending change \<open>(mul, laz)\<close> stands for \<open>x \<mapsto> mul * x + laz\<close> on the cells
  below. The numbers are 64 bits wide: a product or a sum that leaves them has no result, and neither has a remainder
  modulo 0. Shown: for a modulus and numbers of at most \<open>2 ^ 31\<close> no step fails, and the printed numbers are right modulo \<open>mod\<close>.
\<close>

section \<open>The program\<close>

record seg2 =
  s2_sum :: "nat \<Rightarrow> int"
  s2_mul :: "nat \<Rightarrow> int"
  s2_laz :: "nat \<Rightarrow> int"

abbreviation cells2 :: nat where
  "cells2 \<equiv> 400005"

definition on_sum :: "nat \<Rightarrow> (int \<Rightarrow> int option) \<Rightarrow> seg2 \<Rightarrow> seg2 option" where
  "on_sum i f S = (if i < cells2 then map_option (\<lambda>v. S\<lparr>s2_sum := (s2_sum S)(i := v)\<rparr>) (f (s2_sum S i)) else None)"

definition on_mul :: "nat \<Rightarrow> (int \<Rightarrow> int option) \<Rightarrow> seg2 \<Rightarrow> seg2 option" where
  "on_mul i f S = (if i < cells2 then map_option (\<lambda>v. S\<lparr>s2_mul := (s2_mul S)(i := v)\<rparr>) (f (s2_mul S i)) else None)"

definition on_laz :: "nat \<Rightarrow> (int \<Rightarrow> int option) \<Rightarrow> seg2 \<Rightarrow> seg2 option" where
  "on_laz i f S = (if i < cells2 then map_option (\<lambda>v. S\<lparr>s2_laz := (s2_laz S)(i := v)\<rparr>) (f (s2_laz S i)) else None)"

lemma on_in [simp]:
  assumes "i < cells2"
  shows "on_sum i f S = map_option (\<lambda>v. S\<lparr>s2_sum := (s2_sum S)(i := v)\<rparr>) (f (s2_sum S i))"
    and "on_mul i f S = map_option (\<lambda>v. S\<lparr>s2_mul := (s2_mul S)(i := v)\<rparr>) (f (s2_mul S i))"
    and "on_laz i f S = map_option (\<lambda>v. S\<lparr>s2_laz := (s2_laz S)(i := v)\<rparr>) (f (s2_laz S i))"
  using assms by (simp_all add: on_sum_def on_mul_def on_laz_def)

definition seg2_up :: "int \<Rightarrow> nat \<Rightarrow> seg2 \<Rightarrow> seg2 option" where
  "seg2_up md i S = do {
     x \<leftarrow> peek cells2 (s2_sum S) (2 * i);
     y \<leftarrow> peek cells2 (s2_sum S) (2 * i + 1);
     v \<leftarrow> long_long (x + y);
     v \<leftarrow> ll_mod v md;
     on_sum i (\<lambda>_. Some v) S
   }"

definition seg2_pd :: "int \<Rightarrow> nat \<Rightarrow> nat \<Rightarrow> nat \<Rightarrow> seg2 \<Rightarrow> seg2 option" where
  "seg2_pd md i s t S = do {
     let l = 2 * i;
     let r = 2 * i + 1;
     let mid = (s + t) div 2;
     u \<leftarrow> peek cells2 (s2_mul S) i;
     S \<leftarrow> (if u \<noteq> 1 then do {
             S \<leftarrow> on_mul l (\<lambda>x. long_long (x * u)) S;
             S \<leftarrow> on_mul l (\<lambda>x. ll_mod x md) S;
             S \<leftarrow> on_mul r (\<lambda>x. long_long (x * u)) S;
             S \<leftarrow> on_mul r (\<lambda>x. ll_mod x md) S;
             S \<leftarrow> on_laz l (\<lambda>x. long_long (x * u)) S;
             S \<leftarrow> on_laz l (\<lambda>x. ll_mod x md) S;
             S \<leftarrow> on_laz r (\<lambda>x. long_long (x * u)) S;
             S \<leftarrow> on_laz r (\<lambda>x. ll_mod x md) S;
             S \<leftarrow> on_sum l (\<lambda>x. long_long (x * u)) S;
             S \<leftarrow> on_sum l (\<lambda>x. ll_mod x md) S;
             S \<leftarrow> on_sum r (\<lambda>x. long_long (x * u)) S;
             S \<leftarrow> on_sum r (\<lambda>x. ll_mod x md) S;
             on_mul i (\<lambda>_. Some 1) S
           }
           else Some S);
     v \<leftarrow> peek cells2 (s2_laz S) i;
     if v \<noteq> 0 then do {
       S \<leftarrow> on_sum l (\<lambda>x. do { y \<leftarrow> long_long (v * int (mid - s + 1)); long_long (x + y) }) S;
       S \<leftarrow> on_sum l (\<lambda>x. ll_mod x md) S;
       S \<leftarrow> on_sum r (\<lambda>x. do { y \<leftarrow> long_long (v * int (t - mid)); long_long (x + y) }) S;
       S \<leftarrow> on_sum r (\<lambda>x. ll_mod x md) S;
       S \<leftarrow> on_laz l (\<lambda>x. long_long (x + v)) S;
       S \<leftarrow> on_laz l (\<lambda>x. ll_mod x md) S;
       S \<leftarrow> on_laz r (\<lambda>x. long_long (x + v)) S;
       S \<leftarrow> on_laz r (\<lambda>x. ll_mod x md) S;
       on_laz i (\<lambda>_. Some 0) S
     }
     else Some S
   }"

partial_function (option) seg2_build ::
  "int \<Rightarrow> (nat \<Rightarrow> int) \<Rightarrow> nat \<Rightarrow> nat \<Rightarrow> nat \<Rightarrow> seg2 \<Rightarrow> seg2 option" where [code]:
  "seg2_build md a s t i S = do {
     S \<leftarrow> on_mul i (\<lambda>_. Some 1) S;
     if s = t then do { v \<leftarrow> peek 100005 a s; on_sum i (\<lambda>_. Some v) S }
     else do {
       let mid = middle s t;
       S \<leftarrow> seg2_build md a s mid (2 * i) S;
       S \<leftarrow> seg2_build md a (mid + 1) t (2 * i + 1) S;
       seg2_up md i S
     }
   }"

definition seg2_times :: "int \<Rightarrow> int \<Rightarrow> nat \<Rightarrow> nat \<Rightarrow> nat \<Rightarrow> seg2 \<Rightarrow> seg2 option" where
  "seg2_times md z s t i S = do {
     S \<leftarrow> on_mul i (\<lambda>x. long_long (x * z)) S;
     S \<leftarrow> on_mul i (\<lambda>x. ll_mod x md) S;
     S \<leftarrow> on_laz i (\<lambda>x. long_long (x * z)) S;
     S \<leftarrow> on_laz i (\<lambda>x. ll_mod x md) S;
     S \<leftarrow> on_sum i (\<lambda>x. long_long (x * z)) S;
     on_sum i (\<lambda>x. ll_mod x md) S
   }"

partial_function (option) seg2_chen ::
  "int \<Rightarrow> nat \<Rightarrow> nat \<Rightarrow> nat \<Rightarrow> nat \<Rightarrow> nat \<Rightarrow> int \<Rightarrow> seg2 \<Rightarrow> seg2 option" where [code]:
  "seg2_chen md l r s t i z S =
     (let mid = middle s t in
      if l \<le> s \<and> t \<le> r then seg2_times md z s t i S
      else do {
        S \<leftarrow> seg2_pd md i s t S;
        S \<leftarrow> (if mid \<ge> l then seg2_chen md l r s mid (2 * i) z S else Some S);
        S \<leftarrow> (if mid + 1 \<le> r then seg2_chen md l r (mid + 1) t (2 * i + 1) z S else Some S);
        seg2_up md i S
      })"

definition seg2_plus :: "int \<Rightarrow> int \<Rightarrow> nat \<Rightarrow> nat \<Rightarrow> nat \<Rightarrow> seg2 \<Rightarrow> seg2 option" where
  "seg2_plus md z s t i S = do {
     S \<leftarrow> on_sum i (\<lambda>x. do { y \<leftarrow> long_long (z * int (t - s + 1)); long_long (x + y) }) S;
     S \<leftarrow> on_sum i (\<lambda>x. ll_mod x md) S;
     S \<leftarrow> on_laz i (\<lambda>x. long_long (x + z)) S;
     on_laz i (\<lambda>x. ll_mod x md) S
   }"

partial_function (option) seg2_add ::
  "int \<Rightarrow> nat \<Rightarrow> nat \<Rightarrow> nat \<Rightarrow> nat \<Rightarrow> nat \<Rightarrow> int \<Rightarrow> seg2 \<Rightarrow> seg2 option" where [code]:
  "seg2_add md l r s t i z S =
     (let mid = middle s t in
      if l \<le> s \<and> t \<le> r then seg2_plus md z s t i S
      else do {
        S \<leftarrow> seg2_pd md i s t S;
        S \<leftarrow> (if mid \<ge> l then seg2_add md l r s mid (2 * i) z S else Some S);
        S \<leftarrow> (if mid + 1 \<le> r then seg2_add md l r (mid + 1) t (2 * i + 1) z S else Some S);
        seg2_up md i S
      })"

partial_function (option) seg2_getans ::
  "int \<Rightarrow> nat \<Rightarrow> nat \<Rightarrow> nat \<Rightarrow> nat \<Rightarrow> nat \<Rightarrow> seg2 \<Rightarrow> (seg2 \<times> int) option" where [code]:
  "seg2_getans md l r s t i S =
     (let mid = middle s t in
      if l \<le> s \<and> t \<le> r then do { x \<leftarrow> peek cells2 (s2_sum S) i; Some (S, x) }
      else do {
        let tot = 0;
        S \<leftarrow> seg2_pd md i s t S;
        (S, tot) \<leftarrow> (if mid \<ge> l then do {
                      (S, x) \<leftarrow> seg2_getans md l r s mid (2 * i) S;
                      tot \<leftarrow> long_long (tot + x);
                      Some (S, tot)
                    }
                    else Some (S, tot));
        tot \<leftarrow> ll_mod tot md;
        (S, tot) \<leftarrow> (if mid + 1 \<le> r then do {
                      (S, y) \<leftarrow> seg2_getans md l r (mid + 1) t (2 * i + 1) S;
                      tot \<leftarrow> long_long (tot + y);
                      Some (S, tot)
                    }
                    else Some (S, tot));
        tot \<leftarrow> ll_mod tot md;
        Some (S, tot)
      })"

text \<open>The loop of \<open>main\<close> over the operations \<open>bh x y z\<close>.\<close>

fun seg2_loop :: "int \<Rightarrow> nat \<Rightarrow> (nat \<times> nat \<times> nat \<times> int) list \<Rightarrow> seg2 \<Rightarrow> int list option" where
  "seg2_loop md n [] S = Some []"
| "seg2_loop md n ((bh, x, y, z) # qs) S =
     (if bh = 1 then do { S \<leftarrow> seg2_chen md x y 1 n 1 z S; seg2_loop md n qs S }
      else if bh = 2 then do { S \<leftarrow> seg2_add md x y 1 n 1 z S; seg2_loop md n qs S }
      else if bh = 3 then do {
        (S, v) \<leftarrow> seg2_getans md x y 1 n 1 S;
        out \<leftarrow> seg2_loop md n qs S;
        Some (v # out)
      }
      else seg2_loop md n qs S)"

definition seg2_main ::
  "int \<Rightarrow> nat \<Rightarrow> (nat \<Rightarrow> int) \<Rightarrow> (nat \<times> nat \<times> nat \<times> int) list \<Rightarrow> int list option" where
  "seg2_main md n a qs = do {
     S \<leftarrow> seg2_build md a 1 n 1 \<lparr>s2_sum = \<lambda>_. 0, s2_mul = \<lambda>_. 0, s2_laz = \<lambda>_. 0\<rparr>;
     seg2_loop md n qs S
   }"

section \<open>Remainders\<close>

lemma smod_mod: "(x smod m) mod m = x mod m" for x m :: int
proof -
  have "x smod m = x - x sdiv m * m"
    using sdiv_mult_smod_eq [of x m] by linarith
  then have "(x smod m) mod m = (x - x sdiv m * m) mod m"
    by simp
  also have "\<dots> = x mod m"
    by (metis mod_diff_right_eq mod_mult_self2_is_0 diff_zero)
  finally show ?thesis .
qed

definition same_mod :: "int \<Rightarrow> int \<Rightarrow> int \<Rightarrow> bool" where
  "same_mod m x y = (x mod m = y mod m)"

lemma same_mod_refl [simp]: "same_mod m x x"
  by (simp add: same_mod_def)

lemma same_mod_trans: "same_mod m x y \<Longrightarrow> same_mod m y z \<Longrightarrow> same_mod m x z"
  by (simp add: same_mod_def)

lemma same_mod_sym: "same_mod m x y \<Longrightarrow> same_mod m y x"
  by (simp add: same_mod_def)

lemma same_mod_smod [simp]: "same_mod m (x smod m) y \<longleftrightarrow> same_mod m x y" "same_mod m y (x smod m) \<longleftrightarrow> same_mod m y x"
  by (simp_all add: same_mod_def smod_mod)

lemma same_mod_add: "same_mod m x y \<Longrightarrow> same_mod m u v \<Longrightarrow> same_mod m (x + u) (y + v)"
  unfolding same_mod_def by (rule mod_add_cong)

lemma same_mod_mult: "same_mod m x y \<Longrightarrow> same_mod m u v \<Longrightarrow> same_mod m (x * u) (y * v)"
  unfolding same_mod_def by (rule mod_mult_cong)

lemma same_mod_sum: "(\<And>i. i \<in> A \<Longrightarrow> same_mod m (f i) (g i)) \<Longrightarrow> same_mod m (sum f A) (sum g A)"
  by (induction A rule: infinite_finite_induct) (auto intro: same_mod_add)

lemma same_mod_affine:
  "same_mod m u u' \<Longrightarrow> same_mod m x x' \<Longrightarrow> same_mod m v v' \<Longrightarrow> same_mod m (u * x + v) (u' * x' + v')"
  by (intro same_mod_add same_mod_mult)

section \<open>Numbers of 32 bits\<close>

text \<open>With the modulus and all numbers of at most \<open>2 ^ 31\<close>, no product and no sum of the program leaves 64 bits.\<close>

definition small :: "int \<Rightarrow> bool" where
  "small x = (\<bar>x\<bar> \<le> 2 ^ 31)"

definition modulus :: "int \<Rightarrow> bool" where
  "modulus m = (0 < m \<and> m \<le> 2 ^ 31)"

lemma small_numbers [simp]: "small 0" "small 1"
  by (simp_all add: small_def)

lemma small_length: "k \<le> 100005 \<Longrightarrow> small (int k)"
  by (simp add: small_def)

lemma small_smod [simp]: "modulus m \<Longrightarrow> small (x smod m)"
proof -
  assume "modulus m"
  then have "0 \<le> \<bar>x\<bar> mod m" "\<bar>x\<bar> mod m < m" "m \<le> 2 ^ 31"
    by (simp_all add: modulus_def)
  moreover have "x smod m = sgn x * (\<bar>x\<bar> mod m)"
    using \<open>modulus m\<close> by (simp add: modulus_def signed_modulo_int_def signed_divide_int_def algebra_simps minus_mult_div_eq_mod [symmetric] sgn_mult_abs)
  ultimately show ?thesis
    by (simp add: small_def abs_mult abs_sgn_eq)
qed

lemma ll_mod_modulus [simp]: "modulus m \<Longrightarrow> ll_mod x m = Some (x smod m)"
  by (simp add: modulus_def)

lemma small_product: "small x \<Longrightarrow> small y \<Longrightarrow> \<bar>x * y\<bar> \<le> 2 ^ 62"
  using mult_mono [of "\<bar>x\<bar>" "2 ^ 31" "\<bar>y\<bar>" "2 ^ 31"] by (simp add: small_def abs_mult)

lemma long_long_small [simp]:
  "small x \<Longrightarrow> small y \<Longrightarrow> long_long (x * y) = Some (x * y)"
  "small x \<Longrightarrow> small y \<Longrightarrow> long_long (x + y) = Some (x + y)"
  "small x \<Longrightarrow> small y \<Longrightarrow> small z \<Longrightarrow> long_long (x + y * z) = Some (x + y * z)"
  using small_product [of x y] small_product [of y z] by (simp_all add: small_def)

section \<open>What a node stands for\<close>

function aff_rep ::
  "int \<Rightarrow> (nat \<Rightarrow> int) \<Rightarrow> (nat \<Rightarrow> int) \<Rightarrow> (nat \<Rightarrow> int) \<Rightarrow> nat \<Rightarrow> nat \<Rightarrow> nat \<Rightarrow> (nat \<Rightarrow> int) \<Rightarrow> bool" where
  "aff_rep m d u v s t p f =
     (same_mod m (d p) (sum f {s..t}) \<and>
      (s < t \<longrightarrow> (\<exists>g. (\<forall>i \<in> {s..t}. same_mod m (f i) (u p * g i + v p)) \<and>
        aff_rep m d u v s (middle s t) (2 * p) g \<and> aff_rep m d u v (middle s t + 1) t (2 * p + 1) g)))"
  by auto
termination
  by (relation "measure (\<lambda>(m, d, u, v, s, t, p, f). t - s)") auto

declare aff_rep.simps [simp del]

lemma aff_repI:
  assumes "same_mod m (d p) (sum f {s..t})"
    and "s < t \<Longrightarrow> \<exists>g. (\<forall>i \<in> {s..t}. same_mod m (f i) (u p * g i + v p)) \<and>
        aff_rep m d u v s (middle s t) (2 * p) g \<and> aff_rep m d u v (middle s t + 1) t (2 * p + 1) g"
  shows "aff_rep m d u v s t p f"
  using assms by (subst aff_rep.simps) blast

lemma aff_repD:
  assumes "aff_rep m d u v s t p f"
  shows "same_mod m (d p) (sum f {s..t})"
    and "s < t \<Longrightarrow> \<exists>g. (\<forall>i \<in> {s..t}. same_mod m (f i) (u p * g i + v p)) \<and>
        aff_rep m d u v s (middle s t) (2 * p) g \<and> aff_rep m d u v (middle s t + 1) t (2 * p + 1) g"
  using assms by (subst (asm) aff_rep.simps, blast)+

lemma aff_rep_clean:
  assumes "same_mod m (d p) (sum f {s..t})" and "u p = 1" and "v p = 0"
    and "aff_rep m d u v s (middle s t) (2 * p) f" and "aff_rep m d u v (middle s t + 1) t (2 * p + 1) f"
  shows "aff_rep m d u v s t p f"
  using assms(1) by (rule aff_repI) (use assms in \<open>intro exI [of _ f], simp\<close>)

text \<open>Only the cells modulo \<open>m\<close> and the nodes of the subtree matter.\<close>

lemma aff_rep_cong:
  assumes "aff_rep m d u v s t p f" and "\<And>i. s \<le> i \<Longrightarrow> i \<le> t \<Longrightarrow> same_mod m (f i) (g i)"
    and "\<And>q. q \<in> sub p \<Longrightarrow> d' q = d q \<and> u' q = u q \<and> v' q = v q"
  shows "aff_rep m d' u' v' s t p g"
  using assms
proof (induction "t - s" arbitrary: s t p f g rule: less_induct)
  case less
  have p: "d' p = d p" "u' p = u p" "v' p = v p"
    using less.prems(3) [of p] by simp_all
  show ?case
  proof (rule aff_repI)
    have "same_mod m (sum f {s..t}) (sum g {s..t})"
      by (rule same_mod_sum) (use less.prems(2) in auto)
    then show "same_mod m (d' p) (sum g {s..t})"
      using aff_repD(1) [OF less.prems(1)] p same_mod_trans by metis
  next
    assume st: "s < t"
    obtain h where h: "\<forall>i \<in> {s..t}. same_mod m (f i) (u p * h i + v p)"
        "aff_rep m d u v s (middle s t) (2 * p) h" "aff_rep m d u v (middle s t + 1) t (2 * p + 1) h"
      using aff_repD(2) [OF less.prems(1) st] by blast
    have "aff_rep m d' u' v' s (middle s t) (2 * p) h"
      by (rule less.hyps [OF _ h(2)]) (use st less.prems(3) sub_subset(1) [of p] in auto)
    moreover have "aff_rep m d' u' v' (middle s t + 1) t (2 * p + 1) h"
      by (rule less.hyps [OF _ h(3)]) (use st less.prems(3) sub_subset(2) [of p] in auto)
    moreover have "same_mod m (g i) (u' p * h i + v' p)" if "i \<in> {s..t}" for i
      using h(1) less.prems(2) [of i] that p same_mod_trans same_mod_sym by (metis atLeastAtMost_iff)
    ultimately show "\<exists>h. (\<forall>i \<in> {s..t}. same_mod m (g i) (u' p * h i + v' p)) \<and>
        aff_rep m d' u' v' s (middle s t) (2 * p) h \<and> aff_rep m d' u' v' (middle s t + 1) t (2 * p + 1) h"
      by blast
  qed
qed

text \<open>A change \<open>x \<mapsto> a * x + b\<close> of all cells is recorded at the node.\<close>

lemma aff_rep_change:
  assumes "aff_rep m d u v s t p f" and "s \<le> t" and "0 < p"
    and "same_mod m (d' p) (a * d p + b * int (t - s + 1))"
    and "same_mod m (u' p) (a * u p)" and "same_mod m (v' p) (a * v p + b)"
    and same: "\<And>q. q \<in> sub p \<Longrightarrow> q \<noteq> p \<Longrightarrow> d' q = d q \<and> u' q = u q \<and> v' q = v q"
  shows "aff_rep m d' u' v' s t p (\<lambda>i. a * f i + b)"
proof (rule aff_repI)
  have "(\<Sum>i\<in>{s..t}. a * f i + b) = a * sum f {s..t} + b * int (t - s + 1)"
    using assms(2) by (simp add: sum.distrib sum_distrib_left Suc_diff_le algebra_simps)
  moreover have "same_mod m (a * d p + b * int (t - s + 1)) (a * sum f {s..t} + b * int (t - s + 1))"
    by (intro same_mod_affine same_mod_refl aff_repD(1) [OF assms(1)])
  ultimately show "same_mod m (d' p) (\<Sum>i\<in>{s..t}. a * f i + b)"
    using assms(4) same_mod_trans by metis
next
  assume st: "s < t"
  obtain h where h: "\<forall>i \<in> {s..t}. same_mod m (f i) (u p * h i + v p)"
      "aff_rep m d u v s (middle s t) (2 * p) h" "aff_rep m d u v (middle s t + 1) t (2 * p + 1) h"
    using aff_repD(2) [OF assms(1) st] by blast
  note disj = sub_disjoint [OF assms(3)] and subs = sub_subset [of p]
  have "aff_rep m d' u' v' s (middle s t) (2 * p) h"
    by (rule aff_rep_cong [OF h(2)]) (use same disj subs in \<open>auto simp: subset_iff\<close>)
  moreover have "aff_rep m d' u' v' (middle s t + 1) t (2 * p + 1) h"
    by (rule aff_rep_cong [OF h(3)]) (use same disj subs in \<open>auto simp: subset_iff\<close>)
  moreover have "same_mod m (a * f i + b) (u' p * h i + v' p)" if "i \<in> {s..t}" for i
  proof -
    have "same_mod m (a * f i + b) (a * (u p * h i + v p) + b)"
      using h(1) that by (intro same_mod_affine same_mod_refl) blast
    also have "a * (u p * h i + v p) + b = a * u p * h i + (a * v p + b)"
      by (simp add: algebra_simps)
    finally show ?thesis
      using same_mod_affine [OF same_mod_sym [OF assms(5)] same_mod_refl same_mod_sym [OF assms(6)], of "h i"]
        same_mod_trans by blast
  qed
  ultimately show "\<exists>g. (\<forall>i \<in> {s..t}. same_mod m (a * f i + b) (u' p * g i + v' p)) \<and>
      aff_rep m d' u' v' s (middle s t) (2 * p) g \<and> aff_rep m d' u' v' (middle s t + 1) t (2 * p + 1) g"
    by blast
qed

definition seg2_small :: "seg2 \<Rightarrow> bool" where
  "seg2_small S = (\<forall>q. small (s2_sum S q) \<and> small (s2_mul S q) \<and> small (s2_laz S q))"

definition seg2_rep :: "int \<Rightarrow> seg2 \<Rightarrow> nat \<Rightarrow> nat \<Rightarrow> nat \<Rightarrow> (nat \<Rightarrow> int) \<Rightarrow> bool" where
  "seg2_rep m S s t p f = (fits cells2 s t p \<and> t < 100005 \<and> modulus m \<and> seg2_small S \<and>
     aff_rep m (s2_sum S) (s2_mul S) (s2_laz S) s t p f)"

definition seg2_clean :: "seg2 \<Rightarrow> nat \<Rightarrow> bool" where
  "seg2_clean S p = (p < cells2 \<and> s2_mul S p = 1 \<and> s2_laz S p = 0)"

definition seg2_same_outside :: "nat set \<Rightarrow> seg2 \<Rightarrow> seg2 \<Rightarrow> bool" where
  "seg2_same_outside A S S' = ((\<forall>q. q \<notin> A \<longrightarrow>
     s2_sum S' q = s2_sum S q \<and> s2_mul S' q = s2_mul S q \<and> s2_laz S' q = s2_laz S q) \<and> (seg2_small S \<longrightarrow> seg2_small S'))"

section \<open>The laws of the nodes\<close>

lemma seg2_rep_cong:
  "seg2_rep m S s t p f \<Longrightarrow> (\<And>i. s \<le> i \<Longrightarrow> i \<le> t \<Longrightarrow> f i = g i) \<Longrightarrow> seg2_rep m S s t p g"
  unfolding seg2_rep_def using aff_rep_cong by (metis same_mod_refl)

lemma seg2_rep_outside:
  assumes "seg2_rep m S s t p f" and "seg2_same_outside A S S'" and "A \<inter> sub p = {}"
  shows "seg2_rep m S' s t p f"
proof -
  have "aff_rep m (s2_sum S') (s2_mul S') (s2_laz S') s t p f"
    by (rule aff_rep_cong [of m "s2_sum S" "s2_mul S" "s2_laz S" s t p f])
      (use assms in \<open>auto simp: seg2_rep_def seg2_same_outside_def\<close>)
  then show ?thesis
    using assms(1,2) by (simp add: seg2_rep_def seg2_same_outside_def)
qed

lemma seg2_outside_facts:
  "seg2_same_outside A S S"
  "seg2_same_outside A S S' \<Longrightarrow> seg2_same_outside B S' S'' \<Longrightarrow> A \<subseteq> C \<Longrightarrow> B \<subseteq> C \<Longrightarrow> seg2_same_outside C S S''"
  "seg2_clean S p \<Longrightarrow> seg2_same_outside A S S' \<Longrightarrow> p \<notin> A \<Longrightarrow> seg2_clean S' p"
  unfolding seg2_same_outside_def seg2_clean_def by (simp, metis subsetD, simp)

lemma same_mod_pending:
  "same_mod m ((x * u) smod m + w) (u * x + w)" "same_mod m (x * u) (u * x)"
  by (rule same_mod_add, simp_all add: mult.commute)

text \<open>\<open>pd\<close> on the children and on the node.\<close>

lemma seg2_pd_effect:
  assumes "0 < p" and "s < t" and "2 * p + 1 < cells2" and "t < 100005" and "modulus m" and "seg2_small S"
  shows "\<exists>S'. seg2_pd m p s t S = Some S' \<and> seg2_clean S' p \<and> seg2_same_outside {p, 2 * p, 2 * p + 1} S S' \<and>
    s2_sum S' p = s2_sum S p \<and>
    same_mod m (s2_sum S' (2 * p)) (s2_mul S p * s2_sum S (2 * p) + s2_laz S p * int (middle s t - s + 1)) \<and>
    same_mod m (s2_sum S' (2 * p + 1)) (s2_mul S p * s2_sum S (2 * p + 1) + s2_laz S p * int (t - middle s t)) \<and>
    (\<forall>q \<in> {2 * p, 2 * p + 1}. same_mod m (s2_mul S' q) (s2_mul S p * s2_mul S q) \<and>
      same_mod m (s2_laz S' q) (s2_mul S p * s2_laz S q + s2_laz S p))"
proof -
  have mid: "(s + t) div 2 = middle s t"
    using assms(2) by simp
  define k k' where k: "k = int (middle s t - s + 1)" "k' = int (t - middle s t)"
  have "middle s t - s + 1 \<le> 100005" "t - middle s t \<le> 100005"
    using assms(2,4) by linarith+
  then have len: "small k" "small k'"
    unfolding k by (blast intro: small_length)+
  have cells: "small (s2_sum S q)" "small (s2_mul S q)" "small (s2_laz S q)" for q
    using assms(6) by (simp_all add: seg2_small_def)
  show ?thesis
    unfolding seg2_pd_def mid Let_def k [symmetric]
    using assms(1,3,5) len cells
    by (cases "s2_mul S p = 1"; cases "s2_laz S p = 0")
      (simp_all add: seg2_clean_def seg2_same_outside_def seg2_small_def same_mod_pending same_mod_pending(1) [where w = 0, simplified])
qed

lemma seg2_push:
  assumes "0 < p" and "s < t" and "seg2_rep m S s t p f"
  shows "\<exists>S'. seg2_pd m p s t S = Some S' \<and> seg2_rep m S' s (middle s t) (2 * p) f \<and>
    seg2_rep m S' (middle s t + 1) t (2 * p + 1) f \<and> seg2_clean S' p \<and> seg2_same_outside (sub p) S S' \<and>
    seg2_rep m S' s t p f"
proof -
  let ?m = "middle s t"
  have fit: "fits cells2 s t p" and a: "aff_rep m (s2_sum S) (s2_mul S) (s2_laz S) s t p f"
    and small: "t < 100005" "modulus m" "seg2_small S"
    using assms(3) by (simp_all add: seg2_rep_def)
  note fits = fits_children [OF fit assms(2)] and mid = middle_bounds [OF assms(2)]
    and disj = sub_disjoint [OF assms(1)] sub_siblings [OF assms(1)]
  obtain S' where S': "seg2_pd m p s t S = Some S'" "seg2_clean S' p" "seg2_same_outside {p, 2 * p, 2 * p + 1} S S'"
      "s2_sum S' p = s2_sum S p"
      "same_mod m (s2_sum S' (2 * p)) (s2_mul S p * s2_sum S (2 * p) + s2_laz S p * int (?m - s + 1))"
      "same_mod m (s2_sum S' (2 * p + 1)) (s2_mul S p * s2_sum S (2 * p + 1) + s2_laz S p * int (t - ?m))"
      "\<forall>q \<in> {2 * p, 2 * p + 1}. same_mod m (s2_mul S' q) (s2_mul S p * s2_mul S q) \<and>
        same_mod m (s2_laz S' q) (s2_mul S p * s2_laz S q + s2_laz S p)"
    using seg2_pd_effect [OF assms(1,2) fits(4) small] by blast
  obtain g where g: "\<forall>i \<in> {s..t}. same_mod m (f i) (s2_mul S p * g i + s2_laz S p)"
      "aff_rep m (s2_sum S) (s2_mul S) (s2_laz S) s ?m (2 * p) g"
      "aff_rep m (s2_sum S) (s2_mul S) (s2_laz S) (?m + 1) t (2 * p + 1) g"
    using aff_repD(2) [OF a assms(2)] by blast
  have len: "t - ?m = t - (?m + 1) + 1"
    using mid(2) by simp
  have "aff_rep m (s2_sum S') (s2_mul S') (s2_laz S') s ?m (2 * p) (\<lambda>i. s2_mul S p * g i + s2_laz S p)"
    by (rule aff_rep_change [OF g(2)]) (use S' mid assms(1) disj in \<open>auto simp: seg2_same_outside_def\<close>)
  then have l: "aff_rep m (s2_sum S') (s2_mul S') (s2_laz S') s ?m (2 * p) f"
    by (rule aff_rep_cong) (use g(1) mid in \<open>auto intro: same_mod_sym\<close>)
  have "aff_rep m (s2_sum S') (s2_mul S') (s2_laz S') (?m + 1) t (2 * p + 1) (\<lambda>i. s2_mul S p * g i + s2_laz S p)"
    by (rule aff_rep_change [OF g(3)])
      (use S'(3,7) S'(6) [unfolded len] mid assms(1) disj in \<open>auto simp: seg2_same_outside_def\<close>)
  then have r: "aff_rep m (s2_sum S') (s2_mul S') (s2_laz S') (?m + 1) t (2 * p + 1) f"
    by (rule aff_rep_cong) (use g(1) mid in \<open>auto intro: same_mod_sym\<close>)
  have "same_mod m (s2_sum S' p) (sum f {s..t})"
    using aff_repD(1) [OF a] S'(4) by simp
  then have "aff_rep m (s2_sum S') (s2_mul S') (s2_laz S') s t p f"
    by (rule aff_rep_clean) (use S'(2) l r in \<open>auto simp: seg2_clean_def\<close>)
  moreover have "seg2_same_outside (sub p) S S'"
    by (rule seg2_outside_facts(2) [OF S'(3) seg2_outside_facts(1) [of "{}"]]) (use sub_children [of p] in auto)
  moreover have "seg2_small S'"
    using S'(3) small(3) by (simp add: seg2_same_outside_def)
  ultimately show ?thesis
    using S'(1,2) l r fits fit mid(2) small(1,2) by (auto simp: seg2_rep_def)
qed

lemma seg2_pull:
  assumes "0 < p" and "s < t" and "seg2_clean S p" and "seg2_rep m S s (middle s t) (2 * p) f"
    and "seg2_rep m S (middle s t + 1) t (2 * p + 1) f"
  shows "\<exists>S'. seg2_up m p S = Some S' \<and> seg2_rep m S' s t p f \<and> seg2_same_outside {p} S S'"
proof -
  let ?d = "(s2_sum S)(p := (s2_sum S (2 * p) + s2_sum S (2 * p + 1)) smod m)"
  have f: "fits cells2 s (middle s t) (2 * p)" "fits cells2 (middle s t + 1) t (2 * p + 1)"
    and a: "aff_rep m (s2_sum S) (s2_mul S) (s2_laz S) s (middle s t) (2 * p) f"
      "aff_rep m (s2_sum S) (s2_mul S) (s2_laz S) (middle s t + 1) t (2 * p + 1) f"
    and c: "p < cells2" "s2_mul S p = 1" "s2_laz S p = 0" and small: "t < 100005" "modulus m" "seg2_small S"
    using assms(3-5) by (simp_all add: seg2_rep_def seg2_clean_def)
  have cells: "small (s2_sum S q)" for q
    using small(3) by (simp add: seg2_small_def)
  note disj = sub_disjoint [OF assms(1)]
  have "aff_rep m ?d (s2_mul S) (s2_laz S) s (middle s t) (2 * p) f"
    by (rule aff_rep_cong [OF a(1)]) (use disj in auto)
  moreover have "aff_rep m ?d (s2_mul S) (s2_laz S) (middle s t + 1) t (2 * p + 1) f"
    by (rule aff_rep_cong [OF a(2)]) (use disj in auto)
  moreover have "same_mod m (?d p) (sum f {s..t})"
    using same_mod_add [OF aff_repD(1) [OF a(1)] aff_repD(1) [OF a(2)]] sum_middle [OF assms(2), of f] by simp
  ultimately have "aff_rep m ?d (s2_mul S) (s2_laz S) s t p f"
    using c aff_rep_clean [of m ?d p f s t] by blast
  then show ?thesis
    using fits_node [OF c(1) assms(2) f] fits_root [OF f(1)] fits_root [OF f(2)] c(1) small cells
    by (simp add: seg2_up_def seg2_rep_def seg2_same_outside_def seg2_small_def)
qed

lemma seg2_pull_again:
  assumes "0 < p" and "s < t" and "seg2_clean S p" and "seg2_rep m S s t p f"
    and "seg2_rep m S' s (middle s t) (2 * p) f" and "seg2_rep m S' (middle s t + 1) t (2 * p + 1) f"
    and "seg2_same_outside (sub (2 * p) \<union> sub (2 * p + 1)) S S'"
  shows "seg2_rep m S' s t p f"
proof -
  have "same_mod m (s2_sum S' p) (sum f {s..t})" "s2_mul S' p = 1" "s2_laz S' p = 0"
    using assms(3,7) sub_disjoint [OF assms(1)] aff_repD(1) [of m "s2_sum S" "s2_mul S" "s2_laz S" s t p f] assms(4)
    by (simp_all add: seg2_same_outside_def seg2_clean_def seg2_rep_def)
  then have "aff_rep m (s2_sum S') (s2_mul S') (s2_laz S') s t p f"
    using assms(5,6) aff_rep_clean [of m "s2_sum S'" p f s t] by (auto simp: seg2_rep_def)
  then show ?thesis
    using assms(4,5) by (simp add: seg2_rep_def)
qed

lemma seg2_times_law:
  assumes "small z" and "0 < p" and "s \<le> t" and "seg2_rep m S s t p f"
  shows "\<exists>S'. seg2_times m z s t p S = Some S' \<and> seg2_rep m S' s t p (\<lambda>i. z * f i) \<and> seg2_same_outside (sub p) S S'"
proof -
  have a: "aff_rep m (s2_sum S) (s2_mul S) (s2_laz S) s t p f" and p: "p < cells2" and m: "modulus m" "t < 100005"
    and cells: "small (s2_sum S q)" "small (s2_mul S q)" "small (s2_laz S q)" for q
    using assms(4) fits_root by (auto simp: seg2_rep_def seg2_small_def)
  have "aff_rep m ((s2_sum S)(p := (s2_sum S p * z) smod m)) ((s2_mul S)(p := (s2_mul S p * z) smod m))
      ((s2_laz S)(p := (s2_laz S p * z) smod m)) s t p (\<lambda>i. z * f i + 0)"
    by (rule aff_rep_change [OF a assms(3,2)]) (auto simp: same_mod_pending)
  then show ?thesis
    using p assms(1,4) m cells by (auto simp: seg2_times_def seg2_rep_def seg2_same_outside_def seg2_small_def)
qed

lemma seg2_plus_law:
  assumes "small z" and "0 < p" and "s \<le> t" and "seg2_rep m S s t p f"
  shows "\<exists>S'. seg2_plus m z s t p S = Some S' \<and> seg2_rep m S' s t p (\<lambda>i. f i + z) \<and> seg2_same_outside (sub p) S S'"
proof -
  have a: "aff_rep m (s2_sum S) (s2_mul S) (s2_laz S) s t p f" and p: "p < cells2" and m: "modulus m" "t < 100005"
    and cells: "small (s2_sum S q)" "small (s2_mul S q)" "small (s2_laz S q)" for q
    using assms(4) fits_root by (auto simp: seg2_rep_def seg2_small_def)
  have "aff_rep m ((s2_sum S)(p := (s2_sum S p + z * int (t - s + 1)) smod m)) (s2_mul S)
      ((s2_laz S)(p := (s2_laz S p + z) smod m)) s t p (\<lambda>i. 1 * f i + z)"
    by (rule aff_rep_change [OF a assms(3,2)]) auto
  moreover have "small (int (t - s + 1))"
    using m(2) by (intro small_length) simp
  ultimately show ?thesis
    using p assms(1,4) m cells
    by (auto simp: seg2_plus_def seg2_rep_def seg2_same_outside_def seg2_small_def simp del: of_nat_add of_nat_Suc)
qed

definition seg2_answers :: "int \<Rightarrow> int \<Rightarrow> (nat \<Rightarrow> int) \<Rightarrow> nat set \<Rightarrow> bool" where
  "seg2_answers m v f A = (small v \<and> v mod m = sum f A mod m)"

lemma seg2_look:
  "seg2_rep m S s t p f \<Longrightarrow> \<exists>v. peek cells2 (s2_sum S) p = Some v \<and> seg2_answers m v f {s..t}"
  using fits_root [of cells2 s t p] aff_repD(1) [of m "s2_sum S" "s2_mul S" "s2_laz S" s t p f]
  by (simp add: seg2_rep_def same_mod_def seg2_answers_def seg2_small_def)

text \<open>\<open>build\<close>, on a state without pending additions.\<close>

lemma seg2_build_rep:
  assumes "0 < p" and "s \<le> t" and "t < 100005" and "fits cells2 s t p" and "s2_laz S = (\<lambda>_. 0)"
    and "modulus m" and "seg2_small S" and "\<And>i. s \<le> i \<Longrightarrow> i \<le> t \<Longrightarrow> small (a i)"
  shows "\<exists>S'. seg2_build m a s t p S = Some S' \<and> seg2_rep m S' s t p a \<and> s2_laz S' = (\<lambda>_. 0) \<and>
    seg2_same_outside (sub p) S S'"
  using assms
proof (induction "t - s" arbitrary: s t p S rule: less_induct)
  case less
  let ?S = "S\<lparr>s2_mul := (s2_mul S)(p := 1)\<rparr>"
  have p: "p < cells2"
    using fits_root [OF less.prems(4)] .
  have small: "seg2_small ?S"
    using less.prems(7) by (simp add: seg2_small_def)
  show ?case
  proof (cases "s = t")
    case True
    have "aff_rep m ((s2_sum S)(p := a t)) u v t t p a" for u v
      by (rule aff_repI) simp_all
    then show ?thesis
      using True less.prems p
      by (auto simp: seg2_build.simps [of m a t t p S] seg2_rep_def seg2_same_outside_def seg2_small_def)
  next
    case False
    let ?m = "middle s t"
    have st: "s < t"
      using False less.prems(2) by simp
    then have mid: "?m < 100005" "?m - s < t - s" "t - (?m + 1) < t - s" "?m + 1 \<le> t"
      using less.prems(3) by auto
    note fits = fits_children [OF less.prems(4) st] and disj = sub_disjoint [OF less.prems(1)]
    obtain S1 where S1: "seg2_build m a s ?m (2 * p) ?S = Some S1" "seg2_rep m S1 s ?m (2 * p) a"
        "s2_laz S1 = (\<lambda>_. 0)" "seg2_same_outside (sub (2 * p)) ?S S1"
      using less.hyps [OF mid(2), of "2 * p" ?S] less.prems(1,5,6,8) small fits(1) mid(1,4) by auto
    obtain S2 where S2: "seg2_build m a (?m + 1) t (2 * p + 1) S1 = Some S2" "seg2_rep m S2 (?m + 1) t (2 * p + 1) a"
        "s2_laz S2 = (\<lambda>_. 0)" "seg2_same_outside (sub (2 * p + 1)) S1 S2"
      using less.hyps [OF mid(3) _ mid(4), of "2 * p + 1" S1] less.prems(3,6,8) S1(2,3) fits(2) by (auto simp: seg2_rep_def)
    have "seg2_rep m S2 s ?m (2 * p) a"
      using seg2_rep_outside [OF S1(2) S2(4)] disj(1) by blast
    moreover have "seg2_clean S2 p"
      using S1(4) S2(3,4) disj p by (simp add: seg2_clean_def seg2_same_outside_def)
    ultimately obtain S3 where S3: "seg2_up m p S2 = Some S3" "seg2_rep m S3 s t p a" "seg2_same_outside {p} S2 S3"
      using seg2_pull [OF less.prems(1) st] S2(2) by blast
    have "seg2_build m a s t p S = Some S3"
      using S1(1) S2(1) S3(1) False p by (simp add: seg2_build.simps [of m a s t p S] Let_def)
    moreover have "s2_laz S3 = (\<lambda>_. 0)"
      using S3(1) S2(3) fits(3,4) p by (auto simp: seg2_up_def split: Option.bind_splits)
    moreover have "seg2_same_outside (sub p) ?S S3"
      using S1(4) S2(4) S3(3) sub_subset [of p] by (meson seg2_outside_facts(2) subset_refl)
    moreover have "seg2_same_outside (sub p) S ?S"
      using small by (simp add: seg2_same_outside_def)
    ultimately show ?thesis
      using S3(2) seg2_outside_facts(2) by blast
  qed
qed

section \<open>The laws hold\<close>

interpretation seg2: segment_nodes "seg2_rep m" seg2_clean seg2_same_outside "\<lambda>s t p. seg2_pd m p s t" "seg2_up m" for m
proof
  fix p s t :: nat and S f
  show "0 < p \<Longrightarrow> s < t \<Longrightarrow> seg2_rep m S s t p f \<Longrightarrow> \<exists>S'. seg2_pd m p s t S = Some S' \<and>
      seg2_rep m S' s (middle s t) (2 * p) f \<and> seg2_rep m S' (middle s t + 1) t (2 * p + 1) f \<and> seg2_clean S' p \<and>
      seg2_same_outside (sub p) S S'"
    using seg2_push by blast
qed (fact seg2_rep_cong seg2_rep_outside seg2_outside_facts seg2_pull)+

interpretation seg2_mult: range_update "seg2_rep m" seg2_clean seg2_same_outside "\<lambda>s t p. seg2_pd m p s t" "seg2_up m"
  "seg2_times m z" "\<lambda>l r s t p. seg2_chen m l r s t p z" "\<lambda>x. z * x" "\<lambda>_. small z" for m z
  by unfold_locales (subst seg2_chen.simps, simp add: Let_def Suc_le_eq, rule seg2_times_law, auto)

interpretation seg2_addition: range_update "seg2_rep m" seg2_clean seg2_same_outside "\<lambda>s t p. seg2_pd m p s t" "seg2_up m"
  "seg2_plus m z" "\<lambda>l r s t p. seg2_add m l r s t p z" "\<lambda>x. x + z" "\<lambda>_. small z" for m z
  by unfold_locales (subst seg2_add.simps, simp add: Let_def Suc_le_eq, rule seg2_plus_law, auto)

definition seg2_total :: "int \<Rightarrow> int \<Rightarrow> int \<Rightarrow> int option" where
  "seg2_total m x y = do {
     x \<leftarrow> long_long x;
     x \<leftarrow> ll_mod x m;
     z \<leftarrow> long_long (x + y);
     ll_mod z m
   }"

lemma ll_mod_long_long:
  assumes "long_long x = Some x'" and "ll_mod x' m = Some y"
  shows "long_long y = Some y"
proof -
  define r where "r = \<bar>x'\<bar> mod \<bar>m\<bar>"
  have x: "y = sgn x' * r" "m \<noteq> 0" "- (2 ^ 63) \<le> x'" "x' < 2 ^ 63"
    using assms by (auto simp: ll_mod_def long_long_def smod_int_alt_def r_def split: if_splits Option.bind_splits)
  have "0 \<le> r" "r \<le> \<bar>x'\<bar>"
    using x(2) by (simp_all add: zmod_le_nonneg_dividend r_def)
  then show ?thesis
    using x by (cases "0 \<le> x'") (auto simp: long_long_def sgn_if)
qed

lemma seg2_total_last:
  "do {
     tot \<leftarrow> long_long (0 + x);
     tot \<leftarrow> ll_mod tot m;
     (S, tot) \<leftarrow> (if c then do { (S, y) \<leftarrow> Q; tot \<leftarrow> long_long (tot + y); Some (S, tot) } else Some (S0, tot));
     tot \<leftarrow> ll_mod tot m;
     Some (S, tot)
   } =
   do {
     (S, y) \<leftarrow> (if c then Q else Some (S0, 0));
     map_option (\<lambda>v. (S, v)) (seg2_total m x y)
   }"
proof (cases "long_long x")
  case (Some x')
  then show ?thesis
  proof (cases "ll_mod x' m")
    case (Some y)
    then show ?thesis
      using \<open>long_long x = _\<close> ll_mod_long_long [of x x' m y]
      by (cases Q) (auto simp: seg2_total_def map_option_bind_right bind_Some_map_option bind_map_option_left)
  qed (cases Q; auto simp: seg2_total_def)
qed (cases Q; auto simp: seg2_total_def)

interpretation seg2_qry: range_collect "seg2_rep m" seg2_clean seg2_same_outside "\<lambda>s t p. seg2_pd m p s t" "seg2_up m"
  "\<lambda>p S. peek cells2 (s2_sum S) p" "seg2_getans m" 0 "seg2_total m" "seg2_answers m" for m
proof
  show "seg2_getans m l r s t p S =
      (if l \<le> s \<and> t \<le> r then map_option (\<lambda>v. (S, v)) (peek cells2 (s2_sum S) p)
       else do {
         S1 \<leftarrow> seg2_pd m p s t S;
         (S2, x) \<leftarrow> (if l \<le> middle s t then seg2_getans m l r s (middle s t) (2 * p) S1 else Some (S1, 0));
         (S3, y) \<leftarrow> (if middle s t < r then seg2_getans m l r (middle s t + 1) t (2 * p + 1) S2 else Some (S2, 0));
         map_option (\<lambda>v. (S3, v)) (seg2_total m x y)
       })" for l r s t p S
  proof (cases "l \<le> s \<and> t \<le> r")
    case True
    then show ?thesis
      by (subst seg2_getans.simps) (simp add: bind_Some_map_option)
  next
    case False
    show ?thesis
    proof (cases "seg2_pd m p s t S")
      case (Some S1)
      show ?thesis
      proof (cases "l \<le> middle s t")
        case True
        then show ?thesis
          using False Some seg2_total_last [of _ m "middle s t < r"]
          by (cases "seg2_getans m l r s (middle s t) (2 * p) S1") (auto simp: seg2_getans.simps [of m l r s t p S] Let_def Suc_le_eq)
      next
        case left: False
        then show ?thesis
          using False Some seg2_total_last [of 0 m "middle s t < r"] by (auto simp: seg2_getans.simps [of m l r s t p S] Let_def Suc_le_eq)
      qed
    qed (use False in \<open>auto simp: seg2_getans.simps [of m l r s t p S] Let_def\<close>)
  qed
  show "0 < p \<Longrightarrow> s < t \<Longrightarrow> seg2_rep m S s t p f \<Longrightarrow> seg2_pd m p s t S = Some S' \<Longrightarrow> seg2_rep m S' s t p f" for p s t S S' f
    using seg2_push [of p s t m S f] by auto
  show "\<exists>z. seg2_total m x y = Some z \<and> seg2_answers m z f (A \<union> B)"
    if "seg2_rep m S s t p f" "A \<union> B \<subseteq> {s..t}" "A \<inter> B = {}" "seg2_answers m x f A" "seg2_answers m y f B" for S s t p f A B x y
  proof -
    have "finite A" "finite B"
      using that(2) finite_subset [of "A \<union> B" "{s..t}"] by auto
    then have "sum f (A \<union> B) = sum f A + sum f B"
      using that(3) by (rule sum.union_disjoint)
    moreover have "modulus m" "small x" "small y" "x mod m = sum f A mod m" "y mod m = sum f B mod m"
      using that(1,4,5) by (simp_all add: seg2_rep_def seg2_answers_def)
    moreover have "long_long x = Some x"
      using \<open>small x\<close> by (simp add: small_def)
    ultimately show ?thesis
      using mod_add_cong [of "x smod m" m "sum f A" y "sum f B"] by (simp add: seg2_total_def seg2_answers_def smod_mod)
  qed
  show "seg2_answers m 0 f {}" for f
    by (simp add: seg2_answers_def)
qed (auto intro: seg2_look seg2_pull_again)

section \<open>Sequences of operations\<close>

datatype change = Times int | Plus int

fun change_cell :: "change \<Rightarrow> int \<Rightarrow> int" where
  "change_cell (Times z) x = z * x"
| "change_cell (Plus z) x = x + z"

fun change_arg :: "change \<Rightarrow> int" where
  "change_arg (Times z) = z"
| "change_arg (Plus z) = z"

fun seg2_change :: "int \<Rightarrow> nat \<Rightarrow> nat \<Rightarrow> nat \<Rightarrow> change \<Rightarrow> seg2 \<Rightarrow> seg2 option" where
  "seg2_change m n l r (Times z) S = seg2_chen m l r 1 n 1 z S"
| "seg2_change m n l r (Plus z) S = seg2_add m l r 1 n 1 z S"

interpretation seg2_program: range_program "seg2_change m n" "\<lambda>l r. seg2_getans m l r 1 n 1"
  "\<lambda>S f. seg2_rep m S 1 n 1 f" 1 n "\<lambda>c. small (change_arg c)" change_cell "\<lambda>x. x mod m" for m n
proof
  fix S f l r c
  assume a: "seg2_rep m S 1 n 1 f" "1 \<le> l" "l \<le> r" "r \<le> n"
  show "\<exists>S'. seg2_change m n l r c S = Some S' \<and> seg2_rep m S' 1 n 1 (changed (change_cell c) l r f)" if "small (change_arg c)"
  proof (cases c)
    case (Times z)
    moreover have "change_cell (Times z) = (\<lambda>x. z * x)"
      by auto
    ultimately show ?thesis
      using seg2_mult.update_at_node [of l r z 1 1 n m S f] a that by auto
  next
    case (Plus z)
    moreover have "change_cell (Plus z) = (\<lambda>x. x + z)"
      by auto
    ultimately show ?thesis
      using seg2_addition.update_at_node [of l r z 1 1 n m S f] a that by auto
  qed
  show "\<exists>S' v. seg2_getans m l r 1 n 1 S = Some (S', v) \<and> v mod m = sum f {l..r} mod m \<and> seg2_rep m S' 1 n 1 f"
    using seg2_qry.collect_at_node [of 1 1 n l r m S f] a by (auto simp: max_absorb1 min_absorb1 seg2_answers_def)
qed

text \<open>The operations of an input; other codes than 1, 2 and 3 do nothing.\<close>

fun seg2_op :: "nat \<times> nat \<times> nat \<times> int \<Rightarrow> change range_op list" where
  "seg2_op (bh, x, y, z) =
     (if bh = 1 then [Update x y (Times z)] else if bh = 2 then [Update x y (Plus z)]
      else if bh = 3 then [Query x y] else [])"

lemma seg2_loop_run:
  "seg2_loop m n qs S =
    run_ranges (seg2_change m n) (\<lambda>l r. seg2_getans m l r 1 n 1) (concat (map seg2_op qs)) S"
proof (induction qs arbitrary: S)
  case (Cons q qs)
  then have "seg2_loop m n qs =
      run_ranges (seg2_change m n) (\<lambda>l r. seg2_getans m l r 1 n 1) (concat (map seg2_op qs))"
    by (rule ext)
  then show ?case
    by (cases q) simp
qed simp

section \<open>Properties\<close>

text \<open>
  C33. \<^verbatim>\<open>seg_2.cpp\<close> prints, modulo \<open>mod\<close>, the right sums: for a modulus between 1 and \<open>2 ^ 31\<close>, every array of up to 100004 numbers and every
  sequence of range multiplications, range additions and range sums inside the array, the numbers of the input between \<open>- 2 ^ 31\<close> and \<open>2 ^ 31\<close>,
  all accesses are in bounds, no product and no sum leaves 64 bits, every recursion ends, and each number printed is congruent to the
  sum of the cells the operations would give one by one.
\<close>

theorem seg2_correct:
  assumes "1 \<le> n" and "n < 100005" and "0 < m" and "m \<le> 2 ^ 31" and "\<forall>i \<in> {1..n}. \<bar>a i\<bar> \<le> 2 ^ 31"
    and "list_all (op_in 1 n (\<lambda>c. \<bar>change_arg c\<bar> \<le> 2 ^ 31)) (concat (map seg2_op qs))"
  shows "\<exists>out. seg2_main m n a qs = Some out \<and>
    map (\<lambda>x. x mod m) out = map (\<lambda>x. x mod m) (ref_ranges change_cell a (concat (map seg2_op qs)))"
proof -
  let ?S = "\<lparr>s2_sum = \<lambda>_. 0, s2_mul = \<lambda>_. 0, s2_laz = \<lambda>_. 0\<rparr>"
  have "fits cells2 1 n 1"
    using assms(2) by (intro fits_power [of _ _ 17]) auto
  moreover have "modulus m" "seg2_small ?S" "\<And>i. 1 \<le> i \<Longrightarrow> i \<le> n \<Longrightarrow> small (a i)"
    using assms(3-5) by (simp_all add: modulus_def seg2_small_def small_def)
  ultimately obtain S where "seg2_build m a 1 n 1 ?S = Some S" "seg2_rep m S 1 n 1 a"
    using seg2_build_rep [of 1 1 n ?S m a] assms(1,2) by auto
  then show ?thesis
    using seg2_program.run_refines [of m S n a "concat (map seg2_op qs)"] assms(6) [folded small_def]
    by (auto simp: seg2_main_def seg2_loop_run)
qed

theorem seg2_correct_witness:
  "\<exists>x y. seg2_main 38 5 (\<lambda>i. [0, 1, 5, 4, 2, 3] ! i) [(2, 1, 4, 1), (3, 2, 5, 0), (1, 2, 4, 2), (3, 1, 4, 0)] = Some [x, y] \<and>
    x mod 38 = 17 \<and> y mod 38 = 30"
proof -
  let ?qs = "[(2, 1, 4, 1), (3, 2, 5, 0), (1, 2, 4, 2), (3, 1, 4, 0)] :: (nat \<times> nat \<times> nat \<times> int) list"
  let ?a = "\<lambda>i. [0, 1, 5, 4, 2, 3 :: int] ! i"
  have "\<forall>i \<in> {1..5}. \<bar>?a i\<bar> \<le> 2 ^ 31"
    by (auto simp: numeral_eq_Suc le_Suc_eq)
  then obtain out where "seg2_main 38 5 ?a ?qs = Some out"
      "map (\<lambda>x. x mod 38) out = map (\<lambda>x. x mod 38) (ref_ranges change_cell ?a (concat (map seg2_op ?qs)))"
    using seg2_correct [of 5 38 ?a ?qs] by auto
  then show ?thesis
    by (auto simp: sum_range_eval changed_def map_eq_Cons_conv)
qed

text \<open>
  A sum can be printed without its reduction: a query that is answered by a leaf no operation has
  touched returns the input number itself, even when it is not below \<open>mod\<close>.
\<close>

theorem seg2_unreduced:
  "seg2_main 3 1 (\<lambda>_. 5) [(3, 1, 1, 0)] = Some [5]"
  by (simp add: seg2_main_def seg2_build.simps seg2_getans.simps Let_def peek_def cong: bind_weak_cong)

end
