(* ===== verification/SegPool.thy ===== *)
theory SegPool
  imports QueryLoop "HOL-Library.Word"
begin

text \<open>
  The program \<^verbatim>\<open>seg/seg_7.cpp\<close>: bags of numbers as segment trees whose nodes are taken from a pool on demand, merged and split by moving nodes, with the
  nodes of a merged tree given back. Reference parameters are locations (a root or a child field of a node);
  the sums are 64-bit words. Here: the program, what
  it means that a tree owns its nodes, the stack of free nodes, and the operations that add nodes. \<open>MergeSplit\<close> has the others.
\<close>

section \<open>The program\<close>

definition ms_N :: nat where
  "ms_N = 200010"

definition ms_pool :: nat where
  "ms_pool = ms_N * 32"

record msnode =
  ms_sum :: "64 word"
  ms_ls :: nat
  ms_rs :: nat

record mseg =
  mg_t :: "nat \<Rightarrow> msnode"
  mg_root :: "nat \<Rightarrow> nat"
  mg_rub :: "nat \<Rightarrow> nat"
  mg_cnt :: nat
  mg_tot :: nat
  mg_idx :: nat

abbreviation ms_zero :: msnode where
  "ms_zero \<equiv> \<lparr>ms_sum = 0, ms_ls = 0, ms_rs = 0\<rparr>"

definition ms_get :: "nat \<Rightarrow> mseg \<Rightarrow> msnode option" where
  "ms_get p S = (if p < ms_pool then Some (mg_t S p) else None)"

definition ms_put :: "nat \<Rightarrow> (msnode \<Rightarrow> msnode) \<Rightarrow> mseg \<Rightarrow> mseg option" where
  "ms_put p g S = (if p < ms_pool then Some (S\<lparr>mg_t := (mg_t S)(p := g (mg_t S p))\<rparr>) else None)"

text \<open>The variables an \<open>int &\<close> parameter is bound to.\<close>

datatype mref = RootRef nat | LsRef nat | RsRef nat

fun ms_deref :: "mref \<Rightarrow> mseg \<Rightarrow> nat option" where
  "ms_deref (RootRef i) S = (if i < 4 * ms_N then Some (mg_root S i) else None)"
| "ms_deref (LsRef p) S = do { n \<leftarrow> ms_get p S; Some (ms_ls n) }"
| "ms_deref (RsRef p) S = do { n \<leftarrow> ms_get p S; Some (ms_rs n) }"

fun ms_assign :: "mref \<Rightarrow> nat \<Rightarrow> mseg \<Rightarrow> mseg option" where
  "ms_assign (RootRef i) v S = (if i < 4 * ms_N then Some (S\<lparr>mg_root := (mg_root S)(i := v)\<rparr>) else None)"
| "ms_assign (LsRef p) v S = ms_put p (\<lambda>n. n\<lparr>ms_ls := v\<rparr>) S"
| "ms_assign (RsRef p) v S = ms_put p (\<lambda>n. n\<lparr>ms_rs := v\<rparr>) S"

definition ms_New :: "mseg \<Rightarrow> (nat \<times> mseg) option" where
  "ms_New S =
     (if mg_cnt S \<noteq> 0 then
        if mg_cnt S < ms_pool then Some (mg_rub S (mg_cnt S), S\<lparr>mg_cnt := mg_cnt S - 1\<rparr>) else None
      else Some (mg_tot S + 1, S\<lparr>mg_tot := mg_tot S + 1\<rparr>))"

text \<open>The final \<open>p = 0\<close> changes a local variable of the only caller, which does not use it again.\<close>

definition ms_Del :: "nat \<Rightarrow> mseg \<Rightarrow> mseg option" where
  "ms_Del p S = do {
     S \<leftarrow> ms_put p (\<lambda>_. ms_zero) S;
     let c = mg_cnt S + 1;
     if c < ms_pool then Some (S\<lparr>mg_cnt := c, mg_rub := (mg_rub S)(c := p)\<rparr>) else None
   }"

definition ms_push_up :: "nat \<Rightarrow> mseg \<Rightarrow> mseg option" where
  "ms_push_up p S = do {
     n \<leftarrow> ms_get p S;
     a \<leftarrow> ms_get (ms_ls n) S;
     b \<leftarrow> ms_get (ms_rs n) S;
     ms_put p (\<lambda>n. n\<lparr>ms_sum := ms_sum a + ms_sum b\<rparr>) S
   }"

text \<open>\<open>if (!p) p = New();\<close> for a reference \<open>p\<close>\<close>

definition ms_touch :: "mref \<Rightarrow> mseg \<Rightarrow> mseg option" where
  "ms_touch rp S = do {
     p \<leftarrow> ms_deref rp S;
     if p = 0 then do { (a, S) \<leftarrow> ms_New S; ms_assign rp a S } else Some S
   }"

text \<open>\<open>build\<close> reads the numbers in order from the input.\<close>

partial_function (option) ms_build :: "nat \<Rightarrow> nat \<Rightarrow> mref \<Rightarrow> int list \<Rightarrow> mseg \<Rightarrow> (int list \<times> mseg) option" where [code]:
  "ms_build s t rp inp S = do {
     S \<leftarrow> ms_touch rp S;
     p \<leftarrow> ms_deref rp S;
     if s = t then (case inp of
         [] \<Rightarrow> None
       | x # inp \<Rightarrow> do { S \<leftarrow> ms_put p (\<lambda>n. n\<lparr>ms_sum := of_int x\<rparr>) S; Some (inp, S) })
     else do {
       let m = (s + t) div 2;
       (inp, S) \<leftarrow> ms_build s m (LsRef p) inp S;
       p \<leftarrow> ms_deref rp S;
       (inp, S) \<leftarrow> ms_build (m + 1) t (RsRef p) inp S;
       p \<leftarrow> ms_deref rp S;
       S \<leftarrow> ms_push_up p S;
       Some (inp, S)
     }
   }"

partial_function (option) ms_update :: "nat \<Rightarrow> int \<Rightarrow> nat \<Rightarrow> nat \<Rightarrow> mref \<Rightarrow> mseg \<Rightarrow> mseg option" where [code]:
  "ms_update x c s t rp S = do {
     S \<leftarrow> ms_touch rp S;
     p \<leftarrow> ms_deref rp S;
     if s = t then ms_put p (\<lambda>n. n\<lparr>ms_sum := ms_sum n + of_int c\<rparr>) S
     else do {
       let m = (s + t) div 2;
       S \<leftarrow> (if x \<le> m then ms_update x c s m (LsRef p) S else ms_update x c (m + 1) t (RsRef p) S);
       p \<leftarrow> ms_deref rp S;
       ms_push_up p S
     }
   }"

partial_function (option) ms_merge :: "nat \<Rightarrow> nat \<Rightarrow> nat \<Rightarrow> nat \<Rightarrow> mseg \<Rightarrow> (nat \<times> mseg) option" where [code]:
  "ms_merge p q s t S =
     (if p = 0 \<or> q = 0 then Some (p + q, S)
      else if s = t then do {
        b \<leftarrow> ms_get q S;
        S \<leftarrow> ms_put p (\<lambda>n. n\<lparr>ms_sum := ms_sum n + ms_sum b\<rparr>) S;
        S \<leftarrow> ms_Del q S;
        Some (p, S)
      }
      else do {
        let m = (s + t) div 2;
        a \<leftarrow> ms_get p S;
        b \<leftarrow> ms_get q S;
        (v, S) \<leftarrow> ms_merge (ms_ls a) (ms_ls b) s m S;
        S \<leftarrow> ms_put p (\<lambda>n. n\<lparr>ms_ls := v\<rparr>) S;
        a \<leftarrow> ms_get p S;
        b \<leftarrow> ms_get q S;
        (v, S) \<leftarrow> ms_merge (ms_rs a) (ms_rs b) (m + 1) t S;
        S \<leftarrow> ms_put p (\<lambda>n. n\<lparr>ms_rs := v\<rparr>) S;
        S \<leftarrow> ms_push_up p S;
        S \<leftarrow> ms_Del q S;
        Some (p, S)
      })"

partial_function (option) ms_split :: "mref \<Rightarrow> mref \<Rightarrow> nat \<Rightarrow> nat \<Rightarrow> nat \<Rightarrow> nat \<Rightarrow> mseg \<Rightarrow> mseg option" where [code]:
  "ms_split rp rq s t l r S =
     (if t < l \<or> r < s then Some S
      else do {
        p \<leftarrow> ms_deref rp S;
        if p = 0 then Some S
        else if l \<le> s \<and> t \<le> r then do { S \<leftarrow> ms_assign rq p S; ms_assign rp 0 S }
        else do {
          S \<leftarrow> ms_touch rq S;
          let m = (s + t) div 2;
          S \<leftarrow> (if l \<le> m then do { p \<leftarrow> ms_deref rp S; q \<leftarrow> ms_deref rq S; ms_split (LsRef p) (LsRef q) s m l r S } else Some S);
          S \<leftarrow> (if m < r then do { p \<leftarrow> ms_deref rp S; q \<leftarrow> ms_deref rq S; ms_split (RsRef p) (RsRef q) (m + 1) t l r S } else Some S);
          p \<leftarrow> ms_deref rp S;
          S \<leftarrow> ms_push_up p S;
          q \<leftarrow> ms_deref rq S;
          ms_push_up q S
        }
      })"

partial_function (option) ms_query :: "nat \<Rightarrow> nat \<Rightarrow> nat \<Rightarrow> nat \<Rightarrow> nat \<Rightarrow> mseg \<Rightarrow> 64 word option" where [code]:
  "ms_query l r s t p S =
     (if p = 0 then Some 0
      else if l \<le> s \<and> t \<le> r then do { n \<leftarrow> ms_get p S; Some (ms_sum n) }
      else do {
        let m = (s + t) div 2;
        n \<leftarrow> ms_get p S;
        a \<leftarrow> (if l \<le> m then ms_query l r s m (ms_ls n) S else Some 0);
        b \<leftarrow> (if m < r then ms_query l r (m + 1) t (ms_rs n) S else Some 0);
        Some (a + b)
      })"

text \<open>\<open>kth\<close> takes \<open>k\<close> as \<open>int\<close>: the \<open>long long\<close> difference is narrowed to 32 bits.\<close>

definition ll_to_int :: "int \<Rightarrow> int" where
  "ll_to_int x = sint (of_int x :: 32 word)"

partial_function (option) ms_kth :: "nat \<Rightarrow> nat \<Rightarrow> int \<Rightarrow> nat \<Rightarrow> mseg \<Rightarrow> nat option" where [code]:
  "ms_kth s t k p S =
     (if s = t then Some s
      else do {
        let m = (s + t) div 2;
        n \<leftarrow> ms_get p S;
        a \<leftarrow> ms_get (ms_ls n) S;
        let left = sint (ms_sum a);
        if k \<le> left then ms_kth s m k (ms_ls n) S else ms_kth (m + 1) t (ll_to_int (k - left)) (ms_rs n) S
      })"

datatype ms_op = MSplit nat nat nat | MMerge nat nat | MUpdate nat int nat | MQuery nat nat nat | MKth nat int

fun ms_step :: "nat \<Rightarrow> mseg \<Rightarrow> ms_op \<Rightarrow> (mseg \<times> int list) option" where
  "ms_step n S (MSplit p x y) = do {
     let i = mg_idx S + 1;
     S \<leftarrow> ms_split (RootRef p) (RootRef i) 1 n x y (S\<lparr>mg_idx := i\<rparr>);
     Some (S, [])
   }"
| "ms_step n S (MMerge p t) = do {
     a \<leftarrow> ms_deref (RootRef p) S;
     b \<leftarrow> ms_deref (RootRef t) S;
     (v, S) \<leftarrow> ms_merge a b 1 n S;
     S \<leftarrow> ms_assign (RootRef p) v S;
     Some (S, [])
   }"
| "ms_step n S (MUpdate p x q) = do { S \<leftarrow> ms_update q x 1 n (RootRef p) S; Some (S, []) }"
| "ms_step n S (MQuery p x y) = do {
     a \<leftarrow> ms_deref (RootRef p) S;
     v \<leftarrow> ms_query x y 1 n a S;
     Some (S, [sint v])
   }"
| "ms_step n S (MKth p k) = do {
     a \<leftarrow> ms_deref (RootRef p) S;
     nd \<leftarrow> ms_get a S;
     if sint (ms_sum nd) < k then Some (S, [- 1])
     else do { v \<leftarrow> ms_kth 1 n k a S; Some (S, [int v]) }
   }"

definition ms_main :: "int list \<Rightarrow> ms_op list \<Rightarrow> (mseg \<times> int list) option" where
  "ms_main xs ops = do {
     let n = length xs;
     (inp, S) \<leftarrow> ms_build 1 n (RootRef 1) xs
       \<lparr>mg_t = (\<lambda>_. ms_zero), mg_root = (\<lambda>_. 0), mg_rub = (\<lambda>_. 0), mg_cnt = 0, mg_tot = 0, mg_idx = 1\<rparr>;
     query_loop (ms_step n) S ops
   }"


section \<open>The pool of nodes\<close>

definition rubs :: "mseg \<Rightarrow> nat list" where
  "rubs S = map (mg_rub S) [1..<mg_cnt S + 1]"

lemma length_rubs [simp]: "length (rubs S) = mg_cnt S"
  by (simp add: rubs_def)

text \<open>The nodes handed out and not given back.\<close>

definition used :: "mseg \<Rightarrow> nat set" where
  "used S = {1..mg_tot S} - set (rubs S)"

definition pool_ok :: "mseg \<Rightarrow> bool" where
  "pool_ok S \<longleftrightarrow> distinct (rubs S) \<and> set (rubs S) \<subseteq> {1..mg_tot S} \<and> mg_tot S < ms_pool \<and> (\<forall>a. a \<notin> used S \<longrightarrow> mg_t S a = ms_zero)"

lemma used_bounds: "a \<in> used S \<Longrightarrow> pool_ok S \<Longrightarrow> 0 < a \<and> a < ms_pool"
  by (auto simp: used_def pool_ok_def)

lemma zero_not_used [simp]: "0 \<notin> used S"
  by (simp add: used_def)

lemma pool_ok_zero: "pool_ok S \<Longrightarrow> mg_t S 0 = ms_zero"
  by (simp add: pool_ok_def)

lemma ms_pool_pos [simp]: "0 < ms_pool"
  by (simp add: ms_pool_def ms_N_def)

lemma ms_access [simp]:
  "p < ms_pool \<Longrightarrow> ms_get p S = Some (mg_t S p)"
  "p < ms_pool \<Longrightarrow> ms_put p g S = Some (S\<lparr>mg_t := (mg_t S)(p := g (mg_t S p))\<rparr>)"
  by (simp_all add: ms_get_def ms_put_def)

lemma cnt_le_tot: "pool_ok S \<Longrightarrow> mg_cnt S \<le> mg_tot S"
proof -
  assume ok: "pool_ok S"
  have "card (set (rubs S)) = mg_cnt S"
    using ok by (simp add: pool_ok_def distinct_card)
  moreover have "card (set (rubs S)) \<le> card {1..mg_tot S}"
    using ok by (intro card_mono) (auto simp: pool_ok_def)
  ultimately show ?thesis
    by simp
qed

lemma rubs_snoc: "0 < mg_cnt S \<Longrightarrow> rubs S = map (mg_rub S) [1..<mg_cnt S] @ [mg_rub S (mg_cnt S)]"
  by (simp add: rubs_def)

lemma ms_New_ok:
  assumes "pool_ok S" and "mg_tot S + 1 < ms_pool"
  shows "\<exists>a S'. ms_New S = Some (a, S') \<and> pool_ok S' \<and> a \<notin> used S \<and> 0 < a \<and> mg_t S a = ms_zero \<and> used S' = insert a (used S) \<and>
    mg_t S' = mg_t S \<and> mg_root S' = mg_root S \<and> mg_idx S' = mg_idx S \<and> mg_tot S' \<le> mg_tot S + 1"
proof (cases "mg_cnt S = 0")
  case True
  have "used (S\<lparr>mg_tot := mg_tot S + 1\<rparr>) = insert (mg_tot S + 1) (used S)" "mg_tot S + 1 \<notin> used S"
    using True by (auto simp: used_def rubs_def)
  then show ?thesis
    using True assms by (intro exI [of _ "mg_tot S + 1"] exI [of _ "S\<lparr>mg_tot := mg_tot S + 1\<rparr>"]) (auto simp: ms_New_def pool_ok_def rubs_def)
next
  case False
  let ?a = "mg_rub S (mg_cnt S)"
  let ?S = "S\<lparr>mg_cnt := mg_cnt S - 1\<rparr>"
  have r: "rubs S = rubs ?S @ [?a]"
    using False rubs_snoc [of S] by (simp add: rubs_def)
  have a: "?a \<in> {1..mg_tot S}" "?a \<notin> used S" "?a \<notin> set (rubs ?S)"
    using assms(1) r by (auto simp: pool_ok_def used_def)
  then have u: "used ?S = insert ?a (used S)"
    unfolding used_def r by auto
  have "pool_ok ?S"
    using assms(1) unfolding pool_ok_def u r by auto
  moreover have "ms_New S = Some (?a, ?S)"
    using False cnt_le_tot [OF assms(1)] assms by (simp add: ms_New_def)
  moreover have "mg_t S ?a = ms_zero"
    using a(2) assms(1) by (simp add: pool_ok_def)
  ultimately show ?thesis
    using a u by (intro exI [of _ ?a] exI [of _ ?S]) auto
qed

lemma ms_Del_ok:
  assumes "pool_ok S" and "a \<in> used S"
  shows "\<exists>S'. ms_Del a S = Some S' \<and> pool_ok S' \<and> used S' = used S - {a} \<and> mg_t S' = (mg_t S)(a := ms_zero) \<and>
    mg_root S' = mg_root S \<and> mg_idx S' = mg_idx S \<and> mg_tot S' = mg_tot S"
proof -
  define S' where "S' = S\<lparr>mg_t := (mg_t S)(a := ms_zero), mg_cnt := mg_cnt S + 1, mg_rub := (mg_rub S)(mg_cnt S + 1 := a)\<rparr>"
  have r: "rubs S' = rubs S @ [a]"
    by (auto simp: rubs_def S'_def)
  have u: "used S' = used S - {a}"
    unfolding used_def r by (auto simp: S'_def)
  have a: "a \<in> {1..mg_tot S}" "a \<notin> set (rubs S)"
    using assms(2) by (auto simp: used_def)
  have "pool_ok S'"
    using assms(1) a unfolding pool_ok_def u r by (auto simp: S'_def)
  moreover have "card (insert a (set (rubs S))) \<le> card {1..mg_tot S}"
    using assms(1) a by (intro card_mono) (auto simp: pool_ok_def)
  then have "mg_cnt S + 1 \<le> mg_tot S"
    using assms(1) a(2) by (simp add: pool_ok_def distinct_card)
  then have "ms_Del a S = Some S'"
    using used_bounds [OF assms(2,1)] assms(1) by (simp add: ms_Del_def S'_def pool_ok_def)
  ultimately show ?thesis
    using u by (intro exI [of _ S']) (auto simp: S'_def)
qed

section \<open>Trees in the pool\<close>

datatype dtree = Nil_t | Lf nat "64 word" | Br nat dtree dtree

fun dt_sum :: "dtree \<Rightarrow> 64 word" where
  "dt_sum Nil_t = 0"
| "dt_sum (Lf a v) = v"
| "dt_sum (Br a l r) = dt_sum l + dt_sum r"

fun dt_addrs :: "dtree \<Rightarrow> nat set" where
  "dt_addrs Nil_t = {}"
| "dt_addrs (Lf a v) = {a}"
| "dt_addrs (Br a l r) = insert a (dt_addrs l \<union> dt_addrs r)"

text \<open>No node occurs twice.\<close>

fun linear :: "dtree \<Rightarrow> bool" where
  "linear Nil_t = True"
| "linear (Lf a v) = True"
| "linear (Br a l r) = (a \<notin> dt_addrs l \<and> a \<notin> dt_addrs r \<and> dt_addrs l \<inter> dt_addrs r = {} \<and> linear l \<and> linear r)"

fun dt_at :: "(nat \<Rightarrow> msnode) \<Rightarrow> dtree \<Rightarrow> nat \<Rightarrow> bool" where
  "dt_at T Nil_t p = (p = 0)"
| "dt_at T (Lf a v) p = (p = a \<and> a \<noteq> 0 \<and> T a = \<lparr>ms_sum = v, ms_ls = 0, ms_rs = 0\<rparr>)"
| "dt_at T (Br a l r) p = (p = a \<and> a \<noteq> 0 \<and> ms_sum (T a) = dt_sum l + dt_sum r \<and> dt_at T l (ms_ls (T a)) \<and> dt_at T r (ms_rs (T a)))"

abbreviation mid :: "nat \<Rightarrow> nat \<Rightarrow> nat" where
  "mid s t \<equiv> (s + t) div 2"

fun dt_shape :: "nat \<Rightarrow> nat \<Rightarrow> dtree \<Rightarrow> bool" where
  "dt_shape s t Nil_t = (s \<le> t)"
| "dt_shape s t (Lf a v) = (s = t)"
| "dt_shape s t (Br a l r) = (s < t \<and> dt_shape s (mid s t) l \<and> dt_shape (mid s t + 1) t r)"

fun dt_val :: "nat \<Rightarrow> nat \<Rightarrow> dtree \<Rightarrow> nat \<Rightarrow> 64 word" where
  "dt_val s t Nil_t i = 0"
| "dt_val s t (Lf a v) i = (if i = s then v else 0)"
| "dt_val s t (Br a l r) i = (if i \<le> mid s t then dt_val s (mid s t) l i else dt_val (mid s t + 1) t r i)"

lemma shape_le: "dt_shape s t d \<Longrightarrow> s \<le> t"
  by (cases d) auto

lemma dt_at_frame: "(\<And>a. a \<in> dt_addrs d \<Longrightarrow> T' a = T a) \<Longrightarrow> dt_at T' d p = dt_at T d p"
  by (induction d arbitrary: p) auto

lemma dt_at_upd [simp]: "a \<notin> dt_addrs d \<Longrightarrow> dt_at (T(a := n)) d p = dt_at T d p"
  by (rule dt_at_frame) auto

lemma dt_at_root: "dt_at T d p \<Longrightarrow> p = 0 \<and> d = Nil_t \<or> p \<in> dt_addrs d \<and> p \<noteq> 0"
  by (cases d) auto

lemma dt_at_sum: "dt_at T d p \<Longrightarrow> T 0 = ms_zero \<Longrightarrow> ms_sum (T p) = dt_sum d"
  by (cases d) auto

lemma sum_mid: "(s :: nat) < t \<Longrightarrow> sum f {s..t} = sum f {s..mid s t} + sum f {mid s t + 1..t}"
proof -
  assume "s < t"
  then have "{s..t} = {s..mid s t} \<union> {mid s t + 1..t}"
    by auto
  then show ?thesis
    by (simp add: sum.union_disjoint)
qed

lemma dt_sum_val: "dt_shape s t d \<Longrightarrow> dt_sum d = sum (dt_val s t d) {s..t}"
proof (induction s t d rule: dt_shape.induct)
  case (3 s t a l r)
  have "sum (dt_val s t (Br a l r)) {s..t} = sum (dt_val s (mid s t) l) {s..mid s t} + sum (dt_val (mid s t + 1) t r) {mid s t + 1..t}"
    using 3(3) by (subst sum_mid) (auto intro!: arg_cong2 [of _ _ _ _ "(+)"] sum.cong)
  then show ?case
    using 3 by simp
qed auto

lemma dt_val_outside: "dt_shape s t d \<Longrightarrow> i < s \<or> t < i \<Longrightarrow> dt_val s t d i = 0"
  by (induction s t d rule: dt_shape.induct) auto


section \<open>Ownership\<close>

fun loc :: "mref \<Rightarrow> mseg \<Rightarrow> nat" where
  "loc (RootRef i) S = mg_root S i"
| "loc (LsRef a) S = ms_ls (mg_t S a)"
| "loc (RsRef a) S = ms_rs (mg_t S a)"

fun owner :: "mref \<Rightarrow> nat set" where
  "owner (RootRef i) = {}"
| "owner (LsRef a) = {a}"
| "owner (RsRef a) = {a}"

fun ref_ok :: "mref \<Rightarrow> mseg \<Rightarrow> bool" where
  "ref_ok (RootRef i) S = (i < 4 * ms_N)"
| "ref_ok (LsRef a) S = (a \<in> used S)"
| "ref_ok (RsRef a) S = (a \<in> used S)"

lemma deref_loc: "ref_ok r S \<Longrightarrow> pool_ok S \<Longrightarrow> ms_deref r S = Some (loc r S)"
  by (cases r) (auto dest: used_bounds)

text \<open>A tree over the positions \<open>s, \<dots>, t\<close> below the reference \<open>r\<close>, all of its nodes its own.\<close>

definition own :: "mseg \<Rightarrow> mref \<Rightarrow> nat \<Rightarrow> nat \<Rightarrow> dtree \<Rightarrow> bool" where
  "own S r s t d \<longleftrightarrow> ref_ok r S \<and> dt_at (mg_t S) d (loc r S) \<and> dt_shape s t d \<and> linear d \<and> dt_addrs d \<subseteq> used S \<and> owner r \<inter> dt_addrs d = {}"

text \<open>Only the references \<open>R\<close> and the nodes \<open>A\<close> have changed.\<close>

definition frame :: "mref set \<Rightarrow> nat set \<Rightarrow> mseg \<Rightarrow> mseg \<Rightarrow> bool" where
  "frame R A S S' \<longleftrightarrow> (\<forall>b \<in> used S - A. ms_sum (mg_t S' b) = ms_sum (mg_t S b) \<and> (LsRef b \<notin> R \<longrightarrow> ms_ls (mg_t S' b) = ms_ls (mg_t S b)) \<and>
      (RsRef b \<notin> R \<longrightarrow> ms_rs (mg_t S' b) = ms_rs (mg_t S b))) \<and>
     (\<forall>i. RootRef i \<notin> R \<longrightarrow> mg_root S' i = mg_root S i) \<and> mg_idx S' = mg_idx S"

lemma frame_refl: "frame R A S S"
  by (simp add: frame_def)

lemma frame_trans:
  assumes "frame R1 A1 S S1" and "frame R2 A2 S1 S2" and "used S - A \<subseteq> used S1 - A2" and "A1 \<inter> used S \<subseteq> A"
    and "R1 \<union> R2 \<subseteq> R \<union> {r. owner r \<inter> A \<noteq> {}}"
  shows "frame R A S S2"
proof -
  have "LsRef b \<notin> R1 \<and> LsRef b \<notin> R2" if "b \<notin> A" "LsRef b \<notin> R" for b
    using assms(5) that by auto
  moreover have "RsRef b \<notin> R1 \<and> RsRef b \<notin> R2" if "b \<notin> A" "RsRef b \<notin> R" for b
    using assms(5) that by auto
  moreover have "RootRef i \<notin> R1 \<and> RootRef i \<notin> R2" if "RootRef i \<notin> R" for i
    using assms(5) that by auto
  moreover have "b \<in> used S - A1 \<and> b \<in> used S1 - A2" if "b \<in> used S - A" for b
    using assms(3,4) that by auto
  ultimately show ?thesis
    using assms(1,2) unfolding frame_def by (metis DiffD2)
qed

lemma frame_weaken:
  assumes "frame R A S S'" and "A \<inter> used S \<subseteq> A'" and "R \<subseteq> R' \<union> {r. owner r \<inter> A' \<noteq> {}}"
  shows "frame R' A' S S'"
  by (rule frame_trans [OF frame_refl [of "{}" "{}" S] assms(1)]) (use assms(2,3) in auto)

lemma frame_node:
  assumes "frame R A S S'" and "b \<in> used S" and "b \<notin> A" and "LsRef b \<notin> R" and "RsRef b \<notin> R"
  shows "mg_t S' b = mg_t S b"
  using assms by (auto simp: frame_def)

lemma frame_loc: "frame R A S S' \<Longrightarrow> ref_ok r S \<Longrightarrow> r \<notin> R \<Longrightarrow> owner r \<inter> A = {} \<Longrightarrow> loc r S' = loc r S"
  by (cases r) (auto simp: frame_def)

lemma own_frame:
  assumes "own S r s t d" and "frame R A S S'" and "r \<notin> R" and "owner r \<inter> A = {}" and "dt_addrs d \<inter> A = {}"
    and "\<And>q. q \<in> R \<Longrightarrow> owner q \<inter> dt_addrs d = {}" and "dt_addrs d \<union> owner r \<subseteq> used S'"
  shows "own S' r s t d"
proof -
  have "mg_t S' b = mg_t S b" if "b \<in> dt_addrs d" for b
    using assms(1,5) assms(6) [of "LsRef b"] assms(6) [of "RsRef b"] that by (intro frame_node [OF assms(2)]) (auto simp: own_def)
  then have "dt_at (mg_t S') d (loc r S)"
    using assms(1) dt_at_frame [of d "mg_t S'" "mg_t S"] by (auto simp: own_def)
  moreover have "loc r S' = loc r S"
    using assms(1) by (intro frame_loc [OF assms(2) _ assms(3,4)]) (simp add: own_def)
  moreover have "ref_ok r S'"
    using assms(1,7) by (cases r) (auto simp: own_def)
  ultimately show ?thesis
    using assms(1,7) by (simp add: own_def)
qed

text \<open>Assignments to a node in use and to a reference.\<close>

lemma used_upd [simp]:
  "used (S\<lparr>mg_t := T\<rparr>) = used S" "used (S\<lparr>mg_root := f\<rparr>) = used S" "used (S\<lparr>mg_idx := i\<rparr>) = used S"
  by (simp_all add: used_def rubs_def)

lemma pool_ok_node: "pool_ok S \<Longrightarrow> a \<in> used S \<Longrightarrow> pool_ok (S\<lparr>mg_t := (mg_t S)(a := n)\<rparr>)"
  by (auto simp: pool_ok_def rubs_def)

lemma frame_node_upd: "frame {} {a} S (S\<lparr>mg_t := (mg_t S)(a := n)\<rparr>)"
  by (simp add: frame_def)

lemma assign_ok:
  assumes "ref_ok r S" and "pool_ok S"
  shows "\<exists>S'. ms_assign r v S = Some S' \<and> pool_ok S' \<and> used S' = used S \<and> loc r S' = v \<and> frame {r} {} S S' \<and> mg_tot S' = mg_tot S \<and>
    (\<forall>b. b \<notin> owner r \<longrightarrow> mg_t S' b = mg_t S b)"
proof (cases r)
  case (RootRef i)
  then show ?thesis
    using assms by (auto simp: frame_def pool_ok_def rubs_def)
next
  case (LsRef a)
  then show ?thesis
    using assms pool_ok_node [OF assms(2), of a] used_bounds [of a S] by (auto simp: frame_def)
next
  case (RsRef a)
  then show ?thesis
    using assms pool_ok_node [OF assms(2), of a] used_bounds [of a S] by (auto simp: frame_def)
qed

text \<open>\<open>if (!p) p = New();\<close>\<close>

definition grown :: "mseg \<Rightarrow> mref \<Rightarrow> nat \<Rightarrow> nat \<Rightarrow> dtree \<Rightarrow> nat \<Rightarrow> mseg \<Rightarrow> dtree \<Rightarrow> bool" where
  "grown S r s t d k S' d' \<longleftrightarrow> pool_ok S' \<and> own S' r s t d' \<and> used S' = used S \<union> dt_addrs d' \<and> dt_addrs d' \<inter> used S = dt_addrs d \<and>
     frame {r} (dt_addrs d) S S' \<and> mg_tot S' \<le> mg_tot S + k"

lemma ms_touch_ok:
  assumes "pool_ok S" and "own S r s t d" and "mg_tot S + 1 < ms_pool"
  shows "\<exists>S' d'. ms_touch r S = Some S' \<and> grown S r s t d 1 S' d' \<and> d' \<noteq> Nil_t \<and> dt_val s t d' = dt_val s t d \<and>
    (d = Nil_t \<longrightarrow> (\<exists>a. d' = (if s = t then Lf a 0 else Br a Nil_t Nil_t)))"
proof (cases "loc r S = 0")
  case False
  then have "d \<noteq> Nil_t" "ms_touch r S = Some S"
    using assms(1,2) deref_loc [of r S] by (auto simp: own_def ms_touch_def)
  then show ?thesis
    using assms by (intro exI [of _ S] exI [of _ d]) (auto simp: grown_def own_def frame_refl)
next
  case True
  obtain a S1 where a: "ms_New S = Some (a, S1)" "pool_ok S1" "a \<notin> used S" "0 < a" "mg_t S a = ms_zero" "used S1 = insert a (used S)"
    "mg_t S1 = mg_t S" "mg_root S1 = mg_root S" "mg_idx S1 = mg_idx S" "mg_tot S1 \<le> mg_tot S + 1"
    using ms_New_ok [OF assms(1,3)] by blast
  have d: "d = Nil_t" "s \<le> t"
    using assms(2) True dt_at_root shape_le by (fastforce simp: own_def)+
  define d' where "d' = (if s = t then Lf a 0 else Br a Nil_t Nil_t)"
  have d': "dt_shape s t d'" "linear d'" "dt_addrs d' = {a}" "d' \<noteq> Nil_t" "dt_val s t d' = dt_val s t d"
    using d by (auto simp: d'_def fun_eq_iff)
  have ok1: "ref_ok r S" "ref_ok r S1" "owner r \<subseteq> used S"
    using assms(2) a(6) by (cases r; auto simp: own_def)+
  obtain S2 where S2: "ms_assign r a S1 = Some S2" "pool_ok S2" "used S2 = used S1" "loc r S2 = a" "frame {r} {} S1 S2" "mg_tot S2 = mg_tot S1"
    "\<forall>b. b \<notin> owner r \<longrightarrow> mg_t S2 b = mg_t S1 b"
    using assign_ok [OF ok1(2) a(2)] by blast
  have run: "ms_touch r S = Some S2"
    using deref_loc [OF ok1(1) assms(1)] True a(1) S2(1) by (simp add: ms_touch_def)
  have "a \<notin> owner r"
    using ok1(3) a(3) by auto
  moreover from this have "mg_t S2 a = ms_zero"
    using S2(7) a(5,7) by simp
  moreover have "ref_ok r S2"
    using ok1(2) S2(3) by (cases r) auto
  ultimately have "own S2 r s t d'"
    using d' S2(3,4) a(4,6) by (auto simp: own_def d'_def)
  moreover have "frame {r} {} S S2"
  proof (rule frame_trans [OF _ S2(5)])
    show "frame {} {} S S1"
      using a(7-9) by (simp add: frame_def)
  qed (use a(6) in auto)
  ultimately have "grown S r s t d 1 S2 d'"
    using d(1) d'(3) a(3,6,10) S2(2,3,6) by (simp add: grown_def)
  then show ?thesis
    using run d'(4,5) d'_def by blast
qed

section \<open>Working below a node\<close>

text \<open>A node whose children are trees; its sum need not be up to date.\<close>

definition opened :: "mseg \<Rightarrow> mref \<Rightarrow> nat \<Rightarrow> nat \<Rightarrow> nat \<Rightarrow> dtree \<Rightarrow> dtree \<Rightarrow> bool" where
  "opened S r s t a l u \<longleftrightarrow> pool_ok S \<and> ref_ok r S \<and> loc r S = a \<and> a \<in> used S \<and> s < t \<and> own S (LsRef a) s (mid s t) l \<and> own S (RsRef a) (mid s t + 1) t u \<and>
     dt_addrs l \<inter> dt_addrs u = {} \<and> owner r \<inter> insert a (dt_addrs l \<union> dt_addrs u) = {}"

lemma own_opened: "pool_ok S \<Longrightarrow> own S r s t (Br a l u) \<Longrightarrow> opened S r s t a l u"
  by (auto simp: own_def opened_def)

lemma opened_deref: "opened S r s t a l u \<Longrightarrow> ms_deref r S = Some a"
  by (auto simp: opened_def deref_loc)

text \<open>One child is replaced, the other one stays.\<close>

lemma child_grown:
  assumes "opened S r s t a l u" and "own S c s1 t1 d" and "own S o' s2 t2 e" and "owner c = {a}" and "owner o' = {a}" and "c \<noteq> o'"
    and "dt_addrs d \<inter> dt_addrs e = {}" and "owner r \<inter> insert a (dt_addrs d \<union> dt_addrs e) = {}" and "grown S c s1 t1 d k S' d'"
  shows "own S' o' s2 t2 e" "loc r S' = loc r S" "ref_ok r S'" "dt_addrs d' \<inter> dt_addrs e = {}" "owner r \<inter> dt_addrs d' = {}"
    "frame {} (insert a (dt_addrs d)) S S'" "used S' = used S \<union> dt_addrs d'" "pool_ok S'" "own S' c s1 t1 d'"
proof -
  have g: "pool_ok S'" "own S' c s1 t1 d'" "used S' = used S \<union> dt_addrs d'" "dt_addrs d' \<inter> used S = dt_addrs d" "frame {c} (dt_addrs d) S S'"
    using assms(9) by (auto simp: grown_def)
  have o: "a \<in> used S" "a \<notin> dt_addrs d" "a \<notin> dt_addrs e" "dt_addrs e \<subseteq> used S" "ref_ok r S" "owner r \<subseteq> used S" "r \<noteq> c"
    using assms(1-5,8) by (auto simp: opened_def own_def) (cases r; auto)
  show "own S' o' s2 t2 e"
    using o g assms(4-7) by (intro own_frame [OF assms(3) g(5)]) auto
  show "loc r S' = loc r S"
    using o(7) assms(8) by (intro frame_loc [OF g(5) o(5)]) auto
  show "ref_ok r S'"
    using o(5) g(3) by (cases r) auto
  show "dt_addrs d' \<inter> dt_addrs e = {}" "owner r \<inter> dt_addrs d' = {}"
    using o g(4) assms(7,8) by auto
  show "frame {} (insert a (dt_addrs d)) S S'"
    by (rule frame_weaken [OF g(5)]) (use assms(4) in auto)
qed (use assms(9) in \<open>simp_all add: grown_def\<close>)

lemma opened_left:
  assumes "opened S r s t a l u" and "grown S (LsRef a) s (mid s t) l k S' l'"
  shows "opened S' r s t a l' u" "frame {} (insert a (dt_addrs l)) S S'" "used S' = used S \<union> dt_addrs l'"
proof -
  have o: "own S (LsRef a) s (mid s t) l" "own S (RsRef a) (mid s t + 1) t u" "dt_addrs l \<inter> dt_addrs u = {}" "owner r \<inter> insert a (dt_addrs l \<union> dt_addrs u) = {}"
    "loc r S = a" "a \<in> used S" "s < t"
    using assms(1) by (simp_all add: opened_def)
  note c = child_grown [OF assms(1) o(1,2) _ _ _ o(3,4) assms(2), simplified]
  show "opened S' r s t a l' u" "frame {} (insert a (dt_addrs l)) S S'" "used S' = used S \<union> dt_addrs l'"
    using c o by (auto simp: opened_def)
qed

lemma opened_right:
  assumes "opened S r s t a l u" and "grown S (RsRef a) (mid s t + 1) t u k S' u'"
  shows "opened S' r s t a l u'" "frame {} (insert a (dt_addrs u)) S S'" "used S' = used S \<union> dt_addrs u'"
proof -
  have o: "own S (RsRef a) (mid s t + 1) t u" "own S (LsRef a) s (mid s t) l" "dt_addrs u \<inter> dt_addrs l = {}" "owner r \<inter> insert a (dt_addrs u \<union> dt_addrs l) = {}"
    "loc r S = a" "a \<in> used S" "s < t"
    using assms(1) by (auto simp: opened_def)
  note c = child_grown [OF assms(1) o(1,2) _ _ _ o(3,4) assms(2), simplified]
  show "opened S' r s t a l u'" "frame {} (insert a (dt_addrs u)) S S'" "used S' = used S \<union> dt_addrs u'"
    using c o by (auto simp: opened_def)
qed

lemma push_up_node:
  assumes "pool_ok S" and "a \<in> used S" and "dt_at (mg_t S) l (ms_ls (mg_t S a))" and "dt_at (mg_t S) u (ms_rs (mg_t S a))" and "dt_addrs l \<union> dt_addrs u \<subseteq> used S"
  shows "ms_push_up a S = Some (S\<lparr>mg_t := (mg_t S)(a := (mg_t S a)\<lparr>ms_sum := dt_sum l + dt_sum u\<rparr>)\<rparr>)"
proof -
  have "ms_ls (mg_t S a) < ms_pool" "ms_rs (mg_t S a) < ms_pool" "a < ms_pool"
    using assms(2-5) by (auto dest!: dt_at_root used_bounds [OF _ assms(1)])
  then show ?thesis
    using dt_at_sum [OF assms(3)] dt_at_sum [OF assms(4)] pool_ok_zero [OF assms(1)] by (simp add: ms_push_up_def)
qed

lemma opened_push_up:
  assumes "opened S r s t a l u"
  shows "\<exists>S'. ms_push_up a S = Some S' \<and> pool_ok S' \<and> own S' r s t (Br a l u) \<and> used S' = used S \<and> frame {} {a} S S' \<and> mg_tot S' = mg_tot S"
proof -
  have o: "pool_ok S" "a \<in> used S" "own S (LsRef a) s (mid s t) l" "own S (RsRef a) (mid s t + 1) t u" "ref_ok r S" "loc r S = a"
    using assms by (auto simp: opened_def)
  define n where "n = (mg_t S a)\<lparr>ms_sum := dt_sum l + dt_sum u\<rparr>"
  let ?S = "S\<lparr>mg_t := (mg_t S)(a := n)\<rparr>"
  have at: "dt_at (mg_t S) l (ms_ls (mg_t S a))" "dt_at (mg_t S) u (ms_rs (mg_t S a))" "a \<notin> dt_addrs l" "a \<notin> dt_addrs u" "dt_addrs l \<union> dt_addrs u \<subseteq> used S"
    using o(3,4) by (auto simp: own_def)
  have run: "ms_push_up a S = Some ?S"
    using push_up_node [OF o(1,2) at(1,2,5)] by (simp add: n_def)
  have "dt_at ((mg_t S)(a := n)) l (ms_ls n)" "dt_at ((mg_t S)(a := n)) u (ms_rs n)"
    using at by (simp_all add: n_def)
  moreover have "loc r ?S = a" "ref_ok r ?S"
    using o(5,6) assms by (cases r; auto simp: opened_def)+
  ultimately have "own ?S r s t (Br a l u)"
    using assms used_bounds [OF o(2,1)] by (auto simp: own_def opened_def n_def)
  then show ?thesis
    using run pool_ok_node [OF o(1,2)] frame_node_upd by (intro exI [of _ ?S]) auto
qed

lemma grown_trans: "grown S r s t d k1 S1 d1 \<Longrightarrow> grown S1 r s t d1 k2 S2 d2 \<Longrightarrow> grown S r s t d (k1 + k2) S2 d2"
  unfolding grown_def by (intro conjI frame_trans [of "{r}" "dt_addrs d" S S1 "{r}" "dt_addrs d1" S2]) auto

lemma grown_node:
  assumes "opened S r s t a l u" and "opened S2 r s t a l' u'" and "frame {} (insert a (dt_addrs l \<union> dt_addrs u)) S S2"
    and "used S2 = used S \<union> dt_addrs l' \<union> dt_addrs u'" and "dt_addrs l' \<inter> used S = dt_addrs l" and "dt_addrs u' \<inter> used S = dt_addrs u" and "mg_tot S2 \<le> mg_tot S + k"
  shows "\<exists>S3. ms_push_up a S2 = Some S3 \<and> grown S r s t (Br a l u) k S3 (Br a l' u')"
proof -
  obtain S3 where S3: "ms_push_up a S2 = Some S3" "pool_ok S3" "own S3 r s t (Br a l' u')" "used S3 = used S2" "frame {} {a} S2 S3" "mg_tot S3 = mg_tot S2"
    using opened_push_up [OF assms(2)] by blast
  have a: "a \<in> used S"
    using assms(1) by (simp add: opened_def)
  have "frame {r} (dt_addrs (Br a l u)) S S3"
    by (rule frame_trans [OF assms(3) S3(5)]) (use assms(4) in auto)
  then show ?thesis
    using S3 assms(4-7) a by (intro exI [of _ S3]) (auto simp: grown_def)
qed

lemma mid_size: "(t :: nat) - s < 2 ^ Suc k \<Longrightarrow> s < t \<Longrightarrow> mid s t - s < 2 ^ k \<and> t - (mid s t + 1) < 2 ^ k \<and> s \<le> mid s t \<and> mid s t < t"
  by auto

section \<open>Updates\<close>

lemma leaf_put:
  assumes "pool_ok S" and "own S r s t (Lf a v)"
  shows "grown S r s t (Lf a v) 0 (S\<lparr>mg_t := (mg_t S)(a := \<lparr>ms_sum = w, ms_ls = 0, ms_rs = 0\<rparr>)\<rparr>) (Lf a w)"
    "s = t" "loc r S = a" "a < ms_pool" "mg_t S a = \<lparr>ms_sum = v, ms_ls = 0, ms_rs = 0\<rparr>"
proof -
  have a: "s = t" "loc r S = a" "a \<in> used S" "a \<notin> owner r" "mg_t S a = \<lparr>ms_sum = v, ms_ls = 0, ms_rs = 0\<rparr>" "ref_ok r S"
    using assms(2) by (auto simp: own_def)
  show "s = t" "loc r S = a" "a < ms_pool" "mg_t S a = \<lparr>ms_sum = v, ms_ls = 0, ms_rs = 0\<rparr>"
    using a used_bounds [OF a(3) assms(1)] by auto
  let ?S = "S\<lparr>mg_t := (mg_t S)(a := \<lparr>ms_sum = w, ms_ls = 0, ms_rs = 0\<rparr>)\<rparr>"
  have "loc r ?S = a" "ref_ok r ?S"
    using a(2,4,6) by (cases r; auto)+
  then show "grown S r s t (Lf a v) 0 ?S (Lf a w)"
    using a pool_ok_node [OF assms(1) a(3)] used_bounds [OF a(3) assms(1)] frame_weaken [OF frame_node_upd [of a S]]
    by (auto simp: grown_def own_def)
qed

lemma ms_update_ok:
  assumes "pool_ok S" and "own S r s t d" and "t - s < 2 ^ k" and "mg_tot S + k + 1 < ms_pool" and "s \<le> x" and "x \<le> t"
  shows "\<exists>S' d'. ms_update x c s t r S = Some S' \<and> grown S r s t d (k + 1) S' d' \<and> dt_val s t d' = (dt_val s t d)(x := dt_val s t d x + of_int c)"
  using assms
proof (induction k arbitrary: S r s t d rule: less_induct)
  case (less k)
  obtain S1 d1 where S1: "ms_touch r S = Some S1" "grown S r s t d 1 S1 d1" "d1 \<noteq> Nil_t" "dt_val s t d1 = dt_val s t d"
    using ms_touch_ok [OF less.prems(1,2)] less.prems(4) by auto
  have o1: "pool_ok S1" "own S1 r s t d1" "ref_ok r S1" "mg_tot S1 \<le> mg_tot S + 1"
    using S1(2) by (auto simp: grown_def own_def)
  note d1 = deref_loc [OF o1(3,1)]
  show ?case
  proof (cases d1)
    case (Lf a v)
    let ?S = "S1\<lparr>mg_t := (mg_t S1)(a := \<lparr>ms_sum = v + of_int c, ms_ls = 0, ms_rs = 0\<rparr>)\<rparr>"
    have leaf: "grown S1 r s t d1 0 ?S (Lf a (v + of_int c))" "s = t" "loc r S1 = a" "a < ms_pool" "mg_t S1 a = \<lparr>ms_sum = v, ms_ls = 0, ms_rs = 0\<rparr>"
      using leaf_put [OF o1(1) o1(2) [unfolded Lf]] Lf by auto
    have "grown S r s t d (k + 1) ?S (Lf a (v + of_int c))"
      using grown_trans [OF S1(2) leaf(1)] by (auto simp: grown_def)
    moreover have "ms_update x c s t r S = Some ?S"
      using S1(1) d1 leaf by (subst ms_update.simps) simp
    moreover have "dt_val s t (Lf a (v + of_int c)) = (dt_val s t d)(x := dt_val s t d x + of_int c)"
      using leaf(2) less.prems(5,6) unfolding S1(4) [symmetric] Lf by (auto simp: fun_eq_iff)
    ultimately show ?thesis
      by blast
  next
    case (Br a l u)
    have op: "opened S1 r s t a l u" "s < t"
      using own_opened [of S1 r s t a l u] o1(1,2) Br by (auto simp: opened_def)
    then obtain j where j: "k = Suc j" "mid s t - s < 2 ^ j" "t - (mid s t + 1) < 2 ^ j" "s \<le> mid s t"
      using less.prems(3) mid_size [of t s] by (cases k) auto
    have oa: "own S1 (LsRef a) s (mid s t) l" "own S1 (RsRef a) (mid s t + 1) t u" "loc r S1 = a" "dt_addrs l \<subseteq> used S1" "dt_addrs u \<subseteq> used S1"
      using op(1) by (auto simp: opened_def own_def)
    have jk: "j < k" "mg_tot S1 + j + 1 < ms_pool"
      using j(1) less.prems(4) o1(4) by auto
    show ?thesis
    proof (cases "x \<le> mid s t")
      case True
      obtain S2 l' where S2: "ms_update x c s (mid s t) (LsRef a) S1 = Some S2" "grown S1 (LsRef a) s (mid s t) l (j + 1) S2 l'"
        "dt_val s (mid s t) l' = (dt_val s (mid s t) l)(x := dt_val s (mid s t) l x + of_int c)"
        using less.IH [OF jk(1) o1(1) oa(1) j(2) jk(2) less.prems(5) True] by blast
      note ol = opened_left [OF op(1) S2(2)]
      obtain S3 where S3: "ms_push_up a S2 = Some S3" "grown S1 r s t (Br a l u) (j + 1) S3 (Br a l' u)"
        using grown_node [OF op(1) ol(1) frame_weaken [OF ol(2)], of "j + 1"] S2(2) ol(3) oa(5) by (auto simp: grown_def)
      have "ms_update x c s t r S = Some S3"
        using S1(1) d1 oa(3) op(2) True S2(1) opened_deref [OF ol(1)] S3(1) by (subst ms_update.simps) simp
      moreover have "grown S r s t d (k + 1) S3 (Br a l' u)"
        using grown_trans [OF S1(2)] S3(2) Br j(1) by fastforce
      moreover have "dt_val s t (Br a l' u) = (dt_val s t d)(x := dt_val s t d x + of_int c)"
        using True S2(3) unfolding S1(4) [symmetric] Br by (auto simp: fun_eq_iff)
      ultimately show ?thesis
        by blast
    next
      case False
      obtain S2 u' where S2: "ms_update x c (mid s t + 1) t (RsRef a) S1 = Some S2" "grown S1 (RsRef a) (mid s t + 1) t u (j + 1) S2 u'"
        "dt_val (mid s t + 1) t u' = (dt_val (mid s t + 1) t u)(x := dt_val (mid s t + 1) t u x + of_int c)"
        using less.IH [OF jk(1) o1(1) oa(2) j(3) jk(2) _ less.prems(6)] False by fastforce
      note ol = opened_right [OF op(1) S2(2)]
      obtain S3 where S3: "ms_push_up a S2 = Some S3" "grown S1 r s t (Br a l u) (j + 1) S3 (Br a l u')"
        using grown_node [OF op(1) ol(1) frame_weaken [OF ol(2)], of "j + 1"] S2(2) ol(3) oa(4) by (auto simp: grown_def)
      have "ms_update x c s t r S = Some S3"
        using S1(1) d1 oa(3) op(2) False S2(1) opened_deref [OF ol(1)] S3(1) by (subst ms_update.simps) simp
      moreover have "grown S r s t d (k + 1) S3 (Br a l u')"
        using grown_trans [OF S1(2)] S3(2) Br j(1) by fastforce
      moreover have "dt_val s t (Br a l u') = (dt_val s t d)(x := dt_val s t d x + of_int c)"
        using False S2(3) unfolding S1(4) [symmetric] Br by (auto simp: fun_eq_iff)
      ultimately show ?thesis
        by blast
    qed
  qed (use S1(3) in simp)
qed


section \<open>Building\<close>

text \<open>The nodes for the two halves of an interval.\<close>

lemma halves:
  fixes s w t :: nat
  assumes "s \<le> w" and "w < t" and "T1 \<le> T + 1" and "T + 2 * (t - s) + 1 < P"
  shows "T1 + 2 * (w - s) + 1 < P" "T2 \<le> T1 + (2 * (w - s) + 1) \<Longrightarrow> T2 + 2 * (t - (w + 1)) + 1 < P"
    "T2 \<le> T1 + (2 * (w - s) + 1) \<Longrightarrow> T3 \<le> T2 + (2 * (t - (w + 1)) + 1) \<Longrightarrow> T3 \<le> T1 + 2 * (t - s)"
    "t - s < L \<Longrightarrow> w - s < L" "t - s < L \<Longrightarrow> t - (w + 1) < L - (w + 1 - s)"
  using assms by linarith+

lemma ms_build_ok:
  assumes "pool_ok S" and "own S r s t Nil_t" and "mg_tot S + 2 * (t - s) + 1 < ms_pool" and "t - s < length inp"
  shows "\<exists>S' d'. ms_build s t r inp S = Some (drop (t + 1 - s) inp, S') \<and> grown S r s t Nil_t (2 * (t - s) + 1) S' d' \<and>
    (\<forall>i. s \<le> i \<and> i \<le> t \<longrightarrow> dt_val s t d' i = of_int (inp ! (i - s)))"
  using assms
proof (induction "t - s" arbitrary: S r s t inp rule: less_induct)
  case less
  obtain S1 d1 a where S1: "ms_touch r S = Some S1" "grown S r s t Nil_t 1 S1 d1" "d1 = (if s = t then Lf a 0 else Br a Nil_t Nil_t)"
    using ms_touch_ok [OF less.prems(1,2)] less.prems(3) by auto
  have o1: "pool_ok S1" "own S1 r s t d1" "ref_ok r S1" "mg_tot S1 \<le> mg_tot S + 1" "s \<le> t"
    using S1(2) less.prems(2) by (auto simp: grown_def own_def)
  note d1 = deref_loc [OF o1(3,1)]
  show ?case
  proof (cases "s = t")
    case True
    obtain x inp' where inp: "inp = x # inp'"
      using less.prems(4) by (cases inp) auto
    let ?S = "S1\<lparr>mg_t := (mg_t S1)(a := \<lparr>ms_sum = of_int x, ms_ls = 0, ms_rs = 0\<rparr>)\<rparr>"
    have leaf: "grown S1 r s t d1 0 ?S (Lf a (of_int x))" "loc r S1 = a" "a < ms_pool" "mg_t S1 a = ms_zero"
      using leaf_put [OF o1(1), of r s t a 0] o1(2) S1(3) True by auto
    have "ms_build s t r inp S = Some (inp', ?S)"
      using S1(1) d1 leaf True inp by (subst ms_build.simps) simp
    then show ?thesis
      using grown_trans [OF S1(2) leaf(1)] True inp by auto
  next
    case False
    have Br: "d1 = Br a Nil_t Nil_t" and st: "s < t"
      using S1(3) False o1(5) by auto
    have op: "opened S1 r s t a Nil_t Nil_t"
      using own_opened [of S1 r s t a Nil_t Nil_t] o1(1,2) Br by auto
    have m: "mid s t - s < t - s" "t - (mid s t + 1) < t - s" "s \<le> mid s t" "mid s t < t"
      using st by auto
    note h = halves [OF m(3,4) o1(4) less.prems(3)]
    have "own S1 (LsRef a) s (mid s t) Nil_t" "mg_tot S1 + 2 * (mid s t - s) + 1 < ms_pool" "mid s t - s < length inp"
      using op h(1) h(4) [OF less.prems(4)] by (simp_all add: opened_def)
    then obtain S2 l where S2: "ms_build s (mid s t) (LsRef a) inp S1 = Some (drop (mid s t + 1 - s) inp, S2)"
      "grown S1 (LsRef a) s (mid s t) Nil_t (2 * (mid s t - s) + 1) S2 l" "\<forall>i. s \<le> i \<and> i \<le> mid s t \<longrightarrow> dt_val s (mid s t) l i = of_int (inp ! (i - s))"
      using less.hyps [OF m(1) o1(1)] by blast
    note ol = opened_left [OF op S2(2)]
    have "pool_ok S2" "own S2 (RsRef a) (mid s t + 1) t Nil_t" "mg_tot S2 + 2 * (t - (mid s t + 1)) + 1 < ms_pool"
      "t - (mid s t + 1) < length (drop (mid s t + 1 - s) inp)"
      using ol(1) S2(2) h(2) [of "mg_tot S2"] h(5) [OF less.prems(4)] by (simp_all add: opened_def grown_def)
    then obtain S3 u where S3: "ms_build (mid s t + 1) t (RsRef a) (drop (mid s t + 1 - s) inp) S2 = Some (drop (t + 1 - (mid s t + 1)) (drop (mid s t + 1 - s) inp), S3)"
      "grown S2 (RsRef a) (mid s t + 1) t Nil_t (2 * (t - (mid s t + 1)) + 1) S3 u"
      "\<forall>i. mid s t + 1 \<le> i \<and> i \<le> t \<longrightarrow> dt_val (mid s t + 1) t u i = of_int (drop (mid s t + 1 - s) inp ! (i - (mid s t + 1)))"
      using less.hyps [OF m(2)] by blast
    note or = opened_right [OF ol(1) S3(2)]
    have fr: "frame {} (insert a (dt_addrs Nil_t \<union> dt_addrs Nil_t)) S1 S3"
      by (rule frame_trans [OF ol(2) or(2)]) (use ol(3) in auto)
    have tot: "mg_tot S3 \<le> mg_tot S1 + 2 * (t - s)"
      using S2(2) S3(2) h(3) [of "mg_tot S2" "mg_tot S3"] by (simp add: grown_def)
    have new: "dt_addrs l \<inter> used S1 = {}" "dt_addrs u \<inter> used S1 = {}"
      using S2(2) S3(2) ol(3) by (auto simp: grown_def)
    obtain S4 where S4: "ms_push_up a S3 = Some S4" "grown S1 r s t (Br a Nil_t Nil_t) (2 * (t - s)) S4 (Br a l u)"
      using grown_node [OF op or(1) fr _ _ _ tot] ol(3) or(3) new by auto
    have "ms_build s t r inp S = Some (drop (t + 1 - s) inp, S4)"
    proof -
      have "drop (t + 1 - (mid s t + 1)) (drop (mid s t + 1 - s) inp) = drop (t + 1 - s) inp"
        using m(3,4) by simp
      moreover have "loc r S1 = a"
        using op by (simp add: opened_def)
      ultimately show ?thesis
        using S1(1) d1 False S2(1) opened_deref [OF ol(1)] S3(1) opened_deref [OF or(1)] S4(1)
        by (subst ms_build.simps) (simp only: bind.simps Let_def prod.case if_False)
    qed
    moreover have "grown S r s t Nil_t (2 * (t - s) + 1) S4 (Br a l u)"
      using grown_trans [OF S1(2)] S4(2) Br by fastforce
    moreover have "\<forall>i. s \<le> i \<and> i \<le> t \<longrightarrow> dt_val s t (Br a l u) i = of_int (inp ! (i - s))"
    proof (intro allI impI)
      fix i assume i: "s \<le> i \<and> i \<le> t"
      show "dt_val s t (Br a l u) i = of_int (inp ! (i - s))"
      proof (cases "i \<le> mid s t")
        case True
        then show ?thesis
          using S2(3) i by simp
      next
        case False
        have "dt_val (mid s t + 1) t u i = of_int (drop (mid s t + 1 - s) inp ! (i - (mid s t + 1)))"
          using S3(3) False i by auto
        also have "drop (mid s t + 1 - s) inp ! (i - (mid s t + 1)) = inp ! (mid s t + 1 - s + (i - (mid s t + 1)))"
          using less.prems(4) m(3,4) by (intro nth_drop) linarith
        also have "mid s t + 1 - s + (i - (mid s t + 1)) = i - s"
          using False m(3) by linarith
        finally show ?thesis
          using False by simp
      qed
    qed
    ultimately show ?thesis
      by blast
  qed
qed

end
