(* ===== verification/MergeSplit.thy ===== *)
theory MergeSplit
  imports SegPool
begin

text \<open>
  The program \<^verbatim>\<open>seg/seg_7.cpp\<close>, continued: \<open>merge\<close>, \<open>split\<close>, the queries and \<open>main\<close>. Shown: the answers are those of the bags of numbers; no
  node is shared by two trees nor by a tree and the stack of free nodes; the pool suffices.
\<close>

section \<open>Merging\<close>

text \<open>A tree below a node number.\<close>

definition ms_tree :: "mseg \<Rightarrow> nat \<Rightarrow> nat \<Rightarrow> nat \<Rightarrow> dtree \<Rightarrow> bool" where
  "ms_tree S p s t d \<longleftrightarrow> dt_at (mg_t S) d p \<and> dt_shape s t d \<and> linear d \<and> dt_addrs d \<subseteq> used S"

text \<open>The trees \<open>d\<close> and \<open>e\<close> become \<open>d'\<close>; their other nodes are free.\<close>

definition ms_merged :: "mseg \<Rightarrow> nat \<Rightarrow> nat \<Rightarrow> dtree \<Rightarrow> dtree \<Rightarrow> nat \<Rightarrow> mseg \<Rightarrow> dtree \<Rightarrow> bool" where
  "ms_merged S s t d e p' S' d' \<longleftrightarrow> pool_ok S' \<and> ms_tree S' p' s t d' \<and> dt_addrs d' \<subseteq> dt_addrs d \<union> dt_addrs e \<and> used S' = used S - (dt_addrs d \<union> dt_addrs e - dt_addrs d') \<and>
     frame {} (dt_addrs d \<union> dt_addrs e) S S' \<and> mg_tot S' = mg_tot S \<and> (\<forall>i. dt_val s t d' i = dt_val s t d i + dt_val s t e i)"

lemma tree_frame:
  assumes "ms_tree S p s t d" and "frame {} A S S'" and "dt_addrs d \<inter> A = {}" and "dt_addrs d \<subseteq> used S'"
  shows "ms_tree S' p s t d"
proof -
  have "mg_t S' b = mg_t S b" if "b \<in> dt_addrs d" for b
    using assms(1,3) that by (intro frame_node [OF assms(2)]) (auto simp: ms_tree_def)
  then show ?thesis
    using assms(1,4) dt_at_frame [of d "mg_t S'" "mg_t S"] by (auto simp: ms_tree_def)
qed

lemma tree_upd: "ms_tree S p s t d \<Longrightarrow> a \<notin> dt_addrs d \<Longrightarrow> ms_tree (S\<lparr>mg_t := (mg_t S)(a := n)\<rparr>) p s t d"
  by (simp add: ms_tree_def)

lemma tree_Br: "ms_tree S p s t (Br a l u) \<longleftrightarrow> p = a \<and> a \<noteq> 0 \<and> a \<in> used S \<and> s < t \<and> ms_sum (mg_t S a) = dt_sum l + dt_sum u \<and>
    ms_tree S (ms_ls (mg_t S a)) s (mid s t) l \<and> ms_tree S (ms_rs (mg_t S a)) (mid s t + 1) t u \<and> a \<notin> dt_addrs l \<and> a \<notin> dt_addrs u \<and> dt_addrs l \<inter> dt_addrs u = {}"
  by (auto simp: ms_tree_def)

lemma ms_merge_leaves:
  assumes "pool_ok S" and "ms_tree S p s t (Lf a v)" and "ms_tree S q s t (Lf b w)" and "a \<noteq> b"
  shows "\<exists>S'. ms_merge p q s t S = Some (a, S') \<and> ms_merged S s t (Lf a v) (Lf b w) a S' (Lf a (v + w))"
proof -
  have t: "p = a" "q = b" "a \<noteq> 0" "b \<noteq> 0" "a \<in> used S" "b \<in> used S" "s = t" "mg_t S a = \<lparr>ms_sum = v, ms_ls = 0, ms_rs = 0\<rparr>" "mg_t S b = \<lparr>ms_sum = w, ms_ls = 0, ms_rs = 0\<rparr>"
    using assms(2,3) by (auto simp: ms_tree_def)
  let ?S = "S\<lparr>mg_t := (mg_t S)(a := \<lparr>ms_sum = v + w, ms_ls = 0, ms_rs = 0\<rparr>)\<rparr>"
  obtain S' where S': "ms_Del b ?S = Some S'" "pool_ok S'" "used S' = used S - {b}" "mg_t S' = (mg_t ?S)(b := ms_zero)" "mg_root S' = mg_root S"
    "mg_idx S' = mg_idx S" "mg_tot S' = mg_tot S"
    using ms_Del_ok [OF pool_ok_node [OF assms(1) t(5)], of b] t(6) by auto
  have "ms_merge p q s t S = Some (a, S')"
    using t used_bounds [OF t(5) assms(1)] used_bounds [OF t(6) assms(1)] S'(1) by (subst ms_merge.simps) simp
  moreover have "ms_merged S s t (Lf a v) (Lf b w) a S' (Lf a (v + w))"
    using t assms(4) S' by (auto simp: ms_merged_def ms_tree_def frame_def)
  ultimately show ?thesis
    by blast
qed


text \<open>The step of \<open>merge\<close> at two inner nodes, from what it does at their children.\<close>

lemma ms_merge_nodes:
  assumes "pool_ok S" and "ms_tree S p s t (Br a l u)" and "ms_tree S q s t (Br b l2 u2)" and "dt_addrs (Br a l u) \<inter> dt_addrs (Br b l2 u2) = {}"
    and left: "\<And>S p q. pool_ok S \<Longrightarrow> ms_tree S p s (mid s t) l \<Longrightarrow> ms_tree S q s (mid s t) l2 \<Longrightarrow>
      \<exists>p' S' d'. ms_merge p q s (mid s t) S = Some (p', S') \<and> ms_merged S s (mid s t) l l2 p' S' d'"
    and right: "\<And>S p q. pool_ok S \<Longrightarrow> ms_tree S p (mid s t + 1) t u \<Longrightarrow> ms_tree S q (mid s t + 1) t u2 \<Longrightarrow>
      \<exists>p' S' d'. ms_merge p q (mid s t + 1) t S = Some (p', S') \<and> ms_merged S (mid s t + 1) t u u2 p' S' d'"
  shows "\<exists>S' d'. ms_merge p q s t S = Some (a, S') \<and> ms_merged S s t (Br a l u) (Br b l2 u2) a S' d'"
proof -
  note A = assms(2) [unfolded tree_Br] and B = assms(3) [unfolded tree_Br]
  have dis: "a \<noteq> b" "a \<notin> dt_addrs l2 \<union> dt_addrs u2 \<union> dt_addrs l \<union> dt_addrs u" "b \<notin> dt_addrs l \<union> dt_addrs u \<union> dt_addrs l2 \<union> dt_addrs u2"
    "(dt_addrs l \<union> dt_addrs l2) \<inter> (dt_addrs u \<union> dt_addrs u2) = {}"
    using assms(4) A B by auto
  have sub: "dt_addrs l \<union> dt_addrs u \<union> dt_addrs l2 \<union> dt_addrs u2 \<subseteq> used S"
    using assms(2,3) by (auto simp: ms_tree_def)
  obtain v1 S1 l' where S1: "ms_merge (ms_ls (mg_t S a)) (ms_ls (mg_t S b)) s (mid s t) S = Some (v1, S1)" "ms_merged S s (mid s t) l l2 v1 S1 l'"
    using left [OF assms(1)] A B by blast
  have m1: "pool_ok S1" "ms_tree S1 v1 s (mid s t) l'" "dt_addrs l' \<subseteq> dt_addrs l \<union> dt_addrs l2" "used S1 = used S - (dt_addrs l \<union> dt_addrs l2 - dt_addrs l')"
    "frame {} (dt_addrs l \<union> dt_addrs l2) S S1" "mg_tot S1 = mg_tot S"
    using S1(2) by (simp_all add: ms_merged_def)
  have in1: "a \<in> used S1" "b \<in> used S1" "dt_addrs u \<union> dt_addrs u2 \<subseteq> used S1"
    using m1(4) A B dis sub by auto
  have nodes1: "mg_t S1 a = mg_t S a" "mg_t S1 b = mg_t S b"
    using A B dis by (auto intro!: frame_node [OF m1(5)])
  define S2 where "S2 = S1\<lparr>mg_t := (mg_t S1)(a := (mg_t S a)\<lparr>ms_ls := v1\<rparr>)\<rparr>"
  have ok2: "pool_ok S2" "used S2 = used S1" "mg_t S2 b = mg_t S b" "mg_t S2 a = (mg_t S a)\<lparr>ms_ls := v1\<rparr>"
    using pool_ok_node [OF m1(1) in1(1)] nodes1 dis by (simp_all add: S2_def)
  have "ms_tree S2 (ms_rs (mg_t S a)) (mid s t + 1) t u" "ms_tree S2 (ms_rs (mg_t S b)) (mid s t + 1) t u2"
    unfolding S2_def by (rule tree_upd, rule tree_frame [OF _ m1(5)], use A B dis in1 in auto)+
  then obtain v2 S3 u' where S3: "ms_merge (ms_rs (mg_t S a)) (ms_rs (mg_t S b)) (mid s t + 1) t S2 = Some (v2, S3)" "ms_merged S2 (mid s t + 1) t u u2 v2 S3 u'"
    using right [OF ok2(1)] by blast
  have m3: "pool_ok S3" "ms_tree S3 v2 (mid s t + 1) t u'" "dt_addrs u' \<subseteq> dt_addrs u \<union> dt_addrs u2" "used S3 = used S1 - (dt_addrs u \<union> dt_addrs u2 - dt_addrs u')"
    "frame {} (dt_addrs u \<union> dt_addrs u2) S2 S3" "mg_tot S3 = mg_tot S"
    using S3(2) ok2(2) m1(6) by (simp_all add: ms_merged_def S2_def)
  have in3: "a \<in> used S3" "b \<in> used S3" "dt_addrs l' \<subseteq> used S3"
    using m3(4) in1 dis m1(2,3) by (auto simp: ms_tree_def)
  have nodes3: "mg_t S3 a = mg_t S2 a" "mg_t S3 b = mg_t S2 b"
    using in1(1,2) ok2(2) dis by (auto intro!: frame_node [OF m3(5)])
  define S4 where "S4 = S3\<lparr>mg_t := (mg_t S3)(a := (mg_t S a)\<lparr>ms_ls := v1, ms_rs := v2\<rparr>)\<rparr>"
  have "ms_tree S2 v1 s (mid s t) l'"
    unfolding S2_def using dis m1(3) by (intro tree_upd m1(2)) auto
  then have l3: "ms_tree S4 v1 s (mid s t) l'"
    unfolding S4_def using dis m1(3) in3 by (intro tree_upd tree_frame [OF _ m3(5)]) auto
  have u3: "ms_tree S4 v2 (mid s t + 1) t u'"
    unfolding S4_def using dis m3(3) by (intro tree_upd m3(2)) auto
  have ok4: "pool_ok S4" "used S4 = used S3"
    using pool_ok_node [OF m3(1) in3(1)] by (simp_all add: S4_def)
  define S5 where "S5 = S4\<lparr>mg_t := (mg_t S4)(a := (mg_t S4 a)\<lparr>ms_sum := dt_sum l' + dt_sum u'\<rparr>)\<rparr>"
  have S5: "ms_push_up a S4 = Some S5" "pool_ok S5" "used S5 = used S3"
    using push_up_node [of S4 a l' u'] l3 u3 in3 ok4 pool_ok_node [of S4 a] by (auto simp: S5_def ms_tree_def S4_def)
  obtain S6 where S6: "ms_Del b S5 = Some S6" "pool_ok S6" "used S6 = used S3 - {b}" "mg_t S6 = (mg_t S5)(b := ms_zero)" "mg_root S6 = mg_root S5"
    "mg_idx S6 = mg_idx S5" "mg_tot S6 = mg_tot S5"
    using ms_Del_ok [OF S5(2), of b] in3(2) S5(3) by auto
  have run: "ms_merge p q s t S = Some (a, S6)"
  proof -
    have b: "p = a" "q = b" "a \<noteq> 0" "b \<noteq> 0" "a < ms_pool" "b < ms_pool" "s \<noteq> t"
      using A B used_bounds [OF _ assms(1)] by auto
    have "ms_put a (\<lambda>n. n\<lparr>ms_ls := v1\<rparr>) S1 = Some S2" "ms_put a (\<lambda>n. n\<lparr>ms_rs := v2\<rparr>) S3 = Some S4"
      using b(5) nodes1(1) nodes3(1) ok2(4) by (simp_all add: S2_def S4_def)
    then show ?thesis
      using b S1(1) ok2(3,4) S3(1) S5(1) S6(1) by (subst ms_merge.simps) (simp del: ms_access(2))
  qed
  have "frame {} (dt_addrs (Br a l u) \<union> dt_addrs (Br b l2 u2)) S S6"
  proof -
    let ?A = "dt_addrs (Br a l u) \<union> dt_addrs (Br b l2 u2)"
    have "frame {} ?A S S2"
      unfolding S2_def by (rule frame_trans [OF m1(5) frame_node_upd]) (use m1(4) in auto)
    then have "frame {} ?A S S3"
      by (rule frame_trans [OF _ m3(5)]) (use m1(4) ok2(2) in auto)
    moreover have "frame {} {a, b} S3 S6"
      using S6(4-6) by (simp add: frame_def S5_def S4_def)
    ultimately show ?thesis
      by (rule frame_trans) (use m1(4) m3(4) in auto)
  qed
  moreover have "ms_tree S6 a s t (Br a l' u')"
  proof -
    have "a \<notin> dt_addrs l'" "b \<notin> dt_addrs l'" "a \<notin> dt_addrs u'" "b \<notin> dt_addrs u'"
      using dis m1(3) m3(3) by auto
    then have "ms_tree S6 v1 s (mid s t) l'" "ms_tree S6 v2 (mid s t + 1) t u'"
      using l3 u3 dis m1(3) m3(3) in3 ok4(2) S6(3,4) by (auto simp: ms_tree_def S5_def)
    moreover have "ms_sum (mg_t S6 a) = dt_sum l' + dt_sum u'" "ms_ls (mg_t S6 a) = v1" "ms_rs (mg_t S6 a) = v2"
      using dis(1) S6(4) by (simp_all add: S5_def S4_def)
    ultimately show ?thesis
      using A dis m1(3) m3(3) in3(1) S6(3) unfolding tree_Br by auto
  qed
  moreover have "used S6 = used S - (dt_addrs (Br a l u) \<union> dt_addrs (Br b l2 u2) - dt_addrs (Br a l' u'))"
    unfolding S6(3) m3(4) m1(4) dt_addrs.simps using m3(3) m1(3) dis by blast
  moreover have "\<forall>i. dt_val s t (Br a l' u') i = dt_val s t (Br a l u) i + dt_val s t (Br b l2 u2) i"
    using S1(2) S3(2) by (simp add: ms_merged_def)
  ultimately have "ms_merged S s t (Br a l u) (Br b l2 u2) a S6 (Br a l' u')"
    using S6(2,7) m1(3) m3(3,6) by (auto simp: ms_merged_def S5_def S4_def)
  then show ?thesis
    using run by blast
qed

lemma ms_merge_ok:
  assumes "pool_ok S" and "ms_tree S p s t d" and "ms_tree S q s t e" and "dt_addrs d \<inter> dt_addrs e = {}"
  shows "\<exists>p' S' d'. ms_merge p q s t S = Some (p', S') \<and> ms_merged S s t d e p' S' d'"
  using assms
proof (induction d arbitrary: S p q s t e)
  case Nil_t
  then have "ms_merge p q s t S = Some (q, S)"
    by (subst ms_merge.simps) (simp add: ms_tree_def)
  then show ?case
    using Nil_t by (intro exI [of _ q] exI [of _ S] exI [of _ e]) (auto simp: ms_merged_def frame_refl)
next
  case (Lf a v)
  show ?case
  proof (cases e)
    case Nil_t
    then have "ms_merge p q s t S = Some (p, S)"
      using Lf.prems by (subst ms_merge.simps) (simp add: ms_tree_def)
    then show ?thesis
      using Lf.prems Nil_t by (intro exI [of _ p] exI [of _ S] exI [of _ "Lf a v"]) (auto simp: ms_merged_def frame_refl)
  next
    case (Lf b w)
    then show ?thesis
      using ms_merge_leaves [of S p s t a v q b w] Lf.prems by auto
  qed (use Lf.prems in \<open>auto simp: ms_tree_def\<close>)
next
  case (Br a l u)
  show ?case
  proof (cases e)
    case Nil_t
    then have "ms_merge p q s t S = Some (p, S)"
      using Br.prems by (subst ms_merge.simps) (simp add: ms_tree_def)
    then show ?thesis
      using Br.prems Nil_t by (intro exI [of _ p] exI [of _ S] exI [of _ "Br a l u"]) (auto simp: ms_merged_def frame_refl)
  next
    case e: (Br b l2 u2)
    have "\<exists>S' d'. ms_merge p q s t S = Some (a, S') \<and> ms_merged S s t (Br a l u) (Br b l2 u2) a S' d'"
    proof (rule ms_merge_nodes)
      show "\<exists>p' S' d'. ms_merge p q s (mid s t) S = Some (p', S') \<and> ms_merged S s (mid s t) l l2 p' S' d'"
        if "pool_ok S" "ms_tree S p s (mid s t) l" "ms_tree S q s (mid s t) l2" for S p q
        using Br.IH(1) [OF that] Br.prems(4) e by auto
      show "\<exists>p' S' d'. ms_merge p q (mid s t + 1) t S = Some (p', S') \<and> ms_merged S (mid s t + 1) t u u2 p' S' d'"
        if "pool_ok S" "ms_tree S p (mid s t + 1) t u" "ms_tree S q (mid s t + 1) t u2" for S p q
        using Br.IH(2) [OF that] Br.prems(4) e by auto
    qed (use Br.prems e in auto)
    then show ?thesis
      using e by blast
  qed (use Br.prems in \<open>auto simp: ms_tree_def\<close>)
qed


section \<open>Splitting\<close>

text \<open>How many new nodes a split of an interval of at most \<open>2 ^ k\<close> positions takes.\<close>

definition cost :: "nat \<Rightarrow> nat \<Rightarrow> nat \<Rightarrow> nat \<Rightarrow> nat \<Rightarrow> nat" where
  "cost lo hi s t k = (if t < lo \<or> hi < s \<or> lo \<le> s \<and> t \<le> hi then 0 else if lo \<le> s \<or> t \<le> hi then k else 2 * k)"

lemma cost_halves:
  "s \<le> w \<Longrightarrow> w < t \<Longrightarrow> \<not> (t < lo \<or> hi < s) \<Longrightarrow> \<not> (lo \<le> s \<and> t \<le> hi) \<Longrightarrow>
   1 + cost lo hi s w j + cost lo hi (w + 1) t j \<le> cost lo hi s t (Suc j)"
  by (auto simp: cost_def)

text \<open>The tree below \<open>rp\<close> loses the positions \<open>lo, \<dots>, hi\<close> to a tree below \<open>rq\<close>.\<close>

definition splitted :: "mseg \<Rightarrow> mref \<Rightarrow> mref \<Rightarrow> nat \<Rightarrow> nat \<Rightarrow> nat \<Rightarrow> nat \<Rightarrow> dtree \<Rightarrow> nat \<Rightarrow> mseg \<Rightarrow> dtree \<Rightarrow> dtree \<Rightarrow> bool" where
  "splitted S rp rq lo hi s t d c S' d' e' \<longleftrightarrow> pool_ok S' \<and> own S' rp s t d' \<and> own S' rq s t e' \<and> dt_addrs d' \<inter> dt_addrs e' = {} \<and>
     used S' = used S \<union> dt_addrs d' \<union> dt_addrs e' \<and> (dt_addrs d' \<union> dt_addrs e') \<inter> used S = dt_addrs d \<and> frame {rp, rq} (dt_addrs d) S S' \<and> mg_tot S' \<le> mg_tot S + c \<and>
     (\<forall>i. dt_val s t d' i = (if lo \<le> i \<and> i \<le> hi then 0 else dt_val s t d i)) \<and> (\<forall>i. dt_val s t e' i = (if lo \<le> i \<and> i \<le> hi then dt_val s t d i else 0))"

lemma owner_used: "ref_ok r S \<Longrightarrow> owner r \<subseteq> used S"
  by (cases r) auto

lemma splitted_none:
  assumes "pool_ok S" and "own S rp s t d" and "own S rq s t Nil_t" and "\<And>i. lo \<le> i \<Longrightarrow> i \<le> hi \<Longrightarrow> dt_val s t d i = 0"
  shows "splitted S rp rq lo hi s t d c S d Nil_t"
  using assms by (auto simp: splitted_def frame_refl own_def)

lemma splitted_all:
  assumes "pool_ok S" and "own S rp s t d" and "own S rq s t Nil_t" and "rp \<noteq> rq" and "owner rq \<inter> dt_addrs d = {}"
    and "\<And>i. \<not> (lo \<le> i \<and> i \<le> hi) \<Longrightarrow> dt_val s t d i = 0"
  shows "\<exists>S'. (do { S \<leftarrow> ms_assign rq (loc rp S) S; ms_assign rp 0 S }) = Some S' \<and> splitted S rp rq lo hi s t d c S' Nil_t d"
proof -
  have o: "ref_ok rp S" "ref_ok rq S" "dt_at (mg_t S) d (loc rp S)" "s \<le> t" "dt_addrs d \<subseteq> used S" "owner rp \<inter> dt_addrs d = {}"
    using assms(2,3) by (auto simp: own_def)
  obtain S1 where S1: "ms_assign rq (loc rp S) S = Some S1" "pool_ok S1" "used S1 = used S" "loc rq S1 = loc rp S" "frame {rq} {} S S1" "mg_tot S1 = mg_tot S"
    "\<forall>b. b \<notin> owner rq \<longrightarrow> mg_t S1 b = mg_t S b"
    using assign_ok [OF o(2) assms(1)] by blast
  have ok1: "ref_ok rp S1" "ref_ok rq S1"
    using o(1,2) S1(3) by (cases rp; cases rq; simp)+
  obtain S2 where S2: "ms_assign rp 0 S1 = Some S2" "pool_ok S2" "used S2 = used S1" "loc rp S2 = 0" "frame {rp} {} S1 S2" "mg_tot S2 = mg_tot S1"
    "\<forall>b. b \<notin> owner rp \<longrightarrow> mg_t S2 b = mg_t S1 b"
    using assign_ok [OF ok1(1) S1(2)] by blast
  have ok2: "ref_ok rp S2" "ref_ok rq S2"
    using ok1 S2(3) by (cases rp; cases rq; simp)+
  have "loc rq S2 = loc rp S"
    using frame_loc [OF S2(5) ok1(2)] assms(4) S1(4) by simp
  moreover have "dt_at (mg_t S2) d (loc rp S)"
  proof -
    have "mg_t S2 a = mg_t S a" if "a \<in> dt_addrs d" for a
      using o(6) assms(5) S1(7) S2(7) that by (metis disjoint_iff)
    then show ?thesis
      using o(3) dt_at_frame [of d "mg_t S2" "mg_t S"] by simp
  qed
  ultimately have "own S2 rq s t d" "own S2 rp s t Nil_t"
    using ok2 assms(2,5) o(4) S1(3) S2(3,4) by (auto simp: own_def)
  moreover have "frame {rp, rq} (dt_addrs d) S S2"
    by (rule frame_trans [OF S1(5) S2(5)]) (use S1(3) in auto)
  ultimately have "splitted S rp rq lo hi s t d c S2 Nil_t d"
    using S1(3,6) S2(2,3,6) o(5) assms(6) by (auto simp: splitted_def)
  then show ?thesis
    using S1(1) S2(1) by auto
qed

text \<open>Two nodes side by side, each with its own children.\<close>

definition both :: "mseg \<Rightarrow> mref \<Rightarrow> mref \<Rightarrow> nat \<Rightarrow> nat \<Rightarrow> nat \<Rightarrow> dtree \<Rightarrow> dtree \<Rightarrow> nat \<Rightarrow> dtree \<Rightarrow> dtree \<Rightarrow> bool" where
  "both S rp rq s t a l u b e f \<longleftrightarrow> opened S rp s t a l u \<and> opened S rq s t b e f \<and> rp \<noteq> rq \<and>
     insert a (dt_addrs l \<union> dt_addrs u) \<inter> insert b (dt_addrs e \<union> dt_addrs f) = {} \<and>
     (owner rp \<union> owner rq) \<inter> (insert a (dt_addrs l \<union> dt_addrs u) \<union> insert b (dt_addrs e \<union> dt_addrs f)) = {}"

text \<open>What stays as it is when the children \<open>ca\<close> and \<open>cb\<close> of the two nodes are split.\<close>

lemma side_kept:
  assumes "splitted S ca cb lo hi s1 t1 x c S' x' z'" and "owner ca = {a}" and "owner cb = {b}"
  shows "own S r s2 t2 y \<Longrightarrow> r \<notin> {ca, cb} \<Longrightarrow> owner r \<inter> dt_addrs x = {} \<Longrightarrow> dt_addrs y \<inter> insert a (insert b (dt_addrs x)) = {} \<Longrightarrow> own S' r s2 t2 y"
    "ref_ok r S \<Longrightarrow> r \<notin> {ca, cb} \<Longrightarrow> owner r \<inter> dt_addrs x = {} \<Longrightarrow> loc r S' = loc r S \<and> ref_ok r S'"
    "frame {} (insert a (insert b (dt_addrs x))) S S'"
proof -
  have p: "used S' = used S \<union> dt_addrs x' \<union> dt_addrs z'" "frame {ca, cb} (dt_addrs x) S S'"
    using assms(1) by (simp_all add: splitted_def)
  show "frame {} (insert a (insert b (dt_addrs x))) S S'"
    by (rule frame_weaken [OF p(2)]) (use assms(2,3) in auto)
  show "own S' r s2 t2 y" if "own S r s2 t2 y" "r \<notin> {ca, cb}" "owner r \<inter> dt_addrs x = {}" "dt_addrs y \<inter> insert a (insert b (dt_addrs x)) = {}"
  proof (rule own_frame [OF that(1) p(2) that(2,3)])
    show "dt_addrs y \<union> owner r \<subseteq> used S'"
      using that(1) owner_used [of r S] p(1) by (auto simp: own_def)
  qed (use that(4) assms(2,3) in auto)
  show "loc r S' = loc r S \<and> ref_ok r S'" if "ref_ok r S" "r \<notin> {ca, cb}" "owner r \<inter> dt_addrs x = {}"
    using frame_loc [OF p(2) that] that(1) p(1) by (cases r) auto
qed


lemma both_child:
  assumes "splitted S ca cb lo hi s1 t1 x c S' x' z" and "owner ca = {a}" "owner cb = {b}" "owner oa = {a}" "owner ob = {b}" and "oa \<notin> {ca, cb}" "ob \<notin> {ca, cb}"
    and "own S oa s2 t2 y" "own S ob s2 t2 f" and "ref_ok rp S" "ref_ok rq S" and "a \<in> used S" "b \<in> used S"
    and dis: "insert a (dt_addrs x \<union> dt_addrs y) \<inter> insert b (dt_addrs f) = {}" "dt_addrs x \<inter> dt_addrs y = {}" "a \<notin> dt_addrs x"
      "(owner rp \<union> owner rq) \<inter> (insert a (dt_addrs x \<union> dt_addrs y) \<union> insert b (dt_addrs f)) = {}"
  shows "own S' oa s2 t2 y" "own S' ob s2 t2 f" "loc rp S' = loc rp S" "loc rq S' = loc rq S" "ref_ok rp S'" "ref_ok rq S'"
    "insert a (dt_addrs x' \<union> dt_addrs y) \<inter> insert b (dt_addrs z \<union> dt_addrs f) = {}" "dt_addrs x' \<inter> dt_addrs y = {}" "dt_addrs z \<inter> dt_addrs f = {}"
    "(owner rp \<union> owner rq) \<inter> (insert a (dt_addrs x' \<union> dt_addrs y) \<union> insert b (dt_addrs z \<union> dt_addrs f)) = {}"
    "a \<in> used S'" "b \<in> used S'"
proof -
  have p: "dt_addrs x' \<inter> dt_addrs z = {}" "used S' = used S \<union> dt_addrs x' \<union> dt_addrs z" "(dt_addrs x' \<union> dt_addrs z) \<inter> used S = dt_addrs x"
    using assms(1) by (simp_all add: splitted_def)
  have sub: "owner rp \<subseteq> used S" "owner rq \<subseteq> used S" "dt_addrs y \<subseteq> used S" "dt_addrs f \<subseteq> used S" "a \<notin> dt_addrs y" "b \<notin> dt_addrs f"
    using assms(4,5,8-11) owner_used by (auto simp: own_def)
  note k = side_kept [OF assms(1-3)]
  have fa: "owner oa \<inter> dt_addrs x = {}" "dt_addrs y \<inter> insert a (insert b (dt_addrs x)) = {}" "owner ob \<inter> dt_addrs x = {}" "dt_addrs f \<inter> insert a (insert b (dt_addrs x)) = {}"
    using assms(4,5) dis sub(5,6) by auto
  show "own S' oa s2 t2 y" "own S' ob s2 t2 f"
    by (rule k(1) [OF assms(8,6) fa(1,2)], rule k(1) [OF assms(9,7) fa(3,4)])
  have "a \<notin> owner rp" "b \<notin> owner rp" "a \<notin> owner rq" "b \<notin> owner rq"
    using dis(4) by auto
  then have "rp \<notin> {ca, cb}" "rq \<notin> {ca, cb}"
    using assms(2,3) by auto
  moreover have "owner rp \<inter> dt_addrs x = {}" "owner rq \<inter> dt_addrs x = {}"
    using dis(4) by auto
  ultimately show "loc rp S' = loc rp S" "loc rq S' = loc rq S" "ref_ok rp S'" "ref_ok rq S'"
    using k(2) [OF assms(10)] k(2) [OF assms(11)] by auto
  have old: "v \<in> dt_addrs x" if "v \<in> dt_addrs x' \<union> dt_addrs z" "v \<in> used S" for v
    using p(3) that by blast
  show "dt_addrs x' \<inter> dt_addrs y = {}" "dt_addrs z \<inter> dt_addrs f = {}"
    using old sub(3,4) dis(1,2) by blast+
  show "insert a (dt_addrs x' \<union> dt_addrs y) \<inter> insert b (dt_addrs z \<union> dt_addrs f) = {}"
    using old p(1) sub dis(1,2,3) assms(12,13) by blast
  show "(owner rp \<union> owner rq) \<inter> (insert a (dt_addrs x' \<union> dt_addrs y) \<union> insert b (dt_addrs z \<union> dt_addrs f)) = {}"
    using old sub dis(4) by blast
qed (use assms(1,12,13) in \<open>simp_all add: splitted_def\<close>)

lemma both_left:
  assumes "both S rp rq s t a l u b Nil_t f" and "splitted S (LsRef a) (LsRef b) lo hi s (mid s t) l c S' l' e"
  shows "both S' rp rq s t a l' u b e f"
proof -
  have o: "own S (LsRef a) s (mid s t) l" "own S (RsRef a) (mid s t + 1) t u" "own S (RsRef b) (mid s t + 1) t f" "ref_ok rp S" "ref_ok rq S" "a \<in> used S" "b \<in> used S"
    "insert a (dt_addrs l \<union> dt_addrs u) \<inter> insert b (dt_addrs f) = {}" "dt_addrs l \<inter> dt_addrs u = {}"
    "(owner rp \<union> owner rq) \<inter> (insert a (dt_addrs l \<union> dt_addrs u) \<union> insert b (dt_addrs f)) = {}" "loc rp S = a" "loc rq S = b" "s < t" "rp \<noteq> rq"
    using assms(1) by (auto simp: both_def opened_def)
  have a: "a \<notin> dt_addrs l"
    using o(1) by (simp add: own_def)
  have p: "pool_ok S'" "own S' (LsRef a) s (mid s t) l'" "own S' (LsRef b) s (mid s t) e"
    using assms(2) by (simp_all add: splitted_def)
  note c = both_child [OF assms(2) _ _ _ _ _ _ o(2-9) a o(10), simplified]
  show ?thesis
    using c p o(11-14) unfolding both_def opened_def by auto
qed

lemma both_right:
  assumes "both S rp rq s t a l u b e Nil_t" and "splitted S (RsRef a) (RsRef b) lo hi (mid s t + 1) t u c S' u' f"
  shows "both S' rp rq s t a l u' b e f"
proof -
  have o: "own S (RsRef a) (mid s t + 1) t u" "own S (LsRef a) s (mid s t) l" "own S (LsRef b) s (mid s t) e" "ref_ok rp S" "ref_ok rq S" "a \<in> used S" "b \<in> used S"
    "insert a (dt_addrs u \<union> dt_addrs l) \<inter> insert b (dt_addrs e) = {}" "dt_addrs u \<inter> dt_addrs l = {}"
    "(owner rp \<union> owner rq) \<inter> (insert a (dt_addrs u \<union> dt_addrs l) \<union> insert b (dt_addrs e)) = {}" "loc rp S = a" "loc rq S = b" "s < t" "rp \<noteq> rq"
    using assms(1) by (auto simp: both_def opened_def)
  have a: "a \<notin> dt_addrs u"
    using o(1) by (simp add: own_def)
  have p: "pool_ok S'" "own S' (RsRef a) (mid s t + 1) t u'" "own S' (RsRef b) (mid s t + 1) t f"
    using assms(2) by (simp_all add: splitted_def)
  note c = both_child [OF assms(2) _ _ _ _ _ _ o(2-9) a o(10), simplified]
  show ?thesis
    using c p o(11-14) unfolding both_def opened_def by auto
qed


lemma both_push_up:
  assumes "both S rp rq s t a l u b e f"
  shows "\<exists>S'. (do { p \<leftarrow> ms_deref rp S; S \<leftarrow> ms_push_up p S; q \<leftarrow> ms_deref rq S; ms_push_up q S }) = Some S' \<and> pool_ok S' \<and>
    own S' rp s t (Br a l u) \<and> own S' rq s t (Br b e f) \<and> used S' = used S \<and> frame {} {a, b} S S' \<and> mg_tot S' = mg_tot S"
proof -
  have o: "opened S rp s t a l u" "opened S rq s t b e f" "insert a (dt_addrs l \<union> dt_addrs u) \<inter> insert b (dt_addrs e \<union> dt_addrs f) = {}"
    "(owner rp \<union> owner rq) \<inter> (insert a (dt_addrs l \<union> dt_addrs u) \<union> insert b (dt_addrs e \<union> dt_addrs f)) = {}"
    using assms by (auto simp: both_def)
  obtain S1 where S1: "ms_push_up a S = Some S1" "pool_ok S1" "own S1 rp s t (Br a l u)" "used S1 = used S" "frame {} {a} S S1" "mg_tot S1 = mg_tot S"
    using opened_push_up [OF o(1)] by blast
  have q: "own S (LsRef b) s (mid s t) e" "own S (RsRef b) (mid s t + 1) t f" "ref_ok rq S" "b \<in> used S" "dt_addrs e \<subseteq> used S" "dt_addrs f \<subseteq> used S"
    using o(2) by (auto simp: opened_def own_def)
  have "own S1 (LsRef b) s (mid s t) e"
    by (rule own_frame [OF q(1) S1(5)]) (use o(3) q S1(4) in auto)
  moreover have "own S1 (RsRef b) (mid s t + 1) t f"
    by (rule own_frame [OF q(2) S1(5)]) (use o(3) q S1(4) in auto)
  moreover have "loc rq S1 = loc rq S"
    using o(4) by (intro frame_loc [OF S1(5) q(3)]) auto
  moreover have "ref_ok rq S1"
    using q(3) S1(4) by (cases rq) auto
  ultimately have o1: "opened S1 rq s t b e f"
    using o(2) S1(2,4) by (auto simp: opened_def)
  obtain S2 where S2: "ms_push_up b S1 = Some S2" "pool_ok S2" "own S2 rq s t (Br b e f)" "used S2 = used S1" "frame {} {b} S1 S2" "mg_tot S2 = mg_tot S1"
    using opened_push_up [OF o1] by blast
  have "own S2 rp s t (Br a l u)"
    by (rule own_frame [OF S1(3) S2(5)]) (use o(3,4) S1(3,4) S2(4) owner_used [of rp S1] in \<open>auto simp: own_def\<close>)
  moreover have "frame {} {a, b} S S2"
    by (rule frame_trans [OF S1(5) S2(5)]) (use S1(4) in auto)
  ultimately show ?thesis
    using S1(1,4,6) S2 opened_deref [OF o(1)] opened_deref [OF o1] by auto
qed

lemma ms_split_disjoint: "t < lo \<or> hi < s \<Longrightarrow> ms_split rp rq s t lo hi S = Some S"
  by (simp add: ms_split.simps)

lemma ms_split_partial:
  assumes "\<not> (t < lo \<or> hi < s)" and "\<not> (lo \<le> s \<and> t \<le> hi)" and "ms_deref rp S = Some p" and "p \<noteq> 0" and "ms_touch rq S = Some S1"
    and "ms_deref rp S1 = Some p" and "ms_deref rq S1 = Some q" and "ms_split (LsRef p) (LsRef q) s (mid s t) lo hi S1 = Some S2"
    and "ms_deref rp S2 = Some p" and "ms_deref rq S2 = Some q" and "ms_split (RsRef p) (RsRef q) (mid s t + 1) t lo hi S2 = Some S3"
  shows "ms_split rp rq s t lo hi S = (do { p \<leftarrow> ms_deref rp S3; S \<leftarrow> ms_push_up p S3; q \<leftarrow> ms_deref rq S; ms_push_up q S })"
proof -
  have "(if lo \<le> mid s t then do { p \<leftarrow> ms_deref rp S1; q \<leftarrow> ms_deref rq S1; ms_split (LsRef p) (LsRef q) s (mid s t) lo hi S1 } else Some S1) = Some S2"
    using assms(6-8) ms_split_disjoint [of "mid s t" lo] by auto
  moreover have "(if mid s t < hi then do { p \<leftarrow> ms_deref rp S2; q \<leftarrow> ms_deref rq S2; ms_split (RsRef p) (RsRef q) (mid s t + 1) t lo hi S2 } else Some S2) = Some S3"
    using assms(9-11) ms_split_disjoint [of t lo hi "mid s t + 1"] by auto
  ultimately show ?thesis
    using assms(1-5) by (subst ms_split.simps) (auto simp: Let_def simp del: One_nat_def)
qed

lemma splitted_node:
  assumes "both S1 rp rq s t a l u b Nil_t Nil_t" and "frame {rq} {} S S1" and "used S1 = insert b (used S)" and "b \<notin> used S"
    and "splitted S1 (LsRef a) (LsRef b) lo hi s (mid s t) l c1 S2 l' e" and "splitted S2 (RsRef a) (RsRef b) lo hi (mid s t + 1) t u c2 S3 u' f"
    and "frame {} {a, b} S3 S4" and "pool_ok S4" and "own S4 rp s t (Br a l' u')" and "own S4 rq s t (Br b e f)" and "used S4 = used S3" and "mg_tot S4 = mg_tot S3"
    and "mg_tot S1 \<le> mg_tot S + 1" and "1 + c1 + c2 \<le> c" and "a \<in> used S" and "dt_addrs (Br a l' u') \<inter> dt_addrs (Br b e f) = {}"
  shows "splitted S rp rq lo hi s t (Br a l u) c S4 (Br a l' u') (Br b e f)"
proof -
  have 1: "used S2 = used S1 \<union> dt_addrs l' \<union> dt_addrs e" "(dt_addrs l' \<union> dt_addrs e) \<inter> used S1 = dt_addrs l" "mg_tot S2 \<le> mg_tot S1 + c1"
    "\<And>i. dt_val s (mid s t) l' i = (if lo \<le> i \<and> i \<le> hi then 0 else dt_val s (mid s t) l i)"
    "\<And>i. dt_val s (mid s t) e i = (if lo \<le> i \<and> i \<le> hi then dt_val s (mid s t) l i else 0)"
    using assms(5) by (simp_all add: splitted_def)
  have 2: "used S3 = used S2 \<union> dt_addrs u' \<union> dt_addrs f" "(dt_addrs u' \<union> dt_addrs f) \<inter> used S2 = dt_addrs u" "mg_tot S3 \<le> mg_tot S2 + c2"
    "\<And>i. dt_val (mid s t + 1) t u' i = (if lo \<le> i \<and> i \<le> hi then 0 else dt_val (mid s t + 1) t u i)"
    "\<And>i. dt_val (mid s t + 1) t f i = (if lo \<le> i \<and> i \<le> hi then dt_val (mid s t + 1) t u i else 0)"
    using assms(6) by (simp_all add: splitted_def)
  have sub: "dt_addrs l \<subseteq> used S1" "dt_addrs u \<subseteq> used S1" "b \<notin> dt_addrs l" "b \<notin> dt_addrs u"
    using assms(1) by (auto simp: both_def opened_def own_def)
  have "frame {rp, rq} (dt_addrs (Br a l u)) S S2"
    by (rule frame_trans [OF assms(2) side_kept(3) [OF assms(5), of a b]]) (use assms(3,4) in auto)
  then have "frame {rp, rq} (dt_addrs (Br a l u)) S S3"
    by (rule frame_trans [OF _ side_kept(3) [OF assms(6), of a b]]) (use assms(3,4) 1(1) in auto)
  then have fr: "frame {rp, rq} (dt_addrs (Br a l u)) S S4"
    by (rule frame_trans [OF _ assms(7)]) (use assms(3,4) 1(1) 2(1) in auto)
  have us: "used S4 = used S \<union> dt_addrs (Br a l' u') \<union> dt_addrs (Br b e f)"
    using assms(3,11,15) 1(1) 2(1) by auto
  have le: "dt_addrs l \<subseteq> used S" "dt_addrs u \<subseteq> used S" "used S \<subseteq> used S1" "used S \<subseteq> used S2"
    using sub assms(3) 1(1) by auto
  have "(dt_addrs l' \<union> dt_addrs e) \<inter> used S = dt_addrs l"
    using 1(2) le(1,3) by blast
  moreover have "(dt_addrs u' \<union> dt_addrs f) \<inter> used S = dt_addrs u"
    using 2(2) le(2,4) by blast
  ultimately have new: "(dt_addrs (Br a l' u') \<union> dt_addrs (Br b e f)) \<inter> used S = dt_addrs (Br a l u)"
    using assms(4,15) unfolding dt_addrs.simps by blast
  show ?thesis
    using fr us new assms(8-10,12-14,16) 1(3-5) 2(3-5) unfolding splitted_def by simp
qed


lemma both_start:
  assumes "pool_ok S" and "own S rp s t (Br a l u)" and "rp \<noteq> rq" and "owner rq \<inter> dt_addrs (Br a l u) = {}" and "grown S rq s t Nil_t 1 S1 (Br b Nil_t Nil_t)"
  shows "both S1 rp rq s t a l u b Nil_t Nil_t" "b \<notin> used S" "used S1 = insert b (used S)" "frame {rq} {} S S1"
proof -
  have g: "pool_ok S1" "own S1 rq s t (Br b Nil_t Nil_t)" "used S1 = insert b (used S)" "b \<notin> used S" "frame {rq} {} S S1"
    using assms(5) by (auto simp: grown_def)
  have o: "ref_ok rp S" "dt_addrs (Br a l u) \<subseteq> used S" "owner rp \<inter> dt_addrs (Br a l u) = {}" "owner rp \<subseteq> used S"
    using assms(2) owner_used by (auto simp: own_def)
  have "own S1 rp s t (Br a l u)"
    by (rule own_frame [OF assms(2) g(5)]) (use assms(3,4) o(2,4) g(3) in auto)
  then have "opened S1 rp s t a l u"
    by (rule own_opened [OF g(1)])
  moreover have "opened S1 rq s t b Nil_t Nil_t"
    by (rule own_opened [OF g(1,2)])
  moreover have "owner rq \<inter> {b} = {}"
    using g(2) by (simp add: own_def)
  moreover have "b \<notin> owner rp" "b \<notin> dt_addrs (Br a l u)"
    using o(2,4) g(4) by auto
  ultimately show "both S1 rp rq s t a l u b Nil_t Nil_t"
    using assms(3,4) o(3) by (auto simp: both_def)
qed (use assms(5) in \<open>auto simp: grown_def\<close>)

lemma ms_split_ok:
  assumes "pool_ok S" and "own S rp s t d" and "own S rq s t Nil_t" and "rp \<noteq> rq" and "owner rq \<inter> dt_addrs d = {}"
    and "t - s < 2 ^ k" and "mg_tot S + cost lo hi s t k < ms_pool"
  shows "\<exists>S' d' e'. ms_split rp rq s t lo hi S = Some S' \<and> splitted S rp rq lo hi s t d (cost lo hi s t k) S' d' e'"
  using assms
proof (induction k arbitrary: S rp rq s t d rule: less_induct)
  case (less k)
  have o: "ref_ok rp S" "dt_at (mg_t S) d (loc rp S)" "dt_shape s t d" "s \<le> t"
    using less.prems(2) shape_le by (auto simp: own_def)
  note dp = deref_loc [OF o(1) less.prems(1)]
  consider "t < lo \<or> hi < s" | "\<not> (t < lo \<or> hi < s)" "d = Nil_t" | "\<not> (t < lo \<or> hi < s)" "d \<noteq> Nil_t" "lo \<le> s \<and> t \<le> hi"
    | "\<not> (t < lo \<or> hi < s)" "d \<noteq> Nil_t" "\<not> (lo \<le> s \<and> t \<le> hi)"
    by blast
  then show ?case
  proof cases
    case 1
    have "splitted S rp rq lo hi s t d (cost lo hi s t k) S d Nil_t"
      using 1 by (intro splitted_none less.prems(1-3) dt_val_outside [OF o(3)]) auto
    then show ?thesis
      using ms_split_disjoint [OF 1] by blast
  next
    case 2
    have "splitted S rp rq lo hi s t d (cost lo hi s t k) S d Nil_t"
      using 2 by (intro splitted_none less.prems(1-3)) auto
    moreover have "ms_split rp rq s t lo hi S = Some S"
      using 2 o(2) dp by (subst ms_split.simps) simp
    ultimately show ?thesis
      by blast
  next
    case 3
    obtain S' where "(do { S \<leftarrow> ms_assign rq (loc rp S) S; ms_assign rp 0 S }) = Some S'" "splitted S rp rq lo hi s t d (cost lo hi s t k) S' Nil_t d"
    proof -
      have "dt_val s t d i = 0" if "\<not> (lo \<le> i \<and> i \<le> hi)" for i
        using dt_val_outside [OF o(3), of i] 3(3) that by auto
      then show ?thesis
        using splitted_all [OF less.prems(1-5), of lo hi "cost lo hi s t k"] that by blast
    qed
    moreover have "loc rp S \<noteq> 0"
      using dt_at_root [OF o(2)] 3(2) by auto
    then have "ms_split rp rq s t lo hi S = (do { S \<leftarrow> ms_assign rq (loc rp S) S; ms_assign rp 0 S })"
      using 3 dp by (subst ms_split.simps) simp
    ultimately show ?thesis
      by auto
  next
    case 4
    have st: "s < t"
      using 4 o(4) by auto
    then obtain a l u where d: "d = Br a l u"
      using 4(2) o(3) by (cases d) auto
    obtain j where j: "k = Suc j" "mid s t - s < 2 ^ j" "t - (mid s t + 1) < 2 ^ j" "s \<le> mid s t" "mid s t < t" "j < k"
      using less.prems(6) mid_size [of t s] st by (cases k) auto
    note c = cost_halves [OF j(4,5) 4(1,3), of j]
    have lim: "mg_tot S + cost lo hi s t (Suc j) < ms_pool"
      using less.prems(7) j(1) by simp
    obtain S1 d1 b where "ms_touch rq S = Some S1" "grown S rq s t Nil_t 1 S1 d1" "d1 = (if s = t then Lf b 0 else Br b Nil_t Nil_t)"
      using ms_touch_ok [OF less.prems(1,3)] less.prems(7) c j(1) by auto
    then have S1: "ms_touch rq S = Some S1" "grown S rq s t Nil_t 1 S1 (Br b Nil_t Nil_t)"
      using st by auto
    note b1 = both_start [OF less.prems(1) less.prems(2) [unfolded d] less.prems(4) less.prems(5) [unfolded d] S1(2)]
    have o1: "pool_ok S1" "own S1 (LsRef a) s (mid s t) l" "own S1 (LsRef b) s (mid s t) Nil_t" "LsRef a \<noteq> LsRef b" "owner (LsRef b) \<inter> dt_addrs l = {}"
      "opened S1 rp s t a l u" "opened S1 rq s t b Nil_t Nil_t"
      using b1(1) by (auto simp: both_def opened_def)
    have tot1: "mg_tot S1 \<le> mg_tot S + 1"
      using S1(2) by (simp add: grown_def)
    have "mg_tot S1 + cost lo hi s (mid s t) j < ms_pool"
      using c tot1 lim by linarith
    then obtain S2 l' e where S2: "ms_split (LsRef a) (LsRef b) s (mid s t) lo hi S1 = Some S2"
      "splitted S1 (LsRef a) (LsRef b) lo hi s (mid s t) l (cost lo hi s (mid s t) j) S2 l' e"
      using less.IH [OF j(6) o1(1-5) j(2)] by blast
    note b2 = both_left [OF b1(1) S2(2)]
    have o2: "pool_ok S2" "own S2 (RsRef a) (mid s t + 1) t u" "own S2 (RsRef b) (mid s t + 1) t Nil_t" "RsRef a \<noteq> RsRef b" "owner (RsRef b) \<inter> dt_addrs u = {}"
      "opened S2 rp s t a l' u" "opened S2 rq s t b e Nil_t"
      using b2 by (auto simp: both_def opened_def)
    have "mg_tot S2 \<le> mg_tot S1 + cost lo hi s (mid s t) j"
      using S2(2) by (simp add: splitted_def)
    then have "mg_tot S2 + cost lo hi (mid s t + 1) t j < ms_pool"
      using c tot1 lim by linarith
    then obtain S3 u' f where S3: "ms_split (RsRef a) (RsRef b) (mid s t + 1) t lo hi S2 = Some S3"
      "splitted S2 (RsRef a) (RsRef b) lo hi (mid s t + 1) t u (cost lo hi (mid s t + 1) t j) S3 u' f"
      using less.IH [OF j(6) o2(1-5) j(3)] by blast
    note b3 = both_right [OF b2 S3(2)]
    obtain S4 where S4: "(do { p \<leftarrow> ms_deref rp S3; S \<leftarrow> ms_push_up p S3; q \<leftarrow> ms_deref rq S; ms_push_up q S }) = Some S4" "pool_ok S4"
      "own S4 rp s t (Br a l' u')" "own S4 rq s t (Br b e f)" "used S4 = used S3" "frame {} {a, b} S3 S4" "mg_tot S4 = mg_tot S3"
      using both_push_up [OF b3] by blast
    have "ms_split rp rq s t lo hi S = Some S4"
      using ms_split_partial [OF 4(1,3) _ _ S1(1) opened_deref [OF o1(6)] opened_deref [OF o1(7)] S2(1) opened_deref [OF o2(6)] opened_deref [OF o2(7)] S3(1)]
        S4(1) dp o(2) d by simp
    moreover have "splitted S rp rq lo hi s t d (cost lo hi s t k) S4 (Br a l' u') (Br b e f)"
      unfolding d j(1)
      by (rule splitted_node [OF b1(1,4,3,2) S2(2) S3(2) S4(6,2,3,4,5,7) tot1 c])
        (use less.prems(2) d b3 in \<open>auto simp: own_def both_def\<close>)
    ultimately show ?thesis
      by blast
  qed
qed


section \<open>Queries\<close>

lemma ms_query_ok:
  assumes "pool_ok S" and "ms_tree S p s t d" and "lo \<le> t" and "s \<le> hi" and "lo \<le> hi"
  shows "ms_query lo hi s t p S = Some (\<Sum>i \<in> {s..t} \<inter> {lo..hi}. dt_val s t d i)"
  using assms
proof (induction d arbitrary: p s t)
  case Nil_t
  then show ?case
    by (subst ms_query.simps) (simp add: ms_tree_def)
next
  case (Lf a v)
  then have "p = a" "a \<noteq> 0" "a \<in> used S" "s = t" "mg_t S a = \<lparr>ms_sum = v, ms_ls = 0, ms_rs = 0\<rparr>"
    by (auto simp: ms_tree_def)
  then show ?case
    using Lf.prems(1,3,4) used_bounds [of a S] by (subst ms_query.simps) auto
next
  case (Br a l u)
  note A = Br.prems(2) [unfolded tree_Br]
  have a: "a < ms_pool" "a \<noteq> 0" "p = a" "s < t" "dt_shape s t (Br a l u)"
    using A used_bounds [OF _ Br.prems(1)] Br.prems(2) by (auto simp: ms_tree_def)
  let ?f = "dt_val s t (Br a l u)"
  show ?case
  proof (cases "lo \<le> s \<and> t \<le> hi")
    case True
    have "{s..t} \<inter> {lo..hi} = {s..t}"
      using True by auto
    then have "(\<Sum>i \<in> {s..t} \<inter> {lo..hi}. ?f i) = ms_sum (mg_t S a)"
      using A dt_sum_val [OF a(5)] by simp
    then show ?thesis
      using True a by (subst ms_query.simps) simp
  next
    case False
    have left: "(if lo \<le> mid s t then ms_query lo hi s (mid s t) (ms_ls (mg_t S a)) S else Some 0) = Some (\<Sum>i \<in> {s..mid s t} \<inter> {lo..hi}. ?f i)"
      using Br.IH(1) [OF Br.prems(1), of "ms_ls (mg_t S a)" s "mid s t"] A Br.prems(4,5) by (auto intro!: sum.cong)
    have right: "(if mid s t < hi then ms_query lo hi (mid s t + 1) t (ms_rs (mg_t S a)) S else Some 0) = Some (\<Sum>i \<in> {mid s t + 1..t} \<inter> {lo..hi}. ?f i)"
      using Br.IH(2) [OF Br.prems(1), of "ms_rs (mg_t S a)" "mid s t + 1" t] A Br.prems(3,5) by (auto intro!: sum.cong)
    have "{s..t} \<inter> {lo..hi} = ({s..mid s t} \<inter> {lo..hi}) \<union> ({mid s t + 1..t} \<inter> {lo..hi})"
      using a(4) by auto
    then have "(\<Sum>i \<in> {s..t} \<inter> {lo..hi}. ?f i) = (\<Sum>i \<in> {s..mid s t} \<inter> {lo..hi}. ?f i) + (\<Sum>i \<in> {mid s t + 1..t} \<inter> {lo..hi}. ?f i)"
      by (simp only:) (rule sum.union_disjoint, auto)
    moreover have q: "ms_query lo hi s t p S = (do {
        v \<leftarrow> (if lo \<le> mid s t then ms_query lo hi s (mid s t) (ms_ls (mg_t S a)) S else Some 0);
        w \<leftarrow> (if mid s t < hi then ms_query lo hi (mid s t + 1) t (ms_rs (mg_t S a)) S else Some 0);
        Some (v + w) })"
    proof -
      have no: "(lo \<le> s \<and> t \<le> hi) = False"
        using False by blast
      show ?thesis
        by (subst ms_query.simps) (simp only: no a(2,3) if_False Let_def ms_access(1) [OF a(1)] bind.simps)
    qed
    ultimately show ?thesis
      by (simp only: q left right bind.simps)
  qed
qed

text \<open>\<open>kth\<close> ends on every tree, whatever the sums are.\<close>

lemma child_root:
  assumes "pool_ok S" and "ms_tree S p s t d" and "s < t"
  shows "p < ms_pool" "ms_ls (mg_t S p) < ms_pool" "\<exists>l. ms_tree S (ms_ls (mg_t S p)) s (mid s t) l" "\<exists>u. ms_tree S (ms_rs (mg_t S p)) (mid s t + 1) t u"
proof -
  have nil: "ms_tree S 0 x y Nil_t" if "x \<le> y" for x y
    using that by (simp add: ms_tree_def)
  have "p < ms_pool \<and> (\<exists>l. ms_tree S (ms_ls (mg_t S p)) s (mid s t) l) \<and> (\<exists>u. ms_tree S (ms_rs (mg_t S p)) (mid s t + 1) t u)"
  proof (cases d)
    case Nil_t
    then have "p = 0" "mg_t S 0 = ms_zero"
      using assms(1,2) pool_ok_zero by (auto simp: ms_tree_def)
    then show ?thesis
      using nil [of s "mid s t"] nil [of "mid s t + 1" t] assms(3) by (auto intro: exI [of _ Nil_t])
  next
    case (Br a l u)
    then show ?thesis
      using assms(2) used_bounds [OF _ assms(1)] by (auto simp: tree_Br)
  qed (use assms(2,3) in \<open>simp add: ms_tree_def\<close>)
  then show "p < ms_pool" "\<exists>l. ms_tree S (ms_ls (mg_t S p)) s (mid s t) l" "\<exists>u. ms_tree S (ms_rs (mg_t S p)) (mid s t + 1) t u"
    by blast+
  then obtain l where l: "dt_at (mg_t S) l (ms_ls (mg_t S p))" "dt_addrs l \<subseteq> used S"
    by (auto simp: ms_tree_def)
  then show "ms_ls (mg_t S p) < ms_pool"
    using dt_at_root [OF l(1)] used_bounds [OF _ assms(1)] by auto
qed

lemma ms_kth_total:
  assumes "pool_ok S" and "ms_tree S p s t d"
  shows "\<exists>x. ms_kth s t k p S = Some x"
  using assms(2)
proof (induction "t - s" arbitrary: s t k p d rule: less_induct)
  case less
  show ?case
  proof (cases "s = t")
    case True
    then show ?thesis
      by (simp add: ms_kth.simps)
  next
    case False
    then have st: "s < t"
      using less.prems shape_le by (fastforce simp: ms_tree_def)
    note c = child_root [OF assms(1) less.prems st]
    have "mid s t - s < t - s" "t - (mid s t + 1) < t - s"
      using st by auto
    then have "\<exists>x. ms_kth s (mid s t) k' (ms_ls (mg_t S p)) S = Some x" "\<exists>x. ms_kth (mid s t + 1) t k' (ms_rs (mg_t S p)) S = Some x" for k'
      using less.hyps c(3,4) by blast+
    then show ?thesis
      using False c(1,2) by (subst ms_kth.simps) (simp add: Let_def)
  qed
qed

lemma sint_64: "- (2 ^ 63) \<le> x \<Longrightarrow> x < 2 ^ 63 \<Longrightarrow> sint (of_int x :: 64 word) = x"
  by (simp add: signed_of_int signed_take_bit_int_eq_self)

lemma ll_to_int_same: "- (2 ^ 31) \<le> x \<Longrightarrow> x < 2 ^ 31 \<Longrightarrow> ll_to_int x = x"
  by (simp add: ll_to_int_def signed_of_int signed_take_bit_int_eq_self)

lemma ms_kth_ok:
  fixes f :: "nat \<Rightarrow> int"
  assumes "pool_ok S" and "ms_tree S p s t d" and "\<And>i. s \<le> i \<Longrightarrow> i \<le> t \<Longrightarrow> dt_val s t d i = of_int (f i)" and "\<And>i. 0 \<le> f i" and "sum f {s..t} < 2 ^ 63"
    and "1 \<le> k" and "k < 2 ^ 31" and "k \<le> sum f {s..t}"
  shows "\<exists>x. ms_kth s t k p S = Some x \<and> s \<le> x \<and> x \<le> t \<and> sum f {s..<x} < k \<and> k \<le> sum f {s..x}"
  using assms(2,3,5-8)
proof (induction d arbitrary: p s t k)
  case Nil_t
  show ?case
  proof (cases "s = t")
    case True
    then show ?thesis
      using Nil_t by (subst ms_kth.simps) auto
  next
    case False
    have "sum f {s..t} = 0" if "\<forall>i \<in> {s..t}. f i = 0"
      using that by simp
    then obtain i where i: "s \<le> i" "i \<le> t" "f i \<noteq> 0"
      using Nil_t.prems(4,6) by fastforce
    have "f i \<le> sum f {s..t}"
      using i assms(4) by (intro member_le_sum) auto
    then have "sint (of_int (f i) :: 64 word) = f i"
      using Nil_t.prems(3) assms(4) [of i] by (intro sint_64) auto
    then show ?thesis
      using Nil_t.prems(2) [OF i(1,2)] i(3) by simp
  qed
next
  case (Lf a v)
  then show ?case
    by (subst ms_kth.simps) (auto simp: ms_tree_def)
next
  case (Br a l u)
  note A = Br.prems(1) [unfolded tree_Br]
  let ?m = "mid s t"
  have a: "a < ms_pool" "p = a" "s < t" "s \<le> ?m" "?m < t"
    using A used_bounds [OF _ assms(1)] by auto
  have fl: "dt_val s ?m l i = of_int (f i)" if "s \<le> i" "i \<le> ?m" for i
    using Br.prems(2) [of i] that a(5) by simp
  have fu: "dt_val (?m + 1) t u i = of_int (f i)" if "?m + 1 \<le> i" "i \<le> t" for i
    using Br.prems(2) [of i] that a(4) by simp
  have parts: "sum f {s..t} = sum f {s..?m} + sum f {?m + 1..t}"
    by (rule sum_mid [OF a(3)])
  have nonneg: "0 \<le> sum f B" for B
    by (intro sum_nonneg) (simp add: assms(4))
  have left: "ms_ls (mg_t S a) < ms_pool" "sint (ms_sum (mg_t S (ms_ls (mg_t S a)))) = sum f {s..?m}"
  proof -
    have at: "dt_at (mg_t S) l (ms_ls (mg_t S a))" "dt_addrs l \<subseteq> used S" "dt_shape s ?m l"
      using A by (auto simp: ms_tree_def)
    show "ms_ls (mg_t S a) < ms_pool"
      using dt_at_root [OF at(1)] at(2) used_bounds [OF _ assms(1)] by auto
    have "dt_sum l = of_int (sum f {s..?m})"
      using dt_sum_val [OF at(3)] fl by simp
    moreover have "ms_sum (mg_t S (ms_ls (mg_t S a))) = dt_sum l"
      by (rule dt_at_sum [OF at(1) pool_ok_zero [OF assms(1)]])
    ultimately show "sint (ms_sum (mg_t S (ms_ls (mg_t S a)))) = sum f {s..?m}"
      using nonneg [of "{s..?m}"] nonneg [of "{?m + 1..t}"] parts Br.prems(3) sint_64 [of "sum f {s..?m}"] by simp
  qed
  have run: "ms_kth s t k p S = (if k \<le> sum f {s..?m} then ms_kth s ?m k (ms_ls (mg_t S a)) S
      else ms_kth (?m + 1) t (ll_to_int (k - sum f {s..?m})) (ms_rs (mg_t S a)) S)"
    using a left by (subst ms_kth.simps) (simp add: Let_def)
  show ?case
  proof (cases "k \<le> sum f {s..?m}")
    case True
    have "sum f {s..?m} < 2 ^ 63"
      using parts nonneg [of "{?m + 1..t}"] Br.prems(3) by linarith
    then obtain x where "ms_kth s ?m k (ms_ls (mg_t S a)) S = Some x" "s \<le> x" "x \<le> ?m" "sum f {s..<x} < k" "k \<le> sum f {s..x}"
      using Br.IH(1) [of "ms_ls (mg_t S a)" s ?m k] A fl True Br.prems(4,5) by blast
    then show ?thesis
      using run True a(5) by (intro exI [of _ x]) simp
  next
    case False
    let ?k = "k - sum f {s..?m}"
    have k: "ll_to_int ?k = ?k" "1 \<le> ?k" "?k < 2 ^ 31" "?k \<le> sum f {?m + 1..t}" "sum f {?m + 1..t} < 2 ^ 63"
      using False nonneg [of "{s..?m}"] Br.prems(3-6) parts by (auto intro: ll_to_int_same)
    obtain x where x: "ms_kth (?m + 1) t ?k (ms_rs (mg_t S a)) S = Some x" "?m + 1 \<le> x" "x \<le> t"
      "sum f {?m + 1..<x} < ?k" "?k \<le> sum f {?m + 1..x}"
      using Br.IH(2) [of "ms_rs (mg_t S a)" "?m + 1" t ?k] A fu k by blast
    have "{s..x} = {s..?m} \<union> {?m + 1..x}" "{s..<x} = {s..?m} \<union> {?m + 1..<x}"
      using x(2) a(4) by auto
    then have "sum f {s..x} = sum f {s..?m} + sum f {?m + 1..x}" "sum f {s..<x} = sum f {s..?m} + sum f {?m + 1..<x}"
      by (simp_all only:) (rule sum.union_disjoint; auto)+
    then have "sum f {s..<x} < k" "k \<le> sum f {s..x}"
      using x(4,5) by linarith+
    moreover have "ms_kth s t k p S = Some x" "s \<le> x"
      using run False x(1,2) a(4) k(1) by auto
    ultimately show ?thesis
      using x(3) by blast
  qed
qed


section \<open>Bags of numbers\<close>

text \<open>How many sets were created so far, and the bag of each set in use: how often it has each number.\<close>

type_synonym bags = "nat \<times> (nat \<rightharpoonup> (nat \<Rightarrow> int))"

definition bag_of :: "bags \<Rightarrow> nat \<Rightarrow> nat \<Rightarrow> int" where
  "bag_of A p = the (snd A p)"

definition kth_ref :: "nat \<Rightarrow> (nat \<Rightarrow> int) \<Rightarrow> int \<Rightarrow> int" where
  "kth_ref n f k = (case find (\<lambda>x. k \<le> sum_list (map f [1..<x + 1])) [1..<n + 1] of Some x \<Rightarrow> int x | None \<Rightarrow> - 1)"

fun bags_ref :: "nat \<Rightarrow> bags \<Rightarrow> ms_op \<Rightarrow> bags \<times> int list" where
  "bags_ref n A (MSplit p x y) =
     ((fst A + 1, (snd A)(p \<mapsto> (\<lambda>i. if x \<le> i \<and> i \<le> y then 0 else bag_of A p i), fst A + 1 \<mapsto> (\<lambda>i. if x \<le> i \<and> i \<le> y then bag_of A p i else 0))), [])"
| "bags_ref n A (MMerge p t) = ((fst A, (snd A)(p \<mapsto> (\<lambda>i. bag_of A p i + bag_of A t i), t := None)), [])"
| "bags_ref n A (MUpdate p x q) = ((fst A, (snd A)(p \<mapsto> (bag_of A p)(q := bag_of A p q + x))), [])"
| "bags_ref n A (MQuery p x y) = (A, [sum_list (map (bag_of A p) [x..<y + 1])])"
| "bags_ref n A (MKth p k) = (A, [kth_ref n (bag_of A p) k])"

text \<open>A set that was merged into another one is not used again.\<close>

fun bags_ok :: "nat \<Rightarrow> bags \<Rightarrow> ms_op \<Rightarrow> bool" where
  "bags_ok n A (MSplit p x y) = (snd A p \<noteq> None)"
| "bags_ok n A (MMerge p t) = (snd A p \<noteq> None \<and> snd A t \<noteq> None \<and> p \<noteq> t)"
| "bags_ok n A (MUpdate p x q) = (snd A p \<noteq> None \<and> 1 \<le> q \<and> q \<le> n)"
| "bags_ok n A (MQuery p x y) = (snd A p \<noteq> None \<and> 1 \<le> x \<and> x \<le> y \<and> y \<le> n)"
| "bags_ok n A (MKth p k) = (snd A p \<noteq> None \<and> 1 \<le> k \<and> list_all (\<lambda>i. 0 \<le> bag_of A p i) [1..<n + 1])"

text \<open>
  The numbers fit: the counts of every set, before and after the operation, add up in absolute value to less than \<open>2 ^ 63\<close>, so that no sum of some of
  them overflows, and \<open>k\<close> is an \<open>int\<close>.
\<close>

definition bags_fit :: "nat \<Rightarrow> bags \<Rightarrow> bool" where
  "bags_fit n A = list_all (\<lambda>p. case snd A p of None \<Rightarrow> True | Some f \<Rightarrow> sum_list (map (\<lambda>i. \<bar>f i\<bar>) [1..<n + 1]) < 2 ^ 63) [1..<fst A + 1]"

definition op_fits :: "nat \<Rightarrow> bags \<Rightarrow> ms_op \<Rightarrow> bool" where
  "op_fits n A op = (bags_fit n A \<and> bags_fit n (fst (bags_ref n A op)) \<and> (case op of MKth p k \<Rightarrow> k < 2 ^ 31 | _ \<Rightarrow> True))"

section \<open>The program keeps the bags\<close>

text \<open>The counts as the program has them.\<close>

definition wbag :: "(nat \<Rightarrow> int) \<Rightarrow> nat \<Rightarrow> 64 word" where
  "wbag f i = of_int (f i)"

lemma wbag_upd: "wbag (f(q := v)) = (wbag f)(q := of_int v)"
  by (simp add: wbag_def fun_eq_iff)

text \<open>\<open>D\<close> has the trees of the sets in use.\<close>

definition bag_forest :: "nat \<Rightarrow> mseg \<Rightarrow> bags \<Rightarrow> (nat \<Rightarrow> dtree) \<Rightarrow> bool" where
  "bag_forest n S A D \<longleftrightarrow> pool_ok S \<and> mg_idx S = fst A \<and> (\<forall>p. fst A < p \<longrightarrow> mg_root S p = 0) \<and>
     (\<forall>p f. snd A p = Some f \<longrightarrow> own S (RootRef p) 1 n (D p) \<and> wbag f = dt_val 1 n (D p) \<and> 1 \<le> p \<and> p \<le> fst A) \<and>
     (\<forall>p f q g. snd A p = Some f \<longrightarrow> snd A q = Some g \<longrightarrow> p \<noteq> q \<longrightarrow> dt_addrs (D p) \<inter> dt_addrs (D q) = {})"

definition ms_stands :: "nat \<Rightarrow> nat \<Rightarrow> mseg \<Rightarrow> bags \<Rightarrow> bool" where
  "ms_stands n i S A \<longleftrightarrow> (\<exists>D. bag_forest n S A D) \<and> mg_tot S \<le> 2 * n + 36 * i \<and> fst A \<le> i + 1"

lemma forest_own: "bag_forest n S A D \<Longrightarrow> snd A p = Some f \<Longrightarrow> own S (RootRef p) 1 n (D p) \<and> wbag f = dt_val 1 n (D p) \<and> 1 \<le> p \<and> p \<le> fst A"
  unfolding bag_forest_def by blast

lemma forest_val: "bag_forest n S A D \<Longrightarrow> snd A p = Some f \<Longrightarrow> dt_val 1 n (D p) i = of_int (f i)"
  by (metis forest_own wbag_def)

lemma own_tree: "own S (RootRef p) s t d \<Longrightarrow> ms_tree S (mg_root S p) s t d"
  by (simp add: own_def ms_tree_def)

lemma forest_disjoint: "bag_forest n S A D \<Longrightarrow> snd A p = Some f \<Longrightarrow> snd A q = Some g \<Longrightarrow> p \<noteq> q \<Longrightarrow> dt_addrs (D p) \<inter> dt_addrs (D q) = {}"
  unfolding bag_forest_def by blast

text \<open>The sets an operation does not touch.\<close>

lemma forest_others:
  assumes "bag_forest n S A D" and "snd A q = Some g" and "frame R B S S'" and "RootRef q \<notin> R" and "\<And>r. r \<in> R \<Longrightarrow> owner r = {}"
    and "B \<inter> dt_addrs (D q) = {}" and "used S - B \<subseteq> used S'"
  shows "own S' (RootRef q) 1 n (D q)"
proof -
  have o: "own S (RootRef q) 1 n (D q)"
    using forest_own [OF assms(1,2)] by simp
  show ?thesis
    by (rule own_frame [OF o assms(3,4)]) (use assms(5-7) o in \<open>auto simp: own_def\<close>)
qed

text \<open>An operation on the sets \<open>P\<close>: it may change their roots and their nodes \<open>B\<close>.\<close>

lemma forest_step:
  assumes "bag_forest n S A D" and "pool_ok S'" and "mg_idx S' = i" and "fst A \<le> i" and "\<And>p. i < p \<Longrightarrow> mg_root S' p = 0"
    and fr: "frame R B S S'" "\<And>r. r \<in> R \<Longrightarrow> \<exists>p \<in> P. r = RootRef p" "used S - B \<subseteq> used S'"
    and B: "\<And>b. b \<in> B \<Longrightarrow> \<exists>p \<in> P. \<exists>f. snd A p = Some f \<and> b \<in> dt_addrs (D p)"
    and touched: "\<And>p f. p \<in> P \<Longrightarrow> M p = Some f \<Longrightarrow> own S' (RootRef p) 1 n (D' p) \<and> wbag f = dt_val 1 n (D' p) \<and> 1 \<le> p \<and> p \<le> i \<and> dt_addrs (D' p) \<inter> used S \<subseteq> B"
    and pairs: "\<And>p q f g. p \<in> P \<Longrightarrow> q \<in> P \<Longrightarrow> p \<noteq> q \<Longrightarrow> M p = Some f \<Longrightarrow> M q = Some g \<Longrightarrow> dt_addrs (D' p) \<inter> dt_addrs (D' q) = {}"
    and kept: "\<And>p. p \<notin> P \<Longrightarrow> M p = snd A p \<and> D' p = D p"
  shows "bag_forest n S' (i, M) D'"
proof -
  have out: "B \<inter> dt_addrs (D r) = {}" if r: "r \<notin> P" "snd A r = Some h" for r h
    using B forest_disjoint [OF assms(1) _ r(2)] r(1) by blast
  have own: "own S' (RootRef r) 1 n (D' r) \<and> wbag h = dt_val 1 n (D' r) \<and> 1 \<le> r \<and> r \<le> i" if h: "M r = Some h" for r h
  proof (cases "r \<in> P")
    case False
    have h': "snd A r = Some h"
      using kept [OF False] h by simp
    have "own S' (RootRef r) 1 n (D r)"
      by (rule forest_others [OF assms(1) h' fr(1)]) (use fr(2,3) False out [OF False h'] in fastforce)+
    then show ?thesis
      using forest_own [OF assms(1) h'] kept [OF False] assms(4) by auto
  qed (use touched h in blast)
  have far: "dt_addrs (D' p) \<inter> dt_addrs (D' r) = {}" if p: "p \<in> P" "M p = Some f" and r: "r \<notin> P" "M r = Some h" for p f r h
  proof -
    have h: "snd A r = Some h" "D' r = D r"
      using kept [OF r(1)] r(2) by simp_all
    have "dt_addrs (D r) \<subseteq> used S"
      using forest_own [OF assms(1) h(1)] by (simp add: own_def)
    moreover have "dt_addrs (D' p) \<inter> used S \<subseteq> B"
      using touched [OF p] by simp
    ultimately show ?thesis
      using out [OF r(1) h(1)] unfolding h(2) by blast
  qed
  have "dt_addrs (D' p) \<inter> dt_addrs (D' q) = {}" if "M p = Some f" "M q = Some g" "p \<noteq> q" for p f q g
  proof (cases "p \<in> P"; cases "q \<in> P")
    assume "p \<notin> P" "q \<notin> P"
    then show ?thesis
      using forest_disjoint [OF assms(1), of p f q g] kept that by simp
  qed (use pairs far that in \<open>blast+\<close>)
  then show ?thesis
    using assms(2,3,5) own unfolding bag_forest_def by auto
qed

lemma depth_18: "own S r 1 n d \<Longrightarrow> n \<le> 2 ^ 18 \<Longrightarrow> n - 1 < 2 ^ 18"
  by (auto simp: own_def dest: shape_le)

lemma ms_step_update:
  assumes "bag_forest n S A D" and "bags_ok n A (MUpdate p x q)" and "n \<le> 2 ^ 18" and "mg_tot S + 36 < ms_pool"
  shows "\<exists>S' D'. ms_step n S (MUpdate p x q) = Some (S', []) \<and> bag_forest n S' (fst (bags_ref n A (MUpdate p x q))) D' \<and> mg_tot S' \<le> mg_tot S + 36"
proof -
  obtain f where f: "snd A p = Some f"
    using assms(2) by auto
  note o = forest_own [OF assms(1) f]
  have ok: "pool_ok S" and q: "1 \<le> q" "q \<le> n" and room: "mg_tot S + 18 + 1 < ms_pool"
    using assms(1,2,4) by (simp_all add: bag_forest_def)
  obtain S' d where S': "ms_update q x 1 n (RootRef p) S = Some S'" "grown S (RootRef p) 1 n (D p) (18 + 1) S' d" "dt_val 1 n d = wbag (f(q := f q + x))"
    using ms_update_ok [OF ok _ depth_18 [OF _ assms(3)] room q, of "RootRef p" "D p"] o forest_val [OF assms(1) f, of q]
    unfolding wbag_upd by (metis of_int_add)
  have g: "pool_ok S'" "own S' (RootRef p) 1 n d" "used S' = used S \<union> dt_addrs d" "dt_addrs d \<inter> used S = dt_addrs (D p)" "frame {RootRef p} (dt_addrs (D p)) S S'"
    "mg_tot S' \<le> mg_tot S + 19"
    using S'(2) by (simp_all add: grown_def)
  have "bag_forest n S' (fst A, (snd A)(p \<mapsto> f(q := f q + x))) (D(p := d))"
  proof (rule forest_step [OF assms(1) g(1) _ _ _ g(5), of _ "{p}"])
    show "mg_idx S' = fst A"
      using g(5) assms(1) by (simp add: frame_def bag_forest_def)
    show "mg_root S' r = 0" if "fst A < r" for r
      using g(5) assms(1) that o by (simp add: frame_def bag_forest_def)
    show "own S' (RootRef r) 1 n ((D(p := d)) r) \<and> wbag h = dt_val 1 n ((D(p := d)) r) \<and> 1 \<le> r \<and> r \<le> fst A \<and> dt_addrs ((D(p := d)) r) \<inter> used S \<subseteq> dt_addrs (D p)"
      if "r \<in> {p}" "((snd A)(p \<mapsto> f(q := f q + x))) r = Some h" for r h
      using that g(2,4) o S'(3) by simp
  qed (use f g(3) in auto)
  then show ?thesis
    using S'(1) f g(6) by (auto simp: bag_of_def)
qed


lemma pool_ok_idx [simp]: "pool_ok (S\<lparr>mg_idx := i\<rparr>) = pool_ok S"
  by (simp add: pool_ok_def rubs_def)

lemma own_idx [simp]: "own (S\<lparr>mg_idx := i\<rparr>) r s t d = own S r s t d"
  by (cases r) (simp_all add: own_def)

lemma forest_new_idx: "bag_forest n S A D \<Longrightarrow> bag_forest n (S\<lparr>mg_idx := fst A + 1\<rparr>) (fst A + 1, snd A) D"
  unfolding bag_forest_def by (auto intro: le_SucI)

lemma ms_step_split:
  assumes "bag_forest n S A D" and "bags_ok n A (MSplit p x y)" and "n \<le> 2 ^ 18" and "mg_tot S + 36 < ms_pool" and "fst A + 1 < 4 * ms_N"
  shows "\<exists>S' D'. ms_step n S (MSplit p x y) = Some (S', []) \<and> bag_forest n S' (fst (bags_ref n A (MSplit p x y))) D' \<and> mg_tot S' \<le> mg_tot S + 36"
proof -
  obtain f where f: "snd A p = Some f"
    using assms(2) by auto
  let ?i = "fst A + 1"
  define S0 where "S0 = S\<lparr>mg_idx := ?i\<rparr>"
  have ok: "pool_ok S0" "used S0 = used S" "mg_idx S = fst A" "\<And>r. fst A < r \<Longrightarrow> mg_root S r = 0"
    using assms(1) by (auto simp: bag_forest_def S0_def)
  have o: "own S (RootRef p) 1 n (D p)" "wbag f = dt_val 1 n (D p)" "1 \<le> p" "p \<le> fst A"
    using forest_own [OF assms(1) f] by auto
  have o0: "own S0 (RootRef p) 1 n (D p)" "own S0 (RootRef ?i) 1 n Nil_t" "RootRef p \<noteq> RootRef ?i" "owner (RootRef ?i) \<inter> dt_addrs (D p) = {}"
    using o(1,4) ok(4) assms(5) shape_le by (auto simp: own_def S0_def)
  have c: "cost x y 1 n 18 \<le> 36"
    by (simp add: cost_def)
  have "mg_tot S0 + cost x y 1 n 18 < ms_pool"
    using c assms(4) by (simp add: S0_def)
  then obtain S' d e where S': "ms_split (RootRef p) (RootRef ?i) 1 n x y S0 = Some S'" "splitted S0 (RootRef p) (RootRef ?i) x y 1 n (D p) (cost x y 1 n 18) S' d e"
    using ms_split_ok [OF ok(1) o0 depth_18 [OF o(1) assms(3)]] by blast
  have g: "pool_ok S'" "own S' (RootRef p) 1 n d" "own S' (RootRef ?i) 1 n e" "dt_addrs d \<inter> dt_addrs e = {}" "used S' = used S \<union> dt_addrs d \<union> dt_addrs e"
    "(dt_addrs d \<union> dt_addrs e) \<inter> used S = dt_addrs (D p)" "frame {RootRef p, RootRef ?i} (dt_addrs (D p)) S0 S'" "mg_tot S' \<le> mg_tot S + cost x y 1 n 18"
    "\<And>j. wbag (\<lambda>j. if x \<le> j \<and> j \<le> y then 0 else f j) j = dt_val 1 n d j" "\<And>j. wbag (\<lambda>j. if x \<le> j \<and> j \<le> y then f j else 0) j = dt_val 1 n e j"
    using S'(2) ok(2) forest_val [OF assms(1) f] by (simp_all add: splitted_def S0_def wbag_def del: One_nat_def)
  let ?M = "(snd A)(p \<mapsto> (\<lambda>j. if x \<le> j \<and> j \<le> y then 0 else f j), ?i \<mapsto> (\<lambda>j. if x \<le> j \<and> j \<le> y then f j else 0))"
  have f0: "bag_forest n S0 (?i, snd A) D"
    unfolding S0_def by (rule forest_new_idx [OF assms(1)])
  have "bag_forest n S' (?i, ?M) (D(p := d, ?i := e))"
  proof (rule forest_step [OF f0 g(1) _ _ _ g(7), of _ "{p, ?i}"])
    show "mg_idx S' = ?i"
      using g(7) by (simp add: frame_def S0_def)
    show "mg_root S' r = 0" if "?i < r" for r
      using g(7) ok(4) that o(4) by (simp add: frame_def S0_def)
    show "own S' (RootRef r) 1 n ((D(p := d, ?i := e)) r) \<and> wbag h = dt_val 1 n ((D(p := d, ?i := e)) r) \<and> 1 \<le> r \<and> r \<le> ?i \<and>
        dt_addrs ((D(p := d, ?i := e)) r) \<inter> used S0 \<subseteq> dt_addrs (D p)"
      if "r \<in> {p, ?i}" "?M r = Some h" for r h
    proof (cases "r = ?i")
      case True
      then show ?thesis
        using that(2) g(3,6,10) ok(2) by auto
    next
      case False
      then show ?thesis
        using that o(3,4) g(2,6,9) ok(2) by auto
    qed
    show "dt_addrs ((D(p := d, ?i := e)) r) \<inter> dt_addrs ((D(p := d, ?i := e)) q) = {}" if "r \<in> {p, ?i}" "q \<in> {p, ?i}" "r \<noteq> q" for r q
      using that g(4) o(4) by auto
  qed (use f g(5) ok(2) in auto)
  moreover have bag: "bag_of A p = f"
    using f by (simp add: bag_of_def)
  ultimately have "bag_forest n S' (fst (bags_ref n A (MSplit p x y))) (D(p := d, ?i := e))"
    by (simp only: bags_ref.simps fst_conv bag)
  moreover have "ms_step n S (MSplit p x y) = Some (S', [])"
    using S'(1) ok(3) by (simp add: S0_def)
  ultimately show ?thesis
    using g(8) c le_trans add_left_mono by blast
qed


lemma ms_step_merge:
  assumes "bag_forest n S A D" and "bags_ok n A (MMerge p q)"
  shows "\<exists>S' D'. ms_step n S (MMerge p q) = Some (S', []) \<and> bag_forest n S' (fst (bags_ref n A (MMerge p q))) D' \<and> mg_tot S' \<le> mg_tot S + 36"
proof -
  obtain f g where fg: "snd A p = Some f" "snd A q = Some g" "p \<noteq> q"
    using assms(2) by auto
  have o: "own S (RootRef p) 1 n (D p)" "wbag f = dt_val 1 n (D p)" "1 \<le> p" "p \<le> fst A" "own S (RootRef q) 1 n (D q)" "wbag g = dt_val 1 n (D q)"
    "dt_addrs (D p) \<inter> dt_addrs (D q) = {}" "pool_ok S" "mg_idx S = fst A" "\<And>r. fst A < r \<Longrightarrow> mg_root S r = 0"
    using forest_own [OF assms(1) fg(1)] forest_own [OF assms(1) fg(2)] forest_disjoint [OF assms(1) fg] assms(1) by (auto simp: bag_forest_def)
  obtain v S1 d where S1: "ms_merge (mg_root S p) (mg_root S q) 1 n S = Some (v, S1)" "ms_merged S 1 n (D p) (D q) v S1 d"
    using ms_merge_ok [OF o(8) own_tree [OF o(1)] own_tree [OF o(5)] o(7)] by blast
  have m: "pool_ok S1" "ms_tree S1 v 1 n d" "dt_addrs d \<subseteq> dt_addrs (D p) \<union> dt_addrs (D q)" "used S1 = used S - (dt_addrs (D p) \<union> dt_addrs (D q) - dt_addrs d)"
    "frame {} (dt_addrs (D p) \<union> dt_addrs (D q)) S S1" "mg_tot S1 = mg_tot S" "\<And>i. wbag (\<lambda>i. f i + g i) i = dt_val 1 n d i"
    using S1(2) forest_val [OF assms(1) fg(1)] forest_val [OF assms(1) fg(2)] by (simp_all add: ms_merged_def wbag_def del: One_nat_def)
  have refs: "p < 4 * ms_N" "q < 4 * ms_N"
    using o(1,5) by (simp_all add: own_def)
  then have "ref_ok (RootRef p) S1"
    by simp
  then obtain S2 where S2: "ms_assign (RootRef p) v S1 = Some S2" "pool_ok S2" "used S2 = used S1" "loc (RootRef p) S2 = v" "frame {RootRef p} {} S1 S2" "mg_tot S2 = mg_tot S1"
    "\<forall>b. b \<notin> owner (RootRef p) \<longrightarrow> mg_t S2 b = mg_t S1 b"
    using assign_ok [OF _ m(1)] by blast
  have own: "own S2 (RootRef p) 1 n d"
    using m(2) S2(3,4,7) refs dt_at_frame [of d "mg_t S2" "mg_t S1"] by (auto simp: own_def ms_tree_def)
  let ?B = "dt_addrs (D p) \<union> dt_addrs (D q)"
  have fr: "frame {RootRef p} ?B S S2"
    by (rule frame_trans [OF m(5) S2(5)]) (use m(4) in auto)
  let ?M = "(snd A)(p \<mapsto> (\<lambda>i. f i + g i), q := None)"
  have "bag_forest n S2 (fst A, ?M) (D(p := d))"
  proof (rule forest_step [OF assms(1) S2(2) _ _ _ fr, of _ "{p, q}"])
    show "mg_idx S2 = fst A"
      using fr o(9) by (simp add: frame_def)
    show "mg_root S2 r = 0" if "fst A < r" for r
      using fr o(4,10) that by (simp add: frame_def)
    show "own S2 (RootRef r) 1 n ((D(p := d)) r) \<and> wbag h = dt_val 1 n ((D(p := d)) r) \<and> 1 \<le> r \<and> r \<le> fst A \<and> dt_addrs ((D(p := d)) r) \<inter> used S \<subseteq> ?B"
      if "r \<in> {p, q}" "?M r = Some h" for r h
      using that fg(3) own m(3,7) o(3,4) by (auto split: if_splits)
  qed (use fg m(4) S2(3) in \<open>auto split: if_splits\<close>)
  then show ?thesis
    using S1(1) S2(1,6) m(6) refs fg by (auto simp: bag_of_def)
qed


lemma sum_list_upto: "sum_list (map f [a..<b + 1]) = sum f {a..b}"
  by (simp only: sum_set_upt_conv_sum_list_nat [symmetric] set_upt Suc_eq_plus1 [symmetric] atLeastLessThanSuc_atLeastAtMost)

lemma abs_sum_part:
  fixes f :: "nat \<Rightarrow> int"
  assumes "sum_list (map (\<lambda>i. \<bar>f i\<bar>) [1..<n + 1]) < 2 ^ 63" and "B \<subseteq> {1..n}"
  shows "\<bar>sum f B\<bar> < 2 ^ 63"
proof -
  have "\<bar>sum f B\<bar> \<le> sum (\<lambda>i. \<bar>f i\<bar>) B"
    by (rule sum_abs)
  also have "\<dots> \<le> sum (\<lambda>i. \<bar>f i\<bar>) {1..n}"
    using assms(2) by (intro sum_mono2) auto
  finally show ?thesis
    using assms(1) unfolding sum_list_upto by simp
qed

lemma fits_bag:
  assumes "bag_forest n S A D" and "bags_fit n A" and "snd A p = Some f"
  shows "sum_list (map (\<lambda>i. \<bar>f i\<bar>) [1..<n + 1]) < 2 ^ 63"
proof -
  have "p \<in> set [1..<fst A + 1]"
    using forest_own [OF assms(1,3)] by auto
  then show ?thesis
    using assms(2,3) unfolding bags_fit_def list_all_iff by fastforce
qed

lemma ms_step_query:
  assumes "bag_forest n S A D" and "bags_ok n A (MQuery p x y)"
  shows "\<exists>v. ms_step n S (MQuery p x y) = Some (S, [v]) \<and> (bags_fit n A \<longrightarrow> [v] = snd (bags_ref n A (MQuery p x y)))"
proof -
  obtain f where f: "snd A p = Some f"
    using assms(2) by auto
  have o: "own S (RootRef p) 1 n (D p)" "wbag f = dt_val 1 n (D p)" "pool_ok S"
    using forest_own [OF assms(1) f] assms(1) by (auto simp: bag_forest_def)
  have "{1..n} \<inter> {x..y} = {x..y}"
    using assms(2) by auto
  then have "ms_query x y 1 n (mg_root S p) S = Some (of_int (sum f {x..y}))"
    using ms_query_ok [OF o(3) own_tree [OF o(1)], of x y] assms(2) forest_val [OF assms(1) f] by (simp del: One_nat_def)
  then have "ms_step n S (MQuery p x y) = Some (S, [sint (of_int (sum f {x..y}) :: 64 word)])"
    using f o(1) by (simp add: own_def)
  moreover have "sint (of_int (sum f {x..y}) :: 64 word) = sum f {x..y}" if "bags_fit n A"
    using abs_sum_part [OF fits_bag [OF assms(1) that f], of "{x..y}"] assms(2) by (intro sint_64) auto
  moreover have "snd (bags_ref n A (MQuery p x y)) = [sum f {x..y}]"
    using f sum_list_upto [of f x y] by (simp add: bag_of_def del: upt_Suc)
  ultimately show ?thesis
    by auto
qed

lemma find_first:
  assumes "a \<le> x" and "x \<le> n" and "P x" and "\<And>z. a \<le> z \<Longrightarrow> z < x \<Longrightarrow> \<not> P z"
  shows "find P [a..<n + 1] = Some x"
  using assms by (auto simp: find_Some_iff intro!: exI [of _ "x - a"] simp del: upt_Suc)

lemma kth_ref_at:
  fixes f :: "nat \<Rightarrow> int"
  assumes "\<And>i. 0 \<le> f i" and "1 \<le> x" and "x \<le> n" and "sum f {1..<x} < k" and "k \<le> sum f {1..x}"
  shows "kth_ref n f k = int x"
proof -
  have "\<not> k \<le> sum f {1..z}" if "1 \<le> z" "z < x" for z
  proof -
    have "sum f {1..z} \<le> sum f {1..<x}"
      using that assms(1) by (intro sum_mono2) auto
    then show ?thesis
      using assms(4) by linarith
  qed
  then have "find (\<lambda>x. k \<le> sum_list (map f [1..<x + 1])) [1..<n + 1] = Some x"
    unfolding sum_list_upto using assms(2,3,5) by (intro find_first) auto
  then show ?thesis
    by (simp add: kth_ref_def)
qed

lemma kth_ref_none:
  fixes f :: "nat \<Rightarrow> int"
  assumes "\<And>i. 0 \<le> f i" and "sum f {1..n} < k"
  shows "kth_ref n f k = - 1"
proof -
  have "sum f {1..x} \<le> sum f {1..n}" if "x \<le> n" for x
    using that assms(1) by (intro sum_mono2) auto
  then have "\<not> k \<le> sum f {1..x}" if "x \<le> n" for x
    using that assms(2) by fastforce
  then have "find (\<lambda>x. k \<le> sum_list (map f [1..<x + 1])) [1..<n + 1] = None"
    unfolding sum_list_upto by (auto simp: find_None_iff)
  then show ?thesis
    by (simp add: kth_ref_def)
qed

text \<open>Outside of the positions the bag does not matter.\<close>

lemma kth_ref_cong: "(\<And>i. 1 \<le> i \<Longrightarrow> i \<le> n \<Longrightarrow> f i = g i) \<Longrightarrow> kth_ref n f k = kth_ref n g k"
  unfolding kth_ref_def sum_list_upto
  by (intro arg_cong [of _ _ "case_option _ _"] find_cong) auto

lemma ms_step_kth:
  assumes "bag_forest n S A D" and "bags_ok n A (MKth p k)"
  shows "\<exists>v. ms_step n S (MKth p k) = Some (S, [v]) \<and> (op_fits n A (MKth p k) \<longrightarrow> [v] = snd (bags_ref n A (MKth p k)))"
proof -
  obtain f where f: "snd A p = Some f"
    using assms(2) by auto
  have o: "own S (RootRef p) 1 n (D p)" "wbag f = dt_val 1 n (D p)" "pool_ok S"
    using forest_own [OF assms(1) f] assms(1) by (auto simp: bag_forest_def)
  define g where "g i = (if 1 \<le> i \<and> i \<le> n then f i else 0)" for i
  have pos: "0 \<le> g i" for i
    using assms(2) f by (auto simp: g_def bag_of_def list_all_iff)
  have at: "dt_at (mg_t S) (D p) (mg_root S p)" "dt_addrs (D p) \<subseteq> used S" "dt_shape 1 n (D p)" "p < 4 * ms_N"
    using o(1) by (auto simp: own_def)
  have val: "dt_val 1 n (D p) i = of_int (g i)" if "1 \<le> i" "i \<le> n" for i
    using that forest_val [OF assms(1) f, of i] by (simp add: g_def)
  then have s: "ms_sum (mg_t S (mg_root S p)) = of_int (sum g {1..n})" "mg_root S p < ms_pool"
    using dt_at_sum [OF at(1) pool_ok_zero [OF o(3)]] dt_sum_val [OF at(3)] dt_at_root [OF at(1)] at(2) used_bounds [OF _ o(3)] by auto
  obtain x where x: "ms_kth 1 n k (mg_root S p) S = Some x"
    using ms_kth_total [OF o(3) own_tree [OF o(1)]] by blast
  have run: "ms_step n S (MKth p k) = Some (S, [if sint (ms_sum (mg_t S (mg_root S p))) < k then - 1 else int x])"
    using f at(4) s(2) x by simp
  have answer: "(if sint (ms_sum (mg_t S (mg_root S p))) < k then - 1 else int x) = kth_ref n g k" if fits: "op_fits n A (MKth p k)"
  proof -
    have fit: "bags_fit n A" "k < 2 ^ 31"
      using fits by (simp_all add: op_fits_def)
    have "sum_list (map (\<lambda>i. \<bar>g i\<bar>) [1..<n + 1]) = sum_list (map (\<lambda>i. \<bar>f i\<bar>) [1..<n + 1])"
      unfolding sum_list_upto by (rule sum.cong) (auto simp: g_def)
    then have small: "sum g {1..n} < 2 ^ 63"
      using abs_sum_part [of g n "{1..n}"] fits_bag [OF assms(1) fit(1) f] by auto
    have total: "sint (ms_sum (mg_t S (mg_root S p))) = sum g {1..n}"
      using s(1) small sum_nonneg [of "{1..n}" g] pos by (simp only: s(1)) (intro sint_64, auto)
    show ?thesis
    proof (cases "sum g {1..n} < k")
      case True
      then show ?thesis
        using kth_ref_none [OF pos] total by simp
    next
      case False
      then obtain y where "ms_kth 1 n k (mg_root S p) S = Some y" "1 \<le> y" "y \<le> n" "sum g {1..<y} < k" "k \<le> sum g {1..y}"
        using ms_kth_ok [OF o(3) own_tree [OF o(1)] val pos small _ fit(2)] assms(2) by auto
      then show ?thesis
        using kth_ref_at [where f = g and x = y and n = n and k = k, OF pos] x total False by simp
    qed
  qed
  have "kth_ref n g k = kth_ref n f k"
    by (rule kth_ref_cong) (simp add: g_def)
  then show ?thesis
    using run answer f by (auto simp: bag_of_def)
qed


lemma ms_step_ok:
  assumes "ms_stands n i S A" and "bags_ok n A op" and "n \<le> 2 ^ 18" and "2 * n + 36 * (i + 1) < ms_pool" and "i + 2 < 4 * ms_N"
  shows "\<exists>S' out. ms_step n S op = Some (S', out) \<and> ms_stands n (Suc i) S' (fst (bags_ref n A op)) \<and> (op_fits n A op \<longrightarrow> out = snd (bags_ref n A op))"
proof -
  obtain D where D: "bag_forest n S A D" "mg_tot S \<le> 2 * n + 36 * i" "fst A \<le> i + 1"
    using assms(1) by (auto simp: ms_stands_def)
  have room: "mg_tot S + 36 < ms_pool" "fst A + 1 < 4 * ms_N"
    using D(2,3) assms(4,5) by simp_all
  have change: ?thesis if r: "\<exists>S' D'. ms_step n S op = Some (S', []) \<and> bag_forest n S' (fst (bags_ref n A op)) D' \<and> mg_tot S' \<le> mg_tot S + 36"
    and e: "snd (bags_ref n A op) = []" "fst (fst (bags_ref n A op)) \<le> fst A + 1"
    using r e D(2,3) unfolding ms_stands_def by fastforce
  have look: ?thesis if "\<exists>v. ms_step n S op = Some (S, [v]) \<and> (op_fits n A op \<longrightarrow> [v] = snd (bags_ref n A op))" "fst (bags_ref n A op) = A"
    using that D unfolding ms_stands_def by auto
  show ?thesis
  proof (cases op)
    case (MSplit p x y)
    then show ?thesis
      using ms_step_split [OF D(1) _ assms(3) room] assms(2) by (intro change) auto
  next
    case (MMerge p q)
    then show ?thesis
      using ms_step_merge [OF D(1)] assms(2) by (intro change) auto
  next
    case (MUpdate p x q)
    then show ?thesis
      using ms_step_update [OF D(1) _ assms(3) room(1)] assms(2) by (intro change) auto
  next
    case (MQuery p x y)
    then show ?thesis
      using ms_step_query [OF D(1), of p x y] assms(2) by (intro look) (auto simp: op_fits_def)
  next
    case (MKth p k)
    then show ?thesis
      using ms_step_kth [OF D(1), of p k] assms(2) by (intro look) auto
  qed
qed

text \<open>The bags at the start: one set, with the numbers of the input.\<close>

definition first_bag :: "int list \<Rightarrow> bags" where
  "first_bag xs = (1, [1 \<mapsto> (\<lambda>i. if 1 \<le> i \<and> i \<le> length xs then xs ! (i - 1) else 0)])"

lemma ms_build_stands:
  assumes "xs \<noteq> []" and "2 * length xs < ms_pool"
  shows "\<exists>inp S. ms_build 1 (length xs) (RootRef 1) xs
      \<lparr>mg_t = (\<lambda>_. ms_zero), mg_root = (\<lambda>_. 0), mg_rub = (\<lambda>_. 0), mg_cnt = 0, mg_tot = 0, mg_idx = 1\<rparr> = Some (inp, S) \<and> ms_stands (length xs) 0 S (first_bag xs)"
proof -
  define S0 where "S0 = \<lparr>mg_t = (\<lambda>_. ms_zero), mg_root = (\<lambda>_. 0), mg_rub = (\<lambda>_. 0), mg_cnt = 0, mg_tot = 0, mg_idx = 1\<rparr>"
  let ?n = "length xs"
  have n: "1 \<le> ?n"
    using assms(1) by (cases xs) auto
  have "pool_ok S0" "own S0 (RootRef 1) 1 ?n Nil_t"
    using n by (auto simp: S0_def pool_ok_def rubs_def own_def ms_N_def)
  moreover have "mg_tot S0 + 2 * (?n - 1) + 1 < ms_pool" "?n - 1 < length xs"
    using n assms(2) by (simp_all add: S0_def)
  ultimately obtain S d where S: "ms_build 1 ?n (RootRef 1) xs S0 = Some (drop (?n + 1 - 1) xs, S)" "grown S0 (RootRef 1) 1 ?n Nil_t (2 * (?n - 1) + 1) S d"
    "\<forall>i. 1 \<le> i \<and> i \<le> ?n \<longrightarrow> dt_val 1 ?n d i = of_int (xs ! (i - 1))"
    using ms_build_ok [of S0 "RootRef 1" 1 ?n xs] by blast
  have g: "pool_ok S" "own S (RootRef 1) 1 ?n d" "frame {RootRef 1} {} S0 S" "mg_tot S \<le> 2 * (?n - 1) + 1"
    using S(2) by (simp_all add: grown_def S0_def)
  have "wbag (\<lambda>i. if 1 \<le> i \<and> i \<le> ?n then xs ! (i - 1) else 0) = dt_val 1 ?n d"
    using S(3) dt_val_outside [of 1 ?n d] g(2) by (auto simp: fun_eq_iff own_def wbag_def)
  then have "bag_forest ?n S (first_bag xs) (\<lambda>_. d)"
    using g(1-3) by (auto simp: bag_forest_def first_bag_def frame_def S0_def split: if_splits)
  then show ?thesis
    using S(1) g(4) n unfolding S0_def ms_stands_def by (auto simp: first_bag_def)
qed

lemma ms_step_room: "i < (ms_pool - 1 - 2 * n) div 36 \<Longrightarrow> 2 * n + 36 * (i + 1) < ms_pool \<and> i + 2 < 4 * ms_N"
  by (auto simp: ms_pool_def ms_N_def less_eq_div_iff_mult_less_eq simp flip: Suc_le_eq)

interpretation ms: counted_program "ms_step n" "bags_ref n" "\<lambda>A op. bags_ok n A op \<and> op_fits n A op" "\<lambda>i S A. n \<le> 2 ^ 18 \<and> ms_stands n i S A"
  "(ms_pool - 1 - 2 * n) div 36" for n
proof
  show "\<exists>S'. ms_step n S op = Some (S', snd (bags_ref n A op)) \<and> n \<le> 2 ^ 18 \<and> ms_stands n (Suc i) S' (fst (bags_ref n A op))"
    if st: "n \<le> 2 ^ 18 \<and> ms_stands n i S A" and ok: "bags_ok n A op \<and> op_fits n A op" and i: "i < (ms_pool - 1 - 2 * n) div 36" for i S A op
    using ms_step_ok [of n i S A op] ms_step_room [OF i] st ok by blast
qed

text \<open>The same without a look at the answers, and so without a bound on the numbers.\<close>

definition silent :: "('s \<Rightarrow> 'op \<Rightarrow> ('s \<times> 'out list) option) \<Rightarrow> 's \<Rightarrow> 'op \<Rightarrow> ('s \<times> 'out list) option" where
  "silent step s op = map_option (\<lambda>(s, out). (s, [])) (step s op)"

definition silent_ref :: "('a \<Rightarrow> 'op \<Rightarrow> 'a \<times> 'out list) \<Rightarrow> 'a \<Rightarrow> 'op \<Rightarrow> 'a \<times> 'out list" where
  "silent_ref ref a op = (fst (ref a op), [])"

lemma silent_loop: "map_option fst (query_loop (silent step) s ops) = map_option fst (query_loop step s ops)"
proof (induction ops arbitrary: s)
  case (Cons op ops)
  show ?case
  proof (cases "step s op")
    case (Some r)
    obtain s1 out where r: "r = (s1, out)" by force
    show ?thesis
      using Cons.IH [of s1] Some r by (cases "query_loop step s1 ops"; cases "query_loop (silent step) s1 ops") (auto simp: silent_def)
  qed (simp add: silent_def)
qed simp

lemma silent_refs:
  "all_ok ok (silent_ref ref) a ops = all_ok ok ref a ops" "ref_after (silent_ref ref) a ops = ref_after ref a ops"
  by (induction ops arbitrary: a) (simp_all add: silent_ref_def)

interpretation mss: counted_program "silent (ms_step n)" "silent_ref (bags_ref n)" "bags_ok n" "\<lambda>i S A. n \<le> 2 ^ 18 \<and> ms_stands n i S A"
  "(ms_pool - 1 - 2 * n) div 36" for n
proof
  show "\<exists>S'. silent (ms_step n) S op = Some (S', snd (silent_ref (bags_ref n) A op)) \<and> n \<le> 2 ^ 18 \<and> ms_stands n (Suc i) S' (fst (silent_ref (bags_ref n) A op))"
    if st: "n \<le> 2 ^ 18 \<and> ms_stands n i S A" and ok: "bags_ok n A op" and i: "i < (ms_pool - 1 - 2 * n) div 36" for i S A op
  proof -
    obtain S' out where "ms_step n S op = Some (S', out)" "ms_stands n (Suc i) S' (fst (bags_ref n A op))"
      using ms_step_ok [of n i S A op] ms_step_room [OF i] st ok by blast
    then show ?thesis
      using st by (simp add: silent_def silent_ref_def)
  qed
qed

lemma ms_main_start:
  assumes "xs \<noteq> []" and "2 * length xs + 36 * length ops < 6400320"
  shows "\<exists>S. ms_main xs ops = query_loop (ms_step (length xs)) S ops \<and> ms_stands (length xs) 0 S (first_bag xs) \<and>
    0 + length ops \<le> (ms_pool - 1 - 2 * length xs) div 36"
proof -
  have pool: "ms_pool = 6400320"
    by (simp add: ms_pool_def ms_N_def)
  obtain inp S where S: "ms_build 1 (length xs) (RootRef 1) xs
      \<lparr>mg_t = (\<lambda>_. ms_zero), mg_root = (\<lambda>_. 0), mg_rub = (\<lambda>_. 0), mg_cnt = 0, mg_tot = 0, mg_idx = 1\<rparr> = Some (inp, S)"
    "ms_stands (length xs) 0 S (first_bag xs)"
    using ms_build_stands [OF assms(1)] assms(2) pool by auto
  moreover have "0 + length ops \<le> (ms_pool - 1 - 2 * length xs) div 36"
    using assms(2) pool by (simp add: less_eq_div_iff_mult_less_eq)
  ultimately show ?thesis
    by (auto simp: ms_main_def)
qed

lemma ms_main_forest:
  assumes "xs \<noteq> []" and "length xs \<le> 262144" and "2 * length xs + 36 * length ops < 6400320"
    and "all_ok (bags_ok (length xs)) (bags_ref (length xs)) (first_bag xs) ops"
  shows "\<exists>S' out D. ms_main xs ops = Some (S', out) \<and> bag_forest (length xs) S' (ref_after (bags_ref (length xs)) (first_bag xs) ops) D"
proof -
  obtain S where S: "ms_main xs ops = query_loop (ms_step (length xs)) S ops" "ms_stands (length xs) 0 S (first_bag xs)"
      "0 + length ops \<le> (ms_pool - 1 - 2 * length xs) div 36"
    using ms_main_start [OF assms(1,3)] by blast
  obtain S' where S': "query_loop (silent (ms_step (length xs))) S ops = Some (S', ref_loop (silent_ref (bags_ref (length xs))) (first_bag xs) ops)"
    "ms_stands (length xs) (0 + length ops) S' (ref_after (bags_ref (length xs)) (first_bag xs) ops)"
    using mss.loop_counted [of "length xs" 0 S "first_bag xs" ops] S(2,3) assms(2,4) by (auto simp: silent_refs)
  have "map_option fst (query_loop (ms_step (length xs)) S ops) = Some S'"
    using silent_loop [of "ms_step (length xs)" S ops] S'(1) by simp
  then show ?thesis
    using S(1) S'(2) by (auto simp: ms_stands_def)
qed

text \<open>C15. For at most 262144 numbers and so many operations that \<open>2 * n + 36 * m < 6400320\<close>, \<open>seg_7.cpp\<close> ends without an access outside its arrays and
  prints what the bags of numbers say: how many numbers of a range a set has and its \<open>k\<close>-th smallest number, under splits, merges and insertions. (A set
  merged into another one is not used again; the \<open>k\<close>-th number is asked of bags without negative counts; the counts of a set always add up, in absolute
  value, to less than \<open>2 ^ 63\<close>, so that the 64-bit sums are exact.)\<close>

theorem merge_split_correct:
  assumes "xs \<noteq> []" and "length xs \<le> 262144" and "2 * length xs + 36 * length ops < 6400320"
    and "all_ok (\<lambda>A op. bags_ok (length xs) A op \<and> op_fits (length xs) A op) (bags_ref (length xs)) (first_bag xs) ops"
  shows "map_option snd (ms_main xs ops) = Some (ref_loop (bags_ref (length xs)) (first_bag xs) ops)"
proof -
  obtain S where S: "ms_main xs ops = query_loop (ms_step (length xs)) S ops" "ms_stands (length xs) 0 S (first_bag xs)"
      "0 + length ops \<le> (ms_pool - 1 - 2 * length xs) div 36"
    using ms_main_start [OF assms(1,3)] by blast
  then show ?thesis
    using ms.loop_counted [of "length xs" 0 S "first_bag xs" ops] assms(2,4) by auto
qed

theorem merge_split_correct_witness:
  "map_option snd (ms_main [0, 1, 0, 2, 3] [MQuery 1 2 4, MSplit 1 2 4, MQuery 1 1 5, MUpdate 2 5 1, MKth 2 6, MKth 1 9, MMerge 2 1, MKth 2 7]) = Some [3, 3, 2, - 1, 4]"
proof -
  let ?ops = "[MQuery 1 2 4, MSplit 1 2 4, MQuery 1 1 5, MUpdate 2 5 1, MKth 2 6, MKth 1 9, MMerge 2 1, MKth 2 7]"
  have l: "length [0, 1, 0, 2, 3 :: int] = 5"
    by simp
  have ok: "all_ok (\<lambda>A op. bags_ok 5 A op \<and> op_fits 5 A op) (bags_ref 5) (first_bag [0, 1, 0, 2, 3]) ?ops"
    by code_simp
  have val: "ref_loop (bags_ref 5) (first_bag [0, 1, 0, 2, 3]) ?ops = [3, 3, 2, - 1, 4]"
    by code_simp
  have "map_option snd (ms_main [0, 1, 0, 2, 3] ?ops) = Some (ref_loop (bags_ref 5) (first_bag [0, 1, 0, 2, 3]) ?ops)"
    by (rule merge_split_correct [of "[0, 1, 0, 2, 3]" ?ops, unfolded l]) (simp, simp, simp, rule ok)
  then show ?thesis
    by (simp only: val)
qed


text \<open>C16. Memory safety of the recycling in \<open>seg_7.cpp\<close>: after the same inputs, whatever the sizes of the counts, the root of each set in use leads to a tree of nodes; no node is in the trees
  of two sets, no node of a tree is 0 or on the stack \<open>rub\<close> of free nodes, the nodes on the stack are distinct, and all of them are zero.\<close>

theorem merge_split_no_sharing:
  assumes "xs \<noteq> []" and "length xs \<le> 262144" and "2 * length xs + 36 * length ops < 6400320"
    and "all_ok (bags_ok (length xs)) (bags_ref (length xs)) (first_bag xs) ops"
  shows "\<exists>S out D. ms_main xs ops = Some (S, out) \<and> distinct (rubs S) \<and> (\<forall>a \<in> set (rubs S). mg_t S a = ms_zero) \<and>
    (\<forall>p \<in> dom (snd (ref_after (bags_ref (length xs)) (first_bag xs) ops)). dt_at (mg_t S) (D p) (mg_root S p) \<and> linear (D p) \<and>
      dt_addrs (D p) \<inter> insert 0 (set (rubs S)) = {} \<and>
      (\<forall>q \<in> dom (snd (ref_after (bags_ref (length xs)) (first_bag xs) ops)). p \<noteq> q \<longrightarrow> dt_addrs (D p) \<inter> dt_addrs (D q) = {}))"
proof -
  let ?A = "ref_after (bags_ref (length xs)) (first_bag xs) ops"
  obtain S out D where S: "ms_main xs ops = Some (S, out)" "bag_forest (length xs) S ?A D"
    using ms_main_forest [OF assms] by blast
  have pool: "pool_ok S"
    using S(2) by (simp add: bag_forest_def)
  have free: "used S \<inter> insert 0 (set (rubs S)) = {}"
    by (auto simp: used_def)
  have own: "own S (RootRef p) 1 (length xs) (D p)" if "p \<in> dom (snd ?A)" for p
    using forest_own [OF S(2)] that by blast
  have dj: "dt_addrs (D p) \<inter> dt_addrs (D q) = {}" if "p \<in> dom (snd ?A)" "q \<in> dom (snd ?A)" "p \<noteq> q" for p q
    using forest_disjoint [OF S(2)] that by blast
  have "dt_at (mg_t S) (D p) (mg_root S p) \<and> linear (D p) \<and> dt_addrs (D p) \<inter> insert 0 (set (rubs S)) = {}" if "p \<in> dom (snd ?A)" for p
    using own [OF that] free unfolding own_def by auto
  moreover have "\<forall>a \<in> set (rubs S). mg_t S a = ms_zero" "distinct (rubs S)"
    using pool free by (auto simp: pool_ok_def)
  ultimately show ?thesis
    using S(1) dj by blast
qed

theorem merge_split_no_sharing_witness:
  "\<exists>S out D. ms_main [4, 0, 1] [MSplit 1 2 3, MMerge 2 1, MUpdate 2 1 1] = Some (S, out) \<and> dt_at (mg_t S) (D (2::nat)) (mg_root S 2) \<and> linear (D 2) \<and>
     dt_addrs (D 2) \<inter> set (rubs S) = {}"
proof -
  let ?ops = "[MSplit 1 2 3, MMerge 2 1, MUpdate 2 1 1]"
  have l: "length [4, 0, 1 :: int] = 3"
    by simp
  have ok: "all_ok (bags_ok 3) (bags_ref 3) (first_bag [4, 0, 1]) ?ops"
    by code_simp
  have "2 \<in> dom (snd (ref_after (bags_ref 3) (first_bag [4, 0, 1]) ?ops))"
    by (simp add: dom_def)
  moreover have "\<exists>S out D. ms_main [4, 0, 1] ?ops = Some (S, out) \<and> distinct (rubs S) \<and> (\<forall>a \<in> set (rubs S). mg_t S a = ms_zero) \<and>
    (\<forall>p \<in> dom (snd (ref_after (bags_ref 3) (first_bag [4, 0, 1]) ?ops)). dt_at (mg_t S) (D p) (mg_root S p) \<and> linear (D p) \<and>
      dt_addrs (D p) \<inter> insert 0 (set (rubs S)) = {} \<and>
      (\<forall>q \<in> dom (snd (ref_after (bags_ref 3) (first_bag [4, 0, 1]) ?ops)). p \<noteq> q \<longrightarrow> dt_addrs (D p) \<inter> dt_addrs (D q) = {}))"
    by (rule merge_split_no_sharing [of "[4, 0, 1]" ?ops, unfolded l]) (simp, simp, simp, rule ok)
  ultimately show ?thesis
    by fast
qed

end
