(* ===== verification/OrderedBag.thy ===== *)
theory OrderedBag
  imports Prelude "HOL-Library.Multiset"
begin

text \<open>
  The interface the order-statistics trees of the repository share (\<^verbatim>\<open>treap_1.cpp\<close>, \<^verbatim>\<open>leafy-tree_1.cpp\<close>,
  \<^verbatim>\<open>wblt_1.cpp\<close>): a program reads operations on a bag of numbers (insert, delete, rank, k-th
  smallest, predecessor, successor) and prints the answers. The reference implementation works
  on a sorted list; the locale has the law of one operation, and what follows for a whole input is
  proved once.
\<close>

section \<open>Operations on a sorted list\<close>

datatype bag_op = BInsert int | BDelete int | BRank int | BKth int | BPred int | BSucc int

fun ref_bag :: "int list \<Rightarrow> bag_op \<Rightarrow> int list \<times> int list" where
  "ref_bag xs (BInsert x) = (insort x xs, [])"
| "ref_bag xs (BDelete x) = (remove1 x xs, [])"
| "ref_bag xs (BRank x) = (xs, [int (length (filter (\<lambda>y. y < x) xs)) + 1])"
| "ref_bag xs (BKth k) = (xs, [xs ! nat (k - 1)])"
| "ref_bag xs (BPred x) = (xs, [last (filter (\<lambda>y. y < x) xs)])"
| "ref_bag xs (BSucc x) = (xs, [hd (filter (\<lambda>y. x < y) xs)])"

fun ref_bags :: "int list \<Rightarrow> bag_op list \<Rightarrow> int list \<times> int list" where
  "ref_bags xs [] = (xs, [])"
| "ref_bags xs (op # ops) =
     (let (xs1, out1) = ref_bag xs op; (xs2, out2) = ref_bags xs1 ops in (xs2, out1 @ out2))"

text \<open>The operations that have an answer on the bag at hand.\<close>

fun answered :: "int list \<Rightarrow> bag_op \<Rightarrow> bool" where
  "answered xs (BInsert x) = True"
| "answered xs (BDelete x) = (x \<in> set xs)"
| "answered xs (BRank x) = (x \<in> set xs)"
| "answered xs (BKth k) = (1 \<le> k \<and> k \<le> int (length xs))"
| "answered xs (BPred x) = (\<exists>y \<in> set xs. y < x)"
| "answered xs (BSucc x) = (\<exists>y \<in> set xs. x < y)"

fun inserted :: "bag_op \<Rightarrow> int option" where
  "inserted (BInsert x) = Some x"
| "inserted _ = None"

fun operand :: "bag_op \<Rightarrow> int" where
  "operand (BInsert x) = x"
| "operand (BDelete x) = x"
| "operand (BRank x) = x"
| "operand (BKth k) = k"
| "operand (BPred x) = x"
| "operand (BSucc x) = x"

text \<open>
  The operations a program is given: each has an answer and an operand of at most \<open>big\<close>, the largest number
  of the input type, and there are at most \<open>cap\<close> insertions of numbers below \<open>big\<close>.
\<close>

fun valid_input :: "nat \<Rightarrow> int \<Rightarrow> int list \<Rightarrow> bag_op list \<Rightarrow> bool" where
  "valid_input cap big xs [] = True"
| "valid_input cap big xs (op # ops) =
     (answered xs op \<and> operand op \<le> big \<and> (case inserted op of None \<Rightarrow> True | Some x \<Rightarrow> x < big \<and> 0 < cap) \<and>
      valid_input (case inserted op of None \<Rightarrow> cap | Some x \<Rightarrow> cap - 1) big (fst (ref_bag xs op)) ops)"

lemma valid_input_mono: "valid_input cap big xs ops \<Longrightarrow> cap \<le> cap' \<Longrightarrow> valid_input cap' big xs ops"
proof (induction ops arbitrary: cap cap' xs)
  case (Cons op ops)
  show ?case
    using Cons.prems Cons.IH [of "case inserted op of None \<Rightarrow> cap | Some x \<Rightarrow> cap - 1" _
        "case inserted op of None \<Rightarrow> cap' | Some x \<Rightarrow> cap' - 1"]
    by (auto split: option.splits)
qed simp

section \<open>The law of one operation\<close>

fun run_bag :: "('m \<Rightarrow> bag_op \<Rightarrow> ('m \<times> int list) option) \<Rightarrow> 'm \<Rightarrow> bag_op list \<Rightarrow> ('m \<times> int list) option" where
  "run_bag step m [] = Some (m, [])"
| "run_bag step m (op # ops) = do {
     (m1, out1) \<leftarrow> step m op;
     (m2, out2) \<leftarrow> run_bag step m1 ops;
     Some (m2, out1 @ out2)
   }"

text \<open>
  \<open>stands_for m cap xs\<close>: the state \<open>m\<close> holds the numbers \<open>xs\<close> in order and has room for \<open>cap\<close> more
  insertions; \<open>big\<close> bounds the numbers.
\<close>

locale ordered_bag =
  fixes step :: "'m \<Rightarrow> bag_op \<Rightarrow> ('m \<times> int list) option"
    and stands_for :: "'m \<Rightarrow> nat \<Rightarrow> int list \<Rightarrow> bool" and big :: int
  assumes sorted_elements: "stands_for m cap xs \<Longrightarrow> sorted xs"
    and insert_law: "stands_for m (Suc cap) xs \<Longrightarrow> x < big \<Longrightarrow>
      \<exists>m'. step m (BInsert x) = Some (m', []) \<and> stands_for m' cap (insort x xs)"
    and delete_law: "stands_for m cap xs \<Longrightarrow> x \<in> set xs \<Longrightarrow>
      \<exists>m'. step m (BDelete x) = Some (m', []) \<and> stands_for m' cap (remove1 x xs)"
    and query_law: "stands_for m cap xs \<Longrightarrow> answered xs op \<Longrightarrow> operand op \<le> big \<Longrightarrow>
      \<forall>x. op \<noteq> BInsert x \<and> op \<noteq> BDelete x \<Longrightarrow> step m op = Some (m, snd (ref_bag xs op))"
begin

lemma step_refines:
  assumes "stands_for m cap xs" and "answered xs op" and "operand op \<le> big"
    and "case inserted op of None \<Rightarrow> True | Some x \<Rightarrow> x < big \<and> 0 < cap"
  shows "\<exists>m'. step m op = Some (m', snd (ref_bag xs op)) \<and>
    stands_for m' (case inserted op of None \<Rightarrow> cap | Some x \<Rightarrow> cap - 1) (fst (ref_bag xs op))"
proof (cases op)
  case (BInsert x)
  then show ?thesis
    using insert_law [of m "cap - 1" xs x] assms by auto
next
  case (BDelete x)
  then show ?thesis
    using delete_law [of m cap xs x] assms by auto
qed (use assms query_law [of m cap xs op] in auto)

lemma run_refines:
  assumes "stands_for m cap xs" and "valid_input cap big xs ops"
  shows "\<exists>m' cap'. run_bag step m ops = Some (m', snd (ref_bags xs ops)) \<and> stands_for m' cap' (fst (ref_bags xs ops))"
  using assms
proof (induction ops arbitrary: m cap xs)
  case (Cons op ops)
  obtain m1 where m1: "step m op = Some (m1, snd (ref_bag xs op))"
      "stands_for m1 (case inserted op of None \<Rightarrow> cap | Some x \<Rightarrow> cap - 1) (fst (ref_bag xs op))"
    using step_refines [OF Cons.prems(1)] Cons.prems(2) by auto
  from Cons.IH [OF m1(2)] Cons.prems(2) m1(1) show ?case
    by (auto simp: split_def Let_def)
qed auto

end

section \<open>Sorted lists\<close>

lemma insort_below: "(\<And>y. y \<in> set ys \<Longrightarrow> x < y) \<Longrightarrow> insort x ys = x # ys" for x :: int
  by (cases ys) fastforce+

lemma insort_append:
  fixes x :: int
  shows "(\<And>y. y \<in> set ys \<Longrightarrow> x < y) \<Longrightarrow> insort x (xs @ ys) = insort x xs @ ys"
    and "(\<And>y. y \<in> set xs \<Longrightarrow> y < x) \<Longrightarrow> insort x (xs @ ys) = xs @ insort x ys"
proof -
  show "insort x (xs @ ys) = insort x xs @ ys" if "\<And>y. y \<in> set ys \<Longrightarrow> x < y"
    using that by (induction xs) (auto simp: insort_below)
  show "insort x (xs @ ys) = xs @ insort x ys" if "\<And>y. y \<in> set xs \<Longrightarrow> y < x"
    using that by (induction xs) fastforce+
qed

end
