(* ===== verification/Treap.thy ===== *)
theory Treap
  imports OrderedBag
begin

text \<open>
  The treap of \<^verbatim>\<open>treap/treap_1.cpp\<close>. A node index is modelled by the subtree below it, index 0 by
  \<open>Null\<close>, and a parameter \<open>int &k\<close> by the subtree before and after the call. A rotation without the child it
  needs has no result. \<open>rand()\<close> is a parameter: the i-th node gets the i-th random number.
\<close>

section \<open>The structure\<close>

datatype treap = Null | Nd (tr_l: treap) (tr_val: int) (tr_rnd: int) (tr_size: nat) (tr_w: nat) (tr_r: treap)
where
  "tr_l Null = Null"
| "tr_val Null = 0"
| "tr_rnd Null = 0"
| "tr_size Null = 0"
| "tr_w Null = 0"
| "tr_r Null = Null"

definition tr_pushup :: "treap \<Rightarrow> treap" where
  "tr_pushup x = (case x of Null \<Rightarrow> Null | Nd l v p s c r \<Rightarrow> Nd l v p (tr_size l + tr_size r + c) c r)"

definition lrotate :: "treap \<Rightarrow> treap option" where
  "lrotate k = (case k of
      Nd l v p s c (Nd ta tv tp ts tc tb) \<Rightarrow> Some (Nd (tr_pushup (Nd l v p s c ta)) tv tp s tc tb)
    | _ \<Rightarrow> None)"

definition rrotate :: "treap \<Rightarrow> treap option" where
  "rrotate k = (case k of
      Nd (Nd ta tv tp ts tc tb) v p s c r \<Rightarrow> Some (Nd ta tv tp s tc (tr_pushup (Nd tb v p s c r)))
    | _ \<Rightarrow> None)"

text \<open>\<open>insert\<close>; \<open>rd\<close> is what \<open>rand()\<close> returns if a node is made. The flag says whether one was made.\<close>

fun tr_insert :: "int \<Rightarrow> treap \<Rightarrow> int \<Rightarrow> (treap \<times> bool) option" where
  "tr_insert rd Null x = Some (Nd Null x rd 1 1 Null, True)"
| "tr_insert rd (Nd l v p s c r) x =
     (if v = x then Some (Nd l v p (s + 1) (c + 1) r, False)
      else if v < x then do {
        (r', made) \<leftarrow> tr_insert rd r x;
        let k = Nd l v p (s + 1) c r';
        k' \<leftarrow> (if tr_rnd r' < p then lrotate k else Some k);
        Some (k', made)
      }
      else do {
        (l', made) \<leftarrow> tr_insert rd l x;
        let k = Nd l' v p (s + 1) c r;
        k' \<leftarrow> (if tr_rnd l' < p then rrotate k else Some k);
        Some (k', made)
      })"

partial_function (option) tr_del :: "treap \<Rightarrow> int \<Rightarrow> (treap \<times> bool) option" where [code]:
  "tr_del k x =
     (case k of
        Null \<Rightarrow> Some (Null, False)
      | Nd l v p s c r \<Rightarrow>
          if v = x then
            (if c > 1 then Some (Nd l v p (s - 1) (c - 1) r, True)
             else if l = Null \<or> r = Null then Some (if l = Null then r else l, True)
             else if tr_rnd l < tr_rnd r then do { k' \<leftarrow> rrotate k; tr_del k' x }
             else do { k' \<leftarrow> lrotate k; tr_del k' x })
          else if v < x then do {
            (r', succ) \<leftarrow> tr_del r x;
            Some (Nd l v p (if succ then s - 1 else s) c r', succ)
          }
          else do {
            (l', succ) \<leftarrow> tr_del l x;
            Some (Nd l' v p (if succ then s - 1 else s) c r, succ)
          })"

fun queryrank :: "treap \<Rightarrow> int \<Rightarrow> int" where
  "queryrank Null x = 0"
| "queryrank (Nd l v p s c r) x =
     (if v = x then int (tr_size l) + 1
      else if x > v then int (tr_size l) + int c + queryrank r x
      else queryrank l x)"

fun querynum :: "treap \<Rightarrow> int \<Rightarrow> int" where
  "querynum Null x = 0"
| "querynum (Nd l v p s c r) x =
     (if x \<le> int (tr_size l) then querynum l x
      else if x > int (tr_size l) + int c then querynum r (x - int (tr_size l) - int c)
      else v)"

text \<open>\<open>querypre\<close> and \<open>querysub\<close> leave the node they found in \<open>ans\<close>.\<close>

fun querypre :: "treap \<Rightarrow> treap \<Rightarrow> int \<Rightarrow> treap" where
  "querypre ans Null x = ans"
| "querypre ans (Nd l v p s c r) x =
     (if v < x then querypre (Nd l v p s c r) r x else querypre ans l x)"

fun querysub :: "treap \<Rightarrow> treap \<Rightarrow> int \<Rightarrow> treap" where
  "querysub ans Null x = ans"
| "querysub ans (Nd l v p s c r) x =
     (if v > x then querysub (Nd l v p s c r) l x else querysub ans r x)"

text \<open>
  The state of the program: the root and the number of nodes made. The arrays have room for 100004
  nodes beside index 0. One turn of the loop of \<open>main\<close>, with what it prints.
\<close>

record treap_state =
  tr_rt :: treap
  tr_sz :: nat

fun tr_step :: "(nat \<Rightarrow> int) \<Rightarrow> treap_state \<Rightarrow> bag_op \<Rightarrow> (treap_state \<times> int list) option" where
  "tr_step rand T (BInsert x) = do {
     (k, made) \<leftarrow> tr_insert (rand (tr_sz T + 1)) (tr_rt T) x;
     assert (made \<longrightarrow> tr_sz T + 1 < 100005);
     Some (\<lparr>tr_rt = k, tr_sz = (if made then tr_sz T + 1 else tr_sz T)\<rparr>, [])
   }"
| "tr_step rand T (BDelete x) = do {
     (k, _) \<leftarrow> tr_del (tr_rt T) x;
     Some (T\<lparr>tr_rt := k\<rparr>, [])
   }"
| "tr_step rand T (BRank x) = Some (T, [queryrank (tr_rt T) x])"
| "tr_step rand T (BKth x) = Some (T, [querynum (tr_rt T) x])"
| "tr_step rand T (BPred x) = Some (T, [tr_val (querypre Null (tr_rt T) x)])"
| "tr_step rand T (BSucc x) = Some (T, [tr_val (querysub Null (tr_rt T) x)])"

definition tr_main :: "(nat \<Rightarrow> int) \<Rightarrow> bag_op list \<Rightarrow> (treap_state \<times> int list) option" where
  "tr_main rand ops = run_bag (tr_step rand) \<lparr>tr_rt = Null, tr_sz = 0\<rparr> ops"

section \<open>Invariants\<close>

fun tr_list :: "treap \<Rightarrow> int list" where
  "tr_list Null = []"
| "tr_list (Nd l v p s c r) = tr_list l @ replicate c v @ tr_list r"

fun tr_prios :: "treap \<Rightarrow> int set" where
  "tr_prios Null = {}"
| "tr_prios (Nd l v p s c r) = insert p (tr_prios l \<union> tr_prios r)"

fun tr_bst :: "treap \<Rightarrow> bool" where
  "tr_bst Null = True"
| "tr_bst (Nd l v p s c r) =
     ((\<forall>y \<in> set (tr_list l). y < v) \<and> (\<forall>y \<in> set (tr_list r). v < y) \<and> tr_bst l \<and> tr_bst r)"

fun tr_sized :: "treap \<Rightarrow> bool" where
  "tr_sized Null = True"
| "tr_sized (Nd l v p s c r) =
     (s = length (tr_list l) + c + length (tr_list r) \<and> 0 < c \<and> tr_sized l \<and> tr_sized r)"

fun tr_heap :: "treap \<Rightarrow> bool" where
  "tr_heap Null = True"
| "tr_heap (Nd l v p s c r) = ((\<forall>q \<in> tr_prios l \<union> tr_prios r. p \<le> q) \<and> tr_heap l \<and> tr_heap r)"

definition tr_ok :: "treap \<Rightarrow> bool" where
  "tr_ok t = (tr_bst t \<and> tr_sized t \<and> tr_heap t)"

lemma size_list: "tr_sized t \<Longrightarrow> tr_size t = length (tr_list t)"
  by (cases t) auto

lemma sorted_tr_list: "tr_bst t \<Longrightarrow> sorted (tr_list t)"
  by (induction t) (auto simp: sorted_append order.strict_implies_order, force)

lemma tr_list_nonempty: "tr_sized t \<Longrightarrow> t \<noteq> Null \<Longrightarrow> tr_list t \<noteq> []"
  by (cases t) auto

lemma tr_node_cases:
  obtains "t = Null" | l v p s c r where "t = Nd l v p s c r"
  by (cases t) auto

section \<open>Rotations\<close>

lemma lrotate_Nd:
  "lrotate (Nd l v p s c (Nd ta tv tp ts tc tb)) = Some (Nd (Nd l v p (tr_size l + tr_size ta + c) c ta) tv tp s tc tb)"
  by (simp add: lrotate_def tr_pushup_def)

lemma rrotate_Nd:
  "rrotate (Nd (Nd ta tv tp ts tc tb) v p s c r) = Some (Nd ta tv tp s tc (Nd tb v p (tr_size tb + tr_size r + c) c r))"
  by (simp add: rrotate_def tr_pushup_def)

lemma lrotate_keeps:
  assumes "tr_bst (Nd l v p s c (Nd ta tv tp ts tc tb))" and "tr_sized (Nd l v p s c (Nd ta tv tp ts tc tb))"
  shows "\<exists>k'. lrotate (Nd l v p s c (Nd ta tv tp ts tc tb)) = Some k' \<and> tr_bst k' \<and> tr_sized k' \<and>
    tr_list k' = tr_list (Nd l v p s c (Nd ta tv tp ts tc tb))"
  using assms by (fastforce simp: lrotate_Nd size_list)

lemma rrotate_keeps:
  assumes "tr_bst (Nd (Nd ta tv tp ts tc tb) v p s c r)" and "tr_sized (Nd (Nd ta tv tp ts tc tb) v p s c r)"
  shows "\<exists>k'. rrotate (Nd (Nd ta tv tp ts tc tb) v p s c r) = Some k' \<and> tr_bst k' \<and> tr_sized k' \<and>
    tr_list k' = tr_list (Nd (Nd ta tv tp ts tc tb) v p s c r)"
  using assms by (fastforce simp: rrotate_Nd size_list)

section \<open>Insertion\<close>

lemma tr_insert_list:
  assumes "tr_bst t" and "tr_sized t"
  shows "\<exists>t'. tr_insert rd t x = Some (t', x \<notin> set (tr_list t)) \<and> tr_bst t' \<and> tr_sized t' \<and> t' \<noteq> Null \<and>
    tr_list t' = insort x (tr_list t)"
  using assms
proof (induction t)
  case Null
  then show ?case
    by simp
next
  case (Nd l v p s c r)
  have b: "\<forall>y \<in> set (tr_list l). y < v" "\<forall>y \<in> set (tr_list r). v < y"
    using Nd.prems(1) by auto
  consider "v = x" | "v < x" | "x < v"
    by fastforce
  then show ?case
  proof cases
    case 1
    then have "insort x (tr_list (Nd l v p s c r)) = tr_list l @ replicate (Suc c) x @ tr_list r"
      using b Nd.prems(2) insort_append(2) [of "tr_list l" x "replicate c x @ tr_list r"]
      by (cases c) simp_all
    then show ?thesis
      using 1 Nd.prems by simp
  next
    case 2
    obtain ta tv tp ts tc tb where r': "tr_insert rd r x = Some (Nd ta tv tp ts tc tb, x \<notin> set (tr_list r))"
        "tr_bst (Nd ta tv tp ts tc tb)" "tr_sized (Nd ta tv tp ts tc tb)"
        "tr_list (Nd ta tv tp ts tc tb) = insort x (tr_list r)" (is "tr_list ?r = _")
      using Nd.IH(2) Nd.prems by (metis tr_bst.simps(2) tr_sized.simps(2) tr_node_cases)
    have new: "tr_list (Nd l v p (s + 1) c ?r) = insort x (tr_list (Nd l v p s c r))"
      using insort_append(2) [of "tr_list l @ replicate c v" x "tr_list r"] b(1) 2 r'(4) by fastforce
    have mem: "x \<in> set (tr_list (Nd l v p s c r)) \<longleftrightarrow> x \<in> set (tr_list r)"
      using b(1) 2 by fastforce
    have k: "tr_bst (Nd l v p (s + 1) c ?r)" "tr_sized (Nd l v p (s + 1) c ?r)"
      using r'(2-4) Nd.prems 2 b(2) arg_cong [OF r'(4), of set] arg_cong [OF r'(4), of length]
      by (simp_all add: set_insort_key)
    show ?thesis
      using 2 r'(1) mem new k lrotate_keeps [OF k] by (cases "tp < p") auto
  next
    case 3
    obtain ta tv tp ts tc tb where l': "tr_insert rd l x = Some (Nd ta tv tp ts tc tb, x \<notin> set (tr_list l))"
        "tr_bst (Nd ta tv tp ts tc tb)" "tr_sized (Nd ta tv tp ts tc tb)"
        "tr_list (Nd ta tv tp ts tc tb) = insort x (tr_list l)" (is "tr_list ?l = _")
      using Nd.IH(1) Nd.prems by (metis tr_bst.simps(2) tr_sized.simps(2) tr_node_cases)
    have new: "tr_list (Nd ?l v p (s + 1) c r) = insort x (tr_list (Nd l v p s c r))"
      using insort_append(1) [of "replicate c v @ tr_list r" x "tr_list l"] b(2) 3 l'(4) by fastforce
    have mem: "x \<in> set (tr_list (Nd l v p s c r)) \<longleftrightarrow> x \<in> set (tr_list l)"
      using b(2) 3 by fastforce
    have k: "tr_bst (Nd ?l v p (s + 1) c r)" "tr_sized (Nd ?l v p (s + 1) c r)"
      using l'(2-4) Nd.prems 3 b(1) arg_cong [OF l'(4), of set] arg_cong [OF l'(4), of length]
      by (simp_all add: set_insort_key)
    show ?thesis
      using 3 l'(1) mem new k rrotate_keeps [OF k] by (cases "tp < p") auto
  qed
qed

lemma heap_above: "tr_heap t \<Longrightarrow> t \<noteq> Null \<Longrightarrow> p \<le> tr_rnd t \<Longrightarrow> \<forall>q \<in> tr_prios t. p \<le> q"
  by (cases t) force+

lemma tr_insert_heap:
  assumes "tr_heap t" and "tr_insert rd t x = Some (t', m)"
  shows "tr_heap t' \<and> tr_prios t' \<subseteq> insert rd (tr_prios t) \<and>
    ((\<forall>q \<in> tr_prios t. tr_rnd t' < q) \<longrightarrow> tr_prios (tr_l t') \<union> tr_prios (tr_r t') \<subseteq> tr_prios t)"
  using assms
proof (induction t arbitrary: t' m)
  case Null
  then show ?case
    by auto
next
  case (Nd l v p s c r)
  have h: "\<forall>q \<in> tr_prios l \<union> tr_prios r. p \<le> q" "tr_heap l" "tr_heap r"
    using Nd.prems(1) by auto
  consider "v = x" | "v < x" | "x < v"
    by fastforce
  then show ?case
  proof cases
    case 1
    then show ?thesis
      using Nd.prems by auto
  next
    case 2
    obtain r' where r': "tr_insert rd r x = Some (r', m)"
        "(if tr_rnd r' < p then lrotate (Nd l v p (Suc s) c r') else Some (Nd l v p (Suc s) c r')) = Some t'"
      using Nd.prems(2) 2 by (auto simp: bind_eq_Some_conv Let_def)
    note IH = Nd.IH(2) [OF h(3) r'(1)]
    show ?thesis
    proof (cases "tr_rnd r' < p")
      case True
      then obtain ta tv tp ts tc tb where n: "r' = Nd ta tv tp ts tc tb"
        using r'(2) by (auto simp: lrotate_def split: treap.splits)
      have less: "\<forall>q \<in> tr_prios r. tp < q"
        using h(1) True n less_le_trans [of tp p] by (auto simp: ball_Un)
      then have sub: "tr_prios ta \<subseteq> tr_prios r" "tr_prios tb \<subseteq> tr_prios r"
        using IH n by simp_all
      have above: "\<forall>q \<in> tr_prios l. tp \<le> q" "\<forall>q \<in> tr_prios ta. p \<le> q" "tp \<le> p"
        using h(1) True n sub(1) by (fastforce simp: ball_Un)+
      have "tr_heap r'"
        using IH by blast
      then have "tr_heap t'"
        using n h True r'(2) above by (clarsimp simp: lrotate_Nd ball_Un)
      then show ?thesis
        using IH n True r'(2) sub by (auto simp: lrotate_Nd)
    next
      case False
      then have "\<forall>q \<in> tr_prios r'. p \<le> q"
        using IH heap_above [of r' p] by (cases "r' = Null") auto
      then show ?thesis
        using IH h False r'(2) by auto
    qed
  next
    case 3
    obtain l' where l': "tr_insert rd l x = Some (l', m)"
        "(if tr_rnd l' < p then rrotate (Nd l' v p (Suc s) c r) else Some (Nd l' v p (Suc s) c r)) = Some t'"
      using Nd.prems(2) 3 by (auto simp: bind_eq_Some_conv Let_def)
    note IH = Nd.IH(1) [OF h(2) l'(1)]
    show ?thesis
    proof (cases "tr_rnd l' < p")
      case True
      then obtain ta tv tp ts tc tb where n: "l' = Nd ta tv tp ts tc tb"
        using l'(2) by (auto simp: rrotate_def split: treap.splits)
      have less: "\<forall>q \<in> tr_prios l. tp < q"
        using h(1) True n less_le_trans [of tp p] by (auto simp: ball_Un)
      then have sub: "tr_prios ta \<subseteq> tr_prios l" "tr_prios tb \<subseteq> tr_prios l"
        using IH n by simp_all
      have above: "\<forall>q \<in> tr_prios r. tp \<le> q" "\<forall>q \<in> tr_prios tb. p \<le> q" "tp \<le> p"
        using h(1) True n sub(2) by (fastforce simp: ball_Un)+
      have "tr_heap l'"
        using IH by blast
      then have "tr_heap t'"
        using n h True l'(2) above by (clarsimp simp: rrotate_Nd ball_Un)
      then show ?thesis
        using IH n True l'(2) sub by (auto simp: rrotate_Nd)
    next
      case False
      then have "\<forall>q \<in> tr_prios l'. p \<le> q"
        using IH heap_above [of l' p] by (cases "l' = Null") auto
      then show ?thesis
        using IH h False l'(2) by auto
    qed
  qed
qed

section \<open>Deletion\<close>

lemma tr_del_Null: "tr_del Null x = Some (Null, False)"
  by (simp add: tr_del.simps)

lemma tr_del_right: "v < x \<Longrightarrow> tr_del (Nd l v p s c r) x =
    map_option (\<lambda>(r', succ). (Nd l v p (if succ then s - 1 else s) c r', succ)) (tr_del r x)"
  by (subst tr_del.simps) (cases "tr_del r x"; auto)

lemma tr_del_left: "x < v \<Longrightarrow> tr_del (Nd l v p s c r) x =
    map_option (\<lambda>(l', succ). (Nd l' v p (if succ then s - 1 else s) c r, succ)) (tr_del l x)"
  by (subst tr_del.simps) (cases "tr_del l x"; auto)

lemma tr_del_many: "1 < c \<Longrightarrow> tr_del (Nd l x p s c r) x = Some (Nd l x p (s - 1) (c - 1) r, True)"
  by (simp add: tr_del.simps)

lemma tr_del_one: "tr_del (Nd Null x p s (Suc 0) r) x = Some (r, True)"
    "tr_del (Nd l x p s (Suc 0) Null) x = Some (if l = Null then Null else l, True)"
  by (simp_all add: tr_del.simps)

lemma tr_del_rrotate: "tr_rnd l < tr_rnd r \<Longrightarrow> l = Nd ta tv tp ts tc tb \<Longrightarrow> r \<noteq> Null \<Longrightarrow> tv < x \<Longrightarrow>
    tr_del (Nd l x p s (Suc 0) r) x =
    map_option (\<lambda>(r', succ). (Nd ta tv tp (if succ then s - 1 else s) tc r', succ))
      (tr_del (Nd tb x p (tr_size tb + tr_size r + 1) (Suc 0) r) x)"
  by (subst tr_del.simps) (simp add: rrotate_Nd tr_del_right)

lemma tr_del_lrotate: "\<not> tr_rnd l < tr_rnd r \<Longrightarrow> r = Nd ta tv tp ts tc tb \<Longrightarrow> l \<noteq> Null \<Longrightarrow> x < tv \<Longrightarrow>
    tr_del (Nd l x p s (Suc 0) r) x =
    map_option (\<lambda>(l', succ). (Nd l' tv tp (if succ then s - 1 else s) tc tb, succ))
      (tr_del (Nd l x p (tr_size l + tr_size ta + 1) (Suc 0) ta) x)"
  by (subst tr_del.simps) (simp add: lrotate_Nd tr_del_left)

text \<open>A node that has to go and occurs once sinks below its children until one of them is missing.\<close>

lemma tr_del_root:
  assumes "tr_bst (Nd l x p s (Suc 0) r)" and "tr_sized (Nd l x p s (Suc 0) r)"
  shows "\<exists>t'. tr_del (Nd l x p s (Suc 0) r) x = Some (t', True) \<and> tr_bst t' \<and> tr_sized t' \<and>
    tr_list t' = tr_list l @ tr_list r \<and>
    (tr_heap l \<longrightarrow> tr_heap r \<longrightarrow> tr_heap t' \<and> tr_prios t' \<subseteq> tr_prios l \<union> tr_prios r)"
  using assms
proof (induction "size l + size r" arbitrary: l r s rule: less_induct)
  case less
  consider "l = Null" | "r = Null" | ta tv tp ts tc tb where "l = Nd ta tv tp ts tc tb" "r \<noteq> Null" "tr_rnd l < tr_rnd r"
    | ta tv tp ts tc tb where "r = Nd ta tv tp ts tc tb" "l \<noteq> Null" "\<not> tr_rnd l < tr_rnd r"
    by (metis tr_node_cases)
  then show ?case
  proof cases
    case 1
    then show ?thesis
      using less.prems by (simp add: tr_del_one)
  next
    case 2
    then show ?thesis
      using less.prems by (simp add: tr_del_one)
  next
    case (3 ta tv tp ts tc tb)
    have b: "tv < x" "tr_bst (Nd tb x p (tr_size tb + tr_size r + 1) (Suc 0) r)"
      using less.prems 3 by auto
    have sz: "size tb + size r < size l + size r" "tr_sized (Nd tb x p (tr_size tb + tr_size r + 1) (Suc 0) r)"
      using 3(1) less.prems(2) by (simp_all add: size_list)
    obtain t' where t': "tr_del (Nd tb x p (tr_size tb + tr_size r + 1) (Suc 0) r) x = Some (t', True)" "tr_bst t'" "tr_sized t'"
        "tr_list t' = tr_list tb @ tr_list r"
        "tr_heap tb \<longrightarrow> tr_heap r \<longrightarrow> tr_heap t' \<and> tr_prios t' \<subseteq> tr_prios tb \<union> tr_prios r"
      using less.hyps [OF sz(1) b(2) sz(2)] by (elim exE conjE) (rule that)
    have "\<forall>y \<in> set (tr_list r). tv < y"
      using less.prems(1) b(1) by fastforce
    then have "tr_bst (Nd ta tv tp (s - 1) tc t')"
      using less.prems(1) 3(1) t'(2,4) by (auto simp: ball_Un)
    moreover have "tr_heap l \<longrightarrow> tr_heap r \<longrightarrow> tr_heap (Nd ta tv tp (s - 1) tc t')"
    proof (intro impI)
      assume h: "tr_heap l" "tr_heap r"
      have "\<forall>q \<in> tr_prios r. tp \<le> q"
        using heap_above [of r tp] 3 h(2) by simp
      then show "tr_heap (Nd ta tv tp (s - 1) tc t')"
        using h 3 t'(5) by auto
    qed
    moreover have "tr_heap l \<longrightarrow> tr_heap r \<longrightarrow> tr_prios (Nd ta tv tp (s - 1) tc t') \<subseteq> tr_prios l \<union> tr_prios r"
      using t'(5) 3 by auto
    ultimately show ?thesis
      using tr_del_rrotate [OF 3(3,1,2) b(1)] t' 3 less.prems(2) by auto
  next
    case (4 ta tv tp ts tc tb)
    have b: "x < tv" "tr_bst (Nd l x p (tr_size l + tr_size ta + 1) (Suc 0) ta)"
      using less.prems 4 by auto
    have sz: "size l + size ta < size l + size r" "tr_sized (Nd l x p (tr_size l + tr_size ta + 1) (Suc 0) ta)"
      using 4(1) less.prems(2) by (simp_all add: size_list)
    obtain t' where t': "tr_del (Nd l x p (tr_size l + tr_size ta + 1) (Suc 0) ta) x = Some (t', True)" "tr_bst t'" "tr_sized t'"
        "tr_list t' = tr_list l @ tr_list ta"
        "tr_heap l \<longrightarrow> tr_heap ta \<longrightarrow> tr_heap t' \<and> tr_prios t' \<subseteq> tr_prios l \<union> tr_prios ta"
      using less.hyps [OF sz(1) b(2) sz(2)] by (elim exE conjE) (rule that)
    have "\<forall>y \<in> set (tr_list l). y < tv"
      using less.prems(1) b(1) by fastforce
    then have "tr_bst (Nd t' tv tp (s - 1) tc tb)"
      using less.prems(1) 4(1) t'(2,4) by (auto simp: ball_Un)
    moreover have "tr_heap l \<longrightarrow> tr_heap r \<longrightarrow> tr_heap (Nd t' tv tp (s - 1) tc tb)"
    proof (intro impI)
      assume h: "tr_heap l" "tr_heap r"
      have "\<forall>q \<in> tr_prios l. tp \<le> q"
        using heap_above [of l tp] 4 h(1) by simp
      then show "tr_heap (Nd t' tv tp (s - 1) tc tb)"
        using h 4 t'(5) by auto
    qed
    moreover have "tr_heap l \<longrightarrow> tr_heap r \<longrightarrow> tr_prios (Nd t' tv tp (s - 1) tc tb) \<subseteq> tr_prios l \<union> tr_prios r"
      using t'(5) 4 by auto
    ultimately show ?thesis
      using tr_del_lrotate [OF 4(3,1,2) b(1)] t' 4 less.prems(2) by auto
  qed
qed

lemma tr_del_ok:
  assumes "tr_bst t" and "tr_sized t"
  shows "\<exists>t'. tr_del t x = Some (t', x \<in> set (tr_list t)) \<and> tr_bst t' \<and> tr_sized t' \<and>
    tr_list t' = remove1 x (tr_list t) \<and> (tr_heap t \<longrightarrow> tr_heap t' \<and> tr_prios t' \<subseteq> tr_prios t)"
  using assms
proof (induction t)
  case Null
  then show ?case
    by (simp add: tr_del_Null)
next
  case (Nd l v p s c r)
  have b: "\<forall>y \<in> set (tr_list l). y < v" "\<forall>y \<in> set (tr_list r). v < y" "0 < c"
    using Nd.prems by auto
  consider "v = x" "1 < c" | "v = x" "c = Suc 0" | "v < x" | "x < v"
    using b(3) by fastforce
  then show ?case
  proof cases
    case 1
    have "remove1 x (tr_list (Nd l v p s c r)) = tr_list l @ replicate (c - 1) x @ tr_list r"
      using b 1 by (cases c) (auto simp: remove1_append)
    then show ?thesis
      using 1 Nd.prems by (simp add: tr_del_many)
  next
    case 2
    have "remove1 x (tr_list (Nd l v p s c r)) = tr_list l @ tr_list r"
      using b 2 by (auto simp: remove1_append)
    then show ?thesis
      using tr_del_root [of l x p s r] Nd.prems 2 by (auto simp: subset_iff)
  next
    case 3
    obtain r' where r': "tr_del r x = Some (r', x \<in> set (tr_list r))" "tr_bst r'" "tr_sized r'"
        "tr_list r' = remove1 x (tr_list r)" "tr_heap r \<longrightarrow> tr_heap r' \<and> tr_prios r' \<subseteq> tr_prios r"
      using Nd.IH(2) Nd.prems by auto
    have mem: "x \<in> set (tr_list (Nd l v p s c r)) \<longleftrightarrow> x \<in> set (tr_list r)"
      and rem: "remove1 x (tr_list (Nd l v p s c r)) = tr_list l @ replicate c v @ remove1 x (tr_list r)"
      using b(1) 3 by (auto simp: remove1_append)
    have "set (tr_list r') \<subseteq> set (tr_list r)"
      by (simp add: r'(4) set_remove1_subset)
    moreover have "length (tr_list l) + c + length (tr_list r) - Suc 0 = length (tr_list l) + c + (length (tr_list r) - Suc 0)" if "x \<in> set (tr_list r)"
      using length_pos_if_in_set [OF that] by linarith
    ultimately show ?thesis
      using 3 r' mem rem Nd.prems by (auto simp: tr_del_right length_remove1 ball_Un subset_iff)
  next
    case 4
    obtain l' where l': "tr_del l x = Some (l', x \<in> set (tr_list l))" "tr_bst l'" "tr_sized l'"
        "tr_list l' = remove1 x (tr_list l)" "tr_heap l \<longrightarrow> tr_heap l' \<and> tr_prios l' \<subseteq> tr_prios l"
      using Nd.IH(1) Nd.prems by auto
    have absent: "x \<notin> set (replicate c v @ tr_list r)"
      using b(2) 4 by auto
    have mem: "x \<in> set (tr_list (Nd l v p s c r)) \<longleftrightarrow> x \<in> set (tr_list l)"
      and rem: "remove1 x (tr_list (Nd l v p s c r)) = remove1 x (tr_list l) @ replicate c v @ tr_list r"
      using absent by (auto simp: remove1_append remove1_idem)
    have "set (tr_list l') \<subseteq> set (tr_list l)"
      by (simp add: l'(4) set_remove1_subset)
    moreover have "length (tr_list l) + c + length (tr_list r) - Suc 0 = (length (tr_list l) - Suc 0) + c + length (tr_list r)" if "x \<in> set (tr_list l)"
      using length_pos_if_in_set [OF that] by linarith
    ultimately show ?thesis
      using 4 l' mem rem Nd.prems by (auto simp: tr_del_left length_remove1 ball_Un subset_iff)
  qed
qed

section \<open>Queries\<close>

lemma filter_less_parts:
  assumes "\<forall>y \<in> set xs. y < v" and "\<forall>y \<in> set ys. v < (y::int)"
  shows "v < x \<Longrightarrow> filter (\<lambda>y. y < x) (xs @ replicate c v @ ys) = xs @ replicate c v @ filter (\<lambda>y. y < x) ys"
    and "x \<le> v \<Longrightarrow> filter (\<lambda>y. y < x) (xs @ replicate c v @ ys) = filter (\<lambda>y. y < x) xs"
    and "x < v \<Longrightarrow> filter (\<lambda>y. x < y) (xs @ replicate c v @ ys) = filter (\<lambda>y. x < y) xs @ replicate c v @ ys"
    and "v \<le> x \<Longrightarrow> filter (\<lambda>y. x < y) (xs @ replicate c v @ ys) = filter (\<lambda>y. x < y) ys"
  using assms by (auto simp: filter_empty_conv filter_id_conv)

lemma queryrank_eq:
  assumes "tr_bst t" and "tr_sized t"
  shows "queryrank t x = int (length (filter (\<lambda>y. y < x) (tr_list t))) + (if x \<in> set (tr_list t) then 1 else 0)"
  using assms
proof (induction t)
  case (Nd l v p s c r)
  have b: "\<forall>y \<in> set (tr_list l). y < v" "\<forall>y \<in> set (tr_list r). v < y" "0 < c"
    using Nd.prems by auto
  consider "v = x" | "v < x" | "x < v"
    by fastforce
  then show ?case
  proof cases
    case 1
    have "filter (\<lambda>y. y < x) (tr_list l) = tr_list l"
      using b(1) 1 by simp
    then show ?thesis
      using 1 Nd.prems b filter_less_parts(2) [OF b(1,2), of x c] by (simp add: size_list)
  next
    case 2
    then have "x \<notin> set (tr_list l)"
      using b(1) by auto
    then show ?thesis
      using 2 Nd filter_less_parts(1) [OF b(1,2), of x c] by (simp add: size_list)
  next
    case 3
    then have "x \<notin> set (tr_list r)"
      using b(2) by auto
    then show ?thesis
      using 3 Nd filter_less_parts(2) [OF b(1,2), of x c] by simp
  qed
qed simp

lemma querynum_eq:
  assumes "tr_sized t" and "1 \<le> k" and "k \<le> int (length (tr_list t))"
  shows "querynum t k = tr_list t ! nat (k - 1)"
  using assms
proof (induction t arbitrary: k)
  case (Nd l v p s c r)
  consider "k \<le> int (length (tr_list l))" | "int (length (tr_list l)) + int c < k"
    | "int (length (tr_list l)) < k" "k \<le> int (length (tr_list l)) + int c"
    by linarith
  then show ?case
  proof cases
    case 1
    then have "nat (k - 1) < length (tr_list l)"
      using Nd.prems(2) by linarith
    then show ?thesis
      using 1 Nd by (simp add: size_list nth_append)
  next
    case 2
    then have "nat (k - 1) - (length (tr_list l) + c) = nat (k - int (length (tr_list l)) - int c - 1)"
        "\<not> nat (k - 1) < length (tr_list l)" "\<not> nat (k - 1) - length (tr_list l) < c"
      by linarith+
    then show ?thesis
      using 2 Nd by (simp add: size_list nth_append)
  next
    case 3
    then have "nat (k - 1) - length (tr_list l) < c" "\<not> nat (k - 1) < length (tr_list l)"
      by linarith+
    then show ?thesis
      using 3 Nd.prems by (simp add: size_list nth_append)
  qed
qed simp

lemma querypre_eq:
  assumes "tr_bst t" and "tr_sized t"
  shows "tr_val (querypre ans t x) =
    (if filter (\<lambda>y. y < x) (tr_list t) = [] then tr_val ans else last (filter (\<lambda>y. y < x) (tr_list t)))"
  using assms
proof (induction t arbitrary: ans)
  case (Nd l v p s c r)
  have b: "\<forall>y \<in> set (tr_list l). y < v" "\<forall>y \<in> set (tr_list r). v < y" "0 < c"
    using Nd.prems by auto
  show ?case
  proof (cases "v < x")
    case True
    show ?thesis
      using True b(3) Nd filter_less_parts(1) [OF b(1,2) True, of c] by simp
  next
    case False
    then show ?thesis
      using Nd filter_less_parts(2) [OF b(1,2), of x c] by simp
  qed
qed simp

lemma querysub_eq:
  assumes "tr_bst t" and "tr_sized t"
  shows "tr_val (querysub ans t x) =
    (if filter (\<lambda>y. x < y) (tr_list t) = [] then tr_val ans else hd (filter (\<lambda>y. x < y) (tr_list t)))"
  using assms
proof (induction t arbitrary: ans)
  case (Nd l v p s c r)
  have b: "\<forall>y \<in> set (tr_list l). y < v" "\<forall>y \<in> set (tr_list r). v < y" "0 < c"
    using Nd.prems by auto
  show ?case
  proof (cases "x < v")
    case True
    show ?thesis
      using True b(3) Nd filter_less_parts(3) [OF b(1,2) True, of c] by (simp add: hd_append)
  next
    case False
    then show ?thesis
      using Nd filter_less_parts(4) [OF b(1,2), of x c] by simp
  qed
qed simp

lemma querynum_out:
  assumes "tr_sized t" and "k < 1 \<or> int (length (tr_list t)) < k"
  shows "querynum t k = 0"
  using assms by (induction t arbitrary: k) (auto simp: size_list)

section \<open>The program\<close>

text \<open>The state stands for a sorted list, and has room for \<open>cap\<close> more nodes.\<close>

definition tr_stands :: "treap_state \<Rightarrow> nat \<Rightarrow> int list \<Rightarrow> bool" where
  "tr_stands T cap xs = (tr_ok (tr_rt T) \<and> tr_list (tr_rt T) = xs \<and> tr_sz T + cap \<le> 100004)"

lemma tr_step_insert:
  assumes "tr_stands T (Suc cap) xs"
  shows "\<exists>T'. tr_step rand T (BInsert x) = Some (T', []) \<and> tr_stands T' cap (insort x xs)"
proof -
  obtain k where k: "tr_insert (rand (tr_sz T + 1)) (tr_rt T) x = Some (k, x \<notin> set xs)" "tr_bst k" "tr_sized k"
      "tr_list k = insort x xs"
    using tr_insert_list [of "tr_rt T" "rand (tr_sz T + 1)" x] assms by (auto simp: tr_stands_def tr_ok_def)
  moreover have "tr_heap k"
    using tr_insert_heap [OF _ k(1)] assms by (simp add: tr_stands_def tr_ok_def)
  ultimately show ?thesis
    using assms by (auto simp: tr_stands_def tr_ok_def)
qed

lemma tr_step_delete:
  assumes "tr_stands T cap xs"
  shows "\<exists>T'. tr_step rand T (BDelete x) = Some (T', []) \<and> tr_stands T' cap (remove1 x xs)"
  using tr_del_ok [of "tr_rt T" x] assms by (auto simp: tr_stands_def tr_ok_def)

lemma tr_step_query:
  assumes "tr_stands T cap xs"
  shows "tr_step rand T (BRank x) =
      Some (T, [int (length (filter (\<lambda>y. y < x) xs)) + (if x \<in> set xs then 1 else 0)])"
    and "tr_step rand T (BKth k) = Some (T, [if 1 \<le> k \<and> k \<le> int (length xs) then xs ! nat (k - 1) else 0])"
    and "tr_step rand T (BPred x) =
      Some (T, [if filter (\<lambda>y. y < x) xs = [] then 0 else last (filter (\<lambda>y. y < x) xs)])"
    and "tr_step rand T (BSucc x) =
      Some (T, [if filter (\<lambda>y. x < y) xs = [] then 0 else hd (filter (\<lambda>y. x < y) xs)])"
proof -
  have t: "tr_bst (tr_rt T)" "tr_sized (tr_rt T)" "tr_list (tr_rt T) = xs"
    using assms by (simp_all add: tr_stands_def tr_ok_def)
  show "tr_step rand T (BRank x) =
      Some (T, [int (length (filter (\<lambda>y. y < x) xs)) + (if x \<in> set xs then 1 else 0)])"
    using queryrank_eq [OF t(1,2)] t(3) by simp
  show "tr_step rand T (BKth k) = Some (T, [if 1 \<le> k \<and> k \<le> int (length xs) then xs ! nat (k - 1) else 0])"
    using querynum_eq [OF t(2), of k] querynum_out [OF t(2), of k] t(3) by auto
  show "tr_step rand T (BPred x) =
      Some (T, [if filter (\<lambda>y. y < x) xs = [] then 0 else last (filter (\<lambda>y. y < x) xs)])"
    using querypre_eq [OF t(1,2), of Null x] t(3) by simp
  show "tr_step rand T (BSucc x) =
      Some (T, [if filter (\<lambda>y. x < y) xs = [] then 0 else hd (filter (\<lambda>y. x < y) xs)])"
    using querysub_eq [OF t(1,2), of Null x] t(3) by simp
qed

interpretation treap: ordered_bag "tr_step rand" tr_stands big for rand big
proof
  fix T cap xs op
  assume st: "tr_stands T cap xs" "answered xs op" and q: "\<forall>x. op \<noteq> BInsert x \<and> op \<noteq> BDelete x"
  show "tr_step rand T op = Some (T, snd (ref_bag xs op))"
  proof (cases op)
    case (BPred x)
    then show ?thesis
      using st tr_step_query(3) [OF st(1)] by (auto simp: filter_empty_conv)
  next
    case (BSucc x)
    then show ?thesis
      using st tr_step_query(4) [OF st(1)] by (auto simp: filter_empty_conv)
  qed (use st q tr_step_query(1,2) [OF st(1)] in \<open>auto\<close>)
next
  show "tr_stands T cap xs \<Longrightarrow> sorted xs" for T cap xs
    using sorted_tr_list by (auto simp: tr_stands_def tr_ok_def)
  show "tr_stands T (Suc cap) xs \<Longrightarrow> x < big \<Longrightarrow>
      \<exists>m'. tr_step rand T (BInsert x) = Some (m', []) \<and> tr_stands m' cap (insort x xs)" for T cap xs x
    by (rule tr_step_insert)
  show "tr_stands T cap xs \<Longrightarrow> x \<in> set xs \<Longrightarrow>
      \<exists>m'. tr_step rand T (BDelete x) = Some (m', []) \<and> tr_stands m' cap (remove1 x xs)" for T cap xs x
    by (rule tr_step_delete)
qed

lemma tr_main_run:
  assumes "valid_input 100004 big [] ops"
  shows "\<exists>T cap. tr_main rand ops = Some (T, snd (ref_bags [] ops)) \<and> tr_stands T cap (fst (ref_bags [] ops))"
  unfolding tr_main_def by (rule treap.run_refines [OF _ assms]) (simp add: tr_stands_def tr_ok_def)

text \<open>C37. Whatever numbers \<open>rand()\<close> returns, on an input of at most 100004 insertions whose operations have an answer the treap
  program ends and prints exactly what the sorted list gives: ranks, k-th smallest numbers, predecessors and
  successors. In the end its tree is a search tree, a heap in the random numbers, has the right sizes in every node and
  holds the numbers of the list with their multiplicities.\<close>

theorem treap_main_correct:
  assumes "valid_input 100004 big [] ops"
  shows "\<exists>T. tr_main rand ops = Some (T, snd (ref_bags [] ops)) \<and> tr_ok (tr_rt T) \<and>
    tr_list (tr_rt T) = fst (ref_bags [] ops)"
  using tr_main_run [OF assms, of rand] by (auto simp: tr_stands_def)

theorem treap_main_correct_witness:
  "\<exists>T. tr_main (\<lambda>i. 50 - 7 * int i) [BInsert 5, BInsert 3, BInsert 5, BRank 5, BDelete 5, BKth 2, BPred 5] =
    Some (T, [2, 5, 3]) \<and> tr_ok (tr_rt T) \<and> tr_list (tr_rt T) = [3, 5]"
  using treap_main_correct [of 100 "[BInsert 5, BInsert 3, BInsert 5, BRank 5, BDelete 5, BKth 2, BPred 5]"
      "\<lambda>i. 50 - 7 * int i"]
  by simp

text \<open>The operations of the treap that have no answer: an absent number is not deleted and its rank is printed one too small
  (the number of smaller elements), and where there is no k-th number, no predecessor or no successor the program prints 0, the
  value of node 0.\<close>

theorem treap_unanswered:
  assumes "tr_stands T cap xs"
  shows "(x \<notin> set xs \<longrightarrow> tr_step rand T (BRank x) = Some (T, [int (length (filter (\<lambda>y. y < x) xs))])) \<and>
    (x \<notin> set xs \<longrightarrow> (\<exists>T'. tr_step rand T (BDelete x) = Some (T', []) \<and> tr_stands T' cap xs)) \<and>
    (\<not> answered xs (BKth k) \<longrightarrow> tr_step rand T (BKth k) = Some (T, [0])) \<and>
    (\<not> answered xs (BPred x) \<longrightarrow> tr_step rand T (BPred x) = Some (T, [0])) \<and>
    (\<not> answered xs (BSucc x) \<longrightarrow> tr_step rand T (BSucc x) = Some (T, [0]))"
  using tr_step_query [OF assms, of rand] tr_step_delete [OF assms, of rand x]
  by (auto simp: remove1_idem filter_empty_conv)

theorem treap_unanswered_witness:
  "tr_step (\<lambda>i. 0) \<lparr>tr_rt = Nd Null 4 9 1 1 Null, tr_sz = 1\<rparr> (BRank 6) = Some (\<lparr>tr_rt = Nd Null 4 9 1 1 Null, tr_sz = 1\<rparr>, [1]) \<and>
    tr_step (\<lambda>i. 0) \<lparr>tr_rt = Nd Null 4 9 1 1 Null, tr_sz = 1\<rparr> (BKth 2) = Some (\<lparr>tr_rt = Nd Null 4 9 1 1 Null, tr_sz = 1\<rparr>, [0])"
  using treap_unanswered [of "\<lparr>tr_rt = Nd Null 4 9 1 1 Null, tr_sz = 1\<rparr>" 3 "[4]" 6 "\<lambda>i. 0" 2]
  by (simp add: tr_stands_def tr_ok_def)

end
