(* ===== verification/LeafTree.thy ===== *)
theory LeafTree
  imports OrderedBag
begin

text \<open>
  Leaf trees: the numbers are in the leaves, an inner node has the number of leaves below it and the
  largest of them. Both \<^verbatim>\<open>leafy-tree_1.cpp\<close> and \<^verbatim>\<open>wblt_1.cpp\<close> keep a bag in such a tree, with a sentinel
  \<open>2147483647\<close> as the last leaf. A pointer or an index of a node is the subtree below it.
\<close>

section \<open>The structure\<close>

datatype leaf_tree = Lf int | Br leaf_tree nat int leaf_tree

fun lt_size :: "leaf_tree \<Rightarrow> nat" where
  "lt_size (Lf v) = 1"
| "lt_size (Br l s v r) = s"

fun lt_val :: "leaf_tree \<Rightarrow> int" where
  "lt_val (Lf v) = v"
| "lt_val (Br l s v r) = v"

fun lt_list :: "leaf_tree \<Rightarrow> int list" where
  "lt_list (Lf v) = [v]"
| "lt_list (Br l s v r) = lt_list l @ lt_list r"

text \<open>Every inner node has the right size and the right largest number.\<close>

fun lt_ok :: "leaf_tree \<Rightarrow> bool" where
  "lt_ok (Lf v) = True"
| "lt_ok (Br l s v r) = (s = lt_size l + lt_size r \<and> v = lt_val r \<and> lt_ok l \<and> lt_ok r)"

lemma lt_list_nonempty [simp]: "lt_list t \<noteq> []"
  by (induction t) auto

lemma lt_size_list: "lt_ok t \<Longrightarrow> lt_size t = length (lt_list t)"
  by (induction t) auto

lemma lt_val_last: "lt_ok t \<Longrightarrow> lt_val t = last (lt_list t)"
  by (induction t) auto

lemma lt_size_pos [simp]: "lt_ok t \<Longrightarrow> 0 < lt_size t"
  by (simp add: lt_size_list)

lemma lt_size_one:
  assumes "lt_ok t"
  shows "lt_size t = Suc 0 \<longleftrightarrow> (\<exists>v. t = Lf v)"
proof (cases t)
  case (Br l s v r)
  then have "0 < lt_size l" "0 < lt_size r" "s = lt_size l + lt_size r"
    using assms by simp_all
  then show ?thesis
    using Br by simp
qed simp

lemma lt_two_leaves:
  assumes "x \<in> set (lt_list t)" and "t \<noteq> Lf x"
  shows "2 \<le> length (lt_list t)"
proof (cases t)
  case (Br l s v r)
  have "0 < length (lt_list l)" "0 < length (lt_list r)"
    by simp_all
  then show ?thesis
    using Br by (simp only: lt_list.simps length_append)
qed (use assms in simp)

section \<open>Sorted lists of leaves\<close>

lemma last_ge: "sorted xs \<Longrightarrow> x \<in> set xs \<Longrightarrow> x \<le> last (xs::int list)"
  by (induction xs) auto

lemma insort_leaves:
  assumes "sorted (xs @ ys)" and "xs \<noteq> []"
  shows "x \<le> last xs \<Longrightarrow> insort x (xs @ ys) = insort x xs @ (ys::int list)"
    and "last xs < x \<Longrightarrow> insort x (xs @ ys) = xs @ insort x ys"
proof -
  show "insort x (xs @ ys) = insort x xs @ ys" if "x \<le> last xs"
    using that assms by (induction xs) (auto split: if_splits)
  show "insort x (xs @ ys) = xs @ insort x ys" if "last xs < x"
    using that assms last_ge [of xs] by (intro insort_append(2)) (fastforce simp: sorted_append)
qed

lemma remove1_leaves:
  assumes "sorted (xs @ ys)" and "xs \<noteq> []" and "x \<in> set (xs @ ys)"
  shows "x \<le> last xs \<Longrightarrow> x \<in> set xs \<and> remove1 x (xs @ ys) = remove1 x xs @ (ys::int list)"
    and "last xs < x \<Longrightarrow> x \<in> set ys \<and> remove1 x (xs @ ys) = xs @ remove1 x ys"
proof -
  have "x \<in> set xs" if "x \<le> last xs"
  proof (cases "x \<in> set ys")
    case True
    then have "x = last xs"
      using that assms(1) last_in_set [OF assms(2)] by (auto simp: sorted_append intro: order_antisym)
    then show ?thesis
      using assms(2) by simp
  qed (use assms(3) in simp)
  then show "x \<in> set xs \<and> remove1 x (xs @ ys) = remove1 x xs @ ys" if "x \<le> last xs"
    using that by (simp add: remove1_append)
  have "x \<notin> set xs" if "last xs < x"
    using that assms last_ge [of xs x] by (auto simp: sorted_append)
  then show "x \<in> set ys \<and> remove1 x (xs @ ys) = xs @ remove1 x ys" if "last xs < x"
    using that assms(3) by (simp add: remove1_append)
qed

lemma remove1_snoc:
  assumes "sorted (xs @ [x])"
  shows "remove1 x (xs @ [x]) = (xs::int list)"
proof -
  have "mset (remove1 x (xs @ [x])) = mset xs" "sorted (remove1 x (xs @ [x]))" "sorted xs"
    using assms by (simp_all add: sorted_remove1 sorted_append)
  then show ?thesis
    by (metis properties_for_sort)
qed

lemma filter_less_leaves:
  assumes "sorted (xs @ ys)" and "xs \<noteq> []"
  shows "x \<le> last xs \<Longrightarrow> filter (\<lambda>y. y < x) (xs @ ys) = filter (\<lambda>y. y < (x::int)) xs"
    and "last xs < x \<Longrightarrow> filter (\<lambda>y. y < x) (xs @ ys) = xs @ filter (\<lambda>y. y < x) ys"
proof -
  have "last xs \<in> set xs"
    using assms(2) by simp
  then show "filter (\<lambda>y. y < x) (xs @ ys) = filter (\<lambda>y. y < x) xs" if "x \<le> last xs"
    using that assms(1) by (fastforce simp: sorted_append filter_empty_conv)
  show "filter (\<lambda>y. y < x) (xs @ ys) = xs @ filter (\<lambda>y. y < x) ys" if "last xs < x"
    using that assms last_ge [of xs] by (fastforce simp: sorted_append filter_id_conv)
qed

text \<open>In a sorted list the numbers below a bound come first.\<close>

lemma sorted_filter_prefix:
  "sorted (xs::int list) \<Longrightarrow> filter (\<lambda>y. y < x) xs @ filter (\<lambda>y. \<not> y < x) xs = xs"
proof (induction xs)
  case (Cons a xs)
  show ?case
  proof (cases "a < x")
    case False
    then have "\<forall>y \<in> set xs. \<not> y < x"
      using Cons.prems by auto
    then have "filter (\<lambda>y. y < x) xs = []" "filter (\<lambda>y. \<not> y < x) xs = xs"
      by (auto simp: filter_empty_conv filter_id_conv)
    then show ?thesis
      using False by simp
  qed (use Cons in simp)
qed simp

lemma pred_nth:
  assumes "sorted (xs::int list)" and "\<exists>y \<in> set xs. y < x"
  shows "(xs @ ys) ! (length (filter (\<lambda>y. y < x) xs) - 1) = last (filter (\<lambda>y. y < x) xs)"
proof -
  let ?f = "filter (\<lambda>y. y < x) xs"
  have ne: "?f \<noteq> []"
    using assms(2) by (auto simp: filter_empty_conv)
  have "(xs @ ys) ! (length ?f - 1) = (?f @ filter (\<lambda>y. \<not> y < x) xs @ ys) ! (length ?f - 1)"
    using sorted_filter_prefix [OF assms(1), of x] by (metis append.assoc)
  also have "\<dots> = last ?f"
    using ne by (simp add: nth_append last_conv_nth)
  finally show ?thesis .
qed

lemma succ_nth:
  assumes "sorted (xs::int list)"
  shows "(xs @ [b]) ! length (filter (\<lambda>y. y < x + 1) xs) =
    (if \<exists>y \<in> set xs. x < y then hd (filter (\<lambda>y. x < y) xs) else b)"
proof -
  let ?f = "filter (\<lambda>y. y < x + 1) xs"
  have "filter (\<lambda>y. \<not> y < x + 1) xs = filter (\<lambda>y. x < y) xs"
    by (intro filter_cong) auto
  then have "xs @ [b] = ?f @ filter (\<lambda>y. x < y) xs @ [b]"
    using sorted_filter_prefix [OF assms, of "x + 1"] by (metis append.assoc)
  then have "(xs @ [b]) ! length ?f = hd (filter (\<lambda>y. x < y) xs @ [b])"
    by (metis hd_conv_nth nth_append_length_plus add_0_right append_is_Nil_conv not_Cons_self2)
  then show ?thesis
    by (auto simp: hd_append filter_empty_conv)
qed

section \<open>Ranks and positions\<close>

text \<open>
  A bag is kept with the sentinel as its last leaf. What the searches by rank and by position return
  there, for an arbitrary function that behaves like them.
\<close>

lemma rank_sentinel:
  assumes "x \<le> b" and "sorted (xs @ [b])"
  shows "filter (\<lambda>y. y < x) (xs @ [b]) = filter (\<lambda>y. y < (x::int)) xs"
  using assms by simp

lemma kth_pred:
  assumes "sorted xs" and "\<exists>y \<in> set xs. y < (x::int)" and "r = int (length (filter (\<lambda>y. y < x) xs)) + 1"
    and "\<And>k. 1 \<le> k \<Longrightarrow> k \<le> int (length xs) + 1 \<Longrightarrow> f k = g ((xs @ [b]) ! nat (k - 1))"
  shows "f (r - 1) = g (last (filter (\<lambda>y. y < x) xs))"
proof -
  have ne: "filter (\<lambda>y. y < x) xs \<noteq> []"
    using assms(2) by (auto simp: filter_empty_conv)
  have "0 < length (filter (\<lambda>y. y < x) xs)" "length (filter (\<lambda>y. y < x) xs) \<le> length xs"
    using ne by simp_all
  then have "f (r - 1) = g ((xs @ [b]) ! nat (r - 1 - 1))"
    using assms(3) by (intro assms(4)) linarith+
  also have "nat (r - 1 - 1) = length (filter (\<lambda>y. y < x) xs) - 1"
    using assms(3) by linarith
  finally show ?thesis
    using pred_nth [OF assms(1,2), of "[b]"] by simp
qed

lemma kth_succ:
  assumes "sorted xs" and "r = int (length (filter (\<lambda>y. y < x + 1) xs)) + 1"
    and "\<And>k. 1 \<le> k \<Longrightarrow> k \<le> int (length xs) + 1 \<Longrightarrow> f k = g ((xs @ [b]) ! nat (k - 1))"
  shows "f r = g (if \<exists>y \<in> set xs. x < y then hd (filter (\<lambda>y. x < y) xs) else (b::int))"
proof -
  have "f r = g ((xs @ [b]) ! nat (r - 1))"
    using length_filter_le [of "\<lambda>y. y < x + 1" xs] assms(2) by (intro assms(3)) linarith+
  also have "nat (r - 1) = length (filter (\<lambda>y. y < x + 1) xs)"
    using assms(2) by linarith
  finally show ?thesis
    using succ_nth [OF assms(1), of b x] by simp
qed

end
