(* ===== verification/LeafyTree.thy ===== *)
theory LeafyTree
  imports LeafTree
begin

text \<open>
  The leafy tree of \<^verbatim>\<open>leafy-tree/leafy-tree_1.cpp\<close>. The stack \<open>st\<close> of free nodes is modelled by its counter \<open>cnt\<close>:
  taking a node needs \<open>cnt \<le> 200000\<close>, since only these entries of \<open>st\<close> point to a node. The node \<open>null\<close> has
  size 0; a leaf is a node whose children are \<open>null\<close>.
\<close>

section \<open>The program\<close>

definition new_Node :: "nat \<Rightarrow> nat option" where
  "new_Node cnt = do { assert (cnt \<le> 200000); Some (cnt + 1) }"

definition free_Node :: "nat \<Rightarrow> nat option" where
  "free_Node cnt = do { assert (0 < cnt); Some (cnt - 1) }"

definition ly_merge :: "leaf_tree \<Rightarrow> leaf_tree \<Rightarrow> nat \<Rightarrow> (leaf_tree \<times> nat) option" where
  "ly_merge a b cnt = do {
     cnt \<leftarrow> new_Node cnt;
     Some (Br a (lt_size a + lt_size b) (lt_val b) b, cnt)
   }"

text \<open>The two \<open>if\<close>s of \<open>rotate\<close>, on the two children.\<close>

definition ly_rotate_right :: "leaf_tree \<Rightarrow> leaf_tree \<Rightarrow> nat \<Rightarrow> (leaf_tree \<times> leaf_tree \<times> nat) option" where
  "ly_rotate_right l r cnt =
     (if lt_size l > lt_size r * 4 then
        (case l of
           Lf v \<Rightarrow> None
         | Br ll s v lr \<Rightarrow> do {
             (r, cnt) \<leftarrow> ly_merge lr r cnt;
             cnt \<leftarrow> free_Node cnt;
             Some (ll, r, cnt)
           })
      else Some (l, r, cnt))"

definition ly_rotate_left :: "leaf_tree \<Rightarrow> leaf_tree \<Rightarrow> nat \<Rightarrow> (leaf_tree \<times> leaf_tree \<times> nat) option" where
  "ly_rotate_left l r cnt =
     (if lt_size r > lt_size l * 4 then
        (case r of
           Lf v \<Rightarrow> None
         | Br rl s v rr \<Rightarrow> do {
             (l, cnt) \<leftarrow> ly_merge l rl cnt;
             cnt \<leftarrow> free_Node cnt;
             Some (l, rr, cnt)
           })
      else Some (l, r, cnt))"

definition ly_rotate :: "leaf_tree \<Rightarrow> nat \<Rightarrow> (leaf_tree \<times> nat) option" where
  "ly_rotate u cnt =
     (case u of
        Lf v \<Rightarrow> Some (u, cnt)
      | Br l s v r \<Rightarrow> do {
          (l, r, cnt) \<leftarrow> ly_rotate_right l r cnt;
          (l, r, cnt) \<leftarrow> ly_rotate_left l r cnt;
          Some (Br l s v r, cnt)
        })"

text \<open>The statement \<open>update(u), rotate(u);\<close>: the macro makes both run only if the left child is not \<open>null\<close>.\<close>

definition ly_update :: "leaf_tree \<Rightarrow> nat \<Rightarrow> (leaf_tree \<times> nat) option" where
  "ly_update u cnt =
     (case u of
        Lf v \<Rightarrow> Some (u, cnt)
      | Br l s v r \<Rightarrow>
          if lt_size l \<noteq> 0 then ly_rotate (Br l (lt_size l + lt_size r) (lt_val r) r) cnt
          else Some (u, cnt))"

text \<open>The case of \<open>insert\<close> for \<open>u->size == 1\<close>.\<close>

definition ly_split_leaf :: "int \<Rightarrow> int \<Rightarrow> nat \<Rightarrow> (leaf_tree \<times> nat) option" where
  "ly_split_leaf v x cnt = do {
     cnt \<leftarrow> new_Node cnt;
     cnt \<leftarrow> new_Node cnt;
     ly_update (Br (Lf (if v < x then v else x)) 1 v (Lf (if v > x then v else x))) cnt
   }"

fun ly_insert :: "leaf_tree \<Rightarrow> int \<Rightarrow> nat \<Rightarrow> (leaf_tree \<times> nat) option" where
  "ly_insert (Lf v) x cnt = ly_split_leaf v x cnt"
| "ly_insert (Br l s v r) x cnt =
     (if s = 1 then ly_split_leaf v x cnt
      else if x > lt_val l then do {
        (r, cnt) \<leftarrow> ly_insert r x cnt;
        ly_update (Br l s v r) cnt
      }
      else do {
        (l, cnt) \<leftarrow> ly_insert l x cnt;
        ly_update (Br l s v r) cnt
      })"

text \<open>\<open>erase\<close>; below a leaf it follows the null pointers of the node \<open>null\<close>.\<close>

fun ly_erase :: "leaf_tree \<Rightarrow> int \<Rightarrow> nat \<Rightarrow> (leaf_tree \<times> nat) option" where
  "ly_erase (Lf v) x cnt = None"
| "ly_erase (Br l s v r) x cnt =
     (if lt_size l = 1 \<and> lt_val l = x then do {
        cnt \<leftarrow> free_Node cnt; cnt \<leftarrow> free_Node cnt;
        ly_update r cnt
      }
      else if lt_size r = 1 \<and> lt_val r = x then do {
        cnt \<leftarrow> free_Node cnt; cnt \<leftarrow> free_Node cnt;
        ly_update l cnt
      }
      else if x > lt_val l then do {
        (r, cnt) \<leftarrow> ly_erase r x cnt;
        ly_update (Br l s v r) cnt
      }
      else do {
        (l, cnt) \<leftarrow> ly_erase l x cnt;
        ly_update (Br l s v r) cnt
      })"

fun ly_find :: "leaf_tree \<Rightarrow> int \<Rightarrow> int" where
  "ly_find (Lf v) x = v"
| "ly_find (Br l s v r) x =
     (if s = 1 then v
      else if int (lt_size l) < x then ly_find r (x - int (lt_size l)) else ly_find l x)"

fun ly_Rank :: "leaf_tree \<Rightarrow> int \<Rightarrow> int" where
  "ly_Rank (Lf v) x = 1"
| "ly_Rank (Br l s v r) x =
     (if s = 1 then 1
      else if lt_val l < x then int (lt_size l) + ly_Rank r x else ly_Rank l x)"

definition ly_pre :: "leaf_tree \<Rightarrow> int \<Rightarrow> int" where
  "ly_pre root x = ly_find root (ly_Rank root x - 1)"

definition ly_nxt :: "leaf_tree \<Rightarrow> int \<Rightarrow> int" where
  "ly_nxt root x = ly_find root (ly_Rank root (x + 1))"

text \<open>The numbers \<open>debug\<close> prints.\<close>

fun ly_debug :: "leaf_tree \<Rightarrow> int list" where
  "ly_debug (Lf v) = [v]"
| "ly_debug (Br l s v r) = ly_debug l @ (if s = 1 then [v] else []) @ ly_debug r"

record leafy =
  ly_root :: leaf_tree
  ly_cnt :: nat

fun ly_step :: "leafy \<Rightarrow> bag_op \<Rightarrow> (leafy \<times> int list) option" where
  "ly_step T (BInsert a) = do {
     (u, cnt) \<leftarrow> ly_insert (ly_root T) a (ly_cnt T);
     Some (\<lparr>ly_root = u, ly_cnt = cnt\<rparr>, [])
   }"
| "ly_step T (BDelete a) = do {
     (u, cnt) \<leftarrow> ly_erase (ly_root T) a (ly_cnt T);
     Some (\<lparr>ly_root = u, ly_cnt = cnt\<rparr>, [])
   }"
| "ly_step T (BRank a) = Some (T, [ly_Rank (ly_root T) a])"
| "ly_step T (BKth a) = Some (T, [ly_find (ly_root T) a])"
| "ly_step T (BPred a) = Some (T, [ly_pre (ly_root T) a])"
| "ly_step T (BSucc a) = Some (T, [ly_nxt (ly_root T) a])"

definition ly_main :: "bag_op list \<Rightarrow> (leafy \<times> int list) option" where
  "ly_main ops = run_bag ly_step \<lparr>ly_root = Lf 2147483647, ly_cnt = 0\<rparr> ops"

section \<open>Rotations\<close>

lemma free_new: "new_Node cnt \<bind> (\<lambda>c. free_Node c \<bind> f) = (if cnt \<le> 200000 then f cnt else None)"
  by (simp add: new_Node_def free_Node_def)

lemma ly_rotate_right_ok:
  assumes "lt_ok l" and "lt_ok r" and "cnt \<le> 200000"
  shows "\<exists>l' r'. ly_rotate_right l r cnt = Some (l', r', cnt) \<and> lt_ok l' \<and> lt_ok r' \<and>
    lt_list l' @ lt_list r' = lt_list l @ lt_list r \<and> lt_size l' + lt_size r' = lt_size l + lt_size r \<and> lt_val r' = lt_val r"
  using assms lt_size_pos [OF assms(2)]
  by (cases l) (auto simp: ly_rotate_right_def ly_merge_def new_Node_def free_Node_def)

lemma ly_rotate_left_ok:
  assumes "lt_ok l" and "lt_ok r" and "cnt \<le> 200000"
  shows "\<exists>l' r'. ly_rotate_left l r cnt = Some (l', r', cnt) \<and> lt_ok l' \<and> lt_ok r' \<and>
    lt_list l' @ lt_list r' = lt_list l @ lt_list r \<and> lt_size l' + lt_size r' = lt_size l + lt_size r \<and> lt_val r' = lt_val r"
  using assms lt_size_pos [OF assms(1)]
  by (cases r) (auto simp: ly_rotate_left_def ly_merge_def new_Node_def free_Node_def)

text \<open>\<open>update(u), rotate(u)\<close> sets the fields of the node and keeps the leaves in order.\<close>

lemma ly_update_ok:
  assumes "lt_ok l" and "lt_ok r" and "cnt \<le> 200000"
  shows "\<exists>u. ly_update (Br l s v r) cnt = Some (u, cnt) \<and> lt_ok u \<and> lt_list u = lt_list l @ lt_list r"
proof -
  obtain l1 r1 where 1: "ly_rotate_right l r cnt = Some (l1, r1, cnt)" "lt_ok l1" "lt_ok r1"
      "lt_list l1 @ lt_list r1 = lt_list l @ lt_list r" "lt_size l1 + lt_size r1 = lt_size l + lt_size r" "lt_val r1 = lt_val r"
    using ly_rotate_right_ok [OF assms] by blast
  obtain l2 r2 where 2: "ly_rotate_left l1 r1 cnt = Some (l2, r2, cnt)" "lt_ok l2" "lt_ok r2"
      "lt_list l2 @ lt_list r2 = lt_list l1 @ lt_list r1" "lt_size l2 + lt_size r2 = lt_size l1 + lt_size r1" "lt_val r2 = lt_val r1"
    using ly_rotate_left_ok [OF 1(2,3) assms(3)] by blast
  show ?thesis
    using 1 2 lt_size_pos [OF assms(1)] by (simp add: ly_update_def ly_rotate_def)
qed

lemma ly_update_leaf: "ly_update (Lf v) cnt = Some (Lf v, cnt)"
  by (simp add: ly_update_def)

lemma ly_update_any:
  assumes "lt_ok u" and "cnt \<le> 200000"
  shows "\<exists>u'. ly_update u cnt = Some (u', cnt) \<and> lt_ok u' \<and> lt_list u' = lt_list u"
  using assms ly_update_ok ly_update_leaf by (cases u) fastforce+

section \<open>Insertion and deletion\<close>

lemma ly_size_not_one: "lt_ok (Br l s v r) \<Longrightarrow> s \<noteq> Suc 0"
  using lt_size_one [of "Br l s v r"] by simp

lemma ly_insert_ok:
  assumes "lt_ok t" and "sorted (lt_list t)" and "cnt + 2 \<le> 200000"
  shows "\<exists>t'. ly_insert t x cnt = Some (t', cnt + 2) \<and> lt_ok t' \<and> lt_list t' = insort x (lt_list t)"
  using assms
proof (induction t arbitrary: cnt)
  case (Lf v)
  have "ly_insert (Lf v) x cnt = ly_update (Br (Lf (min v x)) 1 v (Lf (max v x))) (cnt + 2)"
    using Lf.prems(3) by (simp add: ly_split_leaf_def new_Node_def min_def max_def)
  then show ?case
    using ly_update_ok [of "Lf (min v x)" "Lf (max v x)" "cnt + 2" 1 v] Lf.prems(3)
    by (auto simp: min_def max_def)
next
  case (Br l s v r)
  have ok: "lt_ok l" "lt_ok r" "sorted (lt_list l)" "sorted (lt_list r)" "s \<noteq> 1"
    using Br.prems ly_size_not_one by (auto simp: sorted_append)
  show ?case
  proof (cases "x > lt_val l")
    case True
    obtain r' where r': "ly_insert r x cnt = Some (r', cnt + 2)" "lt_ok r'" "lt_list r' = insort x (lt_list r)"
      using Br.IH(2) [OF ok(2,4) Br.prems(3)] by blast
    show ?thesis
      using True ok r' ly_update_ok [OF ok(1) r'(2) Br.prems(3), of s v] Br.prems(2)
        insort_leaves(2) [of "lt_list l" "lt_list r" x] by (auto simp: lt_val_last)
  next
    case False
    obtain l' where l': "ly_insert l x cnt = Some (l', cnt + 2)" "lt_ok l'" "lt_list l' = insort x (lt_list l)"
      using Br.IH(1) [OF ok(1,3) Br.prems(3)] by blast
    show ?thesis
      using False ok l' ly_update_ok [OF l'(2) ok(2) Br.prems(3), of s v] Br.prems(2)
        insort_leaves(1) [of "lt_list l" "lt_list r" x] by (auto simp: lt_val_last)
  qed
qed

lemma ly_erase_ok:
  assumes "lt_ok t" and "sorted (lt_list t)" and "x \<in> set (lt_list t)" and "2 \<le> length (lt_list t)"
    and "2 \<le> cnt" and "cnt \<le> 200000"
  shows "\<exists>t'. ly_erase t x cnt = Some (t', cnt - 2) \<and> lt_ok t' \<and> lt_list t' = remove1 x (lt_list t)"
  using assms
proof (induction t)
  case (Br l s v r)
  have ok: "lt_ok l" "lt_ok r" "sorted (lt_list l)" "sorted (lt_list r)" "s \<noteq> 1"
    using Br.prems ly_size_not_one by (auto simp: sorted_append)
  have free: "free_Node cnt \<bind> (\<lambda>c. free_Node c \<bind> f) = f (cnt - 2)" for f :: "nat \<Rightarrow> (leaf_tree \<times> nat) option"
    using Br.prems(5) by (simp add: free_Node_def numeral_2_eq_2)
  have upd: "\<exists>u'. ly_update u (cnt - 2) = Some (u', cnt - 2) \<and> lt_ok u' \<and> lt_list u' = lt_list u" if "lt_ok u" for u
    using ly_update_any [OF that, of "cnt - 2"] Br.prems(6) by auto
  have node: "\<exists>u. ly_update (Br l' s v r') (cnt - 2) = Some (u, cnt - 2) \<and> lt_ok u \<and> lt_list u = lt_list l' @ lt_list r'"
    if "lt_ok l'" "lt_ok r'" for l' r'
    using ly_update_ok [OF that, of "cnt - 2" s v] Br.prems(6) by simp
  note rem = remove1_leaves [of "lt_list l" "lt_list r" x]
  consider "l = Lf x" | "l \<noteq> Lf x" "r = Lf x" | "l \<noteq> Lf x" "r \<noteq> Lf x" "x > lt_val l" | "l \<noteq> Lf x" "r \<noteq> Lf x" "x \<le> lt_val l"
    by fastforce
  then show ?case
  proof cases
    case 1
    then show ?thesis
      using upd [OF ok(2)] free by auto
  next
    case 2
    then have "remove1 x (lt_list l @ lt_list r) = lt_list l"
      using remove1_snoc [of "lt_list l" x] Br.prems(2) by simp
    then show ?thesis
      using 2 upd [OF ok(1)] free ok lt_size_one [of l] by auto
  next
    case 3
    then have mem: "x \<in> set (lt_list r)" "remove1 x (lt_list l @ lt_list r) = lt_list l @ remove1 x (lt_list r)"
      using rem(2) Br.prems(2,3) ok(1) by (auto simp: lt_val_last)
    then have "2 \<le> length (lt_list r)"
      using 3(2) by (intro lt_two_leaves)
    then obtain r' where "ly_erase r x cnt = Some (r', cnt - 2)" "lt_ok r'" "lt_list r' = remove1 x (lt_list r)"
      using Br.IH(2) [OF ok(2,4) mem(1) _ Br.prems(5,6)] by blast
    then show ?thesis
      using 3 mem(2) ok node [of l r'] lt_size_one [of l] lt_size_one [of r] by auto
  next
    case 4
    then have mem: "x \<in> set (lt_list l)" "remove1 x (lt_list l @ lt_list r) = remove1 x (lt_list l) @ lt_list r"
      using rem(1) Br.prems(2,3) ok(1) by (auto simp: lt_val_last)
    then have "2 \<le> length (lt_list l)"
      using 4(1) by (intro lt_two_leaves)
    then obtain l' where "ly_erase l x cnt = Some (l', cnt - 2)" "lt_ok l'" "lt_list l' = remove1 x (lt_list l)"
      using Br.IH(1) [OF ok(1,3) mem(1) _ Br.prems(5,6)] by blast
    then show ?thesis
      using 4 mem(2) ok node [of l' r] lt_size_one [of l] lt_size_one [of r] by auto
  qed
qed simp

section \<open>Queries\<close>

lemma ly_find_eq:
  assumes "lt_ok t" and "1 \<le> k" and "k \<le> int (length (lt_list t))"
  shows "ly_find t k = lt_list t ! nat (k - 1)"
  using assms
proof (induction t arbitrary: k)
  case (Br l s v r)
  have s: "s \<noteq> 1"
    using ly_size_not_one [OF Br.prems(1)] by simp
  show ?case
  proof (cases "int (length (lt_list l)) < k")
    case True
    then have "nat (k - 1) - length (lt_list l) = nat (k - int (length (lt_list l)) - 1)"
        "\<not> nat (k - 1) < length (lt_list l)"
      by linarith+
    then show ?thesis
      using True s Br by (simp add: lt_size_list nth_append)
  next
    case False
    then have "nat (k - 1) < length (lt_list l)"
      using Br.prems(2) by linarith
    then show ?thesis
      using False s Br by (simp add: lt_size_list nth_append)
  qed
qed simp

lemma ly_Rank_eq:
  assumes "lt_ok t" and "sorted (lt_list t)" and "x \<le> last (lt_list t)"
  shows "ly_Rank t x = int (length (filter (\<lambda>y. y < x) (lt_list t))) + 1"
  using assms
proof (induction t)
  case (Br l s v r)
  have s: "s \<noteq> 1"
    using ly_size_not_one [OF Br.prems(1)] by simp
  have srt: "sorted (lt_list l @ lt_list r)"
    using Br.prems(2) by simp
  show ?case
    using s Br filter_less_leaves [OF srt, of x]
    by (cases "lt_val l < x") (auto simp: lt_size_list lt_val_last sorted_append)
qed simp

lemma ly_debug_eq: "lt_ok t \<Longrightarrow> ly_debug t = lt_list t"
  using ly_size_not_one by (induction t) auto

section \<open>The program and the sorted list\<close>

text \<open>The tree has the numbers and the sentinel; \<open>cap\<close> more insertions leave at most 100000 numbers.\<close>

definition ly_stands :: "leafy \<Rightarrow> nat \<Rightarrow> int list \<Rightarrow> bool" where
  "ly_stands T cap xs = (lt_ok (ly_root T) \<and> lt_list (ly_root T) = xs @ [2147483647] \<and> sorted xs \<and>
     (\<forall>x \<in> set xs. x < 2147483647) \<and> ly_cnt T = 2 * length xs \<and> length xs + cap \<le> 100000)"

lemma ly_standsD:
  assumes "ly_stands T cap xs"
  shows "lt_ok (ly_root T)" "lt_list (ly_root T) = xs @ [2147483647]" "sorted xs" "\<forall>x \<in> set xs. x < 2147483647"
    "ly_cnt T = 2 * length xs" "length xs + cap \<le> 100000" "sorted (xs @ [2147483647])"
  using assms by (auto simp: ly_stands_def sorted_append)

lemma ly_step_insert:
  assumes "ly_stands T (Suc cap) xs" and "x < 2147483647"
  shows "\<exists>T'. ly_step T (BInsert x) = Some (T', []) \<and> ly_stands T' cap (insort x xs)"
proof -
  note d = ly_standsD [OF assms(1)]
  have "insort x (xs @ [2147483647]) = insort x xs @ [2147483647]"
    using assms(2) by (intro insort_append(1)) simp
  then show ?thesis
    using ly_insert_ok [OF d(1), of "ly_cnt T" x] d assms(2)
    by (auto simp: ly_stands_def set_insort_key sorted_insort)
qed

lemma ly_step_delete:
  assumes "ly_stands T cap xs" and "x \<in> set xs"
  shows "\<exists>T'. ly_step T (BDelete x) = Some (T', []) \<and> ly_stands T' cap (remove1 x xs)"
proof -
  note d = ly_standsD [OF assms(1)]
  have len: "1 \<le> length xs" "length xs \<le> 100000"
    using length_pos_if_in_set [OF assms(2)] d(6) by linarith+
  obtain t' where t': "ly_erase (ly_root T) x (ly_cnt T) = Some (t', ly_cnt T - 2)" "lt_ok t'"
      "lt_list t' = remove1 x xs @ [2147483647]"
    using ly_erase_ok [OF d(1), of x "ly_cnt T"] d(2,5,7) len assms(2) by (auto simp: remove1_append)
  have "\<forall>y \<in> set (remove1 x xs). y < 2147483647"
    using d(4) set_remove1_subset [of x xs] by blast
  then show ?thesis
    using t' d len assms(2) by (auto simp: ly_stands_def length_remove1 sorted_remove1)
qed

lemma ly_rank_stands:
  assumes "ly_stands T cap xs" and "x \<le> 2147483647"
  shows "ly_Rank (ly_root T) x = int (length (filter (\<lambda>y. y < x) xs)) + 1"
  using ly_standsD [OF assms(1)] ly_Rank_eq [of "ly_root T" x] assms(2) by simp

lemma ly_find_stands:
  assumes "ly_stands T cap xs" and "1 \<le> k" and "k \<le> int (length xs) + 1"
  shows "ly_find (ly_root T) k = id ((xs @ [2147483647]) ! nat (k - 1))"
  using ly_standsD [OF assms(1)] ly_find_eq [of "ly_root T" k] assms(2,3) by simp

text \<open>Every query on a bag, those without an answer included.\<close>

lemma ly_step_query:
  assumes "ly_stands T cap xs"
  shows "x \<le> 2147483647 \<Longrightarrow> ly_step T (BRank x) = Some (T, [int (length (filter (\<lambda>y. y < x) xs)) + 1])"
    and "1 \<le> k \<Longrightarrow> k \<le> int (length xs) \<Longrightarrow> ly_step T (BKth k) = Some (T, [xs ! nat (k - 1)])"
    and "\<exists>y \<in> set xs. y < x \<Longrightarrow> x \<le> 2147483647 \<Longrightarrow> ly_step T (BPred x) = Some (T, [last (filter (\<lambda>y. y < x) xs)])"
    and "x < 2147483647 \<Longrightarrow> ly_step T (BSucc x) =
      Some (T, [if \<exists>y \<in> set xs. x < y then hd (filter (\<lambda>y. x < y) xs) else 2147483647])"
proof -
  note d = ly_standsD [OF assms] and find = ly_find_stands [OF assms] and rank = ly_rank_stands [OF assms]
  show "ly_step T (BRank x) = Some (T, [int (length (filter (\<lambda>y. y < x) xs)) + 1])" if "x \<le> 2147483647"
    using rank [OF that] by simp
  show "ly_step T (BKth k) = Some (T, [xs ! nat (k - 1)])" if "1 \<le> k" "k \<le> int (length xs)"
  proof -
    have "nat (k - 1) < length xs"
      using that by linarith
    then show ?thesis
      using find [of k] that by (simp add: nth_append)
  qed
  show "ly_step T (BPred x) = Some (T, [last (filter (\<lambda>y. y < x) xs)])"
    if "\<exists>y \<in> set xs. y < x" "x \<le> 2147483647"
    using kth_pred [of xs x _ "ly_find (ly_root T)" id 2147483647, OF d(3) that(1) rank [OF that(2)] find] by (simp add: ly_pre_def)
  show "ly_step T (BSucc x) =
      Some (T, [if \<exists>y \<in> set xs. x < y then hd (filter (\<lambda>y. x < y) xs) else 2147483647])"
    if "x < 2147483647"
    using kth_succ [of xs _ x "ly_find (ly_root T)" id 2147483647, OF d(3) rank [of "x + 1"] find] that by (simp add: ly_nxt_def)
qed

interpretation leafy: ordered_bag ly_step ly_stands 2147483647
proof
  fix T cap xs op
  assume st: "ly_stands T cap xs" "answered xs op" "operand op \<le> 2147483647"
    and q: "\<forall>x. op \<noteq> BInsert x \<and> op \<noteq> BDelete x"
  show "ly_step T op = Some (T, snd (ref_bag xs op))"
  proof (cases op)
    case (BSucc x)
    then show ?thesis
      using st ly_step_query(4) [OF st(1), of x] ly_standsD(4) [OF st(1)] by force
  qed (use st q ly_step_query(1-3) [OF st(1)] in auto)
next
  show "ly_stands T cap xs \<Longrightarrow> sorted xs" for T cap xs
    by (simp add: ly_stands_def)
  show "ly_stands T (Suc cap) xs \<Longrightarrow> x < 2147483647 \<Longrightarrow>
      \<exists>m'. ly_step T (BInsert x) = Some (m', []) \<and> ly_stands m' cap (insort x xs)" for T cap xs x
    by (rule ly_step_insert)
  show "ly_stands T cap xs \<Longrightarrow> x \<in> set xs \<Longrightarrow>
      \<exists>m'. ly_step T (BDelete x) = Some (m', []) \<and> ly_stands m' cap (remove1 x xs)" for T cap xs x
    by (rule ly_step_delete)
qed

lemma ly_main_run:
  assumes "valid_input 100000 2147483647 [] ops"
  shows "\<exists>T cap. ly_main ops = Some (T, snd (ref_bags [] ops)) \<and> ly_stands T cap (fst (ref_bags [] ops))"
  unfolding ly_main_def by (rule leafy.run_refines [OF _ assms]) (simp add: ly_stands_def)

text \<open>C38. On an input of at most 100000 insertions of numbers below the sentinel 2147483647 whose operations have an answer the leafy tree ends, never runs out of
  free nodes, and prints what the sorted list gives. In the end the leaves are the numbers of the bag in order, then the
  sentinel, and two nodes are in use per number.\<close>

theorem leafy_main_correct:
  assumes "valid_input 100000 2147483647 [] ops"
  shows "\<exists>T. ly_main ops = Some (T, snd (ref_bags [] ops)) \<and> lt_ok (ly_root T) \<and>
    ly_debug (ly_root T) = fst (ref_bags [] ops) @ [2147483647] \<and> ly_cnt T = 2 * length (fst (ref_bags [] ops))"
  using ly_main_run [OF assms] by (auto simp: ly_stands_def ly_debug_eq)

theorem leafy_main_correct_witness:
  "\<exists>T. ly_main [BInsert 5, BInsert 3, BInsert 5, BRank 5, BDelete 5, BKth 2, BPred 5] = Some (T, [2, 5, 3]) \<and>
    lt_ok (ly_root T) \<and> ly_debug (ly_root T) = [3, 5, 2147483647] \<and> ly_cnt T = 4"
  using leafy_main_correct [of "[BInsert 5, BInsert 3, BInsert 5, BRank 5, BDelete 5, BKth 2, BPred 5]"]
  by simp

lemma ly_erase_absent:
  assumes "lt_ok t" and "x \<notin> set (lt_list t)"
  shows "ly_erase t x cnt = None"
  using assms
proof (induction t arbitrary: cnt)
  case (Br l s v r)
  have "\<not> (lt_size l = 1 \<and> lt_val l = x)" "\<not> (lt_size r = 1 \<and> lt_val r = x)"
    using Br.prems lt_size_one [of l] lt_size_one [of r] by auto
  then show ?case
    using Br by auto
qed simp

lemma ly_find_outside:
  assumes "lt_ok t"
  shows "k \<le> 1 \<Longrightarrow> ly_find t k = hd (lt_list t)" and "int (length (lt_list t)) \<le> k \<Longrightarrow> ly_find t k = last (lt_list t)"
proof -
  show "ly_find t k = hd (lt_list t)" if "k \<le> 1"
    using that assms
  proof (induction t arbitrary: k)
    case (Br l s v r)
    have "0 < lt_size l"
      using Br.prems(2) by simp
    then have "\<not> int (lt_size l) < k"
      using Br.prems(1) by linarith
    then show ?case
      using ly_size_not_one [OF Br.prems(2)] Br by auto
  qed simp
  show "ly_find t k = last (lt_list t)" if "int (length (lt_list t)) \<le> k"
    using that assms
  proof (induction t arbitrary: k)
    case (Br l s v r)
    have "0 < length (lt_list r)"
      by simp
    then have "int (length (lt_list l)) < k"
      using Br.prems(1) by (simp only: lt_list.simps length_append)
    then show ?case
      using ly_size_not_one [OF Br.prems(2)] Br by (simp add: lt_size_list)
  qed simp
qed

text \<open>The operations of the leafy tree that have no answer: erasing a number that is not in the bag follows a null pointer (the
  program does not come back), a position outside the bag gives the smallest number or the sentinel, a number without
  predecessor gets the smallest number and one without successor the sentinel.\<close>

theorem leafy_unanswered:
  assumes "ly_stands T cap xs" and "x < 2147483647"
  shows "(x \<notin> set xs \<longrightarrow> ly_step T (BDelete x) = None) \<and>
    (k < 1 \<longrightarrow> ly_step T (BKth k) = Some (T, [hd (xs @ [2147483647])])) \<and>
    (int (length xs) < k \<longrightarrow> ly_step T (BKth k) = Some (T, [2147483647])) \<and>
    (\<not> answered xs (BPred x) \<longrightarrow> ly_step T (BPred x) = Some (T, [hd (xs @ [2147483647])])) \<and>
    (\<not> answered xs (BSucc x) \<longrightarrow> ly_step T (BSucc x) = Some (T, [2147483647]))"
proof -
  note d = ly_standsD [OF assms(1)]
  have "ly_pre (ly_root T) x = hd (xs @ [2147483647])" if "\<not> answered xs (BPred x)"
  proof -
    have "filter (\<lambda>y. y < x) xs = []"
      using that by (auto simp: filter_empty_conv)
    then have "ly_Rank (ly_root T) x = 1"
      using ly_rank_stands [OF assms(1), of x] assms(2) by simp
    then show ?thesis
      using ly_find_outside(1) [OF d(1), of 0] d(2) by (simp add: ly_pre_def)
  qed
  then show ?thesis
    using ly_erase_absent [OF d(1), of x "ly_cnt T"] ly_find_outside [OF d(1), of k] ly_step_query(4) [OF assms] d(2) assms(2)
    by auto
qed

theorem leafy_unanswered_witness:
  "ly_step \<lparr>ly_root = Br (Lf 4) 2 2147483647 (Lf 2147483647), ly_cnt = 2\<rparr> (BDelete 6) = None"
  using leafy_unanswered [of "\<lparr>ly_root = Br (Lf 4) 2 2147483647 (Lf 2147483647), ly_cnt = 2\<rparr>" 3 "[4]" 6]
  by (simp add: ly_stands_def)

end
