(* ===== verification/Wblt.thy ===== *)
theory Wblt
  imports LeafTree
begin

text \<open>
  The weight-balanced leafy tree of \<^verbatim>\<open>wblt/wblt_1.cpp\<close>. Nodes are never reused: \<open>cnt\<close> counts the nodes made so far and
  the arrays have room for indices below \<open>MAX = 2000005\<close>. Index 0 stands for no node, with size 0.
\<close>

section \<open>The program\<close>

fun lf_l :: "leaf_tree \<Rightarrow> nat" where
  "lf_l (Lf v) = 0"
| "lf_l (Br l s v r) = lt_size l"

fun lf_r :: "leaf_tree \<Rightarrow> nat" where
  "lf_r (Lf v) = 0"
| "lf_r (Br l s v r) = lt_size r"

text \<open>\<open>add\<close>: the next index. A leaf has no children, \<open>merge\<close> makes an inner node.\<close>

definition wb_add :: "nat \<Rightarrow> nat option" where
  "wb_add cnt = do { assert (cnt + 1 < 2000005); Some (cnt + 1) }"

definition wb_merge :: "leaf_tree \<Rightarrow> leaf_tree \<Rightarrow> nat \<Rightarrow> (leaf_tree \<times> nat) option" where
  "wb_merge x y cnt = do {
     cnt \<leftarrow> wb_add cnt;
     Some (Br x (lt_size x + lt_size y) (lt_val y) y, cnt)
   }"

definition wb_upd :: "leaf_tree \<Rightarrow> leaf_tree" where
  "wb_upd x = (case x of Lf v \<Rightarrow> Lf v | Br l s v r \<Rightarrow> Br l (lt_size l + lt_size r) (lt_val r) r)"

text \<open>\<open>rot\<close>; a rotation without the child it needs has no result.\<close>

definition wb_rot :: "leaf_tree \<Rightarrow> bool \<Rightarrow> nat \<Rightarrow> (leaf_tree \<times> nat) option" where
  "wb_rot x flag cnt =
     (if \<not> flag then
        (case x of
           Br (Br ll ls lv lr) s v r \<Rightarrow> do { (r, cnt) \<leftarrow> wb_merge lr r cnt; Some (Br ll s v r, cnt) }
         | _ \<Rightarrow> None)
      else
        (case x of
           Br l s v (Br rl rs rv rr) \<Rightarrow> do { (l, cnt) \<leftarrow> wb_merge l rl cnt; Some (Br l s v rr, cnt) }
         | _ \<Rightarrow> None))"

definition wb_mat :: "leaf_tree \<Rightarrow> nat \<Rightarrow> (leaf_tree \<times> nat) option" where
  "wb_mat x cnt =
     (case x of
        Lf v \<Rightarrow> Some (x, cnt)
      | Br l s v r \<Rightarrow>
          if lt_size l > lt_size r * 3 then do {
            (l, cnt) \<leftarrow> (if lf_r l > lf_l l * 2 then wb_rot l True cnt else Some (l, cnt));
            wb_rot (Br l s v r) False cnt
          }
          else if lt_size r > lt_size l * 3 then do {
            (r, cnt) \<leftarrow> (if lf_l r > lf_r r * 2 then wb_rot r False cnt else Some (r, cnt));
            wb_rot (Br l s v r) True cnt
          }
          else Some (x, cnt))"

fun wb_ins :: "leaf_tree \<Rightarrow> int \<Rightarrow> nat \<Rightarrow> (leaf_tree \<times> nat) option" where
  "wb_ins (Lf w) v cnt = do {
     cnt \<leftarrow> wb_add cnt;
     cnt \<leftarrow> wb_add cnt;
     wb_mat (wb_upd (Br (Lf (min v w)) 1 w (Lf (max v w)))) cnt
   }"
| "wb_ins (Br l s w r) v cnt =
     (if lt_val l \<ge> v then do {
        (l, cnt) \<leftarrow> wb_ins l v cnt;
        wb_mat (wb_upd (Br l s w r)) cnt
      }
      else do {
        (r, cnt) \<leftarrow> wb_ins r v cnt;
        wb_mat (wb_upd (Br l s w r)) cnt
      })"

text \<open>What a call of \<open>del\<close> on a leaf below \<open>fa\<close> makes of \<open>fa\<close>: \<open>cp\<close> copies the other child over it.\<close>

definition wb_cp :: "leaf_tree \<Rightarrow> nat \<Rightarrow> int \<Rightarrow> leaf_tree \<Rightarrow> int \<Rightarrow> leaf_tree" where
  "wb_cp l s w r v = (if lt_val l = v then r else if lt_val r = v then l else Br l s w r)"

text \<open>\<open>del\<close> on a node with its father's frame; for the root there is none, and index -1 is outside the arrays.\<close>

fun wb_del :: "leaf_tree \<Rightarrow> int \<Rightarrow> nat \<Rightarrow> (leaf_tree \<times> nat) option" where
  "wb_del (Lf w) v cnt = None"
| "wb_del (Br l s w r) v cnt =
     (if lt_val l \<ge> v then do {
        (x, cnt) \<leftarrow> (case l of
             Lf _ \<Rightarrow> Some (wb_cp l s w r v, cnt)
           | Br _ _ _ _ \<Rightarrow> do { (l, cnt) \<leftarrow> wb_del l v cnt; Some (Br l s w r, cnt) });
        wb_mat (wb_upd x) cnt
      }
      else do {
        (x, cnt) \<leftarrow> (case r of
             Lf _ \<Rightarrow> Some (wb_cp l s w r v, cnt)
           | Br _ _ _ _ \<Rightarrow> do { (r, cnt) \<leftarrow> wb_del r v cnt; Some (Br l s w r, cnt) });
        wb_mat (wb_upd x) cnt
      })"

fun wb_rnk :: "leaf_tree \<Rightarrow> int \<Rightarrow> int" where
  "wb_rnk (Lf w) v = 1"
| "wb_rnk (Br l s w r) v =
     (if s = 1 then 1
      else if lt_val l \<ge> v then wb_rnk l v else wb_rnk r v + int (lt_size l))"

text \<open>\<open>kth\<close>; at index 0 the size is 0 and the value 0, and any other position recurs there for ever.\<close>

definition wb_kth_0 :: "int \<Rightarrow> int option" where
  "wb_kth_0 v = (if v = 0 then Some 0 else None)"

fun wb_kth :: "leaf_tree \<Rightarrow> int \<Rightarrow> int option" where
  "wb_kth (Lf w) v = (if v = 1 then Some w else wb_kth_0 v)"
| "wb_kth (Br l s w r) v =
     (if int s = v then Some w
      else if int (lt_size l) \<ge> v then wb_kth l v else wb_kth r (v - int (lt_size l)))"

definition wb_pre :: "leaf_tree \<Rightarrow> int \<Rightarrow> int option" where
  "wb_pre rt x = wb_kth rt (wb_rnk rt x - 1)"

definition wb_nxt :: "leaf_tree \<Rightarrow> int \<Rightarrow> int option" where
  "wb_nxt rt x = wb_kth rt (wb_rnk rt (x + 1))"

record wblt =
  wb_rt :: leaf_tree
  wb_cnt :: nat

fun wb_step :: "wblt \<Rightarrow> bag_op \<Rightarrow> (wblt \<times> int list) option" where
  "wb_step T (BInsert t) = do {
     (x, cnt) \<leftarrow> wb_ins (wb_rt T) t (wb_cnt T);
     Some (\<lparr>wb_rt = x, wb_cnt = cnt\<rparr>, [])
   }"
| "wb_step T (BDelete t) = do {
     (x, cnt) \<leftarrow> wb_del (wb_rt T) t (wb_cnt T);
     Some (\<lparr>wb_rt = x, wb_cnt = cnt\<rparr>, [])
   }"
| "wb_step T (BRank t) = Some (T, [wb_rnk (wb_rt T) t])"
| "wb_step T (BKth t) = do { a \<leftarrow> wb_kth (wb_rt T) t; Some (T, [a]) }"
| "wb_step T (BPred t) = do { a \<leftarrow> wb_pre (wb_rt T) t; Some (T, [a]) }"
| "wb_step T (BSucc t) = do { a \<leftarrow> wb_nxt (wb_rt T) t; Some (T, [a]) }"

definition wb_main :: "bag_op list \<Rightarrow> (wblt \<times> int list) option" where
  "wb_main ops = run_bag wb_step \<lparr>wb_rt = Lf 2147483647, wb_cnt = 1\<rparr> ops"

section \<open>Balance\<close>

text \<open>Neither child has more than three times the leaves of the other, up to \<open>d\<close>.\<close>

fun wb_bal :: "nat \<Rightarrow> leaf_tree \<Rightarrow> bool" where
  "wb_bal d (Lf v) = True"
| "wb_bal d (Br l s v r) =
     (lt_size l \<le> 3 * lt_size r + d \<and> lt_size r \<le> 3 * lt_size l + d \<and> wb_bal d l \<and> wb_bal d r)"

fun wb_height :: "leaf_tree \<Rightarrow> nat" where
  "wb_height (Lf v) = 0"
| "wb_height (Br l s v r) = Suc (max (wb_height l) (wb_height r))"

text \<open>The sizes after a single and after a double rotation.\<close>

lemma single_rotation:
  fixes ll lr r d :: nat
  assumes "3 * r < ll + lr" and "lr \<le> 2 * ll" and "ll \<le> 3 * lr + d" and "0 < r"
    and "d = 1 \<and> ll + lr \<le> 3 * r + 4 \<or> d = 0 \<and> ll + lr \<le> 3 * r + 1"
  shows "lr \<le> 3 * r + d \<and> r \<le> 3 * lr + d \<and> ll \<le> 3 * lr + 3 * r + d \<and> lr + r \<le> 3 * ll + d"
  using assms by (elim disjE conjE) (intro conjI; linarith)+

lemma double_rotation:
  fixes ll a b r d :: nat
  assumes "3 * r < ll + (a + b)" and "2 * ll < a + b" and "a + b \<le> 3 * ll + d" and "a \<le> 3 * b + d" and "b \<le> 3 * a + d"
    and "0 < r" and "0 < ll" and "0 < a" and "0 < b"
    and "d = 1 \<and> ll + (a + b) \<le> 3 * r + 4 \<or> d = 0 \<and> ll + (a + b) \<le> 3 * r + 1"
  shows "ll \<le> 3 * a + d \<and> a \<le> 3 * ll + d \<and> b \<le> 3 * r + d \<and> r \<le> 3 * b + d \<and>
    ll + a \<le> 3 * b + 3 * r + d \<and> b + r \<le> 3 * ll + 3 * a + d"
  using assms by (elim disjE conjE) (intro conjI; linarith)+

text \<open>\<open>mat\<close> on a node whose fields are right: the leaves stay in order, at most two nodes are made, and a tree that is out of
  balance by one insertion or one deletion is balanced again.\<close>

definition wb_near :: "nat \<Rightarrow> leaf_tree \<Rightarrow> leaf_tree \<Rightarrow> bool" where
  "wb_near d l r = (wb_bal d l \<and> wb_bal d r \<and>
     (d = 1 \<and> lt_size l \<le> 3 * lt_size r + 4 \<and> lt_size r \<le> 3 * lt_size l + 4 \<or>
      d = 0 \<and> lt_size l \<le> 3 * lt_size r + 1 \<and> lt_size r \<le> 3 * lt_size l + 1))"

definition wb_matted :: "leaf_tree \<Rightarrow> leaf_tree \<Rightarrow> nat \<Rightarrow> bool" where
  "wb_matted l r cnt = (\<exists>t c. wb_mat (Br l (lt_size l + lt_size r) (lt_val r) r) cnt = Some (t, c) \<and> c \<le> cnt + 2 \<and>
     lt_ok t \<and> lt_list t = lt_list l @ lt_list r \<and> (\<forall>d. wb_near d l r \<longrightarrow> wb_bal d t))"

lemma wb_mat_right:
  assumes "lt_ok l" and "lt_ok r" and "lt_size l > lt_size r * 3" and "cnt + 2 \<le> 2000004"
  shows "wb_matted l r cnt"
proof -
  have r: "0 < lt_size r"
    using assms(2) by simp
  obtain ll ls lv lr where l: "l = Br ll ls lv lr"
    using assms(3) r by (cases l) auto
  have s: "ls = lt_size ll + lt_size lr" "lv = lt_val lr" "lt_ok ll" "lt_ok lr" "0 < lt_size ll" "0 < lt_size lr"
    using assms(1) l by auto
  show ?thesis
  proof (cases "lt_size lr > lt_size ll * 2")
    case False
    then have "wb_mat (Br l (lt_size l + lt_size r) (lt_val r) r) cnt =
        Some (Br ll (lt_size l + lt_size r) (lt_val r) (Br lr (lt_size lr + lt_size r) (lt_val r) r), Suc cnt)"
      using assms(3,4) l s by (simp add: wb_mat_def wb_rot_def wb_merge_def wb_add_def)
    moreover have "wb_bal d (Br ll (lt_size l + lt_size r) (lt_val r) (Br lr (lt_size lr + lt_size r) (lt_val r) r))"
      if "wb_near d l r" for d
      using single_rotation [of "lt_size r" "lt_size ll" "lt_size lr" d] that False assms(3) l s r
      by (auto simp: wb_near_def)
    ultimately show ?thesis
      using assms(2) l s by (auto simp: wb_matted_def)
  next
    case True
    then obtain a as av b where lr: "lr = Br a as av b"
      using s(5) by (cases lr) auto
    have ab: "as = lt_size a + lt_size b" "av = lt_val b" "lt_ok a" "lt_ok b" "0 < lt_size a" "0 < lt_size b"
      using s(4) lr by auto
    let ?t = "Br (Br ll (lt_size ll + lt_size a) (lt_val a) a) (lt_size l + lt_size r) (lt_val r)
      (Br b (lt_size b + lt_size r) (lt_val r) r)"
    have "wb_mat (Br l (lt_size l + lt_size r) (lt_val r) r) cnt = Some (?t, Suc (Suc cnt))"
      using True assms(3,4) l s lr ab by (simp add: wb_mat_def wb_rot_def wb_merge_def wb_add_def)
    moreover have "wb_bal d ?t" if "wb_near d l r" for d
      using double_rotation [of "lt_size r" "lt_size ll" "lt_size a" "lt_size b" d] that True assms(3) l s r lr ab
      by (auto simp: wb_near_def)
    ultimately show ?thesis
      using assms(2) l s lr ab by (auto simp: wb_matted_def)
  qed
qed

lemma wb_mat_left:
  assumes "lt_ok l" and "lt_ok r" and "lt_size r > lt_size l * 3" and "cnt + 2 \<le> 2000004"
  shows "wb_matted l r cnt"
proof -
  have l: "0 < lt_size l"
    using assms(1) by simp
  obtain rl rs rv rr where r: "r = Br rl rs rv rr"
    using assms(3) l by (cases r) auto
  have s: "rs = lt_size rl + lt_size rr" "rv = lt_val rr" "lt_ok rl" "lt_ok rr" "0 < lt_size rl" "0 < lt_size rr"
    using assms(2) r by auto
  have first: "\<not> lt_size l > lt_size r * 3"
    using assms(3) by linarith
  show ?thesis
  proof (cases "lt_size rl > lt_size rr * 2")
    case False
    let ?t = "Br (Br l (lt_size l + lt_size rl) (lt_val rl) rl) (lt_size l + lt_size r) (lt_val r) rr"
    have "wb_mat (Br l (lt_size l + lt_size r) (lt_val r) r) cnt = Some (?t, Suc cnt)"
      using False first assms(3,4) r s by (simp add: wb_mat_def wb_rot_def wb_merge_def wb_add_def)
    moreover have "wb_bal d ?t" if "wb_near d l r" for d
      using single_rotation [of "lt_size l" "lt_size rr" "lt_size rl" d] that False assms(3) l s r
      by (auto simp: wb_near_def)
    ultimately show ?thesis
      using assms(1) r s by (auto simp: wb_matted_def)
  next
    case True
    then obtain a as av b where rl: "rl = Br a as av b"
      using s(6) by (cases rl) auto
    have ab: "as = lt_size a + lt_size b" "av = lt_val b" "lt_ok a" "lt_ok b" "0 < lt_size a" "0 < lt_size b"
      using s(3) rl by auto
    let ?t = "Br (Br l (lt_size l + lt_size a) (lt_val a) a) (lt_size l + lt_size r) (lt_val r)
      (Br b (lt_size b + lt_size rr) (lt_val rr) rr)"
    have "wb_mat (Br l (lt_size l + lt_size r) (lt_val r) r) cnt = Some (?t, Suc (Suc cnt))"
      using True first assms(3,4) r s rl ab by (simp add: wb_mat_def wb_rot_def wb_merge_def wb_add_def)
    moreover have "wb_bal d ?t" if "wb_near d l r" for d
      using double_rotation [of "lt_size l" "lt_size rr" "lt_size b" "lt_size a" d] that True assms(3) l s r rl ab
      by (auto simp: wb_near_def)
    ultimately show ?thesis
      using assms(1) r s rl ab by (auto simp: wb_matted_def)
  qed
qed

lemma wb_mat_ok:
  assumes "lt_ok l" and "lt_ok r" and "cnt + 2 \<le> 2000004"
  shows "wb_matted l r cnt"
proof -
  have "wb_matted l r cnt" if "\<not> lt_size l > lt_size r * 3" "\<not> lt_size r > lt_size l * 3"
    using that assms by (auto simp: wb_matted_def wb_mat_def wb_near_def)
  then show ?thesis
    using wb_mat_right [OF assms(1,2) _ assms(3)] wb_mat_left [OF assms(1,2) _ assms(3)] by blast
qed

lemma wb_upd_mat:
  assumes "lt_ok l" and "lt_ok r" and "cnt + 2 \<le> 2000004"
  shows "\<exists>t c. wb_mat (wb_upd (Br l s v r)) cnt = Some (t, c) \<and> c \<le> cnt + 2 \<and> lt_ok t \<and>
    lt_list t = lt_list l @ lt_list r \<and> (\<forall>d. wb_near d l r \<longrightarrow> wb_bal d t)"
  using wb_mat_ok [OF assms] by (simp add: wb_upd_def wb_matted_def)

section \<open>Insertion and deletion\<close>

lemma wb_near_insert:
  assumes "wb_bal d (Br l s v r)" and "d \<le> 1"
  shows "wb_bal d l' \<Longrightarrow> lt_size l' = Suc (lt_size l) \<Longrightarrow> wb_near d l' r"
    and "wb_bal d r' \<Longrightarrow> lt_size r' = Suc (lt_size r) \<Longrightarrow> wb_near d l r'"
proof -
  have "d = 0 \<or> d = 1"
    using assms(2) by linarith
  then show "wb_bal d l' \<Longrightarrow> lt_size l' = Suc (lt_size l) \<Longrightarrow> wb_near d l' r"
    and "wb_bal d r' \<Longrightarrow> lt_size r' = Suc (lt_size r) \<Longrightarrow> wb_near d l r'"
    using assms(1) by (elim disjE; simp add: wb_near_def)+
qed

lemma wb_near_delete:
  assumes "wb_bal 1 (Br l s v r)"
  shows "wb_bal 1 l' \<Longrightarrow> Suc (lt_size l') = lt_size l \<Longrightarrow> wb_near 1 l' r"
    and "wb_bal 1 r' \<Longrightarrow> Suc (lt_size r') = lt_size r \<Longrightarrow> wb_near 1 l r'"
    and "wb_near 1 l r"
  using assms by (auto simp: wb_near_def)

lemma wb_ins_ok:
  assumes "lt_ok t" and "sorted (lt_list t)" and "cnt + 2 + 2 * wb_height t \<le> 2000004"
  shows "\<exists>t' c. wb_ins t x cnt = Some (t', c) \<and> c \<le> cnt + 2 + 2 * wb_height t \<and> lt_ok t' \<and>
    lt_list t' = insort x (lt_list t) \<and> (\<forall>d. d \<le> 1 \<longrightarrow> wb_bal d t \<longrightarrow> wb_bal d t')"
  using assms
proof (induction t arbitrary: cnt)
  case (Lf w)
  then show ?case
    by (auto simp: wb_add_def wb_mat_def wb_upd_def)
next
  case (Br l s v r)
  have ok: "lt_ok l" "lt_ok r" "sorted (lt_list l)" "sorted (lt_list r)"
    using Br.prems by (auto simp: sorted_append)
  have room: "cnt + 2 + 2 * wb_height l \<le> 2000004" "cnt + 2 + 2 * wb_height r \<le> 2000004"
      "\<And>c. c \<le> cnt + 2 + 2 * wb_height l \<Longrightarrow> c + 2 \<le> 2000004" "\<And>c. c \<le> cnt + 2 + 2 * wb_height r \<Longrightarrow> c + 2 \<le> 2000004"
    using Br.prems(3) by simp_all
  show ?case
  proof (cases "lt_val l \<ge> x")
    case True
    obtain l' c where l': "wb_ins l x cnt = Some (l', c)" "c \<le> cnt + 2 + 2 * wb_height l" "lt_ok l'"
        "lt_list l' = insort x (lt_list l)" "\<forall>d. d \<le> 1 \<longrightarrow> wb_bal d l \<longrightarrow> wb_bal d l'"
      using Br.IH(1) [OF ok(1,3) room(1)] by blast
    obtain t' c' where t': "wb_mat (wb_upd (Br l' s v r)) c = Some (t', c')" "c' \<le> c + 2" "lt_ok t'"
        "lt_list t' = lt_list l' @ lt_list r" "\<forall>d. wb_near d l' r \<longrightarrow> wb_bal d t'"
      using wb_upd_mat [OF l'(3) ok(2) room(3) [OF l'(2)], of s v] by blast
    have "lt_list t' = insort x (lt_list (Br l s v r))"
      using insort_leaves(1) [of "lt_list l" "lt_list r" x] Br.prems(2) True ok(1) t'(4) l'(4) by (simp add: lt_val_last)
    moreover have "wb_bal d t'" if "d \<le> 1" "wb_bal d (Br l s v r)" for d
      using that wb_near_insert(1) [OF that(2,1), of l'] t'(5) l' ok by (simp add: lt_size_list)
    moreover have "c' \<le> cnt + 2 + 2 * wb_height (Br l s v r)"
      using l'(2) t'(2) by simp
    ultimately show ?thesis
      using True l'(1) t'(1,3) by simp
  next
    case False
    obtain r' c where r': "wb_ins r x cnt = Some (r', c)" "c \<le> cnt + 2 + 2 * wb_height r" "lt_ok r'"
        "lt_list r' = insort x (lt_list r)" "\<forall>d. d \<le> 1 \<longrightarrow> wb_bal d r \<longrightarrow> wb_bal d r'"
      using Br.IH(2) [OF ok(2,4) room(2)] by blast
    obtain t' c' where t': "wb_mat (wb_upd (Br l s v r')) c = Some (t', c')" "c' \<le> c + 2" "lt_ok t'"
        "lt_list t' = lt_list l @ lt_list r'" "\<forall>d. wb_near d l r' \<longrightarrow> wb_bal d t'"
      using wb_upd_mat [OF ok(1) r'(3) room(4) [OF r'(2)], of s v] by blast
    have "lt_list t' = insort x (lt_list (Br l s v r))"
      using insort_leaves(2) [of "lt_list l" "lt_list r" x] Br.prems(2) False ok(1) t'(4) r'(4) by (simp add: lt_val_last)
    moreover have "wb_bal d t'" if "d \<le> 1" "wb_bal d (Br l s v r)" for d
      using that wb_near_insert(2) [OF that(2,1), of r'] t'(5) r' ok by (simp add: lt_size_list)
    moreover have "c' \<le> cnt + 2 + 2 * wb_height (Br l s v r)"
      using r'(2) t'(2) by simp
    ultimately show ?thesis
      using False r'(1) t'(1,3) by simp
  qed
qed

text \<open>\<open>upd\<close> and \<open>mat\<close> on the child that \<open>cp\<close> copied up.\<close>

lemma wb_upd_mat_child:
  assumes "lt_ok u" and "cnt + 2 \<le> 2000004" and "wb_bal 1 u"
  shows "\<exists>t c. wb_mat (wb_upd u) cnt = Some (t, c) \<and> c \<le> cnt + 2 \<and> lt_ok t \<and> lt_list t = lt_list u \<and> wb_bal 1 t"
proof (cases u)
  case (Lf v)
  then show ?thesis
    by (simp add: wb_mat_def wb_upd_def)
next
  case (Br l s v r)
  then show ?thesis
    using wb_upd_mat [of l r cnt s v] wb_near_delete(3) [of l s v r] assms by auto
qed

lemma wb_del_ok:
  assumes "lt_ok t" and "sorted (lt_list t)" and "x \<in> set (lt_list t)" and "t \<noteq> Lf x" and "wb_bal 1 t"
    and "cnt + 2 * wb_height t \<le> 2000004"
  shows "\<exists>t' c. wb_del t x cnt = Some (t', c) \<and> c \<le> cnt + 2 * wb_height t \<and> lt_ok t' \<and>
    lt_list t' = remove1 x (lt_list t) \<and> wb_bal 1 t'"
  using assms
proof (induction t)
  case (Lf v)
  then show ?case
    by simp
next
  case (Br l s v r)
  have ok: "lt_ok l" "lt_ok r" "sorted (lt_list l)" "sorted (lt_list r)" "wb_bal 1 l" "wb_bal 1 r" "cnt + 2 \<le> 2000004"
    using Br.prems by (auto simp: sorted_append)
  have room: "cnt + 2 * wb_height l \<le> 2000004" "cnt + 2 * wb_height r \<le> 2000004"
    using Br.prems(6) by simp_all
  note rem = remove1_leaves [of "lt_list l" "lt_list r" x]
  show ?case
  proof (cases "lt_val l \<ge> x")
    case True
    then have mem: "x \<in> set (lt_list l)" "remove1 x (lt_list l @ lt_list r) = remove1 x (lt_list l) @ lt_list r"
      using rem(1) Br.prems(2,3) ok(1) by (auto simp: lt_val_last)
    show ?thesis
    proof (cases "\<exists>w. l = Lf w")
      case leaf: True
      then have "l = Lf x"
        using mem(1) by auto
      then show ?thesis
        using wb_upd_mat_child [OF ok(2,7,6)] mem(2) by (auto simp: wb_cp_def)
    next
      case False
      obtain l' c where l': "wb_del l x cnt = Some (l', c)" "c \<le> cnt + 2 * wb_height l" "lt_ok l'"
          "lt_list l' = remove1 x (lt_list l)" "wb_bal 1 l'"
        using Br.IH(1) [OF ok(1,3) mem(1) _ ok(5) room(1)] False by blast
      have "c + 2 \<le> 2000004" "Suc (lt_size l') = lt_size l"
        using l'(2-4) ok(1) Br.prems(6) mem(1) length_pos_if_in_set [OF mem(1)] by (simp_all add: lt_size_list length_remove1)
      then obtain t' c' where t': "wb_mat (wb_upd (Br l' s v r)) c = Some (t', c')" "c' \<le> c + 2" "lt_ok t'"
          "lt_list t' = lt_list l' @ lt_list r" "wb_bal 1 t'"
        using wb_upd_mat [OF l'(3) ok(2), of c s v] wb_near_delete(1) [OF Br.prems(5) l'(5)] by blast
      have "c' \<le> cnt + 2 * wb_height (Br l s v r)"
        using l'(2) t'(2) by simp
      moreover have "wb_del (Br l s v r) x cnt = Some (t', c')"
        using True False l'(1) t'(1) by (cases l) simp_all
      ultimately show ?thesis
        using l'(4) t'(3-5) mem(2) by simp
    qed
  next
    case False
    then have mem: "x \<in> set (lt_list r)" "remove1 x (lt_list l @ lt_list r) = lt_list l @ remove1 x (lt_list r)"
      using rem(2) Br.prems(2,3) ok(1) by (auto simp: lt_val_last)
    show ?thesis
    proof (cases "\<exists>w. r = Lf w")
      case leaf: True
      then have "r = Lf x"
        using mem(1) by auto
      then show ?thesis
        using wb_upd_mat_child [OF ok(1,7,5)] mem(2) False by (auto simp: wb_cp_def)
    next
      case node: False
      obtain r' c where r': "wb_del r x cnt = Some (r', c)" "c \<le> cnt + 2 * wb_height r" "lt_ok r'"
          "lt_list r' = remove1 x (lt_list r)" "wb_bal 1 r'"
        using Br.IH(2) [OF ok(2,4) mem(1) _ ok(6) room(2)] node by blast
      have "c + 2 \<le> 2000004" "Suc (lt_size r') = lt_size r"
        using r'(2-4) ok(2) Br.prems(6) mem(1) length_pos_if_in_set [OF mem(1)] by (simp_all add: lt_size_list length_remove1)
      then obtain t' c' where t': "wb_mat (wb_upd (Br l s v r')) c = Some (t', c')" "c' \<le> c + 2" "lt_ok t'"
          "lt_list t' = lt_list l @ lt_list r'" "wb_bal 1 t'"
        using wb_upd_mat [OF ok(1) r'(3), of c s v] wb_near_delete(2) [OF Br.prems(5) r'(5)] by blast
      have "c' \<le> cnt + 2 * wb_height (Br l s v r)"
        using r'(2) t'(2) by simp
      moreover have "wb_del (Br l s v r) x cnt = Some (t', c')"
        using False node r'(1) t'(1) by (cases r) simp_all
      ultimately show ?thesis
        using r'(4) t'(3-5) mem(2) by simp
    qed
  qed
qed

section \<open>Height\<close>

lemma wb_bal_child:
  assumes "lt_ok (Br l s v r)" and "wb_bal 1 (Br l s v r)"
  shows "4 * (lt_size l - 1) \<le> 3 * (s - 1)" and "4 * (lt_size r - 1) \<le> 3 * (s - 1)"
proof -
  have "0 < lt_size l" "0 < lt_size r" "s = lt_size l + lt_size r"
    using assms(1) by simp_all
  then show "4 * (lt_size l - 1) \<le> 3 * (s - 1)" and "4 * (lt_size r - 1) \<le> 3 * (s - 1)"
    using assms(2) by auto
qed

lemma wb_height_size:
  assumes "lt_ok t" and "wb_bal 1 t" and "wb_height t = Suc h"
  shows "4 ^ h \<le> 3 ^ h * (lt_size t - 1)"
  using assms
proof (induction t arbitrary: h)
  case (Br l s v r)
  have pos: "0 < lt_size l" "0 < lt_size r" "s = lt_size l + lt_size r"
    using Br.prems(1) by simp_all
  have up: "4 ^ Suc h' \<le> 3 ^ Suc h' * (s - 1)" if "4 ^ h' \<le> 3 ^ h' * m" "4 * m \<le> 3 * (s - 1)" for h' and m :: nat
  proof -
    have "(4::nat) ^ Suc h' \<le> 3 ^ h' * (4 * m)"
      using that(1) by simp
    also have "\<dots> \<le> 3 ^ h' * (3 * (s - 1))"
      using that(2) by (rule mult_le_mono2)
    finally show ?thesis
      by simp
  qed
  consider "h = 0" | h' where "h = Suc h'" "wb_height l = h" | h' where "h = Suc h'" "wb_height r = h"
    using Br.prems(3) by (cases h) (auto simp: max_def split: if_splits)
  then show ?case
  proof cases
    case 1
    then show ?thesis
      using pos by simp
  next
    case (2 h')
    then show ?thesis
      using up [OF Br.IH(1) wb_bal_child(1) [OF Br.prems(1,2)]] Br.prems(1,2) by simp
  next
    case (3 h')
    then show ?thesis
      using up [OF Br.IH(2) wb_bal_child(2) [OF Br.prems(1,2)]] Br.prems(1,2) by simp
  qed
qed simp

lemma power_ratio: "3 ^ (34 + k) * 14000 < (4::nat) ^ (34 + k)"
proof (induction k)
  case (Suc k)
  have "3 ^ (34 + Suc k) * 14000 = 3 * (3 ^ (34 + k) * (14000::nat))"
    by (simp only: add_Suc_right power_Suc mult.assoc)
  also have "\<dots> < 4 * 4 ^ (34 + k)"
    using Suc by linarith
  finally show ?case
    by (simp only: add_Suc_right power_Suc)
qed simp

lemma wb_height_le:
  assumes "lt_ok t" and "wb_bal 1 t" and "lt_size t \<le> 14001"
  shows "wb_height t \<le> 34"
proof (rule ccontr)
  assume "\<not> wb_height t \<le> 34"
  then obtain k where "wb_height t = Suc (34 + k)"
    by (metis add_Suc_right less_natE not_le)
  then have "4 ^ (34 + k) \<le> 3 ^ (34 + k) * (lt_size t - 1)"
    by (rule wb_height_size [OF assms(1,2)])
  also have "\<dots> \<le> 3 ^ (34 + k) * 14000"
    using assms(3) by (intro mult_le_mono2) simp
  finally show False
    using power_ratio [of k] by linarith
qed

section \<open>Queries\<close>

lemma wb_rnk_eq:
  assumes "lt_ok t" and "sorted (lt_list t)" and "x \<le> last (lt_list t)"
  shows "wb_rnk t x = int (length (filter (\<lambda>y. y < x) (lt_list t))) + 1"
  using assms
proof (induction t)
  case (Br l s v r)
  have s: "s \<noteq> 1"
    using lt_size_one [OF Br.prems(1)] by simp
  have srt: "sorted (lt_list l @ lt_list r)"
    using Br.prems(2) by simp
  show ?case
    using s Br filter_less_leaves [OF srt, of x]
    by (cases "lt_val l \<ge> x") (auto simp: lt_size_list lt_val_last sorted_append)
qed simp

lemma wb_kth_eq:
  assumes "lt_ok t" and "1 \<le> k" and "k \<le> int (length (lt_list t))"
  shows "wb_kth t k = Some (lt_list t ! nat (k - 1))"
  using assms
proof (induction t arbitrary: k)
  case (Br l s v r)
  have s: "s = length (lt_list l) + length (lt_list r)" "v = last (lt_list l @ lt_list r)"
    using Br.prems(1) lt_val_last [OF Br.prems(1)] by (simp_all add: lt_size_list)
  consider "int s = k" | "int s \<noteq> k" "int (length (lt_list l)) < k" | "int s \<noteq> k" "k \<le> int (length (lt_list l))"
    by linarith
  then show ?case
  proof cases
    case 1
    then have "nat (k - 1) = length (lt_list l @ lt_list r) - 1"
      using s(1) by (simp add: nat_diff_distrib)
    then show ?thesis
      using 1 s(2) by (simp add: last_conv_nth)
  next
    case 2
    then have "nat (k - 1) - length (lt_list l) = nat (k - int (length (lt_list l)) - 1)"
        "\<not> nat (k - 1) < length (lt_list l)"
      by linarith+
    then show ?thesis
      using 2 Br by (simp add: lt_size_list nth_append)
  next
    case 3
    then have "nat (k - 1) < length (lt_list l)"
      using Br.prems(2) by linarith
    then show ?thesis
      using 3 Br by (simp add: lt_size_list nth_append)
  qed
qed simp

section \<open>The program and the sorted list\<close>

text \<open>
  The tree has the numbers and the sentinel and is balanced up to 1. Each of \<open>cap\<close> further insertions makes at most 70
  nodes, each deletion at most 68, and the arrays have room for them.
\<close>

definition wb_stands :: "wblt \<Rightarrow> nat \<Rightarrow> int list \<Rightarrow> bool" where
  "wb_stands T cap xs = (lt_ok (wb_rt T) \<and> wb_bal 1 (wb_rt T) \<and> lt_list (wb_rt T) = xs @ [2147483647] \<and> sorted xs \<and>
     (\<forall>x \<in> set xs. x < 2147483647) \<and> length xs + cap \<le> 14000 \<and>
     wb_cnt T + 138 * cap + 68 * length xs \<le> 2000004)"

lemma wb_standsD:
  assumes "wb_stands T cap xs"
  shows "lt_ok (wb_rt T)" "wb_bal 1 (wb_rt T)" "lt_list (wb_rt T) = xs @ [2147483647]" "sorted xs"
    "\<forall>x \<in> set xs. x < 2147483647" "length xs + cap \<le> 14000" "wb_cnt T + 138 * cap + 68 * length xs \<le> 2000004"
    "sorted (xs @ [2147483647])" "wb_height (wb_rt T) \<le> 34"
proof -
  show "wb_height (wb_rt T) \<le> 34"
    using assms by (intro wb_height_le) (auto simp: wb_stands_def lt_size_list)
qed (use assms in \<open>auto simp: wb_stands_def sorted_append\<close>)

lemma wb_step_insert:
  assumes "wb_stands T (Suc cap) xs" and "x < 2147483647"
  shows "\<exists>T'. wb_step T (BInsert x) = Some (T', []) \<and> wb_stands T' cap (insort x xs)"
proof -
  note d = wb_standsD [OF assms(1)]
  have "insort x (xs @ [2147483647]) = insort x xs @ [2147483647]"
    using assms(2) by (intro insort_append(1)) simp
  moreover have "wb_cnt T + 2 + 2 * wb_height (wb_rt T) \<le> 2000004"
    using d(7,9) by simp
  ultimately obtain t c where t: "wb_ins (wb_rt T) x (wb_cnt T) = Some (t, c)" "c \<le> wb_cnt T + 2 + 2 * wb_height (wb_rt T)"
      "lt_ok t" "lt_list t = insort x xs @ [2147483647]" "wb_bal 1 t"
    using wb_ins_ok [OF d(1), of "wb_cnt T" x] d(2,3,8) by (metis order_refl)
  have "c + 138 * cap + 68 * length (insort x xs) \<le> 2000004"
    using t(2) d(7,9) by simp
  then show ?thesis
    using t d assms(2) by (auto simp: wb_stands_def set_insort_key sorted_insort)
qed

lemma wb_step_delete:
  assumes "wb_stands T cap xs" and "x \<in> set xs"
  shows "\<exists>T'. wb_step T (BDelete x) = Some (T', []) \<and> wb_stands T' cap (remove1 x xs)"
proof -
  note d = wb_standsD [OF assms(1)]
  have len: "1 \<le> length xs"
    using length_pos_if_in_set [OF assms(2)] by linarith
  then have "wb_cnt T + 2 * wb_height (wb_rt T) \<le> 2000004"
    using d(7,9) by linarith
  moreover have "x \<in> set (lt_list (wb_rt T))" "wb_rt T \<noteq> Lf x"
    using d(3) assms(2) by auto
  ultimately obtain t c where t: "wb_del (wb_rt T) x (wb_cnt T) = Some (t, c)" "c \<le> wb_cnt T + 2 * wb_height (wb_rt T)"
      "lt_ok t" "lt_list t = remove1 x xs @ [2147483647]" "wb_bal 1 t"
    using wb_del_ok [OF d(1), of x "wb_cnt T"] d(2,3,8) assms(2) by (auto simp: remove1_append)
  have "c + 138 * cap + 68 * length (remove1 x xs) \<le> 2000004"
    using t(2) d(7,9) len assms(2) by (simp add: length_remove1)
  moreover have "\<forall>y \<in> set (remove1 x xs). y < 2147483647"
    using d(5) set_remove1_subset [of x xs] by blast
  ultimately show ?thesis
    using t d len assms(2) by (auto simp: wb_stands_def length_remove1 sorted_remove1)
qed

lemma wb_rnk_stands:
  assumes "wb_stands T cap xs" and "x \<le> 2147483647"
  shows "wb_rnk (wb_rt T) x = int (length (filter (\<lambda>y. y < x) xs)) + 1"
  using wb_standsD [OF assms(1)] wb_rnk_eq [of "wb_rt T" x] assms(2) by simp

lemma wb_kth_stands:
  assumes "wb_stands T cap xs" and "1 \<le> k" and "k \<le> int (length xs) + 1"
  shows "wb_kth (wb_rt T) k = Some ((xs @ [2147483647]) ! nat (k - 1))"
  using wb_standsD [OF assms(1)] wb_kth_eq [of "wb_rt T" k] assms(2,3) by simp

lemma wb_step_query:
  assumes "wb_stands T cap xs"
  shows "x \<le> 2147483647 \<Longrightarrow> wb_step T (BRank x) = Some (T, [int (length (filter (\<lambda>y. y < x) xs)) + 1])"
    and "1 \<le> k \<Longrightarrow> k \<le> int (length xs) \<Longrightarrow> wb_step T (BKth k) = Some (T, [xs ! nat (k - 1)])"
    and "\<exists>y \<in> set xs. y < x \<Longrightarrow> x \<le> 2147483647 \<Longrightarrow> wb_step T (BPred x) = Some (T, [last (filter (\<lambda>y. y < x) xs)])"
    and "x < 2147483647 \<Longrightarrow> wb_step T (BSucc x) =
      Some (T, [if \<exists>y \<in> set xs. x < y then hd (filter (\<lambda>y. x < y) xs) else 2147483647])"
proof -
  note d = wb_standsD [OF assms] and kth = wb_kth_stands [OF assms] and rank = wb_rnk_stands [OF assms]
  show "wb_step T (BRank x) = Some (T, [int (length (filter (\<lambda>y. y < x) xs)) + 1])" if "x \<le> 2147483647"
    using rank [OF that] by simp
  show "wb_step T (BKth k) = Some (T, [xs ! nat (k - 1)])" if "1 \<le> k" "k \<le> int (length xs)"
  proof -
    have "nat (k - 1) < length xs"
      using that by linarith
    then show ?thesis
      using kth [of k] that by (simp add: nth_append)
  qed
  show "wb_step T (BPred x) = Some (T, [last (filter (\<lambda>y. y < x) xs)])"
    if "\<exists>y \<in> set xs. y < x" "x \<le> 2147483647"
    using kth_pred [of xs x _ "wb_kth (wb_rt T)" Some 2147483647, OF d(4) that(1) rank [OF that(2)] kth] by (simp add: wb_pre_def)
  show "wb_step T (BSucc x) =
      Some (T, [if \<exists>y \<in> set xs. x < y then hd (filter (\<lambda>y. x < y) xs) else 2147483647])"
    if "x < 2147483647"
    using kth_succ [of xs _ x "wb_kth (wb_rt T)" Some 2147483647, OF d(4) rank [of "x + 1"] kth] that by (simp add: wb_nxt_def)
qed

interpretation wblt: ordered_bag wb_step wb_stands 2147483647
proof
  fix T cap xs op
  assume st: "wb_stands T cap xs" "answered xs op" "operand op \<le> 2147483647"
    and q: "\<forall>x. op \<noteq> BInsert x \<and> op \<noteq> BDelete x"
  show "wb_step T op = Some (T, snd (ref_bag xs op))"
  proof (cases op)
    case (BSucc x)
    then show ?thesis
      using st wb_step_query(4) [OF st(1), of x] wb_standsD(5) [OF st(1)] by force
  qed (use st q wb_step_query(1-3) [OF st(1)] in \<open>auto simp del: wb_step.simps\<close>)
next
  show "wb_stands T cap xs \<Longrightarrow> sorted xs" for T cap xs
    by (simp add: wb_stands_def)
  show "wb_stands T (Suc cap) xs \<Longrightarrow> x < 2147483647 \<Longrightarrow>
      \<exists>m'. wb_step T (BInsert x) = Some (m', []) \<and> wb_stands m' cap (insort x xs)" for T cap xs x
    by (rule wb_step_insert)
  show "wb_stands T cap xs \<Longrightarrow> x \<in> set xs \<Longrightarrow>
      \<exists>m'. wb_step T (BDelete x) = Some (m', []) \<and> wb_stands m' cap (remove1 x xs)" for T cap xs x
    by (rule wb_step_delete)
qed

lemma wb_main_run:
  assumes "valid_input 14000 2147483647 [] ops"
  shows "\<exists>T cap. wb_main ops = Some (T, snd (ref_bags [] ops)) \<and> wb_stands T cap (fst (ref_bags [] ops))"
  unfolding wb_main_def by (rule wblt.run_refines [OF _ assms]) (simp add: wb_stands_def)

text \<open>C39. On an input of at most 14000 insertions of numbers below the sentinel 2147483647 whose operations have an answer the weight-balanced leafy tree ends, stays within
  its arrays, and prints what the sorted list gives. In the end no child has more than three times the leaves of its
  sibling plus one, so the height is at most 34.\<close>

theorem wblt_main_correct:
  assumes "valid_input 14000 2147483647 [] ops"
  shows "\<exists>T. wb_main ops = Some (T, snd (ref_bags [] ops)) \<and> lt_ok (wb_rt T) \<and>
    lt_list (wb_rt T) = fst (ref_bags [] ops) @ [2147483647] \<and> wb_bal 1 (wb_rt T) \<and> wb_height (wb_rt T) \<le> 34 \<and>
    wb_cnt T < 2000005"
proof -
  obtain T cap where run: "wb_main ops = Some (T, snd (ref_bags [] ops))" and st: "wb_stands T cap (fst (ref_bags [] ops))"
    using wb_main_run [OF assms] by blast
  have "wb_cnt T < 2000005"
    using wb_standsD(7) [OF st] by linarith
  then show ?thesis
    using run wb_standsD [OF st] by blast
qed

theorem wblt_main_correct_witness:
  "\<exists>T. wb_main [BInsert 5, BInsert 3, BInsert 5, BRank 5, BDelete 5, BKth 2, BPred 5] = Some (T, [2, 5, 3]) \<and>
    lt_ok (wb_rt T) \<and> lt_list (wb_rt T) = [3, 5, 2147483647] \<and> wb_bal 1 (wb_rt T) \<and> wb_height (wb_rt T) \<le> 34 \<and>
    wb_cnt T < 2000005"
  using wblt_main_correct [of "[BInsert 5, BInsert 3, BInsert 5, BRank 5, BDelete 5, BKth 2, BPred 5]"]
  by simp

section \<open>Balance without the slack\<close>

fun deletes :: "bag_op \<Rightarrow> bool" where
  "deletes (BDelete x) = True"
| "deletes _ = False"

lemma wb_step_bal:
  assumes "wb_stands T cap xs" and "wb_bal 0 (wb_rt T)" and "answered xs op" and "operand op \<le> 2147483647"
    and "case inserted op of None \<Rightarrow> True | Some x \<Rightarrow> x < 2147483647 \<and> 0 < cap" and "\<not> deletes op"
    and "wb_step T op = Some (T', out)"
  shows "wb_bal 0 (wb_rt T')"
proof (cases op)
  case (BInsert x)
  note d = wb_standsD [OF assms(1)]
  have "138 \<le> 138 * cap"
    using assms(5) BInsert by simp
  then have "wb_cnt T + 2 + 2 * wb_height (wb_rt T) \<le> 2000004"
    using d(7,9) by linarith
  then show ?thesis
    using wb_ins_ok [OF d(1), of "wb_cnt T" x] d(3,8) assms(2,7) BInsert by auto
qed (use assms in \<open>auto simp: bind_eq_Some_conv\<close>)

lemma wb_run_bal:
  assumes "wb_stands T cap xs" and "wb_bal 0 (wb_rt T)" and "valid_input cap 2147483647 xs ops"
    and "list_all (\<lambda>op. \<not> deletes op) ops"
  shows "\<exists>T' out. run_bag wb_step T ops = Some (T', out) \<and> wb_bal 0 (wb_rt T')"
  using assms
proof (induction ops arbitrary: T cap xs)
  case (Cons op ops)
  obtain T1 where T1: "wb_step T op = Some (T1, snd (ref_bag xs op))"
      "wb_stands T1 (case inserted op of None \<Rightarrow> cap | Some x \<Rightarrow> cap - 1) (fst (ref_bag xs op))"
    using wblt.step_refines [OF Cons.prems(1), of op] Cons.prems(3) by auto
  have "wb_bal 0 (wb_rt T1)"
    using wb_step_bal [OF Cons.prems(1,2) _ _ _ _ T1(1)] Cons.prems(3,4) by simp
  then show ?case
    using Cons.IH [OF T1(2)] T1(1) Cons.prems(3,4) by auto
qed simp

text \<open>Without deletions the tree keeps the balance \<open>mat\<close> aims at: after any sequence of insertions and queries no child has
  more than three times the leaves of its sibling.\<close>

theorem wblt_insertions_balanced:
  assumes "valid_input 14000 2147483647 [] ops" and "list_all (\<lambda>op. \<not> deletes op) ops"
  shows "\<exists>T out. wb_main ops = Some (T, out) \<and> wb_bal 0 (wb_rt T)"
  unfolding wb_main_def by (rule wb_run_bal [OF _ _ assms]) (simp_all add: wb_stands_def)

theorem wblt_insertions_balanced_witness:
  "\<exists>T out. wb_main [BInsert 1, BInsert 2, BInsert 3, BInsert 4] = Some (T, out) \<and> wb_bal 0 (wb_rt T)"
  by (rule wblt_insertions_balanced) simp_all

text \<open>A deletion can break that balance: deleting 50 from the tree of the seven numbers below leaves a node with four leaves on the
  left and one on the right. \<open>mat\<close> rotates once where the inner grandchild has exactly twice the leaves of the outer one.\<close>

theorem wblt_delete_unbalances:
  "\<exists>T T'. wb_main (map BInsert [50, 40, 30, 20, 10, 25, 22]) = Some (T, []) \<and> wb_bal 0 (wb_rt T) \<and>
    wb_main (map BInsert [50, 40, 30, 20, 10, 25, 22] @ [BDelete 50]) = Some (T', []) \<and> \<not> wb_bal 0 (wb_rt T')"
  by (simp add: wb_main_def wb_add_def wb_mat_def wb_upd_def wb_rot_def wb_merge_def wb_cp_def cong: bind_weak_cong)

section \<open>Operations without an answer\<close>

text \<open>At a leaf, and from there at index 0, \<open>kth\<close> ends only for the positions 0 and 1.\<close>

lemma wb_kth_zero: "lt_ok t \<Longrightarrow> wb_kth t 0 = Some 0"
proof (induction t)
  case (Br l s v r)
  then have "s \<noteq> 0" "lt_ok l"
    using lt_size_pos [of l] by auto
  then show ?case
    using Br.IH(1) by simp
qed (simp add: wb_kth_0_def)

lemma wb_kth_outside:
  assumes "lt_ok t" and "k < 0 \<or> int (length (lt_list t)) < k"
  shows "wb_kth t k = None"
  using assms
proof (induction t arbitrary: k)
  case (Br l s v r)
  then show ?case
    by (auto simp: lt_size_list)
qed (auto simp: wb_kth_0_def)

lemma wb_cp_absent: "lt_ok l \<Longrightarrow> lt_ok r \<Longrightarrow> x \<notin> set (lt_list l @ lt_list r) \<Longrightarrow> wb_cp l s v r x = Br l s v r"
  using last_in_set [of "lt_list l"] last_in_set [of "lt_list r"] by (auto simp: wb_cp_def lt_val_last)

lemma wb_del_absent:
  assumes "lt_ok t" and "x \<notin> set (lt_list t)" and "\<nexists>v. t = Lf v" and "wb_bal 1 t" and "cnt + 2 * wb_height t \<le> 2000004"
  shows "\<exists>t' c. wb_del t x cnt = Some (t', c) \<and> c \<le> cnt + 2 * wb_height t \<and> lt_ok t' \<and> lt_list t' = lt_list t \<and> wb_bal 1 t'"
  using assms
proof (induction t)
  case (Br l s v r)
  have ok: "lt_ok l" "lt_ok r" "wb_bal 1 l" "wb_bal 1 r" "x \<notin> set (lt_list l)" "x \<notin> set (lt_list r)"
    and cp: "wb_cp l s v r x = Br l s v r"
    using Br.prems wb_cp_absent [of l r x s v] by auto
  have room: "cnt + 2 * wb_height l \<le> 2000004" "cnt + 2 * wb_height r \<le> 2000004"
    using Br.prems(5) by simp_all
  have fix_up: "\<exists>t' c'. wb_mat (wb_upd (Br l' s v r')) c = Some (t', c') \<and> c' \<le> cnt + 2 * wb_height (Br l s v r) \<and>
      lt_ok t' \<and> lt_list t' = lt_list l @ lt_list r \<and> wb_bal 1 t'"
    if "lt_ok l'" "lt_ok r'" "lt_list l' = lt_list l" "lt_list r' = lt_list r" "wb_bal 1 l'" "wb_bal 1 r'"
      "c \<le> cnt + 2 * max (wb_height l) (wb_height r)" for l' r' c
  proof -
    have "wb_near 1 l' r'"
      using that Br.prems(1,4) by (simp add: wb_near_def lt_size_list)
    moreover have "c + 2 \<le> 2000004"
      using that(7) Br.prems(5) by simp
    ultimately show ?thesis
      using wb_upd_mat [OF that(1,2), of c s v] that(3,4,7) by fastforce
  qed
  show ?case
  proof (cases "lt_val l \<ge> x")
    case True
    show ?thesis
    proof (cases "\<exists>w. l = Lf w")
      case leaf: True
      then show ?thesis
        using True cp fix_up [OF ok(1,2) refl refl ok(3,4), of cnt] by auto
    next
      case False
      then obtain l' c where l': "wb_del l x cnt = Some (l', c)" "c \<le> cnt + 2 * wb_height l" "lt_ok l'"
          "lt_list l' = lt_list l" "wb_bal 1 l'"
        using Br.IH(1) [OF ok(1,5) _ ok(3) room(1)] by blast
      have "wb_del (Br l s v r) x cnt = wb_mat (wb_upd (Br l' s v r)) c"
        using True False l'(1) by (cases l) simp_all
      then show ?thesis
        using fix_up [OF l'(3) ok(2) l'(4) refl l'(5) ok(4), of c] l'(2) by simp
    qed
  next
    case False
    show ?thesis
    proof (cases "\<exists>w. r = Lf w")
      case leaf: True
      then show ?thesis
        using False cp fix_up [OF ok(1,2) refl refl ok(3,4), of cnt] by auto
    next
      case node: False
      then obtain r' c where r': "wb_del r x cnt = Some (r', c)" "c \<le> cnt + 2 * wb_height r" "lt_ok r'"
          "lt_list r' = lt_list r" "wb_bal 1 r'"
        using Br.IH(2) [OF ok(2,6) _ ok(4) room(2)] by blast
      have "wb_del (Br l s v r) x cnt = wb_mat (wb_upd (Br l s v r')) c"
        using False node r'(1) by (cases r) simp_all
      then show ?thesis
        using fix_up [OF ok(1) r'(3) refl r'(4) ok(3) r'(5), of c] r'(2) by simp
    qed
  qed
qed simp

text \<open>The operations of the weight-balanced leafy tree that have no answer: deleting from an empty bag reads outside the
  arrays, deleting an absent number from another bag leaves its numbers alone, \<open>kth\<close> prints 0 for
  position 0 and the sentinel for the position after the last and does not return for any other position outside the
  bag, a number without predecessor gets 0, and one without successor the sentinel.\<close>

theorem wblt_unanswered:
  assumes "wb_stands T cap xs" and "x < 2147483647"
  shows "(xs = [] \<longrightarrow> wb_step T (BDelete x) = None) \<and>
    (xs \<noteq> [] \<longrightarrow> x \<notin> set xs \<longrightarrow>
      (\<exists>T'. wb_step T (BDelete x) = Some (T', []) \<and> lt_ok (wb_rt T') \<and> lt_list (wb_rt T') = xs @ [2147483647])) \<and>
    wb_step T (BKth 0) = Some (T, [0]) \<and>
    wb_step T (BKth (int (length xs) + 1)) = Some (T, [2147483647]) \<and>
    (k < 0 \<or> int (length xs) + 1 < k \<longrightarrow> wb_step T (BKth k) = None) \<and>
    (\<not> answered xs (BPred x) \<longrightarrow> wb_step T (BPred x) = Some (T, [0])) \<and>
    (\<not> answered xs (BSucc x) \<longrightarrow> wb_step T (BSucc x) = Some (T, [2147483647]))"
proof (intro conjI impI)
  note d = wb_standsD [OF assms(1)]
  show "wb_step T (BDelete x) = None" if "xs = []"
    using that d(1,3) lt_size_one [OF d(1)] by (auto simp: lt_size_list)
  show "\<exists>T'. wb_step T (BDelete x) = Some (T', []) \<and> lt_ok (wb_rt T') \<and> lt_list (wb_rt T') = xs @ [2147483647]"
    if "xs \<noteq> []" "x \<notin> set xs"
  proof -
    have "0 < length xs"
      using that(1) by simp
    then have "wb_cnt T + 2 * wb_height (wb_rt T) \<le> 2000004"
      using d(7,9) by linarith
    moreover have "x \<notin> set (lt_list (wb_rt T))" "\<nexists>v. wb_rt T = Lf v"
      using that d(3) assms(2) by auto
    ultimately show ?thesis
      using wb_del_absent [OF d(1) _ _ d(2), of x "wb_cnt T"] d(3) by auto
  qed
  show "wb_step T (BKth 0) = Some (T, [0])"
    using wb_kth_zero [OF d(1)] by simp
  show "wb_step T (BKth (int (length xs) + 1)) = Some (T, [2147483647])"
    using wb_kth_stands [OF assms(1), of "int (length xs) + 1"] by (simp add: nth_append)
  show "wb_step T (BKth k) = None" if "k < 0 \<or> int (length xs) + 1 < k"
    using wb_kth_outside [OF d(1), of k] that d(3) by auto
  show "wb_step T (BPred x) = Some (T, [0])" if "\<not> answered xs (BPred x)"
  proof -
    have "filter (\<lambda>y. y < x) xs = []"
      using that by (auto simp: filter_empty_conv)
    then have "wb_rnk (wb_rt T) x = 1"
      using wb_rnk_stands [OF assms(1), of x] assms(2) by simp
    then show ?thesis
      using wb_kth_zero [OF d(1)] by (simp add: wb_pre_def)
  qed
  show "wb_step T (BSucc x) = Some (T, [2147483647])" if "\<not> answered xs (BSucc x)"
    using wb_step_query(4) [OF assms] that by auto
qed

theorem wblt_unanswered_witness:
  "wb_step \<lparr>wb_rt = Lf 2147483647, wb_cnt = 1\<rparr> (BDelete 6) = None \<and>
    wb_step \<lparr>wb_rt = Lf 2147483647, wb_cnt = 1\<rparr> (BKth 2) = None"
  using wblt_unanswered [of "\<lparr>wb_rt = Lf 2147483647, wb_cnt = 1\<rparr>" 14000 "[]" 6 2]
  by (simp add: wb_stands_def)

end
