(* ===== verification/Spec2Isabelle.thy ===== *)
theory Spec2Isabelle
  imports ForestPrograms Dsu PersistentDsu PersistentTrie Leftist SparseTable SparseTableClass MonotonousQueue RunningMedian Blocks BlockList CartesianTree SegBeats HistoricMax AvlTreeMap SizeBalancedTreeMap RBTreeRemove RangeAdd RangeSet RangeAffine MergeSplit Treap LeafyTree Wblt
begin

text \<open>
  \<^bold>\<open>A verification development for the data-structure programs of the repository.\<close>

  The repository's own C++ code is the collection of algorithm programs below
  \<^verbatim>\<open>src/conclusion/data-structure-algorithm/acm/\<close>. This library models programs of its chapter
  \<^verbatim>\<open>data-structure/code/\<close> (file names below are relative to it) and proves them correct, or shows in which
  situations they are not.

  \<^bold>\<open>Conventions.\<close> A call that ends in a failed \<^verbatim>\<open>assert\<close>, in a null dereference, in an access outside an array
  or in no return at all has the result \<open>None\<close>; a C++ exception is a value of \<open>exn\<close> (theory
  \<open>Prelude\<close>). A loop or recursion whose end is not evident is a \<open>partial_function (option)\<close>, and that it ends is part of
  the theorems. No fuel is used. \<open>Compare\<close> template arguments are a parameter with the locale \<open>compare_order\<close> (a strict
  total order), \<open>rand()\<close> is a parameter without any assumption. \<open>int\<close> and \<open>long long\<close> data are
  unbounded integers (the segment trees: elements of any commutative ring, so wrap-around
  arithmetic is covered); where a width matters the model has it: as machine words where the program relies on the wrap-around or converts, as
  integers with a check where an overflow is undefined (\<open>long_long\<close> and \<open>ll_mod\<close> of \<open>Prelude\<close>, \<open>int_plus\<close> of \<open>HistoricMax\<close>). Standard input is the list of parsed operations, standard output the list of
  printed numbers, except for the sparse table, whose input and output are texts.

  \<^bold>\<open>Ordered maps.\<close> The three classes have the same interface.
  \<^item> \<open>MapInterface\<close>: the 20 public calls the classes share as a datatype, their reference meaning on key-sorted entry lists (a failed
    assertion for \<open>contains\<close> on an empty map), and the locale \<open>ordered_map\<close> whose laws say that one call agrees with the reference;
    what follows for call sequences is proved there.
  \<^item> \<open>SearchTree\<close>: the node type and the read-only code that \<^verbatim>\<open>avl-tree/AvlTreeMap.hpp\<close> and
    \<^verbatim>\<open>size-balanced-tree/SizeBalancedTreeMap.hpp\<close> share word for word (lookup, the four neighbour
    searches with their climbing loops, the traversal with an explicit stack). A \<^verbatim>\<open>shared_ptr\<close> is the subtree it owns.
  \<^item> \<open>AvlTreeMap\<close>, \<open>SizeBalancedTreeMap\<close>: the classes with insertion, removal, rotations and rebalancing. Shown: every
    call sequence returns what the reference returns and fails only where the reference does, insertions keep the balance and the logarithmic
    height, the nested recursion of \<open>fixBalance\<close> of the size-balanced tree ends, the counting operations of that class are right for the natural
    order of the keys; removals keep the entries but can destroy the balance.
  \<^item> \<open>RBTreeMap\<close>: \<^verbatim>\<open>rbtree/RBTreeMap.hpp\<close> on an explicit heap of nodes with parent, left and right pointers.
    \<open>RBTreeHeap\<close> relates heaps to trees with a path to the focus, \<open>RBTreeInsert\<close>, \<open>RBTreeLaws\<close> and
    \<open>RBTreeRemove\<close> prove the operations. Shown: agreement with the reference and red-black balance for all sequences in
    which no removal takes an entry out of a map of two, exactly when a removal keeps the map well-formed, and what the
    dangling parent pointer does otherwise.

  \<^bold>\<open>Lazy segment trees.\<close>
  \<^item> \<open>SegTree\<close>: checked arrays, the index set of a subtree, the bound \<open>4 * n\<close> on the indices, and the locales \<open>segment_nodes\<close>,
    \<open>range_update\<close>, \<open>range_collect\<close>, \<open>range_fold\<close>, \<open>range_query\<close>, \<open>range_program\<close> with the laws of applying, pushing down and pulling up.
  \<^item> \<open>RangeAdd\<close> (\<^verbatim>\<open>seg/seg_1.cpp\<close>, \<^verbatim>\<open>seg/seg_4.hpp\<close>), \<open>RangeSet\<close> (\<^verbatim>\<open>seg/seg_3.cpp\<close>, \<^verbatim>\<open>seg/seg_5.hpp\<close>), \<open>RangeAffine\<close>
    (\<^verbatim>\<open>seg/seg_2.cpp\<close>): the programs with the array sizes of the source (270000, 400005, or four times the vector), and
    that they print what a cell-by-cell program prints; where they do not (every assignment of 0 to the whole range is lost, an unreduced sum, a
    read past the end). The \<open>int\<close> arguments of the two classes are converted to the element type; the products of \<^verbatim>\<open>seg_2.cpp\<close> are
    checked to stay within 64 bits, which they do for numbers and a modulus of at most \<open>2 ^ 31\<close>.
  \<^item> \<open>SegBeats\<close> (\<^verbatim>\<open>seg-beats/seg-beats_1.cpp\<close>): capping the cells of a range, with range maxima and sums; the locale \<open>range_fold\<close> of \<open>SegTree\<close> serves both queries.
  \<^item> \<open>HistoricMax\<close> (\<^verbatim>\<open>seg-beats/seg-beats_3.cpp\<close>): range additions and assignments, greatest present and greatest past values, in 32 bits. Shown: the answers are
    those of cells that remember their greatest value; no sum overflows while the cells stay below \<open>2 ^ 30\<close> in size.
  \<^item> \<open>SegPool\<close>, \<open>MergeSplit\<close> (\<^verbatim>\<open>seg/seg_7.cpp\<close>): segment trees whose nodes are allocated on demand, moved between trees by \<open>merge\<close> and \<open>split\<close> and
    recycled. Shown: the answers are those of bags of numbers, every node has one owner, and the pool suffices (an operation takes at most 36 nodes);
    the sums are 64-bit words, exact while the counts of a set add up to less than \<open>2 ^ 63\<close>.

  \<^bold>\<open>Order-statistics trees.\<close>
  \<^item> \<open>OrderedBag\<close>: the operations of these programs, their meaning on a sorted list, and the locale \<open>ordered_bag\<close> with the laws of one
    operation; \<open>cap\<close> counts the insertions there is room for.
  \<^item> \<open>Treap\<close> (\<^verbatim>\<open>treap/treap_1.cpp\<close>), \<open>LeafTree\<close> with \<open>LeafyTree\<close> (\<^verbatim>\<open>leafy-tree/leafy-tree_1.cpp\<close>) and \<open>Wblt\<close> (\<^verbatim>\<open>wblt/wblt_1.cpp\<close>).
    Node indices and pointers are the subtrees below them. Shown: the printed answers, the search-tree, heap, size and balance
    invariants, that the node pools suffice (100004 nodes for the treap; 200001 nodes of the leafy tree, two per number;
    2000004 indices of the weight-balanced tree, of which an insertion takes at most 70 and a deletion at most 68
    since the height is at most 34 for 14000 numbers), and what the programs do for operations without an answer.

  \<^bold>\<open>Euler tour trees\<close> (\<^verbatim>\<open>ett/ett_subtree_size.cpp\<close>, \<^verbatim>\<open>ett/ett_connectivity.cpp\<close>).
  \<^item> \<open>EulerTour\<close>: forests as sets of arcs, their tours, and that linking two trees and cutting an edge are a concatenation and a
    cut of tours.
  \<^item> \<open>EttTreap\<close>: the nodes with parent pointers on an explicit heap, and the class \<open>Treap\<close>: \<open>Merge\<close>, \<open>GetPosition\<close>, and the bottom-up
    splits, which concatenate and cut the sequences of the trees; equal priorities do no harm.
  \<^item> \<open>DynamicForest\<close>: the class, its constructor and destructor; a state keeps the tours of the forest of its edges.
  \<^item> \<open>ForestPrograms\<close>: the two programs. Shown: they end and print what the graph of the current edges says; the products that
    \<^verbatim>\<open>ett_subtree_size.cpp\<close> prints fit into 32 bits up to 92680 vertices and overflow at 100000.

  \<^bold>\<open>Disjoint sets, range maxima, input.\<close>
  \<^item> \<open>QueryLoop\<close>: checked vectors, counting loops, the loop over the queries, and the locales \<open>query_program\<close>, \<open>counted_program\<close> and
    \<open>spec_program\<close> with the law of one query against a reference function or relation.
  \<^item> \<open>UnionFind\<close>, \<open>Dsu\<close> (\<^verbatim>\<open>dsu/dsu_1.cpp\<close>): \<open>find\<close> with path compression, union by size and moving a number to another set, with 64-bit
    counters. Shown: the printed sizes and sums are those of the current sets.
  \<^item> \<open>PersistentDsu\<close> (\<^verbatim>\<open>persistent-seg/persistent-seg_1.cpp\<close>): disjoint sets with all their versions, in segment trees that share nodes of a pool.
    Shown: the answers are those of the version asked, and the pool suffices (an operation takes at most 36 nodes of the 40 there are for it).
  \<^item> \<open>PersistentTrie\<close> (\<^verbatim>\<open>persistent-trie/persistent-trie_1.cpp\<close>): the same technique for a binary trie of prefix results, 30 nodes for each number.
  \<^item> \<open>Leftist\<close> (\<^verbatim>\<open>leftist-tree/leftist-tree_1.cpp\<close>): mergeable heaps in arrays, found by union-find. Shown: the program runs as the step relation
    \<open>team_step\<close> allows, which leaves open which of several weakest persons of a team is killed.
  \<^item> \<open>ReadInt\<close>: the functions \<open>read\<close> and \<open>rd\<close> of \<^verbatim>\<open>sparse-table/sparse-table_1.cpp\<close>, \<^verbatim>\<open>seg/seg_2.cpp\<close>, \<^verbatim>\<open>seg-beats/seg-beats_1.cpp\<close> and
    \<^verbatim>\<open>seg-beats/seg-beats_3.cpp\<close> on characters, and that they invert decimal output. \<open>SparseTable\<close>: the whole program from input text to output text.
  \<^item> \<open>SparseTableClass\<close> (\<^verbatim>\<open>sparse-table/sparse-table_2.hpp\<close>): the class template for any associative and idempotent operation (locale \<open>idempotent_op\<close>).
  \<^item> \<open>MonotonousQueue\<close> (\<^verbatim>\<open>monotonous-queue/monotonous-queue_1.cpp\<close>): the minima and maxima of all windows; the locale \<open>better_order\<close> has the algorithm
    for both.
  \<^item> \<open>RunningMedian\<close> (\<^verbatim>\<open>binary-heap/binary-heap_1.cpp\<close>): medians from two priority queues.
  \<^item> \<open>Blocks\<close> (\<^verbatim>\<open>decompose/decompose_1.cpp\<close>): range additions and range sums on an array cut into blocks of \<open>sqrt(n)\<close> elements. Shown: it prints the sums
    of the plain array modulo the given number, and no sum leaves 64 bits for 50004 numbers and operations of 32 bits.
  \<^item> \<open>BlockList\<close> (\<^verbatim>\<open>block-list/block-list_1.cpp\<close>): a text in a linked list of arrays. Shown: for texts that fit into the input
    buffer it behaves as the plain text and no array overflows.
  \<^item> \<open>CartesianTree\<close> (\<^verbatim>\<open>cartesian-tree/cartesian-tree_1.cpp\<close>): the tree is built along its right spine by climbing parent pointers. Shown: the printed
    number is the largest rectangle under the histogram.

  \<^bold>\<open>This theory\<close> has the properties that span components: the maps and the trees can replace one another.

  \<^bold>\<open>Not modelled.\<close> Parsing of the input and formatting of the output (except for the sparse table); the destructors (that of the Euler tour trees is) and the memory of the C++ runtime.
  The other programs of the chapter (two more leftist trees, one more beats segment tree, k-d trees, the Li Chao tree and others) and of
  the other chapters (graphs, strings, dynamic programming, mathematics) are not modelled so far. The repository's remaining C++
  is vendored (RocksDB and snappy below \<^verbatim>\<open>src/rust-exp/rust-rocksdb\<close>), the rest is in other languages.
\<close>

section \<open>Properties that span components\<close>

fun asks_ceiling :: "('k, 'v) map_call \<Rightarrow> bool" where
  "asks_ceiling (GetCeiling k) = True"
| "asks_ceiling _ = False"

lemma ref_call_message: "\<not> asks_ceiling op \<Longrightarrow> ref_call cm cmp es op = ref_call cm' cmp es op"
  by (cases op) simp_all

lemma ref_calls_message:
  "list_all (\<lambda>op. \<not> asks_ceiling op) ops \<Longrightarrow> ref_calls cm cmp es ops = ref_calls cm' cmp es ops"
  by (induction ops arbitrary: es) (simp_all add: ref_call_message [of _ cm cmp _ cm'])

lemma rb_results:
  assumes "compare_order cmp" and "safe_calls cmp [] ops" and "list_all (\<lambda>op. \<not> asks_ceiling op) ops"
  shows "map_option snd (calls (rb_class cmp) rb_new ops) = map_option snd (ref_calls plain_message cmp [] ops)"
  using agrees_results [OF rb_calls_refine [OF assms(1,2)]]
    ref_calls_message [OF assms(3), of rb_message cmp "[]" plain_message] by simp

text \<open>
  C27. The three map classes are interchangeable: every sequence of the public calls they share (those of
  \<open>map_call\<close>) on a fresh \<open>AvlTreeMap\<close> and on a fresh \<open>SizeBalancedTreeMap\<close> gives the same results, exceptions and
  failed assertions included; and so does a fresh \<open>RBTreeMap\<close>, provided that no removal takes an entry out of a
  map of exactly two and no ceiling entry is asked for (the message of that exception is worded differently).
\<close>

theorem maps_same_results:
  assumes "compare_order cmp"
  shows "map_option snd (calls (avl_class cmp) avl_new ops) = map_option snd (calls (sbt_class cmp) sbt_new ops) \<and>
    (safe_calls cmp [] ops \<and> list_all (\<lambda>op. \<not> asks_ceiling op) ops \<longrightarrow>
      map_option snd (calls (rb_class cmp) rb_new ops) = map_option snd (calls (avl_class cmp) avl_new ops))"
  using same_results [OF avl_ordered_map [OF assms] sbt_ordered_map [OF assms], of ops] rb_results [OF assms, of ops]
    agrees_results [OF ordered_map.fresh_map_refines [OF avl_ordered_map [OF assms], of ops]]
  by simp

theorem maps_same_results_witness:
  "map_option snd (calls (avl_class std_less) avl_new
      (map (\<lambda>k. map_call.Insert k ()) [3, 1, 2::nat] @ [Remove 3, GetFloor 3, Contains 2])) =
   map_option snd (calls (sbt_class std_less) sbt_new
      (map (\<lambda>k. map_call.Insert k ()) [3, 1, 2] @ [Remove 3, GetFloor 3, Contains 2])) \<and>
   map_option snd (calls (rb_class std_less) rb_new
      (map (\<lambda>k. map_call.Insert k ()) [3, 1, 2::nat] @ [Remove 3, GetFloor 3, Contains 2])) =
   map_option snd (calls (avl_class std_less) avl_new
      (map (\<lambda>k. map_call.Insert k ()) [3, 1, 2] @ [Remove 3, GetFloor 3, Contains 2]))"
proof -
  let ?ops = "map (\<lambda>k. map_call.Insert k ()) [3, 1, 2::nat] @ [Remove 3, GetFloor 3, Contains 2]"
  have "safe_calls std_less [] ?ops" "list_all (\<lambda>op. \<not> asks_ceiling op) ?ops"
    by (simp_all add: upd_entries_def lt_part_def gt_part_def)
  then show ?thesis
    using maps_same_results [OF less.compare_order_axioms, of ?ops] by blast
qed

text \<open>
  C40. The three order-statistics trees are interchangeable: on every input of at most 14000 insertions whose operations have an
  answer, the treap (whatever its random numbers), the leafy tree and the weight-balanced leafy tree
  print the same numbers.
\<close>

theorem trees_same_output:
  assumes "valid_input 14000 2147483647 [] ops"
  shows "map_option snd (tr_main rand ops) = map_option snd (wb_main ops) \<and>
    map_option snd (ly_main ops) = map_option snd (wb_main ops) \<and> wb_main ops \<noteq> None"
proof -
  have "valid_input 100004 2147483647 [] ops" "valid_input 100000 2147483647 [] ops"
    using assms by (rule valid_input_mono; simp)+
  then show ?thesis
    using tr_main_run [of 2147483647 ops rand] ly_main_run [of ops] wb_main_run [OF assms] by auto
qed

theorem trees_same_output_witness:
  "map_option snd (tr_main (\<lambda>i. 3 * int i mod 7) [BInsert 4, BInsert 9, BInsert 4, BSucc 4, BDelete 4, BRank 9]) =
    map_option snd (wb_main [BInsert 4, BInsert 9, BInsert 4, BSucc 4, BDelete 4, BRank 9])"
  using trees_same_output [of "[BInsert 4, BInsert 9, BInsert 4, BSucc 4, BDelete 4, BRank 9]" "\<lambda>i. 3 * int i mod 7"]
  by simp

end
